(* ===== verification/Prelude.thy ===== *)
theory Prelude
  imports Main "HOL-Library.Word" "HOL-Library.Monad_Syntax"
begin

text \<open>
  The vocabulary the component theories share.

  \<^item> Fixed-width integers of the source as words: \<open>u16\<close>, \<open>u32\<close>, \<open>u64\<close> (\<open>size_t\<close> and
    pointers are 64 bits wide on the two architectures \<open>environment.h\<close> accepts). A signed
    \<open>int32_t\<close> or \<open>int64_t\<close> is the same word read with \<open>sint\<close>.
  \<^item> Undefined behaviour as a value: an access outside an array, or a loop that never ends
    because nothing else runs, is \<open>None\<close> of the option monad; every theorem that a call returns
    \<open>Some\<close> therefore states memory safety and termination of that call.
  \<^item> \<open>bit_ceil_spec\<close>, the documented behaviour of \<open>absl::bit_ceil\<close>. The function itself is
    third-party code: every definition that calls it takes it as an argument.
  \<^item> The word lemmas (masking with a power of two minus one, masking with its negation) that
    turn the code's bit tricks into \<open>mod\<close> and \<open>div\<close>.
\<close>

unbundle bit_operations_syntax

type_synonym u8 = "8 word"
type_synonym u16 = "16 word"
type_synonym u32 = "32 word"
type_synonym u64 = "64 word"

named_theorems unat_simps \<open>rewriting of word operations to arithmetic on their naturals\<close>
named_theorems mem_simps \<open>reads and writes of modelled memory\<close>

section \<open>Checked memory\<close>

text \<open>
  A C++ array is a list. Reading or writing outside it is undefined behaviour: \<open>None\<close>.
\<close>

definition mem_read :: "'a list \<Rightarrow> nat \<Rightarrow> 'a option" where
  "mem_read m i = (if i < length m then Some (m ! i) else None)"

definition mem_write :: "'a list \<Rightarrow> nat \<Rightarrow> 'a \<Rightarrow> 'a list option" where
  "mem_write m i v = (if i < length m then Some (m[i := v]) else None)"

lemma mem_read_in [mem_simps]: "i < length m \<Longrightarrow> mem_read m i = Some (m ! i)"
  by (simp add: mem_read_def)

lemma mem_write_in [mem_simps]: "i < length m \<Longrightarrow> mem_write m i v = Some (m[i := v])"
  by (simp add: mem_write_def)

lemma mem_read_None_iff: "mem_read m i = None \<longleftrightarrow> length m \<le> i"
  by (simp add: mem_read_def)

lemma mem_write_None_iff: "mem_write m i v = None \<longleftrightarrow> length m \<le> i"
  by (simp add: mem_write_def)

lemma mem_write_length: "mem_write m i v = Some m' \<Longrightarrow> length m' = length m"
  by (auto simp: mem_write_def split: if_splits)

section \<open>Words as naturals\<close>

lemma unat_less_2p: "unat (w :: 'a::len word) < 2 ^ LENGTH('a)"
  by (rule unsigned_less)

lemma unat_of_nat_small: "n < 2 ^ LENGTH('a) \<Longrightarrow> unat (of_nat n :: 'a::len word) = n"
  by (simp only: unat_of_nat mod_less)

lemma unat_add_small:
  fixes a b :: "'a::len word"
  shows "unat a + unat b < 2 ^ LENGTH('a) \<Longrightarrow> unat (a + b) = unat a + unat b"
  by (simp only: unat_word_ariths mod_less)

lemma unat_and_mask [unat_simps]: "unat (w AND mask k) = unat (w :: 'a::len word) mod 2 ^ k"
  by (metis take_bit_eq_mask take_bit_eq_mod unsigned_take_bit_eq)

lemma unat_and_pow2_minus_1 [unat_simps]:
  "unat (w AND (2 ^ k - 1)) = unat (w :: 'a::len word) mod 2 ^ k"
  by (simp add: mask_eq_exp_minus_1 [symmetric] unat_simps)

lemma and_minus_pow2: "w AND - (2 ^ k) = w - (w AND mask k)" for w :: "'a::len word"
proof -
  have "NOT (mask k :: 'a word) = - (2 ^ k)"
    by (simp add: mask_eq_exp_minus_1 not_eq_complement)
  then have "w AND - (2 ^ k) = w AND NOT (mask k)" by simp
  also have "\<dots> = w AND NOT (w AND mask k)"
    by (rule bit_eqI) (auto simp: bit_simps)
  also have "\<dots> = w - (w AND mask k)"
    by (rule disjunctive_diff [symmetric]) (simp add: bit_simps)
  finally show ?thesis .
qed

lemma unat_and_minus_pow2 [unat_simps]:
  "unat (w AND - (2 ^ k)) = unat (w :: 'a::len word) div 2 ^ k * 2 ^ k"
proof -
  have le: "w AND mask k \<le> w"
    by (simp add: word_le_nat_alt unat_simps)
  have "unat (w AND - (2 ^ k)) = unat w - unat w mod 2 ^ k"
    by (simp add: and_minus_pow2 unat_sub [OF le] unat_simps)
  also have "\<dots> = unat w div 2 ^ k * 2 ^ k"
    by (simp add: minus_mod_eq_div_mult)
  finally show ?thesis .
qed

lemma unat_pow2 [unat_simps]: "k < LENGTH('a) \<Longrightarrow> unat (2 ^ k :: 'a::len word) = 2 ^ k"
  by (metis of_nat_numeral of_nat_power one_less_numeral_iff power_strict_increasing
      semiring_norm(76) take_bit_nat_eq_self unsigned_of_nat)

lemma unat_ucast_up:
  "LENGTH('a) \<le> LENGTH('b) \<Longrightarrow> unat (ucast (w :: 'a::len word) :: 'b::len word) = unat w"
  by (metis less_le_trans one_le_numeral power_increasing take_bit_nat_eq_self unat_less_2p
      unsigned_ucast_eq)

lemma unat_ucast_mod:
  "unat (ucast (w :: 'a::len word) :: 'b::len word) = unat w mod 2 ^ LENGTH('b)"
  by (simp only: unsigned_ucast_eq take_bit_eq_mod)

text \<open>Adding to an index modulo a power of two that divides the word's range.\<close>

lemma unat_add_mod_pow2:
  assumes "k \<le> LENGTH('a)"
  shows "unat (a + b :: 'a::len word) mod 2 ^ k = (unat a + unat b) mod 2 ^ k"
proof -
  have "(2::nat) ^ k dvd 2 ^ LENGTH('a)" using assms by (rule le_imp_power_dvd)
  then show ?thesis by (simp add: unat_word_ariths mod_mod_cancel)
qed

lemma unat_add_of_nat_mod_pow2:
  assumes "k \<le> LENGTH('a)"
  shows "unat (a + of_nat n :: 'a::len word) mod 2 ^ k = (unat a + n) mod 2 ^ k"
proof -
  have "(2::nat) ^ k dvd 2 ^ LENGTH('a)" using assms by (rule le_imp_power_dvd)
  then have "unat (of_nat n :: 'a word) mod 2 ^ k = n mod 2 ^ k"
    by (simp add: unat_of_nat mod_mod_cancel)
  then show ?thesis
    by (metis assms mod_add_right_eq unat_add_mod_pow2)
qed

text \<open>A counter that wraps: the distance from \<open>b\<close> to \<open>a\<close> after \<open>a\<close> advanced by \<open>n\<close>.\<close>

lemma unat_diff_add:
  fixes a b n :: "'a::len word"
  assumes "unat (a - b) + unat n < 2 ^ LENGTH('a)"
  shows "unat (a + n - b) = unat (a - b) + unat n"
proof -
  have "unat (a + n - b) = unat ((a - b) + n)" by (simp add: algebra_simps)
  also have "\<dots> = unat (a - b) + unat n" using assms by (simp only: unat_word_ariths mod_less)
  finally show ?thesis .
qed

lemma unat_diff_sub:
  fixes a b n :: "'a::len word"
  assumes "unat n \<le> unat (a - b)"
  shows "unat (a - (b + n)) = unat (a - b) - unat n"
proof -
  have le: "n \<le> a - b" using assms by (simp only: word_le_nat_alt)
  have "unat (a - (b + n)) = unat ((a - b) - n)" by (simp add: algebra_simps)
  also have "\<dots> = unat (a - b) - unat n" by (rule unat_sub [OF le])
  finally show ?thesis .
qed

section \<open>absl::bit_ceil\<close>

text \<open>
  \<open>absl::bit_ceil(x)\<close> is the smallest power of two not less than \<open>x\<close>; it is unspecified when
  that value is not representable.
\<close>

definition bit_ceil_spec :: "('a::len word \<Rightarrow> 'a word) \<Rightarrow> bool" where
  "bit_ceil_spec bc \<longleftrightarrow>
     (\<forall>x k. k < LENGTH('a) \<and> unat x \<le> 2 ^ k \<and> (\<forall>j<k. 2 ^ j < unat x) \<longrightarrow> bc x = 2 ^ k)"

lemma bit_ceil_specE:
  fixes bc :: "'a::len word \<Rightarrow> 'a word"
  assumes "bit_ceil_spec bc" and "unat x \<le> 2 ^ n" and "n < LENGTH('a)"
  obtains k where "k \<le> n" and "bc x = 2 ^ k" and "unat x \<le> 2 ^ k"
    and "\<And>j. j < k \<Longrightarrow> 2 ^ j < unat x"
proof -
  define k where "k = (LEAST k. unat x \<le> 2 ^ k)"
  have le: "unat x \<le> 2 ^ k" unfolding k_def using assms(2) by (rule LeastI)
  have min: "2 ^ j < unat x" if "j < k" for j
    using not_less_Least that unfolding k_def by (metis not_le)
  have kn: "k \<le> n" unfolding k_def using assms(2) by (rule Least_le)
  have "bc x = 2 ^ k"
    using assms(1,3) kn le min unfolding bit_ceil_spec_def by auto
  then show ?thesis using that kn le min by blast
qed

text \<open>A function with that behaviour, for concrete runs.\<close>

fun pow2_from :: "nat \<Rightarrow> nat \<Rightarrow> nat \<Rightarrow> nat" where
  "pow2_from 0 p n = p"
| "pow2_from (Suc fuel) p n = (if n \<le> p then p else pow2_from fuel (2 * p) n)"

definition bit_ceil_ref :: "'a::len word \<Rightarrow> 'a word" where
  "bit_ceil_ref x = of_nat (pow2_from LENGTH('a) 1 (unat x))"

lemma pow2_from_numeral [simp]:
  "pow2_from (numeral k) p n = (if n \<le> p then p else pow2_from (pred_numeral k) (2 * p) n)"
  by (simp add: numeral_eq_Suc)

lemma pow2_from_eq:
  "n \<le> 2 ^ (j + m) \<Longrightarrow> \<forall>i<j + m. 2 ^ i < n \<Longrightarrow> m < fuel \<Longrightarrow> pow2_from fuel (2 ^ j) n = 2 ^ (j + m)"
proof (induction fuel arbitrary: j m)
  case 0
  then show ?case by simp
next
  case (Suc fuel)
  show ?case
  proof (cases m)
    case 0
    with Suc.prems show ?thesis by simp
  next
    case (Suc m')
    have "2 ^ j < n" using Suc.prems(2) Suc by simp
    moreover have "pow2_from fuel (2 ^ Suc j) n = 2 ^ (Suc j + m')"
      using Suc.IH [of "Suc j" m'] Suc.prems Suc by simp
    ultimately show ?thesis using Suc by simp
  qed
qed

lemma bit_ceil_ref_spec: "bit_ceil_spec (bit_ceil_ref :: 'a::len word \<Rightarrow> 'a word)"
  unfolding bit_ceil_spec_def
proof (intro allI impI, elim conjE)
  fix x :: "'a word" and k
  assume "k < LENGTH('a)" and "unat x \<le> 2 ^ k" and "\<forall>j<k. 2 ^ j < unat x"
  then have "pow2_from LENGTH('a) (2 ^ 0) (unat x) = 2 ^ (0 + k)"
    by (intro pow2_from_eq) simp_all
  then show "bit_ceil_ref x = 2 ^ k" by (simp add: bit_ceil_ref_def)
qed

end
