(* ===== verification/Align.thy ===== *)
theory Align
  imports Prelude
begin

text \<open>
  \<open>align_up\<close> of \<open>base/new.h\<close>, the rounding the placement computations of the program use, and
  the three conditions its comment promises. \<open>CACHELINE_ALIGNMENT\<close> is \<open>FUXI_CACHELINE_SIZE\<close>,
  whose value \<open>environment.h\<close> chooses by architecture (128 on x86-64, 64 elsewhere).
\<close>

definition align_up :: "u64 \<Rightarrow> u64 \<Rightarrow> u64" where
  "align_up unaligned_size alignment = (unaligned_size + alignment - 1) AND (- alignment)"

section \<open>The rounding on naturals\<close>

definition nat_align_up :: "nat \<Rightarrow> nat \<Rightarrow> nat" where
  "nat_align_up n a = (n + a - 1) div a * a"

lemma nat_align_up_bounds:
  assumes "0 < a"
  shows "n \<le> nat_align_up n a" and "nat_align_up n a < n + a"
proof -
  let ?m = "n + a - 1"
  have eq: "?m div a * a + ?m mod a = ?m" by simp
  have lt: "?m mod a < a" using assms by simp
  show "n \<le> nat_align_up n a" and "nat_align_up n a < n + a"
    unfolding nat_align_up_def using eq lt assms by linarith+
qed

lemma nat_align_up_dvd: "a dvd nat_align_up n a"
  by (simp add: nat_align_up_def)

lemma nat_align_up_least:
  assumes "a dvd m" and "n \<le> m" and "0 < a"
  shows "nat_align_up n a \<le> m"
proof -
  obtain q where m: "m = a * q" using assms(1) ..
  have "nat_align_up n a < a * Suc q"
    using nat_align_up_bounds(2) [of a n] assms m by simp
  moreover obtain p where p: "nat_align_up n a = a * p" using nat_align_up_dvd [of a n] ..
  ultimately have "p < Suc q" using assms(3) by (metis mult_less_cancel1)
  then show ?thesis by (simp add: p m)
qed

lemma nat_align_up_aligned: "a dvd n \<Longrightarrow> 0 < a \<Longrightarrow> nat_align_up n a = n"
  by (simp add: le_antisym nat_align_up_bounds nat_align_up_least)

section \<open>The word function computes it\<close>

lemma unat_add_minus_1:
  fixes n a :: "'a::len word"
  assumes "unat a = Suc m" and "unat n + Suc m \<le> 2 ^ LENGTH('a)"
  shows "unat (n + a - 1) = unat n + m"
proof -
  have "1 \<le> a" using assms(1) by (simp add: word_le_nat_alt)
  then have "unat (a - 1) = m" by (simp add: unat_sub assms(1))
  moreover have "unat n + m < 2 ^ LENGTH('a)" using assms(2) by linarith
  ultimately have "unat (n + (a - 1)) = unat n + m" by (simp only: unat_word_ariths mod_less)
  then show ?thesis by (simp add: algebra_simps)
qed

lemma unat_align_up [unat_simps]:
  assumes "k < 64" and "unat n + 2 ^ k \<le> 2 ^ 64"
  shows "unat (align_up n (2 ^ k)) = nat_align_up (unat n) (2 ^ k)"
proof -
  obtain m where m: "(2::nat) ^ k = Suc m" by (metis not0_implies_Suc power_not_zero zero_neq_numeral)
  have "unat (2 ^ k :: u64) = Suc m" using assms(1) m by (simp add: unat_pow2)
  then have "unat (n + 2 ^ k - 1) = unat n + m"
    using assms(2) m by (intro unat_add_minus_1) simp_all
  also have "\<dots> = unat n + 2 ^ k - 1" using m by simp
  finally show ?thesis
    by (simp only: align_up_def nat_align_up_def unat_and_minus_pow2)
qed

text \<open>
  C27: \<open>align_up(n, a)\<close>, for a power-of-two alignment and when the rounded value is
  representable, is what the comment in \<open>new.h\<close> says: not less than \<open>n\<close>, a multiple of \<open>a\<close>, and
  the least such value.
\<close>

theorem align_up_correct:
  assumes "alignment = 2 ^ k" and "k < 64" and "unat n + unat alignment \<le> 2 ^ 64"
  shows "n \<le> align_up n alignment
    \<and> unat alignment dvd unat (align_up n alignment)
    \<and> (\<forall>v. n \<le> v \<and> unat alignment dvd unat v \<longrightarrow> align_up n alignment \<le> v)"
proof -
  have a: "unat alignment = 2 ^ k" using assms(1,2) by (simp add: unat_pow2)
  have u: "unat (align_up n alignment) = nat_align_up (unat n) (2 ^ k)"
    using assms a by (simp add: unat_align_up)
  show ?thesis
    unfolding word_le_nat_alt u a
    using nat_align_up_bounds(1) nat_align_up_dvd nat_align_up_least by auto
qed

theorem align_up_correct_witness:
  "(13::u64) \<le> align_up 13 8 \<and> align_up 13 8 = 16"
  using align_up_correct [of 8 3 13] by (auto simp: align_up_def)

end
