(* ===== verification/RingCommon.thy ===== *)
theory RingCommon
  imports Prelude
begin

text \<open>
  What \<open>RteRing<T>\<close> and \<open>RingBuffer\<close> share: the head/tail pair and \<open>UpdateTail\<close> of
  \<open>base/ring_common\<close>, the copy loops of \<open>EnqueueValues\<close> and \<open>DequeueValues\<close> (whose bodies differ
  only in the direction of the assignment), and the list functions that say what a ring stores.

  The loops are over \<open>uint32_t\<close> indices and are written as in the source, with fuel-free
  \<open>partial_function\<close>s: an endless loop would be \<open>None\<close>. The main fact, \<open>copy_values_masked\<close>, is that
  the unrolled and wrapped copy performs the same assignments in the same order as the plain loop
  that masks every index.
\<close>

section \<open>ring_headtail and UpdateTail\<close>

record ring_headtail =
  ht_head :: u32
  ht_tail :: u32

definition init_headtail :: ring_headtail where
  "init_headtail = \<lparr>ht_head = 0, ht_tail = 0\<rparr>"

text \<open>\<open>while (ht->tail != old_val) cpu_pause();\<close>: with no other thread it ends only at once.\<close>

partial_function (option) wait_tail :: "ring_headtail \<Rightarrow> u32 \<Rightarrow> unit option" where
  "wait_tail ht old_val = (if ht_tail ht \<noteq> old_val then wait_tail ht old_val else Some ())"

definition UpdateTail ::
  "ring_headtail \<Rightarrow> u32 \<Rightarrow> u32 \<Rightarrow> bool \<Rightarrow> ring_headtail option" where
  "UpdateTail ht old_val new_val single = do {
     (if \<not> single then wait_tail ht old_val else Some ());
     Some (ht\<lparr>ht_tail := new_val\<rparr>) }"

lemma wait_tail_eq [simp]: "wait_tail ht (ht_tail ht) = Some ()"
  by (simp add: wait_tail.simps)

lemma UpdateTail_eq [simp]:
  "UpdateTail ht (ht_tail ht) v single = Some (ht\<lparr>ht_tail := v\<rparr>)"
  by (simp add: UpdateTail_def)

text \<open>
  \<open>std::atomic::compare_exchange_strong(expected, desired)\<close>: success, the new value of the
  atomic, the new value of \<open>expected\<close>.
\<close>

definition compare_exchange_strong :: "'v \<Rightarrow> 'v \<Rightarrow> 'v \<Rightarrow> bool \<times> 'v \<times> 'v" where
  "compare_exchange_strong atom expected desired =
     (if atom = expected then (True, desired, expected) else (False, atom, atom))"

lemma compare_exchange_strong_same [simp]:
  "compare_exchange_strong a a d = (True, d, a)"
  by (simp add: compare_exchange_strong_def)

section \<open>The copy loops\<close>

text \<open>
  \<open>asg i idx m\<close> is the loop body's assignment between \<open>obj_table[i]\<close> and \<open>ring[idx]\<close>; \<open>m\<close> is the
  array it writes.
\<close>

type_synonym 'm asg = "u32 \<Rightarrow> u32 \<Rightarrow> 'm \<Rightarrow> 'm option"

text \<open>\<open>for (i = 0; i < lim; i += 4, idx += 4)\<close> with four assignments.\<close>

partial_function (option) copy4_loop ::
  "'m asg \<Rightarrow> u32 \<Rightarrow> u32 \<Rightarrow> u32 \<Rightarrow> 'm \<Rightarrow> ('m \<times> u32 \<times> u32) option" where
  "copy4_loop asg lim i idx m = (if i < lim then do {
       m \<leftarrow> asg i idx m;
       m \<leftarrow> asg (i + 1) (idx + 1) m;
       m \<leftarrow> asg (i + 2) (idx + 2) m;
       m \<leftarrow> asg (i + 3) (idx + 3) m;
       copy4_loop asg lim (i + 4) (idx + 4) m }
     else Some (m, i, idx))"

text \<open>\<open>switch (n & 0x3)\<close> with its fall-through cases.\<close>

definition copy_rest :: "'m asg \<Rightarrow> u32 \<Rightarrow> u32 \<Rightarrow> u32 \<Rightarrow> 'm \<Rightarrow> 'm option" where
  "copy_rest asg r i idx m =
     (if r = 3 then do {
        m \<leftarrow> asg i idx m; m \<leftarrow> asg (i + 1) (idx + 1) m; asg (i + 1 + 1) (idx + 1 + 1) m }
      else if r = 2 then do { m \<leftarrow> asg i idx m; asg (i + 1) (idx + 1) m }
      else if r = 1 then asg i idx m
      else Some m)"

text \<open>\<open>for (i = 0; idx < size; i++, idx++)\<close>\<close>

partial_function (option) copy_to_end ::
  "'m asg \<Rightarrow> u32 \<Rightarrow> u32 \<Rightarrow> u32 \<Rightarrow> 'm \<Rightarrow> ('m \<times> u32) option" where
  "copy_to_end asg sz i idx m = (if idx < sz then do {
       m \<leftarrow> asg i idx m;
       copy_to_end asg sz (i + 1) (idx + 1) m }
     else Some (m, i))"

text \<open>\<open>for (idx = 0; i < n; i++, idx++)\<close>\<close>

partial_function (option) copy_until ::
  "'m asg \<Rightarrow> u32 \<Rightarrow> u32 \<Rightarrow> u32 \<Rightarrow> 'm \<Rightarrow> 'm option" where
  "copy_until asg n i idx m = (if i < n then do {
       m \<leftarrow> asg i idx m;
       copy_until asg n (i + 1) (idx + 1) m }
     else Some m)"

definition copy_values :: "'m asg \<Rightarrow> u32 \<Rightarrow> u32 \<Rightarrow> u32 \<Rightarrow> u32 \<Rightarrow> 'm \<Rightarrow> 'm option" where
  "copy_values asg sz msk head n m = (let idx = head AND msk in
     if idx + n < sz then do {
       (m, i, idx) \<leftarrow> copy4_loop asg (n AND (NOT 0x3)) 0 idx m;
       copy_rest asg (n AND 0x3) i idx m }
     else do {
       (m, i) \<leftarrow> copy_to_end asg sz 0 idx m;
       copy_until asg n i 0 m })"

text \<open>The two assignments.\<close>

definition enq_asg :: "'a list \<Rightarrow> 'a list asg" where
  "enq_asg obj_table i idx ring = do {
     v \<leftarrow> mem_read obj_table (unat i); mem_write ring (unat idx) v }"

definition deq_asg :: "'a list \<Rightarrow> 'a list asg" where
  "deq_asg ring i idx obj_table = do {
     v \<leftarrow> mem_read ring (unat idx); mem_write obj_table (unat i) v }"

section \<open>The loops as iterated assignments\<close>

primrec iter_asg :: "'m asg \<Rightarrow> nat \<Rightarrow> u32 \<Rightarrow> u32 \<Rightarrow> 'm \<Rightarrow> 'm option" where
  "iter_asg asg 0 i idx m = Some m"
| "iter_asg asg (Suc k) i idx m = do { m \<leftarrow> asg i idx m; iter_asg asg k (i + 1) (idx + 1) m }"

text \<open>The reference: every index masked.\<close>

primrec masked_copy :: "'m asg \<Rightarrow> u32 \<Rightarrow> u32 \<Rightarrow> nat \<Rightarrow> u32 \<Rightarrow> 'm \<Rightarrow> 'm option" where
  "masked_copy asg head msk 0 i m = Some m"
| "masked_copy asg head msk (Suc k) i m = do {
     m \<leftarrow> asg i ((head + i) AND msk) m; masked_copy asg head msk k (i + 1) m }"

lemma iter_asg_add:
  "iter_asg asg (j + k) i idx m =
     iter_asg asg j i idx m \<bind> iter_asg asg k (i + of_nat j) (idx + of_nat j)"
  by (induction j arbitrary: i idx m) (simp_all add: algebra_simps Option.bind_assoc cong: Option.bind_cong)

lemma masked_copy_add:
  "masked_copy asg head msk (j + k) i m =
     masked_copy asg head msk j i m \<bind> masked_copy asg head msk k (i + of_nat j)"
  by (induction j arbitrary: i m) (simp_all add: algebra_simps cong: Option.bind_cong)

lemma copy4_loop_iter:
  assumes "unat lim = unat i + 4 * q"
  shows "copy4_loop asg lim i idx m =
    do { m \<leftarrow> iter_asg asg (4 * q) i idx m; Some (m, lim, idx + of_nat (4 * q)) }"
  using assms
proof (induction q arbitrary: i idx m)
  case 0
  then have "lim = i" by (simp add: word_unat_eq_iff)
  then show ?case by (simp add: copy4_loop.simps)
next
  case (Suc q)
  have "unat lim < 2 ^ 32" using unat_less_2p [of lim] by simp
  then have i4: "unat (i + 4) = unat i + 4" using Suc.prems
    by (subst unat_add_small) simp_all
  have lt: "i < lim" using Suc.prems by (simp add: word_less_nat_alt)
  have "unat lim = unat (i + 4) + 4 * q" using Suc.prems i4 by simp
  note IH = ext [OF Suc.IH [OF this]]
  have "4 * Suc q = Suc (Suc (Suc (Suc (4 * q))))" by simp
  then have it: "iter_asg asg (4 * Suc q) i idx m = do {
      m \<leftarrow> asg i idx m; m \<leftarrow> asg (i + 1) (idx + 1) m; m \<leftarrow> asg (i + 2) (idx + 2) m;
      m \<leftarrow> asg (i + 3) (idx + 3) m; iter_asg asg (4 * q) (i + 4) (idx + 4) m }"
    by (simp only: iter_asg.simps) (simp add: add.assoc)
  have of4: "(of_nat (4 * Suc q) :: u32) = 4 + of_nat (4 * q)" by simp
  show ?case
    unfolding it of4 by (subst copy4_loop.simps) (simp only: lt IH if_True Option.bind_assoc add.assoc)
qed

lemma iter_asg_numeral:
  "iter_asg asg (numeral k) i idx m =
     do { m \<leftarrow> asg i idx m; iter_asg asg (pred_numeral k) (i + 1) (idx + 1) m }"
  by (simp add: numeral_eq_Suc)

lemma copy_rest_iter:
  assumes "unat r < 4"
  shows "copy_rest asg r i idx m = iter_asg asg (unat r) i idx m"
proof -
  consider "unat r = 0" | "unat r = 1" | "unat r = 2" | "unat r = 3" using assms by linarith
  then consider "r = 0" | "r = 1" | "r = 2" | "r = 3"
    by cases (simp_all add: word_unat_eq_iff)
  then show ?thesis
    by cases (simp_all add: copy_rest_def iter_asg_numeral)
qed

lemma copy_to_end_iter:
  assumes "unat sz = unat idx + k"
  shows "copy_to_end asg sz i idx m =
    do { m \<leftarrow> iter_asg asg k i idx m; Some (m, i + of_nat k) }"
  using assms
proof (induction k arbitrary: i idx m)
  case 0
  then show ?case by (simp add: copy_to_end.simps word_less_nat_alt)
next
  case (Suc k)
  have "unat sz < 2 ^ 32" using unat_less_2p [of sz] by simp
  then have "unat (idx + 1) = unat idx + 1" using Suc.prems by (subst unat_add_small) simp_all
  then have "unat sz = unat (idx + 1) + k" using Suc.prems by simp
  note IH = ext [OF Suc.IH [OF this]]
  have "idx < sz" using Suc.prems by (simp add: word_less_nat_alt)
  then show ?case by (subst copy_to_end.simps) (simp add: IH add.assoc)
qed

lemma copy_until_iter:
  assumes "unat n = unat i + k"
  shows "copy_until asg n i idx m = iter_asg asg k i idx m"
  using assms
proof (induction k arbitrary: i idx m)
  case 0
  then show ?case by (simp add: copy_until.simps word_less_nat_alt)
next
  case (Suc k)
  have "unat n < 2 ^ 32" using unat_less_2p [of n] by simp
  then have "unat (i + 1) = unat i + 1" using Suc.prems by (subst unat_add_small) simp_all
  then have "unat n = unat (i + 1) + k" using Suc.prems by simp
  note IH = ext [OF Suc.IH [OF this]]
  have "i < n" using Suc.prems by (simp add: word_less_nat_alt)
  then show ?case by (subst copy_until.simps) (simp add: IH)
qed

lemma iter_asg_masked:
  assumes "\<And>j. j < k \<Longrightarrow> idx + of_nat j = (head + i + of_nat j) AND msk"
  shows "iter_asg asg k i idx m = masked_copy asg head msk k i m"
  using assms
proof (induction k arbitrary: i idx m)
  case (Suc k)
  have 0: "idx = (head + i) AND msk" using Suc.prems [of 0] by simp
  have "iter_asg asg k (i + 1) (idx + 1) m' = masked_copy asg head msk k (i + 1) m'" for m'
    using Suc.prems [of "Suc _"] by (intro Suc.IH) (simp add: algebra_simps)
  then show ?case by (simp add: 0)
qed simp

section \<open>Masked indices of a power-of-two ring\<close>

text \<open>\<open>ring_dims\<close>: the size is a power of two representable in 32 bits and the mask is one less.\<close>

definition ring_dims :: "u32 \<Rightarrow> u32 \<Rightarrow> nat \<Rightarrow> bool" where
  "ring_dims sz msk k \<longleftrightarrow> k < 32 \<and> sz = 2 ^ k \<and> msk = sz - 1"

lemma ring_dims_unat:
  assumes "ring_dims sz msk k"
  shows "unat sz = 2 ^ k" and "unat (w AND msk) = unat w mod unat sz" and "0 < unat sz"
  using assms by (simp_all add: ring_dims_def unat_pow2 unat_and_pow2_minus_1)

lemma unat_mod_size:
  assumes "ring_dims sz msk k"
  shows "unat ((w :: u32) + of_nat j) mod unat sz = (unat w + j) mod unat sz"
  using assms by (simp add: ring_dims_def unat_pow2 unat_add_of_nat_mod_pow2)

lemma masked_offset:
  assumes "ring_dims sz msk k" and "unat (w AND msk) + j < unat sz"
  shows "(w AND msk) + of_nat j = (w + of_nat j) AND msk"
proof (rule word_unat_eq_iff [THEN iffD2])
  note u = ring_dims_unat [OF assms(1)]
  have sz: "unat sz < 2 ^ 32" using unat_less_2p [of sz] by simp
  have oj: "unat (of_nat j :: u32) = j"
    using assms(2) sz by (simp add: unat_of_nat)
  have "unat ((w AND msk) + of_nat j) = unat (w AND msk) + j"
    using assms(2) sz by (subst unat_add_small) (simp_all add: oj)
  also have "\<dots> = (unat w mod unat sz + j) mod unat sz"
    using assms(2) by (simp add: u(2))
  also have "\<dots> = unat ((w + of_nat j) AND msk)"
    by (simp add: u(2) unat_mod_size [OF assms(1)] mod_simps)
  finally show "unat ((w AND msk) + of_nat j) = unat ((w + of_nat j) AND msk)" .
qed

lemma copy_straight_iter:
  "do { (m, i, idx) \<leftarrow> copy4_loop asg (n AND (NOT 0x3)) 0 idx m; copy_rest asg (n AND 0x3) i idx m }
     = iter_asg asg (unat n) 0 idx m"
proof -
  define q where "q = unat n div 4"
  have lim: "unat (n AND - 4) = 4 * q"
    using unat_and_minus_pow2 [of n 2] by (simp add: q_def mult.commute)
  have rest: "unat (n AND 0x3) = unat n mod 4"
    using unat_and_mask [of n 2] by (simp add: mask_eq_exp_minus_1)
  have limw: "n AND - 4 = of_nat (4 * q)"
    unfolding lim [symmetric] by simp
  have "copy4_loop asg (n AND NOT 0x3) 0 idx m =
      do { m \<leftarrow> iter_asg asg (4 * q) 0 idx m; Some (m, of_nat (4 * q), idx + of_nat (4 * q)) }"
    using copy4_loop_iter [of "n AND - 4" 0 q asg idx m] lim limw by simp
  then have "do { (m, i, idx) \<leftarrow> copy4_loop asg (n AND (NOT 0x3)) 0 idx m;
      copy_rest asg (n AND 0x3) i idx m } =
      iter_asg asg (4 * q) 0 idx m \<bind> iter_asg asg (unat n mod 4) (0 + of_nat (4 * q)) (idx + of_nat (4 * q))"
    by (simp add: copy_rest_iter rest)
  also have "\<dots> = iter_asg asg (unat n) 0 idx m"
    by (subst iter_asg_add [symmetric]) (simp add: q_def)
  finally show ?thesis .
qed

lemma masked_wrap:
  assumes dims: "ring_dims sz msk k" and j: "unat sz = unat (head AND msk) + j"
    and l: "l < unat sz"
  shows "(of_nat l :: u32) = (head + of_nat j + of_nat l) AND msk"
proof (rule word_unat_eq_iff [THEN iffD2])
  note u = ring_dims_unat [OF dims]
  have "unat ((head + of_nat j + of_nat l) AND msk) = unat (head + of_nat (j + l)) mod unat sz"
    by (simp add: u(2) add.assoc)
  also have "\<dots> = (unat head + (j + l)) mod unat sz" by (rule unat_mod_size [OF dims])
  also have "\<dots> = (unat (head AND msk) + j + l) mod unat sz" by (simp add: u(2) mod_simps add.assoc)
  also have "\<dots> = l" using l by (simp flip: j)
  finally show "unat (of_nat l :: u32) = unat ((head + of_nat j + of_nat l) AND msk)"
    using l unat_less_2p [of sz] by (simp add: unat_of_nat)
qed

lemma copy_wrap_iter:
  assumes dims: "ring_dims sz msk k" and j: "unat sz = unat idx + j" "j \<le> unat n"
  shows "do { (m, i) \<leftarrow> copy_to_end asg sz 0 idx m; copy_until asg n i 0 m }
    = do { m \<leftarrow> iter_asg asg j 0 idx m; iter_asg asg (unat n - j) (of_nat j) 0 m }"
proof -
  have "j < 2 ^ 32" using j(1) unat_less_2p [of sz] by simp
  then have "unat (of_nat j :: u32) = j" by (simp add: unat_of_nat)
  then have "unat n = unat (of_nat j :: u32) + (unat n - j)" using j(2) by simp
  then show ?thesis
    by (simp add: copy_to_end_iter [OF j(1)] copy_until_iter)
qed

text \<open>
  The copy of \<open>EnqueueValues\<close> and \<open>DequeueValues\<close>, unrolled by four and split where the ring
  wraps, performs exactly the assignments of the plain masked loop, in the same order.
\<close>

lemma copy_values_masked:
  assumes dims: "ring_dims sz msk k" and n: "n \<le> sz"
  shows "copy_values asg sz msk head n m = masked_copy asg head msk (unat n) 0 m"
proof -
  note u = ring_dims_unat [OF dims]
  define idx where "idx = head AND msk"
  have idx: "unat idx < unat sz" using u by (simp add: idx_def)
  have n': "unat n \<le> unat sz" using n by (simp add: word_le_nat_alt)
  have "(2::nat) ^ k \<le> 2 ^ 31" using dims by (intro power_increasing) (simp_all add: ring_dims_def)
  then have sum: "unat (idx + n) = unat idx + unat n"
    using idx n' u(1) by (subst unat_add_small) simp_all
  show ?thesis
  proof (cases "idx + n < sz")
    case True
    then have fit: "unat idx + unat n < unat sz" by (simp add: word_less_nat_alt sum)
    have "copy_values asg sz msk head n m = iter_asg asg (unat n) 0 idx m"
      using True unfolding copy_values_def Let_def idx_def [symmetric]
      by (simp only: if_True copy_straight_iter)
    also have "\<dots> = masked_copy asg head msk (unat n) 0 m"
      using fit unfolding idx_def by (intro iter_asg_masked) (simp add: masked_offset [OF dims])
    finally show ?thesis .
  next
    case False
    then have over: "unat sz \<le> unat idx + unat n" by (simp add: word_less_nat_alt sum)
    define j where "j = unat sz - unat idx"
    have j: "unat sz = unat idx + j" "j \<le> unat n" using idx over by (simp_all add: j_def)
    have "copy_values asg sz msk head n m =
        do { m \<leftarrow> iter_asg asg j 0 idx m; iter_asg asg (unat n - j) (of_nat j) 0 m }"
      using False unfolding copy_values_def Let_def idx_def [symmetric]
      by (simp only: if_False copy_wrap_iter [OF dims j])
    also have "iter_asg asg j 0 idx m = masked_copy asg head msk j 0 m"
      using j(1) unfolding idx_def by (intro iter_asg_masked) (simp add: masked_offset [OF dims])
    also have "iter_asg asg (unat n - j) (of_nat j) 0 = masked_copy asg head msk (unat n - j) (of_nat j)"
    proof (intro ext iter_asg_masked)
      fix l assume "l < unat n - j"
      then have "l < unat sz" using n' by linarith
      then show "0 + of_nat l = (head + of_nat j + of_nat l) AND msk"
        using masked_wrap [OF dims j(1) [unfolded idx_def]] by simp
    qed
    also have "masked_copy asg head msk j 0 m \<bind> masked_copy asg head msk (unat n - j) (of_nat j)
        = masked_copy asg head msk (unat n) 0 m"
      using masked_copy_add [of asg head msk j "unat n - j" 0 m] j(2) by simp
    finally show ?thesis .
  qed
qed

section \<open>What a ring stores\<close>

text \<open>
  Slot \<open>p mod sz\<close> belongs to position \<open>p\<close>. \<open>ring_put\<close> writes consecutive positions, \<open>ring_get\<close> reads
  them.
\<close>

primrec ring_put :: "nat \<Rightarrow> nat \<Rightarrow> 'a list \<Rightarrow> 'a list \<Rightarrow> 'a list" where
  "ring_put sz p [] ring = ring"
| "ring_put sz p (x # xs) ring = ring_put sz (Suc p) xs (ring[p mod sz := x])"

definition ring_get :: "nat \<Rightarrow> nat \<Rightarrow> nat \<Rightarrow> 'a list \<Rightarrow> 'a list" where
  "ring_get sz p n ring = map (\<lambda>k. ring ! ((p + k) mod sz)) [0..<n]"

lemma length_ring_put [simp]: "length (ring_put sz p xs ring) = length ring"
  by (induction xs arbitrary: p ring) simp_all

lemma length_ring_get [simp]: "length (ring_get sz p n ring) = n"
  by (simp add: ring_get_def)

lemma ring_get_0 [simp]: "ring_get sz p 0 ring = []"
  by (simp add: ring_get_def)

lemma ring_get_Suc: "ring_get sz p (Suc n) ring = ring ! (p mod sz) # ring_get sz (Suc p) n ring"
  unfolding ring_get_def
  by (rule nth_equalityI) (auto simp: nth_Cons less_Suc_eq_0_disj simp del: upt_Suc split: nat.split)

lemma ring_get_add:
  "ring_get sz p (m + n) ring = ring_get sz p m ring @ ring_get sz (p + m) n ring"
  by (induction m arbitrary: p) (simp_all add: ring_get_Suc)

lemma ring_get_mod: "ring_get sz (p mod sz) n ring = ring_get sz p n ring"
  by (simp add: ring_get_def mod_simps)

lemma ring_get_cong_mod: "p mod sz = q mod sz \<Longrightarrow> ring_get sz p n ring = ring_get sz q n ring"
  by (metis ring_get_mod)

lemma ring_put_cong_mod: "p mod sz = q mod sz \<Longrightarrow> ring_put sz p xs ring = ring_put sz q xs ring"
proof (induction xs arbitrary: p q ring)
  case (Cons x xs)
  have "Suc (p mod sz) mod sz = Suc (q mod sz) mod sz" by (simp only: Cons.prems)
  then have "Suc p mod sz = Suc q mod sz" by (simp only: mod_Suc_eq)
  note eq = Cons.IH [OF this]
  show ?case by (simp only: ring_put.simps Cons.prems eq)
qed simp

lemma mod_neq_window:
  assumes "(p::nat) < q" and "q < p + sz"
  shows "p mod sz \<noteq> q mod sz"
proof
  assume "p mod sz = q mod sz"
  then have "sz dvd q - p" using assms(1) by (metis less_imp_le mod_eq_dvd_iff_nat)
  moreover have "0 < q - p" "q - p < sz" using assms by simp_all
  ultimately show False by (simp add: nat_dvd_not_less)
qed

lemma ring_get_update_outside:
  assumes "q + n \<le> p" and "p < q + sz"
  shows "ring_get sz q n (ring[p mod sz := x]) = ring_get sz q n ring"
proof (rule nth_equalityI)
  fix i assume "i < length (ring_get sz q n (ring[p mod sz := x]))"
  then have i: "i < n" by simp
  have "(q + i) mod sz \<noteq> p mod sz" using i assms by (intro mod_neq_window) simp_all
  then show "ring_get sz q n (ring[p mod sz := x]) ! i = ring_get sz q n ring ! i"
    using i by (simp add: ring_get_def)
qed simp

lemma ring_get_put_before:
  "q + n \<le> p \<Longrightarrow> p + length xs \<le> q + sz \<Longrightarrow>
     ring_get sz q n (ring_put sz p xs ring) = ring_get sz q n ring"
  by (induction xs arbitrary: p ring) (simp_all add: ring_get_update_outside)

lemma ring_get_put_same:
  "length xs \<le> sz \<Longrightarrow> sz \<le> length ring \<Longrightarrow> 0 < sz \<Longrightarrow>
     ring_get sz p (length xs) (ring_put sz p xs ring) = xs"
proof (induction xs arbitrary: p ring)
  case (Cons x xs)
  let ?r = "ring[p mod sz := x]"
  have "ring_get sz p 1 (ring_put sz (Suc p) xs ?r) = ring_get sz p 1 ?r"
    using Cons.prems by (intro ring_get_put_before) simp_all
  moreover have "ring_get sz p 1 ?r = [x]"
    using Cons.prems by (simp add: ring_get_Suc less_le_trans [OF mod_less_divisor])
  ultimately have "ring_put sz (Suc p) xs ?r ! (p mod sz) = x" by (simp add: ring_get_Suc)
  moreover have "ring_get sz (Suc p) (length xs) (ring_put sz (Suc p) xs ?r) = xs"
    using Cons.prems by (intro Cons.IH) simp_all
  ultimately show ?case by (simp add: ring_get_Suc)
qed simp

lemma ring_put_other:
  "\<forall>j<length xs. s \<noteq> (p + j) mod sz \<Longrightarrow> ring_put sz p xs ring ! s = ring ! s"
proof (induction xs arbitrary: p ring)
  case (Cons x xs)
  have "\<forall>j<length xs. s \<noteq> (Suc p + j) mod sz" using Cons.prems by fastforce
  then have "ring_put sz p (x # xs) ring ! s = ring[p mod sz := x] ! s" using Cons.IH by simp
  moreover have "s \<noteq> p mod sz" using Cons.prems by force
  ultimately show ?case by simp
qed simp

text \<open>Writing behind the \<open>n\<close> stored elements appends, if they all fit.\<close>

lemma ring_get_put_append:
  assumes "n + length xs \<le> sz" and "sz \<le> length ring" and "0 < sz"
  shows "ring_get sz q (n + length xs) (ring_put sz (q + n) xs ring) = ring_get sz q n ring @ xs"
  using assms by (simp add: ring_get_add ring_get_put_before ring_get_put_same)

section \<open>The two copies\<close>

lemma enq_asg_in:
  "unat i < length obj \<Longrightarrow> unat idx < length ring \<Longrightarrow>
     enq_asg obj i idx ring = Some (ring[unat idx := obj ! unat i])"
  by (simp add: enq_asg_def mem_simps)

lemma deq_asg_in:
  "unat i < length obj \<Longrightarrow> unat idx < length ring \<Longrightarrow>
     deq_asg ring i idx obj = Some (obj[unat i := ring ! unat idx])"
  by (simp add: deq_asg_def mem_simps)

lemma masked_copy_enq:
  assumes dims: "ring_dims sz msk k" and sz: "unat sz \<le> length ring"
    and obj: "unat i + n \<le> length obj" and n: "unat i + n < 2 ^ 32"
  shows "masked_copy (enq_asg obj) head msk n i ring =
    Some (ring_put (unat sz) (unat head + unat i) (take n (drop (unat i) obj)) ring)"
  using sz obj n
proof (induction n arbitrary: i ring)
  case (Suc n)
  note u = ring_dims_unat [OF dims]
  have slot: "unat ((head + i) AND msk) = (unat head + unat i) mod unat sz"
    using unat_mod_size [OF dims, of head "unat i"] by (simp add: u(2))
  have i1: "unat (i + 1) = Suc (unat i)" using Suc.prems by (subst unat_add_small) simp_all
  have lt: "unat i < length obj" using Suc.prems by simp
  have inr: "(unat head + unat i) mod unat sz < length ring"
    using u(3) Suc.prems(1) by (meson less_le_trans mod_less_divisor)
  have tk: "take (Suc n) (drop (unat i) obj) = obj ! unat i # take n (drop (Suc (unat i)) obj)"
    using lt by (simp flip: Cons_nth_drop_Suc)
  show ?case
    using Suc.prems lt
    by (simp add: enq_asg_in slot inr tk Suc.IH i1)
qed simp

lemma masked_copy_deq:
  assumes dims: "ring_dims sz msk k" and sz: "unat sz \<le> length ring"
    and obj: "unat i + n \<le> length obj" and n: "unat i + n < 2 ^ 32"
  shows "masked_copy (deq_asg ring) head msk n i obj =
    Some (take (unat i) obj @ ring_get (unat sz) (unat head + unat i) n ring @ drop (unat i + n) obj)"
  using obj n
proof (induction n arbitrary: i obj)
  case (Suc n)
  note u = ring_dims_unat [OF dims]
  have slot: "unat ((head + i) AND msk) = (unat head + unat i) mod unat sz"
    using unat_mod_size [OF dims, of head "unat i"] by (simp add: u(2))
  have i1: "unat (i + 1) = Suc (unat i)" using Suc.prems by (subst unat_add_small) simp_all
  have lt: "unat i < length obj" using Suc.prems by simp
  have inr: "(unat head + unat i) mod unat sz < length ring"
    using u(3) sz by (meson less_le_trans mod_less_divisor)
  show ?case
    using Suc.prems lt
    by (simp add: deq_asg_in slot inr Suc.IH i1 ring_get_Suc
        take_Suc_conv_app_nth)
qed simp

lemma copy_values_enq:
  assumes "ring_dims sz msk k" and "unat sz \<le> length ring" and "n \<le> sz" and "unat n \<le> length obj"
  shows "copy_values (enq_asg obj) sz msk head n ring =
    Some (ring_put (unat sz) (unat head) (take (unat n) obj) ring)"
  using assms masked_copy_enq [OF assms(1,2), of 0 "unat n" obj head] unat_less_2p [of n]
  by (simp add: copy_values_masked [OF assms(1,3)])

lemma copy_values_deq:
  assumes "ring_dims sz msk k" and "unat sz \<le> length ring" and "n \<le> sz" and "unat n \<le> length obj"
  shows "copy_values (deq_asg ring) sz msk head n obj =
    Some (ring_get (unat sz) (unat head) (unat n) ring @ drop (unat n) obj)"
  using assms masked_copy_deq [OF assms(1,2), of 0 "unat n" obj head] unat_less_2p [of n]
  by (simp add: copy_values_masked [OF assms(1,3)])

end
