(* ===== verification/BulkQueue.thy ===== *)
theory BulkQueue
  imports Prelude
begin

text \<open>
  The contract the object pools and block lists rely on: a bounded first-in first-out queue whose
  bulk operations move all the requested elements or none (\<open>DoEnqueue\<close>, \<open>DoDequeue\<close>).

  \<open>fifo_step\<close> is the abstract queue, a list with a capacity. The locale \<open>bulk_queue\<close> states the
  laws of an implementation and proves once that every sequence of calls behaves as on the
  abstract queue. \<open>RteRing\<close> and \<open>RingBuffer\<close> interpret it.
\<close>

datatype 'a q_op = Enq "'a list" | Deq nat

text \<open>The number of elements taken or given, and the free or remaining space reported.\<close>

datatype 'a q_res = EnqRes nat nat | DeqRes "'a list" nat

fun fifo_step :: "nat \<Rightarrow> 'a list \<Rightarrow> 'a q_op \<Rightarrow> 'a q_res \<times> 'a list" where
  "fifo_step cap q (Enq xs) =
     (if length q + length xs \<le> cap then (EnqRes (length xs) (cap - length q - length xs), q @ xs)
      else (EnqRes 0 (cap - length q), q))"
| "fifo_step cap q (Deq n) =
     (if n \<le> length q then (DeqRes (take n q) (length q - n), drop n q)
      else (DeqRes [] (length q), q))"

fun fifo_run :: "nat \<Rightarrow> 'a list \<Rightarrow> 'a q_op list \<Rightarrow> 'a q_res list \<times> 'a list" where
  "fifo_run cap q [] = ([], q)"
| "fifo_run cap q (op # ops) =
     (let (res, q) = fifo_step cap q op; (rs, q) = fifo_run cap q ops in (res # rs, q))"

text \<open>The same calls made on an implementation; \<open>fill\<close> is what a result buffer holds before.\<close>

type_synonym ('s, 'a) enq_fun = "'s \<Rightarrow> 'a list \<Rightarrow> u32 \<Rightarrow> (u32 \<times> u32 \<times> 's) option"
type_synonym ('s, 'a) deq_fun = "'s \<Rightarrow> 'a list \<Rightarrow> u32 \<Rightarrow> (u32 \<times> 'a list \<times> u32 \<times> 's) option"

fun q_step :: "('s, 'a) enq_fun \<Rightarrow> ('s, 'a) deq_fun \<Rightarrow> 'a \<Rightarrow> 's \<Rightarrow> 'a q_op \<Rightarrow> ('a q_res \<times> 's) option" where
  "q_step enq deq fill s (Enq xs) = do {
     (n, free, s) \<leftarrow> enq s xs (of_nat (length xs));
     Some (EnqRes (unat n) (unat free), s) }"
| "q_step enq deq fill s (Deq n) = do {
     (k, obj, avail, s) \<leftarrow> deq s (replicate n fill) (of_nat n);
     Some (DeqRes (take (unat k) obj) (unat avail), s) }"

fun q_run :: "('s, 'a) enq_fun \<Rightarrow> ('s, 'a) deq_fun \<Rightarrow> 'a \<Rightarrow> 's \<Rightarrow> 'a q_op list \<Rightarrow>
    ('a q_res list \<times> 's) option" where
  "q_run enq deq fill s [] = Some ([], s)"
| "q_run enq deq fill s (op # ops) = do {
     (res, s) \<leftarrow> q_step enq deq fill s op;
     (rs, s) \<leftarrow> q_run enq deq fill s ops;
     Some (res # rs, s) }"

text \<open>The request fits the 32-bit count.\<close>

fun op_ok :: "'a q_op \<Rightarrow> bool" where
  "op_ok (Enq xs) \<longleftrightarrow> length xs < 2 ^ 32"
| "op_ok (Deq n) \<longleftrightarrow> n < 2 ^ 32"

lemma fifo_step_bounded: "length q \<le> cap \<Longrightarrow> length (snd (fifo_step cap q op)) \<le> cap"
  by (cases op) auto

locale bulk_queue =
  fixes inv :: "'s \<Rightarrow> bool"
    and contents :: "'s \<Rightarrow> 'a list"
    and cap :: "'s \<Rightarrow> nat"
    and enq :: "('s, 'a) enq_fun"
    and deq :: "('s, 'a) deq_fun"
  assumes cap_bound: "inv s \<Longrightarrow> cap s < 2 ^ 32"
    and contents_cap: "inv s \<Longrightarrow> length (contents s) \<le> cap s"
    and enq_fits: "inv s \<Longrightarrow> unat n \<le> length obj \<Longrightarrow> length (contents s) + unat n \<le> cap s \<Longrightarrow>
      \<exists>s'. enq s obj n = Some (n, of_nat (cap s - length (contents s) - unat n), s') \<and> inv s' \<and>
        contents s' = contents s @ take (unat n) obj \<and> cap s' = cap s"
    and enq_full: "inv s \<Longrightarrow> unat n \<le> length obj \<Longrightarrow> cap s < length (contents s) + unat n \<Longrightarrow>
      enq s obj n = Some (0, of_nat (cap s - length (contents s)), s)"
    and deq_fits: "inv s \<Longrightarrow> unat n \<le> length obj \<Longrightarrow> unat n \<le> length (contents s) \<Longrightarrow>
      \<exists>s'. deq s obj n = Some (n, take (unat n) (contents s) @ drop (unat n) obj,
          of_nat (length (contents s) - unat n), s') \<and> inv s' \<and>
        contents s' = drop (unat n) (contents s) \<and> cap s' = cap s"
    and deq_short: "inv s \<Longrightarrow> unat n \<le> length obj \<Longrightarrow> length (contents s) < unat n \<Longrightarrow>
      deq s obj n = Some (0, obj, of_nat (length (contents s)), s)"
begin

lemma step_refines:
  assumes "inv s" and "op_ok op"
  shows "\<exists>s'. q_step enq deq fill s op = Some (fst (fifo_step (cap s) (contents s) op), s') \<and> inv s' \<and>
    contents s' = snd (fifo_step (cap s) (contents s) op) \<and> cap s' = cap s"
proof (cases op)
  case (Enq xs)
  have n: "unat (of_nat (length xs) :: u32) = length xs" using assms(2) Enq by (simp add: unat_of_nat)
  have c: "cap s < 2 ^ 32" using cap_bound [OF assms(1)] .
  show ?thesis
  proof (cases "length (contents s) + length xs \<le> cap s")
    case True
    with enq_fits [OF assms(1), of "of_nat (length xs)" xs] n c Enq show ?thesis
      by (auto simp: unat_of_nat simp del: of_nat_diff)
  next
    case False
    with enq_full [OF assms(1), of "of_nat (length xs)" xs] n c Enq assms(1) show ?thesis
      by (auto simp: unat_of_nat simp del: of_nat_diff)
  qed
next
  case (Deq k)
  have n: "unat (of_nat k :: u32) = k" using assms(2) Deq by (simp add: unat_of_nat)
  have c: "length (contents s) < 2 ^ 32"
    using cap_bound [OF assms(1)] contents_cap [OF assms(1)] by linarith
  show ?thesis
  proof (cases "k \<le> length (contents s)")
    case True
    with deq_fits [OF assms(1), of "of_nat k" "replicate k fill"] n c Deq show ?thesis
      by (auto simp: unat_of_nat simp del: of_nat_diff)
  next
    case False
    with deq_short [OF assms(1), of "of_nat k" "replicate k fill"] n c Deq assms(1) show ?thesis
      by (auto simp: unat_of_nat simp del: of_nat_diff)
  qed
qed

lemma run_refines:
  assumes "inv s" and "list_all op_ok ops"
  shows "\<exists>s'. q_run enq deq fill s ops = Some (fst (fifo_run (cap s) (contents s) ops), s') \<and> inv s' \<and>
    contents s' = snd (fifo_run (cap s) (contents s) ops) \<and> cap s' = cap s"
  using assms
proof (induction ops arbitrary: s)
  case (Cons op ops)
  from Cons.prems obtain s1 where 1: "q_step enq deq fill s op = Some (fst (fifo_step (cap s) (contents s) op), s1)"
    "inv s1" "contents s1 = snd (fifo_step (cap s) (contents s) op)" "cap s1 = cap s"
    using step_refines by fastforce
  from Cons.IH [OF 1(2)] Cons.prems obtain s2 where
    "q_run enq deq fill s1 ops = Some (fst (fifo_run (cap s) (contents s1) ops), s2)" "inv s2"
    "contents s2 = snd (fifo_run (cap s) (contents s1) ops)" "cap s2 = cap s"
    by (auto simp: 1(4))
  with 1 show ?case by (auto split: prod.splits)
qed simp

lemma enq_one:
  assumes "inv s" and "length (contents s) < cap s"
  shows "\<exists>f s'. enq s [x] 1 = Some (1, f, s') \<and> inv s' \<and> contents s' = contents s @ [x] \<and> cap s' = cap s"
  using enq_fits [OF assms(1), of 1 "[x]"] assms(2) by auto

lemma enq_one_full:
  assumes "inv s" and "length (contents s) = cap s"
  shows "\<exists>f. enq s [x] 1 = Some (0, f, s)"
  using enq_full [OF assms(1), of 1 "[x]"] assms(2) by auto

lemma deq_one:
  assumes "inv s" and "contents s = x # q"
  shows "\<exists>f s'. deq s [y] 1 = Some (1, [x], f, s') \<and> inv s' \<and> contents s' = q \<and> cap s' = cap s"
  using deq_fits [OF assms(1), of 1 "[y]"] assms(2) by auto

lemma deq_one_empty:
  assumes "inv s" and "contents s = []"
  shows "\<exists>f. deq s [y] 1 = Some (0, [y], f, s)"
  using deq_short [OF assms(1), of 1 "[y]"] assms(2) by auto

end

end
