(* ===== verification/StorageSchema.thy ===== *)
theory StorageSchema
  imports Prelude
begin

text \<open>
  \<open>base/storage_schema.h\<close>: the request a container makes for the memory it is placed in
  (\<open>StorageSchema\<close>, one \<open>FieldBufferMetadata\<close> per field) and the memory it is then given
  (\<open>PlacementStorage\<close>, one \<open>FieldBuffer\<close> per field).

  The memory behind a \<open>void*\<close> is the list of the objects the receiver casts it to; \<open>None\<close> is
  \<open>nullptr\<close>. \<open>space_size\<close> is its size in bytes.
\<close>

record FieldBufferMetadata =
  field_id :: "32 word"
  repeated_size :: u64
  request_space_size :: u64

record 'a FieldBuffer =
  fb_meta :: FieldBufferMetadata
  fb_ptr :: "'a list option"
  fb_space_size :: u64

record StorageSchema =
  schema_fields :: "FieldBufferMetadata list"

record 'a PlacementStorage =
  field_buffers :: "'a FieldBuffer list"

definition default_metadata :: FieldBufferMetadata where
  "default_metadata = \<lparr>field_id = 0, repeated_size = 0, request_space_size = 0\<rparr>"

definition default_field_buffer :: "'a FieldBuffer" where
  "default_field_buffer = \<lparr>fb_meta = default_metadata, fb_ptr = None, fb_space_size = 0\<rparr>"

definition empty_placement :: "'a PlacementStorage" where
  "empty_placement = \<lparr>field_buffers = []\<rparr>"

text \<open>\<open>std::vector::resize\<close>: cut, or pad with value-initialised elements.\<close>

definition vec_resize :: "'a \<Rightarrow> 'a list \<Rightarrow> nat \<Rightarrow> 'a list" where
  "vec_resize d xs n = take n xs @ replicate (n - length xs) d"

lemma length_vec_resize [simp]: "length (vec_resize d xs n) = n"
  by (simp add: vec_resize_def)

definition StorageSchema_FieldSize :: "StorageSchema \<Rightarrow> nat" where
  "StorageSchema_FieldSize s = length (schema_fields s)"

definition StorageSchema_TotalSize :: "StorageSchema \<Rightarrow> u64" where
  "StorageSchema_TotalSize s =
     fold (\<lambda>f total. total + request_space_size f) (schema_fields s) 0"

definition PlacementStorage_FieldSize :: "'a PlacementStorage \<Rightarrow> nat" where
  "PlacementStorage_FieldSize p = length (field_buffers p)"

definition GetFieldBuffer :: "'a PlacementStorage \<Rightarrow> nat \<Rightarrow> 'a FieldBuffer option" where
  "GetFieldBuffer p i = mem_read (field_buffers p) i"

definition MutableFieldBuffer ::
  "'a PlacementStorage \<Rightarrow> nat \<Rightarrow> 'a FieldBuffer \<Rightarrow> 'a PlacementStorage option" where
  "MutableFieldBuffer p i fb = do {
     bs \<leftarrow> mem_write (field_buffers p) i fb;
     Some (p\<lparr>field_buffers := bs\<rparr>) }"

definition PlacementStorage_resize :: "'a PlacementStorage \<Rightarrow> nat \<Rightarrow> 'a PlacementStorage" where
  "PlacementStorage_resize p n =
     p\<lparr>field_buffers := vec_resize default_field_buffer (field_buffers p) n\<rparr>"

definition PlacementStorage_clear :: "'a PlacementStorage \<Rightarrow> 'a PlacementStorage" where
  "PlacementStorage_clear p = p\<lparr>field_buffers := []\<rparr>"

text \<open>\<open>schema.fields[i]\<close> filled in by the three assignments every \<open>GetStorageSchema\<close> makes.\<close>

definition set_field :: "StorageSchema \<Rightarrow> nat \<Rightarrow> u64 \<Rightarrow> u64 \<Rightarrow> StorageSchema" where
  "set_field s i num bytes = s\<lparr>schema_fields := (schema_fields s)[i :=
     (schema_fields s ! i)\<lparr>field_id := of_nat i, repeated_size := num,
        request_space_size := bytes\<rparr>]\<rparr>"

section \<open>Facts\<close>

lemma TotalSize_fold:
  "fold (\<lambda>f total. total + request_space_size f) fs t = t + sum_list (map request_space_size fs)"
  by (induction fs arbitrary: t) (simp_all add: algebra_simps)

lemma StorageSchema_TotalSize_eq:
  "StorageSchema_TotalSize s = sum_list (map request_space_size (schema_fields s))"
  by (simp add: StorageSchema_TotalSize_def TotalSize_fold)

lemma unat_sum_list:
  fixes ws :: "'a::len word list"
  assumes "sum_list (map unat ws) < 2 ^ LENGTH('a)"
  shows "unat (sum_list ws) = sum_list (map unat ws)"
  using assms
proof (induction ws)
  case (Cons w ws)
  then have "unat (sum_list ws) = sum_list (map unat ws)" by simp
  with Cons.prems show ?case by (simp add: unat_word_ariths)
qed simp

lemma unat_TotalSize:
  assumes "(\<Sum>f\<leftarrow>schema_fields s. unat (request_space_size f)) < 2 ^ 64"
  shows "unat (StorageSchema_TotalSize s) = (\<Sum>f\<leftarrow>schema_fields s. unat (request_space_size f))"
  using assms unat_sum_list [of "map request_space_size (schema_fields s)"]
  by (simp add: StorageSchema_TotalSize_eq comp_def)

lemma GetFieldBuffer_MutableFieldBuffer:
  "MutableFieldBuffer p i fb = Some p' \<Longrightarrow> GetFieldBuffer p' i = Some fb"
  by (auto simp: MutableFieldBuffer_def GetFieldBuffer_def mem_write_def mem_read_def
      split: bind_splits if_splits)

lemma PlacementStorage_FieldSize_resize [simp]:
  "PlacementStorage_FieldSize (PlacementStorage_resize p n) = n"
  by (simp add: PlacementStorage_FieldSize_def PlacementStorage_resize_def)

end
