(* ===== verification/RteRing.thy ===== *)
theory RteRing
  imports RingCommon BulkQueue StorageSchema Align
begin

text \<open>
  \<open>RteRing<T>\<close> of \<open>base/rte_ring.h\<close> and \<open>rte_ring.hpp\<close>, the lock-free ring the object pools of the
  shared-memory segments are built on, as one thread executes it (\<open>RingConcurrent\<close> models the
  interleavings). Every method is a function on the record of the class's members.

  \<^item> \<open>sizeof_T\<close> and the all-zero-bytes value \<open>zero\<close> of \<open>T\<close> are arguments; so are \<open>absl::bit_ceil\<close>
    and the memory \<open>heap\<close> that \<open>aligned_alloc\<close> returns (\<open>None\<close> is \<open>NULL\<close>).
  \<^item> \<open>rte_ring_inv\<close> is the state between calls, \<open>ring_contents\<close> the queue it stands for.
  \<^item> \<open>DoEnqueue_fits\<close>, \<open>DoEnqueue_full\<close>, \<open>DoDequeue_fits\<close> and \<open>DoDequeue_short\<close> say what each call
    does on every branch; they are the laws of the interface \<open>bulk_queue\<close> used by the pools.
\<close>

record 'a rte_ring =
  rr_size :: u32
  rr_mask :: u32
  rr_capacity :: u32
  rr_is_sp :: bool
  rr_is_sc :: bool
  rr_inited :: bool
  rr_prod :: ring_headtail
  rr_cons :: ring_headtail
  rr_storage :: "'a list option"
  rr_use_outer_buffer :: bool

text \<open>The default constructor: the member initialisers.\<close>

definition RteRing_new :: "'a rte_ring" where
  "RteRing_new = \<lparr>rr_size = 0, rr_mask = 0, rr_capacity = 0, rr_is_sp = True, rr_is_sc = True,
     rr_inited = False, rr_prod = init_headtail, rr_cons = init_headtail, rr_storage = None,
     rr_use_outer_buffer = False\<rparr>"

definition AlignmentSize :: u64 where
  "AlignmentSize = 128"

definition AlignedNum :: "(u64 \<Rightarrow> u64) \<Rightarrow> u64 \<Rightarrow> u64" where
  "AlignedNum bit_ceil num = bit_ceil num"

definition PlacementStorageSize :: "(u64 \<Rightarrow> u64) \<Rightarrow> u64 \<Rightarrow> u64 \<Rightarrow> u64" where
  "PlacementStorageSize bit_ceil sizeof_T num =
     (let alignment = AlignmentSize;
          sz = AlignedNum bit_ceil num
      in (sz * sizeof_T + alignment - 1) AND (- alignment))"

definition RteRing_GetStorageSchema ::
  "(u64 \<Rightarrow> u64) \<Rightarrow> u64 \<Rightarrow> StorageSchema \<Rightarrow> u64 \<Rightarrow> StorageSchema" where
  "RteRing_GetStorageSchema bit_ceil sizeof_T schema num =
     (let schema = schema\<lparr>schema_fields := vec_resize default_metadata (schema_fields schema) 1\<rparr>
      in set_field schema 0 num (PlacementStorageSize bit_ceil sizeof_T num))"

definition RteRing_SetPlacementStorage ::
  "'a rte_ring \<Rightarrow> 'a PlacementStorage \<Rightarrow> bool \<times> 'a rte_ring" where
  "RteRing_SetPlacementStorage r storage =
     (if length (field_buffers storage) \<noteq> 1 then (False, r)
      else (True, r\<lparr>rr_storage := fb_ptr (field_buffers storage ! 0)\<rparr>))"

text \<open>
  \<open>bzero(p, bytes)\<close> on memory holding \<open>T\<close>s: it must lie inside the memory, and clears the elements
  it covers whole (an element it covers in part lies beyond the ring's slots).
\<close>

definition bzero :: "u64 \<Rightarrow> 'a \<Rightarrow> 'a list option \<Rightarrow> u64 \<Rightarrow> 'a list option" where
  "bzero sizeof_T zero p bytes = (case p of None \<Rightarrow> None | Some m \<Rightarrow>
     (let c = unat bytes div unat sizeof_T in
      if c \<le> length m then Some (replicate c zero @ drop c m) else None))"

definition RteRing_Init ::
  "(u64 \<Rightarrow> u64) \<Rightarrow> u64 \<Rightarrow> 'a \<Rightarrow> 'a list option \<Rightarrow> 'a rte_ring \<Rightarrow> u32 \<Rightarrow> bool \<Rightarrow> bool \<Rightarrow>
     'a PlacementStorage \<Rightarrow> (bool \<times> 'a rte_ring) option" where
  "RteRing_Init bit_ceil sizeof_T zero heap r object_num is_sp is_sc placement_storage =
     (if rr_inited r then Some (True, r)
      else do {
        let r = r\<lparr>rr_is_sp := is_sp, rr_is_sc := is_sc,
                  rr_size := ucast (AlignedNum bit_ceil (ucast object_num))\<rparr>;
        let r = r\<lparr>rr_capacity := rr_size r\<rparr>;
        let r = r\<lparr>rr_mask := rr_size r - 1\<rparr>;
        let buffer_size = PlacementStorageSize bit_ceil sizeof_T (ucast object_num);
        r \<leftarrow> (if PlacementStorage_FieldSize placement_storage = 1 \<and>
                   fb_ptr (field_buffers placement_storage ! 0) \<noteq> None
              then do {
                fb \<leftarrow> GetFieldBuffer placement_storage 0;
                Some (r\<lparr>rr_storage := fb_ptr fb, rr_use_outer_buffer := True\<rparr>) }
              else Some (r\<lparr>rr_storage := heap\<rparr>));
        m \<leftarrow> bzero sizeof_T zero (rr_storage r) buffer_size;
        let r = r\<lparr>rr_storage := Some m, rr_inited := True\<rparr>;
        Some (True, r) })"

text \<open>The constructors that call \<open>Init\<close>, and \<open>Init\<close> without a placement.\<close>

definition RteRing_Init_default where
  "RteRing_Init_default bit_ceil sizeof_T zero heap r object_num is_sp is_sc =
     RteRing_Init bit_ceil sizeof_T zero heap r object_num is_sp is_sc empty_placement"

definition RteRing_construct where
  "RteRing_construct bit_ceil sizeof_T zero heap object_num is_sp is_sc placement =
     map_option snd (RteRing_Init bit_ceil sizeof_T zero heap RteRing_new object_num is_sp is_sc placement)"

text \<open>The destructor: what is freed and the members after it.\<close>

definition RteRing_destroy :: "'a rte_ring \<Rightarrow> 'a list option \<times> 'a rte_ring" where
  "RteRing_destroy r =
     (if \<not> rr_use_outer_buffer r \<and> rr_storage r \<noteq> None
      then (rr_storage r, r\<lparr>rr_storage := None\<rparr>) else (None, r))"

text \<open>
  \<open>MoveProdHead\<close> and \<open>MoveConsHead\<close>: the \<open>do ... while\<close> loop, with \<open>*old_head\<close> and \<open>*new_head\<close> as loop
  variables. The result is the return value, \<open>*old_head\<close>, \<open>*new_head\<close>, \<open>*free_entries\<close> and the ring.
\<close>

partial_function (option) MoveProdHead_loop ::
  "u32 \<Rightarrow> bool \<Rightarrow> 'a rte_ring \<Rightarrow> u32 \<Rightarrow> u32 \<Rightarrow> (u32 \<times> u32 \<times> u32 \<times> u32 \<times> 'a rte_ring) option" where
  "MoveProdHead_loop max_n is_sp r old_head new_head =
     (let cons_tail = ht_tail (rr_cons r);
          free_entries = rr_capacity r + cons_tail - old_head;
          n = (if max_n > free_entries then 0 else max_n)
      in if n = 0 then Some (0, old_head, new_head, free_entries, r)
         else let new_head = old_head + n in
           if is_sp
           then Some (n, old_head, new_head, free_entries,
                      r\<lparr>rr_prod := (rr_prod r)\<lparr>ht_head := new_head\<rparr>\<rparr>)
           else (case compare_exchange_strong (ht_head (rr_prod r)) old_head new_head of
             (success, head, old_head) \<Rightarrow>
               (if success
                then Some (n, old_head, new_head, free_entries,
                           r\<lparr>rr_prod := (rr_prod r)\<lparr>ht_head := head\<rparr>\<rparr>)
                else MoveProdHead_loop max_n is_sp r old_head new_head)))"

definition MoveProdHead ::
  "'a rte_ring \<Rightarrow> u32 \<Rightarrow> bool \<Rightarrow> (u32 \<times> u32 \<times> u32 \<times> u32 \<times> 'a rte_ring) option" where
  "MoveProdHead r n is_sp = MoveProdHead_loop n is_sp r (ht_head (rr_prod r)) 0"

partial_function (option) MoveConsHead_loop ::
  "u32 \<Rightarrow> bool \<Rightarrow> 'a rte_ring \<Rightarrow> u32 \<Rightarrow> u32 \<Rightarrow> (u32 \<times> u32 \<times> u32 \<times> u32 \<times> 'a rte_ring) option" where
  "MoveConsHead_loop max_n is_sc r old_head new_head =
     (let prod_tail = ht_tail (rr_prod r);
          entries = prod_tail - old_head;
          n = (if max_n > entries then 0 else max_n)
      in if n = 0 then Some (0, old_head, new_head, entries, r)
         else let new_head = old_head + n in
           if is_sc
           then Some (n, old_head, new_head, entries,
                      r\<lparr>rr_cons := (rr_cons r)\<lparr>ht_head := new_head\<rparr>\<rparr>)
           else (case compare_exchange_strong (ht_head (rr_cons r)) old_head new_head of
             (success, head, old_head) \<Rightarrow>
               (if success
                then Some (n, old_head, new_head, entries,
                           r\<lparr>rr_cons := (rr_cons r)\<lparr>ht_head := head\<rparr>\<rparr>)
                else MoveConsHead_loop max_n is_sc r old_head new_head)))"

definition MoveConsHead ::
  "'a rte_ring \<Rightarrow> u32 \<Rightarrow> bool \<Rightarrow> (u32 \<times> u32 \<times> u32 \<times> u32 \<times> 'a rte_ring) option" where
  "MoveConsHead r n is_sc = MoveConsHead_loop n is_sc r (ht_head (rr_cons r)) 0"

text \<open>The copies between \<open>obj_table\<close> and \<open>storage_\<close>.\<close>

definition EnqueueValues ::
  "'a rte_ring \<Rightarrow> 'a list \<Rightarrow> u32 \<Rightarrow> 'a list \<Rightarrow> u32 \<Rightarrow> 'a list option" where
  "EnqueueValues r ring_start prod_head obj_table n =
     copy_values (enq_asg obj_table) (rr_size r) (rr_mask r) prod_head n ring_start"

definition DequeueValues ::
  "'a rte_ring \<Rightarrow> 'a list \<Rightarrow> u32 \<Rightarrow> 'a list \<Rightarrow> u32 \<Rightarrow> 'a list option" where
  "DequeueValues r ring_start cons_head obj_table n =
     copy_values (deq_asg ring_start) (rr_size r) (rr_mask r) cons_head n obj_table"

text \<open>
  \<open>DoEnqueue\<close> returns \<open>n\<close>, \<open>*free_space\<close> and the ring; \<open>DoDequeue\<close> returns \<open>n\<close>, the filled
  \<open>obj_table\<close>, \<open>*available\<close> and the ring.
\<close>

definition DoEnqueue ::
  "'a rte_ring \<Rightarrow> 'a list \<Rightarrow> u32 \<Rightarrow> bool \<Rightarrow> (u32 \<times> u32 \<times> 'a rte_ring) option" where
  "DoEnqueue r obj_table n is_sp = do {
     (n, prod_head, prod_next, free_entries, r) \<leftarrow> MoveProdHead r n is_sp;
     if n = 0 then Some (n, free_entries - n, r)
     else do {
       ring \<leftarrow> rr_storage r;
       ring \<leftarrow> EnqueueValues r ring prod_head obj_table n;
       let r = r\<lparr>rr_storage := Some ring\<rparr>;
       prod \<leftarrow> UpdateTail (rr_prod r) prod_head prod_next is_sp;
       Some (n, free_entries - n, r\<lparr>rr_prod := prod\<rparr>) } }"

definition DoDequeue ::
  "'a rte_ring \<Rightarrow> 'a list \<Rightarrow> u32 \<Rightarrow> bool \<Rightarrow> (u32 \<times> 'a list \<times> u32 \<times> 'a rte_ring) option" where
  "DoDequeue r obj_table n is_sc = do {
     (n, cons_head, cons_next, entries, r) \<leftarrow> MoveConsHead r n is_sc;
     if n = 0 then Some (n, obj_table, entries - n, r)
     else do {
       ring \<leftarrow> rr_storage r;
       obj_table \<leftarrow> DequeueValues r ring cons_head obj_table n;
       cons \<leftarrow> UpdateTail (rr_cons r) cons_head cons_next is_sc;
       Some (n, obj_table, entries - n, r\<lparr>rr_cons := cons\<rparr>) } }"

definition RteRing_Size :: "'a rte_ring \<Rightarrow> u32" where
  "RteRing_Size r = rr_size r"

definition RteRing_UseOuterBuffer :: "'a rte_ring \<Rightarrow> bool" where
  "RteRing_UseOuterBuffer r = rr_use_outer_buffer r"

definition RteRing_FreeNum :: "'a rte_ring \<Rightarrow> u32" where
  "RteRing_FreeNum r = 0"

section \<open>Invariant and abstraction\<close>

definition rte_ring_inv :: "'a rte_ring \<Rightarrow> bool" where
  "rte_ring_inv r \<longleftrightarrow>
     (\<exists>k<32. ring_dims (rr_size r) (rr_mask r) k) \<and> rr_capacity r = rr_size r \<and> rr_inited r \<and>
     ht_head (rr_prod r) = ht_tail (rr_prod r) \<and> ht_head (rr_cons r) = ht_tail (rr_cons r) \<and>
     unat (ht_tail (rr_prod r) - ht_tail (rr_cons r)) \<le> unat (rr_size r) \<and>
     (case rr_storage r of None \<Rightarrow> False | Some m \<Rightarrow> unat (rr_size r) \<le> length m)"

definition ring_contents :: "'a rte_ring \<Rightarrow> 'a list" where
  "ring_contents r = (case rr_storage r of None \<Rightarrow> [] | Some m \<Rightarrow>
     ring_get (unat (rr_size r)) (unat (ht_tail (rr_cons r)))
       (unat (ht_tail (rr_prod r) - ht_tail (rr_cons r))) m)"

definition ring_free :: "'a rte_ring \<Rightarrow> nat" where
  "ring_free r = unat (rr_size r) - length (ring_contents r)"

lemma rte_ring_invE:
  assumes "rte_ring_inv r"
  obtains k m where "ring_dims (rr_size r) (rr_mask r) k" "rr_capacity r = rr_size r" "rr_inited r"
    "ht_head (rr_prod r) = ht_tail (rr_prod r)" "ht_head (rr_cons r) = ht_tail (rr_cons r)"
    "unat (ht_tail (rr_prod r) - ht_tail (rr_cons r)) \<le> unat (rr_size r)"
    "rr_storage r = Some m" "unat (rr_size r) \<le> length m"
  using assms unfolding rte_ring_inv_def by (auto split: option.splits)

lemma length_ring_contents:
  "rte_ring_inv r \<Longrightarrow> length (ring_contents r) = unat (ht_tail (rr_prod r) - ht_tail (rr_cons r))"
  by (erule rte_ring_invE) (simp add: ring_contents_def)

lemma length_ring_contents_le: "rte_ring_inv r \<Longrightarrow> length (ring_contents r) \<le> unat (rr_size r)"
  by (metis length_ring_contents rte_ring_invE)

lemma free_entries_eq:
  assumes "rte_ring_inv r"
  shows "unat (rr_capacity r + ht_tail (rr_cons r) - ht_head (rr_prod r)) = ring_free r"
proof -
  from assms obtain k m where i: "rr_capacity r = rr_size r" "ht_head (rr_prod r) = ht_tail (rr_prod r)"
    "unat (ht_tail (rr_prod r) - ht_tail (rr_cons r)) \<le> unat (rr_size r)" by (rule rte_ring_invE)
  let ?d = "ht_tail (rr_prod r) - ht_tail (rr_cons r)"
  have "rr_capacity r + ht_tail (rr_cons r) - ht_head (rr_prod r) = rr_size r - ?d"
    by (simp add: i)
  moreover have "unat (rr_size r - ?d) = unat (rr_size r) - unat ?d"
    using i(3) by (intro unat_sub) (simp add: word_le_nat_alt)
  ultimately show ?thesis by (simp only: ring_free_def length_ring_contents [OF assms])
qed

lemma entries_eq:
  "rte_ring_inv r \<Longrightarrow> unat (ht_tail (rr_prod r) - ht_head (rr_cons r)) = length (ring_contents r)"
  by (metis length_ring_contents rte_ring_invE)

section \<open>MoveProdHead and MoveConsHead\<close>

text \<open>
  With no other thread the compare-and-exchange succeeds at once, so both modes move the head the
  same way.
\<close>

lemma MoveProdHead_eq:
  assumes "rte_ring_inv r"
  shows "MoveProdHead r n is_sp =
    (let head = ht_head (rr_prod r); free = of_nat (ring_free r) in
     if ring_free r < unat n \<or> n = 0 then Some (0, head, 0, free, r)
     else Some (n, head, head + n, free, r\<lparr>rr_prod := (rr_prod r)\<lparr>ht_head := head + n\<rparr>\<rparr>))"
proof -
  have f: "rr_capacity r + ht_tail (rr_cons r) - ht_head (rr_prod r) = of_nat (ring_free r)"
    unfolding free_entries_eq [OF assms, symmetric] by simp
  have "of_nat (ring_free r) < n \<longleftrightarrow> ring_free r < unat n"
    using free_entries_eq [OF assms] by (simp add: f word_less_nat_alt)
  then show ?thesis
    unfolding MoveProdHead_def by (subst MoveProdHead_loop.simps) (simp add: Let_def f)
qed

lemma MoveConsHead_eq:
  assumes "rte_ring_inv r"
  shows "MoveConsHead r n is_sc =
    (let head = ht_head (rr_cons r); entries = of_nat (length (ring_contents r)) in
     if length (ring_contents r) < unat n \<or> n = 0 then Some (0, head, 0, entries, r)
     else Some (n, head, head + n, entries, r\<lparr>rr_cons := (rr_cons r)\<lparr>ht_head := head + n\<rparr>\<rparr>))"
proof -
  have f: "ht_tail (rr_prod r) - ht_head (rr_cons r) = of_nat (length (ring_contents r))"
    unfolding entries_eq [OF assms, symmetric] by simp
  have "of_nat (length (ring_contents r)) < n \<longleftrightarrow> length (ring_contents r) < unat n"
    using entries_eq [OF assms] by (simp add: f word_less_nat_alt)
  then show ?thesis
    unfolding MoveConsHead_def by (subst MoveConsHead_loop.simps) (simp add: Let_def f)
qed

section \<open>DoEnqueue and DoDequeue\<close>

definition ring_put_tail :: "'a rte_ring \<Rightarrow> 'a list \<Rightarrow> 'a rte_ring" where
  "ring_put_tail r xs = (let h = ht_tail (rr_prod r) + of_nat (length xs) in
     r\<lparr>rr_prod := \<lparr>ht_head = h, ht_tail = h\<rparr>,
       rr_storage := map_option (ring_put (unat (rr_size r)) (unat (ht_tail (rr_prod r))) xs) (rr_storage r)\<rparr>)"

definition ring_advance :: "'a rte_ring \<Rightarrow> u32 \<Rightarrow> 'a rte_ring" where
  "ring_advance r n = (let h = ht_tail (rr_cons r) + n in r\<lparr>rr_cons := \<lparr>ht_head = h, ht_tail = h\<rparr>\<rparr>)"

lemma DoEnqueue_eq:
  assumes inv: "rte_ring_inv r" and n: "unat n \<le> length obj_table"
  shows "DoEnqueue r obj_table n is_sp =
    (if ring_free r < unat n \<or> n = 0 then Some (0, of_nat (ring_free r), r)
     else Some (n, of_nat (ring_free r) - n, ring_put_tail r (take (unat n) obj_table)))"
proof (cases "ring_free r < unat n \<or> n = 0")
  case True
  then show ?thesis by (simp add: DoEnqueue_def MoveProdHead_eq [OF inv] Let_def)
next
  case False
  from inv obtain k m where d: "ring_dims (rr_size r) (rr_mask r) k"
    and h: "ht_head (rr_prod r) = ht_tail (rr_prod r)"
    and m: "rr_storage r = Some m" "unat (rr_size r) \<le> length m" by (rule rte_ring_invE)
  have "n \<le> rr_size r" using False unfolding ring_free_def word_le_nat_alt by linarith
  note c = copy_values_enq [OF d m(2) this n]
  have l: "of_nat (length (take (unat n) obj_table)) = n" using n by simp
  show ?thesis
    using False
    by (simp add: DoEnqueue_def MoveProdHead_eq [OF inv] Let_def EnqueueValues_def c m h UpdateTail_def
        ring_put_tail_def l wait_tail.simps del: length_take)
qed

lemma DoDequeue_eq:
  assumes inv: "rte_ring_inv r" and n: "unat n \<le> length obj_table"
  shows "DoDequeue r obj_table n is_sc =
    (let q = ring_contents r in
     if length q < unat n \<or> n = 0 then Some (0, obj_table, of_nat (length q), r)
     else Some (n, take (unat n) q @ drop (unat n) obj_table, of_nat (length q) - n, ring_advance r n))"
proof (cases "length (ring_contents r) < unat n \<or> n = 0")
  case True
  then show ?thesis by (simp add: DoDequeue_def MoveConsHead_eq [OF inv] Let_def)
next
  case False
  from inv obtain k m where d: "ring_dims (rr_size r) (rr_mask r) k"
    and h: "ht_head (rr_cons r) = ht_tail (rr_cons r)"
    and m: "rr_storage r = Some m" "unat (rr_size r) \<le> length m" by (rule rte_ring_invE)
  have "n \<le> rr_size r"
    using False length_ring_contents_le [OF inv] by (simp add: word_le_nat_alt)
  note c = copy_values_deq [OF d m(2) this n]
  let ?d = "unat (ht_tail (rr_prod r) - ht_tail (rr_cons r))"
  have "?d = unat n + (?d - unat n)" using False by (simp add: length_ring_contents [OF inv])
  then have tk: "ring_get (unat (rr_size r)) (unat (ht_tail (rr_cons r))) (unat n) m =
      take (unat n) (ring_contents r)"
    unfolding ring_contents_def m option.case
    by (metis append_eq_conv_conj length_ring_get ring_get_add)
  show ?thesis
    using False
    by (simp add: DoDequeue_def MoveConsHead_eq [OF inv] Let_def DequeueValues_def c m h UpdateTail_def
        ring_advance_def tk wait_tail.simps)
qed

lemma ring_put_tail_correct:
  assumes inv: "rte_ring_inv r" and fit: "length xs \<le> ring_free r"
  shows "rte_ring_inv (ring_put_tail r xs)" and "ring_contents (ring_put_tail r xs) = ring_contents r @ xs"
proof -
  from inv obtain k m where i: "ring_dims (rr_size r) (rr_mask r) k" "rr_capacity r = rr_size r"
    "rr_inited r" "ht_head (rr_cons r) = ht_tail (rr_cons r)"
    and m: "rr_storage r = Some m" "unat (rr_size r) \<le> length m" by (rule rte_ring_invE)
  let ?p = "ht_tail (rr_prod r)" and ?c = "ht_tail (rr_cons r)" and ?n = "of_nat (length xs) :: u32"
  let ?sz = "unat (rr_size r)" and ?d = "unat (ht_tail (rr_prod r) - ht_tail (rr_cons r))"
  have sz: "?sz < 2 ^ 32" using unat_less_2p [of "rr_size r"] by simp
  have fit': "?d + length xs \<le> ?sz"
    using fit length_ring_contents [OF inv] length_ring_contents_le [OF inv] by (simp add: ring_free_def)
  have n: "unat ?n = length xs" using fit' sz by (simp add: unat_of_nat)
  have dist: "unat (?p + ?n - ?c) = ?d + length xs"
    using fit' sz n by (subst unat_diff_add) simp_all
  show "rte_ring_inv (ring_put_tail r xs)"
    using i m fit' dist by (auto simp: rte_ring_inv_def ring_put_tail_def Let_def ring_dims_def)
  have "(unat ?p) mod ?sz = (unat ?c + ?d) mod ?sz"
    using unat_mod_size [OF i(1), of ?c ?d] by simp
  then have put: "ring_put ?sz (unat ?p) xs m = ring_put ?sz (unat ?c + ?d) xs m"
    by (rule ring_put_cong_mod)
  have "ring_get ?sz (unat ?c) (?d + length xs) (ring_put ?sz (unat ?c + ?d) xs m) =
      ring_get ?sz (unat ?c) ?d m @ xs"
    using fit' m(2) ring_dims_unat(3) [OF i(1)] by (intro ring_get_put_append) simp_all
  then show "ring_contents (ring_put_tail r xs) = ring_contents r @ xs"
    by (simp add: ring_contents_def ring_put_tail_def Let_def m dist put)
qed

lemma ring_advance_correct:
  assumes inv: "rte_ring_inv r" and n: "unat n \<le> length (ring_contents r)"
  shows "rte_ring_inv (ring_advance r n)" and "ring_contents (ring_advance r n) = drop (unat n) (ring_contents r)"
proof -
  from inv obtain k m where i: "ring_dims (rr_size r) (rr_mask r) k" "rr_capacity r = rr_size r"
    "rr_inited r" "ht_head (rr_prod r) = ht_tail (rr_prod r)"
    and d: "unat (ht_tail (rr_prod r) - ht_tail (rr_cons r)) \<le> unat (rr_size r)"
    and m: "rr_storage r = Some m" "unat (rr_size r) \<le> length m" by (rule rte_ring_invE)
  let ?p = "ht_tail (rr_prod r)" and ?c = "ht_tail (rr_cons r)"
  let ?sz = "unat (rr_size r)" and ?d = "unat (ht_tail (rr_prod r) - ht_tail (rr_cons r))"
  have n': "unat n \<le> ?d" using n by (simp add: length_ring_contents [OF inv])
  have dist: "unat (?p - (?c + n)) = ?d - unat n" using n' by (rule unat_diff_sub)
  show "rte_ring_inv (ring_advance r n)"
    using i m d dist by (auto simp: rte_ring_inv_def ring_advance_def Let_def ring_dims_def)
  have "unat (?c + n) mod ?sz = (unat ?c + unat n) mod ?sz"
    using unat_mod_size [OF i(1), of ?c "unat n"] by simp
  note g = ring_get_cong_mod [OF this, of "?d - unat n" m]
  have "ring_contents (ring_advance r n) = ring_get ?sz (unat ?c + unat n) (?d - unat n) m"
    by (simp add: ring_contents_def ring_advance_def Let_def m dist g)
  also have "\<dots> = drop (unat n) (ring_get ?sz (unat ?c) (unat n + (?d - unat n)) m)"
    by (simp only: ring_get_add) simp
  also have "\<dots> = drop (unat n) (ring_contents r)" using n' by (simp add: ring_contents_def m)
  finally show "ring_contents (ring_advance r n) = drop (unat n) (ring_contents r)" .
qed

lemma ring_size_simps [simp]:
  "rr_size (ring_put_tail r xs) = rr_size r" "rr_size (ring_advance r n) = rr_size r"
  by (simp_all add: ring_put_tail_def ring_advance_def Let_def)

lemma ring_headtail_eta: "ht_head h = ht_tail h \<Longrightarrow> \<lparr>ht_head = ht_tail h, ht_tail = ht_tail h\<rparr> = h"
  by (rule ring_headtail.equality) simp_all

lemma ring_put_tail_Nil: "rte_ring_inv r \<Longrightarrow> ring_put_tail r [] = r"
  by (erule rte_ring_invE) (rule rte_ring.equality, simp_all add: ring_put_tail_def Let_def ring_headtail_eta)

lemma ring_advance_0: "rte_ring_inv r \<Longrightarrow> ring_advance r 0 = r"
  by (erule rte_ring_invE) (rule rte_ring.equality, simp_all add: ring_advance_def Let_def ring_headtail_eta)

section \<open>The ring implements the bounded FIFO queue\<close>

interpretation rte: bulk_queue rte_ring_inv ring_contents "\<lambda>r. unat (rr_size r)"
  "\<lambda>r xs n. DoEnqueue r xs n is_sp" "\<lambda>r xs n. DoDequeue r xs n is_sc" for is_sp is_sc
proof (unfold_locales, goal_cases)
  case (1 s)
  then show ?case using unat_less_2p [of "rr_size s"] by simp
next
  case (2 s)
  then show ?case by (rule length_ring_contents_le)
next
  case (3 s n obj)
  have fit: "unat n \<le> ring_free s" using 3 by (simp add: ring_free_def)
  have "n = 0 \<Longrightarrow> ring_put_tail s (take (unat n) obj) = s" using 3(1)
    by (simp add: ring_put_tail_Nil)
  then have "DoEnqueue s obj n is_sp =
      Some (n, of_nat (ring_free s) - n, ring_put_tail s (take (unat n) obj))"
    using DoEnqueue_eq [OF 3(1,2), of is_sp] fit by (cases "n = 0") auto
  moreover have "(of_nat (ring_free s) :: u32) - n = of_nat (ring_free s - unat n)"
    using fit by simp
  ultimately show ?case
    using ring_put_tail_correct [OF 3(1), of "take (unat n) obj"] fit 3(2)
    by (simp add: ring_free_def del: of_nat_diff)
next
  case (4 s n obj)
  then show ?case using length_ring_contents_le [of s] by (auto simp: DoEnqueue_eq ring_free_def)
next
  case (5 s n obj)
  have "n = 0 \<Longrightarrow> ring_advance s n = s" using 5(1) by (simp add: ring_advance_0)
  then have "DoDequeue s obj n is_sc = Some (n, take (unat n) (ring_contents s) @ drop (unat n) obj,
      of_nat (length (ring_contents s)) - n, ring_advance s n)"
    using DoDequeue_eq [OF 5(1,2), of is_sc] 5(3) by (cases "n = 0") (auto simp: Let_def)
  moreover have "(of_nat (length (ring_contents s)) :: u32) - n = of_nat (length (ring_contents s) - unat n)"
    using 5(3) by simp
  ultimately show ?case
    using ring_advance_correct [OF 5(1,3)] by (simp del: of_nat_diff)
next
  case (6 s n obj)
  then show ?case by (auto simp: DoDequeue_eq Let_def)
qed

section \<open>Init\<close>

lemma PlacementStorageSize_eq:
  "PlacementStorageSize bc st num = align_up (bc num * st) (2 ^ 7)"
  by (simp add: PlacementStorageSize_def AlignmentSize_def AlignedNum_def align_up_def Let_def)

lemma unat_PlacementStorageSize:
  assumes "bc num = 2 ^ k" and "k < 64" and "2 ^ k * unat st + 128 \<le> 2 ^ 64"
  shows "2 ^ k * unat st \<le> unat (PlacementStorageSize bc st num)"
proof -
  have "unat (2 ^ k :: u64) = 2 ^ k" using assms(2) by (simp add: unat_pow2)
  then have "unat (bc num * st) = 2 ^ k * unat st"
    using assms(1,3) by (simp add: unat_word_ariths)
  then show ?thesis
    using assms(3) nat_align_up_bounds(1) [of "2 ^ 7" "2 ^ k * unat st"]
    by (simp only: PlacementStorageSize_eq) (subst unat_align_up, simp_all)
qed

text \<open>The memory \<open>Init\<close> uses: the placement's buffer if it has exactly one, else the heap's.\<close>

definition init_memory :: "'a list option \<Rightarrow> 'a PlacementStorage \<Rightarrow> 'a list option" where
  "init_memory heap placement =
     (if PlacementStorage_FieldSize placement = 1 \<and> fb_ptr (field_buffers placement ! 0) \<noteq> None
      then fb_ptr (field_buffers placement ! 0) else heap)"

lemma bit_ceil_u32_size:
  assumes "bit_ceil_spec bc" and "unat num \<le> 2 ^ 31"
  obtains k where "k < 32" and "bc (ucast (num :: u32) :: u64) = 2 ^ k" and "unat num \<le> 2 ^ k"
    and "\<forall>j<k. 2 ^ j < unat num"
proof -
  have u: "unat (ucast num :: u64) = unat num" by (simp add: unat_ucast_up)
  obtain k where k: "k \<le> 31" "bc (ucast num) = 2 ^ k" "unat num \<le> 2 ^ k"
    "\<And>j. j < k \<Longrightarrow> 2 ^ j < unat num"
    using bit_ceil_specE [OF assms(1), of "ucast num" 31] assms(2) unfolding u by auto
  show ?thesis using that [of k] k by simp
qed

text \<open>The members after \<open>Init\<close> on a fresh object.\<close>

lemma RteRing_Init_eq:
  assumes "init_memory heap placement = Some m"
    and "unat (PlacementStorageSize bc st (ucast num)) div unat st \<le> length m"
  shows "\<exists>outer. RteRing_Init bc st zero heap RteRing_new num is_sp is_sc placement =
    Some (True, \<lparr>rr_size = ucast (bc (ucast num)), rr_mask = ucast (bc (ucast num)) - 1,
      rr_capacity = ucast (bc (ucast num)), rr_is_sp = is_sp, rr_is_sc = is_sc, rr_inited = True,
      rr_prod = init_headtail, rr_cons = init_headtail,
      rr_storage = bzero st zero (Some m) (PlacementStorageSize bc st (ucast num)),
      rr_use_outer_buffer = outer\<rparr>)"
  using assms
  by (auto simp: RteRing_Init_def RteRing_new_def init_memory_def AlignedNum_def bzero_def Let_def
      GetFieldBuffer_def mem_read_def PlacementStorage_FieldSize_def split: if_splits)

lemma ucast_pow2_u32: "k < 32 \<Longrightarrow> (ucast (2 ^ k :: u64) :: u32) = 2 ^ k"
  by (rule word_unat_eq_iff [THEN iffD2])
    (simp add: unsigned_ucast_eq unat_pow2 take_bit_nat_eq_self)

lemma RteRing_Init_ok:
  assumes bc: "bit_ceil_spec bc" and num: "unat num \<le> 2 ^ 31"
    and st: "0 < st" "2 ^ 31 * unat st + 128 \<le> 2 ^ 64"
    and mem: "init_memory heap placement = Some m"
      "unat (PlacementStorageSize bc st (ucast num)) \<le> length m * unat st"
  shows "\<exists>r. RteRing_Init bc st zero heap RteRing_new num is_sp is_sc placement = Some (True, r)
    \<and> rte_ring_inv r \<and> ring_contents r = [] \<and> unat num \<le> unat (rr_size r)
    \<and> (\<forall>j. unat num \<le> 2 ^ j \<longrightarrow> unat (rr_size r) \<le> 2 ^ j)"
proof -
  obtain k where k: "k < 32" "bc (ucast num) = 2 ^ k" "unat num \<le> 2 ^ k"
    and min: "\<forall>j<k. 2 ^ j < unat num"
    by (rule bit_ceil_u32_size [OF bc num])
  let ?b = "unat (PlacementStorageSize bc st (ucast num))"
  have st0: "0 < unat st" using st(1) by (simp add: word_less_nat_alt)
  have "(2::nat) ^ k * unat st \<le> 2 ^ 31 * unat st"
    using k(1) by (intro mult_le_mono1 power_increasing) simp_all
  then have "2 ^ k * unat st + 128 \<le> 2 ^ 64" using st(2) by linarith
  then have "2 ^ k * unat st \<le> ?b"
    using k by (intro unat_PlacementStorageSize) simp_all
  then have slots: "2 ^ k \<le> ?b div unat st" using st0 by (simp add: less_eq_div_iff_mult_less_eq)
  have len: "?b div unat st \<le> length m"
    using mem(2) st0 by (metis div_le_mono div_mult_self_is_m)
  obtain outer where r: "RteRing_Init bc st zero heap RteRing_new num is_sp is_sc placement =
    Some (True, \<lparr>rr_size = 2 ^ k, rr_mask = 2 ^ k - 1, rr_capacity = 2 ^ k, rr_is_sp = is_sp,
      rr_is_sc = is_sc, rr_inited = True, rr_prod = init_headtail, rr_cons = init_headtail,
      rr_storage = Some (replicate (?b div unat st) zero @ drop (?b div unat st) m),
      rr_use_outer_buffer = outer\<rparr>)" (is "_ = Some (True, ?r)")
    using RteRing_Init_eq [OF mem(1) len, of zero is_sp is_sc] len
    by (auto simp: k(2) ucast_pow2_u32 [OF k(1)] bzero_def Let_def)
  have "rte_ring_inv ?r"
    using k(1) slots len by (auto simp: rte_ring_inv_def ring_dims_def init_headtail_def unat_pow2)
  moreover have "ring_contents ?r = []" by (simp add: ring_contents_def init_headtail_def)
  moreover have "unat num \<le> 2 ^ j \<longrightarrow> (2::nat) ^ k \<le> 2 ^ j" for j
    using min by (cases "j < k") (simp_all add: power_increasing not_le)
  ultimately show ?thesis using r k by (auto simp: unat_pow2)
qed

text \<open>
  C20: \<open>Init\<close> of a fresh ring for at most \<open>2^31\<close> objects, in memory of at least
  \<open>PlacementStorageSize\<close> bytes (the placement's buffer, or what \<open>aligned_alloc\<close> returned), never
  writes outside it and gives a well-formed empty ring whose size is the least power of two not
  below the requested number.
\<close>

theorem RteRing_Init_correct:
  assumes bc: "bit_ceil_spec bc" and num: "unat num \<le> 2 ^ 31"
    and st: "0 < st" "2 ^ 31 * unat st + 128 \<le> 2 ^ 64"
    and mem: "init_memory heap placement = Some m"
      "unat (PlacementStorageSize bc st (ucast num)) \<le> length m * unat st"
  shows "\<exists>r. RteRing_Init bc st zero heap RteRing_new num is_sp is_sc placement = Some (True, r)
    \<and> rte_ring_inv r \<and> ring_contents r = [] \<and> unat num \<le> unat (rr_size r)
    \<and> (\<forall>j. unat num \<le> 2 ^ j \<longrightarrow> unat (rr_size r) \<le> 2 ^ j)"
  by (rule RteRing_Init_ok [OF assms])

theorem RteRing_Init_correct_witness:
  "\<exists>r. RteRing_Init bit_ceil_ref 4 (0::int) (Some (replicate 32 7)) RteRing_new 5 True True
      empty_placement = Some (True, r) \<and> rte_ring_inv r \<and> ring_contents r = []"
proof -
  have "unat (PlacementStorageSize bit_ceil_ref 4 (ucast (5 :: u32))) \<le> length (replicate 32 (7::int)) * unat (4::u64)"
    by (simp add: PlacementStorageSize_def AlignmentSize_def AlignedNum_def bit_ceil_ref_def)
  then show ?thesis
    using RteRing_Init_correct [OF bit_ceil_ref_spec, of 5 4 "Some (replicate 32 7)" empty_placement
        "replicate 32 7" "0::int" True True]
    by (auto simp: init_memory_def empty_placement_def PlacementStorage_FieldSize_def)
qed

text \<open>
  C3: any sequence of bulk enqueues and dequeues on a well-formed ring, in either producer and
  consumer mode, returns (no access outside the arrays, no endless wait) and gives exactly the
  results of the abstract bounded FIFO queue: elements taken, elements delivered, free space and
  remaining entries reported; the ring stays well-formed and stands for the abstract queue.
\<close>

theorem ring_run_refines_fifo:
  assumes "rte_ring_inv r" and "list_all op_ok ops"
  shows "\<exists>r'. q_run (\<lambda>r xs n. DoEnqueue r xs n is_sp) (\<lambda>r xs n. DoDequeue r xs n is_sc) fill r ops =
      Some (fst (fifo_run (unat (rr_size r)) (ring_contents r) ops), r')
    \<and> rte_ring_inv r' \<and> ring_contents r' = snd (fifo_run (unat (rr_size r)) (ring_contents r) ops)
    \<and> rr_size r' = rr_size r"
  using rte.run_refines [OF assms, of is_sp is_sc fill] by (simp add: word_unat_eq_iff)

text \<open>A ring of four slots whose counters are about to wrap, holding two elements.\<close>

definition sample_ring :: "int rte_ring" where
  "sample_ring = \<lparr>rr_size = 4, rr_mask = 3, rr_capacity = 4, rr_is_sp = True, rr_is_sc = True,
     rr_inited = True, rr_prod = \<lparr>ht_head = 1, ht_tail = 1\<rparr>, rr_cons = \<lparr>ht_head = 0xFFFFFFFF, ht_tail = 0xFFFFFFFF\<rparr>,
     rr_storage = Some [20, 0, 0, 10], rr_use_outer_buffer = False\<rparr>"

lemma sample_ring_inv: "rte_ring_inv sample_ring"
  unfolding rte_ring_inv_def by (auto simp: sample_ring_def ring_dims_def intro!: exI [of _ 2])

lemma sample_ring_contents: "ring_contents sample_ring = [10, 20]"
  by (simp add: sample_ring_def ring_contents_def ring_get_def upt_rec)

theorem ring_run_refines_fifo_witness:
  "\<exists>r'. q_run (\<lambda>r xs n. DoEnqueue r xs n False) (\<lambda>r xs n. DoDequeue r xs n True) 0 sample_ring
      [Enq [30, 40, 50], Enq [30, 40], Deq 3] =
    Some ([EnqRes 0 2, EnqRes 2 0, DeqRes [10, 20, 30] 1], r')"
  using ring_run_refines_fifo [OF sample_ring_inv, of "[Enq [30, 40, 50], Enq [30, 40], Deq 3]" False True 0]
  unfolding sample_ring_contents by (auto simp: sample_ring_def)

text \<open>
  C21: the copy into the ring, unrolled by four and split at the wrap-around, is equivalent to the
  plain loop that masks every index; it stays inside both arrays, and position \<open>head + j\<close> then
  holds object \<open>j\<close> while every other slot keeps its value.
\<close>

theorem EnqueueValues_reference:
  assumes "ring_dims (rr_size r) (rr_mask r) k" and "unat (rr_size r) \<le> length ring"
    and "n \<le> rr_size r" and "unat n \<le> length obj"
  shows "EnqueueValues r ring head obj n = masked_copy (enq_asg obj) head (rr_mask r) (unat n) 0 ring
    \<and> (\<exists>ring'. EnqueueValues r ring head obj n = Some ring' \<and> length ring' = length ring
      \<and> (\<forall>j<unat n. ring' ! unat ((head + of_nat j) AND rr_mask r) = obj ! j)
      \<and> (\<forall>s. (\<forall>j<unat n. s \<noteq> unat ((head + of_nat j) AND rr_mask r)) \<longrightarrow> ring' ! s = ring ! s))"
proof -
  let ?sz = "unat (rr_size r)"
  let ?ring' = "ring_put ?sz (unat head) (take (unat n) obj) ring"
  note u = ring_dims_unat [OF assms(1)]
  have slot: "unat ((head + of_nat j) AND rr_mask r) = (unat head + j) mod ?sz" for j
    by (simp add: u(2) unat_mod_size [OF assms(1)])
  have n: "unat n \<le> ?sz" using assms(3) by (simp add: word_le_nat_alt)
  have "EnqueueValues r ring head obj n = Some ?ring'"
    unfolding EnqueueValues_def using assms by (rule copy_values_enq)
  moreover have "?ring' ! ((unat head + j) mod ?sz) = obj ! j" if "j < unat n" for j
    using ring_get_put_same [of "take (unat n) obj" ?sz ring "unat head"] assms(2,4) n u(3) that
    by (auto simp: ring_get_def list_eq_iff_nth_eq min_def)
  moreover have "?ring' ! s = ring ! s" if "\<forall>j<unat n. s \<noteq> (unat head + j) mod ?sz" for s
    using that assms(4) by (intro ring_put_other) (simp add: min_def)
  ultimately show ?thesis
    using assms(1,3) by (simp add: slot EnqueueValues_def copy_values_masked)
qed

theorem EnqueueValues_reference_witness:
  "\<exists>ring'. EnqueueValues sample_ring [20, 0, 0, 10] 3 [1, 2] 2 = Some ring' \<and> ring' ! 3 = 1 \<and> ring' ! 0 = 2"
proof -
  have sz: "rr_size sample_ring = 4" "rr_mask sample_ring = 3" by (simp_all add: sample_ring_def)
  then have "ring_dims (rr_size sample_ring) (rr_mask sample_ring) 2" by (simp add: ring_dims_def)
  from EnqueueValues_reference [OF this, of "[20, 0, 0, 10]" 2 "[1, 2]" 3]
  obtain ring' where "EnqueueValues sample_ring [20, 0, 0, 10] 3 [1, 2] 2 = Some ring'"
    "\<forall>j<2. ring' ! unat ((3 + of_nat j) AND (3::u32)) = [1, 2] ! j"
    by (fastforce simp: sz)
  from this(1) this(2) [rule_format, of 0] this(2) [rule_format, of 1] show ?thesis by auto
qed

section \<open>Requests beyond half the index range\<close>

text \<open>
  For more than \<open>2^31\<close> objects \<open>AlignedNum\<close> is \<open>2^32\<close>, which the 32-bit member \<open>size_\<close>
  truncates to 0: \<open>Init\<close> still reports success, and the ring then refuses every enqueue.
\<close>

theorem RteRing_Init_truncates:
  assumes bc: "bit_ceil_spec bc" and num: "2 ^ 31 < unat num"
    and mem: "init_memory heap placement = Some m"
      "unat (PlacementStorageSize bc st (ucast num)) div unat st \<le> length m"
  shows "\<exists>r. RteRing_Init bc st zero heap RteRing_new num is_sp is_sc placement = Some (True, r)
    \<and> rr_size r = 0 \<and> (\<forall>obj n sp. DoEnqueue r obj n sp = Some (0, 0, r))"
proof -
  have u: "unat (ucast num :: u64) = unat num" by (simp add: unat_ucast_up)
  have "2 ^ j < unat num" if "j < 32" for j
  proof -
    have "(2::nat) ^ j \<le> 2 ^ 31" using that by (intro power_increasing) simp_all
    then show ?thesis using num by linarith
  qed
  then have "32 < LENGTH(64) \<and> unat (ucast num :: u64) \<le> 2 ^ 32 \<and> (\<forall>j<32. 2 ^ j < unat (ucast num :: u64))"
    using unat_less_2p [of num] by (simp add: u)
  then have "bc (ucast num) = 2 ^ 32" using bc unfolding bit_ceil_spec_def by blast
  then have z: "(ucast (bc (ucast num)) :: u32) = 0" by simp
  from RteRing_Init_eq [OF mem, of zero is_sp is_sc] obtain outer where
    "RteRing_Init bc st zero heap RteRing_new num is_sp is_sc placement =
      Some (True, \<lparr>rr_size = 0, rr_mask = - 1, rr_capacity = 0, rr_is_sp = is_sp, rr_is_sc = is_sc,
        rr_inited = True, rr_prod = init_headtail, rr_cons = init_headtail,
        rr_storage = bzero st zero (Some m) (PlacementStorageSize bc st (ucast num)),
        rr_use_outer_buffer = outer\<rparr>)" (is "_ = Some (True, ?r)")
    by (auto simp: z)
  moreover have "DoEnqueue ?r obj n sp = Some (0, 0, ?r)" for obj n sp
    unfolding DoEnqueue_def MoveProdHead_def
    by (subst MoveProdHead_loop.simps) (auto simp: init_headtail_def word_neq_0_conv)
  ultimately show ?thesis by auto
qed

theorem RteRing_Init_truncates_witness:
  "\<exists>r. RteRing_Init bit_ceil_ref 1 (0::int) (Some (replicate 4294967296 0)) RteRing_new 3000000000 True True
      empty_placement = Some (True, r) \<and> rr_size r = 0"
proof -
  have "unat (PlacementStorageSize bit_ceil_ref 1 (ucast (3000000000 :: u32))) div unat (1::u64) \<le>
      length (replicate 4294967296 (0::int))"
    by (simp add: PlacementStorageSize_def AlignmentSize_def AlignedNum_def bit_ceil_ref_def)
  then show ?thesis
    using RteRing_Init_truncates [OF bit_ceil_ref_spec, of 3000000000 "Some (replicate 4294967296 0)"
        empty_placement "replicate 4294967296 0" 1 "0::int" True True]
    by (auto simp: init_memory_def empty_placement_def PlacementStorage_FieldSize_def)
qed

end
