(* ===== verification/RingBuffer.thy ===== *)
theory RingBuffer
  imports RteRing
begin

text \<open>
  \<open>RingBuffer\<close> of \<open>base/ring_buffer.h\<close> and \<open>ring_buffer.cc\<close>: the same ring for pointers, with storage
  of its own. The methods are translated from their own source and proved equivalent to those of
  \<open>RteRing<void*>\<close> through \<open>as_rte\<close>, so the ring laws carry over.
\<close>

record 'p ring_buffer =
  rb_size :: u32
  rb_mask :: u32
  rb_capacity :: u32
  rb_is_sp :: bool
  rb_is_sc :: bool
  rb_inited :: bool
  rb_prod :: ring_headtail
  rb_cons :: ring_headtail
  rb_ring :: "'p list option"

definition RingBuffer_new :: "'p ring_buffer" where
  "RingBuffer_new = \<lparr>rb_size = 0, rb_mask = 0, rb_capacity = 0, rb_is_sp = True, rb_is_sc = True,
     rb_inited = False, rb_prod = init_headtail, rb_cons = init_headtail, rb_ring = None\<rparr>"

text \<open>\<open>sizeof(void*)\<close> is 8; \<open>null\<close> is the pointer whose bytes are all zero.\<close>

definition RingBuffer_Init ::
  "(u32 \<Rightarrow> u32) \<Rightarrow> 'p \<Rightarrow> 'p list option \<Rightarrow> 'p ring_buffer \<Rightarrow> u32 \<Rightarrow> bool \<Rightarrow> bool \<Rightarrow>
     (bool \<times> 'p ring_buffer) option" where
  "RingBuffer_Init bit_ceil null heap r min_size is_sp is_sc =
     (if rb_inited r then Some (True, r)
      else do {
        let r = r\<lparr>rb_is_sp := is_sp, rb_is_sc := is_sc, rb_size := bit_ceil min_size\<rparr>;
        let r = r\<lparr>rb_capacity := rb_size r\<rparr>;
        let r = r\<lparr>rb_mask := rb_size r - 1\<rparr>;
        let alignment = (128 :: u64);
        let buffer_size = (ucast (rb_size r) * 8 + alignment - 1) AND (- alignment);
        m \<leftarrow> bzero 8 null heap buffer_size;
        Some (True, r\<lparr>rb_ring := Some m, rb_inited := True\<rparr>) })"

definition RingBuffer_construct where
  "RingBuffer_construct bit_ceil null heap min_size is_sp is_sc =
     map_option snd (RingBuffer_Init bit_ceil null heap RingBuffer_new min_size is_sp is_sc)"

definition RingBuffer_destroy :: "'p ring_buffer \<Rightarrow> 'p list option \<times> 'p ring_buffer" where
  "RingBuffer_destroy r =
     (if rb_ring r \<noteq> None then (rb_ring r, r\<lparr>rb_ring := None\<rparr>) else (None, r))"

partial_function (option) RB_MoveProdHead_loop ::
  "u32 \<Rightarrow> bool \<Rightarrow> 'p ring_buffer \<Rightarrow> u32 \<Rightarrow> u32 \<Rightarrow> (u32 \<times> u32 \<times> u32 \<times> u32 \<times> 'p ring_buffer) option" where
  "RB_MoveProdHead_loop max_n is_sp r old_head new_head =
     (let cons_tail = ht_tail (rb_cons r);
          free_entries = rb_capacity r + cons_tail - old_head;
          n = (if max_n > free_entries then 0 else max_n)
      in if n = 0 then Some (0, old_head, new_head, free_entries, r)
         else let new_head = old_head + n in
           if is_sp
           then Some (n, old_head, new_head, free_entries,
                      r\<lparr>rb_prod := (rb_prod r)\<lparr>ht_head := new_head\<rparr>\<rparr>)
           else (case compare_exchange_strong (ht_head (rb_prod r)) old_head new_head of
             (success, head, old_head) \<Rightarrow>
               (if success
                then Some (n, old_head, new_head, free_entries,
                           r\<lparr>rb_prod := (rb_prod r)\<lparr>ht_head := head\<rparr>\<rparr>)
                else RB_MoveProdHead_loop max_n is_sp r old_head new_head)))"

definition RB_MoveProdHead ::
  "'p ring_buffer \<Rightarrow> u32 \<Rightarrow> bool \<Rightarrow> (u32 \<times> u32 \<times> u32 \<times> u32 \<times> 'p ring_buffer) option" where
  "RB_MoveProdHead r n is_sp = RB_MoveProdHead_loop n is_sp r (ht_head (rb_prod r)) 0"

partial_function (option) RB_MoveConsHead_loop ::
  "u32 \<Rightarrow> bool \<Rightarrow> 'p ring_buffer \<Rightarrow> u32 \<Rightarrow> u32 \<Rightarrow> (u32 \<times> u32 \<times> u32 \<times> u32 \<times> 'p ring_buffer) option" where
  "RB_MoveConsHead_loop max_n is_sc r old_head new_head =
     (let prod_tail = ht_tail (rb_prod r);
          entries = prod_tail - old_head;
          n = (if max_n > entries then 0 else max_n)
      in if n = 0 then Some (0, old_head, new_head, entries, r)
         else let new_head = old_head + n in
           if is_sc
           then Some (n, old_head, new_head, entries,
                      r\<lparr>rb_cons := (rb_cons r)\<lparr>ht_head := new_head\<rparr>\<rparr>)
           else (case compare_exchange_strong (ht_head (rb_cons r)) old_head new_head of
             (success, head, old_head) \<Rightarrow>
               (if success
                then Some (n, old_head, new_head, entries,
                           r\<lparr>rb_cons := (rb_cons r)\<lparr>ht_head := head\<rparr>\<rparr>)
                else RB_MoveConsHead_loop max_n is_sc r old_head new_head)))"

definition RB_MoveConsHead ::
  "'p ring_buffer \<Rightarrow> u32 \<Rightarrow> bool \<Rightarrow> (u32 \<times> u32 \<times> u32 \<times> u32 \<times> 'p ring_buffer) option" where
  "RB_MoveConsHead r n is_sc = RB_MoveConsHead_loop n is_sc r (ht_head (rb_cons r)) 0"

definition EnqueuePtrs ::
  "'p ring_buffer \<Rightarrow> 'p list \<Rightarrow> u32 \<Rightarrow> 'p list \<Rightarrow> u32 \<Rightarrow> 'p list option" where
  "EnqueuePtrs r ring_start prod_head obj_table n =
     copy_values (enq_asg obj_table) (rb_size r) (rb_mask r) prod_head n ring_start"

definition DequeuePtrs ::
  "'p ring_buffer \<Rightarrow> 'p list \<Rightarrow> u32 \<Rightarrow> 'p list \<Rightarrow> u32 \<Rightarrow> 'p list option" where
  "DequeuePtrs r ring_start cons_head obj_table n =
     copy_values (deq_asg ring_start) (rb_size r) (rb_mask r) cons_head n obj_table"

definition RB_DoEnqueue ::
  "'p ring_buffer \<Rightarrow> 'p list \<Rightarrow> u32 \<Rightarrow> bool \<Rightarrow> (u32 \<times> u32 \<times> 'p ring_buffer) option" where
  "RB_DoEnqueue r obj_table n is_sp = do {
     (n, prod_head, prod_next, free_entries, r) \<leftarrow> RB_MoveProdHead r n is_sp;
     if n = 0 then Some (n, free_entries - n, r)
     else do {
       ring \<leftarrow> rb_ring r;
       ring \<leftarrow> EnqueuePtrs r ring prod_head obj_table n;
       let r = r\<lparr>rb_ring := Some ring\<rparr>;
       prod \<leftarrow> UpdateTail (rb_prod r) prod_head prod_next is_sp;
       Some (n, free_entries - n, r\<lparr>rb_prod := prod\<rparr>) } }"

definition RB_DoDequeue ::
  "'p ring_buffer \<Rightarrow> 'p list \<Rightarrow> u32 \<Rightarrow> bool \<Rightarrow> (u32 \<times> 'p list \<times> u32 \<times> 'p ring_buffer) option" where
  "RB_DoDequeue r obj_table n is_sc = do {
     (n, cons_head, cons_next, entries, r) \<leftarrow> RB_MoveConsHead r n is_sc;
     if n = 0 then Some (n, obj_table, entries - n, r)
     else do {
       ring \<leftarrow> rb_ring r;
       obj_table \<leftarrow> DequeuePtrs r ring cons_head obj_table n;
       cons \<leftarrow> UpdateTail (rb_cons r) cons_head cons_next is_sc;
       Some (n, obj_table, entries - n, r\<lparr>rb_cons := cons\<rparr>) } }"

definition RingBuffer_Size :: "'p ring_buffer \<Rightarrow> u32" where
  "RingBuffer_Size r = rb_size r"

section \<open>The translation to RteRing\<close>

definition as_rte :: "'p ring_buffer \<Rightarrow> 'p rte_ring" where
  "as_rte r = \<lparr>rr_size = rb_size r, rr_mask = rb_mask r, rr_capacity = rb_capacity r,
     rr_is_sp = rb_is_sp r, rr_is_sc = rb_is_sc r, rr_inited = rb_inited r, rr_prod = rb_prod r,
     rr_cons = rb_cons r, rr_storage = rb_ring r, rr_use_outer_buffer = False\<rparr>"

definition of_rte :: "'p rte_ring \<Rightarrow> 'p ring_buffer" where
  "of_rte r = \<lparr>rb_size = rr_size r, rb_mask = rr_mask r, rb_capacity = rr_capacity r,
     rb_is_sp = rr_is_sp r, rb_is_sc = rr_is_sc r, rb_inited = rr_inited r, rb_prod = rr_prod r,
     rb_cons = rr_cons r, rb_ring = rr_storage r\<rparr>"

lemma of_rte_as_rte [simp]: "of_rte (as_rte r) = r"
  by (simp add: of_rte_def as_rte_def)

lemma as_rte_update [simp]:
  "of_rte (q\<lparr>rr_prod := p\<rparr>) = (of_rte q)\<lparr>rb_prod := p\<rparr>"
  "of_rte (q\<lparr>rr_cons := p\<rparr>) = (of_rte q)\<lparr>rb_cons := p\<rparr>"
  "of_rte (q\<lparr>rr_storage := m\<rparr>) = (of_rte q)\<lparr>rb_ring := m\<rparr>"
  by (simp_all add: of_rte_def)

lemma as_rte_sel [simp]:
  "rr_size (as_rte r) = rb_size r" "rr_mask (as_rte r) = rb_mask r" "rr_capacity (as_rte r) = rb_capacity r"
  "rr_prod (as_rte r) = rb_prod r" "rr_cons (as_rte r) = rb_cons r" "rr_storage (as_rte r) = rb_ring r"
  "rr_inited (as_rte r) = rb_inited r"
  by (simp_all add: as_rte_def)

lemma RB_MoveProdHead_eq:
  "RB_MoveProdHead r n is_sp =
     map_option (\<lambda>(n, oh, nh, f, q). (n, oh, nh, f, of_rte q)) (MoveProdHead (as_rte r) n is_sp)"
  unfolding RB_MoveProdHead_def MoveProdHead_def
  by (subst RB_MoveProdHead_loop.simps, subst MoveProdHead_loop.simps) (simp add: Let_def)

lemma RB_MoveConsHead_eq:
  "RB_MoveConsHead r n is_sc =
     map_option (\<lambda>(n, oh, nh, f, q). (n, oh, nh, f, of_rte q)) (MoveConsHead (as_rte r) n is_sc)"
  unfolding RB_MoveConsHead_def MoveConsHead_def
  by (subst RB_MoveConsHead_loop.simps, subst MoveConsHead_loop.simps) (simp add: Let_def)

lemma of_rte_sel [simp]:
  "rb_size (of_rte r) = rr_size r" "rb_mask (of_rte r) = rr_mask r" "rb_ring (of_rte r) = rr_storage r"
  "rb_prod (of_rte r) = rr_prod r" "rb_cons (of_rte r) = rr_cons r"
  "rb_inited (of_rte r) = rr_inited r" "rb_capacity (of_rte r) = rr_capacity r"
  by (simp_all add: of_rte_def)

lemma RB_DoEnqueue_eq:
  "RB_DoEnqueue r obj n is_sp = map_option (\<lambda>(k, f, q). (k, f, of_rte q)) (DoEnqueue (as_rte r) obj n is_sp)"
  unfolding RB_DoEnqueue_def DoEnqueue_def RB_MoveProdHead_eq
  by (cases "MoveProdHead (as_rte r) n is_sp")
    (auto simp: EnqueuePtrs_def EnqueueValues_def Let_def split: bind_splits)

lemma RB_DoDequeue_eq:
  "RB_DoDequeue r obj n is_sc =
     map_option (\<lambda>(k, xs, f, q). (k, xs, f, of_rte q)) (DoDequeue (as_rte r) obj n is_sc)"
  unfolding RB_DoDequeue_def DoDequeue_def RB_MoveConsHead_eq
  by (cases "MoveConsHead (as_rte r) n is_sc")
    (auto simp: DequeuePtrs_def DequeueValues_def Let_def split: bind_splits)

section \<open>RingBuffer implements the bounded FIFO queue\<close>

lemma as_rte_of_rte [simp]:
  "rte_ring_inv (as_rte (of_rte q)) = rte_ring_inv q"
  "ring_contents (as_rte (of_rte q)) = ring_contents q"
  by (simp_all add: rte_ring_inv_def ring_contents_def cong: option.case_cong)

text \<open>The ring keeps the block it was given: the operations neither drop nor resize it.\<close>

lemma DoEnqueue_storage:
  assumes "rte_ring_inv q" and "unat n \<le> length obj" and "DoEnqueue q obj n is_sp = Some (k, f, q')"
  shows "map_option length (rr_storage q') = map_option length (rr_storage q)"
  using assms(3) unfolding DoEnqueue_eq [OF assms(1,2)]
  by (auto simp: ring_put_tail_def Let_def option.map_comp o_def split: if_splits)

lemma DoDequeue_storage:
  assumes "rte_ring_inv q" and "unat n \<le> length obj" and "DoDequeue q obj n is_sc = Some (k, xs, f, q')"
  shows "map_option length (rr_storage q') = map_option length (rr_storage q)"
  using assms(3) unfolding DoDequeue_eq [OF assms(1,2)]
  by (auto simp: ring_advance_def Let_def split: if_splits)

definition rb_inv :: "nat \<Rightarrow> 'p ring_buffer \<Rightarrow> bool" where
  "rb_inv len r \<longleftrightarrow> rte_ring_inv (as_rte r) \<and> map_option length (rb_ring r) = Some len"

interpretation rb: bulk_queue "rb_inv len" "\<lambda>r. ring_contents (as_rte r)"
  "\<lambda>r. unat (rb_size r)" "\<lambda>r xs n. RB_DoEnqueue r xs n is_sp" "\<lambda>r xs n. RB_DoDequeue r xs n is_sc"
  for len is_sp is_sc
proof (unfold_locales, goal_cases)
  case (1 s)
  then show ?case using rte.cap_bound [of "as_rte s"] by (simp add: rb_inv_def)
next
  case (2 s)
  then show ?case using rte.contents_cap [of "as_rte s"] by (simp add: rb_inv_def)
next
  case (3 s n obj)
  then show ?case
    using rte.enq_fits [of "as_rte s" n obj is_sp] DoEnqueue_storage [of "as_rte s" n obj is_sp]
    by (fastforce simp: RB_DoEnqueue_eq rb_inv_def)
next
  case (4 s n obj)
  then show ?case using rte.enq_full [of "as_rte s" n obj is_sp] by (simp add: RB_DoEnqueue_eq rb_inv_def)
next
  case (5 s n obj)
  then show ?case
    using rte.deq_fits [of "as_rte s" n obj is_sc] DoDequeue_storage [of "as_rte s" n obj is_sc]
    by (fastforce simp: RB_DoDequeue_eq rb_inv_def)
next
  case (6 s n obj)
  then show ?case using rte.deq_short [of "as_rte s" n obj is_sc] by (simp add: RB_DoDequeue_eq rb_inv_def)
qed

lemma RingBuffer_destroy_once:
  assumes "rb_inv len r"
  shows "\<exists>m r'. RingBuffer_destroy r = (Some m, r') \<and> rb_ring r = Some m \<and> length m = len
    \<and> RingBuffer_destroy r' = (None, r')"
  using assms by (auto simp: rb_inv_def RingBuffer_destroy_def)

lemma RingBuffer_Init_correct:
  assumes bc: "bit_ceil_spec bc" and num: "unat min_size \<le> 2 ^ 31"
    and heap: "heap = Some m" "unat (align_up (ucast (bc min_size) * 8) (2 ^ 7)) div 8 \<le> length m"
  shows "\<exists>r k. RingBuffer_Init bc null heap RingBuffer_new min_size is_sp is_sc = Some (True, r)
    \<and> rb_inv (length m) r \<and> ring_contents (as_rte r) = [] \<and> unat (rb_size r) = 2 ^ k
    \<and> unat min_size \<le> 2 ^ k"
proof -
  obtain k where k: "k \<le> 31" "bc min_size = 2 ^ k" "unat min_size \<le> 2 ^ k"
    by (rule bit_ceil_specE [OF bc num]) simp
  let ?b = "align_up (ucast (2 ^ k :: u32) * 8) (2 ^ 7)" and ?c = "unat (align_up (ucast (2 ^ k :: u32) * 8) (2 ^ 7)) div 8"
  have p: "(2::nat) ^ k \<le> 2 ^ 31" using k(1) by (intro power_increasing) simp_all
  have "unat (ucast (2 ^ k :: u32) * 8 :: u64) = 2 ^ k * 8"
    using k(1) p by (simp add: unat_word_ariths unat_ucast_up unat_pow2)
  then have "2 ^ k * 8 \<le> unat ?b"
    using p nat_align_up_bounds(1) [of "2 ^ 7" "2 ^ k * 8"] by (subst unat_align_up) simp_all
  then have slots: "2 ^ k \<le> ?c" by (simp add: less_eq_div_iff_mult_less_eq)
  have bz: "bzero 8 null heap ((ucast (2 ^ k :: u32) * 8 + 128 - 1) AND (- 128)) = Some (replicate ?c null @ drop ?c m)"
    using heap k(2) by (simp add: bzero_def Let_def align_up_def)
  let ?r = "\<lparr>rb_size = 2 ^ k, rb_mask = 2 ^ k - 1, rb_capacity = 2 ^ k, rb_is_sp = is_sp,
    rb_is_sc = is_sc, rb_inited = True, rb_prod = init_headtail, rb_cons = init_headtail,
    rb_ring = Some (replicate ?c null @ drop ?c m)\<rparr>"
  have "RingBuffer_Init bc null heap RingBuffer_new min_size is_sp is_sc = Some (True, ?r)"
    using bz by (simp add: RingBuffer_Init_def RingBuffer_new_def k(2) Let_def)
  moreover have "map_option length (rb_ring ?r) = Some (length m)" using heap(2) by (simp add: k(2))
  moreover have "rte_ring_inv (as_rte ?r)"
    using k(1) slots heap(2) unfolding rte_ring_inv_def
    by (intro conjI exI [of _ k]) (auto simp: ring_dims_def as_rte_def init_headtail_def unat_pow2 k(2))
  moreover have "ring_contents (as_rte ?r) = []"
    by (simp add: ring_contents_def as_rte_def init_headtail_def)
  ultimately show ?thesis using k by (auto simp: unat_pow2 rb_inv_def intro!: exI [of _ k])
qed

text \<open>
  C22: a \<open>RingBuffer\<close> constructed for at most \<open>2^31\<close> pointers, then used by any sequence of
  \<open>DoEnqueue\<close> and \<open>DoDequeue\<close> calls in either mode (each for fewer than \<open>2^32\<close> pointers, from one
  thread at a time), returns from all of them and behaves as an initially empty FIFO queue whose
  capacity is a power of two not below the requested size. It keeps the block the constructor
  obtained through all of them; the destructor then frees that block, and it leaves nothing for a
  second destructor call to free.
\<close>

theorem RingBuffer_lifecycle:
  assumes "bit_ceil_spec bc" and "unat min_size \<le> 2 ^ 31"
    and "heap = Some m" and "unat (align_up (ucast (bc min_size) * 8) (2 ^ 7)) div 8 \<le> length m"
    and "list_all op_ok ops"
  shows "\<exists>k r m' r'. unat min_size \<le> 2 ^ k
    \<and> do { r \<leftarrow> RingBuffer_construct bc null heap min_size sp sc;
           q_run (\<lambda>r xs n. RB_DoEnqueue r xs n sp) (\<lambda>r xs n. RB_DoDequeue r xs n sc) null r ops } =
        Some (fst (fifo_run (2 ^ k) [] ops), r)
    \<and> rb_ring r = Some m' \<and> length m' = length m
    \<and> RingBuffer_destroy r = (Some m', r') \<and> RingBuffer_destroy r' = (None, r')"
proof -
  from RingBuffer_Init_correct [OF assms(1-4)] obtain r k where
    r: "RingBuffer_Init bc null heap RingBuffer_new min_size sp sc = Some (True, r)"
    "rb_inv (length m) r" "ring_contents (as_rte r) = []" "unat (rb_size r) = 2 ^ k"
    "unat min_size \<le> 2 ^ k" by blast
  from rb.run_refines [OF r(2) assms(5), of sp sc null] obtain s where
    s: "q_run (\<lambda>r xs n. RB_DoEnqueue r xs n sp) (\<lambda>r xs n. RB_DoDequeue r xs n sc) null r ops =
      Some (fst (fifo_run (2 ^ k) [] ops), s)" "rb_inv (length m) s" by (auto simp: r)
  from RingBuffer_destroy_once [OF s(2)] s r show ?thesis
    by (auto simp: RingBuffer_construct_def)
qed

theorem RingBuffer_lifecycle_witness:
  "\<exists>k r m' r'. 3 \<le> (2::nat) ^ k
    \<and> do { r \<leftarrow> RingBuffer_construct bit_ceil_ref (0::int) (Some (replicate 16 9)) 3 True True;
           q_run (\<lambda>r xs n. RB_DoEnqueue r xs n True) (\<lambda>r xs n. RB_DoDequeue r xs n True) 0 r [Enq [1], Deq 1] } =
        Some (fst (fifo_run (2 ^ k) [] [Enq [1], Deq 1]), r)
    \<and> RingBuffer_destroy r = (Some m', r') \<and> length m' = 16 \<and> RingBuffer_destroy r' = (None, r')"
proof -
  have "unat (align_up (ucast (bit_ceil_ref (3::u32)) * 8) (2 ^ 7)) div 8 \<le> length (replicate 16 (9::int))"
    by (simp add: align_up_def bit_ceil_ref_def)
  then show ?thesis
    using RingBuffer_lifecycle [OF bit_ceil_ref_spec, of 3 "Some (replicate 16 9)" "replicate 16 9"
        "[Enq [1], Deq 1]" "0::int" True True] by auto
qed

end
