(* ===== verification/FlatObjectQueue.thy ===== *)
theory FlatObjectQueue
  imports RteRing "HOL-Library.Multiset"
begin

text \<open>
  \<open>FlatObjectQueue<T>\<close> of \<open>base/flat_object_queue.h\<close>: a pool of objects placed in given memory, with
  a ring of the ids of the free ones. A \<open>T*\<close> into the pool is its distance from \<open>storage_\<close>, counted
  in objects; \<open>ctor\<close> is the value \<open>T()\<close> constructs.

  The pool's buffers are of two types: \<open>IdBuffer\<close> is memory the ring of ids is placed in,
  \<open>ObjectBuffer\<close> memory for the objects; using one as the other is \<open>None\<close>.

  The lemmas rest on the ring through the interface \<open>bulk_queue\<close> only. \<open>pool_inv\<close> says which ids are
  free; \<open>pool_run_conserves\<close> that no object is lost or handed out twice.
\<close>

type_synonym i32 = "32 word"

datatype 'a pool_buffer = IdBuffer "i32 FieldBuffer" | ObjectBuffer "'a FieldBuffer"

record 'a flat_object_queue =
  fo_inited :: bool
  fo_queue_capacity :: u64
  fo_free_ids :: "i32 rte_ring"
  fo_storage :: "'a list option"

definition FlatObjectQueue_new :: "'a flat_object_queue" where
  "FlatObjectQueue_new = \<lparr>fo_inited = False, fo_queue_capacity = 0, fo_free_ids = RteRing_new,
     fo_storage = None\<rparr>"

definition FlatObjectQueue_GetStorageSchema ::
  "(u64 \<Rightarrow> u64) \<Rightarrow> u64 \<Rightarrow> StorageSchema \<Rightarrow> u64 \<Rightarrow> StorageSchema" where
  "FlatObjectQueue_GetStorageSchema bit_ceil sizeof_T schema num =
     (let schema = schema\<lparr>schema_fields := vec_resize default_metadata (schema_fields schema) 2\<rparr>;
          schema = set_field schema 0 num (PlacementStorageSize bit_ceil 4 num)
      in set_field schema 1 num (sizeof_T * num))"

text \<open>\<open>for (size_t i = 0; i < num; ++i) new (&storage_[i]) T();\<close>\<close>

partial_function (option) construct_loop :: "'a \<Rightarrow> u64 \<Rightarrow> u64 \<Rightarrow> 'a list \<Rightarrow> 'a list option" where
  "construct_loop ctor num i objs =
     (if i < num then do {
        objs \<leftarrow> mem_write objs (unat i) ctor;
        construct_loop ctor num (i + 1) objs }
      else Some objs)"

text \<open>
  \<open>for (; idx < (int32_t)num; ++idx) free_ids_.DoEnqueue(&idx, 1, nullptr);\<close> (the result is not used)
\<close>

partial_function (option) fill_loop :: "i32 \<Rightarrow> i32 \<Rightarrow> i32 rte_ring \<Rightarrow> i32 rte_ring option" where
  "fill_loop num idx ring =
     (if sint idx < sint num then do {
        (ret, free_space, ring) \<leftarrow> DoEnqueue ring [idx] 1 True;
        fill_loop num (idx + 1) ring }
      else Some ring)"

definition FlatObjectQueue_Initialize ::
  "(u64 \<Rightarrow> u64) \<Rightarrow> 'a \<Rightarrow> i32 list option \<Rightarrow> 'a flat_object_queue \<Rightarrow> u64 \<Rightarrow> 'a pool_buffer list \<Rightarrow>
     (bool \<times> 'a flat_object_queue) option" where
  "FlatObjectQueue_Initialize bit_ceil ctor heap q num storage =
     (if fo_inited q then Some (True, q)
      else case storage of
        [IdBuffer ids, ObjectBuffer objs] \<Rightarrow> do {
          mem \<leftarrow> fb_ptr objs;
          mem \<leftarrow> construct_loop ctor num 0 mem;
          let id_slot_storage = PlacementStorage_resize empty_placement 1;
          id_slot_storage \<leftarrow> MutableFieldBuffer id_slot_storage 0 ids;
          (ok, ring) \<leftarrow> RteRing_Init bit_ceil 4 0 heap (fo_free_ids q) (ucast num) False False id_slot_storage;
          ring \<leftarrow> fill_loop (ucast num) 0 ring;
          Some (True, \<lparr>fo_inited = True, fo_queue_capacity = num, fo_free_ids = ring,
                       fo_storage = Some mem\<rparr>) }
      | [_, _] \<Rightarrow> None
      | _ \<Rightarrow> Some (False, q))"

text \<open>\<open>Get\<close> returns the object's position, or \<open>None\<close> for \<open>nullptr\<close>.\<close>

definition FlatObjectQueue_Get ::
  "'a flat_object_queue \<Rightarrow> (int option \<times> 'a flat_object_queue) option" where
  "FlatObjectQueue_Get q = do {
     (ret, ids, available, ring) \<leftarrow> DoDequeue (fo_free_ids q) [- 1] 1 True;
     let q = q\<lparr>fo_free_ids := ring\<rparr>;
     if ret = 0 then Some (None, q)
     else do {
       id \<leftarrow> mem_read ids 0;
       Some (Some (sint id), q) } }"

definition FlatObjectQueue_Put ::
  "'a \<Rightarrow> 'a flat_object_queue \<Rightarrow> int \<Rightarrow> (int \<times> 'a flat_object_queue) option" where
  "FlatObjectQueue_Put ctor q obj =
     (let idx = (word_of_int obj :: i32) in
      if sint idx < 0 \<or> sint (ucast (fo_queue_capacity q) :: i32) \<le> sint idx then Some (- 1, q)
      else do {
        objs \<leftarrow> fo_storage q;
        objs \<leftarrow> (if obj < 0 then None else mem_write objs (nat obj) ctor);
        let q = q\<lparr>fo_storage := Some objs\<rparr>;
        (ret, free_space, ring) \<leftarrow> DoEnqueue (fo_free_ids q) [idx] 1 True;
        let q = q\<lparr>fo_free_ids := ring\<rparr>;
        if ret \<noteq> 1 then Some (- 1, q) else Some (0, q) })"

definition FlatObjectQueue_FreeNum :: "'a flat_object_queue \<Rightarrow> u32" where
  "FlatObjectQueue_FreeNum q = RteRing_FreeNum (fo_free_ids q)"

section \<open>Invariant\<close>

definition fo_free :: "'a flat_object_queue \<Rightarrow> int list" where
  "fo_free q = map sint (ring_contents (fo_free_ids q))"

definition pool_inv :: "'a flat_object_queue \<Rightarrow> bool" where
  "pool_inv q \<longleftrightarrow> rte_ring_inv (fo_free_ids q) \<and> unat (fo_queue_capacity q) < 2 ^ 31 \<and>
     unat (fo_queue_capacity q) \<le> unat (rr_size (fo_free_ids q)) \<and>
     (case fo_storage q of None \<Rightarrow> False | Some m \<Rightarrow> unat (fo_queue_capacity q) \<le> length m) \<and>
     (\<forall>i\<in>set (fo_free q). 0 \<le> i \<and> i < int (unat (fo_queue_capacity q)))"

text \<open>\<open>Get\<close> takes the oldest free id; \<open>Put\<close> of a pool object resets it and makes it the newest.\<close>

lemma Get_some:
  assumes "pool_inv q" and "fo_free q = i # ids"
  shows "\<exists>q'. FlatObjectQueue_Get q = Some (Some i, q') \<and> pool_inv q' \<and> fo_free q' = ids \<and>
    fo_queue_capacity q' = fo_queue_capacity q \<and> fo_storage q' = fo_storage q"
proof -
  from assms(2) obtain w ws where w: "ring_contents (fo_free_ids q) = w # ws" "i = sint w" "ids = map sint ws"
    by (auto simp: fo_free_def)
  have "rte_ring_inv (fo_free_ids q)" using assms(1) by (simp add: pool_inv_def)
  from rte.deq_one [OF this w(1), of "- 1" True] obtain f ring where
    r: "DoDequeue (fo_free_ids q) [- 1] 1 True = Some (1, [w], f, ring)" "rte_ring_inv ring"
    "ring_contents ring = ws" "unat (rr_size ring) = unat (rr_size (fo_free_ids q))" by auto
  show ?thesis
    using assms r w
    by (auto simp: FlatObjectQueue_Get_def mem_read_def pool_inv_def fo_free_def cong: option.case_cong)
qed

lemma Get_none:
  assumes "pool_inv q" and "fo_free q = []"
  shows "FlatObjectQueue_Get q = Some (None, q)"
  using rte.deq_one_empty [of "fo_free_ids q" "- 1" True] assms
  by (auto simp: FlatObjectQueue_Get_def fo_free_def pool_inv_def)

text \<open>A pool position as a 32-bit id.\<close>

lemma sint_of_pos:
  assumes "0 \<le> (i::int)" and "i < 2 ^ 31"
  shows "sint (word_of_int i :: i32) = i"
  using assms by (simp add: sint_sbintrunc' signed_take_bit_int_eq_self)

lemma sint_ucast_small:
  assumes "unat (n :: u64) < 2 ^ 31"
  shows "sint (ucast n :: i32) = int (unat n)"
proof -
  have "(ucast n :: i32) = word_of_int (int (unat n))"
    by (rule word_unat_eq_iff [THEN iffD2]) (simp add: unsigned_ucast_eq unsigned_of_int)
  then show ?thesis using sint_of_pos [of "int (unat n)"] assms by (simp del: of_nat_unat)
qed

lemma Put_ok:
  assumes inv: "pool_inv q" and i: "0 \<le> i" "i < int (unat (fo_queue_capacity q))"
    and room: "length (fo_free q) < unat (rr_size (fo_free_ids q))"
  shows "\<exists>q'. FlatObjectQueue_Put ctor q i = Some (0, q') \<and> pool_inv q' \<and> fo_free q' = fo_free q @ [i] \<and>
    fo_queue_capacity q' = fo_queue_capacity q \<and> rr_size (fo_free_ids q') = rr_size (fo_free_ids q) \<and>
    (\<exists>m. fo_storage q = Some m \<and> fo_storage q' = Some (m[nat i := ctor]))"
proof -
  from inv obtain m where m: "fo_storage q = Some m" "unat (fo_queue_capacity q) \<le> length m"
    by (auto simp: pool_inv_def split: option.splits)
  have cap: "unat (fo_queue_capacity q) < 2 ^ 31" using inv by (simp add: pool_inv_def)
  have si: "sint (word_of_int i :: i32) = i" using i cap by (intro sint_of_pos) (simp_all del: of_nat_unat)
  have sc: "sint (ucast (fo_queue_capacity q) :: i32) = int (unat (fo_queue_capacity q))"
    using cap by (rule sint_ucast_small)
  have ri: "rte_ring_inv (fo_free_ids q)" using inv by (simp add: pool_inv_def)
  have "length (ring_contents (fo_free_ids q)) < unat (rr_size (fo_free_ids q))"
    using room by (simp add: fo_free_def)
  from rte.enq_one [OF ri this, of "word_of_int i" True] obtain f ring where
    r: "DoEnqueue (fo_free_ids q) [word_of_int i] 1 True = Some (1, f, ring)" "rte_ring_inv ring"
    "ring_contents ring = ring_contents (fo_free_ids q) @ [word_of_int i]"
    "rr_size ring = rr_size (fo_free_ids q)" by (auto simp: word_unat_eq_iff)
  have "FlatObjectQueue_Put ctor q i =
      Some (0, q\<lparr>fo_storage := Some (m[nat i := ctor]), fo_free_ids := ring\<rparr>)"
    using i m
    by (simp add: FlatObjectQueue_Put_def si sc r(1) mem_write_def nat_less_iff Let_def del: of_nat_unat)
  then show ?thesis
    using inv r m i by (auto simp: pool_inv_def fo_free_def si)
qed

lemma Put_rejects:
  assumes "pool_inv q" and "- (2 ^ 31) \<le> i" "i < 2 ^ 31"
    and "i < 0 \<or> int (unat (fo_queue_capacity q)) \<le> i"
  shows "FlatObjectQueue_Put ctor q i = Some (- 1, q)"
proof -
  have cap: "unat (fo_queue_capacity q) < 2 ^ 31" using assms(1) by (simp add: pool_inv_def)
  have "sint (word_of_int i :: i32) = i"
    using assms(2,3) by (simp add: sint_sbintrunc' signed_take_bit_int_eq_self)
  then show ?thesis
    using assms(4) sint_ucast_small [OF cap] by (auto simp: FlatObjectQueue_Put_def Let_def)
qed

section \<open>Initialisation\<close>

lemma construct_loop_eq:
  assumes "unat num = unat i + k" and "unat num \<le> length objs"
  shows "construct_loop ctor num i objs =
    Some (take (unat i) objs @ replicate k ctor @ drop (unat num) objs)"
  using assms
proof (induction k arbitrary: i objs)
  case 0
  then show ?case by (subst construct_loop.simps) (simp add: word_less_nat_alt)
next
  case (Suc k)
  have i1: "unat (i + 1) = Suc (unat i)"
    using Suc.prems(1) unat_less_2p [of num] by (subst unat_add_small) simp_all
  have "construct_loop ctor num (i + 1) (objs[unat i := ctor]) =
      Some (take (unat (i + 1)) (objs[unat i := ctor]) @ replicate k ctor @ drop (unat num) (objs[unat i := ctor]))"
    using Suc.prems by (intro Suc.IH) (simp_all add: i1)
  moreover have "i < num" "unat i < length objs" using Suc.prems by (simp_all add: word_less_nat_alt)
  ultimately show ?case
    using Suc.prems(1)
    by (subst construct_loop.simps)
      (simp add: mem_write_def i1 take_Suc_conv_app_nth replicate_append_same [symmetric])
qed

lemma fill_loop_eq:
  assumes "rte_ring_inv ring" and "sint num = sint idx + int k" and "0 \<le> sint idx"
    and "length (ring_contents ring) + k \<le> unat (rr_size ring)"
  shows "\<exists>ring'. fill_loop num idx ring = Some ring' \<and> rte_ring_inv ring' \<and> rr_size ring' = rr_size ring \<and>
    map sint (ring_contents ring') = map sint (ring_contents ring) @ map (\<lambda>j. sint idx + int j) [0..<k]"
  using assms
proof (induction k arbitrary: idx ring)
  case 0
  then show ?case by (subst fill_loop.simps) simp
next
  case (Suc k)
  have lt: "sint idx < sint num" using Suc.prems by simp
  have s1: "sint (idx + 1) = sint idx + 1"
  proof -
    have "sint num < 2 ^ 31" using sint_lt [of num] by simp
    then have "sint (word_of_int (sint idx + 1) :: i32) = sint idx + 1"
      using lt Suc.prems(3) by (intro sint_of_pos) simp_all
    then show ?thesis by simp
  qed
  from Suc.prems(4) have "length (ring_contents ring) < unat (rr_size ring)" by simp
  from rte.enq_one [OF Suc.prems(1) this, of idx True] obtain f r1 where
    r1: "DoEnqueue ring [idx] 1 True = Some (1, f, r1)" "rte_ring_inv r1"
    "ring_contents r1 = ring_contents ring @ [idx]" "rr_size r1 = rr_size ring"
    by (auto simp: word_unat_eq_iff)
  have "\<exists>r2. fill_loop num (idx + 1) r1 = Some r2 \<and> rte_ring_inv r2 \<and> rr_size r2 = rr_size r1 \<and>
      map sint (ring_contents r2) = map sint (ring_contents r1) @ map (\<lambda>j. sint (idx + 1) + int j) [0..<k]"
    using Suc.prems r1 by (intro Suc.IH) (simp_all add: s1)
  moreover have "map (\<lambda>j. sint idx + int j) [0..<Suc k] = sint idx # map (\<lambda>j. sint idx + 1 + int j) [0..<k]"
    by (rule nth_equalityI) (auto simp: nth_Cons simp del: upt_Suc split: nat.split)
  ultimately show ?case
    using lt r1 by (subst fill_loop.simps) (auto simp: s1 simp del: upt_Suc)
qed

lemma Initialize_ok:
  assumes bc: "bit_ceil_spec bc" and num: "unat num < 2 ^ 31"
    and ids: "fb_ptr ids = Some im" "unat (PlacementStorageSize bc 4 num) \<le> length im * 4"
    and objs: "fb_ptr objs = Some om" "unat num \<le> length om"
  shows "\<exists>q. FlatObjectQueue_Initialize bc ctor heap FlatObjectQueue_new num [IdBuffer ids, ObjectBuffer objs] =
      Some (True, q) \<and> pool_inv q \<and> fo_queue_capacity q = num \<and> fo_free q = map int [0..<unat num] \<and>
      fo_storage q = Some (replicate (unat num) ctor @ drop (unat num) om)"
proof -
  have un: "unat (ucast num :: u32) = unat num"
    using num by (simp add: unsigned_ucast_eq take_bit_nat_eq_self)
  then have uu: "(ucast (ucast num :: u32) :: u64) = num"
    by (simp add: word_unat_eq_iff unat_ucast_up)
  let ?p = "\<lparr>field_buffers = [ids]\<rparr>"
  have mp: "MutableFieldBuffer (PlacementStorage_resize empty_placement 1) 0 ids = Some ?p"
    by (simp add: MutableFieldBuffer_def PlacementStorage_resize_def empty_placement_def vec_resize_def mem_write_def)
  have im: "init_memory heap ?p = Some im"
    using ids(1) by (simp add: init_memory_def PlacementStorage_FieldSize_def)
  have "\<exists>r. RteRing_Init bc 4 0 heap RteRing_new (ucast num) False False ?p = Some (True, r)
    \<and> rte_ring_inv r \<and> ring_contents r = [] \<and> unat (ucast num :: u32) \<le> unat (rr_size r)
    \<and> (\<forall>j. unat (ucast num :: u32) \<le> 2 ^ j \<longrightarrow> unat (rr_size r) \<le> 2 ^ j)"
    using num ids(2) im by (intro RteRing_Init_ok [OF bc]) (simp_all add: un uu)
  then obtain r where r: "RteRing_Init bc 4 0 heap RteRing_new (ucast num) False False ?p = Some (True, r)"
    "rte_ring_inv r" "ring_contents r = []" "unat num \<le> unat (rr_size r)" by (auto simp: un)
  have "sint (ucast num :: i32) = sint (0::i32) + int (unat num)"
    using sint_ucast_small [OF num] by simp
  from fill_loop_eq [OF r(2) this] r(3,4) obtain r' where r': "fill_loop (ucast num) 0 r = Some r'"
    "rte_ring_inv r'" "rr_size r' = rr_size r" "map sint (ring_contents r') = map int [0..<unat num]" by auto
  have "construct_loop ctor num 0 om = Some (replicate (unat num) ctor @ drop (unat num) om)"
    using construct_loop_eq [of num 0 "unat num" om ctor] objs(2) by simp
  then have "FlatObjectQueue_Initialize bc ctor heap FlatObjectQueue_new num [IdBuffer ids, ObjectBuffer objs] =
      Some (True, \<lparr>fo_inited = True, fo_queue_capacity = num, fo_free_ids = r',
        fo_storage = Some (replicate (unat num) ctor @ drop (unat num) om)\<rparr>)" (is "_ = Some (True, ?q)")
    by (simp add: FlatObjectQueue_Initialize_def FlatObjectQueue_new_def objs(1) mp [simplified] r(1) r'(1))
  moreover have "fo_free ?q = map int [0..<unat num]" using r' by (simp add: fo_free_def)
  ultimately show ?thesis
    using r' r(4) num objs(2) by (auto simp: pool_inv_def simp del: of_nat_unat)
qed

section \<open>Clients of the pool\<close>

text \<open>
  A client gets objects and gives back objects it holds: \<open>PoolPut k\<close> gives back the \<open>k\<close>-th object
  it holds, if there is one. The state is the pool and the positions of the objects held.
\<close>

datatype pool_op = PoolGet | PoolPut nat

fun pool_step :: "'a \<Rightarrow> 'a flat_object_queue \<times> int list \<Rightarrow> pool_op \<Rightarrow> ('a flat_object_queue \<times> int list) option" where
  "pool_step ctor (q, held) PoolGet = do {
     (res, q) \<leftarrow> FlatObjectQueue_Get q;
     Some (case res of None \<Rightarrow> (q, held) | Some i \<Rightarrow> (q, held @ [i])) }"
| "pool_step ctor (q, held) (PoolPut k) =
     (if k < length held then do {
        (res, q) \<leftarrow> FlatObjectQueue_Put ctor q (held ! k);
        Some (q, take k held @ drop (Suc k) held) }
      else Some (q, held))"

fun pool_run :: "'a \<Rightarrow> 'a flat_object_queue \<times> int list \<Rightarrow> pool_op list \<Rightarrow> ('a flat_object_queue \<times> int list) option" where
  "pool_run ctor s [] = Some s"
| "pool_run ctor s (op # ops) = do { s \<leftarrow> pool_step ctor s op; pool_run ctor s ops }"

definition pool_conserved :: "nat \<Rightarrow> 'a flat_object_queue \<times> int list \<Rightarrow> bool" where
  "pool_conserved num s \<longleftrightarrow> (case s of (q, held) \<Rightarrow>
     pool_inv q \<and> unat (fo_queue_capacity q) = num \<and> mset (fo_free q) + mset held = mset (map int [0..<num]))"

lemma mset_remove_nth: "k < length xs \<Longrightarrow> mset (take k xs @ drop (Suc k) xs) + {#xs ! k#} = mset xs"
  by (metis append_take_drop_id Cons_nth_drop_Suc mset.simps(2) mset_append union_mset_add_mset_right add_mset_add_single)

lemma pool_step_conserves:
  assumes "pool_conserved num s"
  shows "\<exists>s'. pool_step ctor s op = Some s' \<and> pool_conserved num s'"
proof -
  obtain q held where s: "s = (q, held)" by fastforce
  from assms s have inv: "pool_inv q" and cap: "unat (fo_queue_capacity q) = num"
    and ms: "mset (fo_free q) + mset held = mset (map int [0..<num])" by (simp_all add: pool_conserved_def)
  show ?thesis
  proof (cases op)
    case PoolGet
    show ?thesis
    proof (cases "fo_free q")
      case Nil
      then show ?thesis using assms s PoolGet by (simp add: Get_none [OF inv])
    next
      case (Cons i ids)
      from Get_some [OF inv Cons] ms cap PoolGet s Cons show ?thesis by (auto simp: pool_conserved_def)
    qed
  next
    case (PoolPut k)
    show ?thesis
    proof (cases "k < length held")
      case True
      have "held ! k \<in># mset (map int [0..<num])" using True ms by (metis nth_mem set_mset_mset union_iff)
      then have i: "0 \<le> held ! k" "held ! k < int (unat (fo_queue_capacity q))" using cap by (auto simp del: of_nat_unat)
      have "length (fo_free q) + length held = num"
        using arg_cong [OF ms, of size] by simp
      then have room: "length (fo_free q) < unat (rr_size (fo_free_ids q))"
        using True inv cap by (auto simp: pool_inv_def)
      from Put_ok [OF inv i room, of ctor] obtain q' where "FlatObjectQueue_Put ctor q (held ! k) = Some (0, q')"
        "pool_inv q'" "fo_free q' = fo_free q @ [held ! k]" "fo_queue_capacity q' = fo_queue_capacity q" by blast
      moreover have "mset (fo_free q @ [held ! k]) + mset (take k held @ drop (Suc k) held) =
          mset (fo_free q) + mset held"
        unfolding mset_remove_nth [OF True, symmetric] by simp
      ultimately show ?thesis
        using s PoolPut True cap ms by (simp add: pool_conserved_def)
    next
      case False
      then show ?thesis using assms s PoolPut by simp
    qed
  qed
qed

lemma pool_run_conserves:
  "pool_conserved num s \<Longrightarrow> \<exists>s'. pool_run ctor s ops = Some s' \<and> pool_conserved num s'"
proof (induction ops arbitrary: s)
  case (Cons op ops)
  then show ?case using pool_step_conserves [of num s ctor op] by fastforce
qed simp

text \<open>
  C5: from a freshly initialised pool of \<open>num\<close> objects, whatever a client that only gives back what
  it holds does, every call returns; at every moment the free objects and the held ones together
  are exactly the pool's \<open>num\<close> objects, each once: none is lost, none is handed out twice, and
  \<open>Get\<close> fails only when all are held.
\<close>

theorem pool_conservation:
  assumes bc: "bit_ceil_spec bc" and num: "unat num < 2 ^ 31"
    and ids: "fb_ptr ids = Some im" "unat (PlacementStorageSize bc 4 num) \<le> length im * 4"
    and objs: "fb_ptr objs = Some om" "unat num \<le> length om"
  shows "\<exists>q q' held. FlatObjectQueue_Initialize bc ctor heap FlatObjectQueue_new num
      [IdBuffer ids, ObjectBuffer objs] = Some (True, q)
    \<and> pool_run ctor (q, []) ops = Some (q', held)
    \<and> mset (fo_free q') + mset held = mset (map int [0..<unat num])
    \<and> distinct held \<and> set held \<subseteq> {0..<int (unat num)}
    \<and> (FlatObjectQueue_Get q' = Some (None, q') \<longleftrightarrow> length held = unat num)"
proof -
  from Initialize_ok [OF assms] obtain q where q:
    "FlatObjectQueue_Initialize bc ctor heap FlatObjectQueue_new num [IdBuffer ids, ObjectBuffer objs] = Some (True, q)"
    "pool_inv q" "fo_queue_capacity q = num" "fo_free q = map int [0..<unat num]" by blast
  then have "pool_conserved (unat num) (q, [])" by (simp add: pool_conserved_def)
  from pool_run_conserves [OF this] obtain q' held where r: "pool_run ctor (q, []) ops = Some (q', held)"
    "pool_inv q'" and ms: "mset (fo_free q') + mset held = mset (map int [0..<unat num])"
    by (fastforce simp: pool_conserved_def)
  have "mset (fo_free q' @ held) = mset (map int [0..<unat num])" using ms by simp
  then have "distinct (fo_free q' @ held)" and "set (fo_free q' @ held) = set (map int [0..<unat num])"
    and len: "length (fo_free q' @ held) = length (map int [0..<unat num])"
    by (metis distinct_map distinct_upt inj_on_of_nat mset_eq_imp_distinct_iff, metis mset_eq_setD,
        metis mset_eq_length)
  then have "distinct held" and "set held \<subseteq> {0..<int (unat num)}" by (auto simp del: of_nat_unat)
  moreover have "FlatObjectQueue_Get q' = Some (None, q') \<longleftrightarrow> fo_free q' = []"
    using Get_none [OF r(2)] Get_some [OF r(2)] by (cases "fo_free q'") force+
  moreover have "fo_free q' = [] \<longleftrightarrow> length held = unat num" using len by auto
  ultimately show ?thesis using q(1) r(1) ms by blast
qed

theorem pool_conservation_witness:
  "\<exists>q q' held. FlatObjectQueue_Initialize bit_ceil_ref (7::int) None FlatObjectQueue_new 3
      [IdBuffer \<lparr>fb_meta = default_metadata, fb_ptr = Some (replicate 32 0), fb_space_size = 128\<rparr>,
       ObjectBuffer \<lparr>fb_meta = default_metadata, fb_ptr = Some [0, 0, 0], fb_space_size = 24\<rparr>] = Some (True, q)
    \<and> pool_run 7 (q, []) [PoolGet, PoolGet, PoolPut 0] = Some (q', held) \<and> distinct held"
proof -
  let ?i = "\<lparr>fb_meta = default_metadata, fb_ptr = Some (replicate 32 (0::i32)), fb_space_size = 128\<rparr>"
  let ?o = "\<lparr>fb_meta = default_metadata, fb_ptr = Some [0, 0, 0::int], fb_space_size = 24\<rparr>"
  have "unat (PlacementStorageSize bit_ceil_ref 4 3) \<le> length (replicate 32 (0::i32)) * 4"
    by (simp add: PlacementStorageSize_def AlignmentSize_def AlignedNum_def bit_ceil_ref_def)
  then show ?thesis
    using pool_conservation [OF bit_ceil_ref_spec, of 3 ?i "replicate 32 0" ?o "[0, 0, 0]" 7 None
        "[PoolGet, PoolGet, PoolPut 0]"] by fastforce
qed

end
