(* ===== verification/RingConcurrent.thy ===== *)
theory RingConcurrent
  imports RteRing
begin

text \<open>
  The interleavings of \<open>RteRing::DoEnqueue\<close> and \<open>DoDequeue\<close> (and of \<open>RingBuffer\<close>, whose code is the
  same): any number of threads, each step one access of an atomic counter or of one slot, in a
  sequentially consistent order. The copy loops are taken in the masked form that
  \<open>copy_values_masked\<close> proves equal to the code's.

  A thread in a call is described by where it is:
  \<^item> \<open>PLoaded\<close>: \<open>*old_head\<close> is loaded (or reloaded by a failed exchange); next is the load of
    \<open>cons_.tail\<close>;
  \<^item> \<open>PRead\<close>: next is the test of \<open>free_entries\<close> and the exchange or store of \<open>prod_.head\<close>;
  \<^item> \<open>PCopy\<close>: \<open>k\<close> elements are copied; next is another one, or \<open>UpdateTail\<close>;
  and the same for consumers.

  Ghost state: \<open>g_inp\<close> lists the elements in the order their positions were claimed, \<open>g_out\<close> those
  given back by consumers in the order the positions were released, \<open>g_pt\<close> and \<open>g_ch\<close> are the
  unbounded counterparts of \<open>prod_.tail\<close> and \<open>cons_.head\<close>; each thread remembers the unbounded
  positions it read. No guard of a step reads ghost state.

  \<open>no_lap\<close> is the one assumption on the environment: between a thread's load of a head and its
  exchange fewer than \<open>2^32\<close> elements pass, so that an equal counter is the same position.
\<close>

datatype 'a pc =
    Idle
  | PLoaded "'a list" u32 nat
  | PRead "'a list" u32 nat u32 nat
  | PCopy "'a list" u32 nat nat
  | CLoaded u32 u32 nat
  | CRead u32 u32 nat u32 nat
  | CCopy u32 u32 nat "'a list"

record rcfg =
  cf_size :: u32
  cf_sp :: bool
  cf_sc :: bool
  cf_prods :: "nat \<Rightarrow> bool"
  cf_conss :: "nat \<Rightarrow> bool"

record 'a cstate =
  c_prod :: ring_headtail
  c_cons :: ring_headtail
  c_mem :: "'a list"
  c_pcs :: "nat \<Rightarrow> 'a pc"
  g_inp :: "'a list"
  g_out :: "'a list"
  g_pt :: nat
  g_ch :: nat

definition set_pc :: "nat \<Rightarrow> 'a pc \<Rightarrow> 'a cstate \<Rightarrow> 'a cstate" where
  "set_pc t p s = s\<lparr>c_pcs := (c_pcs s)(t := p)\<rparr>"

text \<open>\<open>MoveProdHead\<close> after both loads: fail, claim \<open>[h, h + n)\<close>, or reload the head.\<close>

definition prod_try :: "rcfg \<Rightarrow> nat \<Rightarrow> 'a list \<Rightarrow> u32 \<Rightarrow> u32 \<Rightarrow> 'a cstate \<Rightarrow> 'a cstate" where
  "prod_try cfg t objs h cons_tail s =
     (let n = of_nat (length objs); free_entries = cf_size cfg + cons_tail - h in
      if n > free_entries \<or> n = 0 then set_pc t Idle s
      else if cf_sp cfg \<or> ht_head (c_prod s) = h
      then set_pc t (PCopy objs h (length (g_inp s)) 0)
             (s\<lparr>c_prod := (c_prod s)\<lparr>ht_head := h + n\<rparr>, g_inp := g_inp s @ objs\<rparr>)
      else set_pc t (PLoaded objs (ht_head (c_prod s)) (length (g_inp s))) s)"

text \<open>One assignment of \<open>EnqueueValues\<close>, or \<open>UpdateTail\<close> (\<open>None\<close>: it is still spinning).\<close>

definition prod_copy :: "rcfg \<Rightarrow> nat \<Rightarrow> 'a list \<Rightarrow> u32 \<Rightarrow> nat \<Rightarrow> nat \<Rightarrow> 'a cstate \<Rightarrow> 'a cstate option" where
  "prod_copy cfg t objs h H k s =
     (if k < length objs then do {
        m \<leftarrow> mem_write (c_mem s) (unat ((h + of_nat k) AND (cf_size cfg - 1))) (objs ! k);
        Some (set_pc t (PCopy objs h H (Suc k)) (s\<lparr>c_mem := m\<rparr>)) }
      else if cf_sp cfg \<or> ht_tail (c_prod s) = h
      then Some (set_pc t Idle (s\<lparr>c_prod := (c_prod s)\<lparr>ht_tail := h + of_nat (length objs)\<rparr>,
             g_pt := H + length objs\<rparr>))
      else None)"

definition cons_try :: "rcfg \<Rightarrow> nat \<Rightarrow> u32 \<Rightarrow> u32 \<Rightarrow> u32 \<Rightarrow> 'a cstate \<Rightarrow> 'a cstate" where
  "cons_try cfg t n h prod_tail s =
     (let entries = prod_tail - h in
      if n > entries \<or> n = 0 then set_pc t Idle s
      else if cf_sc cfg \<or> ht_head (c_cons s) = h
      then set_pc t (CCopy n h (g_ch s) [])
             (s\<lparr>c_cons := (c_cons s)\<lparr>ht_head := h + n\<rparr>, g_ch := g_ch s + unat n\<rparr>)
      else set_pc t (CLoaded n (ht_head (c_cons s)) (g_ch s)) s)"

definition cons_copy :: "rcfg \<Rightarrow> nat \<Rightarrow> u32 \<Rightarrow> u32 \<Rightarrow> nat \<Rightarrow> 'a list \<Rightarrow> 'a cstate \<Rightarrow> 'a cstate option" where
  "cons_copy cfg t n h H got s =
     (if length got < unat n then do {
        v \<leftarrow> mem_read (c_mem s) (unat ((h + of_nat (length got)) AND (cf_size cfg - 1)));
        Some (set_pc t (CCopy n h H (got @ [v])) s) }
      else if cf_sc cfg \<or> ht_tail (c_cons s) = h
      then Some (set_pc t Idle (s\<lparr>c_cons := (c_cons s)\<lparr>ht_tail := h + n\<rparr>, g_out := g_out s @ got\<rparr>))
      else None)"

text \<open>A thread starts a call or takes its next step.\<close>

datatype 'a ev = StartEnq nat "'a list" | StartDeq nat u32 | Next nat

fun cstep :: "rcfg \<Rightarrow> 'a cstate \<Rightarrow> 'a ev \<Rightarrow> 'a cstate option" where
  "cstep cfg s (StartEnq t objs) =
     (if cf_prods cfg t \<and> length objs < 2 ^ 32 then
        (case c_pcs s t of
           Idle \<Rightarrow> Some (set_pc t (PLoaded objs (ht_head (c_prod s)) (length (g_inp s))) s)
         | _ \<Rightarrow> None)
      else None)"
| "cstep cfg s (StartDeq t n) =
     (if cf_conss cfg t then
        (case c_pcs s t of
           Idle \<Rightarrow> Some (set_pc t (CLoaded n (ht_head (c_cons s)) (g_ch s)) s)
         | _ \<Rightarrow> None)
      else None)"
| "cstep cfg s (Next t) =
     (case c_pcs s t of
        Idle \<Rightarrow> None
      | PLoaded objs h H \<Rightarrow> Some (set_pc t (PRead objs h H (ht_tail (c_cons s)) (length (g_out s))) s)
      | PRead objs h H c C \<Rightarrow> Some (prod_try cfg t objs h c s)
      | PCopy objs h H k \<Rightarrow> prod_copy cfg t objs h H k s
      | CLoaded n h H \<Rightarrow> Some (set_pc t (CRead n h H (ht_tail (c_prod s)) (g_pt s)) s)
      | CRead n h H p P \<Rightarrow> Some (cons_try cfg t n h p s)
      | CCopy n h H got \<Rightarrow> cons_copy cfg t n h H got s)"

text \<open>All threads idle on an empty ring, all counters 0 as after \<open>Init\<close>.\<close>

definition cinit :: "'a list \<Rightarrow> 'a cstate" where
  "cinit m = \<lparr>c_prod = init_headtail, c_cons = init_headtail, c_mem = m, c_pcs = (\<lambda>_. Idle),
     g_inp = [], g_out = [], g_pt = 0, g_ch = 0\<rparr>"

text \<open>No pending thread has been overtaken by \<open>2^32\<close> elements since it loaded its head.\<close>

definition pc_no_lap :: "nat \<Rightarrow> nat \<Rightarrow> 'a pc \<Rightarrow> bool" where
  "pc_no_lap ph ch p = (case p of
     PLoaded objs h H \<Rightarrow> ph < H + 2 ^ 32
   | PRead objs h H c C \<Rightarrow> ph < H + 2 ^ 32
   | CLoaded n h H \<Rightarrow> ch < H + 2 ^ 32
   | CRead n h H q P \<Rightarrow> ch < H + 2 ^ 32
   | _ \<Rightarrow> True)"

definition no_lap :: "'a cstate \<Rightarrow> bool" where
  "no_lap s \<longleftrightarrow> (\<forall>t. pc_no_lap (length (g_inp s)) (g_ch s) (c_pcs s t))"

inductive reach :: "rcfg \<Rightarrow> 'a list \<Rightarrow> 'a cstate \<Rightarrow> bool" for cfg m where
  reach_init: "reach cfg m (cinit m)"
| reach_step: "reach cfg m s \<Longrightarrow> no_lap s \<Longrightarrow> cstep cfg s e = Some s' \<Longrightarrow> reach cfg m s'"

text \<open>
  The configurations in which the single-producer and single-consumer modes are used as their
  names say, over enough memory.
\<close>

definition cfg_ok :: "rcfg \<Rightarrow> 'a list \<Rightarrow> bool" where
  "cfg_ok cfg m \<longleftrightarrow> (\<exists>k. ring_dims (cf_size cfg) (cf_size cfg - 1) k) \<and> unat (cf_size cfg) \<le> length m \<and>
     (cf_sp cfg \<longrightarrow> (\<exists>p. \<forall>t. cf_prods cfg t \<longrightarrow> t = p)) \<and>
     (cf_sc cfg \<longrightarrow> (\<exists>c. \<forall>t. cf_conss cfg t \<longrightarrow> t = c))"

lemma cfg_single:
  "cfg_ok cfg m \<Longrightarrow> cf_prods cfg t \<Longrightarrow> cf_prods cfg u \<Longrightarrow> cf_sp cfg \<Longrightarrow> t = u"
  "cfg_ok cfg m \<Longrightarrow> cf_conss cfg t \<Longrightarrow> cf_conss cfg u \<Longrightarrow> cf_sc cfg \<Longrightarrow> t = u"
  by (auto simp: cfg_ok_def)

section \<open>The invariant\<close>

definition pown :: "'a pc \<Rightarrow> nat set" where
  "pown p = (case p of PCopy objs h H k \<Rightarrow> {H..<H + length objs} | _ \<Rightarrow> {})"

definition cown :: "'a pc \<Rightarrow> nat set" where
  "cown p = (case p of CCopy n h H got \<Rightarrow> {H..<H + unat n} | _ \<Rightarrow> {})"

text \<open>A set of positions split among the threads.\<close>

definition tiles :: "(nat \<Rightarrow> nat set) \<Rightarrow> nat set \<Rightarrow> bool" where
  "tiles f A \<longleftrightarrow> (\<Union>t. f t) = A \<and> (\<forall>t u. t \<noteq> u \<longrightarrow> f t \<inter> f u = {})"

definition pc_role :: "rcfg \<Rightarrow> nat \<Rightarrow> 'a pc \<Rightarrow> bool" where
  "pc_role cfg t p = (case p of
     Idle \<Rightarrow> True
   | PLoaded _ _ _ \<Rightarrow> cf_prods cfg t | PRead _ _ _ _ _ \<Rightarrow> cf_prods cfg t | PCopy _ _ _ _ \<Rightarrow> cf_prods cfg t
   | CLoaded _ _ _ \<Rightarrow> cf_conss cfg t | CRead _ _ _ _ _ \<Rightarrow> cf_conss cfg t | CCopy _ _ _ _ \<Rightarrow> cf_conss cfg t)"

definition pc_ok :: "rcfg \<Rightarrow> 'a cstate \<Rightarrow> 'a pc \<Rightarrow> bool" where
  "pc_ok cfg s p = (let PH = length (g_inp s); CT = length (g_out s); PT = g_pt s; CH = g_ch s;
       sz = unat (cf_size cfg) in
     case p of
       Idle \<Rightarrow> True
     | PLoaded objs h H \<Rightarrow> h = of_nat H \<and> H \<le> PH \<and> length objs < 2 ^ 32 \<and> (cf_sp cfg \<longrightarrow> H = PH)
     | PRead objs h H c C \<Rightarrow> h = of_nat H \<and> H \<le> PH \<and> length objs < 2 ^ 32 \<and> (cf_sp cfg \<longrightarrow> H = PH)
         \<and> c = of_nat C \<and> C \<le> CT \<and> (H = PH \<longrightarrow> H \<le> C + sz)
     | PCopy objs h H k \<Rightarrow> h = of_nat H \<and> objs \<noteq> [] \<and> k \<le> length objs \<and> H + length objs \<le> PH
         \<and> (\<forall>j<length objs. g_inp s ! (H + j) = objs ! j) \<and> (\<forall>j<k. c_mem s ! ((H + j) mod sz) = objs ! j)
     | CLoaded n h H \<Rightarrow> h = of_nat H \<and> H \<le> CH \<and> (cf_sc cfg \<longrightarrow> H = CH)
     | CRead n h H q P \<Rightarrow> h = of_nat H \<and> H \<le> CH \<and> (cf_sc cfg \<longrightarrow> H = CH)
         \<and> q = of_nat P \<and> P \<le> PT \<and> (H = CH \<longrightarrow> H \<le> P)
     | CCopy n h H got \<Rightarrow> h = of_nat H \<and> 0 < unat n \<and> length got \<le> unat n \<and> H + unat n \<le> CH
         \<and> (\<forall>j<length got. got ! j = g_inp s ! (H + j)))"

definition counters_ok :: "rcfg \<Rightarrow> 'a cstate \<Rightarrow> bool" where
  "counters_ok cfg s \<longleftrightarrow>
     length (g_out s) \<le> g_ch s \<and> g_ch s \<le> g_pt s \<and> g_pt s \<le> length (g_inp s) \<and>
     length (g_inp s) \<le> length (g_out s) + unat (cf_size cfg) \<and>
     c_prod s = \<lparr>ht_head = of_nat (length (g_inp s)), ht_tail = of_nat (g_pt s)\<rparr> \<and>
     c_cons s = \<lparr>ht_head = of_nat (g_ch s), ht_tail = of_nat (length (g_out s))\<rparr>"

definition data_ok :: "rcfg \<Rightarrow> 'a cstate \<Rightarrow> bool" where
  "data_ok cfg s \<longleftrightarrow> unat (cf_size cfg) \<le> length (c_mem s) \<and>
     g_out s = take (length (g_out s)) (g_inp s) \<and>
     (\<forall>p. length (g_out s) \<le> p \<and> p < g_pt s \<longrightarrow> c_mem s ! (p mod unat (cf_size cfg)) = g_inp s ! p)"

definition cinv :: "rcfg \<Rightarrow> 'a cstate \<Rightarrow> bool" where
  "cinv cfg s \<longleftrightarrow> counters_ok cfg s \<and> data_ok cfg s \<and>
     tiles (\<lambda>t. pown (c_pcs s t)) {g_pt s..<length (g_inp s)} \<and>
     tiles (\<lambda>t. cown (c_pcs s t)) {length (g_out s)..<g_ch s} \<and>
     (\<forall>t. pc_ok cfg s (c_pcs s t) \<and> pc_role cfg t (c_pcs s t))"

subsection \<open>Tilings\<close>

lemma tiles_upd_same: "tiles f A \<Longrightarrow> f t = B \<Longrightarrow> tiles (f(t := B)) A"
  by (simp add: fun_upd_idem)

lemma tiles_add:
  assumes "tiles f A" and "f t = {}" and "A \<inter> B = {}"
  shows "tiles (f(t := B)) (A \<union> B)"
  using assms unfolding tiles_def by (auto split: if_splits)

lemma tiles_remove:
  assumes "tiles f A" shows "tiles (f(t := {})) (A - f t)"
  using assms unfolding tiles_def by (auto split: if_splits)

lemma tiles_subset: "tiles f A \<Longrightarrow> f t \<subseteq> A"
  unfolding tiles_def by blast

lemma tiles_disjoint: "tiles f A \<Longrightarrow> p \<in> f t \<Longrightarrow> p \<in> f u \<Longrightarrow> t = u"
  unfolding tiles_def by blast

lemma tiles_single: "tiles f A \<Longrightarrow> (\<And>u. u \<noteq> t \<Longrightarrow> f u = {}) \<Longrightarrow> A = f t"
proof -
  assume t: "tiles f A" and e: "\<And>u. u \<noteq> t \<Longrightarrow> f u = {}"
  have "(\<Union>u. f u) = f t" using e by (auto, metis empty_iff)
  then show "A = f t" using t by (simp add: tiles_def)
qed

subsection \<open>Words and positions\<close>

lemma of_nat_u32_inj:
  assumes "(of_nat a :: u32) = of_nat b" and "b \<le> a" and "a < b + 2 ^ 32"
  shows "a = b"
proof -
  have "a mod 2 ^ 32 = b mod 2 ^ 32"
    using arg_cong [OF assms(1), of unat] by (simp add: unat_of_nat)
  then have "2 ^ 32 dvd a - b" using assms(2) by (metis mod_eq_dvd_iff_nat)
  moreover have "a - b < 2 ^ 32" using assms(2,3) by linarith
  ultimately show ?thesis using assms(2) by (auto dest: nat_dvd_not_less [rotated])
qed

lemma slot_of_position:
  assumes "ring_dims sz (sz - 1) k"
  shows "unat ((of_nat H + of_nat j) AND (sz - 1)) = (H + j) mod unat sz"
  using ring_dims_unat(2) [OF assms] unat_mod_size [OF assms, of 0 "H + j"] by simp

lemma size_bound: "ring_dims sz msk k \<Longrightarrow> unat sz \<le> 2 ^ 31"
  using ring_dims_unat(1) [of sz msk k] power_increasing [of k 31 "2::nat"] by (simp add: ring_dims_def)

section \<open>Every step keeps the invariant\<close>

lemma set_pc_simps [simp]:
  "c_prod (set_pc t p s) = c_prod s" "c_cons (set_pc t p s) = c_cons s" "c_mem (set_pc t p s) = c_mem s"
  "g_inp (set_pc t p s) = g_inp s" "g_out (set_pc t p s) = g_out s" "g_pt (set_pc t p s) = g_pt s"
  "g_ch (set_pc t p s) = g_ch s" "c_pcs (set_pc t p s) = (c_pcs s)(t := p)"
  by (simp_all add: set_pc_def)

lemma set_pc_ok [simp]:
  "pc_ok cfg (set_pc t p s) = pc_ok cfg s"
  "counters_ok cfg (set_pc t p s) = counters_ok cfg s" "data_ok cfg (set_pc t p s) = data_ok cfg s"
  by (auto simp: fun_eq_iff pc_ok_def counters_ok_def data_ok_def Let_def split: pc.split)

lemma cinv_set_pc:
  assumes "counters_ok cfg s" and "data_ok cfg s"
    and "tiles ((\<lambda>u. pown (c_pcs s u))(t := pown p)) {g_pt s..<length (g_inp s)}"
    and "tiles ((\<lambda>u. cown (c_pcs s u))(t := cown p)) {length (g_out s)..<g_ch s}"
    and "pc_ok cfg s p" and "pc_role cfg t p"
    and "\<And>u. u \<noteq> t \<Longrightarrow> pc_ok cfg s (c_pcs s u) \<and> pc_role cfg u (c_pcs s u)"
  shows "cinv cfg (set_pc t p s)"
proof -
  have f: "(\<lambda>u. f (((c_pcs s)(t := p)) u)) = (\<lambda>u. f (c_pcs s u))(t := f p)" for f :: "'a pc \<Rightarrow> nat set"
    by (rule ext) simp
  show ?thesis unfolding cinv_def set_pc_simps set_pc_ok f using assms by auto
qed

text \<open>Steps that only move one thread's program counter and neither claim nor release.\<close>

lemma cinv_move:
  assumes "cinv cfg s" and "pown p = pown (c_pcs s t)" and "cown p = cown (c_pcs s t)"
    and "pc_ok cfg s p" and "pc_role cfg t p"
  shows "cinv cfg (set_pc t p s)"
proof -
  have "(\<lambda>u. f (c_pcs s u))(t := f (c_pcs s t)) = (\<lambda>u. f (c_pcs s u))" for f :: "'a pc \<Rightarrow> nat set"
    by (rule ext) simp
  then show ?thesis using assms by (intro cinv_set_pc) (auto simp: cinv_def)
qed

lemmas own_defs = pown_def cown_def

lemma cinv_pc: "cinv cfg s \<Longrightarrow> pc_ok cfg s (c_pcs s t)" "cinv cfg s \<Longrightarrow> pc_role cfg t (c_pcs s t)"
  by (simp_all add: cinv_def)

lemma cinv_load_prod:
  assumes "cinv cfg s" and "pown (c_pcs s t) = {}" "cown (c_pcs s t) = {}" and "cf_prods cfg t"
    and "length objs < 2 ^ 32"
  shows "cinv cfg (set_pc t (PLoaded objs (ht_head (c_prod s)) (length (g_inp s))) s)"
  using assms by (intro cinv_move) (auto simp: own_defs pc_ok_def pc_role_def cinv_def counters_ok_def)

lemma cinv_load_cons:
  assumes "cinv cfg s" and "pown (c_pcs s t) = {}" "cown (c_pcs s t) = {}" and "cf_conss cfg t"
  shows "cinv cfg (set_pc t (CLoaded n (ht_head (c_cons s)) (g_ch s)) s)"
  using assms by (intro cinv_move) (auto simp: own_defs pc_ok_def pc_role_def cinv_def counters_ok_def)

lemma cinv_idle:
  assumes "cinv cfg s" and "pown (c_pcs s t) = {}" "cown (c_pcs s t) = {}"
  shows "cinv cfg (set_pc t Idle s)"
  using assms by (intro cinv_move) (auto simp: own_defs pc_ok_def pc_role_def)

lemma cinv_read_prod:
  assumes inv: "cinv cfg s" and pc: "c_pcs s t = PLoaded objs h H"
  shows "cinv cfg (set_pc t (PRead objs h H (ht_tail (c_cons s)) (length (g_out s))) s)"
  using inv cinv_pc [OF inv, of t]
  by (intro cinv_move) (auto simp: pc own_defs pc_ok_def pc_role_def Let_def cinv_def counters_ok_def)

lemma cinv_read_cons:
  assumes inv: "cinv cfg s" and pc: "c_pcs s t = CLoaded n h H"
  shows "cinv cfg (set_pc t (CRead n h H (ht_tail (c_prod s)) (g_pt s)) s)"
  using inv cinv_pc [OF inv, of t]
  by (intro cinv_move) (auto simp: pc own_defs pc_ok_def pc_role_def Let_def cinv_def counters_ok_def)

subsection \<open>A producer claims positions\<close>

lemma cinv_claim_prod:
  assumes ok: "cfg_ok cfg m" and inv: "cinv cfg s" and lap: "no_lap s"
    and pc: "c_pcs s t = PRead objs h H c C"
    and n: "\<not> of_nat (length objs) > cf_size cfg + c - h" "of_nat (length objs) \<noteq> (0 :: u32)"
    and win: "cf_sp cfg \<or> ht_head (c_prod s) = h"
  shows "cinv cfg (set_pc t (PCopy objs h (length (g_inp s)) 0)
     (s\<lparr>c_prod := (c_prod s)\<lparr>ht_head := h + of_nat (length objs)\<rparr>, g_inp := g_inp s @ objs\<rparr>))"
proof -
  let ?n = "length objs" and ?sz = "unat (cf_size cfg)" and ?PH = "length (g_inp s)"
  let ?s = "s\<lparr>c_prod := (c_prod s)\<lparr>ht_head := h + of_nat (length objs)\<rparr>, g_inp := g_inp s @ objs\<rparr>"
  from inv have cs: "counters_ok cfg s" and ds: "data_ok cfg s"
    and tp: "tiles (\<lambda>t. pown (c_pcs s t)) {g_pt s..<?PH}"
    and tc: "tiles (\<lambda>t. cown (c_pcs s t)) {length (g_out s)..<g_ch s}" by (simp_all add: cinv_def)
  from ok obtain k where d: "ring_dims (cf_size cfg) (cf_size cfg - 1) k" by (auto simp: cfg_ok_def)
  have sz: "?sz \<le> 2 ^ 31" using d by (rule size_bound)
  from cinv_pc [OF inv, of t] have p: "h = of_nat H" "H \<le> ?PH" "?n < 2 ^ 32" "cf_sp cfg \<longrightarrow> H = ?PH"
    "c = of_nat C" "C \<le> length (g_out s)" "H = ?PH \<longrightarrow> H \<le> C + ?sz" and role: "cf_prods cfg t"
    by (simp_all add: pc pc_ok_def pc_role_def Let_def)
  have "?PH < H + 2 ^ 32" using lap [unfolded no_lap_def, rule_format, of t] by (simp add: pc pc_no_lap_def)
  then have H: "H = ?PH"
    using win p cs of_nat_u32_inj [of ?PH H] by (auto simp: counters_ok_def)
  have le: "length (g_out s) \<le> g_ch s" "g_ch s \<le> g_pt s" "g_pt s \<le> ?PH"
    using cs by (simp_all add: counters_ok_def)
  have CH: "C \<le> H" "H \<le> C + ?sz" using p H le by linarith+
  have "cf_size cfg + c - h = of_nat (?sz + C - H)"
    using CH p(1,5) by (simp add: of_nat_diff)
  moreover have "unat (of_nat (?sz + C - H) :: u32) = ?sz + C - H"
    using CH sz by (intro unat_of_nat_small) simp
  moreover have un: "unat (of_nat ?n :: u32) = ?n" using p(3) by (simp add: unat_of_nat)
  ultimately have fit: "?n \<le> ?sz + C - H" using n(1) by (simp add: word_less_nat_alt not_less)
  have pos: "0 < ?n" using n(2) by (cases "length objs") simp_all
  show ?thesis
  proof (rule cinv_set_pc)
    show "counters_ok cfg ?s"
      using cs fit CH H p(1,6) by (auto simp: counters_ok_def)
    show "data_ok cfg ?s" using ds le by (auto simp: data_ok_def nth_append take_append)
    have "tiles ((\<lambda>u. pown (c_pcs s u))(t := {?PH..<?PH + ?n})) ({g_pt s..<?PH} \<union> {?PH..<?PH + ?n})"
      using tp by (rule tiles_add) (auto simp: pc own_defs)
    moreover have "{g_pt s..<?PH} \<union> {?PH..<?PH + ?n} = {g_pt s..<?PH + ?n}" using le by auto
    ultimately show "tiles ((\<lambda>u. pown (c_pcs ?s u))(t := pown (PCopy objs h ?PH 0))) {g_pt ?s..<length (g_inp ?s)}"
      by (simp add: pown_def)
    show "tiles ((\<lambda>u. cown (c_pcs ?s u))(t := cown (PCopy objs h ?PH 0))) {length (g_out ?s)..<g_ch ?s}"
      using tiles_remove [OF tc, of t] by (simp add: cown_def pc)
    show "pc_ok cfg ?s (PCopy objs h ?PH 0)" using p(1) H pos by (simp add: pc_ok_def nth_append)
    show "pc_role cfg t (PCopy objs h ?PH 0)" using role by (simp add: pc_role_def)
    fix u assume u: "u \<noteq> t"
    show "pc_ok cfg ?s (c_pcs ?s u) \<and> pc_role cfg u (c_pcs ?s u)"
      using cinv_pc [OF inv, of u] u role cfg_single(1) [OF ok, of t u] pos le
      by (auto simp: pc_ok_def pc_role_def Let_def nth_append split: pc.splits)
  qed
qed

subsection \<open>A producer copies and publishes\<close>

lemma cinv_copy_prod:
  assumes ok: "cfg_ok cfg m" and inv: "cinv cfg s" and pc: "c_pcs s t = PCopy objs h H k"
    and k: "k < length objs"
  shows "\<exists>s'. prod_copy cfg t objs h H k s = Some s' \<and> cinv cfg s'"
proof -
  let ?sz = "unat (cf_size cfg)" and ?PH = "length (g_inp s)" and ?slot = "(H + k) mod unat (cf_size cfg)"
  let ?s = "s\<lparr>c_mem := (c_mem s)[?slot := objs ! k]\<rparr>"
  from ok obtain b where d: "ring_dims (cf_size cfg) (cf_size cfg - 1) b" by (auto simp: cfg_ok_def)
  from inv have cs: "counters_ok cfg s" and ds: "data_ok cfg s"
    and tp: "tiles (\<lambda>t. pown (c_pcs s t)) {g_pt s..<?PH}"
    and tc: "tiles (\<lambda>t. cown (c_pcs s t)) {length (g_out s)..<g_ch s}" by (simp_all add: cinv_def)
  from cinv_pc [OF inv, of t] have p: "h = of_nat H" "H + length objs \<le> ?PH"
    "\<forall>j<length objs. g_inp s ! (H + j) = objs ! j" "\<forall>j<k. c_mem s ! ((H + j) mod ?sz) = objs ! j"
    and role: "cf_prods cfg t" by (simp_all add: pc pc_ok_def pc_role_def Let_def)
  have mine: "H + k \<in> pown (c_pcs s t)" using k by (simp add: pc pown_def)
  then have in_p: "g_pt s \<le> H + k" "H + k < ?PH" using tiles_subset [OF tp, of t] by auto
  have "H \<in> pown (c_pcs s t)" using k by (auto simp: pc pown_def)
  then have H_low: "g_pt s \<le> H" using tiles_subset [OF tp, of t] by auto
  have le: "length (g_out s) \<le> g_ch s" "g_ch s \<le> g_pt s" "?PH \<le> length (g_out s) + ?sz"
    using cs by (simp_all add: counters_ok_def)
  have other: "q mod ?sz \<noteq> ?slot" if "length (g_out s) \<le> q" "q < ?PH" "q \<noteq> H + k" for q
  proof (cases "q < H + k")
    case True
    then show ?thesis using that in_p le by (intro mod_neq_window) linarith+
  next
    case False
    then have "?slot \<noteq> q mod ?sz" using that in_p le by (intro mod_neq_window) linarith+
    then show ?thesis by simp
  qed
  have keep: "c_mem ?s ! (q mod ?sz) = c_mem s ! (q mod ?sz)"
    if "length (g_out s) \<le> q" "q < ?PH" "q \<noteq> H + k" for q
    using other [OF that, THEN not_sym] by simp
  have lt: "?slot < length (c_mem s)"
    using ds ring_dims_unat(3) [OF d] by (auto simp: data_ok_def intro: less_le_trans mod_less_divisor)
  have step: "prod_copy cfg t objs h H k s = Some (set_pc t (PCopy objs h H (Suc k)) ?s)"
    using k lt by (simp add: prod_copy_def p(1) slot_of_position [OF d] mem_write_def)
  have "cinv cfg (set_pc t (PCopy objs h H (Suc k)) ?s)"
  proof (rule cinv_set_pc)
    show "counters_ok cfg ?s" using cs by (simp add: counters_ok_def)
    show "data_ok cfg ?s" using ds keep in_p by (auto simp: data_ok_def)
    show "tiles ((\<lambda>u. pown (c_pcs ?s u))(t := pown (PCopy objs h H (Suc k)))) {g_pt ?s..<length (g_inp ?s)}"
      using tp by (intro tiles_upd_same) (simp_all add: pown_def pc)
    show "tiles ((\<lambda>u. cown (c_pcs ?s u))(t := cown (PCopy objs h H (Suc k)))) {length (g_out ?s)..<g_ch ?s}"
      using tc by (intro tiles_upd_same) (simp_all add: cown_def pc)
    have "c_mem ?s ! ((H + j) mod ?sz) = objs ! j" if "j < Suc k" for j
      using that p(4) lt keep [of "H + j"] in_p H_low le by (cases "j = k") auto
    then show "pc_ok cfg ?s (PCopy objs h H (Suc k))" using p k by (auto simp: pc_ok_def)
    show "pc_role cfg t (PCopy objs h H (Suc k))" using role by (simp add: pc_role_def)
    fix u assume u: "u \<noteq> t"
    have "c_mem ?s ! ((H' + j) mod ?sz) = c_mem s ! ((H' + j) mod ?sz)"
      if "c_pcs s u = PCopy objs' h' H' k'" "j < k'" for objs' h' H' k' j
    proof -
      have "k' \<le> length objs'" using cinv_pc(1) [OF inv, of u] that by (simp add: pc_ok_def Let_def)
      then have o: "H' + j \<in> pown (c_pcs s u)" using that by (simp add: pown_def)
      then have "H' + j \<noteq> H + k" using tiles_disjoint [OF tp mine, of u] u by auto
      then show ?thesis using keep [of "H' + j"] tiles_subset [OF tp, of u] o le by auto
    qed
    then show "pc_ok cfg ?s (c_pcs ?s u) \<and> pc_role cfg u (c_pcs ?s u)"
      using cinv_pc [OF inv, of u] by (auto simp: pc_ok_def Let_def split: pc.splits)
  qed
  then show ?thesis using step by blast
qed

lemma cinv_publish:
  assumes ok: "cfg_ok cfg m" and inv: "cinv cfg s" and pc: "c_pcs s t = PCopy objs h H k"
    and k: "\<not> k < length objs" and step: "prod_copy cfg t objs h H k s = Some s'"
  shows "cinv cfg s'"
proof -
  let ?n = "length objs" and ?sz = "unat (cf_size cfg)" and ?PH = "length (g_inp s)"
  let ?s = "s\<lparr>c_prod := (c_prod s)\<lparr>ht_tail := h + of_nat ?n\<rparr>, g_pt := H + ?n\<rparr>"
  from ok obtain b where d: "ring_dims (cf_size cfg) (cf_size cfg - 1) b" by (auto simp: cfg_ok_def)
  from inv have cs: "counters_ok cfg s" and ds: "data_ok cfg s"
    and tp: "tiles (\<lambda>t. pown (c_pcs s t)) {g_pt s..<?PH}"
    and tc: "tiles (\<lambda>t. cown (c_pcs s t)) {length (g_out s)..<g_ch s}" by (simp_all add: cinv_def)
  from cinv_pc [OF inv, of t] k have p: "h = of_nat H" "k = ?n" "H + ?n \<le> ?PH"
    "\<forall>j<?n. g_inp s ! (H + j) = objs ! j" "\<forall>j<?n. c_mem s ! ((H + j) mod ?sz) = objs ! j"
    and role: "cf_prods cfg t" by (auto simp: pc pc_ok_def pc_role_def Let_def)
  have le: "length (g_out s) \<le> g_ch s" "g_ch s \<le> g_pt s" "g_pt s \<le> ?PH" "?PH \<le> length (g_out s) + ?sz"
    using cs by (simp_all add: counters_ok_def)
  have win: "cf_sp cfg \<or> ht_tail (c_prod s) = h" and s': "s' = set_pc t Idle ?s"
    using step k by (auto simp: prod_copy_def split: if_splits)
  have n0: "0 < ?n" using cinv_pc [OF inv, of t] by (simp add: pc pc_ok_def Let_def)
  have "H \<in> pown (c_pcs s t)" using n0 by (simp add: pc pown_def)
  then have low: "g_pt s \<le> H" "H < ?PH" using tiles_subset [OF tp, of t] by auto
  have H: "H = g_pt s"
  proof (cases "cf_sp cfg")
    case True
    have "pown (c_pcs s u) = {}" if "u \<noteq> t" for u
      using cinv_pc(2) [OF inv, of u] cfg_single(1) [OF ok role _ True, of u] that
      by (auto simp: pown_def pc_role_def split: pc.splits)
    then have "{g_pt s..<?PH} = {H..<H + ?n}" using tiles_single [OF tp, of t] by (simp add: pc pown_def)
    then show ?thesis using n0 low by (simp add: atLeastLessThan_eq_iff)
  next
    case False
    then have "of_nat (g_pt s) = (of_nat H :: u32)" using win cs p(1) by (simp add: counters_ok_def)
    then show ?thesis
      using of_nat_u32_inj [of H "g_pt s"] low le size_bound [OF d] by simp
  qed
  show ?thesis
    unfolding s'
  proof (rule cinv_set_pc)
    show "counters_ok cfg ?s" using cs p le H by (simp add: counters_ok_def)
    have "c_mem s ! (q mod ?sz) = g_inp s ! q" if "length (g_out s) \<le> q" "q < H + ?n" for q
    proof (cases "q < g_pt s")
      case False
      then show ?thesis using that H p(4,5) by (metis add.commute le_Suc_ex less_diff_conv2 linorder_not_less nat_add_left_cancel_less)
    qed (use that ds in \<open>auto simp: data_ok_def\<close>)
    then show "data_ok cfg ?s" using ds by (auto simp: data_ok_def)
    have "{g_pt s..<?PH} - {H..<H + ?n} = {H + ?n..<?PH}" using H by auto
    then show "tiles ((\<lambda>u. pown (c_pcs ?s u))(t := pown Idle)) {g_pt ?s..<length (g_inp ?s)}"
      using tiles_remove [OF tp, of t] by (simp add: pown_def pc)
    show "tiles ((\<lambda>u. cown (c_pcs ?s u))(t := cown Idle)) {length (g_out ?s)..<g_ch ?s}"
      using tiles_remove [OF tc, of t] by (simp add: cown_def pc)
    show "pc_ok cfg ?s Idle" "pc_role cfg t Idle" by (simp_all add: pc_ok_def pc_role_def)
    show "pc_ok cfg ?s (c_pcs ?s u) \<and> pc_role cfg u (c_pcs ?s u)" if "u \<noteq> t" for u
      using cinv_pc [OF inv, of u] H by (auto simp: pc_ok_def Let_def split: pc.splits)
  qed
qed

subsection \<open>A consumer claims, copies and releases\<close>

lemma cinv_claim_cons:
  assumes ok: "cfg_ok cfg m" and inv: "cinv cfg s" and lap: "no_lap s"
    and pc: "c_pcs s t = CRead n h H q P"
    and n: "\<not> n > q - h" "n \<noteq> 0"
    and win: "cf_sc cfg \<or> ht_head (c_cons s) = h"
  shows "cinv cfg (set_pc t (CCopy n h (g_ch s) [])
     (s\<lparr>c_cons := (c_cons s)\<lparr>ht_head := h + n\<rparr>, g_ch := g_ch s + unat n\<rparr>))"
proof -
  let ?sz = "unat (cf_size cfg)" and ?CH = "g_ch s"
  let ?s = "s\<lparr>c_cons := (c_cons s)\<lparr>ht_head := h + n\<rparr>, g_ch := g_ch s + unat n\<rparr>"
  from inv have cs: "counters_ok cfg s" and ds: "data_ok cfg s"
    and tp: "tiles (\<lambda>t. pown (c_pcs s t)) {g_pt s..<length (g_inp s)}"
    and tc: "tiles (\<lambda>t. cown (c_pcs s t)) {length (g_out s)..<?CH}" by (simp_all add: cinv_def)
  from ok obtain k where d: "ring_dims (cf_size cfg) (cf_size cfg - 1) k" by (auto simp: cfg_ok_def)
  from cinv_pc [OF inv, of t] have p: "h = of_nat H" "H \<le> ?CH" "cf_sc cfg \<longrightarrow> H = ?CH"
    "q = of_nat P" "P \<le> g_pt s" "H = ?CH \<longrightarrow> H \<le> P" and role: "cf_conss cfg t"
    by (simp_all add: pc pc_ok_def pc_role_def Let_def)
  have "?CH < H + 2 ^ 32" using lap [unfolded no_lap_def, rule_format, of t] by (simp add: pc pc_no_lap_def)
  then have H: "H = ?CH"
    using win p cs of_nat_u32_inj [of ?CH H] by (auto simp: counters_ok_def)
  have le: "length (g_out s) \<le> ?CH" "?CH \<le> g_pt s" "g_pt s \<le> length (g_inp s)"
    "length (g_inp s) \<le> length (g_out s) + ?sz"
    using cs by (simp_all add: counters_ok_def)
  have "q - h = of_nat (P - H)" using p H by (simp add: of_nat_diff)
  moreover have "unat (of_nat (P - H) :: u32) = P - H"
    using p(5) H le size_bound [OF d] by (intro unat_of_nat_small) simp
  ultimately have fit: "unat n \<le> P - H" using n(1) by (simp add: word_less_nat_alt not_less)
  have pos: "0 < unat n" using n(2) by (simp add: unat_gt_0)
  show ?thesis
  proof (rule cinv_set_pc)
    have "of_nat (?CH + unat n) = h + n" using p(1) H by simp
    then show "counters_ok cfg ?s" using cs fit H p(5,6) by (auto simp: counters_ok_def)
    show "data_ok cfg ?s" using ds by (simp add: data_ok_def)
    show "tiles ((\<lambda>u. pown (c_pcs ?s u))(t := pown (CCopy n h ?CH []))) {g_pt ?s..<length (g_inp ?s)}"
      using tp by (intro tiles_upd_same) (simp_all add: pown_def pc)
    have "tiles ((\<lambda>u. cown (c_pcs s u))(t := {?CH..<?CH + unat n})) ({length (g_out s)..<?CH} \<union> {?CH..<?CH + unat n})"
      using tc by (rule tiles_add) (auto simp: pc own_defs)
    moreover have "{length (g_out s)..<?CH} \<union> {?CH..<?CH + unat n} = {length (g_out s)..<?CH + unat n}"
      using le by auto
    ultimately show "tiles ((\<lambda>u. cown (c_pcs ?s u))(t := cown (CCopy n h ?CH []))) {length (g_out ?s)..<g_ch ?s}"
      by (simp add: cown_def)
    show "pc_ok cfg ?s (CCopy n h ?CH [])" using p(1) H pos by (simp add: pc_ok_def)
    show "pc_role cfg t (CCopy n h ?CH [])" using role by (simp add: pc_role_def)
    show "pc_ok cfg ?s (c_pcs ?s u) \<and> pc_role cfg u (c_pcs ?s u)" if "u \<noteq> t" for u
      using cinv_pc [OF inv, of u] that role cfg_single(2) [OF ok, of t u] pos
      by (auto simp: pc_ok_def pc_role_def Let_def split: pc.splits)
  qed
qed

lemma cinv_copy_cons:
  assumes ok: "cfg_ok cfg m" and inv: "cinv cfg s" and pc: "c_pcs s t = CCopy n h H got"
    and k: "length got < unat n"
  shows "\<exists>s'. cons_copy cfg t n h H got s = Some s' \<and> cinv cfg s'"
proof -
  let ?sz = "unat (cf_size cfg)" and ?p = "H + length got"
  from ok obtain b where d: "ring_dims (cf_size cfg) (cf_size cfg - 1) b" by (auto simp: cfg_ok_def)
  from inv have cs: "counters_ok cfg s" and ds: "data_ok cfg s"
    and tc: "tiles (\<lambda>t. cown (c_pcs s t)) {length (g_out s)..<g_ch s}" by (simp_all add: cinv_def)
  from cinv_pc [OF inv, of t] have p: "h = of_nat H" "H + unat n \<le> g_ch s"
    "\<forall>j<length got. got ! j = g_inp s ! (H + j)"
    and role: "cf_conss cfg t" by (simp_all add: pc pc_ok_def pc_role_def Let_def)
  have "?p \<in> cown (c_pcs s t)" using k by (simp add: pc cown_def)
  then have in_c: "length (g_out s) \<le> ?p" "?p < g_ch s" using tiles_subset [OF tc, of t] by auto
  moreover have "g_ch s \<le> g_pt s" using cs by (simp add: counters_ok_def)
  ultimately have v: "c_mem s ! (?p mod ?sz) = g_inp s ! ?p" using ds by (simp add: data_ok_def)
  have lt: "?p mod ?sz < length (c_mem s)"
    using ds ring_dims_unat(3) [OF d] by (auto simp: data_ok_def intro: less_le_trans mod_less_divisor)
  have step: "cons_copy cfg t n h H got s = Some (set_pc t (CCopy n h H (got @ [g_inp s ! ?p])) s)"
    using k lt by (simp add: cons_copy_def p(1) slot_of_position [OF d] mem_read_def v)
  have "cinv cfg (set_pc t (CCopy n h H (got @ [g_inp s ! ?p])) s)"
    using inv p k role
    by (intro cinv_move) (auto simp: own_defs pc pc_ok_def pc_role_def nth_append less_Suc_eq)
  then show ?thesis using step by blast
qed

lemma cinv_release:
  assumes ok: "cfg_ok cfg m" and inv: "cinv cfg s" and pc: "c_pcs s t = CCopy n h H got"
    and k: "\<not> length got < unat n" and step: "cons_copy cfg t n h H got s = Some s'"
  shows "cinv cfg s'"
proof -
  let ?sz = "unat (cf_size cfg)" and ?CT = "length (g_out s)"
  let ?s = "s\<lparr>c_cons := (c_cons s)\<lparr>ht_tail := h + n\<rparr>, g_out := g_out s @ got\<rparr>"
  from ok obtain b where d: "ring_dims (cf_size cfg) (cf_size cfg - 1) b" by (auto simp: cfg_ok_def)
  from inv have cs: "counters_ok cfg s" and ds: "data_ok cfg s"
    and tp: "tiles (\<lambda>t. pown (c_pcs s t)) {g_pt s..<length (g_inp s)}"
    and tc: "tiles (\<lambda>t. cown (c_pcs s t)) {?CT..<g_ch s}" by (simp_all add: cinv_def)
  from cinv_pc [OF inv, of t] k have p: "h = of_nat H" "0 < unat n" "length got = unat n" "H + unat n \<le> g_ch s"
    "\<forall>j<unat n. got ! j = g_inp s ! (H + j)"
    and role: "cf_conss cfg t" by (auto simp: pc pc_ok_def pc_role_def Let_def)
  have le: "?CT \<le> g_ch s" "g_ch s \<le> g_pt s" "g_pt s \<le> length (g_inp s)" "length (g_inp s) \<le> ?CT + ?sz"
    using cs by (simp_all add: counters_ok_def)
  have win: "cf_sc cfg \<or> ht_tail (c_cons s) = h" and s': "s' = set_pc t Idle ?s"
    using step k by (auto simp: cons_copy_def split: if_splits)
  have "H \<in> cown (c_pcs s t)" using p(2) by (simp add: pc cown_def)
  then have low: "?CT \<le> H" "H < g_ch s" using tiles_subset [OF tc, of t] by auto
  have H: "H = ?CT"
  proof (cases "cf_sc cfg")
    case True
    have "cown (c_pcs s u) = {}" if "u \<noteq> t" for u
      using cinv_pc(2) [OF inv, of u] cfg_single(2) [OF ok role _ True, of u] that
      by (auto simp: cown_def pc_role_def split: pc.splits)
    then have "{?CT..<g_ch s} = {H..<H + unat n}" using tiles_single [OF tc, of t] by (simp add: pc cown_def)
    then show ?thesis using p(2) low by (simp add: atLeastLessThan_eq_iff)
  next
    case False
    then have "of_nat ?CT = (of_nat H :: u32)" using win cs p(1) by (simp add: counters_ok_def)
    then show ?thesis
      using of_nat_u32_inj [of H ?CT] low le size_bound [OF d] by simp
  qed
  have got: "got = take (unat n) (drop ?CT (g_inp s))"
    using p H le by (intro nth_equalityI) auto
  show ?thesis
    unfolding s'
  proof (rule cinv_set_pc)
    have "of_nat (?CT + unat n) = h + n" using p(1) H by simp
    then show "counters_ok cfg ?s" using cs p le H by (auto simp: counters_ok_def)
    have "g_out s @ got = take (?CT + unat n) (g_inp s)"
      using ds got by (simp add: data_ok_def take_add)
    moreover have "length (g_out s @ got) = ?CT + unat n" using p(3) by simp
    ultimately show "data_ok cfg ?s" using ds by (auto simp: data_ok_def simp del: length_append)
    show "tiles ((\<lambda>u. pown (c_pcs ?s u))(t := pown Idle)) {g_pt ?s..<length (g_inp ?s)}"
      using tp by (intro tiles_upd_same) (simp_all add: pown_def pc)
    have "{?CT..<g_ch s} - {H..<H + unat n} = {?CT + unat n..<g_ch s}" using H by auto
    then show "tiles ((\<lambda>u. cown (c_pcs ?s u))(t := cown Idle)) {length (g_out ?s)..<g_ch ?s}"
      using tiles_remove [OF tc, of t] by (simp add: cown_def pc p(3))
    show "pc_ok cfg ?s Idle" "pc_role cfg t Idle" by (simp_all add: pc_ok_def pc_role_def)
    show "pc_ok cfg ?s (c_pcs ?s u) \<and> pc_role cfg u (c_pcs ?s u)" if "u \<noteq> t" for u
      using cinv_pc [OF inv, of u] by (auto simp: pc_ok_def Let_def split: pc.splits)
  qed
qed

subsection \<open>All reachable states\<close>

lemma cinv_init: "cfg_ok cfg m \<Longrightarrow> cinv cfg (cinit m)"
  by (auto simp: cinv_def cinit_def counters_ok_def data_ok_def init_headtail_def cfg_ok_def tiles_def
      own_defs pc_ok_def pc_role_def)

lemma cinv_prod_try:
  assumes ok: "cfg_ok cfg m" and inv: "cinv cfg s" and lap: "no_lap s"
    and pc: "c_pcs s t = PRead objs h H c C"
  shows "cinv cfg (prod_try cfg t objs h c s)"
proof -
  have e: "pown (c_pcs s t) = {}" "cown (c_pcs s t) = {}" by (simp_all add: pc own_defs)
  have r: "cf_prods cfg t" "length objs < 2 ^ 32"
    using cinv_pc [OF inv, of t] by (simp_all add: pc pc_role_def pc_ok_def Let_def)
  show ?thesis
    using cinv_claim_prod [OF ok inv lap pc] cinv_load_prod [OF inv e r] cinv_idle [OF inv e]
    by (auto simp: prod_try_def Let_def)
qed

lemma cinv_cons_try:
  assumes ok: "cfg_ok cfg m" and inv: "cinv cfg s" and lap: "no_lap s"
    and pc: "c_pcs s t = CRead n h H q P"
  shows "cinv cfg (cons_try cfg t n h q s)"
proof -
  have e: "pown (c_pcs s t) = {}" "cown (c_pcs s t) = {}" by (simp_all add: pc own_defs)
  have r: "cf_conss cfg t" using cinv_pc [OF inv, of t] by (simp add: pc pc_role_def)
  show ?thesis
    using cinv_claim_cons [OF ok inv lap pc] cinv_load_cons [OF inv e r] cinv_idle [OF inv e]
    by (auto simp: cons_try_def Let_def)
qed

lemma cinv_step:
  assumes ok: "cfg_ok cfg m" and inv: "cinv cfg s" and lap: "no_lap s" and st: "cstep cfg s e = Some s'"
  shows "cinv cfg s'"
proof (cases e)
  case (StartEnq t objs)
  then show ?thesis
    using st inv cinv_load_prod [OF inv, of t objs]
    by (auto simp: own_defs split: if_splits pc.splits)
next
  case (StartDeq t n)
  then show ?thesis
    using st inv cinv_load_cons [OF inv, of t n]
    by (auto simp: own_defs split: if_splits pc.splits)
next
  case (Next t)
  show ?thesis
  proof (cases "c_pcs s t")
    case Idle
    then show ?thesis using st Next by simp
  next
    case (PLoaded objs h H)
    then show ?thesis using st Next cinv_read_prod [OF inv PLoaded] by simp
  next
    case (PRead objs h H c C)
    then show ?thesis using st Next cinv_prod_try [OF ok inv lap PRead] by simp
  next
    case (PCopy objs h H k)
    then show ?thesis
      using st Next cinv_copy_prod [OF ok inv PCopy] cinv_publish [OF ok inv PCopy, of s']
      by (cases "k < length objs") auto
  next
    case (CLoaded n h H)
    then show ?thesis using st Next cinv_read_cons [OF inv CLoaded] by simp
  next
    case (CRead n h H q P)
    then show ?thesis using st Next cinv_cons_try [OF ok inv lap CRead] by simp
  next
    case (CCopy n h H got)
    then show ?thesis
      using st Next cinv_copy_cons [OF ok inv CCopy] cinv_release [OF ok inv CCopy, of s']
      by (cases "length got < unat n") auto
  qed
qed

lemma reach_cinv:
  assumes "cfg_ok cfg m" and "reach cfg m s" shows "cinv cfg s"
  using assms(2)
proof (induction rule: reach.induct)
  case reach_init
  then show ?case by (rule cinv_init [OF assms(1)])
next
  case (reach_step s e s')
  then show ?case using cinv_step [OF assms(1), of s e s'] by blast
qed

subsection \<open>Executing a schedule\<close>

text \<open>A schedule is run while fewer than \<open>2^32\<close> elements have passed, which excludes overtaking.\<close>

fun crun :: "rcfg \<Rightarrow> 'a cstate \<Rightarrow> 'a ev list \<Rightarrow> 'a cstate option" where
  "crun cfg s [] = Some s"
| "crun cfg s (e # es) =
     (if length (g_inp s) < 2 ^ 32 \<and> g_ch s < 2 ^ 32
      then do { s \<leftarrow> cstep cfg s e; crun cfg s es } else None)"

lemma small_no_lap: "length (g_inp s) < 2 ^ 32 \<Longrightarrow> g_ch s < 2 ^ 32 \<Longrightarrow> no_lap s"
  by (auto simp: no_lap_def pc_no_lap_def split: pc.split)

lemma crun_reach: "reach cfg m s \<Longrightarrow> crun cfg s es = Some s' \<Longrightarrow> reach cfg m s'"
proof (induction es arbitrary: s)
  case (Cons e es)
  then obtain s1 where small: "length (g_inp s) < 2 ^ 32" "g_ch s < 2 ^ 32"
    and s1: "cstep cfg s e = Some s1" "crun cfg s1 es = Some s'"
    by (auto split: if_splits bind_splits)
  have "reach cfg m s1" using Cons.prems(1) small_no_lap [OF small] s1(1) by (rule reach_step)
  then show ?case using Cons.IH s1(2) by blast
qed simp

lemmas crun_simps = cinit_def init_headtail_def set_pc_def prod_try_def prod_copy_def cons_try_def
  cons_copy_def mem_write_def mem_read_def Let_def

definition mpmc_cfg :: rcfg where
  "mpmc_cfg = \<lparr>cf_size = 2, cf_sp = False, cf_sc = False, cf_prods = (\<lambda>t. t < 2), cf_conss = (\<lambda>t. 2 \<le> t)\<rparr>"

lemma mpmc_cfg_ok: "cfg_ok mpmc_cfg [0, 0 :: int]"
  by (auto simp: cfg_ok_def mpmc_cfg_def ring_dims_def intro!: exI [of _ 1])

definition sample_schedule :: "int ev list" where
  "sample_schedule = [StartEnq 0 [7], StartEnq 1 [8], Next 0, Next 1, Next 1, Next 0, Next 1, Next 0,
     StartDeq 2 1, Next 0]"

lemma sample_schedule_run:
  "\<exists>s. crun mpmc_cfg (cinit [0, 0]) sample_schedule = Some s \<and> g_inp s = [8, 7] \<and> c_pcs s 2 \<noteq> Idle"
  by (simp add: sample_schedule_def mpmc_cfg_def crun_simps)

section \<open>Safety and progress\<close>

text \<open>
  C1: whatever the interleaving of any number of producers and consumers (one of them where the
  single mode is used), the elements released by consumers, in the order of release, are the
  elements the producers claimed, in the order of their claims, without loss, duplication or
  reordering; a consumer in the middle of its copy has received exactly the elements of the
  positions it claimed; two consumers never hold the same position; and the ring never holds more
  than its size.
\<close>

theorem ring_concurrent_fifo:
  assumes "cfg_ok cfg m" and "reach cfg m s"
  shows "g_out s = take (length (g_out s)) (g_inp s)
    \<and> length (g_inp s) \<le> length (g_out s) + unat (cf_size cfg)
    \<and> (\<forall>t n h H got. c_pcs s t = CCopy n h H got \<longrightarrow> got = take (length got) (drop H (g_inp s)))
    \<and> (\<forall>t u n h H got n' h' H' got'. t \<noteq> u \<and> c_pcs s t = CCopy n h H got \<and> c_pcs s u = CCopy n' h' H' got'
         \<longrightarrow> {H..<H + unat n} \<inter> {H'..<H' + unat n'} = {})"
proof -
  have inv: "cinv cfg s" using assms by (rule reach_cinv)
  then have cs: "counters_ok cfg s" and ds: "data_ok cfg s"
    and tc: "tiles (\<lambda>t. cown (c_pcs s t)) {length (g_out s)..<g_ch s}" by (simp_all add: cinv_def)
  have "got = take (length got) (drop H (g_inp s))" if "c_pcs s t = CCopy n h H got" for t n h H got
  proof -
    have p: "length got \<le> unat n" "H + unat n \<le> g_ch s" "\<forall>j<length got. got ! j = g_inp s ! (H + j)"
      using cinv_pc(1) [OF inv, of t] that by (simp_all add: pc_ok_def Let_def)
    then show ?thesis using cs by (intro nth_equalityI) (auto simp: counters_ok_def)
  qed
  moreover have "{H..<H + unat n} \<inter> {H'..<H' + unat n'} = {}"
    if "t \<noteq> u" "c_pcs s t = CCopy n h H got" "c_pcs s u = CCopy n' h' H' got'" for t u n h H got n' h' H' got'
    using tc that unfolding tiles_def cown_def by fastforce
  moreover have "g_out s = take (length (g_out s)) (g_inp s)" using ds by (simp add: data_ok_def)
  moreover have "length (g_inp s) \<le> length (g_out s) + unat (cf_size cfg)" using cs by (simp add: counters_ok_def)
  ultimately show ?thesis by blast
qed

theorem ring_concurrent_fifo_witness:
  "\<exists>s. reach mpmc_cfg [0, 0 :: int] s \<and> g_inp s = [8, 7] \<and> length (g_inp s) \<le> length (g_out s) + unat (cf_size mpmc_cfg)"
proof -
  obtain s where s: "crun mpmc_cfg (cinit [0, 0]) sample_schedule = Some s" "g_inp s = [8, 7]"
    using sample_schedule_run by blast
  then have "reach mpmc_cfg [0, 0] s" using crun_reach [OF reach_init] by blast
  then show ?thesis using ring_concurrent_fifo [OF mpmc_cfg_ok] s(2) by blast
qed

lemma prod_spinning_helper:
  assumes ok: "cfg_ok cfg m" and inv: "cinv cfg s" and pc: "c_pcs s t = PCopy objs h H k"
  shows "\<exists>u. c_pcs s u \<noteq> Idle \<and> cstep cfg s (Next u) \<noteq> None"
proof -
  from inv have cs: "counters_ok cfg s" and tp: "tiles (\<lambda>t. pown (c_pcs s t)) {g_pt s..<length (g_inp s)}"
    by (simp_all add: cinv_def)
  have "objs \<noteq> []" using cinv_pc(1) [OF inv, of t] by (simp add: pc pc_ok_def Let_def)
  then have "H \<in> pown (c_pcs s t)" by (simp add: pc pown_def)
  then have "g_pt s \<in> {g_pt s..<length (g_inp s)}" using tiles_subset [OF tp, of t] by auto
  then obtain u where u: "g_pt s \<in> pown (c_pcs s u)" using tp unfolding tiles_def by blast
  then obtain objs' h' H' k' where pu: "c_pcs s u = PCopy objs' h' H' k'"
    by (auto simp: pown_def split: pc.splits)
  have o: "objs' \<noteq> []" "h' = of_nat H'" using cinv_pc(1) [OF inv, of u] by (simp_all add: pu pc_ok_def Let_def)
  have "H' \<in> pown (c_pcs s u)" using o by (simp add: pu pown_def)
  then have "H' = g_pt s" using u tiles_subset [OF tp, of u] by (auto simp: pu pown_def)
  then have "ht_tail (c_prod s) = h'" using cs o by (simp add: counters_ok_def)
  then have "cstep cfg s (Next u) \<noteq> None"
    using cinv_copy_prod [OF ok inv pu] by (cases "k' < length objs'") (auto simp: pu prod_copy_def)
  moreover have "c_pcs s u \<noteq> Idle" using pu by simp
  ultimately show ?thesis by blast
qed

lemma cons_spinning_helper:
  assumes ok: "cfg_ok cfg m" and inv: "cinv cfg s" and pc: "c_pcs s t = CCopy n h H got"
  shows "\<exists>u. c_pcs s u \<noteq> Idle \<and> cstep cfg s (Next u) \<noteq> None"
proof -
  from inv have cs: "counters_ok cfg s" and tc: "tiles (\<lambda>t. cown (c_pcs s t)) {length (g_out s)..<g_ch s}"
    by (simp_all add: cinv_def)
  have "0 < unat n" using cinv_pc(1) [OF inv, of t] by (simp add: pc pc_ok_def Let_def)
  then have "H \<in> cown (c_pcs s t)" by (simp add: pc cown_def)
  then have "length (g_out s) \<in> {length (g_out s)..<g_ch s}" using tiles_subset [OF tc, of t] by auto
  then obtain u where u: "length (g_out s) \<in> cown (c_pcs s u)" using tc unfolding tiles_def by blast
  then obtain n' h' H' got' where pu: "c_pcs s u = CCopy n' h' H' got'"
    by (auto simp: cown_def split: pc.splits)
  have o: "0 < unat n'" "h' = of_nat H'" using cinv_pc(1) [OF inv, of u] by (simp_all add: pu pc_ok_def Let_def)
  have "H' \<in> cown (c_pcs s u)" using o by (simp add: pu cown_def)
  then have "H' = length (g_out s)" using u tiles_subset [OF tc, of u] by (auto simp: pu cown_def)
  then have "ht_tail (c_cons s) = h'" using cs o by (simp add: counters_ok_def)
  then have "cstep cfg s (Next u) \<noteq> None"
    using cinv_copy_cons [OF ok inv pu] by (cases "length got' < unat n'") (auto simp: pu cons_copy_def)
  moreover have "c_pcs s u \<noteq> Idle" using pu by simp
  ultimately show ?thesis by blast
qed

text \<open>
  C19: no interleaving gets stuck: whenever some thread is inside a call, some thread inside a call
  can take its next step (a thread spinning in \<open>UpdateTail\<close> waits for one that can move on; a
  failed compare-and-exchange is a step too).
\<close>

theorem ring_concurrent_progress:
  assumes "cfg_ok cfg m" and "reach cfg m s" and "c_pcs s t \<noteq> Idle"
  shows "\<exists>u. c_pcs s u \<noteq> Idle \<and> cstep cfg s (Next u) \<noteq> None"
proof -
  note inv = reach_cinv [OF assms(1,2)]
  show ?thesis
  proof (cases "cstep cfg s (Next t)")
    case None
    then show ?thesis
      using assms(3) prod_spinning_helper [OF assms(1) inv, of t] cons_spinning_helper [OF assms(1) inv, of t]
      by (auto split: pc.splits)
  next
    case (Some s')
    then show ?thesis using assms(3) by blast
  qed
qed

theorem ring_concurrent_progress_witness:
  "\<exists>s u. reach mpmc_cfg [0, 0 :: int] s \<and> c_pcs s u \<noteq> Idle \<and> cstep mpmc_cfg s (Next u) \<noteq> None"
proof -
  obtain s where s: "crun mpmc_cfg (cinit [0, 0]) sample_schedule = Some s" "c_pcs s 2 \<noteq> Idle"
    using sample_schedule_run by blast
  then have "reach mpmc_cfg [0, 0] s" using crun_reach [OF reach_init] by blast
  then show ?thesis using ring_concurrent_progress [OF mpmc_cfg_ok _ s(2)] by blast
qed

section \<open>Single-consumer mode shared by two consumers\<close>

definition shared_sc_cfg :: rcfg where
  "shared_sc_cfg = \<lparr>cf_size = 2, cf_sp = True, cf_sc = True, cf_prods = (\<lambda>t. t = 0), cf_conss = (\<lambda>t. t = 1 \<or> t = 2)\<rparr>"

definition duplicating_schedule :: "int ev list" where
  "duplicating_schedule = [StartEnq 0 [7], Next 0, Next 0, Next 0, Next 0, StartDeq 1 1, StartDeq 2 1,
     Next 1, Next 2, Next 1, Next 2, Next 1, Next 2]"

text \<open>
  The default mode of \<open>DoDequeue\<close> (\<open>is_sc = true\<close>), used by two consumers at once as the object
  pool and the extent's block list do although they initialise their rings as multi-consumer, can
  hand the same element to both: one element was enqueued and both consumers have received it.
\<close>

theorem single_consumer_mode_duplicates:
  "\<exists>s. crun shared_sc_cfg (cinit [0, 0]) duplicating_schedule = Some s \<and> reach shared_sc_cfg [0, 0] s
    \<and> g_inp s = [7] \<and> (\<exists>H H'. c_pcs s 1 = CCopy 1 0 H [7] \<and> c_pcs s 2 = CCopy 1 0 H' [7])"
proof -
  obtain s where s: "crun shared_sc_cfg (cinit [0, 0]) duplicating_schedule = Some s" "g_inp s = [7]"
    "\<exists>H H'. c_pcs s 1 = CCopy 1 0 H [7] \<and> c_pcs s 2 = CCopy 1 0 H' [7]"
    by (simp add: duplicating_schedule_def shared_sc_cfg_def crun_simps)
  then show ?thesis using crun_reach [OF reach_init] by blast
qed

end
