(* ===== verification/TimeUtil.thy ===== *)
theory TimeUtil
  imports Prelude
begin

text \<open>
  \<open>common/time.h\<close> and \<open>time.cc\<close>: \<open>Time\<close> is a count of nanoseconds in a \<open>uint64_t\<close>; the conversions
  from and to \<open>timespec\<close> (two signed 64-bit fields, here words) are the ones the timed waits of the
  bounded queue use. Clock readings and the textual forms are not modelled; the constructor from a
  \<open>double\<close> is not either.
\<close>

record Time =
  nanoseconds :: u64

record timespec =
  tv_sec :: u64
  tv_nsec :: u64

definition Time_of_nanoseconds :: "u64 \<Rightarrow> Time" where
  "Time_of_nanoseconds ns = \<lparr>nanoseconds = ns\<rparr>"

definition Time_of_int :: "32 word \<Rightarrow> Time" where
  "Time_of_int ns = \<lparr>nanoseconds = scast ns\<rparr>"

definition Time_of_sec_nsec :: "u32 \<Rightarrow> u32 \<Rightarrow> Time" where
  "Time_of_sec_nsec s ns = \<lparr>nanoseconds = ucast s * 1000000000 + ucast ns\<rparr>"

definition Time_MAX :: Time where "Time_MAX = Time_of_nanoseconds (- 1)"
definition Time_MIN :: Time where "Time_MIN = Time_of_int 1"

definition NSEC_PER_SEC :: u32 where "NSEC_PER_SEC = 1000000000"

definition DurationFromTimespec :: "timespec \<Rightarrow> u64" where
  "DurationFromTimespec spec = tv_sec spec * ucast NSEC_PER_SEC + tv_nsec spec"

definition ToTimespec :: "u64 \<Rightarrow> timespec" where
  "ToTimespec ns = (let sec = ns div ucast NSEC_PER_SEC in
     \<lparr>tv_sec = sec, tv_nsec = ns - sec * ucast NSEC_PER_SEC\<rparr>)"

definition IsZero :: "Time \<Rightarrow> bool" where "IsZero t \<longleftrightarrow> nanoseconds t = 0"
definition ToNanosecond :: "Time \<Rightarrow> u64" where "ToNanosecond t = nanoseconds t"
definition Time_eq :: "Time \<Rightarrow> Time \<Rightarrow> bool" where "Time_eq a b \<longleftrightarrow> nanoseconds a = nanoseconds b"
definition Time_neq :: "Time \<Rightarrow> Time \<Rightarrow> bool" where "Time_neq a b \<longleftrightarrow> nanoseconds a \<noteq> nanoseconds b"
definition Time_gt :: "Time \<Rightarrow> Time \<Rightarrow> bool" where "Time_gt a b \<longleftrightarrow> nanoseconds a > nanoseconds b"
definition Time_lt :: "Time \<Rightarrow> Time \<Rightarrow> bool" where "Time_lt a b \<longleftrightarrow> nanoseconds a < nanoseconds b"
definition Time_ge :: "Time \<Rightarrow> Time \<Rightarrow> bool" where "Time_ge a b \<longleftrightarrow> nanoseconds a \<ge> nanoseconds b"
definition Time_le :: "Time \<Rightarrow> Time \<Rightarrow> bool" where "Time_le a b \<longleftrightarrow> nanoseconds a \<le> nanoseconds b"

lemma unat_nsec_per_sec [simp]: "unat (ucast NSEC_PER_SEC :: u64) = 1000000000"
  by (simp add: NSEC_PER_SEC_def)

lemma unat_ToTimespec:
  "unat (tv_sec (ToTimespec ns)) = unat ns div 1000000000"
  "unat (tv_nsec (ToTimespec ns)) = unat ns mod 1000000000"
  by (simp_all add: ToTimespec_def Let_def unat_div unat_mod minus_div_mult_eq_mod)

text \<open>
  \<open>ToTimespec\<close> followed by \<open>DurationFromTimespec\<close> gives back the same number of nanoseconds,
  and the nanosecond field is always below one second (so the value is a valid \<open>timespec\<close>).
\<close>

theorem timespec_roundtrip:
  "DurationFromTimespec (ToTimespec ns) = ns \<and> unat (tv_nsec (ToTimespec ns)) < 1000000000
    \<and> unat (tv_sec (ToTimespec ns)) < 2 ^ 63"
proof -
  have "DurationFromTimespec (ToTimespec ns) = ns"
    by (simp add: DurationFromTimespec_def ToTimespec_def Let_def)
  moreover have "unat ns div 1000000000 < 2 ^ 63" using unat_less_2p [of ns] by simp
  ultimately show ?thesis by (simp add: unat_ToTimespec)
qed

end
