(* ===== verification/SlotFutex.thy ===== *)
theory SlotFutex
  imports Prelude TimeUtil
begin

text \<open>
  \<open>ConcurrentBoundedQueue::SlotFutex\<close> of \<open>base/bounded_queue.h\<close> and \<open>.hpp\<close>: the 32-bit futex word of
  a slot, its low half the version of the slot, its high half a mark that someone waits.

  \<^item> The word operations, as one thread executes them, and the two waiting loops against an
    arbitrary environment (\<open>wait_obs\<close>: what the thread observes in each iteration).
  \<^item> \<open>fstep\<close>, the interleavings of waiters and of threads that advance the version by either of the
    two paths (\<open>set_version_and_wakeup_waiters\<close>, or \<open>set_version\<close> and later \<open>wakeup_waiters\<close>), with
    the kernel's \<open>FUTEX_WAIT\<close> (compare and sleep in one step) and \<open>FUTEX_WAKE\<close> on all. The result is
    that no wake-up is lost.

  \<open>Futex<S>\<close> for \<open>SchedInterface\<close> (\<open>futex_need_create() = false\<close>) is the bare word, so it needs no
  model of its own.
\<close>

section \<open>The word\<close>

definition sf_version :: "u32 \<Rightarrow> u16" where
  "sf_version w = ucast w"

text \<open>A 16-bit store to the low half (the architectures are little-endian).\<close>

definition set_version :: "u32 \<Rightarrow> u16 \<Rightarrow> u32" where
  "set_version w v = (w AND 0xFFFF0000) OR ucast v"

text \<open>The new word and whether \<open>wake_all\<close> is called; alone, the exchange succeeds.\<close>

definition wakeup_waiters :: "u32 \<Rightarrow> u16 \<Rightarrow> u32 \<times> bool" where
  "wakeup_waiters w current_version =
     (if w \<le> 0xFFFF then (w, False)
      else let version = sf_version w in
        if version \<noteq> current_version then (w, False) else (ucast version, True))"

definition set_version_and_wakeup_waiters :: "u32 \<Rightarrow> u16 \<Rightarrow> u32 \<times> bool" where
  "set_version_and_wakeup_waiters w next_version = (ucast next_version, \<not> w \<le> 0xFFFF)"

definition sf_reset :: "u32 \<Rightarrow> u32" where
  "sf_reset w = 0"

lemma ucast_u16_u32_u16 [simp]: "(ucast (ucast (v :: u16) :: u32) :: u16) = v"
  using unat_less_2p [of v] by (intro word_unat_eq_iff [THEN iffD2]) (simp only: unat_ucast_mod, simp)

lemma sf_version_ucast [simp]: "sf_version (ucast (v :: u16)) = v"
  by (simp add: sf_version_def)

lemma high_mask: "(0xFFFF0000 :: u32) = NOT (mask 16)"
  by (simp add: mask_eq_exp_minus_1)

lemma sf_version_set_version [simp]: "sf_version (set_version w v) = v"
proof (rule bit_eqI)
  fix n assume "possible_bit TYPE(16 word) n"
  then have n: "n < 16" by (simp add: possible_bit_word)
  show "bit (sf_version (set_version w v)) n = bit v n"
    unfolding sf_version_def set_version_def high_mask using n by (simp add: bit_simps)
qed

text \<open>The waiters' mark: the word is above the range of a bare version.\<close>

lemma drop_bit_16_eq_0_iff: "drop_bit 16 (w :: u32) = 0 \<longleftrightarrow> w \<le> 0xFFFF"
proof -
  have "drop_bit 16 w = 0 \<longleftrightarrow> unat w div 2 ^ 16 = 0"
    by (simp add: drop_bit_eq_div word_unat_eq_iff unat_div)
  also have "\<dots> \<longleftrightarrow> w \<le> 0xFFFF" by (auto simp: word_le_nat_alt div_eq_0_iff)
  finally show ?thesis .
qed

lemma set_version_marked [simp]: "set_version w v \<le> 0xFFFF \<longleftrightarrow> w \<le> 0xFFFF"
proof -
  have "drop_bit 16 (set_version w v) = drop_bit 16 w"
  proof (rule bit_eqI)
    fix n
    have "\<not> bit v (16 + n)" using bit_imp_le_length [of v "16 + n"] by auto
    moreover have "\<not> n < 16 \<Longrightarrow> \<not> bit w (16 + n)" using bit_imp_le_length [of w "16 + n"] by auto
    ultimately show "bit (drop_bit 16 (set_version w v)) n = bit (drop_bit 16 w) n"
      unfolding set_version_def high_mask by (auto simp: bit_simps)
  qed
  then show ?thesis by (simp flip: drop_bit_16_eq_0_iff)
qed

lemma ucast_u16_unmarked [simp]: "(ucast (v :: u16) :: u32) \<le> 0xFFFF"
  using unat_less_2p [of v] by (simp add: word_le_nat_alt unat_ucast_up)

lemma mark_word:
  assumes "(w :: u32) \<le> 0xFFFF"
  shows "\<not> w + 0x10000 \<le> 0xFFFF" and "sf_version (w + 0x10000) = sf_version w"
proof -
  have "unat (w + 0x10000) = unat w + 0x10000"
    using assms by (subst unat_add_small) (simp_all add: word_le_nat_alt)
  then show "\<not> w + 0x10000 \<le> 0xFFFF" and "sf_version (w + 0x10000) = sf_version w"
    by (simp_all add: word_le_nat_alt sf_version_def word_unat_eq_iff unsigned_ucast_eq take_bit_eq_mod)
qed

section \<open>The waiting loops\<close>

text \<open>
  What one iteration observes: the word at the compare-and-exchange, whether \<open>futex_wait\<close> reported
  \<open>ETIMEDOUT\<close>, the word at the reload, and the monotonic clock afterwards.
\<close>

record wait_obs =
  ob_cas :: u32
  ob_etimedout :: bool
  ob_load :: u32
  ob_now :: u64

datatype wait_exit = Reached | TimedOut

text \<open>\<open>block_until_reach_expected_version_slow\<close>; \<open>k\<close> counts the iterations.\<close>

partial_function (option) block_until_reach_expected_version_slow ::
  "(nat \<Rightarrow> wait_obs) \<Rightarrow> u16 \<Rightarrow> u64 \<Rightarrow> nat \<Rightarrow> u32 \<Rightarrow> timespec option \<Rightarrow> wait_exit option" where
  "block_until_reach_expected_version_slow env expected_version begin_time_ns k cur timeout =
     (let ob = env k in
      if cur \<le> 0xFFFF \<and> ob_cas ob \<noteq> cur
      then (if sf_version (ob_cas ob) = expected_version then Some Reached
            else block_until_reach_expected_version_slow env expected_version begin_time_ns (Suc k) (ob_cas ob) timeout)
      else if ob_etimedout ob then Some TimedOut
      else if sf_version (ob_load ob) = expected_version then Some Reached
      else (case timeout of
         None \<Rightarrow> block_until_reach_expected_version_slow env expected_version begin_time_ns (Suc k) (ob_load ob) None
       | Some t \<Rightarrow>
           (let wait_duration = DurationFromTimespec t - (ob_now ob - begin_time_ns) in
            if sint wait_duration \<le> 0 then Some TimedOut
            else block_until_reach_expected_version_slow env expected_version begin_time_ns (Suc k) (ob_load ob)
                   (Some (ToTimespec wait_duration)))))"

text \<open>\<open>spin_until_reach_expected_version_slow\<close>\<close>

partial_function (option) spin_until_reach_expected_version_slow ::
  "(nat \<Rightarrow> wait_obs) \<Rightarrow> u16 \<Rightarrow> u64 \<Rightarrow> nat \<Rightarrow> timespec option \<Rightarrow> wait_exit option" where
  "spin_until_reach_expected_version_slow env expected_version begin_time_ns k timeout =
     (let ob = env k;
          end_time_ns = begin_time_ns + (case timeout of None \<Rightarrow> 0 | Some t \<Rightarrow> DurationFromTimespec t) in
      if sf_version (ob_load ob) = expected_version then Some Reached
      else if timeout \<noteq> None \<and> sint (ob_now ob) > sint end_time_ns then Some TimedOut
      else spin_until_reach_expected_version_slow env expected_version begin_time_ns (Suc k) timeout)"

definition wait_until_reach_expected_version ::
  "bool \<Rightarrow> (nat \<Rightarrow> wait_obs) \<Rightarrow> u32 \<Rightarrow> u64 \<Rightarrow> u16 \<Rightarrow> timespec option \<Rightarrow> wait_exit option" where
  "wait_until_reach_expected_version use_futex_wait env w now expected_version timeout =
     (if sf_version w = expected_version then Some Reached
      else let begin_time_ns = (if timeout \<noteq> None then now else 0) in
        if use_futex_wait
        then block_until_reach_expected_version_slow env expected_version begin_time_ns 0 w timeout
        else spin_until_reach_expected_version_slow env expected_version begin_time_ns 0 timeout)"

text \<open>
  The words an untimed waiter reads, in order: the word it starts with, then one word per
  iteration, the one its failed compare-and-exchange reports or the one it reloads.
\<close>

primrec word_read :: "bool \<Rightarrow> (nat \<Rightarrow> wait_obs) \<Rightarrow> u32 \<Rightarrow> nat \<Rightarrow> u32" where
  "word_read fw env w 0 = w"
| "word_read fw env w (Suc k) =
     (if fw \<and> word_read fw env w k \<le> 0xFFFF \<and> ob_cas (env k) \<noteq> word_read fw env w k
      then ob_cas (env k) else ob_load (env k))"

definition wait_from :: "bool \<Rightarrow> (nat \<Rightarrow> wait_obs) \<Rightarrow> u32 \<Rightarrow> u16 \<Rightarrow> nat \<Rightarrow> wait_exit option" where
  "wait_from fw env w v k =
     (if fw then block_until_reach_expected_version_slow env v 0 k (word_read fw env w k) None
      else spin_until_reach_expected_version_slow env v 0 k None)"

lemma wait_untimed_start:
  "wait_until_reach_expected_version fw env w now v None =
     (if sf_version w = v then Some Reached else wait_from fw env w v 0)"
  by (simp add: wait_until_reach_expected_version_def wait_from_def)

lemma wait_from_step:
  assumes "\<not> ob_etimedout (env k)"
  shows "wait_from fw env w v k =
    (if sf_version (word_read fw env w (Suc k)) = v then Some Reached else wait_from fw env w v (Suc k))"
proof (cases fw)
  case True
  then show ?thesis
    using assms unfolding wait_from_def
    by (subst block_until_reach_expected_version_slow.simps) (simp add: Let_def)
next
  case False
  then show ?thesis
    unfolding wait_from_def by (subst spin_until_reach_expected_version_slow.simps) (simp add: Let_def)
qed

lemma wait_from_first_hit:
  assumes "\<forall>j<Suc (k + d). k < j \<longrightarrow> sf_version (word_read fw env w j) \<noteq> v"
    and "sf_version (word_read fw env w (Suc (k + d))) = v" and "\<forall>i<Suc (k + d). \<not> ob_etimedout (env i)"
  shows "wait_from fw env w v k = Some Reached"
  using assms
proof (induction d arbitrary: k)
  case 0
  then show ?case by (simp add: wait_from_step del: word_read.simps)
next
  case (Suc d)
  have "wait_from fw env w v (Suc k) = Some Reached"
    using Suc.prems by (intro Suc.IH) (simp_all del: word_read.simps)
  moreover have "sf_version (word_read fw env w (Suc k)) \<noteq> v"
    using Suc.prems(1) by (simp del: word_read.simps)
  ultimately show ?case using Suc.prems(3) by (simp add: wait_from_step del: word_read.simps)
qed

text \<open>A loop that ends without a time-out has read the expected version.\<close>

lemma block_untimed_read:
  assumes "block_until_reach_expected_version_slow env v b k cur t = Some e"
  shows "t = None \<Longrightarrow> \<forall>i. \<not> ob_etimedout (env i) \<Longrightarrow> cur = word_read True env w k \<Longrightarrow>
    \<exists>i. sf_version (word_read True env w i) = v"
proof (induction rule: block_until_reach_expected_version_slow.raw_induct [OF _ assms, consumes 0])
  case (1 f env v b k cur t e)
  have rec: "f env v b (Suc k) (word_read True env w (Suc k)) None = Some e \<Longrightarrow>
      \<exists>i. sf_version (word_read True env w i) = v"
    using 1(1) [of env v b "Suc k" _ None e] 1(4) by blast
  show ?case
    using 1(2-5) rec exI [of "\<lambda>i. sf_version (word_read True env w i) = v" "Suc k"]
    by (simp add: Let_def split: if_splits)
qed

lemma spin_untimed_read:
  assumes "spin_until_reach_expected_version_slow env v b k t = Some e"
  shows "t = None \<Longrightarrow> \<exists>i. sf_version (word_read False env w i) = v"
proof (induction rule: spin_until_reach_expected_version_slow.raw_induct [OF _ assms, consumes 0])
  case (1 f env v b k t e)
  have rec: "f env v b (Suc k) None = Some e \<Longrightarrow> \<exists>i. sf_version (word_read False env w i) = v"
    using 1(1) [of env v b "Suc k" None e] by blast
  show ?case
    using 1(2,3) rec exI [of "\<lambda>i. sf_version (word_read False env w i) = v" "Suc k"]
    by (simp add: Let_def split: if_splits)
qed

lemma wait_from_stuck:
  assumes "\<forall>i. sf_version (word_read fw env w i) \<noteq> v" and "\<forall>i. \<not> ob_etimedout (env i)"
  shows "wait_from fw env w v k = None"
proof (rule ccontr)
  assume "wait_from fw env w v k \<noteq> None"
  then obtain e where "wait_from fw env w v k = Some e" by blast
  then show False
    using assms block_untimed_read [of env v 0 k "word_read fw env w k" None e w]
      spin_untimed_read [of env v 0 k None e w]
    by (cases fw) (auto simp: wait_from_def)
qed

text \<open>
  C23: an untimed wait (with either loop) returns at the first word it reads that carries the
  expected version, whatever the word does afterwards, provided the kernel reported no time-out
  before; and it never returns if no word it reads carries that version. The first word is the one
  the caller loads, then there is one per iteration (\<open>word_read\<close>).
\<close>

theorem untimed_wait_correct:
  "(\<forall>k. (\<forall>j<k. sf_version (word_read fw env w j) \<noteq> v) \<and> sf_version (word_read fw env w k) = v
        \<and> (\<forall>i<k. \<not> ob_etimedout (env i)) \<longrightarrow>
      wait_until_reach_expected_version fw env w now v None = Some Reached)
    \<and> ((\<forall>k. sf_version (word_read fw env w k) \<noteq> v) \<and> (\<forall>i. \<not> ob_etimedout (env i)) \<longrightarrow>
      wait_until_reach_expected_version fw env w now v None = None)"
proof (intro conjI allI impI)
  fix k
  assume k: "(\<forall>j<k. sf_version (word_read fw env w j) \<noteq> v) \<and> sf_version (word_read fw env w k) = v
    \<and> (\<forall>i<k. \<not> ob_etimedout (env i))"
  show "wait_until_reach_expected_version fw env w now v None = Some Reached"
  proof (cases k)
    case 0
    then show ?thesis using k by (simp add: wait_untimed_start)
  next
    case (Suc d)
    then show ?thesis using k wait_from_first_hit [of 0 d fw env w v] by (simp add: wait_untimed_start del: word_read.simps)
  qed
next
  assume "(\<forall>k. sf_version (word_read fw env w k) \<noteq> v) \<and> (\<forall>i. \<not> ob_etimedout (env i))"
  then show "wait_until_reach_expected_version fw env w now v None = None"
    using wait_from_stuck [of fw env w v 0] word_read.simps(1) [of fw env w]
    by (metis wait_untimed_start)
qed

text \<open>
  The exchange of the first iteration finds 2; the one of the second succeeds, and the reload after
  it finds version 1, marked; from then on the word is 3 and the kernel times out: the wait for 1
  has returned. A wait for 4 that keeps reading 2 and 3 does not return.
\<close>

definition passing_version :: "nat \<Rightarrow> wait_obs" where
  "passing_version i =
     (if i < 2 then \<lparr>ob_cas = 2, ob_etimedout = False, ob_load = 0x10001, ob_now = 0\<rparr>
      else \<lparr>ob_cas = 3, ob_etimedout = True, ob_load = 3, ob_now = 0\<rparr>)"

definition other_versions :: "nat \<Rightarrow> wait_obs" where
  "other_versions i = \<lparr>ob_cas = 2, ob_etimedout = False, ob_load = 3, ob_now = 0\<rparr>"

theorem untimed_wait_correct_witness:
  "wait_until_reach_expected_version True passing_version 0 0 1 None = Some Reached
   \<and> wait_until_reach_expected_version True other_versions 0 0 4 None = None"
proof
  have "sf_version (word_read True passing_version 0 j) \<noteq> 1" if "j < 2" for j
    using that by (auto simp: less_2_cases_iff passing_version_def sf_version_def)
  moreover have "sf_version (word_read True passing_version 0 2) = 1"
    unfolding Suc_1 [symmetric] One_nat_def word_read.simps by (simp add: passing_version_def sf_version_def)
  moreover have "\<forall>i<2. \<not> ob_etimedout (passing_version i)" by (simp add: passing_version_def)
  ultimately show "wait_until_reach_expected_version True passing_version 0 0 1 None = Some Reached"
    using untimed_wait_correct [of True passing_version 0 1 0] by blast
  have "word_read True other_versions 0 k \<in> {0, 2, 3}" for k
    by (induction k) (auto simp: other_versions_def)
  then have "sf_version (word_read True other_versions 0 k) \<in> sf_version ` {0, 2, 3}" for k by blast
  moreover have "4 \<notin> sf_version ` {0, 2, 3}" by (simp add: sf_version_def)
  ultimately have "sf_version (word_read True other_versions 0 k) \<noteq> 4" for k by metis
  then show "wait_until_reach_expected_version True other_versions 0 0 4 None = None"
    using untimed_wait_correct [of True other_versions 0 4 0] by (simp add: other_versions_def)
qed

text \<open>
  The timed wait refreshes its remaining time without moving \<open>begin_time_ns\<close>, so the time before
  an earlier wake-up is subtracted again: a wait of 100 ns that is woken at 40 ns and at 70 ns by
  other versions gives up at 70 ns, although the kernel never reported a time-out.
\<close>

theorem timed_wait_gives_up_early:
  "\<exists>env. (\<forall>i. \<not> ob_etimedout (env i) \<and> unat (ob_now (env i)) \<le> 70)
    \<and> wait_until_reach_expected_version True env 0x10002 0 5 (Some \<lparr>tv_sec = 0, tv_nsec = 100\<rparr>) = Some TimedOut"
proof (intro exI conjI)
  let ?env = "\<lambda>i::nat. \<lparr>ob_cas = 0x10003, ob_etimedout = False, ob_load = 0x10003,
    ob_now = (if i = 0 then 40 else 70)\<rparr>"
  show "\<forall>i. \<not> ob_etimedout (?env i) \<and> unat (ob_now (?env i)) \<le> 70" by simp
  have 1: "block_until_reach_expected_version_slow ?env 5 0 (Suc 0) 0x10003 (Some (ToTimespec 60)) = Some TimedOut"
    by (subst block_until_reach_expected_version_slow.simps)
      (simp add: Let_def sf_version_def ToTimespec_def DurationFromTimespec_def NSEC_PER_SEC_def)
  show "wait_until_reach_expected_version True ?env 0x10002 0 5 (Some \<lparr>tv_sec = 0, tv_nsec = 100\<rparr>) = Some TimedOut"
    unfolding wait_until_reach_expected_version_def
    by (subst block_until_reach_expected_version_slow.simps)
      (simp add: Let_def sf_version_def DurationFromTimespec_def NSEC_PER_SEC_def 1)
qed

section \<open>Waiters and wakers\<close>

text \<open>
  Where a thread is with respect to one slot's futex.

  \<^item> \<open>WTest e cur\<close>: it holds the read word \<open>cur\<close>, whose version is not the expected \<open>e\<close>;
  \<^item> \<open>WSleepCall e v\<close>: it is about to call \<open>futex_wait\<close> with the marked word \<open>v\<close>;
  \<^item> \<open>Asleep e v\<close>: the kernel found the word equal to \<open>v\<close> and put it to sleep;
  \<^item> \<open>WReload e\<close>: it returned from the kernel;
  \<^item> \<open>SCheck v\<close>, \<open>SCas v w\<close>: it stored version \<open>v\<close> and is in \<open>wakeup_waiters(v)\<close>, before the load, and
    before the exchange;
  \<^item> \<open>SWake\<close>: it is about to call \<open>wake_all\<close>.
\<close>

datatype fpc = FIdle | WTest u16 u32 | WSleepCall u16 u32 | Asleep u16 u32 | WReload u16
  | SCheck u16 | SCas u16 u32 | SWake

record fstate =
  f_word :: u32
  f_pcs :: "nat \<Rightarrow> fpc"

datatype fev =
    FWait nat u16        \<comment> \<open>start \<open>wait_until_reach_expected_version\<close>\<close>
  | FExchange nat u16    \<comment> \<open>\<open>set_version_and_wakeup_waiters\<close>: the exchange\<close>
  | FStore nat u16       \<comment> \<open>\<open>set_version\<close>, to be followed by \<open>wakeup_waiters\<close>\<close>
  | FNext nat            \<comment> \<open>next step of a thread\<close>
  | FSpurious nat        \<comment> \<open>the kernel lets a sleeper go without a wake-up\<close>

definition f_set :: "nat \<Rightarrow> fpc \<Rightarrow> fstate \<Rightarrow> fstate" where
  "f_set t p s = s\<lparr>f_pcs := (f_pcs s)(t := p)\<rparr>"

text \<open>A word has been read: done, or go on waiting.\<close>

definition f_read :: "nat \<Rightarrow> u16 \<Rightarrow> fstate \<Rightarrow> fstate" where
  "f_read t e s = f_set t (if sf_version (f_word s) = e then FIdle else WTest e (f_word s)) s"

definition wake_all_pc :: "fpc \<Rightarrow> fpc" where
  "wake_all_pc p = (case p of Asleep e v \<Rightarrow> WReload e | _ \<Rightarrow> p)"

fun fstep :: "fstate \<Rightarrow> fev \<Rightarrow> fstate option" where
  "fstep s (FWait t e) = (if f_pcs s t = FIdle then Some (f_read t e s) else None)"
| "fstep s (FExchange t v) =
     (if f_pcs s t = FIdle
      then Some (f_set t (if f_word s \<le> 0xFFFF then FIdle else SWake) (s\<lparr>f_word := ucast v\<rparr>)) else None)"
| "fstep s (FStore t v) =
     (if f_pcs s t = FIdle then Some (f_set t (SCheck v) (s\<lparr>f_word := set_version (f_word s) v\<rparr>)) else None)"
| "fstep s (FSpurious t) = (case f_pcs s t of Asleep e v \<Rightarrow> Some (f_set t (WReload e) s) | _ \<Rightarrow> None)"
| "fstep s (FNext t) =
     (case f_pcs s t of
        FIdle \<Rightarrow> None
      | Asleep e v \<Rightarrow> None
      | WTest e cur \<Rightarrow>
          Some (if cur \<le> 0xFFFF
                then if f_word s = cur then f_set t (WSleepCall e (cur + 0x10000)) (s\<lparr>f_word := cur + 0x10000\<rparr>)
                     else f_read t e s
                else f_set t (WSleepCall e cur) s)
      | WSleepCall e v \<Rightarrow> Some (f_set t (if f_word s = v then Asleep e v else WReload e) s)
      | WReload e \<Rightarrow> Some (f_read t e s)
      | SCheck v \<Rightarrow>
          Some (f_set t (if f_word s \<le> 0xFFFF \<or> sf_version (f_word s) \<noteq> v then FIdle else SCas v (f_word s)) s)
      | SCas v w \<Rightarrow>
          Some (if f_word s = w then f_set t SWake (s\<lparr>f_word := ucast v\<rparr>) else f_set t FIdle s)
      | SWake \<Rightarrow> Some (f_set t FIdle (s\<lparr>f_pcs := (\<lambda>u. wake_all_pc (f_pcs s u))\<rparr>)))"

inductive freach :: "fstate \<Rightarrow> bool" where
  freach_init: "freach \<lparr>f_word = w, f_pcs = (\<lambda>_. FIdle)\<rparr>"
| freach_step: "freach s \<Longrightarrow> fstep s e = Some s' \<Longrightarrow> freach s'"

text \<open>Some thread is committed to waking everyone, given the current word.\<close>

definition waker :: "u32 \<Rightarrow> fpc \<Rightarrow> bool" where
  "waker w p = (case p of
     SWake \<Rightarrow> True
   | SCheck v \<Rightarrow> sf_version w = v \<and> \<not> w \<le> 0xFFFF
   | SCas v w' \<Rightarrow> w' = w \<and> \<not> w \<le> 0xFFFF
   | _ \<Rightarrow> False)"

definition sound_sleep :: "fstate \<Rightarrow> u32 \<Rightarrow> bool" where
  "sound_sleep s v \<longleftrightarrow> (sf_version (f_word s) = sf_version v \<and> \<not> f_word s \<le> 0xFFFF) \<or>
     (\<exists>u. waker (f_word s) (f_pcs s u))"

definition fpc_ok :: "fstate \<Rightarrow> fpc \<Rightarrow> bool" where
  "fpc_ok s p = (case p of
     WTest e cur \<Rightarrow> sf_version cur \<noteq> e
   | WSleepCall e v \<Rightarrow> sf_version v \<noteq> e \<and> \<not> v \<le> 0xFFFF
   | Asleep e v \<Rightarrow> sf_version v \<noteq> e \<and> \<not> v \<le> 0xFFFF \<and> sound_sleep s v
   | SCas v w \<Rightarrow> sf_version w = v
   | _ \<Rightarrow> True)"

definition finv :: "fstate \<Rightarrow> bool" where
  "finv s \<longleftrightarrow> (\<forall>t. fpc_ok s (f_pcs s t))"

lemma f_set_simps [simp]:
  "f_word (f_set t p s) = f_word s" "f_pcs (f_set t p s) = (f_pcs s)(t := p)"
  by (simp_all add: f_set_def)

lemma waker_unmarked: "w \<le> 0xFFFF \<Longrightarrow> waker w p \<longleftrightarrow> p = SWake"
  by (cases p) (auto simp: waker_def)

lemma sound_sleep_unmarked: "f_word s \<le> 0xFFFF \<Longrightarrow> sound_sleep s v \<longleftrightarrow> (\<exists>u. f_pcs s u = SWake)"
  by (simp add: sound_sleep_def waker_unmarked)

lemma sound_sleep_waker: "waker (f_word s) (f_pcs s u) \<Longrightarrow> sound_sleep s v"
  unfolding sound_sleep_def by blast

lemma sound_sleep_wake: "f_pcs s u = SWake \<Longrightarrow> sound_sleep s v"
  by (rule sound_sleep_waker [of s u]) (simp add: waker_def)

lemma finv_update:
  assumes "finv s" and "f_pcs s' = (f_pcs s)(t := p)" and "fpc_ok s' p"
    and "\<And>v. sound_sleep s v \<Longrightarrow> sound_sleep s' v"
  shows "finv s'"
  using assms unfolding finv_def fpc_ok_def by (auto split: fpc.splits)

text \<open>A step that leaves the word alone and does not drop a committed waker.\<close>

lemma finv_move:
  assumes "finv s" and "fpc_ok (f_set t p s) p" and "waker (f_word s) (f_pcs s t) \<Longrightarrow> waker (f_word s) p"
  shows "finv (f_set t p s)"
proof (rule finv_update [OF assms(1), of _ t p])
  fix v assume "sound_sleep s v"
  moreover have "waker (f_word s) (f_pcs s u) \<Longrightarrow> sound_sleep (f_set t p s) v" for u
    using assms(3) by (intro sound_sleep_waker [of _ u]) auto
  moreover have "sf_version (f_word s) = sf_version v \<and> \<not> f_word s \<le> 0xFFFF \<Longrightarrow> sound_sleep (f_set t p s) v"
    by (simp add: sound_sleep_def)
  ultimately show "sound_sleep (f_set t p s) v"
    unfolding sound_sleep_def [of s] by blast
qed (use assms(2) in simp_all)

lemma finv_read:
  assumes "finv s" and "\<not> waker (f_word s) (f_pcs s t)"
  shows "finv (f_read t e s)"
  unfolding f_read_def using assms by (intro finv_move) (auto simp: fpc_ok_def)

lemma finv_exchange:
  assumes inv: "finv s" and pc: "f_pcs s t = FIdle"
  shows "finv (f_set t (if f_word s \<le> 0xFFFF then FIdle else SWake) (s\<lparr>f_word := ucast (v :: u16)\<rparr>))" (is "finv ?s")
proof (rule finv_update [OF inv, of _ t "if f_word s \<le> 0xFFFF then FIdle else SWake"])
  fix x assume x: "sound_sleep s x"
  show "sound_sleep ?s x"
  proof (cases "f_word s \<le> 0xFFFF")
    case True
    then obtain u where "f_pcs s u = SWake" using x by (auto simp: sound_sleep_unmarked)
    moreover have "u \<noteq> t" using calculation pc by auto
    ultimately show ?thesis by (intro sound_sleep_wake [of _ u]) simp
  next
    case False
    then show ?thesis by (intro sound_sleep_wake [of _ t]) simp
  qed
qed (simp_all add: fpc_ok_def)

lemma finv_store:
  assumes inv: "finv s" and pc: "f_pcs s t = FIdle"
  shows "finv (f_set t (SCheck v) (s\<lparr>f_word := set_version (f_word s) v\<rparr>))" (is "finv ?s")
proof (rule finv_update [OF inv, of _ t "SCheck v"])
  fix x assume x: "sound_sleep s x"
  show "sound_sleep ?s x"
  proof (cases "f_word s \<le> 0xFFFF")
    case True
    then obtain u where "f_pcs s u = SWake" using x by (auto simp: sound_sleep_unmarked)
    moreover have "u \<noteq> t" using calculation pc by auto
    ultimately show ?thesis by (intro sound_sleep_wake [of _ u]) simp
  next
    case False
    then have "waker (f_word ?s) (f_pcs ?s t)" by (simp add: waker_def)
    then show ?thesis by (rule sound_sleep_waker)
  qed
qed (simp_all add: fpc_ok_def)

lemma finv_mark:
  assumes inv: "finv s" and pc: "f_pcs s t = WTest e cur" and cur: "cur \<le> 0xFFFF" "f_word s = cur"
  shows "finv (f_set t (WSleepCall e (cur + 0x10000)) (s\<lparr>f_word := cur + 0x10000\<rparr>))" (is "finv ?s")
proof (rule finv_update [OF inv, of _ t "WSleepCall e (cur + 0x10000)"])
  have "fpc_ok s (WTest e cur)" using inv unfolding finv_def pc [symmetric] by simp
  then have "sf_version cur \<noteq> e" by (simp add: fpc_ok_def)
  then show "fpc_ok ?s (WSleepCall e (cur + 0x10000))" using mark_word [OF cur(1)] by (simp add: fpc_ok_def)
  fix x assume "sound_sleep s x"
  then obtain u where "f_pcs s u = SWake" using cur by (auto simp: sound_sleep_unmarked)
  moreover have "u \<noteq> t" using calculation pc by auto
  ultimately show "sound_sleep ?s x" by (intro sound_sleep_wake [of _ u]) simp
qed simp

lemma finv_next:
  assumes inv: "finv s" and st: "fstep s (FNext t) = Some s'"
  shows "finv s'"
proof -
  have ok: "fpc_ok s (f_pcs s t)" using inv by (simp add: finv_def)
  show ?thesis
  proof (cases "f_pcs s t")
    case (WTest e cur)
    then show ?thesis
      using st ok finv_mark [OF inv WTest] finv_read [OF inv, of t e] finv_move [OF inv, of t "WSleepCall e cur"]
      by (auto simp: fpc_ok_def waker_def split: if_splits)
  next
    case (WSleepCall e v)
    have "finv (f_set t (if f_word s = v then Asleep e v else WReload e) s)"
      using ok WSleepCall by (intro finv_move [OF inv]) (auto simp: fpc_ok_def waker_def sound_sleep_def)
    then show ?thesis using st WSleepCall by simp
  next
    case (WReload e)
    then show ?thesis using st finv_read [OF inv, of t e] by (simp add: waker_def)
  next
    case (SCheck v)
    have "finv (f_set t (if f_word s \<le> 0xFFFF \<or> sf_version (f_word s) \<noteq> v then FIdle else SCas v (f_word s)) s)"
      using SCheck by (intro finv_move [OF inv]) (auto simp: fpc_ok_def waker_def)
    then show ?thesis using st SCheck by simp
  next
    case (SCas v w)
    have "finv (f_set t SWake (s\<lparr>f_word := ucast v\<rparr>))"
      by (rule finv_update [OF inv, of _ t SWake]) (simp_all add: fpc_ok_def sound_sleep_wake [of _ t])
    moreover have "f_word s \<noteq> w \<Longrightarrow> finv (f_set t FIdle s)"
      using SCas by (intro finv_move [OF inv]) (auto simp: fpc_ok_def waker_def)
    ultimately show ?thesis using st SCas by (auto split: if_splits)
  next
    case SWake
    have "fpc_ok s'' (wake_all_pc (f_pcs s u))" for s'' u
      using inv unfolding finv_def fpc_ok_def wake_all_pc_def
      by (auto split: fpc.splits dest: spec [of _ u])
    then show ?thesis using st SWake by (auto simp: finv_def fpc_ok_def [of _ FIdle])
  qed (use st in simp_all)
qed

lemma freach_finv: "freach s \<Longrightarrow> finv s"
proof (induction rule: freach.induct)
  case (freach_init w)
  then show ?case by (simp add: finv_def fpc_ok_def)
next
  case (freach_step s e s')
  show ?case
  proof (cases e)
    case (FWait t v)
    then show ?thesis using freach_step finv_read [of s t v] by (auto simp: waker_def split: if_splits)
  next
    case (FExchange t v)
    then show ?thesis using freach_step finv_exchange [of s t v] by (auto split: if_splits)
  next
    case (FStore t v)
    then show ?thesis using freach_step finv_store [of s t v] by (auto split: if_splits)
  next
    case (FNext t)
    then show ?thesis using freach_step finv_next by blast
  next
    case (FSpurious t)
    have "f_pcs s t = Asleep e v \<Longrightarrow> finv (f_set t (WReload e) s)" for e v
      using freach_step by (intro finv_move) (auto simp: fpc_ok_def waker_def)
    then show ?thesis using freach_step FSpurious by (auto split: fpc.splits)
  qed
qed

fun frun :: "fstate \<Rightarrow> fev list \<Rightarrow> fstate option" where
  "frun s [] = Some s"
| "frun s (e # es) = do { s \<leftarrow> fstep s e; frun s es }"

lemma frun_freach: "freach s \<Longrightarrow> frun s es = Some s' \<Longrightarrow> freach s'"
  by (induction es arbitrary: s) (auto split: bind_splits intro: freach_step)

text \<open>A committed waker wakes a sleeper in at most three steps of its own.\<close>

lemma wake_step:
  assumes "f_pcs s u = SWake" and "f_pcs s t = Asleep e v"
  shows "\<exists>s'. frun s [FNext u] = Some s' \<and> f_pcs s' t = WReload e"
  using assms by (auto simp: wake_all_pc_def)

lemma cas_step:
  assumes "f_pcs s u = SCas v' (f_word s)" and "f_pcs s t = Asleep e v"
  shows "\<exists>s'. frun s [FNext u, FNext u] = Some s' \<and> f_pcs s' t = WReload e"
proof -
  let ?s = "f_set u SWake (s\<lparr>f_word := ucast v'\<rparr>)"
  have "t \<noteq> u" using assms by auto
  then have "\<exists>s'. frun ?s [FNext u] = Some s' \<and> f_pcs s' t = WReload e"
    using assms by (intro wake_step [where v = v]) (simp_all add: f_set_def)
  then show ?thesis using assms(1) by simp
qed

lemma waker_wakes:
  assumes "waker (f_word s) (f_pcs s u)" and "f_pcs s t = Asleep e v"
  shows "\<exists>n\<le>3. \<exists>s'. frun s (replicate n (FNext u)) = Some s' \<and> f_pcs s' t = WReload e"
proof (cases "f_pcs s u")
  case SWake
  then show ?thesis using wake_step [OF SWake assms(2)] by (intro exI [of _ 1]) simp
next
  case (SCas v' w)
  then have "f_pcs s u = SCas v' (f_word s)" using assms(1) by (simp add: waker_def)
  from cas_step [OF this assms(2)] show ?thesis by (intro exI [of _ 2]) (simp add: numeral_2_eq_2)
next
  case (SCheck v')
  let ?s = "f_set u (SCas v' (f_word s)) s"
  have "t \<noteq> u" using assms SCheck by auto
  then have "\<exists>s'. frun ?s [FNext u, FNext u] = Some s' \<and> f_pcs s' t = WReload e"
    using assms by (intro cas_step [where v = v and v' = v']) (simp_all add: f_set_def)
  moreover have "fstep s (FNext u) = Some ?s"
    using assms(1) SCheck by (simp add: waker_def)
  moreover have "replicate 3 (FNext u) = [FNext u, FNext u, FNext u]" by (simp add: numeral_3_eq_3)
  ultimately show ?thesis by (intro exI [of _ 3]) simp
qed (use assms in \<open>simp_all add: waker_def\<close>)

text \<open>
  C4: no wake-up is lost. In every interleaving, if a thread sleeps in the kernel waiting for a
  version that the slot has already reached, then another thread is still inside the call that
  advanced the version and is committed to waking all sleepers: at most three of its own steps
  later the sleeper is awake.
\<close>

theorem no_lost_wakeup:
  assumes "freach s" and "f_pcs s t = Asleep e v" and "sf_version (f_word s) = e"
  shows "\<exists>u n s'. n \<le> 3 \<and> waker (f_word s) (f_pcs s u) \<and> frun s (replicate n (FNext u)) = Some s'
    \<and> f_pcs s' t = WReload e"
proof -
  have "fpc_ok s (f_pcs s t)" using freach_finv [OF assms(1)] by (simp add: finv_def)
  then have "sf_version v \<noteq> e" "sound_sleep s v" by (simp_all add: fpc_ok_def assms(2))
  then obtain u where u: "waker (f_word s) (f_pcs s u)" using assms(3) by (auto simp: sound_sleep_def)
  from waker_wakes [OF u assms(2)] u show ?thesis by blast
qed

definition sleeping_past_schedule :: "fev list" where
  "sleeping_past_schedule = [FWait 0 1, FNext 0, FNext 0, FStore 1 1]"

theorem no_lost_wakeup_witness:
  "\<exists>s u n s'. frun \<lparr>f_word = 0, f_pcs = (\<lambda>_. FIdle)\<rparr> sleeping_past_schedule = Some s
    \<and> f_pcs s 0 = Asleep 1 0x10000 \<and> frun s (replicate n (FNext u)) = Some s' \<and> f_pcs s' 0 = WReload 1"
proof -
  have z: "sf_version 0 = 0" by (simp add: sf_version_def)
  obtain s where s: "frun \<lparr>f_word = 0, f_pcs = (\<lambda>_. FIdle)\<rparr> sleeping_past_schedule = Some s"
    "f_pcs s 0 = Asleep 1 0x10000" "sf_version (f_word s) = 1"
    by (simp add: sleeping_past_schedule_def f_set_def f_read_def z)
  then show ?thesis
    using no_lost_wakeup [OF frun_freach [OF freach_init s(1)] s(2,3)] by blast
qed

end
