(* ===== verification/BoundedQueue.thy ===== *)
theory BoundedQueue
  imports SlotFutex RingCommon
begin

text \<open>
  \<open>ConcurrentBoundedQueue<T>\<close> of \<open>base/bounded_queue.h\<close> and \<open>.hpp\<close> as one thread executes it: the slot
  vector, the two ticket counters, the versions, and every push, pop, try and batch operation, with
  \<open>clear\<close>, \<open>reserve_and_clear\<close> and \<open>swap\<close>. (\<open>SlotFutex\<close> has the interleavings of the waiting protocol.)

  \<^item> A callback is a function of the slot's value (or of the range's values) and of the data \<open>'c\<close> it
    captures; \<open>push(value)\<close> and \<open>pop(value)\<close> are instances.
  \<^item> A wait for a version that the slot does not have never returns when nothing else runs: \<open>None\<close>.
  \<^item> \<open>bq_wakes\<close> counts the calls of \<open>wake_all\<close>.
  \<^item> \<open>Iterator\<close> is the position in the slot array; the operators are arithmetic on it.

  \<open>bq_inv q\<close> with \<open>bq_contents q\<close> is the abstraction to a FIFO list of at most \<open>capacity()\<close> elements.
\<close>

section \<open>Data\<close>

record 'a slot =
  slot_value :: 'a
  slot_futex :: u32

record 'a slot_vector =
  sv_slots :: "'a slot list"
  sv_size :: u64
  sv_use_outer_buffer :: bool

record 'a bounded_queue =
  bq_slots :: "'a slot_vector"
  bq_slot_mask :: u64
  bq_slot_bits :: u64
  bq_next_push_index :: u64
  bq_next_pop_index :: u64
  bq_wakes :: nat

definition new_slot :: "'a \<Rightarrow> 'a slot" where
  "new_slot d = \<lparr>slot_value = d, slot_futex = 0\<rparr>"

subsection \<open>SlotVector\<close>

definition SlotVector_new :: "'a slot_vector" where
  "SlotVector_new = \<lparr>sv_slots = [], sv_size = 0, sv_use_outer_buffer = False\<rparr>"

definition SlotVector_sized :: "'a \<Rightarrow> u64 \<Rightarrow> 'a slot_vector" where
  "SlotVector_sized d n =
     \<lparr>sv_slots = replicate (unat n) (new_slot d), sv_size = n, sv_use_outer_buffer = False\<rparr>"

text \<open>Over a given buffer: the slots are constructed in place, which must not pass its end.\<close>

definition SlotVector_placed :: "'a \<Rightarrow> 'a slot list \<Rightarrow> u64 \<Rightarrow> 'a slot_vector option" where
  "SlotVector_placed d buffer n =
     (if unat n \<le> length buffer
      then Some \<lparr>sv_slots = replicate (unat n) (new_slot d) @ drop (unat n) buffer, sv_size = n,
                 sv_use_outer_buffer = True\<rparr>
      else None)"

text \<open>Destruction returns the memory it frees.\<close>

definition SlotVector_destroy :: "'a slot_vector \<Rightarrow> 'a slot list option" where
  "SlotVector_destroy v = (if sv_use_outer_buffer v then None else Some (sv_slots v))"

definition SlotVector_resize :: "'a \<Rightarrow> 'a slot_vector \<Rightarrow> u64 \<Rightarrow> 'a slot_vector" where
  "SlotVector_resize d v n = SlotVector_sized d n"

definition SlotVector_resize_placed :: "'a \<Rightarrow> 'a slot_vector \<Rightarrow> 'a slot list \<Rightarrow> u64 \<Rightarrow> 'a slot_vector option" where
  "SlotVector_resize_placed d v buffer n = SlotVector_placed d buffer n"

text \<open>\<open>swap\<close> exchanges the slots and the size, and leaves \<open>use_outer_buffer_\<close> where it is.\<close>

definition SlotVector_swap :: "'a slot_vector \<Rightarrow> 'a slot_vector \<Rightarrow> 'a slot_vector \<times> 'a slot_vector" where
  "SlotVector_swap a b =
     (a\<lparr>sv_slots := sv_slots b, sv_size := sv_size b\<rparr>, b\<lparr>sv_slots := sv_slots a, sv_size := sv_size a\<rparr>)"

text \<open>
  \<open>std::swap\<close> of two slot vectors: a move construction and two move assignments, each a \<open>swap\<close>.
\<close>

definition SlotVector_std_swap :: "'a slot_vector \<Rightarrow> 'a slot_vector \<Rightarrow> 'a slot_vector \<times> 'a slot_vector" where
  "SlotVector_std_swap a b =
     (let (tmp, a) = SlotVector_swap SlotVector_new a;
          (a, b) = SlotVector_swap a b;
          (b, tmp) = SlotVector_swap b tmp
      in (a, b))"

subsection \<open>Versions\<close>

definition push_version_for_index :: "'a bounded_queue \<Rightarrow> u64 \<Rightarrow> u16" where
  "push_version_for_index q index = ucast (push_bit 1 (drop_bit (unat (bq_slot_bits q)) index))"

definition pop_version_for_index :: "'a bounded_queue \<Rightarrow> u64 \<Rightarrow> u16" where
  "pop_version_for_index q index = push_version_for_index q index + 1"

definition expected_version_for :: "bool \<Rightarrow> 'a bounded_queue \<Rightarrow> u64 \<Rightarrow> u16" where
  "expected_version_for push_or_pop q index =
     (if push_or_pop then push_version_for_index q index else pop_version_for_index q index)"

text \<open>A wait with nothing else running: the word keeps its version for ever.\<close>

definition alone_env :: "u32 \<Rightarrow> nat \<Rightarrow> wait_obs" where
  "alone_env w k = \<lparr>ob_cas = w, ob_etimedout = False, ob_load = w, ob_now = 0\<rparr>"

definition wait_alone :: "bool \<Rightarrow> u32 \<Rightarrow> u16 \<Rightarrow> unit option" where
  "wait_alone use_futex_wait w v =
     map_option (\<lambda>_. ()) (wait_until_reach_expected_version use_futex_wait (alone_env w) w 0 v None)"

lemma wait_alone_eq: "wait_alone fw w v = (if sf_version w = v then Some () else None)"
proof (cases "sf_version w = v")
  case True
  then show ?thesis by (simp add: wait_alone_def wait_until_reach_expected_version_def)
next
  case False
  have "word_read fw (alone_env w) w i = w" for i by (induction i) (simp_all add: alone_env_def)
  then have "wait_from fw (alone_env w) w v 0 = None"
    using False by (intro wait_from_stuck) (simp_all add: alone_env_def)
  then show ?thesis using False by (simp add: wait_alone_def wait_untimed_start)
qed

section \<open>Operations\<close>

definition bq_futex :: "'a bounded_queue \<Rightarrow> nat \<Rightarrow> u32 option" where
  "bq_futex q i = map_option slot_futex (mem_read (sv_slots (bq_slots q)) i)"

definition bq_put_slot :: "'a bounded_queue \<Rightarrow> nat \<Rightarrow> 'a slot \<Rightarrow> 'a bounded_queue option" where
  "bq_put_slot q i sl = do {
     slots \<leftarrow> mem_write (sv_slots (bq_slots q)) i sl;
     Some (q\<lparr>bq_slots := (bq_slots q)\<lparr>sv_slots := slots\<rparr>\<rparr>) }"

definition capacity :: "'a bounded_queue \<Rightarrow> u64" where
  "capacity q = sv_size (bq_slots q)"

definition bq_size :: "'a bounded_queue \<Rightarrow> u64" where
  "bq_size q = (if bq_next_push_index q > bq_next_pop_index q
     then bq_next_push_index q - bq_next_pop_index q else 0)"

text \<open>\<open>next_index\<close>: the counter of the side a call works on.\<close>

definition next_index :: "bool \<Rightarrow> 'a bounded_queue \<Rightarrow> u64" where
  "next_index push_or_pop q = (if push_or_pop then bq_next_push_index q else bq_next_pop_index q)"

definition set_next_index :: "bool \<Rightarrow> u64 \<Rightarrow> 'a bounded_queue \<Rightarrow> 'a bounded_queue" where
  "set_next_index push_or_pop i q =
     (if push_or_pop then q\<lparr>bq_next_push_index := i\<rparr> else q\<lparr>bq_next_pop_index := i\<rparr>)"

text \<open>\<open>fetch_add\<close>, or a load and a store when not concurrent: the same without other threads.\<close>

definition take_ticket :: "bool \<Rightarrow> bool \<Rightarrow> u64 \<Rightarrow> 'a bounded_queue \<Rightarrow> u64 \<times> 'a bounded_queue" where
  "take_ticket concurrent push_or_pop num q =
     (let index = next_index push_or_pop q in (index, set_next_index push_or_pop (index + num) q))"

text \<open>The callback on one slot and the advance of its version.\<close>

definition finish_slot ::
  "bool \<Rightarrow> u16 \<Rightarrow> ('a \<Rightarrow> 'c \<Rightarrow> 'a \<times> 'c) \<Rightarrow> 'c \<Rightarrow> nat \<Rightarrow> 'a bounded_queue \<Rightarrow> ('c \<times> 'a bounded_queue) option" where
  "finish_slot use_futex_wake expected_version callback c slot_index q = do {
     sl \<leftarrow> mem_read (sv_slots (bq_slots q)) slot_index;
     let (v, c) = callback (slot_value sl) c;
     let (w, wake) = (if use_futex_wake
        then set_version_and_wakeup_waiters (slot_futex sl) (expected_version + 1)
        else (set_version (slot_futex sl) (expected_version + 1), False));
     q \<leftarrow> bq_put_slot q slot_index \<lparr>slot_value = v, slot_futex = w\<rparr>;
     Some (c, q\<lparr>bq_wakes := bq_wakes q + (if wake then 1 else 0)\<rparr>) }"

definition deal ::
  "bool \<Rightarrow> bool \<Rightarrow> bool \<Rightarrow> ('a \<Rightarrow> 'c \<Rightarrow> 'a \<times> 'c) \<Rightarrow> 'c \<Rightarrow> u64 \<Rightarrow> 'a bounded_queue \<Rightarrow> ('c \<times> 'a bounded_queue) option" where
  "deal use_futex_wait use_futex_wake push_or_pop callback c index q = do {
     let expected_version = expected_version_for push_or_pop q index;
     let slot_index = unat (index AND bq_slot_mask q);
     w \<leftarrow> bq_futex q slot_index;
     wait_alone use_futex_wait w expected_version;
     finish_slot use_futex_wake expected_version callback c slot_index q }"

text \<open>
  \<open>try_deal\<close>: alone, the reloaded counter is unchanged after a version mismatch, and the exchange
  of the counter succeeds (a spurious failure of the weak exchange repeats the same iteration).
\<close>

definition try_deal ::
  "bool \<Rightarrow> bool \<Rightarrow> bool \<Rightarrow> ('a \<Rightarrow> 'c \<Rightarrow> 'a \<times> 'c) \<Rightarrow> 'c \<Rightarrow> 'a bounded_queue \<Rightarrow> (bool \<times> 'c \<times> 'a bounded_queue) option" where
  "try_deal concurrent use_futex_wake push_or_pop callback c q = do {
     let index = next_index push_or_pop q;
     let expected_version = expected_version_for push_or_pop q index;
     let slot_index = unat (index AND bq_slot_mask q);
     w \<leftarrow> bq_futex q slot_index;
     if expected_version \<noteq> sf_version w then Some (False, c, q)
     else do {
       let q = set_next_index push_or_pop (index + 1) q;
       (c, q) \<leftarrow> finish_slot use_futex_wake expected_version callback c slot_index q;
       Some (True, c, q) } }"

text \<open>The loops of \<open>deal_n_continuously\<close> over the slots \<open>slot_index + i\<close>.\<close>

primrec wait_range :: "bool \<Rightarrow> u16 \<Rightarrow> 'a slot list \<Rightarrow> nat \<Rightarrow> nat \<Rightarrow> unit option" where
  "wait_range fw v slots i 0 = Some ()"
| "wait_range fw v slots i (Suc n) = do {
     sl \<leftarrow> mem_read slots i; wait_alone fw (slot_futex sl) v; wait_range fw v slots (Suc i) n }"

primrec set_versions :: "u16 \<Rightarrow> 'a slot list \<Rightarrow> nat \<Rightarrow> nat \<Rightarrow> 'a slot list option" where
  "set_versions v slots i 0 = Some slots"
| "set_versions v slots i (Suc n) = do {
     sl \<leftarrow> mem_read slots i;
     slots \<leftarrow> mem_write slots i (sl\<lparr>slot_futex := set_version (slot_futex sl) v\<rparr>);
     set_versions v slots (Suc i) n }"

primrec wakeup_range :: "u16 \<Rightarrow> 'a slot list \<Rightarrow> nat \<Rightarrow> nat \<Rightarrow> ('a slot list \<times> nat) option" where
  "wakeup_range v slots i 0 = Some (slots, 0)"
| "wakeup_range v slots i (Suc n) = do {
     sl \<leftarrow> mem_read slots i;
     let (w, wake) = wakeup_waiters (slot_futex sl) v;
     slots \<leftarrow> mem_write slots i (sl\<lparr>slot_futex := w\<rparr>);
     (slots, k) \<leftarrow> wakeup_range v slots (Suc i) n;
     Some (slots, k + (if wake then 1 else 0)) }"

text \<open>The callback on the iterators \<open>[slot_index, slot_index + num)\<close>.\<close>

type_synonym ('a, 'c) batch_callback = "'a list \<Rightarrow> 'c \<Rightarrow> 'a list \<times> 'c"

primrec put_values :: "'a slot list \<Rightarrow> nat \<Rightarrow> 'a list \<Rightarrow> 'a slot list option" where
  "put_values slots i [] = Some slots"
| "put_values slots i (v # vs) = do {
     sl \<leftarrow> mem_read slots i;
     slots \<leftarrow> mem_write slots i (sl\<lparr>slot_value := v\<rparr>);
     put_values slots (Suc i) vs }"

definition call_range ::
  "('a, 'c) batch_callback \<Rightarrow> 'c \<Rightarrow> 'a slot list \<Rightarrow> nat \<Rightarrow> nat \<Rightarrow> ('c \<times> 'a slot list) option" where
  "call_range callback c slots i n =
     (if length slots < i + n then None
      else do {
        let (vs, c) = callback (map slot_value (take n (drop i slots))) c;
        slots \<leftarrow> put_values slots i (take n vs);
        Some (c, slots) })"

definition finish_range ::
  "bool \<Rightarrow> u16 \<Rightarrow> ('a, 'c) batch_callback \<Rightarrow> 'c \<Rightarrow> nat \<Rightarrow> nat \<Rightarrow> 'a bounded_queue \<Rightarrow> ('c \<times> 'a bounded_queue) option" where
  "finish_range use_futex_wake expected_version callback c slot_index num q = do {
     (c, slots) \<leftarrow> call_range callback c (sv_slots (bq_slots q)) slot_index num;
     slots \<leftarrow> set_versions (expected_version + 1) slots slot_index num;
     (slots, k) \<leftarrow> (if use_futex_wake then wakeup_range (expected_version + 1) slots slot_index num
                   else Some (slots, 0));
     Some (c, q\<lparr>bq_slots := (bq_slots q)\<lparr>sv_slots := slots\<rparr>, bq_wakes := bq_wakes q + k\<rparr>) }"

definition deal_n_continuously ::
  "bool \<Rightarrow> bool \<Rightarrow> bool \<Rightarrow> ('a, 'c) batch_callback \<Rightarrow> 'c \<Rightarrow> u64 \<Rightarrow> u64 \<Rightarrow> 'a bounded_queue \<Rightarrow>
     ('c \<times> 'a bounded_queue) option" where
  "deal_n_continuously use_futex_wait use_futex_wake push_or_pop callback c index num q = do {
     let expected_version = expected_version_for push_or_pop q index;
     let slot_index = unat (index AND bq_slot_mask q);
     wait_range use_futex_wait expected_version (sv_slots (bq_slots q)) slot_index (unat num);
     finish_range use_futex_wake expected_version callback c slot_index (unat num) q }"

text \<open>The first loop of \<open>try_deal_n_continuously\<close>: how many slots are ready.\<close>

primrec ready_count :: "u16 \<Rightarrow> 'a slot list \<Rightarrow> nat \<Rightarrow> nat \<Rightarrow> nat option" where
  "ready_count v slots i 0 = Some 0"
| "ready_count v slots i (Suc n) = do {
     sl \<leftarrow> mem_read slots i;
     if v \<noteq> sf_version (slot_futex sl) then Some 0
     else do { k \<leftarrow> ready_count v slots (Suc i) n; Some (Suc k) } }"

definition try_deal_n_continuously ::
  "bool \<Rightarrow> bool \<Rightarrow> bool \<Rightarrow> ('a, 'c) batch_callback \<Rightarrow> 'c \<Rightarrow> u64 \<Rightarrow> u64 \<Rightarrow> 'a bounded_queue \<Rightarrow>
     (u64 \<times> 'c \<times> 'a bounded_queue) option" where
  "try_deal_n_continuously concurrent use_futex_wake push_or_pop callback c index num q = do {
     let expected_version = expected_version_for push_or_pop q index;
     let slot_index = unat (index AND bq_slot_mask q);
     k \<leftarrow> ready_count expected_version (sv_slots (bq_slots q)) slot_index (unat num);
     let num = of_nat k;
     if num = 0 then Some (0, c, q)
     else if concurrent \<and> next_index push_or_pop q \<noteq> index then Some (0, c, q)
     else do {
       let q = set_next_index push_or_pop (index + num) q;
       (c, q) \<leftarrow> finish_range use_futex_wake expected_version callback c slot_index (unat num) q;
       Some (num, c, q) } }"

subsection \<open>Single elements\<close>

definition push_callback ::
  "bool \<Rightarrow> bool \<Rightarrow> bool \<Rightarrow> ('a \<Rightarrow> 'c \<Rightarrow> 'a \<times> 'c) \<Rightarrow> 'c \<Rightarrow> 'a bounded_queue \<Rightarrow> ('c \<times> 'a bounded_queue) option" where
  "push_callback concurrent use_futex_wait use_futex_wake callback c q =
     (let (index, q) = take_ticket concurrent True 1 q in
      deal use_futex_wait use_futex_wake True callback c index q)"

definition push :: "bool \<Rightarrow> bool \<Rightarrow> bool \<Rightarrow> 'a \<Rightarrow> 'a bounded_queue \<Rightarrow> 'a bounded_queue option" where
  "push concurrent use_futex_wait use_futex_wake value q =
     map_option snd (push_callback concurrent use_futex_wait use_futex_wake (\<lambda>target c. (value, c)) () q)"

definition try_push_callback ::
  "bool \<Rightarrow> bool \<Rightarrow> ('a \<Rightarrow> 'c \<Rightarrow> 'a \<times> 'c) \<Rightarrow> 'c \<Rightarrow> 'a bounded_queue \<Rightarrow> (bool \<times> 'c \<times> 'a bounded_queue) option" where
  "try_push_callback concurrent use_futex_wake callback c q =
     try_deal concurrent use_futex_wake True callback c q"

definition try_push :: "bool \<Rightarrow> bool \<Rightarrow> 'a \<Rightarrow> 'a bounded_queue \<Rightarrow> (bool \<times> 'a bounded_queue) option" where
  "try_push concurrent use_futex_wake value q =
     map_option (\<lambda>(ok, _, q). (ok, q))
       (try_push_callback concurrent use_futex_wake (\<lambda>target c. (value, c)) () q)"

definition pop_callback ::
  "bool \<Rightarrow> bool \<Rightarrow> bool \<Rightarrow> ('a \<Rightarrow> 'c \<Rightarrow> 'a \<times> 'c) \<Rightarrow> 'c \<Rightarrow> 'a bounded_queue \<Rightarrow> ('c \<times> 'a bounded_queue) option" where
  "pop_callback concurrent use_futex_wait use_futex_wake callback c q =
     (let (index, q) = take_ticket concurrent False 1 q in
      deal use_futex_wait use_futex_wake False callback c index q)"

text \<open>\<open>value = std::move(source)\<close>: \<open>moved\<close> is what is left in the slot.\<close>

definition pop :: "('a \<Rightarrow> 'a) \<Rightarrow> bool \<Rightarrow> bool \<Rightarrow> bool \<Rightarrow> 'a \<Rightarrow> 'a bounded_queue \<Rightarrow> ('a \<times> 'a bounded_queue) option" where
  "pop moved concurrent use_futex_wait use_futex_wake value q =
     pop_callback concurrent use_futex_wait use_futex_wake (\<lambda>source c. (moved source, source)) value q"

definition try_pop_callback ::
  "bool \<Rightarrow> bool \<Rightarrow> ('a \<Rightarrow> 'c \<Rightarrow> 'a \<times> 'c) \<Rightarrow> 'c \<Rightarrow> 'a bounded_queue \<Rightarrow> (bool \<times> 'c \<times> 'a bounded_queue) option" where
  "try_pop_callback concurrent use_futex_wake callback c q =
     try_deal concurrent use_futex_wake False callback c q"

definition try_pop :: "('a \<Rightarrow> 'a) \<Rightarrow> bool \<Rightarrow> bool \<Rightarrow> 'a \<Rightarrow> 'a bounded_queue \<Rightarrow> (bool \<times> 'a \<times> 'a bounded_queue) option" where
  "try_pop moved concurrent use_futex_wake value q =
     try_pop_callback concurrent use_futex_wake (\<lambda>source c. (moved source, source)) value q"

subsection \<open>Batches\<close>

definition next_round_begin_index :: "'a bounded_queue \<Rightarrow> u64 \<Rightarrow> u64" where
  "next_round_begin_index q index = (index + bq_slot_mask q + 1) AND NOT (bq_slot_mask q)"

text \<open>The body \<open>push_n\<close> and \<open>pop_n\<close> share: the range may be cut where the slots wrap.\<close>

definition deal_n ::
  "bool \<Rightarrow> bool \<Rightarrow> bool \<Rightarrow> bool \<Rightarrow> ('a, 'c) batch_callback \<Rightarrow> 'c \<Rightarrow> u64 \<Rightarrow> 'a bounded_queue \<Rightarrow>
     ('c \<times> 'a bounded_queue) option" where
  "deal_n concurrent fw wake push_or_pop callback c num q =
     (let (index, q) = take_ticket concurrent push_or_pop num q;
          round = next_round_begin_index q index in
      if index + num \<le> round
      then deal_n_continuously fw wake push_or_pop callback c index num q
      else do {
        (c, q) \<leftarrow> deal_n_continuously fw wake push_or_pop callback c index (round - index) q;
        deal_n_continuously fw wake push_or_pop callback c round (index + num - round) q })"

definition push_n_callback where
  "push_n_callback concurrent fw wake callback c num q = deal_n concurrent fw wake True callback c num q"

text \<open>\<open>push_n(begin, end)\<close>: the callback copies the next elements of the source range.\<close>

definition copy_in :: "('a, 'a list) batch_callback" where
  "copy_in dest src = (take (length dest) src, drop (length dest) src)"

definition push_n :: "bool \<Rightarrow> bool \<Rightarrow> bool \<Rightarrow> 'a list \<Rightarrow> 'a bounded_queue \<Rightarrow> 'a bounded_queue option" where
  "push_n concurrent fw wake src q =
     map_option snd (push_n_callback concurrent fw wake copy_in src (of_nat (length src)) q)"

definition pop_n_callback where
  "pop_n_callback concurrent fw wake callback c num q = deal_n concurrent fw wake False callback c num q"

definition copy_out :: "('a, 'a list) batch_callback" where
  "copy_out src out = (src, out @ src)"

definition pop_n :: "bool \<Rightarrow> bool \<Rightarrow> bool \<Rightarrow> u64 \<Rightarrow> 'a bounded_queue \<Rightarrow> ('a list \<times> 'a bounded_queue) option" where
  "pop_n concurrent fw wake num q = pop_n_callback concurrent fw wake copy_out [] num q"

definition try_deal_n ::
  "bool \<Rightarrow> bool \<Rightarrow> bool \<Rightarrow> ('a, 'c) batch_callback \<Rightarrow> 'c \<Rightarrow> u64 \<Rightarrow> 'a bounded_queue \<Rightarrow>
     (u64 \<times> 'c \<times> 'a bounded_queue) option" where
  "try_deal_n concurrent wake push_or_pop callback c num q =
     (let index = next_index push_or_pop q;
          end_index = index + num;
          round = next_round_begin_index q index in
      if end_index \<le> round
      then try_deal_n_continuously concurrent wake push_or_pop callback c index (end_index - index) q
      else do {
        let num = round - index;
        (dealt, c, q) \<leftarrow> try_deal_n_continuously concurrent wake push_or_pop callback c index num q;
        if dealt < num then Some (dealt, c, q)
        else do {
          (more, c, q) \<leftarrow> try_deal_n_continuously concurrent wake push_or_pop callback c round (end_index - round) q;
          Some (dealt + more, c, q) } })"

definition try_push_n where
  "try_push_n concurrent wake callback c num q = try_deal_n concurrent wake True callback c num q"

definition try_pop_n where
  "try_pop_n concurrent wake callback c num q = try_deal_n concurrent wake False callback c num q"

text \<open>
  \<open>try_pop_n_exclusively_until\<close>: a timed wait for one slot, then \<open>try_pop_n\<close>. The wait's
  environment and clock are arguments; its outcome does not matter.
\<close>

definition try_pop_n_exclusively_until ::
  "bool \<Rightarrow> (nat \<Rightarrow> wait_obs) \<Rightarrow> u64 \<Rightarrow> ('a, 'c) batch_callback \<Rightarrow> 'c \<Rightarrow> u64 \<Rightarrow> timespec option \<Rightarrow>
     'a bounded_queue \<Rightarrow> (u64 \<times> 'c \<times> 'a bounded_queue) option" where
  "try_pop_n_exclusively_until wake env now callback c num timeout q = do {
     let index = bq_next_pop_index q + num;
     let expected_version = pop_version_for_index q index;
     w \<leftarrow> bq_futex q (unat (index AND bq_slot_mask q));
     wait_until_reach_expected_version True env w now expected_version timeout;
     try_pop_n False wake callback c num q }"

subsection \<open>Batches that compensate\<close>

text \<open>
  A full (empty) queue makes \<open>push_n\<close> (\<open>pop_n\<close>) with a reverse callback consume (produce) single
  elements until its slots are ready; \<open>d\<close> is the reverse callback's data.
\<close>

partial_function (option) compensate ::
  "bool \<Rightarrow> u16 \<Rightarrow> ('a, 'd) batch_callback \<Rightarrow> u64 \<Rightarrow> nat \<Rightarrow> 'd \<Rightarrow> 'a bounded_queue \<Rightarrow> ('d \<times> 'a bounded_queue) option" where
  "compensate push_or_pop v reverse_callback end_index i d q = do {
     w \<leftarrow> bq_futex q i;
     if v = sf_version w then Some (d, q)
     else do {
       let need_index = (if push_or_pop then bq_next_pop_index q + capacity q else bq_next_push_index q);
       (d, q) \<leftarrow> (if need_index \<le> end_index
                 then map_option snd (if push_or_pop then try_pop_n True False reverse_callback d 1 q
                                      else try_push_n True False reverse_callback d 1 q)
                 else Some (d, q));
       compensate push_or_pop v reverse_callback end_index i d q } }"

primrec compensate_range ::
  "bool \<Rightarrow> u16 \<Rightarrow> ('a, 'd) batch_callback \<Rightarrow> u64 \<Rightarrow> nat \<Rightarrow> nat \<Rightarrow> 'd \<Rightarrow> 'a bounded_queue \<Rightarrow> ('d \<times> 'a bounded_queue) option" where
  "compensate_range push_or_pop v rc end_index i 0 d q = Some (d, q)"
| "compensate_range push_or_pop v rc end_index i (Suc n) d q = do {
     (d, q) \<leftarrow> compensate push_or_pop v rc end_index i d q;
     compensate_range push_or_pop v rc end_index (Suc i) n d q }"

definition deal_n_compensating ::
  "bool \<Rightarrow> ('a, 'c) batch_callback \<Rightarrow> ('a, 'd) batch_callback \<Rightarrow> 'c \<Rightarrow> 'd \<Rightarrow> u64 \<Rightarrow> u64 \<Rightarrow> 'a bounded_queue \<Rightarrow>
     ('c \<times> 'd \<times> 'a bounded_queue) option" where
  "deal_n_compensating push_or_pop callback reverse_callback c d index num q = do {
     let expected_version = expected_version_for push_or_pop q index;
     let slot_index = unat (index AND bq_slot_mask q);
     (d, q) \<leftarrow> compensate_range push_or_pop expected_version reverse_callback (index + num) slot_index (unat num) d q;
     (c, q) \<leftarrow> finish_range False expected_version callback c slot_index (unat num) q;
     Some (c, d, q) }"

definition deal_n_with_reverse ::
  "bool \<Rightarrow> ('a, 'c) batch_callback \<Rightarrow> ('a, 'd) batch_callback \<Rightarrow> 'c \<Rightarrow> 'd \<Rightarrow> u64 \<Rightarrow> 'a bounded_queue \<Rightarrow>
     ('c \<times> 'd \<times> 'a bounded_queue) option" where
  "deal_n_with_reverse push_or_pop callback reverse_callback c d num q =
     (let (index, q) = take_ticket True push_or_pop num q;
          round = next_round_begin_index q index in
      if index + num \<le> round
      then deal_n_compensating push_or_pop callback reverse_callback c d index num q
      else do {
        (c, d, q) \<leftarrow> deal_n_compensating push_or_pop callback reverse_callback c d index (round - index) q;
        deal_n_compensating push_or_pop callback reverse_callback c d round (index + num - round) q })"

definition push_n_reverse where
  "push_n_reverse callback reverse_callback c d num q =
     deal_n_with_reverse True callback reverse_callback c d num q"

definition pop_n_reverse where
  "pop_n_reverse callback reverse_callback c d num q =
     deal_n_with_reverse False callback reverse_callback c d num q"

subsection \<open>Clearing, resizing, swapping\<close>

definition bq_clear :: "'a bounded_queue \<Rightarrow> 'a bounded_queue option" where
  "bq_clear q = map_option (\<lambda>(_, _, q). q) (try_pop_n True True (\<lambda>vs c. (vs, c)) () (capacity q) q)"

text \<open>\<open>__builtin_ctzll\<close>\<close>

definition ctzll :: "u64 \<Rightarrow> u64" where
  "ctzll w = of_nat (length (takeWhile (\<lambda>i. \<not> bit w i) [0..<64]))"

definition reset_slots :: "'a slot list \<Rightarrow> nat \<Rightarrow> 'a slot list" where
  "reset_slots slots n =
     map (\<lambda>sl. sl\<lparr>slot_futex := sf_reset (slot_futex sl)\<rparr>) (take n slots) @ drop n slots"

definition bq_reinit :: "u64 \<Rightarrow> 'a slot_vector \<Rightarrow> 'a bounded_queue \<Rightarrow> 'a bounded_queue" where
  "bq_reinit new_capacity v q = q\<lparr>bq_slot_bits := ctzll new_capacity, bq_slot_mask := new_capacity - 1,
     bq_slots := v\<lparr>sv_slots := reset_slots (sv_slots v) (unat new_capacity)\<rparr>,
     bq_next_push_index := 0, bq_next_pop_index := 0\<rparr>"

definition reserve_and_clear ::
  "(u64 \<Rightarrow> u64) \<Rightarrow> 'a \<Rightarrow> u64 \<Rightarrow> 'a bounded_queue \<Rightarrow> (u64 \<times> 'a bounded_queue) option" where
  "reserve_and_clear bit_ceil d min_capacity q = do {
     let new_capacity = bit_ceil min_capacity;
     q \<leftarrow> (if new_capacity \<noteq> capacity q
          then Some (bq_reinit new_capacity (SlotVector_resize d (bq_slots q) new_capacity) q)
          else bq_clear q);
     Some (capacity q, q) }"

definition reserve_and_clear_placed ::
  "(u64 \<Rightarrow> u64) \<Rightarrow> 'a \<Rightarrow> 'a slot list \<Rightarrow> u64 \<Rightarrow> 'a bounded_queue \<Rightarrow> (u64 \<times> 'a bounded_queue) option" where
  "reserve_and_clear_placed bit_ceil d slot_buffer min_capacity q = do {
     let new_capacity = bit_ceil min_capacity;
     let create = \<not> sv_use_outer_buffer (bq_slots q);
     q \<leftarrow> (if create \<or> new_capacity \<noteq> capacity q
          then do {
            v \<leftarrow> SlotVector_resize_placed d (bq_slots q) slot_buffer new_capacity;
            Some (bq_reinit new_capacity v q) }
          else bq_clear q);
     Some (capacity q, q) }"

definition reserve_buffer_size :: "(u64 \<Rightarrow> u64) \<Rightarrow> u64 \<Rightarrow> u64 \<Rightarrow> u64" where
  "reserve_buffer_size bit_ceil sizeof_slot min_capacity = sizeof_slot * bit_ceil min_capacity"

text \<open>The default constructor: one slot.\<close>

definition bq_new :: "'a \<Rightarrow> 'a bounded_queue" where
  "bq_new d = \<lparr>bq_slots = SlotVector_sized d 1, bq_slot_mask = 0, bq_slot_bits = 0,
     bq_next_push_index = 0, bq_next_pop_index = 0, bq_wakes = 0\<rparr>"

definition bq_construct :: "(u64 \<Rightarrow> u64) \<Rightarrow> 'a \<Rightarrow> u64 \<Rightarrow> 'a bounded_queue option" where
  "bq_construct bit_ceil d min_capacity = map_option snd (reserve_and_clear bit_ceil d min_capacity (bq_new d))"

definition bq_swap :: "'a bounded_queue \<Rightarrow> 'a bounded_queue \<Rightarrow> 'a bounded_queue \<times> 'a bounded_queue" where
  "bq_swap a b = (let (sa, sb) = SlotVector_std_swap (bq_slots a) (bq_slots b) in
     (a\<lparr>bq_slots := sa, bq_slot_mask := bq_slot_mask b, bq_slot_bits := bq_slot_bits b,
        bq_next_push_index := bq_next_push_index b, bq_next_pop_index := bq_next_pop_index b\<rparr>,
      b\<lparr>bq_slots := sb, bq_slot_mask := bq_slot_mask a, bq_slot_bits := bq_slot_bits a,
        bq_next_push_index := bq_next_push_index a, bq_next_pop_index := bq_next_pop_index a\<rparr>))"

definition bq_move_construct :: "'a \<Rightarrow> 'a bounded_queue \<Rightarrow> 'a bounded_queue \<times> 'a bounded_queue" where
  "bq_move_construct d other = bq_swap (bq_new d) other"

end
