(* ===== verification/BoundedQueueSpec.thy ===== *)
theory BoundedQueueSpec
  imports BoundedQueue
begin

text \<open>
  The bounded queue implements a FIFO list of at most \<open>capacity()\<close> elements.

  Position \<open>p\<close> of the unbounded sequence of elements uses slot \<open>p mod cap\<close> in epoch \<open>p div cap\<close>; the
  version of the slot is \<open>2 * epoch\<close> while the position is free and \<open>2 * epoch + 1\<close> while it holds an
  element, cut to 16 bits. \<open>slots_ok\<close> says so for the window of \<open>cap\<close> positions from the next one to
  pop; \<open>push_seg\<close> and \<open>pop_seg\<close> are the effect of any operation that fills or empties consecutive
  slots, from which every operation's behaviour follows.
\<close>

section \<open>The window of positions\<close>

definition slot_version :: "nat \<Rightarrow> nat \<Rightarrow> nat \<Rightarrow> u16" where
  "slot_version cap P p = of_nat (2 * (p div cap) + (if p < P then 1 else 0))"

definition slots_ok :: "nat \<Rightarrow> nat \<Rightarrow> nat \<Rightarrow> 'a slot list \<Rightarrow> bool" where
  "slots_ok cap P O' slots \<longleftrightarrow> cap \<le> length slots \<and>
     (\<forall>p. O' \<le> p \<and> p < O' + cap \<longrightarrow> sf_version (slot_futex (slots ! (p mod cap))) = slot_version cap P p)"

definition slots_contents :: "nat \<Rightarrow> nat \<Rightarrow> nat \<Rightarrow> 'a slot list \<Rightarrow> 'a list" where
  "slots_contents cap P O' slots = map (\<lambda>p. slot_value (slots ! (p mod cap))) [O'..<P]"

text \<open>Slots \<open>[i, i + n)\<close> were given the values \<open>vs\<close> and version \<open>v\<close>; the others are as before.\<close>

definition seg_upd :: "'a slot list \<Rightarrow> 'a slot list \<Rightarrow> nat \<Rightarrow> 'a list \<Rightarrow> u16 \<Rightarrow> bool" where
  "seg_upd slots slots' i vs v \<longleftrightarrow> length slots' = length slots \<and>
     (\<forall>j. if i \<le> j \<and> j < i + length vs
          then slot_value (slots' ! j) = vs ! (j - i) \<and> sf_version (slot_futex (slots' ! j)) = v
          else slots' ! j = slots ! j)"

lemma mod_seg:
  assumes "(P::nat) mod cap + i < cap"
  shows "(P + i) mod cap = P mod cap + i" and "(P + i) div cap = P div cap"
proof -
  have eq: "P + i = (P mod cap + i) + P div cap * cap" by simp
  have c: "cap \<noteq> 0" using assms by auto
  show "(P + i) mod cap = P mod cap + i" using assms by (subst eq) (simp only: mod_mult_self1 mod_less)
  have "(P mod cap + i + P div cap * cap) div cap = P div cap + (P mod cap + i) div cap"
    using c by (rule div_mult_self1)
  then show "(P + i) div cap = P div cap" using assms by (simp only: eq [symmetric] div_less add_0_right)
qed

lemma seg_inside:
  assumes "(P::nat) mod cap + n \<le> cap" and "P \<le> p" "p < P + n"
  shows "p mod cap = P mod cap + (p - P)" and "p div cap = P div cap"
  using mod_seg [of P cap "p - P"] assms by simp_all

lemma seg_outside:
  assumes "(P::nat) mod cap + n \<le> cap" and "p < P \<and> P + n \<le> p + cap \<or> P + n \<le> p \<and> p < P + cap"
  shows "\<not> (P mod cap \<le> p mod cap \<and> p mod cap < P mod cap + n)"
proof
  assume in_seg: "P mod cap \<le> p mod cap \<and> p mod cap < P mod cap + n"
  define i where "i = p mod cap - P mod cap"
  have i: "i < n" "p mod cap = P mod cap + i" using in_seg by (auto simp: i_def)
  then have same: "(P + i) mod cap = p mod cap" using mod_seg(1) [of P cap i] assms(1) by simp
  show False
    using assms(2) mod_neq_window [of p "P + i" cap] mod_neq_window [of "P + i" p cap] same i(1) by auto
qed

lemma push_seg:
  assumes ok: "slots_ok cap P O' slots" and fit: "P mod cap + length vs \<le> cap" "P + length vs \<le> O' + cap"
    and O: "O' \<le> P" and u: "seg_upd slots slots' (P mod cap) vs (of_nat (2 * (P div cap) + 1))"
  shows "slots_ok cap (P + length vs) O' slots'"
    and "slots_contents cap (P + length vs) O' slots' = slots_contents cap P O' slots @ vs"
proof -
  let ?n = "length vs"
  have out: "slots' ! (p mod cap) = slots ! (p mod cap)"
    if "O' \<le> p" "p < O' + cap" "\<not> (P \<le> p \<and> p < P + ?n)" for p
  proof -
    have "\<not> (P mod cap \<le> p mod cap \<and> p mod cap < P mod cap + ?n)"
      using fit O that by (intro seg_outside) auto
    then show ?thesis using u unfolding seg_upd_def by (auto split: if_splits)
  qed
  have inn: "slot_value (slots' ! (p mod cap)) = vs ! (p - P)"
    "sf_version (slot_futex (slots' ! (p mod cap))) = of_nat (2 * (p div cap) + 1)"
    if "P \<le> p" "p < P + ?n" for p
    using u seg_inside [OF fit(1) that] that unfolding seg_upd_def by (auto split: if_splits)
  have "sf_version (slot_futex (slots' ! (p mod cap))) = slot_version cap (P + ?n) p"
    if "O' \<le> p" "p < O' + cap" for p
    using out [OF that] inn(2) [of p] ok that
    by (cases "P \<le> p \<and> p < P + ?n") (auto simp: slots_ok_def slot_version_def)
  then show "slots_ok cap (P + ?n) O' slots'"
    using ok u by (simp add: slots_ok_def seg_upd_def)
  have "map (\<lambda>p. slot_value (slots' ! (p mod cap))) [O'..<P] = slots_contents cap P O' slots"
    unfolding slots_contents_def using out fit O by (intro map_cong) auto
  moreover have "map (\<lambda>p. slot_value (slots' ! (p mod cap))) [P..<P + ?n] = vs"
    using inn(1) by (intro nth_equalityI) auto
  moreover have "[O'..<P + ?n] = [O'..<P] @ [P..<P + ?n]" using O by (rule upt_add_eq_append)
  ultimately show "slots_contents cap (P + ?n) O' slots' = slots_contents cap P O' slots @ vs"
    by (simp only: slots_contents_def [of cap "P + length vs" O' slots'] map_append)
qed

lemma pop_seg:
  assumes ok: "slots_ok cap P O' slots" and fit: "O' mod cap + length vs \<le> cap" "O' + length vs \<le> P"
    and P: "P \<le> O' + cap" and u: "seg_upd slots slots' (O' mod cap) vs (of_nat (2 * (O' div cap) + 2))"
  shows "slots_ok cap P (O' + length vs) slots'"
    and "slots_contents cap P (O' + length vs) slots' = drop (length vs) (slots_contents cap P O' slots)"
proof -
  let ?n = "length vs"
  have out: "slots' ! (p mod cap) = slots ! (p mod cap)" if "O' + ?n \<le> p" "p < O' + cap" for p
  proof -
    have "\<not> (O' mod cap \<le> p mod cap \<and> p mod cap < O' mod cap + ?n)"
      using fit that by (intro seg_outside) auto
    then show ?thesis using u unfolding seg_upd_def by (auto split: if_splits)
  qed
  have inn: "sf_version (slot_futex (slots' ! (p mod cap))) = of_nat (2 * (p div cap))"
    if "O' + cap \<le> p" "p < O' + ?n + cap" for p
  proof -
    define r where "r = p - cap"
    have c: "0 < cap" using that fit(1) by (cases cap) auto
    have r: "p = r + cap" "O' \<le> r" "r < O' + ?n" using that by (auto simp: r_def)
    have "p mod cap = r mod cap" "p div cap = r div cap + 1"
      using r(1) c div_add_self2 [of cap r] by simp_all
    then show ?thesis using u seg_inside [OF fit(1) r(2,3)] r unfolding seg_upd_def by (auto split: if_splits)
  qed
  have "sf_version (slot_futex (slots' ! (p mod cap))) = slot_version cap P p"
    if "O' + ?n \<le> p" "p < O' + ?n + cap" for p
    using out [of p] inn [of p] ok that P
    by (cases "p < O' + cap") (auto simp: slots_ok_def slot_version_def)
  then show "slots_ok cap P (O' + ?n) slots'"
    using ok u by (simp add: slots_ok_def seg_upd_def)
  have "map (\<lambda>p. slot_value (slots' ! (p mod cap))) [O' + ?n..<P] =
      map (\<lambda>p. slot_value (slots ! (p mod cap))) [O' + ?n..<P]"
    using out P by (intro map_cong) auto
  then show "slots_contents cap P (O' + ?n) slots' = drop ?n (slots_contents cap P O' slots)"
    by (simp add: slots_contents_def drop_map)
qed

section \<open>What the slot loops do\<close>

definition bq_upd :: "'a bounded_queue \<Rightarrow> 'a slot list \<Rightarrow> nat \<Rightarrow> 'a bounded_queue" where
  "bq_upd q slots k = q\<lparr>bq_slots := (bq_slots q)\<lparr>sv_slots := slots\<rparr>, bq_wakes := k\<rparr>"

lemma finish_slot_seg:
  assumes "i < length (sv_slots (bq_slots q))"
  shows "\<exists>slots' k. finish_slot wake v cb c i q =
      Some (snd (cb (slot_value (sv_slots (bq_slots q) ! i)) c), bq_upd q slots' k)
    \<and> seg_upd (sv_slots (bq_slots q)) slots' i [fst (cb (slot_value (sv_slots (bq_slots q) ! i)) c)] (v + 1)"
proof -
  let ?slots = "sv_slots (bq_slots q)" and ?r = "cb (slot_value (sv_slots (bq_slots q) ! i)) c"
  define w where "w = (if wake then ucast (v + 1) else set_version (slot_futex (?slots ! i)) (v + 1))"
  define k where "k = bq_wakes q + (if wake \<and> \<not> slot_futex (?slots ! i) \<le> 0xFFFF then 1 else 0)"
  let ?slots' = "?slots[i := \<lparr>slot_value = fst ?r, slot_futex = w\<rparr>]"
  have "finish_slot wake v cb c i q = Some (snd ?r, bq_upd q ?slots' k)"
    using assms
    by (simp add: finish_slot_def bq_put_slot_def mem_read_def mem_write_def bq_upd_def w_def k_def
        set_version_and_wakeup_waiters_def split_beta)
  moreover have "sf_version w = v + 1" by (simp add: w_def)
  then have "seg_upd ?slots ?slots' i [fst ?r] (v + 1)"
    using assms by (auto simp: seg_upd_def nth_list_update)
  ultimately show ?thesis by blast
qed

lemma put_values_nth:
  assumes "i + length vs \<le> length slots"
  shows "\<exists>slots'. put_values slots i vs = Some slots' \<and> length slots' = length slots \<and>
    (\<forall>j. slots' ! j = (if i \<le> j \<and> j < i + length vs then (slots ! j)\<lparr>slot_value := vs ! (j - i)\<rparr> else slots ! j))"
  using assms
proof (induction vs arbitrary: i slots)
  case (Cons v vs)
  let ?s1 = "slots[i := (slots ! i)\<lparr>slot_value := v\<rparr>]"
  obtain s2 where s2: "put_values ?s1 (Suc i) vs = Some s2" "length s2 = length slots"
    "\<forall>j. s2 ! j = (if Suc i \<le> j \<and> j < Suc i + length vs then (?s1 ! j)\<lparr>slot_value := vs ! (j - Suc i)\<rparr> else ?s1 ! j)"
    using Cons.IH [of "Suc i" ?s1] Cons.prems by auto
  have "s2 ! j = (if i \<le> j \<and> j < i + length (v # vs) then (slots ! j)\<lparr>slot_value := (v # vs) ! (j - i)\<rparr> else slots ! j)" for j
    using s2(3) Cons.prems by (cases "j = i") (auto simp: nth_Cons' Suc_le_eq)
  then show ?case using s2 Cons.prems by (simp add: mem_read_def mem_write_def)
qed auto

lemma set_versions_nth:
  assumes "i + n \<le> length slots"
  shows "\<exists>slots'. set_versions v slots i n = Some slots' \<and> length slots' = length slots \<and>
    (\<forall>j. slots' ! j = (if i \<le> j \<and> j < i + n
       then (slots ! j)\<lparr>slot_futex := set_version (slot_futex (slots ! j)) v\<rparr> else slots ! j))"
  using assms
proof (induction n arbitrary: i slots)
  case (Suc n)
  let ?s1 = "slots[i := (slots ! i)\<lparr>slot_futex := set_version (slot_futex (slots ! i)) v\<rparr>]"
  obtain s2 where s2: "set_versions v ?s1 (Suc i) n = Some s2" "length s2 = length slots"
    "\<forall>j. s2 ! j = (if Suc i \<le> j \<and> j < Suc i + n
       then (?s1 ! j)\<lparr>slot_futex := set_version (slot_futex (?s1 ! j)) v\<rparr> else ?s1 ! j)"
    using Suc.IH [of "Suc i" ?s1] Suc.prems by auto
  have "s2 ! j = (if i \<le> j \<and> j < i + Suc n
      then (slots ! j)\<lparr>slot_futex := set_version (slot_futex (slots ! j)) v\<rparr> else slots ! j)" for j
    using s2(3) Suc.prems by (cases "j = i") (auto simp: Suc_le_eq)
  then show ?case using s2 Suc.prems by (simp add: mem_read_def mem_write_def)
qed auto

lemma wakeup_waiters_version [simp]: "sf_version (fst (wakeup_waiters w v)) = sf_version w"
  by (simp add: wakeup_waiters_def Let_def)

lemma wakeup_range_nth:
  assumes "i + n \<le> length slots"
  shows "\<exists>slots' k. wakeup_range v slots i n = Some (slots', k) \<and> length slots' = length slots \<and>
    (\<forall>j. slot_value (slots' ! j) = slot_value (slots ! j) \<and>
       sf_version (slot_futex (slots' ! j)) = sf_version (slot_futex (slots ! j)) \<and>
       (\<not> (i \<le> j \<and> j < i + n) \<longrightarrow> slots' ! j = slots ! j))"
  using assms
proof (induction n arbitrary: i slots)
  case (Suc n)
  let ?s1 = "slots[i := (slots ! i)\<lparr>slot_futex := fst (wakeup_waiters (slot_futex (slots ! i)) v)\<rparr>]"
  have s1: "slot_value (?s1 ! j) = slot_value (slots ! j) \<and>
      sf_version (slot_futex (?s1 ! j)) = sf_version (slot_futex (slots ! j)) \<and> (j \<noteq> i \<longrightarrow> ?s1 ! j = slots ! j)" for j
    using Suc.prems by (cases "j = i") auto
  obtain s2 k where s2: "wakeup_range v ?s1 (Suc i) n = Some (s2, k)" "length s2 = length slots"
    "\<forall>j. slot_value (s2 ! j) = slot_value (?s1 ! j) \<and>
       sf_version (slot_futex (s2 ! j)) = sf_version (slot_futex (?s1 ! j)) \<and>
       (\<not> (Suc i \<le> j \<and> j < Suc i + n) \<longrightarrow> s2 ! j = ?s1 ! j)"
    using Suc.IH [of "Suc i" ?s1] Suc.prems by auto
  have "slot_value (s2 ! j) = slot_value (slots ! j) \<and>
      sf_version (slot_futex (s2 ! j)) = sf_version (slot_futex (slots ! j)) \<and>
      (\<not> (i \<le> j \<and> j < i + Suc n) \<longrightarrow> s2 ! j = slots ! j)" for j
    using s2(3) s1 [of j] by auto
  then show ?case using s2 Suc.prems by (auto simp: mem_read_def mem_write_def split_beta)
qed simp

lemma finish_range_seg:
  fixes q :: "'a bounded_queue"
  defines "slots \<equiv> sv_slots (bq_slots q)"
  assumes len: "i + n \<le> length slots" and r: "cb (map slot_value (take n (drop i slots))) c = (vs, c')" "length vs = n"
  shows "\<exists>slots' k. finish_range wake v cb c i n q = Some (c', bq_upd q slots' k) \<and> seg_upd slots slots' i vs (v + 1)"
proof -
  obtain s1 where s1: "put_values slots i vs = Some s1" "length s1 = length slots"
    "\<forall>j. s1 ! j = (if i \<le> j \<and> j < i + n then (slots ! j)\<lparr>slot_value := vs ! (j - i)\<rparr> else slots ! j)"
    using put_values_nth [of i vs slots] len r(2) by auto
  obtain s2 where s2: "set_versions (v + 1) s1 i n = Some s2" "length s2 = length slots"
    "\<forall>j. s2 ! j = (if i \<le> j \<and> j < i + n
       then (s1 ! j)\<lparr>slot_futex := set_version (slot_futex (s1 ! j)) (v + 1)\<rparr> else s1 ! j)"
    using set_versions_nth [of i n s1 "v + 1"] len s1(2) by auto
  obtain s3 k where s3: "wakeup_range (v + 1) s2 i n = Some (s3, k)" "length s3 = length slots"
    "\<forall>j. slot_value (s3 ! j) = slot_value (s2 ! j) \<and>
       sf_version (slot_futex (s3 ! j)) = sf_version (slot_futex (s2 ! j)) \<and>
       (\<not> (i \<le> j \<and> j < i + n) \<longrightarrow> s3 ! j = s2 ! j)"
    using wakeup_range_nth [of i n s2 "v + 1"] len s2(2) by auto
  have seg: "seg_upd slots s2 i vs (v + 1)" "seg_upd slots s3 i vs (v + 1)"
    using s1 s2 s3 r(2) by (auto simp: seg_upd_def)
  have "call_range cb c slots i n = Some (c', s1)"
    using len r s1(1) by (simp add: call_range_def)
  then have "finish_range wake v cb c i n q =
      Some (c', bq_upd q (if wake then s3 else s2) (bq_wakes q + (if wake then k else 0)))"
    using s2(1) s3(1) unfolding slots_def by (simp add: finish_range_def bq_upd_def)
  then show ?thesis using seg by (cases wake) auto
qed

lemma wait_range_ready:
  assumes "\<forall>j. i \<le> j \<and> j < i + n \<longrightarrow> j < length slots \<and> sf_version (slot_futex (slots ! j)) = v"
  shows "wait_range fw v slots i n = Some ()"
  using assms
proof (induction n arbitrary: i)
  case (Suc n)
  then have "wait_range fw v slots (Suc i) n = Some ()" by (intro Suc.IH) auto
  then show ?case using Suc.prems by (simp add: mem_read_def wait_alone_eq)
qed simp

lemma ready_count_eq:
  assumes "r \<le> n" and "\<forall>j. i \<le> j \<and> j < i + r \<longrightarrow> j < length slots \<and> sf_version (slot_futex (slots ! j)) = v"
    and "r < n \<longrightarrow> i + r < length slots \<and> sf_version (slot_futex (slots ! (i + r))) \<noteq> v"
  shows "ready_count v slots i n = Some r"
  using assms
proof (induction n arbitrary: i r)
  case (Suc n)
  show ?case
  proof (cases r)
    case 0
    then show ?thesis using Suc.prems by (auto simp: mem_read_def)
  next
    case (Suc r')
    have "ready_count v slots (Suc i) n = Some r'" using Suc.prems Suc by (intro Suc.IH) auto
    then show ?thesis using Suc.prems Suc by (auto simp: mem_read_def)
  qed
qed simp

section \<open>Invariant of the queue\<close>

definition bq_inv :: "'a bounded_queue \<Rightarrow> bool" where
  "bq_inv q \<longleftrightarrow> (\<exists>b<64. bq_slot_bits q = of_nat b \<and> bq_slot_mask q = 2 ^ b - 1 \<and> capacity q = 2 ^ b \<and>
     unat (bq_next_pop_index q) \<le> unat (bq_next_push_index q) \<and>
     unat (bq_next_push_index q) \<le> unat (bq_next_pop_index q) + 2 ^ b \<and>
     slots_ok (2 ^ b) (unat (bq_next_push_index q)) (unat (bq_next_pop_index q)) (sv_slots (bq_slots q)))"

definition bq_contents :: "'a bounded_queue \<Rightarrow> 'a list" where
  "bq_contents q = slots_contents (unat (capacity q)) (unat (bq_next_push_index q)) (unat (bq_next_pop_index q))
     (sv_slots (bq_slots q))"

definition bq_free :: "'a bounded_queue \<Rightarrow> nat" where
  "bq_free q = unat (capacity q) - length (bq_contents q)"

lemma length_bq_contents:
  "length (bq_contents q) = unat (bq_next_push_index q) - unat (bq_next_pop_index q)"
  by (simp add: bq_contents_def slots_contents_def)

lemma length_bq_contents_le: "bq_inv q \<Longrightarrow> length (bq_contents q) \<le> unat (capacity q)"
  by (auto simp: bq_inv_def length_bq_contents unat_pow2)

text \<open>\<open>bq_at q b P O'\<close>: the dimensions of \<open>q\<close> with its counters read as naturals.\<close>

definition bq_dims :: "'a bounded_queue \<Rightarrow> nat \<Rightarrow> bool" where
  "bq_dims q b \<longleftrightarrow> b < 64 \<and> bq_slot_bits q = of_nat b \<and> bq_slot_mask q = 2 ^ b - 1 \<and> capacity q = 2 ^ b"

lemma bq_dims_upd [simp]:
  "bq_dims (bq_upd q s k) b = bq_dims q b" "bq_dims (set_next_index p i q) b = bq_dims q b"
  "sv_slots (bq_slots (bq_upd q s k)) = s" "sv_slots (bq_slots (set_next_index p i q)) = sv_slots (bq_slots q)"
  "capacity (bq_upd q s k) = capacity q" "capacity (set_next_index p i q) = capacity q"
  by (simp_all add: bq_dims_def bq_upd_def set_next_index_def capacity_def)

lemma version_eq:
  assumes "bq_dims q b"
  shows "push_version_for_index q index = of_nat (2 * (unat index div 2 ^ b))"
    and "pop_version_for_index q index = of_nat (2 * (unat index div 2 ^ b) + 1)"
proof -
  have b: "b < 64" "unat (bq_slot_bits q) = b"
    using assms by (auto simp: bq_dims_def unat_of_nat_small less_trans)
  have u: "unat (push_bit 1 (drop_bit b index)) = 2 * (unat index div 2 ^ b) mod 2 ^ 64"
    using b(1) by (simp add: push_bit_eq_mult drop_bit_eq_div unat_word_ariths unat_div unat_pow2
        mod_simps mult.commute)
  show 1: "push_version_for_index q index = of_nat (2 * (unat index div 2 ^ b))"
    unfolding push_version_for_index_def b(2)
    by (rule word_unat_eq_iff [THEN iffD2]) (simp only: unat_ucast_mod u unat_of_nat, simp add: mod_mod_cancel)
  show "pop_version_for_index q index = of_nat (2 * (unat index div 2 ^ b) + 1)"
    by (simp add: pop_version_for_index_def 1)
qed

lemma slot_index_eq: "bq_dims q b \<Longrightarrow> unat (index AND bq_slot_mask q) = unat index mod 2 ^ b"
  by (simp add: bq_dims_def unat_and_pow2_minus_1)

lemma version_parity: "(of_nat (2 * a + 1) :: u16) \<noteq> of_nat (2 * c)"
proof
  assume eq: "(of_nat (2 * a + 1) :: u16) = of_nat (2 * c)"
  have "(2 * a + 1) mod 2 ^ LENGTH(16) = (2 * c) mod 2 ^ LENGTH(16)"
    using arg_cong [OF eq, of unat] by (simp only: unat_of_nat)
  moreover have "even ((2 * c) mod 2 ^ LENGTH(16))" by (simp add: dvd_mod_iff)
  moreover have "odd ((2 * a + 1) mod 2 ^ LENGTH(16))" by (simp add: dvd_mod_iff)
  ultimately show False by (simp only: simp_thms)
qed

section \<open>Dealing with consecutive slots\<close>

text \<open>
  \<open>bq_state q b P O'\<close>: the slots of \<open>q\<close> hold positions \<open>[O', P)\<close>, whatever the ticket counters say
  (a batch takes its tickets before it deals with its slots).
\<close>

definition bq_state :: "'a bounded_queue \<Rightarrow> nat \<Rightarrow> nat \<Rightarrow> nat \<Rightarrow> bool" where
  "bq_state q b P O' \<longleftrightarrow> bq_dims q b \<and> O' \<le> P \<and> P \<le> O' + 2 ^ b \<and> slots_ok (2 ^ b) P O' (sv_slots (bq_slots q))"

definition bq_window :: "'a bounded_queue \<Rightarrow> nat \<Rightarrow> nat \<Rightarrow> nat \<Rightarrow> 'a list" where
  "bq_window q b P O' = slots_contents (2 ^ b) P O' (sv_slots (bq_slots q))"

lemma bq_inv_state:
  "bq_inv q \<longleftrightarrow> (\<exists>b. bq_state q b (unat (bq_next_push_index q)) (unat (bq_next_pop_index q)))"
  by (auto simp: bq_inv_def bq_state_def bq_dims_def)

lemma bq_contents_window:
  "bq_dims q b \<Longrightarrow> bq_contents q = bq_window q b (unat (bq_next_push_index q)) (unat (bq_next_pop_index q))"
  by (simp add: bq_contents_def bq_window_def bq_dims_def unat_pow2)

lemma length_bq_window [simp]: "length (bq_window q b P O') = P - O'"
  by (simp add: bq_window_def slots_contents_def)

lemma bq_state_upd:
  "bq_state (bq_upd q s k) b P O' \<longleftrightarrow> bq_dims q b \<and> O' \<le> P \<and> P \<le> O' + 2 ^ b \<and> slots_ok (2 ^ b) P O' s"
  "bq_window (bq_upd q s k) b P O' = slots_contents (2 ^ b) P O' s"
  by (simp_all add: bq_state_def bq_window_def)

lemma bq_state_set_next [simp]:
  "bq_state (set_next_index p i q) b P O' = bq_state q b P O'"
  "bq_window (set_next_index p i q) b P O' = bq_window q b P O'"
  by (simp_all add: bq_state_def bq_window_def)

text \<open>Slots of the free part are ready for a push, those of the filled part for a pop.\<close>

lemma push_ready:
  assumes "bq_state q b P O'" and "unat index = P" and "P mod 2 ^ b + n \<le> 2 ^ b" and "P + n \<le> O' + 2 ^ b"
    and "P mod 2 ^ b \<le> j" and "j < P mod 2 ^ b + n"
  shows "j < length (sv_slots (bq_slots q))
    \<and> sf_version (slot_futex (sv_slots (bq_slots q) ! j)) = push_version_for_index q index"
proof -
  define i where "i = j - P mod 2 ^ b"
  have i: "i < n" "j = P mod 2 ^ b + i" using assms(5,6) by (auto simp: i_def)
  have m: "(P + i) mod 2 ^ b = j" "(P + i) div 2 ^ b = P div 2 ^ b"
    using mod_seg [of P "2 ^ b" i] i assms(3) by simp_all
  have "sf_version (slot_futex (sv_slots (bq_slots q) ! ((P + i) mod 2 ^ b))) = slot_version (2 ^ b) P (P + i)"
    using assms(1,4) i(1) by (simp add: bq_state_def slots_ok_def)
  moreover have "j < length (sv_slots (bq_slots q))"
    using assms(1,3,6) by (simp add: bq_state_def slots_ok_def)
  ultimately show ?thesis
    using assms(2) m version_eq(1) [of q b index] assms(1) by (simp add: slot_version_def bq_state_def)
qed

lemma pop_ready:
  assumes "bq_state q b P O'" and "unat index = O'" and "O' mod 2 ^ b + n \<le> 2 ^ b" and "O' + n \<le> P"
    and "O' mod 2 ^ b \<le> j" and "j < O' mod 2 ^ b + n"
  shows "j < length (sv_slots (bq_slots q))
    \<and> sf_version (slot_futex (sv_slots (bq_slots q) ! j)) = pop_version_for_index q index"
proof -
  define i where "i = j - O' mod 2 ^ b"
  have i: "i < n" "j = O' mod 2 ^ b + i" using assms(5,6) by (auto simp: i_def)
  have m: "(O' + i) mod 2 ^ b = j" "(O' + i) div 2 ^ b = O' div 2 ^ b"
    using mod_seg [of O' "2 ^ b" i] i assms(3) by simp_all
  have "O' + i < O' + 2 ^ b" using assms(3) i by linarith
  then have "sf_version (slot_futex (sv_slots (bq_slots q) ! ((O' + i) mod 2 ^ b))) = slot_version (2 ^ b) P (O' + i)"
    using assms(1) by (simp add: bq_state_def slots_ok_def)
  moreover have "j < length (sv_slots (bq_slots q))"
    using assms(1,3,6) by (simp add: bq_state_def slots_ok_def)
  ultimately show ?thesis
    using assms(2,4) m i(1) version_eq(2) [of q b index] assms(1) by (simp add: slot_version_def bq_state_def)
qed

lemma window_take:
  assumes "bq_state q b P O'" and "O' mod 2 ^ b + n \<le> 2 ^ b" and "O' + n \<le> P"
  shows "map slot_value (take n (drop (O' mod 2 ^ b) (sv_slots (bq_slots q)))) = take n (bq_window q b P O')"
proof (rule nth_equalityI)
  have len: "2 ^ b \<le> length (sv_slots (bq_slots q))" using assms(1) by (simp add: bq_state_def slots_ok_def)
  then show "length (map slot_value (take n (drop (O' mod 2 ^ b) (sv_slots (bq_slots q))))) =
      length (take n (bq_window q b P O'))" using assms(2,3) by simp
  fix i assume "i < length (map slot_value (take n (drop (O' mod 2 ^ b) (sv_slots (bq_slots q)))))"
  then have i: "i < n" by simp
  then have "(O' + i) mod 2 ^ b = O' mod 2 ^ b + i" using assms(2) by (intro mod_seg) simp
  moreover have "O' + i < P" using i assms(3) by simp
  ultimately show "map slot_value (take n (drop (O' mod 2 ^ b) (sv_slots (bq_slots q)))) ! i = take n (bq_window q b P O') ! i"
    using i len assms(2,3) by (simp add: bq_window_def slots_contents_def)
qed

lemma finish_range_push:
  assumes st: "bq_state q b P O'" and ix: "unat index = P" and fit: "P mod 2 ^ b + n \<le> 2 ^ b" "P + n \<le> O' + 2 ^ b"
    and cb: "cb (map slot_value (take n (drop (P mod 2 ^ b) (sv_slots (bq_slots q))))) c = (vs, c')" "length vs = n"
  shows "\<exists>s k. finish_range wake (push_version_for_index q index) cb c (P mod 2 ^ b) n q = Some (c', bq_upd q s k)
    \<and> bq_state (bq_upd q s k) b (P + n) O' \<and> bq_window (bq_upd q s k) b (P + n) O' = bq_window q b P O' @ vs"
proof -
  from st have d: "bq_dims q b" and ok: "slots_ok (2 ^ b) P O' (sv_slots (bq_slots q))" and O: "O' \<le> P"
    by (simp_all add: bq_state_def)
  have len: "P mod 2 ^ b + n \<le> length (sv_slots (bq_slots q))" using ok fit(1) by (simp add: slots_ok_def)
  from finish_range_seg [where wake = wake and cb = cb and c = c and v = "push_version_for_index q index", OF len cb] obtain s k where
    s: "finish_range wake (push_version_for_index q index) cb c (P mod 2 ^ b) n q = Some (c', bq_upd q s k)"
    "seg_upd (sv_slots (bq_slots q)) s (P mod 2 ^ b) vs (push_version_for_index q index + 1)" by blast
  have "push_version_for_index q index + 1 = of_nat (2 * (P div 2 ^ b) + 1)"
    using ix by (simp add: version_eq [OF d])
  then have "seg_upd (sv_slots (bq_slots q)) s (P mod 2 ^ b) vs (of_nat (2 * (P div 2 ^ b) + 1))" using s(2) by metis
  note seg = push_seg [OF ok _ _ O this, unfolded cb(2), OF fit]
  show ?thesis
    using s(1) seg d O fit(2) by (intro exI [of _ s] exI [of _ k]) (simp add: bq_state_upd bq_window_def)
qed

lemma finish_range_pop:
  assumes st: "bq_state q b P O'" and ix: "unat index = O'" and fit: "O' mod 2 ^ b + n \<le> 2 ^ b" "O' + n \<le> P"
    and cb: "cb (take n (bq_window q b P O')) c = (vs, c')" "length vs = n"
  shows "\<exists>s k. finish_range wake (pop_version_for_index q index) cb c (O' mod 2 ^ b) n q = Some (c', bq_upd q s k)
    \<and> bq_state (bq_upd q s k) b P (O' + n) \<and> bq_window (bq_upd q s k) b P (O' + n) = drop n (bq_window q b P O')"
proof -
  from st have d: "bq_dims q b" and ok: "slots_ok (2 ^ b) P O' (sv_slots (bq_slots q))" and P: "P \<le> O' + 2 ^ b"
    by (simp_all add: bq_state_def)
  have len: "O' mod 2 ^ b + n \<le> length (sv_slots (bq_slots q))" using ok fit(1) by (simp add: slots_ok_def)
  note cb' = cb(1) [folded window_take [OF st fit]]
  from finish_range_seg [where wake = wake and cb = cb and c = c and v = "pop_version_for_index q index", OF len cb' cb(2)] obtain s k where
    s: "finish_range wake (pop_version_for_index q index) cb c (O' mod 2 ^ b) n q = Some (c', bq_upd q s k)"
    "seg_upd (sv_slots (bq_slots q)) s (O' mod 2 ^ b) vs (pop_version_for_index q index + 1)" by blast
  have "pop_version_for_index q index + 1 = of_nat (2 * (O' div 2 ^ b) + 2)"
    using ix by (simp add: version_eq [OF d])
  then have "seg_upd (sv_slots (bq_slots q)) s (O' mod 2 ^ b) vs (of_nat (2 * (O' div 2 ^ b) + 2))" using s(2) by metis
  note seg = pop_seg [OF ok _ _ P this, unfolded cb(2), OF fit]
  show ?thesis
    using s(1) seg d P fit(2) by (intro exI [of _ s] exI [of _ k]) (simp add: bq_state_upd bq_window_def)
qed

lemma ready_push:
  assumes st: "bq_state q b P O'" and ix: "unat index = P" and r: "r \<le> n" "P mod 2 ^ b + r \<le> 2 ^ b"
    "P + r \<le> O' + 2 ^ b" "r < n \<Longrightarrow> P + r = O' + 2 ^ b \<and> P mod 2 ^ b + r < 2 ^ b"
  shows "ready_count (push_version_for_index q index) (sv_slots (bq_slots q)) (P mod 2 ^ b) n = Some r"
proof (rule ready_count_eq [OF r(1)])
  show "\<forall>j. P mod 2 ^ b \<le> j \<and> j < P mod 2 ^ b + r \<longrightarrow> j < length (sv_slots (bq_slots q)) \<and>
      sf_version (slot_futex (sv_slots (bq_slots q) ! j)) = push_version_for_index q index"
    using push_ready [OF st ix r(2,3)] by blast
  show "r < n \<longrightarrow> P mod 2 ^ b + r < length (sv_slots (bq_slots q)) \<and>
      sf_version (slot_futex (sv_slots (bq_slots q) ! (P mod 2 ^ b + r))) \<noteq> push_version_for_index q index"
  proof
    assume "r < n"
    note f = r(4) [OF this]
    have ok: "slots_ok (2 ^ b) P O' (sv_slots (bq_slots q))" and d: "bq_dims q b" using st by (simp_all add: bq_state_def)
    have O: "O' < P" using f by (metis add.commute add_less_cancel_left le_add2 le_less_trans)
    have "P mod 2 ^ b + r = (O' + 2 ^ b) mod 2 ^ b" using f mod_seg(1) [of P "2 ^ b" r] by simp
    then have slot: "P mod 2 ^ b + r = O' mod 2 ^ b" by simp
    have "sf_version (slot_futex (sv_slots (bq_slots q) ! (O' mod 2 ^ b))) = of_nat (2 * (O' div 2 ^ b) + 1)"
      using ok O by (simp add: slots_ok_def slot_version_def)
    then have "sf_version (slot_futex (sv_slots (bq_slots q) ! (O' mod 2 ^ b))) \<noteq> push_version_for_index q index"
      using version_parity version_eq(1) [OF d, of index] by metis
    then show "P mod 2 ^ b + r < length (sv_slots (bq_slots q)) \<and>
      sf_version (slot_futex (sv_slots (bq_slots q) ! (P mod 2 ^ b + r))) \<noteq> push_version_for_index q index"
      using slot ok f less_le_trans [OF mod_less_divisor [of "2 ^ b" O']] by (simp add: slots_ok_def)
  qed
qed

lemma ready_pop:
  assumes st: "bq_state q b P O'" and ix: "unat index = O'" and r: "r \<le> n" "O' mod 2 ^ b + r \<le> 2 ^ b"
    "O' + r \<le> P" "r < n \<Longrightarrow> O' + r = P \<and> O' mod 2 ^ b + r < 2 ^ b"
  shows "ready_count (pop_version_for_index q index) (sv_slots (bq_slots q)) (O' mod 2 ^ b) n = Some r"
proof (rule ready_count_eq [OF r(1)])
  show "\<forall>j. O' mod 2 ^ b \<le> j \<and> j < O' mod 2 ^ b + r \<longrightarrow> j < length (sv_slots (bq_slots q)) \<and>
      sf_version (slot_futex (sv_slots (bq_slots q) ! j)) = pop_version_for_index q index"
    using pop_ready [OF st ix r(2,3)] by blast
  show "r < n \<longrightarrow> O' mod 2 ^ b + r < length (sv_slots (bq_slots q)) \<and>
      sf_version (slot_futex (sv_slots (bq_slots q) ! (O' mod 2 ^ b + r))) \<noteq> pop_version_for_index q index"
  proof
    assume "r < n"
    note f = r(4) [OF this]
    have ok: "slots_ok (2 ^ b) P O' (sv_slots (bq_slots q))" and d: "bq_dims q b" using st by (simp_all add: bq_state_def)
    have slot: "O' mod 2 ^ b + r = P mod 2 ^ b" using f mod_seg(1) [of O' "2 ^ b" r] by simp
    have "O' \<le> P" "P < O' + 2 ^ b" using f by linarith+
    then have "sf_version (slot_futex (sv_slots (bq_slots q) ! (P mod 2 ^ b))) = of_nat (2 * (P div 2 ^ b))"
      using ok by (simp add: slots_ok_def slot_version_def)
    then have "sf_version (slot_futex (sv_slots (bq_slots q) ! (P mod 2 ^ b))) \<noteq> pop_version_for_index q index"
      using version_parity version_eq(2) [OF d, of index] by metis
    then show "O' mod 2 ^ b + r < length (sv_slots (bq_slots q)) \<and>
      sf_version (slot_futex (sv_slots (bq_slots q) ! (O' mod 2 ^ b + r))) \<noteq> pop_version_for_index q index"
      using slot ok f less_le_trans [OF mod_less_divisor [of "2 ^ b" P]] by (simp add: slots_ok_def)
  qed
qed

text \<open>Waiting for a range succeeds exactly if all its slots are ready.\<close>

lemma wait_range_ready_count:
  "ready_count v slots i n = Some r \<Longrightarrow> wait_range fw v slots i n = (if r = n then Some () else None)"
proof (induction n arbitrary: i r)
  case (Suc n)
  from Suc.prems obtain sl where sl: "mem_read slots i = Some sl" by (auto split: bind_splits)
  show ?case
  proof (cases "v = sf_version (slot_futex sl)")
    case True
    then obtain r' where "ready_count v slots (Suc i) n = Some r'" "r = Suc r'"
      using Suc.prems sl by (auto split: bind_splits)
    then show ?thesis using Suc.IH [of "Suc i" r'] True sl by (simp add: wait_alone_eq)
  next
    case False
    then show ?thesis using Suc.prems sl by (auto simp: wait_alone_eq)
  qed
qed simp

definition batch_ok :: "('a, 'c) batch_callback \<Rightarrow> bool" where
  "batch_ok cb \<longleftrightarrow> (\<forall>vs c. length (fst (cb vs c)) = length vs)"

text \<open>\<open>writes cb c n vs c'\<close>: on any range of \<open>n\<close> elements the callback writes \<open>vs\<close>.\<close>

definition writes :: "('a, 'c) batch_callback \<Rightarrow> 'c \<Rightarrow> nat \<Rightarrow> 'a list \<Rightarrow> 'c \<Rightarrow> bool" where
  "writes cb c n vs c' \<longleftrightarrow> length vs = n \<and> (\<forall>dest. length dest = n \<longrightarrow> cb dest c = (vs, c'))"

lemma deal_range_push:
  assumes st: "bq_state q b P O'" and ix: "unat index = P" and n: "unat num = n"
    and fit: "P mod 2 ^ b + n \<le> 2 ^ b" "P + n \<le> O' + 2 ^ b" and cb: "writes cb c n vs c'"
  shows "\<exists>s k. deal_n_continuously fw wake True cb c index num q = Some (c', bq_upd q s k)
    \<and> bq_state (bq_upd q s k) b (P + n) O' \<and> bq_window (bq_upd q s k) b (P + n) O' = bq_window q b P O' @ vs"
proof -
  have d: "bq_dims q b" and len: "2 ^ b \<le> length (sv_slots (bq_slots q))"
    using st by (simp_all add: bq_state_def slots_ok_def)
  have "ready_count (push_version_for_index q index) (sv_slots (bq_slots q)) (P mod 2 ^ b) n = Some n"
    using fit by (intro ready_push [OF st ix]) simp_all
  note w = wait_range_ready_count [OF this, of fw]
  have "cb (map slot_value (take n (drop (P mod 2 ^ b) (sv_slots (bq_slots q))))) c = (vs, c')" "length vs = n"
    using cb len fit(1) by (simp_all add: writes_def)
  from finish_range_push [where cb = cb and c = c and wake = wake, OF st ix fit this] w show ?thesis
    by (simp add: deal_n_continuously_def expected_version_for_def slot_index_eq [OF d] ix n)
qed

lemma deal_range_pop:
  assumes st: "bq_state q b P O'" and ix: "unat index = O'" and n: "unat num = n"
    and fit: "O' mod 2 ^ b + n \<le> 2 ^ b" "O' + n \<le> P" and cb: "batch_ok cb"
  shows "\<exists>s k. deal_n_continuously fw wake False cb c index num q =
      Some (snd (cb (take n (bq_window q b P O')) c), bq_upd q s k)
    \<and> bq_state (bq_upd q s k) b P (O' + n) \<and> bq_window (bq_upd q s k) b P (O' + n) = drop n (bq_window q b P O')"
proof -
  have d: "bq_dims q b" using st by (simp add: bq_state_def)
  obtain vs c' where r: "cb (take n (bq_window q b P O')) c = (vs, c')" by fastforce
  have "length vs = n" using cb r fit(2) by (metis batch_ok_def fst_conv length_bq_window length_take min.absorb2 add_le_imp_le_diff add.commute)
  note f = finish_range_pop [where cb = cb and c = c and wake = wake, OF st ix fit r this]
  have "ready_count (pop_version_for_index q index) (sv_slots (bq_slots q)) (O' mod 2 ^ b) n = Some n"
    using fit by (intro ready_pop [OF st ix]) simp_all
  note w = wait_range_ready_count [OF this, of fw]
  from f w show ?thesis
    by (simp add: deal_n_continuously_def expected_version_for_def slot_index_eq [OF d] ix n r)
qed

lemma try_range_push:
  assumes st: "bq_state q b P O'" and ix: "unat index = P" and nx: "next_index True q = index"
    and r: "r = min (unat num) (O' + 2 ^ b - P)" "P mod 2 ^ b + r \<le> 2 ^ b"
      "r < unat num \<Longrightarrow> P mod 2 ^ b + r < 2 ^ b"
    and cb: "writes cb c r vs c'"
  shows "\<exists>s k. try_deal_n_continuously conc wake True cb c index num q =
      Some (of_nat r, if r = 0 then c else c', bq_upd (set_next_index True (index + of_nat r) q) s k)
    \<and> bq_state (bq_upd q s k) b (P + r) O' \<and> bq_window (bq_upd q s k) b (P + r) O' = bq_window q b P O' @ vs"
proof -
  have d: "bq_dims q b" and len: "2 ^ b \<le> length (sv_slots (bq_slots q))" and PO: "O' \<le> P" "P \<le> O' + 2 ^ b"
    using st by (simp_all add: bq_state_def slots_ok_def)
  have fit: "P + r \<le> O' + 2 ^ b" using r(1) PO(2) by simp
  have "r < unat num \<Longrightarrow> P + r = O' + 2 ^ b \<and> P mod 2 ^ b + r < 2 ^ b" using r PO(2) by (auto simp: min_def split: if_splits)
  then have rc: "ready_count (push_version_for_index q index) (sv_slots (bq_slots q)) (P mod 2 ^ b) (unat num) = Some r"
    using fit r by (intro ready_push [OF st ix]) simp_all
  have "r \<le> unat num" using r(1) by simp
  then have rl: "r < 2 ^ 64" using unat_less_2p [of num] by simp
  have un: "unat (of_nat r :: u64) = r" using rl by (intro unat_of_nat_small) simp
  show ?thesis
  proof (cases "r = 0")
    case True
    then have "vs = []" using cb by (simp add: writes_def)
    moreover have "bq_upd (set_next_index True index q) (sv_slots (bq_slots q)) (bq_wakes q) = q"
      using nx by (simp add: bq_upd_def set_next_index_def next_index_def)
    moreover have "bq_state (bq_upd q (sv_slots (bq_slots q)) (bq_wakes q)) b P O'"
      "bq_window (bq_upd q (sv_slots (bq_slots q)) (bq_wakes q)) b P O' = bq_window q b P O'"
      using st by (simp_all add: bq_state_upd bq_state_def bq_window_def)
    ultimately show ?thesis
      using rc True
      by (intro exI [of _ "sv_slots (bq_slots q)"] exI [of _ "bq_wakes q"])
        (simp add: try_deal_n_continuously_def expected_version_for_def slot_index_eq [OF d] ix)
  next
    case False
    then have nz: "(of_nat r :: u64) \<noteq> 0" using un by auto
    let ?q = "set_next_index True (index + of_nat r) q"
    have st': "bq_state ?q b P O'" using st by simp
    have cb': "cb (map slot_value (take r (drop (P mod 2 ^ b) (sv_slots (bq_slots ?q))))) c = (vs, c')" "length vs = r"
      using cb len r(2) by (simp_all add: writes_def)
    from finish_range_push [where cb = cb and c = c and wake = wake, OF st' ix r(2) fit cb']
    obtain s k where s: "finish_range wake (push_version_for_index ?q index) cb c (P mod 2 ^ b) r ?q = Some (c', bq_upd ?q s k)"
      "bq_state (bq_upd ?q s k) b (P + r) O'" "bq_window (bq_upd ?q s k) b (P + r) O' = bq_window ?q b P O' @ vs" by blast
    have "push_version_for_index ?q index = push_version_for_index q index"
      by (simp add: push_version_for_index_def set_next_index_def)
    then show ?thesis
      using s rc nz nx un False
      by (intro exI [of _ s] exI [of _ k])
        (simp add: try_deal_n_continuously_def expected_version_for_def slot_index_eq [OF d] ix bq_state_upd Let_def)
  qed
qed

lemma try_range_pop:
  assumes st: "bq_state q b P O'" and ix: "unat index = O'" and nx: "next_index False q = index"
    and r: "r = min (unat num) (P - O')" "O' mod 2 ^ b + r \<le> 2 ^ b"
      "r < unat num \<Longrightarrow> O' mod 2 ^ b + r < 2 ^ b"
    and cb: "batch_ok cb"
  shows "\<exists>s k. try_deal_n_continuously conc wake False cb c index num q =
      Some (of_nat r, if r = 0 then c else snd (cb (take r (bq_window q b P O')) c),
        bq_upd (set_next_index False (index + of_nat r) q) s k)
    \<and> bq_state (bq_upd q s k) b P (O' + r) \<and> bq_window (bq_upd q s k) b P (O' + r) = drop r (bq_window q b P O')"
proof -
  have d: "bq_dims q b" and PO: "O' \<le> P" "P \<le> O' + 2 ^ b" using st by (simp_all add: bq_state_def)
  have fit: "O' + r \<le> P" using r(1) PO(1) by simp
  have "r < unat num \<Longrightarrow> O' + r = P \<and> O' mod 2 ^ b + r < 2 ^ b" using r PO(1) by (auto simp: min_def split: if_splits)
  then have rc: "ready_count (pop_version_for_index q index) (sv_slots (bq_slots q)) (O' mod 2 ^ b) (unat num) = Some r"
    using fit r by (intro ready_pop [OF st ix]) simp_all
  have "r \<le> unat num" using r(1) by simp
  then have rl: "r < 2 ^ 64" using unat_less_2p [of num] by simp
  have un: "unat (of_nat r :: u64) = r" using rl by (intro unat_of_nat_small) simp
  show ?thesis
  proof (cases "r = 0")
    case True
    moreover have "bq_upd (set_next_index False index q) (sv_slots (bq_slots q)) (bq_wakes q) = q"
      using nx by (simp add: bq_upd_def set_next_index_def next_index_def)
    moreover have "bq_state (bq_upd q (sv_slots (bq_slots q)) (bq_wakes q)) b P O'"
      "bq_window (bq_upd q (sv_slots (bq_slots q)) (bq_wakes q)) b P O' = bq_window q b P O'"
      using st by (simp_all add: bq_state_upd bq_state_def bq_window_def)
    ultimately show ?thesis
      using rc
      by (intro exI [of _ "sv_slots (bq_slots q)"] exI [of _ "bq_wakes q"])
        (simp add: try_deal_n_continuously_def expected_version_for_def slot_index_eq [OF d] ix)
  next
    case False
    then have nz: "(of_nat r :: u64) \<noteq> 0" using un by auto
    let ?q = "set_next_index False (index + of_nat r) q"
    have st': "bq_state ?q b P O'" using st by simp
    obtain vs c' where v: "cb (take r (bq_window ?q b P O')) c = (vs, c')" by fastforce
    have "length vs = r" using cb [unfolded batch_ok_def, rule_format, of "take r (bq_window ?q b P O')" c] v fit by simp
    from finish_range_pop [where cb = cb and c = c and wake = wake, OF st' ix r(2) fit v this]
    obtain s k where s: "finish_range wake (pop_version_for_index ?q index) cb c (O' mod 2 ^ b) r ?q = Some (c', bq_upd ?q s k)"
      "bq_state (bq_upd ?q s k) b P (O' + r)" "bq_window (bq_upd ?q s k) b P (O' + r) = drop r (bq_window ?q b P O')" by blast
    have "pop_version_for_index ?q index = pop_version_for_index q index"
      by (simp add: pop_version_for_index_def push_version_for_index_def set_next_index_def)
    then show ?thesis
      using s rc nz nx un False v
      by (intro exI [of _ s] exI [of _ k])
        (simp add: try_deal_n_continuously_def expected_version_for_def slot_index_eq [OF d] ix bq_state_upd Let_def)
  qed
qed

section \<open>Rounds\<close>

lemma next_round_eq:
  assumes d: "bq_dims q b" and small: "unat index + 2 ^ b < 2 ^ 64"
  shows "unat (next_round_begin_index q index) = unat index - unat index mod 2 ^ b + 2 ^ b"
proof -
  have b: "b < 64" and m: "bq_slot_mask q = 2 ^ b - 1" using d by (simp_all add: bq_dims_def)
  have "unat (index + 2 ^ b) = unat index + 2 ^ b"
    using small b by (subst unat_add_small) (simp_all add: unat_pow2)
  then have "unat ((index + 2 ^ b) AND - (2 ^ b)) = (unat index + 2 ^ b) div 2 ^ b * 2 ^ b"
    by (simp only: unat_and_minus_pow2)
  moreover have "NOT (2 ^ b - 1 :: u64) = - (2 ^ b)" by (simp add: not_eq_complement)
  ultimately have "unat (next_round_begin_index q index) = (unat index + 2 ^ b) div 2 ^ b * 2 ^ b"
    by (simp add: next_round_begin_index_def m)
  also have "\<dots> = unat index div 2 ^ b * 2 ^ b + 2 ^ b"
    using div_add_self2 [of "2 ^ b :: nat" "unat index"] by simp
  also have "unat index div 2 ^ b * 2 ^ b = unat index - unat index mod 2 ^ b"
    by (simp add: minus_mod_eq_div_mult)
  finally show ?thesis .
qed

text \<open>What remains of the round, and that the rest starts the next one.\<close>

lemma round_arith:
  assumes d: "bq_dims q b" and small: "unat index + unat num + 2 ^ b < 2 ^ 64"
  defines "R \<equiv> next_round_begin_index q index"
  shows "unat (R - index) = 2 ^ b - unat index mod 2 ^ b"
    and "index + num \<le> R \<longleftrightarrow> unat index mod 2 ^ b + unat num \<le> 2 ^ b"
    and "unat R = unat index + (2 ^ b - unat index mod 2 ^ b)"
    and "\<not> index + num \<le> R \<Longrightarrow> unat (index + num - R) = unat num - (2 ^ b - unat index mod 2 ^ b)"
    and "R = index + (R - index)" and "unat R mod 2 ^ b = 0"
proof -
  let ?P = "unat index" and ?m = "unat index mod 2 ^ b"
  have m: "?m < 2 ^ b" "?m \<le> ?P" by simp_all
  have R: "unat R = ?P - ?m + 2 ^ b" unfolding R_def using d small by (intro next_round_eq) simp_all
  then show R': "unat R = ?P + (2 ^ b - ?m)" using m by linarith
  then have "index \<le> R" unfolding word_le_nat_alt by linarith
  then show "unat (R - index) = 2 ^ b - ?m" using R' by (simp add: unat_sub)
  have s: "unat (index + num) = ?P + unat num" using small by (subst unat_add_small) simp_all
  show le: "index + num \<le> R \<longleftrightarrow> ?m + unat num \<le> 2 ^ b"
    unfolding word_le_nat_alt s R' using m by linarith
  show "unat (index + num - R) = unat num - (2 ^ b - ?m)" if "\<not> index + num \<le> R"
  proof -
    have "unat (index + num - R) = ?P + unat num - unat R" using that by (simp add: unat_sub s)
    then show ?thesis unfolding R' using m by linarith
  qed
  show "R = index + (R - index)" by simp
  have "unat R = (?P div 2 ^ b + 1) * 2 ^ b" using R by (simp add: minus_mod_eq_div_mult)
  then show "unat R mod 2 ^ b = 0" by simp
qed

lemma writes_copy_in: "m \<le> length src \<Longrightarrow> writes copy_in src m (take m src) (drop m src)"
  by (simp add: writes_def copy_in_def)

lemma batch_ok_copy_out: "batch_ok copy_out"
  by (simp add: batch_ok_def copy_out_def)

text \<open>The result of an operation: new positions and contents, the counters set to them.\<close>

definition bq_result :: "'a bounded_queue \<Rightarrow> 'a bounded_queue \<Rightarrow> 'a list \<Rightarrow> bool" where
  "bq_result q q' xs \<longleftrightarrow> bq_inv q' \<and> bq_contents q' = xs \<and> capacity q' = capacity q"

lemma bq_resultI:
  assumes "bq_state q' b P O'" and "unat (bq_next_push_index q') = P" and "unat (bq_next_pop_index q') = O'"
    and "bq_window q' b P O' = xs" and "capacity q' = capacity q"
  shows "bq_result q q' xs"
  using assms by (auto simp: bq_result_def bq_inv_state bq_contents_window [of q' b] bq_state_def)

lemma bq_invE:
  assumes "bq_inv q"
  obtains b where "bq_state q b (unat (bq_next_push_index q)) (unat (bq_next_pop_index q))" "bq_dims q b"
    "unat (capacity q) = 2 ^ b" "bq_contents q = bq_window q b (unat (bq_next_push_index q)) (unat (bq_next_pop_index q))"
    "bq_free q = unat (bq_next_pop_index q) + 2 ^ b - unat (bq_next_push_index q)"
proof -
  from assms obtain b where st: "bq_state q b (unat (bq_next_push_index q)) (unat (bq_next_pop_index q))"
    by (auto simp: bq_inv_state)
  then have d: "bq_dims q b" by (simp add: bq_state_def)
  then have c: "unat (capacity q) = 2 ^ b" by (simp add: bq_dims_def unat_pow2)
  show ?thesis
    using that [OF st d c bq_contents_window [OF d]] st c by (simp add: bq_free_def length_bq_contents bq_state_def)
qed

section \<open>Every operation\<close>

subsection \<open>Single elements\<close>

lemma finish_slot_push:
  assumes st: "bq_state q b P O'" and ix: "unat index = P" and room: "P < O' + 2 ^ b"
  shows "\<exists>s k. finish_slot wake (push_version_for_index q index) (\<lambda>_ c. (x, c)) c (P mod 2 ^ b) q = Some (c, bq_upd q s k)
    \<and> bq_state (bq_upd q s k) b (P + 1) O' \<and> bq_window (bq_upd q s k) b (P + 1) O' = bq_window q b P O' @ [x]"
proof -
  from st have d: "bq_dims q b" and ok: "slots_ok (2 ^ b) P O' (sv_slots (bq_slots q))" and O: "O' \<le> P"
    by (simp_all add: bq_state_def)
  have fit: "P mod 2 ^ b + length [x] \<le> 2 ^ b" "P + length [x] \<le> O' + 2 ^ b"
    using room mod_less_divisor [of "2 ^ b" P] by (simp_all add: Suc_le_eq)
  have len: "P mod 2 ^ b < length (sv_slots (bq_slots q))" using ok fit(1) by (simp add: slots_ok_def)
  from finish_slot_seg [OF len, of wake "push_version_for_index q index" "\<lambda>_ c. (x, c)" c] obtain s k where
    s: "finish_slot wake (push_version_for_index q index) (\<lambda>_ c. (x, c)) c (P mod 2 ^ b) q = Some (c, bq_upd q s k)"
    "seg_upd (sv_slots (bq_slots q)) s (P mod 2 ^ b) [x] (push_version_for_index q index + 1)" by auto
  have "push_version_for_index q index + 1 = of_nat (2 * (P div 2 ^ b) + 1)"
    using ix by (simp add: version_eq [OF d])
  then have "seg_upd (sv_slots (bq_slots q)) s (P mod 2 ^ b) [x] (of_nat (2 * (P div 2 ^ b) + 1))" using s(2) by metis
  note seg = push_seg [OF ok fit O this]
  show ?thesis
    using s(1) seg d O room by (intro exI [of _ s] exI [of _ k]) (simp add: bq_state_upd bq_window_def)
qed

lemma finish_slot_pop:
  assumes st: "bq_state q b P O'" and ix: "unat index = O'" and some: "O' < P"
  shows "\<exists>s k. finish_slot wake (pop_version_for_index q index) (\<lambda>v c. (f v, v)) c (O' mod 2 ^ b) q =
      Some (hd (bq_window q b P O'), bq_upd q s k)
    \<and> bq_state (bq_upd q s k) b P (O' + 1) \<and> bq_window (bq_upd q s k) b P (O' + 1) = tl (bq_window q b P O')"
proof -
  let ?slots = "sv_slots (bq_slots q)"
  from st have d: "bq_dims q b" and ok: "slots_ok (2 ^ b) P O' ?slots" and P: "P \<le> O' + 2 ^ b"
    by (simp_all add: bq_state_def)
  have hd: "slot_value (?slots ! (O' mod 2 ^ b)) = hd (bq_window q b P O')"
    using some by (simp add: bq_window_def slots_contents_def upt_conv_Cons)
  let ?y = "f (hd (bq_window q b P O'))"
  have fit: "O' mod 2 ^ b + length [?y] \<le> 2 ^ b" "O' + length [?y] \<le> P"
    using some mod_less_divisor [of "2 ^ b" O'] by (simp_all add: Suc_le_eq)
  have len: "O' mod 2 ^ b < length ?slots" using ok fit(1) by (simp add: slots_ok_def)
  from finish_slot_seg [OF len, of wake "pop_version_for_index q index" "\<lambda>v c. (f v, v)" c] obtain s k where
    s: "finish_slot wake (pop_version_for_index q index) (\<lambda>v c. (f v, v)) c (O' mod 2 ^ b) q =
      Some (hd (bq_window q b P O'), bq_upd q s k)"
    "seg_upd ?slots s (O' mod 2 ^ b) [?y] (pop_version_for_index q index + 1)" by (auto simp: hd)
  have "pop_version_for_index q index + 1 = of_nat (2 * (O' div 2 ^ b) + 2)"
    using ix by (simp add: version_eq [OF d])
  then have "seg_upd ?slots s (O' mod 2 ^ b) [?y] (of_nat (2 * (O' div 2 ^ b) + 2))" using s(2) by metis
  note seg = pop_seg [OF ok fit P this]
  show ?thesis
    using s(1) seg d P some
    by (intro exI [of _ s] exI [of _ k]) (simp add: bq_state_upd bq_window_def drop_Suc)
qed

lemma ready_count_1:
  "ready_count v (sv_slots (bq_slots q)) i 1 = Some r \<Longrightarrow>
     \<exists>w. bq_futex q i = Some w \<and> (sf_version w = v \<longleftrightarrow> r = 1)"
  by (auto simp: bq_futex_def split: bind_splits if_splits)

lemma push_slot:
  assumes st: "bq_state q b P O'" and ix: "unat index = P"
  shows "\<exists>w. bq_futex q (P mod 2 ^ b) = Some w \<and> (sf_version w = push_version_for_index q index \<longleftrightarrow> P < O' + 2 ^ b)"
proof -
  have "ready_count (push_version_for_index q index) (sv_slots (bq_slots q)) (P mod 2 ^ b) 1 =
      Some (if P < O' + 2 ^ b then 1 else 0)"
    using st mod_less_divisor [of "2 ^ b" P]
    by (intro ready_push [OF st ix]) (auto simp: bq_state_def Suc_le_eq split: if_splits)
  from ready_count_1 [OF this] show ?thesis by (auto split: if_splits)
qed

lemma pop_slot:
  assumes st: "bq_state q b P O'" and ix: "unat index = O'"
  shows "\<exists>w. bq_futex q (O' mod 2 ^ b) = Some w \<and> (sf_version w = pop_version_for_index q index \<longleftrightarrow> O' < P)"
proof -
  have "ready_count (pop_version_for_index q index) (sv_slots (bq_slots q)) (O' mod 2 ^ b) 1 =
      Some (if O' < P then 1 else 0)"
    using st mod_less_divisor [of "2 ^ b" O']
    by (intro ready_pop [OF st ix]) (auto simp: bq_state_def Suc_le_eq split: if_splits)
  from ready_count_1 [OF this] show ?thesis by (auto split: if_splits)
qed

lemma set_next_version [simp]:
  "push_version_for_index (set_next_index p i q) = push_version_for_index q"
  "pop_version_for_index (set_next_index p i q) = pop_version_for_index q"
  "bq_slot_mask (set_next_index p i q) = bq_slot_mask q" "bq_futex (set_next_index p i q) = bq_futex q"
  by (auto simp: push_version_for_index_def pop_version_for_index_def set_next_index_def bq_futex_def)

lemma counters_upd [simp]:
  "bq_next_push_index (bq_upd q s k) = bq_next_push_index q" "bq_next_pop_index (bq_upd q s k) = bq_next_pop_index q"
  "bq_next_push_index (set_next_index True i q) = i" "bq_next_pop_index (set_next_index True i q) = bq_next_pop_index q"
  "bq_next_push_index (set_next_index False i q) = bq_next_push_index q" "bq_next_pop_index (set_next_index False i q) = i"
  by (simp_all add: bq_upd_def set_next_index_def)

lemma unat_Suc_index: "unat (i :: u64) + 1 < 2 ^ 64 \<Longrightarrow> unat (i + 1) = unat i + 1"
  by (subst unat_add_small) simp_all

lemma push_spec:
  assumes inv: "bq_inv q" and small: "unat (bq_next_push_index q) + 1 < 2 ^ 64"
  shows "if bq_free q = 0 then push conc fw wake x q = None \<and> try_push conc wake x q = Some (False, q)
    else \<exists>q'. push conc fw wake x q = Some q' \<and> try_push conc wake x q = Some (True, q') \<and>
      bq_result q q' (bq_contents q @ [x]) \<and> unat (bq_next_push_index q') = unat (bq_next_push_index q) + 1"
proof -
  from inv obtain b where st: "bq_state q b (unat (bq_next_push_index q)) (unat (bq_next_pop_index q))"
    and d: "bq_dims q b" and c: "bq_contents q = bq_window q b (unat (bq_next_push_index q)) (unat (bq_next_pop_index q))"
    and f: "bq_free q = unat (bq_next_pop_index q) + 2 ^ b - unat (bq_next_push_index q)" by (rule bq_invE)
  let ?i = "bq_next_push_index q" let ?P = "unat ?i" and ?O = "unat (bq_next_pop_index q)"
  let ?q = "set_next_index True (?i + 1) q"
  have st': "bq_state ?q b ?P ?O" using st by simp
  obtain w where w: "bq_futex q (?P mod 2 ^ b) = Some w"
    "sf_version w = push_version_for_index q ?i \<longleftrightarrow> ?P < ?O + 2 ^ b" using push_slot [OF st refl] by blast
  show ?thesis
  proof (cases "bq_free q = 0")
    case True
    then have "\<not> ?P < ?O + 2 ^ b" using f by simp
    then show ?thesis
      using True w
      by (auto simp: push_def push_callback_def take_ticket_def next_index_def deal_def expected_version_for_def
          slot_index_eq [OF d] wait_alone_eq try_push_def try_push_callback_def try_deal_def Let_def)
  next
    case False
    then have room: "?P < ?O + 2 ^ b" using f by simp
    from finish_slot_push [OF st' refl room, of wake x "()"] obtain s k where
      s: "finish_slot wake (push_version_for_index q ?i) (\<lambda>_ c. (x, c)) () (?P mod 2 ^ b) ?q = Some ((), bq_upd ?q s k)"
      "bq_state (bq_upd ?q s k) b (?P + 1) ?O" "bq_window (bq_upd ?q s k) b (?P + 1) ?O = bq_window q b ?P ?O @ [x]" by auto
    have "bq_result q (bq_upd ?q s k) (bq_contents q @ [x])"
      using s(2,3) small by (intro bq_resultI [where b = b]) (simp_all add: c unat_Suc_index)
    then show ?thesis
      using False w room s(1) small
      by (auto simp: push_def push_callback_def take_ticket_def next_index_def deal_def expected_version_for_def
          slot_index_eq [OF d] wait_alone_eq try_push_def try_push_callback_def try_deal_def Let_def unat_Suc_index)
  qed
qed

lemma pop_spec:
  assumes inv: "bq_inv q"
  shows "case bq_contents q of
      [] \<Rightarrow> pop f conc fw wake y q = None \<and> try_pop f conc wake y q = Some (False, y, q)
    | x # xs \<Rightarrow> \<exists>q'. pop f conc fw wake y q = Some (x, q') \<and> try_pop f conc wake y q = Some (True, x, q') \<and>
        bq_result q q' xs \<and> bq_next_push_index q' = bq_next_push_index q"
proof -
  from inv obtain b where st: "bq_state q b (unat (bq_next_push_index q)) (unat (bq_next_pop_index q))"
    and d: "bq_dims q b" and c: "bq_contents q = bq_window q b (unat (bq_next_push_index q)) (unat (bq_next_pop_index q))"
    by (rule bq_invE)
  let ?i = "bq_next_pop_index q" let ?O = "unat ?i" and ?P = "unat (bq_next_push_index q)"
  let ?q = "set_next_index False (?i + 1) q"
  have st': "bq_state ?q b ?P ?O" using st by simp
  obtain w where w: "bq_futex q (?O mod 2 ^ b) = Some w"
    "sf_version w = pop_version_for_index q ?i \<longleftrightarrow> ?O < ?P" using pop_slot [OF st refl] by blast
  show ?thesis
  proof (cases "bq_contents q")
    case Nil
    then have "\<not> ?O < ?P" using length_bq_contents [of q] by simp
    then show ?thesis
      using Nil w
      by (auto simp: pop_def pop_callback_def take_ticket_def next_index_def deal_def expected_version_for_def
          slot_index_eq [OF d] wait_alone_eq try_pop_def try_pop_callback_def try_deal_def Let_def)
  next
    case (Cons x xs)
    then have some: "?O < ?P" using length_bq_contents [of q] by simp
    have w1: "bq_window q b ?P ?O = x # xs" using c Cons by simp
    from finish_slot_pop [OF st' refl some, of wake f y] obtain s k where
      s: "finish_slot wake (pop_version_for_index q ?i) (\<lambda>v c. (f v, v)) y (?O mod 2 ^ b) ?q = Some (x, bq_upd ?q s k)"
      "bq_state (bq_upd ?q s k) b ?P (?O + 1)" "bq_window (bq_upd ?q s k) b ?P (?O + 1) = xs"
      by (auto simp: w1)
    have "?O + 1 < 2 ^ 64" using some unat_less_2p [of "bq_next_push_index q"] by simp
    then have "bq_result q (bq_upd ?q s k) xs"
      using s(2,3) by (intro bq_resultI [where b = b]) (simp_all add: unat_Suc_index)
    then show ?thesis
      using Cons w some s(1)
      by (auto simp: pop_def pop_callback_def take_ticket_def next_index_def deal_def expected_version_for_def
          slot_index_eq [OF d] wait_alone_eq try_pop_def try_pop_callback_def try_deal_def Let_def)
  qed
qed

end
