(* ===== verification/BoundedQueueBatch.thy ===== *)
theory BoundedQueueBatch
  imports BoundedQueueSpec
begin

text \<open>
  The batch operations of the bounded queue, \<open>clear\<close> and the (re)initialisation: a batch is cut where
  the slots wrap, and its two parts together append or remove exactly the elements asked for. The theory
  ends with the refinement of any sequence of operations to a bounded FIFO list.
\<close>

section \<open>Blocking\<close>

lemma deal_range_push_blocked:
  assumes st: "bq_state q b P O'" and ix: "unat index = P"
    and full: "O' + 2 ^ b - P < unat num" "P mod 2 ^ b + (O' + 2 ^ b - P) < 2 ^ b"
  shows "deal_n_continuously fw wake True cb c index num q = None"
proof -
  have d: "bq_dims q b" and PO: "P \<le> O' + 2 ^ b" using st by (simp_all add: bq_state_def)
  have "ready_count (push_version_for_index q index) (sv_slots (bq_slots q)) (P mod 2 ^ b) (unat num) = Some (O' + 2 ^ b - P)"
    using full PO by (intro ready_push [OF st ix]) simp_all
  from wait_range_ready_count [OF this, of fw] full(1) show ?thesis
    by (simp add: deal_n_continuously_def expected_version_for_def slot_index_eq [OF d] ix)
qed

lemma deal_range_pop_blocked:
  assumes st: "bq_state q b P O'" and ix: "unat index = O'"
    and empty: "P - O' < unat num" "O' mod 2 ^ b + (P - O') < 2 ^ b"
  shows "deal_n_continuously fw wake False cb c index num q = None"
proof -
  have d: "bq_dims q b" and PO: "O' \<le> P" using st by (simp_all add: bq_state_def)
  have "ready_count (pop_version_for_index q index) (sv_slots (bq_slots q)) (O' mod 2 ^ b) (unat num) = Some (P - O')"
    using empty PO by (intro ready_pop [OF st ix]) simp_all
  from wait_range_ready_count [OF this, of fw] empty(1) show ?thesis
    by (simp add: deal_n_continuously_def expected_version_for_def slot_index_eq [OF d] ix)
qed

lemma mod_pow2_less: "(p :: nat) mod 2 ^ b < 2 ^ b"
  by simp

lemma next_round_set_next [simp]: "next_round_begin_index (set_next_index p i q) = next_round_begin_index q"
  by (auto simp: next_round_begin_index_def set_next_index_def)

lemma next_round_upd [simp]: "next_round_begin_index (bq_upd q s k) = next_round_begin_index q"
  by (auto simp: next_round_begin_index_def bq_upd_def)

section \<open>push_n and pop_n\<close>

lemma deal_n_push:
  assumes st: "bq_state q b P O'" and P: "unat (bq_next_push_index q) = P"
    and n: "n = length src" "P + n + 2 ^ b < 2 ^ 64" and room: "P + n \<le> O' + 2 ^ b"
  shows "\<exists>q'. deal_n conc fw wake True copy_in src (of_nat n) q = Some ([], q') \<and> bq_state q' b (P + n) O'
    \<and> bq_window q' b (P + n) O' = bq_window q b P O' @ src \<and> unat (bq_next_push_index q') = P + n
    \<and> bq_next_pop_index q' = bq_next_pop_index q \<and> capacity q' = capacity q"
proof -
  define i where "i = bq_next_push_index q"
  define R where "R = next_round_begin_index q i"
  let ?q = "set_next_index True (i + of_nat n) q" and ?m = "2 ^ b - P mod 2 ^ b"
  have d: "bq_dims q b" using st by (simp add: bq_state_def)
  have un: "unat (of_nat n :: u64) = n" using n(2) by (intro unat_of_nat_small) simp
  have iP: "unat i = P" using P by (simp add: i_def)
  have ar: "unat i + unat (of_nat n :: u64) + 2 ^ b < 2 ^ 64" using n(2) un iP by simp
  note ra = round_arith [OF d ar, folded R_def, unfolded iP un]
  have st': "bq_state ?q b P O'" using st by simp
  have nxt: "unat (i + of_nat n) = P + n" using n(2) un iP by (subst unat_add_small) simp_all
  show ?thesis
  proof (cases "i + of_nat n \<le> R")
    case True
    then have fit: "P mod 2 ^ b + n \<le> 2 ^ b" using ra(2) by simp
    from deal_range_push [OF st' iP un fit room writes_copy_in [of n src], of fw wake] n(1) obtain s k where
      "deal_n_continuously fw wake True copy_in src i (of_nat n) ?q = Some ([], bq_upd ?q s k)"
      "bq_state (bq_upd ?q s k) b (P + n) O'" "bq_window (bq_upd ?q s k) b (P + n) O' = bq_window q b P O' @ src" by auto
    then show ?thesis
      using True nxt by (auto simp: deal_n_def take_ticket_def next_index_def i_def [symmetric] R_def [symmetric] Let_def)
  next
    case False
    then have "\<not> P mod 2 ^ b + n \<le> 2 ^ b" using ra(2) by simp
    then have m: "?m < n" using mod_pow2_less [of P b] by linarith
    have mn: "unat (R - i) = ?m" "unat R = P + ?m" "unat (i + of_nat n - R) = n - ?m" using ra(1,3) ra(4) [OF False] by simp_all
    have fit: "P mod 2 ^ b + ?m \<le> 2 ^ b" "P + ?m \<le> O' + 2 ^ b" using m room by simp_all
    from deal_range_push [OF st' iP mn(1) fit writes_copy_in [of ?m src], of fw wake] n(1) m obtain s k where
      a: "deal_n_continuously fw wake True copy_in src i (R - i) ?q = Some (drop ?m src, bq_upd ?q s k)"
      "bq_state (bq_upd ?q s k) b (P + ?m) O'"
      "bq_window (bq_upd ?q s k) b (P + ?m) O' = bq_window q b P O' @ take ?m src" by auto
    have z: "(P + ?m) mod 2 ^ b = 0" using ra(6) mn(2) by simp
    have PO: "O' \<le> P" "P mod 2 ^ b < 2 ^ b" using st by (simp_all add: bq_state_def)
    have fit2: "(P + ?m) mod 2 ^ b + (n - ?m) \<le> 2 ^ b" "P + ?m + (n - ?m) \<le> O' + 2 ^ b" unfolding z using room m PO by linarith+
    have sum: "P + ?m + (n - ?m) = P + n" using m by linarith
    from deal_range_push [OF a(2) mn(2,3) fit2 writes_copy_in [of "n - ?m" "drop ?m src"], of fw wake] n(1) m
    obtain t l where
      t: "deal_n_continuously fw wake True copy_in (drop ?m src) R (i + of_nat n - R) (bq_upd ?q s k) =
        Some ([], bq_upd (bq_upd ?q s k) t l)"
      "bq_state (bq_upd (bq_upd ?q s k) t l) b (P + n) O'"
      "bq_window (bq_upd (bq_upd ?q s k) t l) b (P + n) O' = (bq_window q b P O' @ take ?m src) @ drop ?m src"
      unfolding sum a(3) by auto
    show ?thesis
      using False nxt a(1) t
      by (auto simp: deal_n_def take_ticket_def next_index_def i_def [symmetric] R_def [symmetric] Let_def)
  qed
qed

lemma deal_n_push_blocked:
  assumes st: "bq_state q b P O'" and P: "unat (bq_next_push_index q) = P"
    and n: "n = length src" "P + n + 2 ^ b < 2 ^ 64" and full: "\<not> P + n \<le> O' + 2 ^ b"
  shows "deal_n conc fw wake True copy_in src (of_nat n) q = None"
proof -
  define i where "i = bq_next_push_index q"
  define R where "R = next_round_begin_index q i"
  let ?q = "set_next_index True (i + of_nat n) q" and ?m = "2 ^ b - P mod 2 ^ b"
  have d: "bq_dims q b" and PO: "O' \<le> P" "P mod 2 ^ b < 2 ^ b" "P \<le> O' + 2 ^ b" using st by (simp_all add: bq_state_def)
  have un: "unat (of_nat n :: u64) = n" using n(2) by (intro unat_of_nat_small) simp
  have iP: "unat i = P" using P by (simp add: i_def)
  have ar: "unat i + unat (of_nat n :: u64) + 2 ^ b < 2 ^ 64" using n(2) un iP by simp
  note ra = round_arith [OF d ar, folded R_def, unfolded iP un]
  have st': "bq_state ?q b P O'" using st by simp
  show ?thesis
  proof (cases "i + of_nat n \<le> R")
    case True
    then have "P mod 2 ^ b + n \<le> 2 ^ b" using ra(2) by simp
    then have "P mod 2 ^ b + (O' + 2 ^ b - P) < 2 ^ b" using full PO(3) by linarith
    moreover have "O' + 2 ^ b - P < n" using full PO(3) by linarith
    ultimately show ?thesis
      using True deal_range_push_blocked [OF st' iP, of "of_nat n" fw wake copy_in src]
      by (simp add: deal_n_def take_ticket_def next_index_def i_def [symmetric] R_def [symmetric] Let_def un)
  next
    case False
    then have "\<not> P mod 2 ^ b + n \<le> 2 ^ b" using ra(2) by simp
    then have m: "?m < n" using mod_pow2_less [of P b] by linarith
    have mn: "unat (R - i) = ?m" "unat R = P + ?m" "unat (i + of_nat n - R) = n - ?m" using ra(1,3) ra(4) [OF False] by simp_all
    have "\<exists>c q'. deal_n_continuously fw wake True copy_in src i (R - i) ?q = Some (c, q') \<and>
        deal_n_continuously fw wake True copy_in c R (i + of_nat n - R) q' = None \<or>
        deal_n_continuously fw wake True copy_in src i (R - i) ?q = None"
    proof (cases "P + ?m \<le> O' + 2 ^ b")
      case True
      then have fit: "P mod 2 ^ b + ?m \<le> 2 ^ b" "P + ?m \<le> O' + 2 ^ b" by simp_all
      from deal_range_push [OF st' iP mn(1) fit writes_copy_in [of ?m src], of fw wake] n(1) m obtain s k where
        a: "deal_n_continuously fw wake True copy_in src i (R - i) ?q = Some (drop ?m src, bq_upd ?q s k)"
        "bq_state (bq_upd ?q s k) b (P + ?m) O'" by auto
      have z: "(P + ?m) mod 2 ^ b = 0" using ra(6) mn(2) by simp
      have "O' + 2 ^ b - (P + ?m) < unat (i + of_nat n - R)"
        "(P + ?m) mod 2 ^ b + (O' + 2 ^ b - (P + ?m)) < 2 ^ b" unfolding z mn(3) using True full m PO by linarith+
      from deal_range_push_blocked [OF a(2) mn(2) this, of fw wake copy_in "drop ?m src"] a(1) show ?thesis by simp
    next
      case False
      then have "O' + 2 ^ b - P < unat (R - i)" "P mod 2 ^ b + (O' + 2 ^ b - P) < 2 ^ b" unfolding mn(1) using PO by linarith+
      from deal_range_push_blocked [OF st' iP this, of fw wake copy_in src] show ?thesis by simp
    qed
    then show ?thesis
      using False by (auto simp: deal_n_def take_ticket_def next_index_def i_def [symmetric] R_def [symmetric] Let_def)
  qed
qed

text \<open>\<open>copy_out\<close> collects the elements in order, whatever the cut.\<close>

lemma snd_copy_out [simp]: "snd (copy_out xs out) = out @ xs"
  by (simp add: copy_out_def)

lemma deal_n_pop:
  assumes st: "bq_state q b P O'" and O: "unat (bq_next_pop_index q) = O'"
    and n: "n = unat num" "O' + n + 2 ^ b < 2 ^ 64" and some: "O' + n \<le> P"
  shows "\<exists>q'. deal_n conc fw wake False copy_out c num q = Some (c @ take n (bq_window q b P O'), q') \<and> bq_state q' b P (O' + n)
    \<and> bq_window q' b P (O' + n) = drop n (bq_window q b P O') \<and> unat (bq_next_pop_index q') = O' + n
    \<and> bq_next_push_index q' = bq_next_push_index q \<and> capacity q' = capacity q"
proof -
  define i where "i = bq_next_pop_index q"
  define R where "R = next_round_begin_index q i"
  let ?q = "set_next_index False (i + num) q" and ?m = "2 ^ b - O' mod 2 ^ b"
  have d: "bq_dims q b" using st by (simp add: bq_state_def)
  have iO: "unat i = O'" using O by (simp add: i_def)
  have ar: "unat i + unat num + 2 ^ b < 2 ^ 64" using n iO by simp
  note ra = round_arith [OF d ar, folded R_def, unfolded iO n(1) [symmetric]]
  have st': "bq_state ?q b P O'" using st by simp
  have nxt: "unat (i + num) = O' + n" using n iO by (subst unat_add_small) simp_all
  show ?thesis
  proof (cases "i + num \<le> R")
    case True
    then have fit: "O' mod 2 ^ b + n \<le> 2 ^ b" using ra(2) by simp
    from deal_range_pop [OF st' iO n(1) [symmetric] fit some batch_ok_copy_out, of fw wake c] obtain s k where
      "deal_n_continuously fw wake False copy_out c i num ?q = Some (c @ take n (bq_window q b P O'), bq_upd ?q s k)"
      "bq_state (bq_upd ?q s k) b P (O' + n)" "bq_window (bq_upd ?q s k) b P (O' + n) = drop n (bq_window q b P O')" by auto
    then show ?thesis
      using True nxt by (auto simp: deal_n_def take_ticket_def next_index_def i_def [symmetric] R_def [symmetric] Let_def)
  next
    case False
    then have "\<not> O' mod 2 ^ b + n \<le> 2 ^ b" using ra(2) by simp
    then have m: "?m < n" using mod_pow2_less [of O' b] by linarith
    have mn: "unat (R - i) = ?m" "unat R = O' + ?m" "unat (i + num - R) = n - ?m" using ra(1,3) ra(4) [OF False] by simp_all
    have fit: "O' mod 2 ^ b + ?m \<le> 2 ^ b" "O' + ?m \<le> P" using m some by simp_all
    from deal_range_pop [OF st' iO mn(1) fit batch_ok_copy_out, of fw wake c] obtain s k where
      a: "deal_n_continuously fw wake False copy_out c i (R - i) ?q = Some (c @ take ?m (bq_window q b P O'), bq_upd ?q s k)"
      "bq_state (bq_upd ?q s k) b P (O' + ?m)"
      "bq_window (bq_upd ?q s k) b P (O' + ?m) = drop ?m (bq_window q b P O')" by auto
    have z: "(O' + ?m) mod 2 ^ b = 0" using ra(6) mn(2) by simp
    have PO: "P \<le> O' + 2 ^ b" "O' mod 2 ^ b < 2 ^ b" using st by (simp_all add: bq_state_def)
    have fit2: "(O' + ?m) mod 2 ^ b + (n - ?m) \<le> 2 ^ b" "O' + ?m + (n - ?m) \<le> P" unfolding z using some m PO by linarith+
    have sum: "O' + ?m + (n - ?m) = O' + n" using m by linarith
    from deal_range_pop [OF a(2) mn(2,3) fit2 batch_ok_copy_out, of fw wake "c @ take ?m (bq_window q b P O')"]
    obtain t l where
      t: "deal_n_continuously fw wake False copy_out (c @ take ?m (bq_window q b P O')) R (i + num - R) (bq_upd ?q s k) =
        Some ((c @ take ?m (bq_window q b P O')) @ take (n - ?m) (drop ?m (bq_window q b P O')), bq_upd (bq_upd ?q s k) t l)"
      "bq_state (bq_upd (bq_upd ?q s k) t l) b P (O' + n)"
      "bq_window (bq_upd (bq_upd ?q s k) t l) b P (O' + n) = drop (n - ?m) (drop ?m (bq_window q b P O'))"
      unfolding sum a(3) by auto
    have "take ?m (bq_window q b P O') @ take (n - ?m) (drop ?m (bq_window q b P O')) = take n (bq_window q b P O')"
      using m by (metis le_add_diff_inverse less_imp_le_nat take_add)
    then show ?thesis
      using False nxt a(1) t m
      by (auto simp: deal_n_def take_ticket_def next_index_def i_def [symmetric] R_def [symmetric] Let_def)
  qed
qed

lemma deal_n_pop_blocked:
  assumes st: "bq_state q b P O'" and O: "unat (bq_next_pop_index q) = O'"
    and n: "n = unat num" "O' + n + 2 ^ b < 2 ^ 64" and empty: "\<not> O' + n \<le> P"
  shows "deal_n conc fw wake False copy_out c num q = None"
proof -
  define i where "i = bq_next_pop_index q"
  define R where "R = next_round_begin_index q i"
  let ?q = "set_next_index False (i + num) q" and ?m = "2 ^ b - O' mod 2 ^ b"
  have d: "bq_dims q b" and PO: "O' \<le> P" "O' mod 2 ^ b < 2 ^ b" "P \<le> O' + 2 ^ b" using st by (simp_all add: bq_state_def)
  have iO: "unat i = O'" using O by (simp add: i_def)
  have ar: "unat i + unat num + 2 ^ b < 2 ^ 64" using n iO by simp
  note ra = round_arith [OF d ar, folded R_def, unfolded iO n(1) [symmetric]]
  have st': "bq_state ?q b P O'" using st by simp
  show ?thesis
  proof (cases "i + num \<le> R")
    case True
    then have "O' mod 2 ^ b + n \<le> 2 ^ b" using ra(2) by simp
    then have "P - O' < unat num" "O' mod 2 ^ b + (P - O') < 2 ^ b" using empty PO n(1) by linarith+
    from deal_range_pop_blocked [OF st' iO this, of fw wake copy_out c] True show ?thesis
      by (simp add: deal_n_def take_ticket_def next_index_def i_def [symmetric] R_def [symmetric] Let_def)
  next
    case False
    then have "\<not> O' mod 2 ^ b + n \<le> 2 ^ b" using ra(2) by simp
    then have m: "?m < n" using PO(2) by linarith
    have mn: "unat (R - i) = ?m" "unat R = O' + ?m" "unat (i + num - R) = n - ?m" using ra(1,3) ra(4) [OF False] by simp_all
    have "\<exists>c' q'. deal_n_continuously fw wake False copy_out c i (R - i) ?q = Some (c', q') \<and>
        deal_n_continuously fw wake False copy_out c' R (i + num - R) q' = None \<or>
        deal_n_continuously fw wake False copy_out c i (R - i) ?q = None"
    proof (cases "O' + ?m \<le> P")
      case True
      then have fit: "O' mod 2 ^ b + ?m \<le> 2 ^ b" "O' + ?m \<le> P" by simp_all
      from deal_range_pop [OF st' iO mn(1) fit batch_ok_copy_out, of fw wake c] obtain c' s k where
        a: "deal_n_continuously fw wake False copy_out c i (R - i) ?q = Some (c', bq_upd ?q s k)"
        "bq_state (bq_upd ?q s k) b P (O' + ?m)" by auto
      have z: "(O' + ?m) mod 2 ^ b = 0" using ra(6) mn(2) by simp
      have "P - (O' + ?m) < unat (i + num - R)"
        "(O' + ?m) mod 2 ^ b + (P - (O' + ?m)) < 2 ^ b" unfolding z mn(3) using True empty m PO by linarith+
      from deal_range_pop_blocked [OF a(2) mn(2) this, of fw wake copy_out c'] a(1) show ?thesis by simp
    next
      case False
      then have "P - O' < unat (R - i)" "O' mod 2 ^ b + (P - O') < 2 ^ b" unfolding mn(1) using PO by linarith+
      from deal_range_pop_blocked [OF st' iO this, of fw wake copy_out c] show ?thesis by simp
    qed
    then show ?thesis
      using False by (auto simp: deal_n_def take_ticket_def next_index_def i_def [symmetric] R_def [symmetric] Let_def)
  qed
qed

section \<open>try_push_n and try_pop_n\<close>

lemma min_split: "m \<le> n \<Longrightarrow> m \<le> f \<Longrightarrow> min n f = m + min (n - m) (f - m)" for m :: nat
  by simp

lemma next_index_simps [simp]:
  "next_index True q = bq_next_push_index q" "next_index False q = bq_next_pop_index q"
  by (simp_all add: next_index_def)

lemma try_deal_n_push:
  assumes st: "bq_state q b P O'" and P: "unat (bq_next_push_index q) = P"
    and n: "n = length src" "P + n + 2 ^ b < 2 ^ 64" and r: "r = min n (O' + 2 ^ b - P)"
  shows "\<exists>q'. try_deal_n conc wake True copy_in src (of_nat n) q = Some (of_nat r, drop r src, q') \<and> bq_state q' b (P + r) O'
    \<and> bq_window q' b (P + r) O' = bq_window q b P O' @ take r src \<and> unat (bq_next_push_index q') = P + r
    \<and> bq_next_pop_index q' = bq_next_pop_index q \<and> capacity q' = capacity q"
proof -
  define i where "i = bq_next_push_index q"
  define R where "R = next_round_begin_index q i"
  let ?m = "2 ^ b - P mod 2 ^ b"
  have d: "bq_dims q b" and PO: "O' \<le> P" "P mod 2 ^ b < 2 ^ b" "P \<le> O' + 2 ^ b" using st by (simp_all add: bq_state_def)
  have un: "unat (of_nat n :: u64) = n" using n(2) by (intro unat_of_nat_small) simp
  have iP: "unat i = P" using P by (simp add: i_def)
  have ar: "unat i + unat (of_nat n :: u64) + 2 ^ b < 2 ^ 64" using n(2) un iP by simp
  note ra = round_arith [OF d ar, folded R_def, unfolded iP un]
  have nx: "next_index True q = i" by (simp add: i_def)
  have rn: "r \<le> n" using r by simp
  have adv: "unat (i + of_nat k) = P + k" if "k \<le> n" for k
    using n(2) that iP by (subst unat_add_small) (simp_all add: unat_of_nat_small)
  show ?thesis
  proof (cases "i + of_nat n \<le> R")
    case True
    then have fit: "P mod 2 ^ b + n \<le> 2 ^ b" using ra(2) by simp
    have r': "r = min (unat (of_nat n :: u64)) (O' + 2 ^ b - P)" "P mod 2 ^ b + r \<le> 2 ^ b"
      "r < unat (of_nat n :: u64) \<Longrightarrow> P mod 2 ^ b + r < 2 ^ b" using r fit un by simp_all
    from try_range_push [OF st iP nx r' writes_copy_in [of r src], of conc wake] n(1) rn obtain s k where
      "try_deal_n_continuously conc wake True copy_in src i (of_nat n) q =
        Some (of_nat r, drop r src, bq_upd (set_next_index True (i + of_nat r) q) s k)"
      "bq_state (bq_upd q s k) b (P + r) O'" "bq_window (bq_upd q s k) b (P + r) O' = bq_window q b P O' @ take r src"
      by (auto split: if_splits)
    then show ?thesis
      using True adv [OF rn]
      by (auto simp: try_deal_n_def i_def [symmetric] R_def [symmetric] Let_def bq_state_upd)
  next
    case False
    then have "\<not> P mod 2 ^ b + n \<le> 2 ^ b" using ra(2) by simp
    then have m: "?m < n" using PO(2) by linarith
    have mn: "unat (R - i) = ?m" "unat R = P + ?m" "unat (i + of_nat n - R) = n - ?m" using ra(1,3) ra(4) [OF False] by simp_all
    define r1 where "r1 = min ?m (O' + 2 ^ b - P)"
    have r1: "r1 = min (unat (R - i)) (O' + 2 ^ b - P)" "P mod 2 ^ b + r1 \<le> 2 ^ b"
      "r1 < unat (R - i) \<Longrightarrow> P mod 2 ^ b + r1 < 2 ^ b" unfolding r1_def mn(1) using PO(2) by (auto simp: min_def)
    have r1n: "r1 \<le> n" "r1 \<le> length src" using m n(1) by (simp_all add: r1_def)
    from try_range_push [OF st iP nx r1 writes_copy_in [OF r1n(2)], of conc wake] obtain s k where
      a: "try_deal_n_continuously conc wake True copy_in src i (R - i) q =
        Some (of_nat r1, drop r1 src, bq_upd (set_next_index True (i + of_nat r1) q) s k)"
      "bq_state (bq_upd q s k) b (P + r1) O'" "bq_window (bq_upd q s k) b (P + r1) O' = bq_window q b P O' @ take r1 src"
      by (auto split: if_splits)
    have ur1: "unat (of_nat r1 :: u64) = r1" using r1n(1) n(2) by (intro unat_of_nat_small) simp
    show ?thesis
    proof (cases "r1 < ?m")
      case True
      then have "r = r1" using r m by (simp add: r1_def min_def split: if_splits)
      moreover have "(of_nat r1 :: u64) < R - i" using True mn(1) ur1 by (simp add: word_less_nat_alt)
      ultimately show ?thesis
        using False a adv [OF r1n(1)]
        by (auto simp: try_deal_n_def i_def [symmetric] R_def [symmetric] Let_def bq_state_upd)
    next
      case nl: False
      then have rm: "r1 = ?m" by (simp add: r1_def)
      then have Ri: "i + of_nat r1 = R" "\<not> (of_nat r1 :: u64) < R - i"
        using mn(1,2) ur1 adv [OF r1n(1)] by (simp_all add: word_less_nat_alt word_unat_eq_iff)
      let ?q = "bq_upd (set_next_index True R q) s k"
      have st': "bq_state ?q b (P + r1) O'" "bq_window ?q b (P + r1) O' = bq_window q b P O' @ take r1 src"
        using a(2,3) by (simp_all add: bq_state_upd)
      have z: "(P + r1) mod 2 ^ b = 0" using ra(6) mn(2) rm by simp
      have pos: "0 < r1" unfolding rm using PO(2) by simp
      then have lt: "O' + 2 ^ b - (P + r1) < 2 ^ b" using PO by linarith
      define r2 where "r2 = min (n - ?m) (O' + 2 ^ b - (P + r1))"
      have r2: "r2 = min (unat (i + of_nat n - R)) (O' + 2 ^ b - (P + r1))" "(P + r1) mod 2 ^ b + r2 \<le> 2 ^ b"
        "r2 < unat (i + of_nat n - R) \<Longrightarrow> (P + r1) mod 2 ^ b + r2 < 2 ^ b"
        unfolding r2_def mn(3) z using lt by (auto simp: min_def)
      have sum: "r = r1 + r2" using min_split [of r1 n "O' + 2 ^ b - P"] m r1(1) unfolding r r2_def rm [symmetric] by simp
      have R1: "unat R = P + r1" "next_index True ?q = R" using mn(2) rm by simp_all
      have "r2 \<le> length (drop r1 src)" using rn n(1) sum by simp
      note tr = try_range_push [OF st'(1) R1 r2 writes_copy_in [OF this], of conc wake]
      have e1: "P + r1 + r2 = P + r" "(if r2 = 0 then drop r1 src else drop r2 (drop r1 src)) = drop r src"
        "(xs @ take r1 src) @ take r2 (drop r1 src) = xs @ take r src" for xs
        using sum by (auto simp: take_add add.commute)
      from tr [unfolded st'(2) e1] obtain t l where
        t: "try_deal_n_continuously conc wake True copy_in (drop r1 src) R (i + of_nat n - R) ?q =
          Some (of_nat r2, drop r src, bq_upd (set_next_index True (R + of_nat r2) ?q) t l)"
        "bq_state (bq_upd ?q t l) b (P + r) O'"
        "bq_window (bq_upd ?q t l) b (P + r) O' = bq_window q b P O' @ take r src"
        by blast
      have "unat (R + of_nat r2) = P + r" using adv [OF rn] sum Ri(1) by (simp add: add.assoc [symmetric])
      then show ?thesis
        using False a(1) t Ri
        by (auto simp: try_deal_n_def i_def [symmetric] R_def [symmetric] Let_def bq_state_upd sum)
    qed
  qed
qed

text \<open>What a batch callback is left with after the two parts of a batch.\<close>

definition feed :: "('a, 'c) batch_callback \<Rightarrow> 'a list \<Rightarrow> 'c \<Rightarrow> 'c" where
  "feed cb xs c = (if xs = [] then c else snd (cb xs c))"

lemma feed_take: "r \<le> length w \<Longrightarrow> (if r = 0 then c else snd (cb (take r w) c)) = feed cb (take r w) c"
  by (auto simp: feed_def)

lemma feed_copy_out [simp]: "feed copy_out xs c = c @ xs"
  by (simp add: feed_def)

lemma try_deal_n_pop:
  assumes st: "bq_state q b P O'" and O: "unat (bq_next_pop_index q) = O'" and cb: "batch_ok cb"
    and n: "n = unat num" "O' + n + 2 ^ b < 2 ^ 64" and r: "r = min n (P - O')"
  shows "\<exists>q' k. try_deal_n conc wake False cb c num q =
      Some (of_nat r, feed cb (take (r - k) (drop k (bq_window q b P O'))) (feed cb (take k (bq_window q b P O')) c), q')
    \<and> k \<le> r \<and> bq_state q' b P (O' + r)
    \<and> bq_window q' b P (O' + r) = drop r (bq_window q b P O') \<and> unat (bq_next_pop_index q') = O' + r
    \<and> bq_next_push_index q' = bq_next_push_index q \<and> capacity q' = capacity q"
proof -
  define i where "i = bq_next_pop_index q"
  define R where "R = next_round_begin_index q i"
  let ?m = "2 ^ b - O' mod 2 ^ b" and ?w = "bq_window q b P O'"
  have d: "bq_dims q b" and PO: "O' \<le> P" "O' mod 2 ^ b < 2 ^ b" "P \<le> O' + 2 ^ b" using st by (simp_all add: bq_state_def)
  have iO: "unat i = O'" using O by (simp add: i_def)
  have ar: "unat i + unat num + 2 ^ b < 2 ^ 64" using n iO by simp
  note ra = round_arith [OF d ar, folded R_def, unfolded iO n(1) [symmetric]]
  have nx: "next_index False q = i" by (simp add: i_def)
  have rn: "r \<le> n" "r \<le> length ?w" using r by simp_all
  have adv: "unat (i + of_nat k) = O' + k" if "k \<le> n" for k
    using n(2) that iO by (subst unat_add_small) (simp_all add: unat_of_nat_small)
  show ?thesis
  proof (cases "i + num \<le> R")
    case True
    then have fit: "O' mod 2 ^ b + n \<le> 2 ^ b" using ra(2) by simp
    have r': "r = min (unat num) (P - O')" "O' mod 2 ^ b + r \<le> 2 ^ b"
      "r < unat num \<Longrightarrow> O' mod 2 ^ b + r < 2 ^ b" using r fit n(1) by (auto simp: min_def)
    from try_range_pop [OF st iO nx r' cb, of conc wake c, unfolded feed_take [OF rn(2)]] obtain s k where
      "try_deal_n_continuously conc wake False cb c i num q =
        Some (of_nat r, feed cb (take r ?w) c, bq_upd (set_next_index False (i + of_nat r) q) s k)"
      "bq_state (bq_upd q s k) b P (O' + r)" "bq_window (bq_upd q s k) b P (O' + r) = drop r ?w"
      by blast
    then show ?thesis
      using True adv [OF rn(1)]
      by (intro exI [of _ "bq_upd (set_next_index False (i + of_nat r) q) s k"] exI [of _ 0])
        (auto simp: try_deal_n_def i_def [symmetric] R_def [symmetric] Let_def bq_state_upd feed_def)
  next
    case False
    then have "\<not> O' mod 2 ^ b + n \<le> 2 ^ b" using ra(2) by simp
    then have m: "?m < n" using PO(2) by linarith
    have mn: "unat (R - i) = ?m" "unat R = O' + ?m" "unat (i + num - R) = n - ?m" using ra(1,3) ra(4) [OF False] by simp_all
    define r1 where "r1 = min ?m (P - O')"
    have r1: "r1 = min (unat (R - i)) (P - O')" "O' mod 2 ^ b + r1 \<le> 2 ^ b"
      "r1 < unat (R - i) \<Longrightarrow> O' mod 2 ^ b + r1 < 2 ^ b" unfolding r1_def mn(1) using PO(2) by (auto simp: min_def)
    have r1n: "r1 \<le> n" "r1 \<le> length ?w" using m by (simp_all add: r1_def)
    from try_range_pop [OF st iO nx r1 cb, of conc wake c, unfolded feed_take [OF r1n(2)]] obtain s k where
      a: "try_deal_n_continuously conc wake False cb c i (R - i) q =
        Some (of_nat r1, feed cb (take r1 ?w) c, bq_upd (set_next_index False (i + of_nat r1) q) s k)"
      "bq_state (bq_upd q s k) b P (O' + r1)" "bq_window (bq_upd q s k) b P (O' + r1) = drop r1 ?w"
      by blast
    have ur1: "unat (of_nat r1 :: u64) = r1" using r1n(1) n(2) by (intro unat_of_nat_small) simp
    show ?thesis
    proof (cases "r1 < ?m")
      case True
      then have "r = r1" using r m by (simp add: r1_def min_def split: if_splits)
      moreover have "(of_nat r1 :: u64) < R - i" using True mn(1) ur1 by (simp add: word_less_nat_alt)
      ultimately show ?thesis
        using False a adv [OF r1n(1)]
        by (intro exI [of _ "bq_upd (set_next_index False (i + of_nat r) q) s k"] exI [of _ 0])
          (auto simp: try_deal_n_def i_def [symmetric] R_def [symmetric] Let_def bq_state_upd feed_def)
    next
      case nl: False
      then have rm: "r1 = ?m" by (simp add: r1_def)
      then have Ri: "i + of_nat r1 = R" "\<not> (of_nat r1 :: u64) < R - i"
        using mn(1,2) ur1 adv [OF r1n(1)] by (simp_all add: word_less_nat_alt word_unat_eq_iff)
      let ?q = "bq_upd (set_next_index False R q) s k"
      have st': "bq_state ?q b P (O' + r1)" "bq_window ?q b P (O' + r1) = drop r1 ?w"
        using a(2,3) by (simp_all add: bq_state_upd)
      have z: "(O' + r1) mod 2 ^ b = 0" using ra(6) mn(2) rm by simp
      have pos: "0 < r1" unfolding rm using PO(2) by simp
      then have lt: "P - (O' + r1) < 2 ^ b" using PO by linarith
      define r2 where "r2 = min (n - ?m) (P - (O' + r1))"
      have r2: "r2 = min (unat (i + num - R)) (P - (O' + r1))" "(O' + r1) mod 2 ^ b + r2 \<le> 2 ^ b"
        "r2 < unat (i + num - R) \<Longrightarrow> (O' + r1) mod 2 ^ b + r2 < 2 ^ b"
        unfolding r2_def mn(3) z using lt by (auto simp: min_def)
      have sum: "r = r1 + r2" using min_split [of r1 n "P - O'"] m r1(1) unfolding r r2_def rm [symmetric] by simp
      have R1: "unat R = O' + r1" "next_index False ?q = R" using mn(2) rm by simp_all
      have l2: "r2 \<le> length (drop r1 ?w)" using rn(2) sum by simp
      let ?c = "feed cb (take r1 ?w) c"
      have e: "O' + r1 + r2 = O' + r" "drop r2 (drop r1 ?w) = drop r ?w" "r2 = r - r1"
        using sum by (simp_all add: add.commute)
      from try_range_pop [OF st'(1) R1 r2 cb, of conc wake ?c, unfolded st'(2) feed_take [OF l2] e(1,2)] obtain t l where
        t: "try_deal_n_continuously conc wake False cb ?c R (i + num - R) ?q =
          Some (of_nat r2, feed cb (take (r - r1) (drop r1 ?w)) ?c, bq_upd (set_next_index False (R + of_nat r2) ?q) t l)"
        "bq_state (bq_upd ?q t l) b P (O' + r)" "bq_window (bq_upd ?q t l) b P (O' + r) = drop r ?w"
        using e(3) by metis
      have "unat (R + of_nat r2) = O' + r" using adv [OF rn(1)] sum Ri(1) by (simp add: add.assoc [symmetric])
      then show ?thesis
        using False a(1) t Ri
        by (intro exI [of _ "bq_upd (set_next_index False (R + of_nat r2) ?q) t l"] exI [of _ r1])
          (auto simp: try_deal_n_def i_def [symmetric] R_def [symmetric] Let_def bq_state_upd sum)
    qed
  qed
qed

end
