(* ===== verification/BlockingQueue.thy ===== *)
theory BlockingQueue
  imports Prelude
begin

text \<open>
  The contract of a blocking bounded queue: single and batch operations, each with a blocking and a
  trying form, specified on a list of at most \<open>cap\<close> elements. \<open>None\<close> is a call that does not return
  unless another thread acts. The locale \<open>blocking_queue\<close> states what an implementation promises of one
  operation; its lemmas lift that to sequences of operations.
\<close>

datatype 'a bq_op =
    Push 'a | TryPush 'a | Pop 'a | TryPop 'a
  | PushN "'a list" | TryPushN "'a list" | PopN u64 | TryPopN u64 | Clear

datatype 'a bq_res = Done | Flag bool | Value 'a | FlagValue bool 'a | Count nat | Values "'a list"

text \<open>\<open>Pop y\<close> and \<open>TryPop y\<close> overwrite a variable that holds \<open>y\<close>.\<close>

fun list_exec :: "nat \<Rightarrow> 'a bq_op \<Rightarrow> 'a list \<Rightarrow> ('a bq_res \<times> 'a list) option" where
  "list_exec cap (Push x) xs = (if length xs < cap then Some (Done, xs @ [x]) else None)"
| "list_exec cap (TryPush x) xs = Some (if length xs < cap then (Flag True, xs @ [x]) else (Flag False, xs))"
| "list_exec cap (Pop y) xs = (case xs of [] \<Rightarrow> None | x # xs \<Rightarrow> Some (Value x, xs))"
| "list_exec cap (TryPop y) xs = (case xs of [] \<Rightarrow> Some (FlagValue False y, []) | x # xs \<Rightarrow> Some (FlagValue True x, xs))"
| "list_exec cap (PushN ys) xs = (if length xs + length ys \<le> cap then Some (Done, xs @ ys) else None)"
| "list_exec cap (TryPushN ys) xs = (let r = min (length ys) (cap - length xs) in Some (Count r, xs @ take r ys))"
| "list_exec cap (PopN n) xs = (if unat n \<le> length xs then Some (Values (take (unat n) xs), drop (unat n) xs) else None)"
| "list_exec cap (TryPopN n) xs = Some (Values (take (unat n) xs), drop (unat n) xs)"
| "list_exec cap Clear xs = Some (Done, [])"

text \<open>How far an operation may move a ticket counter.\<close>

fun op_cost :: "nat \<Rightarrow> 'a bq_op \<Rightarrow> nat" where
  "op_cost cap (PushN ys) = length ys"
| "op_cost cap (TryPushN ys) = length ys"
| "op_cost cap (PopN n) = unat n"
| "op_cost cap (TryPopN n) = unat n"
| "op_cost cap Clear = cap"
| "op_cost cap _ = 1"

text \<open>A sequence of operations, up to the first that blocks.\<close>

fun run_ops :: "('op \<Rightarrow> 'q \<Rightarrow> ('r \<times> 'q) option) \<Rightarrow> 'op list \<Rightarrow> 'q \<Rightarrow> 'r list \<times> 'q option" where
  "run_ops ex [] q = ([], Some q)"
| "run_ops ex (op # ops) q =
     (case ex op q of None \<Rightarrow> ([], None) | Some (r, q) \<Rightarrow> (let (rs, q) = run_ops ex ops q in (r # rs, q)))"

locale blocking_queue =
  fixes ex :: "'a bq_op \<Rightarrow> 'q \<Rightarrow> ('a bq_res \<times> 'q) option"
    and inv :: "'q \<Rightarrow> bool" and contents :: "'q \<Rightarrow> 'a list" and cap :: "'q \<Rightarrow> nat" and budget :: "'q \<Rightarrow> nat"
  assumes blocks: "inv q \<Longrightarrow> op_cost (cap q) op \<le> budget q \<Longrightarrow> list_exec (cap q) op (contents q) = None \<Longrightarrow> ex op q = None"
    and returns: "inv q \<Longrightarrow> op_cost (cap q) op \<le> budget q \<Longrightarrow> list_exec (cap q) op (contents q) = Some (r, xs) \<Longrightarrow>
      \<exists>q'. ex op q = Some (r, q') \<and> inv q' \<and> contents q' = xs \<and> cap q' = cap q \<and> budget q \<le> budget q' + op_cost (cap q) op"
    and bounded: "inv q \<Longrightarrow> length (contents q) \<le> cap q"
begin

lemma run_refines:
  "inv q \<Longrightarrow> sum_list (map (op_cost (cap q)) ops) \<le> budget q \<Longrightarrow>
     map_prod id (map_option contents) (run_ops ex ops q) = run_ops (list_exec (cap q)) ops (contents q)"
proof (induction ops arbitrary: q)
  case (Cons op ops)
  have cost: "op_cost (cap q) op \<le> budget q" using Cons.prems(2) by simp
  show ?case
  proof (cases "list_exec (cap q) op (contents q)")
    case None
    then show ?thesis using blocks [OF Cons.prems(1) cost None] by simp
  next
    case (Some res)
    obtain r xs where res: "res = (r, xs)" by fastforce
    from returns [OF Cons.prems(1) cost, of r xs] Some res obtain q' where
      q': "ex op q = Some (r, q')" "inv q'" "contents q' = xs" "cap q' = cap q" "budget q \<le> budget q' + op_cost (cap q) op" by auto
    have "sum_list (map (op_cost (cap q')) ops) \<le> budget q'" using q'(4,5) Cons.prems(2) by simp
    from Cons.IH [OF q'(2) this] show ?thesis
      using q' Some res by (cases "run_ops ex ops q'") (simp add: case_prod_unfold, metis fst_conv snd_conv)
  qed
qed simp

lemma run_keeps:
  "inv q \<Longrightarrow> sum_list (map (op_cost (cap q)) ops) \<le> budget q \<Longrightarrow> run_ops ex ops q = (rs, Some q') \<Longrightarrow>
     inv q' \<and> cap q' = cap q \<and> length (contents q') \<le> cap q"
proof (induction ops arbitrary: q rs)
  case Nil
  then show ?case using bounded by simp
next
  case (Cons op ops)
  have cost: "op_cost (cap q) op \<le> budget q" using Cons.prems(2) by simp
  from Cons.prems(3) obtain r q1 rs' where q1: "ex op q = Some (r, q1)" "run_ops ex ops q1 = (rs', Some q')"
    by (auto split: option.splits prod.splits)
  then obtain r' xs where "list_exec (cap q) op (contents q) = Some (r', xs)"
    using blocks [OF Cons.prems(1) cost] by fastforce
  from returns [OF Cons.prems(1) cost this] q1(1) have
    k: "inv q1" "cap q1 = cap q" "budget q \<le> budget q1 + op_cost (cap q) op" by auto
  have "sum_list (map (op_cost (cap q1)) ops) \<le> budget q1" using k(2,3) Cons.prems(2) by simp
  from Cons.IH [OF k(1) this q1(2)] k(2) show ?case by simp
qed

end

end
