(* ===== verification/BoundedQueueRefine.thy ===== *)
theory BoundedQueueRefine
  imports BoundedQueueBatch BlockingQueue
begin

text \<open>
  The bounded queue is a \<open>blocking_queue\<close>: every operation of \<open>BoundedQueue\<close> acts on \<open>bq_contents\<close> as its
  list counterpart, for all values of the template flags, as long as the 64-bit ticket counters do not
  wrap; and construction, \<open>reserve_and_clear\<close> and \<open>clear\<close> give a well-formed empty queue.
\<close>

section \<open>The operations on the contents\<close>

fun bq_exec :: "('a \<Rightarrow> 'a) \<Rightarrow> bool \<Rightarrow> bool \<Rightarrow> bool \<Rightarrow> 'a bq_op \<Rightarrow> 'a bounded_queue \<Rightarrow> ('a bq_res \<times> 'a bounded_queue) option" where
  "bq_exec mv conc fw wake (Push x) q = map_option (Pair Done) (push conc fw wake x q)"
| "bq_exec mv conc fw wake (TryPush x) q = map_option (map_prod Flag id) (try_push conc wake x q)"
| "bq_exec mv conc fw wake (Pop y) q = map_option (map_prod Value id) (pop mv conc fw wake y q)"
| "bq_exec mv conc fw wake (TryPop y) q = map_option (\<lambda>(ok, x, q). (FlagValue ok x, q)) (try_pop mv conc wake y q)"
| "bq_exec mv conc fw wake (PushN ys) q = map_option (Pair Done) (push_n conc fw wake ys q)"
| "bq_exec mv conc fw wake (TryPushN ys) q =
     map_option (\<lambda>(n, _, q). (Count (unat n), q)) (try_push_n conc wake copy_in ys (of_nat (length ys)) q)"
| "bq_exec mv conc fw wake (PopN n) q = map_option (map_prod Values id) (pop_n conc fw wake n q)"
| "bq_exec mv conc fw wake (TryPopN n) q =
     map_option (\<lambda>(k, xs, q). (Values xs, q)) (try_pop_n conc wake copy_out [] n q)"
| "bq_exec mv conc fw wake Clear q = map_option (Pair Done) (bq_clear q)"

text \<open>What is left of the ticket counters before an index plus a batch could wrap.\<close>

definition bq_budget :: "'a bounded_queue \<Rightarrow> nat" where
  "bq_budget q = 2 ^ 64 - 1 - (unat (capacity q) + unat (bq_next_push_index q))"

text \<open>Well-formed, with tickets left.\<close>

definition bq_wf :: "'a bounded_queue \<Rightarrow> bool" where
  "bq_wf q \<longleftrightarrow> bq_inv q \<and> unat (bq_next_push_index q) + unat (capacity q) < 2 ^ 64"

lemma bq_budget_le:
  "bq_wf q \<Longrightarrow> n \<le> bq_budget q \<longleftrightarrow> unat (bq_next_push_index q) + n + unat (capacity q) < 2 ^ 64"
  by (auto simp: bq_budget_def bq_wf_def)

text \<open>A result with the counter moved by at most \<open>n\<close>.\<close>

definition bq_next :: "'a bounded_queue \<Rightarrow> 'a bounded_queue \<Rightarrow> 'a list \<Rightarrow> nat \<Rightarrow> bool" where
  "bq_next q q' xs n \<longleftrightarrow> bq_wf q' \<and> bq_contents q' = xs \<and> unat (capacity q') = unat (capacity q) \<and> bq_budget q \<le> bq_budget q' + n"

lemma bq_nextI:
  assumes "bq_wf q" and "n \<le> bq_budget q" and "bq_result q q' xs"
    and "unat (bq_next_push_index q') \<le> unat (bq_next_push_index q) + n"
  shows "bq_next q q' xs n"
  using assms bq_budget_le [of q n] by (auto simp: bq_next_def bq_result_def bq_budget_def bq_wf_def)

lemma push_n_spec:
  assumes inv: "bq_inv q" and small: "unat (bq_next_push_index q) + length ys + unat (capacity q) < 2 ^ 64"
  shows "if length ys \<le> bq_free q then \<exists>q'. push_n conc fw wake ys q = Some q' \<and> bq_result q q' (bq_contents q @ ys)
      \<and> unat (bq_next_push_index q') = unat (bq_next_push_index q) + length ys
    else push_n conc fw wake ys q = None"
proof -
  from inv obtain b where st: "bq_state q b (unat (bq_next_push_index q)) (unat (bq_next_pop_index q))"
    and c: "unat (capacity q) = 2 ^ b" "bq_contents q = bq_window q b (unat (bq_next_push_index q)) (unat (bq_next_pop_index q))"
    and f: "bq_free q = unat (bq_next_pop_index q) + 2 ^ b - unat (bq_next_push_index q)" by (rule bq_invE)
  have s: "unat (bq_next_push_index q) + length ys + 2 ^ b < 2 ^ 64" using small c(1) by simp
  have le: "length ys \<le> bq_free q \<longleftrightarrow> unat (bq_next_push_index q) + length ys \<le> unat (bq_next_pop_index q) + 2 ^ b"
    using st f unfolding bq_state_def by linarith
  show ?thesis
  proof (cases "length ys \<le> bq_free q")
    case True
    from deal_n_push [OF st refl refl s, of conc fw wake] True le obtain q' where
      "deal_n conc fw wake True copy_in ys (of_nat (length ys)) q = Some ([], q')"
      "bq_state q' b (unat (bq_next_push_index q) + length ys) (unat (bq_next_pop_index q))"
      "bq_window q' b (unat (bq_next_push_index q) + length ys) (unat (bq_next_pop_index q)) = bq_contents q @ ys"
      "unat (bq_next_push_index q') = unat (bq_next_push_index q) + length ys"
      "bq_next_pop_index q' = bq_next_pop_index q" "capacity q' = capacity q" by (auto simp: c)
    then show ?thesis
      using True by (auto simp: push_n_def push_n_callback_def intro!: bq_resultI [where b = b])
  next
    case False
    then show ?thesis
      using deal_n_push_blocked [OF st refl refl s, of conc fw wake] le by (simp add: push_n_def push_n_callback_def)
  qed
qed

lemma pop_n_spec:
  assumes inv: "bq_inv q" and small: "unat (bq_next_push_index q) + unat n + unat (capacity q) < 2 ^ 64"
  shows "if unat n \<le> length (bq_contents q) then \<exists>q'. pop_n conc fw wake n q = Some (take (unat n) (bq_contents q), q')
      \<and> bq_result q q' (drop (unat n) (bq_contents q)) \<and> bq_next_push_index q' = bq_next_push_index q
    else pop_n conc fw wake n q = None"
proof -
  from inv obtain b where st: "bq_state q b (unat (bq_next_push_index q)) (unat (bq_next_pop_index q))"
    and c: "unat (capacity q) = 2 ^ b" "bq_contents q = bq_window q b (unat (bq_next_push_index q)) (unat (bq_next_pop_index q))"
    by (rule bq_invE)
  have PO: "unat (bq_next_pop_index q) \<le> unat (bq_next_push_index q)" using st by (simp add: bq_state_def)
  then have s: "unat (bq_next_pop_index q) + unat n + 2 ^ b < 2 ^ 64" using small c(1) by simp
  have le: "unat n \<le> length (bq_contents q) \<longleftrightarrow> unat (bq_next_pop_index q) + unat n \<le> unat (bq_next_push_index q)"
    using PO length_bq_contents [of q] by linarith
  show ?thesis
  proof (cases "unat n \<le> length (bq_contents q)")
    case True
    from deal_n_pop [OF st refl refl s, of conc fw wake "[]"] True le obtain q' where
      "deal_n conc fw wake False copy_out [] n q = Some (take (unat n) (bq_contents q), q')"
      "bq_state q' b (unat (bq_next_push_index q)) (unat (bq_next_pop_index q) + unat n)"
      "bq_window q' b (unat (bq_next_push_index q)) (unat (bq_next_pop_index q) + unat n) = drop (unat n) (bq_contents q)"
      "unat (bq_next_pop_index q') = unat (bq_next_pop_index q) + unat n"
      "bq_next_push_index q' = bq_next_push_index q" "capacity q' = capacity q" by (auto simp: c)
    then show ?thesis
      using True by (auto simp: pop_n_def pop_n_callback_def intro!: bq_resultI [where b = b])
  next
    case False
    then show ?thesis
      using deal_n_pop_blocked [OF st refl refl s, of conc fw wake "[]"] le by (simp add: pop_n_def pop_n_callback_def)
  qed
qed

lemma try_push_n_spec:
  assumes inv: "bq_inv q" and small: "unat (bq_next_push_index q) + length ys + unat (capacity q) < 2 ^ 64"
  defines "r \<equiv> min (length ys) (bq_free q)"
  shows "\<exists>q'. try_push_n conc wake copy_in ys (of_nat (length ys)) q = Some (of_nat r, drop r ys, q')
    \<and> bq_result q q' (bq_contents q @ take r ys) \<and> unat (bq_next_push_index q') = unat (bq_next_push_index q) + r"
proof -
  from inv obtain b where st: "bq_state q b (unat (bq_next_push_index q)) (unat (bq_next_pop_index q))"
    and c: "unat (capacity q) = 2 ^ b" "bq_contents q = bq_window q b (unat (bq_next_push_index q)) (unat (bq_next_pop_index q))"
    and f: "bq_free q = unat (bq_next_pop_index q) + 2 ^ b - unat (bq_next_push_index q)" by (rule bq_invE)
  have s: "unat (bq_next_push_index q) + length ys + 2 ^ b < 2 ^ 64" using small c(1) by simp
  from try_deal_n_push [OF st refl refl s r_def [unfolded atomize_eq f], of conc wake] show ?thesis
    by (auto simp: try_push_n_def c intro!: bq_resultI [where b = b])
qed

lemma try_pop_n_spec:
  assumes inv: "bq_inv q" and small: "unat (bq_next_push_index q) + unat n + unat (capacity q) < 2 ^ 64" and cb: "batch_ok cb"
  shows "\<exists>q' k. try_pop_n conc wake cb c n q = Some (of_nat (min (unat n) (length (bq_contents q))),
      feed cb (take (min (unat n) (length (bq_contents q)) - k) (drop k (bq_contents q))) (feed cb (take k (bq_contents q)) c), q')
    \<and> k \<le> min (unat n) (length (bq_contents q))
    \<and> bq_result q q' (drop (unat n) (bq_contents q)) \<and> bq_next_push_index q' = bq_next_push_index q"
proof -
  from inv obtain b where st: "bq_state q b (unat (bq_next_push_index q)) (unat (bq_next_pop_index q))"
    and c: "unat (capacity q) = 2 ^ b" "bq_contents q = bq_window q b (unat (bq_next_push_index q)) (unat (bq_next_pop_index q))"
    by (rule bq_invE)
  let ?r = "min (unat n) (length (bq_contents q))"
  have PO: "unat (bq_next_pop_index q) \<le> unat (bq_next_push_index q)" using st by (simp add: bq_state_def)
  then have s: "unat (bq_next_pop_index q) + unat n + 2 ^ b < 2 ^ 64" using small c(1) by simp
  have d: "drop ?r (bq_contents q) = drop (unat n) (bq_contents q)" by (simp add: min_def)
  from try_deal_n_pop [OF st refl cb refl s refl, of conc wake c, folded c(2) length_bq_contents] d show ?thesis
    by (fastforce simp: try_pop_n_def intro!: bq_resultI [where b = b])
qed

lemma bq_free_room: "bq_inv q \<Longrightarrow> bq_free q = 0 \<longleftrightarrow> \<not> length (bq_contents q) < unat (capacity q)"
  using length_bq_contents_le [of q] by (auto simp: bq_free_def)

lemma bq_clear_spec:
  assumes "bq_inv q" and "unat (bq_next_push_index q) + 2 * unat (capacity q) < 2 ^ 64"
  shows "\<exists>q'. bq_clear q = Some q' \<and> bq_result q q' [] \<and> bq_next_push_index q' = bq_next_push_index q"
proof -
  have "batch_ok (\<lambda>vs c :: unit. (vs, c))" by (simp add: batch_ok_def)
  from try_pop_n_spec [where conc = True and wake = True and c = "()", OF assms(1) _ this, of "capacity q"] assms(2) length_bq_contents_le [OF assms(1)]
  show ?thesis by (auto simp: bq_clear_def)
qed

lemma bq_exec_single:
  assumes wf: "bq_wf q" and cost: "1 \<le> bq_budget q" and op: "op \<in> {Push x, TryPush x, Pop x, TryPop x}"
  shows "case list_exec (unat (capacity q)) op (bq_contents q) of
      None \<Rightarrow> bq_exec mv conc fw wake op q = None
    | Some (r, xs) \<Rightarrow> \<exists>q'. bq_exec mv conc fw wake op q = Some (r, q') \<and> bq_next q q' xs 1"
proof -
  have inv: "bq_inv q" using wf by (simp add: bq_wf_def)
  have "unat (bq_next_push_index q) + 1 < 2 ^ 64" using cost bq_budget_le [OF wf] by simp
  note ps = push_spec [OF inv this, of conc fw wake x]
  note pp = pop_spec [OF inv, of mv conc fw wake x]
  have nI: "bq_next q q' xs 1" if "bq_result q q' xs" "unat (bq_next_push_index q') \<le> unat (bq_next_push_index q) + 1" for q' xs
    using bq_nextI [OF wf cost that] .
  from op consider "op = Push x" | "op = TryPush x" | "op = Pop x" | "op = TryPop x" by blast
  then show ?thesis
  proof cases
    case 1
    then show ?thesis using ps nI by (auto simp: bq_free_room [OF inv] split: if_splits)
  next
    case 2
    have "bq_next q q (bq_contents q) 1" using inv by (intro nI) (simp_all add: bq_result_def)
    with 2 show ?thesis using ps nI by (auto simp: bq_free_room [OF inv] split: if_splits)
  next
    case 3
    then show ?thesis using pp nI by (cases "bq_contents q") auto
  next
    case 4
    have "bq_next q q (bq_contents q) 1" using inv by (intro nI) (simp_all add: bq_result_def)
    with 4 show ?thesis using pp nI by (cases "bq_contents q") auto
  qed
qed

lemma bq_exec_batch:
  assumes wf: "bq_wf q" and cost: "op_cost (unat (capacity q)) op \<le> bq_budget q"
    and op: "op \<in> {PushN ys, TryPushN ys, PopN n, TryPopN n, Clear}"
  shows "case list_exec (unat (capacity q)) op (bq_contents q) of
      None \<Rightarrow> bq_exec mv conc fw wake op q = None
    | Some (r, xs) \<Rightarrow> \<exists>q'. bq_exec mv conc fw wake op q = Some (r, q') \<and> bq_next q q' xs (op_cost (unat (capacity q)) op)"
proof -
  have inv: "bq_inv q" using wf by (simp add: bq_wf_def)
  note b = bq_budget_le [OF wf, THEN iffD1, OF cost]
  note nI = bq_nextI [OF wf cost]
  have le: "length (bq_contents q) \<le> unat (capacity q)" using inv by (rule length_bq_contents_le)
  from op consider "op = PushN ys" | "op = TryPushN ys" | "op = PopN n" | "op = TryPopN n" | "op = Clear" by blast
  then show ?thesis
  proof cases
    case 1
    then show ?thesis
      using push_n_spec [OF inv, of ys conc fw wake] b nI le by (auto simp: bq_free_def split: if_splits)
  next
    case 2
    have "min (length ys) (bq_free q) < 2 ^ 64" using b 2 by simp
    then have "unat (of_nat (min (length ys) (bq_free q)) :: u64) = min (length ys) (bq_free q)" by (intro unat_of_nat_small) simp
    with 2 show ?thesis
      using try_push_n_spec [OF inv, of ys conc wake] b nI by (auto simp: bq_free_def Let_def)
  next
    case 3
    then show ?thesis using pop_n_spec [OF inv, of n conc fw wake] b nI by (auto split: if_splits)
  next
    case 4
    have e: "take k xs @ take (r - k) (drop k xs) = take r xs" if "k \<le> r" for k r and xs :: "'a list"
      using that by (metis le_add_diff_inverse take_add)
    have m: "take (min (unat n) (length xs)) xs = take (unat n) xs" for xs :: "'a list" by (simp add: min_def)
    from 4 b have "unat (bq_next_push_index q) + unat n + unat (capacity q) < 2 ^ 64" by simp
    from try_pop_n_spec [where conc = conc and wake = wake and c = "[]", OF inv this batch_ok_copy_out] 4 show ?thesis
      by (auto simp: e m intro!: nI [unfolded 4, simplified])
  next
    case 5
    then show ?thesis using bq_clear_spec [OF inv] b nI by auto
  qed
qed

lemma bq_exec_refines:
  assumes "bq_wf q" and "op_cost (unat (capacity q)) op \<le> bq_budget q"
  shows "case list_exec (unat (capacity q)) op (bq_contents q) of
      None \<Rightarrow> bq_exec mv conc fw wake op q = None
    | Some (r, xs) \<Rightarrow> \<exists>q'. bq_exec mv conc fw wake op q = Some (r, q') \<and> bq_next q q' xs (op_cost (unat (capacity q)) op)"
proof (cases "\<exists>x. op \<in> {Push x, TryPush x, Pop x, TryPop x}")
  case True
  then obtain x where op: "op \<in> {Push x, TryPush x, Pop x, TryPop x}" by blast
  then have c: "op_cost (unat (capacity q)) op = 1" by auto
  show ?thesis unfolding c by (rule bq_exec_single [OF assms(1) _ op]) (use assms(2) c in simp)
next
  case False
  then have "\<exists>ys n. op \<in> {PushN ys, TryPushN ys, PopN n, TryPopN n, Clear}" by (cases op) auto
  then show ?thesis using bq_exec_batch [OF assms] by blast
qed

interpretation bq: blocking_queue "bq_exec mv conc fw wake" bq_wf bq_contents "\<lambda>q. unat (capacity q)" bq_budget
  using bq_exec_refines [of _ _ mv conc fw wake] length_bq_contents_le
  by unfold_locales (fastforce simp: bq_next_def bq_wf_def)+

section \<open>Construction\<close>

lemma ctzll_pow2: "b < 64 \<Longrightarrow> ctzll (2 ^ b) = of_nat b"
proof -
  assume b: "b < 64"
  have bit: "bit (2 ^ b :: u64) i \<longleftrightarrow> i = b" if "i < 64" for i using that by (auto simp: bit_exp_iff)
  have "[0..<64] = [0..<b] @ [b..<64]" using b upt_add_eq_append [of 0 b "64 - b"] by simp
  also have "[b..<64] = b # [Suc b..<64]" using b by (simp add: upt_conv_Cons)
  finally have e: "[0..<64] = [0..<b] @ b # [Suc b..<64]" .
  have "takeWhile (\<lambda>i. \<not> bit (2 ^ b :: u64) i) [0..<64] = [0..<b]"
    unfolding e using b by (subst takeWhile_append2) (auto simp: bit)
  then show ?thesis by (simp add: ctzll_def)
qed

lemma bq_reinit_empty:
  assumes b: "b < 64" and v: "sv_size v = 2 ^ b" "2 ^ b \<le> length (sv_slots v)"
  shows "bq_wf (bq_reinit (2 ^ b) v q) \<and> bq_contents (bq_reinit (2 ^ b) v q) = [] \<and> capacity (bq_reinit (2 ^ b) v q) = 2 ^ b"
proof -
  let ?q = "bq_reinit (2 ^ b) v q"
  have u: "unat (2 ^ b :: u64) = 2 ^ b" using b by (simp add: unat_pow2)
  have cap: "capacity ?q = 2 ^ b" by (simp add: bq_reinit_def capacity_def v)
  have "slots_ok (2 ^ b) 0 0 (sv_slots (bq_slots ?q))"
    using v(2) u by (auto simp: slots_ok_def bq_reinit_def reset_slots_def slot_version_def nth_append sf_reset_def sf_version_def)
  then have "bq_inv ?q"
    using b cap by (auto simp: bq_inv_def bq_reinit_def ctzll_pow2)
  moreover have "(2 :: nat) ^ b < 2 ^ 64" using b by (intro power_strict_increasing) simp_all
  ultimately show ?thesis
    using cap u by (simp add: bq_wf_def bq_contents_def slots_contents_def) (simp add: bq_reinit_def)
qed

lemma bq_new_wf: "bq_wf (bq_new d)" "bq_contents (bq_new d) = []" "capacity (bq_new d) = 1"
  by (auto simp: bq_wf_def bq_inv_def bq_new_def SlotVector_sized_def capacity_def slots_ok_def slot_version_def
      new_slot_def sf_version_def bq_contents_def slots_contents_def intro!: exI [of _ 0])

text \<open>The three ways to an empty queue; \<open>cleared q n q'\<close> is the common result.\<close>

definition cleared :: "u64 \<Rightarrow> 'a bounded_queue \<Rightarrow> bool" where
  "cleared n q \<longleftrightarrow> bq_inv q \<and> bq_contents q = [] \<and> bq_size q = 0 \<and> n \<le> capacity q \<and> (\<exists>b. unat (capacity q) = 2 ^ b \<and> (\<forall>j<b. 2 ^ j < unat n))"

lemma bq_size_contents: "bq_inv q \<Longrightarrow> unat (bq_size q) = length (bq_contents q)"
  by (auto simp: bq_size_def length_bq_contents word_less_nat_alt unat_sub word_le_nat_alt bq_inv_def)

lemma clearedI:
  assumes "bq_inv q" and "bq_contents q = []" and "capacity q = 2 ^ k" and "k < 64" and "unat n \<le> 2 ^ k" and "\<And>j. j < k \<Longrightarrow> 2 ^ j < unat n"
  shows "cleared n q"
  using assms bq_size_contents [of q] by (auto simp: cleared_def word_le_nat_alt unat_pow2 unat_eq_0)

lemma reserve_and_clear_ok:
  assumes bc: "bit_ceil_spec bc" and n: "unat n \<le> 2 ^ 63" and inv: "bq_inv q"
    and small: "unat (bq_next_push_index q) + 2 * unat (capacity q) < 2 ^ 64 \<or> bc n \<noteq> capacity q"
  shows "\<exists>q'. reserve_and_clear bc d n q = Some (bc n, q') \<and> cleared n q'"
proof -
  obtain k where k: "k \<le> 63" "bc n = 2 ^ k" "unat n \<le> 2 ^ k" "\<And>j. j < k \<Longrightarrow> 2 ^ j < unat n"
    using bit_ceil_specE [OF bc n] by auto
  show ?thesis
  proof (cases "bc n = capacity q")
    case True
    with small have "unat (bq_next_push_index q) + 2 * unat (capacity q) < 2 ^ 64" by simp
    from bq_clear_spec [OF inv this] obtain q' where "bq_clear q = Some q'" "bq_result q q' []" by blast
    then show ?thesis
      using True k by (auto simp: reserve_and_clear_def bq_result_def intro!: clearedI [of _ k])
  next
    case False
    let ?v = "SlotVector_resize d (bq_slots q) (2 ^ k)"
    have "sv_size ?v = 2 ^ k" "2 ^ k \<le> length (sv_slots ?v)"
      using k(1) by (simp_all add: SlotVector_resize_def SlotVector_sized_def unat_pow2)
    with k(1) have "bq_wf (bq_reinit (2 ^ k) ?v q) \<and> bq_contents (bq_reinit (2 ^ k) ?v q) = [] \<and> capacity (bq_reinit (2 ^ k) ?v q) = 2 ^ k"
      by (intro bq_reinit_empty) simp_all
    then show ?thesis
      using False k by (auto simp: reserve_and_clear_def bq_wf_def Let_def intro!: clearedI [of _ k])
  qed
qed

lemma reserve_and_clear_placed_ok:
  assumes bc: "bit_ceil_spec bc" and n: "unat n \<le> 2 ^ 63" and fits: "unat (bc n) \<le> length buffer"
    and q: "\<not> sv_use_outer_buffer (bq_slots q) \<or> bc n \<noteq> capacity q"
  shows "\<exists>q'. reserve_and_clear_placed bc d buffer n q = Some (bc n, q') \<and> cleared n q' \<and> bq_wf q'
    \<and> length (sv_slots (bq_slots q')) = length buffer \<and> SlotVector_destroy (bq_slots q') = None"
proof -
  obtain k where k: "k \<le> 63" "bc n = 2 ^ k" "unat n \<le> 2 ^ k" "\<And>j. j < k \<Longrightarrow> 2 ^ j < unat n"
    using bit_ceil_specE [OF bc n] by auto
  obtain v where v: "SlotVector_resize_placed d (bq_slots q) buffer (2 ^ k) = Some v"
    using fits k(2) by (auto simp: SlotVector_resize_placed_def SlotVector_placed_def)
  then have v': "sv_size v = 2 ^ k" "length (sv_slots v) = length buffer" "sv_use_outer_buffer v" "2 ^ k \<le> length buffer"
    using fits k(1,2) by (auto simp: SlotVector_resize_placed_def SlotVector_placed_def unat_pow2)
  with k(1) have "bq_wf (bq_reinit (2 ^ k) v q) \<and> bq_contents (bq_reinit (2 ^ k) v q) = [] \<and> capacity (bq_reinit (2 ^ k) v q) = 2 ^ k"
    by (intro bq_reinit_empty) simp_all
  moreover have "length (sv_slots (bq_slots (bq_reinit (2 ^ k) v q))) = length buffer"
    "SlotVector_destroy (bq_slots (bq_reinit (2 ^ k) v q)) = None"
    using v' by (simp_all add: bq_reinit_def reset_slots_def SlotVector_destroy_def)
  ultimately show ?thesis
    using q k v by (auto simp: reserve_and_clear_placed_def bq_wf_def Let_def intro!: clearedI [of _ k])
qed

section \<open>Properties\<close>

text \<open>
  Construction with any minimum capacity up to \<open>2^63\<close> returns a well-formed empty queue whose
  capacity is the least power of two that is enough, given what \<open>absl::bit_ceil\<close> documents.
\<close>

theorem bq_construct_correct:
  assumes "bit_ceil_spec bc" and "unat n \<le> 2 ^ 63"
  shows "\<exists>q. bq_construct bc d n = Some q \<and> bq_inv q \<and> bq_contents q = [] \<and> bq_size q = 0 \<and> n \<le> capacity q
    \<and> (\<exists>b. unat (capacity q) = 2 ^ b \<and> (\<forall>j<b. 2 ^ j < unat n))"
proof -
  have "\<exists>q'. reserve_and_clear bc d n (bq_new d) = Some (bc n, q') \<and> cleared n q'"
    using assms bq_new_wf [of d]
    by (intro reserve_and_clear_ok) (simp_all add: bq_wf_def bq_new_def)
  then show ?thesis by (auto simp: bq_construct_def cleared_def)
qed

theorem bq_construct_correct_witness:
  "\<exists>q. bq_construct bit_ceil_ref (0 :: nat) 5 = Some q \<and> bq_inv q \<and> bq_contents q = [] \<and> bq_size q = 0 \<and> 5 \<le> capacity q
    \<and> (\<exists>b. unat (capacity q) = 2 ^ b \<and> (\<forall>j<b. 2 ^ j < unat (5 :: u64)))"
  by (rule bq_construct_correct [OF bit_ceil_ref_spec]) simp

text \<open>
  C2: Any sequence of single and batch pushes and pops, blocking or trying, with any template flags,
  gives the results of the same sequence on a list of at most \<open>capacity()\<close> elements, in particular FIFO
  order, nothing lost or duplicated across the wrap of the slots and of the 16-bit versions, a batch
  that is cut where the slots wrap behaves as one, a \<open>try\<close> deals with exactly as many elements as there
  is room (or as there are), and a blocking call waits exactly when the list cannot be changed; the
  result is as long as the ticket counters do not reach \<open>2^64\<close>.
\<close>

theorem bq_run_refines:
  assumes "bq_wf q" and "sum_list (map (op_cost (unat (capacity q))) ops) \<le> bq_budget q"
  shows "map_prod id (map_option bq_contents) (run_ops (bq_exec moved conc fw wake) ops q) =
    run_ops (list_exec (unat (capacity q))) ops (bq_contents q)"
  using assms by (rule bq.run_refines)

definition sample_bq :: "nat bounded_queue" where
  "sample_bq = bq_reinit 4 (SlotVector_sized 0 4) (bq_new 0)"

lemma sample_bq_wf: "bq_wf sample_bq" "bq_contents sample_bq = []" "capacity sample_bq = 4"
  using bq_reinit_empty [of 2 "SlotVector_sized 0 4" "bq_new 0 :: nat bounded_queue"]
  by (simp_all add: sample_bq_def SlotVector_sized_def)

lemma sample_bq_budget: "bq_budget sample_bq = 2 ^ 64 - 5"
  by (simp add: bq_budget_def sample_bq_wf) (simp add: sample_bq_def bq_reinit_def)

theorem bq_run_refines_witness:
  "bq_wf sample_bq \<and>
   map_prod id (map_option bq_contents) (run_ops (bq_exec (\<lambda>x. 0) True True True)
     [PushN [1, 2, 3], TryPushN [4, 5], TryPush 6, Pop 0, PopN 2, PushN [7, 8, 9], TryPopN 9, Clear, TryPop 3, Pop 0, Push 2] sample_bq) =
   ([Done, Count 1, Flag False, Value 1, Values [2, 3], Done, Values [4, 7, 8, 9], Done, FlagValue False 3], None)"
  using bq_run_refines [where q = sample_bq and moved = "\<lambda>x. 0" and conc = True and fw = True and wake = True and ops = "[PushN [1, 2, 3], TryPushN [4, 5], TryPush 6, Pop 0, PopN 2, PushN [7, 8, 9], TryPopN 9, Clear, TryPop 3, Pop 0, Push 2]"]
  by (simp add: sample_bq_wf sample_bq_budget)

text \<open>
  \<open>reserve_and_clear\<close> over a given buffer of enough slots makes any queue that does not yet use an
  outer buffer of that capacity a well-formed empty queue on it, and leaves the buffer to its owner: the
  destructor frees nothing.
\<close>

theorem reserve_and_clear_placed_correct:
  assumes "bit_ceil_spec bc" and "unat n \<le> 2 ^ 63" and "unat (bc n) \<le> length buffer"
    and "\<not> sv_use_outer_buffer (bq_slots q) \<or> bc n \<noteq> capacity q"
  shows "\<exists>q'. reserve_and_clear_placed bc d buffer n q = Some (bc n, q') \<and> bq_wf q' \<and> bq_contents q' = []
    \<and> n \<le> capacity q' \<and> SlotVector_destroy (bq_slots q') = None"
  using reserve_and_clear_placed_ok [OF assms, of d] by (auto simp: cleared_def)

theorem reserve_and_clear_placed_correct_witness:
  "\<exists>q'. reserve_and_clear_placed bit_ceil_ref 0 (replicate 4 (new_slot (9 :: nat))) 3 (bq_new 0) = Some (bit_ceil_ref 3, q')
    \<and> bq_wf q' \<and> bq_contents q' = [] \<and> 3 \<le> capacity q' \<and> SlotVector_destroy (bq_slots q') = None"
  by (rule reserve_and_clear_placed_correct [OF bit_ceil_ref_spec])
    (simp_all add: bit_ceil_ref_def bq_new_def SlotVector_sized_def)

text \<open>
  Moving a queue that lives on an outer buffer keeps its elements but not the knowledge of whose
  memory it is: the new queue holds the slots of the outer buffer and its destructor frees them.
\<close>

theorem moved_queue_frees_outer_buffer:
  assumes "sv_use_outer_buffer (bq_slots q)"
  shows "SlotVector_destroy (bq_slots q) = None
    \<and> bq_contents (fst (bq_move_construct d q)) = bq_contents q
    \<and> SlotVector_destroy (bq_slots (fst (bq_move_construct d q))) = Some (sv_slots (bq_slots q))"
  using assms
  by (simp add: bq_move_construct_def bq_swap_def SlotVector_std_swap_def SlotVector_swap_def SlotVector_new_def bq_new_def
      SlotVector_sized_def SlotVector_destroy_def Let_def bq_contents_def capacity_def)

theorem moved_queue_frees_outer_buffer_witness:
  "let q = bq_reinit 4 \<lparr>sv_slots = replicate 4 (new_slot (0 :: nat)), sv_size = 4, sv_use_outer_buffer = True\<rparr> (bq_new 0) in
   SlotVector_destroy (bq_slots q) = None \<and> bq_contents (fst (bq_move_construct 0 q)) = bq_contents q
    \<and> SlotVector_destroy (bq_slots (fst (bq_move_construct 0 q))) = Some (sv_slots (bq_slots q))"
  unfolding Let_def by (rule moved_queue_frees_outer_buffer) (simp add: bq_reinit_def)

end
