(* ===== verification/FlatSignalQueue.thy ===== *)
theory FlatSignalQueue
  imports BoundedQueueRefine StorageSchema
begin

text \<open>
  \<open>FlatSignalQueue<T>\<close> of \<open>base/flat_signal_queue.h\<close>: the bounded queue placed in given memory, with a
  counter \<open>available_size_\<close> that \<open>TryPush\<close> and \<open>TryPop\<close> keep. The placement buffer is the list of the
  slots it has room for. The loops \<open>do try_push while (ret == false)\<close> may run for ever: \<open>None\<close>.

  The lemmas rest on the bounded queue through the contract \<open>blocking_queue\<close>. \<open>fs_inv\<close> relates the
  counter to the contents; the \<open>Try\<close> operations keep it and behave as a FIFO list of at most
  \<open>queue_capacity_\<close> elements. \<open>Push\<close> and \<open>Pop\<close> do not keep it.
\<close>

section \<open>Model\<close>

record 'a flat_signal_queue =
  fs_inited :: bool
  fs_queue_capacity :: u64
  fs_available_size :: "32 word"
  fs_ev_queue :: "'a bounded_queue"

definition FlatSignalQueue_new :: "'a \<Rightarrow> 'a flat_signal_queue" where
  "FlatSignalQueue_new d = \<lparr>fs_inited = False, fs_queue_capacity = 0, fs_available_size = 0, fs_ev_queue = bq_new d\<rparr>"

definition FlatSignalQueue_GetStorageSchema ::
  "(u64 \<Rightarrow> u64) \<Rightarrow> u64 \<Rightarrow> StorageSchema \<Rightarrow> u64 \<Rightarrow> StorageSchema" where
  "FlatSignalQueue_GetStorageSchema bit_ceil sizeof_slot schema num =
     (let schema = schema\<lparr>schema_fields := vec_resize default_metadata (schema_fields schema) 1\<rparr>
      in set_field schema 0 num (reserve_buffer_size bit_ceil sizeof_slot num))"

definition FlatSignalQueue_SetPlacementStorage :: "'a flat_signal_queue \<Rightarrow> 'b PlacementStorage \<Rightarrow> bool" where
  "FlatSignalQueue_SetPlacementStorage s storage = True"

definition FlatSignalQueue_Initialize ::
  "(u64 \<Rightarrow> u64) \<Rightarrow> 'a \<Rightarrow> u64 \<Rightarrow> 'a slot list \<Rightarrow> 'a flat_signal_queue \<Rightarrow> (bool \<times> 'a flat_signal_queue) option" where
  "FlatSignalQueue_Initialize bit_ceil d num placement_storage s =
     (if fs_inited s then Some (True, s)
      else do {
        (_, q) \<leftarrow> reserve_and_clear_placed bit_ceil d placement_storage num (fs_ev_queue s);
        Some (True, s\<lparr>fs_ev_queue := q, fs_queue_capacity := num, fs_inited := True\<rparr>) })"

text \<open>\<open>do { ret = try_push<true, true>(value); } while (ret == false)\<close>\<close>

partial_function (option) try_push_until :: "'a \<Rightarrow> 'a bounded_queue \<Rightarrow> 'a bounded_queue option" where
  "try_push_until value q = do {
     (ret, q) \<leftarrow> try_push True True value q;
     if ret then Some q else try_push_until value q }"

text \<open>\<open>current_size >= queue_capacity_\<close> compares an \<open>int32_t\<close> with a \<open>size_t\<close>: it is sign-extended.\<close>

definition FlatSignalQueue_TryPush :: "'a \<Rightarrow> 'a flat_signal_queue \<Rightarrow> (bool \<times> 'a flat_signal_queue) option" where
  "FlatSignalQueue_TryPush value s = do {
     let current_size = fs_available_size s;
     let s = s\<lparr>fs_available_size := fs_available_size s + 1\<rparr>;
     if fs_queue_capacity s \<le> scast current_size
     then Some (False, s\<lparr>fs_available_size := fs_available_size s - 1\<rparr>)
     else do {
       q \<leftarrow> try_push_until value (fs_ev_queue s);
       Some (True, s\<lparr>fs_ev_queue := q\<rparr>) } }"

definition FlatSignalQueue_Push :: "'a \<Rightarrow> 'a flat_signal_queue \<Rightarrow> (bool \<times> 'a flat_signal_queue) option" where
  "FlatSignalQueue_Push value s = do {
     q \<leftarrow> push True True True value (fs_ev_queue s);
     Some (True, s\<lparr>fs_ev_queue := q\<rparr>) }"

text \<open>The callback of \<open>TryPop\<close>: \<open>value = *begin\<close>.\<close>

definition take_first :: "('a, 'a) batch_callback" where
  "take_first vs value = (vs, case vs of [] \<Rightarrow> value | v # _ \<Rightarrow> v)"

partial_function (option) try_pop_until :: "'a \<Rightarrow> 'a bounded_queue \<Rightarrow> ('a \<times> 'a bounded_queue) option" where
  "try_pop_until value q = do {
     (num, value, q) \<leftarrow> try_pop_n True False take_first value 1 q;
     if num \<noteq> 0 then Some (value, q) else try_pop_until value q }"

definition FlatSignalQueue_TryPop :: "'a \<Rightarrow> 'a flat_signal_queue \<Rightarrow> (bool \<times> 'a \<times> 'a flat_signal_queue) option" where
  "FlatSignalQueue_TryPop value s = do {
     let current_size = fs_available_size s;
     let s = s\<lparr>fs_available_size := fs_available_size s - 1\<rparr>;
     if sint current_size < 1
     then Some (False, value, s\<lparr>fs_available_size := fs_available_size s + 1\<rparr>)
     else do {
       (value, q) \<leftarrow> try_pop_until value (fs_ev_queue s);
       Some (True, value, s\<lparr>fs_ev_queue := q\<rparr>) } }"

definition FlatSignalQueue_Pop :: "('a \<Rightarrow> 'a) \<Rightarrow> 'a \<Rightarrow> 'a flat_signal_queue \<Rightarrow> (bool \<times> 'a \<times> 'a flat_signal_queue) option" where
  "FlatSignalQueue_Pop moved value s = do {
     (value, q) \<leftarrow> pop moved True True True value (fs_ev_queue s);
     Some (True, value, s\<lparr>fs_ev_queue := q\<rparr>) }"

section \<open>The loops return at once when the bounded queue can serve them\<close>

lemma try_push_until_room:
  assumes "bq_wf q" and "1 \<le> bq_budget q" and "length (bq_contents q) < unat (capacity q)"
  shows "\<exists>q'. try_push_until x q = Some q' \<and> bq_wf q' \<and> bq_contents q' = bq_contents q @ [x]
    \<and> capacity q' = capacity q \<and> bq_budget q \<le> bq_budget q' + 1"
proof -
  from bq.returns [of q "TryPush x" "Flag True" "bq_contents q @ [x]" id True False True] assms
  obtain q' where q': "try_push True True x q = Some (True, q')" "bq_wf q'" "bq_contents q' = bq_contents q @ [x]"
    "unat (capacity q') = unat (capacity q)" "bq_budget q \<le> bq_budget q' + 1" by auto
  then show ?thesis
    by (auto simp: try_push_until.simps word_unat_eq_iff [of "capacity q'"])
qed

lemma try_pop_until_some:
  assumes "bq_wf q" and "1 \<le> bq_budget q" and c: "bq_contents q = x # xs"
  shows "\<exists>q'. try_pop_until y q = Some (x, q') \<and> bq_wf q' \<and> bq_contents q' = xs
    \<and> capacity q' = capacity q \<and> bq_budget q' = bq_budget q"
proof -
  have inv: "bq_inv q" and small: "unat (bq_next_push_index q) + unat (1 :: u64) + unat (capacity q) < 2 ^ 64"
    using assms(1,2) bq_budget_le [of q 1] by (simp_all add: bq_wf_def)
  have "batch_ok (take_first :: ('a, 'a) batch_callback)" by (simp add: batch_ok_def take_first_def)
  from try_pop_n_spec [where conc = True and wake = False and c = y, OF inv small this] c obtain q' k where
    q': "try_pop_n True False take_first y 1 q = Some (1, feed take_first (take (1 - k) (drop k (x # xs))) (feed take_first (take k (x # xs)) y), q')"
    "k \<le> 1" "bq_result q q' xs" "bq_next_push_index q' = bq_next_push_index q" by auto
  have "feed take_first (take (1 - k) (drop k (x # xs))) (feed take_first (take k (x # xs)) y) = x"
    using q'(2) by (cases k) (auto simp: feed_def take_first_def)
  then show ?thesis
    using q' assms(1) by (auto simp: try_pop_until.simps bq_result_def bq_wf_def bq_budget_def)
qed

section \<open>The counter and the contents\<close>

definition fs_contents :: "'a flat_signal_queue \<Rightarrow> 'a list" where
  "fs_contents s = bq_contents (fs_ev_queue s)"

definition fs_budget :: "'a flat_signal_queue \<Rightarrow> nat" where
  "fs_budget s = bq_budget (fs_ev_queue s)"

text \<open>\<open>fs_ok k s\<close>: a well-formed queue whose counter reads \<open>k\<close>.\<close>

definition fs_ok :: "nat \<Rightarrow> 'a flat_signal_queue \<Rightarrow> bool" where
  "fs_ok k s \<longleftrightarrow> fs_inited s \<and> bq_wf (fs_ev_queue s) \<and> fs_queue_capacity s \<le> capacity (fs_ev_queue s) \<and>
     0 < fs_queue_capacity s \<and> unat (fs_queue_capacity s) < 2 ^ 31 \<and>
     fs_available_size s = of_nat k \<and> k \<le> unat (fs_queue_capacity s)"

definition fs_inv :: "'a flat_signal_queue \<Rightarrow> bool" where
  "fs_inv s \<longleftrightarrow> fs_ok (length (fs_contents s)) s"

lemma counter_reads:
  assumes "k < 2 ^ 31"
  shows "sint (of_nat k :: 32 word) = int k" and "unat (scast (of_nat k :: 32 word) :: u64) = k"
proof -
  show s: "sint (of_nat k :: 32 word) = int k"
    using assms by (simp add: signed_of_nat signed_take_bit_int_eq_self)
  have "(scast (of_nat k :: 32 word) :: u64) = of_nat k" using s by (simp only: scast_eq of_int_of_nat_eq)
  then show "unat (scast (of_nat k :: 32 word) :: u64) = k"
    using assms unat_of_nat_small [of k, where ?'a = 64] by simp
qed

lemma TryPush_full:
  assumes "fs_ok k s" and "k = unat (fs_queue_capacity s)"
  shows "FlatSignalQueue_TryPush x s = Some (False, s)"
  using assms counter_reads(2) [of k]
  by (simp add: FlatSignalQueue_TryPush_def fs_ok_def word_le_nat_alt)

lemma TryPush_room:
  assumes ok: "fs_ok k s" and k: "k < unat (fs_queue_capacity s)" and room: "length (fs_contents s) \<le> k" and b: "1 \<le> fs_budget s"
  shows "\<exists>s'. FlatSignalQueue_TryPush x s = Some (True, s') \<and> fs_ok (Suc k) s' \<and> fs_contents s' = fs_contents s @ [x]
    \<and> fs_queue_capacity s' = fs_queue_capacity s \<and> fs_budget s \<le> fs_budget s' + 1"
proof -
  have "length (bq_contents (fs_ev_queue s)) < unat (capacity (fs_ev_queue s))"
    using ok k room by (simp add: fs_ok_def fs_contents_def word_le_nat_alt)
  from try_push_until_room [OF _ _ this, of x] ok b obtain q' where
    q': "try_push_until x (fs_ev_queue s) = Some q'" "bq_wf q'" "bq_contents q' = fs_contents s @ [x]"
      "capacity q' = capacity (fs_ev_queue s)" "bq_budget (fs_ev_queue s) \<le> bq_budget q' + 1"
    by (auto simp: fs_ok_def fs_budget_def fs_contents_def)
  have "\<not> fs_queue_capacity s \<le> scast (fs_available_size s)"
    using ok k counter_reads(2) [of k] by (simp add: fs_ok_def word_le_nat_alt)
  then show ?thesis
    using q' ok k by (auto simp: FlatSignalQueue_TryPush_def Let_def fs_ok_def fs_contents_def fs_budget_def add.commute)
qed

lemma TryPop_empty:
  assumes "fs_ok 0 s"
  shows "FlatSignalQueue_TryPop y s = Some (False, y, s)"
  using assms by (simp add: FlatSignalQueue_TryPop_def fs_ok_def)

lemma TryPop_some:
  assumes ok: "fs_ok (Suc k) s" and c: "fs_contents s = x # xs" and b: "1 \<le> fs_budget s"
  shows "\<exists>s'. FlatSignalQueue_TryPop y s = Some (True, x, s') \<and> fs_ok k s' \<and> fs_contents s' = xs
    \<and> fs_queue_capacity s' = fs_queue_capacity s \<and> fs_budget s' = fs_budget s"
proof -
  from try_pop_until_some [of "fs_ev_queue s" x xs y] ok c b obtain q' where
    q': "try_pop_until y (fs_ev_queue s) = Some (x, q')" "bq_wf q'" "bq_contents q' = xs"
      "capacity q' = capacity (fs_ev_queue s)" "bq_budget q' = bq_budget (fs_ev_queue s)"
    by (auto simp: fs_ok_def fs_budget_def fs_contents_def)
  have "Suc k < 2 ^ 31" using ok by (simp add: fs_ok_def)
  from counter_reads(1) [OF this] have "\<not> sint (fs_available_size s) < 1" using ok by (simp add: fs_ok_def)
  then show ?thesis
    using q' ok by (auto simp: FlatSignalQueue_TryPop_def Let_def fs_ok_def fs_contents_def fs_budget_def)
qed

lemma Pop_some:
  assumes ok: "fs_ok k s" and c: "fs_contents s = x # xs" and b: "1 \<le> fs_budget s"
  shows "\<exists>s'. FlatSignalQueue_Pop mv y s = Some (True, x, s') \<and> fs_ok k s' \<and> fs_contents s' = xs
    \<and> fs_queue_capacity s' = fs_queue_capacity s \<and> fs_budget s \<le> fs_budget s' + 1"
proof -
  from bq.returns [of "fs_ev_queue s" "Pop y" "Value x" xs mv True True True] ok c b obtain q' where
    q': "pop mv True True True y (fs_ev_queue s) = Some (x, q')" "bq_wf q'" "bq_contents q' = xs"
      "unat (capacity q') = unat (capacity (fs_ev_queue s))" "bq_budget (fs_ev_queue s) \<le> bq_budget q' + 1"
    by (auto simp: fs_ok_def fs_budget_def fs_contents_def)
  then show ?thesis
    using ok by (auto simp: FlatSignalQueue_Pop_def fs_ok_def fs_contents_def fs_budget_def word_le_nat_alt)
qed

section \<open>Properties\<close>

datatype 'a fs_op = FsTryPush 'a | FsTryPop 'a

fun fs_exec :: "'a fs_op \<Rightarrow> 'a flat_signal_queue \<Rightarrow> ('a bq_res \<times> 'a flat_signal_queue) option" where
  "fs_exec (FsTryPush x) s = map_option (map_prod Flag id) (FlatSignalQueue_TryPush x s)"
| "fs_exec (FsTryPop y) s = map_option (\<lambda>(ok, x, s). (FlagValue ok x, s)) (FlatSignalQueue_TryPop y s)"

fun fs_list_op :: "'a fs_op \<Rightarrow> 'a bq_op" where
  "fs_list_op (FsTryPush x) = TryPush x"
| "fs_list_op (FsTryPop y) = TryPop y"

lemma fs_exec_refines:
  assumes inv: "fs_inv s" and b: "1 \<le> fs_budget s"
  shows "\<exists>r xs s'. list_exec (unat (fs_queue_capacity s)) (fs_list_op op) (fs_contents s) = Some (r, xs) \<and> fs_exec op s = Some (r, s')
    \<and> fs_inv s' \<and> fs_contents s' = xs \<and> fs_queue_capacity s' = fs_queue_capacity s \<and> fs_budget s \<le> fs_budget s' + 1"
proof (cases op)
  case (FsTryPush x)
  show ?thesis
  proof (cases "length (fs_contents s) < unat (fs_queue_capacity s)")
    case True
    from TryPush_room [OF inv [unfolded fs_inv_def] True order_refl b, of x] True FsTryPush show ?thesis
      by (auto simp: fs_inv_def)
  next
    case False
    then have "length (fs_contents s) = unat (fs_queue_capacity s)" using inv by (simp add: fs_inv_def fs_ok_def)
    from TryPush_full [OF inv [unfolded fs_inv_def] this] False FsTryPush inv show ?thesis by auto
  qed
next
  case (FsTryPop y)
  show ?thesis
  proof (cases "fs_contents s")
    case Nil
    then have "fs_ok 0 s" using inv by (simp add: fs_inv_def)
    from TryPop_empty [OF this] Nil FsTryPop inv show ?thesis by auto
  next
    case (Cons x xs)
    then have "fs_ok (Suc (length xs)) s" using inv by (simp add: fs_inv_def)
    from TryPop_some [OF this Cons b, of y] Cons FsTryPop show ?thesis by (auto simp: fs_inv_def)
  qed
qed

lemma fs_run_list:
  "fs_inv s \<Longrightarrow> length ops \<le> fs_budget s \<Longrightarrow>
     map_prod id (map_option fs_contents) (run_ops fs_exec ops s) =
     run_ops (list_exec (unat (fs_queue_capacity s))) (map fs_list_op ops) (fs_contents s)"
proof (induction ops arbitrary: s)
  case (Cons op ops)
  from fs_exec_refines [OF Cons.prems(1), of op] Cons.prems(2) obtain r xs s' where
    s': "list_exec (unat (fs_queue_capacity s)) (fs_list_op op) (fs_contents s) = Some (r, xs)" "fs_exec op s = Some (r, s')"
    "fs_inv s'" "fs_contents s' = xs" "fs_queue_capacity s' = fs_queue_capacity s" "fs_budget s \<le> fs_budget s' + 1" by auto
  have "length ops \<le> fs_budget s'" using s'(6) Cons.prems(2) by simp
  from Cons.IH [OF s'(3) this, unfolded s'(4,5)] show ?case
    using s'(1,2) by (cases "run_ops fs_exec ops s'") (simp add: case_prod_unfold, metis fst_conv snd_conv)
qed simp

text \<open>
  C18: Any sequence of \<open>TryPush\<close> and \<open>TryPop\<close> on an initialised signal queue returns, and gives the
  results of a FIFO list of at most \<open>queue_capacity_\<close> elements (the requested capacity, not the power of
  two the ring has): the counter reserves the room the spinning \<open>try_push\<close> then finds.
\<close>

theorem signal_queue_try_refines:
  assumes "fs_inv s" and "length ops \<le> fs_budget s"
  shows "map_prod id (map_option fs_contents) (run_ops fs_exec ops s) =
    run_ops (list_exec (unat (fs_queue_capacity s))) (map fs_list_op ops) (fs_contents s)"
  using assms by (rule fs_run_list)

text \<open>\<open>Initialize\<close> gives the queue the invariant speaks of.\<close>

lemma SignalQueue_Initialize_ok:
  assumes "bit_ceil_spec bc" and "0 < num" and "unat num < 2 ^ 31" and "unat (bc num) \<le> length buffer"
  shows "\<exists>s. FlatSignalQueue_Initialize bc d num buffer (FlatSignalQueue_new d) = Some (True, s) \<and> fs_inv s \<and> fs_contents s = []
    \<and> fs_queue_capacity s = num"
proof -
  have n: "unat num \<le> 2 ^ 63" using assms(3) by simp
  from reserve_and_clear_placed_ok [OF assms(1) n assms(4), of "bq_new d" d] obtain q where
    "reserve_and_clear_placed bc d buffer num (bq_new d) = Some (bc num, q)" "cleared num q" "bq_wf q"
    by (auto simp: bq_new_def SlotVector_sized_def)
  then show ?thesis
    using assms(2,3) by (auto simp: FlatSignalQueue_Initialize_def FlatSignalQueue_new_def fs_inv_def fs_ok_def fs_contents_def cleared_def)
qed

definition sample_fs :: "nat flat_signal_queue" where
  "sample_fs = \<lparr>fs_inited = True, fs_queue_capacity = 3, fs_available_size = 0, fs_ev_queue = sample_bq\<rparr>"

lemma sample_fs_inv: "fs_inv sample_fs" "fs_contents sample_fs = []" "fs_budget sample_fs = 2 ^ 64 - 5" "fs_ok 0 sample_fs"
  by (simp_all add: fs_inv_def fs_ok_def fs_contents_def fs_budget_def sample_fs_def sample_bq_wf sample_bq_budget)

theorem signal_queue_try_refines_witness:
  "fs_inv sample_fs \<and> map_prod id (map_option fs_contents)
     (run_ops fs_exec [FsTryPush 1, FsTryPush 2, FsTryPush 3, FsTryPush 4, FsTryPop 0, FsTryPush 5] sample_fs) =
   ([Flag True, Flag True, Flag True, Flag False, FlagValue True 1, Flag True], Some [2, 3, 5])"
  using signal_queue_try_refines [of sample_fs "[FsTryPush 1, FsTryPush 2, FsTryPush 3, FsTryPush 4, FsTryPop 0, FsTryPush 5]"]
  by (simp add: sample_fs_inv) (simp add: sample_fs_def)

text \<open>Rounds of \<open>TryPush\<close> and the blocking \<open>Pop\<close>, the way \<open>ProcessState\<close> uses the queue.\<close>

fun push_pop_rounds :: "('a \<Rightarrow> 'a) \<Rightarrow> 'a list \<Rightarrow> 'a flat_signal_queue \<Rightarrow> 'a flat_signal_queue option" where
  "push_pop_rounds mv [] s = Some s"
| "push_pop_rounds mv (x # xs) s = do {
     (ok, s) \<leftarrow> FlatSignalQueue_TryPush x s;
     (_, y, s) \<leftarrow> FlatSignalQueue_Pop mv x s;
     push_pop_rounds mv xs s }"

lemma push_pop_rounds_count:
  "fs_ok k s \<Longrightarrow> fs_contents s = [] \<Longrightarrow> k + length xs \<le> unat (fs_queue_capacity s) \<Longrightarrow> 2 * length xs \<le> fs_budget s \<Longrightarrow>
    \<exists>s'. push_pop_rounds mv xs s = Some s' \<and> fs_ok (k + length xs) s' \<and> fs_contents s' = [] \<and> fs_queue_capacity s' = fs_queue_capacity s"
proof (induction xs arbitrary: s k)
  case (Cons x xs)
  from TryPush_room [OF Cons.prems(1), of x] Cons.prems obtain s1 where
    s1: "FlatSignalQueue_TryPush x s = Some (True, s1)" "fs_ok (Suc k) s1" "fs_contents s1 = [x]"
      "fs_queue_capacity s1 = fs_queue_capacity s" "fs_budget s \<le> fs_budget s1 + 1" by auto
  from Pop_some [OF s1(2,3), of mv x] s1(5) Cons.prems(4) obtain s2 where
    s2: "FlatSignalQueue_Pop mv x s1 = Some (True, x, s2)" "fs_ok (Suc k) s2" "fs_contents s2 = []"
      "fs_queue_capacity s2 = fs_queue_capacity s1" "fs_budget s1 \<le> fs_budget s2 + 1" by auto
  from Cons.IH [OF s2(2,3)] s1 s2 Cons.prems show ?case by simp
qed simp

text \<open>
  \<open>Pop\<close> never gives back what \<open>TryPush\<close> took from the counter: after as many rounds of \<open>TryPush\<close> and
  \<open>Pop\<close> as the queue has capacity, each popping what was pushed, the queue is empty and yet \<open>TryPush\<close>
  fails, then and (as nothing changes) ever after.
\<close>

theorem signal_queue_wedges:
  assumes "fs_inv s" and "fs_contents s = []" and "length xs = unat (fs_queue_capacity s)" and "2 * length xs \<le> fs_budget s"
  shows "\<exists>s'. push_pop_rounds moved xs s = Some s' \<and> fs_contents s' = [] \<and> FlatSignalQueue_TryPush x s' = Some (False, s')"
proof -
  have "fs_ok 0 s" using assms(1,2) by (simp add: fs_inv_def)
  from push_pop_rounds_count [OF this assms(2) _ assms(4), of moved] assms(3) obtain s' where
    "push_pop_rounds moved xs s = Some s'" "fs_ok (length xs) s'" "fs_contents s' = []" "fs_queue_capacity s' = fs_queue_capacity s" by auto
  then show ?thesis using TryPush_full [of "length xs" s' x] assms(3) by auto
qed

theorem signal_queue_wedges_witness:
  "\<exists>s'. push_pop_rounds (\<lambda>x. 0) [7, 8, 9] sample_fs = Some s' \<and> fs_contents s' = [] \<and> FlatSignalQueue_TryPush 10 s' = Some (False, s')"
  by (rule signal_queue_wedges) (use sample_fs_inv in \<open>simp_all add: sample_fs_def\<close>)

end
