(* ===== verification/NameTable.thy ===== *)
theory NameTable
  imports Prelude
begin

text \<open>
  What the registration tables of \<open>shm/topo\<close> share: names kept in a fixed \<open>char[256]\<close> with their length
  (\<open>SetName\<close> and \<open>IsEquel\<close> of \<open>WriterSlot\<close> and of \<open>SegmentIndicator\<close> have the same body), the C
  string functions they call, and the loop \<open>for (i = 0; i < n; ++i) if (test(i)) return i\<close>.

  A \<open>std::string\<close> is a \<open>string\<close>; \<open>c_str()\<close> has the terminating NUL appended. \<open>strncpy\<close> and \<open>strncmp\<close>
  stop at a NUL, so two names are the same name if they have the same length and agree up to the
  first NUL: \<open>name_key\<close>.
\<close>

definition NUL :: char where "NUL = CHR 0x00"

definition MAX_DATA_NAME_LENGTH :: nat where "MAX_DATA_NAME_LENGTH = 256"

definition c_str :: "string \<Rightarrow> string" where
  "c_str a = a @ [NUL]"

text \<open>\<open>strncpy(dest, src, n)\<close>: up to \<open>n\<close> characters of \<open>src\<close>, NULs after its end; \<open>None\<close> past an array.\<close>

fun strncpy :: "string \<Rightarrow> string \<Rightarrow> nat \<Rightarrow> string option" where
  "strncpy dest src 0 = Some dest"
| "strncpy [] src (Suc n) = None"
| "strncpy (d # dest) [] (Suc n) = None"
| "strncpy (d # dest) (s # src) (Suc n) =
     map_option ((#) s) (strncpy dest (if s = NUL then [NUL] else src) n)"

text \<open>\<open>strncmp(a, b, n) == 0\<close>\<close>

fun strncmp_eq :: "string \<Rightarrow> string \<Rightarrow> nat \<Rightarrow> bool option" where
  "strncmp_eq a b 0 = Some True"
| "strncmp_eq (x # a) (y # b) (Suc n) = (if x \<noteq> y then Some False else if x = NUL then Some True else strncmp_eq a b n)"
| "strncmp_eq _ _ (Suc n) = None"

record name_field =
  nf_name :: string
  nf_name_len :: u32

definition SetName :: "name_field \<Rightarrow> string \<Rightarrow> (bool \<times> name_field) option" where
  "SetName f a =
     (if MAX_DATA_NAME_LENGTH < length a then Some (False, f)
      else do {
        name \<leftarrow> strncpy (replicate MAX_DATA_NAME_LENGTH NUL) (c_str a) (length a);
        Some (True, f\<lparr>nf_name := name, nf_name_len := of_nat (length a)\<rparr>) })"

definition IsEquel :: "name_field \<Rightarrow> string \<Rightarrow> bool option" where
  "IsEquel f a =
     (if unat (nf_name_len f) \<noteq> length a then Some False
      else strncmp_eq (nf_name f) (c_str a) (unat (nf_name_len f)))"

primrec find_equal :: "(nat \<Rightarrow> bool option) \<Rightarrow> nat \<Rightarrow> nat \<Rightarrow> nat option option" where
  "find_equal test i 0 = Some None"
| "find_equal test i (Suc n) = do {
     b \<leftarrow> test i;
     if b then Some (Some i) else find_equal test (Suc i) n }"

section \<open>Names\<close>

definition name_key :: "string \<Rightarrow> nat \<times> string" where
  "name_key a = (length a, takeWhile (\<lambda>c. c \<noteq> NUL) a)"

definition field_key :: "name_field \<Rightarrow> nat \<times> string" where
  "field_key f = name_key (take (unat (nf_name_len f)) (nf_name f))"

definition field_ok :: "name_field \<Rightarrow> bool" where
  "field_ok f \<longleftrightarrow> length (nf_name f) = MAX_DATA_NAME_LENGTH \<and> unat (nf_name_len f) \<le> MAX_DATA_NAME_LENGTH"

lemma strncpy_NUL: "n \<le> length dest \<Longrightarrow> strncpy dest [NUL] n = Some (replicate n NUL @ drop n dest)"
proof (induction dest arbitrary: n)
  case (Cons d dest)
  then show ?case by (cases n) auto
qed simp

lemma strncpy_c_str:
  "length a \<le> length dest \<Longrightarrow>
     \<exists>r. strncpy dest (c_str a) (length a) = Some (r @ drop (length a) dest) \<and> length r = length a
       \<and> takeWhile (\<lambda>c. c \<noteq> NUL) r = takeWhile (\<lambda>c. c \<noteq> NUL) a"
proof (induction a arbitrary: dest)
  case (Cons x a)
  then obtain d ds where dest: "dest = d # ds" "length a \<le> length ds" by (cases dest) auto
  show ?case
  proof (cases "x = NUL")
    case True
    then show ?thesis
      using dest strncpy_NUL [OF dest(2)] by (intro exI [of _ "replicate (Suc (length a)) NUL"]) (simp add: c_str_def)
  next
    case False
    from Cons.IH [OF dest(2)] obtain r where "strncpy ds (c_str a) (length a) = Some (r @ drop (length a) ds)"
      "length r = length a" "takeWhile (\<lambda>c. c \<noteq> NUL) r = takeWhile (\<lambda>c. c \<noteq> NUL) a" by blast
    then show ?thesis using False dest by (intro exI [of _ "x # r"]) (simp add: c_str_def)
  qed
qed (simp add: c_str_def)

lemma strncmp_eq_take:
  "n \<le> length a \<Longrightarrow> n \<le> length b \<Longrightarrow>
     strncmp_eq a b n = Some (takeWhile (\<lambda>c. c \<noteq> NUL) (take n a) = takeWhile (\<lambda>c. c \<noteq> NUL) (take n b))"
proof (induction a b n rule: strncmp_eq.induct)
  case (2 x a y b n)
  then show ?case by auto
qed auto

lemma SetName_correct:
  assumes "length a \<le> MAX_DATA_NAME_LENGTH"
  shows "\<exists>f'. SetName f a = Some (True, f') \<and> field_ok f' \<and> field_key f' = name_key a"
proof -
  have le: "length a \<le> length (replicate MAX_DATA_NAME_LENGTH NUL)" using assms by simp
  obtain r where r: "strncpy (replicate MAX_DATA_NAME_LENGTH NUL) (c_str a) (length a) =
      Some (r @ drop (length a) (replicate MAX_DATA_NAME_LENGTH NUL))" "length r = length a"
      "takeWhile (\<lambda>c. c \<noteq> NUL) r = takeWhile (\<lambda>c. c \<noteq> NUL) a"
    using strncpy_c_str [OF le] by blast
  have u: "unat (of_nat (length a) :: u32) = length a" using assms by (intro unat_of_nat_small) (simp add: MAX_DATA_NAME_LENGTH_def)
  then show ?thesis
    using assms r by (auto simp: SetName_def field_ok_def field_key_def name_key_def)
qed

lemma IsEquel_correct:
  assumes "field_ok f"
  shows "IsEquel f a = Some (field_key f = name_key a)"
proof (cases "unat (nf_name_len f) = length a")
  case True
  then show ?thesis
    using assms strncmp_eq_take [of "length a" "nf_name f" "c_str a"]
    by (auto simp: IsEquel_def field_ok_def field_key_def name_key_def c_str_def)
next
  case False
  then show ?thesis
    using assms by (auto simp: IsEquel_def field_ok_def field_key_def name_key_def)
qed

section \<open>The search loop\<close>

lemma find_equal_first:
  assumes "\<And>j. i \<le> j \<Longrightarrow> j < i + n \<Longrightarrow> test j = Some (p j)"
  shows "find_equal test i n = Some (find p [i..<i + n])"
  using assms
proof (induction n arbitrary: i)
  case (Suc n)
  have "test i = Some (p i)" using Suc.prems [of i] by simp
  moreover have "find_equal test (Suc i) n = Some (find p [Suc i..<Suc i + n])" using Suc.prems by (intro Suc.IH) simp
  moreover have "[i..<i + Suc n] = i # [Suc i..<Suc i + n]" using upt_conv_Cons [of i "i + Suc n"] by simp
  ultimately show ?case by simp
qed simp

text \<open>The first position of a key in a list without duplicates.\<close>

definition index_of :: "'a \<Rightarrow> 'a list \<Rightarrow> nat option" where
  "index_of k ks = find (\<lambda>i. ks ! i = k) [0..<length ks]"

lemma index_of_Some: "distinct ks \<Longrightarrow> i < length ks \<Longrightarrow> index_of (ks ! i) ks = Some i"
  by (auto simp: index_of_def find_Some_iff nth_eq_iff_index_eq)

lemma index_of_None: "index_of k ks = None \<longleftrightarrow> k \<notin> set ks"
  by (auto simp: index_of_def find_None_iff in_set_conv_nth)

lemma index_of_SomeD: "index_of k ks = Some i \<Longrightarrow> i < length ks \<and> ks ! i = k"
  by (auto simp: index_of_def find_Some_iff)

lemma index_of_append: "k \<notin> set ks \<Longrightarrow> index_of k (ks @ [k]) = Some (length ks)"
  by (auto simp: index_of_def find_Some_iff nth_append in_set_conv_nth)

end
