(* ===== verification/TopoState.thy ===== *)
theory TopoState
  imports NameTable
begin

text \<open>
  \<open>shm/topo/topo_state.h\<close> and \<open>.cc\<close>: the table of writers (channels) and of the reader processes of
  each, in shared memory. Both registrations hold the write lock of \<open>TopoData\<close> from their first access
  to their last, so each is one step. \<open>int32_t\<close> results are \<open>32 word\<close>, \<open>-1\<close> for refusal; \<open>None\<close> is an access
  outside a table.

  \<open>topo_inv\<close> is the invariant and \<open>topo_abs\<close> the abstraction to a list of channels with their reader
  processes; \<open>RegisterWriter\<close> and \<open>RegisterReader\<close> refine \<open>reg_writer\<close> and \<open>reg_reader\<close> on it.
\<close>

type_synonym i32 = "32 word"

definition MAX_WRITER_NUM :: nat where "MAX_WRITER_NUM = 1024"
definition MAX_READER_NUM :: nat where "MAX_READER_NUM = 128"

record ReaderIndex =
  ri_writer_idx :: i32
  ri_reader_idx :: i32

record ReaderSlot =
  rs_is_online :: bool
  rs_ts :: u64
  rs_pid :: u32
  rs_process_state_index :: i32
  rs_writer_id :: i32
  rs_reader_id :: i32
  rs_history_qos :: u32

definition ReaderSlot_new :: ReaderSlot where
  "ReaderSlot_new = \<lparr>rs_is_online = False, rs_ts = 0, rs_pid = 0, rs_process_state_index = - 1,
     rs_writer_id = - 1, rs_reader_id = - 1, rs_history_qos = 1\<rparr>"

text \<open>\<open>name\<close> and \<open>name_len\<close> are the \<open>name_field\<close>; \<open>name\<close> has no initialiser (\<open>garbage\<close>).\<close>

record WriterSlot =
  ws_is_online :: bool
  ws_name :: name_field
  ws_name_id :: u64
  ws_writer_id :: i32
  ws_process_state_index :: i32
  ws_reader_num :: u16
  ws_reader_slots :: "ReaderSlot list"

definition WriterSlot_new :: "string \<Rightarrow> WriterSlot" where
  "WriterSlot_new garbage = \<lparr>ws_is_online = False, ws_name = \<lparr>nf_name = garbage, nf_name_len = 0\<rparr>, ws_name_id = 0,
     ws_writer_id = 0, ws_process_state_index = - 1, ws_reader_num = 0,
     ws_reader_slots = replicate MAX_READER_NUM ReaderSlot_new\<rparr>"

definition WriterSlot_SetName :: "WriterSlot \<Rightarrow> string \<Rightarrow> (bool \<times> WriterSlot) option" where
  "WriterSlot_SetName s a = do { (ok, f) \<leftarrow> SetName (ws_name s) a; Some (ok, s\<lparr>ws_name := f\<rparr>) }"

definition WriterSlot_IsEquel :: "WriterSlot \<Rightarrow> string \<Rightarrow> bool option" where
  "WriterSlot_IsEquel s a = IsEquel (ws_name s) a"

record TopoData =
  td_writer_num :: u16
  td_writer_slot_table :: "WriterSlot list"

definition TopoData_new :: "string \<Rightarrow> TopoData" where
  "TopoData_new garbage = \<lparr>td_writer_num = 0, td_writer_slot_table = replicate MAX_WRITER_NUM (WriterSlot_new garbage)\<rparr>"

section \<open>Operations\<close>

text \<open>The limit the code compares with is \<open>MAX_READER_NUM\<close>.\<close>

definition RegisterWriterLocked :: "i32 \<Rightarrow> string \<Rightarrow> TopoData \<Rightarrow> (i32 \<times> TopoData) option" where
  "RegisterWriterLocked process_idx name d = do {
     found \<leftarrow> find_equal (\<lambda>i. do { s \<leftarrow> mem_read (td_writer_slot_table d) i; WriterSlot_IsEquel s name }) 0 (unat (td_writer_num d));
     case found of
       Some i \<Rightarrow> Some (of_nat i, d)
     | None \<Rightarrow>
         if MAX_READER_NUM \<le> unat (td_writer_num d) then Some (- 1, d)
         else do {
           let idx = td_writer_num d;
           let d = d\<lparr>td_writer_num := td_writer_num d + 1\<rparr>;
           s \<leftarrow> mem_read (td_writer_slot_table d) (unat idx);
           (_, s) \<leftarrow> WriterSlot_SetName s name;
           table \<leftarrow> mem_write (td_writer_slot_table d) (unat idx) s;
           Some (ucast idx, d\<lparr>td_writer_slot_table := table\<rparr>) } }"

definition RegisterWriter :: "i32 \<Rightarrow> string \<Rightarrow> TopoData \<Rightarrow> (i32 \<times> TopoData) option" where
  "RegisterWriter process_idx name d =
     (if MAX_DATA_NAME_LENGTH < length name then Some (- 1, d)
      else do {
        (idx, d) \<leftarrow> RegisterWriterLocked process_idx name d;
        if 0 \<le> sint idx
        then do {
          s \<leftarrow> mem_read (td_writer_slot_table d) (unat idx);
          table \<leftarrow> mem_write (td_writer_slot_table d) (unat idx) (s\<lparr>ws_is_online := True\<rparr>);
          Some (idx, d\<lparr>td_writer_slot_table := table\<rparr>) }
        else Some (idx, d) })"

definition RegisterReaderLocked :: "i32 \<Rightarrow> u32 \<Rightarrow> TopoData \<Rightarrow> (i32 \<times> TopoData) option" where
  "RegisterReaderLocked process_idx writer_idx d = do {
     slot \<leftarrow> mem_read (td_writer_slot_table d) (unat writer_idx);
     found \<leftarrow> find_equal (\<lambda>i. do { r \<leftarrow> mem_read (ws_reader_slots slot) i; Some (process_idx = rs_process_state_index r) })
       0 (unat (ws_reader_num slot));
     case found of
       Some i \<Rightarrow> Some (of_nat i, d)
     | None \<Rightarrow>
         if MAX_READER_NUM \<le> unat (ws_reader_num slot) then Some (- 1, d)
         else do {
           let idx = ws_reader_num slot;
           r \<leftarrow> mem_read (ws_reader_slots slot) (unat idx);
           slots \<leftarrow> mem_write (ws_reader_slots slot) (unat idx)
             (r\<lparr>rs_process_state_index := process_idx, rs_is_online := True\<rparr>);
           table \<leftarrow> mem_write (td_writer_slot_table d) (unat writer_idx)
             (slot\<lparr>ws_reader_num := ws_reader_num slot + 1, ws_reader_slots := slots\<rparr>);
           Some (ucast idx, d\<lparr>td_writer_slot_table := table\<rparr>) } }"

definition RegisterReader :: "i32 \<Rightarrow> string \<Rightarrow> TopoData \<Rightarrow> (ReaderIndex \<times> TopoData) option" where
  "RegisterReader process_idx name d =
     (if MAX_DATA_NAME_LENGTH < length name then Some (\<lparr>ri_writer_idx = - 1, ri_reader_idx = - 1\<rparr>, d)
      else do {
        (writer_idx, d) \<leftarrow> RegisterWriterLocked process_idx name d;
        if writer_idx = - 1 then Some (\<lparr>ri_writer_idx = - 1, ri_reader_idx = - 1\<rparr>, d)
        else do {
          (reader_idx, d) \<leftarrow> RegisterReaderLocked process_idx writer_idx d;
          d \<leftarrow> (if 0 \<le> sint reader_idx
               then do {
                 slot \<leftarrow> mem_read (td_writer_slot_table d) (unat writer_idx);
                 r \<leftarrow> mem_read (ws_reader_slots slot) (unat reader_idx);
                 slots \<leftarrow> mem_write (ws_reader_slots slot) (unat reader_idx) (r\<lparr>rs_is_online := True\<rparr>);
                 table \<leftarrow> mem_write (td_writer_slot_table d) (unat writer_idx) (slot\<lparr>ws_reader_slots := slots\<rparr>);
                 Some (d\<lparr>td_writer_slot_table := table\<rparr>) }
               else Some d);
          Some (\<lparr>ri_writer_idx = writer_idx, ri_reader_idx = reader_idx\<rparr>, d) } })"

definition GetWriterSlot :: "i32 \<Rightarrow> TopoData \<Rightarrow> WriterSlot option" where
  "GetWriterSlot writer_index d =
     (if sint writer_index < 0 then None else mem_read (td_writer_slot_table d) (unat writer_index))"

section \<open>Specification\<close>

text \<open>A channel: its name and its reader processes, in the order of registration.\<close>

type_synonym channel = "(nat \<times> string) \<times> i32 list"

definition reg_writer :: "string \<Rightarrow> channel list \<Rightarrow> i32 \<times> channel list" where
  "reg_writer name cs =
     (if MAX_DATA_NAME_LENGTH < length name then (- 1, cs)
      else case index_of (name_key name) (map fst cs) of
        Some i \<Rightarrow> (of_nat i, cs)
      | None \<Rightarrow> if length cs < MAX_READER_NUM then (of_nat (length cs), cs @ [(name_key name, [])]) else (- 1, cs))"

definition reg_reader :: "i32 \<Rightarrow> string \<Rightarrow> channel list \<Rightarrow> ReaderIndex \<times> channel list" where
  "reg_reader p name cs =
     (let (w, cs) = reg_writer name cs in
      if w = - 1 then (\<lparr>ri_writer_idx = - 1, ri_reader_idx = - 1\<rparr>, cs)
      else let ps = snd (cs ! unat w) in
        case index_of p ps of
          Some i \<Rightarrow> (\<lparr>ri_writer_idx = w, ri_reader_idx = of_nat i\<rparr>, cs)
        | None \<Rightarrow>
            if length ps < MAX_READER_NUM
            then (\<lparr>ri_writer_idx = w, ri_reader_idx = of_nat (length ps)\<rparr>, cs[unat w := (fst (cs ! unat w), ps @ [p])])
            else (\<lparr>ri_writer_idx = w, ri_reader_idx = - 1\<rparr>, cs))"

definition slot_abs :: "WriterSlot \<Rightarrow> channel" where
  "slot_abs s = (field_key (ws_name s), map rs_process_state_index (take (unat (ws_reader_num s)) (ws_reader_slots s)))"

definition topo_abs :: "TopoData \<Rightarrow> channel list" where
  "topo_abs d = map slot_abs (take (unat (td_writer_num d)) (td_writer_slot_table d))"

definition slot_ok :: "WriterSlot \<Rightarrow> bool" where
  "slot_ok s \<longleftrightarrow> field_ok (ws_name s) \<and> unat (ws_reader_num s) \<le> MAX_READER_NUM \<and> length (ws_reader_slots s) = MAX_READER_NUM \<and>
     (\<forall>i<unat (ws_reader_num s). rs_is_online (ws_reader_slots s ! i))"

definition topo_inv :: "TopoData \<Rightarrow> bool" where
  "topo_inv d \<longleftrightarrow> unat (td_writer_num d) \<le> MAX_READER_NUM \<and> length (td_writer_slot_table d) = MAX_WRITER_NUM \<and>
     (\<forall>i<unat (td_writer_num d). slot_ok (td_writer_slot_table d ! i)) \<and>
     (\<forall>i<MAX_WRITER_NUM. unat (td_writer_num d) \<le> i \<longrightarrow> ws_reader_num (td_writer_slot_table d ! i) = 0 \<and>
        length (ws_reader_slots (td_writer_slot_table d ! i)) = MAX_READER_NUM)"

section \<open>Refinement\<close>

lemma small_index:
  assumes "i < MAX_READER_NUM"
  shows "unat (of_nat i :: i32) = i" and "0 \<le> sint (of_nat i :: i32)" and "(of_nat i :: i32) \<noteq> - 1"
proof -
  have i: "i < 128" using assms by (simp add: MAX_READER_NUM_def)
  show u: "unat (of_nat i :: i32) = i" using i by (intro unat_of_nat_small) simp
  show "0 \<le> sint (of_nat i :: i32)" using i by (simp add: signed_of_nat signed_take_bit_int_eq_self)
  then show "(of_nat i :: i32) \<noteq> - 1" using sint_n1 [where ?'a = 32] by force
qed

lemma length_topo_abs: "topo_inv d \<Longrightarrow> length (topo_abs d) = unat (td_writer_num d)"
  by (simp add: topo_abs_def topo_inv_def MAX_READER_NUM_def MAX_WRITER_NUM_def)

lemma topo_abs_nth:
  assumes "topo_inv d" and "i < unat (td_writer_num d)"
  shows "i < length (td_writer_slot_table d)" and "topo_abs d ! i = slot_abs (td_writer_slot_table d ! i)"
  using assms by (simp_all add: topo_abs_def topo_inv_def MAX_READER_NUM_def MAX_WRITER_NUM_def)

text \<open>Replacing the slot of a registered channel.\<close>

lemma topo_upd:
  assumes inv: "topo_inv d" and i: "i < unat (td_writer_num d)" and s: "slot_ok s"
  shows "topo_inv (d\<lparr>td_writer_slot_table := (td_writer_slot_table d)[i := s]\<rparr>)"
    and "topo_abs (d\<lparr>td_writer_slot_table := (td_writer_slot_table d)[i := s]\<rparr>) = (topo_abs d)[i := slot_abs s]"
proof -
  show "topo_inv (d\<lparr>td_writer_slot_table := (td_writer_slot_table d)[i := s]\<rparr>)"
    using inv i s topo_abs_nth(1) [OF inv i] by (auto simp: topo_inv_def nth_list_update)
  show "topo_abs (d\<lparr>td_writer_slot_table := (td_writer_slot_table d)[i := s]\<rparr>) = (topo_abs d)[i := slot_abs s]"
    by (simp add: topo_abs_def take_update_swap map_update)
qed

lemma find_writer:
  assumes inv: "topo_inv d"
  shows "find_equal (\<lambda>i. do { s \<leftarrow> mem_read (td_writer_slot_table d) i; WriterSlot_IsEquel s name }) 0 (unat (td_writer_num d)) =
    Some (index_of (name_key name) (map fst (topo_abs d)))"
proof -
  let ?n = "unat (td_writer_num d)"
  let ?p = "\<lambda>i. map fst (topo_abs d) ! i = name_key name"
  have "do { s \<leftarrow> mem_read (td_writer_slot_table d) i; WriterSlot_IsEquel s name } = Some (?p i)" if "i < ?n" for i
  proof -
    have "field_ok (ws_name (td_writer_slot_table d ! i))" using inv that by (simp add: topo_inv_def slot_ok_def)
    then show ?thesis
      using topo_abs_nth [OF inv that] that length_topo_abs [OF inv]
      by (simp add: mem_read_def WriterSlot_IsEquel_def IsEquel_correct slot_abs_def)
  qed
  then have "find_equal (\<lambda>i. do { s \<leftarrow> mem_read (td_writer_slot_table d) i; WriterSlot_IsEquel s name }) 0 ?n = Some (find ?p [0..<0 + ?n])"
    by (intro find_equal_first) simp
  then show ?thesis using length_topo_abs [OF inv] by (simp add: index_of_def)
qed

lemma take_Suc_update: "n < length xs \<Longrightarrow> take (Suc n) (xs[n := v]) = take n xs @ [v]"
  by (simp add: take_Suc_conv_app_nth)

lemma RegisterWriterLocked_refines:
  assumes inv: "topo_inv d" and len: "\<not> MAX_DATA_NAME_LENGTH < length name"
  shows "\<exists>w d'. RegisterWriterLocked p name d = Some (w, d') \<and> topo_inv d' \<and> reg_writer name (topo_abs d) = (w, topo_abs d')
    \<and> (w = - 1 \<or> (\<exists>i<unat (td_writer_num d'). w = of_nat i))"
proof (cases "index_of (name_key name) (map fst (topo_abs d))")
  case (Some i)
  then have "i < unat (td_writer_num d)" using index_of_SomeD [OF Some] length_topo_abs [OF inv] by simp
  then show ?thesis
    using Some inv len find_writer [OF inv, of name] by (auto simp: RegisterWriterLocked_def reg_writer_def)
next
  case None
  let ?n = "unat (td_writer_num d)" and ?t = "td_writer_slot_table d"
  show ?thesis
  proof (cases "MAX_READER_NUM \<le> ?n")
    case True
    then show ?thesis
      using None inv len find_writer [OF inv, of name] length_topo_abs [OF inv]
      by (auto simp: RegisterWriterLocked_def reg_writer_def)
  next
    case False
    have tab: "?n < length ?t" "?n < MAX_WRITER_NUM" using inv False by (simp_all add: topo_inv_def MAX_READER_NUM_def MAX_WRITER_NUM_def)
    have n1: "unat (td_writer_num d + 1) = Suc ?n" using False by (subst unat_add_small) (simp_all add: MAX_READER_NUM_def)
    obtain f where f: "SetName (ws_name (?t ! ?n)) name = Some (True, f)" "field_ok f" "field_key f = name_key name"
      using SetName_correct [of name "ws_name (?t ! ?n)"] len by auto
    define s where "s = (?t ! ?n)\<lparr>ws_name := f\<rparr>"
    define d' where "d' = d\<lparr>td_writer_num := td_writer_num d + 1, td_writer_slot_table := ?t[?n := s]\<rparr>"
    have fresh: "ws_reader_num (?t ! ?n) = 0" "length (ws_reader_slots (?t ! ?n)) = MAX_READER_NUM"
      using inv tab(2) by (simp_all add: topo_inv_def)
    then have s: "slot_ok s" "slot_abs s = (name_key name, [])" using f by (simp_all add: s_def slot_ok_def slot_abs_def)
    have inv': "topo_inv d'"
      using inv s(1) False tab n1 by (auto simp: topo_inv_def d'_def nth_list_update less_Suc_eq)
    have abs': "topo_abs d' = topo_abs d @ [(name_key name, [])]"
      using take_Suc_update [OF tab(1), of s] by (simp add: topo_abs_def d'_def n1 s(2))
    have "RegisterWriterLocked p name d = Some (of_nat ?n, d')"
      using None False f(1) tab find_writer [OF inv, of name]
      by (simp add: RegisterWriterLocked_def WriterSlot_SetName_def mem_read_def mem_write_def s_def d'_def Let_def)
    moreover have "?n < unat (td_writer_num d')" by (simp add: d'_def n1)
    ultimately show ?thesis
      using inv' abs' None False len length_topo_abs [OF inv]
      by (intro exI [of _ "of_nat ?n"] exI [of _ d']) (auto simp: reg_writer_def simp del: of_nat_unat)
  qed
qed

lemma RegisterWriter_refines:
  assumes inv: "topo_inv d"
  shows "\<exists>w d'. RegisterWriter p name d = Some (w, d') \<and> topo_inv d' \<and> reg_writer name (topo_abs d) = (w, topo_abs d')
    \<and> (w = - 1 \<or> (\<exists>i<unat (td_writer_num d'). w = of_nat i \<and> ws_is_online (td_writer_slot_table d' ! i)))"
proof (cases "MAX_DATA_NAME_LENGTH < length name")
  case True
  then show ?thesis using inv by (simp add: RegisterWriter_def reg_writer_def)
next
  case False
  from RegisterWriterLocked_refines [OF inv False, of p] obtain w d1 where
    d1: "RegisterWriterLocked p name d = Some (w, d1)" "topo_inv d1" "reg_writer name (topo_abs d) = (w, topo_abs d1)"
      "w = - 1 \<or> (\<exists>i<unat (td_writer_num d1). w = of_nat i)" by blast
  show ?thesis
  proof (cases "w = - 1")
    case True
    then show ?thesis using d1 False by (simp add: RegisterWriter_def)
  next
    case wi: False
    with d1(4) obtain i where i: "i < unat (td_writer_num d1)" "w = of_nat i" by blast
    then have "i < MAX_READER_NUM" using d1(2) by (simp add: topo_inv_def)
    note si = small_index [OF this]
    let ?s = "(td_writer_slot_table d1 ! i)\<lparr>ws_is_online := True\<rparr>"
    let ?d = "d1\<lparr>td_writer_slot_table := (td_writer_slot_table d1)[i := ?s]\<rparr>"
    have s: "slot_ok ?s" "slot_abs ?s = topo_abs d1 ! i"
      using d1(2) i(1) topo_abs_nth(2) [OF d1(2) i(1)] by (simp_all add: topo_inv_def slot_ok_def slot_abs_def)
    note u = topo_upd [OF d1(2) i(1) s(1), unfolded s(2) list_update_id]
    have "RegisterWriter p name d = Some (w, ?d)"
      using False d1(1) i(2) si topo_abs_nth(1) [OF d1(2) i(1)] by (simp add: RegisterWriter_def mem_read_def mem_write_def)
    then show ?thesis
      using u d1(3) i topo_abs_nth(1) [OF d1(2) i(1)] by (intro exI [of _ w] exI [of _ ?d]) auto
  qed
qed

lemma find_reader:
  assumes "slot_ok s"
  shows "find_equal (\<lambda>i. do { r \<leftarrow> mem_read (ws_reader_slots s) i; Some (p = rs_process_state_index r) }) 0 (unat (ws_reader_num s)) =
    Some (index_of p (snd (slot_abs s)))"
proof -
  let ?n = "unat (ws_reader_num s)" and ?p = "\<lambda>i. snd (slot_abs s) ! i = p"
  have len: "?n \<le> length (ws_reader_slots s)" using assms by (simp add: slot_ok_def)
  then have "find_equal (\<lambda>i. do { r \<leftarrow> mem_read (ws_reader_slots s) i; Some (p = rs_process_state_index r) }) 0 ?n = Some (find ?p [0..<0 + ?n])"
    by (intro find_equal_first) (auto simp: mem_read_def slot_abs_def)
  then show ?thesis using len by (simp add: index_of_def slot_abs_def)
qed

text \<open>What \<open>RegisterReaderLocked\<close> does to the reader processes of one channel.\<close>

definition reg_process :: "i32 \<Rightarrow> i32 list \<Rightarrow> i32 \<times> i32 list" where
  "reg_process p ps = (case index_of p ps of
       Some i \<Rightarrow> (of_nat i, ps)
     | None \<Rightarrow> if length ps < MAX_READER_NUM then (of_nat (length ps), ps @ [p]) else (- 1, ps))"

lemma reg_reader_process:
  "reg_reader p name cs = (let (w, cs) = reg_writer name cs in
     if w = - 1 then (\<lparr>ri_writer_idx = - 1, ri_reader_idx = - 1\<rparr>, cs)
     else let (r, ps) = reg_process p (snd (cs ! unat w)) in
       (\<lparr>ri_writer_idx = w, ri_reader_idx = r\<rparr>, cs[unat w := (fst (cs ! unat w), ps)]))"
  by (simp add: reg_reader_def reg_process_def Let_def case_prod_unfold split: option.splits)

lemma RegisterReaderLocked_refines:
  assumes inv: "topo_inv d" and i: "i < unat (td_writer_num d)"
  defines "c \<equiv> topo_abs d ! i"
  shows "\<exists>r s d'. RegisterReaderLocked p (of_nat i) d = Some (r, d') \<and> d' = d\<lparr>td_writer_slot_table := (td_writer_slot_table d)[i := s]\<rparr>
    \<and> slot_ok s \<and> (r, slot_abs s) = (fst (reg_process p (snd c)), (fst c, snd (reg_process p (snd c))))
    \<and> (r = - 1 \<or> (\<exists>j<unat (ws_reader_num s). r = of_nat j))"
proof -
  define s where "s = td_writer_slot_table d ! i"
  have iM: "i < MAX_READER_NUM" using inv i by (simp add: topo_inv_def)
  have tab: "i < length (td_writer_slot_table d)" and c: "c = slot_abs s"
    using topo_abs_nth [OF inv i] by (simp_all add: c_def s_def)
  have ok: "slot_ok s" using inv i by (simp add: topo_inv_def s_def)
  have ui: "unat (of_nat i :: u32) = i" using small_index(1) [OF iM] by simp
  have len: "length (snd c) = unat (ws_reader_num s)" using ok by (simp add: c slot_abs_def slot_ok_def)
  show ?thesis
  proof (cases "index_of p (snd c)")
    case (Some j)
    then have "j < unat (ws_reader_num s)" using index_of_SomeD [OF Some] len by simp
    moreover have "d = d\<lparr>td_writer_slot_table := (td_writer_slot_table d)[i := s]\<rparr>" by (simp add: s_def)
    ultimately show ?thesis
      using Some ok tab ui find_reader [OF ok, of p] c
      by (intro exI [of _ "of_nat j"] exI [of _ s] exI [of _ d])
        (auto simp: RegisterReaderLocked_def mem_read_def s_def [symmetric] reg_process_def)
  next
    case None
    show ?thesis
    proof (cases "MAX_READER_NUM \<le> unat (ws_reader_num s)")
      case True
      moreover have "d = d\<lparr>td_writer_slot_table := (td_writer_slot_table d)[i := s]\<rparr>" by (simp add: s_def)
      ultimately show ?thesis
        using None ok tab ui find_reader [OF ok, of p] c len
        by (intro exI [of _ "- 1"] exI [of _ s] exI [of _ d])
          (auto simp: RegisterReaderLocked_def mem_read_def s_def [symmetric] reg_process_def)
    next
      case False
      let ?k = "unat (ws_reader_num s)"
      define r where "r = (ws_reader_slots s ! ?k)\<lparr>rs_process_state_index := p, rs_is_online := True\<rparr>"
      define s' where "s' = s\<lparr>ws_reader_num := ws_reader_num s + 1, ws_reader_slots := (ws_reader_slots s)[?k := r]\<rparr>"
      have k: "?k < length (ws_reader_slots s)" using ok False by (simp add: slot_ok_def)
      have k1: "unat (ws_reader_num s + 1) = Suc ?k" using False by (subst unat_add_small) (simp_all add: MAX_READER_NUM_def)
      have s': "slot_ok s'" "slot_abs s' = (fst c, snd c @ [p])"
        using ok k k1 False take_Suc_update [OF k, of r]
        by (auto simp: s'_def slot_ok_def slot_abs_def c r_def nth_list_update less_Suc_eq)
      have "RegisterReaderLocked p (of_nat i) d =
          Some (of_nat ?k, d\<lparr>td_writer_slot_table := (td_writer_slot_table d)[i := s']\<rparr>)"
        using None False tab ui k find_reader [OF ok, of p] c
        by (simp add: RegisterReaderLocked_def mem_read_def mem_write_def s_def [symmetric] r_def [symmetric] s'_def Let_def)
      moreover have "?k < unat (ws_reader_num s')" by (simp add: s'_def k1)
      ultimately show ?thesis
        using None False s' len
        by (intro exI [of _ "of_nat ?k"] exI [of _ s'] exI [of _ "d\<lparr>td_writer_slot_table := (td_writer_slot_table d)[i := s']\<rparr>"])
          (auto simp: reg_process_def simp del: of_nat_unat)
    qed
  qed
qed

lemma RegisterReader_refines:
  assumes inv: "topo_inv d"
  shows "\<exists>ri d'. RegisterReader p name d = Some (ri, d') \<and> topo_inv d' \<and> reg_reader p name (topo_abs d) = (ri, topo_abs d')"
proof (cases "MAX_DATA_NAME_LENGTH < length name")
  case True
  then show ?thesis using inv by (simp add: RegisterReader_def reg_reader_def reg_writer_def)
next
  case False
  from RegisterWriterLocked_refines [OF inv False, of p] obtain w d1 where
    d1: "RegisterWriterLocked p name d = Some (w, d1)" "topo_inv d1" "reg_writer name (topo_abs d) = (w, topo_abs d1)"
      "w = - 1 \<or> (\<exists>i<unat (td_writer_num d1). w = of_nat i)" by blast
  show ?thesis
  proof (cases "w = - 1")
    case True
    then show ?thesis using d1 False by (simp add: RegisterReader_def reg_reader_def)
  next
    case wi: False
    with d1(4) obtain i where i: "i < unat (td_writer_num d1)" "w = of_nat i" by blast
    then have iM: "i < MAX_READER_NUM" using d1(2) by (simp add: topo_inv_def)
    have uw: "unat w = i" using small_index(1) [OF iM] i(2) by simp
    define c where "c = topo_abs d1 ! i"
    from RegisterReaderLocked_refines [OF d1(2) i(1), of p, folded c_def] obtain r s where
      r: "RegisterReaderLocked p (of_nat i) d1 = Some (r, d1\<lparr>td_writer_slot_table := (td_writer_slot_table d1)[i := s]\<rparr>)"
        "slot_ok s" "r = fst (reg_process p (snd c))" "slot_abs s = (fst c, snd (reg_process p (snd c)))"
        "r = - 1 \<or> (\<exists>j<unat (ws_reader_num s). r = of_nat j)" by auto
    have tab: "i < length (td_writer_slot_table d1)" using topo_abs_nth(1) [OF d1(2) i(1)] .
    note u = topo_upd [OF d1(2) i(1) r(2), unfolded r(4)]
    have spec: "reg_reader p name (topo_abs d) = (\<lparr>ri_writer_idx = w, ri_reader_idx = r\<rparr>, (topo_abs d1)[i := (fst c, snd (reg_process p (snd c)))])"
      using wi d1(3) uw r(3) by (simp add: reg_reader_process Let_def case_prod_unfold c_def)
    show ?thesis
    proof (cases "r = - 1")
      case True
      then show ?thesis using d1(1) False wi r(1) i(2) u spec by (auto simp: RegisterReader_def)
    next
      case rj: False
      with r(5) obtain j where j: "j < unat (ws_reader_num s)" "r = of_nat j" by blast
      then have jM: "j < MAX_READER_NUM" using r(2) by (simp add: slot_ok_def)
      note sj = small_index [OF jM]
      have "(ws_reader_slots s)[j := (ws_reader_slots s ! j)\<lparr>rs_is_online := True\<rparr>] = ws_reader_slots s"
        using j(1) r(2) by (simp add: slot_ok_def list_update_same_conv)
      moreover have "j < length (ws_reader_slots s)" using jM r(2) by (simp add: slot_ok_def)
      ultimately have "RegisterReader p name d = Some (\<lparr>ri_writer_idx = w, ri_reader_idx = r\<rparr>, d1\<lparr>td_writer_slot_table := (td_writer_slot_table d1)[i := s]\<rparr>)"
        using d1(1) False wi r(1) i(2) uw tab j(2) sj by (simp add: RegisterReader_def mem_read_def mem_write_def)
      then show ?thesis using u spec by auto
    qed
  qed
qed

section \<open>Sequences of registrations\<close>

datatype topo_op = RegW i32 string | RegR i32 string

datatype topo_res = WIdx i32 | RIdx ReaderIndex

fun topo_exec :: "topo_op \<Rightarrow> TopoData \<Rightarrow> (topo_res \<times> TopoData) option" where
  "topo_exec (RegW p name) d = map_option (map_prod WIdx id) (RegisterWriter p name d)"
| "topo_exec (RegR p name) d = map_option (map_prod RIdx id) (RegisterReader p name d)"

fun reg_exec :: "topo_op \<Rightarrow> channel list \<Rightarrow> topo_res \<times> channel list" where
  "reg_exec (RegW p name) cs = map_prod WIdx id (reg_writer name cs)"
| "reg_exec (RegR p name) cs = map_prod RIdx id (reg_reader p name cs)"

fun topo_run :: "topo_op list \<Rightarrow> TopoData \<Rightarrow> (topo_res list \<times> TopoData) option" where
  "topo_run [] d = Some ([], d)"
| "topo_run (op # ops) d = do {
     (r, d) \<leftarrow> topo_exec op d;
     (rs, d) \<leftarrow> topo_run ops d;
     Some (r # rs, d) }"

fun reg_run :: "topo_op list \<Rightarrow> channel list \<Rightarrow> topo_res list \<times> channel list" where
  "reg_run [] cs = ([], cs)"
| "reg_run (op # ops) cs = (let (r, cs) = reg_exec op cs; (rs, cs) = reg_run ops cs in (r # rs, cs))"

lemma topo_exec_refines:
  assumes "topo_inv d"
  shows "\<exists>r d'. topo_exec op d = Some (r, d') \<and> topo_inv d' \<and> reg_exec op (topo_abs d) = (r, topo_abs d')"
proof (cases op)
  case (RegW p name)
  then show ?thesis using RegisterWriter_refines [OF assms, of p name] by auto
next
  case (RegR p name)
  then show ?thesis using RegisterReader_refines [OF assms, of p name] by auto
qed

lemma topo_run_refines:
  "topo_inv d \<Longrightarrow> \<exists>rs d'. topo_run ops d = Some (rs, d') \<and> topo_inv d' \<and> reg_run ops (topo_abs d) = (rs, topo_abs d')"
proof (induction ops arbitrary: d)
  case (Cons op ops)
  from topo_exec_refines [OF Cons.prems, of op] obtain r d1 where
    d1: "topo_exec op d = Some (r, d1)" "topo_inv d1" "reg_exec op (topo_abs d) = (r, topo_abs d1)" by blast
  from Cons.IH [OF d1(2)] d1 show ?case by auto
qed simp

lemma TopoData_new_inv: "topo_inv (TopoData_new garbage)" "topo_abs (TopoData_new garbage) = []"
  by (simp_all add: topo_inv_def TopoData_new_def WriterSlot_new_def topo_abs_def)

text \<open>On the specification: channels keep their position, and positions identify names.\<close>

definition extends :: "channel list \<Rightarrow> channel list \<Rightarrow> bool" where
  "extends cs cs' \<longleftrightarrow> length cs \<le> length cs' \<and> (\<forall>i<length cs. fst (cs' ! i) = fst (cs ! i))"

lemma extends_refl: "extends cs cs"
  by (simp add: extends_def)

lemma extends_trans: "extends a b \<Longrightarrow> extends b c \<Longrightarrow> extends a c"
  by (auto simp: extends_def)

definition names_ok :: "channel list \<Rightarrow> bool" where
  "names_ok cs \<longleftrightarrow> distinct (map fst cs) \<and> length cs \<le> MAX_READER_NUM"

lemma reg_writer_names:
  assumes "names_ok cs" and "reg_writer name cs = (w, cs')"
  shows "names_ok cs'" and "extends cs cs'" and "w \<noteq> - 1 \<Longrightarrow> unat w < length cs' \<and> fst (cs' ! unat w) = name_key name"
proof -
  have "names_ok cs' \<and> extends cs cs' \<and> (w \<noteq> - 1 \<longrightarrow> unat w < length cs' \<and> fst (cs' ! unat w) = name_key name)"
  proof (cases "index_of (name_key name) (map fst cs)")
    case (Some i)
    then have "i < length cs" "fst (cs ! i) = name_key name" using index_of_SomeD [OF Some] by auto
    moreover from this have "unat (of_nat i :: i32) = i" using assms(1) by (intro small_index(1)) (simp add: names_ok_def)
    ultimately show ?thesis using assms Some by (auto simp: reg_writer_def extends_refl split: if_splits)
  next
    case None
    note new = index_of_None [THEN iffD1, OF None]
    have "unat (of_nat (length cs) :: i32) = length cs" if "length cs < MAX_READER_NUM" using that by (rule small_index(1))
    then show ?thesis
      using assms None new
      by (auto simp: reg_writer_def extends_def names_ok_def nth_append simp del: set_map split: if_splits)
  qed
  then show "names_ok cs'" "extends cs cs'" "w \<noteq> - 1 \<Longrightarrow> unat w < length cs' \<and> fst (cs' ! unat w) = name_key name" by simp_all
qed

fun op_name :: "topo_op \<Rightarrow> string" where
  "op_name (RegW p name) = name"
| "op_name (RegR p name) = name"

fun res_writer :: "topo_res \<Rightarrow> i32" where
  "res_writer (WIdx w) = w"
| "res_writer (RIdx ri) = ri_writer_idx ri"

lemma reg_exec_names:
  assumes ok: "names_ok cs" and ex: "reg_exec op cs = (r, cs')"
  shows "names_ok cs' \<and> extends cs cs' \<and>
    (res_writer r \<noteq> - 1 \<longrightarrow> unat (res_writer r) < length cs' \<and> fst (cs' ! unat (res_writer r)) = name_key (op_name op))"
proof (cases op)
  case (RegW p name)
  obtain w cs1 where w: "reg_writer name cs = (w, cs1)" by fastforce
  show ?thesis using reg_writer_names [OF ok w] w ex RegW by auto
next
  case (RegR p name)
  obtain w cs1 where w: "reg_writer name cs = (w, cs1)" by fastforce
  note n = reg_writer_names [OF ok w]
  show ?thesis
  proof (cases "w = - 1")
    case True
    then show ?thesis using n(1,2) w ex RegR by (auto simp: reg_reader_process)
  next
    case False
    let ?ps = "snd (reg_process p (snd (cs1 ! unat w)))"
    let ?cs = "cs1[unat w := (fst (cs1 ! unat w), ?ps)]"
    have same: "map fst ?cs = map fst cs1" by (simp add: map_update list_update_same_conv n(3) [OF False])
    have "cs' = ?cs" "res_writer r = w" using False w ex RegR by (auto simp: reg_reader_process Let_def case_prod_unfold)
    moreover have "names_ok ?cs" using n(1) same by (simp add: names_ok_def)
    moreover have "extends cs ?cs" using n(2,3) False by (auto simp: extends_def nth_list_update)
    ultimately show ?thesis using n(3) [OF False] RegR by simp
  qed
qed

lemma reg_run_names:
  "names_ok cs \<Longrightarrow> reg_run ops cs = (rs, cs') \<Longrightarrow> names_ok cs' \<and> extends cs cs' \<and> length rs = length ops \<and>
    (\<forall>i<length ops. res_writer (rs ! i) \<noteq> - 1 \<longrightarrow>
       unat (res_writer (rs ! i)) < length cs' \<and> fst (cs' ! unat (res_writer (rs ! i))) = name_key (op_name (ops ! i)))"
proof (induction ops arbitrary: cs rs)
  case (Cons op ops)
  obtain r cs1 where r: "reg_exec op cs = (r, cs1)" by fastforce
  obtain rs1 where rs1: "reg_run ops cs1 = (rs1, cs')" "rs = r # rs1"
    using Cons.prems(2) r by (auto simp: Let_def split: prod.splits)
  note e = reg_exec_names [OF Cons.prems(1) r]
  then have "names_ok cs1" by simp
  note ih = Cons.IH [OF this rs1(1)]
  have "res_writer r \<noteq> - 1 \<Longrightarrow> unat (res_writer r) < length cs' \<and> fst (cs' ! unat (res_writer r)) = name_key (op_name op)"
    using e ih by (auto simp: extends_def)
  then show ?case using ih e rs1(2) by (auto simp: nth_Cons less_Suc_eq_0_disj intro: extends_trans)
qed (simp add: extends_refl)

section \<open>Properties\<close>

text \<open>
  C29: From a new table, any sequence of writer and reader registrations stays inside the tables and
  returns what the list of channels with their reader processes gives: a known name or process keeps
  its index, a new one gets the next, and names that are too long or beyond the limit get \<open>-1\<close>.
\<close>

theorem topology_refines_registry:
  "\<exists>rs d. topo_run ops (TopoData_new garbage) = Some (rs, d) \<and> topo_inv d \<and> reg_run ops [] = (rs, topo_abs d)"
  using topo_run_refines [OF TopoData_new_inv(1), of ops garbage] by (simp add: TopoData_new_inv(2))

text \<open>
  Whatever is registered in whatever order, two successful registrations (as writer or as reader)
  are given the same channel index exactly if they use the same name.
\<close>

theorem channel_index_identifies_name:
  assumes "topo_run ops (TopoData_new garbage) = Some (rs, d)" and "i < length ops" and "j < length ops"
    and "res_writer (rs ! i) \<noteq> - 1" and "res_writer (rs ! j) \<noteq> - 1"
  shows "res_writer (rs ! i) = res_writer (rs ! j) \<longleftrightarrow> name_key (op_name (ops ! i)) = name_key (op_name (ops ! j))"
proof -
  have "reg_run ops [] = (rs, topo_abs d)"
    using topo_run_refines [OF TopoData_new_inv(1), of ops garbage] assms(1) by (auto simp: TopoData_new_inv(2))
  from reg_run_names [OF _ this] have n: "names_ok (topo_abs d)"
    "\<And>i. i < length ops \<Longrightarrow> res_writer (rs ! i) \<noteq> - 1 \<Longrightarrow>
       unat (res_writer (rs ! i)) < length (topo_abs d) \<and> fst (topo_abs d ! unat (res_writer (rs ! i))) = name_key (op_name (ops ! i))"
    by (simp_all add: names_ok_def)
  have "fst (topo_abs d ! k) = fst (topo_abs d ! l) \<longleftrightarrow> k = l" if "k < length (topo_abs d)" "l < length (topo_abs d)" for k l
    using n(1) that nth_eq_iff_index_eq [of "map fst (topo_abs d)" k l] by (simp add: names_ok_def)
  with n(2) [OF assms(2,4)] n(2) [OF assms(3,5)] show ?thesis by (metis word_unat_eq_iff)
qed

definition sample_registrations :: "topo_op list" where
  "sample_registrations = [RegR 3 ''cam'', RegW 0 ''lidar'', RegW 1 ''cam'']"

theorem channel_index_identifies_name_witness:
  "\<exists>rs d. topo_run sample_registrations (TopoData_new []) = Some (rs, d) \<and>
     (res_writer (rs ! 0) = res_writer (rs ! 2) \<longleftrightarrow> name_key ''cam'' = name_key ''cam'') \<and>
     (res_writer (rs ! 0) = res_writer (rs ! 1) \<longleftrightarrow> name_key ''cam'' = name_key ''lidar'')"
proof -
  have "fst (reg_run sample_registrations []) = [RIdx \<lparr>ri_writer_idx = 0, ri_reader_idx = 0\<rparr>, WIdx 1, WIdx 0]" by code_simp
  moreover obtain rs d where r: "topo_run sample_registrations (TopoData_new []) = Some (rs, d)"
    "reg_run sample_registrations [] = (rs, topo_abs d)"
    using topo_run_refines [OF TopoData_new_inv(1), of sample_registrations "[]"] by (auto simp: TopoData_new_inv(2))
  ultimately have rs: "rs = [RIdx \<lparr>ri_writer_idx = 0, ri_reader_idx = 0\<rparr>, WIdx 1, WIdx 0]" by simp
  show ?thesis
    using channel_index_identifies_name [OF r(1), of 0 2] channel_index_identifies_name [OF r(1), of 0 1] r(1) rs
    by (simp add: sample_registrations_def)
qed

text \<open>
  The number of channels is limited by \<open>MAX_READER_NUM\<close>: with 128 of the 1024 entries of the table
  in use, a new name is refused.
\<close>

lemma writers_limited_by_reader_bound:
  assumes "topo_inv d" and "unat (td_writer_num d) = MAX_READER_NUM" and "name_key name \<notin> set (map fst (topo_abs d))"
  shows "\<exists>d'. RegisterWriter p name d = Some (- 1, d') \<and> topo_abs d' = topo_abs d \<and> length (td_writer_slot_table d') = 1024"
proof -
  have "reg_writer name (topo_abs d) = (- 1, topo_abs d)"
    using assms length_topo_abs [OF assms(1)] by (simp add: reg_writer_def index_of_None [THEN iffD2])
  then show ?thesis
    using RegisterWriter_refines [OF assms(1), of p name] by (auto simp: topo_inv_def MAX_WRITER_NUM_def)
qed

lemma writers_limited_by_reader_bound_witness:
  "let d = (TopoData_new (replicate 256 NUL))\<lparr>td_writer_num := 128\<rparr> in
   \<exists>d'. RegisterWriter 0 ''cam'' d = Some (- 1, d') \<and> topo_abs d' = topo_abs d \<and> length (td_writer_slot_table d') = 1024"
  unfolding Let_def
  by (rule writers_limited_by_reader_bound)
    (auto simp: topo_inv_def TopoData_new_def WriterSlot_new_def MAX_READER_NUM_def MAX_WRITER_NUM_def slot_ok_def field_ok_def
      MAX_DATA_NAME_LENGTH_def topo_abs_def slot_abs_def field_key_def name_key_def)

end
