(* ===== verification/ShmObject.thy ===== *)
theory ShmObject
  imports Prelude
begin

text \<open>
  \<open>common/shm_object.h\<close>, \<open>common/message_header.h\<close> and \<open>shm/arena/shm_deleter.h\<close>: the objects processes
  share, their process-level reference count, and the deleter of the \<open>shared_ptr\<close>s to them.

  The objects are a map from addresses; \<open>None\<close> is an access to an address without an object. A
  \<open>shared_ptr\<close> is its pointer and its deleter, and the end of its last copy is the call
  \<open>ShmObjectDeleter_call\<close> on that pointer. The type \<open>'s\<close> of segment pointers stays open. The call returns
  the call of \<open>Segment::DeleteObject\<close> it makes, if any.
\<close>

record MessageHeader =
  mh_magic_num :: "u8 list"
  mh_proto_version :: "u8 list"
  mh_content_type :: "u8 list"
  mh_seq :: "u8 list"
  mh_timestamp_ns :: "u8 list"
  mh_src_id :: "u8 list"
  mh_dst_id :: "u8 list"
  mh_version :: "u8 list"
  mh_content_size :: "u8 list"
  mh_reserved :: "u8 list"

record ShmObject =
  so_header :: MessageHeader
  so_data_addr :: u64
  so_ref_cnt :: "32 word"
  so_segment_id :: u16
  so_extent_id :: u16
  so_block_num :: u32
  so_block_index :: "u32 list"

definition MAX_BLOCK_NUM :: nat where "MAX_BLOCK_NUM = 32"

text \<open>The constructor; \<open>header\<close> and \<open>block_index\<close> have no initialiser.\<close>

definition ShmObject_new :: "MessageHeader \<Rightarrow> u32 list \<Rightarrow> ShmObject" where
  "ShmObject_new h bi = \<lparr>so_header = h, so_data_addr = 0, so_ref_cnt = 0, so_segment_id = 0, so_extent_id = 0,
     so_block_num = 0, so_block_index = bi\<rparr>"

type_synonym shm_heap = "u64 \<rightharpoonup> ShmObject"

record ShmEvent =
  ev_shm_object_addr :: u64

definition add_ref :: "32 word \<Rightarrow> u64 \<Rightarrow> shm_heap \<Rightarrow> shm_heap option" where
  "add_ref n a heap = map_option (\<lambda>obj. heap(a \<mapsto> obj\<lparr>so_ref_cnt := so_ref_cnt obj + n\<rparr>)) (heap a)"

definition IncreaseReferenceCount :: "u64 \<Rightarrow> shm_heap \<Rightarrow> shm_heap option" where
  "IncreaseReferenceCount a heap = add_ref 1 a heap"

record 's ShmObjectDeleter =
  del_segment :: "'s option"
  del_object :: "u64 option"

record 's shm_ptr =
  sp_ptr :: u64
  sp_deleter :: "'s ShmObjectDeleter"

definition ShmObjectDeleter_call ::
  "u64 \<Rightarrow> 's ShmObjectDeleter \<Rightarrow> shm_heap \<Rightarrow> (('s \<times> u64) option \<times> 's ShmObjectDeleter \<times> shm_heap) option" where
  "ShmObjectDeleter_call p del heap =
     (if p = 0 then Some (None, del, heap)
      else case (del_object del, del_segment del) of
        (Some ob, Some seg) \<Rightarrow> do {
          obj \<leftarrow> heap ob;
          if p \<noteq> so_data_addr obj then Some (None, del, heap)
          else do {
            heap \<leftarrow> add_ref (- 1) ob heap;
            let current = so_ref_cnt obj - 1;
            if current = 0 then Some (Some (seg, ob), \<lparr>del_segment = None, del_object = None\<rparr>, heap)
            else Some (None, del, heap) } }
      | _ \<Rightarrow> Some (None, del, heap))"

text \<open>The argument is the deleter of the message's \<open>shared_ptr\<close>, if it has one of this type.\<close>

definition MakeShmObject :: "'s ShmObjectDeleter option \<Rightarrow> shm_heap \<Rightarrow> ('s shm_ptr option \<times> shm_heap) option" where
  "MakeShmObject deleter heap = (case deleter of
       None \<Rightarrow> Some (None, heap)
     | Some del \<Rightarrow> do {
         ob \<leftarrow> del_object del;
         heap \<leftarrow> add_ref 1 ob heap;
         Some (Some \<lparr>sp_ptr = ob, sp_deleter = \<lparr>del_segment = del_segment del, del_object = Some ob\<rparr>\<rparr>, heap) })"

definition ParseFromShmObject :: "'s shm_ptr \<Rightarrow> shm_heap \<Rightarrow> ('s shm_ptr \<times> shm_heap) option" where
  "ParseFromShmObject obj heap = do {
     heap \<leftarrow> IncreaseReferenceCount (sp_ptr obj) heap;
     ob \<leftarrow> heap (sp_ptr obj);
     Some (\<lparr>sp_ptr = so_data_addr ob, sp_deleter = \<lparr>del_segment = None, del_object = Some (sp_ptr obj)\<rparr>\<rparr>, heap) }"

text \<open>The end of the last copy of a \<open>shared_ptr\<close>.\<close>

definition sp_release :: "'s shm_ptr \<Rightarrow> shm_heap \<Rightarrow> (('s \<times> u64) option \<times> shm_heap) option" where
  "sp_release sp heap = do {
     (call, _, heap) \<leftarrow> ShmObjectDeleter_call (sp_ptr sp) (sp_deleter sp) heap;
     Some (call, heap) }"

fun release_all :: "'s shm_ptr list \<Rightarrow> shm_heap \<Rightarrow> (('s \<times> u64) list \<times> shm_heap) option" where
  "release_all [] heap = Some ([], heap)"
| "release_all (sp # sps) heap = do {
     (call, heap) \<leftarrow> sp_release sp heap;
     (calls, heap) \<leftarrow> release_all sps heap;
     Some ((case call of None \<Rightarrow> calls | Some c \<Rightarrow> c # calls), heap) }"

section \<open>Properties\<close>

text \<open>A handle to the data of object \<open>a\<close>.\<close>

definition data_ptr :: "'s \<Rightarrow> u64 \<Rightarrow> ShmObject \<Rightarrow> 's shm_ptr" where
  "data_ptr seg a obj = \<lparr>sp_ptr = so_data_addr obj, sp_deleter = \<lparr>del_segment = Some seg, del_object = Some a\<rparr>\<rparr>"

lemma release_data_ptr:
  assumes "heap a = Some obj" and "so_data_addr obj \<noteq> 0"
  shows "sp_release (data_ptr seg a obj) heap =
    Some (if so_ref_cnt obj = 1 then Some (seg, a) else None, heap(a \<mapsto> obj\<lparr>so_ref_cnt := so_ref_cnt obj - 1\<rparr>))"
  using assms by (simp add: sp_release_def ShmObjectDeleter_call_def data_ptr_def add_ref_def)

lemma ref_not_1:
  assumes "1 < k" and "k < 2 ^ 32"
  shows "(of_nat k :: 32 word) \<noteq> 1"
proof
  assume "(of_nat k :: 32 word) = 1"
  moreover have "unat (of_nat k :: 32 word) = k" using assms(2) by (intro unat_of_nat_small) simp
  ultimately show False using assms(1) by simp
qed

lemma release_step:
  assumes "heap a = Some obj" and "so_data_addr obj \<noteq> 0" and "so_ref_cnt obj = of_nat (Suc k)" and "0 < k" and "Suc k < 2 ^ 32"
  shows "\<exists>obj' heap'. sp_release (data_ptr seg a obj) heap = Some (None, heap') \<and> heap' = heap(a \<mapsto> obj') \<and> heap' a = Some obj'
    \<and> obj' = obj\<lparr>so_ref_cnt := of_nat k\<rparr> \<and> data_ptr seg a obj' = data_ptr seg a obj"
proof -
  have "so_ref_cnt obj \<noteq> 1" unfolding assms(3) using assms(4,5) by (intro ref_not_1) simp_all
  moreover have "so_ref_cnt obj - 1 = of_nat k" using assms(3) by simp
  ultimately show ?thesis using release_data_ptr [where heap = heap and a = a and obj = obj and seg = seg, OF assms(1,2)] by (simp add: data_ptr_def)
qed

lemma release_all_count:
  "heap a = Some obj \<Longrightarrow> so_data_addr obj \<noteq> 0 \<Longrightarrow> so_ref_cnt obj = of_nat (Suc k) \<Longrightarrow> Suc k < 2 ^ 32 \<Longrightarrow>
     release_all (replicate (Suc k) (data_ptr seg a obj)) heap = Some ([(seg, a)], heap(a \<mapsto> obj\<lparr>so_ref_cnt := 0\<rparr>))"
proof (induction k arbitrary: heap obj)
  case 0
  have "sp_release (data_ptr seg a obj) heap = Some (Some (seg, a), heap(a \<mapsto> obj\<lparr>so_ref_cnt := 0\<rparr>))"
    using release_data_ptr [where heap = heap and a = a and obj = obj and seg = seg, OF 0(1,2)] 0(3) by simp
  then show ?case by (simp add: fun_upd_def)
next
  case (Suc k)
  from release_step [where heap = heap and a = a and obj = obj and seg = seg, OF Suc.prems(1-3) _ Suc.prems(4)] obtain obj' heap' where
    h: "sp_release (data_ptr seg a obj) heap = Some (None, heap')" "heap' = heap(a \<mapsto> obj')" "heap' a = Some obj'"
      "obj' = obj\<lparr>so_ref_cnt := of_nat (Suc k)\<rparr>" "data_ptr seg a obj' = data_ptr seg a obj" by auto
  have "release_all (replicate (Suc k) (data_ptr seg a obj')) heap' = Some ([(seg, a)], heap'(a \<mapsto> obj'\<lparr>so_ref_cnt := 0\<rparr>))"
    using Suc.prems(2,4) h(4) by (intro Suc.IH [where heap = heap' and obj = obj', OF h(3)]) simp_all
  then show ?case using h(1,2,4,5) by (auto simp: fun_upd_def fun_eq_iff)
qed

lemma release_some_count:
  "heap a = Some obj \<Longrightarrow> so_data_addr obj \<noteq> 0 \<Longrightarrow> so_ref_cnt obj = of_nat k \<Longrightarrow> k < 2 ^ 32 \<Longrightarrow> j < k \<Longrightarrow>
     \<exists>heap'. release_all (replicate j (data_ptr seg a obj)) heap = Some ([], heap')"
proof (induction j arbitrary: heap obj k)
  case (Suc j)
  then obtain m where m: "k = Suc m" "0 < m" "j < m" by (cases k) auto
  from release_step [where heap = heap and a = a and obj = obj and seg = seg and k = m, OF Suc.prems(1,2)] Suc.prems(3,4) m obtain obj' heap' where
    h: "sp_release (data_ptr seg a obj) heap = Some (None, heap')" "heap' a = Some obj'"
      "obj' = obj\<lparr>so_ref_cnt := of_nat m\<rparr>" "data_ptr seg a obj' = data_ptr seg a obj" by auto
  have "\<exists>heap''. release_all (replicate j (data_ptr seg a obj')) heap' = Some ([], heap'')"
    using Suc.prems(2,4) h(3) m by (intro Suc.IH [where heap = heap' and obj = obj' and k = m, OF h(2)]) simp_all
  then show ?case using h(1,4) by auto
qed simp

text \<open>
  C32: When an object counts as many references as there are handles to its data, releasing the handles
  one after the other counts down to zero and deletes the object exactly once, with the last of them.
\<close>

theorem deleter_deletes_at_last_reference:
  assumes "heap a = Some obj" and "so_data_addr obj \<noteq> 0" and "so_ref_cnt obj = of_nat k" and "0 < k" and "k < 2 ^ 32"
  shows "release_all (replicate k (data_ptr seg a obj)) heap = Some ([(seg, a)], heap(a \<mapsto> obj\<lparr>so_ref_cnt := 0\<rparr>))
    \<and> (\<forall>j<k. \<exists>heap'. release_all (replicate j (data_ptr seg a obj)) heap = Some ([], heap'))"
proof -
  obtain m where "k = Suc m" using assms(4) by (cases k) auto
  then have "release_all (replicate k (data_ptr seg a obj)) heap = Some ([(seg, a)], heap(a \<mapsto> obj\<lparr>so_ref_cnt := 0\<rparr>))"
    using release_all_count [where heap = heap and a = a and obj = obj and k = m and seg = seg, OF assms(1,2)] assms(3,5) by blast
  then show ?thesis using release_some_count [where heap = heap and a = a and obj = obj and seg = seg, OF assms(1-3,5)] by blast
qed

definition sample_object :: "32 word \<Rightarrow> ShmObject" where
  "sample_object n = (ShmObject_new \<lparr>mh_magic_num = [], mh_proto_version = [], mh_content_type = [], mh_seq = [], mh_timestamp_ns = [],
     mh_src_id = [], mh_dst_id = [], mh_version = [], mh_content_size = [], mh_reserved = []\<rparr> [])\<lparr>so_data_addr := 4096, so_ref_cnt := n\<rparr>"

theorem deleter_deletes_at_last_reference_witness:
  "release_all (replicate 3 (data_ptr ''seg'' 64 (sample_object 3))) [64 \<mapsto> sample_object 3] =
     Some ([(''seg'', 64)], [64 \<mapsto> (sample_object 3)\<lparr>so_ref_cnt := 0\<rparr>])
   \<and> (\<exists>heap'. release_all (replicate 2 (data_ptr ''seg'' 64 (sample_object 3))) [64 \<mapsto> sample_object 3] = Some ([], heap'))"
  using deleter_deletes_at_last_reference [of "[64 \<mapsto> sample_object 3]" 64 "sample_object 3" 3 "''seg''"]
  by (simp add: sample_object_def)

text \<open>
  The handles that cross processes never give their reference back: releasing what \<open>MakeShmObject\<close>
  made leaves the count it raised, because the deleter compares the pointer to the object with the
  address of the data; releasing what \<open>ParseFromShmObject\<close> made does too, because its deleter has no segment.
\<close>

theorem cross_process_handles_leak_references:
  assumes "heap a = Some obj" and "so_data_addr obj \<noteq> a" and "del_object del = Some a"
  shows "\<exists>sp heap1. MakeShmObject (Some del) heap = Some (Some sp, heap1) \<and> sp_release sp heap1 = Some (None, heap1)
      \<and> (\<exists>msg heap2. ParseFromShmObject sp heap1 = Some (msg, heap2) \<and> sp_release msg heap2 = Some (None, heap2)
           \<and> map_option so_ref_cnt (heap2 a) = Some (so_ref_cnt obj + 2))"
  using assms
  by (auto simp: MakeShmObject_def ParseFromShmObject_def IncreaseReferenceCount_def add_ref_def sp_release_def
      ShmObjectDeleter_call_def split: option.splits)

theorem cross_process_handles_leak_references_witness:
  "\<exists>sp heap1. MakeShmObject (Some \<lparr>del_segment = Some ''seg'', del_object = Some 64\<rparr>) [64 \<mapsto> sample_object 1] = Some (Some sp, heap1)
      \<and> sp_release sp heap1 = Some (None, heap1)
      \<and> (\<exists>msg heap2. ParseFromShmObject sp heap1 = Some (msg, heap2) \<and> sp_release msg heap2 = Some (None, heap2)
           \<and> map_option so_ref_cnt (heap2 64) = Some (so_ref_cnt (sample_object 1) + 2))"
  by (rule cross_process_handles_leak_references) (simp_all add: sample_object_def)

text \<open>
  An object comes from the pool with count 0, not 1: the release of its only handle counts to \<open>-1\<close>
  and never deletes it.
\<close>

lemma fresh_object_never_deleted:
  assumes "heap a = Some ((ShmObject_new h bi)\<lparr>so_data_addr := p\<rparr>)" and "p \<noteq> 0"
  shows "\<exists>heap'. sp_release (data_ptr seg a ((ShmObject_new h bi)\<lparr>so_data_addr := p\<rparr>)) heap = Some (None, heap')
    \<and> map_option so_ref_cnt (heap' a) = Some (- 1)"
  using release_data_ptr [where heap = heap and a = a and seg = seg and obj = "(ShmObject_new h bi)\<lparr>so_data_addr := p\<rparr>", OF assms(1)] assms(2) by (simp add: ShmObject_new_def)

lemma fresh_object_never_deleted_witness:
  "let h = \<lparr>mh_magic_num = [], mh_proto_version = [], mh_content_type = [], mh_seq = [], mh_timestamp_ns = [],
     mh_src_id = [], mh_dst_id = [], mh_version = [], mh_content_size = [], mh_reserved = []\<rparr> in
   \<exists>heap'. sp_release (data_ptr ''seg'' 64 ((ShmObject_new h [])\<lparr>so_data_addr := 4096\<rparr>))
       [64 \<mapsto> (ShmObject_new h [])\<lparr>so_data_addr := 4096\<rparr>] = Some (None, heap')
     \<and> map_option so_ref_cnt (heap' 64) = Some (- 1)"
  unfolding Let_def by (rule fresh_object_never_deleted) simp_all

end
