(* ===== verification/DomainLayout.thy ===== *)
theory DomainLayout
  imports TopoState ShmObject FlatSignalQueue
begin

text \<open>
  \<open>shm/topo/process_state\<close> and \<open>shm/topo/domain_layout\<close>: the event queue of each process, the tables of
  processes and segments, and the layout of the domain's shared memory with its bump allocator.

  The layout is placed in memory a parameter of the operating system gives; \<open>mem off n\<close> are the slots that
  fit into the \<open>n\<close> bytes at offset \<open>off\<close> of \<open>data\<close>. \<open>sizeof_layout\<close> and \<open>sizeof_slot\<close> are what the compiler makes of
  the structures. Registrations hold the write lock of their table, so each is one step.
\<close>

section \<open>ProcessState\<close>

record ProcessState =
  ps_inited :: bool
  ps_is_online :: bool
  ps_pid :: i32
  ps_ts :: u64
  ps_reader_event_queue :: "ShmEvent flat_signal_queue"

definition event0 :: ShmEvent where "event0 = \<lparr>ev_shm_object_addr = 0\<rparr>"

definition ProcessState_new :: ProcessState where
  "ProcessState_new = \<lparr>ps_inited = False, ps_is_online = False, ps_pid = 0, ps_ts = 0,
     ps_reader_event_queue = FlatSignalQueue_new event0\<rparr>"

definition ProcessState_GetStorageSchema :: "(u64 \<Rightarrow> u64) \<Rightarrow> u64 \<Rightarrow> StorageSchema \<Rightarrow> u64 \<Rightarrow> StorageSchema" where
  "ProcessState_GetStorageSchema bit_ceil sizeof_slot schema num =
     FlatSignalQueue_GetStorageSchema bit_ceil sizeof_slot schema num"

definition ProcessState_Init ::
  "(u64 \<Rightarrow> u64) \<Rightarrow> u64 \<Rightarrow> i32 \<Rightarrow> u64 \<Rightarrow> ShmEvent slot list \<Rightarrow> ProcessState \<Rightarrow> (bool \<times> ProcessState) option" where
  "ProcessState_Init bit_ceil now pid num storage ps =
     (if ps_inited ps then Some (True, ps)
      else do {
        (_, q) \<leftarrow> FlatSignalQueue_Initialize bit_ceil event0 num storage (ps_reader_event_queue ps);
        Some (True, ps\<lparr>ps_reader_event_queue := q, ps_pid := pid, ps_is_online := True, ps_ts := now, ps_inited := True\<rparr>) })"

definition SetPidOnline :: "i32 \<Rightarrow> bool \<Rightarrow> ProcessState \<Rightarrow> ProcessState" where
  "SetPidOnline pid online ps = ps\<lparr>ps_pid := pid, ps_is_online := online\<rparr>"

definition GetPid :: "ProcessState \<Rightarrow> i32" where
  "GetPid ps = ps_pid ps"

text \<open>\<open>Push\<close> counts a reference and does not look at the result of \<open>TryPush\<close>.\<close>

definition ProcessState_Push :: "u64 \<Rightarrow> shm_heap \<Rightarrow> ProcessState \<Rightarrow> (i32 \<times> shm_heap \<times> ProcessState) option" where
  "ProcessState_Push object heap ps = do {
     let event = \<lparr>ev_shm_object_addr = object\<rparr>;
     heap \<leftarrow> add_ref 1 object heap;
     (_, q) \<leftarrow> FlatSignalQueue_TryPush event (ps_reader_event_queue ps);
     Some (0, heap, ps\<lparr>ps_reader_event_queue := q\<rparr>) }"

definition ProcessState_Pop :: "ProcessState \<Rightarrow> ('s shm_ptr option \<times> ProcessState) option" where
  "ProcessState_Pop ps = do {
     (ret, event, q) \<leftarrow> FlatSignalQueue_Pop (\<lambda>e. e) event0 (ps_reader_event_queue ps);
     let ps = ps\<lparr>ps_reader_event_queue := q\<rparr>;
     if \<not> ret then Some (None, ps)
     else Some (Some \<lparr>sp_ptr = ev_shm_object_addr event,
                     sp_deleter = \<lparr>del_segment = None, del_object = Some (ev_shm_object_addr event)\<rparr>\<rparr>, ps) }"

section \<open>Tables and header\<close>

definition MAX_PROCESS_NUM :: nat where "MAX_PROCESS_NUM = 256"
definition MAX_READER_EVENT_SIZE :: u64 where "MAX_READER_EVENT_SIZE = 512"
definition MAX_SEGMENT_NUM :: nat where "MAX_SEGMENT_NUM = 1024"

record ShmProtoHeader =
  hd_header_space_size :: u32
  hd_version :: u32
  hd_timestamp :: u64
  hd_inited :: bool
  hd_domain_id :: i32
  hd_total_space_size :: u32
  hd_free_space_size :: u32
  hd_free_space_used :: u32

record SegmentIndicator =
  si_name :: name_field
  si_index :: i32
  si_base_addr :: u64
  si_timestamp :: u64
  si_pid :: i32
  si_segment_size :: u32
  si_allocated :: bool
  si_is_valid :: bool

definition SegmentIndicator_new :: "string \<Rightarrow> SegmentIndicator" where
  "SegmentIndicator_new garbage = \<lparr>si_name = \<lparr>nf_name = garbage, nf_name_len = 0\<rparr>, si_index = 0, si_base_addr = 0,
     si_timestamp = 0, si_pid = 0, si_segment_size = 0, si_allocated = False, si_is_valid = False\<rparr>"

definition SegmentIndicator_SetName :: "SegmentIndicator \<Rightarrow> string \<Rightarrow> (bool \<times> SegmentIndicator) option" where
  "SegmentIndicator_SetName s a = do { (ok, f) \<leftarrow> SetName (si_name s) a; Some (ok, s\<lparr>si_name := f\<rparr>) }"

definition SegmentIndicator_IsEquel :: "SegmentIndicator \<Rightarrow> string \<Rightarrow> bool option" where
  "SegmentIndicator_IsEquel s a = IsEquel (si_name s) a"

record SegmentIndicatorTable =
  st_segment_num :: u16
  st_indicator_table :: "SegmentIndicator list"

definition SegmentIndicatorTable_new :: "string \<Rightarrow> SegmentIndicatorTable" where
  "SegmentIndicatorTable_new garbage =
     \<lparr>st_segment_num = 0, st_indicator_table = replicate MAX_SEGMENT_NUM (SegmentIndicator_new garbage)\<rparr>"

definition RegisterSegment :: "string \<Rightarrow> SegmentIndicatorTable \<Rightarrow> (i32 \<times> SegmentIndicatorTable) option" where
  "RegisterSegment name t = do {
     found \<leftarrow> find_equal (\<lambda>i. do { s \<leftarrow> mem_read (st_indicator_table t) i; SegmentIndicator_IsEquel s name }) 0 (unat (st_segment_num t));
     case found of
       Some i \<Rightarrow> Some (of_nat i, t)
     | None \<Rightarrow> do {
         let idx = st_segment_num t;
         let t = t\<lparr>st_segment_num := st_segment_num t + 1\<rparr>;
         s \<leftarrow> mem_read (st_indicator_table t) (unat idx);
         (_, s) \<leftarrow> SegmentIndicator_SetName s name;
         table \<leftarrow> mem_write (st_indicator_table t) (unat idx) (s\<lparr>si_index := ucast idx\<rparr>);
         Some (ucast idx, t\<lparr>st_indicator_table := table\<rparr>) } }"

record ProcessStateTable =
  pt_process_cnt :: u16
  pt_process_state :: "ProcessState list"

definition ProcessStateTable_new :: ProcessStateTable where
  "ProcessStateTable_new = \<lparr>pt_process_cnt = 0, pt_process_state = replicate MAX_PROCESS_NUM ProcessState_new\<rparr>"

definition ProcessStateTable_PlacementStorageSize :: "(u64 \<Rightarrow> u64) \<Rightarrow> u64 \<Rightarrow> u64" where
  "ProcessStateTable_PlacementStorageSize bit_ceil sizeof_slot =
     of_nat MAX_PROCESS_NUM * StorageSchema_TotalSize
       (ProcessState_GetStorageSchema bit_ceil sizeof_slot \<lparr>schema_fields = []\<rparr> MAX_READER_EVENT_SIZE)"

section \<open>The layout\<close>

record ShmDomainLayout =
  dl_header :: ShmProtoHeader
  dl_topo_state :: TopoData
  dl_segment_table :: SegmentIndicatorTable
  dl_process_table :: ProcessStateTable

definition TotalSpaceSize :: "(u64 \<Rightarrow> u64) \<Rightarrow> u64 \<Rightarrow> u64 \<Rightarrow> u64" where
  "TotalSpaceSize bit_ceil sizeof_layout sizeof_slot =
     sizeof_layout + ProcessStateTable_PlacementStorageSize bit_ceil sizeof_slot"

text \<open>The result of \<open>Allocate\<close> is the offset in \<open>data\<close>; the outer \<open>None\<close> of the C++ \<open>nullptr\<close> is a plain \<open>None\<close> here.\<close>

definition Layout_Allocate :: "u64 \<Rightarrow> ShmProtoHeader \<Rightarrow> u64 option \<times> ShmProtoHeader" where
  "Layout_Allocate n h =
     (if ucast (hd_free_space_size h) < n + ucast (hd_free_space_used h) then (None, h)
      else (Some (ucast (hd_free_space_used h)), h\<lparr>hd_free_space_used := hd_free_space_used h + ucast n\<rparr>))"

text \<open>\<open>Allocate(schema, storage)\<close>: a buffer per field, until one does not fit.\<close>

fun allocate_fields :: "FieldBufferMetadata list \<Rightarrow> ShmProtoHeader \<Rightarrow> bool \<times> (u64 \<times> u64) list \<times> ShmProtoHeader" where
  "allocate_fields [] h = (True, [], h)"
| "allocate_fields (f # fs) h = (case Layout_Allocate (request_space_size f) h of
       (None, h) \<Rightarrow> (False, [], h)
     | (Some ptr, h) \<Rightarrow> (let (ok, bs, h) = allocate_fields fs h in (ok, (ptr, request_space_size f) # bs, h)))"

definition Layout_Allocate_schema :: "StorageSchema \<Rightarrow> ShmProtoHeader \<Rightarrow> bool \<times> (u64 \<times> u64) list \<times> ShmProtoHeader" where
  "Layout_Allocate_schema schema h = allocate_fields (schema_fields schema) h"

text \<open>
  The loop over the process states; \<open>False\<close> is its early return. The buffers handed to the process
  states (offset and size) are returned as well: the queues live in them.
\<close>

primrec init_processes ::
  "(u64 \<Rightarrow> u64) \<Rightarrow> u64 \<Rightarrow> (u64 \<Rightarrow> u64 \<Rightarrow> ShmEvent slot list) \<Rightarrow> u64 \<Rightarrow> nat \<Rightarrow> nat \<Rightarrow> ShmProtoHeader \<Rightarrow> ProcessState list \<Rightarrow>
     (bool \<times> (u64 \<times> u64) list \<times> ShmProtoHeader \<times> ProcessState list) option" where
  "init_processes bit_ceil now mem total_size i 0 h pss = Some (True, [], h, pss)"
| "init_processes bit_ceil now mem total_size i (Suc n) h pss =
     (case Layout_Allocate total_size h of
        (None, h) \<Rightarrow> Some (False, [], h, pss)
      | (Some ptr, h) \<Rightarrow> do {
          ps \<leftarrow> mem_read pss i;
          (_, ps) \<leftarrow> ProcessState_Init bit_ceil now 0 MAX_READER_EVENT_SIZE (mem ptr total_size) ps;
          pss \<leftarrow> mem_write pss i ps;
          (ok, buffers, h, pss) \<leftarrow> init_processes bit_ceil now mem total_size (Suc i) n h pss;
          Some (ok, (ptr, total_size) # buffers, h, pss) })"

definition Layout_Init ::
  "(u64 \<Rightarrow> u64) \<Rightarrow> u64 \<Rightarrow> u64 \<Rightarrow> u64 \<Rightarrow> string \<Rightarrow> (u64 \<Rightarrow> u64 \<Rightarrow> ShmEvent slot list) \<Rightarrow> u32 \<Rightarrow> i32 \<Rightarrow> ShmDomainLayout \<Rightarrow>
     (bool \<times> (u64 \<times> u64) list \<times> ShmDomainLayout) option" where
  "Layout_Init bit_ceil sizeof_layout sizeof_slot now garbage mem nbytes domain_id l =
     (if hd_inited (dl_header l) then Some (True, [], l)
      else do {
        let h = (dl_header l)\<lparr>hd_header_space_size := ucast sizeof_layout, hd_version := 1, hd_timestamp := now,
          hd_domain_id := domain_id, hd_total_space_size := nbytes,
          hd_free_space_size := nbytes - ucast sizeof_layout, hd_free_space_used := 0\<rparr>;
        let l = l\<lparr>dl_topo_state := TopoData_new garbage, dl_segment_table := SegmentIndicatorTable_new garbage\<rparr>;
        let total_size = StorageSchema_TotalSize
          (ProcessState_GetStorageSchema bit_ceil sizeof_slot \<lparr>schema_fields = []\<rparr> MAX_READER_EVENT_SIZE);
        (ok, buffers, h, pss) \<leftarrow> init_processes bit_ceil now mem total_size 0 MAX_PROCESS_NUM h (pt_process_state ProcessStateTable_new);
        let l = l\<lparr>dl_process_table := ProcessStateTable_new\<lparr>pt_process_state := pss\<rparr>\<rparr>;
        if ok then Some (True, buffers, l\<lparr>dl_header := h\<lparr>hd_inited := True\<rparr>\<rparr>) else Some (False, buffers, l\<lparr>dl_header := h\<rparr>) })"

text \<open>\<open>WaitUntilReady\<close> polls a flag other processes set; \<open>flag k\<close> is what the \<open>k\<close>-th load reads.\<close>

partial_function (option) WaitUntilReady :: "(nat \<Rightarrow> bool) \<Rightarrow> nat \<Rightarrow> bool option" where
  "WaitUntilReady flag k = (if flag k then Some True else WaitUntilReady flag (Suc k))"

definition RegisterPid :: "i32 \<Rightarrow> ProcessStateTable \<Rightarrow> (i32 \<times> ProcessStateTable) option" where
  "RegisterPid pid t = do {
     found \<leftarrow> find_equal (\<lambda>i. do { ps \<leftarrow> mem_read (pt_process_state t) i; Some (pid = GetPid ps) }) 0 (unat (pt_process_cnt t));
     case found of
       Some i \<Rightarrow> Some (of_nat i, t)
     | None \<Rightarrow>
         if MAX_PROCESS_NUM \<le> unat (pt_process_cnt t) then Some (- 1, t)
         else do {
           let idx = pt_process_cnt t;
           ps \<leftarrow> mem_read (pt_process_state t) (unat idx);
           pss \<leftarrow> mem_write (pt_process_state t) (unat idx) (SetPidOnline pid True ps);
           Some (0, t\<lparr>pt_process_cnt := pt_process_cnt t + 1, pt_process_state := pss\<rparr>) } }"

definition Layout_RegisterReader :: "i32 \<Rightarrow> string \<Rightarrow> ShmDomainLayout \<Rightarrow> (ReaderIndex \<times> ShmDomainLayout) option" where
  "Layout_RegisterReader process_idx name l = do {
     (ri, d) \<leftarrow> RegisterReader process_idx name (dl_topo_state l); Some (ri, l\<lparr>dl_topo_state := d\<rparr>) }"

definition Layout_RegisterWriter :: "i32 \<Rightarrow> string \<Rightarrow> ShmDomainLayout \<Rightarrow> (i32 \<times> ShmDomainLayout) option" where
  "Layout_RegisterWriter process_idx name l = do {
     (w, d) \<leftarrow> RegisterWriter process_idx name (dl_topo_state l); Some (w, l\<lparr>dl_topo_state := d\<rparr>) }"

definition Layout_RegisterSegment :: "string \<Rightarrow> ShmDomainLayout \<Rightarrow> (i32 \<times> ShmDomainLayout) option" where
  "Layout_RegisterSegment name l = do {
     (i, t) \<leftarrow> RegisterSegment name (dl_segment_table l); Some (i, l\<lparr>dl_segment_table := t\<rparr>) }"

definition Layout_RegisterPid :: "i32 \<Rightarrow> ShmDomainLayout \<Rightarrow> (i32 \<times> ShmDomainLayout) option" where
  "Layout_RegisterPid pid l = do {
     (i, t) \<leftarrow> RegisterPid pid (dl_process_table l); Some (i, l\<lparr>dl_process_table := t\<rparr>) }"

definition GetProcessState :: "i32 \<Rightarrow> ShmDomainLayout \<Rightarrow> ProcessState option" where
  "GetProcessState process_index l =
     (if sint process_index < 0 then None else mem_read (pt_process_state (dl_process_table l)) (unat process_index))"

end
