(* ===== verification/DomainLayoutSpec.thy ===== *)
theory DomainLayoutSpec
  imports DomainLayout
begin

text \<open>
  What the layout operations guarantee: allocations are disjoint and inside the memory, \<open>Init\<close> brings
  every process state to an empty event queue, segments are numbered by name, processes by pid.
\<close>

section \<open>Allocation\<close>

lemma Layout_Allocate_fits:
  assumes "unat (hd_free_space_used h) + unat n \<le> unat (hd_free_space_size h)"
  shows "\<exists>h'. Layout_Allocate n h = (Some (ucast (hd_free_space_used h)), h') \<and> h' = h\<lparr>hd_free_space_used := hd_free_space_used h + ucast n\<rparr>
    \<and> unat (hd_free_space_used h') = unat (hd_free_space_used h) + unat n"
proof -
  have b: "unat (hd_free_space_size h) < 2 ^ 32" using unat_less_2p [of "hd_free_space_size h"] by simp
  have un: "unat (ucast n :: u32) = unat n" using assms b by (simp add: unat_ucast_mod)
  have "unat (n + ucast (hd_free_space_used h)) = unat n + unat (hd_free_space_used h)"
    using assms b by (subst unat_add_small) (simp_all add: unat_ucast_up)
  moreover have "unat (ucast (hd_free_space_size h) :: u64) = unat (hd_free_space_size h)" by (rule unat_ucast_up) simp
  ultimately have "\<not> (ucast (hd_free_space_size h) :: u64) < n + ucast (hd_free_space_used h)"
    using assms by (simp add: word_less_nat_alt)
  moreover have "unat (hd_free_space_used h + ucast n) = unat (hd_free_space_used h) + unat n"
    using assms b un by (subst unat_add_small) simp_all
  ultimately show ?thesis by (simp add: Layout_Allocate_def)
qed

lemma Layout_Allocate_full:
  assumes "unat (hd_free_space_size h) < unat (hd_free_space_used h) + unat n" and "unat n < 2 ^ 63"
  shows "Layout_Allocate n h = (None, h)"
proof -
  have "unat (n + ucast (hd_free_space_used h)) = unat n + unat (hd_free_space_used h)"
    using assms(2) unat_less_2p [of "hd_free_space_used h"] by (subst unat_add_small) (simp_all add: unat_ucast_up)
  moreover have "unat (ucast (hd_free_space_size h) :: u64) = unat (hd_free_space_size h)" by (rule unat_ucast_up) simp
  ultimately show ?thesis using assms(1) by (simp add: Layout_Allocate_def word_less_nat_alt)
qed

text \<open>Buffers one after the other from \<open>lo\<close>, up to \<open>hi\<close>.\<close>

fun consecutive :: "nat \<Rightarrow> (u64 \<times> u64) list \<Rightarrow> nat \<Rightarrow> bool" where
  "consecutive lo [] hi \<longleftrightarrow> lo \<le> hi"
| "consecutive lo ((p, n) # bs) hi \<longleftrightarrow> unat p = lo \<and> consecutive (lo + unat n) bs hi"

lemma consecutive_le: "consecutive lo bs hi \<Longrightarrow> lo \<le> hi"
proof (induction bs arbitrary: lo)
  case (Cons b bs)
  obtain p n where b: "b = (p, n)" by fastforce
  have "lo + unat n \<le> hi" using Cons b by simp
  then show ?case by simp
qed simp

lemma consecutive_range:
  "consecutive lo bs hi \<Longrightarrow> i < length bs \<Longrightarrow> lo \<le> unat (fst (bs ! i)) \<and> unat (fst (bs ! i)) + unat (snd (bs ! i)) \<le> hi"
proof (induction bs arbitrary: lo i)
  case (Cons b bs)
  obtain p n where b: "b = (p, n)" by fastforce
  show ?case
  proof (cases i)
    case 0
    then show ?thesis using Cons.prems b consecutive_le [of "lo + unat n" bs hi] by simp
  next
    case (Suc j)
    then show ?thesis using Cons.IH [of "lo + unat n" j] Cons.prems b by simp
  qed
qed simp

lemma consecutive_disjoint:
  "consecutive lo bs hi \<Longrightarrow> i < j \<Longrightarrow> j < length bs \<Longrightarrow> unat (fst (bs ! i)) + unat (snd (bs ! i)) \<le> unat (fst (bs ! j))"
proof (induction bs arbitrary: lo i j)
  case (Cons b bs)
  obtain p n where b: "b = (p, n)" by fastforce
  obtain k where k: "j = Suc k" "k < length bs" using Cons.prems(2,3) by (cases j) auto
  show ?case
  proof (cases i)
    case 0
    then show ?thesis using Cons.prems b k consecutive_range [of "lo + unat n" bs hi k] by simp
  next
    case (Suc l)
    then show ?thesis using Cons.IH [of "lo + unat n" l k] Cons.prems b k by simp
  qed
qed simp

lemma allocate_fields_consecutive:
  assumes "\<forall>f\<in>set fs. unat (request_space_size f) < 2 ^ 63" and "unat (hd_free_space_used h) \<le> unat (hd_free_space_size h)"
    and "allocate_fields fs h = (ok, bs, h')"
  shows "consecutive (unat (hd_free_space_used h)) bs (unat (hd_free_space_size h))
    \<and> map snd bs = map request_space_size (take (length bs) fs)
    \<and> (ok \<longleftrightarrow> unat (hd_free_space_used h) + sum_list (map (\<lambda>f. unat (request_space_size f)) fs) \<le> unat (hd_free_space_size h))
    \<and> (ok \<longrightarrow> length bs = length fs)"
  using assms
proof (induction fs arbitrary: h ok bs h')
  case (Cons f fs)
  let ?n = "request_space_size f"
  show ?case
  proof (cases "unat (hd_free_space_used h) + unat ?n \<le> unat (hd_free_space_size h)")
    case True
    from Layout_Allocate_fits [OF True] obtain h1 where
      h1: "Layout_Allocate ?n h = (Some (ucast (hd_free_space_used h)), h1)"
        "h1 = h\<lparr>hd_free_space_used := hd_free_space_used h + ucast ?n\<rparr>"
        "unat (hd_free_space_used h1) = unat (hd_free_space_used h) + unat ?n" by blast
    obtain ok1 bs1 where r: "allocate_fields fs h1 = (ok1, bs1, h')" "ok = ok1" "bs = (ucast (hd_free_space_used h), ?n) # bs1"
      using Cons.prems(3) h1(1) by (auto simp: Let_def split: prod.splits)
    have sz: "hd_free_space_size h1 = hd_free_space_size h" using h1(2) by simp
    have "unat (ucast (hd_free_space_used h) :: u64) = unat (hd_free_space_used h)" by (rule unat_ucast_up) simp
    moreover have "consecutive (unat (hd_free_space_used h1)) bs1 (unat (hd_free_space_size h1))
      \<and> map snd bs1 = map request_space_size (take (length bs1) fs)
      \<and> (ok1 \<longleftrightarrow> unat (hd_free_space_used h1) + sum_list (map (\<lambda>f. unat (request_space_size f)) fs) \<le> unat (hd_free_space_size h1))
      \<and> (ok1 \<longrightarrow> length bs1 = length fs)"
      using Cons.prems(1) True h1(3) sz by (intro Cons.IH [OF _ _ r(1)]) simp_all
    ultimately show ?thesis using r(2,3) h1(3) sz by (simp add: add.assoc)
  next
    case False
    then have "Layout_Allocate ?n h = (None, h)" using Cons.prems(1) by (intro Layout_Allocate_full) simp_all
    then show ?thesis using Cons.prems(2,3) False by auto
  qed
qed simp

section \<open>Initialisation\<close>

lemma bit_ceil_512:
  assumes bc: "bit_ceil_spec bc"
  shows "bc (512 :: u64) = 512"
proof -
  obtain k where k: "k \<le> 9" "bc (512 :: u64) = 2 ^ k" "unat (512 :: u64) \<le> 2 ^ k"
    using bit_ceil_specE [OF bc, of "512 :: u64" 9] by auto
  have "k = 9"
  proof (rule ccontr)
    assume "k \<noteq> 9"
    then have "(2 :: nat) ^ k \<le> 2 ^ 8" using k(1) by (intro power_increasing) simp_all
    then show False using k(3) by simp
  qed
  then show ?thesis using k(2) by simp
qed

lemma process_total_size:
  assumes bc: "bit_ceil_spec bc"
  shows "StorageSchema_TotalSize (ProcessState_GetStorageSchema bc sz \<lparr>schema_fields = []\<rparr> MAX_READER_EVENT_SIZE) = sz * 512"
  by (simp add: StorageSchema_TotalSize_def ProcessState_GetStorageSchema_def FlatSignalQueue_GetStorageSchema_def
      set_field_def vec_resize_def reserve_buffer_size_def MAX_READER_EVENT_SIZE_def default_metadata_def bit_ceil_512 [OF bc])

lemma TotalSpaceSize_bytes:
  assumes bc: "bit_ceil_spec bc" and small: "unat sizeof_layout + 256 * (512 * unat sizeof_slot) < 2 ^ 32"
  shows "unat (sizeof_slot * 512 :: u64) = 512 * unat sizeof_slot"
    and "unat (TotalSpaceSize bc sizeof_layout sizeof_slot) = unat sizeof_layout + 256 * (512 * unat sizeof_slot)"
proof -
  let ?t = "sizeof_slot * 512 :: u64"
  show t: "unat ?t = 512 * unat sizeof_slot" using small by (simp add: unat_word_ariths)
  have tt: "unat (256 * ?t) = 256 * (512 * unat sizeof_slot)" using small t by (simp add: unat_word_ariths)
  show "unat (TotalSpaceSize bc sizeof_layout sizeof_slot) = unat sizeof_layout + 256 * (512 * unat sizeof_slot)"
    unfolding TotalSpaceSize_def ProcessStateTable_PlacementStorageSize_def process_total_size [OF bc] MAX_PROCESS_NUM_def
    using small tt by (subst unat_add_small) simp_all
qed

definition fresh_process :: "ProcessState \<Rightarrow> bool" where
  "fresh_process ps \<longleftrightarrow> ps_inited ps \<and> ps_is_online ps \<and> ps_pid ps = 0 \<and> fs_inv (ps_reader_event_queue ps) \<and>
     fs_contents (ps_reader_event_queue ps) = [] \<and> fs_queue_capacity (ps_reader_event_queue ps) = MAX_READER_EVENT_SIZE"

lemma ProcessState_Init_fresh:
  assumes bc: "bit_ceil_spec bc" and len: "512 \<le> length storage"
  shows "\<exists>ps. ProcessState_Init bc now 0 MAX_READER_EVENT_SIZE storage ProcessState_new = Some (True, ps) \<and> fresh_process ps"
proof -
  have "unat (bc MAX_READER_EVENT_SIZE) \<le> length storage" using len by (simp add: MAX_READER_EVENT_SIZE_def bit_ceil_512 [OF bc])
  from SignalQueue_Initialize_ok [OF bc _ _ this, of event0] show ?thesis
    by (auto simp: MAX_READER_EVENT_SIZE_def ProcessState_Init_def ProcessState_new_def fresh_process_def)
qed

lemma init_processes_ok:
  assumes bc: "bit_ceil_spec bc"
  shows "length pss = i + n \<Longrightarrow> (\<forall>j. i \<le> j \<and> j < i + n \<longrightarrow> pss ! j = ProcessState_new) \<Longrightarrow>
    unat (hd_free_space_used h) + n * unat t \<le> unat (hd_free_space_size h) \<Longrightarrow>
    (\<forall>off. unat off + unat t \<le> unat (hd_free_space_size h) \<longrightarrow> 512 \<le> length (mem off t)) \<Longrightarrow>
    \<exists>bs h' pss'. init_processes bc now mem t i n h pss = Some (True, bs, h', pss') \<and> length pss' = length pss
      \<and> take i pss' = take i pss \<and> length bs = n \<and> snd ` set bs \<subseteq> {t}
      \<and> consecutive (unat (hd_free_space_used h)) bs (unat (hd_free_space_size h))
      \<and> (\<forall>j<n. ProcessState_Init bc now 0 MAX_READER_EVENT_SIZE (mem (fst (bs ! j)) t) ProcessState_new = Some (True, pss' ! (i + j))
          \<and> fresh_process (pss' ! (i + j)))
      \<and> unat (hd_free_space_used h') = unat (hd_free_space_used h) + n * unat t \<and> hd_free_space_size h' = hd_free_space_size h"
proof (induction n arbitrary: i h pss)
  case (Suc n)
  have fits: "unat (hd_free_space_used h) + unat t \<le> unat (hd_free_space_size h)" using Suc.prems(3) by simp
  from Layout_Allocate_fits [OF fits] obtain h1 where
    h1: "Layout_Allocate t h = (Some (ucast (hd_free_space_used h)), h1)"
      "h1 = h\<lparr>hd_free_space_used := hd_free_space_used h + ucast t\<rparr>"
      "unat (hd_free_space_used h1) = unat (hd_free_space_used h) + unat t" by blast
  have p: "unat (ucast (hd_free_space_used h) :: u64) = unat (hd_free_space_used h)" by (rule unat_ucast_up) simp
  then have "512 \<le> length (mem (ucast (hd_free_space_used h)) t)" using Suc.prems(4) fits by metis
  from ProcessState_Init_fresh [OF bc this, of now] obtain ps where
    ps: "ProcessState_Init bc now 0 MAX_READER_EVENT_SIZE (mem (ucast (hd_free_space_used h)) t) ProcessState_new = Some (True, ps)"
      "fresh_process ps" by blast
  have il: "i < length pss" using Suc.prems(1) by simp
  have "\<exists>bs h' pss'. init_processes bc now mem t (Suc i) n h1 (pss[i := ps]) = Some (True, bs, h', pss') \<and> length pss' = length (pss[i := ps])
      \<and> take (Suc i) pss' = take (Suc i) (pss[i := ps]) \<and> length bs = n \<and> snd ` set bs \<subseteq> {t}
      \<and> consecutive (unat (hd_free_space_used h1)) bs (unat (hd_free_space_size h1))
      \<and> (\<forall>j<n. ProcessState_Init bc now 0 MAX_READER_EVENT_SIZE (mem (fst (bs ! j)) t) ProcessState_new = Some (True, pss' ! (Suc i + j))
          \<and> fresh_process (pss' ! (Suc i + j)))
      \<and> unat (hd_free_space_used h') = unat (hd_free_space_used h1) + n * unat t \<and> hd_free_space_size h' = hd_free_space_size h1"
    using Suc.prems h1(2,3) il by (intro Suc.IH) (auto simp: nth_list_update)
  then obtain bs h' pss' where
    r: "init_processes bc now mem t (Suc i) n h1 (pss[i := ps]) = Some (True, bs, h', pss')" "length pss' = length pss"
      "take (Suc i) pss' = take (Suc i) (pss[i := ps])" "length bs = n" "snd ` set bs \<subseteq> {t}"
      "consecutive (unat (hd_free_space_used h1)) bs (unat (hd_free_space_size h))"
      "\<forall>j<n. ProcessState_Init bc now 0 MAX_READER_EVENT_SIZE (mem (fst (bs ! j)) t) ProcessState_new = Some (True, pss' ! (Suc i + j))
          \<and> fresh_process (pss' ! (Suc i + j))"
      "unat (hd_free_space_used h') = unat (hd_free_space_used h1) + n * unat t" "hd_free_space_size h' = hd_free_space_size h"
    using h1(2) by auto
  have "take (Suc i) pss' ! i = ps" using il by (simp add: r(3))
  then have psi: "pss' ! i = ps" by simp
  have "take i (take (Suc i) pss') = take i pss" unfolding r(3) by simp
  then have tk: "take i pss' = take i pss" by (simp add: min_def)
  have at: "ProcessState_Init bc now 0 MAX_READER_EVENT_SIZE (mem (fst (((ucast (hd_free_space_used h), t) # bs) ! j)) t) ProcessState_new =
        Some (True, pss' ! (i + j)) \<and> fresh_process (pss' ! (i + j))" if "j < Suc n" for j
    using that r(7) ps psi by (cases j) simp_all
  have "init_processes bc now mem t i (Suc n) h pss = Some (True, (ucast (hd_free_space_used h), t) # bs, h', pss')"
    using h1 ps(1) Suc.prems(1,2) r(1) by (simp add: mem_read_def mem_write_def)
  then show ?case using r(2,4,5,6,8,9) tk at h1(3) p by (intro exI [of _ "(ucast (hd_free_space_used h), t) # bs"]) simp
qed auto

text \<open>
  C30: Given the memory \<open>TotalSpaceSize\<close> asks for (in all less than 4 GiB), \<open>Init\<close> of a layout that is not
  initialised succeeds. The 256 process states get one buffer each of 512 slots, all inside the free space and
  without overlap, in the order of the table; each has an empty, well-formed event queue of 512 entries,
  initialised in its buffer. The channel and segment tables are empty, and the free space is used up exactly. Of the memory it is
  assumed only that a range inside the free space of 512 times the size of a slot holds 512 slots.
\<close>

theorem Layout_Init_correct:
  assumes bc: "bit_ceil_spec bc" and inited: "\<not> hd_inited (dl_header l)"
    and small: "unat sizeof_layout + 256 * (512 * unat sizeof_slot) < 2 ^ 32"
    and nbytes: "nbytes = ucast (TotalSpaceSize bc sizeof_layout sizeof_slot)"
    and mem: "\<And>off. unat off + 512 * unat sizeof_slot \<le> 256 * (512 * unat sizeof_slot) \<Longrightarrow> 512 \<le> length (mem off (sizeof_slot * 512))"
  shows "\<exists>bs l'. Layout_Init bc sizeof_layout sizeof_slot now garbage mem nbytes domain_id l = Some (True, bs, l') \<and> hd_inited (dl_header l')
    \<and> topo_inv (dl_topo_state l') \<and> topo_abs (dl_topo_state l') = [] \<and> st_segment_num (dl_segment_table l') = 0
    \<and> pt_process_cnt (dl_process_table l') = 0 \<and> length (pt_process_state (dl_process_table l')) = 256
    \<and> (\<forall>i<256. fresh_process (pt_process_state (dl_process_table l') ! i))
    \<and> hd_free_space_used (dl_header l') = hd_free_space_size (dl_header l')
    \<and> unat (hd_free_space_size (dl_header l')) = 256 * (512 * unat sizeof_slot)
    \<and> length bs = 256
    \<and> (\<forall>i<256. snd (bs ! i) = sizeof_slot * 512 \<and> unat (fst (bs ! i)) + 512 * unat sizeof_slot \<le> unat (hd_free_space_size (dl_header l'))
        \<and> ProcessState_Init bc now 0 512 (mem (fst (bs ! i)) (snd (bs ! i))) ProcessState_new =
            Some (True, pt_process_state (dl_process_table l') ! i))
    \<and> (\<forall>i j. i < j \<and> j < 256 \<longrightarrow> unat (fst (bs ! i)) + 512 * unat sizeof_slot \<le> unat (fst (bs ! j)))"
proof -
  let ?t = "sizeof_slot * 512 :: u64"
  note t = TotalSpaceSize_bytes(1) [OF bc small] and tot = TotalSpaceSize_bytes(2) [OF bc small]
  define h where "h = (dl_header l)\<lparr>hd_header_space_size := ucast sizeof_layout, hd_version := 1, hd_timestamp := now,
    hd_domain_id := domain_id, hd_total_space_size := nbytes, hd_free_space_size := nbytes - ucast sizeof_layout, hd_free_space_used := 0\<rparr>"
  have "unat nbytes = unat sizeof_layout + 256 * (512 * unat sizeof_slot)" using small tot nbytes by (simp add: unat_ucast_mod)
  moreover have sl: "unat (ucast sizeof_layout :: u32) = unat sizeof_layout" using small by (simp add: unat_ucast_mod)
  ultimately have free: "unat (hd_free_space_size h) = 256 * unat ?t" "unat (hd_free_space_used h) = 0"
    using t by (simp_all add: h_def unat_sub word_le_nat_alt)
  have mem': "\<forall>off. unat off + unat ?t \<le> unat (hd_free_space_size h) \<longrightarrow> 512 \<le> length (mem off ?t)"
    using mem free t by simp
  let ?pss = "pt_process_state ProcessStateTable_new"
  have len: "length ?pss = 0 + 256" and new: "\<forall>j. 0 \<le> j \<and> j < 0 + 256 \<longrightarrow> ?pss ! j = ProcessState_new"
    by (simp_all add: ProcessStateTable_new_def MAX_PROCESS_NUM_def)
  have room: "unat (hd_free_space_used h) + 256 * unat ?t \<le> unat (hd_free_space_size h)" using free by simp
  from init_processes_ok [where now = now and mem = mem and t = ?t, OF bc len new room mem'] obtain bs h' pss' where
    r: "init_processes bc now mem ?t 0 256 h ?pss = Some (True, bs, h', pss')" "length pss' = length ?pss"
      "length bs = 256" "snd ` set bs \<subseteq> {?t}" "consecutive (unat (hd_free_space_used h)) bs (unat (hd_free_space_size h))"
      "\<forall>j<256. ProcessState_Init bc now 0 MAX_READER_EVENT_SIZE (mem (fst (bs ! j)) ?t) ProcessState_new = Some (True, pss' ! (0 + j))
        \<and> fresh_process (pss' ! (0 + j))"
      "unat (hd_free_space_used h') = unat (hd_free_space_used h) + 256 * unat ?t" "hd_free_space_size h' = hd_free_space_size h"
    by blast
  note i = r(1) r(2) [unfolded len, simplified]
    r(3,4) r(5) [unfolded free(2)] r(6) [unfolded MAX_READER_EVENT_SIZE_def add_0] r(8)
  have used: "hd_free_space_used h' = hd_free_space_size h'"
    unfolding word_unat_eq_iff r(7,8) free by (rule add_0)
  have sz: "snd (bs ! j) = ?t" if "j < 256" for j
  proof -
    have "bs ! j \<in> set bs" using that i(3) by simp
    then show ?thesis using i(4) by blast
  qed
  have rng: "unat (fst (bs ! j)) + 512 * unat sizeof_slot \<le> unat (hd_free_space_size h)" if "j < 256" for j
    using consecutive_range [OF i(5), of j] i(3) that sz [OF that] t by simp
  have disj: "unat (fst (bs ! j)) + 512 * unat sizeof_slot \<le> unat (fst (bs ! k))" if "j < k" "k < 256" for j k
    using consecutive_disjoint [OF i(5), of j k] i(3) that sz [of j] t by simp
  let ?l = "l\<lparr>dl_topo_state := TopoData_new garbage, dl_segment_table := SegmentIndicatorTable_new garbage,
    dl_process_table := ProcessStateTable_new\<lparr>pt_process_state := pss'\<rparr>, dl_header := h'\<lparr>hd_inited := True\<rparr>\<rparr>"
  have "Layout_Init bc sizeof_layout sizeof_slot now garbage mem nbytes domain_id l = Some (True, bs, ?l)"
    using inited i(1) by (simp add: Layout_Init_def process_total_size [OF bc] MAX_PROCESS_NUM_def h_def [symmetric] Let_def)
  moreover have "pt_process_cnt ProcessStateTable_new = 0" by (simp add: ProcessStateTable_new_def)
  ultimately show ?thesis
    using i(2,3,6,7) used sz rng disj free t
    by (intro exI [of _ bs] exI [of _ ?l]) (simp add: TopoData_new_inv SegmentIndicatorTable_new_def)
qed

definition raw_layout :: ShmDomainLayout where
  "raw_layout = \<lparr>dl_header = \<lparr>hd_header_space_size = 0, hd_version = 0, hd_timestamp = 0, hd_inited = False, hd_domain_id = 0,
     hd_total_space_size = 0, hd_free_space_size = 0, hd_free_space_used = 0\<rparr>, dl_topo_state = TopoData_new [],
     dl_segment_table = SegmentIndicatorTable_new [], dl_process_table = ProcessStateTable_new\<rparr>"

definition sample_layout_memory :: "u64 \<Rightarrow> u64 \<Rightarrow> ShmEvent slot list" where
  "sample_layout_memory off n = (if unat off + unat n \<le> 8388608 then replicate (unat n div 64) (new_slot event0) else [])"

theorem Layout_Init_correct_witness:
  "\<exists>bs l'. Layout_Init bit_ceil_ref 1000 64 7 [] sample_layout_memory (ucast (TotalSpaceSize bit_ceil_ref 1000 64)) 1 raw_layout =
      Some (True, bs, l') \<and> hd_inited (dl_header l')
    \<and> length (pt_process_state (dl_process_table l')) = 256 \<and> length bs = 256
    \<and> fresh_process (pt_process_state (dl_process_table l') ! 0) \<and> fresh_process (pt_process_state (dl_process_table l') ! 255)
    \<and> unat (fst (bs ! 0)) + 32768 \<le> unat (fst (bs ! 1)) \<and> unat (fst (bs ! 254)) + 32768 \<le> unat (fst (bs ! 255))
    \<and> unat (fst (bs ! 255)) + 32768 \<le> unat (hd_free_space_size (dl_header l'))"
proof -
  have "512 \<le> length (sample_layout_memory off (64 * 512))" if "unat off + 512 * unat (64 :: u64) \<le> 256 * (512 * unat (64 :: u64))" for off
    using that by (simp add: sample_layout_memory_def)
  from Layout_Init_correct [where bc = bit_ceil_ref and sizeof_layout = 1000 and sizeof_slot = 64 and l = raw_layout and mem = sample_layout_memory
      and now = 7 and garbage = "[]" and domain_id = 1, OF bit_ceil_ref_spec _ _ refl this]
  show ?thesis by (simp add: raw_layout_def) (elim exE conjE, intro exI conjI, assumption, simp_all)
qed

text \<open>
  C31: The buffers that \<open>Allocate(schema, storage)\<close> hands out lie inside the free space, in the sizes
  requested and without overlap, and it succeeds exactly if they all fit (for requests below \<open>2^63\<close> bytes
  each; the free space is less than 4 GiB).
\<close>

theorem domain_allocations_disjoint:
  assumes "\<forall>f\<in>set (schema_fields schema). unat (request_space_size f) < 2 ^ 63"
    and "unat (hd_free_space_used h) \<le> unat (hd_free_space_size h)" and "Layout_Allocate_schema schema h = (ok, bs, h')"
  shows "(ok \<longleftrightarrow> unat (hd_free_space_used h) + sum_list (map (\<lambda>f. unat (request_space_size f)) (schema_fields schema)) \<le> unat (hd_free_space_size h))
    \<and> (ok \<longrightarrow> map snd bs = map request_space_size (schema_fields schema))
    \<and> (\<forall>i<length bs. unat (hd_free_space_used h) \<le> unat (fst (bs ! i)) \<and> unat (fst (bs ! i)) + unat (snd (bs ! i)) \<le> unat (hd_free_space_size h))
    \<and> (\<forall>i j. i < j \<and> j < length bs \<longrightarrow> unat (fst (bs ! i)) + unat (snd (bs ! i)) \<le> unat (fst (bs ! j)))"
proof -
  note a = allocate_fields_consecutive [OF assms(1,2) assms(3) [unfolded Layout_Allocate_schema_def]]
  then have c: "consecutive (unat (hd_free_space_used h)) bs (unat (hd_free_space_size h))" by blast
  show ?thesis using a consecutive_range [OF c] consecutive_disjoint [OF c] by auto
qed

definition sample_schema :: StorageSchema where
  "sample_schema = \<lparr>schema_fields = [\<lparr>field_id = 0, repeated_size = 1, request_space_size = 64\<rparr>,
     \<lparr>field_id = 1, repeated_size = 1, request_space_size = 32\<rparr>]\<rparr>"

definition sample_header :: "u32 \<Rightarrow> ShmProtoHeader" where
  "sample_header used = (dl_header raw_layout)\<lparr>hd_free_space_size := 100, hd_free_space_used := used\<rparr>"

text \<open>With 4 bytes used of 100 both buffers fit; with 8 used, the second does not.\<close>

theorem domain_allocations_disjoint_witness:
  "\<exists>bs. Layout_Allocate_schema sample_schema (sample_header 4) = (True, bs, sample_header 100) \<and> bs = [(4, 64), (68, 32)]
     \<and> 4 \<le> unat (fst (bs ! 0)) \<and> unat (fst (bs ! 0)) + unat (snd (bs ! 0)) \<le> unat (fst (bs ! 1))
     \<and> unat (fst (bs ! 1)) + unat (snd (bs ! 1)) \<le> 100
     \<and> \<not> fst (Layout_Allocate_schema sample_schema (sample_header 8))"
proof -
  let ?bs = "[(4, 64), (68, 32)] :: (u64 \<times> u64) list"
  have run: "Layout_Allocate_schema sample_schema (sample_header 4) = (True, ?bs, sample_header 100)"
    by (simp add: Layout_Allocate_schema_def sample_schema_def sample_header_def Layout_Allocate_def)
  have sizes: "\<forall>f\<in>set (schema_fields sample_schema). unat (request_space_size f) < 2 ^ 63" by (simp add: sample_schema_def)
  have hd: "unat (hd_free_space_size (sample_header u)) = 100" "hd_free_space_used (sample_header u) = u" for u
    by (simp_all add: sample_header_def)
  have "\<not> ok" if "Layout_Allocate_schema sample_schema (sample_header 8) = (ok, bs, h')" for ok bs h'
    using domain_allocations_disjoint [OF sizes _ that] by (simp add: hd) (simp add: sample_schema_def)
  then have "\<not> fst (Layout_Allocate_schema sample_schema (sample_header 8))" by (metis prod.collapse)
  moreover have "unat (hd_free_space_used (sample_header 4)) \<le> unat (hd_free_space_size (sample_header 4))" by (simp add: hd)
  from domain_allocations_disjoint [OF sizes this run, unfolded hd] have
    "4 \<le> unat (fst (?bs ! 0)) \<and> unat (fst (?bs ! 0)) + unat (snd (?bs ! 0)) \<le> unat (fst (?bs ! 1)) \<and> unat (fst (?bs ! 1)) + unat (snd (?bs ! 1)) \<le> 100"
    by simp
  ultimately show ?thesis using run by (intro exI [of _ ?bs]) simp
qed

section \<open>Segments and processes\<close>

definition seg_inv :: "SegmentIndicatorTable \<Rightarrow> bool" where
  "seg_inv t \<longleftrightarrow> length (st_indicator_table t) = MAX_SEGMENT_NUM \<and> unat (st_segment_num t) \<le> MAX_SEGMENT_NUM \<and>
     (\<forall>i<unat (st_segment_num t). field_ok (si_name (st_indicator_table t ! i)))"

definition seg_names :: "SegmentIndicatorTable \<Rightarrow> (nat \<times> string) list" where
  "seg_names t = map (\<lambda>s. field_key (si_name s)) (take (unat (st_segment_num t)) (st_indicator_table t))"

lemma find_segment:
  assumes inv: "seg_inv t"
  shows "find_equal (\<lambda>i. do { s \<leftarrow> mem_read (st_indicator_table t) i; SegmentIndicator_IsEquel s name }) 0 (unat (st_segment_num t)) =
    Some (index_of (name_key name) (seg_names t))"
proof -
  let ?n = "unat (st_segment_num t)" and ?p = "\<lambda>i. seg_names t ! i = name_key name"
  have "find_equal (\<lambda>i. do { s \<leftarrow> mem_read (st_indicator_table t) i; SegmentIndicator_IsEquel s name }) 0 ?n = Some (find ?p [0..<0 + ?n])"
    using inv by (intro find_equal_first) (auto simp: seg_inv_def seg_names_def mem_read_def SegmentIndicator_IsEquel_def IsEquel_correct)
  then show ?thesis using inv by (simp add: index_of_def seg_names_def seg_inv_def)
qed

lemma RegisterSegment_new:
  assumes inv: "seg_inv t" and len: "length name \<le> MAX_DATA_NAME_LENGTH" and new: "name_key name \<notin> set (seg_names t)"
    and room: "unat (st_segment_num t) < MAX_SEGMENT_NUM"
  shows "\<exists>t'. RegisterSegment name t = Some (of_nat (length (seg_names t)), t') \<and> seg_inv t' \<and> seg_names t' = seg_names t @ [name_key name]"
proof -
  let ?n = "unat (st_segment_num t)" and ?s = "st_indicator_table t ! unat (st_segment_num t)"
  obtain f where f: "SetName (si_name ?s) name = Some (True, f)" "field_ok f" "field_key f = name_key name"
    using SetName_correct [of name "si_name ?s"] len by auto
  define s where "s = ?s\<lparr>si_name := f, si_index := of_nat ?n\<rparr>"
  define t' where "t' = t\<lparr>st_segment_num := st_segment_num t + 1, st_indicator_table := (st_indicator_table t)[?n := s]\<rparr>"
  have tab: "?n < length (st_indicator_table t)" using inv room by (simp add: seg_inv_def)
  have n1: "unat (st_segment_num t + 1) = Suc ?n" using room by (subst unat_add_small) (simp_all add: MAX_SEGMENT_NUM_def)
  have none: "index_of (name_key name) (seg_names t) = None" using new by (simp add: index_of_None)
  have "RegisterSegment name t = Some (of_nat ?n, t')"
    using none f(1) tab find_segment [OF inv, of name]
    by (simp add: RegisterSegment_def SegmentIndicator_SetName_def mem_read_def mem_write_def s_def t'_def Let_def)
  moreover have "length (seg_names t) = ?n" using inv by (simp add: seg_names_def seg_inv_def)
  moreover have "seg_inv t'"
    using inv f(2) tab room n1 by (auto simp: seg_inv_def t'_def s_def nth_list_update less_Suc_eq)
  moreover have "seg_names t' = seg_names t @ [name_key name]"
    using take_Suc_update [OF tab, of s] f(3) by (simp add: seg_names_def t'_def n1 s_def)
  ultimately show ?thesis by (simp del: of_nat_unat)
qed

text \<open>
  Segments are numbered by name: a known name gets its number again and changes nothing, a new one
  of at most 256 characters gets the next number, as long as the table has a free entry.
\<close>

theorem RegisterSegment_numbers_names:
  assumes "seg_inv t" and "length name \<le> 256" and "unat (st_segment_num t) < 1024"
  shows "case index_of (name_key name) (seg_names t) of
      Some i \<Rightarrow> RegisterSegment name t = Some (of_nat i, t)
    | None \<Rightarrow> \<exists>t'. RegisterSegment name t = Some (of_nat (length (seg_names t)), t') \<and> seg_inv t' \<and> seg_names t' = seg_names t @ [name_key name]"
proof (cases "index_of (name_key name) (seg_names t)")
  case None
  then show ?thesis
    using RegisterSegment_new [OF assms(1) _ index_of_None [THEN iffD1, OF None]] assms(2,3)
    by (simp add: MAX_DATA_NAME_LENGTH_def MAX_SEGMENT_NUM_def)
next
  case (Some i)
  then show ?thesis using find_segment [OF assms(1), of name] by (simp add: RegisterSegment_def)
qed

lemma SegmentIndicatorTable_new_inv: "seg_inv (SegmentIndicatorTable_new garbage)" "seg_names (SegmentIndicatorTable_new garbage) = []"
  by (simp_all add: seg_inv_def seg_names_def SegmentIndicatorTable_new_def)

theorem RegisterSegment_numbers_names_witness:
  "case index_of (name_key ''image'') (seg_names (SegmentIndicatorTable_new [])) of
      Some i \<Rightarrow> RegisterSegment ''image'' (SegmentIndicatorTable_new []) = Some (of_nat i, SegmentIndicatorTable_new [])
    | None \<Rightarrow> \<exists>t'. RegisterSegment ''image'' (SegmentIndicatorTable_new []) = Some (of_nat (length (seg_names (SegmentIndicatorTable_new []))), t')
        \<and> seg_inv t' \<and> seg_names t' = seg_names (SegmentIndicatorTable_new []) @ [name_key ''image'']"
  by (rule RegisterSegment_numbers_names [OF SegmentIndicatorTable_new_inv(1)]) (simp_all add: SegmentIndicatorTable_new_def)

text \<open>
  There is no check of the number of segments: with all 1024 entries in use, a new name is written
  past the end of the table.
\<close>

lemma RegisterSegment_overruns:
  assumes "seg_inv t" and "unat (st_segment_num t) = 1024" and "name_key name \<notin> set (seg_names t)"
  shows "RegisterSegment name t = None"
proof -
  have "index_of (name_key name) (seg_names t) = None" using assms(3) by (simp add: index_of_None)
  then show ?thesis
    using assms(1,2) find_segment [OF assms(1), of name]
    by (simp add: RegisterSegment_def Let_def mem_read_def seg_inv_def MAX_SEGMENT_NUM_def)
qed

lemma RegisterSegment_overruns_witness:
  "RegisterSegment ''a'' ((SegmentIndicatorTable_new (replicate 256 NUL))\<lparr>st_segment_num := 1024\<rparr>) = None"
  by (rule RegisterSegment_overruns)
    (auto simp: seg_inv_def SegmentIndicatorTable_new_def SegmentIndicator_new_def MAX_SEGMENT_NUM_def field_ok_def
      MAX_DATA_NAME_LENGTH_def seg_names_def field_key_def name_key_def)

definition proc_inv :: "ProcessStateTable \<Rightarrow> bool" where
  "proc_inv t \<longleftrightarrow> length (pt_process_state t) = MAX_PROCESS_NUM \<and> unat (pt_process_cnt t) \<le> MAX_PROCESS_NUM"

definition pids :: "ProcessStateTable \<Rightarrow> i32 list" where
  "pids t = map ps_pid (take (unat (pt_process_cnt t)) (pt_process_state t))"

lemma find_pid:
  assumes inv: "proc_inv t"
  shows "find_equal (\<lambda>i. do { ps \<leftarrow> mem_read (pt_process_state t) i; Some (pid = GetPid ps) }) 0 (unat (pt_process_cnt t)) =
    Some (index_of pid (pids t))"
proof -
  let ?n = "unat (pt_process_cnt t)" and ?p = "\<lambda>i. pids t ! i = pid"
  have "find_equal (\<lambda>i. do { ps \<leftarrow> mem_read (pt_process_state t) i; Some (pid = GetPid ps) }) 0 ?n = Some (find ?p [0..<0 + ?n])"
    using inv by (intro find_equal_first) (auto simp: proc_inv_def pids_def mem_read_def GetPid_def)
  then show ?thesis using inv by (simp add: index_of_def pids_def proc_inv_def)
qed

lemma RegisterPid_new:
  assumes inv: "proc_inv t" and new: "pid \<notin> set (pids t)" and room: "unat (pt_process_cnt t) < MAX_PROCESS_NUM"
  shows "\<exists>t'. RegisterPid pid t = Some (0, t') \<and> proc_inv t' \<and> pids t' = pids t @ [pid]"
proof -
  let ?n = "unat (pt_process_cnt t)"
  define ps where "ps = SetPidOnline pid True (pt_process_state t ! ?n)"
  define t' where "t' = t\<lparr>pt_process_cnt := pt_process_cnt t + 1, pt_process_state := (pt_process_state t)[?n := ps]\<rparr>"
  have tab: "?n < length (pt_process_state t)" using inv room by (simp add: proc_inv_def)
  have n1: "unat (pt_process_cnt t + 1) = Suc ?n" using room by (subst unat_add_small) (simp_all add: MAX_PROCESS_NUM_def)
  have none: "index_of pid (pids t) = None" using new by (simp add: index_of_None)
  have "RegisterPid pid t = Some (0, t')"
    using none tab room find_pid [OF inv, of pid]
    by (simp add: RegisterPid_def mem_read_def mem_write_def ps_def t'_def Let_def)
  moreover have "proc_inv t'" using inv tab room n1 by (simp add: proc_inv_def t'_def)
  moreover have "pids t' = pids t @ [pid]"
    using take_Suc_update [OF tab, of ps] by (simp add: pids_def t'_def n1 ps_def SetPidOnline_def)
  ultimately show ?thesis by simp
qed

text \<open>
  \<open>RegisterPid\<close> enters a new process at the next free index, yet returns 0; only a second call returns
  the index.
\<close>

lemma RegisterPid_hides_index:
  assumes "proc_inv t" and "pid \<notin> set (pids t)" and "unat (pt_process_cnt t) < 256"
  shows "\<exists>t'. RegisterPid pid t = Some (0, t') \<and> pids t' = pids t @ [pid] \<and> RegisterPid pid t' = Some (of_nat (length (pids t)), t')"
proof -
  obtain t' where t': "RegisterPid pid t = Some (0, t')" "proc_inv t'" "pids t' = pids t @ [pid]"
    using RegisterPid_new [OF assms(1,2)] assms(3) by (auto simp: MAX_PROCESS_NUM_def)
  have "index_of pid (pids t') = Some (length (pids t))" using index_of_append [OF assms(2)] t'(3) by simp
  then have "RegisterPid pid t' = Some (of_nat (length (pids t)), t')" using find_pid [OF t'(2), of pid] by (simp add: RegisterPid_def)
  then show ?thesis using t' by blast
qed

lemma RegisterPid_hides_index_witness:
  "let t = ProcessStateTable_new\<lparr>pt_process_cnt := 1\<rparr> in
   \<exists>t'. RegisterPid 4711 t = Some (0, t') \<and> pids t' = pids t @ [4711] \<and> RegisterPid 4711 t' = Some (of_nat (length (pids t)), t')"
  unfolding Let_def
  by (rule RegisterPid_hides_index)
    (simp_all add: proc_inv_def pids_def ProcessStateTable_new_def ProcessState_new_def MAX_PROCESS_NUM_def)

end
