(* ===== verification/XsiShm.thy ===== *)
theory XsiShm
  imports Prelude
begin

text \<open>
  \<open>mm/port/xsi_shm.h\<close>, \<open>xsi_shm.cc\<close> and \<open>shm_option.h\<close>: a System V shared memory object. The system calls are
  functions of the state \<open>'o\<close> of the operating system, the argument \<open>xsi_calls\<close>; the key is what \<open>ftok\<close>
  makes of the path (the directory is created before, which \<open>key_of\<close> includes).

  Addresses are \<open>u64\<close>; \<open>nullptr\<close> is 0 and \<open>shmat\<close> fails with \<open>-1\<close>.
\<close>

type_synonym i32 = "32 word"

datatype errno = EEXIST | EINVAL | EOTHER

record 'o xsi_calls =
  shmget_create_excl :: "i32 \<Rightarrow> u64 \<Rightarrow> 'o \<Rightarrow> i32 \<times> errno \<times> 'o"
  shmget_open :: "i32 \<Rightarrow> 'o \<Rightarrow> i32 \<times> 'o"
  shmat :: "i32 \<Rightarrow> u64 \<Rightarrow> 'o \<Rightarrow> u64 \<times> 'o"
  shmdt :: "u64 \<Rightarrow> 'o \<Rightarrow> 'o"
  shmctl_rmid :: "i32 \<Rightarrow> 'o \<Rightarrow> i32 \<times> 'o"
  key_of :: "string \<Rightarrow> 'o \<Rightarrow> i32 \<times> 'o"

record ShmOption =
  opt_domain_id :: i32
  opt_name_id :: i32
  opt_path :: string
  opt_name :: string
  opt_size :: u64
  opt_addr :: u64

record XsiShm =
  xs_inited :: bool
  xs_is_created :: bool
  xs_opt :: ShmOption
  xs_path :: string
  xs_key :: i32
  xs_managed_shm :: u64
  xs_shm_size :: u64

definition ShmOption_new :: ShmOption where
  "ShmOption_new = \<lparr>opt_domain_id = 0, opt_name_id = 0, opt_path = [], opt_name = [], opt_size = 0, opt_addr = 0\<rparr>"

definition XsiShm_new :: XsiShm where
  "XsiShm_new = \<lparr>xs_inited = False, xs_is_created = False, xs_opt = ShmOption_new, xs_path = [], xs_key = 0,
     xs_managed_shm = 0, xs_shm_size = 0\<rparr>"

text \<open>\<open>std::to_string(int)\<close>\<close>

fun nat_digits :: "nat \<Rightarrow> string" where
  "nat_digits n = (if n < 10 then [char_of (48 + n)] else nat_digits (n div 10) @ [char_of (48 + n mod 10)])"

declare nat_digits.simps [simp del]

definition to_string :: "i32 \<Rightarrow> string" where
  "to_string w = (if sint w < 0 then CHR ''-'' # nat_digits (nat (- sint w)) else nat_digits (nat (sint w)))"

definition XsiShm_OpenOnly :: "'o xsi_calls \<Rightarrow> XsiShm \<Rightarrow> 'o \<Rightarrow> bool \<times> XsiShm \<times> 'o" where
  "XsiShm_OpenOnly sys x os =
     (let (shmid, os) = shmget_open sys (xs_key x) os in
      if shmid = - 1 then (False, x, os)
      else let (addr, os) = shmat sys shmid (opt_addr (xs_opt x)) os; x = x\<lparr>xs_managed_shm := addr\<rparr> in
        if addr = - 1 then (False, x, os) else (True, x, os))"

text \<open>After the loop: attach the object just created.\<close>

definition XsiShm_attach :: "'o xsi_calls \<Rightarrow> i32 \<Rightarrow> XsiShm \<Rightarrow> 'o \<Rightarrow> bool \<times> XsiShm \<times> 'o" where
  "XsiShm_attach sys shmid x os =
     (if shmid = - 1 then (False, x, os)
      else let (addr, os) = shmat sys shmid (opt_addr (xs_opt x)) os; x = x\<lparr>xs_managed_shm := addr\<rparr> in
        if addr = - 1 then (let (_, os) = shmctl_rmid sys shmid os in (False, x, os))
        else (True, x\<lparr>xs_is_created := True\<rparr>, os))"

text \<open>\<open>while (retry < 2)\<close>; \<open>n\<close> is \<open>2 - retry\<close> and \<open>shmid\<close> the value of the last call.\<close>

primrec XsiShm_create_loop :: "'o xsi_calls \<Rightarrow> nat \<Rightarrow> i32 \<Rightarrow> XsiShm \<Rightarrow> 'o \<Rightarrow> bool \<times> XsiShm \<times> 'o" where
  "XsiShm_create_loop sys 0 shmid x os = XsiShm_attach sys shmid x os"
| "XsiShm_create_loop sys (Suc n) shmid x os =
     (let (shmid, err, os) = shmget_create_excl sys (xs_key x) (xs_shm_size x) os in
      if shmid \<noteq> - 1 then XsiShm_attach sys shmid x os
      else case err of
        EEXIST \<Rightarrow> XsiShm_OpenOnly sys x os
      | EINVAL \<Rightarrow> XsiShm_create_loop sys n shmid x os
      | EOTHER \<Rightarrow> XsiShm_attach sys shmid x os)"

definition XsiShm_OpenOrCreate :: "'o xsi_calls \<Rightarrow> XsiShm \<Rightarrow> 'o \<Rightarrow> bool \<times> XsiShm \<times> 'o" where
  "XsiShm_OpenOrCreate sys x os = XsiShm_create_loop sys 2 0 x os"

text \<open>\<open>Init\<close> does not look at the result of \<open>OpenOrCreate\<close>.\<close>

definition XsiShm_Init :: "'o xsi_calls \<Rightarrow> ShmOption \<Rightarrow> XsiShm \<Rightarrow> 'o \<Rightarrow> bool \<times> XsiShm \<times> 'o" where
  "XsiShm_Init sys opt x os =
     (if xs_inited x then (True, x, os)
      else
        let path = ''/tmp/xsi/'' @ to_string (opt_domain_id opt) @ ''/'' @ to_string (opt_name_id opt);
            (key, os) = key_of sys path os;
            x = x\<lparr>xs_opt := opt, xs_path := path, xs_key := key, xs_shm_size := opt_size opt\<rparr>;
            (_, x, os) = XsiShm_OpenOrCreate sys x os
        in (True, x\<lparr>xs_inited := True\<rparr>, os))"

definition XsiShm_Reset :: "'o xsi_calls \<Rightarrow> XsiShm \<Rightarrow> 'o \<Rightarrow> XsiShm \<times> 'o" where
  "XsiShm_Reset sys x os =
     (if xs_managed_shm x \<noteq> 0 then (x\<lparr>xs_managed_shm := 0\<rparr>, shmdt sys (xs_managed_shm x) os) else (x, os))"

definition XsiShm_Remove :: "'o xsi_calls \<Rightarrow> XsiShm \<Rightarrow> 'o \<Rightarrow> bool \<times> 'o" where
  "XsiShm_Remove sys x os =
     (let (shmid, os) = shmget_open sys (xs_key x) os in
      if shmid = - 1 then (False, os)
      else let (r, os) = shmctl_rmid sys shmid os in (r \<noteq> - 1, os))"

definition XsiShm_Shutdown :: "'o xsi_calls \<Rightarrow> XsiShm \<Rightarrow> 'o \<Rightarrow> XsiShm \<times> 'o" where
  "XsiShm_Shutdown sys x os =
     (if \<not> xs_inited x then (x, os)
      else let (x, os) = XsiShm_Reset sys (x\<lparr>xs_inited := False\<rparr>) os; (_, os) = XsiShm_Remove sys x os in (x, os))"

section \<open>A System V table\<close>

text \<open>
  The documented behaviour of the calls on a table of segments by key: an exclusive create fails with
  \<open>EEXIST\<close> on a key in use and with \<open>EINVAL\<close> on a size over the limit, an attach at an address gives that
  address, a removal frees the key.
\<close>

record sysv =
  sv_table :: "i32 \<rightharpoonup> i32 \<times> u64"
  sv_next_id :: i32
  sv_max :: u64

definition sysv_create :: "i32 \<Rightarrow> u64 \<Rightarrow> sysv \<Rightarrow> i32 \<times> errno \<times> sysv" where
  "sysv_create key sz s = (case sv_table s key of
       Some _ \<Rightarrow> (- 1, EEXIST, s)
     | None \<Rightarrow> if sz = 0 \<or> sv_max s < sz then (- 1, EINVAL, s)
              else (sv_next_id s, EOTHER, s\<lparr>sv_table := (sv_table s)(key \<mapsto> (sv_next_id s, sz)), sv_next_id := sv_next_id s + 1\<rparr>))"

definition sysv_open :: "i32 \<Rightarrow> sysv \<Rightarrow> i32 \<times> sysv" where
  "sysv_open key s = (case sv_table s key of Some (i, _) \<Rightarrow> (i, s) | None \<Rightarrow> (- 1, s))"

definition sysv_rmid :: "i32 \<Rightarrow> sysv \<Rightarrow> i32 \<times> sysv" where
  "sysv_rmid i s = (0, s\<lparr>sv_table := (\<lambda>k. case sv_table s k of Some (j, n) \<Rightarrow> if j = i then None else Some (j, n) | None \<Rightarrow> None)\<rparr>)"

definition sysv_calls :: "(string \<Rightarrow> i32) \<Rightarrow> sysv xsi_calls" where
  "sysv_calls key = \<lparr>shmget_create_excl = sysv_create, shmget_open = sysv_open, shmat = (\<lambda>i a s. (a, s)), shmdt = (\<lambda>a s. s),
     shmctl_rmid = sysv_rmid, key_of = (\<lambda>p s. (key p, s))\<rparr>"

section \<open>Properties\<close>

definition xsi_path :: "ShmOption \<Rightarrow> string" where
  "xsi_path opt = ''/tmp/xsi/'' @ to_string (opt_domain_id opt) @ ''/'' @ to_string (opt_name_id opt)"

definition sysv_can_create :: "(string \<Rightarrow> i32) \<Rightarrow> ShmOption \<Rightarrow> sysv \<Rightarrow> bool" where
  "sysv_can_create key opt s \<longleftrightarrow> sv_table s (key (xsi_path opt)) = None \<and> 0 < opt_size opt \<and> opt_size opt \<le> sv_max s \<and>
     sv_next_id s \<noteq> - 1 \<and> opt_addr opt \<noteq> - 1"

lemmas xsi_defs = XsiShm_Init_def XsiShm_OpenOrCreate_def XsiShm_attach_def XsiShm_OpenOnly_def sysv_calls_def
  sysv_create_def sysv_open_def XsiShm_new_def

lemma Init_creates:
  assumes "sysv_can_create key opt s"
  shows "\<exists>x t. XsiShm_Init (sysv_calls key) opt XsiShm_new s = (True, x, t) \<and> xs_is_created x \<and> xs_managed_shm x = opt_addr opt
    \<and> xs_inited x \<and> xs_key x = key (xsi_path opt) \<and> sv_table t = (sv_table s)(key (xsi_path opt) \<mapsto> (sv_next_id s, opt_size opt))
    \<and> sv_max t = sv_max s \<and> sv_next_id t = sv_next_id s + 1"
  using assms by (auto simp: sysv_can_create_def xsi_defs Let_def numeral_2_eq_2 xsi_path_def)

lemma Init_opens:
  assumes "sv_table s (key (xsi_path opt)) = Some (i, n)" and "i \<noteq> - 1" and "opt_addr opt \<noteq> - 1"
  shows "\<exists>x. XsiShm_Init (sysv_calls key) opt XsiShm_new s = (True, x, s) \<and> \<not> xs_is_created x \<and> xs_managed_shm x = opt_addr opt
    \<and> xs_inited x \<and> xs_key x = key (xsi_path opt)"
  using assms by (auto simp: xsi_defs Let_def numeral_2_eq_2 xsi_path_def)

text \<open>
  C33: Of two processes that initialise the same shared memory on a System V table, the first creates it
  and the second only attaches to it, both at the requested address: exactly one goes on to lay out the
  memory.
\<close>

theorem xsi_single_creator:
  assumes "sysv_can_create key opt s"
  shows "\<exists>x1 t x2. XsiShm_Init (sysv_calls key) opt XsiShm_new s = (True, x1, t) \<and> xs_is_created x1 \<and> xs_managed_shm x1 = opt_addr opt
    \<and> XsiShm_Init (sysv_calls key) opt XsiShm_new t = (True, x2, t) \<and> \<not> xs_is_created x2 \<and> xs_managed_shm x2 = opt_addr opt"
proof -
  from Init_creates [OF assms] obtain x1 t where
    1: "XsiShm_Init (sysv_calls key) opt XsiShm_new s = (True, x1, t)" "xs_is_created x1" "xs_managed_shm x1 = opt_addr opt"
      "sv_table t = (sv_table s)(key (xsi_path opt) \<mapsto> (sv_next_id s, opt_size opt))" by blast
  then show ?thesis using Init_opens [of t key opt "sv_next_id s" "opt_size opt"] assms by (auto simp: sysv_can_create_def)
qed

definition sample_opt :: ShmOption where
  "sample_opt = \<lparr>opt_domain_id = 3, opt_name_id = 8000, opt_path = [], opt_name = ''domain_topo'', opt_size = 4096, opt_addr = 0x510000000000\<rparr>"

definition sample_sysv :: sysv where
  "sample_sysv = \<lparr>sv_table = (\<lambda>k. None), sv_next_id = 5, sv_max = 1000000\<rparr>"

theorem xsi_single_creator_witness:
  "\<exists>x1 t x2. XsiShm_Init (sysv_calls (\<lambda>p. 17)) sample_opt XsiShm_new sample_sysv = (True, x1, t) \<and> xs_is_created x1
    \<and> xs_managed_shm x1 = opt_addr sample_opt
    \<and> XsiShm_Init (sysv_calls (\<lambda>p. 17)) sample_opt XsiShm_new t = (True, x2, t) \<and> \<not> xs_is_created x2 \<and> xs_managed_shm x2 = opt_addr sample_opt"
  by (rule xsi_single_creator) (simp add: sysv_can_create_def sample_sysv_def sample_opt_def)

text \<open>
  A process that only attached removes the shared memory when it shuts down: the next process to
  initialise creates a second one under the same key, and no longer shares memory with the first.
\<close>

theorem xsi_shutdown_splits_domain:
  assumes "sysv_can_create key opt s" and "sv_next_id s + 1 \<noteq> - 1"
  shows "\<exists>x1 t1 x2 t2 x2' t3 x3 t4 i.
      XsiShm_Init (sysv_calls key) opt XsiShm_new s = (True, x1, t1) \<and> xs_is_created x1
    \<and> XsiShm_Init (sysv_calls key) opt XsiShm_new t1 = (True, x2, t2) \<and> \<not> xs_is_created x2
    \<and> XsiShm_Shutdown (sysv_calls key) x2 t2 = (x2', t3)
    \<and> XsiShm_Init (sysv_calls key) opt XsiShm_new t3 = (True, x3, t4) \<and> xs_is_created x3
    \<and> map_option fst (sv_table t1 (key (xsi_path opt))) = Some i \<and> map_option fst (sv_table t4 (key (xsi_path opt))) = Some (i + 1)"
proof -
  from Init_creates [OF assms(1)] obtain x1 t where
    1: "XsiShm_Init (sysv_calls key) opt XsiShm_new s = (True, x1, t)" "xs_is_created x1"
      "sv_table t = (sv_table s)(key (xsi_path opt) \<mapsto> (sv_next_id s, opt_size opt))" "sv_max t = sv_max s" "sv_next_id t = sv_next_id s + 1" by blast
  from Init_opens [of t key opt "sv_next_id s" "opt_size opt"] 1(3) assms(1) obtain x2 where
    2: "XsiShm_Init (sysv_calls key) opt XsiShm_new t = (True, x2, t)" "\<not> xs_is_created x2" "xs_inited x2" "xs_key x2 = key (xsi_path opt)"
    by (auto simp: sysv_can_create_def)
  obtain x2' t3 where 3: "XsiShm_Shutdown (sysv_calls key) x2 t = (x2', t3)" by fastforce
  have "sv_table t3 (key (xsi_path opt)) = None \<and> sv_max t3 = sv_max s \<and> sv_next_id t3 = sv_next_id s + 1"
    using 3 2(3,4) 1(3-5) assms(1)
    by (auto simp: XsiShm_Shutdown_def XsiShm_Reset_def XsiShm_Remove_def sysv_calls_def sysv_open_def sysv_rmid_def sysv_can_create_def
        split: if_splits)
  then have "sysv_can_create key opt t3" and n: "sv_next_id t3 = sv_next_id s + 1" using assms by (simp_all add: sysv_can_create_def)
  from Init_creates [OF this(1)] obtain x3 t4 where
    4: "XsiShm_Init (sysv_calls key) opt XsiShm_new t3 = (True, x3, t4)" "xs_is_created x3"
      "sv_table t4 = (sv_table t3)(key (xsi_path opt) \<mapsto> (sv_next_id t3, opt_size opt))" by blast
  show ?thesis
    using 1(1-3) 2(1,2) 3 4 n
    by (intro exI [of _ x1] exI [of _ t] exI [of _ x2] exI [of _ x2'] exI [of _ t3] exI [of _ x3] exI [of _ t4] exI [of _ "sv_next_id s"])
      (simp add: fun_upd_same)
qed

theorem xsi_shutdown_splits_domain_witness:
  "\<exists>x1 t1 x2 t2 x2' t3 x3 t4 i.
      XsiShm_Init (sysv_calls (\<lambda>p. 17)) sample_opt XsiShm_new sample_sysv = (True, x1, t1) \<and> xs_is_created x1
    \<and> XsiShm_Init (sysv_calls (\<lambda>p. 17)) sample_opt XsiShm_new t1 = (True, x2, t2) \<and> \<not> xs_is_created x2
    \<and> XsiShm_Shutdown (sysv_calls (\<lambda>p. 17)) x2 t2 = (x2', t3)
    \<and> XsiShm_Init (sysv_calls (\<lambda>p. 17)) sample_opt XsiShm_new t3 = (True, x3, t4) \<and> xs_is_created x3
    \<and> map_option fst (sv_table t1 ((\<lambda>p. 17) (xsi_path sample_opt))) = Some i
    \<and> map_option fst (sv_table t4 ((\<lambda>p. 17) (xsi_path sample_opt))) = Some (i + 1)"
  by (rule xsi_shutdown_splits_domain) (simp_all add: sysv_can_create_def sample_sysv_def sample_opt_def)

text \<open>
  \<open>Init\<close> returns true whatever happens: when the creation fails with an error other than \<open>EEXIST\<close> and
  \<open>EINVAL\<close>, it reports success with a null base address.
\<close>

lemma XsiShm_Init_hides_failure:
  assumes "\<And>key sz os. \<exists>os'. shmget_create_excl sys key sz os = (- 1, EOTHER, os')"
  shows "\<exists>x os'. XsiShm_Init sys opt XsiShm_new os = (True, x, os') \<and> xs_managed_shm x = 0 \<and> xs_inited x"
proof -
  obtain k os1 where k: "key_of sys (xsi_path opt) os = (k, os1)" by fastforce
  obtain os2 where "shmget_create_excl sys k (opt_size opt) os1 = (- 1, EOTHER, os2)" using assms by blast
  then show ?thesis
    using k by (simp add: XsiShm_Init_def XsiShm_OpenOrCreate_def numeral_2_eq_2 XsiShm_new_def XsiShm_attach_def xsi_path_def Let_def)
qed

lemma XsiShm_Init_hides_failure_witness:
  "\<exists>x os'. XsiShm_Init ((sysv_calls (\<lambda>p. 17))\<lparr>shmget_create_excl := \<lambda>key sz os. (- 1, EOTHER, os)\<rparr>) sample_opt XsiShm_new sample_sysv =
     (True, x, os') \<and> xs_managed_shm x = 0 \<and> xs_inited x"
  by (rule XsiShm_Init_hides_failure) simp

end
