(* ===== verification/ShmDomain.thy ===== *)
theory ShmDomain
  imports DomainLayoutSpec XsiShm
begin

text \<open>
  \<open>shm/topo/domain_metadata\<close> and \<open>shm/shm_domain\<close>: what a process does with the domain's shared memory:
  opening or creating it, registering, and sending and receiving objects by the event queues.

  \<open>w_layouts\<close> is the memory the layout is mapped at, \<open>w_heap\<close> the shared objects, \<open>w_os\<close> the operating system.
  \<open>dparams\<close> are the compiler's sizes and what the platform supplies.
\<close>

section \<open>Model\<close>

record 'o dparams =
  dp_sys :: "'o xsi_calls"
  dp_bit_ceil :: "u64 \<Rightarrow> u64"
  dp_sizeof_layout :: u64
  dp_sizeof_slot :: u64
  dp_now :: u64
  dp_garbage :: string
  dp_mem :: "u64 \<Rightarrow> u64 \<Rightarrow> ShmEvent slot list"
  dp_ready :: "nat \<Rightarrow> bool"
  dp_pid :: i32

record 'o world =
  w_os :: 'o
  w_layouts :: "u64 \<rightharpoonup> ShmDomainLayout"
  w_heap :: shm_heap

record DomainMetadata =
  dm_inited :: bool
  dm_shm :: XsiShm
  dm_layout :: "u64 option"

definition DOMAIN_METADATA_BASE_ADDR :: u64 where "DOMAIN_METADATA_BASE_ADDR = 0x510000000000"
definition SHM_SEGMENTDATA_BASE_ADDR :: u64 where "SHM_SEGMENTDATA_BASE_ADDR = 0x520000000000"
definition SHM_MAX_SEGMENT_SIZE :: u64 where "SHM_MAX_SEGMENT_SIZE = 0x100000000"

definition DomainMetadata_new :: DomainMetadata where
  "DomainMetadata_new = \<lparr>dm_inited = False, dm_shm = XsiShm_new, dm_layout = None\<rparr>"

definition domain_opt :: "'o dparams \<Rightarrow> i32 \<Rightarrow> ShmOption" where
  "domain_opt dp domain_id = ShmOption_new\<lparr>opt_domain_id := domain_id, opt_name_id := 8000, opt_name := ''domain_topo'',
     opt_addr := DOMAIN_METADATA_BASE_ADDR,
     opt_size := TotalSpaceSize (dp_bit_ceil dp) (dp_sizeof_layout dp) (dp_sizeof_slot dp)\<rparr>"

definition DomainMetadata_Init ::
  "'o dparams \<Rightarrow> i32 \<Rightarrow> DomainMetadata \<Rightarrow> 'o world \<Rightarrow> (bool \<times> DomainMetadata \<times> 'o world) option" where
  "DomainMetadata_Init dp domain_id dm w =
     (if dm_inited dm then Some (True, dm, w)
      else do {
        let (ok, shm, os) = XsiShm_Init (dp_sys dp) (domain_opt dp domain_id) (dm_shm dm) (w_os w);
        let dm = dm\<lparr>dm_shm := shm\<rparr>;
        let w = w\<lparr>w_os := os\<rparr>;
        if \<not> ok then Some (False, dm, w)
        else do {
          let dm = dm\<lparr>dm_layout := Some (xs_managed_shm shm)\<rparr>;
          l \<leftarrow> w_layouts w (xs_managed_shm shm);
          if \<not> xs_is_created shm
          then do { _ \<leftarrow> WaitUntilReady (dp_ready dp) 0; Some (True, dm, w) }
          else do {
            (_, _, l) \<leftarrow> Layout_Init (dp_bit_ceil dp) (dp_sizeof_layout dp) (dp_sizeof_slot dp) (dp_now dp) (dp_garbage dp) (dp_mem dp)
              (ucast (xs_shm_size shm)) domain_id l;
            Some (True, dm, w\<lparr>w_layouts := (w_layouts w)(xs_managed_shm shm \<mapsto> l)\<rparr>) } } })"

text \<open>An operation on the layout the metadata points to.\<close>

definition on_layout ::
  "(ShmDomainLayout \<Rightarrow> ('r \<times> ShmDomainLayout) option) \<Rightarrow> DomainMetadata \<Rightarrow> 'o world \<Rightarrow> ('r \<times> 'o world) option" where
  "on_layout f dm w = do {
     a \<leftarrow> dm_layout dm;
     l \<leftarrow> w_layouts w a;
     (r, l) \<leftarrow> f l;
     Some (r, w\<lparr>w_layouts := (w_layouts w)(a \<mapsto> l)\<rparr>) }"

definition DomainMetadata_RegisterPid :: "i32 \<Rightarrow> DomainMetadata \<Rightarrow> 'o world \<Rightarrow> (i32 \<times> 'o world) option" where
  "DomainMetadata_RegisterPid pid dm w = on_layout (Layout_RegisterPid pid) dm w"

definition DomainMetadata_RegisterWriter :: "i32 \<Rightarrow> string \<Rightarrow> DomainMetadata \<Rightarrow> 'o world \<Rightarrow> (i32 \<times> 'o world) option" where
  "DomainMetadata_RegisterWriter process_idx name dm w = on_layout (Layout_RegisterWriter process_idx name) dm w"

definition DomainMetadata_RegisterReader :: "i32 \<Rightarrow> string \<Rightarrow> DomainMetadata \<Rightarrow> 'o world \<Rightarrow> (ReaderIndex \<times> 'o world) option" where
  "DomainMetadata_RegisterReader process_idx name dm w = on_layout (Layout_RegisterReader process_idx name) dm w"

record ShmDomain =
  sd_inited :: bool
  sd_metadata :: DomainMetadata
  sd_process_idx :: i32

definition ShmDomain_new :: ShmDomain where
  "ShmDomain_new = \<lparr>sd_inited = False, sd_metadata = DomainMetadata_new, sd_process_idx = - 1\<rparr>"

text \<open>The index \<open>RegisterPid\<close> returns is not used.\<close>

definition RegisterProcess :: "'o dparams \<Rightarrow> ShmDomain \<Rightarrow> 'o world \<Rightarrow> (i32 \<times> 'o world) option" where
  "RegisterProcess dp sd w = do {
     (_, w) \<leftarrow> DomainMetadata_RegisterPid (dp_pid dp) (sd_metadata sd) w;
     Some (0, w) }"

definition ShmDomain_Initialize ::
  "'o dparams \<Rightarrow> i32 \<Rightarrow> ShmDomain \<Rightarrow> 'o world \<Rightarrow> (bool \<times> ShmDomain \<times> 'o world) option" where
  "ShmDomain_Initialize dp domain_id sd w =
     (if sd_inited sd then Some (True, sd, w)
      else do {
        (ok, dm, w) \<leftarrow> DomainMetadata_Init dp domain_id (sd_metadata sd) w;
        let sd = sd\<lparr>sd_metadata := dm\<rparr>;
        if \<not> ok then Some (False, sd, w)
        else do {
          (idx, w) \<leftarrow> RegisterProcess dp sd w;
          let sd = sd\<lparr>sd_process_idx := idx\<rparr>;
          if idx = - 1 then Some (False, sd, w)
          else Some (True, sd\<lparr>sd_inited := True\<rparr>, w) } })"

definition ShmDomain_RegisterReader :: "string \<Rightarrow> ShmDomain \<Rightarrow> 'o world \<Rightarrow> (ReaderIndex \<times> 'o world) option" where
  "ShmDomain_RegisterReader name sd w = DomainMetadata_RegisterReader (sd_process_idx sd) name (sd_metadata sd) w"

definition ShmDomain_RegisterWriter :: "string \<Rightarrow> ShmDomain \<Rightarrow> 'o world \<Rightarrow> (i32 \<times> 'o world) option" where
  "ShmDomain_RegisterWriter name sd w = DomainMetadata_RegisterWriter (sd_process_idx sd) name (sd_metadata sd) w"

text \<open>\<open>GetSegment\<close> up to the construction of the segment: the address the option gets.\<close>

definition ShmDomain_GetSegment_addr :: "string \<Rightarrow> ShmDomain \<Rightarrow> 'o world \<Rightarrow> (u64 \<times> 'o world) option" where
  "ShmDomain_GetSegment_addr name sd w = do {
     (idx, w) \<leftarrow> on_layout (Layout_RegisterSegment name) (sd_metadata sd) w;
     Some (SHM_SEGMENTDATA_BASE_ADDR + scast idx * SHM_MAX_SEGMENT_SIZE, w) }"

definition push_process :: "i32 \<Rightarrow> u64 \<Rightarrow> shm_heap \<Rightarrow> ProcessState list \<Rightarrow> (shm_heap \<times> ProcessState list) option" where
  "push_process process_index object heap pss =
     (if sint process_index < 0 then None
      else do {
        ps \<leftarrow> mem_read pss (unat process_index);
        (_, heap, ps) \<leftarrow> ProcessState_Push object heap ps;
        pss \<leftarrow> mem_write pss (unat process_index) ps;
        Some (heap, pss) })"

primrec push_readers ::
  "WriterSlot \<Rightarrow> u64 \<Rightarrow> nat \<Rightarrow> nat \<Rightarrow> shm_heap \<Rightarrow> ProcessState list \<Rightarrow> (shm_heap \<times> ProcessState list) option" where
  "push_readers slot object i 0 heap pss = Some (heap, pss)"
| "push_readers slot object i (Suc n) heap pss = do {
     reader \<leftarrow> mem_read (ws_reader_slots slot) i;
     (heap, pss) \<leftarrow> (if \<not> rs_is_online reader then Some (heap, pss)
                    else push_process (rs_process_state_index reader) object heap pss);
     push_readers slot object (Suc i) n heap pss }"

definition ShmDomain_Push :: "i32 \<Rightarrow> u64 \<Rightarrow> ShmDomain \<Rightarrow> 'o world \<Rightarrow> (bool \<times> 'o world) option" where
  "ShmDomain_Push writer_id object sd w = do {
     a \<leftarrow> dm_layout (sd_metadata sd);
     l \<leftarrow> w_layouts w a;
     slot \<leftarrow> GetWriterSlot writer_id (dl_topo_state l);
     (heap, pss) \<leftarrow> push_readers slot object 0 (unat (ws_reader_num slot)) (w_heap w) (pt_process_state (dl_process_table l));
     Some (True, w\<lparr>w_heap := heap,
       w_layouts := (w_layouts w)(a \<mapsto> l\<lparr>dl_process_table := (dl_process_table l)\<lparr>pt_process_state := pss\<rparr>\<rparr>)\<rparr>) }"

definition ShmDomain_Pop :: "ShmDomain \<Rightarrow> 'o world \<Rightarrow> ('s shm_ptr option \<times> 'o world) option" where
  "ShmDomain_Pop sd w =
     (if sint (sd_process_idx sd) < 0 then Some (None, w)
      else do {
        a \<leftarrow> dm_layout (sd_metadata sd);
        l \<leftarrow> w_layouts w a;
        ps \<leftarrow> GetProcessState (sd_process_idx sd) l;
        (r, ps) \<leftarrow> ProcessState_Pop ps;
        pss \<leftarrow> mem_write (pt_process_state (dl_process_table l)) (unat (sd_process_idx sd)) ps;
        Some (r, w\<lparr>w_layouts := (w_layouts w)(a \<mapsto> l\<lparr>dl_process_table := (dl_process_table l)\<lparr>pt_process_state := pss\<rparr>\<rparr>)\<rparr>) })"

text \<open>\<open>TryPop\<close> has the same body: it waits too.\<close>

definition ShmDomain_TryPop :: "ShmDomain \<Rightarrow> 'o world \<Rightarrow> ('s shm_ptr option \<times> 'o world) option" where
  "ShmDomain_TryPop sd w = ShmDomain_Pop sd w"

section \<open>Delivery\<close>

definition events :: "ProcessState \<Rightarrow> ShmEvent list" where
  "events ps = fs_contents (ps_reader_event_queue ps)"

text \<open>
  \<open>TryPush\<close> takes an event only while the counter of the queue is below its capacity. The counter is never
  below the number of events in the queue, but it may be above: \<open>Pop\<close> takes an event and leaves the counter.
  \<open>receiver\<close> is what \<open>Init\<close> establishes and \<open>Push\<close> and \<open>Pop\<close> keep.
\<close>

definition event_count :: "ProcessState \<Rightarrow> nat" where
  "event_count ps = unat (fs_available_size (ps_reader_event_queue ps))"

definition event_room :: "ProcessState \<Rightarrow> nat" where
  "event_room ps = unat (fs_queue_capacity (ps_reader_event_queue ps)) - event_count ps"

definition receiver :: "ProcessState \<Rightarrow> bool" where
  "receiver ps \<longleftrightarrow> fs_ok (event_count ps) (ps_reader_event_queue ps) \<and> length (events ps) \<le> event_count ps"

definition push_budget :: "ProcessState \<Rightarrow> nat" where
  "push_budget ps = fs_budget (ps_reader_event_queue ps)"

lemma receiverI:
  assumes "fs_ok k (ps_reader_event_queue ps)" and "length (events ps) \<le> k"
  shows "receiver ps" and "event_count ps = k"
proof -
  have "k < 2 ^ 32" "fs_available_size (ps_reader_event_queue ps) = of_nat k" using assms(1) by (simp_all add: fs_ok_def)
  then show "event_count ps = k" by (simp add: event_count_def unat_of_nat)
  then show "receiver ps" using assms by (simp add: receiver_def)
qed

lemma fresh_process_receiver:
  assumes "fresh_process ps"
  shows "receiver ps" and "event_room ps = 512" and "events ps = []"
proof -
  have "fs_ok 0 (ps_reader_event_queue ps)" "events ps = []" "fs_queue_capacity (ps_reader_event_queue ps) = 512"
    using assms by (auto simp: fresh_process_def fs_inv_def events_def MAX_READER_EVENT_SIZE_def)
  with receiverI [of 0 ps] show "receiver ps" "event_room ps = 512" "events ps = []" by (simp_all add: event_room_def)
qed

lemma ProcessState_Push_effect:
  assumes "receiver ps" and "1 \<le> push_budget ps" and "heap a = Some obj"
  shows "\<exists>ps'. ProcessState_Push a heap ps = Some (0, heap(a \<mapsto> obj\<lparr>so_ref_cnt := so_ref_cnt obj + 1\<rparr>), ps')
    \<and> receiver ps' \<and> push_budget ps \<le> push_budget ps' + 1 \<and> event_room ps' = event_room ps - 1
    \<and> events ps' = events ps @ replicate (min 1 (event_room ps)) \<lparr>ev_shm_object_addr = a\<rparr>"
proof -
  let ?q = "ps_reader_event_queue ps" and ?e = "\<lparr>ev_shm_object_addr = a\<rparr>"
  have ok: "fs_ok (event_count ps) ?q" "length (fs_contents ?q) \<le> event_count ps"
    using assms(1) by (simp_all add: receiver_def events_def)
  show ?thesis
  proof (cases "event_count ps < unat (fs_queue_capacity ?q)")
    case True
    from TryPush_room [OF ok(1) True ok(2), of ?e] assms(2) obtain s where
      s: "FlatSignalQueue_TryPush ?e ?q = Some (True, s)" "fs_ok (Suc (event_count ps)) s"
        "fs_contents s = fs_contents ?q @ [?e]" "fs_queue_capacity s = fs_queue_capacity ?q" "fs_budget ?q \<le> fs_budget s + 1"
      by (auto simp: push_budget_def)
    let ?ps = "ps\<lparr>ps_reader_event_queue := s\<rparr>"
    have "receiver ?ps" "event_count ?ps = Suc (event_count ps)"
      using receiverI [of "Suc (event_count ps)" ?ps] s(2,3) ok(2) by (simp_all add: events_def)
    moreover have "min 1 (event_room ps) = 1" using True by (simp add: event_room_def)
    ultimately show ?thesis
      using s assms(3) by (simp add: ProcessState_Push_def add_ref_def Let_def events_def event_room_def push_budget_def)
  next
    case False
    then have full: "event_count ps = unat (fs_queue_capacity ?q)" using ok(1) by (simp add: fs_ok_def)
    then show ?thesis
      using TryPush_full [OF ok(1) full, of ?e] assms
      by (simp add: ProcessState_Push_def add_ref_def Let_def event_room_def)
  qed
qed

lemma ProcessState_Pop_receiver:
  assumes "receiver ps" and "1 \<le> push_budget ps" and "events ps = e # es"
  shows "\<exists>r ps'. ProcessState_Pop ps = Some (Some r, ps') \<and> sp_ptr r = ev_shm_object_addr e \<and> receiver ps' \<and> events ps' = es
    \<and> event_room ps' = event_room ps"
proof -
  let ?q = "ps_reader_event_queue ps"
  from Pop_some [of "event_count ps" ?q e es "\<lambda>e. e" event0] assms obtain s where
    s: "FlatSignalQueue_Pop (\<lambda>e. e) event0 ?q = Some (True, e, s)" "fs_ok (event_count ps) s" "fs_contents s = es"
      "fs_queue_capacity s = fs_queue_capacity ?q" by (auto simp: receiver_def events_def push_budget_def)
  let ?ps = "ps\<lparr>ps_reader_event_queue := s\<rparr>"
  have "length es \<le> event_count ps" using assms(1,3) by (simp add: receiver_def)
  then have "receiver ?ps" "event_count ?ps = event_count ps"
    using receiverI [of "event_count ps" ?ps] s(2,3) by (simp_all add: events_def)
  then show ?thesis using s by (simp add: ProcessState_Pop_def Let_def events_def event_room_def)
qed

text \<open>The processes the online readers of a channel run in.\<close>

definition targets :: "WriterSlot \<Rightarrow> nat \<Rightarrow> nat \<Rightarrow> i32 list" where
  "targets slot i n = map rs_process_state_index (filter rs_is_online (take n (drop i (ws_reader_slots slot))))"

lemma targets_Suc:
  "i < length (ws_reader_slots slot) \<Longrightarrow> targets slot i (Suc n) =
     (if rs_is_online (ws_reader_slots slot ! i) then [rs_process_state_index (ws_reader_slots slot ! i)] else []) @ targets slot (Suc i) n"
  by (simp add: targets_def Cons_nth_drop_Suc [symmetric])

definition deliveries :: "i32 list \<Rightarrow> nat \<Rightarrow> nat" where
  "deliveries ts p = count_list (map unat ts) p"

text \<open>
  What sending \<open>a\<close> to the readers in the processes \<open>ts\<close> does: a process gets an event per reader as long as its
  queue has room, and the rest is lost; a process without a reader keeps its state.
\<close>

definition delivered :: "i32 list \<Rightarrow> u64 \<Rightarrow> ProcessState list \<Rightarrow> ProcessState list \<Rightarrow> bool" where
  "delivered ts a pss pss' \<longleftrightarrow> length pss' = length pss \<and> (\<forall>p<length pss.
     events (pss' ! p) = events (pss ! p) @ replicate (min (deliveries ts p) (event_room (pss ! p))) \<lparr>ev_shm_object_addr = a\<rparr>
     \<and> event_room (pss' ! p) = event_room (pss ! p) - deliveries ts p
     \<and> (0 < deliveries ts p \<longrightarrow> receiver (pss' ! p)) \<and> (deliveries ts p = 0 \<longrightarrow> pss' ! p = pss ! p))"

lemma deliveries_Cons: "deliveries (t # ts) p = deliveries ts p + (if p = unat t then 1 else 0)"
  by (simp add: deliveries_def)

text \<open>Delivering to one process and then to others.\<close>

lemma delivered_Cons:
  assumes d: "delivered ts a (pss[unat t := ps]) pss'" and t: "unat t < length pss"
    and e: "events ps = events (pss ! unat t) @ replicate (min 1 (event_room (pss ! unat t))) \<lparr>ev_shm_object_addr = a\<rparr>"
    and room: "event_room ps = event_room (pss ! unat t) - 1" and inv: "receiver ps"
  shows "delivered (t # ts) a pss pss'"
proof -
  have "events (pss' ! p) = events (pss ! p) @ replicate (min (deliveries (t # ts) p) (event_room (pss ! p))) \<lparr>ev_shm_object_addr = a\<rparr>
     \<and> event_room (pss' ! p) = event_room (pss ! p) - deliveries (t # ts) p
     \<and> (0 < deliveries (t # ts) p \<longrightarrow> receiver (pss' ! p)) \<and> (deliveries (t # ts) p = 0 \<longrightarrow> pss' ! p = pss ! p)"
    if p: "p < length pss" for p
  proof (cases "p = unat t")
    case True
    let ?d = "deliveries ts p" and ?r = "event_room (pss ! p)"
    have "min 1 ?r + min ?d (?r - 1) = min (?d + 1) ?r" by arith
    then have "replicate (min 1 ?r) x @ replicate (min ?d (?r - 1)) x = replicate (min (?d + 1) ?r) x" for x :: ShmEvent
      by (simp only: replicate_add [symmetric])
    then show ?thesis
      using d p t e room inv True by (cases "?d = 0") (auto simp: delivered_def deliveries_Cons)
  next
    case False
    then show ?thesis using d p by (simp add: delivered_def deliveries_Cons)
  qed
  then show ?thesis using d by (simp add: delivered_def)
qed

definition reachable_targets :: "i32 list \<Rightarrow> ProcessState list \<Rightarrow> bool" where
  "reachable_targets ts pss \<longleftrightarrow>
     (\<forall>t\<in>set ts. 0 \<le> sint t \<and> unat t < length pss \<and> receiver (pss ! unat t) \<and> length ts \<le> push_budget (pss ! unat t))"

lemma reachable_targets_update:
  assumes "reachable_targets (t # ts) pss" and "receiver ps" and "push_budget (pss ! unat t) \<le> push_budget ps + 1"
  shows "reachable_targets ts (pss[unat t := ps])"
  unfolding reachable_targets_def
proof
  fix u assume u: "u \<in> set ts"
  have c: "0 \<le> sint u" "unat u < length pss" "receiver (pss ! unat u)" "Suc (length ts) \<le> push_budget (pss ! unat u)"
    using assms(1) u by (simp_all add: reachable_targets_def)
  then show "0 \<le> sint u \<and> unat u < length (pss[unat t := ps]) \<and> receiver (pss[unat t := ps] ! unat u)
      \<and> length ts \<le> push_budget (pss[unat t := ps] ! unat u)"
    using assms(2,3) by (cases "unat u = unat t") simp_all
qed

lemma push_process_effect:
  assumes "reachable_targets (t # ts) pss" and "heap a = Some obj"
  shows "\<exists>ps. push_process t a heap pss = Some (heap(a \<mapsto> obj\<lparr>so_ref_cnt := so_ref_cnt obj + 1\<rparr>), pss[unat t := ps])
    \<and> reachable_targets ts (pss[unat t := ps]) \<and> (\<forall>pss'. delivered ts a (pss[unat t := ps]) pss' \<longrightarrow> delivered (t # ts) a pss pss')"
proof -
  have t: "0 \<le> sint t" "unat t < length pss" "receiver (pss ! unat t)" "1 \<le> push_budget (pss ! unat t)"
    using assms(1) by (simp_all add: reachable_targets_def)
  from ProcessState_Push_effect [where a = a and heap = heap, OF t(3,4) assms(2)] obtain ps where
    ps: "ProcessState_Push a heap (pss ! unat t) = Some (0, heap(a \<mapsto> obj\<lparr>so_ref_cnt := so_ref_cnt obj + 1\<rparr>), ps)"
      "receiver ps" "push_budget (pss ! unat t) \<le> push_budget ps + 1" "event_room ps = event_room (pss ! unat t) - 1"
      "events ps = events (pss ! unat t) @ replicate (min 1 (event_room (pss ! unat t))) \<lparr>ev_shm_object_addr = a\<rparr>" by blast
  then show ?thesis
    using t(1,2) reachable_targets_update [OF assms(1) ps(2,3)] delivered_Cons [OF _ t(2) ps(5,4,2)]
    by (intro exI [of _ ps]) (simp add: push_process_def mem_read_def mem_write_def)
qed

lemma push_readers_delivers:
  "i + n \<le> length (ws_reader_slots slot) \<Longrightarrow> reachable_targets (targets slot i n) pss \<Longrightarrow> heap a = Some obj \<Longrightarrow>
   \<exists>pss'. push_readers slot a i n heap pss =
       Some (heap(a \<mapsto> obj\<lparr>so_ref_cnt := so_ref_cnt obj + of_nat (length (targets slot i n))\<rparr>), pss') \<and> delivered (targets slot i n) a pss pss'"
proof (induction n arbitrary: i heap pss obj)
  case 0
  then show ?case by (auto simp: targets_def delivered_def deliveries_def)
next
  case (Suc n)
  have il: "i < length (ws_reader_slots slot)" using Suc.prems(1) by simp
  let ?r = "ws_reader_slots slot ! i" and ?ts = "targets slot (Suc i) n"
  show ?case
  proof (cases "rs_is_online ?r")
    case False
    then have t: "targets slot i (Suc n) = ?ts" using targets_Suc [OF il] by simp
    have "\<exists>pss'. push_readers slot a (Suc i) n heap pss =
        Some (heap(a \<mapsto> obj\<lparr>so_ref_cnt := so_ref_cnt obj + of_nat (length ?ts)\<rparr>), pss') \<and> delivered ?ts a pss pss'"
      using Suc.prems unfolding t by (intro Suc.IH) simp_all
    then show ?thesis unfolding t using False il by (simp add: mem_read_def fun_upd_def)
  next
    case True
    let ?p = "rs_process_state_index ?r" and ?obj = "obj\<lparr>so_ref_cnt := so_ref_cnt obj + 1\<rparr>"
    have t: "targets slot i (Suc n) = ?p # ?ts" using targets_Suc [OF il] True by simp
    from push_process_effect [where heap = heap, OF Suc.prems(2) [unfolded t] Suc.prems(3)] obtain ps where
      ps: "push_process ?p a heap pss = Some (heap(a \<mapsto> ?obj), pss[unat ?p := ps])"
        "reachable_targets ?ts (pss[unat ?p := ps])"
        "\<And>pss'. delivered ?ts a (pss[unat ?p := ps]) pss' \<Longrightarrow> delivered (?p # ?ts) a pss pss'" by blast
    have "\<exists>pss'. push_readers slot a (Suc i) n (heap(a \<mapsto> ?obj)) (pss[unat ?p := ps]) =
        Some ((heap(a \<mapsto> ?obj))(a \<mapsto> ?obj\<lparr>so_ref_cnt := so_ref_cnt ?obj + of_nat (length ?ts)\<rparr>), pss')
        \<and> delivered ?ts a (pss[unat ?p := ps]) pss'"
      using Suc.prems(1) ps(2) by (intro Suc.IH) simp_all
    then obtain pss' where
      "push_readers slot a (Suc i) n (heap(a \<mapsto> ?obj)) (pss[unat ?p := ps]) =
        Some (heap(a \<mapsto> obj\<lparr>so_ref_cnt := so_ref_cnt obj + of_nat (length (?p # ?ts))\<rparr>), pss')"
      "delivered (?p # ?ts) a pss pss'" using ps(3) by (auto simp: add.assoc)
    then show ?thesis using ps(1) True il unfolding t by (simp add: mem_read_def fun_upd_def)
  qed
qed

section \<open>Properties\<close>

text \<open>
  C28: Sending an object on a channel returns true and raises its reference count by the number of the online
  readers of the channel. Every process gets one event for the object per online reader it runs, at the end of
  its queue, as long as the counter of the queue is below its capacity; what does not fit is lost. The counter is raised
  with every event taken and \<open>Pop\<close> does not lower it (\<open>ProcessState_Pop_receiver\<close>), so the room of a queue is used up
  after 512 events, popped or not (\<open>fresh_process_receiver\<close>). The states of all other processes
  and the channel table are left alone. Assumed are readers registered for processes of the table, queues as
  \<open>Init\<close>, \<open>Push\<close> and \<open>Pop\<close> leave them (\<open>receiver\<close>), and that the 64-bit ticket counters do not run out.
\<close>

theorem ShmDomain_Push_delivers:
  assumes "dm_layout (sd_metadata sd) = Some a" and "w_layouts w a = Some l" and "GetWriterSlot writer_id (dl_topo_state l) = Some slot"
    and "unat (ws_reader_num slot) \<le> length (ws_reader_slots slot)"
    and "reachable_targets (targets slot 0 (unat (ws_reader_num slot))) (pt_process_state (dl_process_table l))"
    and "w_heap w object = Some obj"
  shows "\<exists>l'. ShmDomain_Push writer_id object sd w = Some (True, w\<lparr>
        w_heap := (w_heap w)(object \<mapsto> obj\<lparr>so_ref_cnt := so_ref_cnt obj + of_nat (length (targets slot 0 (unat (ws_reader_num slot))))\<rparr>),
        w_layouts := (w_layouts w)(a \<mapsto> l')\<rparr>)
    \<and> delivered (targets slot 0 (unat (ws_reader_num slot))) object
        (pt_process_state (dl_process_table l)) (pt_process_state (dl_process_table l'))
    \<and> dl_topo_state l' = dl_topo_state l"
proof -
  from push_readers_delivers [where i = 0 and n = "unat (ws_reader_num slot)" and slot = slot and heap = "w_heap w", OF _ assms(5,6)] assms(4)
  obtain pss' where
    "push_readers slot object 0 (unat (ws_reader_num slot)) (w_heap w) (pt_process_state (dl_process_table l)) =
       Some ((w_heap w)(object \<mapsto> obj\<lparr>so_ref_cnt := so_ref_cnt obj + of_nat (length (targets slot 0 (unat (ws_reader_num slot))))\<rparr>), pss')"
    "delivered (targets slot 0 (unat (ws_reader_num slot))) object (pt_process_state (dl_process_table l)) pss'" by auto
  then show ?thesis
    using assms(1-3)
    by (intro exI [of _ "l\<lparr>dl_process_table := (dl_process_table l)\<lparr>pt_process_state := pss'\<rparr>\<rparr>"]) (simp add: ShmDomain_Push_def)
qed

text \<open>
  A domain with two registered processes; readers of the one channel run in process 0 and, two of them, in process 2,
  which has received and popped two events before, so that its queue of three has room for one.
\<close>

definition sample_eq :: "ShmEvent flat_signal_queue" where
  "sample_eq = \<lparr>fs_inited = True, fs_queue_capacity = 3, fs_available_size = 0, fs_ev_queue = bq_reinit 4 (SlotVector_sized event0 4) (bq_new event0)\<rparr>"

definition sample_ps :: ProcessState where
  "sample_ps = ProcessState_new\<lparr>ps_inited := True, ps_reader_event_queue := sample_eq\<rparr>"

definition worn_ps :: ProcessState where
  "worn_ps = sample_ps\<lparr>ps_reader_event_queue := sample_eq\<lparr>fs_available_size := 2\<rparr>\<rparr>"

definition sample_slot :: WriterSlot where
  "sample_slot = (WriterSlot_new [])\<lparr>ws_reader_num := 4, ws_reader_slots :=
     [ReaderSlot_new\<lparr>rs_is_online := True, rs_process_state_index := 0\<rparr>, ReaderSlot_new\<lparr>rs_is_online := True, rs_process_state_index := 2\<rparr>,
      ReaderSlot_new\<lparr>rs_is_online := False, rs_process_state_index := 1\<rparr>, ReaderSlot_new\<lparr>rs_is_online := True, rs_process_state_index := 2\<rparr>]\<rparr>"

definition sample_layout :: ShmDomainLayout where
  "sample_layout = \<lparr>dl_header = dl_header raw_layout, dl_topo_state = \<lparr>td_writer_num = 1, td_writer_slot_table = [sample_slot]\<rparr>,
     dl_segment_table = SegmentIndicatorTable_new [],
     dl_process_table = \<lparr>pt_process_cnt = 2, pt_process_state = (replicate MAX_PROCESS_NUM sample_ps)[2 := worn_ps]\<rparr>\<rparr>"

definition sample_world :: "sysv world" where
  "sample_world = \<lparr>w_os = sample_sysv\<lparr>sv_table := [17 \<mapsto> (4, 4096)]\<rparr>,
     w_layouts = [DOMAIN_METADATA_BASE_ADDR \<mapsto> sample_layout], w_heap = [64 \<mapsto> sample_object 1]\<rparr>"

definition sample_sd :: ShmDomain where
  "sample_sd = ShmDomain_new\<lparr>sd_inited := True, sd_metadata := DomainMetadata_new\<lparr>dm_layout := Some DOMAIN_METADATA_BASE_ADDR\<rparr>, sd_process_idx := 0\<rparr>"

lemma sample_eq_inv: "fs_inv sample_eq" "fs_contents sample_eq = []" "fs_budget sample_eq = 2 ^ 64 - 5"
proof -
  let ?q = "bq_reinit 4 (SlotVector_sized event0 4) (bq_new event0)"
  have q: "bq_wf ?q" "bq_contents ?q = []" "capacity ?q = 4"
    using bq_reinit_empty [of 2 "SlotVector_sized event0 4" "bq_new event0"] by (simp_all add: SlotVector_sized_def)
  moreover have "bq_budget ?q = 2 ^ 64 - 5" by (simp add: bq_budget_def q) (simp add: bq_reinit_def)
  ultimately show "fs_inv sample_eq" "fs_contents sample_eq = []" "fs_budget sample_eq = 2 ^ 64 - 5"
    by (simp_all add: fs_inv_def fs_ok_def fs_contents_def fs_budget_def sample_eq_def)
qed

lemma sample_receivers:
  "receiver sample_ps" "event_room sample_ps = 3" "events sample_ps = []" "push_budget sample_ps = 2 ^ 64 - 5"
  "receiver worn_ps" "event_room worn_ps = 1" "events worn_ps = []" "push_budget worn_ps = 2 ^ 64 - 5"
proof -
  have "fs_ok 0 sample_eq" using sample_eq_inv by (simp add: fs_inv_def)
  then have ok: "fs_ok 0 (ps_reader_event_queue sample_ps)" "fs_ok 2 (ps_reader_event_queue worn_ps)"
    by (simp_all add: sample_ps_def worn_ps_def fs_ok_def sample_eq_def)
  show e: "events sample_ps = []" "events worn_ps = []" and "push_budget sample_ps = 2 ^ 64 - 5" "push_budget worn_ps = 2 ^ 64 - 5"
    using sample_eq_inv(2,3) by (simp_all add: events_def sample_ps_def worn_ps_def fs_contents_def push_budget_def fs_budget_def)
  show "receiver sample_ps" "event_room sample_ps = 3" "receiver worn_ps" "event_room worn_ps = 1"
    using receiverI [OF ok(1)] receiverI [OF ok(2)] e by (simp_all add: event_room_def) (simp_all add: sample_ps_def worn_ps_def sample_eq_def)
qed

lemma sample_targets: "targets sample_slot 0 4 = [0, 2, 2]"
  by (simp add: targets_def sample_slot_def ReaderSlot_new_def)

theorem ShmDomain_Push_delivers_witness:
  "\<exists>l'. ShmDomain_Push 0 64 sample_sd sample_world = Some (True, sample_world\<lparr>
        w_heap := (w_heap sample_world)(64 \<mapsto> (sample_object 1)\<lparr>so_ref_cnt := so_ref_cnt (sample_object 1) + 3\<rparr>),
        w_layouts := (w_layouts sample_world)(DOMAIN_METADATA_BASE_ADDR \<mapsto> l')\<rparr>)
    \<and> events (pt_process_state (dl_process_table l') ! 0) = [\<lparr>ev_shm_object_addr = 64\<rparr>]
    \<and> pt_process_state (dl_process_table l') ! 1 = sample_ps
    \<and> events (pt_process_state (dl_process_table l') ! 2) = [\<lparr>ev_shm_object_addr = 64\<rparr>]"
proof -
  let ?pss = "(replicate 256 sample_ps)[2 := worn_ps]"
  have n: "unat (ws_reader_num sample_slot) = 4" "length (ws_reader_slots sample_slot) = 4" by (simp_all add: sample_slot_def)
  have p: "pt_process_state (dl_process_table sample_layout) = ?pss" by (simp add: sample_layout_def MAX_PROCESS_NUM_def)
  have r: "reachable_targets [0, 2, 2] ?pss" by (simp add: reachable_targets_def sample_receivers)
  have "\<exists>l'. ShmDomain_Push 0 64 sample_sd sample_world = Some (True, sample_world\<lparr>
        w_heap := (w_heap sample_world)(64 \<mapsto> (sample_object 1)\<lparr>so_ref_cnt := so_ref_cnt (sample_object 1) + of_nat (length (targets sample_slot 0 (unat (ws_reader_num sample_slot))))\<rparr>),
        w_layouts := (w_layouts sample_world)(DOMAIN_METADATA_BASE_ADDR \<mapsto> l')\<rparr>)
    \<and> delivered (targets sample_slot 0 (unat (ws_reader_num sample_slot))) 64
        (pt_process_state (dl_process_table sample_layout)) (pt_process_state (dl_process_table l'))
    \<and> dl_topo_state l' = dl_topo_state sample_layout"
    by (rule ShmDomain_Push_delivers, unfold n(1) sample_targets p)
      (use r in \<open>simp_all add: sample_sd_def sample_world_def sample_layout_def GetWriterSlot_def mem_read_def n\<close>)
  then obtain l' where l': "ShmDomain_Push 0 64 sample_sd sample_world = Some (True, sample_world\<lparr>
        w_heap := (w_heap sample_world)(64 \<mapsto> (sample_object 1)\<lparr>so_ref_cnt := so_ref_cnt (sample_object 1) + 3\<rparr>),
        w_layouts := (w_layouts sample_world)(DOMAIN_METADATA_BASE_ADDR \<mapsto> l')\<rparr>)"
    "delivered [0, 2, 2] 64 ?pss (pt_process_state (dl_process_table l'))"
    unfolding n(1) sample_targets p by auto
  have at: "events (pt_process_state (dl_process_table l') ! p) =
      events (?pss ! p) @ replicate (min (deliveries [0, 2, 2] p) (event_room (?pss ! p))) \<lparr>ev_shm_object_addr = 64\<rparr>
    \<and> (deliveries [0, 2, 2] p = 0 \<longrightarrow> pt_process_state (dl_process_table l') ! p = ?pss ! p)" if "p < 256" for p
    using l'(2) that by (simp add: delivered_def)
  have "events (pt_process_state (dl_process_table l') ! 0) = [\<lparr>ev_shm_object_addr = 64\<rparr>]
    \<and> pt_process_state (dl_process_table l') ! 1 = sample_ps
    \<and> events (pt_process_state (dl_process_table l') ! 2) = [\<lparr>ev_shm_object_addr = 64\<rparr>]"
    using at [of 0] at [of 1] at [of 2] by (simp add: deliveries_def sample_receivers)
  with l'(1) show ?thesis by blast
qed

text \<open>
  C34: A process whose event queue is full loses the event without a trace in the result: \<open>Push\<close> returns 0,
  the queue is as it was, and the object has one reference more, which no event will ever give back.
\<close>

theorem ProcessState_Push_full_leaks:
  assumes "fs_inv (ps_reader_event_queue ps)" and "length (events ps) = unat (fs_queue_capacity (ps_reader_event_queue ps))"
    and "heap object = Some obj"
  shows "ProcessState_Push object heap ps = Some (0, heap(object \<mapsto> obj\<lparr>so_ref_cnt := so_ref_cnt obj + 1\<rparr>), ps)"
  using TryPush_full [of "length (events ps)" "ps_reader_event_queue ps"] assms
  by (simp add: ProcessState_Push_def add_ref_def Let_def events_def fs_inv_def)

theorem ProcessState_Push_full_leaks_witness:
  "\<exists>ps. length (events ps) = 1 \<and>
     ProcessState_Push 64 [64 \<mapsto> sample_object 1] ps = Some (0, [64 \<mapsto> sample_object 1](64 \<mapsto> (sample_object 1)\<lparr>so_ref_cnt := so_ref_cnt (sample_object 1) + 1\<rparr>), ps)"
proof -
  let ?q = "sample_eq\<lparr>fs_queue_capacity := 1\<rparr>"
  have "fs_ok 0 ?q" "fs_contents ?q = []" "1 \<le> fs_budget ?q"
    using sample_eq_inv by (auto simp: fs_inv_def fs_ok_def fs_contents_def fs_budget_def sample_eq_def word_le_nat_alt)
  from TryPush_room [OF this(1), of event0] this obtain q where
    q: "fs_ok 1 q" "fs_contents q = [event0]" "fs_queue_capacity q = 1" by auto
  let ?ps = "sample_ps\<lparr>ps_reader_event_queue := q\<rparr>"
  have "ProcessState_Push 64 [64 \<mapsto> sample_object 1] ?ps =
      Some (0, [64 \<mapsto> sample_object 1](64 \<mapsto> (sample_object 1)\<lparr>so_ref_cnt := so_ref_cnt (sample_object 1) + 1\<rparr>), ?ps)"
    by (rule ProcessState_Push_full_leaks) (use q in \<open>simp_all add: fs_inv_def events_def\<close>)
  moreover have "length (events ?ps) = 1" using q by (simp add: events_def)
  ultimately show ?thesis by blast
qed

text \<open>
  Every process takes itself for process 0: whichever processes are registered already, a first \<open>Initialize\<close> that
  returns true leaves the process index 0, so \<open>Pop\<close> in every process reads the queue of process 0.
\<close>

theorem every_process_is_process_0:
  assumes "ShmDomain_Initialize dp domain_id ShmDomain_new w = Some (True, sd, w')"
  shows "sd_process_idx sd = 0 \<and> sd_inited sd"
  using assms
  by (auto simp: ShmDomain_Initialize_def ShmDomain_new_def RegisterProcess_def Let_def bind_eq_Some_conv split: if_splits)

definition sample_dp :: "sysv dparams" where
  "sample_dp = \<lparr>dp_sys = sysv_calls (\<lambda>p. 17), dp_bit_ceil = bit_ceil_ref, dp_sizeof_layout = 4096, dp_sizeof_slot = 16, dp_now = 1,
     dp_garbage = [], dp_mem = (\<lambda>_ _. []), dp_ready = (\<lambda>k. 2 \<le> k), dp_pid = 4242\<rparr>"

theorem every_process_is_process_0_witness:
  "\<exists>sd w'. ShmDomain_Initialize sample_dp 3 ShmDomain_new sample_world = Some (True, sd, w') \<and> sd_process_idx sd = 0 \<and> sd_inited sd"
proof -
  obtain x where x: "XsiShm_Init (sysv_calls (\<lambda>p. 17)) (domain_opt sample_dp 3) XsiShm_new (w_os sample_world) = (True, x, w_os sample_world)"
    "\<not> xs_is_created x" "xs_managed_shm x = DOMAIN_METADATA_BASE_ADDR"
    using Init_opens [of "w_os sample_world" "\<lambda>p. 17" "domain_opt sample_dp 3" 4 4096]
    by (auto simp: sample_world_def domain_opt_def ShmOption_new_def DOMAIN_METADATA_BASE_ADDR_def)
  have ready: "WaitUntilReady (\<lambda>k. 2 \<le> k) 0 = Some True" by (simp add: WaitUntilReady.simps)
  have "\<exists>t. RegisterPid 4242 (dl_process_table sample_layout) = Some (0, t)"
    using RegisterPid_new [of "dl_process_table sample_layout" 4242]
    by (simp add: proc_inv_def pids_def sample_layout_def sample_ps_def ProcessState_new_def MAX_PROCESS_NUM_def)
      (auto simp: eval_nat_numeral)
  then have "\<exists>w'. DomainMetadata_RegisterPid 4242 (DomainMetadata_new\<lparr>dm_shm := x, dm_layout := Some DOMAIN_METADATA_BASE_ADDR\<rparr>) sample_world = Some (0, w')"
    by (auto simp: DomainMetadata_RegisterPid_def on_layout_def sample_world_def Layout_RegisterPid_def)
  then have "\<exists>sd w'. ShmDomain_Initialize sample_dp 3 ShmDomain_new sample_world = Some (True, sd, w')"
    using x ready
    by (auto simp: ShmDomain_Initialize_def ShmDomain_new_def DomainMetadata_Init_def DomainMetadata_new_def sample_dp_def RegisterProcess_def Let_def
        sample_world_def)
  then obtain sd w' where r: "ShmDomain_Initialize sample_dp 3 ShmDomain_new sample_world = Some (True, sd, w')" by blast
  with every_process_is_process_0 [OF r] show ?thesis by blast
qed

end
