(* ===== verification/RetireList.thy ===== *)
theory RetireList
  imports Prelude "HOL-Library.Multiset"
begin

text \<open>
  \<open>internal::concurrent_vector::RetireList\<close> of \<open>base/vector.hpp\<close>: retired objects wait in a singly linked list
  until the last of them has been retired for long enough. The head packs the pointer to the first node
  and a 16 bit timestamp, in units of 64 seconds, into one word.

  The nodes are a map from addresses; \<open>None\<close> of the option monad is an access to an address without a node.
  \<open>new_node\<close> is the address \<open>operator new\<close> gives, \<open>tv_sec\<close> what the monotonic clock reads. The calls
  \<open>D()(data)\<close> of the deleter are returned as a list. \<open>delete_list\<close> follows the list as long as it goes, so
  that it ends is a theorem. One thread is considered: the compare-exchange of each operation succeeds.
\<close>

section \<open>Model\<close>

record 'd Node =
  nd_data :: 'd
  nd_next :: u64

type_synonym 'd nodes = "u64 \<rightharpoonup> 'd Node"

record RetireList =
  rl_head :: u64

definition get_node :: "u64 \<Rightarrow> u64" where
  "get_node head = head AND 0x0000FFFFFFFFFFFF"

definition get_timestamp :: "u64 \<Rightarrow> u16" where
  "get_timestamp head = ucast (drop_bit 48 head)"

definition make_head :: "u64 \<Rightarrow> u64 \<Rightarrow> u64" where
  "make_head node timestamp = push_bit 48 timestamp OR node"

definition get_current_timestamp :: "u64 \<Rightarrow> u16" where
  "get_current_timestamp tv_sec = ucast (drop_bit 6 tv_sec)"

definition expire :: "u64 \<Rightarrow> u16 \<Rightarrow> bool" where
  "expire head current_timestamp \<longleftrightarrow> 1 < current_timestamp - get_timestamp head"

partial_function (option) delete_nodes :: "u64 \<Rightarrow> 'd nodes \<Rightarrow> ('d list \<times> 'd nodes) option" where
  "delete_nodes node heap =
     (if node = 0 then Some ([], heap)
      else do {
        n \<leftarrow> heap node;
        (ds, heap) \<leftarrow> delete_nodes (nd_next n) (heap(node := None));
        Some (nd_data n # ds, heap) })"

declare delete_nodes.simps [code]

definition delete_list :: "u64 \<Rightarrow> 'd nodes \<Rightarrow> ('d list \<times> 'd nodes) option" where
  "delete_list head heap = delete_nodes (get_node head) heap"

definition RetireList_new :: RetireList where
  "RetireList_new = \<lparr>rl_head = 0\<rparr>"

definition retire :: "u64 \<Rightarrow> u64 \<Rightarrow> 'd \<Rightarrow> 'd nodes \<Rightarrow> RetireList \<Rightarrow> ('d list \<times> 'd nodes \<times> RetireList) option" where
  "retire new_node tv_sec data heap rl = do {
     let head = rl_head rl;
     let timestamp = get_current_timestamp tv_sec;
     let new_head = make_head new_node (ucast timestamp);
     if expire head timestamp
     then do {
       (ds, heap) \<leftarrow> delete_list head (heap(new_node \<mapsto> \<lparr>nd_data = data, nd_next = 0\<rparr>));
       Some (ds, heap, rl\<lparr>rl_head := new_head\<rparr>) }
     else Some ([], heap(new_node \<mapsto> \<lparr>nd_data = data, nd_next = get_node head\<rparr>), rl\<lparr>rl_head := new_head\<rparr>) }"

definition gc :: "u64 \<Rightarrow> 'd nodes \<Rightarrow> RetireList \<Rightarrow> ('d list \<times> 'd nodes \<times> RetireList) option" where
  "gc tv_sec heap rl = do {
     let head = rl_head rl;
     let timestamp = get_current_timestamp tv_sec;
     if expire head timestamp
     then do { (ds, heap) \<leftarrow> delete_list head heap; Some (ds, heap, rl\<lparr>rl_head := 0\<rparr>) }
     else Some ([], heap, rl) }"

definition unsafe_gc :: "'d nodes \<Rightarrow> RetireList \<Rightarrow> ('d list \<times> 'd nodes \<times> RetireList) option" where
  "unsafe_gc heap rl = do { (ds, heap) \<leftarrow> delete_list (rl_head rl) heap; Some (ds, heap, rl\<lparr>rl_head := 0\<rparr>) }"

text \<open>
  The move constructor takes the list and leaves an empty one (the pair is the new list and \<open>other\<close>), the move
  assignment exchanges the two, the destructor frees the nodes.
\<close>

definition RetireList_move_construct :: "RetireList \<Rightarrow> RetireList \<times> RetireList" where
  "RetireList_move_construct other = (\<lparr>rl_head = rl_head other\<rparr>, other\<lparr>rl_head := 0\<rparr>)"

definition RetireList_move_assign :: "RetireList \<Rightarrow> RetireList \<Rightarrow> RetireList \<times> RetireList" where
  "RetireList_move_assign this other = (let tmp = rl_head this in (this\<lparr>rl_head := rl_head other\<rparr>, other\<lparr>rl_head := tmp\<rparr>))"

definition RetireList_destroy :: "'d nodes \<Rightarrow> RetireList \<Rightarrow> ('d list \<times> 'd nodes) option" where
  "RetireList_destroy heap rl = delete_list (rl_head rl) heap"

section \<open>The tagged pointer\<close>

lemma take_bit_small: "unat (w :: 'a::len word) < 2 ^ k \<Longrightarrow> take_bit k w = w"
  by (simp add: word_unat_eq_iff unsigned_take_bit_eq take_bit_nat_eq_self)

lemma head_mask: "(0x0000FFFFFFFFFFFF :: u64) = mask 48"
  by (simp add: mask_eq_exp_minus_1)

lemma get_node_make_head: 
  assumes "unat node < 2 ^ 48"
  shows "get_node (make_head node timestamp) = node"
proof -
  have "get_node (make_head node timestamp) = take_bit 48 node"
    unfolding get_node_def make_head_def head_mask take_bit_eq_mask [symmetric]
    by (rule bit_word_eqI) (auto simp: bit_simps)
  then show ?thesis using take_bit_small [OF assms] by simp
qed

lemma get_timestamp_make_head:
  assumes "unat node < 2 ^ 48"
  shows "get_timestamp (make_head node (ucast timestamp)) = timestamp"
proof -
  have "get_timestamp (make_head (take_bit 48 node) (ucast timestamp)) = timestamp"
    unfolding get_timestamp_def make_head_def
    by (rule bit_word_eqI) (auto simp: bit_simps)
  then show ?thesis using take_bit_small [OF assms] by simp
qed

lemma get_node_0 [simp]: "get_node 0 = 0" "get_timestamp 0 = 0"
  by (simp_all add: get_node_def get_timestamp_def)

section \<open>Lists of nodes\<close>

text \<open>\<open>chain heap p xs\<close>: from \<open>p\<close> the nodes at the addresses \<open>map fst xs\<close>, holding \<open>map snd xs\<close>.\<close>

fun chain :: "'d nodes \<Rightarrow> u64 \<Rightarrow> (u64 \<times> 'd) list \<Rightarrow> bool" where
  "chain heap p [] \<longleftrightarrow> p = 0"
| "chain heap p ((a, d) # xs) \<longleftrightarrow> p = a \<and> a \<noteq> 0 \<and> (\<exists>q. heap a = Some \<lparr>nd_data = d, nd_next = q\<rparr> \<and> chain heap q xs)"

lemma chain_cong: "(\<And>a. a \<in> fst ` set xs \<Longrightarrow> heap a = heap' a) \<Longrightarrow> chain heap p xs = chain heap' p xs"
  by (induction xs arbitrary: p) auto

lemma delete_nodes_chain:
  "chain heap p xs \<Longrightarrow> distinct (map fst xs) \<Longrightarrow> delete_nodes p heap = Some (map snd xs, heap |` (- fst ` set xs))"
proof (induction xs arbitrary: p heap)
  case Nil
  then show ?case by (simp add: delete_nodes.simps)
next
  case (Cons x xs)
  obtain a d where x: "x = (a, d)" by fastforce
  with Cons.prems obtain q where q: "p = a" "a \<noteq> 0" "heap a = Some \<lparr>nd_data = d, nd_next = q\<rparr>" "chain heap q xs" by auto
  have "chain (heap(a := None)) q xs"
    using q(4) Cons.prems(2) x by (subst chain_cong [where heap' = heap]) auto
  then have "delete_nodes q (heap(a := None)) = Some (map snd xs, heap(a := None) |` (- fst ` set xs))"
    using Cons.prems(2) by (intro Cons.IH) (simp_all del: fun_upd_apply)
  moreover have "heap(a := None) |` (- fst ` set xs) = heap |` (- insert a (fst ` set xs))"
    by (auto simp: restrict_map_def)
  ultimately show ?case using q x by (simp add: delete_nodes.simps [of a])
qed

text \<open>The nodes in use are exactly those of the list, at addresses that fit beside the timestamp.\<close>

definition rl_inv :: "'d nodes \<Rightarrow> RetireList \<Rightarrow> (u64 \<times> 'd) list \<Rightarrow> bool" where
  "rl_inv heap rl xs \<longleftrightarrow> chain heap (get_node (rl_head rl)) xs \<and> distinct (map fst xs) \<and> dom heap = fst ` set xs"

lemma rl_inv_new: "rl_inv (\<lambda>_. None) RetireList_new []"
  by (simp add: rl_inv_def RetireList_new_def)

lemma delete_list_inv:
  assumes "rl_inv heap rl xs"
  shows "delete_list (rl_head rl) heap = Some (map snd xs, \<lambda>_. None)"
proof -
  have "heap |` (- fst ` set xs) = (\<lambda>_. None)"
    using assms by (auto simp: rl_inv_def restrict_map_def fun_eq_iff domIff)
  then show ?thesis using assms delete_nodes_chain [of heap "get_node (rl_head rl)" xs] by (simp add: rl_inv_def delete_list_def)
qed

text \<open>What \<open>operator new\<close> promises for a node: an unused address, as long as fewer than \<open>n\<close> are in use.\<close>

definition new_node_spec :: "nat \<Rightarrow> ('d nodes \<Rightarrow> u64) \<Rightarrow> bool" where
  "new_node_spec n new_node \<longleftrightarrow> (\<forall>heap. card (dom heap) < n \<longrightarrow> heap (new_node heap) = None \<and> new_node heap \<noteq> 0 \<and> unat (new_node heap) < 2 ^ 48)"

definition new_node_ref :: "nat \<Rightarrow> 'd nodes \<Rightarrow> u64" where
  "new_node_ref n heap = (case find (\<lambda>a. heap a = None) (map of_nat [1..<Suc n]) of Some a \<Rightarrow> a | None \<Rightarrow> 0)"

lemma new_node_ref_spec:
  assumes n: "n < 2 ^ 48"
  shows "new_node_spec n (new_node_ref n)"
  unfolding new_node_spec_def
proof (intro allI impI)
  fix heap :: "'d nodes"
  assume c: "card (dom heap) < n"
  let ?as = "map of_nat [1..<Suc n] :: u64 list"
  have inj: "unat (of_nat i :: u64) = i" if "i \<le> n" for i using that n by (intro unat_of_nat_small) simp
  then have "inj_on (of_nat :: nat \<Rightarrow> u64) (set [1..<Suc n])" by (intro inj_on_inverseI [where g = unat]) auto
  then have "card (set ?as) = card (set [1..<Suc n])" by (simp only: set_map card_image)
  then have "card (set ?as) = n" by (simp only: set_upt card_atLeastLessThan)
  then have "\<not> set ?as \<subseteq> dom heap" using c card_mono [of "dom heap" "set ?as"] finite_subset [of "dom heap" UNIV] by force
  then obtain a where "find (\<lambda>a. heap a = None) ?as = Some a"
    by (metis (mono_tags, lifting) domIff find_None_iff not_Some_eq subsetI)
  then have "heap a = None" "a \<in> set ?as" "new_node_ref n heap = a"
    unfolding new_node_ref_def by (metis (mono_tags, lifting) find_Some_iff, metis (mono_tags, lifting) find_Some_iff nth_mem, simp)
  then obtain i where "new_node_ref n heap = of_nat i" "1 \<le> i" "i \<le> n" "heap (of_nat i) = None"
    by (auto simp del: upt_Suc)
  then show "heap (new_node_ref n heap) = None \<and> new_node_ref n heap \<noteq> 0 \<and> unat (new_node_ref n heap) < 2 ^ 48"
    using inj [of i] n by (auto simp: unat_eq_0 [symmetric] simp del: unat_eq_0)
qed

lemma retire_inv:
  assumes inv: "rl_inv heap rl xs" and a: "heap a = None" "a \<noteq> 0" "unat a < 2 ^ 48"
  shows "\<exists>heap' rl'. retire a t d heap rl = Some (if expire (rl_head rl) (get_current_timestamp t) then map snd xs else [], heap', rl')
    \<and> rl_inv heap' rl' ((a, d) # (if expire (rl_head rl) (get_current_timestamp t) then [] else xs))
    \<and> rl_head rl' = make_head a (ucast (get_current_timestamp t))"
proof -
  have new: "a \<notin> fst ` set xs" using inv a(1) by (auto simp: rl_inv_def)
  have c: "chain (heap(a \<mapsto> n)) (get_node (rl_head rl)) xs" for n
    using inv new by (subst chain_cong [where heap' = heap]) (auto simp: rl_inv_def)
  show ?thesis
  proof (cases "expire (rl_head rl) (get_current_timestamp t)")
    case True
    let ?h = "heap(a \<mapsto> \<lparr>nd_data = d, nd_next = 0\<rparr>)"
    have "delete_list (rl_head rl) ?h = Some (map snd xs, ?h |` (- fst ` set xs))"
      using delete_nodes_chain [OF c] inv by (simp add: delete_list_def rl_inv_def)
    moreover have "?h |` (- fst ` set xs) = [a \<mapsto> \<lparr>nd_data = d, nd_next = 0\<rparr>]"
      using inv new by (auto simp: rl_inv_def restrict_map_def fun_eq_iff domIff)
    ultimately show ?thesis
      using True a get_node_make_head [OF a(3)] by (simp add: retire_def rl_inv_def)
  next
    case False
    then show ?thesis
      using c inv new a get_node_make_head [OF a(3)] by (auto simp: retire_def rl_inv_def)
  qed
qed

lemma gc_inv:
  assumes inv: "rl_inv heap rl xs"
  shows "if expire (rl_head rl) (get_current_timestamp t) then gc t heap rl = Some (map snd xs, \<lambda>_. None, RetireList_new)
    else gc t heap rl = Some ([], heap, rl)"
  using delete_list_inv [OF inv] by (cases rl) (simp add: gc_def RetireList_new_def)

section \<open>Time\<close>

lemma get_current_timestamp_nat: "get_current_timestamp t = of_nat (unat t div 64)"
  by (simp add: get_current_timestamp_def word_unat_eq_iff unat_ucast_mod unat_of_nat unsigned_drop_bit_eq drop_bit_eq_div unat_div)

text \<open>A list is only found expired more than 64 seconds after the last retirement.\<close>

lemma expire_late:
  assumes "expire (make_head a (ucast (get_current_timestamp t0))) (get_current_timestamp t)" and "unat a < 2 ^ 48" and "t0 \<le> t"
  shows "unat t0 + 64 < unat t"
proof (rule ccontr)
  assume "\<not> unat t0 + 64 < unat t"
  then have "unat t div 64 = unat t0 div 64 \<or> unat t div 64 = unat t0 div 64 + 1" using assms(3) unfolding word_le_nat_alt by linarith
  then have "get_current_timestamp t - get_current_timestamp t0 = 0 \<or> get_current_timestamp t - get_current_timestamp t0 = 1"
    by (auto simp: get_current_timestamp_nat)
  then show False using assms(1,2) by (auto simp: expire_def get_timestamp_make_head)
qed

section \<open>Runs\<close>

datatype 'd rl_op = Retire u64 'd | Gc u64

fun op_time :: "'d rl_op \<Rightarrow> u64" where
  "op_time (Retire t d) = t"
| "op_time (Gc t) = t"

fun rl_exec :: "('d nodes \<Rightarrow> u64) \<Rightarrow> 'd rl_op \<Rightarrow> 'd nodes \<Rightarrow> RetireList \<Rightarrow> ('d list \<times> 'd nodes \<times> RetireList) option" where
  "rl_exec new_node (Retire t d) heap rl = retire (new_node heap) t d heap rl"
| "rl_exec new_node (Gc t) heap rl = gc t heap rl"

text \<open>The objects a run deletes, each with the time of its deletion.\<close>

fun rl_run :: "('d nodes \<Rightarrow> u64) \<Rightarrow> 'd rl_op list \<Rightarrow> 'd nodes \<Rightarrow> RetireList \<Rightarrow> ((u64 \<times> 'd) list \<times> 'd nodes \<times> RetireList) option" where
  "rl_run new_node [] heap rl = Some ([], heap, rl)"
| "rl_run new_node (op # ops) heap rl = do {
     (ds, heap, rl) \<leftarrow> rl_exec new_node op heap rl;
     (dels, heap, rl) \<leftarrow> rl_run new_node ops heap rl;
     Some (map (Pair (op_time op)) ds @ dels, heap, rl) }"

fun retired :: "'d rl_op list \<Rightarrow> (u64 \<times> 'd) list" where
  "retired [] = []"
| "retired (Retire t d # ops) = (t, d) # retired ops"
| "retired (Gc t # ops) = retired ops"

text \<open>The head carries the time of the last retirement, at or after that of every object in the list.\<close>

definition stamped :: "RetireList \<Rightarrow> 'd list \<Rightarrow> (u64 \<times> 'd) set \<Rightarrow> u64 \<Rightarrow> bool" where
  "stamped rl ds past t \<longleftrightarrow> ds = [] \<or> (\<exists>a t0. unat a < 2 ^ 48 \<and> rl_head rl = make_head a (ucast (get_current_timestamp t0)) \<and> t0 \<le> t \<and>
     (\<forall>d\<in>set ds. \<exists>t1\<le>t0. (t1, d) \<in> past))"

lemma stamped_expire:
  assumes "stamped rl ds past t" and "t \<le> t'" and "expire (rl_head rl) (get_current_timestamp t')" and "d \<in> set ds"
  shows "\<exists>t1. (t1, d) \<in> past \<and> unat t1 + 64 < unat t'"
proof -
  from assms(1,4) obtain a t0 t1 where "unat a < 2 ^ 48" "rl_head rl = make_head a (ucast (get_current_timestamp t0))" "t0 \<le> t" "t1 \<le> t0" "(t1, d) \<in> past"
    by (auto simp: stamped_def)
  with expire_late [of a t0 t'] assms(2,3) show ?thesis unfolding word_le_nat_alt by (intro exI [of _ t1]) auto
qed

lemma stamped_mono: "stamped rl ds past t \<Longrightarrow> t \<le> t' \<Longrightarrow> stamped rl ds past t'"
  unfolding stamped_def by (meson order_trans)

lemma stamped_times: "stamped rl ds past t \<Longrightarrow> t \<le> t' \<Longrightarrow> \<forall>d\<in>set ds. \<exists>t1\<le>t'. (t1, d) \<in> past"
  unfolding stamped_def by (elim disjE exE conjE) (simp, meson order_trans)

text \<open>One step: what is deleted is old enough, and nothing is lost.\<close>

lemma rl_exec_step:
  assumes inv: "rl_inv heap rl xs" and st: "stamped rl (map snd xs) past t" and t: "t \<le> op_time op" and new: "new_node_spec n new_node"
    and n: "length xs + length (retired [op]) \<le> n"
  shows "\<exists>ds heap' rl' ys. rl_exec new_node op heap rl = Some (ds, heap', rl') \<and> rl_inv heap' rl' ys
    \<and> stamped rl' (map snd ys) (past \<union> set (retired [op])) (op_time op)
    \<and> mset (map snd xs) + mset (map snd (retired [op])) = mset ds + mset (map snd ys)
    \<and> (\<forall>d\<in>set ds. \<exists>t1. (t1, d) \<in> past \<and> unat t1 + 64 < unat (op_time op)) \<and> length ys \<le> length xs + length (retired [op])"
proof (cases op)
  case (Retire t' d)
  let ?e = "expire (rl_head rl) (get_current_timestamp t')" and ?a = "new_node heap"
  have "card (dom heap) = length xs" using inv distinct_card [of "map fst xs"] by (simp add: rl_inv_def)
  then have a: "heap ?a = None" "?a \<noteq> 0" "unat ?a < 2 ^ 48" using new n Retire by (auto simp: new_node_spec_def)
  from retire_inv [OF inv a, of t' d] obtain heap' rl' where
    r: "retire ?a t' d heap rl = Some (if ?e then map snd xs else [], heap', rl')" "rl_inv heap' rl' ((?a, d) # (if ?e then [] else xs))"
      "rl_head rl' = make_head ?a (ucast (get_current_timestamp t'))" by blast
  have "\<forall>d'\<in>set (map snd xs). \<exists>t1\<le>t'. (t1, d') \<in> past"
    using stamped_times [OF st] t Retire by simp
  then have "stamped rl' (map snd ((?a, d) # (if ?e then [] else xs))) (past \<union> {(t', d)}) t'"
    using r(3) a(3) unfolding stamped_def by (intro disjI2 exI [of _ ?a] exI [of _ t']) auto
  then show ?thesis using r stamped_expire [OF st] t Retire by (cases ?e) auto
next
  case (Gc t')
  show ?thesis
  proof (cases "expire (rl_head rl) (get_current_timestamp t')")
    case True
    then show ?thesis using Gc gc_inv [OF inv, of t'] stamped_expire [OF st] t rl_inv_new by (auto simp: stamped_def)
  next
    case False
    then show ?thesis
      using Gc gc_inv [OF inv, of t'] stamped_mono [OF st] t inv by (intro exI conjI [rotated]) auto
  qed
qed

lemma rl_run_step:
  assumes "new_node_spec n new_node"
  shows "rl_inv heap rl xs \<Longrightarrow> stamped rl (map snd xs) past t \<Longrightarrow> sorted (t # map op_time ops) \<Longrightarrow> length xs + length (retired ops) \<le> n \<Longrightarrow>
    \<exists>dels heap' rl' ys. rl_run new_node ops heap rl = Some (dels, heap', rl') \<and> rl_inv heap' rl' ys
    \<and> mset (map snd xs) + mset (map snd (retired ops)) = mset (map snd dels) + mset (map snd ys)
    \<and> (\<forall>(t2, d)\<in>set dels. \<exists>t1. (t1, d) \<in> past \<union> set (retired ops) \<and> unat t1 + 64 < unat t2)"
proof (induction ops arbitrary: heap rl xs past t)
  case Nil
  then show ?case by auto
next
  case (Cons op ops)
  have c: "retired (op # ops) = retired [op] @ retired ops" by (cases op) auto
  from rl_exec_step [OF Cons.prems(1,2) _ assms, of op] Cons.prems(3,4) c obtain ds heap1 rl1 ys where
    1: "rl_exec new_node op heap rl = Some (ds, heap1, rl1)" "rl_inv heap1 rl1 ys"
      "stamped rl1 (map snd ys) (past \<union> set (retired [op])) (op_time op)"
      "mset (map snd xs) + mset (map snd (retired [op])) = mset ds + mset (map snd ys)"
      "\<forall>d\<in>set ds. \<exists>t1. (t1, d) \<in> past \<and> unat t1 + 64 < unat (op_time op)" "length ys \<le> length xs + length (retired [op])" by auto
  from Cons.IH [OF 1(2,3)] Cons.prems(3,4) c 1(6) obtain dels heap2 rl2 zs where
    2: "rl_run new_node ops heap1 rl1 = Some (dels, heap2, rl2)" "rl_inv heap2 rl2 zs"
      "mset (map snd ys) + mset (map snd (retired ops)) = mset (map snd dels) + mset (map snd zs)"
      "\<forall>(t2, d)\<in>set dels. \<exists>t1. (t1, d) \<in> past \<union> set (retired [op]) \<union> set (retired ops) \<and> unat t1 + 64 < unat t2" by auto
  have "mset (map snd xs) + mset (map snd (retired (op # ops))) = mset (map snd (map (Pair (op_time op)) ds @ dels)) + mset (map snd zs)"
    using 1(4) 2(3) by (simp add: c comp_def) (metis (no_types, lifting) union_assoc)
  moreover have "\<forall>(t2, d)\<in>set (map (Pair (op_time op)) ds @ dels). \<exists>t1. (t1, d) \<in> past \<union> set (retired (op # ops)) \<and> unat t1 + 64 < unat t2"
    using 1(5) 2(4) by (auto simp: c)
  moreover have "rl_run new_node (op # ops) heap rl = Some (map (Pair (op_time op)) ds @ dels, heap2, rl2)" using 1(1) 2(1) by simp
  ultimately show ?case using 2(2) by blast
qed

text \<open>
  C39: Whatever sequence of \<open>retire\<close> and \<open>gc\<close> calls is made at non-decreasing times, every retired object is
  deleted at most once and is otherwise still in the list, where the destructor deletes it with its
  node; and no object is deleted before more than 64 seconds have passed since its retirement, despite the
  timestamp of only 16 bits.
\<close>

theorem retire_list_grace_period:
  assumes "new_node_spec n new_node" and "length (retired ops) \<le> n" and "sorted (map op_time ops)"
  shows "\<exists>dels heap rl pending. rl_run new_node ops (\<lambda>_. None) RetireList_new = Some (dels, heap, rl)
    \<and> mset (map snd (retired ops)) = mset (map snd dels) + mset pending \<and> RetireList_destroy heap rl = Some (pending, \<lambda>_. None)
    \<and> (\<forall>(t, d)\<in>set dels. \<exists>t0. (t0, d) \<in> set (retired ops) \<and> unat t0 + 64 < unat t)"
proof -
  have "stamped RetireList_new (map snd []) {} 0" by (simp add: stamped_def)
  from rl_run_step [OF assms(1) rl_inv_new this, of ops] assms(2,3) obtain dels heap rl ys where
    "rl_run new_node ops (\<lambda>_. None) RetireList_new = Some (dels, heap, rl)" "rl_inv heap rl ys"
    "mset (map snd (retired ops)) = mset (map snd dels) + mset (map snd ys)"
    "\<forall>(t, d)\<in>set dels. \<exists>t0. (t0, d) \<in> set (retired ops) \<and> unat t0 + 64 < unat t" by auto
  then show ?thesis using delete_list_inv [of heap rl ys] by (auto simp: RetireList_destroy_def)
qed

theorem retire_list_grace_period_witness:
  "\<exists>heap rl pending. rl_run (new_node_ref 9) [Retire 1000 ''a'', Retire 1100 ''b'', Gc 1150, Gc 1279, Retire 1300 ''c''] (\<lambda>_. None) RetireList_new =
      Some ([(1100, ''a''), (1279, ''b'')], heap, rl)
    \<and> mset [''a'', ''b'', ''c''] = mset [''a'', ''b''] + mset pending \<and> RetireList_destroy heap rl = Some (pending, \<lambda>_. None)"
proof -
  let ?ops = "[Retire 1000 ''a'', Retire 1100 ''b'', Gc 1150, Gc 1279, Retire 1300 ''c''] :: string rl_op list"
  have "new_node_spec 9 (new_node_ref 9 :: string nodes \<Rightarrow> u64)" by (rule new_node_ref_spec) simp
  from retire_list_grace_period [OF this, of ?ops] obtain dels heap rl pending where
    "rl_run (new_node_ref 9) ?ops (\<lambda>_. None) RetireList_new = Some (dels, heap, rl)"
    "mset [''a'', ''b'', ''c''] = mset (map snd dels) + mset pending" "RetireList_destroy heap rl = Some (pending, \<lambda>_. None)" by auto
  moreover have "map_option fst (rl_run (new_node_ref 9) ?ops (\<lambda>_. None) RetireList_new) = Some [(1100, ''a''), (1279, ''b'')]" 
    by code_simp
  ultimately show ?thesis by (intro exI [of _ heap] exI [of _ rl] exI [of _ pending]) simp
qed

end
