(* ===== verification/ConcurrentVector.thy ===== *)
theory ConcurrentVector
  imports RetireList Align
begin

text \<open>
  \<open>base/vector.h\<close> and \<open>base/vector.hpp\<close>: \<open>ConcurrentVector\<close>, an array in blocks of a power of two of elements, found
  through a table of block pointers that is replaced by a longer one when the vector grows.

  Blocks and tables are maps from addresses, which are natural numbers here since the code never computes
  with them; \<open>cm_fresh\<close> is the address the next \<open>operator new\<close> gives, and 0 is the static
  \<open>EMPTY_BLOCK_TABLE\<close>. A pointer not written yet is 0 too, where there is no block. \<open>None\<close> of the option monad is an access outside an
  allocation, a second deletion or a loop without end. A constructor is the value it leaves in the
  element; without one the element is \<open>zero\<close>, what \<open>memset\<close> leaves. Operations are those of one thread
  here, so the compare-exchange of the growth succeeds; threads that grow the vector at the same time are not modelled.
\<close>

section \<open>Block size\<close>

datatype Meta =
    DynamicMeta (dm_block_mask: u32) (dm_block_mask_bits: u32)
  | StaticMeta (sm_BLOCK_SIZE: u64)

definition builtin_popcount :: "u32 \<Rightarrow> u32" where
  "builtin_popcount w = of_nat (length (filter (bit w) [0..<32]))"

text \<open>The loop of \<open>DynamicMeta::set_block_size\<close>.\<close>

partial_function (option) set_block_size_loop :: "u64 \<Rightarrow> u32 \<Rightarrow> u32 \<Rightarrow> u32 \<Rightarrow> (u32 \<times> u32 \<times> u32) option" where
  "set_block_size_loop block_size_hint block_size block_mask bits =
     (if ucast block_size < block_size_hint
      then set_block_size_loop block_size_hint (push_bit 1 block_size) (push_bit 1 block_mask OR 1) (bits + 1)
      else Some (block_size, block_mask, bits))"

declare set_block_size_loop.simps [code]

fun set_block_size :: "u64 \<Rightarrow> Meta \<Rightarrow> (u64 \<times> Meta) option" where
  "set_block_size block_size_hint (DynamicMeta m b) = do {
     (block_size, block_mask, bits) \<leftarrow> set_block_size_loop block_size_hint 1 0 0;
     Some (ucast block_size, DynamicMeta block_mask bits) }"
| "set_block_size block_size_hint (StaticMeta B) = Some (B, StaticMeta B)"

fun Meta_block_size :: "Meta \<Rightarrow> u32" where
  "Meta_block_size (DynamicMeta m b) = m + 1"
| "Meta_block_size (StaticMeta B) = ucast B"

fun Meta_block_mask :: "Meta \<Rightarrow> u32" where
  "Meta_block_mask (DynamicMeta m b) = m"
| "Meta_block_mask (StaticMeta B) = ucast (B - 1)"

fun Meta_block_mask_bits :: "Meta \<Rightarrow> u32" where
  "Meta_block_mask_bits (DynamicMeta m b) = b"
| "Meta_block_mask_bits (StaticMeta B) = builtin_popcount (ucast (B - 1))"

fun Meta_block_index :: "Meta \<Rightarrow> u64 \<Rightarrow> u32" where
  "Meta_block_index (DynamicMeta m b) index = ucast (drop_bit (unat b) index)"
| "Meta_block_index (StaticMeta B) index = ucast (drop_bit (unat (builtin_popcount (ucast (B - 1)))) index)"

fun Meta_block_offset :: "Meta \<Rightarrow> u64 \<Rightarrow> u32" where
  "Meta_block_offset (DynamicMeta m b) index = ucast (index AND ucast m)"
| "Meta_block_offset (StaticMeta B) index = ucast (index AND (B - 1))"

section \<open>Memory\<close>

record 'a cmem =
  cm_blocks :: "nat \<rightharpoonup> 'a list"
  cm_tables :: "nat \<rightharpoonup> nat list"
  cm_nodes :: "nat nodes"
  cm_fresh :: nat

definition EMPTY_BLOCK_TABLE :: nat where "EMPTY_BLOCK_TABLE = 0"
definition DEFAULT_BLOCK_SIZE :: u64 where "DEFAULT_BLOCK_SIZE = 1024"

definition cmem0 :: "'a cmem" where
  "cmem0 = \<lparr>cm_blocks = (\<lambda>_. None), cm_tables = [EMPTY_BLOCK_TABLE \<mapsto> []], cm_nodes = (\<lambda>_. None), cm_fresh = 1\<rparr>"

record 'a ConcurrentVector =
  cv_meta :: Meta
  cv_constructor :: "'a option"
  cv_block_table :: nat
  cv_retire_list :: RetireList

text \<open>What the platform supplies: the zero element, the addresses of retired nodes and the clock.\<close>

record 'a cv_env =
  ev_zero :: 'a
  ev_new_node :: "nat nodes \<Rightarrow> u64"
  ev_tv_sec :: u64

text \<open>The allocation sizes; \<open>cacheline\<close> is \<open>FUXI_CACHELINE_SIZE\<close>, which depends on the architecture.\<close>

definition calculate_block_table_allocation_size :: "u64 \<Rightarrow> u64 \<Rightarrow> u64" where
  "calculate_block_table_allocation_size cacheline num = align_up (8 + 8 * num) cacheline"

definition block_alignment :: "u64 \<Rightarrow> u64 \<Rightarrow> u64" where
  "block_alignment cacheline alignof_T = (if cacheline < alignof_T then alignof_T else cacheline)"

definition calculate_block_allocation_size :: "u64 \<Rightarrow> u64 \<Rightarrow> u64 \<Rightarrow> Meta \<Rightarrow> u64" where
  "calculate_block_allocation_size cacheline sizeof_T alignof_T meta =
     align_up (sizeof_T * ucast (Meta_block_size meta)) (block_alignment cacheline alignof_T)"

definition create_block_table :: "nat \<Rightarrow> 'a cmem \<Rightarrow> nat \<times> 'a cmem" where
  "create_block_table num mem =
     (cm_fresh mem, mem\<lparr>cm_tables := (cm_tables mem)(cm_fresh mem \<mapsto> replicate num 0), cm_fresh := Suc (cm_fresh mem)\<rparr>)"

definition delete_block_table :: "nat \<Rightarrow> 'a cmem \<Rightarrow> 'a cmem option" where
  "delete_block_table block_table mem =
     (if block_table \<noteq> EMPTY_BLOCK_TABLE
      then do { _ \<leftarrow> cm_tables mem block_table; Some (mem\<lparr>cm_tables := (cm_tables mem)(block_table := None)\<rparr>) }
      else Some mem)"

text \<open>The deleter of the retire list, on each table it deletes.\<close>

fun delete_block_tables :: "nat list \<Rightarrow> 'a cmem \<Rightarrow> 'a cmem option" where
  "delete_block_tables [] mem = Some mem"
| "delete_block_tables (t # ts) mem = do { mem \<leftarrow> delete_block_table t mem; delete_block_tables ts mem }"

definition create_block :: "'a cv_env \<Rightarrow> 'a ConcurrentVector \<Rightarrow> 'a cmem \<Rightarrow> nat \<times> 'a cmem" where
  "create_block env v mem =
     (let x = (case cv_constructor v of Some x \<Rightarrow> x | None \<Rightarrow> ev_zero env)
      in (cm_fresh mem, mem\<lparr>cm_blocks := (cm_blocks mem)(cm_fresh mem \<mapsto> replicate (unat (Meta_block_size (cv_meta v))) x),
            cm_fresh := Suc (cm_fresh mem)\<rparr>))"

definition delete_block :: "nat \<Rightarrow> 'a cmem \<Rightarrow> 'a cmem option" where
  "delete_block block mem = do { _ \<leftarrow> cm_blocks mem block; Some (mem\<lparr>cm_blocks := (cm_blocks mem)(block := None)\<rparr>) }"

fun delete_blocks :: "nat list \<Rightarrow> 'a cmem \<Rightarrow> 'a cmem option" where
  "delete_blocks [] mem = Some mem"
| "delete_blocks (b # bs) mem = do { mem \<leftarrow> delete_block b mem; delete_blocks bs mem }"

section \<open>Growth\<close>

text \<open>\<open>for (i = block_num; i < expect_block_num; ++i) blocks[i] = create_block()\<close>\<close>

primrec create_blocks :: "'a cv_env \<Rightarrow> 'a ConcurrentVector \<Rightarrow> nat \<Rightarrow> nat \<Rightarrow> nat list \<Rightarrow> 'a cmem \<Rightarrow> (nat list \<times> 'a cmem) option" where
  "create_blocks env v i 0 blocks mem = Some (blocks, mem)"
| "create_blocks env v i (Suc n) blocks mem = do {
     let (b, mem) = create_block env v mem;
     blocks \<leftarrow> mem_write blocks i b;
     create_blocks env v (Suc i) n blocks mem }"

text \<open>The body of the loop up to the compare-exchange: the old pointers are copied and blocks created for the others.\<close>

definition fill_block_table :: "'a cv_env \<Rightarrow> 'a ConcurrentVector \<Rightarrow> nat \<Rightarrow> nat \<Rightarrow> nat \<Rightarrow> 'a cmem \<Rightarrow> 'a cmem option" where
  "fill_block_table env v block_table new_block_table expect_block_num mem = do {
     old \<leftarrow> cm_tables mem block_table;
     blocks \<leftarrow> cm_tables mem new_block_table;
     let block_num = length old;
     if length blocks < block_num then None
     else do {
       (blocks, mem) \<leftarrow> create_blocks env v block_num (expect_block_num - block_num) (old @ drop block_num blocks) mem;
       Some (mem\<lparr>cm_tables := (cm_tables mem)(new_block_table \<mapsto> blocks)\<rparr>) } }"

text \<open>The retirement of a table, with the tables it deletes.\<close>

definition retire_table :: "'a cv_env \<Rightarrow> nat \<Rightarrow> 'a ConcurrentVector \<Rightarrow> 'a cmem \<Rightarrow> ('a ConcurrentVector \<times> 'a cmem) option" where
  "retire_table env block_table v mem = do {
     (ts, nodes, rl) \<leftarrow> retire (ev_new_node env (cm_nodes mem)) (ev_tv_sec env) block_table (cm_nodes mem) (cv_retire_list v);
     mem \<leftarrow> delete_block_tables ts (mem\<lparr>cm_nodes := nodes\<rparr>);
     Some (v\<lparr>cv_retire_list := rl\<rparr>, mem) }"

definition get_qualified_block_table_slow ::
  "'a cv_env \<Rightarrow> nat \<Rightarrow> nat \<Rightarrow> 'a ConcurrentVector \<Rightarrow> 'a cmem \<Rightarrow> (nat \<times> 'a ConcurrentVector \<times> 'a cmem) option" where
  "get_qualified_block_table_slow env block_table expect_block_num v mem = do {
     let (new_block_table, mem) = create_block_table expect_block_num mem;
     mem \<leftarrow> fill_block_table env v block_table new_block_table expect_block_num mem;
     (v, mem) \<leftarrow> retire_table env block_table (v\<lparr>cv_block_table := new_block_table\<rparr>) mem;
     Some (new_block_table, v, mem) }"

definition get_qualified_block_table ::
  "'a cv_env \<Rightarrow> u64 \<Rightarrow> 'a ConcurrentVector \<Rightarrow> 'a cmem \<Rightarrow> (nat \<times> 'a ConcurrentVector \<times> 'a cmem) option" where
  "get_qualified_block_table env expect_block_num v mem = do {
     let block_table = cv_block_table v;
     blocks \<leftarrow> cm_tables mem block_table;
     if unat expect_block_num \<le> length blocks then Some (block_table, v, mem)
     else get_qualified_block_table_slow env block_table (unat expect_block_num) v mem }"

section \<open>Snapshots\<close>

record Snapshot =
  sn_meta :: Meta
  sn_block_table :: nat

definition Snapshot_size :: "Snapshot \<Rightarrow> 'a cmem \<Rightarrow> u64 option" where
  "Snapshot_size s mem = do {
     blocks \<leftarrow> cm_tables mem (sn_block_table s);
     Some (push_bit (unat (Meta_block_mask_bits (sn_meta s))) (of_nat (length blocks))) }"

text \<open>The address of an element: its block and its offset.\<close>

definition Snapshot_at :: "Snapshot \<Rightarrow> u64 \<Rightarrow> 'a cmem \<Rightarrow> (nat \<times> nat) option" where
  "Snapshot_at s index mem = do {
     blocks \<leftarrow> cm_tables mem (sn_block_table s);
     b \<leftarrow> mem_read blocks (unat (Meta_block_index (sn_meta s) index));
     Some (b, unat (Meta_block_offset (sn_meta s) index)) }"

definition read_at :: "nat \<times> nat \<Rightarrow> 'a cmem \<Rightarrow> 'a option" where
  "read_at p mem = do { xs \<leftarrow> cm_blocks mem (fst p); mem_read xs (snd p) }"

definition write_at :: "nat \<times> nat \<Rightarrow> 'a \<Rightarrow> 'a cmem \<Rightarrow> 'a cmem option" where
  "write_at p x mem = do {
     xs \<leftarrow> cm_blocks mem (fst p);
     xs \<leftarrow> mem_write xs (snd p) x;
     Some (mem\<lparr>cm_blocks := (cm_blocks mem)(fst p \<mapsto> xs)\<rparr>) }"

text \<open>A segment \<open>(b, i, j)\<close> is the range \<open>[b + i, b + j)\<close> the callback gets.\<close>

type_synonym segment = "nat \<times> nat \<times> nat"

partial_function (option) for_each_loop ::
  "(segment \<Rightarrow> 's \<Rightarrow> 's option) \<Rightarrow> nat list \<Rightarrow> u32 \<Rightarrow> u32 \<Rightarrow> u32 \<Rightarrow> u32 \<Rightarrow> u32 \<Rightarrow> 's \<Rightarrow> 's option" where
  "for_each_loop callback blocks block_size block_index block_offset end_block_index end_block_offset st =
     (if block_index \<noteq> end_block_index
      then do {
        b \<leftarrow> mem_read blocks (unat block_index);
        st \<leftarrow> callback (b, unat block_offset, unat block_size) st;
        for_each_loop callback blocks block_size (block_index + 1) 0 end_block_index end_block_offset st }
      else if block_offset \<noteq> end_block_offset
      then do {
        b \<leftarrow> mem_read blocks (unat block_index);
        callback (b, unat block_offset, unat end_block_offset) st }
      else Some st)"

declare for_each_loop.simps [code]

definition Snapshot_for_each :: "(segment \<Rightarrow> 's \<Rightarrow> 's option) \<Rightarrow> nat list \<Rightarrow> Meta \<Rightarrow> u64 \<Rightarrow> u64 \<Rightarrow> 's \<Rightarrow> 's option" where
  "Snapshot_for_each callback blocks meta from to st =
     for_each_loop callback blocks (Meta_block_size meta) (Meta_block_index meta from) (Meta_block_offset meta from)
       (Meta_block_index meta to) (Meta_block_offset meta to) st"

text \<open>\<open>std::fill\<close> and \<open>std::copy_n\<close> on a segment; the state of the copy is the source that is left.\<close>

definition write_range :: "nat \<Rightarrow> nat \<Rightarrow> 'a list \<Rightarrow> 'a cmem \<Rightarrow> 'a cmem option" where
  "write_range b i ys mem = do {
     xs \<leftarrow> cm_blocks mem b;
     if length xs < i + length ys then None
     else Some (mem\<lparr>cm_blocks := (cm_blocks mem)(b \<mapsto> take i xs @ ys @ drop (i + length ys) xs)\<rparr>) }"

definition fill_segment :: "'a \<Rightarrow> segment \<Rightarrow> 'a cmem \<Rightarrow> 'a cmem option" where
  "fill_segment x = (\<lambda>(b, i, j) mem. write_range b i (replicate (j - i) x) mem)"

definition copy_segment :: "segment \<Rightarrow> 'a list \<times> 'a cmem \<Rightarrow> ('a list \<times> 'a cmem) option" where
  "copy_segment = (\<lambda>(b, i, j) (src, mem).
     if length src < j - i then None
     else do { mem \<leftarrow> write_range b i (take (j - i) src) mem; Some (drop (j - i) src, mem) })"

definition Snapshot_fill_n :: "Snapshot \<Rightarrow> u64 \<Rightarrow> u64 \<Rightarrow> 'a \<Rightarrow> 'a cmem \<Rightarrow> 'a cmem option" where
  "Snapshot_fill_n s offset sz x mem = do {
     blocks \<leftarrow> cm_tables mem (sn_block_table s);
     Snapshot_for_each (fill_segment x) blocks (sn_meta s) offset (offset + sz) mem }"

definition Snapshot_copy_n :: "Snapshot \<Rightarrow> 'a list \<Rightarrow> u64 \<Rightarrow> u64 \<Rightarrow> 'a cmem \<Rightarrow> 'a cmem option" where
  "Snapshot_copy_n s src sz offset mem = do {
     blocks \<leftarrow> cm_tables mem (sn_block_table s);
     (_, mem) \<leftarrow> Snapshot_for_each copy_segment blocks (sn_meta s) offset (offset + sz) (src, mem);
     Some mem }"

section \<open>The vector\<close>

text \<open>\<open>meta\<close> is the \<open>_meta\<close> member before the constructor runs: for a dynamic block size it is uninitialised.\<close>

definition ConcurrentVector_construct :: "Meta \<Rightarrow> u64 \<Rightarrow> 'a option \<Rightarrow> 'a ConcurrentVector option" where
  "ConcurrentVector_construct meta block_size_hint constructor = do {
     (_, meta) \<leftarrow> set_block_size block_size_hint meta;
     (_, meta) \<leftarrow> set_block_size block_size_hint meta;
     Some \<lparr>cv_meta = meta, cv_constructor = constructor, cv_block_table = EMPTY_BLOCK_TABLE, cv_retire_list = RetireList_new\<rparr> }"

definition ConcurrentVector_swap :: "'a ConcurrentVector \<Rightarrow> 'a ConcurrentVector \<Rightarrow> 'a ConcurrentVector \<times> 'a ConcurrentVector" where
  "ConcurrentVector_swap this other =
     (let (rl, orl) = RetireList_move_construct (cv_retire_list this);
          (this_rl, other_rl) = RetireList_move_assign orl (cv_retire_list other);
          (other_rl, rl) = RetireList_move_assign other_rl rl
      in (this\<lparr>cv_meta := cv_meta other, cv_constructor := cv_constructor other, cv_block_table := cv_block_table other, cv_retire_list := this_rl\<rparr>,
          other\<lparr>cv_meta := cv_meta this, cv_constructor := cv_constructor this, cv_block_table := cv_block_table this, cv_retire_list := other_rl\<rparr>))"

text \<open>The move constructor; the pair is the new vector and \<open>other\<close>.\<close>

definition ConcurrentVector_move_construct :: "Meta \<Rightarrow> 'a ConcurrentVector \<Rightarrow> ('a ConcurrentVector \<times> 'a ConcurrentVector) option" where
  "ConcurrentVector_move_construct meta other = do {
     this \<leftarrow> ConcurrentVector_construct meta DEFAULT_BLOCK_SIZE (cv_constructor other);
     Some (ConcurrentVector_swap this other) }"

text \<open>The move assignment; the pair is \<open>this\<close> and \<open>other\<close>.\<close>

definition ConcurrentVector_move_assign :: "'a ConcurrentVector \<Rightarrow> 'a ConcurrentVector \<Rightarrow> 'a ConcurrentVector \<times> 'a ConcurrentVector" where
  "ConcurrentVector_move_assign this other = ConcurrentVector_swap this other"

definition cv_snapshot :: "'a ConcurrentVector \<Rightarrow> Snapshot" where
  "cv_snapshot v = \<lparr>sn_meta = cv_meta v, sn_block_table = cv_block_table v\<rparr>"

definition cv_size :: "'a ConcurrentVector \<Rightarrow> 'a cmem \<Rightarrow> u64 option" where
  "cv_size v mem = Snapshot_size (cv_snapshot v) mem"

definition cv_block_size :: "'a ConcurrentVector \<Rightarrow> u64" where
  "cv_block_size v = ucast (Meta_block_size (cv_meta v))"

definition cv_at :: "'a ConcurrentVector \<Rightarrow> u64 \<Rightarrow> 'a cmem \<Rightarrow> (nat \<times> nat) option" where
  "cv_at v index mem = Snapshot_at (cv_snapshot v) index mem"

definition reserved_snapshot :: "'a cv_env \<Rightarrow> u64 \<Rightarrow> 'a ConcurrentVector \<Rightarrow> 'a cmem \<Rightarrow> (Snapshot \<times> 'a ConcurrentVector \<times> 'a cmem) option" where
  "reserved_snapshot env sz v mem = do {
     (block_table, v, mem) \<leftarrow>
       get_qualified_block_table env (ucast (Meta_block_index (cv_meta v) (sz + ucast (Meta_block_mask (cv_meta v))))) v mem;
     Some (\<lparr>sn_meta = cv_meta v, sn_block_table = block_table\<rparr>, v, mem) }"

definition cv_reserve :: "'a cv_env \<Rightarrow> u64 \<Rightarrow> 'a ConcurrentVector \<Rightarrow> 'a cmem \<Rightarrow> ('a ConcurrentVector \<times> 'a cmem) option" where
  "cv_reserve env sz v mem = do {
     (_, v, mem) \<leftarrow>
       get_qualified_block_table env (ucast (Meta_block_index (cv_meta v) (sz + ucast (Meta_block_mask (cv_meta v))))) v mem;
     Some (v, mem) }"

text \<open>\<open>block_index + 1\<close> is computed with 32 bits.\<close>

definition cv_ensure :: "'a cv_env \<Rightarrow> u64 \<Rightarrow> 'a ConcurrentVector \<Rightarrow> 'a cmem \<Rightarrow> ((nat \<times> nat) \<times> 'a ConcurrentVector \<times> 'a cmem) option" where
  "cv_ensure env index v mem = do {
     let block_index = Meta_block_index (cv_meta v) index;
     (block_table, v, mem) \<leftarrow> get_qualified_block_table env (ucast (block_index + 1)) v mem;
     blocks \<leftarrow> cm_tables mem block_table;
     b \<leftarrow> mem_read blocks (unat block_index);
     Some ((b, unat (Meta_block_offset (cv_meta v) index)), v, mem) }"

definition cv_fill_n :: "'a cv_env \<Rightarrow> u64 \<Rightarrow> u64 \<Rightarrow> 'a \<Rightarrow> 'a ConcurrentVector \<Rightarrow> 'a cmem \<Rightarrow> ('a ConcurrentVector \<times> 'a cmem) option" where
  "cv_fill_n env offset sz x v mem = do {
     (s, v, mem) \<leftarrow> reserved_snapshot env (offset + sz) v mem;
     mem \<leftarrow> Snapshot_fill_n s offset sz x mem;
     Some (v, mem) }"

definition cv_copy_n :: "'a cv_env \<Rightarrow> 'a list \<Rightarrow> u64 \<Rightarrow> u64 \<Rightarrow> 'a ConcurrentVector \<Rightarrow> 'a cmem \<Rightarrow> ('a ConcurrentVector \<times> 'a cmem) option" where
  "cv_copy_n env src sz offset v mem = do {
     (s, v, mem) \<leftarrow> reserved_snapshot env (offset + sz) v mem;
     mem \<leftarrow> Snapshot_copy_n s src sz offset mem;
     Some (v, mem) }"

text \<open>The two forms of \<open>for_each\<close>; the callback only sees the segments, its state is its own.\<close>

definition cv_for_each ::
  "'a cv_env \<Rightarrow> u64 \<Rightarrow> u64 \<Rightarrow> (segment \<Rightarrow> 's \<Rightarrow> 's option) \<Rightarrow> 's \<Rightarrow> 'a ConcurrentVector \<Rightarrow> 'a cmem \<Rightarrow> ('s \<times> 'a ConcurrentVector \<times> 'a cmem) option" where
  "cv_for_each env from to callback st v mem = do {
     (s, v, mem) \<leftarrow> reserved_snapshot env to v mem;
     blocks \<leftarrow> cm_tables mem (sn_block_table s);
     st \<leftarrow> Snapshot_for_each callback blocks (sn_meta s) from to st;
     Some (st, v, mem) }"

definition cv_for_each_const :: "u64 \<Rightarrow> u64 \<Rightarrow> (segment \<Rightarrow> 's \<Rightarrow> 's option) \<Rightarrow> 's \<Rightarrow> 'a ConcurrentVector \<Rightarrow> 'a cmem \<Rightarrow> 's option" where
  "cv_for_each_const from to callback st v mem = do {
     blocks \<leftarrow> cm_tables mem (cv_block_table v);
     Snapshot_for_each callback blocks (cv_meta v) from to st }"

text \<open>\<open>set_constructor\<close> destroys and constructs the elements that are there.\<close>

definition set_constructor :: "'a cv_env \<Rightarrow> 'a option \<Rightarrow> 'a ConcurrentVector \<Rightarrow> 'a cmem \<Rightarrow> ('a ConcurrentVector \<times> 'a cmem) option" where
  "set_constructor env constructor v mem = do {
     let v = v\<lparr>cv_constructor := constructor\<rparr>;
     case constructor of
       None \<Rightarrow> Some (v, mem)
     | Some x \<Rightarrow> do {
         sz \<leftarrow> cv_size v mem;
         cv_fill_n env 0 sz x v mem } }"

definition cv_gc :: "'a cv_env \<Rightarrow> 'a ConcurrentVector \<Rightarrow> 'a cmem \<Rightarrow> ('a ConcurrentVector \<times> 'a cmem) option" where
  "cv_gc env v mem = do {
     (ts, nodes, rl) \<leftarrow> gc (ev_tv_sec env) (cm_nodes mem) (cv_retire_list v);
     mem \<leftarrow> delete_block_tables ts (mem\<lparr>cm_nodes := nodes\<rparr>);
     Some (v\<lparr>cv_retire_list := rl\<rparr>, mem) }"

definition cv_unsafe_gc :: "'a ConcurrentVector \<Rightarrow> 'a cmem \<Rightarrow> ('a ConcurrentVector \<times> 'a cmem) option" where
  "cv_unsafe_gc v mem = do {
     (ts, nodes, rl) \<leftarrow> unsafe_gc (cm_nodes mem) (cv_retire_list v);
     mem \<leftarrow> delete_block_tables ts (mem\<lparr>cm_nodes := nodes\<rparr>);
     Some (v\<lparr>cv_retire_list := rl\<rparr>, mem) }"

definition ConcurrentVector_destroy :: "'a ConcurrentVector \<Rightarrow> 'a cmem \<Rightarrow> 'a cmem option" where
  "ConcurrentVector_destroy v mem = do {
     blocks \<leftarrow> cm_tables mem (cv_block_table v);
     mem \<leftarrow> delete_blocks blocks mem;
     mem \<leftarrow> delete_block_table (cv_block_table v) mem;
     (_, mem) \<leftarrow> cv_unsafe_gc v mem;
     Some mem }"

end
