(* ===== verification/ConcurrentVectorSpec.thy ===== *)
theory ConcurrentVectorSpec
  imports ConcurrentVector "HOL-Library.Sublist"
begin

text \<open>
  What the operations of \<open>ConcurrentVector\<close> do: the arithmetic of the block size, the walk over segments, and the growth,
  which keeps the address and the value of every element.
\<close>

section \<open>Block size\<close>

text \<open>\<open>meta_ok m k\<close>: blocks of \<open>2 ^ k\<close> elements.\<close>

definition meta_ok :: "Meta \<Rightarrow> nat \<Rightarrow> bool" where
  "meta_ok m k \<longleftrightarrow> k < 32 \<and> (case m of DynamicMeta bm bits \<Rightarrow> bm = 2 ^ k - 1 \<and> bits = of_nat k | StaticMeta B \<Rightarrow> B = 2 ^ k)"

lemma popcount_mask:
  assumes "k \<le> 32"
  shows "builtin_popcount (mask k) = of_nat k"
proof -
  have "filter (bit (mask k :: u32)) [0..<32] = filter (\<lambda>i. i < k) [0..<32]" by (rule filter_cong) (auto simp: bit_simps)
  also have "\<dots> = [0..<k]" using assms upt_add_eq_append [of 0 k "32 - k"] by (simp add: filter_id_conv filter_empty_conv)
  finally show ?thesis by (simp add: builtin_popcount_def)
qed

lemma ucast_pow2_minus_1: "k < 32 \<Longrightarrow> ucast (2 ^ k - 1 :: u64) = (2 ^ k - 1 :: u32)"
  unfolding mask_eq_exp_minus_1 [symmetric] by (rule bit_word_eqI) (auto simp: bit_simps)

lemma ucast_pow2_minus_1_up: "k < 32 \<Longrightarrow> ucast (2 ^ k - 1 :: u32) = (2 ^ k - 1 :: u64)"
  unfolding mask_eq_exp_minus_1 [symmetric] by (rule bit_word_eqI) (auto simp: bit_simps)

lemma meta_simps:
  assumes "meta_ok m k"
  shows "unat (Meta_block_size m) = 2 ^ k" and "Meta_block_mask m = 2 ^ k - 1" and "unat (Meta_block_mask_bits m) = k"
    and "unat (Meta_block_index m i) = unat i div 2 ^ k mod 2 ^ 32" and "unat (Meta_block_offset m i) = unat i mod 2 ^ k"
proof -
  have k: "k < 32" using assms by (simp add: meta_ok_def)
  have p: "unat (of_nat k :: u32) = k" using k by (intro unat_of_nat_small) simp
  have pc: "builtin_popcount (2 ^ k - 1) = of_nat k" using popcount_mask [of k] k by (simp add: mask_eq_exp_minus_1)
  have s: "unat (2 ^ k :: u32) = 2 ^ k" using k by (simp add: unat_pow2)
  have lt: "(2::nat) ^ k < 2 ^ 32" using k by (rule power_strict_increasing) simp
  have c: "ucast (2 ^ k :: u64) = (2 ^ k :: u32)"
    using k mod_less [OF lt] unfolding word_unat_eq_iff unat_ucast_mod by (simp add: unat_pow2)
  have m: "unat (i AND (2 ^ k - 1)) mod 2 ^ 32 = unat i mod 2 ^ k"
    unfolding unat_simps using less_trans [OF mod_less_divisor lt, of "unat i"] by simp
  show "unat (Meta_block_size m) = 2 ^ k" and "Meta_block_mask m = 2 ^ k - 1" and "unat (Meta_block_mask_bits m) = k"
    using assms k p pc s c by (auto simp: meta_ok_def ucast_pow2_minus_1 split: Meta.splits)
  show "unat (Meta_block_index m i) = unat i div 2 ^ k mod 2 ^ 32"
    using assms k p pc by (auto simp: meta_ok_def ucast_pow2_minus_1 unat_ucast_mod unsigned_drop_bit_eq drop_bit_eq_div unat_div unat_pow2 split: Meta.splits)
  show "unat (Meta_block_offset m i) = unat i mod 2 ^ k"
    using assms k m by (auto simp: meta_ok_def ucast_pow2_minus_1_up unat_ucast_mod split: Meta.splits)
qed

text \<open>The loop of \<open>set_block_size\<close> goes up the powers of two.\<close>

lemma set_block_size_loop_power:
  "unat hint \<le> 2 ^ (j + n) \<Longrightarrow> \<forall>i<j + n. 2 ^ i < unat hint \<Longrightarrow> j + n < 32 \<Longrightarrow>
   set_block_size_loop hint (2 ^ j) (2 ^ j - 1) (of_nat j) = Some (2 ^ (j + n), 2 ^ (j + n) - 1, of_nat (j + n))"
proof (induction n arbitrary: j)
  case 0
  then have "\<not> ucast (2 ^ j :: u32) < hint"
    by (simp add: word_less_nat_alt unat_ucast_up unat_pow2)
  then show ?case by (simp add: set_block_size_loop.simps)
next
  case (Suc n)
  have lt: "ucast (2 ^ j :: u32) < hint" using Suc.prems(2,3) by (simp add: word_less_nat_alt unat_ucast_up unat_pow2)
  have m: "push_bit 1 (2 ^ j - 1 :: u32) OR 1 = 2 ^ Suc j - 1"
    unfolding mask_eq_exp_minus_1 [symmetric]
    by (rule bit_word_eqI) (simp only: bit_or_iff bit_push_bit_iff bit_mask_iff bit_1_iff possible_bit_word, auto)
  have "set_block_size_loop hint (2 ^ Suc j) (2 ^ Suc j - 1) (of_nat (Suc j)) = Some (2 ^ (j + Suc n), 2 ^ (j + Suc n) - 1, of_nat (j + Suc n))"
    using Suc.IH [of "Suc j"] Suc.prems by simp
  then show ?case using lt m by (subst set_block_size_loop.simps) (simp add: push_bit_eq_mult add.commute mult.commute)
qed

lemma set_block_size_loop_0:
  assumes "0 < hint"
  shows "set_block_size_loop hint 0 bm bits = None"
proof (rule ccontr)
  assume "set_block_size_loop hint 0 bm bits \<noteq> None"
  then obtain r where r: "set_block_size_loop hint 0 bm bits = Some r" by auto
  have "\<forall>hint bs bm bits r. set_block_size_loop hint bs bm bits = Some r \<longrightarrow> bs = 0 \<longrightarrow> 0 < hint \<longrightarrow> False" 
    by (intro allI impI, erule set_block_size_loop.raw_induct [rotated -1, where P = "\<lambda>hint bs bm bits r. bs = 0 \<longrightarrow> 0 < hint \<longrightarrow> False", THEN mp, THEN mp])
      (auto split: if_splits)
  then show False using r assms by blast
qed

lemma push_bit_2_31: "push_bit 1 (2 ^ 31 :: u32) = 0"
  by code_simp

lemma set_block_size_loop_diverges:
  "\<forall>i\<le>31. 2 ^ i < unat hint \<Longrightarrow> n \<le> 31 \<Longrightarrow> set_block_size_loop hint (2 ^ (31 - n)) bm bits = None"
proof (induction n arbitrary: bm bits)
  case 0
  have lt: "ucast (2 ^ 31 :: u32) < hint" using 0(1) [rule_format, of 31] by (simp add: word_less_nat_alt unat_ucast_up)
  have "0 < hint" using 0(1) [rule_format, of 0] by (simp add: word_less_nat_alt)
  from set_block_size_loop_0 [OF this] have z: "set_block_size_loop hint (push_bit 1 (2 ^ 31)) (push_bit 1 bm OR 1) (bits + 1) = None"
    by (simp only: push_bit_2_31)
  show ?case unfolding diff_zero by (subst set_block_size_loop.simps, unfold z) (use lt in simp)
next
  case (Suc n)
  have "unat (ucast (2 ^ (31 - Suc n) :: u32) :: u64) = 2 ^ (31 - Suc n)" by (simp add: unat_ucast_up unat_pow2)
  then have lt: "ucast (2 ^ (31 - Suc n) :: u32) < hint" using Suc.prems by (simp add: word_less_nat_alt)
  have "31 - n = Suc (31 - Suc n)" using Suc.prems(2) by simp
  then have "push_bit 1 (2 ^ (31 - Suc n) :: u32) = 2 ^ (31 - n)" by (simp only: push_bit_eq_mult power_Suc) simp
  then show ?case using lt Suc by (subst set_block_size_loop.simps) simp
qed

text \<open>
  C40: \<open>set_block_size\<close> of a vector with a run-time block size ends exactly for hints up to \<open>2^31\<close>, with the least
  power of two that is not below the hint; for a larger hint the 32 bit block size becomes 0 and the loop never ends.
\<close>

theorem set_block_size_terminates:
  "if unat hint \<le> 2 ^ 31
   then \<exists>k\<le>31. set_block_size hint (DynamicMeta m b) = Some (2 ^ k, DynamicMeta (2 ^ k - 1) (of_nat k)) \<and> unat hint \<le> 2 ^ k
     \<and> (unat hint \<le> 2 ^ (k - 1) \<longleftrightarrow> k = 0)
   else set_block_size hint (DynamicMeta m b) = None"
proof (cases "unat hint \<le> 2 ^ 31")
  case True
  define k where "k = (LEAST k. unat hint \<le> 2 ^ k)"
  have k: "unat hint \<le> 2 ^ k" "k \<le> 31"
    unfolding k_def using LeastI [of "\<lambda>k. unat hint \<le> 2 ^ k", OF True] Least_le [of "\<lambda>k. unat hint \<le> 2 ^ k", OF True] by simp_all
  have min: "2 ^ i < unat hint" if "i < k" for i using not_less_Least that unfolding k_def by (metis not_le)
  have c: "(ucast (2 ^ k :: u32) :: u64) = 2 ^ k" using k(2) by (simp add: word_unat_eq_iff unat_ucast_up unat_pow2)
  have "set_block_size_loop hint 1 0 0 = Some (2 ^ k, 2 ^ k - 1, of_nat k)"
    using set_block_size_loop_power [of hint 0 k] k min by simp
  then have "set_block_size hint (DynamicMeta m b) = Some (2 ^ k, DynamicMeta (2 ^ k - 1) (of_nat k))" using c by simp
  moreover have "unat hint \<le> 2 ^ (k - 1) \<longleftrightarrow> k = 0" using k(1) min [of "k - 1"] by (cases k) auto
  ultimately show ?thesis using True k by auto
next
  case False
  have "\<forall>i\<le>31. 2 ^ i < unat hint"
  proof (intro allI impI)
    fix i :: nat
    assume "i \<le> 31"
    then have "(2::nat) ^ i \<le> 2 ^ 31" by (rule power_increasing) simp
    then show "2 ^ i < unat hint" using False by simp
  qed
  from set_block_size_loop_diverges [OF this, of 31 0 0] False show ?thesis by simp
qed

section \<open>Walking over segments\<close>

text \<open>
  The loop hands its callback the elements from \<open>from\<close> to \<open>to\<close> in order, in segments that lie in one block: an invariant \<open>I\<close> of
  the number of elements seen that every segment advances holds for \<open>to\<close> at the end.
\<close>

lemma for_each_loop_rule:
  assumes n: "length tab < 2 ^ 32" and t: "t \<le> length tab * 2 ^ k" and k: "k < 32" and bs: "unat bs = 2 ^ k"
    and step: "\<And>i p q s. i < length tab \<Longrightarrow> p < q \<Longrightarrow> q \<le> 2 ^ k \<Longrightarrow> f \<le> i * 2 ^ k + p \<Longrightarrow> i * 2 ^ k + q \<le> t \<Longrightarrow> I (i * 2 ^ k + p) s \<Longrightarrow>
      \<exists>s'. cb (tab ! i, p, q) s = Some s' \<and> I (i * 2 ^ k + q) s'"
  shows "f \<le> i * 2 ^ k + p \<Longrightarrow> i * 2 ^ k + p \<le> t \<Longrightarrow> p < 2 ^ k \<Longrightarrow> I (i * 2 ^ k + p) s \<Longrightarrow>
    \<exists>s'. for_each_loop cb tab bs (of_nat i) (of_nat p) (of_nat (t div 2 ^ k)) (of_nat (t mod 2 ^ k)) s = Some s' \<and> I t s'"
proof (induction "t div 2 ^ k - i" arbitrary: i p s)
  case 0
  have B: "(0::nat) < 2 ^ k" "(2::nat) ^ k < 2 ^ 32" using k by (simp, intro power_strict_increasing) simp_all
  have te: "t div 2 ^ k * 2 ^ k + t mod 2 ^ k = t" by (rule div_mult_mod_eq)
  have "i \<le> t div 2 ^ k" using 0(3) B by (metis add_leD1 div_le_mono div_mult_self_is_m)
  then have i: "i = t div 2 ^ k" using 0(1) by simp
  then have pq: "p \<le> t mod 2 ^ k" using 0(3) te by simp
  have q: "t mod 2 ^ k < 2 ^ k" using B by simp
  have u: "unat (of_nat p :: u32) = p" "unat (of_nat (t mod 2 ^ k) :: u32) = t mod 2 ^ k"
    using less_trans [OF 0(4) B(2)] less_trans [OF q B(2)] by (simp_all only: unat_of_nat_small len_of_numeral_defs len_bit0 len_bit1 len_num1 | simp add: unat_of_nat_small)+
  show ?case
  proof (cases "p = t mod 2 ^ k")
    case True
    then show ?thesis using 0(5) i te by (subst for_each_loop.simps) simp
  next
    case False
    then have ne: "(of_nat p :: u32) \<noteq> of_nat (t mod 2 ^ k)" using u by metis
    have "i < length tab"
    proof (rule ccontr)
      assume "\<not> i < length tab"
      then have "length tab * 2 ^ k \<le> i * 2 ^ k" by simp
      then show False using te t False pq unfolding i by linarith
    qed
    moreover have "unat (of_nat i :: u32) = i" using n calculation by (intro unat_of_nat_small) simp
    moreover obtain s' where "cb (tab ! i, p, t mod 2 ^ k) s = Some s'" "I t s'"
      using step [of i p "t mod 2 ^ k" s] calculation(1) False pq q 0(2,5) te i by auto
    ultimately show ?thesis using i ne u by (subst for_each_loop.simps) (simp add: mem_read_def)
  qed
next
  case (Suc d)
  have B: "(0::nat) < 2 ^ k" "(2::nat) ^ k < 2 ^ 32" using k by (simp, intro power_strict_increasing) simp_all
  have le: "Suc i \<le> t div 2 ^ k" using Suc(2) by simp
  then have st: "Suc i * 2 ^ k \<le> t" using B by (metis div_le_mono div_times_less_eq_dividend le_trans mult_le_mono1)
  have il: "i < length tab" using le t B by (metis Suc_le_eq div_le_mono div_mult_self_is_m le_trans)
  have tl: "t div 2 ^ k < 2 ^ 32" using t n B by (metis div_le_mono div_mult_self_is_m le_less_trans)
  have u: "unat (of_nat i :: u32) = i" "unat (of_nat p :: u32) = p" "unat (of_nat (t div 2 ^ k) :: u32) = t div 2 ^ k"
    using il n Suc(5) B tl by (auto intro!: unat_of_nat_small)
  have ne: "(of_nat i :: u32) \<noteq> of_nat (t div 2 ^ k)" using u le by (metis Suc_n_not_le_n)
  obtain s' where s': "cb (tab ! i, p, 2 ^ k) s = Some s'" "I (i * 2 ^ k + 2 ^ k) s'"
    using step [of i p "2 ^ k" s] il Suc(3,5,6) st by auto
  have "\<exists>s''. for_each_loop cb tab bs (of_nat (Suc i)) (of_nat 0) (of_nat (t div 2 ^ k)) (of_nat (t mod 2 ^ k)) s' = Some s'' \<and> I t s''"
    using Suc(2,3,5) st s'(2) B by (intro Suc(1)) (auto simp: add.commute)
  then show ?case using il ne u s' bs by (subst for_each_loop.simps) (simp add: mem_read_def add.commute)
qed

lemma Snapshot_for_each_rule:
  assumes m: "meta_ok meta k" and n: "length tab < 2 ^ 32" and t: "unat to \<le> length tab * 2 ^ k" and f: "unat from \<le> unat to"
    and init: "I (unat from) s"
    and step: "\<And>i p q s. i < length tab \<Longrightarrow> p < q \<Longrightarrow> q \<le> 2 ^ k \<Longrightarrow> unat from \<le> i * 2 ^ k + p \<Longrightarrow> i * 2 ^ k + q \<le> unat to \<Longrightarrow> I (i * 2 ^ k + p) s \<Longrightarrow>
      \<exists>s'. cb (tab ! i, p, q) s = Some s' \<and> I (i * 2 ^ k + q) s'"
  shows "\<exists>s'. Snapshot_for_each cb tab meta from to s = Some s' \<and> I (unat to) s'"
proof -
  have k: "k < 32" using m by (simp add: meta_ok_def)
  have div: "unat w div 2 ^ k < 2 ^ 32" if "unat w \<le> unat to" for w :: u64
  proof -
    have "unat w div 2 ^ k \<le> length tab * 2 ^ k div 2 ^ k" using that t by (intro div_le_mono) simp
    then show ?thesis using n by simp
  qed
  have idx: "Meta_block_index meta w = of_nat (unat w div 2 ^ k)" if "unat w \<le> unat to" for w
    using meta_simps(4) [OF m, of w] mod_less [OF div [OF that]] by (metis of_nat_unat ucast_id)
  have off: "Meta_block_offset meta w = of_nat (unat w mod 2 ^ k)" for w
    using meta_simps(5) [OF m, of w] by (metis of_nat_unat ucast_id)
  have "\<exists>s'. for_each_loop cb tab (Meta_block_size meta) (of_nat (unat from div 2 ^ k)) (of_nat (unat from mod 2 ^ k))
      (of_nat (unat to div 2 ^ k)) (of_nat (unat to mod 2 ^ k)) s = Some s' \<and> I (unat to) s'"
    using f init by (intro for_each_loop_rule [OF n t k meta_simps(1) [OF m], where f = "unat from"] step) (simp_all add: div_mult_mod_eq)
  then show ?thesis unfolding Snapshot_for_each_def using idx [OF f] idx [OF order_refl] off by simp
qed

section \<open>Growth\<close>

lemma create_blocks_result:
  fixes env v
  defines "x \<equiv> (case cv_constructor v of Some x \<Rightarrow> x | None \<Rightarrow> ev_zero env)" and "B \<equiv> unat (Meta_block_size (cv_meta v))"
  shows "i + n \<le> length bl \<Longrightarrow> create_blocks env v i n bl mem =
    Some (take i bl @ [cm_fresh mem..<cm_fresh mem + n] @ drop (i + n) bl,
      mem\<lparr>cm_blocks := (\<lambda>b. if cm_fresh mem \<le> b \<and> b < cm_fresh mem + n then Some (replicate B x) else cm_blocks mem b), cm_fresh := cm_fresh mem + n\<rparr>)"
proof (induction n arbitrary: i bl mem)
  case 0
  have "(\<lambda>b. if cm_fresh mem \<le> b \<and> b < cm_fresh mem + 0 then Some (replicate B x) else cm_blocks mem b) = cm_blocks mem" by (rule ext) auto
  with 0 show ?case by simp
next
  case (Suc n)
  let ?f = "cm_fresh mem"
  let ?mem = "mem\<lparr>cm_blocks := (cm_blocks mem)(?f \<mapsto> replicate B x), cm_fresh := Suc ?f\<rparr>"
  have "create_blocks env v i (Suc n) bl mem = create_blocks env v (Suc i) n (bl[i := ?f]) ?mem"
    using Suc.prems by (simp add: create_block_def mem_write_def x_def B_def)
  also have "\<dots> = Some (take (Suc i) (bl[i := ?f]) @ [Suc ?f..<Suc ?f + n] @ drop (Suc i + n) (bl[i := ?f]),
      ?mem\<lparr>cm_blocks := (\<lambda>b. if Suc ?f \<le> b \<and> b < Suc ?f + n then Some (replicate B x) else cm_blocks ?mem b), cm_fresh := Suc ?f + n\<rparr>)"
    using Suc.IH [of "Suc i" "bl[i := ?f]" ?mem] Suc.prems by simp
  also have "take (Suc i) (bl[i := ?f]) @ [Suc ?f..<Suc ?f + n] @ drop (Suc i + n) (bl[i := ?f]) =
      take i bl @ [?f..<?f + Suc n] @ drop (i + Suc n) bl"
    using Suc.prems by (simp add: take_Suc_conv_app_nth upt_conv_Cons del: upt_Suc)
  finally show ?case by (auto simp: fun_eq_iff less_Suc_eq_le Suc_le_eq)
qed

lemma delete_block_tables_result:
  "distinct ts \<Longrightarrow> set ts \<subseteq> dom (cm_tables mem) \<Longrightarrow>
   delete_block_tables ts mem = Some (mem\<lparr>cm_tables := cm_tables mem |` (- (set ts - {0}))\<rparr>)"
proof (induction ts arbitrary: mem)
  case Nil
  then show ?case by (cases mem) simp
next
  case (Cons t ts)
  show ?case
  proof (cases "t = 0")
    case True
    then have "- (set (t # ts) - {0}) = - (set ts - {0})" by auto
    moreover have "delete_block_tables (t # ts) mem = delete_block_tables ts mem" using True by (simp add: delete_block_table_def EMPTY_BLOCK_TABLE_def)
    ultimately show ?thesis using Cons.IH [of mem] Cons.prems by (simp only: distinct.simps list.set insert_subset)
  next
    case False
    obtain bl where bl: "cm_tables mem t = Some bl" using Cons.prems by auto
    let ?mem = "mem\<lparr>cm_tables := (cm_tables mem)(t := None)\<rparr>"
    have "set ts \<subseteq> dom (cm_tables ?mem)" using Cons.prems by auto
    then have "delete_block_tables ts ?mem = Some (?mem\<lparr>cm_tables := cm_tables ?mem |` (- (set ts - {0}))\<rparr>)" using Cons by simp
    moreover have "(cm_tables mem)(t := None) |` (- (set ts - {0})) = cm_tables mem |` (- (insert t (set ts) - {0}))"
      using False by (auto simp: restrict_map_def fun_eq_iff)
    ultimately show ?thesis using False bl by (simp add: delete_block_table_def EMPTY_BLOCK_TABLE_def)
  qed
qed

text \<open>
  The invariant: \<open>tab\<close> is the table, \<open>R\<close> the retired tables with their nodes. The blocks in memory are exactly those of the
  table and the tables in memory exactly the current one, the retired ones and the empty one: nothing leaks.
\<close>

definition cv_inv :: "nat \<Rightarrow> nat list \<Rightarrow> (u64 \<times> nat) list \<Rightarrow> 'a ConcurrentVector \<Rightarrow> 'a cmem \<Rightarrow> bool" where
  "cv_inv k tab R v mem \<longleftrightarrow> meta_ok (cv_meta v) k \<and> length tab < 2 ^ 32 \<and>
     cm_tables mem (cv_block_table v) = Some tab \<and> cm_tables mem 0 = Some [] \<and>
     dom (cm_tables mem) = insert 0 (insert (cv_block_table v) (snd ` set R)) \<and> (\<forall>t\<in>dom (cm_tables mem). t < cm_fresh mem) \<and>
     distinct tab \<and> dom (cm_blocks mem) = set tab \<and> (\<forall>b\<in>set tab. b < cm_fresh mem) \<and>
     (\<forall>b xs. cm_blocks mem b = Some xs \<longrightarrow> length xs = 2 ^ k) \<and>
     rl_inv (cm_nodes mem) (cv_retire_list v) R \<and> distinct (map snd R) \<and> cv_block_table v \<notin> snd ` set R"

definition new_value :: "'a cv_env \<Rightarrow> 'a ConcurrentVector \<Rightarrow> 'a" where
  "new_value env v = (case cv_constructor v of Some x \<Rightarrow> x | None \<Rightarrow> ev_zero env)"

text \<open>What a growth to \<open>m\<close> blocks leaves of the vector: old blocks with their contents in front, new ones behind.\<close>

definition grown :: "nat \<Rightarrow> 'a \<Rightarrow> nat list \<Rightarrow> nat list \<Rightarrow> 'a cmem \<Rightarrow> 'a cmem \<Rightarrow> bool" where
  "grown k x tab tab' mem mem' \<longleftrightarrow> prefix tab tab' \<and> (\<forall>b\<in>set tab. cm_blocks mem' b = cm_blocks mem b) \<and>
     (\<forall>b\<in>set tab' - set tab. cm_blocks mem' b = Some (replicate (2 ^ k) x))"

lemma retire_table_ok:
  assumes rl: "rl_inv (cm_nodes mem) (cv_retire_list v) R" and new: "new_node_spec N (ev_new_node env)" and N: "length R < N"
    and R: "distinct (map snd R)" "snd ` set R \<subseteq> dom (cm_tables mem)"
  shows "\<exists>nodes rl R' ds. retire_table env bt v mem =
      Some (v\<lparr>cv_retire_list := rl\<rparr>, mem\<lparr>cm_nodes := nodes, cm_tables := cm_tables mem |` (- (ds - {0}))\<rparr>)
    \<and> rl_inv nodes rl R' \<and> (ds = {} \<and> map snd R' = bt # map snd R \<or> ds = snd ` set R \<and> map snd R' = [bt])"
proof -
  let ?a = "ev_new_node env (cm_nodes mem)" and ?e = "expire (rl_head (cv_retire_list v)) (get_current_timestamp (ev_tv_sec env))"
  have "card (dom (cm_nodes mem)) = length R" using rl distinct_card [of "map fst R"] by (simp add: rl_inv_def)
  then have a: "cm_nodes mem ?a = None" "?a \<noteq> 0" "unat ?a < 2 ^ 48" using new N by (auto simp: new_node_spec_def)
  from retire_inv [OF rl a, of "ev_tv_sec env" bt] obtain nodes rl' where
    r: "retire ?a (ev_tv_sec env) bt (cm_nodes mem) (cv_retire_list v) = Some (if ?e then map snd R else [], nodes, rl')"
      "rl_inv nodes rl' ((?a, bt) # (if ?e then [] else R))" by blast
  let ?ts = "if ?e then map snd R else []"
  have "delete_block_tables ?ts (mem\<lparr>cm_nodes := nodes\<rparr>) = Some (mem\<lparr>cm_nodes := nodes, cm_tables := cm_tables mem |` (- (set ?ts - {0}))\<rparr>)"
    using R delete_block_tables_result [of ?ts "mem\<lparr>cm_nodes := nodes\<rparr>"] by (cases ?e) auto
  then have "retire_table env bt v mem =
      Some (v\<lparr>cv_retire_list := rl'\<rparr>, mem\<lparr>cm_nodes := nodes, cm_tables := cm_tables mem |` (- (set ?ts - {0}))\<rparr>)"
    using r(1) by (simp add: retire_table_def)
  moreover have "(set ?ts = {} \<and> map snd ((?a, bt) # (if ?e then [] else R)) = bt # map snd R) \<or>
      (set ?ts = snd ` set R \<and> map snd ((?a, bt) # (if ?e then [] else R)) = [bt])" by simp
  ultimately show ?thesis using r(2)
    by (intro exI [of _ nodes] exI [of _ rl'] exI [of _ "(?a, bt) # (if ?e then [] else R)"] exI [of _ "set ?ts"]) simp
qed

text \<open>The table that is published, before the old one is retired.\<close>

lemma fill_block_table_ok:
  assumes inv: "cv_inv k tab R v mem" and m: "length tab < m"
  defines "f \<equiv> cm_fresh mem" and "tab' \<equiv> tab @ [Suc (cm_fresh mem)..<Suc (cm_fresh mem) + (m - length tab)]"
  shows "\<exists>mem'. fill_block_table env v (cv_block_table v) f m (snd (create_block_table m mem)) = Some mem'
    \<and> mem' = mem\<lparr>cm_blocks := (\<lambda>b. if f < b \<and> b < Suc f + (m - length tab) then Some (replicate (2 ^ k) (new_value env v)) else cm_blocks mem b),
        cm_tables := (cm_tables mem)(f \<mapsto> tab'), cm_fresh := Suc f + (m - length tab)\<rparr>"
proof -
  have bs: "unat (Meta_block_size (cv_meta v)) = 2 ^ k" using inv meta_simps(1) by (auto simp: cv_inv_def)
  have "cv_block_table v \<in> dom (cm_tables mem)" using inv by (auto simp: cv_inv_def)
  then have ne: "cv_block_table v \<noteq> f" using inv by (auto simp: cv_inv_def f_def)
  let ?mem = "mem\<lparr>cm_tables := (cm_tables mem)(f \<mapsto> replicate m 0), cm_fresh := Suc f\<rparr>"
  have t: "cm_tables ?mem (cv_block_table v) = Some tab" "cm_tables ?mem f = Some (replicate m 0)" using inv ne by (simp_all add: cv_inv_def)
  have "create_blocks env v (length tab) (m - length tab) (tab @ drop (length tab) (replicate m 0)) ?mem =
      Some (tab', ?mem\<lparr>cm_blocks := (\<lambda>b. if Suc f \<le> b \<and> b < Suc f + (m - length tab) then Some (replicate (2 ^ k) (new_value env v)) else cm_blocks ?mem b),
        cm_fresh := Suc f + (m - length tab)\<rparr>)"
    using create_blocks_result [of "length tab" "m - length tab" "tab @ drop (length tab) (replicate m 0)" env v ?mem] m
    unfolding bs new_value_def [symmetric] by (simp add: tab'_def f_def del: upt_Suc)
  then have "fill_block_table env v (cv_block_table v) f m ?mem = Some (?mem\<lparr>
      cm_blocks := (\<lambda>b. if Suc f \<le> b \<and> b < Suc f + (m - length tab) then Some (replicate (2 ^ k) (new_value env v)) else cm_blocks ?mem b),
      cm_fresh := Suc f + (m - length tab), cm_tables := (cm_tables mem)(f \<mapsto> tab')\<rparr>)"
    unfolding fill_block_table_def t using m by (simp add: Let_def)
  then show ?thesis by (cases mem) (simp add: create_block_table_def f_def Suc_le_eq cong: if_cong)
qed

lemma retired_tables:
  "f \<notin> S \<Longrightarrow> f \<noteq> bt \<Longrightarrow> bt \<notin> S \<Longrightarrow> f \<noteq> z \<Longrightarrow> ds \<subseteq> S \<Longrightarrow> insert f (insert z (insert bt S)) - (ds - {z}) = insert z (insert f (insert bt (S - ds)))"
  by blast

lemma grow_ok:
  assumes inv: "cv_inv k tab R v mem" and m: "length tab < m" "m < 2 ^ 32" and new: "new_node_spec N (ev_new_node env)" and N: "length R < N"
  shows "\<exists>v' mem' tab' R'. get_qualified_block_table_slow env (cv_block_table v) m v mem = Some (cv_block_table v', v', mem') \<and> cv_inv k tab' R' v' mem'
    \<and> length tab' = m \<and> grown k (new_value env v) tab tab' mem mem' \<and> cv_meta v' = cv_meta v \<and> cv_constructor v' = cv_constructor v
    \<and> length R' \<le> Suc (length R)"
proof -
  let ?f = "cm_fresh mem" and ?bt = "cv_block_table v" and ?new = "[Suc (cm_fresh mem)..<Suc (cm_fresh mem) + (m - length tab)]"
  define tab' where "tab' = tab @ ?new"
  from fill_block_table_ok [OF inv m(1), of env] obtain mem1 where
    1: "fill_block_table env v ?bt ?f m (snd (create_block_table m mem)) = Some mem1"
      "mem1 = mem\<lparr>cm_blocks := (\<lambda>b. if ?f < b \<and> b < Suc ?f + (m - length tab) then Some (replicate (2 ^ k) (new_value env v)) else cm_blocks mem b),
        cm_tables := (cm_tables mem)(?f \<mapsto> tab'), cm_fresh := Suc ?f + (m - length tab)\<rparr>" unfolding tab'_def by blast
  let ?v = "v\<lparr>cv_block_table := ?f\<rparr>"
  have D: "dom (cm_tables mem) = insert 0 (insert ?bt (snd ` set R))" "\<And>t. t \<in> dom (cm_tables mem) \<Longrightarrow> t < ?f" "?bt \<notin> snd ` set R"
    using inv by (auto simp: cv_inv_def)
  have f: "?f \<notin> dom (cm_tables mem)" "?f \<noteq> 0" using D by (blast, auto)
  have R: "rl_inv (cm_nodes mem1) (cv_retire_list ?v) R" "distinct (map snd R)" "snd ` set R \<subseteq> dom (cm_tables mem1)"
    using inv 1(2) by (auto simp: cv_inv_def)
  from retire_table_ok [OF R(1) new N R(2,3), of ?bt] obtain nodes rl R' ds where
    2: "retire_table env ?bt ?v mem1 = Some (?v\<lparr>cv_retire_list := rl\<rparr>, mem1\<lparr>cm_nodes := nodes, cm_tables := cm_tables mem1 |` (- (ds - {0}))\<rparr>)"
      "rl_inv nodes rl R'" "ds = {} \<and> map snd R' = ?bt # map snd R \<or> ds = snd ` set R \<and> map snd R' = [?bt]" by (elim exE conjE) (rule that)
  define v' where "v' = ?v\<lparr>cv_retire_list := rl\<rparr>"
  define mem' where "mem' = mem1\<lparr>cm_nodes := nodes, cm_tables := cm_tables mem1 |` (- (ds - {0}))\<rparr>"
  have vs: "cv_meta v' = cv_meta v" "cv_constructor v' = cv_constructor v" "cv_block_table v' = ?f" "cv_retire_list v' = rl" by (simp_all add: v'_def)
  have t': "cm_tables mem' = (cm_tables mem)(?f \<mapsto> tab') |` (- (ds - {0}))" by (simp add: mem'_def 1(2))
  have b': "cm_blocks mem' = (\<lambda>b. if ?f < b \<and> b < Suc ?f + (m - length tab) then Some (replicate (2 ^ k) (new_value env v)) else cm_blocks mem b)"
    by (simp add: mem'_def 1(2))
  have f': "cm_fresh mem' = Suc ?f + (m - length tab)" "cm_nodes mem' = nodes" by (simp_all add: mem'_def 1(2))
  have ds: "ds \<subseteq> snd ` set R" using 2(3) by auto
  have tabs: "cm_tables mem' ?f = Some tab'" "cm_tables mem' 0 = Some []"
    using ds D f inv unfolding t' by (auto simp: restrict_map_def cv_inv_def)
  have RS: "snd ` set R' = insert ?bt (snd ` set R - ds)"
    using 2(3) by (elim disjE conjE) (simp_all only: set_map [symmetric] list.set Diff_empty Diff_cancel)
  have ff: "?f \<notin> snd ` set R" "?f \<noteq> ?bt" using f(1) unfolding D(1) by simp_all
  have dom': "dom (cm_tables mem') = insert 0 (insert ?f (snd ` set R'))"
  proof -
    have "dom (cm_tables mem') = (insert ?f (dom (cm_tables mem))) - (ds - {0})" unfolding t' by auto
    also have "\<dots> = insert 0 (insert ?f (snd ` set R'))" unfolding D(1) RS using ff D(3) f(2) ds by (intro retired_tables) simp_all
    finally show ?thesis .
  qed
  have R': "distinct (map snd R')" using 2(3) D(3) inv by (elim disjE conjE) (simp_all add: cv_inv_def)
  have R'': "?f \<notin> snd ` set R'" unfolding RS using ff by simp
  from 2(3) have "map snd R' = ?bt # map snd R \<or> map snd R' = [?bt]" by (elim disjE conjE) simp_all
  then have "length (map snd R') \<le> Suc (length (map snd R))" by (elim disjE) (simp_all del: length_map)
  then have len: "length R' \<le> Suc (length R)" by simp
  have "dom (cm_tables mem') \<subseteq> insert ?f (dom (cm_tables mem))" unfolding t' by auto
  then have "t = ?f \<or> t < ?f" if "t \<in> dom (cm_tables mem')" for t using that D(2) [of t] by blast
  then have "t < cm_fresh mem'" if "t \<in> dom (cm_tables mem')" for t using that unfolding f'(1) by fastforce
  then have "\<forall>t\<in>dom (cm_tables mem'). t < cm_fresh mem'" by blast
  moreover have I: "distinct tab" "dom (cm_blocks mem) = set tab" "\<And>b. b \<in> set tab \<Longrightarrow> b < ?f" "\<And>b xs. cm_blocks mem b = Some xs \<Longrightarrow> length xs = 2 ^ k"
    using inv by (simp_all add: cv_inv_def)
  moreover have st': "set tab' = set tab \<union> {b. ?f < b \<and> b < Suc ?f + (m - length tab)}" by (auto simp: tab'_def)
  moreover have "distinct tab'" using I(1,3) by (force simp: tab'_def)
  moreover have "dom (cm_blocks mem') = set tab'" unfolding st' I(2) [symmetric] b' dom_def by auto
  moreover have "\<forall>b\<in>set tab'. b < cm_fresh mem'" unfolding st' f'(1) using I(3) by fastforce
  moreover have "\<forall>b xs. cm_blocks mem' b = Some xs \<longrightarrow> length xs = 2 ^ k" unfolding b' using I(4) by (simp split: if_splits)
  moreover have "length tab' = m" using m(1) by (simp add: tab'_def)
  ultimately have "cv_inv k tab' R' v' mem'"
    unfolding cv_inv_def using inv vs tabs dom' R' R'' 2(2) m(2) f'(2) by (simp add: cv_inv_def)
  moreover have "grown k (new_value env v) tab tab' mem mem'"
    unfolding grown_def st' b' using I(3) by (fastforce simp: tab'_def)
  moreover have "get_qualified_block_table_slow env ?bt m v mem = Some (cv_block_table v', v', mem')"
    using 1(1) 2(1) vs(3) v'_def mem'_def by (simp add: get_qualified_block_table_slow_def create_block_table_def Let_def)
  ultimately show ?thesis using vs len \<open>length tab' = m\<close> by blast
qed

lemma get_qualified_ok:
  assumes inv: "cv_inv k tab R v mem" and m: "unat m < 2 ^ 32" and new: "new_node_spec N (ev_new_node env)" and N: "length R < N"
  shows "\<exists>v' mem' tab' R'. get_qualified_block_table env m v mem = Some (cv_block_table v', v', mem') \<and> cv_inv k tab' R' v' mem'
    \<and> length tab' = max (length tab) (unat m) \<and> grown k (new_value env v) tab tab' mem mem' \<and> cv_meta v' = cv_meta v \<and> cv_constructor v' = cv_constructor v
    \<and> length R' \<le> Suc (length R) \<and> length R' + length tab \<le> length R + length tab'"
proof (cases "unat m \<le> length tab")
  case True
  then show ?thesis
    using inv by (intro exI [of _ v] exI [of _ mem] exI [of _ tab] exI [of _ R]) (simp add: get_qualified_block_table_def Let_def cv_inv_def grown_def)
next
  case False
  then have eq: "get_qualified_block_table env m v mem = get_qualified_block_table_slow env (cv_block_table v) (unat m) v mem"
    using inv by (simp add: get_qualified_block_table_def Let_def cv_inv_def)
  have "max (length tab) (unat m) = unat m" using False by simp
  then show ?thesis unfolding eq using grow_ok [OF inv _ m new N] False by fastforce
qed

end
