(* ===== verification/ConcurrentVectorOps.thy ===== *)
theory ConcurrentVectorOps
  imports ConcurrentVectorSpec
begin

text \<open>
  The operations of \<open>ConcurrentVector\<close> against a list: \<open>cv_elem k tab mem i\<close> is the element with index \<open>i\<close>. Growth keeps addresses and
  values, \<open>fill_n\<close> and \<open>copy_n\<close> write exactly their range, and the destructor leaves no allocation behind.
\<close>

section \<open>Elements\<close>

definition cv_elem :: "nat \<Rightarrow> nat list \<Rightarrow> 'a cmem \<Rightarrow> nat \<Rightarrow> 'a" where
  "cv_elem k tab mem i = the (cm_blocks mem (tab ! (i div 2 ^ k))) ! (i mod 2 ^ k)"

definition cv_length :: "nat \<Rightarrow> nat list \<Rightarrow> nat" where
  "cv_length k tab = length tab * 2 ^ k"

lemma cv_length_iff: "i < cv_length k tab \<longleftrightarrow> i div 2 ^ k < length tab"
  by (simp add: cv_length_def less_mult_imp_div_less div_less_iff_less_mult)

lemma cv_inv_block:
  assumes "cv_inv k tab R v mem" and "i < length tab"
  obtains xs where "cm_blocks mem (tab ! i) = Some xs" and "length xs = 2 ^ k"
proof -
  have "tab ! i \<in> dom (cm_blocks mem)" using assms by (simp add: cv_inv_def)
  then obtain xs where xs: "cm_blocks mem (tab ! i) = Some xs" by (auto simp only: domIff not_None_eq)
  moreover have "length xs = 2 ^ k" using assms(1) xs by (simp add: cv_inv_def)
  ultimately show ?thesis by (rule that)
qed

lemma grown_elem:
  assumes inv: "cv_inv k tab R v mem" "cv_inv k tab' R' v' mem'" and g: "grown k x tab tab' mem mem'" and i: "i < cv_length k tab'"
  shows "cv_elem k tab' mem' i = (if i < cv_length k tab then cv_elem k tab mem i else x)"
proof -
  obtain zs where zs: "tab' = tab @ zs" using g by (auto simp: grown_def prefix_def)
  have d: "distinct tab'" using inv(2) by (simp add: cv_inv_def)
  show ?thesis
  proof (cases "i div 2 ^ k < length tab")
    case True
    then have "cm_blocks mem' (tab ! (i div 2 ^ k)) = cm_blocks mem (tab ! (i div 2 ^ k))" using g by (simp add: grown_def)
    then show ?thesis using True by (simp add: cv_elem_def cv_length_iff zs nth_append)
  next
    case False
    then have j: "i div 2 ^ k - length tab < length zs" using i by (simp add: cv_length_iff zs)
    have "zs ! (i div 2 ^ k - length tab) \<in> set tab' - set tab" using d j by (auto simp: zs)
    then have "cm_blocks mem' (zs ! (i div 2 ^ k - length tab)) = Some (replicate (2 ^ k) x)" using g by (auto simp: grown_def)
    then show ?thesis using False by (simp add: cv_elem_def cv_length_iff zs nth_append)
  qed
qed

lemma cv_at_eq:
  assumes "cv_inv k tab R v mem" and "unat i div 2 ^ k < 2 ^ 32"
  shows "cv_at v i mem = (if unat i < cv_length k tab then Some (tab ! (unat i div 2 ^ k), unat i mod 2 ^ k) else None)"
  using assms meta_simps(4,5) [of "cv_meta v" k i] mod_less [OF assms(2)]
  by (simp add: cv_at_def Snapshot_at_def cv_snapshot_def cv_inv_def mem_read_def cv_length_iff)

lemma read_at_elem:
  assumes "cv_inv k tab R v mem" and "i < cv_length k tab"
  shows "read_at (tab ! (i div 2 ^ k), i mod 2 ^ k) mem = Some (cv_elem k tab mem i)"
proof -
  obtain xs where "cm_blocks mem (tab ! (i div 2 ^ k)) = Some xs" "length xs = 2 ^ k"
    using cv_inv_block [OF assms(1)] assms(2) by (metis cv_length_iff)
  then show ?thesis by (simp add: read_at_def mem_read_def cv_elem_def)
qed

section \<open>Writing\<close>

lemma index_in_block:
  fixes i j k n p :: nat
  assumes "p + n \<le> 2 ^ k"
  shows "(i * 2 ^ k + p \<le> j \<and> j < i * 2 ^ k + p + n) \<longleftrightarrow> (j div 2 ^ k = i \<and> p \<le> j mod 2 ^ k \<and> j mod 2 ^ k < p + n)"
proof -
  have j: "j = j div 2 ^ k * 2 ^ k + j mod 2 ^ k" by (simp add: div_mult_mod_eq)
  show ?thesis
  proof
    assume a: "i * 2 ^ k + p \<le> j \<and> j < i * 2 ^ k + p + n"
    have "j div 2 ^ k = i" by (rule div_nat_eqI) (use a assms in \<open>simp_all add: mult.commute\<close>)
    then show "j div 2 ^ k = i \<and> p \<le> j mod 2 ^ k \<and> j mod 2 ^ k < p + n" using a j by auto
  next
    assume a: "j div 2 ^ k = i \<and> p \<le> j mod 2 ^ k \<and> j mod 2 ^ k < p + n"
    then have "j = i * 2 ^ k + j mod 2 ^ k" using j by simp
    then show "i * 2 ^ k + p \<le> j \<and> j < i * 2 ^ k + p + n" using a by linarith
  qed
qed

lemma write_range_ok:
  assumes inv: "cv_inv k tab R v mem" and i: "i < length tab" and p: "p + length ys \<le> 2 ^ k"
  shows "\<exists>mem'. write_range (tab ! i) p ys mem = Some mem' \<and> cv_inv k tab R v mem' \<and> (\<forall>j<cv_length k tab. cv_elem k tab mem' j =
      (if i * 2 ^ k + p \<le> j \<and> j < i * 2 ^ k + p + length ys then ys ! (j - (i * 2 ^ k + p)) else cv_elem k tab mem j))"
proof -
  obtain xs where xs: "cm_blocks mem (tab ! i) = Some xs" "length xs = 2 ^ k" by (rule cv_inv_block [OF inv i])
  let ?xs = "take p xs @ ys @ drop (p + length ys) xs"
  let ?mem = "mem\<lparr>cm_blocks := (cm_blocks mem)(tab ! i \<mapsto> ?xs)\<rparr>"
  have "write_range (tab ! i) p ys mem = Some ?mem" using xs p by (simp add: write_range_def)
  moreover have "cv_inv k tab R v ?mem"
    using inv xs p i by (auto simp: cv_inv_def split: if_splits)
  moreover have "cv_elem k tab ?mem j =
      (if i * 2 ^ k + p \<le> j \<and> j < i * 2 ^ k + p + length ys then ys ! (j - (i * 2 ^ k + p)) else cv_elem k tab mem j)"
    if j: "j < cv_length k tab" for j
  proof (cases "j div 2 ^ k = i")
    case True
    then have e: "j = i * 2 ^ k + j mod 2 ^ k" by (metis div_mult_mod_eq)
    then have s: "j - (i * 2 ^ k + p) = j mod 2 ^ k - p" by simp
    have "cv_elem k tab ?mem j = ?xs ! (j mod 2 ^ k)" using True by (simp add: cv_elem_def)
    moreover have "cv_elem k tab mem j = xs ! (j mod 2 ^ k)" using True xs by (simp add: cv_elem_def)
    ultimately show ?thesis unfolding index_in_block [OF p] s using True xs(2) p by (auto simp: nth_append)
  next
    case False
    then have "tab ! (j div 2 ^ k) \<noteq> tab ! i" using inv i j by (simp add: cv_inv_def cv_length_iff nth_eq_iff_index_eq)
    then show ?thesis unfolding index_in_block [OF p] using False by (simp add: cv_elem_def)
  qed
  ultimately show ?thesis by blast
qed

section \<open>Growing\<close>

lemma get_qualified_grows:
  assumes inv: "cv_inv k tab R v mem" and m: "unat m < 2 ^ 32" and new: "new_node_spec N (ev_new_node env)" "length R < N"
  obtains v' mem' tab' R' where "get_qualified_block_table env m v mem = Some (cv_block_table v', v', mem')" and "cv_inv k tab' R' v' mem'"
    and "length tab' = max (length tab) (unat m)" and "prefix tab tab'" and "cv_meta v' = cv_meta v" and "cv_constructor v' = cv_constructor v"
    and "length R' \<le> Suc (length R)" and "length R' + length tab \<le> length R + length tab'"
    and "\<And>i. i < cv_length k tab' \<Longrightarrow> cv_elem k tab' mem' i = (if i < cv_length k tab then cv_elem k tab mem i else new_value env v)"
proof -
  from get_qualified_ok [OF inv m new] obtain v' mem' tab' R' where
    r: "get_qualified_block_table env m v mem = Some (cv_block_table v', v', mem')" "cv_inv k tab' R' v' mem'"
      "length tab' = max (length tab) (unat m)" "grown k (new_value env v) tab tab' mem mem'" "cv_meta v' = cv_meta v" "cv_constructor v' = cv_constructor v"
      "length R' \<le> Suc (length R)" "length R' + length tab \<le> length R + length tab'" by blast
  show ?thesis by (rule that [OF r(1-3) _ r(5-8)]) (use r(4) grown_elem [OF inv r(2,4)] in \<open>simp_all add: grown_def\<close>)
qed

lemma prefix_nth_eq: "prefix xs ys \<Longrightarrow> i < length xs \<Longrightarrow> ys ! i = xs ! i"
  by (auto simp: prefix_def nth_append)

lemma ensure_ok:
  assumes "cv_inv k tab R v mem" and "Suc (unat index div 2 ^ k) < 2 ^ 32" and "new_node_spec N (ev_new_node env)" and "length R < N"
  shows "\<exists>p v' mem' tab' R'. cv_ensure env index v mem = Some (p, v', mem') \<and> cv_inv k tab' R' v' mem'
    \<and> length R' \<le> Suc (length R) \<and> length R' + length tab \<le> length R + length tab'
    \<and> length tab' = max (length tab) (Suc (unat index div 2 ^ k)) \<and> p = (tab' ! (unat index div 2 ^ k), unat index mod 2 ^ k) \<and> cv_at v' index mem' = Some p \<and> unat index < cv_length k tab'
    \<and> (\<forall>i q. cv_at v i mem = Some q \<longrightarrow> cv_at v' i mem' = Some q)
    \<and> (\<forall>i<cv_length k tab'. cv_elem k tab' mem' i = (if i < cv_length k tab then cv_elem k tab mem i else new_value env v))"
proof -
  have ok: "meta_ok (cv_meta v) k" using assms(1) by (simp add: cv_inv_def)
  let ?bi = "Meta_block_index (cv_meta v) index"
  have bi: "unat ?bi = unat index div 2 ^ k" using meta_simps(4) [OF ok, of index] assms(2) by simp
  then have m: "unat (ucast (?bi + 1) :: u64) = Suc (unat index div 2 ^ k)"
    using assms(2) by (simp add: unat_ucast_up unat_add_small)
  have m32: "unat (ucast (?bi + 1) :: u64) < 2 ^ 32" using m assms(2) by simp
  from get_qualified_grows [OF assms(1) m32 assms(3,4)] obtain v' mem' tab' R' where
    r: "get_qualified_block_table env (ucast (?bi + 1)) v mem = Some (cv_block_table v', v', mem')" "cv_inv k tab' R' v' mem'"
      "length tab' = max (length tab) (Suc (unat index div 2 ^ k))" "prefix tab tab'" "cv_meta v' = cv_meta v"
      "length R' \<le> Suc (length R)" "length R' + length tab \<le> length R + length tab'"
      "\<And>i. i < cv_length k tab' \<Longrightarrow> cv_elem k tab' mem' i = (if i < cv_length k tab then cv_elem k tab mem i else new_value env v)"
    unfolding m by metis
  have il: "unat index div 2 ^ k < length tab'" using r(3) by simp
  have "cv_ensure env index v mem = Some ((tab' ! (unat index div 2 ^ k), unat index mod 2 ^ k), v', mem')"
    using r(1,2,5) il bi meta_simps(5) [OF ok, of index] by (simp add: cv_ensure_def Let_def cv_inv_def mem_read_def)
  moreover have "cv_at v' index mem' = Some (tab' ! (unat index div 2 ^ k), unat index mod 2 ^ k)"
    using cv_at_eq [OF r(2), of index] assms(2) il by (simp add: cv_length_iff)
  moreover have "cv_at v' i mem' = Some q" if "cv_at v i mem = Some q" for i q
    using that assms(1) r(2,4,5) prefix_nth_eq [OF r(4)] prefix_length_le [OF r(4)]
    by (auto simp: cv_at_def Snapshot_at_def cv_snapshot_def cv_inv_def mem_read_def split: if_splits)
  moreover have "unat index < cv_length k tab'" using il by (simp add: cv_length_iff)
  ultimately show ?thesis using r(2,3,6-8) 
    by (intro exI [of _ "(tab' ! (unat index div 2 ^ k), unat index mod 2 ^ k)"] exI [of _ v'] exI [of _ mem'] exI [of _ tab'] exI [of _ R']
        conjI allI impI refl)
qed

text \<open>
  C37: \<open>ensure\<close> makes the index accessible and returns the address \<open>operator[]\<close> gives for it; an element that was there
  before keeps its address and its value, and new elements are what the constructor makes of them.
\<close>

theorem ensure_keeps_elements:
  assumes "cv_inv k tab R v mem" and "Suc (unat index div 2 ^ k) < 2 ^ 32" and "new_node_spec N (ev_new_node env)" and "length R < N"
  shows "\<exists>p v' mem' tab' R'. cv_ensure env index v mem = Some (p, v', mem') \<and> cv_inv k tab' R' v' mem'
    \<and> cv_at v' index mem' = Some p \<and> unat index < cv_length k tab'
    \<and> (\<forall>i q. cv_at v i mem = Some q \<longrightarrow> cv_at v' i mem' = Some q)
    \<and> (\<forall>i<cv_length k tab'. cv_elem k tab' mem' i = (if i < cv_length k tab then cv_elem k tab mem i else new_value env v))"
  using ensure_ok [OF assms] by blast

lemma reserved_snapshot_grows:
  assumes inv: "cv_inv k tab R v mem" and sz: "unat sz + 2 ^ k \<le> 2 ^ 64" "(unat sz + 2 ^ k - 1) div 2 ^ k < 2 ^ 32"
    and new: "new_node_spec N (ev_new_node env)" "length R < N"
  obtains v' mem' tab' R' where "reserved_snapshot env sz v mem = Some (cv_snapshot v', v', mem')" and "cv_inv k tab' R' v' mem'"
    and "unat sz \<le> cv_length k tab'" and "prefix tab tab'" and "cv_meta v' = cv_meta v" and "length R' \<le> Suc (length R)"
    and "\<And>i. i < cv_length k tab' \<Longrightarrow> cv_elem k tab' mem' i = (if i < cv_length k tab then cv_elem k tab mem i else new_value env v)"
proof -
  have ok: "meta_ok (cv_meta v) k" and k: "k < 32" using inv by (simp_all add: cv_inv_def meta_ok_def)
  let ?m = "ucast (Meta_block_index (cv_meta v) (sz + ucast (Meta_block_mask (cv_meta v)))) :: u64"
  have mk: "unat (ucast (Meta_block_mask (cv_meta v)) :: u64) = 2 ^ k - 1"
    unfolding meta_simps(2) [OF ok] ucast_pow2_minus_1_up [OF k] using k by (simp add: unat_sub word_le_nat_alt unat_pow2)
  have "unat sz + (2 ^ k - 1) < 2 ^ 64" using sz(1) by (simp add: less_le_trans)
  then have "unat (sz + ucast (Meta_block_mask (cv_meta v))) = unat sz + (2 ^ k - 1)" using mk by (subst unat_add_small) simp_all
  then have m: "unat ?m = (unat sz + 2 ^ k - 1) div 2 ^ k"
    using meta_simps(4) [OF ok] sz(2) by (simp add: unat_ucast_up)
  from get_qualified_grows [OF inv _ new, of ?m] sz(2) m obtain v' mem' tab' R' where
    r: "get_qualified_block_table env ?m v mem = Some (cv_block_table v', v', mem')" "cv_inv k tab' R' v' mem'"
      "length tab' = max (length tab) (unat ?m)" "prefix tab tab'" "cv_meta v' = cv_meta v" "length R' \<le> Suc (length R)"
      "\<And>i. i < cv_length k tab' \<Longrightarrow> cv_elem k tab' mem' i = (if i < cv_length k tab then cv_elem k tab mem i else new_value env v)"
    by metis
  have "unat sz \<le> nat_align_up (unat sz) (2 ^ k)" by (rule nat_align_up_bounds) simp
  then have "unat sz \<le> unat ?m * 2 ^ k" unfolding m nat_align_up_def .
  also have "\<dots> \<le> cv_length k tab'" using r(3) by (simp add: cv_length_def)
  finally show ?thesis
    by (intro that [OF _ r(2) _ r(4-7)]) (use r(1,5) in \<open>simp_all add: reserved_snapshot_def cv_snapshot_def\<close>)
qed

section \<open>Copying and filling\<close>

lemma copy_segment_ok:
  assumes inv: "cv_inv k tab R v mem" and i: "i < length tab" and p: "p < q" "q \<le> 2 ^ k" and l: "q - p \<le> length src"
  shows "\<exists>mem'. copy_segment (tab ! i, p, q) (src, mem) = Some (drop (q - p) src, mem') \<and> cv_inv k tab R v mem'
    \<and> (\<forall>j<cv_length k tab. cv_elem k tab mem' j = (if i * 2 ^ k + p \<le> j \<and> j < i * 2 ^ k + q then src ! (j - (i * 2 ^ k + p)) else cv_elem k tab mem j))"
proof -
  from write_range_ok [OF inv i, of p "take (q - p) src"] p l obtain mem' where
    "write_range (tab ! i) p (take (q - p) src) mem = Some mem'" "cv_inv k tab R v mem'"
    "\<forall>j<cv_length k tab. cv_elem k tab mem' j = (if i * 2 ^ k + p \<le> j \<and> j < i * 2 ^ k + p + (q - p) then take (q - p) src ! (j - (i * 2 ^ k + p)) else cv_elem k tab mem j)"
    by auto
  then show ?thesis using l p by (auto simp: copy_segment_def)
qed

lemma Snapshot_copy_n_ok:
  assumes inv: "cv_inv k tab R v mem" and le: "unat offset + unat sz \<le> cv_length k tab" "unat offset + unat sz < 2 ^ 64" and src: "unat sz \<le> length src"
  shows "\<exists>mem'. Snapshot_copy_n (cv_snapshot v) src sz offset mem = Some mem' \<and> cv_inv k tab R v mem'
    \<and> (\<forall>j<cv_length k tab. cv_elem k tab mem' j = (if unat offset \<le> j \<and> j < unat offset + unat sz then src ! (j - unat offset) else cv_elem k tab mem j))"
proof -
  let ?o = "unat offset" and ?e = "unat (offset + sz)"
  have e: "?e = ?o + unat sz" using le(2) by (subst unat_add_small) simp_all
  define I where "I n s \<longleftrightarrow> fst s = drop (n - ?o) src \<and> cv_inv k tab R v (snd s) \<and> (\<forall>j<cv_length k tab. cv_elem k tab (snd s) j =
      (if ?o \<le> j \<and> j < n then src ! (j - ?o) else cv_elem k tab mem j))" for n and s :: "'a list \<times> 'a cmem"
  have ok: "meta_ok (cv_meta v) k" "length tab < 2 ^ 32" "cm_tables mem (cv_block_table v) = Some tab" using inv by (simp_all add: cv_inv_def)
  have "\<exists>s'. Snapshot_for_each copy_segment tab (cv_meta v) offset (offset + sz) (src, mem) = Some s' \<and> I ?e s'"
  proof (rule Snapshot_for_each_rule [OF ok(1,2)])
    show "?e \<le> length tab * 2 ^ k" "?o \<le> ?e" using le(1) e by (simp_all add: cv_length_def)
    show "I ?o (src, mem)" using inv by (auto simp: I_def)
  next
    fix i p q and s :: "'a list \<times> 'a cmem"
    assume a: "i < length tab" "p < q" "q \<le> 2 ^ k" "?o \<le> i * 2 ^ k + p" "i * 2 ^ k + q \<le> ?e" "I (i * 2 ^ k + p) s"
    let ?n = "i * 2 ^ k + p"
    have s: "cv_inv k tab R v (snd s)" "s = (drop (?n - ?o) src, snd s)" using a(6) by (simp_all add: I_def prod_eq_iff)
    have l: "q - p \<le> length (drop (?n - ?o) src)" using a(2,4,5) e src by simp
    from copy_segment_ok [OF s(1) a(1-3) l] obtain mem' where
      m: "copy_segment (tab ! i, p, q) s = Some (drop (q - p) (drop (?n - ?o) src), mem')" "cv_inv k tab R v mem'"
        "\<And>j. j < cv_length k tab \<Longrightarrow> cv_elem k tab mem' j = (if ?n \<le> j \<and> j < i * 2 ^ k + q then drop (?n - ?o) src ! (j - ?n) else cv_elem k tab (snd s) j)"
      using s(2) by metis
    have d: "drop (q - p) (drop (?n - ?o) src) = drop (i * 2 ^ k + q - ?o) src" using a(2,4) by (simp add: add.commute)
    have n: "drop (?n - ?o) src ! (j - ?n) = src ! (j - ?o)" if "?n \<le> j" "j < i * 2 ^ k + q" for j
      using that a(4,5) e src by simp
    have "I (i * 2 ^ k + q) (drop (q - p) (drop (?n - ?o) src), mem')"
      unfolding I_def d using m(2,3) n a(2,4,6) by (auto simp: I_def)
    then show "\<exists>s'. copy_segment (tab ! i, p, q) s = Some s' \<and> I (i * 2 ^ k + q) s'" using m(1) by blast
  qed
  then obtain s' where "Snapshot_for_each copy_segment tab (cv_meta v) offset (offset + sz) (src, mem) = Some s'" "I ?e s'" by blast
  then show ?thesis using ok(3) e by (cases s') (auto simp: Snapshot_copy_n_def cv_snapshot_def I_def)
qed

lemma fill_segment_ok:
  assumes inv: "cv_inv k tab R v mem" and i: "i < length tab" and p: "p < q" "q \<le> 2 ^ k"
  shows "\<exists>mem'. fill_segment x (tab ! i, p, q) mem = Some mem' \<and> cv_inv k tab R v mem'
    \<and> (\<forall>j<cv_length k tab. cv_elem k tab mem' j = (if i * 2 ^ k + p \<le> j \<and> j < i * 2 ^ k + q then x else cv_elem k tab mem j))"
proof -
  from write_range_ok [OF inv i, of p "replicate (q - p) x"] p obtain mem' where
    "write_range (tab ! i) p (replicate (q - p) x) mem = Some mem'" "cv_inv k tab R v mem'"
    "\<forall>j<cv_length k tab. cv_elem k tab mem' j = (if i * 2 ^ k + p \<le> j \<and> j < i * 2 ^ k + p + (q - p) then replicate (q - p) x ! (j - (i * 2 ^ k + p)) else cv_elem k tab mem j)"
    by (metis add_diff_inverse_nat length_replicate less_imp_le_nat not_less)
  then show ?thesis using p by (auto simp: fill_segment_def)
qed

lemma Snapshot_fill_n_ok:
  assumes inv: "cv_inv k tab R v mem" and le: "unat offset + unat sz \<le> cv_length k tab" "unat offset + unat sz < 2 ^ 64"
  shows "\<exists>mem'. Snapshot_fill_n (cv_snapshot v) offset sz x mem = Some mem' \<and> cv_inv k tab R v mem'
    \<and> (\<forall>j<cv_length k tab. cv_elem k tab mem' j = (if unat offset \<le> j \<and> j < unat offset + unat sz then x else cv_elem k tab mem j))"
proof -
  let ?o = "unat offset" and ?e = "unat (offset + sz)"
  have e: "?e = ?o + unat sz" using le(2) by (subst unat_add_small) simp_all
  define I where "I n s \<longleftrightarrow> cv_inv k tab R v s \<and> (\<forall>j<cv_length k tab. cv_elem k tab s j =
      (if ?o \<le> j \<and> j < n then x else cv_elem k tab mem j))" for n s
  have ok: "meta_ok (cv_meta v) k" "length tab < 2 ^ 32" "cm_tables mem (cv_block_table v) = Some tab" using inv by (simp_all add: cv_inv_def)
  have "\<exists>s'. Snapshot_for_each (fill_segment x) tab (cv_meta v) offset (offset + sz) mem = Some s' \<and> I ?e s'"
  proof (rule Snapshot_for_each_rule [OF ok(1,2)])
    show "?e \<le> length tab * 2 ^ k" "?o \<le> ?e" using le(1) e by (simp_all add: cv_length_def)
    show "I ?o mem" using inv by (auto simp: I_def)
  next
    fix i p q s
    assume a: "i < length tab" "p < q" "q \<le> 2 ^ k" "?o \<le> i * 2 ^ k + p" "i * 2 ^ k + q \<le> ?e" "I (i * 2 ^ k + p) s"
    have s: "cv_inv k tab R v s" using a(6) by (simp add: I_def)
    from fill_segment_ok [OF s a(1-3), of x] obtain s' where
      m: "fill_segment x (tab ! i, p, q) s = Some s'" "cv_inv k tab R v s'"
        "\<And>j. j < cv_length k tab \<Longrightarrow> cv_elem k tab s' j = (if i * 2 ^ k + p \<le> j \<and> j < i * 2 ^ k + q then x else cv_elem k tab s j)"
      by blast
    have "I (i * 2 ^ k + q) s'" unfolding I_def using m(2,3) a(2,4,6) by (auto simp: I_def)
    then show "\<exists>s'. fill_segment x (tab ! i, p, q) s = Some s' \<and> I (i * 2 ^ k + q) s'" using m(1) by blast
  qed
  then show ?thesis using ok(3) e by (auto simp: Snapshot_fill_n_def cv_snapshot_def I_def)
qed

lemma copy_fill_ok:
  assumes inv: "cv_inv k tab R v mem" and sz: "unat offset + unat sz + 2 ^ k \<le> 2 ^ 64" "(unat offset + unat sz + 2 ^ k - 1) div 2 ^ k < 2 ^ 32"
    and src: "unat sz \<le> length src" and new: "new_node_spec N (ev_new_node env)" "length R < N"
  shows "(\<exists>v' mem' tab' R'. cv_copy_n env src sz offset v mem = Some (v', mem') \<and> cv_inv k tab' R' v' mem' \<and> length R' \<le> Suc (length R) \<and> unat offset + unat sz \<le> cv_length k tab'
      \<and> (\<forall>j<cv_length k tab'. cv_elem k tab' mem' j = (if unat offset \<le> j \<and> j < unat offset + unat sz then src ! (j - unat offset)
           else if j < cv_length k tab then cv_elem k tab mem j else new_value env v)))
    \<and> (\<exists>v' mem' tab' R'. cv_fill_n env offset sz x v mem = Some (v', mem') \<and> cv_inv k tab' R' v' mem' \<and> length R' \<le> Suc (length R) \<and> unat offset + unat sz \<le> cv_length k tab'
      \<and> (\<forall>j<cv_length k tab'. cv_elem k tab' mem' j = (if unat offset \<le> j \<and> j < unat offset + unat sz then x
           else if j < cv_length k tab then cv_elem k tab mem j else new_value env v)))"
proof -
  have lt: "unat offset + unat sz < 2 ^ 64" using sz(1) by (meson le_add1 le_less_trans less_le_trans less_add_same_cancel1 zero_less_numeral zero_less_power)
  have e: "unat (offset + sz) = unat offset + unat sz" using lt by (subst unat_add_small) simp_all
  from reserved_snapshot_grows [OF inv _ _ new, of "offset + sz"] sz e obtain v1 mem1 tab1 R1 where
    r: "reserved_snapshot env (offset + sz) v mem = Some (cv_snapshot v1, v1, mem1)" "cv_inv k tab1 R1 v1 mem1" "unat offset + unat sz \<le> cv_length k tab1" "length R1 \<le> Suc (length R)"
      "\<And>i. i < cv_length k tab1 \<Longrightarrow> cv_elem k tab1 mem1 i = (if i < cv_length k tab then cv_elem k tab mem i else new_value env v)" by metis
  from Snapshot_copy_n_ok [OF r(2,3) lt src] obtain mem2 where
    2: "Snapshot_copy_n (cv_snapshot v1) src sz offset mem1 = Some mem2" "cv_inv k tab1 R1 v1 mem2"
      "\<And>j. j < cv_length k tab1 \<Longrightarrow> cv_elem k tab1 mem2 j = (if unat offset \<le> j \<and> j < unat offset + unat sz then src ! (j - unat offset) else cv_elem k tab1 mem1 j)" by blast
  from Snapshot_fill_n_ok [OF r(2,3) lt, of x] obtain mem3 where
    3: "Snapshot_fill_n (cv_snapshot v1) offset sz x mem1 = Some mem3" "cv_inv k tab1 R1 v1 mem3"
      "\<And>j. j < cv_length k tab1 \<Longrightarrow> cv_elem k tab1 mem3 j = (if unat offset \<le> j \<and> j < unat offset + unat sz then x else cv_elem k tab1 mem1 j)" by blast
  show ?thesis
    using r(1,3,4,5) 2 3
    by (intro conjI exI [of _ v1] exI [of _ mem2] exI [of _ mem3] exI [of _ tab1] exI [of _ R1]) (simp_all add: cv_copy_n_def cv_fill_n_def)
qed

text \<open>
  \<open>copy_n\<close> and \<open>fill_n\<close>, block by block, write exactly the requested range: the vector then holds the source (or the
  value) in the range, its old elements elsewhere and newly constructed ones where it grew.
\<close>

theorem copy_and_fill_write_their_range:
  assumes inv: "cv_inv k tab R v mem" and sz: "unat offset + unat sz + 2 ^ k \<le> 2 ^ 64" "(unat offset + unat sz + 2 ^ k - 1) div 2 ^ k < 2 ^ 32"
    and src: "unat sz \<le> length src" and new: "new_node_spec N (ev_new_node env)" "length R < N"
  shows "(\<exists>v' mem' tab' R'. cv_copy_n env src sz offset v mem = Some (v', mem') \<and> cv_inv k tab' R' v' mem' \<and> unat offset + unat sz \<le> cv_length k tab'
      \<and> (\<forall>j<cv_length k tab'. cv_elem k tab' mem' j = (if unat offset \<le> j \<and> j < unat offset + unat sz then src ! (j - unat offset)
           else if j < cv_length k tab then cv_elem k tab mem j else new_value env v)))
    \<and> (\<exists>v' mem' tab' R'. cv_fill_n env offset sz x v mem = Some (v', mem') \<and> cv_inv k tab' R' v' mem' \<and> unat offset + unat sz \<le> cv_length k tab'
      \<and> (\<forall>j<cv_length k tab'. cv_elem k tab' mem' j = (if unat offset \<le> j \<and> j < unat offset + unat sz then x
           else if j < cv_length k tab then cv_elem k tab mem j else new_value env v)))"
  using copy_fill_ok [OF assms, of x] by blast

section \<open>Life cycle\<close>

lemma delete_blocks_result:
  "distinct bs \<Longrightarrow> set bs \<subseteq> dom (cm_blocks mem) \<Longrightarrow> delete_blocks bs mem = Some (mem\<lparr>cm_blocks := cm_blocks mem |` (- set bs)\<rparr>)"
proof (induction bs arbitrary: mem)
  case Nil
  then show ?case by (cases mem) simp
next
  case (Cons b bs)
  obtain xs where b: "cm_blocks mem b = Some xs" using Cons.prems by auto
  let ?mem = "mem\<lparr>cm_blocks := (cm_blocks mem)(b := None)\<rparr>"
  have "delete_blocks bs ?mem = Some (?mem\<lparr>cm_blocks := cm_blocks ?mem |` (- set bs)\<rparr>)" using Cons.prems by (intro Cons.IH) auto
  moreover have "(cm_blocks mem)(b := None) |` (- set bs) = cm_blocks mem |` (- set (b # bs))" by (auto simp: restrict_map_def fun_eq_iff)
  ultimately show ?case using b by (simp add: delete_block_def)
qed

text \<open>No block, no node and no table but the static empty one is allocated.\<close>

definition nothing_left :: "'a cmem \<Rightarrow> bool" where
  "nothing_left mem \<longleftrightarrow> cm_blocks mem = (\<lambda>_. None) \<and> cm_tables mem = [0 \<mapsto> []] \<and> cm_nodes mem = (\<lambda>_. None)"

lemma destroy_frees:
  assumes inv: "cv_inv k tab R v mem"
  shows "\<exists>mem'. ConcurrentVector_destroy v mem = Some mem' \<and> nothing_left mem' \<and> cm_fresh mem' = cm_fresh mem"
proof -
  let ?bt = "cv_block_table v"
  have i: "distinct tab" "dom (cm_blocks mem) = set tab" "cm_tables mem ?bt = Some tab" "cm_tables mem 0 = Some []"
    "dom (cm_tables mem) = insert 0 (insert ?bt (snd ` set R))" "rl_inv (cm_nodes mem) (cv_retire_list v) R" "distinct (map snd R)" "?bt \<notin> snd ` set R"
    using inv by (simp_all add: cv_inv_def)
  let ?mem1 = "mem\<lparr>cm_blocks := (\<lambda>_. None)\<rparr>"
  have "cm_blocks mem |` (- set tab) = (\<lambda>_. None)" unfolding i(2) [symmetric] by (auto simp: restrict_map_def fun_eq_iff domIff)
  then have 1: "delete_blocks tab mem = Some ?mem1" using delete_blocks_result [OF i(1), of mem] i(2) by simp
  let ?mem2 = "?mem1\<lparr>cm_tables := cm_tables mem |` (- ({?bt} - {0}))\<rparr>"
  have 2: "delete_block_table ?bt ?mem1 = Some ?mem2"
    using delete_block_tables_result [of "[?bt]" ?mem1] i(5) by (simp add: bind_eq_Some_conv)
  have "set (map snd R) \<subseteq> dom (cm_tables mem)" "?bt \<notin> set (map snd R)" using i(5,8) by simp_all blast
  then have R: "set (map snd R) \<subseteq> dom (cm_tables ?mem2)" by (auto simp del: set_map)
  let ?mem3 = "?mem2\<lparr>cm_nodes := (\<lambda>_. None)\<rparr>"
  have "set (map snd R) \<subseteq> dom (cm_tables ?mem3)" using R by simp
  from delete_block_tables_result [OF i(7) this] delete_list_inv [OF i(6)]
  have 3: "cv_unsafe_gc v ?mem2 = Some (v\<lparr>cv_retire_list := (cv_retire_list v)\<lparr>rl_head := 0\<rparr>\<rparr>,
      ?mem3\<lparr>cm_tables := cm_tables ?mem3 |` (- (set (map snd R) - {0}))\<rparr>)"
    by (simp add: cv_unsafe_gc_def unsafe_gc_def)
  have "cm_tables mem |` (- ({?bt} - {0})) |` (- (set (map snd R) - {0})) = [0 \<mapsto> []]"
  proof
    fix t
    show "(cm_tables mem |` (- ({?bt} - {0})) |` (- (set (map snd R) - {0}))) t = [0 \<mapsto> []] t"
    proof (cases "t \<in> dom (cm_tables mem)")
      case True
      then show ?thesis using i(4) unfolding i(5) by (auto simp: restrict_map_def)
    next
      case False
      then have "cm_tables mem t = None" "t \<noteq> 0" using i(4) by (simp only: domIff, auto)
      then show ?thesis by (simp add: restrict_map_def)
    qed
  qed
  then show ?thesis using 1 2 3 i(3) by (simp add: ConcurrentVector_destroy_def nothing_left_def)
qed

lemma construct_inv_empty:
  assumes "ConcurrentVector_construct m hint c = Some v" and "meta_ok (cv_meta v) k" and "nothing_left mem" and "0 < cm_fresh mem"
  shows "cv_inv k [] [] v mem"
  using assms rl_inv_new
  by (auto simp: ConcurrentVector_construct_def cv_inv_def nothing_left_def EMPTY_BLOCK_TABLE_def bind_eq_Some_conv)

lemma construct_inv:
  assumes "ConcurrentVector_construct m hint c = Some v" and "meta_ok (cv_meta v) k"
  shows "cv_inv k [] [] v (cmem0 :: 'a cmem)"
  using assms by (rule construct_inv_empty) (simp_all add: cmem0_def nothing_left_def EMPTY_BLOCK_TABLE_def)

datatype 'a cv_op = Ensure u64 | Reserve u64 | FillN u64 u64 'a | CopyN "'a list" u64 u64 | ForEach u64 u64
  | SetConstructor "'a option" | Gc | UnsafeGc

text \<open>The callback of \<open>for_each\<close> counts the segments.\<close>

fun cv_exec :: "'a cv_env \<Rightarrow> 'a cv_op \<Rightarrow> 'a ConcurrentVector \<Rightarrow> 'a cmem \<Rightarrow> ('a ConcurrentVector \<times> 'a cmem) option" where
  "cv_exec env (Ensure index) v mem = map_option snd (cv_ensure env index v mem)"
| "cv_exec env (Reserve sz) v mem = cv_reserve env sz v mem"
| "cv_exec env (FillN offset sz x) v mem = cv_fill_n env offset sz x v mem"
| "cv_exec env (CopyN src sz offset) v mem = cv_copy_n env src sz offset v mem"
| "cv_exec env (ForEach from to) v mem = map_option snd (cv_for_each env from to (\<lambda>_ n. Some (Suc n)) 0 v mem)"
| "cv_exec env (SetConstructor c) v mem = set_constructor env c v mem"
| "cv_exec env Gc v mem = cv_gc env v mem"
| "cv_exec env UnsafeGc v mem = cv_unsafe_gc v mem"

fun end_index :: "'a cv_op \<Rightarrow> nat" where
  "end_index (Ensure index) = Suc (unat index)"
| "end_index (Reserve sz) = unat sz"
| "end_index (FillN offset sz x) = unat offset + unat sz"
| "end_index (CopyN src sz offset) = unat offset + unat sz"
| "end_index (ForEach from to) = unat to"
| "end_index _ = 0"

text \<open>The index a block table of fewer than \<open>2^32\<close> blocks can hold, a source that is long enough, a range that does not end before it begins.\<close>

definition cv_op_ok :: "nat \<Rightarrow> 'a cv_op \<Rightarrow> bool" where
  "cv_op_ok k op \<longleftrightarrow> end_index op + 2 ^ k < 2 ^ (32 + k) \<and>
     (case op of CopyN src sz offset \<Rightarrow> unat sz \<le> length src | ForEach from to \<Rightarrow> from \<le> to | _ \<Rightarrow> True)"

lemma cv_op_ok_mono:
  assumes "cv_op_ok k op" and "k \<le> k'"
  shows "cv_op_ok k' op"
proof -
  have "4294967295 * (2 :: nat) ^ k \<le> 4294967295 * 2 ^ k'" using assms(2) by (intro mult_left_mono power_increasing) simp_all
  then show ?thesis using assms(1) by (auto simp: cv_op_ok_def power_add intro: less_le_trans)
qed

lemma unsafe_gc_ok:
  assumes inv: "cv_inv k tab R v mem"
  shows "\<exists>v' mem'. cv_unsafe_gc v mem = Some (v', mem') \<and> cv_inv k tab [] v' mem'"
proof -
  let ?mem = "mem\<lparr>cm_nodes := (\<lambda>_. None)\<rparr>" and ?v = "v\<lparr>cv_retire_list := RetireList_new\<rparr>"
  have i: "rl_inv (cm_nodes mem) (cv_retire_list v) R" "distinct (map snd R)" "cv_block_table v \<notin> snd ` set R"
    "dom (cm_tables mem) = insert 0 (insert (cv_block_table v) (snd ` set R))"
    using inv by (simp_all add: cv_inv_def)
  have "set (map snd R) \<subseteq> dom (cm_tables ?mem)" using i(4) by auto
  from delete_block_tables_result [OF i(2) this] delete_list_inv [OF i(1)]
  have g: "cv_unsafe_gc v mem = Some (?v, ?mem\<lparr>cm_tables := cm_tables mem |` (- (set (map snd R) - {0}))\<rparr>)"
    by (cases "cv_retire_list v") (simp add: cv_unsafe_gc_def unsafe_gc_def RetireList_new_def)
  have "dom (cm_tables mem |` (- (set (map snd R) - {0}))) = {0, cv_block_table v}"
    using i(3,4) by (auto simp only: dom_restrict set_map Int_iff Compl_iff Diff_iff)
  then have "cv_inv k tab [] ?v (?mem\<lparr>cm_tables := cm_tables mem |` (- (set (map snd R) - {0}))\<rparr>)"
    using inv i(3) rl_inv_new by (auto simp: cv_inv_def restrict_map_def)
  then show ?thesis using g by (intro exI) auto
qed

text \<open>\<open>gc\<close> does what \<open>unsafe_gc\<close> does once the head has expired, and nothing before.\<close>

lemma gc_ok:
  assumes inv: "cv_inv k tab R v mem"
  shows "\<exists>v' mem' R'. cv_gc env v mem = Some (v', mem') \<and> cv_inv k tab R' v' mem' \<and> length R' \<le> length R"
proof (cases "expire (rl_head (cv_retire_list v)) (get_current_timestamp (ev_tv_sec env))")
  case False
  then show ?thesis using inv by (intro exI [of _ v] exI [of _ mem] exI [of _ R]) (auto simp: cv_gc_def gc_def)
next
  case True
  then have "cv_gc env v mem = cv_unsafe_gc v mem" by (simp add: cv_gc_def gc_def cv_unsafe_gc_def unsafe_gc_def Let_def)
  then show ?thesis using unsafe_gc_ok [OF inv] by (metis le0 list.size(3))
qed

lemma cv_op_bounds:
  assumes "e + 2 ^ k < 2 ^ (32 + k)" and "k < 32"
  shows "e + 2 ^ k \<le> 2 ^ 64" and "(e + 2 ^ k - 1) div 2 ^ k < (2::nat) ^ 32" and "Suc (e div 2 ^ k) < 2 ^ 32"
proof -
  have "(2::nat) ^ (32 + k) \<le> 2 ^ 64" using assms(2) by (intro power_increasing) simp_all
  then show "e + 2 ^ k \<le> 2 ^ 64" using assms(1) by linarith
  have s: "(e + 2 ^ k) div 2 ^ k < (2::nat) ^ 32" using assms(1) by (simp add: div_less_iff_less_mult power_add)
  have "(e + 2 ^ k - 1) div 2 ^ k \<le> (e + 2 ^ k) div (2::nat) ^ k" by (rule div_le_mono) simp
  then show "(e + 2 ^ k - 1) div 2 ^ k < (2::nat) ^ 32" using s by linarith
  have "(e + 2 ^ k) div 2 ^ k = Suc (e div 2 ^ k)" by (simp add: div_add_self2)
  then show "Suc (e div 2 ^ k) < 2 ^ 32" using s by simp
qed

lemma set_constructor_ok:
  assumes inv: "cv_inv k tab R v mem" and new: "new_node_spec N (ev_new_node env)" "length R < N"
  shows "\<exists>v' mem' tab' R'. set_constructor env c v mem = Some (v', mem') \<and> cv_inv k tab' R' v' mem' \<and> length R' \<le> Suc (length R)"
proof -
  let ?v = "v\<lparr>cv_constructor := c\<rparr>"
  have inv': "cv_inv k tab R ?v mem" using inv by (simp add: cv_inv_def)
  show ?thesis
  proof (cases c)
    case None
    then show ?thesis using inv' by (intro exI [of _ ?v] exI [of _ mem] exI [of _ tab] exI [of _ R]) (simp add: set_constructor_def)
  next
    case (Some x)
    have m: "meta_ok (cv_meta v) k" "k < 32" "length tab < 2 ^ 32" "cm_tables mem (cv_block_table v) = Some tab"
      using inv by (simp_all add: cv_inv_def meta_ok_def)
    let ?sz = "of_nat (cv_length k tab) :: u64"
    have "Suc (length tab) * 2 ^ k \<le> 2 ^ 32 * (2::nat) ^ k" using m(3) by (intro mult_right_mono) simp_all
    also have "\<dots> = 2 ^ (32 + k)" by (simp add: power_add)
    also have "\<dots> \<le> 2 ^ 63" using m(2) by (intro power_increasing) simp_all
    finally have b: "cv_length k tab + 2 ^ k \<le> 2 ^ 63" by (simp add: cv_length_def add.commute)
    then have u: "unat ?sz = cv_length k tab" by (intro unat_of_nat_small) simp
    have "(cv_length k tab + 2 ^ k - 1) div 2 ^ k \<le> length tab"
      unfolding cv_length_def using div_mult_self3 [of "2 ^ k" "length tab" "2 ^ k - 1 :: nat"] by simp
    then have q: "(unat (0 :: u64) + unat ?sz + 2 ^ k - 1) div 2 ^ k < 2 ^ 32" using m(3) u by simp
    have "unat (0 :: u64) + unat ?sz + 2 ^ k \<le> 2 ^ 64" using b u by simp
    note f = copy_fill_ok [OF inv' this q _ new, of "replicate (unat ?sz) x" x]
    have "cv_size ?v mem = Some ?sz"
      using m(4) meta_simps(3) [OF m(1)] m(2)
      by (simp add: cv_size_def Snapshot_size_def cv_snapshot_def cv_length_def push_bit_eq_mult mult.commute unat_of_nat)
    then have "set_constructor env c v mem = cv_fill_n env 0 ?sz x ?v mem" using Some by (simp add: set_constructor_def)
    then show ?thesis using f by (metis (no_types, lifting) length_replicate order_refl)
  qed
qed

lemma cv_for_each_ok:
  assumes inv: "cv_inv k tab R v mem" and sz: "unat to + 2 ^ k \<le> 2 ^ 64" "(unat to + 2 ^ k - 1) div 2 ^ k < 2 ^ 32" and le: "from \<le> to"
    and new: "new_node_spec N (ev_new_node env)" "length R < N"
  shows "\<exists>n v' mem' tab' R'. cv_for_each env from to (\<lambda>_ n. Some (Suc n)) 0 v mem = Some (n, v', mem') \<and> cv_inv k tab' R' v' mem' \<and> length R' \<le> Suc (length R)"
proof -
  from reserved_snapshot_grows [OF inv sz new] obtain v' mem' tab' R' where
    r: "reserved_snapshot env to v mem = Some (cv_snapshot v', v', mem')" "cv_inv k tab' R' v' mem'" "unat to \<le> cv_length k tab'" "length R' \<le> Suc (length R)" by metis
  have i: "meta_ok (cv_meta v') k" "length tab' < 2 ^ 32" "cm_tables mem' (cv_block_table v') = Some tab'" using r(2) by (simp_all add: cv_inv_def)
  have "\<exists>n. Snapshot_for_each (\<lambda>_ n. Some (Suc n)) tab' (cv_meta v') from to 0 = Some n \<and> True"
    using r(3) le by (intro Snapshot_for_each_rule [OF i(1,2), where I = "\<lambda>_ _. True"]) (simp_all add: cv_length_def word_le_nat_alt)
  then obtain n where "cv_for_each env from to (\<lambda>_ n. Some (Suc n)) 0 v mem = Some (n, v', mem')"
    using r(1) i(3) by (auto simp: cv_for_each_def cv_snapshot_def)
  then show ?thesis using r(2,4) by blast
qed

lemma cv_exec_ok:
  assumes inv: "cv_inv k tab R v mem" and ok: "cv_op_ok k op" and new: "new_node_spec N (ev_new_node env)" "length R < N"
  shows "\<exists>v' mem' tab' R'. cv_exec env op v mem = Some (v', mem') \<and> cv_inv k tab' R' v' mem' \<and> length R' \<le> Suc (length R)"
proof -
  have k: "k < 32" using inv by (simp add: cv_inv_def meta_ok_def)
  have b: "end_index op + 2 ^ k \<le> 2 ^ 64" "(end_index op + 2 ^ k - 1) div 2 ^ k < 2 ^ 32"
    using ok cv_op_bounds [of "end_index op" k, OF _ k] by (simp_all add: cv_op_ok_def)
  show ?thesis
  proof (cases op)
    case (Ensure index)
    have "unat index + 2 ^ k < 2 ^ (32 + k)" using ok Ensure by (simp add: cv_op_ok_def)
    then have "Suc (unat index div 2 ^ k) < 2 ^ 32" by (intro cv_op_bounds [OF _ k])
    from ensure_ok [OF inv this new] show ?thesis using Ensure by fastforce
  next
    case (Reserve sz)
    from reserved_snapshot_grows [OF inv _ _ new, of sz] b obtain v' mem' tab' R' where
      "reserved_snapshot env sz v mem = Some (cv_snapshot v', v', mem')" "cv_inv k tab' R' v' mem'" "length R' \<le> Suc (length R)"
      unfolding Reserve end_index.simps by metis
    then show ?thesis using Reserve by (auto simp: cv_reserve_def reserved_snapshot_def bind_eq_Some_conv)
  next
    case (FillN offset sz x)
    from copy_fill_ok [OF inv b [unfolded FillN end_index.simps] _ new, of "replicate (unat sz) x" x] show ?thesis
      unfolding FillN cv_exec.simps by force
  next
    case (CopyN src sz offset)
    have "unat sz \<le> length src" using ok CopyN by (simp add: cv_op_ok_def)
    from copy_fill_ok [OF inv b [unfolded CopyN end_index.simps] this new, of "ev_zero env"] show ?thesis unfolding CopyN cv_exec.simps by blast
  next
    case (ForEach b e)
    have "b \<le> e" using ok ForEach by (simp add: cv_op_ok_def)
    from cv_for_each_ok [OF inv b [unfolded ForEach end_index.simps] this new] show ?thesis using ForEach by fastforce
  next
    case (SetConstructor c)
    then show ?thesis using set_constructor_ok [OF inv new] by simp
  next
    case Gc
    then show ?thesis using gc_ok [OF inv, of env] unfolding Gc cv_exec.simps by (meson le_SucI)
  next
    case UnsafeGc
    then show ?thesis using unsafe_gc_ok [OF inv] by fastforce
  qed
qed

subsection \<open>Two vectors\<close>

text \<open>
  Two vectors of one type, each with its part of the memory: what it has allocated. \<open>swap\<close> and the moves exchange the members, so
  afterwards each vector's pointers are to be found in the part that was the other's. \<open>MoveConstruct\<close> destroys the first vector and constructs it
  from the second, whose new members own nothing yet; its argument is what \<open>_meta\<close> holds before the constructor runs.
\<close>

datatype 'a pair_op = OnFirst "'a cv_op" | OnSecond "'a cv_op" | SwapThem | MoveAssign | MoveConstruct Meta

type_synonym 'a owned = "'a ConcurrentVector \<times> 'a cmem"

fun pair_exec :: "'a cv_env \<Rightarrow> 'a pair_op \<Rightarrow> 'a owned \<times> 'a owned \<Rightarrow> ('a owned \<times> 'a owned) option" where
  "pair_exec env (OnFirst op) ((v1, mem1), o2) = do { o1 \<leftarrow> cv_exec env op v1 mem1; Some (o1, o2) }"
| "pair_exec env (OnSecond op) (o1, (v2, mem2)) = do { o2 \<leftarrow> cv_exec env op v2 mem2; Some (o1, o2) }"
| "pair_exec env SwapThem ((v1, mem1), (v2, mem2)) =
     (let (v1, v2) = ConcurrentVector_swap v1 v2 in Some ((v1, mem2), (v2, mem1)))"
| "pair_exec env MoveAssign ((v1, mem1), (v2, mem2)) =
     (let (v1, v2) = ConcurrentVector_move_assign v1 v2 in Some ((v1, mem2), (v2, mem1)))"
| "pair_exec env (MoveConstruct meta) ((v1, mem1), (v2, mem2)) = do {
     mem1 \<leftarrow> ConcurrentVector_destroy v1 mem1;
     (v1, v2) \<leftarrow> ConcurrentVector_move_construct meta v2;
     Some ((v1, mem2), (v2, mem1)) }"

text \<open>Operations at the times \<open>t\<close>.\<close>

fun pair_run :: "'a cv_env \<Rightarrow> (u64 \<times> 'a pair_op) list \<Rightarrow> 'a owned \<times> 'a owned \<Rightarrow> ('a owned \<times> 'a owned) option" where
  "pair_run env [] p = Some p"
| "pair_run env ((t, op) # ops) p = do { p \<leftarrow> pair_exec (env\<lparr>ev_tv_sec := t\<rparr>) op p; pair_run env ops p }"

text \<open>The default block size is 1024; a static one is a power of two.\<close>

fun pair_op_ok :: "nat \<Rightarrow> 'a pair_op \<Rightarrow> bool" where
  "pair_op_ok k (OnFirst op) \<longleftrightarrow> cv_op_ok k op"
| "pair_op_ok k (OnSecond op) \<longleftrightarrow> cv_op_ok k op"
| "pair_op_ok k (MoveConstruct (DynamicMeta m b)) \<longleftrightarrow> k \<le> 10"
| "pair_op_ok k (MoveConstruct (StaticMeta B)) \<longleftrightarrow> (\<exists>k'\<ge>k. meta_ok (StaticMeta B) k')"
| "pair_op_ok k _ \<longleftrightarrow> True"

definition owns :: "nat \<Rightarrow> nat \<Rightarrow> 'a owned \<Rightarrow> bool" where
  "owns k n p \<longleftrightarrow> (\<exists>k' tab R. k \<le> k' \<and> cv_inv k' tab R (fst p) (snd p) \<and> length R \<le> n)"

lemma ConcurrentVector_swap_eq: "ConcurrentVector_swap this other = (other, this)"
  by (cases this; cases other; cases "cv_retire_list this"; cases "cv_retire_list other")
    (simp add: ConcurrentVector_swap_def RetireList_move_construct_def RetireList_move_assign_def)

lemma owns_Suc: "owns k n p \<Longrightarrow> owns k (Suc n) p"
  by (auto simp: owns_def intro: le_SucI)

lemma exec_owns:
  assumes "owns k n p" and "cv_op_ok k op" and "new_node_spec N (ev_new_node env)" and "n < N"
  shows "\<exists>p'. cv_exec env op (fst p) (snd p) = Some p' \<and> owns k (Suc n) p'"
proof -
  from assms(1) obtain k' tab R where i: "k \<le> k'" "cv_inv k' tab R (fst p) (snd p)" "length R \<le> n" by (auto simp: owns_def)
  have N: "length R < N" using i(3) assms(4) by simp
  from cv_exec_ok [OF i(2) cv_op_ok_mono [OF assms(2) i(1)] assms(3) N] obtain v' mem' tab' R' where
    r: "cv_exec env op (fst p) (snd p) = Some (v', mem')" "cv_inv k' tab' R' v' mem'" "length R' \<le> Suc (length R)" by blast
  have "length R' \<le> Suc n" using r(3) i(3) by linarith
  then have "owns k (Suc n) (v', mem')" using i(1) r(2) by (auto simp: owns_def)
  then show ?thesis using r(1) by blast
qed

lemma default_construct:
  assumes "pair_op_ok k (MoveConstruct m :: 'a pair_op)"
  shows "\<exists>v k'. ConcurrentVector_construct m DEFAULT_BLOCK_SIZE c = Some v \<and> meta_ok (cv_meta v) k' \<and> k \<le> k'"
proof (cases m)
  case (DynamicMeta bm bits)
  have "set_block_size_loop 1024 (2 ^ 0) (2 ^ 0 - 1) (of_nat 0) = Some (2 ^ (0 + 10), 2 ^ (0 + 10) - 1, of_nat (0 + 10))"
  proof (rule set_block_size_loop_power)
    show "\<forall>i<0 + 10. 2 ^ i < unat (1024 :: u64)"
      using power_strict_increasing [of _ 10 "2 :: nat"] by simp
  qed simp_all
  then show ?thesis
    using assms DynamicMeta
    by (auto simp: ConcurrentVector_construct_def DEFAULT_BLOCK_SIZE_def meta_ok_def intro!: exI [of _ 10])
next
  case (StaticMeta B)
  then show ?thesis using assms by (auto simp: ConcurrentVector_construct_def)
qed

lemma pair_exec_ok:
  assumes o1: "owns k n p1" and o2: "owns k n p2" and ok: "pair_op_ok k op" and new: "new_node_spec N (ev_new_node env)" "n < N"
  shows "\<exists>p1' p2'. pair_exec env op (p1, p2) = Some (p1', p2') \<and> owns k (Suc n) p1' \<and> owns k (Suc n) p2'"
proof -
  obtain v1 mem1 v2 mem2 where p: "p1 = (v1, mem1)" "p2 = (v2, mem2)" by (metis prod.exhaust)
  have s: "owns k (Suc n) (v1, mem1)" "owns k (Suc n) (v2, mem2)" using owns_Suc [OF o1] owns_Suc [OF o2] by (simp_all add: p)
  show ?thesis
  proof (cases op)
    case (OnFirst a)
    then show ?thesis using exec_owns [OF o1 _ new, of a] ok s(2) by (auto simp: p)
  next
    case (OnSecond a)
    then show ?thesis using exec_owns [OF o2 _ new, of a] ok s(1) by (auto simp: p)
  next
    case SwapThem
    then show ?thesis using s by (simp add: p ConcurrentVector_swap_eq)
  next
    case MoveAssign
    then show ?thesis using s by (simp add: p ConcurrentVector_move_assign_def ConcurrentVector_swap_eq)
  next
    case (MoveConstruct m)
    from o1 obtain k' tab R where i: "cv_inv k' tab R v1 mem1" by (auto simp: owns_def p)
    then have f: "0 < cm_fresh mem1" by (auto simp: cv_inv_def)
    from destroy_frees [OF i] obtain e where e: "ConcurrentVector_destroy v1 mem1 = Some e" "nothing_left e" "cm_fresh e = cm_fresh mem1" by blast
    from default_construct [of k m "cv_constructor v2"] ok MoveConstruct obtain v k' where
      v: "ConcurrentVector_construct m DEFAULT_BLOCK_SIZE (cv_constructor v2) = Some v" "meta_ok (cv_meta v) k'" "k \<le> k'" by auto
    have "cv_inv k' [] [] v e" using construct_inv_empty [OF v(1,2) e(2)] f e(3) by simp
    then have "owns k (Suc n) (v, e)" using v(3) unfolding owns_def by (intro exI [of _ k'] exI [of _ "[]"]) simp
    then show ?thesis
      using s(2) e(1) v(1) MoveConstruct by (simp add: p ConcurrentVector_move_construct_def ConcurrentVector_swap_eq)
  qed
qed

lemma pair_run_ok:
  "owns k n p1 \<Longrightarrow> owns k n p2 \<Longrightarrow> \<forall>(t, op)\<in>set ops. pair_op_ok k op \<Longrightarrow> new_node_spec N (ev_new_node env) \<Longrightarrow> n + length ops \<le> N \<Longrightarrow>
   \<exists>p1' p2' n'. pair_run env ops (p1, p2) = Some (p1', p2') \<and> owns k n' p1' \<and> owns k n' p2'"
proof (induction ops arbitrary: p1 p2 n)
  case (Cons x ops)
  obtain t op where x: "x = (t, op)" by fastforce
  have "\<exists>p1' p2'. pair_exec (env\<lparr>ev_tv_sec := t\<rparr>) op (p1, p2) = Some (p1', p2') \<and> owns k (Suc n) p1' \<and> owns k (Suc n) p2'"
    using Cons.prems x by (intro pair_exec_ok [of k n _ _ _ N]) auto
  then obtain q1 q2 where q: "pair_exec (env\<lparr>ev_tv_sec := t\<rparr>) op (p1, p2) = Some (q1, q2)" "owns k (Suc n) q1" "owns k (Suc n) q2" by blast
  have "\<exists>p1' p2' n'. pair_run env ops (q1, q2) = Some (p1', p2') \<and> owns k n' p1' \<and> owns k n' p2'"
    using Cons.prems by (intro Cons.IH [OF q(2,3)]) auto
  then show ?case using q(1) x by simp
qed auto

lemma owns_destroy: "owns k n (v, mem) \<Longrightarrow> \<exists>mem'. ConcurrentVector_destroy v mem = Some mem' \<and> nothing_left mem'"
  using destroy_frees by (fastforce simp: owns_def)

text \<open>
  C38: Two vectors from their construction on, through any sequence of \<open>ensure\<close>, \<open>reserve\<close>, \<open>fill_n\<close>, \<open>copy_n\<close>, \<open>for_each\<close>, \<open>set_constructor\<close>,
  \<open>gc\<close> and \<open>unsafe_gc\<close> on either, of swaps, move assignments and move constructions between them (by one thread, with indices that the block table can hold: the
  table has fewer than \<open>2^32\<close> blocks of at least \<open>2^k\<close> elements): every operation returns without an access outside the blocks,
  and the two destructors then give back every block, every table and every node of the retire lists, each once.
\<close>

theorem vector_leaves_nothing_behind:
  assumes "ConcurrentVector_construct m1 hint1 c1 = Some v1" and "meta_ok (cv_meta v1) k1" and "k \<le> k1"
    and "ConcurrentVector_construct m2 hint2 c2 = Some v2" and "meta_ok (cv_meta v2) k2" and "k \<le> k2"
    and "\<forall>(t, op)\<in>set ops. pair_op_ok k op" and "new_node_spec N (ev_new_node env)" and "length ops \<le> N"
  shows "\<exists>v1' mem1 v2' mem2 mem1' mem2'. pair_run env ops ((v1, cmem0), (v2, cmem0)) = Some ((v1', mem1), (v2', mem2))
    \<and> ConcurrentVector_destroy v1' mem1 = Some mem1' \<and> ConcurrentVector_destroy v2' mem2 = Some mem2'
    \<and> nothing_left mem1' \<and> nothing_left mem2'"
proof -
  have "owns k 0 (v1, cmem0)" "owns k 0 (v2, cmem0)"
    using construct_inv [OF assms(1,2)] construct_inv [OF assms(4,5)] assms(3,6) by (auto simp: owns_def)
  from pair_run_ok [OF this assms(7,8)] assms(9) obtain v1' mem1 v2' mem2 n where
    r: "pair_run env ops ((v1, cmem0), (v2, cmem0)) = Some ((v1', mem1), (v2', mem2))" "owns k n (v1', mem1)" "owns k n (v2', mem2)" by auto
  from owns_destroy [OF r(2)] owns_destroy [OF r(3)] r(1) show ?thesis by blast
qed

section \<open>Samples\<close>

definition sample_env :: "nat cv_env" where
  "sample_env = \<lparr>ev_zero = 0, ev_new_node = new_node_ref 9, ev_tv_sec = 5000\<rparr>"

definition sample_cv :: "nat ConcurrentVector" where
  "sample_cv = \<lparr>cv_meta = StaticMeta 4, cv_constructor = Some 7, cv_block_table = 0, cv_retire_list = RetireList_new\<rparr>"

lemma sample_cv_construct: "ConcurrentVector_construct (StaticMeta 4) 1024 (Some 7) = Some sample_cv"
  by (simp add: ConcurrentVector_construct_def sample_cv_def EMPTY_BLOCK_TABLE_def)

lemma sample_cv_ok: "meta_ok (cv_meta sample_cv) 2" "cv_inv 2 [] [] sample_cv cmem0" "new_node_spec 9 (ev_new_node sample_env)" "new_value sample_env sample_cv = 7"
proof -
  show m: "meta_ok (cv_meta sample_cv) 2" by (simp add: sample_cv_def meta_ok_def)
  show "cv_inv 2 [] [] sample_cv cmem0" by (rule construct_inv [OF sample_cv_construct m])
  show "new_node_spec 9 (ev_new_node sample_env)" by (simp add: sample_env_def new_node_ref_spec)
  show "new_value sample_env sample_cv = 7" by (simp add: new_value_def sample_cv_def)
qed

theorem ensure_keeps_elements_witness:
  "\<exists>p v' mem' tab' R'. cv_ensure sample_env 9 sample_cv cmem0 = Some (p, v', mem') \<and> cv_inv 2 tab' R' v' mem' \<and> cv_at v' 9 mem' = Some p
     \<and> 9 < cv_length 2 tab' \<and> cv_elem 2 tab' mem' 9 = 7"
  using ensure_keeps_elements [OF sample_cv_ok(2), of 9 9 sample_env] sample_cv_ok(3,4) by (fastforce simp: cv_length_def)

lemma map_upt_eqI: "(\<And>i. m \<le> i \<Longrightarrow> i < n \<Longrightarrow> f i = g i) \<Longrightarrow> map f [m..<n] = map g [m..<n]"
  by simp

theorem copy_and_fill_write_their_range_witness:
  "(\<exists>v' mem' tab' R'. cv_copy_n sample_env [1, 2, 3, 4, 5, 6] 6 3 sample_cv cmem0 = Some (v', mem') \<and> cv_inv 2 tab' R' v' mem'
      \<and> map (cv_elem 2 tab' mem') [2..<9] = [7, 1, 2, 3, 4, 5, 6])
   \<and> (\<exists>v' mem' tab' R'. cv_fill_n sample_env 3 6 8 sample_cv cmem0 = Some (v', mem') \<and> cv_inv 2 tab' R' v' mem'
      \<and> map (cv_elem 2 tab' mem') [2..<9] = [7, 8, 8, 8, 8, 8, 8])"
proof -
  note c = copy_and_fill_write_their_range [OF sample_cv_ok(2), of 3 6 "[1, 2, 3, 4, 5, 6]" 9 sample_env 8, simplified sample_cv_ok(3,4), simplified]
  from c obtain v1 mem1 tab1 R1 where
    1: "cv_copy_n sample_env [1, 2, 3, 4, 5, 6] 6 3 sample_cv cmem0 = Some (v1, mem1)" "cv_inv 2 tab1 R1 v1 mem1" "9 \<le> cv_length 2 tab1"
      "\<forall>j<cv_length 2 tab1. cv_elem 2 tab1 mem1 j = (if 3 \<le> j \<and> j < 9 then [1, 2, 3, 4, 5, 6] ! (j - 3) else if j < cv_length 2 [] then cv_elem 2 [] cmem0 j else 7)"
    by auto
  from c obtain v2 mem2 tab2 R2 where
    2: "cv_fill_n sample_env 3 6 8 sample_cv cmem0 = Some (v2, mem2)" "cv_inv 2 tab2 R2 v2 mem2" "9 \<le> cv_length 2 tab2"
      "\<forall>j<cv_length 2 tab2. cv_elem 2 tab2 mem2 j = (if 3 \<le> j \<and> j < 9 then 8 else if j < cv_length 2 [] then cv_elem 2 [] cmem0 j else 7)"
    by auto
  have "map (cv_elem 2 tab1 mem1) [2..<9] = map (\<lambda>j. if 3 \<le> j \<and> j < 9 then [1, 2, 3, 4, 5, 6] ! (j - 3) else 7) [2..<9]"
    "map (cv_elem 2 tab2 mem2) [2..<9] = map (\<lambda>j. if 3 \<le> j \<and> j < 9 then 8 else 7) [2..<9]"
    using 1(3,4) 2(3,4) by (auto intro!: map_upt_eqI simp: cv_length_def)
  moreover have "map (\<lambda>j. if 3 \<le> j \<and> j < 9 then [1, 2, 3, 4, 5, 6] ! (j - 3) else 7) [2..<9] = [7, 1, 2, 3, 4, 5, 6::nat]"
    "map (\<lambda>j. if 3 \<le> j \<and> j < 9 then 8 else 7) [2..<9] = [7, 8, 8, 8, 8, 8, 8::nat]" by (simp_all add: upt_rec)
  ultimately show ?thesis using 1(1,2) 2(1,2) by auto
qed

text \<open>
  The first vector grows (retiring a table), the two are swapped, the second (with the retired table) is collected, the first is destroyed and
  constructed from the second.
\<close>

theorem vector_leaves_nothing_behind_witness:
  "\<exists>v1' mem1 v2' mem2 mem1' mem2'.
     pair_run sample_env [(5000, OnFirst (Ensure 9)), (5003, OnFirst (FillN 3 20 2)), (5004, OnSecond (SetConstructor (Some 5))), (5005, SwapThem),
         (5006, OnSecond UnsafeGc), (5400, OnFirst (Reserve 99)), (6000, OnSecond Gc), (6001, MoveConstruct (StaticMeta 4)), (6002, OnSecond (CopyN [1, 2] 2 1))]
       ((sample_cv, cmem0), (sample_cv, cmem0)) = Some ((v1', mem1), (v2', mem2))
    \<and> ConcurrentVector_destroy v1' mem1 = Some mem1' \<and> ConcurrentVector_destroy v2' mem2 = Some mem2'
    \<and> nothing_left mem1' \<and> nothing_left mem2'"
  by (rule vector_leaves_nothing_behind [OF sample_cv_construct sample_cv_ok(1) order_refl sample_cv_construct sample_cv_ok(1) order_refl _ sample_cv_ok(3)])
    (use sample_cv_ok(1) in \<open>auto simp: cv_op_ok_def sample_cv_def\<close>)

end
