(* ===== verification/IdAllocator.thy ===== *)
theory IdAllocator
  imports ConcurrentVectorOps
begin

text \<open>
  \<open>base/id_allocator.h\<close> and \<open>base/id_allocator.hpp\<close>: \<open>IdAllocator\<close>, which hands out small identifiers and takes them back, and
  \<open>ThreadId\<close> on top of it. Free identifiers form a list threaded through an array: \<open>_free_next_value[i]\<close> is the
  next free identifier, or \<open>ACTIVE_FLAG\<close> while \<open>i\<close> is in use.

  The allocator is written over what it uses of the array, \<open>array_ops\<close>; the locale \<open>free_next_array\<close> states
  what it relies on, and \<open>ConcurrentVector\<close> is shown to provide it. The width of identifiers stays open: the code allows 16 and 32 bits.
  One thread is considered, so a compare-exchange succeeds.
\<close>

section \<open>Model\<close>

record 'v VersionedValue =
  vv_value :: 'v
  vv_version :: 'v

text \<open>\<open>VersionedValue(version_and_value)\<close> of a value that fits the lower half: the version is 0.\<close>

definition VersionedValue_of :: "'w::len word \<Rightarrow> 'w word VersionedValue" where
  "VersionedValue_of version_and_value = \<lparr>vv_value = version_and_value, vv_version = 0\<rparr>"

definition FREE_LIST_TAIL :: "'w::len word" where "FREE_LIST_TAIL = - 1"
definition ACTIVE_FLAG :: "'w::len word" where "ACTIVE_FLAG = FREE_LIST_TAIL - 1"

record ('v, 's) array_ops =
  arr_load :: "'v \<Rightarrow> 's \<Rightarrow> 'v option"
  arr_store :: "'v \<Rightarrow> 'v \<Rightarrow> 's \<Rightarrow> 's option"
  arr_ensure_store :: "'v \<Rightarrow> 'v \<Rightarrow> 's \<Rightarrow> 's option"
  arr_size :: "'s \<Rightarrow> nat option"
  arr_segments :: "nat \<Rightarrow> 's \<Rightarrow> 'v list list option"

record ('v, 's) IdAllocator =
  ia_next_value :: "'v"
  ia_free_head :: "'v VersionedValue"
  ia_free_next_value :: 's

definition IdAllocator_new :: "'s \<Rightarrow> ('w::len word, 's) IdAllocator" where
  "IdAllocator_new s = \<lparr>ia_next_value = 0, ia_free_head = VersionedValue_of FREE_LIST_TAIL, ia_free_next_value = s\<rparr>"

definition allocate :: "('w::len word, 's) array_ops \<Rightarrow> ('w word, 's) IdAllocator \<Rightarrow> ('w word VersionedValue \<times> ('w word, 's) IdAllocator) option" where
  "allocate ops ia = do {
     let current_head = ia_free_head ia;
     if vv_value current_head \<noteq> FREE_LIST_TAIL
     then do {
       x \<leftarrow> arr_load ops (vv_value current_head) (ia_free_next_value ia);
       let new_head = \<lparr>vv_value = x, vv_version = vv_version current_head\<rparr>;
       s \<leftarrow> arr_store ops (vv_value current_head) ACTIVE_FLAG (ia_free_next_value ia);
       Some (current_head, ia\<lparr>ia_free_head := new_head, ia_free_next_value := s\<rparr>) }
     else do {
       let current_head = VersionedValue_of (ia_next_value ia);
       s \<leftarrow> arr_ensure_store ops (vv_value current_head) ACTIVE_FLAG (ia_free_next_value ia);
       Some (current_head, ia\<lparr>ia_next_value := ia_next_value ia + 1, ia_free_next_value := s\<rparr>) } }"

definition deallocate :: "('w::len word, 's) array_ops \<Rightarrow> 'w word VersionedValue \<Rightarrow> ('w word, 's) IdAllocator \<Rightarrow> ('w word, 's) IdAllocator option" where
  "deallocate ops i ia = do {
     let current_head = ia_free_head ia;
     let i = i\<lparr>vv_version := vv_version current_head + 1\<rparr>;
     s \<leftarrow> arr_store ops (vv_value i) (vv_value current_head) (ia_free_next_value ia);
     Some (ia\<lparr>ia_free_head := i, ia_free_next_value := s\<rparr>) }"

definition IdAllocator_end :: "('w::len word, 's) IdAllocator \<Rightarrow> 'w word" where
  "IdAllocator_end ia = ia_next_value ia"

text \<open>
  The callback \<open>for_each\<close> passes to the snapshot: the \<open>while\<close> loop over one segment. The state is \<open>iter_value\<close>, \<open>start_value\<close>
  and the calls of the user's callback so far.
\<close>

type_synonym 'w scan = "'w word \<times> 'w word \<times> ('w word \<times> 'w word) list"

function scan_segment :: "'w::len word list \<Rightarrow> 'w scan \<Rightarrow> 'w scan" where
  "scan_segment xs (iter_value, start_value, calls) =
     (if xs = [] then (iter_value, start_value, calls)
      else if start_value \<noteq> FREE_LIST_TAIL
      then let stop = length (takeWhile (\<lambda>x. x = ACTIVE_FLAG) xs); stop_value = of_nat stop + iter_value in
        if stop \<noteq> length xs then scan_segment (drop (Suc stop) xs) (stop_value + 1, FREE_LIST_TAIL, calls @ [(start_value, stop_value)])
        else (stop_value, start_value, calls)
      else let stop = length (takeWhile (\<lambda>x. x \<noteq> ACTIVE_FLAG) xs); stop_value = of_nat stop + iter_value in
        if stop \<noteq> length xs then scan_segment (drop (Suc stop) xs) (stop_value + 1, stop_value, calls)
        else (stop_value, start_value, calls))"
  by pat_completeness auto
termination by (relation "measure (\<lambda>(xs, _). length xs)") auto

declare scan_segment.simps [simp del]

definition IdAllocator_for_each :: "('w::len word, 's) array_ops \<Rightarrow> ('w word, 's) IdAllocator \<Rightarrow> ('w word \<times> 'w word) list option" where
  "IdAllocator_for_each ops ia = do {
     sz \<leftarrow> arr_size ops (ia_free_next_value ia);
     segments \<leftarrow> arr_segments ops (min sz (unat (ia_next_value ia))) (ia_free_next_value ia);
     let (iter_value, start_value, calls) = fold scan_segment segments (0, FREE_LIST_TAIL, []);
     Some (if start_value < iter_value then calls @ [(start_value, iter_value)] else calls) }"

section \<open>Scanning\<close>

text \<open>One element at a time.\<close>

fun scan_one :: "'w::len word \<Rightarrow> 'w scan \<Rightarrow> 'w scan" where
  "scan_one x (iter_value, start_value, calls) =
     (iter_value + 1,
      if start_value \<noteq> FREE_LIST_TAIL then (if x = ACTIVE_FLAG then start_value else FREE_LIST_TAIL)
      else (if x = ACTIVE_FLAG then iter_value else FREE_LIST_TAIL),
      if start_value \<noteq> FREE_LIST_TAIL \<and> x \<noteq> ACTIVE_FLAG then calls @ [(start_value, iter_value)] else calls)"

lemma fold_scan_one_active:
  "s \<noteq> FREE_LIST_TAIL \<Longrightarrow> \<forall>x\<in>set xs. x = ACTIVE_FLAG \<Longrightarrow> fold scan_one xs (i, s, c) = (of_nat (length xs) + i, s, c)"
  by (induction xs arbitrary: i) auto

lemma fold_scan_one_free:
  "\<forall>x\<in>set xs. x \<noteq> ACTIVE_FLAG \<Longrightarrow> fold scan_one xs (i, FREE_LIST_TAIL, c) = (of_nat (length xs) + i, FREE_LIST_TAIL, c)"
  by (induction xs arbitrary: i) auto

lemma split_at_stop:
  assumes "length (takeWhile P xs) \<noteq> length xs"
  obtains x where "xs = takeWhile P xs @ x # drop (Suc (length (takeWhile P xs))) xs" and "\<not> P x"
proof -
  let ?n = "length (takeWhile P xs)"
  have n: "?n < length xs" using assms length_takeWhile_le [of P xs] by linarith
  have "xs = take ?n xs @ xs ! ?n # drop (Suc ?n) xs" using n by (simp add: Cons_nth_drop_Suc)
  then show ?thesis using that nth_length_takeWhile [OF n] by (metis takeWhile_eq_take)
qed

lemma takeWhile_all_set: "length (takeWhile P xs) = length xs \<Longrightarrow> \<forall>x\<in>set xs. P x"
  by (induction xs) (auto split: if_splits)

text \<open>A segment is scanned as its elements are, so the borders of the segments do not matter.\<close>

lemma scan_segment_fold: "scan_segment xs st = fold scan_one xs st"
proof (induction xs st rule: scan_segment.induct)
  case (1 xs i s c)
  show ?case
  proof (cases "xs = []")
    case True
    then show ?thesis by (simp add: scan_segment.simps)
  next
    case ne: False
    show ?thesis
    proof (cases "s \<noteq> FREE_LIST_TAIL")
      case True
      let ?t = "takeWhile (\<lambda>x. x = ACTIVE_FLAG) xs"
      show ?thesis
      proof (cases "length ?t = length xs")
        case all: True
        then show ?thesis using ne True fold_scan_one_active [OF True takeWhile_all_set [OF all]]
          by (subst scan_segment.simps) (simp add: Let_def)
      next
        case False
        then obtain x where x: "xs = ?t @ x # drop (Suc (length ?t)) xs" "x \<noteq> ACTIVE_FLAG" by (rule split_at_stop)
        have t: "fold scan_one ?t (i, s, c) = (of_nat (length ?t) + i, s, c)" using True by (intro fold_scan_one_active) (auto dest: set_takeWhileD)
        have "fold scan_one xs (i, s, c) = fold scan_one (drop (Suc (length ?t)) xs) (of_nat (length ?t) + i + 1, FREE_LIST_TAIL, c @ [(s, of_nat (length ?t) + i)])"
          by (subst x(1)) (use True x(2) t in simp)
        then show ?thesis using ne True False 1(1) by (subst scan_segment.simps) (simp add: Let_def)
      qed
    next
      case free: False
      let ?t = "takeWhile (\<lambda>x. x \<noteq> ACTIVE_FLAG) xs"
      show ?thesis
      proof (cases "length ?t = length xs")
        case all: True
        then show ?thesis using ne free fold_scan_one_free [OF takeWhile_all_set [OF all]]
          by (subst scan_segment.simps) (simp add: Let_def)
      next
        case False
        then obtain x where x: "xs = ?t @ x # drop (Suc (length ?t)) xs" "\<not> x \<noteq> ACTIVE_FLAG" by (rule split_at_stop)
        have t: "fold scan_one ?t (i, FREE_LIST_TAIL, c) = (of_nat (length ?t) + i, FREE_LIST_TAIL, c)" by (intro fold_scan_one_free) (auto dest: set_takeWhileD)
        have "fold scan_one xs (i, s, c) = fold scan_one (drop (Suc (length ?t)) xs) (of_nat (length ?t) + i + 1, of_nat (length ?t) + i, c)"
          by (subst x(1)) (use free x(2) t in simp)
        then show ?thesis using ne free False 1(2) by (subst scan_segment.simps) (simp add: Let_def)
      qed
    qed
  qed
qed

text \<open>The identifiers in a list of ranges.\<close>

definition covered :: "('w::len word \<times> 'w word) list \<Rightarrow> nat set" where
  "covered calls = (\<Union>(b, e)\<in>set calls. {unat b..<unat e})"

text \<open>Ranges that are not empty, in ascending order, with a gap between them.\<close>

definition separated :: "('w::len word \<times> 'w word) list \<Rightarrow> bool" where
  "separated calls \<longleftrightarrow> (\<forall>(b, e)\<in>set calls. b < e) \<and> sorted_wrt (\<lambda>p q. snd p < fst q) calls"

lemma covered_snoc [simp]: "covered (calls @ [(b, e)]) = covered calls \<union> {unat b..<unat e}" "covered [] = {}"
  by (auto simp: covered_def)

lemma separated_snoc: "separated calls \<Longrightarrow> b < e \<Longrightarrow> \<forall>q\<in>set calls. snd q < b \<Longrightarrow> separated (calls @ [(b, e)])"
  by (auto simp: separated_def sorted_wrt_append)

definition actives :: "'w::len word list \<Rightarrow> nat set" where
  "actives xs = {j. j < length xs \<and> xs ! j = ACTIVE_FLAG}"

lemma actives_snoc: "actives (xs @ [x]) = (if x = ACTIVE_FLAG then insert (length xs) (actives xs) else actives xs)"
  by (auto simp: actives_def nth_append less_Suc_eq)

definition scan_inv :: "'w::len word list \<Rightarrow> 'w scan \<Rightarrow> bool" where
  "scan_inv xs st \<longleftrightarrow> (case st of (i, s, calls) \<Rightarrow> i = of_nat (length xs) \<and> separated calls \<and>
     (if s = FREE_LIST_TAIL then covered calls = actives xs \<and> (\<forall>q\<in>set calls. snd q < i)
      else s < i \<and> covered calls \<union> {unat s..<length xs} = actives xs \<and> (\<forall>q\<in>set calls. snd q < s)))"

lemma unat_tail: "unat (FREE_LIST_TAIL :: 'w::len word) = 2 ^ LENGTH('w) - 1"
  by (simp add: FREE_LIST_TAIL_def unsigned_minus_1_eq_mask mask_eq_exp_minus_1)

lemma scan_inv_step:
  fixes xs :: "'w::len word list"
  assumes "scan_inv xs st" and n: "Suc (length xs) < 2 ^ LENGTH('w)"
  shows "scan_inv (xs @ [x]) (scan_one x st)"
proof -
  obtain i s calls where st: "st = (i, s, calls)" by (cases st)
  have u: "unat (of_nat (length xs) :: 'w word) = length xs" "unat (of_nat (Suc (length xs)) :: 'w word) = Suc (length xs)"
    using n by (intro unat_of_nat_small; simp)+
  have i: "i = of_nat (length xs)" "i + 1 = of_nat (Suc (length xs))" using assms(1) by (simp_all add: scan_inv_def st add.commute)
  have lt: "i < i + 1" using u i by (simp add: word_less_nat_alt del: of_nat_Suc)
  have ne: "i \<noteq> FREE_LIST_TAIL" using u(1) i(1) n unat_tail [where 'w = 'w] by (metis Suc_lessD diff_Suc_1 less_imp_Suc_add nat_less_le not_less_eq)
  show ?thesis
  proof (cases "s = FREE_LIST_TAIL")
    case True
    then have a: "separated calls" "covered calls = actives xs" "\<forall>q\<in>set calls. snd q < i" using assms(1) unfolding scan_inv_def st by auto
    then have "\<forall>q\<in>set calls. snd q < i + 1" using lt by fastforce
    moreover have "{unat i..<Suc (length xs)} = {length xs}" using i(1) u(1) by auto
    ultimately show ?thesis
      using True a i ne lt by (auto simp: scan_inv_def st actives_snoc)
  next
    case False
    then have a: "separated calls" "covered calls \<union> {unat s..<length xs} = actives xs" "\<forall>q\<in>set calls. snd q < s" "s < i"
      using assms(1) unfolding scan_inv_def st by auto
    have sl: "unat s < length xs" using a(4) u(1) i(1) by (simp add: word_less_nat_alt)
    have "{unat s..<Suc (length xs)} = insert (length xs) {unat s..<length xs}" using sl by auto
    moreover have "separated (calls @ [(s, i)])" using a by (intro separated_snoc)
    moreover have "\<forall>q\<in>set (calls @ [(s, i)]). snd q < i + 1" using a(3,4) lt by fastforce
    moreover have "s < i + 1" using a(4) lt by simp
    ultimately show ?thesis
      using False a i u by (auto simp: scan_inv_def st actives_snoc)
  qed
qed

lemma scan_inv_fold:
  fixes xs :: "'w::len word list"
  assumes "length xs < 2 ^ LENGTH('w)"
  shows "scan_inv xs (fold scan_one xs (0, FREE_LIST_TAIL, []))"
  using assms
proof (induction xs rule: rev_induct)
  case Nil
  then show ?case by (simp add: scan_inv_def separated_def actives_def)
next
  case (snoc x xs)
  then show ?case using scan_inv_step [of xs] by simp
qed

lemma fold_segments: "fold scan_segment segs st = fold scan_one (concat segs) st"
  by (induction segs arbitrary: st) (simp_all add: scan_segment_fold)

lemma scan_result:
  fixes xs :: "'w::len word list"
  assumes "length xs < 2 ^ LENGTH('w)" and "concat segs = xs"
  shows "\<exists>i s calls. fold scan_segment segs (0, FREE_LIST_TAIL, []) = (i, s, calls) \<and>
    covered (if s < i then calls @ [(s, i)] else calls) = actives xs \<and> separated (if s < i then calls @ [(s, i)] else calls)"
proof -
  obtain i s calls where r: "fold scan_one xs (0, FREE_LIST_TAIL, []) = (i, s, calls)" by (metis prod_cases3)
  have inv: "scan_inv xs (i, s, calls)" using scan_inv_fold [OF assms(1)] r by simp
  have u: "unat (of_nat (length xs) :: 'w word) = length xs" using assms(1) by (rule unat_of_nat_small)
  have m: "\<not> FREE_LIST_TAIL < i" using unat_tail [where 'w = 'w] unat_less_2p [of i] unfolding word_less_nat_alt by linarith
  show ?thesis
    unfolding fold_segments assms(2) r using inv u m
    by (cases "s = FREE_LIST_TAIL") (auto simp: scan_inv_def intro!: separated_snoc)
qed

end
