(* ===== verification/IdAllocatorSpec.thy ===== *)
theory IdAllocatorSpec
  imports IdAllocator
begin

text \<open>
  Correctness of \<open>IdAllocator\<close>: identifiers in use are never handed out again, a versioned identifier is never handed out twice, and
  \<open>for_each\<close> reports exactly those in use. The locale \<open>free_next_array\<close> is the contract of the array; the allocator is verified inside it
  and \<open>ConcurrentVector\<close> interprets it.
\<close>

section \<open>The contract of the array\<close>

locale free_next_array =
  fixes ops :: "('w::len word, 's) array_ops" and invar :: "'s \<Rightarrow> bool" and len :: "'s \<Rightarrow> nat" and val :: "'s \<Rightarrow> nat \<Rightarrow> 'w word"
  assumes load: "invar s \<Longrightarrow> unat i < len s \<Longrightarrow> arr_load ops i s = Some (val s (unat i))"
    and store: "invar s \<Longrightarrow> unat i < len s \<Longrightarrow>
      \<exists>s'. arr_store ops i x s = Some s' \<and> invar s' \<and> len s' = len s \<and> (\<forall>j<len s. val s' j = (if j = unat i then x else val s j))"
    and ensure_store: "invar s \<Longrightarrow>
      \<exists>s'. arr_ensure_store ops i x s = Some s' \<and> invar s' \<and> len s \<le> len s' \<and> unat i < len s' \<and>
        (\<forall>j<len s'. j < len s \<or> j = unat i \<longrightarrow> val s' j = (if j = unat i then x else val s j))"
    and size: "invar s \<Longrightarrow> arr_size ops s = Some (len s)"
    and segments: "invar s \<Longrightarrow> n \<le> len s \<Longrightarrow> n < 2 ^ LENGTH('w) \<Longrightarrow> \<exists>segs. arr_segments ops n s = Some segs \<and> concat segs = map (val s) [0..<n]"

section \<open>The free list\<close>

fun free_list :: "(nat \<Rightarrow> 'w::len word) \<Rightarrow> 'w word \<Rightarrow> 'w word list \<Rightarrow> bool" where
  "free_list nxt h [] \<longleftrightarrow> h = FREE_LIST_TAIL"
| "free_list nxt h (i # is) \<longleftrightarrow> h = i \<and> free_list nxt (nxt (unat i)) is"

lemma free_list_cong: "(\<And>i. i \<in> set is \<Longrightarrow> nxt (unat i) = nxt' (unat i)) \<Longrightarrow> free_list nxt h is = free_list nxt' h is"
  by (induction "is" arbitrary: h) auto

lemma free_list_next: "free_list nxt h is \<Longrightarrow> i \<in> set is \<Longrightarrow> nxt (unat i) = FREE_LIST_TAIL \<or> nxt (unat i) \<in> set is"
proof (induction "is" arbitrary: h)
  case (Cons a "is")
  then show ?case by (cases "is") auto
qed simp

definition ia_ok :: "('s \<Rightarrow> bool) \<Rightarrow> ('s \<Rightarrow> nat) \<Rightarrow> ('s \<Rightarrow> nat \<Rightarrow> 'w::len word) \<Rightarrow> 'w word list \<Rightarrow> ('w word, 's) IdAllocator \<Rightarrow> bool" where
  "ia_ok invar len val fl ia \<longleftrightarrow> (let s = ia_free_next_value ia; next_value = ia_next_value ia in
     invar s \<and> unat next_value \<le> len s \<and> Suc (unat next_value) < 2 ^ LENGTH('w) \<and>
     free_list (val s) (vv_value (ia_free_head ia)) fl \<and> distinct fl \<and> (\<forall>i\<in>set fl. i < next_value) \<and>
     (\<forall>i<next_value. i \<notin> set fl \<longrightarrow> val s (unat i) = ACTIVE_FLAG))"

lemma active_flag_big: "unat (ACTIVE_FLAG :: 'w::len word) = 2 ^ LENGTH('w) - 2"
proof -
  have "1 \<le> (FREE_LIST_TAIL :: 'w word)"
    using unat_less_2p [of "1 :: 'w word"] unfolding word_le_nat_alt unat_tail by linarith
  then show ?thesis by (simp add: ACTIVE_FLAG_def unat_sub unat_tail)
qed

section \<open>Runs\<close>

text \<open>\<open>Free n\<close> gives back the \<open>n\<close>-th of the identifiers in use. The result is the list of the identifiers handed out.\<close>

datatype id_op = Alloc | Free nat

fun id_run :: "('w::len word, 's) array_ops \<Rightarrow> id_op list \<Rightarrow> ('w word, 's) IdAllocator \<Rightarrow> 'w word VersionedValue list \<Rightarrow>
    ('w word VersionedValue list \<times> ('w word, 's) IdAllocator \<times> 'w word VersionedValue list) option" where
  "id_run ops [] ia held = Some ([], ia, held)"
| "id_run ops (Alloc # rest) ia held = do {
     (h, ia) \<leftarrow> allocate ops ia;
     (issued, ia, held) \<leftarrow> id_run ops rest ia (held @ [h]);
     Some (h # issued, ia, held) }"
| "id_run ops (Free n # rest) ia held =
     (if n < length held
      then do { ia \<leftarrow> deallocate ops (held ! n) ia; id_run ops rest ia (take n held @ drop (Suc n) held) }
      else id_run ops rest ia held)"

definition allocs :: "id_op list \<Rightarrow> nat" where "allocs ops = length (filter (\<lambda>op. op = Alloc) ops)"
definition frees :: "id_op list \<Rightarrow> nat" where "frees ops = length (filter (\<lambda>op. op \<noteq> Alloc) ops)"

text \<open>
  The state of a run: the identifiers below \<open>next_value\<close> are in use or free, and a handle handed out for an identifier that is
  free now has an older version than the head of the free list, \<open>d\<close> deallocations into the run.
\<close>

definition run_ok :: "'w::len word VersionedValue set \<Rightarrow> nat \<Rightarrow> 'w word list \<Rightarrow> ('w word, 's) IdAllocator \<Rightarrow> 'w word VersionedValue list \<Rightarrow> bool" where
  "run_ok past d fl ia held \<longleftrightarrow> distinct (map vv_value held) \<and> vv_value ` set held = {i. i < ia_next_value ia} - set fl \<and> set held \<subseteq> past \<and>
     vv_version (ia_free_head ia) = of_nat d \<and>
     (\<forall>h\<in>past. vv_value h < ia_next_value ia \<and> unat (vv_version h) \<le> d \<and> (vv_value h \<in> set fl \<longrightarrow> unat (vv_version h) < d))"

text \<open>A new identifier is taken only when all identifiers below \<open>next_value\<close> are in use.\<close>

lemma card_words_below: "card {i :: 'w::len word. i < n} = unat n"
proof -
  have "unat ` {i :: 'w word. i < n} = {..<unat n}"
  proof (intro set_eqI iffI)
    fix j assume "j \<in> {..<unat n}"
    then have j: "j < unat n" by simp
    then have "unat (of_nat j :: 'w word) = j" using unat_less_2p [of n] by (intro unat_of_nat_small) linarith
    then show "j \<in> unat ` {i :: 'w word. i < n}" using j by (intro image_eqI [of _ _ "of_nat j"]) (simp_all add: word_less_nat_alt)
  qed (auto simp: word_less_nat_alt)
  moreover have "inj_on unat {i :: 'w word. i < n}" by (simp add: inj_on_def word_unat_eq_iff)
  ultimately show ?thesis by (metis card_image card_lessThan)
qed

lemma held_count:
  assumes "run_ok past d fl ia held"
  shows "length held \<le> unat (ia_next_value ia)" and "fl = [] \<Longrightarrow> unat (ia_next_value ia) = length held"
proof -
  have "length held = card ({i. i < ia_next_value ia} - set fl)"
    using assms distinct_card [of "map vv_value held"] by (simp add: run_ok_def)
  moreover have "card ({i. i < ia_next_value ia} - set fl) \<le> card {i. i < ia_next_value ia}" by (intro card_mono) simp_all
  ultimately show "length held \<le> unat (ia_next_value ia)" and "fl = [] \<Longrightarrow> unat (ia_next_value ia) = length held"
    by (simp_all add: card_words_below)
qed

section \<open>The allocator on such an array\<close>

lemma id_in_list_not_active:
  fixes i :: "'w::len word"
  assumes ok: "ia_ok invar len val fl ia" and i: "i \<in> set fl"
  shows "val (ia_free_next_value ia) (unat i) \<noteq> ACTIVE_FLAG"
proof -
  let ?x = "val (ia_free_next_value ia) (unat i)"
  have n: "Suc (unat (ia_next_value ia)) < 2 ^ LENGTH('w)" using ok by (simp add: ia_ok_def Let_def)
  have "?x = FREE_LIST_TAIL \<or> ?x \<in> set fl" using ok i free_list_next by (fastforce simp: ia_ok_def Let_def)
  then have "?x = FREE_LIST_TAIL \<or> ?x < ia_next_value ia" using ok by (auto simp: ia_ok_def Let_def)
  then show ?thesis
    using n active_flag_big [where 'w = 'w] unat_tail [where 'w = 'w] unfolding word_less_nat_alt by force
qed

context free_next_array
begin

lemma allocate_pop:
  assumes ok: "ia_ok invar len val (i # fl) ia"
  shows "\<exists>ia'. allocate ops ia = Some (ia_free_head ia, ia') \<and> ia_ok invar len val fl ia' \<and> vv_value (ia_free_head ia) = i
    \<and> ia_next_value ia' = ia_next_value ia \<and> vv_version (ia_free_head ia') = vv_version (ia_free_head ia)"
proof -
  let ?s = "ia_free_next_value ia"
  have a: "invar ?s" "unat (ia_next_value ia) \<le> len ?s" "vv_value (ia_free_head ia) = i" "free_list (val ?s) (val ?s (unat i)) fl" "i \<notin> set fl" "i < ia_next_value ia"
    "distinct fl" "Suc (unat (ia_next_value ia)) < 2 ^ LENGTH('w)" "\<forall>j\<in>set fl. j < ia_next_value ia" "\<forall>j<ia_next_value ia. j \<noteq> i \<longrightarrow> j \<notin> set fl \<longrightarrow> val ?s (unat j) = ACTIVE_FLAG"
    using ok by (auto simp: ia_ok_def Let_def)
  have il: "unat i < len ?s" using a(2,6) by (simp add: word_less_nat_alt)
  have jl: "unat j < len ?s" if "j < ia_next_value ia" for j using that a(2) by (simp add: word_less_nat_alt)
  have "i \<noteq> FREE_LIST_TAIL" using a(6,8) unat_tail [where 'w = 'w] by (auto simp: word_less_nat_alt)
  moreover obtain s' where s': "arr_store ops i ACTIVE_FLAG ?s = Some s'" "invar s'" "len s' = len ?s"
    "\<And>j. j < len ?s \<Longrightarrow> val s' j = (if j = unat i then ACTIVE_FLAG else val ?s j)" using store [OF a(1) il, of ACTIVE_FLAG] by blast
  have v: "val s' (unat j) = (if j = i then ACTIVE_FLAG else val ?s (unat j))" if "j < ia_next_value ia" for j
    using s'(4) [OF jl [OF that]] by (simp add: word_unat_eq_iff)
  have "free_list (val s') (val ?s (unat i)) fl"
    using a(4,5,9) v by (subst free_list_cong [where nxt' = "val ?s"]) auto
  then have "ia_ok invar len val fl (ia\<lparr>ia_free_head := \<lparr>vv_value = val ?s (unat i), vv_version = vv_version (ia_free_head ia)\<rparr>, ia_free_next_value := s'\<rparr>)"
    using a s'(2,3) v by (auto simp: ia_ok_def Let_def)
  ultimately show ?thesis using a(3) s'(1) load [OF a(1) il] by (simp add: allocate_def Let_def)
qed

lemma allocate_fresh:
  assumes ok: "ia_ok invar len val [] ia" and n: "Suc (Suc (unat (ia_next_value ia))) < 2 ^ LENGTH('w)"
  shows "\<exists>ia'. allocate ops ia = Some (VersionedValue_of (ia_next_value ia), ia') \<and> ia_ok invar len val [] ia'
    \<and> ia_next_value ia' = ia_next_value ia + 1 \<and> ia_free_head ia' = ia_free_head ia"
proof -
  let ?s = "ia_free_next_value ia" and ?i = "ia_next_value ia"
  have a: "invar ?s" "unat ?i \<le> len ?s" "vv_value (ia_free_head ia) = FREE_LIST_TAIL" "\<forall>j<?i. val ?s (unat j) = ACTIVE_FLAG"
    using ok by (auto simp: ia_ok_def Let_def)
  obtain s' where s': "arr_ensure_store ops ?i ACTIVE_FLAG ?s = Some s'" "invar s'" "len ?s \<le> len s'" "unat ?i < len s'"
    "\<And>j. j < len s' \<Longrightarrow> j < len ?s \<or> j = unat ?i \<Longrightarrow> val s' j = (if j = unat ?i then ACTIVE_FLAG else val ?s j)"
    using ensure_store [OF a(1), of ?i ACTIVE_FLAG] by blast
  have u: "unat (?i + 1) = Suc (unat ?i)" using n by (subst unat_add_small) simp_all
  have v: "val s' (unat j) = ACTIVE_FLAG" if "j < ?i + 1" for j
  proof -
    have "unat j \<le> unat ?i" using that u by (simp add: word_less_nat_alt)
    then show ?thesis using a(2,4) s'(3-5) by (cases "j = ?i") (auto simp: word_less_nat_alt word_unat_eq_iff)
  qed
  have "ia_ok invar len val [] (ia\<lparr>ia_next_value := ?i + 1, ia_free_next_value := s'\<rparr>)"
    using a(3) s'(2,4) u n v by (simp add: ia_ok_def Let_def)
  then show ?thesis using a(3) s'(1) by (simp add: allocate_def Let_def VersionedValue_of_def)
qed

lemma deallocate_push:
  assumes ok: "ia_ok invar len val fl ia" and i: "vv_value h < ia_next_value ia" "vv_value h \<notin> set fl"
  shows "\<exists>ia'. deallocate ops h ia = Some ia' \<and> ia_ok invar len val (vv_value h # fl) ia' \<and> ia_next_value ia' = ia_next_value ia
    \<and> vv_version (ia_free_head ia') = vv_version (ia_free_head ia) + 1"
proof -
  let ?s = "ia_free_next_value ia" and ?i = "vv_value h"
  have a: "invar ?s" "unat (ia_next_value ia) \<le> len ?s" "free_list (val ?s) (vv_value (ia_free_head ia)) fl" "\<forall>j\<in>set fl. j < ia_next_value ia"
    using ok by (simp_all add: ia_ok_def Let_def)
  have jl: "unat j < len ?s" if "j < ia_next_value ia" for j using that a(2) by (simp add: word_less_nat_alt)
  obtain s' where s': "arr_store ops ?i (vv_value (ia_free_head ia)) ?s = Some s'" "invar s'" "len s' = len ?s"
    "\<And>j. j < len ?s \<Longrightarrow> val s' j = (if j = unat ?i then vv_value (ia_free_head ia) else val ?s j)"
    using store [OF a(1) jl [OF i(1)], of "vv_value (ia_free_head ia)"] by blast
  have v: "val s' (unat j) = (if j = ?i then vv_value (ia_free_head ia) else val ?s (unat j))" if "j < ia_next_value ia" for j
    using s'(4) [OF jl [OF that]] by (simp add: word_unat_eq_iff)
  have "free_list (val s') (vv_value (ia_free_head ia)) fl"
    using a(3,4) i(2) v by (subst free_list_cong [where nxt' = "val ?s"]) auto
  then have "ia_ok invar len val (?i # fl) (ia\<lparr>ia_free_head := h\<lparr>vv_version := vv_version (ia_free_head ia) + 1\<rparr>, ia_free_next_value := s'\<rparr>)"
    using ok i s'(2,3) v by (auto simp: ia_ok_def Let_def)
  then show ?thesis using s'(1) by (simp add: deallocate_def Let_def)
qed

lemma for_each_in_use:
  assumes ok: "ia_ok invar len val fl ia"
  shows "\<exists>calls. IdAllocator_for_each ops ia = Some calls \<and> separated calls \<and> covered calls = unat ` ({i. i < ia_next_value ia} - set fl)"
proof -
  let ?s = "ia_free_next_value ia" and ?n = "unat (ia_next_value ia)"
  have a: "invar ?s" "?n \<le> len ?s" "Suc ?n < 2 ^ LENGTH('w)" "\<forall>i<ia_next_value ia. i \<notin> set fl \<longrightarrow> val ?s (unat i) = ACTIVE_FLAG"
    using ok by (simp_all add: ia_ok_def Let_def)
  have n: "?n < 2 ^ LENGTH('w)" using a(3) by simp
  obtain segs where g: "arr_segments ops ?n ?s = Some segs" "concat segs = map (val ?s) [0..<?n]" using segments [OF a(1,2) n] by blast
  have "length (map (val ?s) [0..<?n]) < 2 ^ LENGTH('w)" using n by simp
  from scan_result [OF this g(2)] obtain i st calls where
    r: "fold scan_segment segs (0, FREE_LIST_TAIL, []) = (i, st, calls)" "covered (if st < i then calls @ [(st, i)] else calls) = actives (map (val ?s) [0..<?n])"
      "separated (if st < i then calls @ [(st, i)] else calls)" by blast
  have "val ?s (unat j) = ACTIVE_FLAG \<longleftrightarrow> j \<notin> set fl" if "j < ia_next_value ia" for j
    using a(4) that id_in_list_not_active [OF ok] by blast
  then have "actives (map (val ?s) [0..<?n]) = unat ` ({i. i < ia_next_value ia} - set fl)"
    unfolding actives_def
  proof (intro set_eqI iffI, goal_cases)
    case (1 j)
    then have j: "j < ?n" "val ?s j = ACTIVE_FLAG" by auto
    have u: "unat (of_nat j :: 'w word) = j" using less_trans [OF j(1) n] by (rule unat_of_nat_small)
    then have "(of_nat j :: 'w word) < ia_next_value ia" using j(1) by (simp add: word_less_nat_alt)
    with 1(1) [OF this] j(2) u show ?case by (intro image_eqI [of _ _ "of_nat j"]) simp_all
  next
    case (2 j)
    then show ?case by (auto simp: word_less_nat_alt)
  qed
  then show ?thesis using size [OF a(1)] g(1) a(2) r by (simp add: IdAllocator_for_each_def min_absorb2)
qed

text \<open>One operation of a run.\<close>

lemma alloc_step_small:
  assumes ok: "ia_ok invar len val fl ia" and r: "run_ok past d fl ia held" and n: "Suc (Suc (length held)) < 2 ^ LENGTH('w)" and d: "d < 2 ^ LENGTH('w)"
  shows "\<exists>h ia' fl'. allocate ops ia = Some (h, ia') \<and> ia_ok invar len val fl' ia' \<and> run_ok (insert h past) d fl' ia' (held @ [h]) \<and> h \<notin> past
    \<and> unat (ia_next_value ia') \<le> max (unat (ia_next_value ia)) (Suc (length held))"
proof (cases fl)
  case (Cons i fl')
  from allocate_pop [OF ok [unfolded Cons]] obtain ia' where
    1: "allocate ops ia = Some (ia_free_head ia, ia')" "ia_ok invar len val fl' ia'" "vv_value (ia_free_head ia) = i" "ia_next_value ia' = ia_next_value ia"
      "vv_version (ia_free_head ia') = vv_version (ia_free_head ia)" by blast
  have i: "i < ia_next_value ia" "i \<notin> set fl'" "distinct fl'" using ok Cons by (auto simp: ia_ok_def Let_def)
  have v: "vv_version (ia_free_head ia) = of_nat d" "unat (of_nat d :: 'w word) = d" using r d by (simp_all add: run_ok_def unat_of_nat_small)
  have new: "ia_free_head ia \<notin> past" using r 1(3) v Cons unfolding run_ok_def by force
  have "i \<notin> vv_value ` set held" using r Cons by (simp add: run_ok_def)
  moreover have "vv_value ` set held \<union> {i} = {j. j < ia_next_value ia} - set fl'" using r Cons i by (auto simp: run_ok_def)
  ultimately have "run_ok (insert (ia_free_head ia) past) d fl' ia' (held @ [ia_free_head ia])"
    using r 1 v i Cons unfolding run_ok_def by auto
  then show ?thesis using 1 new by (intro exI conjI) auto
next
  case Nil
  have l: "unat (ia_next_value ia) = length held" using held_count(2) [OF r] Nil by simp
  then have n': "Suc (Suc (unat (ia_next_value ia))) < 2 ^ LENGTH('w)" using n by simp
  from allocate_fresh [OF ok [unfolded Nil] n'] obtain ia' where
    1: "allocate ops ia = Some (VersionedValue_of (ia_next_value ia), ia')" "ia_ok invar len val [] ia'"
      "ia_next_value ia' = ia_next_value ia + 1" "ia_free_head ia' = ia_free_head ia" by blast
  let ?i = "ia_next_value ia" and ?h = "VersionedValue_of (ia_next_value ia)"
  have u: "unat (?i + 1) = Suc (unat ?i)" using n' by (subst unat_add_small) simp_all
  have lt: "j < ?i + 1 \<longleftrightarrow> j = ?i \<or> j < ?i" for j using u by (auto simp: word_less_nat_alt word_unat_eq_iff)
  have h: "vv_value ?h = ?i" "vv_version ?h = 0" by (simp_all add: VersionedValue_of_def)
  have new: "?h \<notin> past" using r h unfolding run_ok_def by force
  have "?i \<notin> vv_value ` set held" using r Nil by (simp add: run_ok_def)
  moreover have "vv_value ` set held \<union> {?i} = {j. j < ?i + 1}" using r Nil lt by (auto simp: run_ok_def)
  ultimately have "run_ok (insert ?h past) d [] ia' (held @ [?h])" using r 1(4) Nil h unfolding run_ok_def 1(3) lt by auto
  then show ?thesis using 1 new u l by (intro exI conjI) auto
qed

lemma alloc_step:
  assumes ok: "ia_ok invar len val fl ia" and r: "run_ok past d fl ia held" and n: "Suc (Suc (unat (ia_next_value ia))) < 2 ^ LENGTH('w)" and d: "d < 2 ^ LENGTH('w)"
  shows "\<exists>h ia' fl'. allocate ops ia = Some (h, ia') \<and> ia_ok invar len val fl' ia' \<and> run_ok (insert h past) d fl' ia' (held @ [h]) \<and> h \<notin> past
    \<and> unat (ia_next_value ia') \<le> Suc (unat (ia_next_value ia))"
proof -
  have l: "length held \<le> unat (ia_next_value ia)" by (rule held_count(1) [OF r])
  then have n': "Suc (Suc (length held)) < 2 ^ LENGTH('w)" using n by linarith
  from alloc_step_small [OF ok r n' d] obtain h ia' fl' where
    1: "allocate ops ia = Some (h, ia')" "ia_ok invar len val fl' ia'" "run_ok (insert h past) d fl' ia' (held @ [h])" "h \<notin> past"
      "unat (ia_next_value ia') \<le> max (unat (ia_next_value ia)) (Suc (length held))" by blast
  have "unat (ia_next_value ia') \<le> Suc (unat (ia_next_value ia))" using 1(5) l by linarith
  with 1 show ?thesis by blast
qed

lemma free_step:
  assumes ok: "ia_ok invar len val fl ia" and r: "run_ok past d fl ia held" and n: "n < length held" and d: "Suc d < 2 ^ LENGTH('w)"
  shows "\<exists>ia' fl'. deallocate ops (held ! n) ia = Some ia' \<and> ia_ok invar len val fl' ia' \<and> run_ok past (Suc d) fl' ia' (take n held @ drop (Suc n) held)
    \<and> ia_next_value ia' = ia_next_value ia"
proof -
  let ?h = "held ! n" and ?rest = "take n held @ drop (Suc n) held"
  have held: "distinct (map vv_value held)" "vv_value ` set held = {i. i < ia_next_value ia} - set fl" "set held \<subseteq> past" "vv_version (ia_free_head ia) = of_nat d"
    using r by (simp_all add: run_ok_def)
  have e: "held = take n held @ ?h # drop (Suc n) held" using n by (simp add: Cons_nth_drop_Suc)
  have h: "vv_value ?h < ia_next_value ia" "vv_value ?h \<notin> set fl" using held(2) n nth_mem [OF n] by blast+
  from deallocate_push [OF ok h] obtain ia' where
    1: "deallocate ops ?h ia = Some ia'" "ia_ok invar len val (vv_value ?h # fl) ia'" "ia_next_value ia' = ia_next_value ia"
      "vv_version (ia_free_head ia') = vv_version (ia_free_head ia) + 1" by blast
  have "distinct (map vv_value (take n held @ ?h # drop (Suc n) held))" using held(1) e by simp
  then have dist: "distinct (map vv_value ?rest)" "vv_value ?h \<notin> vv_value ` set ?rest" by auto
  have s: "set held = insert ?h (set ?rest)" by (subst e) auto
  have "A = S - insert x F" if "insert x A = S - F" "x \<notin> A" for A S F and x :: "'w word" using that by blast
  from this [OF held(2) [unfolded s image_insert] dist(2)] have set: "vv_value ` set ?rest = {i. i < ia_next_value ia} - set (vv_value ?h # fl)" "set ?rest \<subseteq> past"
    using held(3) s by auto
  have "run_ok past (Suc d) (vv_value ?h # fl) ia' ?rest"
    using r 1(3,4) held(4) dist(1) set unfolding run_ok_def by (auto simp: le_Suc_eq)
  then show ?thesis using 1 by blast
qed

lemma id_run_ok:
  "ia_ok invar len val fl ia \<Longrightarrow> run_ok past d fl ia held \<Longrightarrow> unat (ia_next_value ia) + allocs rest + 1 < 2 ^ LENGTH('w) \<Longrightarrow> d + frees rest < 2 ^ LENGTH('w) \<Longrightarrow>
   \<exists>issued ia' held' fl' past' d'. id_run ops rest ia held = Some (issued, ia', held') \<and> ia_ok invar len val fl' ia' \<and> run_ok past' d' fl' ia' held'
     \<and> distinct issued \<and> set issued \<inter> past = {}"
proof (induction rest arbitrary: fl ia past d held)
  case Nil
  then show ?case by auto
next
  case (Cons op rest)
  show ?case
  proof (cases op)
    case Alloc
    then have b: "Suc (Suc (unat (ia_next_value ia))) + allocs rest < 2 ^ LENGTH('w)" "d + frees rest < 2 ^ LENGTH('w)"
      using Cons.prems(3,4) by (simp_all add: allocs_def frees_def)
    then have "Suc (Suc (unat (ia_next_value ia))) < 2 ^ LENGTH('w)" "d < 2 ^ LENGTH('w)" by linarith+
    from alloc_step [OF Cons.prems(1,2) this] obtain h ia1 fl1 where
      1: "allocate ops ia = Some (h, ia1)" "ia_ok invar len val fl1 ia1" "run_ok (insert h past) d fl1 ia1 (held @ [h])" "h \<notin> past"
        "unat (ia_next_value ia1) \<le> Suc (unat (ia_next_value ia))" by blast
    have "unat (ia_next_value ia1) + allocs rest + 1 < 2 ^ LENGTH('w)" using 1(5) b(1) by linarith
    from Cons.IH [OF 1(2,3) this b(2)] obtain issued ia' held' fl' past' d' where
      "id_run ops rest ia1 (held @ [h]) = Some (issued, ia', held')" "ia_ok invar len val fl' ia'" "run_ok past' d' fl' ia' held'" "distinct issued"
      "set issued \<inter> insert h past = {}" by blast
    then show ?thesis using Alloc 1(1,4) by fastforce
  next
    case (Free n)
    then have b: "unat (ia_next_value ia) + allocs rest + 1 < 2 ^ LENGTH('w)" "Suc d + frees rest < 2 ^ LENGTH('w)"
      using Cons.prems(3,4) by (simp_all add: allocs_def frees_def)
    show ?thesis
    proof (cases "n < length held")
      case True
      have "Suc d < 2 ^ LENGTH('w)" using b(2) by linarith
      from free_step [OF Cons.prems(1,2) True this] obtain ia1 fl1 where
        1: "deallocate ops (held ! n) ia = Some ia1" "ia_ok invar len val fl1 ia1" "run_ok past (Suc d) fl1 ia1 (take n held @ drop (Suc n) held)"
          "ia_next_value ia1 = ia_next_value ia" by blast
      from Cons.IH [OF 1(2,3)] 1(4) b have "\<exists>issued ia' held' fl' past' d'. id_run ops rest ia1 (take n held @ drop (Suc n) held) = Some (issued, ia', held')
          \<and> ia_ok invar len val fl' ia' \<and> run_ok past' d' fl' ia' held' \<and> distinct issued \<and> set issued \<inter> past = {}" by simp
      then show ?thesis using Free True 1(1) by simp
    next
      case False
      have "d + frees rest < 2 ^ LENGTH('w)" using b(2) by simp
      from Cons.IH [OF Cons.prems(1,2) b(1) this] show ?thesis using Free False by simp
    qed
  qed
qed

lemma id_allocator_correct:
  assumes s: "invar s" and a: "allocs rest + 1 < 2 ^ LENGTH('w)" and f: "frees rest < 2 ^ LENGTH('w)"
  shows "\<exists>issued ia held. id_run ops rest (IdAllocator_new s) [] = Some (issued, ia, held) \<and> distinct issued \<and> distinct (map vv_value held)
    \<and> (\<exists>calls. IdAllocator_for_each ops ia = Some calls \<and> separated calls \<and> covered calls = (\<lambda>h. unat (vv_value h)) ` set held)"
proof -
  have one: "Suc 0 < 2 ^ LENGTH('w)" using one_less_power [of "2::nat" "LENGTH('w)"] by simp
  have "ia_ok invar len val [] (IdAllocator_new s)" using s one by (simp add: ia_ok_def Let_def IdAllocator_new_def VersionedValue_of_def)
  moreover have "run_ok {} 0 [] (IdAllocator_new s) []" by (simp add: run_ok_def IdAllocator_new_def VersionedValue_of_def)
  moreover have "unat (ia_next_value (IdAllocator_new s)) + allocs rest + 1 < 2 ^ LENGTH('w)" "0 + frees rest < 2 ^ LENGTH('w)" using a f by (simp_all add: IdAllocator_new_def)
  ultimately obtain issued ia held fl past d where
    r: "id_run ops rest (IdAllocator_new s) [] = Some (issued, ia, held)" "ia_ok invar len val fl ia" "run_ok past d fl ia held" "distinct issued"
    using id_run_ok by blast
  have h: "distinct (map vv_value held)" "vv_value ` set held = {i. i < ia_next_value ia} - set fl" using r(3) by (simp_all add: run_ok_def)
  have "(\<lambda>h. unat (vv_value h)) ` set held = unat ` ({i. i < ia_next_value ia} - set fl)" unfolding h(2) [symmetric] by (simp add: image_image)
  then show ?thesis using r(1,4) h(1) for_each_in_use [OF r(2)] by simp
qed

end

end
