(* ===== verification/VectorArray.thy ===== *)
theory VectorArray
  imports ConcurrentVectorOps
begin

text \<open>
  \<open>ConcurrentVector<T, 128>\<close> as an array that grows: what the components above it use of the vector, as an interface (\<open>array\<close>,
  the locale \<open>growing_array\<close>) with one value per index, whether its block exists yet or not.

  The state is the vector, its memory and the number of growths so far; \<open>clock n\<close> is what the clock reads at the \<open>n\<close>-th
  \<open>ensure\<close>. A reference to an element is its index: blocks never move.
\<close>

section \<open>The interface\<close>

record ('a, 's) array =
  ga_ensure :: "u64 \<Rightarrow> 's \<Rightarrow> 's option"
  ga_load :: "u64 \<Rightarrow> 's \<Rightarrow> 'a option"
  ga_store :: "u64 \<Rightarrow> 'a \<Rightarrow> 's \<Rightarrow> 's option"
  ga_size :: "'s \<Rightarrow> u64 option"
  ga_segments :: "u64 \<Rightarrow> u64 \<Rightarrow> 's \<Rightarrow> 'a list list option"
  ga_update :: "u64 \<Rightarrow> u64 \<Rightarrow> ('a \<Rightarrow> 'a) \<Rightarrow> 's \<Rightarrow> 's option"

text \<open>\<open>bound\<close> is the number of indices the array can grow to.\<close>

locale growing_array =
  fixes ga :: "('a, 's) array" and invar :: "'s \<Rightarrow> bool" and len :: "'s \<Rightarrow> nat" and val :: "'s \<Rightarrow> nat \<Rightarrow> 'a" and bound :: nat
  assumes ensure: "invar s \<Longrightarrow> unat i < bound \<Longrightarrow>
      \<exists>s'. ga_ensure ga i s = Some s' \<and> invar s' \<and> len s' = max (len s) (Suc (unat i div 128) * 128) \<and> val s' = val s"
    and load: "invar s \<Longrightarrow> unat i < len s \<Longrightarrow> ga_load ga i s = Some (val s (unat i))"
    and store: "invar s \<Longrightarrow> unat i < len s \<Longrightarrow>
      \<exists>s'. ga_store ga i x s = Some s' \<and> invar s' \<and> len s' = len s \<and> val s' = (val s)(unat i := x)"
    and size: "invar s \<Longrightarrow> ga_size ga s = Some (of_nat (len s))" "invar s \<Longrightarrow> len s \<le> bound"
    and segments: "invar s \<Longrightarrow> unat i \<le> unat j \<Longrightarrow> unat j \<le> len s \<Longrightarrow>
      \<exists>segs. ga_segments ga i j s = Some segs \<and> concat segs = map (val s) [unat i..<unat j]"
    and update: "invar s \<Longrightarrow> unat i \<le> unat j \<Longrightarrow> unat j \<le> len s \<Longrightarrow>
      \<exists>s'. ga_update ga i j f s = Some s' \<and> invar s' \<and> len s' = len s \<and> val s' = (\<lambda>n. if unat i \<le> n \<and> n < unat j then f (val s n) else val s n)"
    and bound: "128 dvd bound" "bound < 2 ^ 64"

section \<open>The vector\<close>

type_synonym 'a vec = "'a ConcurrentVector \<times> 'a cmem \<times> nat"

text \<open>The callbacks of \<open>for_each\<close>: one reads its segment, the other changes every element of it.\<close>

fun collect_segment :: "'a cmem \<Rightarrow> segment \<Rightarrow> 'a list list \<Rightarrow> 'a list list option" where
  "collect_segment mem (b, i, j) segs = do {
     xs \<leftarrow> cm_blocks mem b;
     if length xs < j then None else Some (segs @ [drop i (take j xs)]) }"

fun map_segment :: "('a \<Rightarrow> 'a) \<Rightarrow> segment \<Rightarrow> 'a cmem \<Rightarrow> 'a cmem option" where
  "map_segment f (b, i, j) mem = do {
     xs \<leftarrow> cm_blocks mem b;
     if length xs < j then None else write_range b i (map f (drop i (take j xs))) mem }"

definition vec_array :: "'a cv_env \<Rightarrow> (nat \<Rightarrow> u64) \<Rightarrow> ('a, 'a vec) array" where
  "vec_array env clock = \<lparr>
     ga_ensure = (\<lambda>i (v, mem, n). do { (p, v, mem) \<leftarrow> cv_ensure (env\<lparr>ev_tv_sec := clock n\<rparr>) i v mem; Some (v, mem, Suc n) }),
     ga_load = (\<lambda>i (v, mem, n). do { p \<leftarrow> cv_at v i mem; read_at p mem }),
     ga_store = (\<lambda>i x (v, mem, n). do { p \<leftarrow> cv_at v i mem; mem \<leftarrow> write_at p x mem; Some (v, mem, n) }),
     ga_size = (\<lambda>(v, mem, n). cv_size v mem),
     ga_segments = (\<lambda>i j (v, mem, n). cv_for_each_const i j (collect_segment mem) [] v mem),
     ga_update = (\<lambda>i j f (v, mem, n). do {
       blocks \<leftarrow> cm_tables mem (cv_block_table v);
       mem \<leftarrow> Snapshot_for_each (map_segment f) blocks (cv_meta v) i j mem;
       Some (v, mem, n) })\<rparr>"

definition vec_new :: "'a option \<Rightarrow> 'a vec" where
  "vec_new constructor = (\<lparr>cv_meta = StaticMeta 128, cv_constructor = constructor, cv_block_table = EMPTY_BLOCK_TABLE, cv_retire_list = RetireList_new\<rparr>, cmem0, 0)"

text \<open>At most \<open>N\<close> blocks; each growth retires one table.\<close>

definition vec_invar :: "nat \<Rightarrow> 'a cv_env \<Rightarrow> 'a vec \<Rightarrow> bool" where
  "vec_invar N env = (\<lambda>(v, mem, n). N < 2 ^ 32 \<and> new_node_spec (Suc N) (ev_new_node env) \<and>
     (\<exists>tab R. cv_inv 7 tab R v mem \<and> length R \<le> length tab \<and> length tab \<le> N))"

definition vec_tab :: "'a vec \<Rightarrow> nat list" where
  "vec_tab = (\<lambda>(v, mem, n). the (cm_tables mem (cv_block_table v)))"

definition vec_len :: "'a vec \<Rightarrow> nat" where
  "vec_len s = cv_length 7 (vec_tab s)"

text \<open>An element that does not exist yet has the value it will be constructed with.\<close>

definition vec_val :: "'a cv_env \<Rightarrow> 'a vec \<Rightarrow> nat \<Rightarrow> 'a" where
  "vec_val env s i = (if i < vec_len s then cv_elem 7 (vec_tab s) (fst (snd s)) i else new_value env (fst s))"

lemma vec_invarE:
  assumes "vec_invar N env (v, mem, n)"
  obtains tab R where "cv_inv 7 tab R v mem" and "length R \<le> length tab" and "length tab \<le> N" and "new_node_spec (Suc N) (ev_new_node env)" and "N < 2 ^ 32"
    and "vec_tab (v, mem, n) = tab" and "vec_len (v, mem, n) = cv_length 7 tab"
    and "vec_val env (v, mem, n) = (\<lambda>i. if i < cv_length 7 tab then cv_elem 7 tab mem i else new_value env v)"
  using assms by (auto simp: vec_invar_def vec_len_def vec_val_def vec_tab_def cv_inv_def fun_eq_iff)

lemma vec_invarI:
  assumes "cv_inv 7 tab R v mem" and "length R \<le> length tab" and "length tab \<le> N" and "new_node_spec (Suc N) (ev_new_node env)" and "N < 2 ^ 32"
  shows "vec_invar N env (v, mem, n)" and "vec_len (v, mem, n) = cv_length 7 tab"
    and "vec_val env (v, mem, n) = (\<lambda>i. if i < cv_length 7 tab then cv_elem 7 tab mem i else new_value env v)"
  using assms by (auto simp: vec_invar_def vec_len_def vec_val_def vec_tab_def cv_inv_def fun_eq_iff)

lemma write_at_ok:
  assumes inv: "cv_inv k tab R v mem" and i: "i < cv_length k tab"
  shows "\<exists>mem'. write_at (tab ! (i div 2 ^ k), i mod 2 ^ k) x mem = Some mem' \<and> cv_inv k tab R v mem'
    \<and> (\<forall>j<cv_length k tab. cv_elem k tab mem' j = (if j = i then x else cv_elem k tab mem j))"
proof -
  have il: "i div 2 ^ k < length tab" using i by (simp add: cv_length_iff)
  obtain xs where xs: "cm_blocks mem (tab ! (i div 2 ^ k)) = Some xs" "length xs = 2 ^ k" by (rule cv_inv_block [OF inv il])
  have "write_at (tab ! (i div 2 ^ k), i mod 2 ^ k) x mem = write_range (tab ! (i div 2 ^ k)) (i mod 2 ^ k) [x] mem"
    using xs by (simp add: write_at_def write_range_def mem_write_def upd_conv_take_nth_drop not_less Suc_leI)
  moreover have "i mod 2 ^ k + length [x] \<le> 2 ^ k" by (simp add: Suc_leI)
  note write_range_ok [OF inv il this]
  moreover have "(i div 2 ^ k * 2 ^ k + i mod 2 ^ k \<le> j \<and> j < i div 2 ^ k * 2 ^ k + i mod 2 ^ k + length [x]) = (j = i)" for j
    by (auto simp: div_mult_mod_eq)
  ultimately show ?thesis by (auto simp: div_mult_mod_eq)
qed

lemma cv_ensure_constructor: "cv_ensure env i v mem = Some (p, v', mem') \<Longrightarrow> cv_constructor v' = cv_constructor v"
  by (auto simp: cv_ensure_def get_qualified_block_table_def get_qualified_block_table_slow_def retire_table_def create_block_table_def Let_def
      bind_eq_Some_conv split: if_splits)

lemma index_div_small: "unat (i :: u64) < 128 * N \<Longrightarrow> N < 2 ^ 32 \<Longrightarrow> unat i div 2 ^ 7 < N \<and> Suc (unat i div 2 ^ 7) < 2 ^ 32"
  by (simp add: div_less_iff_less_mult mult.commute)

lemma vec_ensure:
  assumes "vec_invar N env s" and "unat i < 128 * N"
  shows "\<exists>s'. ga_ensure (vec_array env clock) i s = Some s' \<and> vec_invar N env s'
    \<and> vec_len s' = max (vec_len s) (Suc (unat i div 128) * 128) \<and> vec_val env s' = vec_val env s"
proof -
  obtain v mem n where s: "s = (v, mem, n)" by (cases s)
  let ?env = "env\<lparr>ev_tv_sec := clock n\<rparr>"
  from assms(1) obtain tab R where t: "cv_inv 7 tab R v mem" "length R \<le> length tab" "length tab \<le> N" "new_node_spec (Suc N) (ev_new_node env)" "N < 2 ^ 32"
    "vec_len s = cv_length 7 tab" "vec_val env s = (\<lambda>i. if i < cv_length 7 tab then cv_elem 7 tab mem i else new_value env v)"
    unfolding s by (rule vec_invarE)
  have "Suc (unat i div 2 ^ 7) < 2 ^ 32" "new_node_spec (Suc N) (ev_new_node ?env)" "length R < Suc N" using index_div_small [OF assms(2) t(5)] t(2-4) by simp_all
  from ensure_ok [OF t(1) this] obtain p v' mem' tab' R' where
    e: "cv_ensure ?env i v mem = Some (p, v', mem')" "cv_inv 7 tab' R' v' mem'" "length R' + length tab \<le> length R + length tab'"
      "length tab' = max (length tab) (Suc (unat i div 2 ^ 7))"
      "\<forall>j<cv_length 7 tab'. cv_elem 7 tab' mem' j = (if j < cv_length 7 tab then cv_elem 7 tab mem j else new_value ?env v)" by blast
  have l: "length R' \<le> length tab'" "length tab' \<le> N" using e(3,4) t(2,3) index_div_small [OF assms(2) t(5)] by simp_all
  note I = vec_invarI [OF e(2) l t(4,5), of "Suc n"]
  have "new_value ?env v = new_value env v" "new_value env v' = new_value env v" using cv_ensure_constructor [OF e(1)] by (simp_all add: new_value_def split: option.splits)
  moreover have "cv_length 7 tab \<le> cv_length 7 tab'" using e(4) by (simp add: cv_length_def)
  ultimately have "vec_val env (v', mem', Suc n) = vec_val env s" unfolding I(3) t(7) using e(5) by (auto simp: fun_eq_iff)
  moreover have "cv_length 7 tab' = max (cv_length 7 tab) (Suc (unat i div 128) * 128)" using e(4) by (simp add: cv_length_def max_def)
  ultimately show ?thesis using e(1) I(1,2) t(6) by (intro exI [of _ "(v', mem', Suc n)"]) (simp add: vec_array_def s)
qed

lemma vec_load:
  assumes "vec_invar N env s" and "unat i < vec_len s"
  shows "ga_load (vec_array env clock) i s = Some (vec_val env s (unat i))"
proof -
  obtain v mem n where s: "s = (v, mem, n)" by (cases s)
  from assms(1) obtain tab R where t: "cv_inv 7 tab R v mem" "vec_len s = cv_length 7 tab"
    "vec_val env s = (\<lambda>i. if i < cv_length 7 tab then cv_elem 7 tab mem i else new_value env v)" unfolding s by (rule vec_invarE)
  have i: "unat i < cv_length 7 tab" "unat i div 2 ^ 7 < 2 ^ 32" using assms(2) t(1,2) by (simp_all add: cv_inv_def cv_length_iff)
  then show ?thesis using cv_at_eq [OF t(1) i(2)] read_at_elem [OF t(1) i(1)] t(3) by (simp add: vec_array_def s)
qed

lemma vec_store:
  assumes "vec_invar N env s" and "unat i < vec_len s"
  shows "\<exists>s'. ga_store (vec_array env clock) i x s = Some s' \<and> vec_invar N env s' \<and> vec_len s' = vec_len s \<and> vec_val env s' = (vec_val env s)(unat i := x)"
proof -
  obtain v mem n where s: "s = (v, mem, n)" by (cases s)
  from assms(1) obtain tab R where t: "cv_inv 7 tab R v mem" "length R \<le> length tab" "length tab \<le> N" "new_node_spec (Suc N) (ev_new_node env)" "N < 2 ^ 32"
    "vec_len s = cv_length 7 tab" "vec_val env s = (\<lambda>i. if i < cv_length 7 tab then cv_elem 7 tab mem i else new_value env v)"
    unfolding s by (rule vec_invarE)
  have i: "unat i < cv_length 7 tab" "unat i div 2 ^ 7 < 2 ^ 32" using assms(2) t(1,6) by (simp_all add: cv_inv_def cv_length_iff)
  from write_at_ok [OF t(1) i(1), of x] obtain mem' where
    m: "write_at (tab ! (unat i div 2 ^ 7), unat i mod 2 ^ 7) x mem = Some mem'" "cv_inv 7 tab R v mem'"
      "\<forall>j<cv_length 7 tab. cv_elem 7 tab mem' j = (if j = unat i then x else cv_elem 7 tab mem j)" by blast
  note I = vec_invarI [OF m(2) t(2-5), of n]
  have "vec_val env (v, mem', n) = (vec_val env s)(unat i := x)" unfolding I(3) t(7) using m(3) i(1) by (auto simp: fun_eq_iff)
  then show ?thesis
    using cv_at_eq [OF t(1) i(2)] i m(1) I(1,2) t(6) by (intro exI [of _ "(v, mem', n)"]) (simp add: vec_array_def s)
qed

lemma vec_size:
  assumes "vec_invar N env s"
  shows "ga_size (vec_array env clock) s = Some (of_nat (vec_len s))" and "vec_len s \<le> 128 * N"
proof -
  obtain v mem n where s: "s = (v, mem, n)" by (cases s)
  from assms(1) obtain tab R where t: "cv_inv 7 tab R v mem" "length tab \<le> N" "vec_len s = cv_length 7 tab" unfolding s by (rule vec_invarE)
  have m: "meta_ok (cv_meta v) 7" "cm_tables mem (cv_block_table v) = Some tab" using t(1) by (simp_all add: cv_inv_def)
  show "ga_size (vec_array env clock) s = Some (of_nat (vec_len s))"
    using m t(3) meta_simps(3) [OF m(1)] by (simp add: vec_array_def s cv_size_def Snapshot_size_def cv_snapshot_def cv_length_def push_bit_eq_mult mult.commute)
  show "vec_len s \<le> 128 * N" using t(2,3) by (simp add: cv_length_def)
qed

lemma block_elems:
  assumes "cv_inv 7 tab R v mem" and "i < length tab" and "q \<le> 2 ^ 7"
  obtains xs where "cm_blocks mem (tab ! i) = Some xs" and "length xs = 2 ^ 7"
    and "drop p (take q xs) = map (cv_elem 7 tab mem) [i * 2 ^ 7 + p..<i * 2 ^ 7 + q]"
proof -
  obtain xs where xs: "cm_blocks mem (tab ! i) = Some xs" "length xs = 2 ^ 7" by (rule cv_inv_block [OF assms(1,2)])
  have "drop p (take q xs) = map (cv_elem 7 tab mem) [i * 2 ^ 7 + p..<i * 2 ^ 7 + q]"
  proof (rule nth_equalityI)
    fix j
    assume "j < length (drop p (take q xs))"
    then have j: "p + j < 128" "j < q - p" using assms(3) xs(2) by simp_all
    then have "(i * 2 ^ 7 + (p + j)) div 2 ^ 7 = i" "(i * 2 ^ 7 + (p + j)) mod 2 ^ 7 = p + j" by simp_all
    then show "drop p (take q xs) ! j = map (cv_elem 7 tab mem) [i * 2 ^ 7 + p..<i * 2 ^ 7 + q] ! j"
      using j assms(3) xs by (simp add: cv_elem_def add.assoc)
  qed (use assms(3) xs(2) in simp)
  then show ?thesis using that xs by blast
qed

lemma vec_segments:
  assumes "vec_invar N env s" and "unat a \<le> unat b" and "unat b \<le> vec_len s"
  shows "\<exists>segs. ga_segments (vec_array env clock) a b s = Some segs \<and> concat segs = map (vec_val env s) [unat a..<unat b]"
proof -
  obtain v mem c where s: "s = (v, mem, c)" by (cases s)
  from assms(1) obtain tab R where t: "cv_inv 7 tab R v mem" "vec_len s = cv_length 7 tab"
    "vec_val env s = (\<lambda>i. if i < cv_length 7 tab then cv_elem 7 tab mem i else new_value env v)" unfolding s by (rule vec_invarE)
  have m: "meta_ok (cv_meta v) 7" "length tab < 2 ^ 32" "cm_tables mem (cv_block_table v) = Some tab" using t(1) by (simp_all add: cv_inv_def)
  let ?I = "\<lambda>k segs. concat segs = map (cv_elem 7 tab mem) [unat a..<k]"
  have "\<exists>segs. Snapshot_for_each (collect_segment mem) tab (cv_meta v) a b [] = Some segs \<and> ?I (unat b) segs"
  proof (rule Snapshot_for_each_rule [OF m(1,2) _ assms(2)])
    show "unat b \<le> length tab * 2 ^ 7" using assms(3) t(2) by (simp add: cv_length_def)
  next
    fix i p q segs
    assume h: "i < length tab" "p < q" "q \<le> 2 ^ 7" "unat a \<le> i * 2 ^ 7 + p" "?I (i * 2 ^ 7 + p) segs"
    obtain xs where xs: "cm_blocks mem (tab ! i) = Some xs" "length xs = 2 ^ 7"
      "drop p (take q xs) = map (cv_elem 7 tab mem) [i * 2 ^ 7 + p..<i * 2 ^ 7 + q]" by (rule block_elems [OF t(1) h(1,3)])
    have "[unat a..<i * 2 ^ 7 + q] = [unat a..<i * 2 ^ 7 + p] @ [i * 2 ^ 7 + p..<i * 2 ^ 7 + q]"
      using h(2,4) upt_add_eq_append [of "unat a" "i * 2 ^ 7 + p" "q - p"] by simp
    then show "\<exists>segs'. collect_segment mem (tab ! i, p, q) segs = Some segs' \<and> ?I (i * 2 ^ 7 + q) segs'"
      using h(3,5) xs by simp
  qed simp_all
  moreover have "map (vec_val env s) [unat a..<unat b] = map (cv_elem 7 tab mem) [unat a..<unat b]"
    unfolding t(3) using assms(3) t(2) by (intro map_upt_eqI) simp
  ultimately have "\<exists>segs. Snapshot_for_each (collect_segment mem) tab (cv_meta v) a b [] = Some segs \<and> concat segs = map (vec_val env s) [unat a..<unat b]" by presburger
  then show ?thesis using m(3) by (simp add: vec_array_def s cv_for_each_const_def)
qed

lemma map_segment_ok:
  assumes inv: "cv_inv 7 tab R v mem" and i: "i < length tab" and p: "p < q" "q \<le> 2 ^ 7"
  shows "\<exists>mem'. map_segment f (tab ! i, p, q) mem = Some mem' \<and> cv_inv 7 tab R v mem'
    \<and> (\<forall>j<cv_length 7 tab. cv_elem 7 tab mem' j = (if i * 2 ^ 7 + p \<le> j \<and> j < i * 2 ^ 7 + q then f (cv_elem 7 tab mem j) else cv_elem 7 tab mem j))"
proof -
  obtain xs where xs: "cm_blocks mem (tab ! i) = Some xs" "length xs = 2 ^ 7"
    "drop p (take q xs) = map (cv_elem 7 tab mem) [i * 2 ^ 7 + p..<i * 2 ^ 7 + q]" by (rule block_elems [OF inv i p(2)])
  let ?ys = "map f (map (cv_elem 7 tab mem) [i * 2 ^ 7 + p..<i * 2 ^ 7 + q])"
  have l: "length ?ys = q - p" by simp
  have "p + length ?ys \<le> 2 ^ 7" using p l by linarith
  from write_range_ok [OF inv i this] obtain mem' where
    m: "write_range (tab ! i) p ?ys mem = Some mem'" "cv_inv 7 tab R v mem'"
      "\<And>j. j < cv_length 7 tab \<Longrightarrow> cv_elem 7 tab mem' j =
        (if i * 2 ^ 7 + p \<le> j \<and> j < i * 2 ^ 7 + p + length ?ys then ?ys ! (j - (i * 2 ^ 7 + p)) else cv_elem 7 tab mem j)" by blast
  have "map_segment f (tab ! i, p, q) mem = Some mem'" using xs m(1) p(2) by (simp del: map_map)
  moreover have "cv_elem 7 tab mem' j = (if i * 2 ^ 7 + p \<le> j \<and> j < i * 2 ^ 7 + q then f (cv_elem 7 tab mem j) else cv_elem 7 tab mem j)"
    if "j < cv_length 7 tab" for j
    unfolding m(3) [OF that] l using p by (auto simp: nth_map)
  ultimately show ?thesis using m(2) by blast
qed

lemma vec_update:
  assumes "vec_invar N env s" and "unat a \<le> unat b" and "unat b \<le> vec_len s"
  shows "\<exists>s'. ga_update (vec_array env clock) a b f s = Some s' \<and> vec_invar N env s' \<and> vec_len s' = vec_len s
    \<and> vec_val env s' = (\<lambda>n. if unat a \<le> n \<and> n < unat b then f (vec_val env s n) else vec_val env s n)"
proof -
  obtain v mem c where s: "s = (v, mem, c)" by (cases s)
  from assms(1) obtain tab R where t: "cv_inv 7 tab R v mem" "length R \<le> length tab" "length tab \<le> N" "new_node_spec (Suc N) (ev_new_node env)" "N < 2 ^ 32"
    "vec_len s = cv_length 7 tab" "vec_val env s = (\<lambda>i. if i < cv_length 7 tab then cv_elem 7 tab mem i else new_value env v)"
    unfolding s by (rule vec_invarE)
  have m: "meta_ok (cv_meta v) 7" "length tab < 2 ^ 32" "cm_tables mem (cv_block_table v) = Some tab" using t(1) by (simp_all add: cv_inv_def)
  define I where "I k mem' \<longleftrightarrow> cv_inv 7 tab R v mem' \<and> (\<forall>j<cv_length 7 tab. cv_elem 7 tab mem' j =
      (if unat a \<le> j \<and> j < k then f (cv_elem 7 tab mem j) else cv_elem 7 tab mem j))" for k mem'
  have "\<exists>mem'. Snapshot_for_each (map_segment f) tab (cv_meta v) a b mem = Some mem' \<and> I (unat b) mem'"
  proof (rule Snapshot_for_each_rule [OF m(1,2) _ assms(2)])
    show "unat b \<le> length tab * 2 ^ 7" using assms(3) t(6) by (simp add: cv_length_def)
    show "I (unat a) mem" using t(1) by (auto simp: I_def)
  next
    fix i p q mem1
    assume h: "i < length tab" "p < q" "q \<le> 2 ^ 7" "unat a \<le> i * 2 ^ 7 + p" "I (i * 2 ^ 7 + p) mem1"
    have inv: "cv_inv 7 tab R v mem1" using h(5) by (simp add: I_def)
    from map_segment_ok [OF inv h(1-3), of f] obtain mem2 where
      2: "map_segment f (tab ! i, p, q) mem1 = Some mem2" "cv_inv 7 tab R v mem2"
        "\<And>j. j < cv_length 7 tab \<Longrightarrow> cv_elem 7 tab mem2 j = (if i * 2 ^ 7 + p \<le> j \<and> j < i * 2 ^ 7 + q then f (cv_elem 7 tab mem1 j) else cv_elem 7 tab mem1 j)"
      by blast
    have "I (i * 2 ^ 7 + q) mem2" unfolding I_def using 2(2,3) h(2,4,5) by (auto simp: I_def)
    then show "\<exists>mem'. map_segment f (tab ! i, p, q) mem1 = Some mem' \<and> I (i * 2 ^ 7 + q) mem'" using 2(1) by blast
  qed
  then obtain mem' where r: "Snapshot_for_each (map_segment f) tab (cv_meta v) a b mem = Some mem'" "I (unat b) mem'" by blast
  then have "cv_inv 7 tab R v mem'" by (simp add: I_def)
  note I = vec_invarI [OF this t(2-5), of c]
  have "vec_val env (v, mem', c) = (\<lambda>n. if unat a \<le> n \<and> n < unat b then f (vec_val env s n) else vec_val env s n)"
    unfolding I(3) t(7) using r(2) assms(3) t(6) by (auto simp: I_def fun_eq_iff)
  then show ?thesis using r(1) m(3) I(1,2) t(6) by (intro exI [of _ "(v, mem', c)"]) (simp add: vec_array_def s)
qed

lemma vec_new_ok:
  assumes "new_node_spec (Suc N) (ev_new_node env)" and "N < 2 ^ 32"
  shows "vec_invar N env (vec_new c)" and "vec_len (vec_new c) = 0"
    and "vec_val env (vec_new c) = (\<lambda>_. case c of Some x \<Rightarrow> x | None \<Rightarrow> ev_zero env)"
proof -
  have i: "cv_inv 7 [] [] (fst (vec_new c)) cmem0"
    by (rule construct_inv [of "StaticMeta 128" 1024 c]) (simp_all add: ConcurrentVector_construct_def vec_new_def meta_ok_def)
  have s: "vec_new c = (fst (vec_new c), cmem0, 0)" by (simp add: vec_new_def)
  show "vec_invar N env (vec_new c)" by (subst s) (rule vec_invarI [OF i _ _ assms], simp_all)
  show "vec_len (vec_new c) = 0" by (subst s, subst vec_invarI [OF i _ _ assms]) (simp_all add: cv_length_def)
  show "vec_val env (vec_new c) = (\<lambda>_. case c of Some x \<Rightarrow> x | None \<Rightarrow> ev_zero env)"
    by (subst s, subst vec_invarI(3) [OF i _ _ assms]) (simp_all add: cv_length_def new_value_def vec_new_def)
qed

lemma vec_growing_array:
  assumes "N < 2 ^ 32"
  shows "growing_array (vec_array env clock) (vec_invar N env) vec_len (vec_val env) (128 * N)"
proof (unfold_locales, goal_cases)
  case (1 s i)
  then show ?case by (rule vec_ensure)
next
  case (2 s i)
  then show ?case by (rule vec_load)
next
  case (3 s i x)
  then show ?case by (rule vec_store)
next
  case (4 s)
  then show ?case by (rule vec_size)
next
  case (5 s)
  then show ?case by (rule vec_size)
next
  case (6 s i j)
  then show ?case by (rule vec_segments)
next
  case (7 s i j f)
  then show ?case by (rule vec_update)
qed (use assms in simp_all)

text \<open>512 blocks hold every 16 bit index, \<open>2^25\<close> every 32 bit one.\<close>

interpretation va16: growing_array "vec_array env clock" "vec_invar (2 ^ 9) env" vec_len "vec_val env" "128 * 2 ^ 9" for env :: "'a cv_env" and clock
  by (rule vec_growing_array) simp

interpretation va32: growing_array "vec_array env clock" "vec_invar (2 ^ 25) env" vec_len "vec_val env" "128 * 2 ^ 25" for env :: "'a cv_env" and clock
  by (rule vec_growing_array) simp

end
