(* ===== verification/ThreadIds.thy ===== *)
theory ThreadIds
  imports IdAllocatorSpec VectorArray
begin

text \<open>
  \<open>ConcurrentVector<std::atomic<uint16_t>, 128>\<close> and its 32 bit sibling as the array of an \<open>IdAllocator\<close>: a growing array of
  words with room for every word gives the array the allocator relies on. Then \<open>ThreadId\<close>, an allocator whose
  identifiers belong to threads.
\<close>

section \<open>The vector as the array\<close>

definition id_array :: "('w::len word, 's) array \<Rightarrow> ('w word, 's) array_ops" where
  "id_array ga = \<lparr>
     arr_load = (\<lambda>i. ga_load ga (ucast i)),
     arr_store = (\<lambda>i. ga_store ga (ucast i)),
     arr_ensure_store = (\<lambda>i x s. do { s \<leftarrow> ga_ensure ga (ucast i) s; ga_store ga (ucast i) x s }),
     arr_size = (\<lambda>s. map_option unat (ga_size ga s)),
     arr_segments = (\<lambda>n. ga_segments ga 0 (of_nat n))\<rparr>"

locale word_array = growing_array ga invar len val bound for ga :: "('w::len word, 's) array" and invar len val bound +
  assumes room: "2 ^ LENGTH('w) \<le> bound" and width: "LENGTH('w) \<le> 32"
begin

lemma id_index: "unat (ucast (i :: 'w word) :: u64) = unat i" "unat i < bound"
proof -
  show "unat (ucast i :: u64) = unat i" using width by (intro unat_ucast_up) simp
  show "unat i < bound" using unat_less_2p [of i] room by (rule less_le_trans)
qed

lemma id_ensure_store:
  assumes "invar s"
  shows "\<exists>s'. arr_ensure_store (id_array ga) i x s = Some s' \<and> invar s' \<and> len s \<le> len s' \<and> unat i < len s'
    \<and> (\<forall>j<len s'. j < len s \<or> j = unat i \<longrightarrow> val s' j = (if j = unat i then x else val s j))"
proof -
  have ib: "unat (ucast i :: u64) < bound" unfolding id_index(1) by (rule id_index(2))
  from ensure [OF assms ib] obtain s1 where
    1: "ga_ensure ga (ucast i) s = Some s1" "invar s1" "len s1 = max (len s) (Suc (unat i div 128) * 128)" "val s1 = val s"
    unfolding id_index(1) by blast
  have "unat i < Suc (unat i div 128) * 128" using dividend_less_div_times [of 128 "unat i"] by simp
  then have i: "unat (ucast i :: u64) < len s1" unfolding id_index(1) 1(3) by simp
  from store [OF 1(2) i, of x] show ?thesis using 1 i by (auto simp: id_array_def id_index(1))
qed

end

sublocale word_array \<subseteq> free: free_next_array "id_array ga" invar len val
proof (unfold_locales, goal_cases)
  case (1 s i)
  then show ?case using load [of s "ucast i"] by (simp add: id_array_def id_index(1))
next
  case (2 s i x)
  then show ?case using store [of s "ucast i" x] by (auto simp: id_array_def id_index(1))
next
  case (3 s i x)
  then show ?case by (rule id_ensure_store)
next
  case (4 s)
  have "len s < 2 ^ 64" using 4 size(2) [OF 4] bound(2) by linarith
  then show ?case using size(1) [OF 4] by (simp add: id_array_def unat_of_nat_small)
next
  case (5 s n)
  have "n < 2 ^ 64" using 5(3) width power_increasing [of "LENGTH('w)" 64 "2::nat"] by simp
  then show ?case using segments [of s 0 "of_nat n"] 5 by (simp add: id_array_def unat_of_nat_small)
qed

abbreviation vector_ops :: "'w::len word cv_env \<Rightarrow> (nat \<Rightarrow> u64) \<Rightarrow> ('w word, 'w word vec) array_ops" where
  "vector_ops env clock \<equiv> id_array (vec_array env clock)"

interpretation fv: word_array "vec_array env clock" "vec_invar (2 ^ 9) env" vec_len "vec_val env" "128 * 2 ^ 9" for env :: "u16 cv_env" and clock
  by unfold_locales simp_all

interpretation fv32: word_array "vec_array env clock" "vec_invar (2 ^ 25) env" vec_len "vec_val env" "128 * 2 ^ 25" for env :: "u32 cv_env" and clock
  by unfold_locales simp_all

section \<open>Thread identifiers\<close>

text \<open>
  \<open>live\<close> are the thread-local \<open>ThreadId\<close> objects, by thread. The first \<open>current_thread_id\<close> of a thread constructs its object, the exit of
  the thread destroys it.
\<close>

record ('v, 's) thread_ids =
  tid_allocator :: "('v, 's) IdAllocator"
  tid_live :: "(nat \<times> 'v VersionedValue) list"

definition current_thread_id ::
  "('w::len word, 's) array_ops \<Rightarrow> nat \<Rightarrow> ('w word, 's) thread_ids \<Rightarrow> ('w word VersionedValue \<times> ('w word, 's) thread_ids) option" where
  "current_thread_id ops t st = (case map_of (tid_live st) t of
       Some i \<Rightarrow> Some (i, st)
     | None \<Rightarrow> do {
         (i, ia) \<leftarrow> allocate ops (tid_allocator st);
         Some (i, \<lparr>tid_allocator = ia, tid_live = tid_live st @ [(t, i)]\<rparr>) })"

definition ThreadId_destroy :: "('w::len word, 's) array_ops \<Rightarrow> nat \<Rightarrow> ('w word, 's) thread_ids \<Rightarrow> ('w word, 's) thread_ids option" where
  "ThreadId_destroy ops t st = (case map_of (tid_live st) t of
       None \<Rightarrow> Some st
     | Some i \<Rightarrow> do {
         ia \<leftarrow> deallocate ops i (tid_allocator st);
         Some \<lparr>tid_allocator = ia, tid_live = filter (\<lambda>x. fst x \<noteq> t) (tid_live st)\<rparr> })"

definition ThreadId_end :: "('w::len word, 's) thread_ids \<Rightarrow> 'w word" where
  "ThreadId_end st = IdAllocator_end (tid_allocator st)"

definition ThreadId_for_each :: "('w::len word, 's) array_ops \<Rightarrow> ('w word, 's) thread_ids \<Rightarrow> ('w word \<times> 'w word) list option" where
  "ThreadId_for_each ops st = IdAllocator_for_each ops (tid_allocator st)"

datatype thread_op = Use nat | Exit nat

fun thread_run :: "('w::len word, 's) array_ops \<Rightarrow> thread_op list \<Rightarrow> ('w word, 's) thread_ids \<Rightarrow> ('w word, 's) thread_ids option" where
  "thread_run ops [] st = Some st"
| "thread_run ops (Use t # rest) st = do { (_, st) \<leftarrow> current_thread_id ops t st; thread_run ops rest st }"
| "thread_run ops (Exit t # rest) st = do { st \<leftarrow> ThreadId_destroy ops t st; thread_run ops rest st }"

text \<open>The largest number of threads that have an identifier at the same time, \<open>L\<close> having one at the start.\<close>

fun peak_live :: "nat set \<Rightarrow> thread_op list \<Rightarrow> nat" where
  "peak_live L [] = card L"
| "peak_live L (Use t # rest) = max (card L) (peak_live (insert t L) rest)"
| "peak_live L (Exit t # rest) = max (card L) (peak_live (L - {t}) rest)"

lemma card_le_peak: "card L \<le> peak_live L ops"
  by (cases "(L, ops)" rule: peak_live.cases) simp_all

definition live_threads :: "('v, 's) thread_ids \<Rightarrow> nat set" where
  "live_threads st = fst ` set (tid_live st)"

definition exits :: "thread_op list \<Rightarrow> nat" where "exits ops = length (filter (\<lambda>op. case op of Use t \<Rightarrow> False | Exit t \<Rightarrow> True) ops)"

lemma map_of_split:
  assumes "map_of xs t = Some i" and "distinct (map fst xs)"
  obtains ys zs where "xs = ys @ (t, i) # zs" and "filter (\<lambda>x. fst x \<noteq> t) xs = ys @ zs"
proof -
  from map_of_SomeD [OF assms(1)] obtain ys zs where x: "xs = ys @ (t, i) # zs" by (meson split_list)
  then have "t \<notin> fst ` set ys" "t \<notin> fst ` set zs" using assms(2) by auto
  then have "filter (\<lambda>x. fst x \<noteq> t) ys = ys" "filter (\<lambda>x. fst x \<noteq> t) zs = zs" by (auto simp: filter_id_conv image_iff)
  then show ?thesis using that [OF x] x by simp
qed

context free_next_array
begin

definition thread_ok where
  "thread_ok past d fl st \<longleftrightarrow> ia_ok invar len val fl (tid_allocator st) \<and> run_ok past d fl (tid_allocator st) (map snd (tid_live st)) \<and> distinct (map fst (tid_live st))"

lemma thread_use:
  assumes ok: "thread_ok past d fl st" and n: "Suc (card (insert t (live_threads st))) < 2 ^ LENGTH('w)" and d: "d < 2 ^ LENGTH('w)"
  shows "\<exists>i st' past' fl'. current_thread_id ops t st = Some (i, st') \<and> thread_ok past' d fl' st' \<and> live_threads st' = insert t (live_threads st)
    \<and> unat (ThreadId_end st') \<le> max (unat (ThreadId_end st)) (card (insert t (live_threads st)))"
proof (cases "map_of (tid_live st) t")
  case (Some i)
  then have "t \<in> live_threads st" by (force simp: live_threads_def dest: map_of_SomeD)
  then show ?thesis using ok Some by (intro exI [of _ i] exI [of _ st] exI [of _ past] exI [of _ fl]) (simp add: current_thread_id_def insert_absorb)
next
  case None
  have t: "t \<notin> live_threads st" using None by (simp add: map_of_eq_None_iff live_threads_def)
  have "card (live_threads st) = length (tid_live st)"
    using ok distinct_card [of "map fst (tid_live st)"] by (simp add: thread_ok_def live_threads_def)
  then have c: "card (insert t (live_threads st)) = Suc (length (map snd (tid_live st)))" using t by (simp add: live_threads_def)
  from alloc_step_small [where d = d and fl = fl and past = past, OF _ _ n [unfolded c] d] ok obtain h ia fl' where
    r: "allocate ops (tid_allocator st) = Some (h, ia)" "ia_ok invar len val fl' ia" "run_ok (insert h past) d fl' ia (map snd (tid_live st) @ [h])"
      "unat (ia_next_value ia) \<le> max (unat (ia_next_value (tid_allocator st))) (Suc (length (map snd (tid_live st))))" unfolding thread_ok_def by blast
  let ?st = "\<lparr>tid_allocator = ia, tid_live = tid_live st @ [(t, h)]\<rparr>"
  have "thread_ok (insert h past) d fl' ?st" using r(2,3) ok t by (simp add: thread_ok_def live_threads_def)
  moreover have "current_thread_id ops t st = Some (h, ?st)" using None r(1) by (simp add: current_thread_id_def)
  moreover have "live_threads ?st = insert t (live_threads st)" by (simp add: live_threads_def)
  ultimately show ?thesis using r(4) unfolding ThreadId_end_def IdAllocator_end_def c by (intro exI conjI) auto
qed

lemma thread_exit:
  assumes ok: "thread_ok past d fl st" and d: "Suc d < 2 ^ LENGTH('w)"
  shows "\<exists>st' fl' d'. ThreadId_destroy ops t st = Some st' \<and> thread_ok past d' fl' st' \<and> d' \<le> Suc d \<and> ThreadId_end st' = ThreadId_end st
    \<and> live_threads st' = live_threads st - {t}"
proof (cases "map_of (tid_live st) t")
  case None
  then have "live_threads st - {t} = live_threads st" by (simp add: map_of_eq_None_iff live_threads_def)
  then show ?thesis using ok None by (intro exI [of _ st] exI [of _ fl] exI [of _ d]) (simp add: ThreadId_destroy_def)
next
  case (Some i)
  have dist: "distinct (map fst (tid_live st))" using ok by (simp add: thread_ok_def)
  obtain ys zs where l: "tid_live st = ys @ (t, i) # zs" "filter (\<lambda>x. fst x \<noteq> t) (tid_live st) = ys @ zs" by (rule map_of_split [OF Some dist])
  have "run_ok past d fl (tid_allocator st) (map snd (tid_live st))" "ia_ok invar len val fl (tid_allocator st)" using ok by (simp_all add: thread_ok_def)
  from free_step [OF this(2,1) _ d, of "length ys"] obtain ia fl' where
    r: "deallocate ops i (tid_allocator st) = Some ia" "ia_ok invar len val fl' ia" "run_ok past (Suc d) fl' ia (map snd (ys @ zs))"
    "ia_next_value ia = ia_next_value (tid_allocator st)" by (auto simp: l(1) nth_append)
  let ?st = "\<lparr>tid_allocator = ia, tid_live = ys @ zs\<rparr>"
  have "live_threads ?st = live_threads st - {t}" using dist by (auto simp: live_threads_def l(1))
  moreover have "ThreadId_destroy ops t st = Some ?st" using Some l(2) r(1) by (simp add: ThreadId_destroy_def)
  moreover have "thread_ok past (Suc d) fl' ?st" using r(2,3) dist l(1) by (simp add: thread_ok_def)
  ultimately show ?thesis using r(4) by (auto simp: ThreadId_end_def IdAllocator_end_def)
qed

lemma thread_run_ok:
  "thread_ok past d fl st \<Longrightarrow> unat (ThreadId_end st) \<le> peak \<Longrightarrow> peak_live (live_threads st) rest \<le> peak \<Longrightarrow> Suc peak < 2 ^ LENGTH('w) \<Longrightarrow>
   d + exits rest < 2 ^ LENGTH('w) \<Longrightarrow>
   \<exists>st' past' d' fl'. thread_run ops rest st = Some st' \<and> thread_ok past' d' fl' st' \<and> unat (ThreadId_end st') \<le> peak"
proof (induction rest arbitrary: past d fl st)
  case Nil
  then show ?case by auto
next
  case (Cons op rest)
  show ?case
  proof (cases op)
    case (Use t)
    then have b: "peak_live (insert t (live_threads st)) rest \<le> peak" "d + exits rest < 2 ^ LENGTH('w)"
      using Cons.prems(3,5) by (simp_all add: exits_def)
    have c: "card (insert t (live_threads st)) \<le> peak" using b(1) card_le_peak order_trans by blast
    then have "Suc (card (insert t (live_threads st))) < 2 ^ LENGTH('w)" "d < 2 ^ LENGTH('w)" using Cons.prems(4) b(2) by linarith+
    from thread_use [OF Cons.prems(1) this] obtain i st1 past1 fl1 where
      1: "current_thread_id ops t st = Some (i, st1)" "thread_ok past1 d fl1 st1" "live_threads st1 = insert t (live_threads st)"
        "unat (ThreadId_end st1) \<le> max (unat (ThreadId_end st)) (card (insert t (live_threads st)))" by blast
    have "unat (ThreadId_end st1) \<le> peak" using 1(4) c Cons.prems(2) by linarith
    from Cons.IH [OF 1(2) this _ Cons.prems(4) b(2)] b(1) show ?thesis using Use 1(1,3) by simp
  next
    case (Exit t)
    then have b: "peak_live (live_threads st - {t}) rest \<le> peak" "Suc d + exits rest < 2 ^ LENGTH('w)"
      using Cons.prems(3,5) by (simp_all add: exits_def)
    then have "Suc d < 2 ^ LENGTH('w)" by linarith
    from thread_exit [OF Cons.prems(1) this, of t] obtain st1 fl1 d1 where
      1: "ThreadId_destroy ops t st = Some st1" "thread_ok past d1 fl1 st1" "d1 \<le> Suc d" "ThreadId_end st1 = ThreadId_end st"
        "live_threads st1 = live_threads st - {t}" by blast
    have "d1 + exits rest < 2 ^ LENGTH('w)" using 1(3) b(2) by linarith
    from Cons.IH [OF 1(2) _ _ Cons.prems(4) this] b(1) Cons.prems(2) show ?thesis using Exit 1(1,4,5) by simp
  qed
qed

lemma thread_ids_correct:
  assumes s: "invar s" and u: "peak_live {} rest + 1 < 2 ^ LENGTH('w)" and e: "exits rest < 2 ^ LENGTH('w)"
  shows "\<exists>st. thread_run ops rest \<lparr>tid_allocator = IdAllocator_new s, tid_live = []\<rparr> = Some st \<and> distinct (map (\<lambda>x. vv_value (snd x)) (tid_live st))
    \<and> (\<exists>calls. ThreadId_for_each ops st = Some calls \<and> separated calls \<and> covered calls = (\<lambda>x. unat (vv_value (snd x))) ` set (tid_live st))
    \<and> unat (ThreadId_end st) \<le> peak_live {} rest \<and> (\<forall>x\<in>set (tid_live st). unat (vv_value (snd x)) < unat (ThreadId_end st))"
proof -
  let ?st = "\<lparr>tid_allocator = IdAllocator_new s, tid_live = []\<rparr> :: ('w word, 's) thread_ids"
  have one: "Suc 0 < 2 ^ LENGTH('w)" using one_less_power [of "2::nat" "LENGTH('w)"] by simp
  have "thread_ok {} 0 [] ?st"
    using s one by (simp add: thread_ok_def ia_ok_def run_ok_def Let_def IdAllocator_new_def VersionedValue_of_def)
  from thread_run_ok [OF this, of "peak_live {} rest" rest] u e obtain st past d fl where
    r: "thread_run ops rest ?st = Some st" "ia_ok invar len val fl (tid_allocator st)" "run_ok past d fl (tid_allocator st) (map snd (tid_live st))"
      "unat (ThreadId_end st) \<le> peak_live {} rest"
    by (auto simp: thread_ok_def ThreadId_end_def IdAllocator_end_def IdAllocator_new_def live_threads_def)
  have h: "distinct (map (\<lambda>x. vv_value (snd x)) (tid_live st))" "(\<lambda>x. vv_value (snd x)) ` set (tid_live st) = {i. i < ia_next_value (tid_allocator st)} - set fl"
    using r(3) by (simp_all add: run_ok_def comp_def image_image)
  have "(\<lambda>x. unat (vv_value (snd x))) ` set (tid_live st) = unat ` ({i. i < ia_next_value (tid_allocator st)} - set fl)"
    unfolding h(2) [symmetric] by (simp add: image_image)
  moreover have "unat (vv_value (snd x)) < unat (ThreadId_end st)" if "x \<in> set (tid_live st)" for x
    using h(2) that unfolding ThreadId_end_def IdAllocator_end_def word_less_nat_alt by blast
  ultimately show ?thesis using r(1,4) h(1) for_each_in_use [OF r(2)] by (simp add: ThreadId_for_each_def)
qed

end

section \<open>Properties\<close>

text \<open>
  C36: An allocator on a \<open>ConcurrentVector\<close>, whatever sequence of allocations and deallocations it sees (fewer than \<open>2^16 - 1\<close>
  allocations and \<open>2^16\<close> deallocations), always returns; identifiers in use are distinct, a value with its version is never handed out
  twice, and \<open>for_each\<close> reports exactly the identifiers in use, as ascending ranges with gaps between them.
\<close>

theorem id_allocator_unique:
  fixes env :: "u16 cv_env"
  assumes "new_node_spec 513 (ev_new_node env)" and "allocs ops < 2 ^ 16 - 1" and "frees ops < 2 ^ 16"
  shows "\<exists>issued ia held. id_run (vector_ops env clock) ops (IdAllocator_new (vec_new (Some x))) [] = Some (issued, ia, held) \<and> distinct issued
    \<and> distinct (map vv_value held)
    \<and> (\<exists>calls. IdAllocator_for_each (vector_ops env clock) ia = Some calls \<and> separated calls \<and> covered calls = (\<lambda>h. unat (vv_value h)) ` set held)"
  using assms by (intro fv.free.id_allocator_correct vec_new_ok) simp_all

definition sample_u16_env :: "u16 cv_env" where
  "sample_u16_env = \<lparr>ev_zero = 0, ev_new_node = new_node_ref 513, ev_tv_sec = 0\<rparr>"

theorem id_allocator_unique_witness:
  "\<exists>issued ia held. id_run (vector_ops sample_u16_env of_nat) [Alloc, Alloc, Free 0, Alloc, Alloc, Free 1] (IdAllocator_new (vec_new (Some 0))) [] = Some (issued, ia, held)
    \<and> distinct issued \<and> distinct (map vv_value held)
    \<and> (\<exists>calls. IdAllocator_for_each (vector_ops sample_u16_env of_nat) ia = Some calls \<and> separated calls \<and> covered calls = (\<lambda>h. unat (vv_value h)) ` set held)"
  by (rule id_allocator_unique) (simp_all add: sample_u16_env_def new_node_ref_spec allocs_def frees_def)

text \<open>
  C35: Threads that use their identifier and exit in any order (fewer than \<open>2^16 - 1\<close> of them live at once, fewer than \<open>2^16\<close> exits): live threads
  always have distinct identifiers, \<open>ThreadId::for_each\<close> reports exactly those of live threads, and identifiers stay small, because those of threads that exited are
  used again: every identifier is below \<open>ThreadId::end\<close>, which is at most the largest number of threads that were live at the same time.
\<close>

theorem thread_ids_unique:
  fixes env :: "u16 cv_env"
  assumes "new_node_spec 513 (ev_new_node env)" and "peak_live {} ops < 2 ^ 16 - 1" and "exits ops < 2 ^ 16"
  shows "\<exists>st. thread_run (vector_ops env clock) ops \<lparr>tid_allocator = IdAllocator_new (vec_new (Some x)), tid_live = []\<rparr> = Some st
    \<and> distinct (map (\<lambda>x. vv_value (snd x)) (tid_live st))
    \<and> (\<exists>calls. ThreadId_for_each (vector_ops env clock) st = Some calls \<and> separated calls \<and> covered calls = (\<lambda>x. unat (vv_value (snd x))) ` set (tid_live st))
    \<and> unat (ThreadId_end st) \<le> peak_live {} ops \<and> (\<forall>x\<in>set (tid_live st). unat (vv_value (snd x)) < unat (ThreadId_end st))"
  using assms by (intro fv.free.thread_ids_correct vec_new_ok) simp_all

text \<open>Four threads one after the other, at most two at a time: two identifiers are enough.\<close>

theorem thread_ids_unique_witness:
  "\<exists>st. thread_run (vector_ops sample_u16_env of_nat) [Use 5, Use 6, Use 5, Exit 5, Use 7, Exit 6, Use 8, Exit 9] \<lparr>tid_allocator = IdAllocator_new (vec_new (Some 0)), tid_live = []\<rparr> = Some st
    \<and> distinct (map (\<lambda>x. vv_value (snd x)) (tid_live st))
    \<and> (\<exists>calls. ThreadId_for_each (vector_ops sample_u16_env of_nat) st = Some calls \<and> separated calls \<and> covered calls = (\<lambda>x. unat (vv_value (snd x))) ` set (tid_live st))
    \<and> unat (ThreadId_end st) \<le> 2"
proof -
  have p: "peak_live {} [Use 5, Use 6, Use 5, Exit 5, Use 7, Exit 6, Use 8, Exit 9] = 2" by (simp add: card_insert_if)
  have "new_node_spec 513 (ev_new_node sample_u16_env)" by (simp add: sample_u16_env_def new_node_ref_spec)
  from thread_ids_unique [OF this, of "[Use 5, Use 6, Use 5, Exit 5, Use 7, Exit 6, Use 8, Exit 9]" of_nat 0] show ?thesis
    unfolding p by (auto simp: exits_def)
qed

end
