(* ===== verification/BoundedQueueCompensate.thy ===== *)
theory BoundedQueueCompensate
  imports BoundedQueueRefine
begin

text \<open>
  The batch operations with a reverse callback: \<open>pop_n\<close> on a queue that runs empty produces the missing elements itself, \<open>push_n\<close> on
  a full queue consumes the oldest ones. So neither ever waits: \<open>pop_n_reverse_ok\<close> and \<open>push_n_reverse_ok\<close> say what is produced and
  what is consumed.
\<close>

section \<open>One element\<close>

lemma version_state:
  assumes "bq_state q b P O'" and "bq_state q' b P' O''"
  shows "pop_version_for_index q index = pop_version_for_index q' index" and "push_version_for_index q index = push_version_for_index q' index"
proof -
  have "bq_dims q b" "bq_dims q' b" using assms by (simp_all add: bq_state_def)
  then show "pop_version_for_index q index = pop_version_for_index q' index" "push_version_for_index q index = push_version_for_index q' index"
    by (simp_all add: version_eq [of _ b])
qed

lemma try_push_1:
  assumes st: "bq_state q b P O'" and P: "unat (bq_next_push_index q) = P" and room: "P < O' + 2 ^ b" "P + 1 + 2 ^ b < 2 ^ 64"
    and rc: "\<And>x. rc [x] d = ([v], d')"
  shows "\<exists>q'. try_push_n conc wake rc d 1 q = Some (1, d', q') \<and> bq_state q' b (P + 1) O'
    \<and> bq_window q' b (P + 1) O' = bq_window q b P O' @ [v] \<and> unat (bq_next_push_index q') = P + 1
    \<and> bq_next_pop_index q' = bq_next_pop_index q"
proof -
  define i where "i = bq_next_push_index q"
  have d: "bq_dims q b" using st by (simp add: bq_state_def)
  have iP: "unat i = P" using P by (simp add: i_def)
  have ra: "i + 1 \<le> next_round_begin_index q i \<longleftrightarrow> P mod 2 ^ b + 1 \<le> 2 ^ b"
    using round_arith(2) [OF d, of i 1] room(2) iP by simp
  have m: "P mod 2 ^ b + 1 \<le> 2 ^ b" using mod_pow2_less [of P b] by linarith
  have r: "1 = min (unat (1 :: u64)) (O' + 2 ^ b - P)" "P mod 2 ^ b + 1 \<le> 2 ^ b" "1 < unat (1 :: u64) \<Longrightarrow> P mod 2 ^ b + 1 < 2 ^ b"
    using room(1) m by simp_all
  have w: "writes rc d 1 [v] d'" using rc by (auto simp: writes_def length_Suc_conv)
  from try_range_push [OF st iP _ r w, of conc wake] obtain s k where
    s: "try_deal_n_continuously conc wake True rc d i 1 q = Some (1, d', bq_upd (set_next_index True (i + 1) q) s k)"
      "bq_state (bq_upd q s k) b (P + 1) O'" "bq_window (bq_upd q s k) b (P + 1) O' = bq_window q b P O' @ [v]" by (auto simp: i_def)
  have "unat (i + 1) = P + 1" using iP room(2) by (simp add: unat_Suc_index)
  then show ?thesis
    using s ra m by (intro exI [of _ "bq_upd (set_next_index True (i + 1) q) s k"])
      (simp add: try_push_n_def try_deal_n_def i_def [symmetric] Let_def bq_state_upd)
qed

lemma try_pop_1:
  assumes st: "bq_state q b P O'" and O: "unat (bq_next_pop_index q) = O'" and some: "O' < P" "O' + 1 + 2 ^ b < 2 ^ 64"
    and rc: "batch_ok rc"
  shows "\<exists>q'. try_pop_n conc wake rc d 1 q = Some (1, snd (rc [hd (bq_window q b P O')] d), q') \<and> bq_state q' b P (O' + 1)
    \<and> bq_window q' b P (O' + 1) = tl (bq_window q b P O') \<and> unat (bq_next_pop_index q') = O' + 1
    \<and> bq_next_push_index q' = bq_next_push_index q"
proof -
  define i where "i = bq_next_pop_index q"
  have d: "bq_dims q b" using st by (simp add: bq_state_def)
  have iO: "unat i = O'" using O by (simp add: i_def)
  have ra: "i + 1 \<le> next_round_begin_index q i \<longleftrightarrow> O' mod 2 ^ b + 1 \<le> 2 ^ b"
    using round_arith(2) [OF d, of i 1] some(2) iO by simp
  have m: "O' mod 2 ^ b + 1 \<le> 2 ^ b" using mod_pow2_less [of O' b] by linarith
  have r: "1 = min (unat (1 :: u64)) (P - O')" "O' mod 2 ^ b + 1 \<le> 2 ^ b" "1 < unat (1 :: u64) \<Longrightarrow> O' mod 2 ^ b + 1 < 2 ^ b"
    using some(1) m by simp_all
  have ne: "bq_window q b P O' \<noteq> []" using some(1) by (metis length_bq_window list.size(3) zero_less_diff less_numeral_extra(3))
  then have t: "take 1 (bq_window q b P O') = [hd (bq_window q b P O')]" "drop 1 (bq_window q b P O') = tl (bq_window q b P O')"
    by (simp_all add: take_Suc drop_Suc)
  from try_range_pop [OF st iO _ r rc, of conc wake d, unfolded t] obtain s k where
    s: "try_deal_n_continuously conc wake False rc d i 1 q =
        Some (1, snd (rc [hd (bq_window q b P O')] d), bq_upd (set_next_index False (i + 1) q) s k)"
      "bq_state (bq_upd q s k) b P (O' + 1)" "bq_window (bq_upd q s k) b P (O' + 1) = tl (bq_window q b P O')" by (auto simp: i_def)
  have "unat (i + 1) = O' + 1" using iO some(2) by (simp add: unat_Suc_index)
  then show ?thesis
    using s ra m by (intro exI [of _ "bq_upd (set_next_index False (i + 1) q) s k"])
      (simp add: try_pop_n_def try_deal_n_def i_def [symmetric] Let_def bq_state_upd)
qed

text \<open>The arithmetic of a batch of \<open>n\<close> cut after \<open>k\<close>.\<close>

lemma split_pop:
  assumes "k < (n :: nat)"
  shows "x + n - max y (x + k) = (if n - k = 0 then 0 else x + k + (n - k) - max y (x + k))"
    and "max y (x + n) = (if n - k = 0 then max y (x + k) else max (max y (x + k)) (x + k + (n - k)))"
  using assms by auto

lemma split_push:
  assumes "k < (n :: nat)"
  shows "x + k + (n - k) = x + n" and "y + (x + k - (y + c)) + (x + k + (n - k) - (y + (x + k - (y + c)) + c)) = y + (x + n - (y + c))"
    and "x + n - (y + c) = x + k - (y + c) + (x + k + (n - k) - (y + (x + k - (y + c)) + c))"
  using assms by auto

section \<open>Popping with production\<close>

text \<open>\<open>n\<close> elements of a producer.\<close>

fun gen :: "('d \<Rightarrow> 'a \<times> 'd) \<Rightarrow> nat \<Rightarrow> 'd \<Rightarrow> 'a list \<times> 'd" where
  "gen p 0 d = ([], d)"
| "gen p (Suc n) d = (let (v, d) = p d; (vs, d) = gen p n d in (v # vs, d))"

lemma gen_length: "length (fst (gen p n d)) = n"
  by (induction n arbitrary: d) (auto simp: split_beta)

lemma gen_add: "gen p (m + n) d = (fst (gen p m d) @ fst (gen p n (snd (gen p m d))), snd (gen p n (snd (gen p m d))))"
  by (induction m arbitrary: d) (auto simp: split_beta)

text \<open>The slot of position \<open>j\<close>, in the round of the first position to pop.\<close>

lemma pop_slot_at:
  assumes st: "bq_state q b P O'" and j: "O' \<le> j" "j < O' + 2 ^ b" "j div 2 ^ b = O' div 2 ^ b" and ix: "unat index = O'"
  shows "\<exists>w. bq_futex q (j mod 2 ^ b) = Some w \<and> (pop_version_for_index q index = sf_version w \<longleftrightarrow> j < P)"
proof -
  have d: "bq_dims q b" and ok: "slots_ok (2 ^ b) P O' (sv_slots (bq_slots q))" using st by (simp_all add: bq_state_def)
  have len: "j mod 2 ^ b < length (sv_slots (bq_slots q))" using ok mod_pow2_less [of j b] unfolding slots_ok_def by linarith
  have v: "sf_version (slot_futex (sv_slots (bq_slots q) ! (j mod 2 ^ b))) = of_nat (2 * (O' div 2 ^ b) + (if j < P then 1 else 0))"
    using ok j by (simp add: slots_ok_def slot_version_def)
  have "pop_version_for_index q index = of_nat (2 * (O' div 2 ^ b) + 1)" using version_eq(2) [OF d] ix by simp
  then show ?thesis
    using v len version_parity [of "O' div 2 ^ b" "O' div 2 ^ b"] by (auto simp: bq_futex_def mem_read_def split: if_splits)
qed

lemma compensate_pop:
  assumes "bq_state q b P O'" and "unat (bq_next_push_index q) = P" and "O' \<le> j" "j < O' + 2 ^ b" "j div 2 ^ b = O' div 2 ^ b"
    and "unat index = O'" and "j < unat end_index" and "O' + 2 * 2 ^ b < 2 ^ 64" and rc: "\<And>x d. rc [x] d = ([fst (p d)], snd (p d))"
  shows "\<exists>q'. compensate False (pop_version_for_index q index) rc end_index (j mod 2 ^ b) d q = Some (snd (gen p (Suc j - P) d), q')
    \<and> bq_state q' b (max P (Suc j)) O' \<and> bq_window q' b (max P (Suc j)) O' = bq_window q b P O' @ fst (gen p (Suc j - P) d)
    \<and> unat (bq_next_push_index q') = max P (Suc j) \<and> bq_next_pop_index q' = bq_next_pop_index q"
  using assms(1-8)
proof (induction "Suc j - P" arbitrary: P q d)
  case 0
  obtain w where w: "bq_futex q (j mod 2 ^ b) = Some w" "pop_version_for_index q index = sf_version w \<longleftrightarrow> j < P"
    using pop_slot_at [OF 0(2,4-7)] by blast
  have "compensate False (pop_version_for_index q index) rc end_index (j mod 2 ^ b) d q = Some (d, q)"
    using w 0(1) by (subst compensate.simps) simp
  moreover have "max P (Suc j) = P" "Suc j - P = 0" using 0(1) by simp_all
  ultimately show ?case using 0(2,3) by simp
next
  case (Suc m)
  have P: "P \<le> j" "m = Suc j - Suc P" using Suc(2) by simp_all
  obtain w where w: "bq_futex q (j mod 2 ^ b) = Some w" "pop_version_for_index q index = sf_version w \<longleftrightarrow> j < P"
    using pop_slot_at [OF Suc(3,5-8)] by blast
  have need: "bq_next_push_index q \<le> end_index" using Suc(4) P(1) Suc(9) by (simp add: word_le_nat_alt)
  have rm: "P < O' + 2 ^ b" "P + 1 + 2 ^ b < 2 ^ 64" using P(1) Suc(6,10) by linarith+
  obtain q1 where q1: "try_push_n True False rc d 1 q = Some (1, snd (p d), q1)" "bq_state q1 b (P + 1) O'"
    "bq_window q1 b (P + 1) O' = bq_window q b P O' @ [fst (p d)]" "unat (bq_next_push_index q1) = P + 1"
    "bq_next_pop_index q1 = bq_next_pop_index q" using try_push_1 [where rc = rc and d = d, OF Suc(3,4) rm rc] by blast
  have v: "pop_version_for_index q1 index = pop_version_for_index q index"
    by (rule version_state(1) [OF q1(2) Suc(3)])
  have eq: "compensate False (pop_version_for_index q index) rc end_index (j mod 2 ^ b) d q =
    compensate False (pop_version_for_index q1 index) rc end_index (j mod 2 ^ b) (snd (p d)) q1"
    using w P(1) need q1(1) by (subst compensate.simps) (simp add: v)
  have m: "m = Suc j - (P + 1)" "Suc j - P = Suc m" "max (P + 1) (Suc j) = max P (Suc j)" using P by simp_all
  show ?case
    using Suc(1) [OF m(1) q1(2,4) Suc(5-10), of "snd (p d)"] q1(3,5)
    unfolding eq m(2,3) m(1) [symmetric] by (auto simp: split_beta)
qed

lemma compensate_range_pop:
  assumes "bq_state q b P O'" and "unat (bq_next_push_index q) = P" and "O' \<le> j" "j + n \<le> O' + 2 ^ b"
    and "O' mod 2 ^ b + (j - O') + n \<le> 2 ^ b"
    and "unat index = O'" and "j + n \<le> unat end_index" and "O' + 2 * 2 ^ b < 2 ^ 64" and rc: "\<And>x d. rc [x] d = ([fst (p d)], snd (p d))"
  shows "\<exists>q'. compensate_range False (pop_version_for_index q index) rc end_index (O' mod 2 ^ b + (j - O')) n d q = Some (snd (gen p (if n = 0 then 0 else j + n - P) d), q')
    \<and> bq_state q' b (if n = 0 then P else max P (j + n)) O'
    \<and> bq_window q' b (if n = 0 then P else max P (j + n)) O' = bq_window q b P O' @ fst (gen p (if n = 0 then 0 else j + n - P) d)
    \<and> unat (bq_next_push_index q') = (if n = 0 then P else max P (j + n)) \<and> bq_next_pop_index q' = bq_next_pop_index q"
  using assms(1-8)
proof (induction n arbitrary: P q d j)
  case 0
  then show ?case by simp
next
  case (Suc n)
  have jd: "j mod 2 ^ b = O' mod 2 ^ b + (j - O')" "j div 2 ^ b = O' div 2 ^ b"
    using mod_seg [of O' "2 ^ b" "j - O'"] Suc.prems(3,5) by simp_all
  have j: "j < O' + 2 ^ b" "j < unat end_index" using Suc.prems(4,7) by simp_all
  obtain q1 where q1: "compensate False (pop_version_for_index q index) rc end_index (j mod 2 ^ b) d q = Some (snd (gen p (Suc j - P) d), q1)"
    "bq_state q1 b (max P (Suc j)) O'" "bq_window q1 b (max P (Suc j)) O' = bq_window q b P O' @ fst (gen p (Suc j - P) d)"
    "unat (bq_next_push_index q1) = max P (Suc j)" "bq_next_pop_index q1 = bq_next_pop_index q"
    using compensate_pop [where p = p and rc = rc, OF Suc.prems(1,2,3) j(1) jd(2) Suc.prems(6) j(2) Suc.prems(8) rc] by blast
  have v: "pop_version_for_index q1 index = pop_version_for_index q index"
    by (rule version_state(1) [OF q1(2) Suc.prems(1)])
  have pr: "O' \<le> Suc j" "Suc j + n \<le> O' + 2 ^ b" "O' mod 2 ^ b + (Suc j - O') + n \<le> 2 ^ b" "Suc j + n \<le> unat end_index"
    using Suc.prems(3-7) by simp_all
  have sj: "O' mod 2 ^ b + (Suc j - O') = Suc (j mod 2 ^ b)" using jd(1) Suc.prems(3) by simp
  note ih = Suc.IH [OF q1(2,4) pr(1-3) Suc.prems(6) pr(4) Suc.prems(8), of "snd (gen p (Suc j - P) d)", unfolded sj v]
  let ?k = "if n = 0 then 0 else Suc j + n - max P (Suc j)"
  have k: "Suc j - P + ?k = j + Suc n - P" "(if n = 0 then max P (Suc j) else max (max P (Suc j)) (Suc j + n)) = max P (j + Suc n)"
    by auto
  have "gen p (j + Suc n - P) d = (fst (gen p (Suc j - P) d) @ fst (gen p ?k (snd (gen p (Suc j - P) d))), snd (gen p ?k (snd (gen p (Suc j - P) d))))"
    using gen_add [of p "Suc j - P" ?k d] k(1) by simp
  then show ?case using ih q1(1,3,5) unfolding jd(1) [symmetric] k(2) by auto
qed

lemma deal_n_compensating_pop:
  assumes st: "bq_state q b P O'" and P: "unat (bq_next_push_index q) = P" and ix: "unat index = O'" and n: "unat num = n"
    and fit: "O' mod 2 ^ b + n \<le> 2 ^ b" "O' + 2 * 2 ^ b < 2 ^ 64" and rc: "\<And>x d. rc [x] d = ([fst (p d)], snd (p d))"
    and m: "m = (if n = 0 then 0 else O' + n - P)" "P' = (if n = 0 then P else max P (O' + n))"
  shows "\<exists>q'. deal_n_compensating False copy_out rc c d index num q =
      Some (c @ take n (bq_window q b P O' @ fst (gen p m d)), snd (gen p m d), q')
    \<and> bq_state q' b P' (O' + n) \<and> bq_window q' b P' (O' + n) = drop n (bq_window q b P O' @ fst (gen p m d))
    \<and> unat (bq_next_push_index q') = P' \<and> bq_next_pop_index q' = bq_next_pop_index q"
proof -
  have d: "bq_dims q b" using st by (simp add: bq_state_def)
  have e: "unat (index + num) = O' + n" using ix n fit by (subst unat_add_small) simp_all
  have "O' + n \<le> O' + 2 ^ b" using fit by linarith
  with compensate_range_pop [where p = p and rc = rc and j = O' and n = n and end_index = "index + num" and d = d, OF st P _ _ _ ix _ fit(2) rc] fit(1) e
  obtain q1 where q1: "compensate_range False (pop_version_for_index q index) rc (index + num) (O' mod 2 ^ b) n d q = Some (snd (gen p m d), q1)"
    "bq_state q1 b P' O'" "bq_window q1 b P' O' = bq_window q b P O' @ fst (gen p m d)" "unat (bq_next_push_index q1) = P'"
    "bq_next_pop_index q1 = bq_next_pop_index q" unfolding m by auto
  have v: "pop_version_for_index q1 index = pop_version_for_index q index"
    by (rule version_state(1) [OF q1(2) st])
  have PO: "O' + n \<le> P'" using m st by (auto simp: bq_state_def)
  have cb: "copy_out (take n (bq_window q1 b P' O')) c = (take n (bq_window q1 b P' O'), c @ take n (bq_window q1 b P' O'))"
    "length (take n (bq_window q1 b P' O')) = n" using PO by (simp_all add: copy_out_def)
  from finish_range_pop [where cb = copy_out and wake = False, OF q1(2) ix fit(1) PO cb] obtain s k where
    "finish_range False (pop_version_for_index q1 index) copy_out c (O' mod 2 ^ b) n q1 =
      Some (c @ take n (bq_window q1 b P' O'), bq_upd q1 s k)"
    "bq_state (bq_upd q1 s k) b P' (O' + n)" "bq_window (bq_upd q1 s k) b P' (O' + n) = drop n (bq_window q1 b P' O')" by blast
  then show ?thesis
    using q1 by (intro exI [of _ "bq_upd q1 s k"])
      (simp add: deal_n_compensating_def expected_version_for_def slot_index_eq [OF d] ix n v)
qed

lemma pop_n_reverse_ok:
  assumes st: "bq_state q b P O'" and P: "unat (bq_next_push_index q) = P" and O: "unat (bq_next_pop_index q) = O'"
    and n: "unat num = n" "n \<le> 2 ^ b" "O' + 3 * 2 ^ b < 2 ^ 64" and rc: "\<And>x d. rc [x] d = ([fst (p d)], snd (p d))"
    and m: "m = O' + n - P" "P' = max P (O' + n)"
  shows "\<exists>q'. pop_n_reverse copy_out rc c d num q = Some (c @ take n (bq_window q b P O' @ fst (gen p m d)), snd (gen p m d), q')
    \<and> bq_state q' b P' (O' + n) \<and> bq_window q' b P' (O' + n) = drop n (bq_window q b P O' @ fst (gen p m d))
    \<and> unat (bq_next_push_index q') = P' \<and> unat (bq_next_pop_index q') = O' + n"
proof -
  define i where "i = bq_next_pop_index q"
  define R where "R = next_round_begin_index q i"
  define q0 where "q0 = set_next_index False (i + num) q"
  let ?k = "2 ^ b - O' mod 2 ^ b" and ?w = "bq_window q b P O'"
  have d: "bq_dims q b" and PO: "O' \<le> P" using st by (simp_all add: bq_state_def)
  have iO: "unat i = O'" using O by (simp add: i_def)
  have ar: "unat i + unat num + 2 ^ b < 2 ^ 64" using n iO by simp
  note ra = round_arith [OF d ar, folded R_def, unfolded iO n(1)]
  have st0: "bq_state q0 b P O'" "bq_window q0 b P O' = ?w" using st by (simp_all add: q0_def)
  have P0: "unat (bq_next_push_index q0) = P" using P by (simp add: q0_def)
  have O0: "unat (bq_next_pop_index q0) = O' + n" using iO n by (simp add: q0_def unat_add_small)
  have tk: "take_ticket True False num q = (i, q0)" "next_round_begin_index q0 i = R"
    by (simp_all add: take_ticket_def next_index_def i_def q0_def R_def Let_def)
  have b2: "O' + 2 * 2 ^ b < 2 ^ 64" using n(3) by linarith
  show ?thesis
  proof (cases "i + num \<le> R")
    case True
    then have fit: "O' mod 2 ^ b + n \<le> 2 ^ b" using ra(2) by simp
    have mm: "m = (if n = 0 then 0 else O' + n - P)" "P' = (if n = 0 then P else max P (O' + n))" using m PO by auto
    from deal_n_compensating_pop [where c = c and d = d and p = p and rc = rc, OF st0(1) P0 iO n(1) fit b2 rc mm] show ?thesis
      using True O0 by (auto simp: pop_n_reverse_def deal_n_with_reverse_def tk Let_def st0(2))
  next
    case False
    then have "\<not> O' mod 2 ^ b + n \<le> 2 ^ b" using ra(2) by simp
    then have k: "?k < n" using mod_pow2_less [of O' b] by linarith
    have k0: "0 < ?k" using mod_pow2_less [of O' b] by simp
    have mn: "unat (R - i) = ?k" "unat R = O' + ?k" "unat (i + num - R) = n - ?k" using ra(1,3) ra(4) [OF False] by simp_all
    have fit1: "O' mod 2 ^ b + ?k \<le> 2 ^ b" using mod_pow2_less [of O' b] by linarith
    define m1 where "m1 = O' + ?k - P"
    define P1 where "P1 = max P (O' + ?k)"
    have mm1: "m1 = (if ?k = 0 then 0 else O' + ?k - P)" "P1 = (if ?k = 0 then P else max P (O' + ?k))" using k0 unfolding m1_def P1_def by (metis less_numeral_extra(3))+
    define w1 where "w1 = ?w @ fst (gen p m1 d)"
    define d1 where "d1 = snd (gen p m1 d)"
    from deal_n_compensating_pop [where c = c and d = d and p = p and rc = rc, OF st0(1) P0 iO mn(1) fit1 b2 rc mm1] obtain q1 where
      q1: "deal_n_compensating False copy_out rc c d i (R - i) q0 = Some (c @ take ?k w1, d1, q1)" "bq_state q1 b P1 (O' + ?k)"
        "bq_window q1 b P1 (O' + ?k) = drop ?k w1" "unat (bq_next_push_index q1) = P1" "bq_next_pop_index q1 = bq_next_pop_index q0"
      unfolding st0(2) w1_def [symmetric] d1_def [symmetric] by blast
    have z: "(O' + ?k) mod 2 ^ b = 0" using ra(6) mn(2) by simp
    have fit2: "(O' + ?k) mod 2 ^ b + (n - ?k) \<le> 2 ^ b" unfolding z using n(2) diff_le_self [of n ?k] by linarith
    have b3: "O' + ?k + 2 * 2 ^ b < 2 ^ 64" using n(3) mod_pow2_less [of O' b] by linarith
    define m2 where "m2 = O' + n - P1"
    have mm2: "m2 = (if n - ?k = 0 then 0 else O' + ?k + (n - ?k) - P1)" "P' = (if n - ?k = 0 then P1 else max P1 (O' + ?k + (n - ?k)))"
      unfolding m2_def P1_def m using split_pop [OF k] by blast+
    have sum: "O' + ?k + (n - ?k) = O' + n" using k by linarith
    from deal_n_compensating_pop [where c = "c @ take ?k w1" and d = d1 and p = p and rc = rc, OF q1(2,4) mn(2,3) fit2 b3 rc mm2, unfolded sum q1(3)] obtain q2 where
      q2: "deal_n_compensating False copy_out rc (c @ take ?k w1) d1 R (i + num - R) q1 =
          Some ((c @ take ?k w1) @ take (n - ?k) (drop ?k w1 @ fst (gen p m2 d1)), snd (gen p m2 d1), q2)"
        "bq_state q2 b P' (O' + n)" "bq_window q2 b P' (O' + n) = drop (n - ?k) (drop ?k w1 @ fst (gen p m2 d1))"
        "unat (bq_next_push_index q2) = P'" "bq_next_pop_index q2 = bq_next_pop_index q1" by blast
    have "m = m1 + m2" using m k by (auto simp: m1_def m2_def P1_def)
    then have g: "gen p m d = (fst (gen p m1 d) @ fst (gen p m2 d1), snd (gen p m2 d1))" using gen_add [of p m1 m2 d] by (simp add: d1_def)
    have lw: "?k \<le> length w1" using PO by (simp add: w1_def gen_length m1_def)
    have e: "take ?k w1 @ take (n - ?k) (drop ?k w1 @ xs) = take n (w1 @ xs)" "drop (n - ?k) (drop ?k w1 @ xs) = drop n (w1 @ xs)" for xs
    proof -
      have "drop ?k w1 @ xs = drop ?k (w1 @ xs)" "take ?k w1 = take ?k (w1 @ xs)" using lw by simp_all
      moreover have "n = ?k + (n - ?k)" using k by linarith
      ultimately show "take ?k w1 @ take (n - ?k) (drop ?k w1 @ xs) = take n (w1 @ xs)" "drop (n - ?k) (drop ?k w1 @ xs) = drop n (w1 @ xs)"
        by (metis take_add, metis drop_drop add.commute)
    qed
    have w: "w1 @ fst (gen p m2 d1) = ?w @ fst (gen p m d)" by (simp add: w1_def g)
    show ?thesis
      using False q1(1,5) q2 O0 e [of "fst (gen p m2 d1)"] w
      by (intro exI [of _ q2]) (simp add: pop_n_reverse_def deal_n_with_reverse_def tk Let_def g)
  qed
qed

section \<open>Pushing with consumption\<close>

definition eats :: "('a, 'd) batch_callback \<Rightarrow> 'a list \<Rightarrow> 'd \<Rightarrow> 'd" where
  "eats rc xs d = fold (\<lambda>x d. snd (rc [x] d)) xs d"

lemma eats_simps [simp]: "eats rc [] d = d" "eats rc (x # xs) d = eats rc xs (snd (rc [x] d))" "eats rc (xs @ ys) d = eats rc ys (eats rc xs d)"
  by (simp_all add: eats_def)

lemma push_slot_at:
  assumes st: "bq_state q b P O'" and j: "P \<le> j" "j < P + 2 ^ b" "j div 2 ^ b = P div 2 ^ b" and ix: "unat index = P"
  shows "\<exists>w. bq_futex q (j mod 2 ^ b) = Some w \<and> (push_version_for_index q index = sf_version w \<longleftrightarrow> j < O' + 2 ^ b)"
proof -
  have d: "bq_dims q b" and ok: "slots_ok (2 ^ b) P O' (sv_slots (bq_slots q))" and PO: "O' \<le> P" "P \<le> O' + 2 ^ b"
    using st by (simp_all add: bq_state_def)
  have len: "j mod 2 ^ b < length (sv_slots (bq_slots q))" using ok mod_pow2_less [of j b] unfolding slots_ok_def by linarith
  have v: "push_version_for_index q index = of_nat (2 * (P div 2 ^ b))" using version_eq(1) [OF d] ix by simp
  have "push_version_for_index q index = sf_version (slot_futex (sv_slots (bq_slots q) ! (j mod 2 ^ b))) \<longleftrightarrow> j < O' + 2 ^ b"
  proof (cases "j < O' + 2 ^ b")
    case True
    then have "sf_version (slot_futex (sv_slots (bq_slots q) ! (j mod 2 ^ b))) = slot_version (2 ^ b) P j"
      using ok j(1) PO(1) by (simp add: slots_ok_def)
    then show ?thesis using True j v by (simp add: slot_version_def)
  next
    case False
    define k where "k = j - 2 ^ b"
    have k: "O' \<le> k" "k < O' + 2 ^ b" "k < P" "k mod 2 ^ b = j mod 2 ^ b"
      using False j(2) PO by (auto simp: k_def mod_if [of j] le_mod_geq)
    then have "sf_version (slot_futex (sv_slots (bq_slots q) ! (j mod 2 ^ b))) = of_nat (2 * (k div 2 ^ b) + 1)"
      using ok [unfolded slots_ok_def, THEN conjunct2, rule_format, of k] by (simp add: slot_version_def)
    then show ?thesis using False v version_parity [of "k div 2 ^ b" "P div 2 ^ b"] by simp
  qed
  then show ?thesis using len by (auto simp: bq_futex_def mem_read_def)
qed

lemma compensate_push:
  assumes "bq_state q b P O'" and "unat (bq_next_pop_index q) = O'" and "P \<le> j" "j < P + 2 ^ b" "j div 2 ^ b = P div 2 ^ b"
    and "unat index = P" and "j < unat end_index" and "P + 2 * 2 ^ b < 2 ^ 64" and rc: "batch_ok rc"
  shows "\<exists>q'. compensate True (push_version_for_index q index) rc end_index (j mod 2 ^ b) d q =
      Some (eats rc (take (Suc j - (O' + 2 ^ b)) (bq_window q b P O')) d, q')
    \<and> bq_state q' b P (max O' (Suc j - 2 ^ b)) \<and> bq_window q' b P (max O' (Suc j - 2 ^ b)) = drop (Suc j - (O' + 2 ^ b)) (bq_window q b P O')
    \<and> unat (bq_next_pop_index q') = max O' (Suc j - 2 ^ b) \<and> bq_next_push_index q' = bq_next_push_index q"
  using assms(1-8)
proof (induction "Suc j - (O' + 2 ^ b)" arbitrary: O' q d)
  case 0
  obtain w where w: "bq_futex q (j mod 2 ^ b) = Some w" "push_version_for_index q index = sf_version w \<longleftrightarrow> j < O' + 2 ^ b"
    using push_slot_at [OF 0(2,4-7)] by blast
  have "compensate True (push_version_for_index q index) rc end_index (j mod 2 ^ b) d q = Some (d, q)"
    using w 0(1) by (subst compensate.simps) simp
  moreover have "max O' (Suc j - 2 ^ b) = O'" "Suc j - (O' + 2 ^ b) = 0" using 0(1) by simp_all
  ultimately show ?case using 0(2,3) by simp
next
  case (Suc m)
  have O: "O' + 2 ^ b \<le> j" "m = Suc j - (Suc O' + 2 ^ b)" using Suc(2) by simp_all
  obtain w where w: "bq_futex q (j mod 2 ^ b) = Some w" "push_version_for_index q index = sf_version w \<longleftrightarrow> j < O' + 2 ^ b"
    using push_slot_at [OF Suc(3,5-8)] by blast
  have cap: "capacity q = 2 ^ b" "b < 64" using Suc(3) by (simp_all add: bq_state_def bq_dims_def)
  have "unat (bq_next_pop_index q + capacity q) = O' + 2 ^ b"
    using Suc(4,6,10) O(1) cap by (subst unat_add_small) (simp_all add: unat_pow2)
  then have need: "bq_next_pop_index q + capacity q \<le> end_index" using O(1) Suc(9) by (simp add: word_le_nat_alt)
  have rm: "O' < P" "O' + 1 + 2 ^ b < 2 ^ 64" using O(1) Suc(6,10) by linarith+
  let ?x = "hd (bq_window q b P O')"
  obtain q1 where q1: "try_pop_n True False rc d 1 q = Some (1, snd (rc [?x] d), q1)" "bq_state q1 b P (O' + 1)"
    "bq_window q1 b P (O' + 1) = tl (bq_window q b P O')" "unat (bq_next_pop_index q1) = O' + 1"
    "bq_next_push_index q1 = bq_next_push_index q" using try_pop_1 [OF Suc(3,4) rm rc] by blast
  have v: "push_version_for_index q1 index = push_version_for_index q index" by (rule version_state(2) [OF q1(2) Suc(3)])
  have eq: "compensate True (push_version_for_index q index) rc end_index (j mod 2 ^ b) d q =
    compensate True (push_version_for_index q1 index) rc end_index (j mod 2 ^ b) (snd (rc [?x] d)) q1"
    using w O(1) need q1(1) by (subst compensate.simps) (simp add: v)
  have m: "m = Suc j - (O' + 1 + 2 ^ b)" "Suc j - (O' + 2 ^ b) = Suc m" "max (O' + 1) (Suc j - 2 ^ b) = max O' (Suc j - 2 ^ b)" using O by simp_all
  have ne: "bq_window q b P O' = ?x # tl (bq_window q b P O')" using rm(1)
    by (metis length_bq_window list.collapse list.size(3) zero_less_diff less_numeral_extra(3))
  have t: "take (Suc m) (bq_window q b P O') = ?x # take m (tl (bq_window q b P O'))" "drop (Suc m) (bq_window q b P O') = drop m (tl (bq_window q b P O'))"
    by (subst ne, simp)+
  show ?case
    using Suc(1) [OF m(1) q1(2,4) Suc(5-10), of "snd (rc [?x] d)"] q1(3,5)
    unfolding eq m(2,3) m(1) [symmetric] t by auto
qed

lemma compensate_range_push:
  assumes "bq_state q b P O'" and "unat (bq_next_pop_index q) = O'" and "P \<le> j" "j + n \<le> P + 2 ^ b"
    and "P mod 2 ^ b + (j - P) + n \<le> 2 ^ b"
    and "unat index = P" and "j + n \<le> unat end_index" and "P + 2 * 2 ^ b < 2 ^ 64" and rc: "batch_ok rc"
  shows "\<exists>q'. compensate_range True (push_version_for_index q index) rc end_index (P mod 2 ^ b + (j - P)) n d q =
      Some (eats rc (take (if n = 0 then 0 else j + n - (O' + 2 ^ b)) (bq_window q b P O')) d, q')
    \<and> bq_state q' b P (if n = 0 then O' else max O' (j + n - 2 ^ b))
    \<and> bq_window q' b P (if n = 0 then O' else max O' (j + n - 2 ^ b)) = drop (if n = 0 then 0 else j + n - (O' + 2 ^ b)) (bq_window q b P O')
    \<and> unat (bq_next_pop_index q') = (if n = 0 then O' else max O' (j + n - 2 ^ b)) \<and> bq_next_push_index q' = bq_next_push_index q"
  using assms(1-8)
proof (induction n arbitrary: O' q d j)
  case 0
  then show ?case by simp
next
  case (Suc n)
  have jd: "j mod 2 ^ b = P mod 2 ^ b + (j - P)" "j div 2 ^ b = P div 2 ^ b"
    using mod_seg [of P "2 ^ b" "j - P"] Suc.prems(3,5) by simp_all
  have j: "j < P + 2 ^ b" "j < unat end_index" using Suc.prems(4,7) by simp_all
  obtain q1 where q1: "compensate True (push_version_for_index q index) rc end_index (j mod 2 ^ b) d q =
      Some (eats rc (take (Suc j - (O' + 2 ^ b)) (bq_window q b P O')) d, q1)"
    "bq_state q1 b P (max O' (Suc j - 2 ^ b))" "bq_window q1 b P (max O' (Suc j - 2 ^ b)) = drop (Suc j - (O' + 2 ^ b)) (bq_window q b P O')"
    "unat (bq_next_pop_index q1) = max O' (Suc j - 2 ^ b)" "bq_next_push_index q1 = bq_next_push_index q"
    using compensate_push [OF Suc.prems(1,2,3) j(1) jd(2) Suc.prems(6) j(2) Suc.prems(8) rc] by blast
  have v: "push_version_for_index q1 index = push_version_for_index q index" by (rule version_state(2) [OF q1(2) Suc.prems(1)])
  have pr: "P \<le> Suc j" "Suc j + n \<le> P + 2 ^ b" "P mod 2 ^ b + (Suc j - P) + n \<le> 2 ^ b" "Suc j + n \<le> unat end_index"
    using Suc.prems(3-7) by simp_all
  have sj: "P mod 2 ^ b + (Suc j - P) = Suc (j mod 2 ^ b)" using jd(1) Suc.prems(3) by simp
  let ?m = "Suc j - (O' + 2 ^ b)" and ?k = "if n = 0 then 0 else Suc j + n - (max O' (Suc j - 2 ^ b) + 2 ^ b)" and ?w = "bq_window q b P O'"
  note ih = Suc.IH [OF q1(2,4) pr(1-3) Suc.prems(6) pr(4) Suc.prems(8), of "eats rc (take ?m ?w) d", unfolded sj v q1(3)]
  have k: "?m + ?k = j + Suc n - (O' + 2 ^ b)"
    "(if n = 0 then max O' (Suc j - 2 ^ b) else max (max O' (Suc j - 2 ^ b)) (Suc j + n - 2 ^ b)) = max O' (j + Suc n - 2 ^ b)"
    by auto
  have t: "take (j + Suc n - (O' + 2 ^ b)) ?w = take ?m ?w @ take ?k (drop ?m ?w)" "drop (j + Suc n - (O' + 2 ^ b)) ?w = drop ?k (drop ?m ?w)"
    unfolding k(1) [symmetric] by (simp_all only: take_add drop_drop add.commute)
  have ifs: "(if Suc n = 0 then x else y) = y" for x y :: 'z by simp
  show ?case using ih q1(1,5) unfolding jd(1) [symmetric] k(2) ifs t by auto
qed

lemma deal_n_compensating_push:
  assumes st: "bq_state q b P O'" and O: "unat (bq_next_pop_index q) = O'" and ix: "unat index = P" and n: "unat num = n" "n \<le> length src"
    and fit: "P mod 2 ^ b + n \<le> 2 ^ b" "P + 2 * 2 ^ b < 2 ^ 64" and rc: "batch_ok rc"
    and m: "m = P + n - (O' + 2 ^ b)"
  shows "\<exists>q'. deal_n_compensating True copy_in rc src d index num q = Some (drop n src, eats rc (take m (bq_window q b P O')) d, q')
    \<and> bq_state q' b (P + n) (O' + m) \<and> bq_window q' b (P + n) (O' + m) = drop m (bq_window q b P O') @ take n src
    \<and> unat (bq_next_pop_index q') = O' + m \<and> bq_next_push_index q' = bq_next_push_index q"
proof -
  have d: "bq_dims q b" and PO: "O' \<le> P" "P \<le> O' + 2 ^ b" and len: "2 ^ b \<le> length (sv_slots (bq_slots q))"
    using st by (simp_all add: bq_state_def slots_ok_def)
  have n2: "n \<le> 2 ^ b" using fit(1) by linarith
  have e: "unat (index + num) = P + n" using ix n n2 fit by (subst unat_add_small) simp_all
  have z: "(if n = 0 then 0 else P + n - (O' + 2 ^ b)) = m" "(if n = 0 then O' else max O' (P + n - 2 ^ b)) = O' + m" using m PO by auto
  obtain q1 where q1: "compensate_range True (push_version_for_index q index) rc (index + num) (P mod 2 ^ b) n d q =
      Some (eats rc (take m (bq_window q b P O')) d, q1)"
    "bq_state q1 b P (O' + m)" "bq_window q1 b P (O' + m) = drop m (bq_window q b P O')" "unat (bq_next_pop_index q1) = O' + m"
    "bq_next_push_index q1 = bq_next_push_index q"
    using compensate_range_push [where j = P and n = n and end_index = "index + num" and d = d, OF st O _ _ _ ix _ fit(2) rc, unfolded z] fit(1) n2 e
    by auto
  have v: "push_version_for_index q1 index = push_version_for_index q index" by (rule version_state(2) [OF q1(2) st])
  have PO2: "P + n \<le> (O' + m) + 2 ^ b" using m by simp
  have len1: "2 ^ b \<le> length (sv_slots (bq_slots q1))" using q1(2) by (simp add: bq_state_def slots_ok_def)
  have cb: "copy_in (map slot_value (take n (drop (P mod 2 ^ b) (sv_slots (bq_slots q1))))) src = (take n src, drop n src)" "length (take n src) = n"
    using n(2) len1 fit(1) by (simp_all add: copy_in_def)
  from finish_range_push [where cb = copy_in and wake = False, OF q1(2) ix fit(1) PO2 cb] obtain s k where
    "finish_range False (push_version_for_index q1 index) copy_in src (P mod 2 ^ b) n q1 = Some (drop n src, bq_upd q1 s k)"
    "bq_state (bq_upd q1 s k) b (P + n) (O' + m)" "bq_window (bq_upd q1 s k) b (P + n) (O' + m) = bq_window q1 b P (O' + m) @ take n src" by blast
  then show ?thesis
    using q1 by (intro exI [of _ "bq_upd q1 s k"])
      (simp add: deal_n_compensating_def expected_version_for_def slot_index_eq [OF d] ix n v)
qed

lemma push_n_reverse_ok:
  assumes st: "bq_state q b P O'" and O: "unat (bq_next_pop_index q) = O'" and P: "unat (bq_next_push_index q) = P"
    and n: "unat num = n" "n \<le> length src" "n \<le> 2 ^ b" "P + 3 * 2 ^ b < 2 ^ 64" and rc: "batch_ok rc"
    and m: "m = P + n - (O' + 2 ^ b)"
  shows "\<exists>q'. push_n_reverse copy_in rc src d num q = Some (drop n src, eats rc (take m (bq_window q b P O')) d, q')
    \<and> bq_state q' b (P + n) (O' + m) \<and> bq_window q' b (P + n) (O' + m) = drop m (bq_window q b P O') @ take n src
    \<and> unat (bq_next_pop_index q') = O' + m \<and> unat (bq_next_push_index q') = P + n"
proof -
  define i where "i = bq_next_push_index q"
  define R where "R = next_round_begin_index q i"
  define q0 where "q0 = set_next_index True (i + num) q"
  let ?k = "2 ^ b - P mod 2 ^ b" and ?w = "bq_window q b P O'"
  have d: "bq_dims q b" and PO: "O' \<le> P" "P \<le> O' + 2 ^ b" using st by (simp_all add: bq_state_def)
  have iP: "unat i = P" using P by (simp add: i_def)
  have ar: "unat i + unat num + 2 ^ b < 2 ^ 64" using n iP by simp
  note ra = round_arith [OF d ar, folded R_def, unfolded iP n(1)]
  have st0: "bq_state q0 b P O'" "bq_window q0 b P O' = ?w" using st by (simp_all add: q0_def)
  have O0: "unat (bq_next_pop_index q0) = O'" using O by (simp add: q0_def)
  have P0: "unat (bq_next_push_index q0) = P + n" using iP n by (simp add: q0_def unat_add_small)
  have tk: "take_ticket True True num q = (i, q0)" "next_round_begin_index q0 i = R"
    by (simp_all add: take_ticket_def next_index_def i_def q0_def R_def Let_def)
  have b2: "P + 2 * 2 ^ b < 2 ^ 64" using n(4) by linarith
  show ?thesis
  proof (cases "i + num \<le> R")
    case True
    then have fit: "P mod 2 ^ b + n \<le> 2 ^ b" using ra(2) by simp
    from deal_n_compensating_push [OF st0(1) O0 iP n(1,2) fit b2 rc m, of d] show ?thesis
      using True P0 by (auto simp: push_n_reverse_def deal_n_with_reverse_def tk Let_def st0(2))
  next
    case False
    then have "\<not> P mod 2 ^ b + n \<le> 2 ^ b" using ra(2) by simp
    then have k: "?k < n" using mod_pow2_less [of P b] by linarith
    have mn: "unat (R - i) = ?k" "unat R = P + ?k" "unat (i + num - R) = n - ?k" using ra(1,3) ra(4) [OF False] by simp_all
    have fit1: "P mod 2 ^ b + ?k \<le> 2 ^ b" using mod_pow2_less [of P b] by linarith
    define m1 where "m1 = P + ?k - (O' + 2 ^ b)"
    define d1 where "d1 = eats rc (take m1 ?w) d"
    have ks: "?k \<le> length src" using k n(2) by linarith
    from deal_n_compensating_push [OF st0(1) O0 iP mn(1) ks fit1 b2 rc m1_def, of d] obtain q1 where
      q1: "deal_n_compensating True copy_in rc src d i (R - i) q0 = Some (drop ?k src, d1, q1)" "bq_state q1 b (P + ?k) (O' + m1)"
        "bq_window q1 b (P + ?k) (O' + m1) = drop m1 ?w @ take ?k src" "unat (bq_next_pop_index q1) = O' + m1"
        "bq_next_push_index q1 = bq_next_push_index q0"
      unfolding st0(2) d1_def [symmetric] by blast
    have z: "(P + ?k) mod 2 ^ b = 0" using ra(6) mn(2) by simp
    have fit2: "(P + ?k) mod 2 ^ b + (n - ?k) \<le> 2 ^ b" unfolding z using n(3) diff_le_self [of n ?k] by linarith
    have b3: "P + ?k + 2 * 2 ^ b < 2 ^ 64" using n(4) mod_pow2_less [of P b] by linarith
    have ks2: "n - ?k \<le> length (drop ?k src)" using n(2) by simp
    define m2 where "m2 = P + ?k + (n - ?k) - (O' + m1 + 2 ^ b)"
    have sum: "P + ?k + (n - ?k) = P + n" "O' + m1 + m2 = O' + m" "m = m1 + m2" unfolding m1_def m2_def m using split_push [OF k] by blast+
    have lt: "m2 \<le> length (drop m1 ?w)"
    proof -
      have "m \<le> P - O'" using m n(3) by linarith
      then show ?thesis using sum(3) by simp
    qed
    from deal_n_compensating_push [OF q1(2,4) mn(2,3) ks2 fit2 b3 rc m2_def, of d1, unfolded sum(1,2) q1(3)] obtain q2 where
      q2: "deal_n_compensating True copy_in rc (drop ?k src) d1 R (i + num - R) q1 =
          Some (drop (n - ?k) (drop ?k src), eats rc (take m2 (drop m1 ?w @ take ?k src)) d1, q2)"
        "bq_state q2 b (P + n) (O' + m)" "bq_window q2 b (P + n) (O' + m) = drop m2 (drop m1 ?w @ take ?k src) @ take (n - ?k) (drop ?k src)"
        "unat (bq_next_pop_index q2) = O' + m" "bq_next_push_index q2 = bq_next_push_index q1" by blast
    have e: "drop (n - ?k) (drop ?k src) = drop n src" "take ?k src @ take (n - ?k) (drop ?k src) = take n src"
    proof -
      have nk: "n = ?k + (n - ?k)" using k by linarith
      show "drop (n - ?k) (drop ?k src) = drop n src" using nk by (metis drop_drop add.commute)
      show "take ?k src @ take (n - ?k) (drop ?k src) = take n src" using nk by (metis take_add)
    qed
    have f: "eats rc (take m2 (drop m1 ?w @ take ?k src)) d1 = eats rc (take m ?w) d" "drop m2 (drop m1 ?w @ take ?k src) = drop m ?w @ take ?k src"
      using lt by (simp_all add: d1_def sum(3) take_add add.commute)
    show ?thesis
      using False q1(1,5) q2(1-3) [unfolded f e(1) append_assoc e(2)] q2(4,5) P0
      by (intro exI [of _ q2]) (simp add: push_n_reverse_def deal_n_with_reverse_def tk Let_def)
  qed
qed

end
