(* ===== verification/PageAllocator.thy ===== *)
theory PageAllocator
  imports BoundedQueueCompensate
begin

text \<open>
  \<open>mm/page_allocator.h\<close> and \<open>.cc\<close>: allocators of fixed-size pages. \<open>NewDeletePageAllocator\<close> uses operator new and delete,
  \<open>SystemPageAllocator\<close> is one of the system's page size, \<open>CachedPageAllocator\<close> keeps freed pages in a bounded queue in front of an
  upstream allocator, \<open>CountingPageAllocator\<close> counts, and \<open>PageHeap\<close> combines a base allocator, a cache and a counter.

  \<^item> \<open>PageAllocator\<close> is the interface (the virtual functions) over a world \<open>'s\<close>; an allocator that ends the program because there
    is no memory gives \<open>None\<close>.
  \<^item> \<open>heap_ops\<close> are the aligned operator new and the sized, aligned operator delete. What the program relies on is \<open>heap_spec\<close>.
  \<^item> The counters \<open>_cache_hit\<close> and \<open>_allocate_page_num\<close> are modelled by what their \<open>value()\<close> returns, the sum of what was added.
\<close>

section \<open>The interface and the heap\<close>

record 's PageAllocator =
  pa_page_size :: "'s \<Rightarrow> u64"
  pa_allocate :: "'s \<Rightarrow> (u64 \<times> 's) option"
  pa_allocate_n :: "nat \<Rightarrow> 's \<Rightarrow> (u64 list \<times> 's) option"
  pa_deallocate :: "u64 \<Rightarrow> 's \<Rightarrow> 's option"
  pa_deallocate_n :: "u64 list \<Rightarrow> 's \<Rightarrow> 's option"

text \<open>The functions for one page of the base class call those for several.\<close>

definition PageAllocator_allocate :: "(nat \<Rightarrow> 's \<Rightarrow> (u64 list \<times> 's) option) \<Rightarrow> 's \<Rightarrow> (u64 \<times> 's) option" where
  "PageAllocator_allocate allocate_n s = do { (pages, s) \<leftarrow> allocate_n 1 s; page \<leftarrow> mem_read pages 0; Some (page, s) }"

definition PageAllocator_deallocate :: "(u64 list \<Rightarrow> 's \<Rightarrow> 's option) \<Rightarrow> u64 \<Rightarrow> 's \<Rightarrow> 's option" where
  "PageAllocator_deallocate deallocate_n page s = deallocate_n [page] s"

record 'h heap_ops =
  hp_new :: "u64 \<Rightarrow> u64 \<Rightarrow> 'h \<Rightarrow> (u64 \<times> 'h) option"
  hp_delete :: "u64 \<Rightarrow> u64 \<Rightarrow> u64 \<Rightarrow> 'h \<Rightarrow> 'h option"

section \<open>NewDeletePageAllocator and SystemPageAllocator\<close>

record NewDeletePageAllocator =
  nd_page_size :: u64

definition NewDelete_new :: NewDeletePageAllocator where
  "NewDelete_new = \<lparr>nd_page_size = 8\<rparr>"

definition NewDelete_set_page_size :: "(u64 \<Rightarrow> u64) \<Rightarrow> u64 \<Rightarrow> NewDeletePageAllocator \<Rightarrow> NewDeletePageAllocator" where
  "NewDelete_set_page_size bit_ceil page_size a = a\<lparr>nd_page_size := bit_ceil page_size\<rparr>"

primrec NewDelete_allocate :: "'h heap_ops \<Rightarrow> NewDeletePageAllocator \<Rightarrow> nat \<Rightarrow> 'h \<Rightarrow> (u64 list \<times> 'h) option" where
  "NewDelete_allocate ops a 0 h = Some ([], h)"
| "NewDelete_allocate ops a (Suc num) h = do {
     (page, h) \<leftarrow> hp_new ops (nd_page_size a) (nd_page_size a) h;
     (pages, h) \<leftarrow> NewDelete_allocate ops a num h;
     Some (page # pages, h) }"

primrec NewDelete_deallocate :: "'h heap_ops \<Rightarrow> NewDeletePageAllocator \<Rightarrow> u64 list \<Rightarrow> 'h \<Rightarrow> 'h option" where
  "NewDelete_deallocate ops a [] h = Some h"
| "NewDelete_deallocate ops a (page # pages) h = do {
     h \<leftarrow> hp_delete ops page (nd_page_size a) (nd_page_size a) h;
     NewDelete_deallocate ops a pages h }"

definition NewDelete_ops :: "'h heap_ops \<Rightarrow> NewDeletePageAllocator \<Rightarrow> 'h PageAllocator" where
  "NewDelete_ops ops a = \<lparr>pa_page_size = (\<lambda>_. nd_page_size a),
     pa_allocate = PageAllocator_allocate (NewDelete_allocate ops a), pa_allocate_n = NewDelete_allocate ops a,
     pa_deallocate = PageAllocator_deallocate (NewDelete_deallocate ops a), pa_deallocate_n = NewDelete_deallocate ops a\<rparr>"

text \<open>\<open>sysconf(_SC_PAGE_SIZE)\<close> is an argument.\<close>

record SystemPageAllocator =
  sy_allocator :: NewDeletePageAllocator

definition System_construct :: "(u64 \<Rightarrow> u64) \<Rightarrow> u64 \<Rightarrow> SystemPageAllocator" where
  "System_construct bit_ceil sc_page_size = \<lparr>sy_allocator = NewDelete_set_page_size bit_ceil sc_page_size NewDelete_new\<rparr>"

definition System_ops :: "'h heap_ops \<Rightarrow> SystemPageAllocator \<Rightarrow> 'h PageAllocator" where
  "System_ops ops a = NewDelete_ops ops (sy_allocator a)"

section \<open>CachedPageAllocator\<close>

record Summary =
  sm_sum :: u64
  sm_num :: u64

record CachedPageAllocator =
  ca_free_pages :: "u64 bounded_queue"
  ca_cache_hit :: Summary

definition Cached_new :: CachedPageAllocator where
  "Cached_new = \<lparr>ca_free_pages = bq_new 0, ca_cache_hit = \<lparr>sm_sum = 0, sm_num = 0\<rparr>\<rparr>"

definition Cached_set_free_page_capacity :: "(u64 \<Rightarrow> u64) \<Rightarrow> u64 \<Rightarrow> CachedPageAllocator \<Rightarrow> CachedPageAllocator option" where
  "Cached_set_free_page_capacity bit_ceil n c =
     map_option (\<lambda>(_, q). c\<lparr>ca_free_pages := q\<rparr>) (reserve_and_clear bit_ceil 0 n (ca_free_pages c))"

text \<open>\<open>*iter++ = _upstream->allocate()\<close> and \<open>_upstream->deallocate( *iter++)\<close> over a range.\<close>

primrec allocate_each :: "'s PageAllocator \<Rightarrow> nat \<Rightarrow> 's \<Rightarrow> (u64 list \<times> 's) option" where
  "allocate_each up 0 s = Some ([], s)"
| "allocate_each up (Suc n) s = do { (page, s) \<leftarrow> pa_allocate up s; (pages, s) \<leftarrow> allocate_each up n s; Some (page # pages, s) }"

primrec deallocate_each :: "'s PageAllocator \<Rightarrow> u64 list \<Rightarrow> 's \<Rightarrow> 's option" where
  "deallocate_each up [] s = Some s"
| "deallocate_each up (page # pages) s = do { s \<leftarrow> pa_deallocate up page s; deallocate_each up pages s }"

text \<open>
  The reverse callback of \<open>allocate\<close> fills the slots from upstream and corrects \<open>hit_num\<close>, that of \<open>deallocate\<close> gives the pages
  in the slots back. \<open>None\<close>: the program has ended.
\<close>

fun refill :: "'s PageAllocator \<Rightarrow> (u64, (int \<times> 's) option) batch_callback" where
  "refill up vs None = (replicate (length vs) 0, None)"
| "refill up vs (Some (hit_num, s)) =
     (let hit_num = max (hit_num - int (length vs)) 0 in
      case allocate_each up (length vs) s of
        None \<Rightarrow> (replicate (length vs) 0, None)
      | Some (pages, s) \<Rightarrow> (pages, Some (hit_num, s)))"

fun evict :: "'s PageAllocator \<Rightarrow> (u64, 's option) batch_callback" where
  "evict up vs None = (vs, None)"
| "evict up vs (Some s) = (vs, deallocate_each up vs s)"

definition Cached_allocate ::
  "'s PageAllocator \<Rightarrow> nat \<Rightarrow> CachedPageAllocator \<times> 's \<Rightarrow> (u64 list \<times> CachedPageAllocator \<times> 's) option" where
  "Cached_allocate up num = (\<lambda>(c, s). do {
     let need_pop_num = min num (unat (capacity (ca_free_pages c)));
     (pages, d, q) \<leftarrow> pop_n_reverse copy_out (refill up) [] (Some (int need_pop_num, s)) (of_nat need_pop_num) (ca_free_pages c);
     (hit_num, s) \<leftarrow> d;
     (more, s) \<leftarrow> allocate_each up (num - length pages) s;
     Some (pages @ more, c\<lparr>ca_free_pages := q, ca_cache_hit :=
       \<lparr>sm_sum = sm_sum (ca_cache_hit c) + of_int hit_num, sm_num = sm_num (ca_cache_hit c) + of_nat num\<rparr>\<rparr>, s) })"

definition Cached_deallocate ::
  "'s PageAllocator \<Rightarrow> u64 list \<Rightarrow> CachedPageAllocator \<times> 's \<Rightarrow> (CachedPageAllocator \<times> 's) option" where
  "Cached_deallocate up pages = (\<lambda>(c, s). do {
     let need_push_num = min (length pages) (unat (capacity (ca_free_pages c)));
     (pages, d, q) \<leftarrow> push_n_reverse copy_in (evict up) pages (Some s) (of_nat need_push_num) (ca_free_pages c);
     s \<leftarrow> d;
     s \<leftarrow> deallocate_each up pages s;
     Some (c\<lparr>ca_free_pages := q\<rparr>, s) })"

definition Cached_destroy :: "'s PageAllocator \<Rightarrow> CachedPageAllocator \<times> 's \<Rightarrow> 's option" where
  "Cached_destroy up = (\<lambda>(c, s). do {
     (_, d, _) \<leftarrow> try_pop_n False False (evict up) (Some s) (capacity (ca_free_pages c)) (ca_free_pages c);
     d })"

definition Cached_free_page_num :: "CachedPageAllocator \<Rightarrow> u64" where
  "Cached_free_page_num c = bq_size (ca_free_pages c)"

definition Cached_free_page_capacity :: "CachedPageAllocator \<Rightarrow> u64" where
  "Cached_free_page_capacity c = capacity (ca_free_pages c)"

definition Cached_ops :: "'s PageAllocator \<Rightarrow> (CachedPageAllocator \<times> 's) PageAllocator" where
  "Cached_ops up = \<lparr>pa_page_size = (\<lambda>(c, s). pa_page_size up s),
     pa_allocate = PageAllocator_allocate (Cached_allocate up), pa_allocate_n = Cached_allocate up,
     pa_deallocate = PageAllocator_deallocate (Cached_deallocate up), pa_deallocate_n = Cached_deallocate up\<rparr>"

section \<open>CountingPageAllocator\<close>

record CountingPageAllocator =
  cn_allocate_page_num :: u64

definition Counting_allocate :: "'s PageAllocator \<Rightarrow> CountingPageAllocator \<times> 's \<Rightarrow> (u64 \<times> CountingPageAllocator \<times> 's) option" where
  "Counting_allocate up = (\<lambda>(c, s). do {
     let c = c\<lparr>cn_allocate_page_num := cn_allocate_page_num c + 1\<rparr>;
     (page, s) \<leftarrow> pa_allocate up s;
     Some (page, c, s) })"

definition Counting_allocate_n :: "'s PageAllocator \<Rightarrow> nat \<Rightarrow> CountingPageAllocator \<times> 's \<Rightarrow> (u64 list \<times> CountingPageAllocator \<times> 's) option" where
  "Counting_allocate_n up num = (\<lambda>(c, s). do {
     let c = c\<lparr>cn_allocate_page_num := cn_allocate_page_num c + of_nat num\<rparr>;
     (pages, s) \<leftarrow> pa_allocate_n up num s;
     Some (pages, c, s) })"

definition Counting_deallocate :: "'s PageAllocator \<Rightarrow> u64 \<Rightarrow> CountingPageAllocator \<times> 's \<Rightarrow> (CountingPageAllocator \<times> 's) option" where
  "Counting_deallocate up page = (\<lambda>(c, s). do {
     let c = c\<lparr>cn_allocate_page_num := cn_allocate_page_num c + (- 1)\<rparr>;
     s \<leftarrow> pa_deallocate up page s;
     Some (c, s) })"

definition Counting_deallocate_n :: "'s PageAllocator \<Rightarrow> u64 list \<Rightarrow> CountingPageAllocator \<times> 's \<Rightarrow> (CountingPageAllocator \<times> 's) option" where
  "Counting_deallocate_n up pages = (\<lambda>(c, s). do {
     let c = c\<lparr>cn_allocate_page_num := cn_allocate_page_num c + (- of_nat (length pages))\<rparr>;
     s \<leftarrow> pa_deallocate_n up pages s;
     Some (c, s) })"

definition Counting_allocated_page_num :: "CountingPageAllocator \<Rightarrow> u64" where
  "Counting_allocated_page_num c = of_int (max 0 (sint (cn_allocate_page_num c)))"

definition Counting_ops :: "'s PageAllocator \<Rightarrow> (CountingPageAllocator \<times> 's) PageAllocator" where
  "Counting_ops up = \<lparr>pa_page_size = (\<lambda>(c, s). pa_page_size up s), pa_allocate = Counting_allocate up,
     pa_allocate_n = Counting_allocate_n up, pa_deallocate = Counting_deallocate up, pa_deallocate_n = Counting_deallocate_n up\<rparr>"

section \<open>PageHeap\<close>

text \<open>\<open>ph_system\<close>: the upstream pointer of the cache points to the system allocator, otherwise to \<open>_base_allocator\<close>.\<close>

record PageHeap =
  ph_base_allocator :: NewDeletePageAllocator
  ph_cached_allocator :: CachedPageAllocator
  ph_system :: bool
  ph_allocate_page_num :: u64

definition ph_upstream :: "'h heap_ops \<Rightarrow> SystemPageAllocator \<Rightarrow> PageHeap \<Rightarrow> 'h PageAllocator" where
  "ph_upstream ops sys p = (if ph_system p then System_ops ops sys else NewDelete_ops ops (ph_base_allocator p))"

definition PageHeap_members :: PageHeap where
  "PageHeap_members = \<lparr>ph_base_allocator = NewDelete_new, ph_cached_allocator = Cached_new, ph_system = True, ph_allocate_page_num = 0\<rparr>"

definition PageHeap_set_free_page_capacity :: "(u64 \<Rightarrow> u64) \<Rightarrow> u64 \<Rightarrow> PageHeap \<Rightarrow> PageHeap option" where
  "PageHeap_set_free_page_capacity bit_ceil n p =
     map_option (\<lambda>c. p\<lparr>ph_cached_allocator := c\<rparr>) (Cached_set_free_page_capacity bit_ceil n (ph_cached_allocator p))"

definition PageHeap_set_page_size :: "(u64 \<Rightarrow> u64) \<Rightarrow> SystemPageAllocator \<Rightarrow> u64 \<Rightarrow> PageHeap \<Rightarrow> PageHeap" where
  "PageHeap_set_page_size bit_ceil sys page_size p =
     (if page_size = nd_page_size (sy_allocator sys) then p\<lparr>ph_system := True\<rparr>
      else p\<lparr>ph_base_allocator := NewDelete_set_page_size bit_ceil page_size (ph_base_allocator p), ph_system := False\<rparr>)"

definition PageHeap_construct_default :: "(u64 \<Rightarrow> u64) \<Rightarrow> PageHeap option" where
  "PageHeap_construct_default bit_ceil = PageHeap_set_free_page_capacity bit_ceil 1024 PageHeap_members"

definition PageHeap_construct_capacity :: "(u64 \<Rightarrow> u64) \<Rightarrow> u64 \<Rightarrow> PageHeap option" where
  "PageHeap_construct_capacity bit_ceil free_page_capacity = PageHeap_set_free_page_capacity bit_ceil free_page_capacity PageHeap_members"

definition PageHeap_construct_sized :: "(u64 \<Rightarrow> u64) \<Rightarrow> SystemPageAllocator \<Rightarrow> u64 \<Rightarrow> u64 \<Rightarrow> PageHeap option" where
  "PageHeap_construct_sized bit_ceil sys free_page_capacity page_size =
     map_option (PageHeap_set_page_size bit_ceil sys page_size) (PageHeap_set_free_page_capacity bit_ceil free_page_capacity PageHeap_members)"

definition PageHeap_page_size :: "SystemPageAllocator \<Rightarrow> PageHeap \<Rightarrow> u64" where
  "PageHeap_page_size sys p = (if ph_system p then nd_page_size (sy_allocator sys) else nd_page_size (ph_base_allocator p))"

definition PageHeap_allocate :: "'h heap_ops \<Rightarrow> SystemPageAllocator \<Rightarrow> nat \<Rightarrow> PageHeap \<times> 'h \<Rightarrow> (u64 list \<times> PageHeap \<times> 'h) option" where
  "PageHeap_allocate ops sys num = (\<lambda>(p, h). do {
     (pages, c, h) \<leftarrow> Cached_allocate (ph_upstream ops sys p) num (ph_cached_allocator p, h);
     Some (pages, p\<lparr>ph_cached_allocator := c, ph_allocate_page_num := ph_allocate_page_num p + of_nat num\<rparr>, h) })"

definition PageHeap_deallocate :: "'h heap_ops \<Rightarrow> SystemPageAllocator \<Rightarrow> u64 list \<Rightarrow> PageHeap \<times> 'h \<Rightarrow> (PageHeap \<times> 'h) option" where
  "PageHeap_deallocate ops sys pages = (\<lambda>(p, h). do {
     (c, h) \<leftarrow> Cached_deallocate (ph_upstream ops sys p) pages (ph_cached_allocator p, h);
     Some (p\<lparr>ph_cached_allocator := c, ph_allocate_page_num := ph_allocate_page_num p + (- of_nat (length pages))\<rparr>, h) })"

definition PageHeap_allocate_page_num :: "PageHeap \<Rightarrow> u64" where
  "PageHeap_allocate_page_num p = of_int (max 0 (sint (ph_allocate_page_num p)))"

definition PageHeap_free_page_num :: "PageHeap \<Rightarrow> u64" where
  "PageHeap_free_page_num p = Cached_free_page_num (ph_cached_allocator p)"

definition PageHeap_free_page_capacity :: "PageHeap \<Rightarrow> u64" where
  "PageHeap_free_page_capacity p = Cached_free_page_capacity (ph_cached_allocator p)"

definition PageHeap_cache_hit_summary :: "PageHeap \<Rightarrow> Summary" where
  "PageHeap_cache_hit_summary p = ca_cache_hit (ph_cached_allocator p)"

text \<open>The destructor of the cache member, the only one that does something.\<close>

definition PageHeap_destroy :: "'h heap_ops \<Rightarrow> SystemPageAllocator \<Rightarrow> PageHeap \<times> 'h \<Rightarrow> 'h option" where
  "PageHeap_destroy ops sys = (\<lambda>(p, h). Cached_destroy (ph_upstream ops sys p) (ph_cached_allocator p, h))"

definition PageHeap_ops :: "'h heap_ops \<Rightarrow> SystemPageAllocator \<Rightarrow> (PageHeap \<times> 'h) PageAllocator" where
  "PageHeap_ops ops sys = \<lparr>pa_page_size = (\<lambda>(p, h). PageHeap_page_size sys p),
     pa_allocate = PageAllocator_allocate (PageHeap_allocate ops sys), pa_allocate_n = PageHeap_allocate ops sys,
     pa_deallocate = PageAllocator_deallocate (PageHeap_deallocate ops sys), pa_deallocate_n = PageHeap_deallocate ops sys\<rparr>"

section \<open>BatchPageAllocator\<close>

text \<open>
  Each thread has a \<open>Slot\<close> of the thread-local storage \<open>_cache\<close>; \<open>next_page\<close> is an index into \<open>buffer\<close>. The constructor of
  the slots is the default one until \<open>set_batch_size\<close> is called (\<open>ba_constructor\<close>).
\<close>

record BatchSlot =
  bs_buffer :: "u64 list"
  bs_next_page :: nat

record BatchPageAllocator =
  ba_batch_size :: nat
  ba_constructor :: BatchSlot
  ba_cache :: "BatchSlot list"

definition BatchSlot_new :: BatchSlot where
  "BatchSlot_new = \<lparr>bs_buffer = [], bs_next_page = 0\<rparr>"

definition Batch_new :: BatchPageAllocator where
  "Batch_new = \<lparr>ba_batch_size = 16, ba_constructor = BatchSlot_new, ba_cache = []\<rparr>"

text \<open>\<open>set_constructor\<close> destroys and reconstructs the slots there are.\<close>

definition Batch_set_batch_size :: "nat \<Rightarrow> BatchPageAllocator \<Rightarrow> BatchPageAllocator" where
  "Batch_set_batch_size batch_size b =
     (let slot = \<lparr>bs_buffer = replicate batch_size 0, bs_next_page = batch_size\<rparr>
      in b\<lparr>ba_batch_size := batch_size, ba_constructor := slot, ba_cache := map (\<lambda>_. slot) (ba_cache b)\<rparr>)"

definition Batch_local :: "nat \<Rightarrow> BatchPageAllocator \<Rightarrow> BatchPageAllocator" where
  "Batch_local t b = b\<lparr>ba_cache := ba_cache b @ replicate (Suc t - length (ba_cache b)) (ba_constructor b)\<rparr>"

definition Batch_allocate :: "'s PageAllocator \<Rightarrow> nat \<Rightarrow> BatchPageAllocator \<times> 's \<Rightarrow> (u64 \<times> BatchPageAllocator \<times> 's) option" where
  "Batch_allocate up t = (\<lambda>(b, s). do {
     let b = Batch_local t b;
     slot \<leftarrow> mem_read (ba_cache b) t;
     if bs_next_page slot < length (bs_buffer slot)
     then Some (bs_buffer slot ! bs_next_page slot, b\<lparr>ba_cache := (ba_cache b)[t := slot\<lparr>bs_next_page := bs_next_page slot + 1\<rparr>]\<rparr>, s)
     else do {
       (pages, s) \<leftarrow> pa_allocate_n up (ba_batch_size b) s;
       if length (bs_buffer slot) < ba_batch_size b then None
       else do {
         let buffer = pages @ drop (ba_batch_size b) (bs_buffer slot);
         page \<leftarrow> mem_read buffer 0;
         Some (page, b\<lparr>ba_cache := (ba_cache b)[t := \<lparr>bs_buffer = buffer, bs_next_page = 1\<rparr>]\<rparr>, s) } } })"

primrec Batch_allocate_n :: "'s PageAllocator \<Rightarrow> nat \<Rightarrow> nat \<Rightarrow> BatchPageAllocator \<times> 's \<Rightarrow> (u64 list \<times> BatchPageAllocator \<times> 's) option" where
  "Batch_allocate_n up t 0 bs = Some ([], bs)"
| "Batch_allocate_n up t (Suc num) bs = do {
     (page, bs) \<leftarrow> Batch_allocate up t bs;
     (pages, bs) \<leftarrow> Batch_allocate_n up t num bs;
     Some (page # pages, bs) }"

definition Batch_deallocate_n :: "'s PageAllocator \<Rightarrow> u64 list \<Rightarrow> BatchPageAllocator \<times> 's \<Rightarrow> (BatchPageAllocator \<times> 's) option" where
  "Batch_deallocate_n up pages = (\<lambda>(b, s). map_option (Pair b) (pa_deallocate_n up pages s))"

primrec return_prefetched :: "'s PageAllocator \<Rightarrow> BatchSlot list \<Rightarrow> 's \<Rightarrow> 's option" where
  "return_prefetched up [] s = Some s"
| "return_prefetched up (slot # slots) s = do {
     s \<leftarrow> (if bs_next_page slot < length (bs_buffer slot) then pa_deallocate_n up (drop (bs_next_page slot) (bs_buffer slot)) s else Some s);
     return_prefetched up slots s }"

definition Batch_destroy :: "'s PageAllocator \<Rightarrow> BatchPageAllocator \<times> 's \<Rightarrow> 's option" where
  "Batch_destroy up = (\<lambda>(b, s). return_prefetched up (ba_cache b) s)"

end
