(* ===== verification/PageCache.thy ===== *)
theory PageCache
  imports PageAllocator
begin

text \<open>
  What the cache of \<open>CachedPageAllocator\<close> does, over any upstream allocator: pages are taken from the cache first and the missing
  ones from upstream, freed pages go to the cache and push the oldest ones out to upstream, and the destructor gives back what is left.
  The compensating batches of the bounded queue reduce to \<open>allocate_each\<close> and \<open>deallocate_each\<close>.
\<close>

section \<open>Upstream calls\<close>

lemma allocate_each_add:
  "allocate_each up (m + n) s = do { (ps, s) \<leftarrow> allocate_each up m s; (qs, s) \<leftarrow> allocate_each up n s; Some (ps @ qs, s) }"
proof (induction m arbitrary: s)
  case 0
  show ?case by (cases "allocate_each up n s") auto
next
  case (Suc m)
  show ?case
  proof (cases "pa_allocate up s")
    case (Some x)
    then show ?thesis using Suc by (cases "allocate_each up m (snd x)") (auto simp: split_beta bind_eq_Some_conv split: option.splits)
  qed simp
qed

lemma allocate_each_length: "allocate_each up n s = Some (ps, s') \<Longrightarrow> length ps = n"
  by (induction n arbitrary: s ps) (auto simp: bind_eq_Some_conv)

lemma deallocate_each_append: "deallocate_each up (ps @ qs) s = Option.bind (deallocate_each up ps s) (deallocate_each up qs)"
proof (induction ps arbitrary: s)
  case (Cons p ps)
  then show ?case by (cases "pa_deallocate up p s") auto
qed simp

text \<open>One slot refilled: the callback on a range of one slot.\<close>

fun refill_one :: "'s PageAllocator \<Rightarrow> (int \<times> 's) option \<Rightarrow> u64 \<times> (int \<times> 's) option" where
  "refill_one up None = (0, None)"
| "refill_one up (Some (hit, s)) = (case pa_allocate up s of None \<Rightarrow> (0, None) | Some (p, s) \<Rightarrow> (p, Some (max (hit - 1) 0, s)))"

lemma refill_single: "refill up [x] d = ([fst (refill_one up d)], snd (refill_one up d))"
proof (cases d)
  case (Some y)
  then show ?thesis by (cases y; cases "pa_allocate up (snd y)") auto
qed simp

lemma gen_refill:
  "allocate_each up m s = Some (ps, s') \<Longrightarrow> 0 \<le> hit \<Longrightarrow> gen (refill_one up) m (Some (hit, s)) = (ps, Some (max (hit - int m) 0, s'))"
proof (induction m arbitrary: s ps hit)
  case (Suc m)
  then obtain p s1 qs where p: "pa_allocate up s = Some (p, s1)" "allocate_each up m s1 = Some (qs, s')" "ps = p # qs"
    by (auto simp: bind_eq_Some_conv)
  have "gen (refill_one up) m (Some (max (hit - 1) 0, s1)) = (qs, Some (max (max (hit - 1) 0 - int m) 0, s'))" by (rule Suc.IH [OF p(2)]) simp
  moreover have "max (max (hit - 1) 0 - int m) 0 = max (hit - int (Suc m)) 0" by simp
  ultimately show ?case using p by simp
qed simp

lemma eats_evict: "eats (evict up) xs (Some s) = deallocate_each up xs s"
proof -
  have n: "eats (evict up) xs None = None" for xs by (induction xs) simp_all
  show ?thesis
  proof (induction xs arbitrary: s)
    case (Cons x xs)
    then show ?case using n by (cases "pa_deallocate up x s") auto
  qed simp
qed

lemma feed_evict: "feed (evict up) xs (Some s) = deallocate_each up xs s"
  by (simp add: feed_def)

lemma batch_ok_evict: "batch_ok (evict up)"
proof -
  have "length (fst (evict up vs d)) = length vs" for vs d by (cases d) simp_all
  then show ?thesis by (simp add: batch_ok_def)
qed

section \<open>The cache\<close>

definition cache_pages :: "CachedPageAllocator \<Rightarrow> u64 list" where
  "cache_pages c = bq_contents (ca_free_pages c)"

definition cache_capacity :: "CachedPageAllocator \<Rightarrow> nat" where
  "cache_capacity c = unat (capacity (ca_free_pages c))"

definition cache_index :: "CachedPageAllocator \<Rightarrow> nat" where
  "cache_index c = unat (bq_next_push_index (ca_free_pages c))"

text \<open>The ticket counters of the queue wrap around after \<open>2 ^ 64\<close> pages.\<close>

definition cache_tickets :: "CachedPageAllocator \<Rightarrow> nat" where
  "cache_tickets c = 2 ^ 64 - 1 - (cache_index c + 3 * cache_capacity c)"

definition cache_ok :: "CachedPageAllocator \<Rightarrow> bool" where
  "cache_ok c \<longleftrightarrow> bq_inv (ca_free_pages c) \<and> cache_index c + 3 * cache_capacity c < 2 ^ 64"

lemma cache_okE:
  assumes "cache_ok c"
  obtains b P O' where "bq_state (ca_free_pages c) b P O'" and "unat (bq_next_push_index (ca_free_pages c)) = P"
    and "unat (bq_next_pop_index (ca_free_pages c)) = O'" and "cache_capacity c = 2 ^ b" and "P + 3 * 2 ^ b < 2 ^ 64"
    and "cache_pages c = bq_window (ca_free_pages c) b P O'" and "cache_index c = P"
proof -
  let ?q = "ca_free_pages c"
  obtain b where b: "bq_state ?q b (unat (bq_next_push_index ?q)) (unat (bq_next_pop_index ?q))"
    using assms by (auto simp: cache_ok_def bq_inv_state)
  then have d: "bq_dims ?q b" by (simp add: bq_state_def)
  then have "capacity ?q = 2 ^ b" "b < 64" by (simp_all add: bq_dims_def)
  then have "cache_capacity c = 2 ^ b" by (simp add: cache_capacity_def unat_pow2)
  then show ?thesis using that [OF b refl refl] assms bq_contents_window [OF d] by (simp add: cache_ok_def cache_pages_def cache_index_def)
qed

lemma cache_pages_le: "cache_ok c \<Longrightarrow> length (cache_pages c) \<le> cache_capacity c"
  by (simp add: cache_ok_def cache_pages_def cache_capacity_def length_bq_contents_le)

lemma cache_okI:
  assumes "bq_state q b P O'" and "unat (bq_next_push_index q) = P" and "unat (bq_next_pop_index q) = O'" and "P + 3 * 2 ^ b < 2 ^ 64"
    and "ca_free_pages c = q"
  shows "cache_ok c" and "cache_pages c = bq_window q b P O'" and "cache_capacity c = 2 ^ b" and "cache_index c = P"
proof -
  have d: "bq_dims q b" using assms(1) by (simp add: bq_state_def)
  then have "capacity q = 2 ^ b" "b < 64" by (simp_all add: bq_dims_def)
  then show cap: "cache_capacity c = 2 ^ b" using assms(5) by (simp add: cache_capacity_def unat_pow2)
  show "cache_index c = P" using assms by (simp add: cache_index_def)
  then show "cache_ok c" using assms cap by (auto simp: cache_ok_def bq_inv_state)
  show "cache_pages c = bq_window q b P O'" using assms bq_contents_window [OF d] by (simp add: cache_pages_def)
qed

lemma Cached_allocate_eq:
  assumes ok: "cache_ok c" and num: "num \<le> cache_tickets c"
    and up: "allocate_each up (num - length (cache_pages c)) s = Some (ps, s')"
  shows "\<exists>c'. Cached_allocate up num (c, s) = Some (take num (cache_pages c) @ ps, c', s') \<and> cache_ok c'
    \<and> cache_pages c' = drop num (cache_pages c) \<and> cache_capacity c' = cache_capacity c \<and> cache_index c' \<le> cache_index c + num
    \<and> sm_sum (ca_cache_hit c') = sm_sum (ca_cache_hit c) + of_nat (min num (length (cache_pages c)))
    \<and> sm_num (ca_cache_hit c') = sm_num (ca_cache_hit c) + of_nat num"
proof -
  let ?q = "ca_free_pages c" and ?w = "cache_pages c"
  obtain b P O' where st: "bq_state ?q b P O'" "unat (bq_next_push_index ?q) = P" "unat (bq_next_pop_index ?q) = O'"
    and cap: "cache_capacity c = 2 ^ b" and P: "P + 3 * 2 ^ b < 2 ^ 64" and w: "?w = bq_window ?q b P O'" and ix: "cache_index c = P"
    using cache_okE [OF ok] by blast
  have PO: "O' \<le> P" "P \<le> O' + 2 ^ b" using st(1) by (simp_all add: bq_state_def)
  have len: "length ?w = P - O'" by (simp add: w)
  define k where "k = min num (2 ^ b)"
  define m where "m = O' + k - P"
  have k: "k \<le> num" "k \<le> 2 ^ b" by (simp_all add: k_def)
  have mk: "m = k - length ?w" using PO by (simp add: m_def len)
  have split: "num - length ?w = m + (num - k)" using PO by (auto simp: m_def k_def len)
  obtain g s1 r where g: "allocate_each up m s = Some (g, s1)" "allocate_each up (num - k) s1 = Some (r, s')" "ps = g @ r"
    using up unfolding split allocate_each_add by (auto simp: bind_eq_Some_conv)
  have lg: "length g = m" using allocate_each_length [OF g(1)] .
  have gen: "gen (refill_one up) m (Some (int k, s)) = (g, Some (int k - int m, s1))"
    using gen_refill [OF g(1), of "int k"] mk by simp
  have uk: "unat (of_nat k :: u64) = k" using k(2) P by (intro unat_of_nat_small) simp
  obtain q' where q': "pop_n_reverse copy_out (refill up) [] (Some (int k, s)) (of_nat k) ?q = Some (take k (?w @ g), Some (int k - int m, s1), q')"
    "bq_state q' b (max P (O' + k)) (O' + k)" "bq_window q' b (max P (O' + k)) (O' + k) = drop k (?w @ g)"
    "unat (bq_next_push_index q') = max P (O' + k)" "unat (bq_next_pop_index q') = O' + k"
    using pop_n_reverse_ok [where d = "Some (int k, s)" and c = "[]" and rc = "refill up" and p = "refill_one up",
        OF st(1-3) uk k(2) _ _ m_def refl] P PO refill_single gen by (auto simp: w)
  have tk: "take k (?w @ g) = take num ?w @ g" and dk: "drop k (?w @ g) = drop num ?w"
  proof -
    have "num \<le> 2 ^ b \<and> k = num \<or> 2 ^ b < num \<and> k = 2 ^ b" by (auto simp: k_def)
    then show "take k (?w @ g) = take num ?w @ g" "drop k (?w @ g) = drop num ?w"
      using PO by (auto simp: lg mk len)
  qed
  have rest: "num - length (take num ?w @ g) = num - k" using mk unfolding tk [symmetric] by (simp add: lg)
  have mx: "max P (O' + k) \<le> P + num" using PO k(1) by simp
  have fit: "max P (O' + k) + 3 * 2 ^ b < 2 ^ 64" using mx num P by (simp add: cache_tickets_def ix cap)
  have mn: "min num (unat (capacity ?q)) = k" using cap by (simp add: cache_capacity_def k_def)
  let ?c = "c\<lparr>ca_free_pages := q', ca_cache_hit := \<lparr>sm_sum = sm_sum (ca_cache_hit c) + of_int (int k - int m),
    sm_num = sm_num (ca_cache_hit c) + of_nat num\<rparr>\<rparr>"
  have "Cached_allocate up num (c, s) = Some (take num ?w @ ps, ?c, s')"
    using q'(1) g(2,3) rest tk mn unfolding Cached_allocate_def tk by (simp add: Let_def del: length_append)
  moreover have "(of_int (int k - int m) :: u64) = of_nat (min num (length ?w))"
  proof -
    have "int k - int m = int (min num (length ?w))" using PO by (auto simp: mk len k_def)
    then show ?thesis by simp
  qed
  moreover note cache_okI [OF q'(2,4,5) fit, of ?c]
  ultimately show ?thesis using q'(3) dk mx cap ix by (intro exI [of _ ?c]) simp
qed

text \<open>The oldest \<open>m\<close> pages make room for the first \<open>k\<close> that are freed.\<close>

lemma Cached_deallocate_eq:
  assumes ok: "cache_ok c" and num: "length pages \<le> cache_tickets c"
    and k: "k = min (length pages) (cache_capacity c)" and m: "m = length (cache_pages c) + k - cache_capacity c"
    and up: "deallocate_each up (take m (cache_pages c) @ drop k pages) s = Some s'"
  shows "\<exists>c'. Cached_deallocate up pages (c, s) = Some (c', s') \<and> cache_ok c'
    \<and> cache_pages c' = drop m (cache_pages c) @ take k pages \<and> cache_capacity c' = cache_capacity c
    \<and> cache_index c' \<le> cache_index c + length pages \<and> ca_cache_hit c' = ca_cache_hit c"
proof -
  let ?q = "ca_free_pages c" and ?w = "cache_pages c"
  obtain b P O' where st: "bq_state ?q b P O'" "unat (bq_next_push_index ?q) = P" "unat (bq_next_pop_index ?q) = O'"
    and cap: "cache_capacity c = 2 ^ b" and P: "P + 3 * 2 ^ b < 2 ^ 64" and w: "?w = bq_window ?q b P O'" and ix: "cache_index c = P"
    using cache_okE [OF ok] by blast
  have PO: "O' \<le> P" "P \<le> O' + 2 ^ b" using st(1) by (simp_all add: bq_state_def)
  have kb: "k \<le> length pages" "k \<le> 2 ^ b" using k cap by simp_all
  have m': "m = P + k - (O' + 2 ^ b)" using m PO by (simp add: w cap)
  have uk: "unat (of_nat k :: u64) = k" using kb(2) P by (intro unat_of_nat_small) simp
  obtain s1 where s1: "deallocate_each up (take m ?w) s = Some s1" "deallocate_each up (drop k pages) s1 = Some s'"
    using up by (auto simp: deallocate_each_append bind_eq_Some_conv)
  obtain q' where q': "push_n_reverse copy_in (evict up) pages (Some s) (of_nat k) ?q = Some (drop k pages, Some s1, q')"
    "bq_state q' b (P + k) (O' + m)" "bq_window q' b (P + k) (O' + m) = drop m ?w @ take k pages"
    "unat (bq_next_pop_index q') = O' + m" "unat (bq_next_push_index q') = P + k"
    using push_n_reverse_ok [where d = "Some s", OF st(1,3,2) uk kb P batch_ok_evict [of up] m'] by (auto simp: eats_evict w [symmetric] s1(1))
  have fit: "P + k + 3 * 2 ^ b < 2 ^ 64" using num kb(1) P by (simp add: cache_tickets_def ix cap)
  have mn: "min (length pages) (unat (capacity ?q)) = k" using k by (simp add: cache_capacity_def)
  let ?c = "c\<lparr>ca_free_pages := q'\<rparr>"
  have "Cached_deallocate up pages (c, s) = Some (?c, s')"
    using q'(1) s1(2) mn unfolding Cached_deallocate_def by (simp add: Let_def)
  moreover note cache_okI [OF q'(2,5,4) fit, of ?c]
  ultimately show ?thesis using q'(3) kb cap ix by (intro exI [of _ ?c]) simp
qed

lemma Cached_destroy_eq:
  assumes "cache_ok c"
  shows "Cached_destroy up (c, s) = deallocate_each up (cache_pages c) s"
proof -
  let ?q = "ca_free_pages c" and ?w = "cache_pages c"
  obtain b P O' where st: "bq_state ?q b P O'" "unat (bq_next_push_index ?q) = P" "unat (bq_next_pop_index ?q) = O'"
    and cap: "cache_capacity c = 2 ^ b" and P: "P + 3 * 2 ^ b < 2 ^ 64" and w: "?w = bq_window ?q b P O'" and ix: "cache_index c = P"
    using cache_okE [OF assms] by blast
  have PO: "O' \<le> P" "P \<le> O' + 2 ^ b" using st(1) by (simp_all add: bq_state_def)
  have len: "length ?w = P - O'" by (simp add: w)
  have n: "2 ^ b = unat (capacity ?q)" using cap by (simp add: cache_capacity_def)
  have r: "P - O' = min (2 ^ b) (P - O')" using PO by simp
  have fit: "O' + 2 ^ b + 2 ^ b < 2 ^ 64" using P PO(1) by linarith
  obtain q' k where t: "try_deal_n False False False (evict up) (Some s) (capacity ?q) ?q =
      Some (of_nat (P - O'), feed (evict up) (take (P - O' - k) (drop k ?w)) (feed (evict up) (take k ?w) (Some s)), q')"
    using try_deal_n_pop [OF st(1,3) batch_ok_evict [of up] n fit r, of False False "Some s"] unfolding w by blast
  have e: "take (P - O' - k) (drop k ?w) = drop k ?w" using len by simp
  have "feed (evict up) (drop k ?w) (deallocate_each up (take k ?w) s) = deallocate_each up ?w s"
  proof (cases "deallocate_each up (take k ?w) s")
    case None
    then have "deallocate_each up (take k ?w @ drop k ?w) s = None" unfolding deallocate_each_append by simp
    then show ?thesis using None by (simp add: feed_def)
  next
    case (Some s1)
    then have "deallocate_each up (take k ?w @ drop k ?w) s = deallocate_each up (drop k ?w) s1" unfolding deallocate_each_append by simp
    then show ?thesis using Some by (simp add: feed_evict)
  qed
  then show ?thesis using t unfolding e by (simp add: Cached_destroy_def try_pop_n_def feed_evict)
qed

text \<open>Changing the capacity empties the cache; upstream does not get the pages back.\<close>

lemma Cached_set_free_page_capacity_ok:
  assumes bc: "bit_ceil_spec bc" and n: "unat n \<le> 2 ^ 61" and ok: "cache_ok c"
  shows "\<exists>c'. Cached_set_free_page_capacity bc n c = Some c' \<and> cache_ok c' \<and> cache_pages c' = [] \<and> cache_capacity c' = unat (bc n)
    \<and> cache_index c' \<le> cache_index c \<and> ca_cache_hit c' = ca_cache_hit c"
proof -
  let ?q = "ca_free_pages c"
  have inv: "bq_inv ?q" and small: "unat (bq_next_push_index ?q) + 3 * unat (capacity ?q) < 2 ^ 64"
    using ok by (simp_all add: cache_ok_def cache_index_def cache_capacity_def)
  obtain k where k: "k \<le> 61" "bc n = 2 ^ k" "unat n \<le> 2 ^ k" using bit_ceil_specE [OF bc n] by auto
  have k61: "(2 :: nat) ^ k \<le> 2 ^ 61" using k(1) by (rule power_increasing) simp
  show ?thesis
  proof (cases "bc n = capacity ?q")
    case True
    have "unat (bq_next_push_index ?q) + 2 * unat (capacity ?q) < 2 ^ 64" using small by simp
    from bq_clear_spec [OF inv this] obtain q' where q': "bq_clear ?q = Some q'" "bq_result ?q q' []" "bq_next_push_index q' = bq_next_push_index ?q"
      by blast
    then show ?thesis using True small
      by (auto simp: Cached_set_free_page_capacity_def reserve_and_clear_def bq_result_def cache_ok_def cache_pages_def
          cache_capacity_def cache_index_def unat_pow2)
  next
    case False
    let ?v = "SlotVector_resize 0 (bq_slots ?q) (2 ^ k)"
    have "sv_size ?v = 2 ^ k" "2 ^ k \<le> length (sv_slots ?v)"
      using k(1) by (simp_all add: SlotVector_resize_def SlotVector_sized_def unat_pow2)
    with k(1) have "bq_wf (bq_reinit (2 ^ k) ?v ?q) \<and> bq_contents (bq_reinit (2 ^ k) ?v ?q) = [] \<and> capacity (bq_reinit (2 ^ k) ?v ?q) = 2 ^ k"
      by (intro bq_reinit_empty) simp_all
    moreover have "bq_next_push_index (bq_reinit (2 ^ k) ?v ?q) = 0" by (simp add: bq_reinit_def)
    ultimately show ?thesis using False k k61
      by (auto simp: Cached_set_free_page_capacity_def reserve_and_clear_def Let_def bq_wf_def cache_ok_def cache_pages_def
          cache_capacity_def cache_index_def unat_pow2)
  qed
qed

lemma Cached_new_ok: "cache_ok Cached_new" "cache_pages Cached_new = []" "cache_index Cached_new = 0"
  using bq_new_wf [of "0 :: u64"] by (simp_all add: cache_ok_def cache_pages_def cache_index_def cache_capacity_def Cached_new_def bq_wf_def,
    simp_all add: bq_new_def)

end
