(* ===== verification/MonotonicBuffer.thy ===== *)
theory MonotonicBuffer
  imports Align
begin

text \<open>
  \<open>ExclusiveMonotonicBufferResource\<close> of \<open>mm/memory_resource.h\<close> and \<open>.cc\<close>: small requests are cut from pages of a
  \<open>PageAllocator\<close>, large ones go to an upstream \<open>memory_resource\<close>; everything is given back together by \<open>release\<close>, after the
  registered destructors have run. The bookkeeping lives in the memory it manages: a \<open>PageArray\<close>, an \<open>OversizePageArray\<close> and a
  \<open>DestroyTaskArray\<close> hold 15 entries each, are filled from the last entry to the first, and are chained from the newest.

  \<^item> The page allocator and the upstream resource are interfaces (virtual functions): \<open>mem_source\<close>, over a world \<open>'w\<close>. Handing
    back a block that is not handed out is undefined (\<open>None\<close>).
  \<^item> \<open>em_heap\<close> is the typed view of the memory: the arrays by address. An entry that was never written is \<open>None\<close>, and giving
    memory back destroys the arrays in it, so that a read after the end of their lifetime is undefined.
  \<^item> A pointer into the array of the newest block (\<open>_last_page_pointer\<close> and its like) is the index of its entry; for a null array
    the code computes \<open>nullptr->pages\<close>, the index 0.
  \<^item> A destructor call is recorded, not executed; destructors do not use the resource. The counter \<open>oversize_page_concurrent_adder\<close>
    is a number. Poisoning for the address sanitizer has no effect on the program and is left out.
\<close>

section \<open>State\<close>

record PageArray =
  pg_next :: u64
  pg_pages :: "u64 option list"

record OversizePage =
  os_page :: u64
  os_bytes :: u64
  os_alignment :: u64

record OversizePageArray =
  osa_next :: u64
  osa_pages :: "OversizePage option list"

record 'd DestroyTask =
  dt_ptr :: u64
  dt_destructor :: 'd

record 'd DestroyTaskArray =
  dta_next :: u64
  dta_tasks :: "'d DestroyTask option list"

record 'd em_heap =
  eh_page_arrays :: "u64 \<rightharpoonup> PageArray"
  eh_oversize_arrays :: "u64 \<rightharpoonup> OversizePageArray"
  eh_task_arrays :: "u64 \<rightharpoonup> 'd DestroyTaskArray"
  eh_oversize_page_adder :: u64

record ('p, 'u, 'w) mem_source =
  ms_page_size :: "'p \<Rightarrow> 'w \<Rightarrow> u64"
  ms_page_allocate :: "'p \<Rightarrow> 'w \<Rightarrow> (u64 \<times> 'w) option"
  ms_page_deallocate :: "'p \<Rightarrow> u64 list \<Rightarrow> 'w \<Rightarrow> 'w option"
  ms_allocate :: "'u \<Rightarrow> u64 \<Rightarrow> u64 \<Rightarrow> 'w \<Rightarrow> (u64 \<times> 'w) option"
  ms_deallocate :: "'u \<Rightarrow> u64 \<Rightarrow> u64 \<Rightarrow> u64 \<Rightarrow> 'w \<Rightarrow> 'w option"

record ('p, 'u) ExclusiveMonotonicBufferResource =
  em_page_allocator :: 'p
  em_upstream :: 'u
  em_last_page_array :: u64
  em_last_page_pointer :: nat
  em_last_page :: u64
  em_last_page_allocated :: u64
  em_space_used :: u64
  em_space_allocated :: u64
  em_last_oversize_page_array :: u64
  em_last_oversize_page_pointer :: nat
  em_last_destroy_task_array :: u64
  em_last_destroy_task_pointer :: nat

type_synonym ('p, 'u, 'd, 'w) em_state = "('p, 'u) ExclusiveMonotonicBufferResource \<times> 'd em_heap \<times> 'w"

definition PAGE_ARRAY_CAPACITY :: nat where "PAGE_ARRAY_CAPACITY = 15"
definition DESTROY_TASK_ARRAY_CAPACITY :: nat where "DESTROY_TASK_ARRAY_CAPACITY = 15"

text \<open>Sizes on the 64-bit targets: a pointer and 15 entries of 8, 24 and 16 bytes, all of alignment 8.\<close>

definition sizeof_PageArray :: u64 where "sizeof_PageArray = 128"
definition sizeof_OversizePageArray :: u64 where "sizeof_OversizePageArray = 368"
definition sizeof_DestroyTaskArray :: u64 where "sizeof_DestroyTaskArray = 248"

lemmas sizeof_defs = sizeof_PageArray_def sizeof_OversizePageArray_def sizeof_DestroyTaskArray_def

definition UINT32_MAX :: u64 where "UINT32_MAX = 0xFFFFFFFF"

definition em_new :: "'p \<Rightarrow> 'u \<Rightarrow> ('p, 'u) ExclusiveMonotonicBufferResource" where
  "em_new page_allocator upstream = \<lparr>em_page_allocator = page_allocator, em_upstream = upstream,
     em_last_page_array = 0, em_last_page_pointer = 0, em_last_page = 0, em_last_page_allocated = UINT32_MAX,
     em_space_used = 0, em_space_allocated = 0, em_last_oversize_page_array = 0, em_last_oversize_page_pointer = 0,
     em_last_destroy_task_array = 0, em_last_destroy_task_pointer = 0\<rparr>"

text \<open>The assertions of the setters; a violated one ends the program.\<close>

definition em_set_page_allocator ::
  "('p, 'u, 'w) mem_source \<Rightarrow> 'p \<Rightarrow> ('p, 'u, 'd, 'w) em_state \<Rightarrow> ('p, 'u, 'd, 'w) em_state option" where
  "em_set_page_allocator env page_allocator = (\<lambda>(r, h, w).
     if (em_page_allocator r = page_allocator \<or> em_space_allocated r = 0) \<and> sizeof_PageArray \<le> ms_page_size env page_allocator w
     then Some (r\<lparr>em_page_allocator := page_allocator\<rparr>, h, w) else None)"

definition em_set_upstream :: "'u \<Rightarrow> ('p, 'u) ExclusiveMonotonicBufferResource \<Rightarrow> ('p, 'u) ExclusiveMonotonicBufferResource option" where
  "em_set_upstream upstream r =
     (if em_upstream r = upstream \<or> em_space_allocated r = 0 then Some (r\<lparr>em_upstream := upstream\<rparr>) else None)"

section \<open>Memory\<close>

definition put_page_array :: "u64 \<Rightarrow> PageArray \<Rightarrow> 'd em_heap \<Rightarrow> 'd em_heap" where
  "put_page_array a x h = h\<lparr>eh_page_arrays := (eh_page_arrays h)(a \<mapsto> x)\<rparr>"

definition put_oversize_array :: "u64 \<Rightarrow> OversizePageArray \<Rightarrow> 'd em_heap \<Rightarrow> 'd em_heap" where
  "put_oversize_array a x h = h\<lparr>eh_oversize_arrays := (eh_oversize_arrays h)(a \<mapsto> x)\<rparr>"

definition put_task_array :: "u64 \<Rightarrow> 'd DestroyTaskArray \<Rightarrow> 'd em_heap \<Rightarrow> 'd em_heap" where
  "put_task_array a x h = h\<lparr>eh_task_arrays := (eh_task_arrays h)(a \<mapsto> x)\<rparr>"

text \<open>The end of the lifetime of everything in \<open>[p, p + n)\<close>.\<close>

definition in_block :: "u64 \<Rightarrow> u64 \<Rightarrow> u64 \<Rightarrow> bool" where
  "in_block p n a \<longleftrightarrow> unat p \<le> unat a \<and> unat a < unat p + unat n"

definition end_lifetime :: "u64 \<Rightarrow> u64 \<Rightarrow> 'd em_heap \<Rightarrow> 'd em_heap" where
  "end_lifetime p n h = h\<lparr>
     eh_page_arrays := (\<lambda>a. if in_block p n a then None else eh_page_arrays h a),
     eh_oversize_arrays := (\<lambda>a. if in_block p n a then None else eh_oversize_arrays h a),
     eh_task_arrays := (\<lambda>a. if in_block p n a then None else eh_task_arrays h a)\<rparr>"

section \<open>Allocation\<close>

definition do_align :: "u64 \<Rightarrow> ('p, 'u) ExclusiveMonotonicBufferResource \<Rightarrow> ('p, 'u) ExclusiveMonotonicBufferResource" where
  "do_align alignment r =
     r\<lparr>em_last_page_allocated := (em_last_page_allocated r + alignment - 1) AND (- alignment)\<rparr>"

definition do_allocate_with_page_in_new_page_array ::
  "('p, 'u, 'w) mem_source \<Rightarrow> u64 \<Rightarrow> u64 \<Rightarrow> ('p, 'u, 'd, 'w) em_state \<Rightarrow> (u64 \<times> ('p, 'u, 'd, 'w) em_state) option" where
  "do_allocate_with_page_in_new_page_array env bytes page = (\<lambda>(r, h, w).
     let page_size = ms_page_size env (em_page_allocator r) w;
         r = r\<lparr>em_last_page_allocated := (em_last_page_allocated r + 8 - 1) AND (- 8)\<rparr>
     in if em_last_page_allocated r + sizeof_PageArray \<le> page_size
        then let new_page_array = em_last_page r + em_last_page_allocated r
             in Some (page,
                  r\<lparr>em_last_page_array := new_page_array, em_last_page_pointer := PAGE_ARRAY_CAPACITY - 1,
                    em_last_page_allocated := bytes, em_last_page := page\<rparr>,
                  put_page_array new_page_array
                    \<lparr>pg_next = em_last_page_array r,
                     pg_pages = (replicate PAGE_ARRAY_CAPACITY None)[PAGE_ARRAY_CAPACITY - 1 := Some page]\<rparr> h, w)
        else if bytes + sizeof_PageArray \<le> page_size
        then let bytes = (bytes + 8 - 1) AND (- 8);
                 new_page_array = page + bytes
             in Some (page,
                  r\<lparr>em_last_page_array := new_page_array, em_last_page_pointer := PAGE_ARRAY_CAPACITY - 1,
                    em_last_page_allocated := bytes + sizeof_PageArray, em_last_page := page\<rparr>,
                  put_page_array new_page_array
                    \<lparr>pg_next = em_last_page_array r,
                     pg_pages = (replicate PAGE_ARRAY_CAPACITY None)[PAGE_ARRAY_CAPACITY - 1 := Some page]\<rparr> h, w)
        else do {
          (additional_page, w) \<leftarrow> ms_page_allocate env (em_page_allocator r) w;
          Some (page,
            r\<lparr>em_space_allocated := em_space_allocated r + page_size,
              em_last_page_array := additional_page, em_last_page_pointer := PAGE_ARRAY_CAPACITY - 2,
              em_last_page_allocated := sizeof_PageArray, em_last_page := additional_page\<rparr>,
            put_page_array additional_page
              \<lparr>pg_next = em_last_page_array r,
               pg_pages = (replicate PAGE_ARRAY_CAPACITY None)
                 [PAGE_ARRAY_CAPACITY - 1 := Some page, PAGE_ARRAY_CAPACITY - 2 := Some additional_page]\<rparr> h, w) })"

definition do_allocate_in_oversize_page ::
  "('p, 'u, 'w) mem_source \<Rightarrow> u64 \<Rightarrow> u64 \<Rightarrow> ('p, 'u, 'd, 'w) em_state \<Rightarrow> (u64 \<times> ('p, 'u, 'd, 'w) em_state) option" where
  "do_allocate_in_oversize_page env bytes alignment = (\<lambda>(r, h, w).
     let h = h\<lparr>eh_oversize_page_adder := eh_oversize_page_adder h + 1\<rparr>
     in if 0 < em_last_oversize_page_pointer r
        then do {
          (page, w) \<leftarrow> ms_allocate env (em_upstream r) bytes alignment w;
          x \<leftarrow> eh_oversize_arrays h (em_last_oversize_page_array r);
          let i = em_last_oversize_page_pointer r - 1;
          pages \<leftarrow> mem_write (osa_pages x) i (Some \<lparr>os_page = page, os_bytes = bytes, os_alignment = alignment\<rparr>);
          Some (page,
            r\<lparr>em_space_allocated := em_space_allocated r + bytes, em_last_oversize_page_pointer := i\<rparr>,
            put_oversize_array (em_last_oversize_page_array r) (x\<lparr>osa_pages := pages\<rparr>) h, w) }
        else do {
          let alignment = max alignment 8;
          let bytes = (bytes + alignment - 1) AND (- alignment);
          (page, w) \<leftarrow> ms_allocate env (em_upstream r) (bytes + sizeof_OversizePageArray) alignment w;
          let new_page_array = page + bytes;
          Some (page,
            r\<lparr>em_space_allocated := em_space_allocated r + (bytes + sizeof_OversizePageArray),
              em_last_oversize_page_array := new_page_array,
              em_last_oversize_page_pointer := DESTROY_TASK_ARRAY_CAPACITY - 1\<rparr>,
            put_oversize_array new_page_array
              \<lparr>osa_next = em_last_oversize_page_array r,
               osa_pages = (replicate PAGE_ARRAY_CAPACITY None)
                 [DESTROY_TASK_ARRAY_CAPACITY - 1 :=
                    Some \<lparr>os_page = page, os_bytes = bytes + sizeof_OversizePageArray, os_alignment = alignment\<rparr>]\<rparr> h, w) })"

definition do_allocate_in_new_page ::
  "('p, 'u, 'w) mem_source \<Rightarrow> u64 \<Rightarrow> u64 \<Rightarrow> ('p, 'u, 'd, 'w) em_state \<Rightarrow> (u64 \<times> ('p, 'u, 'd, 'w) em_state) option" where
  "do_allocate_in_new_page env bytes alignment = (\<lambda>(r, h, w).
     let page_size = ms_page_size env (em_page_allocator r) w
     in if bytes \<le> page_size \<and> alignment \<le> page_size
        then do {
          (page, w) \<leftarrow> ms_page_allocate env (em_page_allocator r) w;
          let r = r\<lparr>em_space_allocated := em_space_allocated r + page_size\<rparr>;
          if 0 < em_last_page_pointer r
          then do {
            x \<leftarrow> eh_page_arrays h (em_last_page_array r);
            let i = em_last_page_pointer r - 1;
            pages \<leftarrow> mem_write (pg_pages x) i (Some page);
            Some (page,
              r\<lparr>em_last_page_pointer := i, em_last_page := page, em_last_page_allocated := bytes\<rparr>,
              put_page_array (em_last_page_array r) (x\<lparr>pg_pages := pages\<rparr>) h, w) }
          else do_allocate_with_page_in_new_page_array env bytes page (r, h, w) }
        else do_allocate_in_oversize_page env bytes alignment (r, h, w))"

definition do_allocate_already_aligned ::
  "('p, 'u, 'w) mem_source \<Rightarrow> u64 \<Rightarrow> u64 \<Rightarrow> ('p, 'u, 'd, 'w) em_state \<Rightarrow> (u64 \<times> ('p, 'u, 'd, 'w) em_state) option" where
  "do_allocate_already_aligned env bytes alignment = (\<lambda>(r, h, w).
     let r = r\<lparr>em_space_used := em_space_used r + bytes\<rparr>
     in if em_last_page_allocated r + bytes \<le> ms_page_size env (em_page_allocator r) w
        then Some (em_last_page r + em_last_page_allocated r,
                   r\<lparr>em_last_page_allocated := em_last_page_allocated r + bytes\<rparr>, h, w)
        else do_allocate_in_new_page env bytes alignment (r, h, w))"

definition em_allocate ::
  "('p, 'u, 'w) mem_source \<Rightarrow> u64 \<Rightarrow> u64 \<Rightarrow> ('p, 'u, 'd, 'w) em_state \<Rightarrow> (u64 \<times> ('p, 'u, 'd, 'w) em_state) option" where
  "em_allocate env bytes alignment = (\<lambda>(r, h, w). do_allocate_already_aligned env bytes alignment (do_align alignment r, h, w))"

section \<open>Destructors\<close>

definition do_get_destroy_task_in_new_array ::
  "('p, 'u, 'w) mem_source \<Rightarrow> ('p, 'u, 'd, 'w) em_state \<Rightarrow> ((u64 \<times> nat) \<times> ('p, 'u, 'd, 'w) em_state) option" where
  "do_get_destroy_task_in_new_array env s = do {
     (array, r, h, w) \<leftarrow> em_allocate env sizeof_DestroyTaskArray 8 s;
     let h = put_task_array array \<lparr>dta_next = em_last_destroy_task_array r, dta_tasks = replicate DESTROY_TASK_ARRAY_CAPACITY None\<rparr> h;
     let r = r\<lparr>em_last_destroy_task_array := array, em_last_destroy_task_pointer := DESTROY_TASK_ARRAY_CAPACITY - 1\<rparr>;
     Some ((array, em_last_destroy_task_pointer r), r, h, w) }"

definition get_destroy_task ::
  "('p, 'u, 'w) mem_source \<Rightarrow> ('p, 'u, 'd, 'w) em_state \<Rightarrow> ((u64 \<times> nat) \<times> ('p, 'u, 'd, 'w) em_state) option" where
  "get_destroy_task env = (\<lambda>(r, h, w).
     if em_last_destroy_task_pointer r \<noteq> 0
     then let i = em_last_destroy_task_pointer r - 1
          in Some ((em_last_destroy_task_array r, i), r\<lparr>em_last_destroy_task_pointer := i\<rparr>, h, w)
     else do_get_destroy_task_in_new_array env (r, h, w))"

definition register_destructor ::
  "('p, 'u, 'w) mem_source \<Rightarrow> u64 \<Rightarrow> 'd \<Rightarrow> ('p, 'u, 'd, 'w) em_state \<Rightarrow> ('p, 'u, 'd, 'w) em_state option" where
  "register_destructor env ptr destructor s = do {
     ((array, i), r, h, w) \<leftarrow> get_destroy_task env s;
     x \<leftarrow> eh_task_arrays h array;
     tasks \<leftarrow> mem_write (dta_tasks x) i (Some \<lparr>dt_ptr = ptr, dt_destructor = destructor\<rparr>);
     Some (r, put_task_array array (x\<lparr>dta_tasks := tasks\<rparr>) h, w) }"

text \<open>An entry that is read must have been written; the calls in the order they are made.\<close>

fun read_all :: "'a option list \<Rightarrow> 'a list option" where
  "read_all [] = Some []"
| "read_all (x # xs) = do { y \<leftarrow> x; ys \<leftarrow> read_all xs; Some (y # ys) }"

partial_function (option) destruct_all ::
  "('p, 'u, 'd, 'w) em_state \<Rightarrow> ('d DestroyTask list \<times> ('p, 'u, 'd, 'w) em_state) option" where
  "destruct_all s = (case s of (r, h, w) \<Rightarrow>
     if em_last_destroy_task_array r \<noteq> 0
     then do {
       x \<leftarrow> eh_task_arrays h (em_last_destroy_task_array r);
       tasks \<leftarrow> read_all (drop (em_last_destroy_task_pointer r) (dta_tasks x));
       (calls, s) \<leftarrow> destruct_all (r\<lparr>em_last_destroy_task_array := dta_next x, em_last_destroy_task_pointer := 0\<rparr>, h, w);
       Some (tasks @ calls, s) }
     else Some ([], s))"

section \<open>Release\<close>

text \<open>\<open>for (i = 0; i < size; ++i) tmp_pages[i] = _last_page_pointer[i]; deallocate(tmp_pages, size)\<close> for each array.\<close>

partial_function (option) release_pages ::
  "('p, 'u, 'w) mem_source \<Rightarrow> ('p, 'u, 'd, 'w) em_state \<Rightarrow> ('p, 'u, 'd, 'w) em_state option" where
  "release_pages env s = (case s of (r, h, w) \<Rightarrow>
     if em_last_page_array r \<noteq> 0
     then do {
       x \<leftarrow> eh_page_arrays h (em_last_page_array r);
       tmp_pages \<leftarrow> read_all (drop (em_last_page_pointer r) (pg_pages x));
       let page_size = ms_page_size env (em_page_allocator r) w;
       w \<leftarrow> ms_page_deallocate env (em_page_allocator r) tmp_pages w;
       release_pages env
         (r\<lparr>em_last_page_array := pg_next x, em_last_page_pointer := 0, em_last_page_allocated := UINT32_MAX\<rparr>,
          fold (\<lambda>p. end_lifetime p page_size) tmp_pages h, w) }
     else Some s)"

text \<open>The inner loop reads each entry from the array before it gives the block back.\<close>

partial_function (option) release_oversize_entries ::
  "('p, 'u, 'w) mem_source \<Rightarrow> 'u \<Rightarrow> u64 \<Rightarrow> nat \<Rightarrow> 'd em_heap \<times> 'w \<Rightarrow> ('d em_heap \<times> 'w) option" where
  "release_oversize_entries env upstream array iter s = (case s of (h, w) \<Rightarrow>
     if iter \<noteq> PAGE_ARRAY_CAPACITY
     then do {
       x \<leftarrow> eh_oversize_arrays h array;
       e \<leftarrow> mem_read (osa_pages x) iter;
       e \<leftarrow> e;
       w \<leftarrow> ms_deallocate env upstream (os_page e) (os_bytes e) (os_alignment e) w;
       release_oversize_entries env upstream array (iter + 1) (end_lifetime (os_page e) (os_bytes e) h, w) }
     else Some s)"

partial_function (option) release_oversize_pages ::
  "('p, 'u, 'w) mem_source \<Rightarrow> ('p, 'u, 'd, 'w) em_state \<Rightarrow> ('p, 'u, 'd, 'w) em_state option" where
  "release_oversize_pages env s = (case s of (r, h, w) \<Rightarrow>
     if em_last_oversize_page_array r \<noteq> 0
     then do {
       x \<leftarrow> eh_oversize_arrays h (em_last_oversize_page_array r);
       (h, w) \<leftarrow> release_oversize_entries env (em_upstream r) (em_last_oversize_page_array r) (em_last_oversize_page_pointer r) (h, w);
       release_oversize_pages env
         (r\<lparr>em_last_oversize_page_array := osa_next x, em_last_oversize_page_pointer := 0\<rparr>, h, w) }
     else Some s)"

declare destruct_all.simps [code] release_pages.simps [code] release_oversize_entries.simps [code] release_oversize_pages.simps [code]

definition em_release ::
  "('p, 'u, 'w) mem_source \<Rightarrow> ('p, 'u, 'd, 'w) em_state \<Rightarrow> ('d DestroyTask list \<times> ('p, 'u, 'd, 'w) em_state) option" where
  "em_release env s = do {
     (calls, s) \<leftarrow> destruct_all s;
     (r, h, w) \<leftarrow> release_pages env s;
     let r = r\<lparr>em_last_page := 0\<rparr>;
     (r, h, w) \<leftarrow> release_oversize_pages env (r, h, w);
     Some (calls, r\<lparr>em_space_used := 0, em_space_allocated := 0\<rparr>, h, w) }"

section \<open>Queries and moves\<close>

text \<open>The pages from the newest; only the first of them is limited to what is allocated in it.\<close>

fun contains_in_pages :: "u64 \<Rightarrow> u64 \<Rightarrow> u64 option list \<Rightarrow> u64 \<Rightarrow> (bool \<times> u64) option" where
  "contains_in_pages page_size ptr [] sz = Some (False, sz)"
| "contains_in_pages page_size ptr (p # ps) sz = do {
     p \<leftarrow> p;
     if ptr \<ge> p \<and> ptr < p + sz then Some (True, sz) else contains_in_pages page_size ptr ps page_size }"

partial_function (option) contains_pages :: "'d em_heap \<Rightarrow> u64 \<Rightarrow> u64 \<Rightarrow> u64 \<Rightarrow> nat \<Rightarrow> u64 \<Rightarrow> bool option" where
  "contains_pages h page_size ptr page_array iter sz =
     (if page_array \<noteq> 0
      then do {
        x \<leftarrow> eh_page_arrays h page_array;
        (found, sz) \<leftarrow> contains_in_pages page_size ptr (drop iter (pg_pages x)) sz;
        if found then Some True else contains_pages h page_size ptr (pg_next x) 0 sz }
      else Some False)"

fun contains_in_oversize :: "u64 \<Rightarrow> OversizePage option list \<Rightarrow> bool option" where
  "contains_in_oversize ptr [] = Some False"
| "contains_in_oversize ptr (e # es) = do {
     e \<leftarrow> e;
     if ptr \<ge> os_page e \<and> ptr < os_page e + os_bytes e then Some True else contains_in_oversize ptr es }"

partial_function (option) contains_oversize :: "'d em_heap \<Rightarrow> u64 \<Rightarrow> u64 \<Rightarrow> nat \<Rightarrow> bool option" where
  "contains_oversize h ptr page_array iter =
     (if page_array \<noteq> 0
      then do {
        x \<leftarrow> eh_oversize_arrays h page_array;
        found \<leftarrow> contains_in_oversize ptr (drop iter (osa_pages x));
        if found then Some True else contains_oversize h ptr (osa_next x) 0 }
      else Some False)"

declare contains_pages.simps [code] contains_oversize.simps [code]

definition em_contains :: "('p, 'u, 'w) mem_source \<Rightarrow> u64 \<Rightarrow> ('p, 'u, 'd, 'w) em_state \<Rightarrow> bool option" where
  "em_contains env ptr = (\<lambda>(r, h, w). do {
     found \<leftarrow> contains_pages h (ms_page_size env (em_page_allocator r) w) ptr (em_last_page_array r) (em_last_page_pointer r) (em_last_page_allocated r);
     if found then Some True
     else contains_oversize h ptr (em_last_oversize_page_array r) (em_last_oversize_page_pointer r) })"

text \<open>Move assignment exchanges every member but \<open>_upstream\<close>; the pair is \<open>*this\<close> and \<open>other\<close>.\<close>

definition em_move_assign ::
  "('p, 'u) ExclusiveMonotonicBufferResource \<Rightarrow> ('p, 'u) ExclusiveMonotonicBufferResource \<Rightarrow>
     ('p, 'u) ExclusiveMonotonicBufferResource \<times> ('p, 'u) ExclusiveMonotonicBufferResource" where
  "em_move_assign this other = (other\<lparr>em_upstream := em_upstream this\<rparr>, this\<lparr>em_upstream := em_upstream other\<rparr>)"

definition em_move_construct ::
  "'p \<Rightarrow> 'u \<Rightarrow> ('p, 'u) ExclusiveMonotonicBufferResource \<Rightarrow>
     ('p, 'u) ExclusiveMonotonicBufferResource \<times> ('p, 'u) ExclusiveMonotonicBufferResource" where
  "em_move_construct default_page_allocator default_upstream other =
     em_move_assign (em_new default_page_allocator default_upstream) other"

end
