(* ===== verification/MonotonicBufferSpec.thy ===== *)
theory MonotonicBufferSpec
  imports MonotonicBuffer "HOL-Library.Sublist"
begin

text \<open>
  What the monotonic buffer resource guarantees over any well-behaved source of memory.

  \<^item> \<open>memory_source\<close> is the contract of a \<open>PageAllocator\<close> together with an upstream \<open>memory_resource\<close>: what is handed out never
    overlaps, is aligned, and may be given back once; upstream is asked for what does not fit a page. \<open>room\<close> bounds what can still be
    asked for.
  \<^item> \<open>em_ok\<close> is the invariant: the chains of arrays, the blocks the resource holds, and the list of all regions cut from them
    (requests and bookkeeping), which are pairwise apart.
\<close>

section \<open>Regions\<close>

definition apart :: "nat \<times> nat \<Rightarrow> nat \<times> nat \<Rightarrow> bool" where
  "apart u v \<longleftrightarrow> fst u + snd u \<le> fst v \<or> fst v + snd v \<le> fst u"

definition inside :: "nat \<times> nat \<Rightarrow> nat \<times> nat \<Rightarrow> bool" where
  "inside u v \<longleftrightarrow> fst v \<le> fst u \<and> fst u + snd u \<le> fst v + snd v"

lemma apart_sym: "apart u v \<Longrightarrow> apart v u"
  by (auto simp: apart_def)

lemma apart_inside: "apart u v \<Longrightarrow> inside u' u \<Longrightarrow> inside v' v \<Longrightarrow> apart u' v'"
  by (auto simp: apart_def inside_def)

lemma inside_refl [simp]: "inside u u"
  by (simp add: inside_def)

lemma sorted_wrt_subseq: "subseq xs ys \<Longrightarrow> sorted_wrt P ys \<Longrightarrow> sorted_wrt P xs"
proof (induction rule: list_emb.induct)
  case (list_emb_Cons2 x y xs ys)
  then show ?case by (auto dest: list_emb_set)
qed simp_all

datatype block = Page u64 | Up u64 u64 u64

fun region :: "nat \<Rightarrow> block \<Rightarrow> nat \<times> nat" where
  "region psz (Page p) = (unat p, psz)"
| "region psz (Up p n a) = (unat p, unat n)"

text \<open>The regions \<open>us\<close> are apart from each other and each is inside one of the blocks \<open>bs\<close>.\<close>

definition carved :: "nat \<Rightarrow> block set \<Rightarrow> (nat \<times> nat) list \<Rightarrow> bool" where
  "carved psz bs us \<longleftrightarrow> sorted_wrt apart us \<and> (\<forall>u\<in>set us. \<exists>b\<in>bs. inside u (region psz b))"

lemma carved_cons:
  "carved psz bs us \<Longrightarrow> b \<in> bs \<Longrightarrow> inside u (region psz b) \<Longrightarrow> (\<And>v. v \<in> set us \<Longrightarrow> apart u v) \<Longrightarrow> carved psz bs (u # us)"
  by (auto simp: carved_def)

lemma carved_mono: "carved psz bs us \<Longrightarrow> bs \<subseteq> bs' \<Longrightarrow> carved psz bs' us"
  unfolding carved_def by blast

lemma carved_apart_new:
  assumes "carved psz bs us" and "\<And>b. b \<in> bs \<Longrightarrow> apart (region psz x) (region psz b)" and "inside u (region psz x)" and "v \<in> set us"
  shows "apart u v"
  using assms apart_inside by (meson carved_def)

section \<open>Chains of arrays\<close>

fun achain :: "(u64 \<Rightarrow> (u64 \<times> 'e option list) option) \<Rightarrow> u64 \<Rightarrow> nat \<Rightarrow> (u64 \<times> 'e list) list \<Rightarrow> bool" where
  "achain g a i [] \<longleftrightarrow> a = 0 \<and> i = 0"
| "achain g a i ((b, es) # cs) \<longleftrightarrow> a = b \<and> a \<noteq> 0 \<and> i < 15 \<and>
     (\<exists>nx xs. g a = Some (nx, xs) \<and> length xs = 15 \<and> drop i xs = map Some es \<and> achain g nx 0 cs)"

definition pget :: "'d em_heap \<Rightarrow> u64 \<Rightarrow> (u64 \<times> u64 option list) option" where
  "pget h a = map_option (\<lambda>x. (pg_next x, pg_pages x)) (eh_page_arrays h a)"

definition oget :: "'d em_heap \<Rightarrow> u64 \<Rightarrow> (u64 \<times> OversizePage option list) option" where
  "oget h a = map_option (\<lambda>x. (osa_next x, osa_pages x)) (eh_oversize_arrays h a)"

definition tget :: "'d em_heap \<Rightarrow> u64 \<Rightarrow> (u64 \<times> 'd DestroyTask option list) option" where
  "tget h a = map_option (\<lambda>x. (dta_next x, dta_tasks x)) (eh_task_arrays h a)"

lemma achain_cong: "(\<And>b. b \<in> fst ` set cs \<Longrightarrow> g b = g' b) \<Longrightarrow> achain g a i cs = achain g' a i cs"
  by (induction cs arbitrary: a i) (auto split: prod.splits)

lemma achain_new:
  assumes "achain g a 0 cs" and "b \<noteq> 0" and "b \<notin> fst ` set cs" and "j < 15" and "length xs = 15" and "drop j xs = map Some es"
    and "g' b = Some (a, xs)" and "\<And>c. c \<noteq> b \<Longrightarrow> g' c = g c"
  shows "achain g' b j ((b, es) # cs)"
proof -
  have "achain g' a 0 cs = achain g a 0 cs" using assms(3,8) by (intro achain_cong) metis
  then show ?thesis using assms by simp
qed

lemma achain_push:
  assumes "achain g a i ((b, es) # cs)" and "0 < i" and "b \<notin> fst ` set cs" and "g a = Some (nx, xs)"
    and "g' a = Some (nx, xs[i - 1 := Some e])" and "\<And>c. c \<noteq> a \<Longrightarrow> g' c = g c"
  shows "achain g' a (i - 1) ((b, e # es) # cs)"
proof -
  have c: "a = b" "a \<noteq> 0" "i < 15" "length xs = 15" "drop i xs = map Some es" "achain g nx 0 cs" using assms(1,4) by auto
  obtain k where i: "i = Suc k" using assms(2) by (cases i) simp_all
  have "drop k (xs[k := Some e]) = Some e # drop i xs" using c i by (simp add: drop_update_swap Cons_nth_drop_Suc [symmetric])
  then have d: "drop (i - 1) (xs[i - 1 := Some e]) = map Some (e # es)" using c i by simp
  have "achain g' nx 0 cs = achain g nx 0 cs" using assms(3,6) c(1) by (intro achain_cong) metis
  then show ?thesis using c d assms(5) by simp
qed

lemma achain_length: "achain g a i cs \<Longrightarrow> achain g a k ds \<Longrightarrow> length cs = length ds"
proof (induction cs arbitrary: a i k ds)
  case Nil
  then show ?case by (cases ds) auto
next
  case (Cons c cs)
  obtain b es where c: "c = (b, es)" by fastforce
  obtain nx xs where a: "a \<noteq> 0" "g a = Some (nx, xs)" "achain g nx 0 cs" using Cons.prems(1) c by auto
  obtain d ds' where ds: "ds = d # ds'" using Cons.prems(2) a(1) by (cases ds) auto
  have "achain g nx 0 ds'" using Cons.prems(2) a(2) ds by (cases d) auto
  then show ?case using Cons.IH [OF a(3)] ds by simp
qed

lemma achain_suffix: "achain g a i cs \<Longrightarrow> b \<in> fst ` set cs \<Longrightarrow> \<exists>k ds. achain g b k ds \<and> length ds \<le> length cs"
proof (induction cs arbitrary: a i)
  case (Cons c cs)
  obtain d es where c: "c = (d, es)" by fastforce
  obtain nx where nx: "achain g nx 0 cs" "a = d" using Cons.prems c by auto
  show ?case
  proof (cases "b = d")
    case True
    then show ?thesis using Cons.prems(1) nx(2) by blast
  next
    case False
    then have "b \<in> fst ` set cs" using Cons.prems(2) c by simp
    from Cons.IH [OF nx(1) this] obtain k ds where "achain g b k ds" "length ds \<le> length cs" by blast
    then show ?thesis by (intro exI [of _ k] exI [of _ ds]) simp
  qed
qed simp

lemma achain_distinct: "achain g a i ((b, es) # cs) \<Longrightarrow> b \<notin> fst ` set cs"
proof
  assume ch: "achain g a i ((b, es) # cs)" and b: "b \<in> fst ` set cs"
  then obtain nx where "achain g nx 0 cs" by auto
  from achain_suffix [OF this b] obtain k ds where ds: "achain g b k ds" "length ds \<le> length cs" by blast
  have "achain g b i ((b, es) # cs)" using ch by auto
  from achain_length [OF this ds(1)] ds(2) show False by simp
qed

lemma achain_index: "achain g a i cs \<Longrightarrow> achain g' a' i' cs \<Longrightarrow> i = i' \<and> a = a'"
proof (cases cs)
  case (Cons c cs')
  obtain b es where c: "c = (b, es)" by fastforce
  assume "achain g a i cs" "achain g' a' i' cs"
  then have "a = a'" "i < 15" "i' < 15" "\<exists>xs :: 'a option list. length xs = 15 \<and> drop i xs = map Some es"
    "\<exists>xs :: 'a option list. length xs = 15 \<and> drop i' xs = map Some es" using Cons c by auto
  then have "a = a'" "i < 15" "i' < 15" "length es = 15 - i" "length es = 15 - i'" by (metis length_drop length_map)+
  then show ?thesis by simp
qed simp

lemma achain_0: "achain g a i cs \<Longrightarrow> a = 0 \<longleftrightarrow> cs = []"
  by (cases cs) auto

lemma achain_pos: "achain g a i cs \<Longrightarrow> 0 < i \<Longrightarrow> \<exists>es cs'. cs = (a, es) # cs'"
  by (cases cs) auto

lemma read_all_map [simp]: "read_all (map Some xs) = Some xs"
  by (induction xs) simp_all

definition entries :: "(u64 \<times> 'e list) list \<Rightarrow> 'e list" where
  "entries cs = concat (map snd cs)"

lemma entries_simps [simp]: "entries [] = []" "entries ((a, es) # cs) = es @ entries cs"
  by (simp_all add: entries_def)

fun up_block :: "OversizePage \<Rightarrow> block" where
  "up_block e = Up (os_page e) (os_bytes e) (os_alignment e)"

definition own :: "(u64 \<times> u64 list) list \<Rightarrow> (u64 \<times> OversizePage list) list \<Rightarrow> block list" where
  "own ps os = map Page (entries ps) @ map up_block (entries os)"

text \<open>A page array lies in a page of its own or of an older array; an oversize array at the end of its own first block.\<close>

fun located :: "nat \<Rightarrow> (u64 \<times> u64 list) list \<Rightarrow> bool" where
  "located psz [] = True"
| "located psz ((a, ps) # cs) \<longleftrightarrow>
     (\<exists>p\<in>set (ps @ entries cs). inside (unat a, 128) (unat p, psz)) \<and> located psz cs"

fun olocated :: "(u64 \<times> OversizePage list) list \<Rightarrow> bool" where
  "olocated [] = True"
| "olocated ((a, es) # cs) \<longleftrightarrow> es \<noteq> [] \<and> inside (unat a, 368) (unat (os_page (last es)), unat (os_bytes (last es))) \<and> olocated cs"

section \<open>The contract of the memory\<close>

locale memory_source =
  fixes env :: "('p, 'u, 'w) mem_source" and pa :: 'p and up :: 'u and psz :: nat
    and invar :: "'w \<Rightarrow> bool" and blocks :: "'w \<Rightarrow> block set" and room :: "'w \<Rightarrow> nat"
  assumes psz: "invar w \<Longrightarrow> \<exists>k. psz = 2 ^ k \<and> 7 \<le> k \<and> k < 32"
    and page_size: "invar w \<Longrightarrow> unat (ms_page_size env pa w) = psz"
    and blocks_apart: "invar w \<Longrightarrow> x \<in> blocks w \<Longrightarrow> y \<in> blocks w \<Longrightarrow> x \<noteq> y \<Longrightarrow> apart (region psz x) (region psz y)"
    and blocks_bounds: "invar w \<Longrightarrow> x \<in> blocks w \<Longrightarrow> 0 < fst (region psz x) \<and> 0 < snd (region psz x) \<and> fst (region psz x) + snd (region psz x) < 2 ^ 64"
    and page_aligned: "invar w \<Longrightarrow> Page p \<in> blocks w \<Longrightarrow> psz dvd unat p"
    and page_allocate: "invar w \<Longrightarrow> 2 * psz \<le> room w \<Longrightarrow>
      \<exists>p w'. ms_page_allocate env pa w = Some (p, w') \<and> invar w' \<and> Page p \<notin> blocks w \<and> blocks w' = insert (Page p) (blocks w)
        \<and> room w \<le> room w' + 2 * psz"
    and page_deallocate: "invar w \<Longrightarrow> distinct qs \<Longrightarrow> Page ` set qs \<subseteq> blocks w \<Longrightarrow> length qs \<le> room w \<Longrightarrow>
      \<exists>w'. ms_page_deallocate env pa qs w = Some w' \<and> invar w' \<and> blocks w' = blocks w - Page ` set qs \<and> room w \<le> room w' + length qs"
    and allocate: "invar w \<Longrightarrow> 0 < unat n \<Longrightarrow> j < 64 \<Longrightarrow> psz < unat n \<or> psz < 2 ^ j \<Longrightarrow> unat n + 2 ^ j \<le> room w \<Longrightarrow>
      \<exists>p w'. ms_allocate env up n (2 ^ j) w = Some (p, w') \<and> invar w' \<and> Up p n (2 ^ j) \<notin> blocks w
        \<and> blocks w' = insert (Up p n (2 ^ j)) (blocks w) \<and> 2 ^ j dvd unat p \<and> room w \<le> room w' + unat n + 2 ^ j"
    and deallocate: "invar w \<Longrightarrow> Up p n a \<in> blocks w \<Longrightarrow>
      \<exists>w'. ms_deallocate env up p n a w = Some w' \<and> invar w' \<and> blocks w' = blocks w - {Up p n a} \<and> room w \<le> room w'"

section \<open>The invariant\<close>

text \<open>
  \<open>ps\<close>, \<open>os\<close>, \<open>ts\<close>: the chains of page arrays, oversize arrays and task arrays; \<open>us\<close>: the regions in use; \<open>B\<close>: the blocks of
  others. In the last page everything in use lies before \<open>_last_page_allocated\<close>.
\<close>

definition em_ptrs :: "('p, 'u) ExclusiveMonotonicBufferResource \<Rightarrow> (u64 \<times> u64 list) list \<Rightarrow> (nat \<times> nat) list \<Rightarrow> nat \<Rightarrow> bool" where
  "em_ptrs r ps us psz \<longleftrightarrow> 0 < unat (em_last_page_allocated r) \<and> unat (em_last_page_allocated r) \<le> 2 ^ 62 \<and>
     (if ps = [] then em_last_page r = 0 \<and> 2 ^ 32 - 1 \<le> unat (em_last_page_allocated r)
      else em_last_page r = hd (entries ps) \<and>
        (\<forall>u\<in>set us. fst u + snd u \<le> unat (em_last_page r) + unat (em_last_page_allocated r) \<or> unat (em_last_page r) + psz \<le> fst u))"

definition em_chains ::
  "('p, 'u) ExclusiveMonotonicBufferResource \<Rightarrow> 'd em_heap \<Rightarrow> (u64 \<times> u64 list) list \<Rightarrow> (u64 \<times> OversizePage list) list \<Rightarrow>
     (u64 \<times> 'd DestroyTask list) list \<Rightarrow> bool" where
  "em_chains r h ps os ts \<longleftrightarrow>
     achain (pget h) (em_last_page_array r) (em_last_page_pointer r) ps \<and>
     achain (oget h) (em_last_oversize_page_array r) (em_last_oversize_page_pointer r) os \<and>
     achain (tget h) (em_last_destroy_task_array r) (em_last_destroy_task_pointer r) ts"

definition em_arrays :: "(u64 \<times> u64 list) list \<Rightarrow> (u64 \<times> OversizePage list) list \<Rightarrow> (u64 \<times> 'd DestroyTask list) list \<Rightarrow> (nat \<times> nat) list" where
  "em_arrays ps os ts = map (\<lambda>(a, _). (unat a, 128)) ps @ map (\<lambda>(a, _). (unat a, 368)) os @ map (\<lambda>(a, _). (unat a, 248)) ts"

definition up_bytes :: "(u64 \<times> OversizePage list) list \<Rightarrow> u64" where
  "up_bytes os = sum_list (map os_bytes (entries os))"

text \<open>What a request of \<open>n\<close> bytes may cost at most: two pages, or one block with an array behind it.\<close>

definition em_cost :: "nat \<Rightarrow> nat \<Rightarrow> nat \<Rightarrow> nat" where
  "em_cost psz n a = 4 * psz + n + 2 * a + 400"

datatype 'd em_op = Allocate u64 u64 | Register u64 'd

text \<open>The addresses the requests got, with their size and alignment, newest first.\<close>

fun em_run ::
  "('p, 'u, 'w) mem_source \<Rightarrow> 'd em_op list \<Rightarrow> (u64 \<times> u64 \<times> u64) list \<Rightarrow> ('p, 'u, 'd, 'w) em_state \<Rightarrow>
     ((u64 \<times> u64 \<times> u64) list \<times> ('p, 'u, 'd, 'w) em_state) option" where
  "em_run env [] got s = Some (got, s)"
| "em_run env (Allocate bytes alignment # ops) got s = do {
     (p, s) \<leftarrow> em_allocate env bytes alignment s;
     em_run env ops ((p, bytes, alignment) # got) s }"
| "em_run env (Register ptr destructor # ops) got s = do {
     s \<leftarrow> register_destructor env ptr destructor s;
     em_run env ops got s }"

fun em_op_ok :: "'d em_op \<Rightarrow> bool" where
  "em_op_ok (Allocate bytes alignment) \<longleftrightarrow> 0 < unat bytes \<and> unat bytes \<le> 2 ^ 62 \<and> (\<exists>j\<le>62. alignment = 2 ^ j)"
| "em_op_ok (Register ptr destructor) = True"

fun em_op_cost :: "nat \<Rightarrow> 'd em_op \<Rightarrow> nat" where
  "em_op_cost psz (Allocate bytes alignment) = em_cost psz (unat bytes) (unat alignment)"
| "em_op_cost psz (Register ptr destructor) = em_cost psz 248 8"

fun registered :: "'d em_op list \<Rightarrow> 'd DestroyTask list" where
  "registered [] = []"
| "registered (Register ptr destructor # ops) = \<lparr>dt_ptr = ptr, dt_destructor = destructor\<rparr> # registered ops"
| "registered (Allocate bytes alignment # ops) = registered ops"

fun requested :: "'d em_op list \<Rightarrow> (u64 \<times> u64) list" where
  "requested [] = []"
| "requested (Register ptr destructor # ops) = requested ops"
| "requested (Allocate bytes alignment # ops) = (bytes, alignment) # requested ops"

definition got_regions :: "(u64 \<times> u64 \<times> u64) list \<Rightarrow> (nat \<times> nat) list" where
  "got_regions got = map (\<lambda>(p, n, a). (unat p, unat n)) got"

context memory_source
begin

definition em_ok ::
  "('p, 'u, 'd, 'w) em_state \<Rightarrow> (u64 \<times> u64 list) list \<Rightarrow> (u64 \<times> OversizePage list) list \<Rightarrow>
     (u64 \<times> 'd DestroyTask list) list \<Rightarrow> (nat \<times> nat) list \<Rightarrow> block set \<Rightarrow> bool" where
  "em_ok = (\<lambda>(r, h, w) ps os ts us B. em_page_allocator r = pa \<and> em_upstream r = up \<and> invar w
     \<and> em_chains r h ps os ts \<and> em_ptrs r ps us psz
     \<and> distinct (own ps os) \<and> blocks w = set (own ps os) \<union> B \<and> set (own ps os) \<inter> B = {}
     \<and> carved psz (set (own ps os)) us \<and> located psz ps \<and> olocated os
     \<and> set (em_arrays ps os ts) \<subseteq> set us \<and> (\<forall>u\<in>set us. 0 < snd u)
     \<and> em_space_allocated r = of_nat (psz * length (entries ps)) + up_bytes os)"

lemmas em_ok_unfold = em_ok_def case_prod_conv

lemma em_okD:
  assumes "em_ok (r, h, w) ps os ts us B"
  shows "em_page_allocator r = pa" "em_upstream r = up" "invar w" "em_chains r h ps os ts" "em_ptrs r ps us psz"
    "distinct (own ps os)" "blocks w = set (own ps os) \<union> B" "set (own ps os) \<inter> B = {}" "carved psz (set (own ps os)) us"
    "located psz ps" "olocated os" "set (em_arrays ps os ts) \<subseteq> set us" "\<And>u. u \<in> set us \<Longrightarrow> 0 < snd u"
    "em_space_allocated r = of_nat (psz * length (entries ps)) + up_bytes os"
  using assms by (simp_all add: em_ok_def)

lemma psz_bounds:
  assumes "invar w"
  shows "128 \<le> psz" "psz \<le> 2 ^ 31" "8 dvd psz"
proof -
  obtain k where k: "psz = 2 ^ k" "7 \<le> k" "k < 32" using psz [OF assms] by blast
  show "128 \<le> psz" using power_increasing [of 7 k "2::nat"] k by simp
  show "psz \<le> 2 ^ 31" using power_increasing [of k 31 "2::nat"] k by simp
  show "8 dvd psz" using le_imp_power_dvd [of 3 k "2::nat"] k by simp
qed

lemma own_bounds:
  assumes "em_ok (r, h, w) ps os ts us B" and "b \<in> set (own ps os)"
  shows "0 < fst (region psz b)" "fst (region psz b) + snd (region psz b) < 2 ^ 64"
  using blocks_bounds [OF em_okD(3) [OF assms(1)]] em_okD(7) [OF assms(1)] assms(2) by blast+

lemma array_fresh:
  assumes "set (em_arrays ps os ts) \<subseteq> set us" and "\<And>v. v \<in> set us \<Longrightarrow> apart (unat a, n) v" and "0 < n"
  shows "a \<notin> fst ` set ps" and "a \<notin> fst ` set os" and "a \<notin> fst ` set ts"
proof -
  have *: "\<not> apart (unat a, n) (unat a, m)" if "0 < m" for m using that assms(3) by (simp add: apart_def)
  have "(unat a, m) \<notin> set us" if "0 < m" for m using * [OF that] assms(2) by blast
  then have **: "(unat a, m) \<notin> set (em_arrays ps os ts)" if "0 < m" for m using that assms(1) by blast
  show "a \<notin> fst ` set ps" using ** [of 128] by (force simp: em_arrays_def)
  show "a \<notin> fst ` set os" using ** [of 368] by (force simp: em_arrays_def)
  show "a \<notin> fst ` set ts" using ** [of 248] by (force simp: em_arrays_def)
qed

lemma page_size_word: "invar w \<Longrightarrow> ms_page_size env pa w = of_nat psz"
  by (metis page_size of_nat_unat ucast_id)

lemma new_block:
  assumes ok: "em_ok (r, h, w) ps os ts us B" and w': "invar w'" "X \<notin> blocks w" "blocks w' = insert X (blocks w)"
  shows "\<And>u v vs. carved psz (set (own ps os)) vs \<Longrightarrow> inside u (region psz X) \<Longrightarrow> v \<in> set vs \<Longrightarrow> apart u v" and "X \<notin> set (own ps os)" and "X \<notin> B"
    and "0 < fst (region psz X)" and "fst (region psz X) + snd (region psz X) < 2 ^ 64"
proof -
  note d = em_okD [OF ok]
  have "apart (region psz X) (region psz b)" if "b \<in> set (own ps os)" for b
    using blocks_apart [OF w'(1)] w'(2,3) d(7) that by blast
  then show "apart u v" if "carved psz (set (own ps os)) vs" "inside u (region psz X)" "v \<in> set vs" for u v vs
    using carved_apart_new [OF that(1)] that by blast
  show "X \<notin> set (own ps os)" "X \<notin> B" using w'(2) d(7) by blast+
  show "0 < fst (region psz X)" "fst (region psz X) + snd (region psz X) < 2 ^ 64"
    using blocks_bounds [OF w'(1)] w'(3) by blast+
qed

lemma em_ptrs_mono:
  assumes "em_ptrs r ps us psz" and "unat (em_last_page_allocated r) \<le> unat n" and "unat n \<le> 2 ^ 62"
  shows "em_ptrs (r\<lparr>em_last_page_allocated := n\<rparr>) ps us psz"
proof -
  have "fst u + snd u \<le> p + unat n" if "fst u + snd u \<le> p + unat (em_last_page_allocated r)" for u :: "nat \<times> nat" and p
    using that assms(2) by linarith
  then show ?thesis using assms unfolding em_ptrs_def by (auto split: if_splits)
qed

lemma do_align_ok:
  assumes ok: "em_ok (r, h, w) ps os ts us B" and j: "j \<le> 62"
  shows "em_ok (do_align (2 ^ j) r, h, w) ps os ts us B" and "2 ^ j dvd unat (em_last_page_allocated (do_align (2 ^ j) r))"
proof -
  let ?la = "unat (em_last_page_allocated r)"
  note d = em_okD [OF ok]
  have la: "?la \<le> 2 ^ 62" using d(5) by (simp add: em_ptrs_def)
  have pj: "(2::nat) ^ j \<le> 2 ^ 62" using j by (rule power_increasing) simp
  have up: "unat ((em_last_page_allocated r + 2 ^ j - 1) AND - (2 ^ j)) = nat_align_up ?la (2 ^ j)"
    using unat_align_up [of j "em_last_page_allocated r"] la pj j by (simp add: align_up_def)
  have b: "?la \<le> nat_align_up ?la (2 ^ j)" by (rule nat_align_up_bounds) simp
  have "nat_align_up ?la (2 ^ j) \<le> 2 ^ 62" using la le_imp_power_dvd [OF j, of "2::nat"] by (intro nat_align_up_least) simp_all
  then have "em_ptrs (do_align (2 ^ j) r) ps us psz" using em_ptrs_mono [OF d(5)] b by (simp add: do_align_def up)
  then show "em_ok (do_align (2 ^ j) r, h, w) ps os ts us B"
    using ok by (simp add: em_ok_def em_chains_def do_align_def)
  show "2 ^ j dvd unat (em_last_page_allocated (do_align (2 ^ j) r))" by (simp add: do_align_def up nat_align_up_dvd)
qed

lemma em_ok_space_used [simp]: "em_ok (r\<lparr>em_space_used := x\<rparr>, h, w) ps os ts us B = em_ok (r, h, w) ps os ts us B"
  by (simp add: em_ok_def em_chains_def em_ptrs_def)

lemma last_page_own:
  assumes ok: "em_ok (r, h, w) ps os ts us B" and ps: "ps \<noteq> []"
  shows "em_last_page r \<in> set (entries ps)"
proof -
  note d = em_okD [OF ok]
  obtain a es cs where c: "ps = (a, es) # cs" using ps by (cases ps) auto
  have "\<exists>i xs. i < 15 \<and> length xs = 15 \<and> drop i xs = map Some es" using d(4) c unfolding em_chains_def by auto
  then have "es \<noteq> []" by auto
  then show "em_last_page r \<in> set (entries ps)" using d(5) ps by (simp add: em_ptrs_def c)
qed

text \<open>A region cut from the rest of the last page.\<close>

lemma last_page_carve:
  assumes ok: "em_ok (r, h, w) ps os ts us B" and fit: "unat (em_last_page_allocated r) + n \<le> psz" and n: "0 < n"
  defines "u \<equiv> (unat (em_last_page r) + unat (em_last_page_allocated r), n)"
  shows "ps \<noteq> []" and "Page (em_last_page r) \<in> set (own ps os)" and "em_last_page r \<in> set (entries ps)"
    and "unat (em_last_page r + em_last_page_allocated r) = fst u" and "inside u (region psz (Page (em_last_page r)))"
    and "\<And>v. v \<in> set us \<Longrightarrow> apart u v" and "psz dvd unat (em_last_page r)" and "0 < unat (em_last_page r)"
    and "carved psz (set (own ps os)) (u # us)"
proof -
  note d = em_okD [OF ok]
  show ps: "ps \<noteq> []" using d(5) fit psz_bounds(2) [OF d(3)] by (auto simp: em_ptrs_def split: if_splits)
  show e: "em_last_page r \<in> set (entries ps)" by (rule last_page_own [OF ok ps])
  then show o: "Page (em_last_page r) \<in> set (own ps os)" by (simp add: own_def)
  show "0 < unat (em_last_page r)" using own_bounds [OF ok o] by simp
  have "unat (em_last_page r) + unat (em_last_page_allocated r) < 2 ^ 64" using own_bounds [OF ok o] fit n by simp
  then show "unat (em_last_page r + em_last_page_allocated r) = fst u" by (simp add: u_def unat_add_small)
  show i: "inside u (region psz (Page (em_last_page r)))" using fit by (simp add: u_def inside_def)
  show a: "apart u v" if "v \<in> set us" for v
  proof -
    have "fst v + snd v \<le> unat (em_last_page r) + unat (em_last_page_allocated r) \<or> unat (em_last_page r) + psz \<le> fst v"
      using d(5) ps that by (auto simp: em_ptrs_def split: if_splits)
    then show ?thesis using fit by (auto simp: u_def apart_def)
  qed
  show "psz dvd unat (em_last_page r)" using page_aligned [OF d(3)] d(7) o by blast
  show "carved psz (set (own ps os)) (u # us)" by (rule carved_cons [OF d(9) o i a])
qed

lemma ok_fit:
  assumes ok: "em_ok (r, h, w) ps os ts us B" and fit: "unat (em_last_page_allocated r) + unat bytes \<le> psz" and n: "0 < unat bytes"
  shows "em_ok (r\<lparr>em_last_page_allocated := em_last_page_allocated r + bytes\<rparr>, h, w) ps os ts
    ((unat (em_last_page r + em_last_page_allocated r), unat bytes) # us) B"
proof -
  note d = em_okD [OF ok]
  note c = last_page_carve [OF ok fit n]
  have u: "unat (em_last_page_allocated r + bytes) = unat (em_last_page_allocated r) + unat bytes"
    using fit psz_bounds(2) [OF d(3)] by (intro unat_add_small) simp
  have "em_ptrs (r\<lparr>em_last_page_allocated := em_last_page_allocated r + bytes\<rparr>) ps
     ((unat (em_last_page r + em_last_page_allocated r), unat bytes) # us) psz"
    using d(5) c(1,4) fit psz_bounds(2) [OF d(3)] by (auto simp: em_ptrs_def u)
  then show ?thesis using d c(4,9) n by (auto simp: em_ok_def em_chains_def)
qed

lemma ok_grow_pages:
  assumes ok: "em_ok (r, h, w) ps os ts us B"
    and w': "invar w'" "blocks w' = Page ` set qs \<union> blocks w" "Page ` set qs \<inter> blocks w = {}"
    and qs: "distinct qs" "qs \<noteq> []" "entries ps' = qs @ entries ps"
    and r': "em_page_allocator r' = pa" "em_upstream r' = up" "em_space_allocated r' = em_space_allocated r + of_nat (psz * length qs)"
      "em_last_page r' = hd qs" "0 < unat (em_last_page_allocated r')" "unat (em_last_page_allocated r') \<le> 2 ^ 62"
    and ch: "em_chains r' h' ps' os ts" "located psz ps'"
    and us': "carved psz (set (own ps' os)) us'" "set (em_arrays ps' os ts) \<subseteq> set us'" "\<And>u. u \<in> set us' \<Longrightarrow> 0 < snd u"
      "\<And>u. u \<in> set us' \<Longrightarrow> fst u + snd u \<le> unat (hd qs) + unat (em_last_page_allocated r') \<or> unat (hd qs) + psz \<le> fst u"
  shows "em_ok (r', h', w') ps' os ts us' B"
proof -
  note d = em_okD [OF ok]
  have own: "own ps' os = map Page qs @ own ps os" by (simp add: own_def qs(3))
  have "Page ` set qs \<inter> set (own ps os) = {}" "Page ` set qs \<inter> B = {}" using w'(3) d(7) by blast+
  moreover have "distinct (map Page qs)" using qs(1) by (simp add: distinct_map inj_on_def)
  ultimately have *: "distinct (own ps' os)" "blocks w' = set (own ps' os) \<union> B" "set (own ps' os) \<inter> B = {}"
    using d(6,7,8) w'(2) by (auto simp: own)
  have "ps' \<noteq> []" using qs(2,3) by auto
  then have "em_ptrs r' ps' us' psz" using r'(4-6) us'(4) qs(2,3) by (simp add: em_ptrs_def)
  moreover have "em_space_allocated r' = of_nat (psz * length (entries ps')) + up_bytes os"
    using r'(3) d(14) by (simp add: qs(3) algebra_simps)
  ultimately show ?thesis using r'(1,2) w'(1) ch us' * d(11) by (simp add: em_ok_def)
qed

text \<open>Everything in use is apart from a page that was just allocated, hence before or after its rest.\<close>

lemma before_or_after:
  assumes ok: "em_ok (r, h, w) ps os ts us B" and w': "invar w'" "Page q \<notin> blocks w" "blocks w' = insert (Page q) (blocks w)"
    and u: "carved psz (set (own ps os)) vs" "u \<in> set vs"
  shows "fst u + snd u \<le> unat q + n \<or> unat q + psz \<le> fst u"
  using new_block(1) [OF ok w' u(1), of "(unat q, psz)" u] u by (auto simp: apart_def)

lemma em_chains_push_page:
  assumes ch: "em_chains r h ps os ts" and i: "0 < em_last_page_pointer r" and fresh: "ps = (em_last_page_array r, es) # cs"
      "em_last_page_array r \<notin> fst ` set cs"
    and x: "eh_page_arrays h (em_last_page_array r) = Some x"
  shows "em_chains (r\<lparr>em_last_page_pointer := em_last_page_pointer r - 1, em_last_page := q, em_last_page_allocated := n\<rparr>)
    (put_page_array (em_last_page_array r) (x\<lparr>pg_pages := (pg_pages x)[em_last_page_pointer r - 1 := Some q]\<rparr>) h)
    ((em_last_page_array r, q # es) # cs) os ts"
proof -
  let ?h = "put_page_array (em_last_page_array r) (x\<lparr>pg_pages := (pg_pages x)[em_last_page_pointer r - 1 := Some q]\<rparr>) h"
  have "achain (pget ?h) (em_last_page_array r) (em_last_page_pointer r - 1) ((em_last_page_array r, q # es) # cs)"
    using ch fresh x i by (intro achain_push [where g = "pget h" and nx = "pg_next x" and xs = "pg_pages x"])
      (auto simp: em_chains_def pget_def put_page_array_def)
  moreover have "oget ?h = oget h" "tget ?h = tget h" by (simp_all add: fun_eq_iff oget_def tget_def put_page_array_def)
  ultimately show ?thesis using ch by (simp add: em_chains_def)
qed

lemma em_chains_new_page_array:
  assumes ch: "em_chains r h ps os ts" and i: "em_last_page_pointer r = 0" and a: "a \<noteq> 0" "a \<notin> fst ` set ps"
    and x: "pg_next x = em_last_page_array r" "length (pg_pages x) = 15" "drop j (pg_pages x) = map Some es" "j < 15"
    and r': "em_last_page_array r' = a" "em_last_page_pointer r' = j"
      "em_last_oversize_page_array r' = em_last_oversize_page_array r" "em_last_oversize_page_pointer r' = em_last_oversize_page_pointer r"
      "em_last_destroy_task_array r' = em_last_destroy_task_array r" "em_last_destroy_task_pointer r' = em_last_destroy_task_pointer r"
  shows "em_chains r' (put_page_array a x h) ((a, es) # ps) os ts"
proof -
  let ?h = "put_page_array a x h"
  have "achain (pget ?h) a j ((a, es) # ps)"
    using ch i a x by (intro achain_new [where g = "pget h" and a = "em_last_page_array r" and xs = "pg_pages x"])
      (auto simp: em_chains_def pget_def put_page_array_def)
  moreover have "oget ?h = oget h" "tget ?h = tget h" by (simp_all add: fun_eq_iff oget_def tget_def put_page_array_def)
  ultimately show ?thesis using ch r' by (simp add: em_chains_def)
qed

lemma new_page_push:
  assumes ok: "em_ok (r, h, w) ps os ts us B" and n: "0 < unat bytes" "unat bytes \<le> psz"
    and w': "invar w'" "Page q \<notin> blocks w" "blocks w' = insert (Page q) (blocks w)"
    and i: "0 < em_last_page_pointer r" and x: "eh_page_arrays h (em_last_page_array r) = Some x"
  shows "\<exists>ps'. em_ok
    (r\<lparr>em_space_allocated := em_space_allocated r + of_nat psz, em_last_page_pointer := em_last_page_pointer r - 1, em_last_page := q,
       em_last_page_allocated := bytes\<rparr>,
     put_page_array (em_last_page_array r) (x\<lparr>pg_pages := (pg_pages x)[em_last_page_pointer r - 1 := Some q]\<rparr>) h, w')
    ps' os ts ((unat q, unat bytes) # us) B" (is "\<exists>ps'. em_ok (?r, ?h, w') ps' os ts ?us B")
proof -
  note d = em_okD [OF ok] and nb = new_block [OF ok w']
  obtain es cs where ps: "ps = (em_last_page_array r, es) # cs"
    using achain_pos [OF _ i] d(4) unfolding em_chains_def by blast
  let ?ps = "(em_last_page_array r, q # es) # cs"
  have ua: "em_last_page_array r \<notin> fst ` set cs" using d(4) achain_distinct unfolding em_chains_def ps by blast
  have ch: "em_chains ?r ?h ?ps os ts" using em_chains_push_page [OF d(4) i ps ua x, where q = q and n = bytes] by (simp add: em_chains_def)
  have own: "set (own ?ps os) = insert (Page q) (set (own ps os))" by (auto simp: own_def ps)
  have "em_ok (?r, ?h, w') ?ps os ts ?us B"
  proof (rule ok_grow_pages [where qs = "[q]", OF ok w'(1)])
    show "carved psz (set (own ?ps os)) ?us"
      using own nb(1) [OF d(9)] n by (intro carved_cons [OF carved_mono [OF d(9)], where b = "Page q"]) (auto simp: inside_def)
    show "set (em_arrays ?ps os ts) \<subseteq> set ?us" using d(12) by (auto simp: em_arrays_def ps)
    show "fst u + snd u \<le> unat (hd [q]) + unat (em_last_page_allocated ?r) \<or> unat (hd [q]) + psz \<le> fst u" if "u \<in> set ?us" for u
      using that before_or_after [OF ok w' d(9), of u] n by auto
    show "0 < snd u" if "u \<in> set ?us" for u using that d(13) [of u] n by auto
    show "located psz ?ps" using d(10) by (auto simp: ps)
  qed (use w' d(1,2) n psz_bounds(2) [OF d(3)] ch in \<open>auto simp: ps\<close>)
  then show ?thesis by blast
qed

lemma new_page_array_in_last_page:
  assumes ok: "em_ok (r, h, w) ps os ts us B" and n: "0 < unat bytes" "unat bytes \<le> psz"
    and w': "invar w'" "Page q \<notin> blocks w" "blocks w' = insert (Page q) (blocks w)"
    and i: "em_last_page_pointer r = 0" and fit: "unat (em_last_page_allocated r) + 128 \<le> psz"
  defines "a \<equiv> em_last_page r + em_last_page_allocated r"
  shows "\<exists>ps'. em_ok
    (r\<lparr>em_space_allocated := em_space_allocated r + of_nat psz, em_last_page_array := a, em_last_page_pointer := 14,
       em_last_page_allocated := bytes, em_last_page := q\<rparr>,
     put_page_array a \<lparr>pg_next = em_last_page_array r, pg_pages = (replicate 15 None)[14 := Some q]\<rparr> h, w')
    ps' os ts ((unat q, unat bytes) # (unat a, 128) # us) B" (is "\<exists>ps'. em_ok (?r, ?h, w') ps' os ts ?us B")
proof -
  note d = em_okD [OF ok] and nb = new_block [OF ok w'] and c = last_page_carve [OF ok fit zero_less_numeral, folded a_def]
  let ?ps = "(a, [q]) # ps"
  have ua: "unat a = unat (em_last_page r) + unat (em_last_page_allocated r)" using c(4) by simp
  have a0: "a \<noteq> 0" using ua c(8) by auto
  have c9: "carved psz (set (own ps os)) ((unat a, 128) # us)" using c(9) by (simp add: ua)
  have fresh: "a \<notin> fst ` set ps" using c(6) by (intro array_fresh(1) [OF d(12), of _ 128]) (auto simp: ua)
  have ch: "em_chains ?r ?h ?ps os ts"
    by (rule em_chains_new_page_array [OF d(4) i a0 fresh]) (simp_all add: numeral_eq_Suc)
  have own: "set (own ?ps os) = insert (Page q) (set (own ps os))" by (auto simp: own_def)
  have "em_ok (?r, ?h, w') ?ps os ts ?us B"
  proof (rule ok_grow_pages [where qs = "[q]", OF ok w'(1)])
    show "carved psz (set (own ?ps os)) ?us"
      using own nb(1) [OF c9] n by (intro carved_cons [OF carved_mono [OF c9], where b = "Page q"]) (auto simp: inside_def)
    show "set (em_arrays ?ps os ts) \<subseteq> set ?us" using d(12) by (auto simp: em_arrays_def)
    show "fst u + snd u \<le> unat (hd [q]) + unat (em_last_page_allocated ?r) \<or> unat (hd [q]) + psz \<le> fst u" if "u \<in> set ?us" for u
      using that before_or_after [OF ok w' c9, of u] n by auto
    show "0 < snd u" if "u \<in> set ?us" for u using that d(13) [of u] n by auto
    show "located psz ?ps" using d(10) c(3,5) by (auto simp: ua)
  qed (use w' d(1,2) n psz_bounds(2) [OF d(3)] ch in auto)
  then show ?thesis by blast
qed

lemma unat_align8:
  assumes "unat n \<le> 2 ^ 62"
  shows "unat ((n + 8 - 1 :: u64) AND (- 8)) = nat_align_up (unat n) 8"
  using unat_align_up [of 3 n] assms by (simp add: align_up_def)

lemma new_page_array_in_new_page:
  assumes ok: "em_ok (r, h, w) ps os ts us B" and n: "0 < unat bytes" "unat bytes + 128 \<le> psz"
    and w': "invar w'" "Page q \<notin> blocks w" "blocks w' = insert (Page q) (blocks w)"
    and i: "em_last_page_pointer r = 0"
  defines "b \<equiv> (bytes + 8 - 1) AND (- 8)" and "a \<equiv> q + ((bytes + 8 - 1) AND (- 8))"
  shows "\<exists>ps'. em_ok
    (r\<lparr>em_space_allocated := em_space_allocated r + of_nat psz, em_last_page_array := a, em_last_page_pointer := 14,
       em_last_page_allocated := b + 128, em_last_page := q\<rparr>,
     put_page_array a \<lparr>pg_next = em_last_page_array r, pg_pages = (replicate 15 None)[14 := Some q]\<rparr> h, w')
    ps' os ts ((unat q, unat bytes) # (unat a, 128) # us) B" (is "\<exists>ps'. em_ok (?r, ?h, w') ps' os ts ?us B")
proof -
  note d = em_okD [OF ok] and nb = new_block [OF ok w']
  let ?ps = "(a, [q]) # ps"
  have b: "unat bytes \<le> unat b" "unat b + 128 \<le> psz"
  proof -
    have eq: "unat b = nat_align_up (unat bytes) 8" unfolding b_def using n psz_bounds(2) [OF d(3)] by (intro unat_align8) simp
    have "nat_align_up (unat bytes) 8 \<le> psz - 128" using psz_bounds(3) [OF d(3)] n by (intro nat_align_up_least) (simp_all add: dvd_diff_nat)
    then show "unat b + 128 \<le> psz" using eq psz_bounds(1) [OF d(3)] by linarith
    show "unat bytes \<le> unat b" unfolding eq by (rule nat_align_up_bounds) simp
  qed
  have ua: "unat a = unat q + unat b" unfolding a_def b_def [symmetric] using nb(5) b by (intro unat_add_small) simp
  have ub: "unat (b + 128) = unat b + 128" using b psz_bounds(2) [OF d(3)] by (simp add: unat_add_small)
  have a0: "a \<noteq> 0" using ua nb(4) by auto
  have ia: "inside (unat a, 128) (unat q, psz)" using b by (simp add: inside_def ua)
  have fresh: "a \<notin> fst ` set ps" using nb(1) [OF d(9)] ia by (intro array_fresh(1) [OF d(12), of _ 128]) auto
  have ch: "em_chains ?r ?h ?ps os ts"
    by (rule em_chains_new_page_array [OF d(4) i a0 fresh]) (simp_all add: numeral_eq_Suc)
  have own: "set (own ?ps os) = insert (Page q) (set (own ps os))" by (auto simp: own_def)
  have c1: "carved psz (set (own ?ps os)) ((unat a, 128) # us)"
    using own nb(1) [OF d(9)] ia by (intro carved_cons [OF carved_mono [OF d(9)], where b = "Page q"]) auto
  have "em_ok (?r, ?h, w') ?ps os ts ?us B"
  proof (rule ok_grow_pages [where qs = "[q]", OF ok w'(1)])
    have "apart (unat q, unat bytes) v" if "v \<in> set ((unat a, 128) # us)" for v
      using that nb(1) [OF d(9), of "(unat q, unat bytes)" v] n b by (auto simp: apart_def ua inside_def)
    then show "carved psz (set (own ?ps os)) ?us"
      using own n by (intro carved_cons [OF c1, where b = "Page q"]) (auto simp: inside_def)
    show "set (em_arrays ?ps os ts) \<subseteq> set ?us" using d(12) by (auto simp: em_arrays_def)
    show "fst u + snd u \<le> unat (hd [q]) + unat (em_last_page_allocated ?r) \<or> unat (hd [q]) + psz \<le> fst u" if "u \<in> set ?us" for u
      using that before_or_after [OF ok w' d(9), of u] b by (auto simp: ua ub)
    show "0 < snd u" if "u \<in> set ?us" for u using that d(13) [of u] n by auto
    show "located psz ?ps" using d(10) ia by auto
  qed (use w' d(1,2) b ub psz_bounds(2) [OF d(3)] ch in auto)
  then show ?thesis by blast
qed

lemma new_page_array_in_additional_page:
  assumes ok: "em_ok (r, h, w) ps os ts us B" and n: "0 < unat bytes" "unat bytes \<le> psz"
    and w': "invar w'" "Page q \<notin> blocks w" "blocks w' = insert (Page q) (blocks w)"
    and w'': "invar w''" "Page a \<notin> blocks w'" "blocks w'' = insert (Page a) (blocks w')"
    and i: "em_last_page_pointer r = 0"
  shows "\<exists>ps'. em_ok
    (r\<lparr>em_space_allocated := em_space_allocated r + of_nat psz + of_nat psz, em_last_page_array := a, em_last_page_pointer := 13,
       em_last_page_allocated := 128, em_last_page := a\<rparr>,
     put_page_array a \<lparr>pg_next = em_last_page_array r, pg_pages = (replicate 15 None)[14 := Some q, 13 := Some a]\<rparr> h, w'')
    ps' os ts ((unat q, unat bytes) # (unat a, 128) # us) B" (is "\<exists>ps'. em_ok (?r, ?h, w'') ps' os ts ?us B")
proof -
  note d = em_okD [OF ok] and nb = new_block [OF ok w']
  have q: "a \<noteq> q" "Page a \<notin> blocks w" using w' w'' by auto
  have apart_a: "apart u v" if "inside u (unat a, psz)" "v \<in> set us" for u v
  proof (rule carved_apart_new [OF d(9) _ _ that(2), where x = "Page a"])
    show "apart (region psz (Page a)) (region psz b)" if "b \<in> set (own ps os)" for b
      using that d(7) w' w'' by (intro blocks_apart [OF w''(1)]) auto
  qed (use that in simp)
  have aq: "apart (unat q, psz) (unat a, psz)" using blocks_apart [OF w''(1), of "Page q" "Page a"] w' w'' q by simp
  let ?ps = "(a, [a, q]) # ps"
  have a0: "a \<noteq> 0" using blocks_bounds [OF w''(1), of "Page a"] w''(3) by auto
  have ia: "inside (unat a, 128) (unat a, psz)" using psz_bounds(1) [OF d(3)] by (simp add: inside_def)
  have fresh: "a \<notin> fst ` set ps" using apart_a ia by (intro array_fresh(1) [OF d(12), of _ 128]) auto
  have ch: "em_chains ?r ?h ?ps os ts"
    by (rule em_chains_new_page_array [OF d(4) i a0 fresh]) (simp_all add: numeral_eq_Suc)
  have own: "set (own ?ps os) = insert (Page a) (insert (Page q) (set (own ps os)))" by (auto simp: own_def)
  have c1: "carved psz (set (own ?ps os)) ((unat a, 128) # us)"
    using own apart_a ia by (intro carved_cons [OF carved_mono [OF d(9)], where b = "Page a"]) auto
  have "em_ok (?r, ?h, w'') ?ps os ts ?us B"
  proof (rule ok_grow_pages [where qs = "[a, q]", OF ok w''(1)])
    have "apart (unat q, unat bytes) v" if "v \<in> set ((unat a, 128) # us)" for v
      using that nb(1) [OF d(9), of "(unat q, unat bytes)" v] n ia apart_inside [OF aq, of "(unat q, unat bytes)" "(unat a, 128)"]
      by (auto simp: inside_def)
    then show "carved psz (set (own ?ps os)) ?us"
      using own n by (intro carved_cons [OF c1, where b = "Page q"]) (auto simp: inside_def)
    show "set (em_arrays ?ps os ts) \<subseteq> set ?us" using d(12) by (auto simp: em_arrays_def)
    show "fst u + snd u \<le> unat (hd [a, q]) + unat (em_last_page_allocated ?r) \<or> unat (hd [a, q]) + psz \<le> fst u" if "u \<in> set ?us" for u
    proof -
      have "inside u (unat a, psz) \<and> fst u + snd u \<le> unat a + 128 \<or> apart (unat a, psz) u"
        using that apart_a [of "(unat a, psz)" u] ia apart_inside [OF apart_sym [OF aq], of "(unat a, psz)" "(unat q, unat bytes)"] n
        by (auto simp: inside_def)
      then show ?thesis by (auto simp: apart_def)
    qed
    show "0 < snd u" if "u \<in> set ?us" for u using that d(13) [of u] n by auto
    show "located psz ?ps" using d(10) ia by auto
    show "0 < unat (em_last_page_allocated ?r)" "unat (em_last_page_allocated ?r) \<le> 2 ^ 62" by simp_all
    show "Page ` set [a, q] \<inter> blocks w = {}" using w'(2) q by simp
  qed (use w' w'' q d(1,2) ch in \<open>simp_all add: algebra_simps\<close>)
  then show ?thesis by blast
qed

lemmas capacity_defs = PAGE_ARRAY_CAPACITY_def DESTROY_TASK_ARRAY_CAPACITY_def

lemma em_ok_align8:
  assumes "em_ok (r, h, w) ps os ts us B"
  shows "em_ok (r\<lparr>em_last_page_allocated := (em_last_page_allocated r + 8 - 1) AND (- 8)\<rparr>, h, w) ps os ts us B"
  using do_align_ok(1) [OF assms, of 3] by (simp add: do_align_def)

lemma not_fit_big:
  assumes ok: "em_ok (r, h, w) ps os ts us B" and n: "unat n \<le> 2 ^ 62"
  shows "em_last_page_allocated r + n \<le> of_nat psz \<longleftrightarrow> unat (em_last_page_allocated r) + unat n \<le> psz"
proof -
  have "unat (em_last_page_allocated r + n) = unat (em_last_page_allocated r) + unat n"
    using em_okD(5) [OF ok] n by (intro unat_add_small) (simp add: em_ptrs_def)
  moreover have "unat (of_nat psz :: u64) = psz" using psz_bounds(2) [OF em_okD(3) [OF ok]] by (intro unat_of_nat_small) simp
  ultimately show ?thesis by (simp add: word_le_nat_alt)
qed

lemma new_page_array_ok:
  assumes ok: "em_ok (r, h, w) ps os ts us B" and n: "0 < unat bytes" "unat bytes \<le> psz"
    and w': "invar w'" "Page q \<notin> blocks w" "blocks w' = insert (Page q) (blocks w)" "2 * psz \<le> room w'"
    and i: "em_last_page_pointer r = 0"
  shows "\<exists>r' h' w'' ps' ms. do_allocate_with_page_in_new_page_array env bytes q
      (r\<lparr>em_space_allocated := em_space_allocated r + of_nat psz\<rparr>, h, w') = Some (q, r', h', w'')
    \<and> em_ok (r', h', w'') ps' os ts ((unat q, unat bytes) # ms @ us) B \<and> room w' \<le> room w'' + 2 * psz \<and> em_space_used r' = em_space_used r"
proof -
  let ?r = "r\<lparr>em_last_page_allocated := (em_last_page_allocated r + 8 - 1) AND (- 8)\<rparr>"
  note ok8 = em_ok_align8 [OF ok]
  have i8: "em_last_page_pointer ?r = 0" using i by simp
  have pw: "ms_page_size env (em_page_allocator r) w' = of_nat psz" using page_size_word [OF w'(1)] em_okD(1) [OF ok] by simp
  have f: "em_last_page_allocated ?r + sizeof_PageArray \<le> of_nat psz \<longleftrightarrow> unat (em_last_page_allocated ?r) + 128 \<le> psz"
    using not_fit_big [OF ok8, of sizeof_PageArray] by (simp add: sizeof_defs)
  have g: "bytes + sizeof_PageArray \<le> of_nat psz \<longleftrightarrow> unat bytes + 128 \<le> psz"
  proof -
    have "unat (bytes + 128) = unat bytes + 128" using n psz_bounds(2) [OF em_okD(3) [OF ok]] by (simp add: unat_add_small)
    moreover have "unat (of_nat psz :: u64) = psz" using psz_bounds(2) [OF em_okD(3) [OF ok]] by (intro unat_of_nat_small) simp
    ultimately show ?thesis by (simp add: word_le_nat_alt sizeof_defs)
  qed
  consider (last) "unat (em_last_page_allocated ?r) + 128 \<le> psz"
    | (new) "\<not> unat (em_last_page_allocated ?r) + 128 \<le> psz" "unat bytes + 128 \<le> psz"
    | (add) "\<not> unat (em_last_page_allocated ?r) + 128 \<le> psz" "\<not> unat bytes + 128 \<le> psz" by blast
  then show ?thesis
  proof cases
    case last
    let ?a = "em_last_page ?r + em_last_page_allocated ?r"
    let ?r1 = "?r\<lparr>em_space_allocated := em_space_allocated ?r + of_nat psz, em_last_page_array := ?a, em_last_page_pointer := 14,
       em_last_page_allocated := bytes, em_last_page := q\<rparr>"
    let ?h1 = "put_page_array ?a \<lparr>pg_next = em_last_page_array ?r, pg_pages = (replicate 15 None)[14 := Some q]\<rparr> h"
    from new_page_array_in_last_page [OF ok8 n w'(1-3) i8 last]
    obtain ps' where o: "em_ok (?r1, ?h1, w') ps' os ts ((unat q, unat bytes) # [(unat ?a, 128)] @ us) B" by auto
    have "do_allocate_with_page_in_new_page_array env bytes q (r\<lparr>em_space_allocated := em_space_allocated r + of_nat psz\<rparr>, h, w') =
      Some (q, ?r1, ?h1, w')" using last f pw by (simp add: do_allocate_with_page_in_new_page_array_def Let_def capacity_defs)
    then show ?thesis using o by (intro exI conjI) (assumption, assumption, simp_all)
  next
    case new
    let ?b = "(bytes + 8 - 1) AND (- 8)"
    let ?a = "q + ?b"
    let ?r1 = "?r\<lparr>em_space_allocated := em_space_allocated ?r + of_nat psz, em_last_page_array := ?a, em_last_page_pointer := 14,
       em_last_page_allocated := ?b + 128, em_last_page := q\<rparr>"
    let ?h1 = "put_page_array ?a \<lparr>pg_next = em_last_page_array ?r, pg_pages = (replicate 15 None)[14 := Some q]\<rparr> h"
    from new_page_array_in_new_page [OF ok8 n(1) new(2) w'(1-3) i8]
    obtain ps' where o: "em_ok (?r1, ?h1, w') ps' os ts ((unat q, unat bytes) # [(unat ?a, 128)] @ us) B" by auto
    have "do_allocate_with_page_in_new_page_array env bytes q (r\<lparr>em_space_allocated := em_space_allocated r + of_nat psz\<rparr>, h, w') =
      Some (q, ?r1, ?h1, w')" using new f g pw by (simp add: do_allocate_with_page_in_new_page_array_def Let_def capacity_defs sizeof_defs)
    then show ?thesis using o by (intro exI conjI) (assumption, assumption, simp_all)
  next
    case add
    obtain a w'' where a: "ms_page_allocate env pa w' = Some (a, w'')" "invar w''" "Page a \<notin> blocks w'" "blocks w'' = insert (Page a) (blocks w')"
      "room w' \<le> room w'' + 2 * psz" using page_allocate [OF w'(1,4)] by blast
    let ?r1 = "?r\<lparr>em_space_allocated := em_space_allocated ?r + of_nat psz + of_nat psz, em_last_page_array := a, em_last_page_pointer := 13,
       em_last_page_allocated := 128, em_last_page := a\<rparr>"
    let ?h1 = "put_page_array a \<lparr>pg_next = em_last_page_array ?r, pg_pages = (replicate 15 None)[14 := Some q, 13 := Some a]\<rparr> h"
    from new_page_array_in_additional_page [OF ok8 n w'(1-3) a(2-4) i8]
    obtain ps' where o: "em_ok (?r1, ?h1, w'') ps' os ts ((unat q, unat bytes) # [(unat a, 128)] @ us) B" by auto
    have "do_allocate_with_page_in_new_page_array env bytes q (r\<lparr>em_space_allocated := em_space_allocated r + of_nat psz\<rparr>, h, w') =
      Some (q, ?r1, ?h1, w'')"
      using add f g pw a(1) em_okD(1) [OF ok] by (simp add: do_allocate_with_page_in_new_page_array_def Let_def capacity_defs sizeof_defs)
    then show ?thesis using o a(5) by (intro exI conjI) (assumption, assumption, simp_all)
  qed
qed

lemma small_in_new_page:
  assumes ok: "em_ok (r, h, w) ps os ts us B" and n: "0 < unat bytes" "unat bytes \<le> psz" "unat alignment \<le> psz" and rm: "4 * psz \<le> room w"
  shows "\<exists>q r' h' w' ps' ms. do_allocate_in_new_page env bytes alignment (r, h, w) = Some (q, r', h', w')
    \<and> em_ok (r', h', w') ps' os ts ((unat q, unat bytes) # ms @ us) B \<and> psz dvd unat q \<and> room w \<le> room w' + 4 * psz
    \<and> em_space_used r' = em_space_used r"
proof -
  note d = em_okD [OF ok]
  have pw: "ms_page_size env (em_page_allocator r) w = of_nat psz" using page_size_word [OF d(3)] d(1) by simp
  have up: "unat (of_nat psz :: u64) = psz" using psz_bounds(2) [OF d(3)] by (intro unat_of_nat_small) simp
  have small: "bytes \<le> of_nat psz \<and> alignment \<le> of_nat psz" using n by (simp add: word_le_nat_alt up)
  have rm2: "2 * psz \<le> room w" using rm by linarith
  obtain q w1 where q: "ms_page_allocate env pa w = Some (q, w1)" "invar w1" "Page q \<notin> blocks w" "blocks w1 = insert (Page q) (blocks w)"
    "room w \<le> room w1 + 2 * psz" using page_allocate [OF d(3) rm2] by blast
  have al: "psz dvd unat q" using page_aligned [OF q(2)] q(4) by blast
  show ?thesis
  proof (cases "0 < em_last_page_pointer r")
    case True
    obtain es cs where c: "ps = (em_last_page_array r, es) # cs" using achain_pos [OF _ True] d(4) unfolding em_chains_def by blast
    obtain x where x: "eh_page_arrays h (em_last_page_array r) = Some x" "length (pg_pages x) = 15" "em_last_page_pointer r < 15"
      using d(4) unfolding em_chains_def c by (auto simp: pget_def)
    let ?r1 = "r\<lparr>em_space_allocated := em_space_allocated r + of_nat psz, em_last_page_pointer := em_last_page_pointer r - 1, em_last_page := q,
       em_last_page_allocated := bytes\<rparr>"
    let ?h1 = "put_page_array (em_last_page_array r) (x\<lparr>pg_pages := (pg_pages x)[em_last_page_pointer r - 1 := Some q]\<rparr>) h"
    from new_page_push [OF ok n(1,2) q(2-4) True x(1)]
    obtain ps' where o: "em_ok (?r1, ?h1, w1) ps' os ts ((unat q, unat bytes) # [] @ us) B" by auto
    have "do_allocate_in_new_page env bytes alignment (r, h, w) = Some (q, ?r1, ?h1, w1)"
      using True x q(1) small pw d(1) by (simp add: do_allocate_in_new_page_def Let_def mem_write_def)
    then show ?thesis using o al q(5) by (intro exI conjI) (assumption, assumption, simp_all)
  next
    case False
    have "2 * psz \<le> room w1" using rm q(5) by linarith
    moreover have "em_last_page_pointer r = 0" using False by simp
    ultimately obtain r' h' w' ps' ms where o: "do_allocate_with_page_in_new_page_array env bytes q
        (r\<lparr>em_space_allocated := em_space_allocated r + of_nat psz\<rparr>, h, w1) = Some (q, r', h', w')"
      "em_ok (r', h', w') ps' os ts ((unat q, unat bytes) # ms @ us) B" "room w1 \<le> room w' + 2 * psz" "em_space_used r' = em_space_used r"
      using new_page_array_ok [OF ok n(1,2) q(2-4)] by blast
    have "do_allocate_in_new_page env bytes alignment (r, h, w) = Some (q, r', h', w')"
      using False q(1) small pw d(1) o(1) by (simp add: do_allocate_in_new_page_def Let_def)
    moreover have "room w \<le> room w' + 4 * psz" using q(5) o(3) by linarith
    ultimately show ?thesis using o al by blast
  qed
qed

section \<open>Oversize blocks\<close>

lemma ok_grow_up:
  assumes ok: "em_ok (r, h, w) ps os ts us B"
    and w': "invar w'" "up_block e \<notin> blocks w" "blocks w' = insert (up_block e) (blocks w)"
    and os': "entries os' = e # entries os" "olocated os'"
    and r': "em_page_allocator r' = pa" "em_upstream r' = up" "em_space_allocated r' = em_space_allocated r + os_bytes e"
      "em_last_page r' = em_last_page r" "em_last_page_allocated r' = em_last_page_allocated r"
    and ch: "em_chains r' h' ps os' ts"
    and us': "carved psz (set (own ps os')) us'" "set (em_arrays ps os' ts) \<subseteq> set us'" "\<And>u. u \<in> set us' \<Longrightarrow> 0 < snd u"
      "\<And>u. u \<in> set us' \<Longrightarrow> u \<in> set us \<or> inside u (region psz (up_block e))"
  shows "em_ok (r', h', w') ps os' ts us' B"
proof -
  note d = em_okD [OF ok] and nb = new_block [OF ok w']
  have own: "set (own ps os') = insert (up_block e) (set (own ps os))" by (auto simp: own_def os'(1))
  have "distinct (own ps os')" using d(6) nb(2) by (auto simp: own_def os'(1))
  moreover have "blocks w' = set (own ps os') \<union> B" "set (own ps os') \<inter> B = {}" using w'(3) d(7,8) nb(3) own by auto
  moreover have "em_ptrs r' ps us' psz"
  proof -
    have "fst u + snd u \<le> unat (em_last_page r) + unat (em_last_page_allocated r) \<or> unat (em_last_page r) + psz \<le> fst u"
      if u: "u \<in> set us'" and ps: "ps \<noteq> []" for u
    proof (cases "u \<in> set us")
      case True
      then show ?thesis using d(5) ps by (auto simp: em_ptrs_def)
    next
      case False
      then have i: "inside u (region psz (up_block e))" using us'(4) u by blast
      have lp: "Page (em_last_page r) \<in> set (own ps os)" using last_page_own [OF ok ps] by (simp add: own_def)
      have "carved psz (set (own ps os)) [(unat (em_last_page r), psz)]" using lp by (force simp: carved_def)
      from nb(1) [OF this i] have "apart u (unat (em_last_page r), psz)" by simp
      then show ?thesis by (auto simp: apart_def)
    qed
    then show ?thesis using d(5) r'(4,5) by (auto simp: em_ptrs_def)
  qed
  moreover have "em_space_allocated r' = of_nat (psz * length (entries ps)) + up_bytes os'"
    using r'(3) d(14) os'(1) by (simp add: up_bytes_def algebra_simps)
  ultimately show ?thesis using r'(1,2) w'(1) ch us'(1-3) d(10) os'(2) by (simp add: em_ok_def)
qed

lemma em_chains_new_oversize_array:
  assumes ch: "em_chains r h ps os ts" and i: "em_last_oversize_page_pointer r = 0" and a: "a \<noteq> 0" "a \<notin> fst ` set os"
    and x: "osa_next x = em_last_oversize_page_array r" "length (osa_pages x) = 15" "drop j (osa_pages x) = map Some es" "j < 15"
  shows "em_chains (r\<lparr>em_space_allocated := n, em_last_oversize_page_array := a, em_last_oversize_page_pointer := j\<rparr>)
    (put_oversize_array a x h) ps ((a, es) # os) ts"
proof -
  let ?h = "put_oversize_array a x h"
  have "achain (oget ?h) a j ((a, es) # os)"
    using ch i a x by (intro achain_new [where g = "oget h" and a = "em_last_oversize_page_array r" and xs = "osa_pages x"])
      (auto simp: em_chains_def oget_def put_oversize_array_def)
  moreover have "pget ?h = pget h" "tget ?h = tget h" by (simp_all add: fun_eq_iff pget_def tget_def put_oversize_array_def)
  ultimately show ?thesis using ch by (simp add: em_chains_def)
qed

lemma em_chains_push_oversize:
  assumes ch: "em_chains r h ps os ts" and i: "0 < em_last_oversize_page_pointer r"
    and fresh: "os = (em_last_oversize_page_array r, es) # cs" "em_last_oversize_page_array r \<notin> fst ` set cs"
    and x: "eh_oversize_arrays h (em_last_oversize_page_array r) = Some x"
  shows "em_chains (r\<lparr>em_space_allocated := n, em_last_oversize_page_pointer := em_last_oversize_page_pointer r - 1\<rparr>)
    (put_oversize_array (em_last_oversize_page_array r) (x\<lparr>osa_pages := (osa_pages x)[em_last_oversize_page_pointer r - 1 := Some e]\<rparr>) h)
    ps ((em_last_oversize_page_array r, e # es) # cs) ts"
proof -
  let ?h = "put_oversize_array (em_last_oversize_page_array r) (x\<lparr>osa_pages := (osa_pages x)[em_last_oversize_page_pointer r - 1 := Some e]\<rparr>) h"
  have "achain (oget ?h) (em_last_oversize_page_array r) (em_last_oversize_page_pointer r - 1) ((em_last_oversize_page_array r, e # es) # cs)"
    using ch fresh x i by (intro achain_push [where g = "oget h" and nx = "osa_next x" and xs = "osa_pages x"])
      (auto simp: em_chains_def oget_def put_oversize_array_def)
  moreover have "pget ?h = pget h" "tget ?h = tget h" by (simp_all add: fun_eq_iff pget_def tget_def put_oversize_array_def)
  ultimately show ?thesis using ch by (simp add: em_chains_def)
qed

lemma em_ok_adder [simp]: "em_ok (r, h\<lparr>eh_oversize_page_adder := x\<rparr>, w) ps os ts us B = em_ok (r, h, w) ps os ts us B"
proof -
  have "pget (h\<lparr>eh_oversize_page_adder := x\<rparr>) = pget h" "oget (h\<lparr>eh_oversize_page_adder := x\<rparr>) = oget h"
    "tget (h\<lparr>eh_oversize_page_adder := x\<rparr>) = tget h" by (simp_all add: fun_eq_iff pget_def oget_def tget_def)
  then show ?thesis by (simp add: em_ok_def em_chains_def)
qed

lemma oversize_push:
  assumes ok: "em_ok (r, h, w) ps os ts us B" and n: "0 < unat bytes" and j: "j < 64" and i: "0 < em_last_oversize_page_pointer r"
    and rm: "unat bytes + 2 ^ j \<le> room w" and big: "psz < unat bytes \<or> psz < 2 ^ j"
  shows "\<exists>q r' h' w' os'. do_allocate_in_oversize_page env bytes (2 ^ j) (r, h, w) = Some (q, r', h', w')
    \<and> em_ok (r', h', w') ps os' ts ((unat q, unat bytes) # us) B \<and> 2 ^ j dvd unat q \<and> room w \<le> room w' + unat bytes + 2 ^ j
    \<and> em_space_used r' = em_space_used r"
proof -
  define h1 where "h1 = h\<lparr>eh_oversize_page_adder := eh_oversize_page_adder h + 1\<rparr>"
  have ok1: "em_ok (r, h1, w) ps os ts us B" using ok by (simp add: h1_def)
  note d = em_okD [OF ok1]
  obtain q w' where q: "ms_allocate env up bytes (2 ^ j) w = Some (q, w')" "invar w'" "Up q bytes (2 ^ j) \<notin> blocks w"
    "blocks w' = insert (Up q bytes (2 ^ j)) (blocks w)" "2 ^ j dvd unat q" "room w \<le> room w' + unat bytes + 2 ^ j"
    using allocate [OF d(3) n j big rm] by blast
  obtain es cs where c: "os = (em_last_oversize_page_array r, es) # cs" using achain_pos [OF _ i] d(4) unfolding em_chains_def by blast
  obtain x where x: "eh_oversize_arrays h1 (em_last_oversize_page_array r) = Some x" "length (osa_pages x) = 15" "em_last_oversize_page_pointer r < 15"
    using d(4) unfolding em_chains_def c by (auto simp: oget_def)
  have ua: "em_last_oversize_page_array r \<notin> fst ` set cs" using d(4) achain_distinct unfolding em_chains_def c by blast
  let ?e = "\<lparr>os_page = q, os_bytes = bytes, os_alignment = 2 ^ j\<rparr>"
  let ?os = "(em_last_oversize_page_array r, ?e # es) # cs"
  let ?r = "r\<lparr>em_space_allocated := em_space_allocated r + bytes, em_last_oversize_page_pointer := em_last_oversize_page_pointer r - 1\<rparr>"
  let ?h = "put_oversize_array (em_last_oversize_page_array r) (x\<lparr>osa_pages := (osa_pages x)[em_last_oversize_page_pointer r - 1 := Some ?e]\<rparr>) h1"
  have w': "invar w'" "up_block ?e \<notin> blocks w" "blocks w' = insert (up_block ?e) (blocks w)" using q by simp_all
  note nb = new_block [OF ok1 w']
  have own: "set (own ps ?os) = insert (up_block ?e) (set (own ps os))" by (auto simp: own_def c)
  have "em_ok (?r, ?h, w') ps ?os ts ((unat q, unat bytes) # us) B"
  proof (rule ok_grow_up [OF ok1 w'])
    show "carved psz (set (own ps ?os)) ((unat q, unat bytes) # us)"
      using own nb(1) [OF d(9)] by (intro carved_cons [OF carved_mono [OF d(9)], where b = "up_block ?e"]) auto
    show "em_chains ?r ?h ps ?os ts" by (rule em_chains_push_oversize [OF d(4) i c ua x(1)])
    show "set (em_arrays ps ?os ts) \<subseteq> set ((unat q, unat bytes) # us)" using d(12) by (auto simp: em_arrays_def c)
    show "0 < snd u" if "u \<in> set ((unat q, unat bytes) # us)" for u using that d(13) [of u] n by auto
  qed (use d(1,2,11) c in auto)
  moreover have "do_allocate_in_oversize_page env bytes (2 ^ j) (r, h, w) = Some (q, ?r, ?h, w')"
  proof -
    have "em_last_oversize_page_pointer r - 1 < length (osa_pages x)" using i x by simp
    moreover have "eh_oversize_arrays h (em_last_oversize_page_array r) = Some x" using x(1) by (simp add: h1_def)
    ultimately show ?thesis
      using i q(1) d(2) by (simp add: do_allocate_in_oversize_page_def Let_def h1_def [symmetric] mem_write_def del: One_nat_def)
  qed
  ultimately show ?thesis using q(5,6) by (intro exI conjI) (assumption, assumption, simp_all)
qed

lemma oversize_new_array:
  assumes ok: "em_ok (r, h, w) ps os ts us B" and n: "0 < unat bytes" "unat bytes \<le> 2 ^ 62" and j: "j \<le> 62" and i: "em_last_oversize_page_pointer r = 0"
    and rm: "unat bytes + 2 * 2 ^ j + 400 \<le> room w" and big: "psz < unat bytes \<or> psz < 2 ^ j"
  shows "\<exists>q r' h' w' os' ms. do_allocate_in_oversize_page env bytes (2 ^ j) (r, h, w) = Some (q, r', h', w')
    \<and> em_ok (r', h', w') ps os' ts ((unat q, unat bytes) # ms @ us) B \<and> 2 ^ j dvd unat q \<and> room w \<le> room w' + (unat bytes + 2 * 2 ^ j + 400)
    \<and> em_space_used r' = em_space_used r"
proof -
  define h1 where "h1 = h\<lparr>eh_oversize_page_adder := eh_oversize_page_adder h + 1\<rparr>"
  have ok1: "em_ok (r, h1, w) ps os ts us B" using ok by (simp add: h1_def)
  note d = em_okD [OF ok1]
  define k where "k = max j 3"
  have mx: "max (2 ^ j) 8 = (2 ^ k :: u64)"
  proof -
    have "unat (2 ^ j :: u64) = 2 ^ j" using j by (intro unat_pow2) simp
    moreover have "(2::nat) ^ j \<le> 8 \<longleftrightarrow> j \<le> 3" using power_increasing_iff [of "2::nat" j 3] by simp
    ultimately show ?thesis by (auto simp: k_def max_def word_le_nat_alt)
  qed
  have k: "k \<le> 62" "j \<le> k" "(2::nat) ^ k \<le> 2 ^ j + 8" using j by (auto simp: k_def max_def)
  have k62: "(2::nat) ^ k \<le> 2 ^ 62" using k(1) by (rule power_increasing) simp
  define b where "b = (bytes + 2 ^ k - 1) AND (- (2 ^ k))"
  have ub: "unat b = nat_align_up (unat bytes) (2 ^ k)"
    using unat_align_up [of k bytes] n(2) k62 k(1) by (simp add: b_def align_up_def)
  have b: "unat bytes \<le> unat b" "unat b < unat bytes + 2 ^ k"
    unfolding ub by (rule nat_align_up_bounds, simp)+
  have b2: "unat (b + 368) = unat b + 368" using b(2) n(2) k62 unat_add_small [of b 368] by simp
  obtain q w' where q: "ms_allocate env up (b + 368) (2 ^ k) w = Some (q, w')" "invar w'" "Up q (b + 368) (2 ^ k) \<notin> blocks w"
    "blocks w' = insert (Up q (b + 368) (2 ^ k)) (blocks w)" "2 ^ k dvd unat q" "room w \<le> room w' + unat (b + 368) + 2 ^ k"
  proof -
    have "psz < unat (b + 368) \<or> psz < 2 ^ k" using big b b2 k(2) power_increasing [of j k "2::nat"] by linarith
    moreover have "0 < unat (b + 368)" "k < 64" "unat (b + 368) + 2 ^ k \<le> room w" using k b rm b2 by simp_all
    ultimately show ?thesis using allocate [OF d(3), of "b + 368" k] that by blast
  qed
  let ?e = "\<lparr>os_page = q, os_bytes = b + 368, os_alignment = 2 ^ k\<rparr>"
  have w': "invar w'" "up_block ?e \<notin> blocks w" "blocks w' = insert (up_block ?e) (blocks w)" using q by simp_all
  note nb = new_block [OF ok1 w']
  define a where "a = q + b"
  have ua: "unat a = unat q + unat b" unfolding a_def using nb(5) b2 by (intro unat_add_small) simp
  have a0: "a \<noteq> 0" using ua nb(4) by auto
  have ia: "inside (unat a, 368) (region psz (up_block ?e))" by (simp add: inside_def ua b2)
  have fresh: "a \<notin> fst ` set os" using nb(1) [OF d(9) ia] by (intro array_fresh(2) [OF d(12), of _ 368]) auto
  let ?os = "(a, [?e]) # os"
  let ?us = "(unat q, unat bytes) # [(unat a, 368)] @ us"
  let ?r = "r\<lparr>em_space_allocated := em_space_allocated r + (b + 368), em_last_oversize_page_array := a, em_last_oversize_page_pointer := 14\<rparr>"
  let ?h = "put_oversize_array a \<lparr>osa_next = em_last_oversize_page_array r, osa_pages = (replicate 15 None)[14 := Some ?e]\<rparr> h1"
  have own: "set (own ps ?os) = insert (up_block ?e) (set (own ps os))" by (auto simp: own_def)
  have c1: "carved psz (set (own ps ?os)) ((unat a, 368) # us)"
    using own nb(1) [OF d(9) ia] ia by (intro carved_cons [OF carved_mono [OF d(9)], where b = "up_block ?e"]) auto
  have iq: "inside (unat q, unat bytes) (region psz (up_block ?e))" using b by (simp add: inside_def b2)
  have "em_ok (?r, ?h, w') ps ?os ts ?us B"
  proof (rule ok_grow_up [OF ok1 w'])
    have "apart (unat q, unat bytes) v" if "v \<in> set ((unat a, 368) # us)" for v
      using that nb(1) [OF d(9) iq, of v] b by (auto simp: apart_def ua)
    then show "carved psz (set (own ps ?os)) ?us"
      using own iq carved_cons [OF c1, of "up_block ?e" "(unat q, unat bytes)"] by simp
    show "em_chains ?r ?h ps ?os ts"
      by (rule em_chains_new_oversize_array [OF d(4) i a0 fresh]) (simp_all add: numeral_eq_Suc)
    show "set (em_arrays ps ?os ts) \<subseteq> set ?us" using d(12) by (auto simp: em_arrays_def)
    show "0 < snd u" if "u \<in> set ?us" for u using that d(13) [of u] n by auto
    show "u \<in> set us \<or> inside u (region psz (up_block ?e))" if "u \<in> set ?us" for u using that ia iq by auto
    show "olocated ?os" using d(11) ia by simp
  qed (use d(1,2) in simp_all)
  moreover have "do_allocate_in_oversize_page env bytes (2 ^ j) (r, h, w) = Some (q, ?r, ?h, w')"
    using i q(1) d(2) by (simp add: do_allocate_in_oversize_page_def Let_def h1_def [symmetric] mx b_def [symmetric] sizeof_defs capacity_defs a_def)
  moreover have "2 ^ j dvd unat q" using q(5) k(2) le_imp_power_dvd dvd_trans by blast
  moreover have "room w \<le> room w' + (unat bytes + 2 * 2 ^ j + 400)" using q(6) b2 b k(3) by linarith
  ultimately show ?thesis by (intro exI conjI) (assumption, assumption, simp_all)
qed

section \<open>Every operation keeps the invariant\<close>

lemma em_allocate_ok:
  assumes ok: "em_ok (r, h, w) ps os ts us B" and n: "0 < unat bytes" "unat bytes \<le> 2 ^ 62" and j: "j \<le> 62"
    and rm: "em_cost psz (unat bytes) (2 ^ j) \<le> room w"
  shows "\<exists>q r' h' w' ps' os' ms. em_allocate env bytes (2 ^ j) (r, h, w) = Some (q, r', h', w')
    \<and> em_ok (r', h', w') ps' os' ts ((unat q, unat bytes) # ms @ us) B \<and> 2 ^ j dvd unat q
    \<and> room w \<le> room w' + em_cost psz (unat bytes) (2 ^ j)"
proof -
  define r1 where "r1 = (do_align (2 ^ j) r)\<lparr>em_space_used := em_space_used r + bytes\<rparr>"
  have ok1: "em_ok (r1, h, w) ps os ts us B" using do_align_ok(1) [OF ok j] by (simp add: r1_def)
  have al: "2 ^ j dvd unat (em_last_page_allocated r1)" using do_align_ok(2) [OF ok j] by (simp add: r1_def)
  note d = em_okD [OF ok1]
  have pw: "ms_page_size env (em_page_allocator r1) w = of_nat psz" using page_size_word [OF d(3)] d(1) by simp
  have up: "unat (of_nat psz :: u64) = psz" using psz_bounds(2) [OF d(3)] by (intro unat_of_nat_small) simp
  have uj: "unat (2 ^ j :: u64) = 2 ^ j" using j by (intro unat_pow2) simp
  obtain k where k: "psz = 2 ^ k" using psz [OF d(3)] by blast
  have small_dvd: "2 ^ j dvd psz" if "2 ^ j \<le> psz"
    using that by (simp add: k le_imp_power_dvd)
  have eq: "em_allocate env bytes (2 ^ j) (r, h, w) =
    (if unat (em_last_page_allocated r1) + unat bytes \<le> psz
     then Some (em_last_page r1 + em_last_page_allocated r1, r1\<lparr>em_last_page_allocated := em_last_page_allocated r1 + bytes\<rparr>, h, w)
     else do_allocate_in_new_page env bytes (2 ^ j) (r1, h, w))"
    using not_fit_big [OF ok1 n(2)] pw
    by (simp add: em_allocate_def do_allocate_already_aligned_def Let_def r1_def do_align_def)
  consider (fit) "unat (em_last_page_allocated r1) + unat bytes \<le> psz"
    | (small) "\<not> unat (em_last_page_allocated r1) + unat bytes \<le> psz" "unat bytes \<le> psz" "2 ^ j \<le> psz"
    | (over) "\<not> unat (em_last_page_allocated r1) + unat bytes \<le> psz" "\<not> (unat bytes \<le> psz \<and> 2 ^ j \<le> psz)" by blast
  then show ?thesis
  proof cases
    case fit
    have "2 ^ j \<le> psz" using al fit n(1) d(5) dvd_imp_le [of "2 ^ j" "unat (em_last_page_allocated r1)"] by (simp add: em_ptrs_def)
    then have "2 ^ j dvd unat (em_last_page r1)" using last_page_carve(7) [OF ok1 fit n(1)] small_dvd dvd_trans by blast
    then have "2 ^ j dvd unat (em_last_page r1 + em_last_page_allocated r1)" using last_page_carve(4) [OF ok1 fit n(1)] al by simp
    then show ?thesis using ok_fit [OF ok1 fit n(1)] eq fit
      by (intro exI [of _ "[]"] exI conjI) (simp, simp, assumption, simp_all)
  next
    case small
    have "4 * psz \<le> room w" using rm by (simp add: em_cost_def)
    with small_in_new_page [OF ok1 n(1) small(2), of "2 ^ j"] small uj obtain q r' h' w' ps' ms where
      o: "do_allocate_in_new_page env bytes (2 ^ j) (r1, h, w) = Some (q, r', h', w')"
        "em_ok (r', h', w') ps' os ts ((unat q, unat bytes) # ms @ us) B" "psz dvd unat q" "room w \<le> room w' + 4 * psz" by auto
    have "2 ^ j dvd unat q" using o(3) small_dvd [OF small(3)] dvd_trans by blast
    moreover have "room w \<le> room w' + em_cost psz (unat bytes) (2 ^ j)" using o(4) by (simp add: em_cost_def)
    ultimately show ?thesis using o(1,2) eq small(1) by (intro exI conjI) (simp, assumption, simp_all)
  next
    case over
    have dov: "do_allocate_in_new_page env bytes (2 ^ j) (r1, h, w) = do_allocate_in_oversize_page env bytes (2 ^ j) (r1, h, w)"
      using over(2) pw by (auto simp: do_allocate_in_new_page_def Let_def word_le_nat_alt up uj)
    have big: "psz < unat bytes \<or> psz < 2 ^ j" using over(2) by auto
    have "\<exists>q r' h' w' os' ms. do_allocate_in_oversize_page env bytes (2 ^ j) (r1, h, w) = Some (q, r', h', w')
      \<and> em_ok (r', h', w') ps os' ts ((unat q, unat bytes) # ms @ us) B \<and> 2 ^ j dvd unat q \<and> room w \<le> room w' + (unat bytes + 2 * 2 ^ j + 400)"
    proof (cases "0 < em_last_oversize_page_pointer r1")
      case True
      have "unat bytes + 2 ^ j \<le> room w" using rm by (simp add: em_cost_def)
      with oversize_push [OF ok1 n(1) _ True _ big] j obtain q r' h' w' os' where
        o: "do_allocate_in_oversize_page env bytes (2 ^ j) (r1, h, w) = Some (q, r', h', w')"
          "em_ok (r', h', w') ps os' ts ((unat q, unat bytes) # us) B" "2 ^ j dvd unat q" "room w \<le> room w' + unat bytes + 2 ^ j" by auto
      then show ?thesis by (intro exI [of _ q] exI [of _ r'] exI [of _ h'] exI [of _ w'] exI [of _ os'] exI [of _ "[]"]) auto
    next
      case False
      have "unat bytes + 2 * 2 ^ j + 400 \<le> room w" using rm by (simp add: em_cost_def)
      with oversize_new_array [OF ok1 n j _ _ big] False show ?thesis by blast
    qed
    then obtain q r' h' w' os' ms where o: "do_allocate_in_oversize_page env bytes (2 ^ j) (r1, h, w) = Some (q, r', h', w')"
      "em_ok (r', h', w') ps os' ts ((unat q, unat bytes) # ms @ us) B" "2 ^ j dvd unat q" "room w \<le> room w' + (unat bytes + 2 * 2 ^ j + 400)" by blast
    have "room w \<le> room w' + em_cost psz (unat bytes) (2 ^ j)" using o(4) by (simp add: em_cost_def)
    then show ?thesis using o eq over(1) dov by (intro exI conjI) (simp, assumption, simp_all)
  qed
qed

end

end
