(* ===== verification/MonotonicBufferOps.thy ===== *)
theory MonotonicBufferOps
  imports MonotonicBufferSpec
begin

text \<open>
  Destructors, \<open>release\<close> and \<open>contains\<close> of the monotonic buffer resource, and sequences of operations: what is handed out never
  overlaps, and \<open>release\<close> runs every destructor once, newest first, and gives every block back once.
\<close>

lemma region_up_block [simp]: "region psz (up_block e) = (unat (os_page e), unat (os_bytes e))"
  by simp

lemma up_block_Page [simp]: "up_block e \<noteq> Page p" "Page p \<noteq> up_block e"
  by simp_all

declare up_block.simps [simp del]

context memory_source
begin

section \<open>Registration of destructors\<close>

lemma tget_put: "tget (put_task_array a x h) b = (if b = a then Some (dta_next x, dta_tasks x) else tget h b)"
  "pget (put_task_array a x h) = pget h" "oget (put_task_array a x h) = oget h"
  by (simp_all add: fun_eq_iff tget_def pget_def oget_def put_task_array_def)

lemma em_ok_tasks:
  assumes ok: "em_ok (r, h, w) ps os ts us B"
    and ch: "achain (tget (put_task_array a x h)) b i ts'" and arr: "set (em_arrays ps os ts') \<subseteq> set us"
  shows "em_ok (r\<lparr>em_last_destroy_task_array := b, em_last_destroy_task_pointer := i\<rparr>, put_task_array a x h, w) ps os ts' us B"
proof -
  have "em_ptrs (r\<lparr>em_last_destroy_task_array := b, em_last_destroy_task_pointer := i\<rparr>) ps us psz = em_ptrs r ps us psz"
    by (simp add: em_ptrs_def)
  then show ?thesis using ok ch arr by (simp add: em_ok_def em_chains_def tget_put)
qed

lemma register_push:
  assumes ok: "em_ok (r, h, w) ps os ts us B" and i: "0 < em_last_destroy_task_pointer r"
  shows "\<exists>r' h' ts'. register_destructor env ptr f (r, h, w) = Some (r', h', w) \<and> em_ok (r', h', w) ps os ts' us B
    \<and> entries ts' = \<lparr>dt_ptr = ptr, dt_destructor = f\<rparr> # entries ts"
proof -
  note d = em_okD [OF ok]
  let ?a = "em_last_destroy_task_array r"
  let ?i = "em_last_destroy_task_pointer r - 1"
  let ?t = "\<lparr>dt_ptr = ptr, dt_destructor = f\<rparr>"
  have ch: "achain (tget h) ?a (em_last_destroy_task_pointer r) ts" using d(4) by (simp add: em_chains_def)
  obtain es cs where c: "ts = (?a, es) # cs" using achain_pos [OF ch i] by blast
  obtain x where x: "eh_task_arrays h ?a = Some x" "length (dta_tasks x) = 15" "em_last_destroy_task_pointer r < 15"
    using ch unfolding c by (auto simp: tget_def)
  let ?x = "x\<lparr>dta_tasks := (dta_tasks x)[?i := Some ?t]\<rparr>"
  have ua: "?a \<notin> fst ` set cs" using ch achain_distinct unfolding c by blast
  have "achain (tget (put_task_array ?a ?x h)) ?a ?i ((?a, ?t # es) # cs)"
    using ch c ua x i by (intro achain_push [where g = "tget h" and nx = "dta_next x" and xs = "dta_tasks x"]) (auto simp: tget_put, auto simp: tget_def)
  moreover have "set (em_arrays ps os ((?a, ?t # es) # cs)) \<subseteq> set us" using d(12) by (auto simp: em_arrays_def c)
  ultimately have "em_ok (r\<lparr>em_last_destroy_task_array := ?a, em_last_destroy_task_pointer := ?i\<rparr>, put_task_array ?a ?x h, w) ps os
      ((?a, ?t # es) # cs) us B" by (rule em_ok_tasks [OF ok])
  moreover have "r\<lparr>em_last_destroy_task_array := ?a, em_last_destroy_task_pointer := ?i\<rparr> = r\<lparr>em_last_destroy_task_pointer := ?i\<rparr>" by simp
  moreover have "register_destructor env ptr f (r, h, w) = Some (r\<lparr>em_last_destroy_task_pointer := ?i\<rparr>, put_task_array ?a ?x h, w)"
  proof -
    have "?i < length (dta_tasks x)" using x(2,3) by simp
    then show ?thesis using i x(1) by (simp add: register_destructor_def get_destroy_task_def Let_def mem_write_def del: One_nat_def)
  qed
  ultimately show ?thesis
    by (intro exI [of _ "r\<lparr>em_last_destroy_task_pointer := ?i\<rparr>"] exI [of _ "put_task_array ?a ?x h"] exI [of _ "(?a, ?t # es) # cs"])
      (simp add: c)
qed

lemma register_new:
  assumes ok: "em_ok (r, h, w) ps os ts us B" and i: "em_last_destroy_task_pointer r = 0" and rm: "em_cost psz 248 8 \<le> room w"
  shows "\<exists>r' h' w' ps' os' ts' ms. register_destructor env ptr f (r, h, w) = Some (r', h', w') \<and> em_ok (r', h', w') ps' os' ts' (ms @ us) B
    \<and> entries ts' = \<lparr>dt_ptr = ptr, dt_destructor = f\<rparr> # entries ts \<and> room w \<le> room w' + em_cost psz 248 8"
proof -
  let ?t = "\<lparr>dt_ptr = ptr, dt_destructor = f\<rparr>"
  obtain a r1 h1 w1 ps' os' ms where a: "em_allocate env 248 (2 ^ 3) (r, h, w) = Some (a, r1, h1, w1)"
    "em_ok (r1, h1, w1) ps' os' ts ((unat a, 248) # ms @ us) B" "room w \<le> room w1 + em_cost psz 248 8"
    using em_allocate_ok [OF ok, of 248 3] rm by auto
  note d = em_okD [OF a(2)]
  have ch: "achain (tget h1) (em_last_destroy_task_array r1) 0 ts"
  proof -
    have 1: "achain (tget h1) (em_last_destroy_task_array r1) (em_last_destroy_task_pointer r1) ts" using d(4) by (simp add: em_chains_def)
    have 2: "achain (tget h) (em_last_destroy_task_array r) 0 ts" using em_okD(4) [OF ok] i by (simp add: em_chains_def)
    have "em_last_destroy_task_pointer r1 = 0" using achain_index [OF 1 2] by simp
    then show ?thesis using 1 by simp
  qed
  let ?x = "\<lparr>dta_next = em_last_destroy_task_array r1, dta_tasks = (replicate 15 None)[14 := Some ?t]\<rparr>"
  let ?r = "r1\<lparr>em_last_destroy_task_array := a, em_last_destroy_task_pointer := 14\<rparr>"
  have ia: "(unat a, 248) \<in> set ((unat a, 248) # ms @ us)" by simp
  then obtain b where b: "b \<in> set (own ps' os')" "inside (unat a, 248) (region psz b)" using d(9) unfolding carved_def by blast
  have a0: "a \<noteq> 0" using own_bounds(1) [OF a(2) b(1)] b(2) by (auto simp: inside_def)
  have ap: "apart (unat a, 248) v" if "v \<in> set (ms @ us)" for v using d(9) that by (auto simp: carved_def)
  have arr: "set (em_arrays ps' os' ts) \<subseteq> set ((unat a, 248) # ms @ us)" using d(12) .
  have fresh: "a \<notin> fst ` set ts"
    using ap by (intro array_fresh(3) [OF em_okD(12) [OF ok], of _ 248]) simp_all
  have "achain (tget (put_task_array a ?x h1)) a 14 ((a, [?t]) # ts)"
    using ch a0 fresh by (intro achain_new [where g = "tget h1" and a = "em_last_destroy_task_array r1" and xs = "dta_tasks ?x"])
      (auto simp: tget_put numeral_eq_Suc)
  moreover have "set (em_arrays ps' os' ((a, [?t]) # ts)) \<subseteq> set ((unat a, 248) # ms @ us)" using arr by (auto simp: em_arrays_def)
  ultimately have "em_ok (?r, put_task_array a ?x h1, w1) ps' os' ((a, [?t]) # ts) (((unat a, 248) # ms) @ us) B"
    using em_ok_tasks [OF a(2)] by simp
  moreover have "register_destructor env ptr f (r, h, w) = Some (?r, put_task_array a ?x h1, w1)"
    using i a(1) by (simp add: register_destructor_def get_destroy_task_def do_get_destroy_task_in_new_array_def Let_def mem_write_def
        sizeof_defs capacity_defs put_task_array_def)
  ultimately show ?thesis using a(3) by (intro exI conjI) (assumption, assumption, simp_all)
qed

lemma register_ok:
  assumes ok: "em_ok (r, h, w) ps os ts us B" and rm: "em_cost psz 248 8 \<le> room w"
  shows "\<exists>r' h' w' ps' os' ts' ms. register_destructor env ptr f (r, h, w) = Some (r', h', w') \<and> em_ok (r', h', w') ps' os' ts' (ms @ us) B
    \<and> entries ts' = \<lparr>dt_ptr = ptr, dt_destructor = f\<rparr> # entries ts \<and> room w \<le> room w' + em_cost psz 248 8"
proof (cases "0 < em_last_destroy_task_pointer r")
  case True
  obtain r' h' ts' where o: "register_destructor env ptr f (r, h, w) = Some (r', h', w)" "em_ok (r', h', w) ps os ts' us B"
    "entries ts' = \<lparr>dt_ptr = ptr, dt_destructor = f\<rparr> # entries ts" using register_push [OF ok True] by blast
  then show ?thesis
    by (intro exI [of _ r'] exI [of _ h'] exI [of _ w] exI [of _ ps] exI [of _ os] exI [of _ ts'] exI [of _ "[]"]) simp
next
  case False
  then show ?thesis using register_new [OF ok _ rm] by simp
qed

lemma em_run_ok:
  assumes "em_ok (r, h, w) ps os ts us B" and "list_all em_op_ok ops" and "sum_list (map (em_op_cost psz) ops) + c \<le> room w"
    and "subseq (got_regions got) us" and "\<forall>p n a. (p, n, a) \<in> set got \<longrightarrow> unat a dvd unat p"
  shows "\<exists>got' r' h' w' ps' os' ts' us'. em_run env ops got (r, h, w) = Some (got', r', h', w') \<and> em_ok (r', h', w') ps' os' ts' us' B
    \<and> entries ts' = rev (registered ops) @ entries ts \<and> subseq (got_regions got') us'
    \<and> (\<forall>p n a. (p, n, a) \<in> set got' \<longrightarrow> unat a dvd unat p) \<and> c \<le> room w'
    \<and> map snd got' = rev (requested ops) @ map snd got"
  using assms
proof (induction ops arbitrary: r h w ps os ts us got)
  case Nil
  then show ?case by auto
next
  case (Cons op ops)
  show ?case
  proof (cases op)
    case (Allocate bytes alignment)
    obtain j where j: "j \<le> 62" "alignment = 2 ^ j" and n: "0 < unat bytes" "unat bytes \<le> 2 ^ 62" using Cons.prems(2) Allocate by auto
    have uj: "unat alignment = 2 ^ j" using j by (simp add: unat_pow2)
    have rm: "em_cost psz (unat bytes) (2 ^ j) \<le> room w" using Cons.prems(3) Allocate uj by simp
    obtain q r1 h1 w1 ps1 os1 ms where a: "em_allocate env bytes (2 ^ j) (r, h, w) = Some (q, r1, h1, w1)"
      "em_ok (r1, h1, w1) ps1 os1 ts ((unat q, unat bytes) # ms @ us) B" "2 ^ j dvd unat q"
      "room w \<le> room w1 + em_cost psz (unat bytes) (2 ^ j)" using em_allocate_ok [OF Cons.prems(1) n j(1) rm] by blast
    have s: "subseq (got_regions ((q, bytes, alignment) # got)) ((unat q, unat bytes) # ms @ us)"
      using Cons.prems(4) by (simp add: got_regions_def subseq_drop_many)
    have al: "\<forall>p n a. (p, n, a) \<in> set ((q, bytes, alignment) # got) \<longrightarrow> unat a dvd unat p" using Cons.prems(5) a(3) uj by auto
    have "list_all em_op_ok ops" "sum_list (map (em_op_cost psz) ops) + c \<le> room w1" using Cons.prems(2,3) a(4) Allocate uj by simp_all
    from Cons.IH [OF a(2) this s al] obtain got' r' h' w' ps' os' ts' us' where
      "em_run env ops ((q, bytes, alignment) # got) (r1, h1, w1) = Some (got', r', h', w')" "em_ok (r', h', w') ps' os' ts' us' B"
      "entries ts' = rev (registered ops) @ entries ts" "subseq (got_regions got') us'" "\<forall>p n a. (p, n, a) \<in> set got' \<longrightarrow> unat a dvd unat p"
      "c \<le> room w'" "map snd got' = rev (requested ops) @ map snd ((q, bytes, alignment) # got)" by blast
    then show ?thesis using Allocate a(1) j(2)
      by (intro exI [of _ got'] exI [of _ r'] exI [of _ h'] exI [of _ w'] exI [of _ ps'] exI [of _ os'] exI [of _ ts'] exI [of _ us']) simp
  next
    case (Register ptr f)
    have rm: "em_cost psz 248 8 \<le> room w" using Cons.prems(3) Register by simp
    obtain r1 h1 w1 ps1 os1 ts1 ms where a: "register_destructor env ptr f (r, h, w) = Some (r1, h1, w1)"
      "em_ok (r1, h1, w1) ps1 os1 ts1 (ms @ us) B" "entries ts1 = \<lparr>dt_ptr = ptr, dt_destructor = f\<rparr> # entries ts"
      "room w \<le> room w1 + em_cost psz 248 8" using register_ok [OF Cons.prems(1) rm] by blast
    have s: "subseq (got_regions got) (ms @ us)" using Cons.prems(4) by (simp add: subseq_drop_many)
    have "list_all em_op_ok ops" "sum_list (map (em_op_cost psz) ops) + c \<le> room w1" using Cons.prems(2,3) a(4) Register by simp_all
    from Cons.IH [OF a(2) this s Cons.prems(5)] obtain got' r' h' w' ps' os' ts' us' where
      "em_run env ops got (r1, h1, w1) = Some (got', r', h', w')" "em_ok (r', h', w') ps' os' ts' us' B"
      "entries ts' = rev (registered ops) @ entries ts1" "subseq (got_regions got') us'" "\<forall>p n a. (p, n, a) \<in> set got' \<longrightarrow> unat a dvd unat p"
      "c \<le> room w'" "map snd got' = rev (requested ops) @ map snd got" by blast
    then show ?thesis using Register a(1,3)
      by (intro exI [of _ got'] exI [of _ r'] exI [of _ h'] exI [of _ w'] exI [of _ ps'] exI [of _ os'] exI [of _ ts'] exI [of _ us']) simp
  qed
qed

lemma em_ok_new:
  assumes "invar w"
  shows "em_ok (em_new pa up, h, w) [] [] [] [] (blocks w)"
  using assms by (simp add: em_ok_def em_new_def em_chains_def em_ptrs_def own_def carved_def em_arrays_def up_bytes_def UINT32_MAX_def)

section \<open>Release\<close>

lemma pget_Some: "pget h a = Some (nx, xs) \<longleftrightarrow> (\<exists>x. eh_page_arrays h a = Some x \<and> pg_next x = nx \<and> pg_pages x = xs)"
  by (auto simp: pget_def)

lemma oget_Some: "oget h a = Some (nx, xs) \<longleftrightarrow> (\<exists>x. eh_oversize_arrays h a = Some x \<and> osa_next x = nx \<and> osa_pages x = xs)"
  by (auto simp: oget_def)

lemma tget_Some: "tget h a = Some (nx, xs) \<longleftrightarrow> (\<exists>x. eh_task_arrays h a = Some x \<and> dta_next x = nx \<and> dta_tasks x = xs)"
  by (auto simp: tget_def)

lemma destruct_all_ok:
  assumes "achain (tget h) (em_last_destroy_task_array r) (em_last_destroy_task_pointer r) ts"
  shows "destruct_all (r, h, w) = Some (entries ts, r\<lparr>em_last_destroy_task_array := 0, em_last_destroy_task_pointer := 0\<rparr>, h, w)"
  using assms
proof (induction ts arbitrary: r)
  case Nil
  then have "r\<lparr>em_last_destroy_task_array := 0, em_last_destroy_task_pointer := 0\<rparr> = r" by simp
  then show ?case using Nil by (simp add: destruct_all.simps)
next
  case (Cons c cs)
  obtain a es where c: "c = (a, es)" by fastforce
  let ?r = "\<lambda>nx. r\<lparr>em_last_destroy_task_array := nx, em_last_destroy_task_pointer := 0\<rparr>"
  obtain x where x: "em_last_destroy_task_array r = a" "a \<noteq> 0" "eh_task_arrays h a = Some x"
    "drop (em_last_destroy_task_pointer r) (dta_tasks x) = map Some es" "achain (tget h) (dta_next x) 0 cs"
    using Cons.prems unfolding c achain.simps tget_Some by blast
  have "destruct_all (?r (dta_next x), h, w) = Some (entries cs, ?r 0, h, w)" using Cons.IH [of "?r (dta_next x)"] x(5) by simp
  then show ?case using x by (subst destruct_all.simps) (simp add: c)
qed

lemma pget_end_lifetimes:
  "pget (fold (\<lambda>p. end_lifetime p n) qs h) a = (if \<exists>p\<in>set qs. in_block p n a then None else pget h a)"
  by (induction qs arbitrary: h) (auto simp: pget_def end_lifetime_def)

lemma oget_end_lifetimes:
  "oget (fold (\<lambda>p. end_lifetime p n) qs h) a = (if \<exists>p\<in>set qs. in_block p n a then None else oget h a)"
  by (induction qs arbitrary: h) (auto simp: oget_def end_lifetime_def)

lemma oget_end_lifetime: "oget (end_lifetime p n h) a = (if in_block p n a then None else oget h a)"
  by (simp add: oget_def end_lifetime_def)

lemma not_in_block:
  assumes "apart (unat p, unat n) v" and "inside (unat a, m) v" and "0 < m"
  shows "\<not> in_block p n a"
  using assms by (auto simp: apart_def inside_def in_block_def)

lemma located_mem: "located psz cs \<Longrightarrow> b \<in> fst ` set cs \<Longrightarrow> \<exists>q\<in>set (entries cs). inside (unat b, 128) (unat q, psz)"
proof (induction cs)
  case (Cons c cs)
  then show ?case by (cases c) auto
qed simp

lemma olocated_mem:
  "olocated cs \<Longrightarrow> b \<in> fst ` set cs \<Longrightarrow> \<exists>e\<in>set (entries cs). inside (unat b, 368) (region psz (up_block e))"
proof (induction cs)
  case (Cons c cs)
  then show ?case by (cases c) auto
qed simp

lemma release_pages_ok:
  assumes "achain (pget h) (em_last_page_array r) (em_last_page_pointer r) ps" and "located psz ps" and "invar w"
    and "distinct (entries ps)" and "Page ` set (entries ps) \<subseteq> blocks w" and "length (entries ps) \<le> room w" and "em_page_allocator r = pa"
  shows "\<exists>h' w'. release_pages env (r, h, w) = Some (r\<lparr>em_last_page_array := 0, em_last_page_pointer := 0,
      em_last_page_allocated := (if ps = [] then em_last_page_allocated r else UINT32_MAX)\<rparr>, h', w')
    \<and> invar w' \<and> blocks w' = blocks w - Page ` set (entries ps) \<and> room w \<le> room w' + length (entries ps)
    \<and> (\<forall>a. (\<forall>p\<in>set (entries ps). \<not> in_block p (of_nat psz) a) \<longrightarrow> oget h' a = oget h a)"
  using assms
proof (induction ps arbitrary: r h w)
  case Nil
  then have "r\<lparr>em_last_page_array := 0, em_last_page_pointer := 0\<rparr> = r" by simp
  then show ?case using Nil by (simp add: release_pages.simps)
next
  case (Cons c cs)
  obtain a es where c: "c = (a, es)" by fastforce
  obtain x where x: "em_last_page_array r = a" "a \<noteq> 0" "eh_page_arrays h a = Some x"
    "drop (em_last_page_pointer r) (pg_pages x) = map Some es" "achain (pget h) (pg_next x) 0 cs"
    using Cons.prems(1) unfolding c achain.simps pget_Some by blast
  have pw: "ms_page_size env (em_page_allocator r) w = of_nat psz" using page_size_word Cons.prems(3,7) by simp
  have up: "unat (of_nat psz :: u64) = psz" using psz_bounds(2) [OF Cons.prems(3)] by (intro unat_of_nat_small) simp
  have des: "distinct es" "Page ` set es \<subseteq> blocks w" "length es \<le> room w" using Cons.prems(4-6) c by auto
  obtain w1 where w1: "ms_page_deallocate env pa es w = Some w1" "invar w1" "blocks w1 = blocks w - Page ` set es" "room w \<le> room w1 + length es"
    using page_deallocate [OF Cons.prems(3) des] by blast
  let ?h = "fold (\<lambda>p. end_lifetime p (of_nat psz)) es h"
  let ?r = "r\<lparr>em_last_page_array := pg_next x, em_last_page_pointer := 0, em_last_page_allocated := UINT32_MAX\<rparr>"
  have lcs: "located psz cs" using Cons.prems(2) c by simp
  have "pget ?h b = pget h b" if b: "b \<in> fst ` set cs" for b
  proof -
    obtain q where q: "q \<in> set (entries cs)" "inside (unat b, 128) (unat q, psz)" using located_mem [OF lcs b] by blast
    have "\<not> in_block p (of_nat psz) b" if "p \<in> set es" for p
    proof -
      have "p \<noteq> q" using Cons.prems(4) c that q(1) by auto
      then have "apart (unat p, psz) (unat q, psz)"
        using blocks_apart [OF Cons.prems(3), of "Page p" "Page q"] Cons.prems(5) c that q(1) by auto
      then show ?thesis using not_in_block [of p "of_nat psz"] q(2) up by simp
    qed
    then show ?thesis by (auto simp: pget_end_lifetimes)
  qed
  then have ch: "achain (pget ?h) (em_last_page_array ?r) (em_last_page_pointer ?r) cs" using x(5) achain_cong [of cs "pget ?h" "pget h"] by simp
  have i: "distinct (entries cs)" "Page ` set (entries cs) \<subseteq> blocks w1" "length (entries cs) \<le> room w1" "em_page_allocator ?r = pa"
    using Cons.prems(4-7) c w1(3,4) by auto
  from Cons.IH [OF ch lcs w1(2) i] obtain h' w' where o: "release_pages env (?r, ?h, w1) = Some (?r\<lparr>em_last_page_array := 0, em_last_page_pointer := 0,
      em_last_page_allocated := (if cs = [] then em_last_page_allocated ?r else UINT32_MAX)\<rparr>, h', w')"
    "invar w'" "blocks w' = blocks w1 - Page ` set (entries cs)"
    "\<forall>a. (\<forall>p\<in>set (entries cs). \<not> in_block p (of_nat psz) a) \<longrightarrow> oget h' a = oget ?h a" "room w1 \<le> room w' + length (entries cs)" by blast
  have "release_pages env (r, h, w) = release_pages env (?r, ?h, w1)"
    using x w1(1) Cons.prems(7) pw by (subst release_pages.simps) (simp add: Let_def)
  then have "release_pages env (r, h, w) = Some (r\<lparr>em_last_page_array := 0, em_last_page_pointer := 0, em_last_page_allocated := UINT32_MAX\<rparr>, h', w')"
    using o(1) by simp
  moreover have "blocks w' = blocks w - Page ` set (entries (c # cs))" using o(3) w1(3) c by auto
  moreover have "oget h' b = oget h b" if "\<forall>p\<in>set (entries (c # cs)). \<not> in_block p (of_nat psz) b" for b
    using that o(4) c by (auto simp: oget_end_lifetimes)
  moreover have "room w \<le> room w' + length (entries (c # cs))" using w1(4) o(5) c by simp
  ultimately show ?case using o(2) by (intro exI [of _ h'] exI [of _ w']) simp
qed

lemma release_oversize_entries_ok:
  assumes "oget h a = Some (nx, xs) \<or> es = []" and "length xs = 15" and "drop i xs = map Some es" and "i \<le> 15" and "invar w"
    and "distinct (map up_block es)" and "up_block ` set es \<subseteq> blocks w"
    and "es \<noteq> [] \<longrightarrow> inside (unat a, 368) (region psz (up_block (last es)))"
  shows "\<exists>h' w'. release_oversize_entries env up a i (h, w) = Some (h', w') \<and> invar w' \<and> blocks w' = blocks w - up_block ` set es \<and> room w \<le> room w'
    \<and> (\<forall>b. (\<forall>e\<in>set es. \<not> in_block (os_page e) (os_bytes e) b) \<longrightarrow> oget h' b = oget h b)"
  using assms
proof (induction es arbitrary: h i w)
  case Nil
  then have "i = 15" by simp
  then show ?case using Nil by (subst release_oversize_entries.simps) (simp add: capacity_defs)
next
  case (Cons e es)
  have i: "i < 15" using Cons.prems(2,3) by (cases "i < 15") auto
  then have xi: "xs ! i = Some e" "drop (Suc i) xs = map Some es" using Cons.prems(2,3) by (auto simp: Cons_nth_drop_Suc [symmetric])
  obtain x where x: "eh_oversize_arrays h a = Some x" "osa_pages x = xs" using Cons.prems(1) by (auto simp: oget_def)
  obtain w1 where w1: "ms_deallocate env up (os_page e) (os_bytes e) (os_alignment e) w = Some w1" "invar w1"
    "blocks w1 = blocks w - {up_block e}" "room w \<le> room w1"
    using deallocate [OF Cons.prems(5), of "os_page e" "os_bytes e" "os_alignment e"] Cons.prems(7) by (auto simp: up_block.simps)
  let ?h = "end_lifetime (os_page e) (os_bytes e) h"
  have a: "oget ?h a = Some (nx, xs) \<or> es = []"
  proof (cases "es = []")
    case False
    have "up_block e \<noteq> up_block (last es)" using Cons.prems(6) False by (metis distinct.simps(2) last_in_set list.set_map list.simps(9) image_eqI)
    then have "apart (region psz (up_block e)) (region psz (up_block (last es)))"
      using blocks_apart [OF Cons.prems(5)] Cons.prems(7) False by (meson image_subset_iff last_in_set list.set_intros)
    then have "\<not> in_block (os_page e) (os_bytes e) a" using Cons.prems(8) False by (intro not_in_block) auto
    then show ?thesis using Cons.prems(1) by (simp add: oget_end_lifetime)
  qed simp
  have "up_block e \<notin> up_block ` set es" "distinct (map up_block es)" using Cons.prems(6) by simp_all
  moreover from this(1) have "up_block ` set es \<subseteq> blocks w1" using Cons.prems(7) w1(3) by simp blast
  moreover have "es \<noteq> [] \<longrightarrow> inside (unat a, 368) (region psz (up_block (last es)))" using Cons.prems(8) by auto
  ultimately obtain h' w' where o: "release_oversize_entries env up a (Suc i) (?h, w1) = Some (h', w')" "invar w'"
    "blocks w' = blocks w1 - up_block ` set es" "\<forall>b. (\<forall>e\<in>set es. \<not> in_block (os_page e) (os_bytes e) b) \<longrightarrow> oget h' b = oget ?h b" "room w1 \<le> room w'"
    using Cons.IH [OF a Cons.prems(2) xi(2) _ w1(2)] i by auto
  have "release_oversize_entries env up a i (h, w) = Some (h', w')"
    using i x xi(1) w1(1) o(1) Cons.prems(2) by (subst release_oversize_entries.simps) (simp add: capacity_defs mem_read_def)
  moreover have "blocks w' = blocks w - up_block ` set (e # es)" using o(3) w1(3) by auto
  moreover have "oget h' b = oget h b" if "\<forall>e\<in>set (e # es). \<not> in_block (os_page e) (os_bytes e) b" for b
    using that o(4) by (auto simp: oget_end_lifetime)
  moreover have "room w \<le> room w'" using w1(4) o(5) by simp
  ultimately show ?case using o(2) by (intro exI [of _ h'] exI [of _ w']) blast
qed

lemma release_oversize_pages_ok:
  assumes "achain (oget h) (em_last_oversize_page_array r) (em_last_oversize_page_pointer r) os" and "olocated os" and "invar w"
    and "distinct (map up_block (entries os))" and "up_block ` set (entries os) \<subseteq> blocks w" and "em_upstream r = up"
  shows "\<exists>h' w'. release_oversize_pages env (r, h, w) = Some (r\<lparr>em_last_oversize_page_array := 0, em_last_oversize_page_pointer := 0\<rparr>, h', w')
    \<and> invar w' \<and> blocks w' = blocks w - up_block ` set (entries os) \<and> room w \<le> room w'"
  using assms
proof (induction os arbitrary: r h w)
  case Nil
  then have "r\<lparr>em_last_oversize_page_array := 0, em_last_oversize_page_pointer := 0\<rparr> = r" by simp
  then show ?case using Nil by (simp add: release_oversize_pages.simps)
next
  case (Cons c cs)
  obtain a es where c: "c = (a, es)" by fastforce
  obtain nx xs where g: "em_last_oversize_page_array r = a" "a \<noteq> 0" "em_last_oversize_page_pointer r < 15" "oget h a = Some (nx, xs)" "length xs = 15"
    "drop (em_last_oversize_page_pointer r) xs = map Some es" "achain (oget h) nx 0 cs"
    using Cons.prems(1) unfolding c achain.simps by blast
  obtain x where x: "eh_oversize_arrays h a = Some x" "osa_next x = nx" using g(4) oget_Some by blast
  have es: "distinct (map up_block es)" "up_block ` set es \<subseteq> blocks w"
      "distinct (map up_block (entries cs))" "up_block ` set (entries cs) \<subseteq> blocks w" "up_block ` set es \<inter> up_block ` set (entries cs) = {}"
    using Cons.prems(4,5) by (auto simp: c)
  have loc: "es \<noteq> [] \<longrightarrow> inside (unat a, 368) (region psz (up_block (last es)))" "olocated cs" using Cons.prems(2) c by simp_all
  obtain h1 w1 where e: "release_oversize_entries env up a (em_last_oversize_page_pointer r) (h, w) = Some (h1, w1)" "invar w1"
    "blocks w1 = blocks w - up_block ` set es" "\<forall>b. (\<forall>e\<in>set es. \<not> in_block (os_page e) (os_bytes e) b) \<longrightarrow> oget h1 b = oget h b" "room w \<le> room w1"
    using release_oversize_entries_ok [OF disjI1 [OF g(4)] g(5,6) _ Cons.prems(3) es(1,2) loc(1)] g(3) by auto
  have "oget h1 b = oget h b" if b: "b \<in> fst ` set cs" for b
  proof -
    obtain f where f: "f \<in> set (entries cs)" "inside (unat b, 368) (region psz (up_block f))" using olocated_mem [OF loc(2) b] by blast
    have "\<not> in_block (os_page e) (os_bytes e) b" if "e \<in> set es" for e
    proof -
      have "up_block e \<noteq> up_block f" using es(5) that f(1) by blast
      then have "apart (region psz (up_block e)) (region psz (up_block f))"
        using blocks_apart [OF Cons.prems(3)] es(2,4) that f(1) by blast
      then show ?thesis using f(2) by (intro not_in_block) auto
    qed
    then show ?thesis using e(4) by blast
  qed
  then have ch: "achain (oget h1) nx 0 cs" using g(7) achain_cong [of cs "oget h1" "oget h"] by simp
  let ?r = "r\<lparr>em_last_oversize_page_array := nx, em_last_oversize_page_pointer := 0\<rparr>"
  have "up_block ` set (entries cs) \<subseteq> blocks w1" using es(4,5) e(3) by blast
  with Cons.IH [of h1 ?r w1] ch loc(2) e(2) es(3) Cons.prems(6) obtain h' w' where
    o: "release_oversize_pages env (?r, h1, w1) = Some (?r\<lparr>em_last_oversize_page_array := 0, em_last_oversize_page_pointer := 0\<rparr>, h', w')" "invar w'"
      "blocks w' = blocks w1 - up_block ` set (entries cs)" "room w1 \<le> room w'" by auto
  have "release_oversize_pages env (r, h, w) = release_oversize_pages env (?r, h1, w1)"
    using g x e(1) Cons.prems(6) by (subst release_oversize_pages.simps) simp
  moreover have "blocks w' = blocks w - up_block ` set (entries (c # cs))" using o(3) e(3) c by auto
  moreover have "room w \<le> room w'" using e(5) o(4) by simp
  ultimately show ?case using o(1,2) by (intro exI [of _ h'] exI [of _ w']) simp
qed

lemma em_release_ok:
  assumes ok: "em_ok (r, h, w) ps os ts us B" and rm: "length (entries ps) \<le> room w"
  shows "\<exists>r' h' w'. em_release env (r, h, w) = Some (entries ts, r', h', w') \<and> invar w' \<and> blocks w' = B
    \<and> r'\<lparr>em_last_page_allocated := UINT32_MAX\<rparr> = em_new pa up \<and> 2 ^ 32 - 1 \<le> unat (em_last_page_allocated r')
    \<and> room w \<le> room w' + length (entries ps) \<and> em_ok (r', h', w') [] [] [] [] B"
proof -
  note d = em_okD [OF ok]
  have chs: "achain (pget h) (em_last_page_array r) (em_last_page_pointer r) ps" "achain (oget h) (em_last_oversize_page_array r) (em_last_oversize_page_pointer r) os"
    "achain (tget h) (em_last_destroy_task_array r) (em_last_destroy_task_pointer r) ts" using d(4) by (simp_all add: em_chains_def)
  define r1 where "r1 = r\<lparr>em_last_destroy_task_array := 0, em_last_destroy_task_pointer := 0\<rparr>"
  have t: "destruct_all (r, h, w) = Some (entries ts, r1, h, w)" unfolding r1_def by (rule destruct_all_ok [OF chs(3)])
  have pg: "distinct (entries ps)" "Page ` set (entries ps) \<subseteq> blocks w"
    using d(6,7) by (auto simp: own_def distinct_map)
  have ov: "distinct (map up_block (entries os))" "up_block ` set (entries os) \<subseteq> blocks w"
    using d(6,7) by (auto simp: own_def)
  define r2 where "r2 = r1\<lparr>em_last_page_array := 0, em_last_page_pointer := 0,
      em_last_page_allocated := (if ps = [] then em_last_page_allocated r1 else UINT32_MAX)\<rparr>"
  obtain h1 w1 where p: "release_pages env (r1, h, w) = Some (r2, h1, w1)" "invar w1" "blocks w1 = blocks w - Page ` set (entries ps)"
    "\<forall>a. (\<forall>p\<in>set (entries ps). \<not> in_block p (of_nat psz) a) \<longrightarrow> oget h1 a = oget h a" "room w \<le> room w1 + length (entries ps)"
    unfolding r2_def using release_pages_ok [of h r1 ps w] chs(1) d(1,3,10) pg rm by (auto simp: r1_def)
  have up: "unat (of_nat psz :: u64) = psz" using psz_bounds(2) [OF d(3)] by (intro unat_of_nat_small) simp
  have "oget h1 b = oget h b" if b: "b \<in> fst ` set os" for b
  proof -
    obtain f where f: "f \<in> set (entries os)" "inside (unat b, 368) (region psz (up_block f))" using olocated_mem [OF d(11) b] by blast
    have "\<not> in_block q (of_nat psz) b" if "q \<in> set (entries ps)" for q
    proof -
      have "apart (region psz (Page q)) (region psz (up_block f))"
        using pg(2) ov(2) that f(1) by (intro blocks_apart [OF d(3)]) auto
      then show ?thesis using f(2) up by (intro not_in_block) auto
    qed
    then show ?thesis using p(4) by blast
  qed
  then have ch: "achain (oget h1) (em_last_oversize_page_array r) (em_last_oversize_page_pointer r) os"
    using chs(2) achain_cong [of os "oget h1" "oget h"] by simp
  define r3 where "r3 = r2\<lparr>em_last_page := 0\<rparr>"
  have "up_block ` set (entries os) \<subseteq> blocks w1" using ov(2) p(3) by auto
  then obtain h' w' where o: "release_oversize_pages env (r3, h1, w1) =
      Some (r3\<lparr>em_last_oversize_page_array := 0, em_last_oversize_page_pointer := 0\<rparr>, h', w')" "invar w'"
      "blocks w' = blocks w1 - up_block ` set (entries os)" "room w1 \<le> room w'"
    using release_oversize_pages_ok [of h1 r3 os w1] ch d(2,11) p(2) ov(1) by (auto simp: r3_def r2_def r1_def)
  let ?r = "r3\<lparr>em_last_oversize_page_array := 0, em_last_oversize_page_pointer := 0, em_space_used := 0, em_space_allocated := 0\<rparr>"
  have "em_release env (r, h, w) = Some (entries ts, ?r, h', w')" using t p(1) o(1) by (simp add: em_release_def r3_def)
  moreover have "blocks w' = B" using o(3) p(3) d(7,8) by (auto simp: own_def)
  moreover have "?r\<lparr>em_last_page_allocated := UINT32_MAX\<rparr> = em_new pa up"
    using d(1,2) by (simp add: r3_def r2_def r1_def em_new_def)
  moreover have "2 ^ 32 - 1 \<le> unat (em_last_page_allocated ?r)"
    using d(5) by (auto simp: r3_def r2_def r1_def em_ptrs_def UINT32_MAX_def)
  moreover have "room w \<le> room w' + length (entries ps)" using p(5) o(4) by simp
  moreover have "em_ok (?r, h', w') [] [] [] [] B"
    using d(1,2,5) o(2) \<open>blocks w' = B\<close>
    by (auto simp: em_ok_def r3_def r2_def r1_def em_ptrs_def em_chains_def UINT32_MAX_def own_def carved_def em_arrays_def up_bytes_def)
  ultimately show ?thesis using o(2) by blast
qed

section \<open>Contains\<close>

fun hits :: "u64 \<Rightarrow> u64 list \<Rightarrow> u64 \<Rightarrow> bool" where
  "hits ptr [] sz = False"
| "hits ptr (p # ps) sz \<longleftrightarrow> (p \<le> ptr \<and> ptr < p + sz) \<or> hits ptr ps (of_nat psz)"

lemma hits_append: "hits ptr (es @ ps) sz \<longleftrightarrow> hits ptr es sz \<or> hits ptr ps (if es = [] then sz else of_nat psz)"
  by (induction es arbitrary: sz) auto

lemma contains_in_pages_eq:
  "\<exists>sz'. contains_in_pages (of_nat psz) ptr (map Some es) sz = Some (hits ptr es sz, sz')
    \<and> (\<not> hits ptr es sz \<longrightarrow> sz' = (if es = [] then sz else of_nat psz))"
proof (induction es arbitrary: sz)
  case (Cons p es)
  show ?case using Cons.IH [of "of_nat psz"] by (cases "p \<le> ptr \<and> ptr < p + sz") auto
qed simp

lemma contains_pages_eq:
  "achain (pget h) a i ps \<Longrightarrow> contains_pages h (of_nat psz) ptr a i sz = Some (hits ptr (entries ps) sz)"
proof (induction ps arbitrary: a i sz)
  case Nil
  then show ?case by (simp add: contains_pages.simps)
next
  case (Cons c cs)
  obtain b es where c: "c = (b, es)" by fastforce
  obtain nx xs where g: "a = b" "a \<noteq> 0" "pget h a = Some (nx, xs)" "drop i xs = map Some es" "achain (pget h) nx 0 cs"
    using Cons.prems unfolding c achain.simps by blast
  obtain x where x: "eh_page_arrays h a = Some x" "pg_next x = nx" "pg_pages x = xs" using g(3) pget_Some by blast
  obtain sz' where "contains_in_pages (of_nat psz) ptr (map Some es) sz = Some (hits ptr es sz, sz')"
    "\<not> hits ptr es sz \<longrightarrow> sz' = (if es = [] then sz else of_nat psz)" using contains_in_pages_eq by blast
  then show ?case
    using g x Cons.IH [OF g(5)] by (subst contains_pages.simps) (simp add: c hits_append)
qed

definition os_hit :: "u64 \<Rightarrow> OversizePage \<Rightarrow> bool" where
  "os_hit ptr e \<longleftrightarrow> os_page e \<le> ptr \<and> ptr < os_page e + os_bytes e"

lemma contains_in_oversize_eq: "contains_in_oversize ptr (map Some es) = Some (\<exists>e\<in>set es. os_hit ptr e)"
  by (induction es) (auto simp: os_hit_def)

lemma contains_oversize_eq: "achain (oget h) a i os \<Longrightarrow> contains_oversize h ptr a i = Some (\<exists>e\<in>set (entries os). os_hit ptr e)"
proof (induction os arbitrary: a i)
  case Nil
  then show ?case by (simp add: contains_oversize.simps)
next
  case (Cons c cs)
  obtain b es where c: "c = (b, es)" by fastforce
  obtain nx xs where g: "a = b" "a \<noteq> 0" "oget h a = Some (nx, xs)" "drop i xs = map Some es" "achain (oget h) nx 0 cs"
    using Cons.prems unfolding c achain.simps by blast
  obtain x where x: "eh_oversize_arrays h a = Some x" "osa_next x = nx" "osa_pages x = xs" using g(3) oget_Some by blast
  show ?case
    using g x contains_in_oversize_eq [of ptr es] Cons.IH [OF g(5)] by (subst contains_oversize.simps) (auto simp: c)
qed

lemma in_range_iff:
  assumes "unat p + unat n < 2 ^ 64"
  shows "p \<le> ptr \<and> ptr < p + n \<longleftrightarrow> in_block p n (ptr :: u64)"
proof -
  have "unat (p + n) = unat p + unat n" using assms by (intro unat_add_small) simp
  then show ?thesis by (simp add: in_block_def word_le_nat_alt word_less_nat_alt)
qed

lemma hits_tl:
  assumes "invar w" and "\<And>p. p \<in> set qs \<Longrightarrow> unat p + psz < 2 ^ 64"
  shows "hits ptr qs (of_nat psz) \<longleftrightarrow> (\<exists>p\<in>set qs. in_block p (of_nat psz) ptr)"
proof -
  have up: "unat (of_nat psz :: u64) = psz" using psz_bounds(2) [OF assms(1)] by (intro unat_of_nat_small) simp
  show ?thesis using assms(2)
  proof (induction qs)
    case (Cons p qs)
    have "p \<le> ptr \<and> ptr < p + of_nat psz \<longleftrightarrow> in_block p (of_nat psz) ptr" using Cons.prems [of p] up by (intro in_range_iff) simp
    then show ?case using Cons by simp
  qed simp
qed

lemma em_contains_eq:
  assumes ok: "em_ok (r, h, w) ps os ts us B" and la: "ps \<noteq> [] \<longrightarrow> unat (em_last_page_allocated r) \<le> psz"
  shows "em_contains env ptr (r, h, w) = Some
    ((ps \<noteq> [] \<and> (in_block (em_last_page r) (em_last_page_allocated r) ptr \<or> (\<exists>p\<in>set (tl (entries ps)). in_block p (of_nat psz) ptr)))
     \<or> (\<exists>e\<in>set (entries os). in_block (os_page e) (os_bytes e) ptr))"
proof -
  note d = em_okD [OF ok]
  have chs: "achain (pget h) (em_last_page_array r) (em_last_page_pointer r) ps"
    "achain (oget h) (em_last_oversize_page_array r) (em_last_oversize_page_pointer r) os" using d(4) by (simp_all add: em_chains_def)
  have pw: "ms_page_size env (em_page_allocator r) w = of_nat psz" using page_size_word [OF d(3)] d(1) by simp
  have bp: "unat p + psz < 2 ^ 64" if "p \<in> set (entries ps)" for p using own_bounds(2) [OF ok, of "Page p"] that by (simp add: own_def)
  have be: "unat (os_page e) + unat (os_bytes e) < 2 ^ 64" if "e \<in> set (entries os)" for e
    using own_bounds(2) [OF ok, of "up_block e"] that by (simp add: own_def)
  have e: "(\<exists>e\<in>set (entries os). os_hit ptr e) \<longleftrightarrow> (\<exists>e\<in>set (entries os). in_block (os_page e) (os_bytes e) ptr)"
    using in_range_iff [OF be] by (auto simp: os_hit_def)
  have "hits ptr (entries ps) (em_last_page_allocated r) \<longleftrightarrow>
    ps \<noteq> [] \<and> (in_block (em_last_page r) (em_last_page_allocated r) ptr \<or> (\<exists>p\<in>set (tl (entries ps)). in_block p (of_nat psz) ptr))"
  proof (cases "ps = []")
    case False
    have lp: "em_last_page r \<in> set (entries ps)" by (rule last_page_own [OF ok False])
    have "em_last_page r = hd (entries ps)" using d(5) False by (simp add: em_ptrs_def)
    then obtain qs where qs: "entries ps = em_last_page r # qs" using lp by (cases "entries ps") auto
    have "em_last_page r \<le> ptr \<and> ptr < em_last_page r + em_last_page_allocated r \<longleftrightarrow> in_block (em_last_page r) (em_last_page_allocated r) ptr"
      using bp [OF lp] la False by (intro in_range_iff) simp
    moreover have "hits ptr qs (of_nat psz) \<longleftrightarrow> (\<exists>p\<in>set qs. in_block p (of_nat psz) ptr)" using bp qs by (intro hits_tl [OF d(3)]) simp
    ultimately show ?thesis using qs False by simp
  qed simp
  then show ?thesis using pw e contains_pages_eq [OF chs(1)] contains_oversize_eq [OF chs(2)] by (simp add: em_contains_def)
qed

end

end
