(* ===== verification/PageProvider.thy ===== *)
theory PageProvider
  imports PageCache MonotonicBufferOps
begin

text \<open>
  The contract of the page allocators.

  \<^item> \<open>heap_spec\<close> is what the program relies on of the aligned operator new and the sized operator delete; \<open>bump_ops\<close> shows that it
    can be met.
  \<^item> \<open>page_provider\<close> is the contract of a \<open>PageAllocator\<close>: a page is never handed out twice before it is given back.
  \<^item> Over a provider the cached, the counting and the batch allocator are providers again; over the heap \<open>NewDeletePageAllocator\<close>,
    \<open>SystemPageAllocator\<close> and \<open>PageHeap\<close> are.
\<close>

section \<open>The heap\<close>

type_synonym heap_block = "u64 \<times> u64 \<times> u64"

definition heap_region :: "heap_block \<Rightarrow> nat \<times> nat" where
  "heap_region x = (unat (fst x), unat (fst (snd x)))"

definition blocks_wf :: "heap_block set \<Rightarrow> bool" where
  "blocks_wf X \<longleftrightarrow>
     (\<forall>p n a. (p, n, a) \<in> X \<longrightarrow> 0 < unat p \<and> 0 < unat n \<and> unat p + unat n < 2 ^ 64 \<and> unat a dvd unat p) \<and>
     (\<forall>x\<in>X. \<forall>y\<in>X. x \<noteq> y \<longrightarrow> apart (heap_region x) (heap_region y))"

text \<open>
  \<open>blocks h\<close>: what is allocated, with size and alignment. \<open>room h\<close>: how much can still be asked for; a request succeeds when there
  is room for it, and what is given back need not be usable again.
\<close>

definition heap_spec :: "'h heap_ops \<Rightarrow> ('h \<Rightarrow> bool) \<Rightarrow> ('h \<Rightarrow> heap_block set) \<Rightarrow> ('h \<Rightarrow> nat) \<Rightarrow> bool" where
  "heap_spec ops valid blocks room \<longleftrightarrow>
     (\<forall>h. valid h \<longrightarrow> blocks_wf (blocks h)) \<and>
     (\<forall>h n j. valid h \<longrightarrow> 0 < unat n \<longrightarrow> j < 64 \<longrightarrow> unat n + 2 ^ j \<le> room h \<longrightarrow>
        (\<exists>p h'. hp_new ops n (2 ^ j) h = Some (p, h') \<and> valid h' \<and> (p, n, 2 ^ j) \<notin> blocks h
           \<and> blocks h' = insert (p, n, 2 ^ j) (blocks h) \<and> room h \<le> room h' + unat n + 2 ^ j)) \<and>
     (\<forall>h p n a. valid h \<longrightarrow> (p, n, a) \<in> blocks h \<longrightarrow>
        (\<exists>h'. hp_delete ops p n a h = Some h' \<and> valid h' \<and> blocks h' = blocks h - {(p, n, a)} \<and> room h \<le> room h'))"

lemma heap_specD:
  assumes "heap_spec ops valid blocks room" and "valid h"
  shows "blocks_wf (blocks h)"
    and "0 < unat n \<Longrightarrow> j < 64 \<Longrightarrow> unat n + 2 ^ j \<le> room h \<Longrightarrow> \<exists>p h'. hp_new ops n (2 ^ j) h = Some (p, h') \<and> valid h'
      \<and> (p, n, 2 ^ j) \<notin> blocks h \<and> blocks h' = insert (p, n, 2 ^ j) (blocks h) \<and> room h \<le> room h' + unat n + 2 ^ j"
    and "(p, n, a) \<in> blocks h \<Longrightarrow> \<exists>h'. hp_delete ops p n a h = Some h' \<and> valid h' \<and> blocks h' = blocks h - {(p, n, a)} \<and> room h \<le> room h'"
  using assms unfolding heap_spec_def by blast+

text \<open>A heap that never reuses memory.\<close>

record bump_heap =
  bh_next :: nat
  bh_blocks :: "heap_block list"

definition bump_new :: "u64 \<Rightarrow> u64 \<Rightarrow> bump_heap \<Rightarrow> (u64 \<times> bump_heap) option" where
  "bump_new n a h = (let p = nat_align_up (bh_next h) (unat a) in
     if p + unat n < 2 ^ 64
     then Some (of_nat p, \<lparr>bh_next = p + unat n, bh_blocks = (of_nat p, n, a) # bh_blocks h\<rparr>) else None)"

definition bump_delete :: "u64 \<Rightarrow> u64 \<Rightarrow> u64 \<Rightarrow> bump_heap \<Rightarrow> bump_heap option" where
  "bump_delete p n a h = (if (p, n, a) \<in> set (bh_blocks h) then Some (h\<lparr>bh_blocks := removeAll (p, n, a) (bh_blocks h)\<rparr>) else None)"

definition bump_ops :: "bump_heap heap_ops" where
  "bump_ops = \<lparr>hp_new = bump_new, hp_delete = bump_delete\<rparr>"

definition bump_valid :: "bump_heap \<Rightarrow> bool" where
  "bump_valid h \<longleftrightarrow> 0 < bh_next h \<and> blocks_wf (set (bh_blocks h)) \<and> (\<forall>x\<in>set (bh_blocks h). fst (heap_region x) + snd (heap_region x) \<le> bh_next h)"

definition bump_room :: "bump_heap \<Rightarrow> nat" where
  "bump_room h = 2 ^ 64 - 1 - bh_next h"

definition bump_init :: bump_heap where
  "bump_init = \<lparr>bh_next = 4096, bh_blocks = []\<rparr>"

lemma blocks_wf_insert:
  assumes "blocks_wf X" and "0 < unat p" and "0 < unat n" and "unat p + unat n < 2 ^ 64" and "unat a dvd unat p"
    and "\<And>y. y \<in> X \<Longrightarrow> apart (unat p, unat n) (heap_region y)"
  shows "blocks_wf (insert (p, n, a) X)"
  using assms apart_sym unfolding blocks_wf_def by (auto simp: heap_region_def)

lemma blocks_wf_mem:
  assumes "blocks_wf X" and "(p, n, a) \<in> X"
  shows "0 < unat p" "0 < unat n" "unat p + unat n < 2 ^ 64" "unat a dvd unat p"
  using assms unfolding blocks_wf_def by blast+

lemma blocks_wf_apart: "blocks_wf X \<Longrightarrow> x \<in> X \<Longrightarrow> y \<in> X \<Longrightarrow> x \<noteq> y \<Longrightarrow> apart (heap_region x) (heap_region y)"
  unfolding blocks_wf_def by blast

lemma blocks_wf_subset: "blocks_wf X \<Longrightarrow> Y \<subseteq> X \<Longrightarrow> blocks_wf Y"
  unfolding blocks_wf_def by blast

lemma bump_new_ok:
  assumes ok: "bump_valid h" and n: "0 < unat n" and j: "j < 64" and rm: "unat n + 2 ^ j \<le> bump_room h"
  shows "\<exists>p h'. bump_new n (2 ^ j) h = Some (p, h') \<and> bump_valid h' \<and> (p, n, 2 ^ j) \<notin> set (bh_blocks h)
    \<and> set (bh_blocks h') = insert (p, n, 2 ^ j) (set (bh_blocks h)) \<and> bump_room h \<le> bump_room h' + unat n + 2 ^ j"
proof -
  have uj: "unat (2 ^ j :: u64) = 2 ^ j" using j by (simp add: unat_pow2)
  define p where "p = nat_align_up (bh_next h) (2 ^ j)"
  have p: "bh_next h \<le> p" "p < bh_next h + 2 ^ j" "2 ^ j dvd p"
    unfolding p_def by (rule nat_align_up_bounds, simp)+ (rule nat_align_up_dvd)
  have fit: "p + unat n < 2 ^ 64" using p(2) rm n unfolding bump_room_def by (simp add: less_diff_conv)
  then have up: "unat (of_nat p :: u64) = p" by (intro unat_of_nat_small) simp
  let ?x = "(of_nat p, n, 2 ^ j) :: heap_block"
  have ap: "apart (p, unat n) (heap_region y)" and le: "fst (heap_region y) + snd (heap_region y) \<le> p" if "y \<in> set (bh_blocks h)" for y
    using ok that p(1) by (fastforce simp: bump_valid_def apart_def)+
  have "blocks_wf (insert ?x (set (bh_blocks h)))"
    using ok n fit up p uj ap by (intro blocks_wf_insert) (auto simp: bump_valid_def)
  then have "bump_valid \<lparr>bh_next = p + unat n, bh_blocks = ?x # bh_blocks h\<rparr>"
    using n up le by (fastforce simp: bump_valid_def heap_region_def)
  moreover have "?x \<notin> set (bh_blocks h)" using ap [of ?x] n up by (auto simp: heap_region_def apart_def)
  moreover have "bump_new n (2 ^ j) h = Some (of_nat p, \<lparr>bh_next = p + unat n, bh_blocks = ?x # bh_blocks h\<rparr>)"
    using fit by (simp add: bump_new_def uj p_def Let_def)
  moreover have "bump_room h \<le> bump_room \<lparr>bh_next = p + unat n, bh_blocks = ?x # bh_blocks h\<rparr> + unat n + 2 ^ j"
    using p(2) fit by (simp add: bump_room_def)
  ultimately show ?thesis by (intro exI conjI) (assumption, assumption, assumption, simp_all)
qed

lemma bump_delete_ok:
  assumes "bump_valid h" and "(p, n, a) \<in> set (bh_blocks h)"
  shows "\<exists>h'. bump_delete p n a h = Some h' \<and> bump_valid h' \<and> set (bh_blocks h') = set (bh_blocks h) - {(p, n, a)} \<and> bump_room h \<le> bump_room h'"
  using assms blocks_wf_subset [of "set (bh_blocks h)" "set (bh_blocks h) - {(p, n, a)}"]
  by (auto simp: bump_delete_def bump_valid_def bump_room_def)

lemma bump_heap_spec: "heap_spec bump_ops bump_valid (set \<circ> bh_blocks) bump_room"
  using bump_new_ok bump_delete_ok by (simp add: heap_spec_def bump_ops_def bump_valid_def [of h for h] comp_def)

lemma bump_init_valid: "bump_valid bump_init"
  by (simp add: bump_valid_def bump_init_def blocks_wf_def)

section \<open>The contract\<close>

text \<open>
  \<open>out s\<close>: the pages handed out; \<open>rest s\<close>: what else is allocated on the heap. A page costs at most \<open>cost\<close> of the room, giving one
  back at most 1.
\<close>

locale page_provider =
  fixes up :: "'s PageAllocator" and psz cost :: nat and ok :: "'s \<Rightarrow> bool" and out :: "'s \<Rightarrow> u64 set"
    and rest :: "'s \<Rightarrow> heap_block set" and room :: "'s \<Rightarrow> nat"
  assumes cost: "ok s \<Longrightarrow> 0 < cost"
    and page_size: "ok s \<Longrightarrow> unat (pa_page_size up s) = psz"
    and pages_wf: "ok s \<Longrightarrow> blocks_wf ((\<lambda>p. (p, of_nat psz, of_nat psz)) ` out s \<union> rest s)"
    and allocate: "ok s \<Longrightarrow> cost \<le> room s \<Longrightarrow> \<exists>p s'. pa_allocate up s = Some (p, s') \<and> ok s' \<and> p \<notin> out s
      \<and> out s' = insert p (out s) \<and> rest s' = rest s \<and> room s \<le> room s' + cost"
    and allocate_n: "ok s \<Longrightarrow> n * cost \<le> room s \<Longrightarrow> \<exists>ps s'. pa_allocate_n up n s = Some (ps, s') \<and> ok s' \<and> length ps = n \<and> distinct ps
      \<and> set ps \<inter> out s = {} \<and> out s' = out s \<union> set ps \<and> rest s' = rest s \<and> room s \<le> room s' + n * cost"
    and deallocate: "ok s \<Longrightarrow> p \<in> out s \<Longrightarrow> 1 \<le> room s \<Longrightarrow> \<exists>s'. pa_deallocate up p s = Some s' \<and> ok s' \<and> out s' = out s - {p}
      \<and> rest s' = rest s \<and> room s \<le> room s' + 1"
    and deallocate_n: "ok s \<Longrightarrow> distinct ps \<Longrightarrow> set ps \<subseteq> out s \<Longrightarrow> length ps \<le> room s \<Longrightarrow> \<exists>s'. pa_deallocate_n up ps s = Some s' \<and> ok s'
      \<and> out s' = out s - set ps \<and> rest s' = rest s \<and> room s \<le> room s' + length ps"
begin

lemma allocate_each_ok:
  assumes "ok s" and "n * cost \<le> room s"
  shows "\<exists>ps s'. allocate_each up n s = Some (ps, s') \<and> ok s' \<and> length ps = n \<and> distinct ps
    \<and> set ps \<inter> out s = {} \<and> out s' = out s \<union> set ps \<and> rest s' = rest s \<and> room s \<le> room s' + n * cost"
  using assms
proof (induction n arbitrary: s)
  case (Suc n)
  obtain p s1 where p: "pa_allocate up s = Some (p, s1)" "ok s1" "p \<notin> out s" "out s1 = insert p (out s)" "rest s1 = rest s" "room s \<le> room s1 + cost"
    using allocate [OF Suc.prems(1)] Suc.prems(2) by auto
  have "n * cost \<le> room s1" using Suc.prems(2) p(6) by simp
  with Suc.IH [OF p(2)] obtain ps s' where ps: "allocate_each up n s1 = Some (ps, s')" "ok s'" "length ps = n" "distinct ps"
    "set ps \<inter> out s1 = {}" "out s' = out s1 \<union> set ps" "rest s' = rest s1" "room s1 \<le> room s' + n * cost" by blast
  then show ?case using p by (intro exI [of _ "p # ps"] exI [of _ s']) auto
qed simp

lemma deallocate_each_ok:
  assumes "ok s" and "distinct ps" and "set ps \<subseteq> out s" and "length ps \<le> room s"
  shows "\<exists>s'. deallocate_each up ps s = Some s' \<and> ok s' \<and> out s' = out s - set ps \<and> rest s' = rest s \<and> room s \<le> room s' + length ps"
  using assms
proof (induction ps arbitrary: s)
  case (Cons p ps)
  obtain s1 where p: "pa_deallocate up p s = Some s1" "ok s1" "out s1 = out s - {p}" "rest s1 = rest s" "room s \<le> room s1 + 1"
    using deallocate [OF Cons.prems(1), of p] Cons.prems(3,4) by auto
  have "distinct ps" "set ps \<subseteq> out s1" "length ps \<le> room s1" using Cons.prems p by auto
  with Cons.IH [OF p(2)] obtain s' where ps: "deallocate_each up ps s1 = Some s'" "ok s'" "out s' = out s1 - set ps" "rest s' = rest s1"
    "room s1 \<le> room s' + length ps" by blast
  then show ?case using p by (intro exI [of _ s']) auto
qed simp

end

text \<open>An allocator that inherits the functions for one page from the base class.\<close>

locale page_base =
  fixes allocate_pages :: "nat \<Rightarrow> 's \<Rightarrow> (u64 list \<times> 's) option" and deallocate_pages :: "u64 list \<Rightarrow> 's \<Rightarrow> 's option"
    and get_page_size :: "'s \<Rightarrow> u64" and psz cost :: nat and ok :: "'s \<Rightarrow> bool" and out :: "'s \<Rightarrow> u64 set"
    and rest :: "'s \<Rightarrow> heap_block set" and room :: "'s \<Rightarrow> nat"
  assumes base_cost: "ok s \<Longrightarrow> 0 < cost"
    and base_page_size: "ok s \<Longrightarrow> unat (get_page_size s) = psz"
    and base_wf: "ok s \<Longrightarrow> blocks_wf ((\<lambda>p. (p, of_nat psz, of_nat psz)) ` out s \<union> rest s)"
    and base_allocate: "ok s \<Longrightarrow> n * cost \<le> room s \<Longrightarrow> \<exists>ps s'. allocate_pages n s = Some (ps, s') \<and> ok s' \<and> length ps = n \<and> distinct ps
      \<and> set ps \<inter> out s = {} \<and> out s' = out s \<union> set ps \<and> rest s' = rest s \<and> room s \<le> room s' + n * cost"
    and base_deallocate: "ok s \<Longrightarrow> distinct ps \<Longrightarrow> set ps \<subseteq> out s \<Longrightarrow> length ps \<le> room s \<Longrightarrow> \<exists>s'. deallocate_pages ps s = Some s' \<and> ok s'
      \<and> out s' = out s - set ps \<and> rest s' = rest s \<and> room s \<le> room s' + length ps"

definition base_ops :: "(nat \<Rightarrow> 's \<Rightarrow> (u64 list \<times> 's) option) \<Rightarrow> (u64 list \<Rightarrow> 's \<Rightarrow> 's option) \<Rightarrow> ('s \<Rightarrow> u64) \<Rightarrow> 's PageAllocator" where
  "base_ops alloc dealloc page_size = \<lparr>pa_page_size = page_size, pa_allocate = PageAllocator_allocate alloc, pa_allocate_n = alloc,
     pa_deallocate = PageAllocator_deallocate dealloc, pa_deallocate_n = dealloc\<rparr>"

sublocale page_base \<subseteq> page_provider "base_ops allocate_pages deallocate_pages get_page_size" psz cost ok out rest room
proof (unfold_locales, goal_cases)
  case (4 s)
  obtain ps s' where ps: "allocate_pages 1 s = Some (ps, s')" "ok s'" "length ps = 1" "set ps \<inter> out s = {}" "out s' = out s \<union> set ps"
    "rest s' = rest s" "room s \<le> room s' + cost" using base_allocate [OF 4(1), of 1] 4(2) by auto
  then obtain p where "ps = [p]" by (metis One_nat_def length_0_conv length_Suc_conv)
  then show ?case using ps by (simp add: base_ops_def PageAllocator_allocate_def mem_read_def)
next
  case (6 s p)
  then show ?case using base_deallocate [OF 6(1), of "[p]"] by (simp add: base_ops_def PageAllocator_deallocate_def)
qed (use base_cost base_page_size base_wf base_allocate base_deallocate in \<open>auto simp: base_ops_def\<close>)

section \<open>Pages from operator new\<close>

definition heap_pages :: "nat \<Rightarrow> heap_block set \<Rightarrow> u64 set" where
  "heap_pages psz X = {p. (p, of_nat psz, of_nat psz) \<in> X}"

definition heap_rest :: "nat \<Rightarrow> heap_block set \<Rightarrow> heap_block set" where
  "heap_rest psz X = {x \<in> X. snd x \<noteq> (of_nat psz, of_nat psz)}"

definition nd_ok :: "'h heap_ops \<Rightarrow> ('h \<Rightarrow> bool) \<Rightarrow> ('h \<Rightarrow> heap_block set) \<Rightarrow> ('h \<Rightarrow> nat) \<Rightarrow> NewDeletePageAllocator \<Rightarrow> nat \<Rightarrow> 'h \<Rightarrow> bool" where
  "nd_ok ops valid blocks room a psz h \<longleftrightarrow>
     heap_spec ops valid blocks room \<and> valid h \<and> nd_page_size a = of_nat psz \<and> (\<exists>k<63. psz = 2 ^ k)"

lemma nd_okD:
  assumes "nd_ok ops valid blocks room a psz h"
  obtains k where "heap_spec ops valid blocks room" and "valid h" and "nd_page_size a = 2 ^ k" and "psz = 2 ^ k" and "k < 63"
    and "(of_nat psz :: u64) = 2 ^ k" and "unat (2 ^ k :: u64) = psz"
proof -
  obtain k where k: "k < 63" "psz = 2 ^ k" using assms by (auto simp: nd_ok_def)
  then have "(of_nat psz :: u64) = 2 ^ k" by simp
  then show ?thesis using that [of k] k assms by (simp add: nd_ok_def unat_pow2)
qed

lemma heap_pages_insert:
  "heap_pages psz (insert (p, of_nat psz, of_nat psz) X) = insert p (heap_pages psz X)"
  "heap_rest psz (insert (p, of_nat psz, of_nat psz) X) = heap_rest psz X"
  by (auto simp: heap_pages_def heap_rest_def)

lemma heap_pages_remove:
  "heap_pages psz (X - {(p, of_nat psz, of_nat psz)}) = heap_pages psz X - {p}"
  "heap_rest psz (X - {(p, of_nat psz, of_nat psz)}) = heap_rest psz X"
  by (auto simp: heap_pages_def heap_rest_def)

lemma heap_pages_rest: "(\<lambda>p. (p, of_nat psz, of_nat psz)) ` heap_pages psz X \<union> heap_rest psz X = X"
  by (auto simp: heap_pages_def heap_rest_def image_iff)

lemma NewDelete_allocate_ok:
  assumes "nd_ok ops valid blocks room a psz h" and "n * (2 * psz) \<le> room h"
  shows "\<exists>ps h'. NewDelete_allocate ops a n h = Some (ps, h') \<and> nd_ok ops valid blocks room a psz h' \<and> length ps = n \<and> distinct ps
    \<and> set ps \<inter> heap_pages psz (blocks h) = {} \<and> heap_pages psz (blocks h') = heap_pages psz (blocks h) \<union> set ps
    \<and> heap_rest psz (blocks h') = heap_rest psz (blocks h) \<and> room h \<le> room h' + n * (2 * psz)"
  using assms
proof (induction n arbitrary: h)
  case (Suc n)
  obtain k where k: "heap_spec ops valid blocks room" "valid h" "nd_page_size a = 2 ^ k" "psz = 2 ^ k" "k < 63" "(of_nat psz :: u64) = 2 ^ k"
    "unat (2 ^ k :: u64) = psz" using nd_okD [OF Suc.prems(1)] by blast
  obtain p h1 where p: "hp_new ops (2 ^ k) (2 ^ k) h = Some (p, h1)" "valid h1" "(p, 2 ^ k, 2 ^ k) \<notin> blocks h"
    "blocks h1 = insert (p, 2 ^ k, 2 ^ k) (blocks h)" "room h \<le> room h1 + 2 * psz"
    using heap_specD(2) [OF k(1,2), of "2 ^ k" k] k(4,5,7) Suc.prems(2) by auto
  have ok1: "nd_ok ops valid blocks room a psz h1" using Suc.prems(1) p(2) by (simp add: nd_ok_def)
  have "n * (2 * psz) \<le> room h1" using Suc.prems(2) p(5) by simp
  with Suc.IH [OF ok1] obtain ps h' where ps: "NewDelete_allocate ops a n h1 = Some (ps, h')" "nd_ok ops valid blocks room a psz h'"
    "length ps = n" "distinct ps" "set ps \<inter> heap_pages psz (blocks h1) = {}" "heap_pages psz (blocks h') = heap_pages psz (blocks h1) \<union> set ps"
    "heap_rest psz (blocks h') = heap_rest psz (blocks h1)" "room h1 \<le> room h' + n * (2 * psz)" by blast
  have h1: "heap_pages psz (blocks h1) = insert p (heap_pages psz (blocks h))" "heap_rest psz (blocks h1) = heap_rest psz (blocks h)"
    "p \<notin> heap_pages psz (blocks h)"
    using heap_pages_insert [of psz p "blocks h"] p(3,4) k(6) by (simp_all add: heap_pages_def)
  show ?case using p(1,5) ps h1 k(3) by (intro exI [of _ "p # ps"] exI [of _ h']) auto
qed simp

lemma NewDelete_deallocate_ok:
  assumes "nd_ok ops valid blocks room a psz h" and "distinct ps" and "set ps \<subseteq> heap_pages psz (blocks h)"
  shows "\<exists>h'. NewDelete_deallocate ops a ps h = Some h' \<and> nd_ok ops valid blocks room a psz h'
    \<and> heap_pages psz (blocks h') = heap_pages psz (blocks h) - set ps \<and> heap_rest psz (blocks h') = heap_rest psz (blocks h) \<and> room h \<le> room h'"
  using assms
proof (induction ps arbitrary: h)
  case (Cons p ps)
  obtain k where k: "heap_spec ops valid blocks room" "valid h" "nd_page_size a = 2 ^ k" "(of_nat psz :: u64) = 2 ^ k"
    using nd_okD [OF Cons.prems(1)] by blast
  have "(p, 2 ^ k, 2 ^ k) \<in> blocks h" using Cons.prems(3) k(4) by (simp add: heap_pages_def)
  from heap_specD(3) [OF k(1,2) this] obtain h1 where p: "hp_delete ops p (2 ^ k) (2 ^ k) h = Some h1" "valid h1"
    "blocks h1 = blocks h - {(p, 2 ^ k, 2 ^ k)}" "room h \<le> room h1" by blast
  have ok1: "nd_ok ops valid blocks room a psz h1" using Cons.prems(1) p(2) by (simp add: nd_ok_def)
  have h1: "heap_pages psz (blocks h1) = heap_pages psz (blocks h) - {p}" "heap_rest psz (blocks h1) = heap_rest psz (blocks h)"
    using heap_pages_remove [of psz "blocks h" p] p(3) k(4) by simp_all
  have "distinct ps" "set ps \<subseteq> heap_pages psz (blocks h1)" using Cons.prems h1 by auto
  with Cons.IH [OF ok1] obtain h' where "NewDelete_deallocate ops a ps h1 = Some h'" "nd_ok ops valid blocks room a psz h'"
    "heap_pages psz (blocks h') = heap_pages psz (blocks h1) - set ps" "heap_rest psz (blocks h') = heap_rest psz (blocks h1)" "room h1 \<le> room h'" by blast
  then show ?case using p(1,4) h1 k(3) by (intro exI [of _ h']) auto
qed simp

interpretation ndb: page_base "NewDelete_allocate ops a" "NewDelete_deallocate ops a" "\<lambda>_. nd_page_size a" psz "2 * psz"
  "nd_ok ops valid blocks room a psz" "\<lambda>h. heap_pages psz (blocks h)" "\<lambda>h. heap_rest psz (blocks h)" room
  for ops :: "'h heap_ops" and valid blocks room a psz
proof (unfold_locales, goal_cases)
  case (1 h)
  then show ?case by (auto simp: nd_ok_def)
next
  case (2 h)
  then show ?case using nd_okD by metis
next
  case (3 h)
  then show ?case unfolding heap_pages_rest by (auto simp: nd_ok_def intro: heap_specD(1))
next
  case (4 h n)
  then show ?case by (rule NewDelete_allocate_ok)
next
  case (5 h ps)
  then show ?case using NewDelete_deallocate_ok [OF 5(1-3)] by (auto intro: le_SucI trans_le_add1)
qed

lemma NewDelete_ops_base: "NewDelete_ops ops a = base_ops (NewDelete_allocate ops a) (NewDelete_deallocate ops a) (\<lambda>_. nd_page_size a)"
  by (simp add: NewDelete_ops_def base_ops_def)

interpretation nd: page_provider "NewDelete_ops ops a" psz "2 * psz"
  "nd_ok ops valid blocks room a psz" "\<lambda>h. heap_pages psz (blocks h)" "\<lambda>h. heap_rest psz (blocks h)" room
  for ops :: "'h heap_ops" and valid blocks room a psz
  unfolding NewDelete_ops_base by (rule ndb.page_provider_axioms)

end
