(* ===== verification/PageHeaps.thy ===== *)
theory PageHeaps
  imports PageProvider
begin

text \<open>
  The allocators on top of a page provider, and \<open>PageHeap\<close> on the heap. A cache holds pages its upstream has handed out and it has
  not, so its own pages out are the difference; it is a page provider again, and its destructor gives the pages it holds back.
\<close>

section \<open>The cached allocator\<close>

definition cached_ok :: "('s \<Rightarrow> bool) \<Rightarrow> ('s \<Rightarrow> u64 set) \<Rightarrow> CachedPageAllocator \<times> 's \<Rightarrow> bool" where
  "cached_ok ok out = (\<lambda>(c, s). ok s \<and> cache_ok c \<and> distinct (cache_pages c) \<and> set (cache_pages c) \<subseteq> out s)"

definition cached_out :: "('s \<Rightarrow> u64 set) \<Rightarrow> CachedPageAllocator \<times> 's \<Rightarrow> u64 set" where
  "cached_out out = (\<lambda>(c, s). out s - set (cache_pages c))"

definition cached_room :: "('s \<Rightarrow> nat) \<Rightarrow> CachedPageAllocator \<times> 's \<Rightarrow> nat" where
  "cached_room room = (\<lambda>(c, s). min (room s) (cache_tickets c))"

lemmas cached_defs = cached_ok_def cached_out_def cached_room_def

lemma cache_tickets_le: "cache_ok c \<Longrightarrow> cache_index c' \<le> cache_index c + n \<Longrightarrow> cache_capacity c' = cache_capacity c \<Longrightarrow> cache_tickets c \<le> cache_tickets c' + n"
  by (simp add: cache_tickets_def cache_ok_def)

context page_provider
begin

lemma cached_allocate_ok:
  assumes ok: "cached_ok ok out (c, s)" and rm: "n * cost \<le> cached_room room (c, s)"
  shows "\<exists>ps fresh c' s'. Cached_allocate up n (c, s) = Some (ps, c', s') \<and> cached_ok ok out (c', s') \<and> length ps = n \<and> distinct ps
    \<and> set ps \<inter> cached_out out (c, s) = {} \<and> cached_out out (c', s') = cached_out out (c, s) \<union> set ps \<and> rest s' = rest s
    \<and> cached_room room (c, s) \<le> cached_room room (c', s') + n * cost \<and> ps = take n (cache_pages c) @ fresh
    \<and> cache_pages c' = drop n (cache_pages c)"
proof -
  have d: "ok s" "cache_ok c" "distinct (cache_pages c)" "set (cache_pages c) \<subseteq> out s" using ok by (simp_all add: cached_ok_def)
  have n: "n \<le> n * cost" using cost [OF d(1)] by simp
  have rms: "n * cost \<le> room s" "n \<le> cache_tickets c" using rm order_trans [OF n] by (simp_all add: cached_room_def)
  let ?m = "n - length (cache_pages c)"
  have m: "?m * cost \<le> n * cost" by simp
  obtain ps s' where ps: "allocate_each up ?m s = Some (ps, s')" "ok s'" "length ps = ?m" "distinct ps" "set ps \<inter> out s = {}"
    "out s' = out s \<union> set ps" "rest s' = rest s" "room s \<le> room s' + ?m * cost"
    using allocate_each_ok [OF d(1), of ?m] rms(1) m by (meson order_trans)
  obtain c' where c': "Cached_allocate up n (c, s) = Some (take n (cache_pages c) @ ps, c', s')" "cache_ok c'"
    "cache_pages c' = drop n (cache_pages c)" "cache_capacity c' = cache_capacity c" "cache_index c' \<le> cache_index c + n"
    using Cached_allocate_eq [OF d(2) rms(2) ps(1)] by blast
  let ?w = "cache_pages c"
  have tk: "cache_tickets c \<le> cache_tickets c' + n * cost" using cache_tickets_le [OF d(2) c'(5,4)] n by linarith
  have w: "set (take n ?w) \<union> set (drop n ?w) = set ?w" "set (take n ?w) \<inter> set (drop n ?w) = {}" "distinct (take n ?w)" "distinct (drop n ?w)"
    using d(3) set_take_disj_set_drop_if_distinct [of ?w n n] by (simp_all flip: set_append)
  have "cached_room room (c, s) \<le> cached_room room (c', s') + n * cost" using order_trans [OF ps(8) add_left_mono [OF m]] tk by (simp add: cached_room_def min_def)
  moreover have "cached_ok ok out (c', s')" using ps(2,6) c'(2,3) d(4) w(1,4) by (auto simp: cached_ok_def)
  moreover have "cached_out out (c', s') = cached_out out (c, s) \<union> set (take n ?w @ ps)"
    using ps(5,6) c'(3) d(4) w(1,2) by (auto simp: cached_out_def)
  moreover have "set (take n ?w @ ps) \<inter> cached_out out (c, s) = {}" using ps(5) w(1) by (auto simp: cached_out_def)
  moreover have "distinct (take n ?w @ ps)" using ps(4,5) d(4) w(1,3) by auto
  moreover have "length (take n ?w @ ps) = n" using ps(3) by simp
  ultimately show ?thesis using c'(1,3) ps(7) by blast
qed

lemma cached_deallocate_ok:
  assumes ok: "cached_ok ok out (c, s)" and ps: "distinct ps" "set ps \<subseteq> cached_out out (c, s)" and rm: "length ps \<le> cached_room room (c, s)"
  shows "\<exists>c' s'. Cached_deallocate up ps (c, s) = Some (c', s') \<and> cached_ok ok out (c', s') \<and> cached_out out (c', s') = cached_out out (c, s) - set ps
    \<and> rest s' = rest s \<and> cached_room room (c, s) \<le> cached_room room (c', s') + length ps"
proof -
  have d: "ok s" "cache_ok c" "distinct (cache_pages c)" "set (cache_pages c) \<subseteq> out s" using ok by (simp_all add: cached_ok_def)
  have rms: "length ps \<le> room s" "length ps \<le> cache_tickets c" using rm by (simp_all add: cached_room_def)
  let ?w = "cache_pages c"
  define k where "k = min (length ps) (cache_capacity c)"
  define m where "m = length ?w + k - cache_capacity c"
  let ?e = "take m ?w @ drop k ps"
  have sw: "set ps \<subseteq> out s" "set ps \<inter> set ?w = {}" using ps(2) by (auto simp: cached_out_def)
  have le: "length ?e \<le> length ps" using cache_pages_le [OF d(2)] by (simp add: m_def k_def)
  have "distinct ?e" "set ?e \<subseteq> out s" using d(3,4) ps(1) sw set_take_subset [of m ?w] set_drop_subset [of k ps] by auto
  with deallocate_each_ok [OF d(1)] rms(1) le obtain s' where s': "deallocate_each up ?e s = Some s'" "ok s'" "out s' = out s - set ?e" "rest s' = rest s"
    "room s \<le> room s' + length ?e" by (meson order_trans)
  obtain c' where c': "Cached_deallocate up ps (c, s) = Some (c', s')" "cache_ok c'" "cache_pages c' = drop m ?w @ take k ps"
    "cache_capacity c' = cache_capacity c" "cache_index c' \<le> cache_index c + length ps"
    using Cached_deallocate_eq [OF d(2) rms(2) k_def m_def s'(1)] by blast
  have w: "set (take m ?w) \<union> set (drop m ?w) = set ?w" "set (take m ?w) \<inter> set (drop m ?w) = {}" "distinct (drop m ?w)"
    using d(3) set_take_disj_set_drop_if_distinct [of ?w m m] by (simp_all flip: set_append)
  have p: "set (take k ps) \<union> set (drop k ps) = set ps" "set (take k ps) \<inter> set (drop k ps) = {}" "distinct (take k ps)"
    using ps(1) set_take_disj_set_drop_if_distinct [of ps k k] by (simp_all flip: set_append)
  have "cached_room room (c, s) \<le> cached_room room (c', s') + length ps"
    using cache_tickets_le [OF d(2) c'(5,4)] s'(5) le by (simp add: cached_room_def min_def)
  moreover have "cached_ok ok out (c', s')" unfolding cached_ok_def using s'(2,3) c'(2,3) d(4) w p sw by (auto 0 3)
  moreover have "cached_out out (c', s') = cached_out out (c, s) - set ps"
    using s'(3) c'(3) d(4) w(1) p(1) sw by (auto simp: cached_out_def)
  ultimately show ?thesis using c'(1) s'(4) by blast
qed

lemma cached_destroy_ok:
  assumes ok: "cached_ok ok out (c, s)" and rm: "length (cache_pages c) \<le> room s"
  shows "\<exists>s'. Cached_destroy up (c, s) = Some s' \<and> ok s' \<and> out s' = cached_out out (c, s) \<and> rest s' = rest s"
  using deallocate_each_ok [of s "cache_pages c"] assms Cached_destroy_eq [of c up s] by (auto simp: cached_ok_def cached_out_def)

end

locale cached_provider = page_provider

sublocale cached_provider \<subseteq> cached: page_base "Cached_allocate up" "Cached_deallocate up" "\<lambda>(c, s). pa_page_size up s" psz cost
  "cached_ok ok out" "cached_out out" "\<lambda>(c, s). rest s" "cached_room room"
proof (unfold_locales, goal_cases)
  case (1 cs)
  then show ?case using cost by (auto simp: cached_ok_def)
next
  case (2 cs)
  then show ?case using page_size by (auto simp: cached_ok_def)
next
  case (3 cs)
  then obtain c s where cs: "cs = (c, s)" "ok s" by (auto simp: cached_ok_def)
  show ?case using cs by (auto simp: cached_out_def intro!: blocks_wf_subset [OF pages_wf [OF cs(2)]])
next
  case (4 cs n)
  obtain c s where cs: "cs = (c, s)" by fastforce
  show ?case using cached_allocate_ok [of c s n] 4 unfolding cs prod.case by blast
next
  case (5 cs ps)
  obtain c s where cs: "cs = (c, s)" by fastforce
  show ?case using cached_deallocate_ok [of c s ps] 5 unfolding cs prod.case by blast
qed

lemma Cached_ops_base: "Cached_ops up = base_ops (Cached_allocate up) (Cached_deallocate up) (\<lambda>(c, s). pa_page_size up s)"
  by (simp add: Cached_ops_def base_ops_def)

interpretation nd_cache: cached_provider "NewDelete_ops ops a" psz "2 * psz"
  "nd_ok ops valid blocks room a psz" "\<lambda>h. heap_pages psz (blocks h)" "\<lambda>h. heap_rest psz (blocks h)" room
  for ops :: "'h heap_ops" and valid blocks room a psz
  by unfold_locales

section \<open>PageHeap\<close>

text \<open>The base allocator in use: the system's or the heap's own.\<close>

definition ph_active :: "SystemPageAllocator \<Rightarrow> PageHeap \<Rightarrow> NewDeletePageAllocator" where
  "ph_active sys p = (if ph_system p then sy_allocator sys else ph_base_allocator p)"

lemma ph_upstream_active: "ph_upstream ops sys p = NewDelete_ops ops (ph_active sys p)"
  by (simp add: ph_upstream_def System_ops_def ph_active_def)

definition ph_ok ::
  "'h heap_ops \<Rightarrow> SystemPageAllocator \<Rightarrow> ('h \<Rightarrow> bool) \<Rightarrow> ('h \<Rightarrow> heap_block set) \<Rightarrow> ('h \<Rightarrow> nat) \<Rightarrow> nat \<Rightarrow> PageHeap \<times> 'h \<Rightarrow> bool" where
  "ph_ok ops sys valid blocks room psz = (\<lambda>(p, h).
     cached_ok (nd_ok ops valid blocks room (ph_active sys p) psz) (\<lambda>h. heap_pages psz (blocks h)) (ph_cached_allocator p, h))"

definition ph_out :: "('h \<Rightarrow> heap_block set) \<Rightarrow> nat \<Rightarrow> PageHeap \<times> 'h \<Rightarrow> u64 set" where
  "ph_out blocks psz = (\<lambda>(p, h). heap_pages psz (blocks h) - set (cache_pages (ph_cached_allocator p)))"

definition ph_room :: "('h \<Rightarrow> nat) \<Rightarrow> PageHeap \<times> 'h \<Rightarrow> nat" where
  "ph_room room = (\<lambda>(p, h). min (room h) (cache_tickets (ph_cached_allocator p)))"

lemma ph_active_upd [simp]: "ph_active sys (p\<lparr>ph_cached_allocator := c, ph_allocate_page_num := k\<rparr>) = ph_active sys p"
  by (simp add: ph_active_def)

lemma PageHeap_allocate_ok:
  assumes ok: "ph_ok ops sys valid blocks room psz (p, h)" and rm: "n * (2 * psz) \<le> ph_room room (p, h)"
  shows "\<exists>ps fresh p' h'. PageHeap_allocate ops sys n (p, h) = Some (ps, p', h') \<and> ph_ok ops sys valid blocks room psz (p', h') \<and> length ps = n \<and> distinct ps
    \<and> set ps \<inter> ph_out blocks psz (p, h) = {} \<and> ph_out blocks psz (p', h') = ph_out blocks psz (p, h) \<union> set ps
    \<and> heap_rest psz (blocks h') = heap_rest psz (blocks h) \<and> ph_room room (p, h) \<le> ph_room room (p', h') + n * (2 * psz)
    \<and> ps = take n (cache_pages (ph_cached_allocator p)) @ fresh \<and> ph_allocate_page_num p' = ph_allocate_page_num p + of_nat n"
proof -
  let ?c = "ph_cached_allocator p"
  obtain ps fresh c' h' where *: "Cached_allocate (NewDelete_ops ops (ph_active sys p)) n (?c, h) = Some (ps, c', h')"
    "cached_ok (nd_ok ops valid blocks room (ph_active sys p) psz) (\<lambda>h. heap_pages psz (blocks h)) (c', h')" "length ps = n" "distinct ps"
    "set ps \<inter> cached_out (\<lambda>h. heap_pages psz (blocks h)) (?c, h) = {}"
    "cached_out (\<lambda>h. heap_pages psz (blocks h)) (c', h') = cached_out (\<lambda>h. heap_pages psz (blocks h)) (?c, h) \<union> set ps"
    "heap_rest psz (blocks h') = heap_rest psz (blocks h)" "cached_room room (?c, h) \<le> cached_room room (c', h') + n * (2 * psz)"
    "ps = take n (cache_pages ?c) @ fresh"
    using nd.cached_allocate_ok [where c = ?c and s = h and n = n and ops = ops and a = "ph_active sys p" and valid = valid
        and blocks = blocks and room = room and psz = psz] ok rm
    by (auto simp: ph_ok_def ph_room_def cached_room_def)
  let ?p = "p\<lparr>ph_cached_allocator := c', ph_allocate_page_num := ph_allocate_page_num p + of_nat n\<rparr>"
  have "PageHeap_allocate ops sys n (p, h) = Some (ps, ?p, h')" using *(1) by (simp add: PageHeap_allocate_def ph_upstream_active)
  then show ?thesis using *(2-9)
    by (intro exI [of _ ps] exI [of _ fresh] exI [of _ ?p] exI [of _ h']) (simp add: ph_ok_def ph_out_def ph_room_def cached_out_def cached_room_def)
qed

lemma PageHeap_deallocate_ok:
  assumes ok: "ph_ok ops sys valid blocks room psz (p, h)" and ps: "distinct ps" "set ps \<subseteq> ph_out blocks psz (p, h)"
    and rm: "length ps \<le> ph_room room (p, h)"
  shows "\<exists>p' h'. PageHeap_deallocate ops sys ps (p, h) = Some (p', h') \<and> ph_ok ops sys valid blocks room psz (p', h')
    \<and> ph_out blocks psz (p', h') = ph_out blocks psz (p, h) - set ps \<and> heap_rest psz (blocks h') = heap_rest psz (blocks h)
    \<and> ph_room room (p, h) \<le> ph_room room (p', h') + length ps \<and> ph_allocate_page_num p' = ph_allocate_page_num p - of_nat (length ps)"
proof -
  let ?c = "ph_cached_allocator p"
  obtain c' h' where *: "Cached_deallocate (NewDelete_ops ops (ph_active sys p)) ps (?c, h) = Some (c', h')"
    "cached_ok (nd_ok ops valid blocks room (ph_active sys p) psz) (\<lambda>h. heap_pages psz (blocks h)) (c', h')"
    "cached_out (\<lambda>h. heap_pages psz (blocks h)) (c', h') = cached_out (\<lambda>h. heap_pages psz (blocks h)) (?c, h) - set ps"
    "heap_rest psz (blocks h') = heap_rest psz (blocks h)" "cached_room room (?c, h) \<le> cached_room room (c', h') + length ps"
    using nd.cached_deallocate_ok [where c = ?c and s = h and ps = ps and ops = ops and a = "ph_active sys p" and valid = valid
        and blocks = blocks and room = room and psz = psz] ok ps rm
    by (auto simp: ph_ok_def ph_room_def ph_out_def cached_room_def cached_out_def)
  let ?p = "p\<lparr>ph_cached_allocator := c', ph_allocate_page_num := ph_allocate_page_num p + (- of_nat (length ps))\<rparr>"
  have "PageHeap_deallocate ops sys ps (p, h) = Some (?p, h')" using *(1) by (simp add: PageHeap_deallocate_def ph_upstream_active)
  then show ?thesis using *(2-5)
    by (intro exI [of _ ?p] exI [of _ h']) (simp add: ph_ok_def ph_out_def ph_room_def cached_out_def cached_room_def)
qed

interpretation phb: page_base "PageHeap_allocate ops sys" "PageHeap_deallocate ops sys" "\<lambda>(p, h). PageHeap_page_size sys p" psz "2 * psz"
  "ph_ok ops sys valid blocks room psz" "ph_out blocks psz" "\<lambda>(p, h). heap_rest psz (blocks h)" "ph_room room"
  for ops :: "'h heap_ops" and sys valid blocks room psz
proof (unfold_locales, goal_cases)
  case (1 s)
  then show ?case by (auto simp: ph_ok_def cached_ok_def nd_ok_def)
next
  case (2 s)
  obtain p h where s: "s = (p, h)" by fastforce
  have "nd_ok ops valid blocks room (ph_active sys p) psz h" using 2 by (simp add: s ph_ok_def cached_ok_def)
  then have "unat (nd_page_size (ph_active sys p)) = psz" using nd_okD by metis
  then show ?case by (simp add: s PageHeap_page_size_def ph_active_def split: if_splits)
next
  case (3 s)
  obtain p h where s: "s = (p, h)" by fastforce
  have "nd_ok ops valid blocks room (ph_active sys p) psz h" using 3 by (simp add: s ph_ok_def cached_ok_def)
  from nd.pages_wf [OF this] show ?case by (rule blocks_wf_subset) (auto simp: s ph_out_def)
next
  case (4 s n)
  obtain p h where s: "s = (p, h)" by fastforce
  show ?case using PageHeap_allocate_ok [of ops sys valid blocks room psz p h n] 4 unfolding s prod.case by blast
next
  case (5 s ps)
  obtain p h where s: "s = (p, h)" by fastforce
  show ?case using PageHeap_deallocate_ok [of ops sys valid blocks room psz p h ps] 5 unfolding s prod.case by blast
qed

end
