(* ===== verification/PageHeapRun.thy ===== *)
theory PageHeapRun
  imports PageHeaps
begin

text \<open>
  A client of \<open>PageHeap\<close>: any sequence of batches taken and given back. No page is lost, none is handed out twice, and after the
  destructor only the pages the client still holds are allocated.
\<close>

datatype ph_cmd = Take nat | Give nat nat

text \<open>\<open>Give i n\<close> gives \<open>n\<close> of the pages held back, from position \<open>i\<close>.\<close>

fun ph_run :: "'h heap_ops \<Rightarrow> SystemPageAllocator \<Rightarrow> ph_cmd list \<Rightarrow> u64 list \<Rightarrow> PageHeap \<times> 'h \<Rightarrow> (u64 list \<times> PageHeap \<times> 'h) option" where
  "ph_run ops sys [] held s = Some (held, s)"
| "ph_run ops sys (Take n # cmds) held s = do {
     (pages, s) \<leftarrow> PageHeap_allocate ops sys n s;
     ph_run ops sys cmds (pages @ held) s }"
| "ph_run ops sys (Give i n # cmds) held s = do {
     s \<leftarrow> PageHeap_deallocate ops sys (take n (drop i held)) s;
     ph_run ops sys cmds (take i held @ drop (i + n) held) s }"

fun ph_cost :: "nat \<Rightarrow> ph_cmd \<Rightarrow> nat" where
  "ph_cost psz (Take n) = n * (2 * psz)"
| "ph_cost psz (Give i n) = n"

definition page_blocks :: "nat \<Rightarrow> u64 set \<Rightarrow> heap_block set" where
  "page_blocks psz ps = (\<lambda>p. (p, of_nat psz, of_nat psz)) ` ps"

definition ph_held :: "'h heap_ops \<Rightarrow> SystemPageAllocator \<Rightarrow> ('h \<Rightarrow> bool) \<Rightarrow> ('h \<Rightarrow> heap_block set) \<Rightarrow> ('h \<Rightarrow> nat) \<Rightarrow> nat \<Rightarrow> heap_block set \<Rightarrow> u64 list \<Rightarrow> PageHeap \<times> 'h \<Rightarrow> bool" where
  "ph_held ops sys valid blocks room psz B held = (\<lambda>(p, h). ph_ok ops sys valid blocks room psz (p, h) \<and> distinct held
     \<and> set held \<inter> heap_pages psz B = {} \<and> ph_out blocks psz (p, h) = heap_pages psz B \<union> set held \<and> heap_rest psz (blocks h) = heap_rest psz B
     \<and> ph_allocate_page_num p = of_nat (length held))"

lemma ph_run_ok:
  assumes "ph_held ops sys valid blocks room psz B held (p, h)" and "sum_list (map (ph_cost psz) cmds) \<le> ph_room room (p, h)"
  shows "\<exists>held' p' h'. ph_run ops sys cmds held (p, h) = Some (held', p', h') \<and> ph_held ops sys valid blocks room psz B held' (p', h')
    \<and> 2 * length held' \<le> 2 * length held + sum_list (map (ph_cost psz) cmds)"
  using assms
proof (induction cmds arbitrary: held p h)
  case (Cons cmd cmds)
  have d: "ph_ok ops sys valid blocks room psz (p, h)" "distinct held" "set held \<inter> heap_pages psz B = {}"
    "ph_out blocks psz (p, h) = heap_pages psz B \<union> set held" "heap_rest psz (blocks h) = heap_rest psz B"
    "ph_allocate_page_num p = of_nat (length held)" using Cons.prems(1) by (simp_all add: ph_held_def)
  show ?case
  proof (cases cmd)
    case (Take n)
    have "n * (2 * psz) \<le> ph_room room (p, h)" using Cons.prems(2) Take by simp
    from PageHeap_allocate_ok [OF d(1) this] obtain ps p1 h1 where
      a: "PageHeap_allocate ops sys n (p, h) = Some (ps, p1, h1)" "ph_ok ops sys valid blocks room psz (p1, h1)" "length ps = n" "distinct ps"
        "set ps \<inter> ph_out blocks psz (p, h) = {}" "ph_out blocks psz (p1, h1) = ph_out blocks psz (p, h) \<union> set ps"
        "heap_rest psz (blocks h1) = heap_rest psz (blocks h)" "ph_room room (p, h) \<le> ph_room room (p1, h1) + n * (2 * psz)"
        "ph_allocate_page_num p1 = ph_allocate_page_num p + of_nat n" by blast
    have "ph_held ops sys valid blocks room psz B (ps @ held) (p1, h1)" using a d by (auto simp: ph_held_def)
    moreover have "sum_list (map (ph_cost psz) cmds) \<le> ph_room room (p1, h1)" using Cons.prems(2) a(8) Take by simp
    moreover have "2 * n \<le> n * (2 * psz)" using d(1) by (auto simp: ph_ok_def cached_ok_def nd_ok_def)
    ultimately obtain held' p' h' where r: "ph_run ops sys cmds (ps @ held) (p1, h1) = Some (held', p', h')"
      "ph_held ops sys valid blocks room psz B held' (p', h')" "2 * length held' \<le> 2 * length (ps @ held) + sum_list (map (ph_cost psz) cmds)"
      "2 * n \<le> n * (2 * psz)" using Cons.IH [of "ps @ held" p1 h1] by blast
    have "2 * length held' \<le> 2 * length held + (z + sum_list (map (ph_cost psz) cmds))" if "2 * n \<le> z" for z using r(3) a(3) that by simp
    from this [OF r(4)] have "2 * length held' \<le> 2 * length held + (n * (2 * psz) + sum_list (map (ph_cost psz) cmds))" .
    then show ?thesis using Take a(1) r(1,2) by (intro exI [of _ held'] exI [of _ p'] exI [of _ h']) simp
  next
    case (Give i n)
    let ?ps = "take n (drop i held)" and ?held = "take i held @ drop (i + n) held"
    have split: "held = take i held @ ?ps @ drop (i + n) held" by (metis append_take_drop_id drop_drop add.commute)
    have sub: "distinct ?ps" "set ?ps \<subseteq> set held" using d(2) by (auto dest: in_set_takeD in_set_dropD)
    have dis: "set ?ps \<inter> set ?held = {}" "distinct ?held" using d(2) by (subst (asm) split, auto)+
    have un: "set held = set ?ps \<union> set ?held" by (subst split) auto
    have len: "length held = length ?ps + length ?held" by (subst split) simp
    have "set ?ps \<subseteq> ph_out blocks psz (p, h)" "length ?ps \<le> ph_room room (p, h)" using sub(2) d(4) Cons.prems(2) Give by auto
    from PageHeap_deallocate_ok [OF d(1) sub(1) this] obtain p1 h1 where
      a: "PageHeap_deallocate ops sys ?ps (p, h) = Some (p1, h1)" "ph_ok ops sys valid blocks room psz (p1, h1)"
        "ph_out blocks psz (p1, h1) = ph_out blocks psz (p, h) - set ?ps" "heap_rest psz (blocks h1) = heap_rest psz (blocks h)"
        "ph_room room (p, h) \<le> ph_room room (p1, h1) + length ?ps" "ph_allocate_page_num p1 = ph_allocate_page_num p - of_nat (length ?ps)" by blast
    have "ph_allocate_page_num p1 = of_nat (length ?held)" unfolding a(6) d(6) len by simp
    then have "ph_held ops sys valid blocks room psz B ?held (p1, h1)" using a(2-4) d(3-5) un dis by (auto simp: ph_held_def)
    moreover have "sum_list (map (ph_cost psz) cmds) \<le> ph_room room (p1, h1)" using Cons.prems(2) a(5) Give by simp
    ultimately obtain held' p' h' where r: "ph_run ops sys cmds ?held (p1, h1) = Some (held', p', h')"
      "ph_held ops sys valid blocks room psz B held' (p', h')" "2 * length held' \<le> 2 * length ?held + sum_list (map (ph_cost psz) cmds)"
      using Cons.IH [of ?held p1 h1] by blast
    have "2 * length held' \<le> 2 * length held + (n + sum_list (map (ph_cost psz) cmds))" using r(3) len by linarith
    then show ?thesis using Give a(1) r(1,2) by (intro exI [of _ held'] exI [of _ p'] exI [of _ h']) simp
  qed
qed simp

lemma deallocate_each_NewDelete: "deallocate_each (NewDelete_ops ops a) ps h = NewDelete_deallocate ops a ps h"
proof (induction ps arbitrary: h)
  case (Cons p ps)
  then show ?case by (cases "hp_delete ops p (nd_page_size a) (nd_page_size a) h") (simp_all add: NewDelete_ops_def PageAllocator_deallocate_def)
qed simp

lemma PageHeap_destroy_ok:
  assumes ok: "ph_ok ops sys valid blocks room psz (p, h)" and out: "ph_out blocks psz (p, h) = heap_pages psz B \<union> S"
    and rest: "heap_rest psz (blocks h) = heap_rest psz B"
  shows "\<exists>h'. PageHeap_destroy ops sys (p, h) = Some h' \<and> valid h' \<and> blocks h' = B \<union> page_blocks psz S"
proof -
  let ?c = "ph_cached_allocator p"
  have d: "nd_ok ops valid blocks room (ph_active sys p) psz h" "cache_ok ?c" "distinct (cache_pages ?c)" "set (cache_pages ?c) \<subseteq> heap_pages psz (blocks h)"
    using ok by (simp_all add: ph_ok_def cached_ok_def)
  obtain h' where h': "NewDelete_deallocate ops (ph_active sys p) (cache_pages ?c) h = Some h'" "nd_ok ops valid blocks room (ph_active sys p) psz h'"
    "heap_pages psz (blocks h') = heap_pages psz (blocks h) - set (cache_pages ?c)" "heap_rest psz (blocks h') = heap_rest psz (blocks h)"
    using NewDelete_deallocate_ok [OF d(1,3,4)] by blast
  have "heap_pages psz (blocks h') = heap_pages psz B \<union> S" using h'(3) out by (simp add: ph_out_def)
  then have "blocks h' = page_blocks psz (heap_pages psz B \<union> S) \<union> heap_rest psz B"
    using heap_pages_rest [of psz "blocks h'"] h'(4) rest by (simp add: page_blocks_def)
  also have "\<dots> = B \<union> page_blocks psz (S)" using heap_pages_rest [of psz B] by (auto simp: page_blocks_def image_Un)
  finally have "blocks h' = B \<union> page_blocks psz (S)" .
  then show ?thesis using h'(1,2) Cached_destroy_eq [OF d(2), of "NewDelete_ops ops (ph_active sys p)" h]
    by (simp add: PageHeap_destroy_def ph_upstream_active deallocate_each_NewDelete nd_ok_def)
qed

section \<open>Construction\<close>

lemma bit_ceil_power:
  fixes bc :: "u64 \<Rightarrow> u64"
  assumes "bit_ceil_spec bc" and "unat x \<le> 2 ^ 62"
  shows "\<exists>k<63. bc x = 2 ^ k \<and> unat x \<le> 2 ^ k"
proof -
  obtain k where "k \<le> 62" "bc x = 2 ^ k" "unat x \<le> 2 ^ k" using bit_ceil_specE [OF assms] by auto
  then show ?thesis by (intro exI [of _ k]) simp
qed

lemma bit_ceil_idem:
  fixes bc :: "u64 \<Rightarrow> u64"
  assumes "bit_ceil_spec bc" and "k < 64"
  shows "bc (2 ^ k) = 2 ^ k"
  using assms by (auto simp: bit_ceil_spec_def unat_pow2)

text \<open>Whichever allocator it uses, a page heap has pages of the least sufficient power of two.\<close>

lemma PageHeap_construct_ok:
  assumes bc: "bit_ceil_spec bc" and sc: "unat sc \<le> 2 ^ 62" and ps: "unat page_size \<le> 2 ^ 62" and n: "unat n \<le> 2 ^ 61"
    and sys: "sys = System_construct bc sc"
  shows "\<exists>p. PageHeap_construct_sized bc sys n page_size = Some p \<and> nd_page_size (ph_active sys p) = bc page_size
    \<and> cache_ok (ph_cached_allocator p) \<and> cache_pages (ph_cached_allocator p) = [] \<and> cache_index (ph_cached_allocator p) = 0
    \<and> cache_capacity (ph_cached_allocator p) = unat (bc n) \<and> ph_allocate_page_num p = 0"
proof -
  obtain c where c: "Cached_set_free_page_capacity bc n Cached_new = Some c" "cache_ok c" "cache_pages c = []" "cache_index c \<le> cache_index Cached_new"
    and cap: "cache_capacity c = unat (bc n)" using Cached_set_free_page_capacity_ok [OF bc n Cached_new_ok(1)] by blast
  obtain k where k: "bc sc = 2 ^ k" "k < 63" using bit_ceil_power [OF bc sc] by blast
  have sz: "nd_page_size (sy_allocator sys) = 2 ^ k" using sys k by (simp add: System_construct_def NewDelete_set_page_size_def)
  let ?p = "PageHeap_set_page_size bc sys page_size (PageHeap_members\<lparr>ph_cached_allocator := c\<rparr>)"
  have "PageHeap_construct_sized bc sys n page_size = Some ?p"
    using c(1) by (simp add: PageHeap_construct_sized_def PageHeap_set_free_page_capacity_def PageHeap_members_def)
  moreover have "nd_page_size (ph_active sys ?p) = bc page_size"
    using sz bit_ceil_idem [OF bc, of k] k(2) by (simp add: PageHeap_set_page_size_def ph_active_def NewDelete_set_page_size_def)
  ultimately show ?thesis using c cap Cached_new_ok(3)
    by (intro exI [of _ ?p]) (simp add: PageHeap_set_page_size_def PageHeap_members_def)
qed

lemma sint_of_nat_small: "n < 2 ^ 63 \<Longrightarrow> sint (of_nat n :: u64) = int n"
  by (simp add: signed_of_nat signed_take_bit_int_eq_self)

text \<open>
  C10: Over any heap that behaves as documented, whatever batches a client takes from a new page heap and gives back, the calls return,
  the pages it holds are distinct, were free before, and overlap nothing that is allocated, \<open>allocate_page_num\<close> is their number,
  and when the page heap is destroyed exactly these pages are still allocated besides what was before: none is lost in the cache.
\<close>

theorem page_heap_conserves_pages:
  assumes "heap_spec ops valid blocks room" and "valid h" and "bit_ceil_spec bc"
    and "unat sc \<le> 2 ^ 62" and "unat page_size \<le> 2 ^ 62" and "unat n \<le> 2 ^ 61"
    and "sum_list (map (ph_cost (unat (bc page_size))) cmds) \<le> room h"
    and "sum_list (map (ph_cost (unat (bc page_size))) cmds) + 3 * unat (bc n) < 2 ^ 64"
  shows "\<exists>p held p' h' h''. PageHeap_construct_sized bc (System_construct bc sc) n page_size = Some p
    \<and> ph_run ops (System_construct bc sc) cmds [] (p, h) = Some (held, p', h')
    \<and> distinct held \<and> page_blocks (unat (bc page_size)) (set held) \<inter> blocks h = {}
    \<and> blocks_wf (blocks h \<union> page_blocks (unat (bc page_size)) (set held))
    \<and> PageHeap_allocate_page_num p' = of_nat (length held)
    \<and> PageHeap_destroy ops (System_construct bc sc) (p', h') = Some h''
    \<and> blocks h'' = blocks h \<union> page_blocks (unat (bc page_size)) (set held)"
proof -
  let ?sys = "System_construct bc sc" and ?psz = "unat (bc page_size)"
  obtain p where p: "PageHeap_construct_sized bc ?sys n page_size = Some p" "nd_page_size (ph_active ?sys p) = bc page_size"
    "cache_ok (ph_cached_allocator p)" "cache_pages (ph_cached_allocator p) = []" "cache_index (ph_cached_allocator p) = 0"
    "cache_capacity (ph_cached_allocator p) = unat (bc n)" "ph_allocate_page_num p = 0"
    using PageHeap_construct_ok [OF assms(3-6) refl] by blast
  obtain k where k: "k < 63" "bc page_size = 2 ^ k" using bit_ceil_power [OF assms(3,5)] by blast
  have nd: "nd_ok ops valid blocks room (ph_active ?sys p) ?psz h" using assms(1,2) p(2) k by (auto simp: nd_ok_def unat_pow2)
  have held: "ph_held ops ?sys valid blocks room ?psz (blocks h) [] (p, h)"
    using nd p(3,4,7) by (simp add: ph_held_def ph_ok_def cached_ok_def ph_out_def)
  have "sum_list (map (ph_cost ?psz) cmds) \<le> ph_room room (p, h)" using assms(7,8) p(5,6) by (simp add: ph_room_def cache_tickets_def)
  from ph_run_ok [OF held this] obtain held p' h' where r: "ph_run ops ?sys cmds [] (p, h) = Some (held, p', h')"
    "ph_held ops ?sys valid blocks room ?psz (blocks h) held (p', h')" "2 * length held \<le> sum_list (map (ph_cost ?psz) cmds)" by auto
  obtain h'' where e: "PageHeap_destroy ops ?sys (p', h') = Some h''" "valid h''" "blocks h'' = blocks h \<union> page_blocks ?psz (set held)"
    using PageHeap_destroy_ok [of ops ?sys valid blocks room ?psz p' h' "blocks h" "set held"] r(2) by (auto simp: ph_held_def)
  have "length held < 2 ^ 63" using r(3) assms(8) by simp
  from sint_of_nat_small [OF this] have num: "PageHeap_allocate_page_num p' = of_nat (length held)" using r(2) by (simp add: PageHeap_allocate_page_num_def ph_held_def)
  have "page_blocks ?psz (set held) \<inter> blocks h = {}" using r(2) by (auto simp: ph_held_def page_blocks_def heap_pages_def)
  moreover have "blocks_wf (blocks h \<union> page_blocks ?psz (set held))" using heap_specD(1) [OF assms(1) e(2)] e(3) by simp
  moreover have "distinct held" using r(2) by (simp add: ph_held_def)
  ultimately show ?thesis using p(1) r(1) num e(1,3) by blast
qed

theorem page_heap_conserves_pages_witness:
  "\<exists>p held p' h' h''. PageHeap_construct_sized bit_ceil_ref (System_construct bit_ceil_ref 4096) 2 1000 = Some p
    \<and> ph_run bump_ops (System_construct bit_ceil_ref 4096) [Take 3, Give 0 2, Take 1, Give 1 1] [] (p, bump_init) = Some (held, p', h')
    \<and> distinct held \<and> page_blocks 1024 (set held) \<inter> {} = {} \<and> blocks_wf (page_blocks 1024 (set held))
    \<and> PageHeap_allocate_page_num p' = of_nat (length held)
    \<and> PageHeap_destroy bump_ops (System_construct bit_ceil_ref 4096) (p', h') = Some h''
    \<and> set (bh_blocks h'') = page_blocks 1024 (set held)"
proof -
  have bc: "unat (bit_ceil_ref (1000 :: u64)) = 1024" "unat (bit_ceil_ref (2 :: u64)) = 2" by (simp_all add: bit_ceil_ref_def)
  show ?thesis
    using page_heap_conserves_pages [where ops = bump_ops and h = bump_init and bc = bit_ceil_ref and sc = 4096 and page_size = 1000 and n = 2
        and cmds = "[Take 3, Give 0 2, Take 1, Give 1 1]", OF bump_heap_spec bump_init_valid bit_ceil_ref_spec]
    unfolding bc by (simp add: bump_room_def bump_init_def)
qed

end
