(* ===== verification/PageMemory.thy ===== *)
theory PageMemory
  imports PageHeapRun
begin

text \<open>
  The memory below a monotonic buffer resource: a page provider for small requests and the heap for large ones meet the contract
  \<open>memory_source\<close>. Instances are the two defaults of the program, \<open>SystemPageAllocator\<close> (any \<open>NewDeletePageAllocator\<close>) and
  \<open>PageHeap\<close>, each with \<open>new_delete_resource\<close>.
\<close>

definition up_blocks :: "heap_block set \<Rightarrow> block set" where
  "up_blocks X = (\<lambda>(p, n, a). Up p n a) ` X"

lemma up_blocks_simps [simp]:
  "Up p n a \<in> up_blocks X \<longleftrightarrow> (p, n, a) \<in> X" "Page p \<notin> up_blocks X" "up_blocks (insert (p, n, a) X) = insert (Up p n a) (up_blocks X)"
  "up_blocks (X - {(p, n, a)}) = up_blocks X - {Up p n a}"
proof -
  have inj: "inj (\<lambda>(p, n, a). Up p n a)" by (auto simp: inj_def)
  show "Up p n a \<in> up_blocks X \<longleftrightarrow> (p, n, a) \<in> X" by (force simp: up_blocks_def)
  show "Page p \<notin> up_blocks X" by (auto simp: up_blocks_def)
  show "up_blocks (insert (p, n, a) X) = insert (Up p n a) (up_blocks X)" by (simp add: up_blocks_def)
  show "up_blocks (X - {(p, n, a)}) = up_blocks X - {Up p n a}" by (simp add: up_blocks_def image_set_diff [OF inj])
qed

fun heap_of :: "nat \<Rightarrow> block \<Rightarrow> heap_block" where
  "heap_of psz (Page p) = (p, of_nat psz, of_nat psz)"
| "heap_of psz (Up p n a) = (p, n, a)"

lemma heap_of_region: "psz < 2 ^ 63 \<Longrightarrow> region psz x = heap_region (heap_of psz x)"
  by (cases x) (simp_all add: heap_region_def unat_of_nat_small)

text \<open>
  No block of the rest may have the size and alignment of a page; upstream blocks are larger or more strictly aligned.
\<close>

definition no_page :: "nat \<Rightarrow> heap_block set \<Rightarrow> bool" where
  "no_page psz X \<longleftrightarrow> (\<forall>x\<in>X. snd x \<noteq> (of_nat psz, of_nat psz))"

lemma no_page_rest [simp]: "no_page psz (heap_rest psz X)"
  by (simp add: no_page_def heap_rest_def)

lemma heap_of_mem: "x \<in> Page ` P \<union> up_blocks X \<Longrightarrow> heap_of psz x \<in> (\<lambda>p. (p, of_nat psz, of_nat psz)) ` P \<union> X"
  by (cases x) auto

lemma heap_of_inj:
  "no_page psz X \<Longrightarrow> x \<in> Page ` P \<union> up_blocks X \<Longrightarrow> y \<in> Page ` P \<union> up_blocks X \<Longrightarrow> heap_of psz x = heap_of psz y \<Longrightarrow> x = y"
  by (cases x; cases y) (auto simp: no_page_def)

definition page_range :: "nat \<Rightarrow> bool" where
  "page_range psz \<longleftrightarrow> (\<exists>k. psz = 2 ^ k \<and> 7 \<le> k \<and> k < 32)"

lemma page_range_small: "page_range psz \<Longrightarrow> psz < 2 ^ 63"
  using power_strict_increasing [of _ 63 "2::nat"] by (auto simp: page_range_def)

definition provider_source ::
  "'s PageAllocator \<Rightarrow> (u64 \<Rightarrow> u64 \<Rightarrow> 's \<Rightarrow> (u64 \<times> 's) option) \<Rightarrow> (u64 \<Rightarrow> u64 \<Rightarrow> u64 \<Rightarrow> 's \<Rightarrow> 's option) \<Rightarrow> (unit, unit, 's) mem_source" where
  "provider_source pages new delete = \<lparr>ms_page_size = (\<lambda>_. pa_page_size pages), ms_page_allocate = (\<lambda>_. pa_allocate pages),
     ms_page_deallocate = (\<lambda>_. pa_deallocate_n pages), ms_allocate = (\<lambda>_. new), ms_deallocate = (\<lambda>_. delete)\<rparr>"

lemma provider_source_simps [simp]:
  "ms_page_size (provider_source pages new delete) u = pa_page_size pages" "ms_page_allocate (provider_source pages new delete) u = pa_allocate pages"
  "ms_page_deallocate (provider_source pages new delete) u = pa_deallocate_n pages" "ms_allocate (provider_source pages new delete) u = new"
  "ms_deallocate (provider_source pages new delete) u = delete"
  by (simp_all add: provider_source_def)

locale page_memory = page_provider pages psz "2 * psz" ok out rest room
  for pages :: "'s PageAllocator" and psz ok out rest room +
  fixes new :: "u64 \<Rightarrow> u64 \<Rightarrow> 's \<Rightarrow> (u64 \<times> 's) option" and delete :: "u64 \<Rightarrow> u64 \<Rightarrow> u64 \<Rightarrow> 's \<Rightarrow> 's option"
  assumes new: "ok s \<Longrightarrow> 0 < unat n \<Longrightarrow> j < 64 \<Longrightarrow> psz < unat n \<or> psz < 2 ^ j \<Longrightarrow> unat n + 2 ^ j \<le> room s \<Longrightarrow>
      \<exists>p s'. new n (2 ^ j) s = Some (p, s') \<and> ok s' \<and> (p, n, 2 ^ j) \<notin> rest s \<and> out s' = out s
        \<and> rest s' = insert (p, n, 2 ^ j) (rest s) \<and> room s \<le> room s' + unat n + 2 ^ j"
    and delete: "ok s \<Longrightarrow> (p, n, a) \<in> rest s \<Longrightarrow>
      \<exists>s'. delete p n a s = Some s' \<and> ok s' \<and> out s' = out s \<and> rest s' = rest s - {(p, n, a)} \<and> room s \<le> room s'"

sublocale page_memory \<subseteq> mem: memory_source "provider_source pages new delete" "()" "()" psz
  "\<lambda>s. ok s \<and> page_range psz \<and> no_page psz (rest s)" "\<lambda>s. Page ` out s \<union> up_blocks (rest s)" room
proof (unfold_locales, goal_cases)
  case (1 s)
  then show ?case by (simp add: page_range_def)
next
  case (2 s)
  then show ?case using page_size by simp
next
  case (3 s x y)
  then have small: "psz < 2 ^ 63" and ne: "heap_of psz x \<noteq> heap_of psz y" using page_range_small heap_of_inj by blast+
  show ?case unfolding heap_of_region [OF small] by (rule blocks_wf_apart [OF pages_wf heap_of_mem heap_of_mem ne]) (use 3 in auto)
next
  case (4 s x)
  then have small: "psz < 2 ^ 63" using page_range_small by blast
  obtain p n a where x: "heap_of psz x = (p, n, a)" by (cases "heap_of psz x") auto
  have "ok s" using 4(1) by blast
  from blocks_wf_mem [OF pages_wf [OF this] heap_of_mem [OF 4(2), of psz, unfolded x]] show ?case
    unfolding heap_of_region [OF small] x heap_region_def by simp
next
  case (5 s p)
  then have "unat (of_nat psz :: u64) dvd unat p" by (intro blocks_wf_mem(4) [OF pages_wf, of s]) auto
  moreover have "unat (of_nat psz :: u64) = psz" using page_range_small [of psz] 5(1) by (intro unat_of_nat_small) simp
  ultimately show ?case by simp
next
  case (6 s)
  then obtain p s' where "pa_allocate pages s = Some (p, s')" "ok s'" "p \<notin> out s" "out s' = insert p (out s)" "rest s' = rest s"
    "room s \<le> room s' + 2 * psz" using allocate [of s] by blast
  then show ?case using 6 by auto
next
  case (7 s qs)
  then have "set qs \<subseteq> out s" by auto
  with deallocate_n [of s qs] 7 obtain s' where "pa_deallocate_n pages qs s = Some s'" "ok s'" "out s' = out s - set qs" "rest s' = rest s"
    "room s \<le> room s' + length qs" by blast
  then show ?case using 7 by auto
next
  case (8 s n j)
  then obtain p s' where n: "new n (2 ^ j) s = Some (p, s')" "ok s'" "(p, n, 2 ^ j) \<notin> rest s" "out s' = out s"
    "rest s' = insert (p, n, 2 ^ j) (rest s)" "room s \<le> room s' + unat n + 2 ^ j" using new [of s n j] by blast
  have "unat (of_nat psz :: u64) = psz" using page_range_small [of psz] 8(1) by (intro unat_of_nat_small) simp
  then have "(n, 2 ^ j) \<noteq> (of_nat psz, of_nat psz :: u64)" using 8(3,4) unat_pow2 [of j, where 'a = 64] by auto
  then have "no_page psz (rest s')" using 8(1) n(5) by (auto simp: no_page_def)
  moreover have "2 ^ j dvd unat p"
    using blocks_wf_mem(4) [OF pages_wf [OF n(2)], of p n "2 ^ j"] n(5) 8(3) by (simp add: unat_pow2)
  ultimately show ?case using 8 n by auto
next
  case (9 s p n a)
  then obtain s' where "delete p n a s = Some s'" "ok s'" "out s' = out s" "rest s' = rest s - {(p, n, a)}" "room s \<le> room s'"
    using delete [of s p n a] by auto
  then show ?case using 9 by (auto simp: no_page_def)
qed

end
