(* ===== verification/MonotonicContains.thy ===== *)
theory MonotonicContains
  imports MonotonicBufferOps
begin

text \<open>
  \<open>contains\<close> of the monotonic buffer resource. It limits the newest page to \<open>_last_page_allocated\<close> bytes, which stays within the page
  as long as no alignment above the page size is asked for (\<open>la_ok\<close>); then it answers for exactly the memory the resource holds and has
  handed out.
\<close>

definition la_ok :: "nat \<Rightarrow> ('p, 'u) ExclusiveMonotonicBufferResource \<Rightarrow> bool" where
  "la_ok psz r \<longleftrightarrow> (em_last_page_array r \<noteq> 0 \<longrightarrow> unat (em_last_page_allocated r) \<le> psz)"

fun em_op_small :: "nat \<Rightarrow> 'd em_op \<Rightarrow> bool" where
  "em_op_small psz (Allocate bytes alignment) \<longleftrightarrow> unat alignment \<le> psz"
| "em_op_small psz (Register ptr destructor) = True"

context memory_source
begin

lemma la_ok_align:
  assumes ok: "em_ok (r, h, w) ps os ts us B" and j: "j \<le> 62" "2 ^ j \<le> psz" and la: "la_ok psz r"
  shows "la_ok psz (do_align (2 ^ j) r)"
proof (cases "em_last_page_array r = 0")
  case False
  note d = em_okD [OF ok]
  obtain k where k: "psz = 2 ^ k" using psz [OF d(3)] by blast
  have dvd: "2 ^ j dvd psz" using j(2) by (simp add: k le_imp_power_dvd)
  have jj: "(2::nat) ^ j \<le> 2 ^ 62" using j(1) by (rule power_increasing) simp
  have "unat ((em_last_page_allocated r + 2 ^ j - 1) AND (- (2 ^ j))) = nat_align_up (unat (em_last_page_allocated r)) (2 ^ j)"
    using unat_align_up [of j "em_last_page_allocated r"] d(5) jj j(1) by (simp add: align_up_def em_ptrs_def)
  moreover have "nat_align_up (unat (em_last_page_allocated r)) (2 ^ j) \<le> psz"
    using la False dvd by (intro nat_align_up_least) (simp_all add: la_ok_def)
  ultimately show ?thesis by (simp add: la_ok_def do_align_def)
qed (simp add: la_ok_def do_align_def)

lemma la_ok_new_array:
  assumes "do_allocate_with_page_in_new_page_array env bytes q (r, h, w) = Some (p, r', h', w')" and inv: "invar w" "em_page_allocator r = pa"
    and n: "unat bytes \<le> psz"
  shows "la_ok psz r'"
proof -
  have pw: "ms_page_size env (em_page_allocator r) w = of_nat psz" using page_size_word [OF inv(1)] inv(2) by simp
  note b = psz_bounds [OF inv(1)]
  have up: "unat (of_nat psz :: u64) = psz" using b(2) by (intro unat_of_nat_small) simp
  have 2: "unat (((bytes + 8 - 1) AND (- 8)) + 128) \<le> psz" if "bytes + 128 \<le> of_nat psz"
  proof -
    have "unat (bytes + 128) = unat bytes + 128" using n b(2) by (simp add: unat_add_small)
    then have le: "unat bytes + 128 \<le> psz" using that up by (simp add: word_le_nat_alt)
    have eq: "unat ((bytes + 8 - 1) AND (- 8)) = nat_align_up (unat bytes) 8"
      using unat_align_up [of 3 bytes] n b(2) by (simp add: align_up_def)
    have "nat_align_up (unat bytes) 8 \<le> psz - 128" using b(3) le by (intro nat_align_up_least) (simp_all add: dvd_diff_nat)
    then have le2: "unat ((bytes + 8 - 1) AND (- 8)) + 128 \<le> psz" using eq b(1) by linarith
    then show ?thesis using b(2) unat_add_small [of "(bytes + 8 - 1) AND (- 8)" 128] by simp
  qed
  show ?thesis using assms(1) n b(1) 2 pw
    by (auto simp: do_allocate_with_page_in_new_page_array_def Let_def sizeof_defs la_ok_def bind_eq_Some_conv split: if_splits)
qed

lemma la_ok_allocate:
  assumes ok: "em_ok (r, h, w) ps os ts us B" and j: "j \<le> 62" "2 ^ j \<le> psz" and n: "unat bytes \<le> 2 ^ 62" and la: "la_ok psz r"
    and run: "em_allocate env bytes (2 ^ j) (r, h, w) = Some (q, r', h', w')" and rm: "2 * psz \<le> room w"
  shows "la_ok psz r'"
proof -
  define r1 where "r1 = (do_align (2 ^ j) r)\<lparr>em_space_used := em_space_used r + bytes\<rparr>"
  have ok1: "em_ok (r1, h, w) ps os ts us B" using do_align_ok(1) [OF ok j(1)] by (simp add: r1_def)
  have la1: "la_ok psz r1" using la_ok_align [OF ok j la] by (simp add: r1_def la_ok_def)
  note d = em_okD [OF ok1]
  have pw: "ms_page_size env (em_page_allocator r1) w = of_nat psz" using page_size_word [OF d(3)] d(1) by simp
  have up: "unat (of_nat psz :: u64) = psz" using psz_bounds(2) [OF d(3)] by (intro unat_of_nat_small) simp
  have eq: "em_allocate env bytes (2 ^ j) (r, h, w) = (if unat (em_last_page_allocated r1) + unat bytes \<le> psz
     then Some (em_last_page r1 + em_last_page_allocated r1, r1\<lparr>em_last_page_allocated := em_last_page_allocated r1 + bytes\<rparr>, h, w)
     else do_allocate_in_new_page env bytes (2 ^ j) (r1, h, w))"
    using not_fit_big [OF ok1 n] pw by (simp add: em_allocate_def do_allocate_already_aligned_def Let_def r1_def do_align_def)
  note run1 = run [unfolded eq]
  consider (fit) "unat (em_last_page_allocated r1) + unat bytes \<le> psz"
    | (page) "\<not> unat (em_last_page_allocated r1) + unat bytes \<le> psz" "bytes \<le> of_nat psz" "(2 ^ j :: u64) \<le> of_nat psz"
    | (over) "\<not> unat (em_last_page_allocated r1) + unat bytes \<le> psz" "\<not> (bytes \<le> of_nat psz \<and> (2 ^ j :: u64) \<le> of_nat psz)" by blast
  then show ?thesis
  proof cases
    case fit
    then have "unat (em_last_page_allocated r1 + bytes) = unat (em_last_page_allocated r1) + unat bytes"
      using psz_bounds(2) [OF d(3)] by (intro unat_add_small) simp
    then show ?thesis using run1 fit by (auto simp: la_ok_def)
  next
    case page
    obtain p w1 where p: "ms_page_allocate env pa w = Some (p, w1)" "invar w1" using page_allocate [OF d(3) rm] by blast
    have n': "unat bytes \<le> psz" using page(2) up by (simp add: word_le_nat_alt)
    show ?thesis
    proof (cases "0 < em_last_page_pointer r1")
      case True
      then show ?thesis using run1 page p pw d(1) n'
        by (auto simp: do_allocate_in_new_page_def Let_def la_ok_def bind_eq_Some_conv)
    next
      case False
      let ?r = "r1\<lparr>em_space_allocated := em_space_allocated r1 + of_nat psz\<rparr>"
      have "do_allocate_with_page_in_new_page_array env bytes p (?r, h, w1) = Some (q, r', h', w')"
        using run1 page p(1) pw d(1) False by (simp add: do_allocate_in_new_page_def Let_def)
      then show ?thesis by (rule la_ok_new_array) (use p(2) d(1) n' in simp_all)
    qed
  next
    case over
    then have "do_allocate_in_oversize_page env bytes (2 ^ j) (r1, h, w) = Some (q, r', h', w')"
      using run1 pw by (auto simp: do_allocate_in_new_page_def Let_def split: if_splits)
    then have "em_last_page_array r' = em_last_page_array r1" "em_last_page_allocated r' = em_last_page_allocated r1"
      by (auto simp: do_allocate_in_oversize_page_def Let_def bind_eq_Some_conv split: if_splits)
    then show ?thesis using la1 by (simp add: la_ok_def)
  qed
qed

lemma la_ok_register:
  assumes ok: "em_ok (r, h, w) ps os ts us B" and la: "la_ok psz r"
    and run: "register_destructor env ptr f (r, h, w) = Some (r', h', w')" and rm: "2 * psz \<le> room w"
  shows "la_ok psz r'"
proof (cases "em_last_destroy_task_pointer r = 0")
  case True
  then obtain q r1 h1 where a: "em_allocate env 248 (2 ^ 3) (r, h, w) = Some (q, r1, h1, w')"
    and r1: "em_last_page_array r' = em_last_page_array r1" "em_last_page_allocated r' = em_last_page_allocated r1"
    using run by (auto simp: register_destructor_def get_destroy_task_def do_get_destroy_task_in_new_array_def Let_def bind_eq_Some_conv sizeof_defs)
  have "(2::nat) ^ 3 \<le> psz" using psz_bounds(1) [OF em_okD(3) [OF ok]] by simp
  from la_ok_allocate [OF ok _ this _ la a rm] show ?thesis using r1 by (simp add: la_ok_def)
next
  case False
  then have "em_last_page_array r' = em_last_page_array r" "em_last_page_allocated r' = em_last_page_allocated r"
    using run by (auto simp: register_destructor_def get_destroy_task_def Let_def bind_eq_Some_conv)
  then show ?thesis using la by (simp add: la_ok_def)
qed

lemma la_ok_run:
  assumes "em_ok (r, h, w) ps os ts us B" and "list_all em_op_ok ops" and "list_all (em_op_small psz) ops"
    and "sum_list (map (em_op_cost psz) ops) \<le> room w" and "la_ok psz r" and "em_run env ops got (r, h, w) = Some (got', r', h', w')"
  shows "la_ok psz r'"
  using assms
proof (induction ops arbitrary: r h w ps os ts us got)
  case (Cons op ops)
  show ?case
  proof (cases op)
    case (Allocate bytes alignment)
    obtain j where j: "j \<le> 62" "alignment = 2 ^ j" and n: "0 < unat bytes" "unat bytes \<le> 2 ^ 62" using Cons.prems(2) Allocate by auto
    have uj: "unat alignment = 2 ^ j" using j by (simp add: unat_pow2)
    have jp: "2 ^ j \<le> psz" using Cons.prems(3) Allocate uj by simp
    have rm: "em_cost psz (unat bytes) (2 ^ j) \<le> room w" "2 * psz \<le> room w" using Cons.prems(4) Allocate uj by (simp_all add: em_cost_def)
    obtain q r1 h1 w1 ps1 os1 ms where a: "em_allocate env bytes (2 ^ j) (r, h, w) = Some (q, r1, h1, w1)"
      "em_ok (r1, h1, w1) ps1 os1 ts ((unat q, unat bytes) # ms @ us) B" "room w \<le> room w1 + em_cost psz (unat bytes) (2 ^ j)"
      using em_allocate_ok [OF Cons.prems(1) n j(1) rm(1)] by blast
    have "la_ok psz r1" by (rule la_ok_allocate [OF Cons.prems(1) j(1) jp n(2) Cons.prems(5) a(1) rm(2)])
    moreover have "sum_list (map (em_op_cost psz) ops) \<le> room w1" using Cons.prems(4) a(3) Allocate uj by simp
    ultimately show ?thesis using Cons.IH [OF a(2)] Cons.prems(2,3,6) Allocate a(1) j(2) by simp
  next
    case (Register ptr f)
    have rm: "em_cost psz 248 8 \<le> room w" "2 * psz \<le> room w" using Cons.prems(4) Register by (simp_all add: em_cost_def)
    obtain r1 h1 w1 ps1 os1 ts1 ms where a: "register_destructor env ptr f (r, h, w) = Some (r1, h1, w1)"
      "em_ok (r1, h1, w1) ps1 os1 ts1 (ms @ us) B" "room w \<le> room w1 + em_cost psz 248 8" using register_ok [OF Cons.prems(1) rm(1)] by blast
    have "la_ok psz r1" by (rule la_ok_register [OF Cons.prems(1,5) a(1) rm(2)])
    moreover have "sum_list (map (em_op_cost psz) ops) \<le> room w1" using Cons.prems(4) a(3) Register by simp
    ultimately show ?thesis using Cons.IH [OF a(2)] Cons.prems(2,3,6) Register a(1) by simp
  qed
qed simp

text \<open>What is in use is found, and what is found lies in a block the resource holds.\<close>

lemma em_contains_sound_complete:
  assumes ok: "em_ok (r, h, w) ps os ts us B" and la: "la_ok psz r"
  shows "\<exists>found. em_contains env ptr (r, h, w) = Some found
    \<and> (\<forall>u\<in>set us. fst u \<le> unat ptr \<and> unat ptr < fst u + snd u \<longrightarrow> found)
    \<and> (found \<longrightarrow> (\<exists>b\<in>blocks w - B. fst (region psz b) \<le> unat ptr \<and> unat ptr < fst (region psz b) + snd (region psz b)))"
proof -
  note d = em_okD [OF ok]
  have ne: "ps \<noteq> [] \<longleftrightarrow> em_last_page_array r \<noteq> 0" using d(4) achain_0 by (auto simp: em_chains_def)
  have la': "ps \<noteq> [] \<longrightarrow> unat (em_last_page_allocated r) \<le> psz" using la ne by (simp add: la_ok_def)
  have up: "unat (of_nat psz :: u64) = psz" using psz_bounds(2) [OF d(3)] by (intro unat_of_nat_small) simp
  let ?found = "(ps \<noteq> [] \<and> (in_block (em_last_page r) (em_last_page_allocated r) ptr \<or> (\<exists>p\<in>set (tl (entries ps)). in_block p (of_nat psz) ptr)))
     \<or> (\<exists>e\<in>set (entries os). in_block (os_page e) (os_bytes e) ptr)"
  have "?found" if u: "u \<in> set us" "fst u \<le> unat ptr" "unat ptr < fst u + snd u" for u
  proof -
    obtain b where b: "b \<in> set (own ps os)" "inside u (region psz b)" using d(9) u(1) unfolding carved_def by blast
    consider (page) p where "p \<in> set (entries ps)" "b = Page p" | (over) e where "e \<in> set (entries os)" "b = up_block e"
      using b(1) by (auto simp: own_def)
    then show ?thesis
    proof cases
      case page
      then have np: "ps \<noteq> []" by auto
      have hd: "em_last_page r = hd (entries ps)" and lp: "fst u + snd u \<le> unat (em_last_page r) + unat (em_last_page_allocated r) \<or> unat (em_last_page r) + psz \<le> fst u"
        using d(5) np u(1) by (auto simp: em_ptrs_def)
      have in_p: "unat p \<le> fst u" "fst u + snd u \<le> unat p + psz" using b(2) page(2) by (simp_all add: inside_def)
      show ?thesis
      proof (cases "p = em_last_page r")
        case True
        then have "in_block (em_last_page r) (em_last_page_allocated r) ptr" using lp in_p u by (auto simp: in_block_def)
        then show ?thesis using np by blast
      next
        case False
        then have "p \<in> set (tl (entries ps))" using page(1) hd by (cases "entries ps") auto
        moreover have "in_block p (of_nat psz) ptr" using in_p u by (simp add: in_block_def up)
        ultimately show ?thesis using np by blast
      qed
    next
      case over
      then have "in_block (os_page e) (os_bytes e) ptr" using b(2) u by (auto simp: in_block_def inside_def)
      then show ?thesis using over(1) by blast
    qed
  qed
  moreover have "\<exists>b\<in>blocks w - B. fst (region psz b) \<le> unat ptr \<and> unat ptr < fst (region psz b) + snd (region psz b)" if "?found"
  proof -
    have own: "b \<in> blocks w - B" if "b \<in> set (own ps os)" for b using that d(7,8) by blast
    consider (first) "ps \<noteq> []" "in_block (em_last_page r) (em_last_page_allocated r) ptr" | (page) p where "p \<in> set (tl (entries ps))" "in_block p (of_nat psz) ptr"
      | (over) e where "e \<in> set (entries os)" "in_block (os_page e) (os_bytes e) ptr" using \<open>?found\<close> by blast
    then show ?thesis
    proof cases
      case first
      have "Page (em_last_page r) \<in> set (own ps os)" using last_page_own [OF ok first(1)] by (simp add: own_def)
      then show ?thesis using first la' own by (intro bexI [of _ "Page (em_last_page r)"]) (auto simp: in_block_def)
    next
      case page
      then have "Page p \<in> set (own ps os)" by (cases "entries ps") (auto simp: own_def)
      then show ?thesis using page(2) own up by (intro bexI [of _ "Page p"]) (auto simp: in_block_def)
    next
      case over
      then have "up_block e \<in> set (own ps os)" by (simp add: own_def)
      then show ?thesis using over(2) own by (intro bexI [of _ "up_block e"]) (auto simp: in_block_def)
    qed
  qed
  ultimately show ?thesis using em_contains_eq [OF ok la'] by blast
qed

end

end
