(* ===== verification/MonotonicMemory.thy ===== *)
theory MonotonicMemory
  imports PageMemory MonotonicContains
begin

text \<open>
  The monotonic buffer resource on the memory of the program: over \<open>SystemPageAllocator\<close> and \<open>new_delete_resource\<close>, its defaults, and
  over a \<open>PageHeap\<close>, whose cache outlives \<open>release\<close>.
\<close>

section \<open>The memory of the program\<close>

lemma heap_pages_other:
  assumes "(n, a) \<noteq> (of_nat psz, of_nat psz)"
  shows "heap_pages psz (insert (p, n, a) X) = heap_pages psz X" and "heap_rest psz (insert (p, n, a) X) = insert (p, n, a) (heap_rest psz X)"
    and "heap_pages psz (X - {(p, n, a)}) = heap_pages psz X" and "heap_rest psz (X - {(p, n, a)}) = heap_rest psz X - {(p, n, a)}"
  using assms by (auto simp: heap_pages_def heap_rest_def)

lemma heap_new_rest:
  assumes ok: "nd_ok ops valid blocks room a psz h" and n: "0 < unat n" "j < 64" "psz < unat n \<or> psz < 2 ^ j" "unat n + 2 ^ j \<le> room h"
  shows "\<exists>p h'. hp_new ops n (2 ^ j) h = Some (p, h') \<and> nd_ok ops valid blocks room a psz h' \<and> (p, n, 2 ^ j) \<notin> heap_rest psz (blocks h)
    \<and> heap_pages psz (blocks h') = heap_pages psz (blocks h) \<and> heap_rest psz (blocks h') = insert (p, n, 2 ^ j) (heap_rest psz (blocks h))
    \<and> room h \<le> room h' + unat n + 2 ^ j"
proof -
  obtain k where k: "heap_spec ops valid blocks room" "valid h" "psz = 2 ^ k" "(of_nat psz :: u64) = 2 ^ k" "unat (2 ^ k :: u64) = psz"
    using nd_okD [OF ok] by blast
  obtain p h' where p: "hp_new ops n (2 ^ j) h = Some (p, h')" "valid h'" "(p, n, 2 ^ j) \<notin> blocks h" "blocks h' = insert (p, n, 2 ^ j) (blocks h)"
    "room h \<le> room h' + unat n + 2 ^ j" using heap_specD(2) [OF k(1,2) n(1,2,4)] by blast
  have "unat (2 ^ j :: u64) = 2 ^ j" using n(2) by (simp add: unat_pow2)
  then have ne: "(n, 2 ^ j) \<noteq> (of_nat psz, of_nat psz :: u64)" using n(3) k(4,5) by auto
  show ?thesis using p ok heap_pages_other [OF ne] by (intro exI [of _ p] exI [of _ h']) (simp add: nd_ok_def heap_rest_def)
qed

lemma heap_delete_rest:
  assumes ok: "nd_ok ops valid blocks room a psz h" and x: "(p, n, b) \<in> heap_rest psz (blocks h)"
  shows "\<exists>h'. hp_delete ops p n b h = Some h' \<and> nd_ok ops valid blocks room a psz h' \<and> heap_pages psz (blocks h') = heap_pages psz (blocks h)
    \<and> heap_rest psz (blocks h') = heap_rest psz (blocks h) - {(p, n, b)} \<and> room h \<le> room h'"
proof -
  have m: "(p, n, b) \<in> blocks h" "(n, b) \<noteq> (of_nat psz, of_nat psz)" using x by (simp_all add: heap_rest_def)
  have k: "heap_spec ops valid blocks room" "valid h" using ok by (simp_all add: nd_ok_def)
  from heap_specD(3) [OF k m(1)] obtain h' where "hp_delete ops p n b h = Some h'" "valid h'" "blocks h' = blocks h - {(p, n, b)}" "room h \<le> room h'"
    by blast
  then show ?thesis using ok heap_pages_other [OF m(2)] by (intro exI [of _ h']) (simp add: nd_ok_def)
qed

interpretation ndm: page_memory "NewDelete_ops ops a" psz "nd_ok ops valid blocks room a psz" "\<lambda>h. heap_pages psz (blocks h)"
  "\<lambda>h. heap_rest psz (blocks h)" room "hp_new ops" "hp_delete ops"
  for ops :: "'h heap_ops" and valid blocks room a psz
  by unfold_locales (rule heap_new_rest, assumption+, rule heap_delete_rest)

text \<open>The heap beside a \<open>PageHeap\<close>.\<close>

definition ph_new :: "'h heap_ops \<Rightarrow> u64 \<Rightarrow> u64 \<Rightarrow> PageHeap \<times> 'h \<Rightarrow> (u64 \<times> PageHeap \<times> 'h) option" where
  "ph_new ops n a = (\<lambda>(p, h). map_option (\<lambda>(q, h). (q, p, h)) (hp_new ops n a h))"

definition ph_delete :: "'h heap_ops \<Rightarrow> u64 \<Rightarrow> u64 \<Rightarrow> u64 \<Rightarrow> PageHeap \<times> 'h \<Rightarrow> (PageHeap \<times> 'h) option" where
  "ph_delete ops q n a = (\<lambda>(p, h). map_option (Pair p) (hp_delete ops q n a h))"

lemma PageHeap_ops_base: "PageHeap_ops ops sys = base_ops (PageHeap_allocate ops sys) (PageHeap_deallocate ops sys) (\<lambda>(p, h). PageHeap_page_size sys p)"
  by (simp add: PageHeap_ops_def base_ops_def)

interpretation ph: page_provider "PageHeap_ops ops sys" psz "2 * psz"
  "ph_ok ops sys valid blocks room psz" "ph_out blocks psz" "\<lambda>(p, h). heap_rest psz (blocks h)" "ph_room room"
  for ops :: "'h heap_ops" and sys valid blocks room psz
  unfolding PageHeap_ops_base by (rule phb.page_provider_axioms)

interpretation phm: page_memory "PageHeap_ops ops sys" psz
  "ph_ok ops sys valid blocks room psz" "ph_out blocks psz" "\<lambda>(p, h). heap_rest psz (blocks h)" "ph_room room" "ph_new ops" "ph_delete ops"
  for ops :: "'h heap_ops" and sys valid blocks room psz
proof (unfold_locales, goal_cases)
  case (1 s n j)
  obtain p h where s: "s = (p, h)" by fastforce
  have c: "nd_ok ops valid blocks room (ph_active sys p) psz h" using 1(1) by (simp add: s ph_ok_def cached_ok_def)
  have "unat n + 2 ^ j \<le> room h" using 1(5) by (simp add: s ph_room_def)
  with heap_new_rest [OF c 1(2-4)] obtain q h' where q: "hp_new ops n (2 ^ j) h = Some (q, h')" "nd_ok ops valid blocks room (ph_active sys p) psz h'"
    "(q, n, 2 ^ j) \<notin> heap_rest psz (blocks h)" "heap_pages psz (blocks h') = heap_pages psz (blocks h)"
    "heap_rest psz (blocks h') = insert (q, n, 2 ^ j) (heap_rest psz (blocks h))" "room h \<le> room h' + unat n + 2 ^ j" by blast
  then show ?case using 1(1)
    by (intro exI [of _ q] exI [of _ "(p, h')"]) (simp add: s ph_new_def ph_ok_def cached_ok_def ph_out_def ph_room_def min_def)
next
  case (2 s q n a)
  obtain p h where s: "s = (p, h)" by fastforce
  have c: "nd_ok ops valid blocks room (ph_active sys p) psz h" using 2(1) by (simp add: s ph_ok_def cached_ok_def)
  from heap_delete_rest [OF c, of q n a] 2(2) obtain h' where q: "hp_delete ops q n a h = Some h'" "nd_ok ops valid blocks room (ph_active sys p) psz h'"
    "heap_pages psz (blocks h') = heap_pages psz (blocks h)" "heap_rest psz (blocks h') = heap_rest psz (blocks h) - {(q, n, a)}" "room h \<le> room h'"
    by (auto simp: s)
  then show ?case using 2(1)
    by (intro exI [of _ "(p, h')"]) (simp add: s ph_delete_def ph_ok_def cached_ok_def ph_out_def ph_room_def min_def)
qed

section \<open>The life of a resource\<close>

context memory_source
begin

text \<open>There are at most \<open>2 ^ 64 div psz\<close> pages.\<close>

lemma page_set_bounded:
  assumes inv: "invar w" and mem: "\<And>p. p \<in> P \<Longrightarrow> Page p \<in> blocks w"
  shows "card P \<le> 2 ^ 64 div psz"
proof -
  have pos: "0 < psz" using psz_bounds(1) [OF inv] by simp
  have inj: "inj_on (\<lambda>p :: u64. unat p div psz) P"
  proof (rule inj_onI)
    fix p q :: u64 assume pq: "p \<in> P" "q \<in> P" "unat p div psz = unat q div psz"
    have "psz dvd unat p" "psz dvd unat q" using page_aligned [OF inv] mem pq(1,2) by blast+
    then have "unat p = unat q" using pq(3) by (metis dvd_div_mult_self)
    then show "p = q" by (simp add: word_unat_eq_iff)
  qed
  have "(\<lambda>p :: u64. unat p div psz) ` P \<subseteq> {..< 2 ^ 64 div psz}"
  proof (rule image_subsetI)
    fix p :: u64 assume p: "p \<in> P"
    have "unat p + psz < 2 ^ 64" using blocks_bounds [OF inv mem [OF p]] by simp
    then have "(unat p + psz) div psz \<le> 2 ^ 64 div psz" by (intro div_le_mono) simp
    then show "unat p div psz \<in> {..< 2 ^ 64 div psz}" using pos div_add_self2 [of psz "unat p"] by simp
  qed
  from card_inj_on_le [OF inj this finite_lessThan] show ?thesis by simp
qed

lemma pages_bounded:
  assumes ok: "em_ok (r, h, w) ps os ts us B"
  shows "length (entries ps) \<le> 2 ^ 64 div psz"
proof -
  note d = em_okD [OF ok]
  have "distinct (entries ps)" using d(6) by (simp add: own_def distinct_map)
  moreover have "Page p \<in> blocks w" if "p \<in> set (entries ps)" for p using that d(7) by (auto simp: own_def)
  ultimately show ?thesis using page_set_bounded [OF d(3), of "set (entries ps)"] by (simp add: distinct_card)
qed

lemma new_run:
  assumes "invar w" and "list_all em_op_ok ops" and "sum_list (map (em_op_cost psz) ops) + c \<le> room w"
  obtains got r' h' w' ps os ts us where "em_run env ops [] (em_new pa up, h, w) = Some (got, r', h', w')" and "em_ok (r', h', w') ps os ts us (blocks w)"
    and "entries ts = rev (registered ops)" and "subseq (got_regions got) us" and "\<forall>p n a. (p, n, a) \<in> set got \<longrightarrow> unat a dvd unat p"
    and "c \<le> room w'" and "map snd got = rev (requested ops)"
proof -
  have e: "subseq (got_regions []) []" "\<forall>p n a. (p, n, a) \<in> set [] \<longrightarrow> unat a dvd unat p" by (simp_all add: got_regions_def)
  have n: "entries [] = []" "map snd [] = []" by simp_all
  from em_run_ok [OF em_ok_new [OF assms(1), of h] assms(2,3) e, unfolded n append_Nil2] show ?thesis using that by blast
qed

lemma run_allocations:
  assumes "em_ok (r, h, w) ps os ts us B" and "subseq (got_regions got) us"
  shows "sorted_wrt apart (got_regions got)" and "u \<in> set (got_regions got) \<Longrightarrow> \<exists>b\<in>blocks w - B. inside u (region psz b)"
proof -
  note d = em_okD [OF assms(1)]
  show "sorted_wrt apart (got_regions got)" using d(9) sorted_wrt_subseq [OF assms(2)] by (simp add: carved_def)
  show "\<exists>b\<in>blocks w - B. inside u (region psz b)" if "u \<in> set (got_regions got)"
  proof -
    have "u \<in> set us" using that list_emb_set [OF assms(2)] by blast
    then obtain b where "b \<in> set (own ps os)" "inside u (region psz b)" using d(9) unfolding carved_def by blast
    then show ?thesis using d(7,8) by blast
  qed
qed

end

definition system_source :: "'h heap_ops \<Rightarrow> SystemPageAllocator \<Rightarrow> (unit, unit, 'h) mem_source" where
  "system_source ops sys = provider_source (System_ops ops sys) (hp_new ops) (hp_delete ops)"

definition heap_source :: "'h heap_ops \<Rightarrow> SystemPageAllocator \<Rightarrow> (unit, unit, PageHeap \<times> 'h) mem_source" where
  "heap_source ops sys = provider_source (PageHeap_ops ops sys) (ph_new ops) (ph_delete ops)"

lemma page_range_power: "page_range psz \<Longrightarrow> \<exists>k<63. psz = 2 ^ k"
proof -
  assume "page_range psz"
  then obtain k where "psz = 2 ^ k" "k < 32" unfolding page_range_def by blast
  then show ?thesis by (intro exI [of _ k]) simp
qed

lemma block_of_heap:
  assumes "nd_ok ops valid blocks room a psz h" and "b \<in> Page ` heap_pages psz (blocks h') \<union> up_blocks (heap_rest psz (blocks h'))
      - (Page ` heap_pages psz X \<union> up_blocks (heap_rest psz X))"
  shows "heap_of psz b \<in> blocks h' - X" and "region psz b = heap_region (heap_of psz b)"
proof -
  obtain k where k: "psz = 2 ^ k" "k < 63" using nd_okD [OF assms(1)] by blast
  have "psz < 2 ^ 63" unfolding k(1) using k(2) by (rule power_strict_increasing) simp
  then show "region psz b = heap_region (heap_of psz b)" by (rule heap_of_region)
  show "heap_of psz b \<in> blocks h' - X" using assms(2) by (cases b) (auto simp: heap_pages_def heap_rest_def)
qed

lemma system_run:
  assumes "heap_spec ops valid blocks room" and "valid h" and "nd_page_size (sy_allocator sys) = of_nat psz" and "page_range psz"
    and "list_all em_op_ok cmds" and "sum_list (map (em_op_cost psz) cmds) \<le> room h"
  obtains got r' eh' h' ps os ts us where "em_run (system_source ops sys) cmds [] (em_new () (), eh, h) = Some (got, r', eh', h')"
    and "ndm.mem.em_ok psz ops valid blocks room (sy_allocator sys) (r', eh', h') ps os ts us
      (Page ` heap_pages psz (blocks h) \<union> up_blocks (heap_rest psz (blocks h)))"
    and "entries ts = rev (registered cmds)" and "subseq (got_regions got) us" and "\<forall>p n a. (p, n, a) \<in> set got \<longrightarrow> unat a dvd unat p"
    and "0 \<le> room h'" and "map snd got = rev (requested cmds)"
proof -
  let ?a = "sy_allocator sys"
  have src: "system_source ops sys = provider_source (NewDelete_ops ops ?a) (hp_new ops) (hp_delete ops)" by (simp add: system_source_def System_ops_def)
  have "nd_ok ops valid blocks room ?a psz h" using assms(1-3) page_range_power [OF assms(4)] by (simp add: nd_ok_def)
  then have inv: "nd_ok ops valid blocks room ?a psz h \<and> page_range psz \<and> no_page psz (heap_rest psz (blocks h))" using assms(4) by simp
  have rm: "sum_list (map (em_op_cost psz) cmds) + 0 \<le> room h" using assms(6) by simp
  show thesis by (rule ndm.mem.new_run [OF inv assms(5) rm, of eh, folded src]) (rule that)
qed

text \<open>
  C9: Whatever requests of 1 to \<open>2^62\<close> bytes, aligned to powers of two up to \<open>2^62\<close>, are made and whatever destructors are registered, in any order (\<open>em_op_ok\<close>), as
  long as the heap has the memory (\<open>room\<close>), a new monotonic buffer resource over the system page allocator and operator new returns from every call, and the memory
  it gave out is aligned as asked for, pairwise disjoint, and inside blocks that were allocated for it. For requests of zero bytes or close to \<open>2^64\<close> bytes
  this is not so (\<open>zero_bytes_spoil_alignment\<close>, \<open>huge_request_wraps\<close>).
\<close>

theorem monotonic_allocations_disjoint:
  assumes "heap_spec ops valid blocks room" and "valid h" and "nd_page_size (sy_allocator sys) = of_nat psz" and "page_range psz"
    and "list_all em_op_ok cmds" and "sum_list (map (em_op_cost psz) cmds) \<le> room h"
  shows "\<exists>got r' eh' h'. em_run (system_source ops sys) cmds [] (em_new () (), eh, h) = Some (got, r', eh', h')
    \<and> map snd got = rev (requested cmds) \<and> (\<forall>p n a. (p, n, a) \<in> set got \<longrightarrow> unat a dvd unat p)
    \<and> sorted_wrt apart (got_regions got) \<and> (\<forall>u\<in>set (got_regions got). \<exists>x\<in>blocks h' - blocks h. inside u (heap_region x))"
proof -
  obtain got r' eh' h' ps os ts us where
    r: "em_run (system_source ops sys) cmds [] (em_new () (), eh, h) = Some (got, r', eh', h')"
      "ndm.mem.em_ok psz ops valid blocks room (sy_allocator sys) (r', eh', h') ps os ts us
        (Page ` heap_pages psz (blocks h) \<union> up_blocks (heap_rest psz (blocks h)))"
      "entries ts = rev (registered cmds)" "subseq (got_regions got) us" "\<forall>p n a. (p, n, a) \<in> set got \<longrightarrow> unat a dvd unat p"
      "0 \<le> room h'" "map snd got = rev (requested cmds)"
    by (rule system_run [OF assms])
  have nd: "nd_ok ops valid blocks room (sy_allocator sys) psz h" using assms(1-3) page_range_power [OF assms(4)] by (simp add: nd_ok_def)
  show ?thesis
  proof (intro exI conjI ballI)
    fix u assume "u \<in> set (got_regions got)"
    from ndm.mem.run_allocations(2) [OF r(2,4) this] obtain b where
      b: "b \<in> Page ` heap_pages psz (blocks h') \<union> up_blocks (heap_rest psz (blocks h')) - (Page ` heap_pages psz (blocks h) \<union> up_blocks (heap_rest psz (blocks h)))"
        "inside u (region psz b)" by blast
    show "\<exists>x\<in>blocks h' - blocks h. inside u (heap_region x)"
      using block_of_heap [OF nd b(1)] b(2) by (intro bexI [of _ "heap_of psz b"]) simp_all
  qed (use r ndm.mem.run_allocations(1) [OF r(2,4)] in simp_all)
qed

definition sample_cmds :: "nat em_op list" where
  "sample_cmds = [Allocate 100 8, Register 4711 1, Allocate 5000 64, Allocate 4000 16, Allocate 10 1, Register 4712 2]"

lemma sample_cmds_ok: "list_all em_op_ok sample_cmds" "list_all (em_op_small 4096) sample_cmds"
  "sum_list (map (em_op_cost 4096) sample_cmds) = 110520"
proof -
  have "\<exists>j\<le>62. (8 :: u64) = 2 ^ j" by (rule exI [of _ 3]) simp
  moreover have "\<exists>j\<le>62. (64 :: u64) = 2 ^ j" by (rule exI [of _ 6]) simp
  moreover have "\<exists>j\<le>62. (16 :: u64) = 2 ^ j" by (rule exI [of _ 4]) simp
  moreover have "\<exists>j\<le>62. (1 :: u64) = 2 ^ j" by (rule exI [of _ 0]) simp
  ultimately show "list_all em_op_ok sample_cmds" unfolding sample_cmds_def by simp
qed (simp_all add: sample_cmds_def em_cost_def)

definition sample_system :: SystemPageAllocator where
  "sample_system = System_construct bit_ceil_ref 4096"

lemma sample_system_size: "nd_page_size (sy_allocator sample_system) = of_nat 4096"
  by (simp add: sample_system_def System_construct_def NewDelete_set_page_size_def bit_ceil_ref_def)

lemma page_range_4096: "page_range 4096"
  unfolding page_range_def by (rule exI [of _ 12]) simp

definition no_arrays :: "nat em_heap" where
  "no_arrays = \<lparr>eh_page_arrays = Map.empty, eh_oversize_arrays = Map.empty, eh_task_arrays = Map.empty, eh_oversize_page_adder = 0\<rparr>"

lemma sample_room: "sum_list (map (em_op_cost 4096) sample_cmds) \<le> bump_room bump_init"
  by (simp add: sample_cmds_ok(3) bump_room_def bump_init_def)

theorem monotonic_allocations_disjoint_witness:
  "\<exists>got r' eh' h'. em_run (system_source bump_ops sample_system) sample_cmds [] (em_new () (), no_arrays, bump_init) = Some (got, r', eh', h')
    \<and> map snd got = rev (requested sample_cmds) \<and> sorted_wrt apart (got_regions got)"
  using monotonic_allocations_disjoint [OF bump_heap_spec bump_init_valid sample_system_size page_range_4096 sample_cmds_ok(1) sample_room, of no_arrays]
  by blast

text \<open>
  The requests \<open>em_op_ok\<close> leaves out do go wrong, with pages of 4096 bytes say. When a page is full (or was aligned past its end), a request of
  zero bytes opens a new page without taking any of it, and a request aligned to 8192 bytes gets the address of that page, whatever it is. And after 100 bytes of a
  page, a request of \<open>2^64 - 100\<close> bytes makes the sum of \<open>_last_page_allocated\<close> and \<open>bytes\<close> wrap: it is given an address in that page.
\<close>

lemma zero_bytes_spoil_alignment:
  assumes "ms_page_size env (em_page_allocator r) w = 4096" and "ms_page_size env (em_page_allocator r) w' = 4096"
    and "ms_page_allocate env (em_page_allocator r) w = Some (page, w')" and "em_last_page_allocated r = 8192"
    and "em_last_page_pointer r = Suc i" and "eh_page_arrays h (em_last_page_array r) = Some x" and "i < length (pg_pages x)"
  shows "\<exists>s. em_run env [Allocate 0 8, Allocate 64 8192] [] (r, h, w) = Some ([(page, 64, 8192), (page, 0, 8)], s)"
  using assms
  by (simp add: em_allocate_def do_align_def do_allocate_already_aligned_def do_allocate_in_new_page_def Let_def mem_write_def word_le_nat_alt)

lemma huge_request_wraps:
  assumes "ms_page_size env (em_page_allocator r) w = 4096" and "em_last_page_allocated r = 100"
  shows "\<exists>s. em_allocate env (- 100) 8 (r, h, w) = Some (em_last_page r + 104, s)"
  using assms by (simp add: em_allocate_def do_align_def do_allocate_already_aligned_def word_le_nat_alt)

text \<open>
  C14: \<open>contains\<close> is right as long as no alignment above the page size is asked for: it is true for every address in memory that was
  given out, and only for addresses in blocks allocated for the resource.
\<close>

theorem monotonic_contains_correct:
  assumes "heap_spec ops valid blocks room" and "valid h" and "nd_page_size (sy_allocator sys) = of_nat psz" and "page_range psz"
    and "list_all em_op_ok cmds" and "sum_list (map (em_op_cost psz) cmds) \<le> room h" and "list_all (em_op_small psz) cmds"
  shows "\<exists>got r' eh' h' found. em_run (system_source ops sys) cmds [] (em_new () (), eh, h) = Some (got, r', eh', h')
    \<and> em_contains (system_source ops sys) ptr (r', eh', h') = Some found
    \<and> (\<forall>p n a. (p, n, a) \<in> set got \<and> in_block p n ptr \<longrightarrow> found)
    \<and> (found \<longrightarrow> (\<exists>(p, n, a)\<in>blocks h' - blocks h. in_block p n ptr))"
proof -
  let ?a = "sy_allocator sys" and ?B = "Page ` heap_pages psz (blocks h) \<union> up_blocks (heap_rest psz (blocks h))"
  obtain got r' eh' h' ps os ts us where
    r: "em_run (system_source ops sys) cmds [] (em_new () (), eh, h) = Some (got, r', eh', h')"
      "ndm.mem.em_ok psz ops valid blocks room ?a (r', eh', h') ps os ts us ?B"
      "entries ts = rev (registered cmds)" "subseq (got_regions got) us" "\<forall>p n a. (p, n, a) \<in> set got \<longrightarrow> unat a dvd unat p"
      "0 \<le> room h'" "map snd got = rev (requested cmds)"
    by (rule system_run [OF assms(1-6)])
  have src: "system_source ops sys = provider_source (NewDelete_ops ops ?a) (hp_new ops) (hp_delete ops)" by (simp add: system_source_def System_ops_def)
  have nd: "nd_ok ops valid blocks room ?a psz h" using assms(1-3) page_range_power [OF assms(4)] by (simp add: nd_ok_def)
  then have "nd_ok ops valid blocks room ?a psz h \<and> page_range psz \<and> no_page psz (heap_rest psz (blocks h))" using assms(4) by simp
  note new = ndm.mem.em_ok_new [OF this, of eh]
  have "la_ok psz (em_new () ())" by (simp add: la_ok_def em_new_def)
  note la = ndm.mem.la_ok_run [OF new assms(5,7,6) this r(1) [unfolded src]]
  obtain found where f: "em_contains (system_source ops sys) ptr (r', eh', h') = Some found"
    "\<forall>u\<in>set us. fst u \<le> unat ptr \<and> unat ptr < fst u + snd u \<longrightarrow> found"
    "found \<longrightarrow> (\<exists>b\<in>Page ` heap_pages psz (blocks h') \<union> up_blocks (heap_rest psz (blocks h')) - ?B. fst (region psz b) \<le> unat ptr \<and> unat ptr < fst (region psz b) + snd (region psz b))"
    using ndm.mem.em_contains_sound_complete [OF r(2) la, of ptr, folded src] by blast
  have 1: "\<forall>p n a. (p, n, a) \<in> set got \<and> in_block p n ptr \<longrightarrow> found"
  proof (intro allI impI)
    fix p n a assume that: "(p, n, a) \<in> set got \<and> in_block p n ptr"
    have "(unat p, unat n) \<in> set (got_regions got)" using that by (force simp: got_regions_def)
    then have "(unat p, unat n) \<in> set us" using list_emb_set [OF r(4)] by blast
    with f(2) that show found unfolding in_block_def by (metis fst_conv snd_conv)
  qed
  have 2: "found \<longrightarrow> (\<exists>(p, n, a)\<in>blocks h' - blocks h. in_block p n ptr)"
  proof
    assume fd: found
    obtain b where b: "b \<in> Page ` heap_pages psz (blocks h') \<union> up_blocks (heap_rest psz (blocks h')) - ?B"
      "fst (region psz b) \<le> unat ptr \<and> unat ptr < fst (region psz b) + snd (region psz b)"
      by (rule bexE [OF mp [OF f(3) fd]])
    obtain p n a where pna: "heap_of psz b = (p, n, a)" by (cases "heap_of psz b") auto
    have rg: "region psz b = (unat p, unat n)" using block_of_heap(2) [OF nd b(1)] unfolding pna heap_region_def by simp
    have "in_block p n ptr" using b(2) unfolding rg in_block_def by simp
    moreover have "(p, n, a) \<in> blocks h' - blocks h" using block_of_heap(1) [OF nd b(1)] unfolding pna .
    ultimately show "\<exists>(p, n, a)\<in>blocks h' - blocks h. in_block p n ptr" by blast
  qed
  show ?thesis by (intro exI conjI) (rule r(1), rule f(1), rule 1, rule 2)
qed

theorem monotonic_contains_correct_witness:
  "\<exists>got r' eh' h' found. em_run (system_source bump_ops sample_system) sample_cmds [] (em_new () (), no_arrays, bump_init) = Some (got, r', eh', h')
    \<and> em_contains (system_source bump_ops sample_system) 8200 (r', eh', h') = Some found"
  using monotonic_contains_correct [OF bump_heap_spec bump_init_valid sample_system_size page_range_4096 sample_cmds_ok(1) sample_room sample_cmds_ok(2),
      of no_arrays 8200] by blast

text \<open>The blocks of a page heap and of the upstream beside it, as a resource sees them.\<close>

definition heap_held :: "('h \<Rightarrow> (u64 \<times> u64 \<times> u64) set) \<Rightarrow> nat \<Rightarrow> PageHeap \<times> 'h \<Rightarrow> block set" where
  "heap_held blocks psz = (\<lambda>s. Page ` ph_out blocks psz s \<union> up_blocks (case s of (p, h) \<Rightarrow> heap_rest psz (blocks h)))"

lemma page_heap_start:
  assumes "heap_spec ops valid blocks room" and "valid h" and "bit_ceil_spec bc"
    and "unat sc \<le> 2 ^ 62" and "unat page_size \<le> 2 ^ 62" and "unat n \<le> 2 ^ 61" and "page_range (unat (bc page_size))"
    and "c \<le> room h" and "c + 3 * unat (bc n) < 2 ^ 64"
  obtains p where "PageHeap_construct_sized bc (System_construct bc sc) n page_size = Some p" and "cache_pages (ph_cached_allocator p) = []"
    and "ph_ok ops (System_construct bc sc) valid blocks room (unat (bc page_size)) (p, h) \<and> page_range (unat (bc page_size))
      \<and> no_page (unat (bc page_size)) (case (p, h) of (p, h) \<Rightarrow> heap_rest (unat (bc page_size)) (blocks h))"
    and "c \<le> ph_room room (p, h)"
proof -
  let ?sys = "System_construct bc sc" and ?psz = "unat (bc page_size)"
  obtain p where p: "PageHeap_construct_sized bc ?sys n page_size = Some p" "nd_page_size (ph_active ?sys p) = bc page_size"
    "cache_ok (ph_cached_allocator p)" "cache_pages (ph_cached_allocator p) = []" "cache_index (ph_cached_allocator p) = 0"
    "cache_capacity (ph_cached_allocator p) = unat (bc n)"
    using PageHeap_construct_ok [OF assms(3-6) refl] by blast
  have "nd_ok ops valid blocks room (ph_active ?sys p) ?psz h" using assms(1,2) p(2) page_range_power [OF assms(7)] by (simp add: nd_ok_def)
  then have "ph_ok ops ?sys valid blocks room ?psz (p, h)" using p(3,4) by (simp add: ph_ok_def cached_ok_def)
  moreover have "c \<le> ph_room room (p, h)" using assms(8,9) p(5,6) by (simp add: ph_room_def cache_tickets_def)
  ultimately show thesis using that [OF p(1,4)] assms(7) by simp
qed

lemma heap_returned:
  assumes "ph_ok ops sys valid blocks room psz (p', h')" and "heap_held blocks psz (p', h') = heap_held blocks psz (p, h)" and "cache_pages (ph_cached_allocator p) = []"
  obtains h'' where "PageHeap_destroy ops sys (p', h') = Some h''" and "blocks h'' = blocks h"
proof -
  have inj: "P = P' \<and> X = X'" if "Page ` P \<union> up_blocks X = Page ` P' \<union> up_blocks X'" for P P' X X'
  proof -
    have "Page q \<in> Page ` P \<union> up_blocks X \<longleftrightarrow> Page q \<in> Page ` P' \<union> up_blocks X'" "Up q m a \<in> Page ` P \<union> up_blocks X \<longleftrightarrow> Up q m a \<in> Page ` P' \<union> up_blocks X'"
      for q m a using that by simp_all
    then show ?thesis by (auto simp: image_iff)
  qed
  have out: "ph_out blocks psz (p', h') = heap_pages psz (blocks h) \<union> {}" "heap_rest psz (blocks h') = heap_rest psz (blocks h)"
    using inj [OF assms(2) [unfolded heap_held_def]] assms(3) by (simp_all add: ph_out_def)
  from PageHeap_destroy_ok [OF assms(1) out] show thesis using that by (auto simp: page_blocks_def)
qed

text \<open>
  C8: A monotonic buffer resource over a page heap: after any requests of 1 to \<open>2^62\<close> bytes with alignments up to \<open>2^62\<close> and any registrations of destructors, for
  which the heap has the memory, \<open>release\<close> runs every registered destructor once, the
  newest first, and leaves the resource as it was constructed; when then the page heap is destroyed, every block the two had
  allocated has been given back to the heap, once, and nothing else.
\<close>

theorem monotonic_release_returns_everything:
  assumes "heap_spec ops valid blocks room" and "valid h" and "bit_ceil_spec bc"
    and "unat sc \<le> 2 ^ 62" and "unat page_size \<le> 2 ^ 62" and "unat n \<le> 2 ^ 61" and "page_range (unat (bc page_size))"
    and "list_all em_op_ok cmds"
    and "sum_list (map (em_op_cost (unat (bc page_size))) cmds) + 2 ^ 64 div unat (bc page_size) \<le> room h"
    and "sum_list (map (em_op_cost (unat (bc page_size))) cmds) + 2 ^ 64 div unat (bc page_size) + 3 * unat (bc n) < 2 ^ 64"
  shows "\<exists>p got s r' eh' p' h' h''. PageHeap_construct_sized bc (System_construct bc sc) n page_size = Some p
    \<and> em_run (heap_source ops (System_construct bc sc)) cmds [] (em_new () (), eh, p, h) = Some (got, s)
    \<and> em_release (heap_source ops (System_construct bc sc)) s = Some (rev (registered cmds), r', eh', p', h')
    \<and> r'\<lparr>em_last_page_allocated := UINT32_MAX\<rparr> = em_new () ()
    \<and> PageHeap_destroy ops (System_construct bc sc) (p', h') = Some h'' \<and> blocks h'' = blocks h"
proof -
  let ?sys = "System_construct bc sc" and ?psz = "unat (bc page_size)"
  obtain p where p: "PageHeap_construct_sized bc ?sys n page_size = Some p" "cache_pages (ph_cached_allocator p) = []"
    and inv: "ph_ok ops ?sys valid blocks room ?psz (p, h) \<and> page_range ?psz \<and> no_page ?psz (case (p, h) of (p, h) \<Rightarrow> heap_rest ?psz (blocks h))"
    and rm: "sum_list (map (em_op_cost ?psz) cmds) + 2 ^ 64 div ?psz \<le> ph_room room (p, h)"
    by (rule page_heap_start [OF assms(1-7,9,10)])
  let ?B = "Page ` ph_out blocks ?psz (p, h) \<union> up_blocks (case (p, h) of (p, h) \<Rightarrow> heap_rest ?psz (blocks h))"
  obtain got r1 eh1 s1 ps os ts us where
    r: "em_run (heap_source ops ?sys) cmds [] (em_new () (), eh, p, h) = Some (got, r1, eh1, s1)"
      "phm.mem.em_ok ?psz ops ?sys valid blocks room (r1, eh1, s1) ps os ts us ?B"
      "entries ts = rev (registered cmds)" "subseq (got_regions got) us" "\<forall>p n a. (p, n, a) \<in> set got \<longrightarrow> unat a dvd unat p"
      "2 ^ 64 div ?psz \<le> ph_room room s1" "map snd got = rev (requested cmds)"
    by (rule phm.mem.new_run [OF inv assms(8) rm, of eh, folded heap_source_def])
  have "length (entries ps) \<le> ph_room room s1" using phm.mem.pages_bounded [OF r(2)] r(6) by (rule order_trans)
  from phm.mem.em_release_ok [OF r(2) this, folded heap_source_def, unfolded r(3)] obtain r' eh' p' h' where
    e: "em_release (heap_source ops ?sys) (r1, eh1, s1) = Some (rev (registered cmds), r', eh', p', h')"
      "ph_ok ops ?sys valid blocks room ?psz (p', h')" "heap_held blocks ?psz (p', h') = heap_held blocks ?psz (p, h)"
      "r'\<lparr>em_last_page_allocated := UINT32_MAX\<rparr> = em_new () ()" by (auto simp: heap_held_def)
  obtain h'' where "PageHeap_destroy ops ?sys (p', h') = Some h''" "blocks h'' = blocks h" by (rule heap_returned [OF e(2,3) p(2)])
  then show ?thesis using p(1) r(1) e(1,4)
    by (intro exI [of _ p] exI [of _ got] exI [of _ "(r1, eh1, s1)"] exI [of _ r'] exI [of _ eh'] exI [of _ p'] exI [of _ h'] exI [of _ h'']) simp
qed

theorem monotonic_release_returns_everything_witness:
  "\<exists>p got s r' eh' p' h' h''. PageHeap_construct_sized bit_ceil_ref (System_construct bit_ceil_ref 4096) 8 4096 = Some p
    \<and> em_run (heap_source bump_ops (System_construct bit_ceil_ref 4096)) sample_cmds [] (em_new () (), no_arrays, p, bump_init) = Some (got, s)
    \<and> em_release (heap_source bump_ops (System_construct bit_ceil_ref 4096)) s = Some (rev (registered sample_cmds), r', eh', p', h')
    \<and> r'\<lparr>em_last_page_allocated := UINT32_MAX\<rparr> = em_new () ()
    \<and> PageHeap_destroy bump_ops (System_construct bit_ceil_ref 4096) (p', h') = Some h'' \<and> bh_blocks h'' = []"
proof -
  have bc: "unat (bit_ceil_ref (4096 :: u64)) = 4096" "unat (bit_ceil_ref (8 :: u64)) = 8" by (simp_all add: bit_ceil_ref_def)
  show ?thesis
    using monotonic_release_returns_everything [where ops = bump_ops and h = bump_init and bc = bit_ceil_ref and sc = 4096 and page_size = 4096 and n = 8
        and cmds = sample_cmds and eh = no_arrays, OF bump_heap_spec bump_init_valid bit_ceil_ref_spec]
    unfolding bc sample_cmds_ok(3) by (simp add: bump_room_def bump_init_def page_range_4096 sample_cmds_ok(1))
qed

end
