(* ===== verification/PageBatch.thy ===== *)
theory PageBatch
  imports PageProvider
begin

text \<open>
  The counting and the batch allocator over a page provider. The batch allocator takes \<open>batch_size\<close> pages at a time into a buffer per
  thread; the pages of the buffers that are not handed out yet are not \<open>batch_out\<close>.
\<close>

section \<open>The counting allocator\<close>

locale counting_provider = page_provider

sublocale counting_provider \<subseteq> counting: page_provider "Counting_ops up" psz cost "\<lambda>(c, s). ok s" "\<lambda>(c, s). out s" "\<lambda>(c, s). rest s" "\<lambda>(c, s). room s"
proof (unfold_locales, goal_cases)
  case (1 cs)
  then show ?case using cost by auto
next
  case (2 cs)
  then show ?case using page_size by (auto simp: Counting_ops_def)
next
  case (3 cs)
  then show ?case using pages_wf by auto
next
  case (4 cs)
  then show ?case using allocate [of "snd cs"] by (cases cs) (force simp: Counting_ops_def Counting_allocate_def)
next
  case (5 cs n)
  then show ?case using allocate_n [of "snd cs" n] by (cases cs) (force simp: Counting_ops_def Counting_allocate_n_def)
next
  case (6 cs p)
  then show ?case using deallocate [of "snd cs" p] by (cases cs) (force simp: Counting_ops_def Counting_deallocate_def)
next
  case (7 cs ps)
  then show ?case using deallocate_n [of "snd cs" ps] by (cases cs) (force simp: Counting_ops_def Counting_deallocate_n_def)
qed

interpretation nd_counting: counting_provider "NewDelete_ops ops a" psz "2 * psz"
  "nd_ok ops valid blocks room a psz" "\<lambda>h. heap_pages psz (blocks h)" "\<lambda>h. heap_rest psz (blocks h)" room
  for ops :: "'h heap_ops" and valid blocks room a psz
  by unfold_locales

lemma counting_exact:
  "Counting_allocate_n up n (c, s) = Some (ps, c', s') \<Longrightarrow> cn_allocate_page_num c' = cn_allocate_page_num c + of_nat n"
  "Counting_deallocate_n up ps (c, s) = Some (c', s') \<Longrightarrow> cn_allocate_page_num c' = cn_allocate_page_num c - of_nat (length ps)"
  by (auto simp: Counting_allocate_n_def Counting_deallocate_n_def Let_def bind_eq_Some_conv)

section \<open>The batch allocator\<close>

definition slot_prefetched :: "BatchSlot \<Rightarrow> u64 list" where
  "slot_prefetched sl = drop (bs_next_page sl) (bs_buffer sl)"

definition prefetched :: "BatchPageAllocator \<Rightarrow> u64 list" where
  "prefetched b = concat (map slot_prefetched (ba_cache b))"

text \<open>After \<open>set_batch_size\<close> every slot has a buffer of that size.\<close>

definition batch_wf :: "nat \<Rightarrow> BatchPageAllocator \<Rightarrow> bool" where
  "batch_wf k b \<longleftrightarrow> 0 < k \<and> ba_batch_size b = k \<and> ba_constructor b = \<lparr>bs_buffer = replicate k 0, bs_next_page = k\<rparr>
     \<and> (\<forall>sl\<in>set (ba_cache b). length (bs_buffer sl) = k)"

definition batch_ok_state :: "nat \<Rightarrow> ('s \<Rightarrow> bool) \<Rightarrow> ('s \<Rightarrow> u64 set) \<Rightarrow> BatchPageAllocator \<times> 's \<Rightarrow> bool" where
  "batch_ok_state k ok out = (\<lambda>(b, s). ok s \<and> batch_wf k b \<and> distinct (prefetched b) \<and> set (prefetched b) \<subseteq> out s)"

definition batch_out :: "('s \<Rightarrow> u64 set) \<Rightarrow> BatchPageAllocator \<times> 's \<Rightarrow> u64 set" where
  "batch_out out = (\<lambda>(b, s). out s - set (prefetched b))"

lemma Batch_set_batch_size_wf: "0 < k \<Longrightarrow> batch_wf k (Batch_set_batch_size k b) \<and> prefetched (Batch_set_batch_size k b) = []"
  by (auto simp: batch_wf_def Batch_set_batch_size_def Let_def prefetched_def slot_prefetched_def)

lemma prefetched_split:
  assumes "t < length (ba_cache b)"
  shows "prefetched b = concat (map slot_prefetched (take t (ba_cache b))) @ slot_prefetched (ba_cache b ! t) @ concat (map slot_prefetched (drop (Suc t) (ba_cache b)))"
    and "prefetched (b\<lparr>ba_cache := (ba_cache b)[t := sl]\<rparr>) =
      concat (map slot_prefetched (take t (ba_cache b))) @ slot_prefetched sl @ concat (map slot_prefetched (drop (Suc t) (ba_cache b)))"
proof -
  have "ba_cache b = take t (ba_cache b) @ ba_cache b ! t # drop (Suc t) (ba_cache b)" using assms by (rule id_take_nth_drop)
  then show "prefetched b = concat (map slot_prefetched (take t (ba_cache b))) @ slot_prefetched (ba_cache b ! t) @ concat (map slot_prefetched (drop (Suc t) (ba_cache b)))"
    unfolding prefetched_def by (metis concat.simps(2) concat_append list.simps(9) map_append)
  show "prefetched (b\<lparr>ba_cache := (ba_cache b)[t := sl]\<rparr>) =
      concat (map slot_prefetched (take t (ba_cache b))) @ slot_prefetched sl @ concat (map slot_prefetched (drop (Suc t) (ba_cache b)))"
    using assms by (simp add: prefetched_def upd_conv_take_nth_drop)
qed

lemma batch_local_wf:
  assumes "batch_wf k b"
  shows "batch_wf k (Batch_local t b)" and "prefetched (Batch_local t b) = prefetched b" and "t < length (ba_cache (Batch_local t b))"
  using assms by (auto simp: batch_wf_def Batch_local_def prefetched_def slot_prefetched_def)

context page_provider
begin

lemma batch_allocate_ok:
  assumes ok: "batch_ok_state k ok out (b, s)" and rm: "k * cost \<le> room s"
  shows "\<exists>p b' s'. Batch_allocate up t (b, s) = Some (p, b', s') \<and> batch_ok_state k ok out (b', s') \<and> p \<notin> batch_out out (b, s)
    \<and> batch_out out (b', s') = insert p (batch_out out (b, s)) \<and> rest s' = rest s \<and> room s \<le> room s' + k * cost"
proof -
  have d: "ok s" "batch_wf k b" "distinct (prefetched b)" "set (prefetched b) \<subseteq> out s" using ok by (simp_all add: batch_ok_state_def)
  define b1 where "b1 = Batch_local t b"
  have b1: "batch_wf k b1" "prefetched b1 = prefetched b" "t < length (ba_cache b1)" using batch_local_wf [OF d(2)] by (simp_all add: b1_def)
  define sl where "sl = ba_cache b1 ! t"
  have k: "0 < k" "ba_batch_size b1 = k" "length (bs_buffer sl) = k" using b1(1,3) by (auto simp: batch_wf_def sl_def)
  let ?A = "concat (map slot_prefetched (take t (ba_cache b1)))" and ?C = "concat (map slot_prefetched (drop (Suc t) (ba_cache b1)))"
  have pre: "prefetched b = ?A @ slot_prefetched sl @ ?C" using prefetched_split(1) [OF b1(3)] b1(2) by (simp add: sl_def)
  have upd: "prefetched (b1\<lparr>ba_cache := (ba_cache b1)[t := x]\<rparr>) = ?A @ slot_prefetched x @ ?C" for x by (rule prefetched_split(2) [OF b1(3)])
  have wf: "batch_wf k (b1\<lparr>ba_cache := (ba_cache b1)[t := x]\<rparr>)" if "length (bs_buffer x) = k" for x
    using b1(1) that set_update_subset_insert [of "ba_cache b1" t x] by (auto simp: batch_wf_def)
  show ?thesis
  proof (cases "bs_next_page sl < k")
    case True
    let ?p = "bs_buffer sl ! bs_next_page sl" and ?x = "sl\<lparr>bs_next_page := bs_next_page sl + 1\<rparr>"
    have cons: "slot_prefetched sl = ?p # slot_prefetched ?x" using True k(3) by (simp add: slot_prefetched_def Cons_nth_drop_Suc)
    let ?b = "b1\<lparr>ba_cache := (ba_cache b1)[t := ?x]\<rparr>"
    have "Batch_allocate up t (b, s) = Some (?p, ?b, s)"
      using True k b1(3) by (simp add: Batch_allocate_def b1_def [symmetric] sl_def [symmetric] mem_read_def)
    moreover have "batch_ok_state k ok out (?b, s)" using d pre cons upd [of ?x] wf [of ?x] k(3) by (auto simp: batch_ok_state_def)
    moreover have "?p \<notin> batch_out out (b, s)" "batch_out out (?b, s) = insert ?p (batch_out out (b, s))"
      using d(3,4) pre cons upd [of ?x] by (auto simp: batch_out_def)
    ultimately show ?thesis by (intro exI [of _ ?p] exI [of _ ?b] exI [of _ s]) simp
  next
    case False
    have nil: "slot_prefetched sl = []" using False k(3) by (simp add: slot_prefetched_def)
    obtain ps s' where a: "pa_allocate_n up k s = Some (ps, s')" "ok s'" "length ps = k" "distinct ps" "set ps \<inter> out s = {}"
      "out s' = out s \<union> set ps" "rest s' = rest s" "room s \<le> room s' + k * cost" using allocate_n [OF d(1) rm] by blast
    then obtain p qs where ps: "ps = p # qs" using k(1) by (cases ps) auto
    let ?x = "\<lparr>bs_buffer = ps, bs_next_page = 1\<rparr>" and ?b = "b1\<lparr>ba_cache := (ba_cache b1)[t := \<lparr>bs_buffer = ps, bs_next_page = 1\<rparr>]\<rparr>"
    have x: "slot_prefetched ?x = qs" by (simp add: slot_prefetched_def ps)
    have "Batch_allocate up t (b, s) = Some (p, ?b, s')"
      using False k b1(3) a(1) by (simp add: Batch_allocate_def b1_def [symmetric] sl_def [symmetric] mem_read_def Let_def ps)
    moreover have "batch_ok_state k ok out (?b, s')" using d pre nil upd [of ?x] wf [of ?x] x a(2-6) ps by (auto simp: batch_ok_state_def)
    moreover have "p \<notin> batch_out out (b, s)" "batch_out out (?b, s') = insert p (batch_out out (b, s))"
      using d(3,4) pre nil upd [of ?x] x a(4-6) ps by (auto simp: batch_out_def)
    ultimately show ?thesis using a(7,8) by blast
  qed
qed

text \<open>The destructor gives the prefetched pages of all threads back.\<close>

lemma return_prefetched_ok:
  assumes "ok s" and "distinct (concat (map slot_prefetched sls))" and "set (concat (map slot_prefetched sls)) \<subseteq> out s"
    and "length (concat (map slot_prefetched sls)) \<le> room s"
  shows "\<exists>s'. return_prefetched up sls s = Some s' \<and> ok s' \<and> out s' = out s - set (concat (map slot_prefetched sls)) \<and> rest s' = rest s"
  using assms
proof (induction sls arbitrary: s)
  case (Cons sl sls)
  have p: "distinct (slot_prefetched sl)" "set (slot_prefetched sl) \<subseteq> out s" "length (slot_prefetched sl) \<le> room s" using Cons.prems by auto
  obtain s1 where s1: "pa_deallocate_n up (slot_prefetched sl) s = Some s1" "ok s1" "out s1 = out s - set (slot_prefetched sl)" "rest s1 = rest s"
    "room s \<le> room s1 + length (slot_prefetched sl)" using deallocate_n [OF Cons.prems(1) p] by blast
  have r: "(if bs_next_page sl < length (bs_buffer sl) then pa_deallocate_n up (drop (bs_next_page sl) (bs_buffer sl)) s else Some s) = Some s2"
    if "s2 = (if slot_prefetched sl = [] then s else s1)" for s2
    using s1(1) that by (auto simp: slot_prefetched_def)
  define s2 where "s2 = (if slot_prefetched sl = [] then s else s1)"
  have s2: "ok s2" "out s2 = out s - set (slot_prefetched sl)" "rest s2 = rest s" "room s \<le> room s2 + length (slot_prefetched sl)"
    using s1 Cons.prems(1) by (simp_all add: s2_def)
  have "distinct (concat (map slot_prefetched sls))" "set (concat (map slot_prefetched sls)) \<subseteq> out s2" "length (concat (map slot_prefetched sls)) \<le> room s2"
    using Cons.prems(2-4) s2(2,4) by auto
  from Cons.IH [OF s2(1) this] obtain s' where "return_prefetched up sls s2 = Some s'" "ok s'"
    "out s' = out s2 - set (concat (map slot_prefetched sls))" "rest s' = rest s2" by blast
  then show ?case using r [OF s2_def] s2 by (intro exI [of _ s']) auto
qed simp

lemma batch_destroy_ok:
  "batch_ok_state k ok out (b, s) \<Longrightarrow> length (prefetched b) \<le> room s \<Longrightarrow>
    \<exists>s'. Batch_destroy up (b, s) = Some s' \<and> ok s' \<and> out s' = batch_out out (b, s) \<and> rest s' = rest s"
  using return_prefetched_ok [of s "ba_cache b"] by (auto simp: batch_ok_state_def batch_out_def Batch_destroy_def prefetched_def)

end

section \<open>What goes wrong\<close>

text \<open>Without \<open>set_batch_size\<close> the first allocation writes a batch of pages into an empty buffer.\<close>

lemma Batch_default_overruns: "Batch_allocate up t (Batch_new, s) = None"
proof -
  have "ba_cache (Batch_local t Batch_new) = replicate (Suc t) BatchSlot_new" by (simp add: Batch_local_def Batch_new_def)
  moreover have "ba_batch_size (Batch_local t Batch_new) = 16" by (simp add: Batch_local_def Batch_new_def)
  ultimately show ?thesis by (cases "pa_allocate_n up 16 s") (simp_all add: Batch_allocate_def mem_read_def BatchSlot_new_def del: replicate_Suc)
qed

text \<open>A second \<open>set_batch_size\<close> forgets the pages that were prefetched: upstream still counts them as handed out.\<close>

lemma Batch_resize_leaks: "0 < k' \<Longrightarrow> batch_out out (Batch_set_batch_size k' b, s) = out s"
  using Batch_set_batch_size_wf [of k' b] by (simp add: batch_out_def)

end
