(* ===== verification/ThreadLocal.thy ===== *)
theory ThreadLocal
  imports ThreadIds
begin

text \<open>
  \<open>base/thread_local.h\<close>: \<open>EnumerableThreadLocal\<close>, one element of a growing array per thread identifier, and
  \<open>CompactEnumerableThreadLocal\<close>, whose instances share cache lines: instance \<open>id\<close> owns element \<open>id % NUM\<close> of every line of
  the storage \<open>id / NUM\<close>.

  Both are written over the interfaces below them: \<open>array_ops\<close> for the identifiers (of threads with 16 bits, of instances with 32) and
  \<open>array\<close> for the storage. A reference the code returns is the index it names.
\<close>

section \<open>Enumerable thread-local storage\<close>

text \<open>
  The \<open>ThreadId\<close> registry is shared by all instances of one element type, so it is passed beside the storage. \<open>local\<close> of thread
  \<open>t\<close> gives the index of the thread's element.
\<close>

definition etl_local :: "(u16, 't) array_ops \<Rightarrow> ('a, 's) array \<Rightarrow> nat \<Rightarrow> (u16, 't) thread_ids \<Rightarrow> 's \<Rightarrow> (u64 \<times> (u16, 't) thread_ids \<times> 's) option" where
  "etl_local tops ga t tids s = do {
     (i, tids) \<leftarrow> current_thread_id tops t tids;
     s \<leftarrow> ga_ensure ga (ucast (vv_value i)) s;
     Some (ucast (vv_value i), tids, s) }"

text \<open>The upper end of \<open>for_each\<close>: the size of the snapshot is cut to 16 bits.\<close>

definition etl_end :: "(u16, 't) thread_ids \<Rightarrow> u64 \<Rightarrow> u16" where
  "etl_end tids sz = min (ThreadId_end tids) (ucast sz)"

definition etl_for_each :: "('a, 's) array \<Rightarrow> ('a \<Rightarrow> 'a) \<Rightarrow> (u16, 't) thread_ids \<Rightarrow> 's \<Rightarrow> 's option" where
  "etl_for_each ga f tids s = do {
     sz \<leftarrow> ga_size ga s;
     ga_update ga 0 (ucast (etl_end tids sz)) f s }"

definition etl_for_each_const :: "('a, 's) array \<Rightarrow> (u16, 't) thread_ids \<Rightarrow> 's \<Rightarrow> 'a list list option" where
  "etl_for_each_const ga tids s = do {
     sz \<leftarrow> ga_size ga s;
     ga_segments ga 0 (ucast (etl_end tids sz)) s }"

text \<open>Over the ranges of live identifiers; only the \<open>const\<close> form clips them to the size.\<close>

fun update_ranges :: "('a, 's) array \<Rightarrow> ('a \<Rightarrow> 'a) \<Rightarrow> (u16 \<times> u16) list \<Rightarrow> 's \<Rightarrow> 's option" where
  "update_ranges ga f [] s = Some s"
| "update_ranges ga f ((b, e) # calls) s = do { s \<leftarrow> ga_update ga (ucast b) (ucast e) f s; update_ranges ga f calls s }"

fun collect_ranges :: "('a, 's) array \<Rightarrow> u16 \<Rightarrow> (u16 \<times> u16) list \<Rightarrow> 's \<Rightarrow> 'a list list option" where
  "collect_ranges ga sz [] s = Some []"
| "collect_ranges ga sz ((b, e) # calls) s = do {
     segs \<leftarrow> ga_segments ga (ucast (min b sz)) (ucast (min e sz)) s;
     rest \<leftarrow> collect_ranges ga sz calls s;
     Some (segs @ rest) }"

definition etl_for_each_alive :: "(u16, 't) array_ops \<Rightarrow> ('a, 's) array \<Rightarrow> ('a \<Rightarrow> 'a) \<Rightarrow> (u16, 't) thread_ids \<Rightarrow> 's \<Rightarrow> 's option" where
  "etl_for_each_alive tops ga f tids s = do {
     calls \<leftarrow> ThreadId_for_each tops tids;
     update_ranges ga f calls s }"

definition etl_for_each_alive_const :: "(u16, 't) array_ops \<Rightarrow> ('a, 's) array \<Rightarrow> (u16, 't) thread_ids \<Rightarrow> 's \<Rightarrow> 'a list list option" where
  "etl_for_each_alive_const tops ga tids s = do {
     sz \<leftarrow> ga_size ga s;
     calls \<leftarrow> ThreadId_for_each tops tids;
     collect_ranges ga (ucast sz) calls s }"

section \<open>Compact thread-local storage\<close>

text \<open>The function-local statics of one instantiation and the registry of its \<open>CacheLine\<close> type.\<close>

record ('i, 't, 'o) compact_statics =
  cs_id_allocator :: "(u32, 'i) IdAllocator"
  cs_storage_vector :: 'o
  cs_thread_ids :: "(u16, 't) thread_ids"

text \<open>\<open>_storage\<close>, a pointer into \<open>storage_vector\<close>, is the index of the element.\<close>

record CompactEnumerableThreadLocal =
  ct_instance_id :: u32
  ct_cacheline_offset :: u32
  ct_storage :: u64

text \<open>
  What an instantiation is built from: \<open>NUM_PER_CACHELINE\<close>, the value of \<open>T()\<close>, the arrays of the two identifier allocators, the
  storage vector and the storages in it.
\<close>

record ('a, 'i, 't, 's, 'o) compact_env =
  ce_num :: u32
  ce_T :: 'a
  ce_ids :: "(u32, 'i) array_ops"
  ce_tops :: "(u16, 't) array_ops"
  ce_line :: "('a list, 's) array"
  ce_vector :: "('s, 'o) array"

definition ct_construct :: "('a, 'i, 't, 's, 'o) compact_env \<Rightarrow> ('i, 't, 'o) compact_statics \<Rightarrow> (CompactEnumerableThreadLocal \<times> ('i, 't, 'o) compact_statics) option" where
  "ct_construct E st = do {
     (i, ia) \<leftarrow> allocate (ce_ids E) (cs_id_allocator st);
     let instance_id = vv_value i;
     let slot_index = ucast (instance_id div ce_num E);
     sv \<leftarrow> ga_ensure (ce_vector E) slot_index (cs_storage_vector st);
     Some (\<lparr>ct_instance_id = instance_id, ct_cacheline_offset = instance_id mod ce_num E, ct_storage = slot_index\<rparr>,
       st\<lparr>cs_id_allocator := ia, cs_storage_vector := sv\<rparr>) }"

text \<open>Move assignment swaps, move construction constructs first; the pair is \<open>*this\<close> and \<open>other\<close>.\<close>

definition ct_move_assign ::
  "CompactEnumerableThreadLocal \<Rightarrow> CompactEnumerableThreadLocal \<Rightarrow> CompactEnumerableThreadLocal \<times> CompactEnumerableThreadLocal" where
  "ct_move_assign this other =
     (this\<lparr>ct_instance_id := ct_instance_id other, ct_cacheline_offset := ct_cacheline_offset other, ct_storage := ct_storage other\<rparr>,
      other\<lparr>ct_instance_id := ct_instance_id this, ct_cacheline_offset := ct_cacheline_offset this, ct_storage := ct_storage this\<rparr>)"

definition ct_move_construct :: "('a, 'i, 't, 's, 'o) compact_env \<Rightarrow> CompactEnumerableThreadLocal \<Rightarrow> ('i, 't, 'o) compact_statics \<Rightarrow>
    (CompactEnumerableThreadLocal \<times> CompactEnumerableThreadLocal \<times> ('i, 't, 'o) compact_statics) option" where
  "ct_move_construct E other st = do {
     (this, st) \<leftarrow> ct_construct E st;
     let (this, other) = ct_move_assign this other;
     Some (this, other, st) }"

text \<open>A call on \<open>*_storage\<close> that changes it.\<close>

definition on_storage :: "('a, 'i, 't, 's, 'o) compact_env \<Rightarrow> u64 \<Rightarrow> ('s \<Rightarrow> 's option) \<Rightarrow> ('i, 't, 'o) compact_statics \<Rightarrow> ('i, 't, 'o) compact_statics option" where
  "on_storage E k f st = do {
     s \<leftarrow> ga_load (ce_vector E) k (cs_storage_vector st);
     s \<leftarrow> f s;
     sv \<leftarrow> ga_store (ce_vector E) k s (cs_storage_vector st);
     Some (st\<lparr>cs_storage_vector := sv\<rparr>) }"

text \<open>A \<open>T&\<close>: storage, line and offset in it.\<close>

type_synonym cell_ref = "u64 \<times> u64 \<times> u32"

definition ct_local :: "('a, 'i, 't, 's, 'o) compact_env \<Rightarrow> nat \<Rightarrow> CompactEnumerableThreadLocal \<Rightarrow> ('i, 't, 'o) compact_statics \<Rightarrow>
    (cell_ref \<times> ('i, 't, 'o) compact_statics) option" where
  "ct_local E t this st = do {
     s \<leftarrow> ga_load (ce_vector E) (ct_storage this) (cs_storage_vector st);
     (i, tids, s) \<leftarrow> etl_local (ce_tops E) (ce_line E) t (cs_thread_ids st) s;
     sv \<leftarrow> ga_store (ce_vector E) (ct_storage this) s (cs_storage_vector st);
     Some ((ct_storage this, i, ct_cacheline_offset this), st\<lparr>cs_storage_vector := sv, cs_thread_ids := tids\<rparr>) }"

fun ref_load :: "('a, 'i, 't, 's, 'o) compact_env \<Rightarrow> cell_ref \<Rightarrow> ('i, 't, 'o) compact_statics \<Rightarrow> 'a option" where
  "ref_load E (k, i, c) st = do {
     s \<leftarrow> ga_load (ce_vector E) k (cs_storage_vector st);
     line \<leftarrow> ga_load (ce_line E) i s;
     mem_read line (unat c) }"

fun ref_store :: "('a, 'i, 't, 's, 'o) compact_env \<Rightarrow> cell_ref \<Rightarrow> 'a \<Rightarrow> ('i, 't, 'o) compact_statics \<Rightarrow> ('i, 't, 'o) compact_statics option" where
  "ref_store E (k, i, c) x st = on_storage E k (\<lambda>s. do {
     line \<leftarrow> ga_load (ce_line E) i s;
     line \<leftarrow> mem_write line (unat c) x;
     ga_store (ce_line E) i line s }) st"

text \<open>The element of an instance in a line, for the callbacks that run over lines.\<close>

definition line_get :: "u32 \<Rightarrow> 'a list \<Rightarrow> 'a" where "line_get c line = line ! unat c"
definition line_map :: "u32 \<Rightarrow> ('a \<Rightarrow> 'a) \<Rightarrow> 'a list \<Rightarrow> 'a list" where "line_map c f line = line[unat c := f (line ! unat c)]"

definition ct_for_each :: "('a, 'i, 't, 's, 'o) compact_env \<Rightarrow> ('a \<Rightarrow> 'a) \<Rightarrow> CompactEnumerableThreadLocal \<Rightarrow> ('i, 't, 'o) compact_statics \<Rightarrow>
    ('i, 't, 'o) compact_statics option" where
  "ct_for_each E f this st =
     on_storage E (ct_storage this) (etl_for_each (ce_line E) (line_map (ct_cacheline_offset this) f) (cs_thread_ids st)) st"

definition ct_for_each_const :: "('a, 'i, 't, 's, 'o) compact_env \<Rightarrow> CompactEnumerableThreadLocal \<Rightarrow> ('i, 't, 'o) compact_statics \<Rightarrow> 'a list option" where
  "ct_for_each_const E this st = do {
     s \<leftarrow> ga_load (ce_vector E) (ct_storage this) (cs_storage_vector st);
     segs \<leftarrow> etl_for_each_const (ce_line E) (cs_thread_ids st) s;
     Some (map (line_get (ct_cacheline_offset this)) (concat segs)) }"

definition ct_for_each_alive :: "('a, 'i, 't, 's, 'o) compact_env \<Rightarrow> ('a \<Rightarrow> 'a) \<Rightarrow> CompactEnumerableThreadLocal \<Rightarrow> ('i, 't, 'o) compact_statics \<Rightarrow>
    ('i, 't, 'o) compact_statics option" where
  "ct_for_each_alive E f this st =
     on_storage E (ct_storage this) (etl_for_each_alive (ce_tops E) (ce_line E) (line_map (ct_cacheline_offset this) f) (cs_thread_ids st)) st"

definition ct_for_each_alive_const :: "('a, 'i, 't, 's, 'o) compact_env \<Rightarrow> CompactEnumerableThreadLocal \<Rightarrow> ('i, 't, 'o) compact_statics \<Rightarrow> 'a list option" where
  "ct_for_each_alive_const E this st = do {
     s \<leftarrow> ga_load (ce_vector E) (ct_storage this) (cs_storage_vector st);
     segs \<leftarrow> etl_for_each_alive_const (ce_tops E) (ce_line E) (cs_thread_ids st) s;
     Some (map (line_get (ct_cacheline_offset this)) (concat segs)) }"

definition ct_destroy :: "('a, 'i, 't, 's, 'o) compact_env \<Rightarrow> CompactEnumerableThreadLocal \<Rightarrow> ('i, 't, 'o) compact_statics \<Rightarrow> ('i, 't, 'o) compact_statics option" where
  "ct_destroy E this st = do {
     st \<leftarrow> ct_for_each E (\<lambda>_. ce_T E) this st;
     ia \<leftarrow> deallocate (ce_ids E) (VersionedValue_of (ct_instance_id this)) (cs_id_allocator st);
     Some (st\<lparr>cs_id_allocator := ia\<rparr>) }"

text \<open>The thread-local \<open>ThreadId\<close> object of an exiting thread is destroyed.\<close>

definition ct_thread_exit :: "('a, 'i, 't, 's, 'o) compact_env \<Rightarrow> nat \<Rightarrow> ('i, 't, 'o) compact_statics \<Rightarrow> ('i, 't, 'o) compact_statics option" where
  "ct_thread_exit E t st = do {
     tids \<leftarrow> ThreadId_destroy (ce_tops E) t (cs_thread_ids st);
     Some (st\<lparr>cs_thread_ids := tids\<rparr>) }"

end
