(* ===== verification/ThreadLocalSpec.thy ===== *)
theory ThreadLocalSpec
  imports ThreadLocal
begin

text \<open>
  What thread-local storage promises. Identifier allocators are given a budget: \<open>ids_ok lim b\<close> says that \<open>b\<close> more allocations keep the allocator
  below \<open>lim\<close> identifiers (deallocations are free, there cannot be more of them than allocations). The locale \<open>compact_storage\<close> puts the
  four arrays of a \<open>CompactEnumerableThreadLocal\<close> together; its invariant gives every instance a cell per thread identifier of its own, which no other
  instance touches.
\<close>

section \<open>Budgets\<close>

context free_next_array
begin

definition ids_ok where
  "ids_ok lim b ia held \<longleftrightarrow> Suc lim < 2 ^ LENGTH('w) \<and> unat (ia_next_value ia) + b \<le> lim \<and>
     (\<exists>past d fl. ia_ok invar len val fl ia \<and> run_ok past d fl ia held \<and> d + length held + b \<le> lim)"

lemma ids_ok_mono: "ids_ok lim b ia held \<Longrightarrow> b' \<le> b \<Longrightarrow> ids_ok lim b' ia held"
  unfolding ids_ok_def by (meson add_le_mono le_trans order_refl)

lemma ids_held:
  assumes "ids_ok lim b ia held"
  shows "distinct (map vv_value held)" and "h \<in> set held \<Longrightarrow> vv_value h < ia_next_value ia"
  using assms by (auto simp: ids_ok_def run_ok_def)

lemma ids_new:
  assumes "invar s" and "b \<le> lim" and "Suc lim < 2 ^ LENGTH('w)"
  shows "ids_ok lim b (IdAllocator_new s) []"
  unfolding ids_ok_def using assms
  by (intro conjI exI [of _ "{}"] exI [of _ "0"] exI [of _ "[]"]) (simp_all add: ia_ok_def run_ok_def Let_def IdAllocator_new_def VersionedValue_of_def)

lemma ids_alloc:
  assumes "ids_ok lim (Suc b) ia held"
  obtains h ia' where "allocate ops ia = Some (h, ia')" and "ids_ok lim b ia' (held @ [h])" and "ia_next_value ia \<le> ia_next_value ia'"
proof -
  from assms obtain past d fl where 0: "Suc lim < 2 ^ LENGTH('w)" "unat (ia_next_value ia) + Suc b \<le> lim"
    "ia_ok invar len val fl ia" "run_ok past d fl ia held" "d + length held + Suc b \<le> lim" by (auto simp: ids_ok_def)
  have lt: "Suc (Suc (unat (ia_next_value ia))) < 2 ^ LENGTH('w)" "d < 2 ^ LENGTH('w)" using 0(1,2,5) by linarith+
  from alloc_step [OF 0(3,4) lt] obtain h ia' fl' where
    1: "allocate ops ia = Some (h, ia')" "ia_ok invar len val fl' ia'" "run_ok (insert h past) d fl' ia' (held @ [h])"
      "unat (ia_next_value ia') \<le> Suc (unat (ia_next_value ia))" by blast
  have "unat (ia_next_value ia') + b \<le> lim" "d + length (held @ [h]) + b \<le> lim" using 1(4) 0(2,5) by simp_all
  then have "ids_ok lim b ia' (held @ [h])" unfolding ids_ok_def using 0(1) 1(2,3) by blast
  moreover have "ia_next_value ia \<le> ia_next_value ia + 1" using lt(1) by (simp add: word_le_nat_alt unat_add_small)
  then have "ia_next_value ia \<le> ia_next_value ia'" using 1(1) by (auto simp: allocate_def Let_def bind_eq_Some_conv split: if_splits)
  ultimately show ?thesis using that 1(1) by blast
qed

lemma ids_free:
  assumes "ids_ok lim b ia held" and "n < length held"
  obtains ia' where "deallocate ops (held ! n) ia = Some ia'" and "ids_ok lim b ia' (take n held @ drop (Suc n) held)" and "ia_next_value ia' = ia_next_value ia"
proof -
  from assms(1) obtain past d fl where 0: "Suc lim < 2 ^ LENGTH('w)" "unat (ia_next_value ia) + b \<le> lim"
    "ia_ok invar len val fl ia" "run_ok past d fl ia held" "d + length held + b \<le> lim" by (auto simp: ids_ok_def)
  have "Suc d < 2 ^ LENGTH('w)" using 0(1,5) by linarith
  from free_step [OF 0(3,4) assms(2) this] obtain ia' fl' where
    1: "deallocate ops (held ! n) ia = Some ia'" "ia_ok invar len val fl' ia'" "run_ok past (Suc d) fl' ia' (take n held @ drop (Suc n) held)"
      "ia_next_value ia' = ia_next_value ia" by blast
  have "Suc d + length (take n held @ drop (Suc n) held) + b \<le> lim" "unat (ia_next_value ia') + b \<le> lim" using assms(2) 0(2,5) 1(4) by simp_all
  then have "ids_ok lim b ia' (take n held @ drop (Suc n) held)" unfolding ids_ok_def using 0(1) 1(2,3) by blast
  then show ?thesis using that 1(1,4) by blast
qed

definition threads_ok where
  "threads_ok lim b tids \<longleftrightarrow> ids_ok lim b (tid_allocator tids) (map snd (tid_live tids)) \<and> distinct (map fst (tid_live tids))"

lemma threads_ok_mono: "threads_ok lim b tids \<Longrightarrow> b' \<le> b \<Longrightarrow> threads_ok lim b' tids"
  by (auto simp: threads_ok_def intro: ids_ok_mono)

lemma threads_end: "threads_ok lim b tids \<Longrightarrow> unat (ThreadId_end tids) + b \<le> lim"
  by (simp add: threads_ok_def ids_ok_def ThreadId_end_def IdAllocator_end_def)

lemma live_below_end:
  assumes "threads_ok lim b tids" and "map_of (tid_live tids) t = Some h"
  shows "vv_value h < ThreadId_end tids"
  using assms map_of_SomeD [OF assms(2)] ids_held(2) [of lim b "tid_allocator tids" "map snd (tid_live tids)" h]
  by (force simp: threads_ok_def ThreadId_end_def IdAllocator_end_def)

lemma live_distinct:
  assumes "threads_ok lim b tids" and "map_of (tid_live tids) t = Some h" and "map_of (tid_live tids) t' = Some h'" and "t \<noteq> t'"
  shows "vv_value h \<noteq> vv_value h'"
proof
  assume eq: "vv_value h = vv_value h'"
  have "distinct (map (\<lambda>x. vv_value (snd x)) (tid_live tids))" using assms(1) ids_held(1) by (fastforce simp: threads_ok_def comp_def)
  then have "inj_on (\<lambda>x. vv_value (snd x)) (set (tid_live tids))" by (simp add: distinct_map)
  from inj_onD [OF this _ map_of_SomeD [OF assms(2)] map_of_SomeD [OF assms(3)]] eq have "(t, h) = (t', h')" by simp
  then show False using assms(4) by simp
qed

text \<open>A live thread keeps its identifier; another one takes one from the budget.\<close>

lemma threads_use:
  assumes "threads_ok lim (if map_of (tid_live tids) t = None then Suc b else b) tids"
  obtains h tids' where "current_thread_id ops t tids = Some (h, tids')" and "threads_ok lim b tids'" and "ThreadId_end tids \<le> ThreadId_end tids'"
    and "map_of (tid_live tids') = (map_of (tid_live tids))(t \<mapsto> h)"
proof (cases "map_of (tid_live tids) t")
  case (Some h)
  then have "map_of (tid_live tids) = (map_of (tid_live tids))(t \<mapsto> h)" by (simp add: fun_upd_idem)
  with Some show ?thesis using assms that [of h tids] by (simp add: current_thread_id_def)
next
  case None
  then have 0: "ids_ok lim (Suc b) (tid_allocator tids) (map snd (tid_live tids))" "distinct (map fst (tid_live tids))"
    using assms by (simp_all add: threads_ok_def)
  from ids_alloc [OF 0(1)] obtain h ia' where
    1: "allocate ops (tid_allocator tids) = Some (h, ia')" "ids_ok lim b ia' (map snd (tid_live tids) @ [h])"
      "ia_next_value (tid_allocator tids) \<le> ia_next_value ia'" .
  let ?tids = "\<lparr>tid_allocator = ia', tid_live = tid_live tids @ [(t, h)]\<rparr>"
  have n: "t \<notin> fst ` set (tid_live tids)" using None by (simp add: map_of_eq_None_iff)
  have "map_of (tid_live ?tids) = (map_of (tid_live tids))(t \<mapsto> h)" using None by (auto simp: fun_eq_iff map_add_def split: option.splits)
  moreover have "threads_ok lim b ?tids" using 0(2) 1(2) n by (simp add: threads_ok_def)
  ultimately show ?thesis using that [of h ?tids] None 1 by (simp add: current_thread_id_def ThreadId_end_def IdAllocator_end_def)
qed

lemma threads_exit:
  assumes "threads_ok lim b tids"
  obtains tids' where "ThreadId_destroy ops t tids = Some tids'" and "threads_ok lim b tids'" and "ThreadId_end tids' = ThreadId_end tids"
    and "map_of (tid_live tids') = (map_of (tid_live tids))(t := None)"
proof (cases "map_of (tid_live tids) t")
  case None
  then have "map_of (tid_live tids) = (map_of (tid_live tids))(t := None)" by (simp add: fun_upd_idem)
  with None show ?thesis using that [of tids] assms by (simp add: ThreadId_destroy_def)
next
  case (Some h)
  have 0: "ids_ok lim b (tid_allocator tids) (map snd (tid_live tids))" "distinct (map fst (tid_live tids))" using assms by (simp_all add: threads_ok_def)
  obtain ys zs where l: "tid_live tids = ys @ (t, h) # zs" "filter (\<lambda>x. fst x \<noteq> t) (tid_live tids) = ys @ zs" by (rule map_of_split [OF Some 0(2)])
  have "length ys < length (map snd (tid_live tids))" using l(1) by simp
  from ids_free [OF 0(1) this] obtain ia' where
    1: "deallocate ops h (tid_allocator tids) = Some ia'" "ids_ok lim b ia' (map snd (ys @ zs))" "ia_next_value ia' = ia_next_value (tid_allocator tids)"
    by (auto simp: l(1) nth_append)
  let ?tids = "\<lparr>tid_allocator = ia', tid_live = ys @ zs\<rparr>"
  have "t \<notin> fst ` set ys" "t \<notin> fst ` set zs" using 0(2) l(1) by auto
  then have "map_of ys t = None" "map_of zs t = None" by (simp_all add: map_of_eq_None_iff)
  then have "map_of (ys @ zs) = (map_of (tid_live tids))(t := None)" unfolding l(1) by (auto simp: fun_eq_iff map_add_def split: option.splits)
  then show ?thesis using that [of ?tids] Some 0(2) 1 l by (auto simp: ThreadId_destroy_def threads_ok_def ThreadId_end_def IdAllocator_end_def)
qed

end

section \<open>Compact storage\<close>

lemma filter_remove_nth:
  assumes "distinct xs" and "n < length xs"
  shows "filter (\<lambda>x. x \<noteq> xs ! n) xs = take n xs @ drop (Suc n) xs"
proof -
  let ?x = "xs ! n"
  have x: "xs = take n xs @ ?x # drop (Suc n) xs" using assms(2) by (rule id_take_nth_drop)
  then have "distinct (take n xs @ ?x # drop (Suc n) xs)" using assms(1) by simp
  then have "filter (\<lambda>x. x \<noteq> ?x) (take n xs) = take n xs" "filter (\<lambda>x. x \<noteq> ?x) (drop (Suc n) xs) = drop (Suc n) xs" by (auto simp: filter_id_conv)
  then show ?thesis by (subst x) (simp only: filter_append filter.simps, simp)
qed

text \<open>
  Fewer than \<open>2^16 - 128\<close> thread identifiers: with more the size of a storage reaches \<open>2^16\<close>, which \<open>for_each\<close> cuts to 0.
\<close>

definition MAX_THREADS :: nat where "MAX_THREADS = 65408"
definition MAX_INSTANCES :: nat where "MAX_INSTANCES = 4294967294"

lemma etl_end_eq:
  assumes "len \<le> MAX_THREADS"
  shows "unat (etl_end tids (of_nat len)) = min (unat (ThreadId_end tids)) len"
proof -
  have "unat (ucast (of_nat len :: u64) :: u16) = len" using assms by (simp add: unat_ucast_mod unat_of_nat_small MAX_THREADS_def)
  then show ?thesis by (auto simp: etl_end_def min_def word_le_nat_alt)
qed

locale compact_storage =
  ids: free_next_array "ce_ids E" iinvar ilen ival +
  tids: free_next_array "ce_tops E" tinvar tlen tval +
  line: growing_array "ce_line E" linvar llen lval lbound +
  vector: growing_array "ce_vector E" vinvar vlen vval vbound
  for E :: "('a, 'i, 't, 's, 'o) compact_env" and iinvar ilen ival tinvar tlen tval linvar llen lval lbound vinvar vlen vval vbound +
  assumes num: "1 < ce_num E" and lbound: "2 ^ 16 \<le> lbound" and vbound: "2 ^ 32 \<le> vbound"
begin

definition num where "num = unat (ce_num E)"
definition storage where "storage st = vval (cs_storage_vector st)"
definition tend where "tend st = unat (ThreadId_end (cs_thread_ids st))"

text \<open>The cell of instance \<open>i\<close> for thread identifier \<open>n\<close>.\<close>

definition cell where "cell st i n = lval (storage st (unat (i :: u32) div num)) n ! (unat i mod num)"
definition live where "live st t = map_option (\<lambda>h. unat (vv_value h)) (map_of (tid_live (cs_thread_ids st)) t)"

text \<open>The object of instance \<open>i\<close>, and the reference to its cell for thread identifier \<open>n\<close>.\<close>

definition handle where "handle i = \<lparr>ct_instance_id = i, ct_cacheline_offset = i mod ce_num E, ct_storage = ucast (i div ce_num E)\<rparr>"
definition ref where "ref i n = (ucast (i div ce_num E) :: u64, of_nat n :: u64, i mod ce_num E)"

definition reach where "reach st i = min (tend st) (llen (storage st (unat (i :: u32) div num)))"

definition storages_ok where
  "storages_ok f \<longleftrightarrow> (\<forall>k. linvar (f k) \<and> llen (f k) \<le> MAX_THREADS \<and> (\<forall>n. length (lval (f k) n) = num))"

definition compact_ok where
  "compact_ok a b st held \<longleftrightarrow> (\<exists>hs. ids.ids_ok MAX_INSTANCES a (cs_id_allocator st) hs \<and> map vv_value hs = held) \<and>
     tids.threads_ok MAX_THREADS b (cs_thread_ids st) \<and> vinvar (cs_storage_vector st) \<and> storages_ok (storage st) \<and>
     (\<forall>i\<in>set held. unat i div num < vlen (cs_storage_vector st)) \<and> (\<forall>i n. i \<notin> set held \<or> reach st i \<le> n \<longrightarrow> cell st i n = ce_T E)"

lemma num_pos: "0 < num" "1 < num"
  using num by (simp_all add: num_def word_less_nat_alt)

lemma slot_eq: "unat (ucast (i div ce_num E) :: u64) = unat i div num" "unat (i mod ce_num E) = unat i mod num" "unat i mod num < num"
  using num_pos by (simp_all add: num_def unat_div unat_mod unat_ucast_up)

lemma slot_inj: "unat i div num = unat j div num \<Longrightarrow> unat i mod num = unat j mod num \<longleftrightarrow> i = j"
  by (metis div_mult_mod_eq word_unat_eq_iff)

lemma slot_below: "unat (i :: u32) div num < vbound"
  using le_less_trans [OF div_le_dividend less_le_trans [OF unat_less_2p [of i]], of vbound num] vbound by simp

text \<open>A storage is replaced.\<close>

lemma storage_store:
  assumes "vinvar (cs_storage_vector st)" and "unat k < vlen (cs_storage_vector st)"
  obtains sv where "ga_store (ce_vector E) k s (cs_storage_vector st) = Some sv" and "vinvar sv" and "vlen sv = vlen (cs_storage_vector st)"
    and "vval sv = (storage st)(unat k := s)"
  using vector.store [OF assms, of s] unfolding storage_def by blast

lemma storage_load:
  assumes "vinvar (cs_storage_vector st)" and "unat k < vlen (cs_storage_vector st)"
  shows "ga_load (ce_vector E) k (cs_storage_vector st) = Some (storage st (unat k))"
  unfolding storage_def using assms by (rule vector.load)

lemma compact_okD:
  assumes "compact_ok a b st held"
  shows "tids.threads_ok MAX_THREADS b (cs_thread_ids st)" and "vinvar (cs_storage_vector st)" and "storages_ok (storage st)"
    and "i \<in> set held \<Longrightarrow> unat i div num < vlen (cs_storage_vector st)" and "i \<notin> set held \<or> reach st i \<le> n \<Longrightarrow> cell st i n = ce_T E"
    and "linvar (storage st k)" and "llen (storage st k) \<le> MAX_THREADS" and "length (lval (storage st k) n) = num" and "distinct held"
  using assms ids.ids_held(1) by (auto simp: compact_ok_def storages_ok_def)

lemma compact_ok_mono: "compact_ok a b st held \<Longrightarrow> a' \<le> a \<Longrightarrow> b' \<le> b \<Longrightarrow> compact_ok a' b' st held"
  unfolding compact_ok_def using ids.ids_ok_mono tids.threads_ok_mono by blast

text \<open>A new instance has an identifier no other has, and its cells are \<open>T()\<close>.\<close>

lemma construct_ok:
  assumes "compact_ok (Suc a) b st held"
  obtains i st' where "ct_construct E st = Some (handle i, st')" and "compact_ok a b st' (held @ [i])" and "cell st' = cell st" and "live st' = live st"
    and "\<And>j. reach st j \<le> reach st' j"
proof -
  note ok = compact_okD [OF assms]
  from assms obtain hs where 0: "ids.ids_ok MAX_INSTANCES (Suc a) (cs_id_allocator st) hs" "map vv_value hs = held" by (auto simp: compact_ok_def)
  from ids.ids_alloc [OF 0(1)] obtain h ia where 1: "allocate (ce_ids E) (cs_id_allocator st) = Some (h, ia)" "ids.ids_ok MAX_INSTANCES a ia (hs @ [h])" .
  let ?i = "vv_value h"
  have "unat (ucast (?i div ce_num E) :: u64) < vbound" unfolding slot_eq(1) by (rule slot_below)
  from vector.ensure [OF ok(2) this] obtain sv where
    2: "ga_ensure (ce_vector E) (ucast (?i div ce_num E)) (cs_storage_vector st) = Some sv" "vinvar sv"
      "vlen sv = max (vlen (cs_storage_vector st)) (Suc (unat ?i div num div 128) * 128)" "vval sv = vval (cs_storage_vector st)"
    unfolding slot_eq(1) by blast
  let ?st = "st\<lparr>cs_id_allocator := ia, cs_storage_vector := sv\<rparr>"
  have same: "storage ?st = storage st" "tend ?st = tend st" "live ?st = live st" using 2(4) by (simp_all add: storage_def tend_def live_def fun_eq_iff)
  then have same': "cell ?st = cell st" "reach ?st = reach st" by (simp_all add: cell_def reach_def fun_eq_iff)
  have "unat ?i div num < Suc (unat ?i div num div 128) * 128" using dividend_less_div_times [of 128 "unat ?i div num"] by simp
  then have "\<forall>i\<in>set (held @ [?i]). unat i div num < vlen sv" using ok(4) 2(3) by (auto simp: less_max_iff_disj)
  then have "compact_ok a b ?st (held @ [?i])"
    unfolding compact_ok_def same same' using 0(2) 1(2) 2(2) ok(1,3,5) by (auto intro!: exI [of _ "hs @ [h]"])
  moreover have "ct_construct E st = Some (handle ?i, ?st)" using 1(1) 2(1) by (simp add: ct_construct_def handle_def Let_def)
  moreover have "reach st j \<le> reach ?st j" for j by (simp add: same')
  ultimately show ?thesis using that same(3) same'(1) by blast
qed

text \<open>Storage \<open>k\<close> becomes \<open>s\<close> with the identifiers of threads in \<open>tids\<close>: what is to be shown for the invariant to stay.\<close>

lemma compact_ok_storage:
  assumes "compact_ok a b0 st held" and st': "cs_id_allocator st' = cs_id_allocator st" "vinvar (cs_storage_vector st')"
      "vlen (cs_storage_vector st') = vlen (cs_storage_vector st)" "storage st' = (storage st)(k := s)"
    and t: "tids.threads_ok MAX_THREADS b (cs_thread_ids st')"
    and s: "linvar s" "llen s \<le> MAX_THREADS" "\<And>n. length (lval s n) = num"
    and c: "\<And>i n. i \<notin> set held \<or> reach st' i \<le> n \<Longrightarrow> cell st' i n = ce_T E"
  shows "compact_ok a b st' held"
  using assms compact_okD(3,4) [OF assms(1)] unfolding compact_ok_def storages_ok_def by auto

lemma reach_storage:
  assumes "storage st' = (storage st)(k := s)" and "tend st \<le> tend st'" and "llen (storage st k) \<le> llen s"
  shows "reach st i \<le> reach st' i"
  using assms by (auto simp: reach_def)

lemma local_ok:
  assumes "compact_ok a (if live st t = None then Suc b else b) st held" and i: "i \<in> set held"
  obtains n st' where "ct_local E t (handle i) st = Some (ref i n, st')" and "compact_ok a b st' held" and "cell st' = cell st"
    and "live st' = (live st)(t \<mapsto> n)" and "n < reach st' i" and "\<And>j. reach st j \<le> reach st' j"
proof -
  note ok = compact_okD [OF assms(1)]
  let ?k = "unat i div num"
  have k: "unat (ucast (i div ce_num E) :: u64) = ?k" by (rule slot_eq)
  have kv: "unat (ucast (i div ce_num E) :: u64) < vlen (cs_storage_vector st)" unfolding k by (rule ok(4) [OF i])
  have "tids.threads_ok MAX_THREADS (if map_of (tid_live (cs_thread_ids st)) t = None then Suc b else b) (cs_thread_ids st)"
    using ok(1) by (simp add: live_def)
  from tids.threads_use [OF this] obtain h tids' where
    1: "current_thread_id (ce_tops E) t (cs_thread_ids st) = Some (h, tids')" "tids.threads_ok MAX_THREADS b tids'"
      "ThreadId_end (cs_thread_ids st) \<le> ThreadId_end tids'" "map_of (tid_live tids') = (map_of (tid_live (cs_thread_ids st)))(t \<mapsto> h)" .
  let ?n = "unat (vv_value h)"
  have n: "unat (ucast (vv_value h) :: u64) = ?n" by (rule unat_ucast_up) simp
  have "?n < 2 ^ 16" using unat_less_2p [of "vv_value h"] by simp
  then have nl: "unat (ucast (vv_value h) :: u64) < lbound" unfolding n using lbound by (rule less_le_trans)
  have ne: "?n < unat (ThreadId_end tids')" using tids.live_below_end [OF 1(2), of t h] 1(4) by (simp add: word_less_nat_alt)
  then have nm: "?n < MAX_THREADS" using tids.threads_end [OF 1(2)] by linarith
  from line.ensure [OF ok(6) nl] obtain s where
    2: "ga_ensure (ce_line E) (ucast (vv_value h)) (storage st ?k) = Some s" "linvar s" "llen s = max (llen (storage st ?k)) (Suc (?n div 128) * 128)"
      "lval s = lval (storage st ?k)" unfolding n by blast
  have ns: "?n < llen s" using 2(3) dividend_less_div_times [of 128 ?n] by (simp add: less_max_iff_disj)
  have "Suc (?n div 128) * 128 \<le> MAX_THREADS" using nm by (simp add: MAX_THREADS_def)
  then have ls: "llen s \<le> MAX_THREADS" using 2(3) ok(7) by simp
  from storage_store [OF ok(2) kv, of s] obtain sv where
    3: "ga_store (ce_vector E) (ucast (i div ce_num E)) s (cs_storage_vector st) = Some sv" "vinvar sv" "vlen sv = vlen (cs_storage_vector st)"
      "vval sv = (storage st)(?k := s)" unfolding k .
  let ?st = "st\<lparr>cs_storage_vector := sv, cs_thread_ids := tids'\<rparr>"
  have st: "storage ?st = (storage st)(?k := s)" using 3(4) by (simp add: storage_def)
  have te: "tend st \<le> tend ?st" using 1(3) by (simp add: tend_def word_le_nat_alt)
  have r: "reach st j \<le> reach ?st j" for j by (rule reach_storage [OF st te]) (simp add: 2(3))
  have c: "cell ?st = cell st" using 2(4) by (simp add: cell_def st fun_eq_iff)
  have "compact_ok a b ?st held"
  proof (rule compact_ok_storage [OF assms(1) _ _ _ st])
    show "j \<notin> set held \<or> reach ?st j \<le> m \<Longrightarrow> cell ?st j m = ce_T E" for j m
      unfolding c using ok(5) r [of j] le_trans by blast
  qed (use 1(2) 2(2,4) 3(2,3) ls ok(8) in simp_all)
  moreover have "ct_local E t (handle i) st = Some (ref i ?n, ?st)"
    using storage_load [OF ok(2) kv] 1(1) 2(1) 3(1) k by (simp add: ct_local_def handle_def etl_local_def ref_def)
  moreover have "live ?st = (live st)(t \<mapsto> ?n)" using 1(4) by (simp add: live_def fun_eq_iff)
  moreover have "?n < reach ?st i" using ns ne by (simp add: reach_def st tend_def)
  ultimately show ?thesis using that c r by blast
qed

lemma ref_eq: "n < reach st i \<Longrightarrow> compact_ok a b st held \<Longrightarrow> unat (of_nat n :: u64) = n"
  using compact_okD(7) [of a b st held "unat i div num"] by (intro unat_of_nat_small) (simp add: reach_def MAX_THREADS_def)

lemma load_ok:
  assumes "compact_ok a b st held" and "i \<in> set held" and "n < reach st i"
  shows "ref_load E (ref i n) st = Some (cell st i n)"
proof -
  note ok = compact_okD [OF assms(1)]
  have kv: "unat (ucast (i div ce_num E) :: u64) < vlen (cs_storage_vector st)" unfolding slot_eq by (rule ok(4) [OF assms(2)])
  have n: "unat (of_nat n :: u64) = n" by (rule ref_eq [OF assms(3,1)])
  then have "unat (of_nat n :: u64) < llen (storage st (unat i div num))" using assms(3) by (simp add: reach_def)
  note line.load [OF ok(6) this]
  then show ?thesis using storage_load [OF ok(2) kv] n ok(8) slot_eq [of i] by (simp add: ref_def cell_def mem_read_def)
qed

text \<open>A line is changed at the offset of an instance.\<close>

lemma cell_line_map:
  assumes "storages_ok (storage st)" and "storage st' = (storage st)(unat i div num := s)"
    and "\<And>m. lval s m = (if m \<in> M then (lval (storage st (unat i div num)) m)[unat i mod num := f m] else lval (storage st (unat i div num)) m)"
  shows "cell st' = (cell st)(i := (\<lambda>m. if m \<in> M then f m else cell st i m))"
proof (intro ext)
  fix j m
  show "cell st' j m = ((cell st)(i := (\<lambda>m. if m \<in> M then f m else cell st i m))) j m"
    using assms slot_inj [of j i] slot_eq(3) [of i] by (auto simp: cell_def storages_ok_def nth_list_update)
qed

lemma store_ok:
  assumes "compact_ok a b st held" and "i \<in> set held" and "n < reach st i"
  obtains st' where "ref_store E (ref i n) x st = Some st'" and "compact_ok a b st' held" and "cell st' = (cell st)(i := (cell st i)(n := x))"
    and "live st' = live st" and "reach st' = reach st"
proof -
  note ok = compact_okD [OF assms(1)]
  let ?k = "unat i div num" and ?c = "unat i mod num"
  have k: "unat (ucast (i div ce_num E) :: u64) = ?k" by (rule slot_eq)
  have kv: "unat (ucast (i div ce_num E) :: u64) < vlen (cs_storage_vector st)" unfolding k by (rule ok(4) [OF assms(2)])
  have n: "unat (of_nat n :: u64) = n" by (rule ref_eq [OF assms(3,1)])
  then have nl: "unat (of_nat n :: u64) < llen (storage st ?k)" using assms(3) by (simp add: reach_def)
  let ?line = "lval (storage st ?k) n"
  from line.store [OF ok(6) nl, of "?line[?c := x]"] obtain s where
    1: "ga_store (ce_line E) (of_nat n) (?line[?c := x]) (storage st ?k) = Some s" "linvar s" "llen s = llen (storage st ?k)"
      "lval s = (lval (storage st ?k))(n := ?line[?c := x])" unfolding n by blast
  from storage_store [OF ok(2) kv, of s] obtain sv where
    3: "ga_store (ce_vector E) (ucast (i div ce_num E)) s (cs_storage_vector st) = Some sv" "vinvar sv" "vlen sv = vlen (cs_storage_vector st)"
      "vval sv = (storage st)(?k := s)" unfolding k .
  let ?st = "st\<lparr>cs_storage_vector := sv\<rparr>"
  have st: "storage ?st = (storage st)(?k := s)" using 3(4) by (simp add: storage_def)
  have r: "reach ?st = reach st" using 1(3) by (simp add: reach_def st tend_def fun_eq_iff)
  have "cell ?st = (cell st)(i := (\<lambda>m. if m \<in> {n} then x else cell st i m))"
    by (rule cell_line_map [OF ok(3) st]) (simp add: 1(4))
  also have "(\<lambda>m. if m \<in> {n} then x else cell st i m) = (cell st i)(n := x)" by (simp add: fun_eq_iff)
  finally have c: "cell ?st = (cell st)(i := (cell st i)(n := x))" .
  have "compact_ok a b ?st held"
  proof (rule compact_ok_storage [OF assms(1) _ _ _ st])
    show "j \<notin> set held \<or> reach ?st j \<le> m \<Longrightarrow> cell ?st j m = ce_T E" for j m
      unfolding c r using ok(5) [of j m] assms(2,3) by auto
  qed (use 1(2-4) 3(2,3) ok(1,7,8) in simp_all)
  moreover have "ref_store E (ref i n) x st = Some ?st"
    using storage_load [OF ok(2) kv] line.load [OF ok(6) nl] 1(1) 3(1) k n ok(8) slot_eq [of i]
    by (simp add: ref_def on_storage_def mem_write_def)
  moreover have "live ?st = live st" by (simp add: live_def fun_eq_iff)
  ultimately show ?thesis using that c r by blast
qed

text \<open>\<open>for_each\<close> visits the cells below \<open>reach\<close>; those above are \<open>T()\<close> by the invariant.\<close>

lemma etl_end_reach:
  assumes "compact_ok a b st held"
  shows "unat (ucast (etl_end (cs_thread_ids st) (of_nat (llen (storage st (unat i div num))))) :: u64) = reach st i"
  using etl_end_eq [OF compact_okD(7) [OF assms]] by (simp add: reach_def tend_def unat_ucast_up)

lemma for_each_const_ok:
  assumes "compact_ok a b st held" and "i \<in> set held"
  shows "ct_for_each_const E (handle i) st = Some (map (cell st i) [0..<reach st i])"
proof -
  note ok = compact_okD [OF assms(1)]
  let ?s = "storage st (unat i div num)"
  let ?e = "ucast (etl_end (cs_thread_ids st) (of_nat (llen ?s))) :: u64"
  have kv: "unat (ucast (i div ce_num E) :: u64) < vlen (cs_storage_vector st)" unfolding slot_eq by (rule ok(4) [OF assms(2)])
  have e: "unat ?e = reach st i" by (rule etl_end_reach [OF assms(1)])
  have "unat (0 :: u64) \<le> unat ?e" "unat ?e \<le> llen ?s" unfolding e by (simp_all add: reach_def)
  from line.segments [OF ok(6) this] obtain segs where
    "ga_segments (ce_line E) 0 ?e ?s = Some segs" "concat segs = map (lval ?s) [0..<reach st i]" unfolding e by auto
  then show ?thesis
    using storage_load [OF ok(2) kv] line.size(1) [OF ok(6)] slot_eq [of i]
    by (simp add: ct_for_each_const_def handle_def etl_for_each_const_def line_get_def cell_def)
qed

lemma for_each_ok:
  assumes "compact_ok a b st held" and "i \<in> set held"
  obtains st' where "ct_for_each E f (handle i) st = Some st'" and "compact_ok a b st' held"
    and "cell st' = (cell st)(i := (\<lambda>m. if m < reach st i then f (cell st i m) else cell st i m))"
    and "live st' = live st" and "reach st' = reach st" and "cs_id_allocator st' = cs_id_allocator st" and "cs_thread_ids st' = cs_thread_ids st"
proof -
  note ok = compact_okD [OF assms(1)]
  let ?k = "unat i div num" and ?c = "unat i mod num"
  let ?s = "storage st ?k"
  let ?e = "ucast (etl_end (cs_thread_ids st) (of_nat (llen ?s))) :: u64"
  have k: "unat (ucast (i div ce_num E) :: u64) = ?k" by (rule slot_eq)
  have kv: "unat (ucast (i div ce_num E) :: u64) < vlen (cs_storage_vector st)" unfolding k by (rule ok(4) [OF assms(2)])
  have e: "unat ?e = reach st i" by (rule etl_end_reach [OF assms(1)])
  have "unat (0 :: u64) \<le> unat ?e" "unat ?e \<le> llen ?s" unfolding e by (simp_all add: reach_def)
  from line.update [OF ok(6) this, of "line_map (i mod ce_num E) f"] obtain s where
    1: "ga_update (ce_line E) 0 ?e (line_map (i mod ce_num E) f) ?s = Some s" "linvar s" "llen s = llen ?s"
      "lval s = (\<lambda>m. if m < reach st i then line_map (i mod ce_num E) f (lval ?s m) else lval ?s m)" unfolding e by auto
  from storage_store [OF ok(2) kv, of s] obtain sv where
    3: "ga_store (ce_vector E) (ucast (i div ce_num E)) s (cs_storage_vector st) = Some sv" "vinvar sv" "vlen sv = vlen (cs_storage_vector st)"
      "vval sv = (storage st)(?k := s)" unfolding k .
  let ?st = "st\<lparr>cs_storage_vector := sv\<rparr>"
  have st: "storage ?st = (storage st)(?k := s)" using 3(4) by (simp add: storage_def)
  have r: "reach ?st = reach st" using 1(3) by (simp add: reach_def st tend_def fun_eq_iff)
  have "cell ?st = (cell st)(i := (\<lambda>m. if m \<in> {..<reach st i} then f (cell st i m) else cell st i m))"
    by (rule cell_line_map [OF ok(3) st]) (simp add: 1(4) line_map_def slot_eq cell_def)
  then have c: "cell ?st = (cell st)(i := (\<lambda>m. if m < reach st i then f (cell st i m) else cell st i m))" by simp
  have "compact_ok a b ?st held"
  proof (rule compact_ok_storage [OF assms(1) _ _ _ st])
    show "j \<notin> set held \<or> reach ?st j \<le> m \<Longrightarrow> cell ?st j m = ce_T E" for j m
      unfolding c r using ok(5) [of j m] assms(2) by auto
  qed (use 1(2-4) 3(2,3) ok(1,7,8) in \<open>simp_all add: line_map_def\<close>)
  moreover have "ct_for_each E f (handle i) st = Some ?st"
    using storage_load [OF ok(2) kv] line.size(1) [OF ok(6)] 1(1) 3(1) k
    by (simp add: ct_for_each_def handle_def on_storage_def etl_for_each_def)
  moreover have "live ?st = live st" by (simp add: live_def fun_eq_iff)
  ultimately show ?thesis using that c r by simp
qed

lemma deallocate_version: "deallocate ops (VersionedValue_of (vv_value h)) ia = deallocate ops h ia"
  by (cases h) (simp add: deallocate_def VersionedValue_of_def Let_def)

text \<open>A destroyed instance leaves cells of \<open>T()\<close> for the next one with its identifier.\<close>

lemma destroy_ok:
  assumes "compact_ok a b st held" and "i \<in> set held"
  obtains st' where "ct_destroy E (handle i) st = Some st'" and "compact_ok a b st' (filter (\<lambda>j. j \<noteq> i) held)"
    and "cell st' = (cell st)(i := (\<lambda>_. ce_T E))" and "live st' = live st" and "reach st' = reach st"
proof -
  note ok = compact_okD [OF assms(1)]
  obtain st1 where 1: "ct_for_each E (\<lambda>_. ce_T E) (handle i) st = Some st1" "compact_ok a b st1 held"
    "cell st1 = (cell st)(i := (\<lambda>m. if m < reach st i then ce_T E else cell st i m))"
    "live st1 = live st" "reach st1 = reach st" "cs_id_allocator st1 = cs_id_allocator st" "cs_thread_ids st1 = cs_thread_ids st"
    by (rule for_each_ok [OF assms, of "\<lambda>_. ce_T E"])
  have "(\<lambda>m. if m < reach st i then ce_T E else cell st i m) = (\<lambda>_. ce_T E)" using ok(5) [of i] by (auto simp: fun_eq_iff)
  then have c: "cell st1 = (cell st)(i := (\<lambda>_. ce_T E))" using 1(3) by simp
  from 1(2) obtain hs where 0: "ids.ids_ok MAX_INSTANCES a (cs_id_allocator st1) hs" "map vv_value hs = held" by (auto simp: compact_ok_def)
  obtain n where n: "n < length hs" "vv_value (hs ! n) = i" using assms(2) unfolding 0(2) [symmetric] by (auto simp: in_set_conv_nth)
  from ids.ids_free [OF 0(1) n(1)] obtain ia where
    2: "deallocate (ce_ids E) (hs ! n) (cs_id_allocator st1) = Some ia" "ids.ids_ok MAX_INSTANCES a ia (take n hs @ drop (Suc n) hs)" .
  let ?st = "st1\<lparr>cs_id_allocator := ia\<rparr>"
  have same: "storage ?st = storage st1" "tend ?st = tend st1" "live ?st = live st1" by (simp_all add: storage_def tend_def live_def fun_eq_iff)
  then have same': "cell ?st = cell st1" "reach ?st = reach st1" by (simp_all add: cell_def reach_def fun_eq_iff)
  have h: "map vv_value (take n hs @ drop (Suc n) hs) = filter (\<lambda>j. j \<noteq> i) held"
    using filter_remove_nth [OF ok(9), of n] n unfolding 0(2) [symmetric] by (simp add: take_map drop_map)
  have "cell st1 j m = ce_T E" if "j \<notin> set (filter (\<lambda>j. j \<noteq> i) held) \<or> reach st1 j \<le> m" for j m
    using that compact_okD(5) [OF 1(2), of j m] fun_cong [OF c, of i] by (cases "j = i") auto
  then have "compact_ok a b ?st (filter (\<lambda>j. j \<noteq> i) held)"
    unfolding compact_ok_def same same' using 2(2) h compact_okD(1-4) [OF 1(2)] by auto
  moreover have "ct_destroy E (handle i) st = Some ?st"
    using 1(1) 2(1) n(2) deallocate_version [of "ce_ids E" "hs ! n"] by (simp add: ct_destroy_def) (simp add: handle_def)
  moreover have "cell ?st = (cell st)(i := (\<lambda>_. ce_T E))" "live ?st = live st" "reach ?st = reach st" using c same(3) same' 1(4,5) by simp_all
  ultimately show ?thesis using that by blast
qed

lemma exit_ok:
  assumes "compact_ok a b st held"
  obtains st' where "ct_thread_exit E t st = Some st'" and "compact_ok a b st' held" and "cell st' = cell st" and "live st' = (live st)(t := None)" and "reach st' = reach st"
proof -
  note ok = compact_okD [OF assms]
  from tids.threads_exit [OF ok(1), of t] obtain tids' where
    1: "ThreadId_destroy (ce_tops E) t (cs_thread_ids st) = Some tids'" "tids.threads_ok MAX_THREADS b tids'" "ThreadId_end tids' = ThreadId_end (cs_thread_ids st)"
      "map_of (tid_live tids') = (map_of (tid_live (cs_thread_ids st)))(t := None)" .
  let ?st = "st\<lparr>cs_thread_ids := tids'\<rparr>"
  have same: "storage ?st = storage st" "tend ?st = tend st" using 1(3) by (simp_all add: storage_def tend_def)
  then have same': "cell ?st = cell st" "reach ?st = reach st" by (simp_all add: cell_def reach_def fun_eq_iff)
  have "compact_ok a b ?st held" using assms 1(2) unfolding compact_ok_def same same' by simp
  moreover have "live ?st = (live st)(t := None)" using 1(4) by (simp add: live_def fun_eq_iff)
  ultimately show ?thesis using that [of ?st] 1(1) same' by (simp add: ct_thread_exit_def)
qed

lemma live_inj:
  assumes "compact_ok a b st held" and "live st t = Some n" and "live st t' = Some n" shows "t = t'"
  using assms(2,3) tids.live_distinct [OF compact_okD(1) [OF assms(1)]] by (force simp: live_def word_unat_eq_iff)

lemma live_bound:
  assumes "compact_ok a b st held" and "live st t = Some n" shows "n < tend st"
  using assms(2) tids.live_below_end [OF compact_okD(1) [OF assms(1)]] by (force simp: live_def tend_def word_less_nat_alt)

lemma move_ok: "ct_move_assign (handle i) (handle j) = (handle j, handle i)"
  by (simp add: ct_move_assign_def handle_def)

lemma compact_init:
  assumes "iinvar s1" and "tinvar s2" and "vinvar sv" and "vval sv = (\<lambda>_. s0)" and "linvar s0" and "llen s0 = 0" and "lval s0 = (\<lambda>_. replicate (unat (ce_num E)) (ce_T E))"
    and "a \<le> MAX_INSTANCES" and "b \<le> MAX_THREADS"
    and "st = \<lparr>cs_id_allocator = IdAllocator_new s1, cs_storage_vector = sv, cs_thread_ids = \<lparr>tid_allocator = IdAllocator_new s2, tid_live = []\<rparr>\<rparr>"
  shows "compact_ok a b st []" and "live st = Map.empty"
proof -
  have "ids.ids_ok MAX_INSTANCES a (IdAllocator_new s1) []" using assms(8) by (intro ids.ids_new [OF assms(1)]) (simp_all add: MAX_INSTANCES_def)
  moreover have "tids.ids_ok MAX_THREADS b (IdAllocator_new s2) []" using assms(9) by (intro tids.ids_new [OF assms(2)]) (simp_all add: MAX_THREADS_def)
  ultimately show "compact_ok a b st []"
    unfolding compact_ok_def tids.threads_ok_def storages_ok_def storage_def cell_def using assms(3-7,10) slot_eq(3) by (simp add: num_def [symmetric])
  show "live st = Map.empty" using assms(10) by (simp add: live_def fun_eq_iff)
qed

end

end
