(* ===== verification/Counters.thy ===== *)
theory Counters
  imports ThreadLocalSpec "HOL-Library.AList"
begin

text \<open>
  \<open>base/counter.h\<close> and \<open>base/counter.cc\<close>: \<open>ConcurrentAdder\<close>, \<open>ConcurrentSummer\<close> and \<open>ConcurrentMaxer\<close>, which count in the cell of the calling thread
  and put the cells together when they are read. \<open>ssize_t\<close> is a 64 bit word, compared with \<open><s\<close>.

  The read-modify-write of a thread's cell is not atomic in the code, so it is two steps here, \<open>counter_load\<close> and
  \<open>counter_store\<close>, between which other threads may run.
\<close>

type_synonym i64 = "64 word"
type_synonym ('i, 't, 'o) statics = "('i, 't, 'o) compact_statics"

section \<open>Model\<close>

text \<open>\<open>auto& local = _storage.local()\<close> and the read of \<open>local\<close>.\<close>

definition counter_load :: "('a, 'i, 't, 's, 'o) compact_env \<Rightarrow> nat \<Rightarrow> CompactEnumerableThreadLocal \<Rightarrow> ('i, 't, 'o) statics \<Rightarrow> (cell_ref \<times> 'a \<times> ('i, 't, 'o) statics) option" where
  "counter_load E t this st = do {
     (local, st) \<leftarrow> ct_local E t this st;
     x \<leftarrow> ref_load E local st;
     Some (local, x, st) }"

definition counter_store :: "('a, 'i, 't, 's, 'o) compact_env \<Rightarrow> cell_ref \<Rightarrow> 'a::plus \<Rightarrow> 'a \<Rightarrow> ('i, 't, 'o) statics \<Rightarrow> ('i, 't, 'o) statics option" where
  "counter_store E local x value st = ref_store E local (x + value) st"

subsection \<open>ConcurrentAdder\<close>

definition adder_shift :: "(i64, 'i, 't, 's, 'o) compact_env \<Rightarrow> nat \<Rightarrow> CompactEnumerableThreadLocal \<Rightarrow> i64 \<Rightarrow> ('i, 't, 'o) statics \<Rightarrow> ('i, 't, 'o) statics option" where
  "adder_shift E t this value st = do {
     (local, x, st) \<leftarrow> counter_load E t this st;
     counter_store E local x value st }"

definition counter_value :: "('a::comm_monoid_add, 'i, 't, 's, 'o) compact_env \<Rightarrow> CompactEnumerableThreadLocal \<Rightarrow> ('i, 't, 'o) statics \<Rightarrow> 'a option" where
  "counter_value E this st = do {
     values \<leftarrow> ct_for_each_const E this st;
     Some (fold (\<lambda>value sum. sum + value) values 0) }"

definition counter_reset :: "('a::zero, 'i, 't, 's, 'o) compact_env \<Rightarrow> CompactEnumerableThreadLocal \<Rightarrow> ('i, 't, 'o) statics \<Rightarrow> ('i, 't, 'o) statics option" where
  "counter_reset E this st = ct_for_each E (\<lambda>_. 0) this st"

subsection \<open>ConcurrentSummer\<close>

datatype Summary = Summary (sm_sum: i64) (sm_num: u64)

text \<open>\<open>_mm_add_epi64\<close> adds the two halves, each modulo \<open>2^64\<close>.\<close>

instantiation Summary :: comm_monoid_add
begin

definition zero_Summary :: Summary where "zero_Summary = Summary 0 0"
definition plus_Summary :: "Summary \<Rightarrow> Summary \<Rightarrow> Summary" where
  "plus_Summary x y = Summary (sm_sum x + sm_sum y) (sm_num x + sm_num y)"

instance
  by intro_classes (simp_all add: plus_Summary_def zero_Summary_def add.assoc add.commute add.left_commute)

end

definition summer_value :: "(Summary, 'i, 't, 's, 'o) compact_env \<Rightarrow> CompactEnumerableThreadLocal \<Rightarrow> ('i, 't, 'o) statics \<Rightarrow> Summary option" where
  "summer_value E this st = counter_value E this st"

definition summer_shift_summary :: "(Summary, 'i, 't, 's, 'o) compact_env \<Rightarrow> nat \<Rightarrow> CompactEnumerableThreadLocal \<Rightarrow> Summary \<Rightarrow> ('i, 't, 'o) statics \<Rightarrow> ('i, 't, 'o) statics option" where
  "summer_shift_summary E t this summary st = do {
     (local, x, st) \<leftarrow> counter_load E t this st;
     counter_store E local x summary st }"

definition summer_shift :: "(Summary, 'i, 't, 's, 'o) compact_env \<Rightarrow> nat \<Rightarrow> CompactEnumerableThreadLocal \<Rightarrow> i64 \<Rightarrow> ('i, 't, 'o) statics \<Rightarrow> ('i, 't, 'o) statics option" where
  "summer_shift E t this value st = summer_shift_summary E t this (Summary value 1) st"

subsection \<open>ConcurrentMaxer\<close>

record Slot =
  sl_version :: u64
  sl_value :: i64

definition SIZE_MAX :: u64 where "SIZE_MAX = - 1"
definition SSIZE_MIN :: i64 where "SSIZE_MIN = 2 ^ 63"

definition Slot_new :: Slot where "Slot_new = \<lparr>sl_version = SIZE_MAX, sl_value = 0\<rparr>"

record ConcurrentMaxer =
  mx_storage :: CompactEnumerableThreadLocal
  mx_version :: u64

definition maxer_new :: "(Slot, 'i, 't, 's, 'o) compact_env \<Rightarrow> ('i, 't, 'o) statics \<Rightarrow> (ConcurrentMaxer \<times> ('i, 't, 'o) statics) option" where
  "maxer_new E st = do {
     (storage, st) \<leftarrow> ct_construct E st;
     Some (\<lparr>mx_storage = storage, mx_version = 0\<rparr>, st) }"

definition maxer_shift :: "(Slot, 'i, 't, 's, 'o) compact_env \<Rightarrow> nat \<Rightarrow> ConcurrentMaxer \<Rightarrow> i64 \<Rightarrow> ('i, 't, 'o) statics \<Rightarrow> ('i, 't, 'o) statics option" where
  "maxer_shift E t this value st = do {
     (local, slot, st) \<leftarrow> counter_load E t (mx_storage this) st;
     if mx_version this \<noteq> sl_version slot then ref_store E local (slot\<lparr>sl_version := mx_version this, sl_value := value\<rparr>) st
     else if sl_value slot <s value then ref_store E local (slot\<lparr>sl_value := value\<rparr>) st
     else Some st }"

text \<open>The result of \<open>value(max_value)\<close> is \<open>has_result\<close> with \<open>max_value\<close>: \<open>None\<close> when it is \<open>false\<close>.\<close>

definition maxer_visit :: "u64 \<Rightarrow> Slot \<Rightarrow> bool \<times> i64 \<Rightarrow> bool \<times> i64" where
  "maxer_visit version slot = (\<lambda>(has_result, result).
     if sl_version slot = version \<and> result <s sl_value slot then (True, sl_value slot) else (has_result, result))"

definition maxer_value_opt :: "(Slot, 'i, 't, 's, 'o) compact_env \<Rightarrow> ConcurrentMaxer \<Rightarrow> ('i, 't, 'o) statics \<Rightarrow> i64 option option" where
  "maxer_value_opt E this st = do {
     slots \<leftarrow> ct_for_each_const E (mx_storage this) st;
     let (has_result, result) = fold (maxer_visit (mx_version this)) slots (False, SSIZE_MIN);
     Some (if has_result then Some result else None) }"

definition maxer_value :: "(Slot, 'i, 't, 's, 'o) compact_env \<Rightarrow> ConcurrentMaxer \<Rightarrow> ('i, 't, 'o) statics \<Rightarrow> i64 option" where
  "maxer_value E this st = do {
     r \<leftarrow> maxer_value_opt E this st;
     Some (case r of Some max_value \<Rightarrow> max_value | None \<Rightarrow> 0) }"

definition maxer_reset :: "ConcurrentMaxer \<Rightarrow> ConcurrentMaxer" where
  "maxer_reset this = this\<lparr>mx_version := mx_version this + 1\<rparr>"

section \<open>Sums under interleaving\<close>

text \<open>
  A program over counters: names \<open>n\<close>, threads \<open>t\<close>. \<open>Load t n v\<close> is the first half of \<open>n << v\<close> on thread \<open>t\<close>, \<open>Store t\<close> the second, and
  \<open>Move n m\<close> move assigns the counter \<open>m\<close> to \<open>n\<close>.
\<close>

datatype 'a count_op = New nat | Delete nat | Load nat nat 'a | Store nat | Reset nat | Move nat nat | Exit nat

record ('a, 'i, 't, 'o) count_state =
  co_statics :: "('i, 't, 'o) statics"
  co_objects :: "nat \<rightharpoonup> CompactEnumerableThreadLocal"
  co_registers :: "nat \<rightharpoonup> cell_ref \<times> 'a \<times> 'a"

fun count_step :: "('a::comm_monoid_add, 'i, 't, 's, 'o) compact_env \<Rightarrow> 'a count_op \<Rightarrow> ('a, 'i, 't, 'o) count_state \<Rightarrow> ('a, 'i, 't, 'o) count_state option" where
  "count_step E (New n) S = do {
     (obj, st) \<leftarrow> ct_construct E (co_statics S);
     Some (S\<lparr>co_statics := st, co_objects := (co_objects S)(n \<mapsto> obj)\<rparr>) }"
| "count_step E (Delete n) S = do {
     obj \<leftarrow> co_objects S n;
     st \<leftarrow> ct_destroy E obj (co_statics S);
     Some (S\<lparr>co_statics := st, co_objects := (co_objects S)(n := None)\<rparr>) }"
| "count_step E (Load t n v) S = do {
     obj \<leftarrow> co_objects S n;
     (local, x, st) \<leftarrow> counter_load E t obj (co_statics S);
     Some (S\<lparr>co_statics := st, co_registers := (co_registers S)(t \<mapsto> (local, x, v))\<rparr>) }"
| "count_step E (Store t) S = do {
     (local, x, v) \<leftarrow> co_registers S t;
     st \<leftarrow> counter_store E local x v (co_statics S);
     Some (S\<lparr>co_statics := st, co_registers := (co_registers S)(t := None)\<rparr>) }"
| "count_step E (Reset n) S = do {
     obj \<leftarrow> co_objects S n;
     st \<leftarrow> counter_reset E obj (co_statics S);
     Some (S\<lparr>co_statics := st\<rparr>) }"
| "count_step E (Move n m) S = do {
     this \<leftarrow> co_objects S n;
     other \<leftarrow> co_objects S m;
     let (this, other) = ct_move_assign this other;
     Some (S\<lparr>co_objects := (co_objects S)(n \<mapsto> this, m \<mapsto> other)\<rparr>) }"
| "count_step E (Exit t) S = do {
     st \<leftarrow> ct_thread_exit E t (co_statics S);
     Some (S\<lparr>co_statics := st\<rparr>) }"

fun count_run :: "('a::comm_monoid_add, 'i, 't, 's, 'o) compact_env \<Rightarrow> 'a count_op list \<Rightarrow> ('a, 'i, 't, 'o) count_state \<Rightarrow> ('a, 'i, 't, 'o) count_state option" where
  "count_run E [] S = Some S"
| "count_run E (op # ops) S = do { S \<leftarrow> count_step E op S; count_run E ops S }"

text \<open>
  The abstract counters: a number per name and the additions under way. \<open>None\<close> is a program that is not allowed: names are used while
  their counter exists, a thread finishes an addition before it starts another or exits, and a counter is reset, moved or destroyed while no addition to
  it is under way.
\<close>

type_synonym 'a count_spec = "(nat \<rightharpoonup> 'a) \<times> (nat \<times> nat \<times> 'a) list"

definition idle :: "nat \<Rightarrow> (nat \<times> nat \<times> 'a) list \<Rightarrow> bool" where
  "idle n pend \<longleftrightarrow> list_all (\<lambda>(t, m, v). m \<noteq> n) pend"

fun spec_step :: "'a::comm_monoid_add count_op \<Rightarrow> 'a count_spec \<Rightarrow> 'a count_spec option" where
  "spec_step (New n) (sums, pend) = (if sums n = None then Some (sums(n \<mapsto> 0), pend) else None)"
| "spec_step (Delete n) (sums, pend) = (if sums n \<noteq> None \<and> idle n pend then Some (sums(n := None), pend) else None)"
| "spec_step (Load t n v) (sums, pend) = (if sums n \<noteq> None \<and> map_of pend t = None then Some (sums, (t, n, v) # pend) else None)"
| "spec_step (Store t) (sums, pend) = do {
     (n, v) \<leftarrow> map_of pend t;
     x \<leftarrow> sums n;
     Some (sums(n \<mapsto> x + v), AList.delete t pend) }"
| "spec_step (Reset n) (sums, pend) = (if sums n \<noteq> None \<and> idle n pend then Some (sums(n \<mapsto> 0), pend) else None)"
| "spec_step (Move n m) (sums, pend) =
     (if sums n \<noteq> None \<and> sums m \<noteq> None \<and> n \<noteq> m \<and> idle n pend \<and> idle m pend then Some (sums(n := sums m, m := sums n), pend) else None)"
| "spec_step (Exit t) (sums, pend) = (if map_of pend t = None then Some (sums, pend) else None)"

fun spec_run :: "'a::comm_monoid_add count_op list \<Rightarrow> 'a count_spec \<Rightarrow> 'a count_spec option" where
  "spec_run [] A = Some A"
| "spec_run (op # ops) A = do { A \<leftarrow> spec_step op A; spec_run ops A }"

text \<open>How many instances a program constructs, and how often a thread that is not live counts.\<close>

fun news :: "'a count_op list \<Rightarrow> nat" where
  "news [] = 0"
| "news (New n # ops) = Suc (news ops)"
| "news (_ # ops) = news ops"

fun thread_starts :: "nat set \<Rightarrow> 'a count_op list \<Rightarrow> nat" where
  "thread_starts L [] = 0"
| "thread_starts L (Load t n v # ops) = (if t \<in> L then thread_starts L ops else Suc (thread_starts (insert t L) ops))"
| "thread_starts L (Exit t # ops) = thread_starts (L - {t}) ops"
| "thread_starts L (_ # ops) = thread_starts L ops"

end
