(* ===== verification/ThreadLocalVectors.thy ===== *)
theory ThreadLocalVectors
  imports ThreadLocalSpec
begin

text \<open>
  The arrays the code puts under \<open>CompactEnumerableThreadLocal\<close>: four kinds of \<open>ConcurrentVector\<close>. The platform gives the addresses of retired
  nodes (\<open>new_node\<close>) and the clock.
\<close>

definition CACHELINE_SIZE :: "bool \<Rightarrow> u64" where
  "CACHELINE_SIZE x86_64 = (if x86_64 then 128 else 64)"

definition NUM_PER_CACHELINE :: "bool \<Rightarrow> u64 \<Rightarrow> u64 \<Rightarrow> u32" where
  "NUM_PER_CACHELINE x86_64 CACHE_LINE_NUM sizeof_T = ucast (CACHELINE_SIZE x86_64 * CACHE_LINE_NUM div sizeof_T)"

definition plain_env :: "(nat nodes \<Rightarrow> u64) \<Rightarrow> 'a \<Rightarrow> 'a cv_env" where
  "plain_env new_node z = \<lparr>ev_zero = z, ev_new_node = new_node, ev_tv_sec = 0\<rparr>"

definition line_new :: "u32 \<Rightarrow> 'a \<Rightarrow> 'a list" where
  "line_new num T = replicate (unat num) T"

definition vec_compact :: "(nat nodes \<Rightarrow> u64) \<Rightarrow> (nat \<Rightarrow> u64) \<Rightarrow> u32 \<Rightarrow> 'a \<Rightarrow> ('a, u32 vec, u16 vec, 'a list vec, 'a list vec vec) compact_env" where
  "vec_compact new_node clock num T = \<lparr>ce_num = num, ce_T = T,
     ce_ids = vector_ops (plain_env new_node 0) clock, ce_tops = vector_ops (plain_env new_node 0) clock,
     ce_line = vec_array (plain_env new_node (line_new num T)) clock,
     ce_vector = vec_array (plain_env new_node (vec_new (Some (line_new num T)))) clock\<rparr>"

definition vec_statics :: "u32 \<Rightarrow> 'a \<Rightarrow> (u32 vec, u16 vec, 'a list vec vec) compact_statics" where
  "vec_statics num T = \<lparr>cs_id_allocator = IdAllocator_new (vec_new (Some 0)),
     cs_storage_vector = vec_new (Some (vec_new (Some (line_new num T)))),
     cs_thread_ids = \<lparr>tid_allocator = IdAllocator_new (vec_new (Some 0)), tid_live = []\<rparr>\<rparr>"

text \<open>The constructors of \<open>EnumerableThreadLocal\<close>, and \<open>set_constructor\<close>, on the vector itself.\<close>

definition etl_construct :: "'a option \<Rightarrow> (u16, 't) thread_ids \<Rightarrow> 'a vec" where
  "etl_construct constructor tids = (let _ = ThreadId_end tids in vec_new constructor)"

definition etl_set_constructor :: "'a cv_env \<Rightarrow> (nat \<Rightarrow> u64) \<Rightarrow> 'a option \<Rightarrow> 'a vec \<Rightarrow> 'a vec option" where
  "etl_set_constructor env clock constructor = (\<lambda>(v, mem, n). do {
     (v, mem) \<leftarrow> set_constructor (env\<lparr>ev_tv_sec := clock n\<rparr>) constructor v mem;
     Some (v, mem, Suc n) })"

lemma vec_compact_storage:
  fixes T :: 'a
  assumes "1 < num"
  shows "compact_storage (vec_compact new_node clock num T) (vec_invar (2 ^ 25) (plain_env new_node 0)) vec_len (vec_val (plain_env new_node 0))
    (vec_invar (2 ^ 9) (plain_env new_node 0)) vec_len (vec_val (plain_env new_node 0))
    (vec_invar (2 ^ 9) (plain_env new_node (line_new num T))) vec_len (vec_val (plain_env new_node (line_new num T))) (128 * 2 ^ 9)
    (vec_invar (2 ^ 25) (plain_env new_node (vec_new (Some (line_new num T))))) vec_len (vec_val (plain_env new_node (vec_new (Some (line_new num T))))) (128 * 2 ^ 25)"
proof -
  let ?E = "vec_compact new_node clock num T"
  have "free_next_array (ce_ids ?E) (vec_invar (2 ^ 25) (plain_env new_node 0)) vec_len (vec_val (plain_env new_node 0))"
    unfolding vec_compact_def compact_env.simps by (rule fv32.free.free_next_array_axioms)
  moreover have "free_next_array (ce_tops ?E) (vec_invar (2 ^ 9) (plain_env new_node 0)) vec_len (vec_val (plain_env new_node 0))"
    unfolding vec_compact_def compact_env.simps by (rule fv.free.free_next_array_axioms)
  moreover have "growing_array (ce_line ?E) (vec_invar (2 ^ 9) (plain_env new_node (line_new num T))) vec_len (vec_val (plain_env new_node (line_new num T))) (128 * 2 ^ 9)"
    unfolding vec_compact_def compact_env.simps by (rule va16.growing_array_axioms)
  moreover have "growing_array (ce_vector ?E) (vec_invar (2 ^ 25) (plain_env new_node (vec_new (Some (line_new num T))))) vec_len
      (vec_val (plain_env new_node (vec_new (Some (line_new num T))))) (128 * 2 ^ 25)"
    unfolding vec_compact_def compact_env.simps by (rule va32.growing_array_axioms)
  moreover have "compact_storage_axioms ?E (128 * 2 ^ 9) (128 * 2 ^ 25)"
    using assms by (simp add: compact_storage_axioms_def vec_compact_def)
  ultimately show ?thesis by (rule compact_storage.intro)
qed

lemma new_node_spec_mono: "new_node_spec n f \<Longrightarrow> m \<le> n \<Longrightarrow> new_node_spec m f"
  by (auto simp: new_node_spec_def)

lemma vec_new_parts:
  fixes z :: 'z
  assumes "new_node_spec (Suc (2 ^ 25)) new_node"
  shows "vec_invar (2 ^ 25) (plain_env new_node z) (vec_new c)" and "vec_invar (2 ^ 9) (plain_env new_node z) (vec_new c)"
    and "vec_val (plain_env new_node z) (vec_new (Some x)) = (\<lambda>_. x)" and "vec_len (vec_new (Some x)) = 0"
proof -
  have n: "new_node_spec (Suc (2 ^ 25)) (ev_new_node (plain_env new_node z))" "new_node_spec (Suc (2 ^ 9)) (ev_new_node (plain_env new_node z))"
    using assms new_node_spec_mono [OF assms, of "Suc (2 ^ 9)"] by (simp_all add: plain_env_def)
  show "vec_invar (2 ^ 25) (plain_env new_node z) (vec_new c)" by (rule vec_new_ok [OF n(1)]) simp
  show "vec_invar (2 ^ 9) (plain_env new_node z) (vec_new c)" by (rule vec_new_ok [OF n(2)]) simp
  show "vec_val (plain_env new_node z) (vec_new (Some x)) = (\<lambda>_. x)" using vec_new_ok(3) [OF n(2), of "Some x"] by simp
  show "vec_len (vec_new (Some x)) = 0" using vec_new_ok(2) [OF n(2)] by (simp add: vec_len_def vec_new_def vec_tab_def cmem0_def cv_length_def EMPTY_BLOCK_TABLE_def)
qed

text \<open>64 lines of cells of 8 or 16 bytes, as the counters instantiate it.\<close>

lemma NUM_PER_CACHELINE_values:
  "NUM_PER_CACHELINE x86_64 64 8 = (if x86_64 then 1024 else 512)" "NUM_PER_CACHELINE x86_64 64 16 = (if x86_64 then 512 else 256)"
  by (simp_all add: NUM_PER_CACHELINE_def CACHELINE_SIZE_def)

abbreviation "env8 x86_64 new_node clock T \<equiv> vec_compact new_node clock (NUM_PER_CACHELINE x86_64 64 8) T"
abbreviation "env16 x86_64 new_node clock T \<equiv> vec_compact new_node clock (NUM_PER_CACHELINE x86_64 64 16) T"
abbreviation "line8 x86_64 T \<equiv> line_new (NUM_PER_CACHELINE x86_64 64 8) T"
abbreviation "line16 x86_64 T \<equiv> line_new (NUM_PER_CACHELINE x86_64 64 16) T"

interpretation ct8: compact_storage "env8 x86_64 new_node clock T"
    "vec_invar (2 ^ 25) (plain_env new_node 0)" vec_len "vec_val (plain_env new_node 0)" "vec_invar (2 ^ 9) (plain_env new_node 0)" vec_len "vec_val (plain_env new_node 0)"
    "vec_invar (2 ^ 9) (plain_env new_node (line8 x86_64 T))" vec_len "vec_val (plain_env new_node (line8 x86_64 T))" "128 * 2 ^ 9"
    "vec_invar (2 ^ 25) (plain_env new_node (vec_new (Some (line8 x86_64 T))))" vec_len "vec_val (plain_env new_node (vec_new (Some (line8 x86_64 T))))" "128 * 2 ^ 25"
  for x86_64 new_node clock and T :: 'a
  by (rule vec_compact_storage) (simp add: NUM_PER_CACHELINE_values)

interpretation ct16: compact_storage "env16 x86_64 new_node clock T"
    "vec_invar (2 ^ 25) (plain_env new_node 0)" vec_len "vec_val (plain_env new_node 0)" "vec_invar (2 ^ 9) (plain_env new_node 0)" vec_len "vec_val (plain_env new_node 0)"
    "vec_invar (2 ^ 9) (plain_env new_node (line16 x86_64 T))" vec_len "vec_val (plain_env new_node (line16 x86_64 T))" "128 * 2 ^ 9"
    "vec_invar (2 ^ 25) (plain_env new_node (vec_new (Some (line16 x86_64 T))))" vec_len "vec_val (plain_env new_node (vec_new (Some (line16 x86_64 T))))" "128 * 2 ^ 25"
  for x86_64 new_node clock and T :: 'a
  by (rule vec_compact_storage) (simp add: NUM_PER_CACHELINE_values)

text \<open>The invariant holds before anything is constructed.\<close>

lemma ct8_init:
  fixes T :: 'a
  assumes "new_node_spec (Suc (2 ^ 25)) new_node" and "a \<le> MAX_INSTANCES" and "b \<le> MAX_THREADS"
  shows "ct8.compact_ok new_node clock x86_64 T a b (vec_statics (NUM_PER_CACHELINE x86_64 64 8) T) []"
    and "ct8.live (vec_statics (NUM_PER_CACHELINE x86_64 64 8) T) = Map.empty"
proof -
  note v = vec_new_parts [OF assms(1)]
  have l: "vec_val (plain_env new_node (line8 x86_64 T)) (vec_new (Some (line8 x86_64 T)))
      = (\<lambda>_. replicate (unat (ce_num (env8 x86_64 new_node clock T))) (ce_T (env8 x86_64 new_node clock T)))"
    unfolding v(3) by (simp add: line_new_def vec_compact_def)
  note init = ct8.compact_init [OF v(1,2,1,3,2,4) l assms(2,3) refl]
  show "ct8.compact_ok new_node clock x86_64 T a b (vec_statics (NUM_PER_CACHELINE x86_64 64 8) T) []"
    unfolding vec_statics_def by (rule init(1))
  show "ct8.live (vec_statics (NUM_PER_CACHELINE x86_64 64 8) T) = Map.empty" unfolding vec_statics_def by (rule init(2))
qed

lemma ct16_init:
  fixes T :: 'a
  assumes "new_node_spec (Suc (2 ^ 25)) new_node" and "a \<le> MAX_INSTANCES" and "b \<le> MAX_THREADS"
  shows "ct16.compact_ok new_node clock x86_64 T a b (vec_statics (NUM_PER_CACHELINE x86_64 64 16) T) []"
    and "ct16.live (vec_statics (NUM_PER_CACHELINE x86_64 64 16) T) = Map.empty"
proof -
  note v = vec_new_parts [OF assms(1)]
  have l: "vec_val (plain_env new_node (line16 x86_64 T)) (vec_new (Some (line16 x86_64 T)))
      = (\<lambda>_. replicate (unat (ce_num (env16 x86_64 new_node clock T))) (ce_T (env16 x86_64 new_node clock T)))"
    unfolding v(3) by (simp add: line_new_def vec_compact_def)
  note init = ct16.compact_init [OF v(1,2,1,3,2,4) l assms(2,3) refl]
  show "ct16.compact_ok new_node clock x86_64 T a b (vec_statics (NUM_PER_CACHELINE x86_64 64 16) T) []"
    unfolding vec_statics_def by (rule init(1))
  show "ct16.live (vec_statics (NUM_PER_CACHELINE x86_64 64 16) T) = Map.empty" unfolding vec_statics_def by (rule init(2))
qed

section \<open>Limits of the code\<close>

text \<open>The 16 bit cast of the size: a storage of 512 blocks, which the first thread with an identifier from 65408 on creates, is visited as if it were empty.\<close>

lemma etl_end_wraps: "etl_end tids (of_nat (128 * 512)) = 0" "etl_end tids 65536 = 0"
proof -
  have z: "(65536 :: u16) = 0" by simp
  show "etl_end tids (of_nat (128 * 512)) = 0" "etl_end tids 65536 = 0" by (simp_all add: etl_end_def z)
qed

lemma full_storage_visits_nothing:
  assumes "vec_invar (2 ^ 9) env s" and "vec_len s = 128 * 512"
  shows "\<exists>segs. etl_for_each_const (vec_array env clock) tids s = Some segs \<and> concat segs = []"
proof -
  have "ga_size (vec_array env clock) s = Some (of_nat (128 * 512))" using va16.size(1) [OF assms(1)] assms(2) by simp
  then have "etl_for_each_const (vec_array env clock) tids s = ga_segments (vec_array env clock) 0 (ucast (0 :: u16)) s"
    by (simp add: etl_for_each_const_def etl_end_wraps del: of_nat_mult)
  moreover have "\<exists>segs. ga_segments (vec_array env clock) 0 (ucast (0 :: u16)) s = Some segs \<and> concat segs = map (vec_val env s) [unat (0 :: u64)..<unat (ucast (0 :: u16) :: u64)]"
    by (rule va16.segments [OF assms(1)]) simp_all
  ultimately show ?thesis by simp
qed

text \<open>
  The form of \<open>for_each_alive\<close> that is not \<open>const\<close> does not clip: a live thread that has not touched this storage sends it past the block table.
\<close>

lemma for_each_alive_overruns:
  "update_ranges (vec_array env clock) f [(0, 1)] (vec_new c) = None"
  by (simp add: vec_array_def vec_new_def cmem0_def Snapshot_for_each_def for_each_loop.simps mem_read_def builtin_popcount_def upt_rec)

end
