(* ===== verification/CounterSums.thy ===== *)
theory CounterSums
  imports Counters ThreadLocalVectors
begin

text \<open>
  Adders and summers refine the abstract counters: whatever the interleaving of loads and stores, no addition is lost, and what a counter reads is
  the sum of the additions finished since it was created or reset.
\<close>

lemma fold_plus_acc: "fold (\<lambda>value sum. sum + value) xs (x :: 'b::comm_monoid_add) = x + sum_list xs"
  by (induction xs arbitrary: x) (simp_all add: ac_simps)

lemma sum_update:
  fixes f :: "'b \<Rightarrow> 'c::comm_monoid_add"
  assumes "finite A" and "k \<in> A"
  shows "(\<Sum>m\<in>A. (f(k := f k + v)) m) = (\<Sum>m\<in>A. f m) + v"
proof -
  have "(\<Sum>m\<in>A - {k}. (f(k := f k + v)) m) = (\<Sum>m\<in>A - {k}. f m)" by (rule sum.cong) simp_all
  then show ?thesis using sum.remove [OF assms, of f] sum.remove [OF assms, of "f(k := f k + v)"] by (simp add: ac_simps)
qed

locale sum_storage = compact_storage E iinvar ilen ival tinvar tlen tval linvar llen lval lbound vinvar vlen vval vbound
  for E :: "('a::comm_monoid_add, 'i, 't, 's, 'o) compact_env" and iinvar ilen ival tinvar tlen tval linvar llen lval lbound vinvar vlen vval vbound +
  assumes zero: "ce_T E = 0"
begin

definition total where "total st i = (\<Sum>m<2 ^ 16. cell st i m)"

lemma reach_small: "compact_ok a b st held \<Longrightarrow> reach st i \<le> 2 ^ 16"
  using compact_okD(7) [of a b st held "unat i div num"] by (simp add: reach_def MAX_THREADS_def)

text \<open>What is above \<open>reach\<close> is 0 and does not count.\<close>

lemma value_ok:
  assumes "compact_ok a b st held" and "i \<in> set held"
  shows "counter_value E (handle i) st = Some (total st i)"
proof -
  have "(\<Sum>m<2 ^ 16. cell st i m) = (\<Sum>m<reach st i. cell st i m)"
    using compact_okD(5) [OF assms(1), of i] reach_small [OF assms(1), of i] zero by (intro sum.mono_neutral_right) auto
  then show ?thesis
    using for_each_const_ok [OF assms] by (simp add: counter_value_def fold_plus_acc total_def sum_list_distinct_conv_sum_set atLeast0LessThan)
qed

text \<open>The relation between the state of a program and the abstract counters; \<open>idm\<close> are the instances of the names.\<close>

definition pending_ok where
  "pending_ok st regs idm pend \<longleftrightarrow> (\<forall>t n v. map_of pend t = Some (n, v) \<longrightarrow>
     (\<exists>i k. idm n = Some i \<and> live st t = Some k \<and> k < reach st i \<and> regs t = Some (ref i k, cell st i k, v)))"

definition count_rel where
  "count_rel a b S = (\<lambda>(sums, pend). \<exists>idm held. compact_ok a b (co_statics S) held \<and> ran idm = set held \<and> inj_on idm (dom idm) \<and>
     co_objects S = map_option handle \<circ> idm \<and> sums = map_option (total (co_statics S)) \<circ> idm \<and> pending_ok (co_statics S) (co_registers S) idm pend)"

lemma count_relE:
  assumes "count_rel a b S (sums, pend)"
  obtains idm held where "compact_ok a b (co_statics S) held" and "\<And>n i. idm n = Some i \<Longrightarrow> i \<in> set held" and "ran idm = set held" and "inj_on idm (dom idm)"
    and "co_objects S = map_option handle \<circ> idm" and "sums = map_option (total (co_statics S)) \<circ> idm" and "pending_ok (co_statics S) (co_registers S) idm pend"
proof -
  from assms obtain idm held where r: "compact_ok a b (co_statics S) held" "ran idm = set held" "inj_on idm (dom idm)" "co_objects S = map_option handle \<circ> idm"
    "sums = map_option (total (co_statics S)) \<circ> idm" "pending_ok (co_statics S) (co_registers S) idm pend" unfolding count_rel_def by blast
  show ?thesis by (rule that [OF r(1) _ r(2-6)]) (use r(2) in \<open>auto simp: ran_def\<close>)
qed

lemma count_relI:
  assumes "compact_ok a b (co_statics S) held" and "ran idm = set held" and "inj_on idm (dom idm)"
    and "co_objects S = map_option handle \<circ> idm" and "sums = map_option (total (co_statics S)) \<circ> idm" and "pending_ok (co_statics S) (co_registers S) idm pend"
  shows "count_rel a b S (sums, pend)"
  using assms unfolding count_rel_def by blast

lemma idleD: "idle n pend \<Longrightarrow> map_of pend t = Some (m, v) \<Longrightarrow> m \<noteq> n"
  unfolding idle_def list_all_iff by (fastforce dest: map_of_SomeD)

text \<open>Additions under way stay valid when the cells they read, the identifiers of their threads and their instances stay.\<close>

lemma pending_keep:
  assumes "pending_ok st regs idm pend"
    and "\<And>t n v i k. map_of pend' t = Some (n, v) \<Longrightarrow> map_of pend t = Some (n, v) \<and> regs' t = regs t \<and> live st' t = live st t"
    and "\<And>t n v i k. map_of pend' t = Some (n, v) \<Longrightarrow> idm n = Some i \<Longrightarrow> live st t = Some k \<Longrightarrow> idm' n = Some i \<and> cell st' i k = cell st i k"
    and "\<And>i. reach st i \<le> reach st' i"
  shows "pending_ok st' regs' idm' pend'"
  unfolding pending_ok_def
proof (intro allI impI)
  fix t n v
  assume p: "map_of pend' t = Some (n, v)"
  obtain i k where "idm n = Some i" "live st t = Some k" "k < reach st i" "regs t = Some (ref i k, cell st i k, v)"
    using assms(1,2) p unfolding pending_ok_def by blast
  then show "\<exists>i k. idm' n = Some i \<and> live st' t = Some k \<and> k < reach st' i \<and> regs' t = Some (ref i k, cell st' i k, v)"
    using assms(2,3) [OF p] assms(4) [of i] by (intro exI [of _ i] exI [of _ k]) (auto simp: less_le_trans)
qed

lemma inj_idm: "inj_on idm (dom idm) \<Longrightarrow> idm n = Some i \<Longrightarrow> idm m = Some i \<Longrightarrow> n = m"
  by (metis domI inj_onD)

lemma step_new:
  assumes "count_rel (Suc a) b S (sums, pend)" and "sums n = None"
  shows "\<exists>S'. count_step E (New n) S = Some S' \<and> count_rel a b S' (sums(n \<mapsto> 0), pend) \<and> live (co_statics S') = live (co_statics S)"
proof -
  obtain idm held where R: "compact_ok (Suc a) b (co_statics S) held" "\<And>n i. idm n = Some i \<Longrightarrow> i \<in> set held" "ran idm = set held" "inj_on idm (dom idm)"
    "co_objects S = map_option handle \<circ> idm" "sums = map_option (total (co_statics S)) \<circ> idm" "pending_ok (co_statics S) (co_registers S) idm pend"
    using assms(1) by (rule count_relE) blast
  have n: "idm n = None" using assms(2) R(6) by simp
  obtain i st' where 1: "ct_construct E (co_statics S) = Some (handle i, st')" "compact_ok a b st' (held @ [i])" "cell st' = cell (co_statics S)"
    "live st' = live (co_statics S)" "\<And>j. reach (co_statics S) j \<le> reach st' j" by (rule construct_ok [OF R(1)]) blast
  have i: "i \<notin> set held" using compact_okD(9) [OF 1(2)] by simp
  then have t0: "total st' i = 0" using compact_okD(5) [OF R(1), of i] zero 1(3) by (simp add: total_def)
  have ts: "total st' = total (co_statics S)" using 1(3) by (simp add: total_def fun_eq_iff)
  have sums: "sums(n \<mapsto> 0) = map_option (total st') \<circ> idm(n \<mapsto> i)" using t0 unfolding R(6) ts by (simp add: fun_eq_iff)
  have "inj_on (idm(n \<mapsto> i)) (dom (idm(n \<mapsto> i)))" using R(4) i R(2) by (auto simp: inj_on_def)
  moreover have "ran (idm(n \<mapsto> i)) = set (held @ [i])" using n R(3) by (simp add: ran_map_upd)
  moreover have "pending_ok st' (co_registers S) (idm(n \<mapsto> i)) pend"
    by (rule pending_keep [OF R(7)]) (use 1(3-5) n in auto)
  moreover have "(co_objects S)(n \<mapsto> handle i) = map_option handle \<circ> idm(n \<mapsto> i)" using R(5) by (simp add: fun_eq_iff)
  ultimately have "count_rel a b (S\<lparr>co_statics := st', co_objects := (co_objects S)(n \<mapsto> handle i)\<rparr>) (sums(n \<mapsto> 0), pend)"
    using 1(2) sums by (intro count_relI [where held = "held @ [i]" and idm = "idm(n \<mapsto> i)"]) simp_all
  then show ?thesis using 1(1,4) by simp
qed

lemma total_upd: "total st' j = total st j" if "cell st' = (cell st)(i := f)" "j \<noteq> i" for st st' i j f
  using that by (simp add: total_def)

lemma sums_upd:
  assumes "inj_on idm (dom idm)" and "idm n = Some i" and "cell st' = (cell st)(i := f)"
  shows "map_option (total st') \<circ> idm = (map_option (total st) \<circ> idm)(n \<mapsto> total st' i)"
proof
  fix m
  show "(map_option (total st') \<circ> idm) m = ((map_option (total st) \<circ> idm)(n \<mapsto> total st' i)) m"
    using total_upd [OF assms(3)] inj_idm [OF assms(1,2), of m] assms(2) by (cases "idm m") auto
qed

lemma step_delete:
  assumes "count_rel a b S (sums, pend)" and "sums n \<noteq> None" and "idle n pend"
  shows "\<exists>S'. count_step E (Delete n) S = Some S' \<and> count_rel a b S' (sums(n := None), pend) \<and> live (co_statics S') = live (co_statics S)"
proof -
  obtain idm held where R: "compact_ok a b (co_statics S) held" "\<And>n i. idm n = Some i \<Longrightarrow> i \<in> set held" "ran idm = set held" "inj_on idm (dom idm)"
    "co_objects S = map_option handle \<circ> idm" "sums = map_option (total (co_statics S)) \<circ> idm" "pending_ok (co_statics S) (co_registers S) idm pend"
    using assms(1) by (rule count_relE) blast
  obtain i where i: "idm n = Some i" using assms(2) R(6) by auto
  obtain st' where 1: "ct_destroy E (handle i) (co_statics S) = Some st'" "compact_ok a b st' (filter (\<lambda>j. j \<noteq> i) held)"
    "cell st' = (cell (co_statics S))(i := (\<lambda>_. ce_T E))" "live st' = live (co_statics S)" "reach st' = reach (co_statics S)"
    by (rule destroy_ok [OF R(1) R(2) [OF i]])
  let ?idm = "idm(n := None)"
  have ne: "idm m = Some j \<Longrightarrow> m \<noteq> n \<Longrightarrow> j \<noteq> i" for m j using inj_idm [OF R(4) i] by blast
  have "sums(n := None) = map_option (total st') \<circ> ?idm"
  proof
    fix m
    show "(sums(n := None)) m = (map_option (total st') \<circ> ?idm) m" using R(6) ne [of m] total_upd [OF 1(3)] by (cases "idm m") auto
  qed
  moreover have "ran ?idm = set (filter (\<lambda>j. j \<noteq> i) held)" unfolding set_filter R(3) [symmetric] using ne i by (auto simp: ran_def) (metis option.inject)
  moreover have "inj_on ?idm (dom ?idm)" using R(4) by (auto simp: inj_on_def)
  moreover have "pending_ok st' (co_registers S) ?idm pend"
  proof (rule pending_keep [OF R(7)])
    fix t m v j k
    assume "map_of pend t = Some (m, v)" "idm m = Some j" "live (co_statics S) t = Some k"
    then show "?idm m = Some j \<and> cell st' j k = cell (co_statics S) j k" using idleD [OF assms(3)] ne 1(3) by fastforce
  qed (use 1(4,5) in auto)
  moreover have "(co_objects S)(n := None) = map_option handle \<circ> ?idm" using R(5) by (simp add: fun_eq_iff)
  ultimately have "count_rel a b (S\<lparr>co_statics := st', co_objects := (co_objects S)(n := None)\<rparr>) (sums(n := None), pend)"
    using 1(2) by (intro count_relI [where held = "filter (\<lambda>j. j \<noteq> i) held" and idm = ?idm]) simp_all
  then show ?thesis using 1(1,4) i R(5) by simp
qed

lemma step_load:
  assumes "count_rel a (if live (co_statics S) t = None then Suc b else b) S (sums, pend)" and "sums n \<noteq> None" and "map_of pend t = None"
  shows "\<exists>S' k. count_step E (Load t n v) S = Some S' \<and> count_rel a b S' (sums, (t, n, v) # pend) \<and> live (co_statics S') = (live (co_statics S))(t \<mapsto> k)"
proof -
  obtain idm held where R: "compact_ok a (if live (co_statics S) t = None then Suc b else b) (co_statics S) held" "\<And>n i. idm n = Some i \<Longrightarrow> i \<in> set held"
    "ran idm = set held" "inj_on idm (dom idm)"
    "co_objects S = map_option handle \<circ> idm" "sums = map_option (total (co_statics S)) \<circ> idm" "pending_ok (co_statics S) (co_registers S) idm pend"
    using assms(1) by (rule count_relE) blast
  obtain i where i: "idm n = Some i" using assms(2) R(6) by auto
  obtain k st' where 1: "ct_local E t (handle i) (co_statics S) = Some (ref i k, st')" "compact_ok a b st' held" "cell st' = cell (co_statics S)"
    "live st' = (live (co_statics S))(t \<mapsto> k)" "k < reach st' i" "\<And>j. reach (co_statics S) j \<le> reach st' j" by (rule local_ok [OF R(1) R(2) [OF i]]) blast
  have l: "counter_load E t (handle i) (co_statics S) = Some (ref i k, cell st' i k, st')"
    using 1(1) load_ok [OF 1(2) R(2) [OF i] 1(5)] by (simp add: counter_load_def)
  let ?regs = "(co_registers S)(t \<mapsto> (ref i k, cell st' i k, v))"
  have ts: "total st' = total (co_statics S)" using 1(3) by (simp add: total_def fun_eq_iff)
  have p: "pending_ok st' ?regs idm pend" by (rule pending_keep [OF R(7)]) (use 1(3,4,6) assms(3) in auto)
  have "pending_ok st' ?regs idm ((t, n, v) # pend)"
    unfolding pending_ok_def
  proof (intro allI impI)
    fix u m w
    assume u: "map_of ((t, n, v) # pend) u = Some (m, w)"
    show "\<exists>i k. idm m = Some i \<and> live st' u = Some k \<and> k < reach st' i \<and> ?regs u = Some (ref i k, cell st' i k, w)"
    proof (cases "u = t")
      case True
      then show ?thesis using u i 1(4,5) by simp
    next
      case False
      then have "map_of pend u = Some (m, w)" using u by simp
      then show ?thesis using p unfolding pending_ok_def by blast
    qed
  qed
  then have "count_rel a b (S\<lparr>co_statics := st', co_registers := ?regs\<rparr>) (sums, (t, n, v) # pend)"
    using 1(2) R(3-6) ts by (intro count_relI [where held = held and idm = idm]) simp_all
  then show ?thesis using l i R(5) 1(4) by auto
qed

text \<open>The other additions under way on the same counter are those of other live threads, so they read other cells.\<close>

lemma step_store:
  assumes "count_rel a b S (sums, pend)" and "map_of pend t = Some (n, v)" and "sums n = Some x"
  shows "\<exists>S'. count_step E (Store t) S = Some S' \<and> count_rel a b S' (sums(n \<mapsto> x + v), AList.delete t pend) \<and> live (co_statics S') = live (co_statics S)"
proof -
  obtain idm held where R: "compact_ok a b (co_statics S) held" "\<And>n i. idm n = Some i \<Longrightarrow> i \<in> set held" "ran idm = set held" "inj_on idm (dom idm)"
    "co_objects S = map_option handle \<circ> idm" "sums = map_option (total (co_statics S)) \<circ> idm" "pending_ok (co_statics S) (co_registers S) idm pend"
    using assms(1) by (rule count_relE) blast
  from R(7) assms(2) obtain i k where i: "idm n = Some i" "live (co_statics S) t = Some k" "k < reach (co_statics S) i"
    "co_registers S t = Some (ref i k, cell (co_statics S) i k, v)" unfolding pending_ok_def by blast
  let ?c = "cell (co_statics S) i"
  obtain st' where 1: "ref_store E (ref i k) (?c k + v) (co_statics S) = Some st'" "compact_ok a b st' held"
    "cell st' = (cell (co_statics S))(i := ?c(k := ?c k + v))" "live st' = live (co_statics S)" "reach st' = reach (co_statics S)"
    by (rule store_ok [OF R(1) R(2) [OF i(1)] i(3)])
  have k: "k \<in> {..<2 ^ 16}" using i(3) reach_small [OF R(1), of i] by simp
  have "total st' i = total (co_statics S) i + v" using sum_update [OF _ k, of ?c v] 1(3) by (simp add: total_def)
  then have "total st' i = x + v" using assms(3) R(6) i(1) by simp
  then have sums: "sums(n \<mapsto> x + v) = map_option (total st') \<circ> idm" using sums_upd [OF R(4) i(1) 1(3)] R(6) by simp
  have "pending_ok st' ((co_registers S)(t := None)) idm (AList.delete t pend)"
  proof (rule pending_keep [OF R(7)])
    fix u m w j l
    assume u: "map_of (AList.delete t pend) u = Some (m, w)" and l: "live (co_statics S) u = Some l" and j: "idm m = Some j"
    from u have "u \<noteq> t" by (auto simp: delete_conv)
    then have "l \<noteq> k" using live_inj [OF R(1) i(2)] l by blast
    then show "idm m = Some j \<and> cell st' j l = cell (co_statics S) j l" using j 1(3) by simp
  qed (use 1(4,5) in \<open>auto simp: delete_conv split: if_splits\<close>)
  then have "count_rel a b (S\<lparr>co_statics := st', co_registers := (co_registers S)(t := None)\<rparr>) (sums(n \<mapsto> x + v), AList.delete t pend)"
    using 1(2) R(3-5) sums by (intro count_relI [where held = held and idm = idm]) simp_all
  then show ?thesis using 1(1,4) i(4) by (simp add: counter_store_def)
qed

lemma step_reset:
  assumes "count_rel a b S (sums, pend)" and "sums n \<noteq> None" and "idle n pend"
  shows "\<exists>S'. count_step E (Reset n) S = Some S' \<and> count_rel a b S' (sums(n \<mapsto> 0), pend) \<and> live (co_statics S') = live (co_statics S)"
proof -
  obtain idm held where R: "compact_ok a b (co_statics S) held" "\<And>n i. idm n = Some i \<Longrightarrow> i \<in> set held" "ran idm = set held" "inj_on idm (dom idm)"
    "co_objects S = map_option handle \<circ> idm" "sums = map_option (total (co_statics S)) \<circ> idm" "pending_ok (co_statics S) (co_registers S) idm pend"
    using assms(1) by (rule count_relE) blast
  obtain i where i: "idm n = Some i" using assms(2) R(6) by auto
  obtain st' where 1: "ct_for_each E (\<lambda>_. 0) (handle i) (co_statics S) = Some st'" "compact_ok a b st' held"
    "cell st' = (cell (co_statics S))(i := (\<lambda>m. if m < reach (co_statics S) i then 0 else cell (co_statics S) i m))"
    "live st' = live (co_statics S)" "reach st' = reach (co_statics S)" by (rule for_each_ok [OF R(1) R(2) [OF i]])
  have "cell st' i m = 0" for m using compact_okD(5) [OF R(1), of i m] zero fun_cong [OF 1(3), of i] by simp
  then have "total st' i = 0" by (simp add: total_def)
  then have sums: "sums(n \<mapsto> 0) = map_option (total st') \<circ> idm" using sums_upd [OF R(4) i 1(3)] R(6) by simp
  have "pending_ok st' (co_registers S) idm pend"
  proof (rule pending_keep [OF R(7)])
    fix t m v j k
    assume "map_of pend t = Some (m, v)" "idm m = Some j" "live (co_statics S) t = Some k"
    then show "idm m = Some j \<and> cell st' j k = cell (co_statics S) j k" using idleD [OF assms(3)] inj_idm [OF R(4) i] 1(3) by fastforce
  qed (use 1(4,5) in auto)
  then have "count_rel a b (S\<lparr>co_statics := st'\<rparr>) (sums(n \<mapsto> 0), pend)"
    using 1(2) R(3-5) sums by (intro count_relI [where held = held and idm = idm]) simp_all
  then show ?thesis using 1(1,4) i R(5) by (simp add: counter_reset_def)
qed

lemma ran_swap: "n \<noteq> m \<Longrightarrow> ran (f(n := f m, m := f n)) = ran f"
  by (auto simp: ran_def) metis+

lemma step_move:
  assumes "count_rel a b S (sums, pend)" and "sums n \<noteq> None" and "sums m \<noteq> None" and "n \<noteq> m" and "idle n pend" and "idle m pend"
  shows "\<exists>S'. count_step E (Move n m) S = Some S' \<and> count_rel a b S' (sums(n := sums m, m := sums n), pend) \<and> live (co_statics S') = live (co_statics S)"
proof -
  obtain idm held where R: "compact_ok a b (co_statics S) held" "\<And>n i. idm n = Some i \<Longrightarrow> i \<in> set held" "ran idm = set held" "inj_on idm (dom idm)"
    "co_objects S = map_option handle \<circ> idm" "sums = map_option (total (co_statics S)) \<circ> idm" "pending_ok (co_statics S) (co_registers S) idm pend"
    using assms(1) by (rule count_relE) blast
  obtain i j where i: "idm n = Some i" "idm m = Some j" using assms(2,3) R(6) by auto
  let ?idm = "idm(n := idm m, m := idm n)"
  have "pending_ok (co_statics S) (co_registers S) ?idm pend"
    by (rule pending_keep [OF R(7)]) (use idleD [OF assms(5)] idleD [OF assms(6)] in \<open>fastforce+\<close>)
  moreover have "inj_on ?idm (dom ?idm)"
    using R(4) i assms(4) by (simp add: inj_on_def dom_def) metis
  moreover have "sums(n := sums m, m := sums n) = map_option (total (co_statics S)) \<circ> ?idm" unfolding R(6) by (simp add: fun_eq_iff)
  moreover have "(co_objects S)(n \<mapsto> handle j, m \<mapsto> handle i) = map_option handle \<circ> ?idm" using R(5) i by (simp add: fun_eq_iff)
  ultimately have "count_rel a b (S\<lparr>co_objects := (co_objects S)(n \<mapsto> handle j, m \<mapsto> handle i)\<rparr>) (sums(n := sums m, m := sums n), pend)"
    using R(1) R(3) ran_swap [OF assms(4), of idm] by (intro count_relI [where held = held and idm = ?idm]) simp_all
  then show ?thesis using i R(5) move_ok by simp
qed

lemma step_exit:
  assumes "count_rel a b S (sums, pend)" and "map_of pend t = None"
  shows "\<exists>S'. count_step E (Exit t) S = Some S' \<and> count_rel a b S' (sums, pend) \<and> live (co_statics S') = (live (co_statics S))(t := None)"
proof -
  obtain idm held where R: "compact_ok a b (co_statics S) held" "\<And>n i. idm n = Some i \<Longrightarrow> i \<in> set held" "ran idm = set held" "inj_on idm (dom idm)"
    "co_objects S = map_option handle \<circ> idm" "sums = map_option (total (co_statics S)) \<circ> idm" "pending_ok (co_statics S) (co_registers S) idm pend"
    using assms(1) by (rule count_relE) blast
  obtain st' where 1: "ct_thread_exit E t (co_statics S) = Some st'" "compact_ok a b st' held" "cell st' = cell (co_statics S)"
    "live st' = (live (co_statics S))(t := None)" "reach st' = reach (co_statics S)" by (rule exit_ok [OF R(1)])
  have ts: "total st' = total (co_statics S)" using 1(3) by (simp add: total_def fun_eq_iff)
  have "pending_ok st' (co_registers S) idm pend" by (rule pending_keep [OF R(7)]) (use 1(3-5) assms(2) in auto)
  then have "count_rel a b (S\<lparr>co_statics := st'\<rparr>) (sums, pend)"
    using 1(2) R(3-6) ts by (intro count_relI [where held = held and idm = idm]) simp_all
  then show ?thesis using 1(1,4) by simp
qed

lemma count_rel_value:
  assumes "count_rel a b S (sums, pend)" and "sums n = Some x"
  shows "\<exists>obj. co_objects S n = Some obj \<and> counter_value E obj (co_statics S) = Some x"
proof -
  obtain idm held where R: "compact_ok a b (co_statics S) held" "\<And>n i. idm n = Some i \<Longrightarrow> i \<in> set held"
    "co_objects S = map_option handle \<circ> idm" "sums = map_option (total (co_statics S)) \<circ> idm"
    using assms(1) by (rule count_relE) blast
  obtain i where i: "idm n = Some i" "x = total (co_statics S) i" using assms(2) R(4) by auto
  then show ?thesis using value_ok [OF R(1) R(2) [OF i(1)]] R(3) by simp
qed

lemma count_step_ok:
  assumes "spec_step op A = Some A'" and "count_rel (news (op # ops)) (thread_starts (dom (live (co_statics S))) (op # ops)) S A"
  shows "\<exists>S'. count_step E op S = Some S' \<and> count_rel (news ops) (thread_starts (dom (live (co_statics S'))) ops) S' A'"
proof -
  obtain sums pend where A: "A = (sums, pend)" by (cases A)
  let ?L = "dom (live (co_statics S))"
  show ?thesis
  proof (cases op)
    case (New n)
    have "sums n = None" "A' = (sums(n \<mapsto> 0), pend)" using assms(1) unfolding New A by (auto split: if_splits)
    then show ?thesis using step_new [of "news ops" "thread_starts ?L ops" S sums pend n] assms(2) unfolding New A by force
  next
    case (Delete n)
    have "sums n \<noteq> None" "idle n pend" "A' = (sums(n := None), pend)" using assms(1) unfolding Delete A by (auto split: if_splits)
    then show ?thesis using step_delete [of "news ops" "thread_starts ?L ops" S sums pend n] assms(2) unfolding Delete A by force
  next
    case (Load t n v)
    have s: "sums n \<noteq> None" "map_of pend t = None" "A' = (sums, (t, n, v) # pend)" using assms(1) unfolding Load A by (auto split: if_splits)
    let ?b = "thread_starts (insert t ?L) ops"
    have "count_rel (news ops) (if live (co_statics S) t = None then Suc ?b else ?b) S (sums, pend)"
      using assms(2) unfolding Load A by (auto simp: domIff insert_absorb split: if_splits)
    from step_load [OF this s(1,2), of v] obtain S' k where
      "count_step E (Load t n v) S = Some S'" "count_rel (news ops) ?b S' (sums, (t, n, v) # pend)" "live (co_statics S') = (live (co_statics S))(t \<mapsto> k)" by blast
    then show ?thesis unfolding Load s(3) by simp
  next
    case (Store t)
    obtain n v x where "map_of pend t = Some (n, v)" "sums n = Some x" "A' = (sums(n \<mapsto> x + v), AList.delete t pend)"
      using assms(1) unfolding Store A by (auto simp: bind_eq_Some_conv)
    then show ?thesis using step_store [of "news ops" "thread_starts ?L ops" S sums pend t n v x] assms(2) unfolding Store A by force
  next
    case (Reset n)
    have "sums n \<noteq> None" "idle n pend" "A' = (sums(n \<mapsto> 0), pend)" using assms(1) unfolding Reset A by (auto split: if_splits)
    then show ?thesis using step_reset [of "news ops" "thread_starts ?L ops" S sums pend n] assms(2) unfolding Reset A by force
  next
    case (Move n m)
    have "sums n \<noteq> None" "sums m \<noteq> None" "n \<noteq> m" "idle n pend" "idle m pend" "A' = (sums(n := sums m, m := sums n), pend)"
      using assms(1) unfolding Move A by (auto split: if_splits)
    then show ?thesis using step_move [of "news ops" "thread_starts ?L ops" S sums pend n m] assms(2) unfolding Move A by force
  next
    case (Exit t)
    have "map_of pend t = None" "A' = (sums, pend)" using assms(1) unfolding Exit A by (auto split: if_splits)
    then show ?thesis using step_exit [of "news ops" "thread_starts (?L - {t}) ops" S sums pend t] assms(2) unfolding Exit A by force
  qed
qed

lemma count_run_ok:
  "spec_run ops A = Some A' \<Longrightarrow> count_rel (news ops) (thread_starts (dom (live (co_statics S))) ops) S A \<Longrightarrow>
   \<exists>S' a b. count_run E ops S = Some S' \<and> count_rel a b S' A'"
proof (induction ops arbitrary: A S)
  case Nil
  then show ?case by auto
next
  case (Cons op ops)
  obtain A1 where A1: "spec_step op A = Some A1" "spec_run ops A1 = Some A'" using Cons.prems(1) by (auto simp: bind_eq_Some_conv)
  from count_step_ok [OF A1(1) Cons.prems(2)] obtain S1 where
    "count_step E op S = Some S1" "count_rel (news ops) (thread_starts (dom (live (co_statics S1))) ops) S1 A1" by blast
  then show ?case using Cons.IH [OF A1(2)] by simp
qed

lemma counters_refine:
  assumes "compact_ok (news ops) (thread_starts {} ops) st []" and "live st = Map.empty" and "spec_run ops (Map.empty, []) = Some (sums, pend)"
  shows "\<exists>S. count_run E ops \<lparr>co_statics = st, co_objects = Map.empty, co_registers = Map.empty\<rparr> = Some S
    \<and> (\<forall>n. sums n = (case co_objects S n of None \<Rightarrow> None | Some obj \<Rightarrow> counter_value E obj (co_statics S)))"
proof -
  let ?S = "\<lparr>co_statics = st, co_objects = Map.empty, co_registers = Map.empty\<rparr>"
  have "count_rel (news ops) (thread_starts (dom (live (co_statics ?S))) ops) ?S (Map.empty, [])"
    using assms(1,2) by (intro count_relI [where held = "[]" and idm = Map.empty]) (simp_all add: pending_ok_def comp_def)
  from count_run_ok [OF assms(3) this] obtain S a b where S: "count_run E ops ?S = Some S" "count_rel a b S (sums, pend)" by blast
  have "sums n = (case co_objects S n of None \<Rightarrow> None | Some obj \<Rightarrow> counter_value E obj (co_statics S))" for n
  proof (cases "sums n")
    case None
    then have "co_objects S n = None" using S(2) by (auto elim!: count_relE)
    then show ?thesis using None by simp
  next
    case (Some x)
    then show ?thesis using count_rel_value [OF S(2) Some] by auto
  qed
  then show ?thesis using S(1) by blast
qed

text \<open>
  A reset between the load and the store of an addition is undone: the store writes the old value of the cell with the addition. So the restriction in
  \<open>spec_step\<close> is needed.
\<close>

lemma local_live: "ct_local E t obj st = Some (r, st') \<Longrightarrow> live st t \<noteq> None \<Longrightarrow> live st' = live st"
  by (auto simp: ct_local_def etl_local_def current_thread_id_def live_def fun_eq_iff bind_eq_Some_conv)

lemma reset_during_addition:
  assumes st: "compact_ok (Suc 0) (Suc 0) st []" and l: "live st = Map.empty"
  shows "\<exists>S obj. count_run E [New 0, Load t 0 x, Store t, Load t 0 v, Reset 0, Store t] \<lparr>co_statics = st, co_objects = Map.empty, co_registers = Map.empty\<rparr> = Some S
    \<and> co_objects S 0 = Some obj \<and> counter_value E obj (co_statics S) = Some (x + v)"
proof -
  obtain i s1 where 1: "ct_construct E st = Some (handle i, s1)" "compact_ok 0 (Suc 0) s1 [i]" "cell s1 = cell st" "live s1 = live st"
    by (rule construct_ok [OF st]) (rule that, assumption, simp_all)
  have z: "cell s1 i m = 0" for m using compact_okD(5) [OF st, of i] zero 1(3) by simp
  obtain k s2 where 2: "ct_local E t (handle i) s1 = Some (ref i k, s2)" "compact_ok 0 0 s2 [i]" "cell s2 = cell s1" "live s2 = [t \<mapsto> k]" "k < reach s2 i"
    by (rule local_ok [of 0 s1 t 0 "[i]" i]) (use 1(2,4) l in simp_all)
  obtain s3 where 3: "ref_store E (ref i k) x s2 = Some s3" "compact_ok 0 0 s3 [i]" "cell s3 = (cell s2)(i := (cell s2 i)(k := x))" "live s3 = live s2" "reach s3 = reach s2"
    by (rule store_ok [OF 2(2) _ 2(5), of x]) simp_all
  obtain k' s4 where d: "ct_local E t (handle i) s3 = Some (ref i k', s4)" "compact_ok 0 0 s4 [i]" "cell s4 = cell s3" "live s4 = [t \<mapsto> k']" "k' < reach s4 i"
    by (rule local_ok [of 0 s3 t 0 "[i]" i]) (use 3(2,4) 2(4) in simp_all)
  have "live s4 = live s3" using d(1) 3(4) 2(4) by (intro local_live) auto
  then have "k' = k" using d(4) 3(4) 2(4) by (simp add: fun_eq_iff split: if_splits)
  note 4 = d(1-3,5) [unfolded this]
  obtain s5 where 5: "ct_for_each E (\<lambda>_. 0) (handle i) s4 = Some s5" "compact_ok 0 0 s5 [i]"
    "cell s5 = (cell s4)(i := (\<lambda>m. if m < reach s4 i then 0 else cell s4 i m))" "reach s5 = reach s4"
    by (rule for_each_ok [OF 4(2), of i "\<lambda>_. 0"]) simp_all
  obtain s6 where 6: "ref_store E (ref i k) (x + v) s5 = Some s6" "compact_ok 0 0 s6 [i]" "cell s6 = (cell s5)(i := (cell s5 i)(k := x + v))"
    by (rule store_ok [OF 5(2), of i k "x + v"]) (use 4(4) 5(4) in simp_all)
  have "cell s6 i m = (if m = k then x + v else 0)" for m
    using compact_okD(5) [OF 4(2), of i m] zero by (simp add: 6(3) 5(3))
  moreover have "k < 2 ^ 16" using 4(4) reach_small [OF 4(2), of i] by simp
  ultimately have "total s6 i = x + v" by (simp add: total_def)
  then have "counter_value E (handle i) s6 = Some (x + v)" using value_ok [OF 6(2), of i] by simp
  moreover have "ref_load E (ref i k) s2 = Some 0" "ref_load E (ref i k) s4 = Some x"
    using load_ok [OF 2(2) _ 2(5)] load_ok [OF 4(2) _ 4(4)] z by (simp_all add: 2(3) 3(3) 4(3))
  ultimately show ?thesis
    using 1(1) 2(1) 3(1) 4(1) 5(1) 6(1) by (simp add: counter_load_def counter_store_def counter_reset_def)
qed

end

section \<open>The counters of the code\<close>

interpretation adders: sum_storage "env8 x86_64 new_node clock (0 :: i64)"
    "vec_invar (2 ^ 25) (plain_env new_node 0)" vec_len "vec_val (plain_env new_node 0)" "vec_invar (2 ^ 9) (plain_env new_node 0)" vec_len "vec_val (plain_env new_node 0)"
    "vec_invar (2 ^ 9) (plain_env new_node (line8 x86_64 0))" vec_len "vec_val (plain_env new_node (line8 x86_64 0))" "128 * 2 ^ 9"
    "vec_invar (2 ^ 25) (plain_env new_node (vec_new (Some (line8 x86_64 0))))" vec_len "vec_val (plain_env new_node (vec_new (Some (line8 x86_64 0))))" "128 * 2 ^ 25"
  for x86_64 new_node clock
  by unfold_locales (simp add: vec_compact_def)

interpretation summers: sum_storage "env16 x86_64 new_node clock (0 :: Summary)"
    "vec_invar (2 ^ 25) (plain_env new_node 0)" vec_len "vec_val (plain_env new_node 0)" "vec_invar (2 ^ 9) (plain_env new_node 0)" vec_len "vec_val (plain_env new_node 0)"
    "vec_invar (2 ^ 9) (plain_env new_node (line16 x86_64 0))" vec_len "vec_val (plain_env new_node (line16 x86_64 0))" "128 * 2 ^ 9"
    "vec_invar (2 ^ 25) (plain_env new_node (vec_new (Some (line16 x86_64 0))))" vec_len "vec_val (plain_env new_node (vec_new (Some (line16 x86_64 0))))" "128 * 2 ^ 25"
  for x86_64 new_node clock
  by unfold_locales (simp add: vec_compact_def)

text \<open>
  C15: Adders lose nothing: for every program that creates, adds to, resets, moves and destroys \<open>ConcurrentAdder\<close>s from threads that come and go, with
  the two halves of additions interleaved in any order, but no adder reset, moved or destroyed between the two halves of an addition to it and no thread that
  exits between them (the programs \<open>spec_run\<close> allows), every step returns and \<open>value()\<close> of every adder is the sum (modulo \<open>2^64\<close>) of the additions finished since it was
  created or reset, whichever instances and identifiers are used again; fewer than \<open>2^16 - 128\<close> thread starts. A reset between the two halves is undone by the second
  (\<open>adder_reset_undone\<close>).
\<close>

theorem adder_loses_nothing:
  assumes "new_node_spec (Suc (2 ^ 25)) new_node" and "news ops \<le> MAX_INSTANCES" and "thread_starts {} ops \<le> MAX_THREADS"
    and "spec_run (ops :: i64 count_op list) (Map.empty, []) = Some (sums, pend)"
  shows "\<exists>S. count_run (env8 x86_64 new_node clock 0) ops
        \<lparr>co_statics = vec_statics (NUM_PER_CACHELINE x86_64 64 8) 0, co_objects = Map.empty, co_registers = Map.empty\<rparr> = Some S
    \<and> (\<forall>n. sums n = (case co_objects S n of None \<Rightarrow> None | Some obj \<Rightarrow> counter_value (env8 x86_64 new_node clock 0) obj (co_statics S)))"
  by (rule adders.counters_refine [OF ct8_init [OF assms(1-3)] assms(4)])

definition sample_adds :: "i64 count_op list" where
  "sample_adds = [New 0, New 1, Load 7 0 5, Load 8 0 6, Store 8, Store 7, Exit 7, Load 9 1 (- 2), Store 9, Delete 0, New 2, Load 9 2 4, Store 9, Move 1 2]"

lemma sample_adds_spec: "spec_run sample_adds (Map.empty, []) = Some (Map.empty(1 \<mapsto> 4, 2 \<mapsto> - 2), [])"
  by (simp add: sample_adds_def idle_def fun_eq_iff)

theorem adder_loses_nothing_witness:
  "\<exists>S. count_run (env8 True (new_node_ref (Suc (2 ^ 25))) of_nat 0) sample_adds
        \<lparr>co_statics = vec_statics (NUM_PER_CACHELINE True 64 8) 0, co_objects = Map.empty, co_registers = Map.empty\<rparr> = Some S
    \<and> (\<forall>n. (Map.empty(1 \<mapsto> 4, 2 \<mapsto> - 2)) n =
        (case co_objects S n of None \<Rightarrow> None | Some obj \<Rightarrow> counter_value (env8 True (new_node_ref (Suc (2 ^ 25))) of_nat 0) obj (co_statics S)))"
  by (rule adder_loses_nothing [OF new_node_ref_spec _ _ sample_adds_spec]) (simp_all add: sample_adds_def MAX_INSTANCES_def MAX_THREADS_def)

text \<open>
  A thread has added 5 to an adder and is adding 6 when the adder is reset: the adder then reads 11, where one that is atomic reads 0 or 6.
\<close>

lemma adder_reset_undone:
  assumes "new_node_spec (Suc (2 ^ 25)) new_node"
  shows "\<exists>S obj. count_run (env8 x86_64 new_node clock 0) [New 0, Load t 0 5, Store t, Load t 0 6, Reset 0, Store t]
        \<lparr>co_statics = vec_statics (NUM_PER_CACHELINE x86_64 64 8) 0, co_objects = Map.empty, co_registers = Map.empty\<rparr> = Some S
    \<and> co_objects S 0 = Some obj \<and> counter_value (env8 x86_64 new_node clock 0) obj (co_statics S) = Some (11 :: i64)"
proof -
  have "Suc 0 \<le> MAX_INSTANCES" "Suc 0 \<le> MAX_THREADS" by (simp_all add: MAX_INSTANCES_def MAX_THREADS_def)
  note init = ct8_init [OF assms this]
  have sum: "(11 :: i64) = 5 + 6" by simp
  show ?thesis unfolding sum by (rule adders.reset_during_addition [OF init])
qed

text \<open>The same for summers, whose cells are pairs: \<open>summer << v\<close> adds \<open>(v, 1)\<close>.\<close>

theorem summer_loses_nothing:
  assumes "new_node_spec (Suc (2 ^ 25)) new_node" and "news ops \<le> MAX_INSTANCES" and "thread_starts {} ops \<le> MAX_THREADS"
    and "spec_run (ops :: Summary count_op list) (Map.empty, []) = Some (sums, pend)"
  shows "\<exists>S. count_run (env16 x86_64 new_node clock 0) ops
        \<lparr>co_statics = vec_statics (NUM_PER_CACHELINE x86_64 64 16) 0, co_objects = Map.empty, co_registers = Map.empty\<rparr> = Some S
    \<and> (\<forall>n. sums n = (case co_objects S n of None \<Rightarrow> None | Some obj \<Rightarrow> counter_value (env16 x86_64 new_node clock 0) obj (co_statics S)))"
  by (rule summers.counters_refine [OF ct16_init [OF assms(1-3)] assms(4)])

end
