(* ===== verification/CounterMax.thy ===== *)
theory CounterMax
  imports Counters ThreadLocalVectors
begin

text \<open>
  Maxers refine the list of values recorded since the last \<open>reset\<close>: a reset only advances the version, so the slots of an older version are stale and
  the first value a thread records afterwards replaces its slot. A counting call is one step here: the code accepts that a call that overlaps a reset may
  count for the period before.
\<close>

section \<open>Programs over maxers\<close>

datatype max_op = MNew nat | MDelete nat | Record nat nat i64 | MReset nat | MExit nat

record ('i, 't, 'o) max_state =
  ma_statics :: "('i, 't, 'o) statics"
  ma_objects :: "nat \<rightharpoonup> ConcurrentMaxer"

fun max_step :: "(Slot, 'i, 't, 's, 'o) compact_env \<Rightarrow> max_op \<Rightarrow> ('i, 't, 'o) max_state \<Rightarrow> ('i, 't, 'o) max_state option" where
  "max_step E (MNew n) S = do {
     (obj, st) \<leftarrow> maxer_new E (ma_statics S);
     Some (S\<lparr>ma_statics := st, ma_objects := (ma_objects S)(n \<mapsto> obj)\<rparr>) }"
| "max_step E (MDelete n) S = do {
     obj \<leftarrow> ma_objects S n;
     st \<leftarrow> ct_destroy E (mx_storage obj) (ma_statics S);
     Some (S\<lparr>ma_statics := st, ma_objects := (ma_objects S)(n := None)\<rparr>) }"
| "max_step E (Record t n v) S = do {
     obj \<leftarrow> ma_objects S n;
     st \<leftarrow> maxer_shift E t obj v (ma_statics S);
     Some (S\<lparr>ma_statics := st\<rparr>) }"
| "max_step E (MReset n) S = do {
     obj \<leftarrow> ma_objects S n;
     Some (S\<lparr>ma_objects := (ma_objects S)(n \<mapsto> maxer_reset obj)\<rparr>) }"
| "max_step E (MExit t) S = do {
     st \<leftarrow> ct_thread_exit E t (ma_statics S);
     Some (S\<lparr>ma_statics := st\<rparr>) }"

fun max_run :: "(Slot, 'i, 't, 's, 'o) compact_env \<Rightarrow> max_op list \<Rightarrow> ('i, 't, 'o) max_state \<Rightarrow> ('i, 't, 'o) max_state option" where
  "max_run E [] S = Some S"
| "max_run E (op # ops) S = do { S \<leftarrow> max_step E op S; max_run E ops S }"

text \<open>The values of the current period, by name; \<open>None\<close> for a program that uses a name without a maxer.\<close>

fun period_step :: "max_op \<Rightarrow> (nat \<rightharpoonup> i64 list) \<Rightarrow> (nat \<rightharpoonup> i64 list) option" where
  "period_step (MNew n) recs = (if recs n = None then Some (recs(n \<mapsto> [])) else None)"
| "period_step (MDelete n) recs = (if recs n \<noteq> None then Some (recs(n := None)) else None)"
| "period_step (Record t n v) recs = do { vs \<leftarrow> recs n; Some (recs(n \<mapsto> vs @ [v])) }"
| "period_step (MReset n) recs = (if recs n \<noteq> None then Some (recs(n \<mapsto> [])) else None)"
| "period_step (MExit t) recs = Some recs"

fun period_run :: "max_op list \<Rightarrow> (nat \<rightharpoonup> i64 list) \<Rightarrow> (nat \<rightharpoonup> i64 list) option" where
  "period_run [] recs = Some recs"
| "period_run (op # ops) recs = do { recs \<leftarrow> period_step op recs; period_run ops recs }"

fun max_news :: "max_op list \<Rightarrow> nat" where
  "max_news [] = 0"
| "max_news (MNew n # ops) = Suc (max_news ops)"
| "max_news (_ # ops) = max_news ops"

fun max_resets :: "max_op list \<Rightarrow> nat" where
  "max_resets [] = 0"
| "max_resets (MReset n # ops) = Suc (max_resets ops)"
| "max_resets (_ # ops) = max_resets ops"

fun max_starts :: "nat set \<Rightarrow> max_op list \<Rightarrow> nat" where
  "max_starts L [] = 0"
| "max_starts L (Record t n v # ops) = (if t \<in> L then max_starts L ops else Suc (max_starts (insert t L) ops))"
| "max_starts L (MExit t # ops) = max_starts (L - {t}) ops"
| "max_starts L (_ # ops) = max_starts L ops"

text \<open>
  What a maxer promises: the largest value of the period, as a signed number. The code starts from \<open>SSIZE_MIN\<close> and reports a result only for a larger value,
  so a period whose values are all \<open>SSIZE_MIN\<close> reads like an empty one.
\<close>

definition period_max :: "i64 list \<Rightarrow> i64 option" where
  "period_max vs = (if \<exists>v\<in>set vs. v \<noteq> SSIZE_MIN then Some (word_of_int (Max (sint ` set vs))) else None)"

section \<open>Slots\<close>

lemma sint_SSIZE_MIN: "sint SSIZE_MIN = - (2 ^ 63)"
  by (simp add: SSIZE_MIN_def)

lemma sint_lower: "- (2 ^ 63) \<le> sint (x :: i64)"
  using sint_greater_eq [of x] by simp

lemma SSIZE_MIN_less: "SSIZE_MIN <s x \<longleftrightarrow> x \<noteq> SSIZE_MIN"
proof -
  have "x = SSIZE_MIN \<longleftrightarrow> sint x = sint SSIZE_MIN" using signed_word_eqI by blast
  then show ?thesis using sint_lower [of x] unfolding word_sless_alt sint_SSIZE_MIN by linarith
qed

text \<open>The visited slots of the current version, in the order of the loop.\<close>

definition matching :: "u64 \<Rightarrow> Slot list \<Rightarrow> i64 list" where
  "matching version slots = map sl_value (filter (\<lambda>s. sl_version s = version) slots)"

lemma Max_insert_below: "finite B \<Longrightarrow> b \<in> B \<Longrightarrow> a \<le> b \<Longrightarrow> Max (insert a B) = Max B" for a b :: int
  by (metis Max_ge Max_insert empty_iff max_absorb2 order_trans)

lemma maxer_fold:
  "fold (maxer_visit version) slots (h, r) = (h', r') \<Longrightarrow>
   sint r' = Max (insert (sint r) (sint ` set (matching version slots))) \<and> (h' \<longleftrightarrow> h \<or> r' \<noteq> r)"
proof (induction slots arbitrary: h r)
  case Nil
  then show ?case by (simp add: matching_def)
next
  case (Cons s slots)
  let ?M = "sint ` set (matching version slots)"
  show ?case
  proof (cases "sl_version s = version \<and> r <s sl_value s")
    case True
    then have "sint r' = Max (insert (sint (sl_value s)) ?M)" "h'" using Cons.IH [of True "sl_value s"] Cons.prems by (simp_all add: maxer_visit_def)
    moreover have "sint r < sint (sl_value s)" using True by (simp add: word_sless_alt)
    moreover from this have "Max (insert (sint r) (insert (sint (sl_value s)) ?M)) = Max (insert (sint (sl_value s)) ?M)"
      by (intro Max_insert_below [of _ "sint (sl_value s)"]) simp_all
    ultimately show ?thesis using True by (auto simp: matching_def)
  next
    case False
    then have ih: "sint r' = Max (insert (sint r) ?M)" "h' = (h \<or> r' \<noteq> r)" using Cons.IH [of h r] Cons.prems by (auto simp: maxer_visit_def)
    show ?thesis
    proof (cases "sl_version s = version")
      case True
      then have "sint (sl_value s) \<le> sint r" using False by (simp add: word_sless_alt)
      then have "Max (insert (sint r) (insert (sint (sl_value s)) ?M)) = Max (insert (sint r) ?M)"
        by (subst insert_commute) (intro Max_insert_below [of _ "sint r"], simp_all)
      then show ?thesis using ih True by (simp add: matching_def)
    qed (use ih in \<open>simp add: matching_def\<close>)
  qed
qed

text \<open>The slots \<open>f\<close> of a maxer after \<open>r\<close> resets, with \<open>vs\<close> recorded since the last one.\<close>

definition slots_ok :: "(nat \<Rightarrow> Slot) \<Rightarrow> nat \<Rightarrow> i64 list \<Rightarrow> bool" where
  "slots_ok f r vs \<longleftrightarrow> Suc r < 2 ^ 64 \<and> (\<forall>m. sl_version (f m) = SIZE_MAX \<or> unat (sl_version (f m)) \<le> r) \<and>
     (\<forall>m. sl_version (f m) = of_nat r \<longrightarrow> sl_value (f m) \<in> set vs) \<and>
     (\<forall>v\<in>set vs. \<exists>m. sl_version (f m) = of_nat r \<and> sint v \<le> sint (sl_value (f m)))"

lemma version_not_max: "Suc r < 2 ^ 64 \<Longrightarrow> (of_nat r :: u64) \<noteq> SIZE_MAX"
proof
  assume r: "Suc r < 2 ^ 64" and "(of_nat r :: u64) = SIZE_MAX"
  then have "unat (of_nat r :: u64) = 2 ^ 64 - 1" using unat_tail [where 'w = 64] by (simp add: SIZE_MAX_def FREE_LIST_TAIL_def)
  then show False using r by (subst (asm) unat_of_nat_small) simp_all
qed

lemma slots_ok_new: "slots_ok (\<lambda>_. Slot_new) 0 []"
  using version_not_max [of 0] by (simp add: slots_ok_def Slot_new_def)

lemma slots_ok_reset: "slots_ok f r vs \<Longrightarrow> Suc (Suc r) < 2 ^ 64 \<Longrightarrow> slots_ok f (Suc r) []"
proof -
  assume ok: "slots_ok f r vs" and r: "Suc (Suc r) < 2 ^ 64"
  have "sl_version (f m) \<noteq> of_nat (Suc r)" for m
  proof
    assume eq: "sl_version (f m) = of_nat (Suc r)"
    then have "unat (sl_version (f m)) = Suc r" using r unat_of_nat_small [of "Suc r", where 'a = 64] by simp
    then show False using ok version_not_max [OF r] eq unfolding slots_ok_def by (metis Suc_n_not_le_n)
  qed
  then show ?thesis using ok r unfolding slots_ok_def by (auto intro: le_SucI)
qed

lemma slots_ok_record:
  assumes ok: "slots_ok f r vs" and s: "s = (if sl_version (f k) \<noteq> of_nat r \<or> sl_value (f k) <s v then \<lparr>sl_version = of_nat r, sl_value = v\<rparr> else f k)"
  shows "slots_ok (f(k := s)) r (vs @ [v])"
proof -
  have r: "Suc r < 2 ^ 64" "unat (of_nat r :: u64) = r" using ok by (simp_all add: slots_ok_def unat_of_nat_small)
  have s1: "sl_version s = of_nat r" "sint v \<le> sint (sl_value s)" "sl_value s \<in> insert v (set vs)"
    "sl_version (f k) = of_nat r \<Longrightarrow> sint (sl_value (f k)) \<le> sint (sl_value s)"
    using s ok by (auto simp: word_sless_alt slots_ok_def)
  have "\<exists>m. sl_version ((f(k := s)) m) = of_nat r \<and> sint u \<le> sint (sl_value ((f(k := s)) m))" if u: "u \<in> set (vs @ [v])" for u
  proof (cases "u = v")
    case True
    then show ?thesis using s1(1,2) by (intro exI [of _ k]) simp
  next
    case False
    then obtain m where m: "sl_version (f m) = of_nat r" "sint u \<le> sint (sl_value (f m))" using u ok unfolding slots_ok_def by (metis Un_iff empty_iff insert_iff list.set set_append)
    then show ?thesis using s1(1,4) by (cases "m = k") (auto intro: exI [of _ k] exI [of _ m])
  qed
  then show ?thesis using ok r s1(1,3) unfolding slots_ok_def by auto
qed

text \<open>What the loop over the slots finds.\<close>

lemma slots_ok_value:
  assumes ok: "slots_ok f r vs" and new: "\<And>m. N \<le> m \<Longrightarrow> f m = Slot_new"
    and fold: "fold (maxer_visit (of_nat r)) (map f [0..<N]) (False, SSIZE_MIN) = (h, x)"
  shows "(if h then Some x else None) = period_max vs"
proof -
  let ?M = "sint ` set (matching (of_nat r) (map f [0..<N]))"
  have r: "of_nat r \<noteq> SIZE_MAX" using ok version_not_max by (simp add: slots_ok_def)
  have M: "?M = (\<lambda>m. sint (sl_value (f m))) ` {m. sl_version (f m) = of_nat r}"
    using new r by (force simp: matching_def Slot_new_def image_iff not_le [symmetric])
  from maxer_fold [OF fold] have x: "sint x = Max (insert (sint SSIZE_MIN) ?M)" "h \<longleftrightarrow> x \<noteq> SSIZE_MIN" by auto
  have fin: "finite ?M" "finite (sint ` set vs)" by simp_all
  have "Max (insert (sint SSIZE_MIN) ?M) = Max (insert (sint SSIZE_MIN) (sint ` set vs))"
  proof (rule antisym)
    show "Max (insert (sint SSIZE_MIN) ?M) \<le> Max (insert (sint SSIZE_MIN) (sint ` set vs))"
      using ok unfolding slots_ok_def M by (intro Max_mono) (auto simp: image_iff)
    show "Max (insert (sint SSIZE_MIN) (sint ` set vs)) \<le> Max (insert (sint SSIZE_MIN) ?M)"
      using ok fin(1) unfolding slots_ok_def M by (intro Max.boundedI) (auto simp: Max_ge_iff)
  qed
  then have x': "sint x = Max (insert (sint SSIZE_MIN) (sint ` set vs))" using x(1) by simp
  show ?thesis
  proof (cases "\<exists>v\<in>set vs. v \<noteq> SSIZE_MIN")
    case True
    then obtain v where v: "v \<in> set vs" "v \<noteq> SSIZE_MIN" by blast
    then have "sint SSIZE_MIN < sint v" using SSIZE_MIN_less by (simp add: word_sless_alt)
    also have "sint v \<le> Max (sint ` set vs)" using v by simp
    finally have lt: "sint SSIZE_MIN < Max (sint ` set vs)" .
    have "Max (insert (sint SSIZE_MIN) (sint ` set vs)) = max (sint SSIZE_MIN) (Max (sint ` set vs))" using v by (intro Max_insert) auto
    then have "sint x = Max (sint ` set vs)" "sint SSIZE_MIN < sint x" using x' lt by simp_all
    then have "h" "word_of_int (Max (sint ` set vs)) = x" using x(2) by (auto simp flip: \<open>sint x = Max (sint ` set vs)\<close>)
    then show ?thesis using True by (simp add: period_max_def)
  next
    case False
    then have one: "insert (sint SSIZE_MIN) (sint ` set vs) = {sint SSIZE_MIN}" by auto
    have "sint x = sint SSIZE_MIN" using x' unfolding one by simp
    then have "x = SSIZE_MIN" by (rule signed_word_eqI)
    then show ?thesis using False x(2) by (simp add: period_max_def)
  qed
qed

section \<open>Refinement\<close>

locale slot_storage = compact_storage E iinvar ilen ival tinvar tlen tval linvar llen lval lbound vinvar vlen vval vbound
  for E :: "(Slot, 'i, 't, 's, 'o) compact_env" and iinvar ilen ival tinvar tlen tval linvar llen lval lbound vinvar vlen vval vbound +
  assumes slot_new: "ce_T E = Slot_new"
begin

text \<open>The maxer \<open>obj\<close> of instance \<open>i\<close>, with \<open>c\<close> resets to come.\<close>

definition maxer_ok where
  "maxer_ok c st i obj vs \<longleftrightarrow> (\<exists>r. r + c + 1 < 2 ^ 64 \<and> obj = \<lparr>mx_storage = handle i, mx_version = of_nat r\<rparr> \<and> slots_ok (cell st i) r vs)"

definition max_rel where
  "max_rel a b c S recs \<longleftrightarrow> (\<exists>idm held. compact_ok a b (ma_statics S) held \<and> ran idm = set held \<and> inj_on idm (dom idm) \<and>
     dom (ma_objects S) = dom idm \<and> dom recs = dom idm \<and>
     (\<forall>n i obj vs. idm n = Some i \<longrightarrow> ma_objects S n = Some obj \<longrightarrow> recs n = Some vs \<longrightarrow> maxer_ok c (ma_statics S) i obj vs))"

lemma maxer_ok_mono: "maxer_ok (Suc c) st i obj vs \<Longrightarrow> maxer_ok c st i obj vs"
  unfolding maxer_ok_def by (elim exE) (rule exI, auto)

lemma max_relE:
  assumes "max_rel a b c S recs"
  obtains idm held where "compact_ok a b (ma_statics S) held" and "ran idm = set held" and "inj_on idm (dom idm)"
    and "dom (ma_objects S) = dom idm" and "dom recs = dom idm"
    and "\<And>n i obj vs. idm n = Some i \<Longrightarrow> ma_objects S n = Some obj \<Longrightarrow> recs n = Some vs \<Longrightarrow> maxer_ok c (ma_statics S) i obj vs"
  using assms unfolding max_rel_def by blast

lemma max_relI:
  assumes "compact_ok a b (ma_statics S) held" and "ran idm = set held" and "inj_on idm (dom idm)"
    and "dom (ma_objects S) = dom idm" and "dom recs = dom idm"
    and "\<And>n i obj vs. idm n = Some i \<Longrightarrow> ma_objects S n = Some obj \<Longrightarrow> recs n = Some vs \<Longrightarrow> maxer_ok c (ma_statics S) i obj vs"
  shows "max_rel a b c S recs"
  using assms unfolding max_rel_def by blast

lemma max_rel_name:
  assumes "compact_ok a b (ma_statics S) held" and "ran idm = set held" and "dom (ma_objects S) = dom idm" and "dom recs = dom idm" and "recs n = Some vs"
  obtains i obj where "idm n = Some i" and "ma_objects S n = Some obj" and "i \<in> set held"
proof -
  have "n \<in> dom idm" using assms(4,5) by blast
  moreover from this have "n \<in> dom (ma_objects S)" using assms(3) by blast
  ultimately show ?thesis using that assms(2) ranI by fastforce
qed

lemma mstep_new:
  assumes "max_rel (Suc a) b c S recs" and "recs n = None" and "Suc c < 2 ^ 64"
  shows "\<exists>S'. max_step E (MNew n) S = Some S' \<and> max_rel a b c S' (recs(n \<mapsto> [])) \<and> live (ma_statics S') = live (ma_statics S)"
proof -
  obtain idm held where R: "compact_ok (Suc a) b (ma_statics S) held" "ran idm = set held" "inj_on idm (dom idm)" "dom (ma_objects S) = dom idm" "dom recs = dom idm"
    "\<And>n i obj vs. idm n = Some i \<Longrightarrow> ma_objects S n = Some obj \<Longrightarrow> recs n = Some vs \<Longrightarrow> maxer_ok c (ma_statics S) i obj vs"
    using assms(1) by (rule max_relE) blast
  have n: "idm n = None" using assms(2) R(5) by blast
  obtain i st' where 1: "ct_construct E (ma_statics S) = Some (handle i, st')" "compact_ok a b st' (held @ [i])" "cell st' = cell (ma_statics S)"
    "live st' = live (ma_statics S)" by (rule construct_ok [OF R(1)]) blast
  have i: "i \<notin> set held" using compact_okD(9) [OF 1(2)] by simp
  then have "cell st' i = (\<lambda>_. Slot_new)" using compact_okD(5) [OF R(1), of i] slot_new 1(3) by (simp add: fun_eq_iff)
  then have new: "maxer_ok c st' i \<lparr>mx_storage = handle i, mx_version = 0\<rparr> []"
    unfolding maxer_ok_def using assms(3) slots_ok_new by (intro exI [of _ "0::nat"]) simp
  let ?S = "S\<lparr>ma_statics := st', ma_objects := (ma_objects S)(n \<mapsto> \<lparr>mx_storage = handle i, mx_version = 0\<rparr>)\<rparr>"
  have "max_rel a b c ?S (recs(n \<mapsto> []))"
  proof (rule max_relI [where held = "held @ [i]" and idm = "idm(n \<mapsto> i)"])
    show "ran (idm(n \<mapsto> i)) = set (held @ [i])" using n R(2) by (simp add: ran_map_upd)
    show "inj_on (idm(n \<mapsto> i)) (dom (idm(n \<mapsto> i)))" using R(2,3) i by (auto simp: inj_on_def ran_def)
    show "maxer_ok c (ma_statics ?S) j obj vs" if "(idm(n \<mapsto> i)) m = Some j" "ma_objects ?S m = Some obj" "(recs(n \<mapsto> [])) m = Some vs" for m j obj vs
    proof (cases "m = n")
      case False
      then show ?thesis using that R(6) [of m j obj vs] 1(3) by (simp add: maxer_ok_def)
    qed (use that new in simp)
  qed (use 1(2) R(4,5) in simp_all)
  then show ?thesis using 1(1,4) by (simp add: maxer_new_def)
qed

lemma mstep_delete:
  assumes "max_rel a b c S recs" and "recs n \<noteq> None"
  shows "\<exists>S'. max_step E (MDelete n) S = Some S' \<and> max_rel a b c S' (recs(n := None)) \<and> live (ma_statics S') = live (ma_statics S)"
proof -
  obtain idm held where R: "compact_ok a b (ma_statics S) held" "ran idm = set held" "inj_on idm (dom idm)" "dom (ma_objects S) = dom idm" "dom recs = dom idm"
    "\<And>n i obj vs. idm n = Some i \<Longrightarrow> ma_objects S n = Some obj \<Longrightarrow> recs n = Some vs \<Longrightarrow> maxer_ok c (ma_statics S) i obj vs"
    using assms(1) by (rule max_relE) blast
  obtain vs where vs: "recs n = Some vs" using assms(2) by blast
  obtain i obj where i: "idm n = Some i" "ma_objects S n = Some obj" "i \<in> set held" by (rule max_rel_name [OF R(1,2,4,5) vs])
  have obj: "mx_storage obj = handle i" using R(6) [OF i(1,2) vs] by (auto simp: maxer_ok_def)
  obtain st' where 1: "ct_destroy E (handle i) (ma_statics S) = Some st'" "compact_ok a b st' (filter (\<lambda>j. j \<noteq> i) held)"
    "cell st' = (cell (ma_statics S))(i := (\<lambda>_. ce_T E))" "live st' = live (ma_statics S)" by (rule destroy_ok [OF R(1) i(3)])
  let ?idm = "idm(n := None)" and ?S = "S\<lparr>ma_statics := st', ma_objects := (ma_objects S)(n := None)\<rparr>"
  have ne: "j \<noteq> i" if "idm m = Some j" "m \<noteq> n" for m j using that R(3) i(1) by (metis domI inj_onD)
  have "max_rel a b c ?S (recs(n := None))"
  proof (rule max_relI [where held = "filter (\<lambda>j. j \<noteq> i) held" and idm = ?idm])
    show "ran ?idm = set (filter (\<lambda>j. j \<noteq> i) held)" unfolding set_filter R(2) [symmetric] using ne i(1) by (auto simp: ran_def) (metis option.inject)
    show "inj_on ?idm (dom ?idm)" using R(3) by (auto simp: inj_on_def)
    show "maxer_ok c (ma_statics ?S) j obj vs" if "?idm m = Some j" "ma_objects ?S m = Some obj" "(recs(n := None)) m = Some vs" for m j obj vs
      using that R(6) [of m j obj vs] 1(3) ne [of m j] by (cases "m = n") (simp_all add: maxer_ok_def)
  qed (use 1(2) R(4,5) in simp_all)
  then show ?thesis using 1(1,4) i(2) obj by simp
qed

text \<open>What \<open><<\<close> leaves in the cell of the thread.\<close>

lemma maxer_shift_ok:
  assumes "compact_ok a (if live st t = None then Suc b else b) st held" and "i \<in> set held" and "maxer_ok c st i obj vs"
  obtains st' k where "maxer_shift E t obj v st = Some st'" and "compact_ok a b st' held" and "maxer_ok c st' i obj (vs @ [v])"
    and "\<And>j. j \<noteq> i \<Longrightarrow> cell st' j = cell st j" and "live st' = (live st)(t \<mapsto> k)"
proof -
  obtain r where r: "r + c + 1 < 2 ^ 64" "obj = \<lparr>mx_storage = handle i, mx_version = of_nat r\<rparr>" "slots_ok (cell st i) r vs"
    using assms(3) by (auto simp: maxer_ok_def)
  obtain k st1 where 1: "ct_local E t (handle i) st = Some (ref i k, st1)" "compact_ok a b st1 held" "cell st1 = cell st" "live st1 = (live st)(t \<mapsto> k)" "k < reach st1 i"
    by (rule local_ok [OF assms(1,2)]) blast
  let ?f = "cell st i"
  define s where "s = (if sl_version (?f k) \<noteq> of_nat r \<or> sl_value (?f k) <s v then \<lparr>sl_version = of_nat r, sl_value = v\<rparr> else ?f k)"
  have load: "counter_load E t (handle i) st = Some (ref i k, ?f k, st1)" using 1(1) load_ok [OF 1(2) assms(2) 1(5)] 1(3) by (simp add: counter_load_def)
  have ok: "slots_ok (?f(k := s)) r (vs @ [v])" by (rule slots_ok_record [OF r(3) s_def])
  obtain st2 where 2: "ref_store E (ref i k) s st1 = Some st2" "compact_ok a b st2 held" "cell st2 = (cell st1)(i := (cell st1 i)(k := s))" "live st2 = live st1"
    by (rule store_ok [OF 1(2) assms(2) 1(5)])
  show ?thesis
  proof (cases "sl_version (?f k) \<noteq> of_nat r \<or> sl_value (?f k) <s v")
    case True
    have "maxer_shift E t obj v st = Some st2"
    proof (cases "sl_version (?f k) \<noteq> of_nat r")
      case True
      then show ?thesis using load 2(1) r(2) by (simp add: maxer_shift_def s_def) (metis Slot.cases Slot.update_convs)
    next
      case False
      then have "(?f k)\<lparr>sl_value := v\<rparr> = s" using True s_def by (cases "?f k") simp
      then show ?thesis using False True load 2(1) r(2) by (simp add: maxer_shift_def)
    qed
    moreover have "maxer_ok c st2 i obj (vs @ [v])" unfolding maxer_ok_def using r ok 2(3) 1(3) by auto
    ultimately show ?thesis using that [of st2 k] 1(3,4) 2(2-4) by simp
  next
    case False
    then have "s = ?f k" by (simp add: s_def)
    then have "slots_ok ?f r (vs @ [v])" using ok by (simp add: fun_upd_idem)
    then have "maxer_ok c st1 i obj (vs @ [v])" unfolding maxer_ok_def using r 1(3) by auto
    moreover have "maxer_shift E t obj v st = Some st1" using False load r(2) by (simp add: maxer_shift_def)
    ultimately show ?thesis using that [of st1 k] 1(2-4) by simp
  qed
qed

lemma mstep_record:
  assumes "max_rel a (if live (ma_statics S) t = None then Suc b else b) c S recs" and "recs n = Some vs"
  shows "\<exists>S' k. max_step E (Record t n v) S = Some S' \<and> max_rel a b c S' (recs(n \<mapsto> vs @ [v])) \<and> live (ma_statics S') = (live (ma_statics S))(t \<mapsto> k)"
proof -
  obtain idm held where R: "compact_ok a (if live (ma_statics S) t = None then Suc b else b) (ma_statics S) held" "ran idm = set held" "inj_on idm (dom idm)" "dom (ma_objects S) = dom idm" "dom recs = dom idm"
    "\<And>n i obj vs. idm n = Some i \<Longrightarrow> ma_objects S n = Some obj \<Longrightarrow> recs n = Some vs \<Longrightarrow> maxer_ok c (ma_statics S) i obj vs"
    using assms(1) by (rule max_relE) blast
  obtain i obj where i: "idm n = Some i" "ma_objects S n = Some obj" "i \<in> set held" by (rule max_rel_name [OF R(1,2,4,5) assms(2)])
  obtain st' k where 1: "maxer_shift E t obj v (ma_statics S) = Some st'" "compact_ok a b st' held" "maxer_ok c st' i obj (vs @ [v])"
    "\<And>j. j \<noteq> i \<Longrightarrow> cell st' j = cell (ma_statics S) j" "live st' = (live (ma_statics S))(t \<mapsto> k)"
    by (rule maxer_shift_ok [OF R(1) i(3) R(6) [OF i(1,2) assms(2)], of v]) blast
  have ne: "j \<noteq> i" if "idm m = Some j" "m \<noteq> n" for m j using that R(3) i(1) by (metis domI inj_onD)
  let ?S = "S\<lparr>ma_statics := st'\<rparr>"
  have "max_rel a b c ?S (recs(n \<mapsto> vs @ [v]))"
  proof (rule max_relI [where held = held and idm = idm])
    show "maxer_ok c (ma_statics ?S) j obj' ws" if "idm m = Some j" "ma_objects ?S m = Some obj'" "(recs(n \<mapsto> vs @ [v])) m = Some ws" for m j obj' ws
    proof (cases "m = n")
      case False
      then show ?thesis using that R(6) [of m j obj' ws] 1(4) [OF ne] by (simp add: maxer_ok_def)
    qed (use that i 1(3) in simp)
    show "dom (recs(n \<mapsto> vs @ [v])) = dom idm" using R(5) i(1) by auto
  qed (use 1(2) R(2-4) in simp_all)
  then show ?thesis using 1(1,5) i(2) by auto
qed

lemma mstep_reset:
  assumes "max_rel a b (Suc c) S recs" and "recs n \<noteq> None"
  shows "\<exists>S'. max_step E (MReset n) S = Some S' \<and> max_rel a b c S' (recs(n \<mapsto> [])) \<and> live (ma_statics S') = live (ma_statics S)"
proof -
  obtain idm held where R: "compact_ok a b (ma_statics S) held" "ran idm = set held" "inj_on idm (dom idm)" "dom (ma_objects S) = dom idm" "dom recs = dom idm"
    "\<And>n i obj vs. idm n = Some i \<Longrightarrow> ma_objects S n = Some obj \<Longrightarrow> recs n = Some vs \<Longrightarrow> maxer_ok (Suc c) (ma_statics S) i obj vs"
    using assms(1) by (rule max_relE) blast
  obtain vs where vs: "recs n = Some vs" using assms(2) by blast
  obtain i obj where i: "idm n = Some i" "ma_objects S n = Some obj" "i \<in> set held" by (rule max_rel_name [OF R(1,2,4,5) vs])
  from R(6) [OF i(1,2) vs] obtain r where r: "r + Suc c + 1 < 2 ^ 64" "obj = \<lparr>mx_storage = handle i, mx_version = of_nat r\<rparr>" "slots_ok (cell (ma_statics S) i) r vs"
    by (auto simp: maxer_ok_def)
  have "slots_ok (cell (ma_statics S) i) (Suc r) []" by (rule slots_ok_reset [OF r(3)]) (use r(1) in linarith)
  then have new: "maxer_ok c (ma_statics S) i (maxer_reset obj) []"
    unfolding maxer_ok_def using r(1,2) by (intro exI [of _ "Suc r"]) (simp add: maxer_reset_def add.commute)
  let ?S = "S\<lparr>ma_objects := (ma_objects S)(n \<mapsto> maxer_reset obj)\<rparr>"
  have "max_rel a b c ?S (recs(n \<mapsto> []))"
  proof (rule max_relI [where held = held and idm = idm])
    show "maxer_ok c (ma_statics ?S) j obj' ws" if "idm m = Some j" "ma_objects ?S m = Some obj'" "(recs(n \<mapsto> [])) m = Some ws" for m j obj' ws
    proof (cases "m = n")
      case False
      then have "maxer_ok (Suc c) (ma_statics S) j obj' ws" using that R(6) [of m j obj' ws] by simp
      then show ?thesis using maxer_ok_mono by simp
    qed (use that i new in simp)
    show "dom (recs(n \<mapsto> [])) = dom idm" "dom (ma_objects ?S) = dom idm" using R(4,5) i(1) by auto
  qed (use R(1-3) in simp_all)
  then show ?thesis using i(2) by auto
qed

lemma mstep_exit:
  assumes "max_rel a b c S recs"
  shows "\<exists>S'. max_step E (MExit t) S = Some S' \<and> max_rel a b c S' recs \<and> live (ma_statics S') = (live (ma_statics S))(t := None)"
proof -
  obtain idm held where R: "compact_ok a b (ma_statics S) held" "ran idm = set held" "inj_on idm (dom idm)" "dom (ma_objects S) = dom idm" "dom recs = dom idm"
    "\<And>n i obj vs. idm n = Some i \<Longrightarrow> ma_objects S n = Some obj \<Longrightarrow> recs n = Some vs \<Longrightarrow> maxer_ok c (ma_statics S) i obj vs"
    using assms by (rule max_relE) blast
  obtain st' where 1: "ct_thread_exit E t (ma_statics S) = Some st'" "compact_ok a b st' held" "cell st' = cell (ma_statics S)"
    "live st' = (live (ma_statics S))(t := None)" by (rule exit_ok [OF R(1)])
  have "max_rel a b c (S\<lparr>ma_statics := st'\<rparr>) recs"
    by (rule max_relI [where held = held and idm = idm]) (use 1(2,3) R(2-6) in \<open>simp_all add: maxer_ok_def\<close>)
  then show ?thesis using 1(1,4) by simp
qed

lemma max_step_ok:
  assumes "period_step op recs = Some recs'" and "Suc (max_resets ops) < 2 ^ 64"
    and "max_rel (max_news (op # ops)) (max_starts (dom (live (ma_statics S))) (op # ops)) (max_resets (op # ops)) S recs"
  shows "\<exists>S'. max_step E op S = Some S' \<and> max_rel (max_news ops) (max_starts (dom (live (ma_statics S'))) ops) (max_resets ops) S' recs'"
proof -
  let ?L = "dom (live (ma_statics S))"
  show ?thesis
  proof (cases op)
    case (MNew n)
    have "recs n = None" "recs' = recs(n \<mapsto> [])" using assms(1) unfolding MNew by (auto split: if_splits)
    then show ?thesis using mstep_new [of "max_news ops" "max_starts ?L ops" "max_resets ops" S recs n] assms(2,3) unfolding MNew by force
  next
    case (MDelete n)
    have "recs n \<noteq> None" "recs' = recs(n := None)" using assms(1) unfolding MDelete by (auto split: if_splits)
    then show ?thesis using mstep_delete [of "max_news ops" "max_starts ?L ops" "max_resets ops" S recs n] assms(3) unfolding MDelete by force
  next
    case (Record t n v)
    obtain vs where s: "recs n = Some vs" "recs' = recs(n \<mapsto> vs @ [v])" using assms(1) unfolding Record by (auto simp: bind_eq_Some_conv)
    let ?b = "max_starts (insert t ?L) ops"
    have "max_rel (max_news ops) (if live (ma_statics S) t = None then Suc ?b else ?b) (max_resets ops) S recs"
      using assms(3) unfolding Record by (auto simp: domIff insert_absorb split: if_splits)
    from mstep_record [OF this s(1), of v] obtain S' k where
      "max_step E (Record t n v) S = Some S'" "max_rel (max_news ops) ?b (max_resets ops) S' recs'" "live (ma_statics S') = (live (ma_statics S))(t \<mapsto> k)"
      unfolding s(2) by blast
    then show ?thesis unfolding Record by simp
  next
    case (MReset n)
    have "recs n \<noteq> None" "recs' = recs(n \<mapsto> [])" using assms(1) unfolding MReset by (auto split: if_splits)
    then show ?thesis using mstep_reset [of "max_news ops" "max_starts ?L ops" "max_resets ops" S recs n] assms(3) unfolding MReset by force
  next
    case (MExit t)
    then show ?thesis using mstep_exit [of "max_news ops" "max_starts (?L - {t}) ops" "max_resets ops" S recs t] assms(1,3) by force
  qed
qed

lemma max_run_ok:
  "period_run ops recs = Some recs' \<Longrightarrow> Suc (max_resets ops) < 2 ^ 64 \<Longrightarrow>
   max_rel (max_news ops) (max_starts (dom (live (ma_statics S))) ops) (max_resets ops) S recs \<Longrightarrow>
   \<exists>S' a b c. max_run E ops S = Some S' \<and> max_rel a b c S' recs'"
proof (induction ops arbitrary: recs S)
  case Nil
  then show ?case by auto
next
  case (Cons op ops)
  obtain recs1 where 1: "period_step op recs = Some recs1" "period_run ops recs1 = Some recs'" using Cons.prems(1) by (auto simp: bind_eq_Some_conv)
  have r: "Suc (max_resets ops) < 2 ^ 64" using Cons.prems(2) by (cases op) simp_all
  from max_step_ok [OF 1(1) r Cons.prems(3)] obtain S1 where
    "max_step E op S = Some S1" "max_rel (max_news ops) (max_starts (dom (live (ma_statics S1))) ops) (max_resets ops) S1 recs1" by blast
  then show ?case using Cons.IH [OF 1(2) r] by simp
qed

lemma max_rel_value:
  assumes "max_rel a b c S recs" and "recs n = Some vs"
  shows "\<exists>obj. ma_objects S n = Some obj \<and> maxer_value_opt E obj (ma_statics S) = Some (period_max vs)"
proof -
  obtain idm held where R: "compact_ok a b (ma_statics S) held" "ran idm = set held" "inj_on idm (dom idm)" "dom (ma_objects S) = dom idm" "dom recs = dom idm"
    "\<And>n i obj vs. idm n = Some i \<Longrightarrow> ma_objects S n = Some obj \<Longrightarrow> recs n = Some vs \<Longrightarrow> maxer_ok c (ma_statics S) i obj vs"
    using assms(1) by (rule max_relE) blast
  obtain i obj where i: "idm n = Some i" "ma_objects S n = Some obj" "i \<in> set held" by (rule max_rel_name [OF R(1,2,4,5) assms(2)])
  from R(6) [OF i(1,2) assms(2)] obtain r where r: "obj = \<lparr>mx_storage = handle i, mx_version = of_nat r\<rparr>" "slots_ok (cell (ma_statics S) i) r vs"
    by (auto simp: maxer_ok_def)
  let ?f = "cell (ma_statics S) i" and ?N = "reach (ma_statics S) i"
  obtain h x where f: "fold (maxer_visit (of_nat r)) (map ?f [0..<?N]) (False, SSIZE_MIN) = (h, x)" by fastforce
  have "?f m = Slot_new" if "?N \<le> m" for m using compact_okD(5) [OF R(1), of i m] that slot_new by simp
  from slots_ok_value [OF r(2) this f] show ?thesis
    using for_each_const_ok [OF R(1) i(3)] f i(2) r(1) by (simp add: maxer_value_opt_def Let_def)
qed

lemma maxers_refine:
  assumes "compact_ok (max_news ops) (max_starts {} ops) st []" and "live st = Map.empty" and "Suc (max_resets ops) < 2 ^ 64"
    and "period_run ops Map.empty = Some recs"
  shows "\<exists>S. max_run E ops \<lparr>ma_statics = st, ma_objects = Map.empty\<rparr> = Some S
    \<and> (\<forall>n vs. recs n = Some vs \<longrightarrow> (\<exists>obj. ma_objects S n = Some obj \<and> maxer_value_opt E obj (ma_statics S) = Some (period_max vs)))"
proof -
  let ?S = "\<lparr>ma_statics = st, ma_objects = Map.empty\<rparr>"
  have "max_rel (max_news ops) (max_starts (dom (live (ma_statics ?S))) ops) (max_resets ops) ?S Map.empty"
    using assms(1,2) by (intro max_relI [where held = "[]" and idm = Map.empty]) simp_all
  from max_run_ok [OF assms(4,3) this] show ?thesis using max_rel_value by blast
qed

end

interpretation maxers: slot_storage "env16 x86_64 new_node clock Slot_new"
    "vec_invar (2 ^ 25) (plain_env new_node 0)" vec_len "vec_val (plain_env new_node 0)" "vec_invar (2 ^ 9) (plain_env new_node 0)" vec_len "vec_val (plain_env new_node 0)"
    "vec_invar (2 ^ 9) (plain_env new_node (line16 x86_64 Slot_new))" vec_len "vec_val (plain_env new_node (line16 x86_64 Slot_new))" "128 * 2 ^ 9"
    "vec_invar (2 ^ 25) (plain_env new_node (vec_new (Some (line16 x86_64 Slot_new))))" vec_len "vec_val (plain_env new_node (vec_new (Some (line16 x86_64 Slot_new))))" "128 * 2 ^ 25"
  for x86_64 new_node clock
  by unfold_locales (simp add: vec_compact_def)

text \<open>
  C16: Maxers read the maximum of their period: for every program that creates, resets and destroys \<open>ConcurrentMaxer\<close>s and records values from threads that come
  and go, every step returns and \<open>value(max_value)\<close> of every maxer gives the largest value recorded since its last reset, whatever older periods,
  destroyed maxers and exited threads left in the cells; without a value, or with \<open>SSIZE_MIN\<close> only, it gives \<open>false\<close>.
\<close>

theorem maxer_reads_period_maximum:
  assumes "new_node_spec (Suc (2 ^ 25)) new_node" and "max_news ops \<le> MAX_INSTANCES" and "max_starts {} ops \<le> MAX_THREADS" and "Suc (max_resets ops) < 2 ^ 64"
    and "period_run ops Map.empty = Some recs"
  shows "\<exists>S. max_run (env16 x86_64 new_node clock Slot_new) ops
        \<lparr>ma_statics = vec_statics (NUM_PER_CACHELINE x86_64 64 16) Slot_new, ma_objects = Map.empty\<rparr> = Some S
    \<and> (\<forall>n vs. recs n = Some vs \<longrightarrow>
        (\<exists>obj. ma_objects S n = Some obj \<and> maxer_value_opt (env16 x86_64 new_node clock Slot_new) obj (ma_statics S) = Some (period_max vs)))"
  by (rule maxers.maxers_refine [OF ct16_init [OF assms(1-3)] assms(4,5)])

definition sample_max_ops :: "max_op list" where
  "sample_max_ops = [MNew 0, MNew 1, Record 7 0 5, Record 8 0 9, MReset 0, Record 7 0 (- 3), Record 9 0 (- 4), MExit 7, MDelete 1, MNew 2, Record 9 2 6]"

theorem maxer_reads_period_maximum_witness:
  "\<exists>S obj. max_run (env16 True (new_node_ref (Suc (2 ^ 25))) of_nat Slot_new) sample_max_ops
        \<lparr>ma_statics = vec_statics (NUM_PER_CACHELINE True 64 16) Slot_new, ma_objects = Map.empty\<rparr> = Some S
    \<and> ma_objects S 0 = Some obj \<and> maxer_value_opt (env16 True (new_node_ref (Suc (2 ^ 25))) of_nat Slot_new) obj (ma_statics S) = Some (Some (- 3))"
proof -
  have run: "period_run sample_max_ops Map.empty = Some (Map.empty(0 \<mapsto> [- 3, - 4], 2 \<mapsto> [6]))" by (simp add: sample_max_ops_def fun_eq_iff)
  have m: "period_max [- 3, - 4] = Some (- 3)" by (simp add: period_max_def SSIZE_MIN_def)
  have b: "max_news sample_max_ops \<le> MAX_INSTANCES" "max_starts {} sample_max_ops \<le> MAX_THREADS" "Suc (max_resets sample_max_ops) < 2 ^ 64"
    by (simp_all add: sample_max_ops_def MAX_INSTANCES_def MAX_THREADS_def)
  have n: "new_node_spec (Suc (2 ^ 25)) (new_node_ref (Suc (2 ^ 25)))" by (rule new_node_ref_spec) simp
  have "(Map.empty(0 \<mapsto> [- 3, - 4], 2 \<mapsto> [6])) (0 :: nat) = Some [- 3, - 4 :: i64]" by simp
  with maxer_reads_period_maximum [OF n b run, of of_nat True] show ?thesis unfolding m [symmetric] by blast
qed

end
