(* ===== verification/Sampler.thy ===== *)
theory Sampler
  imports ThreadLocal
begin

text \<open>
  \<open>ConcurrentSampler\<close> of \<open>base/counter.h\<close> and \<open>base/counter.cc\<close>: values are sampled into 31 buckets by their magnitude, a reservoir of bounded
  capacity per bucket and thread.

  A \<open>Sample\<close> is changed by its thread alone. \<open>junk\<close> is what freshly allocated memory holds. \<open>None\<close> is an access outside an array
  or a division by zero. The generator is one per thread.
\<close>

section \<open>Bit counting\<close>

definition builtin_clz :: "u32 \<Rightarrow> u64" where
  "builtin_clz w = of_nat (length (takeWhile (\<lambda>i. \<not> bit w i) (rev [0..<32])))"

definition builtin_ctz :: "u32 \<Rightarrow> nat" where
  "builtin_ctz w = length (takeWhile (\<lambda>i. \<not> bit w i) [0..<32])"

definition bucket_index :: "u32 \<Rightarrow> u64" where
  "bucket_index value = (let value = drop_bit 1 (value AND 0x7FFFFFFF) in if value = 0 then 0 else 32 - builtin_clz value)"

section \<open>Samples\<close>

record SampleBucket =
  sb_allocate_size :: u16
  sb_capacity :: u16
  sb_record_num :: u32
  sb_data :: "u32 list"

record Sample =
  sp_version :: u32
  sp_non_empty_bucket_mask :: u32
  sp_buckets :: "SampleBucket option list"

definition Sample_new :: Sample where
  "Sample_new = \<lparr>sp_version = 0, sp_non_empty_bucket_mask = 0, sp_buckets = replicate 31 None\<rparr>"

text \<open>The size of a bucket with its data; \<open>sizeof(SampleBucket)\<close> is 8.\<close>

definition bucket_allocate_size :: "u64 \<Rightarrow> u64 \<Rightarrow> u64" where
  "bucket_allocate_size cacheline capacity = (8 + 4 * capacity + cacheline - 1) AND (- cacheline)"

definition new_bucket :: "u32 \<Rightarrow> u64 \<Rightarrow> SampleBucket" where
  "new_bucket junk allocate_size = \<lparr>sb_allocate_size = ucast allocate_size, sb_capacity = ucast junk, sb_record_num = junk,
     sb_data = replicate (unat (allocate_size - 8) div 4) junk\<rparr>"

text \<open>The first use of a bucket in a period: it is created or resized when the capacity asks for it.\<close>

definition renew_bucket :: "u64 \<Rightarrow> u32 \<Rightarrow> u8 \<Rightarrow> SampleBucket option \<Rightarrow> SampleBucket" where
  "renew_bucket cacheline junk cap bucket = (let
       capacity = ucast cap :: u64;
       allocate_size = bucket_allocate_size cacheline capacity;
       resized = (case bucket of
           None \<Rightarrow> (new_bucket junk allocate_size)\<lparr>sb_capacity := ucast capacity\<rparr>
         | Some b \<Rightarrow>
             if sb_capacity b \<noteq> ucast cap
             then (if allocate_size \<noteq> ucast (sb_allocate_size b) then new_bucket junk allocate_size else b)\<lparr>sb_capacity := ucast capacity\<rparr>
             else b)
     in resized\<lparr>sb_record_num := 0\<rparr>)"

definition prepare_sample_bucket :: "u64 \<Rightarrow> u32 \<Rightarrow> u8 list \<Rightarrow> u32 \<Rightarrow> u32 \<Rightarrow> Sample \<Rightarrow> (nat \<times> SampleBucket \<times> Sample) option" where
  "prepare_sample_bucket cacheline junk bucket_capacity global_version value local = do {
     let index = unat (bucket_index value);
     let local = (if sp_version local \<noteq> global_version then local\<lparr>sp_non_empty_bucket_mask := 0, sp_version := global_version\<rparr> else local);
     bucket \<leftarrow> mem_read (sp_buckets local) index;
     if \<not> bit (sp_non_empty_bucket_mask local) index
     then do {
       cap \<leftarrow> mem_read bucket_capacity index;
       let b = renew_bucket cacheline junk cap bucket;
       Some (index, b, local\<lparr>sp_buckets := (sp_buckets local)[index := Some b],
         sp_non_empty_bucket_mask := sp_non_empty_bucket_mask local OR push_bit index 1\<rparr>) }
     else do { b \<leftarrow> bucket; Some (index, b, local) } }"

section \<open>The generator\<close>

record rand_state =
  rs_seed0 :: u64
  rs_seed1 :: u64
  rs_value :: u64

definition rand_state_new :: rand_state where
  "rand_state_new = \<lparr>rs_seed0 = 1, rs_seed1 = 1, rs_value = 0\<rparr>"

definition xorshift128_rand :: "rand_state \<Rightarrow> u16 \<times> rand_state" where
  "xorshift128_rand rs = (let
       rs = (if rs_value rs = 0
         then let s1 = rs_seed0 rs; s0 = rs_seed1 rs;
                  s1 = s1 XOR push_bit 23 s1;
                  s1 = s1 XOR s0 XOR drop_bit 18 s1 XOR drop_bit 5 s0
              in \<lparr>rs_seed0 = s0, rs_seed1 = s1, rs_value = s1 + s0\<rparr>
         else rs)
     in (ucast (rs_value rs), rs\<lparr>rs_value := drop_bit 16 (rs_value rs)\<rparr>))"

section \<open>Counting\<close>

definition bucket_record :: "u32 \<Rightarrow> rand_state \<Rightarrow> SampleBucket \<Rightarrow> (SampleBucket \<times> rand_state) option" where
  "bucket_record value rs b = do {
     let record_num = sb_record_num b;
     if record_num < ucast (sb_capacity b)
     then do {
       data \<leftarrow> mem_write (sb_data b) (unat record_num) value;
       Some (b\<lparr>sb_data := data, sb_record_num := record_num + 1\<rparr>, rs) }
     else if record_num + 1 = 0 then None
     else do {
       let (r, rs) = xorshift128_rand rs;
       let index = ucast r mod (record_num + 1);
       data \<leftarrow> (if index < ucast (sb_capacity b) then mem_write (sb_data b) (unat index) value else Some (sb_data b));
       Some (b\<lparr>sb_data := data, sb_record_num := record_num + 1\<rparr>, rs) } }"

definition sample_shift :: "u64 \<Rightarrow> u32 \<Rightarrow> u8 list \<Rightarrow> u32 \<Rightarrow> u32 \<Rightarrow> rand_state \<Rightarrow> Sample \<Rightarrow> (Sample \<times> rand_state) option" where
  "sample_shift cacheline junk bucket_capacity global_version value rs local = do {
     (index, b, local) \<leftarrow> prepare_sample_bucket cacheline junk bucket_capacity global_version value local;
     (b, rs) \<leftarrow> bucket_record value rs b;
     Some (local\<lparr>sp_buckets := (sp_buckets local)[index := Some b]\<rparr>, rs) }"

text \<open>The loop over the bits of the mask.\<close>

lemma and_minus_one_less: "w \<noteq> 0 \<Longrightarrow> unat (w AND (w - 1)) < unat w" for w :: u32
proof -
  assume "w \<noteq> 0"
  then have "unat (w - 1) < unat w" by (simp add: measure_unat)
  moreover have "w AND (w - 1) \<le> w - 1" by (rule word_and_le1)
  ultimately show ?thesis unfolding word_le_nat_alt by linarith
qed

function mask_indices :: "u32 \<Rightarrow> nat list" where
  "mask_indices m = (if m \<noteq> 0 then builtin_ctz m # mask_indices (m AND (m - 1)) else [])"
  by pat_completeness auto
termination by (relation "measure unat") (simp_all add: and_minus_one_less)

declare mask_indices.simps [simp del]

text \<open>The callbacks of \<open>for_each\<close> on one sample.\<close>

fun sample_buckets :: "SampleBucket option list \<Rightarrow> nat list \<Rightarrow> (nat \<times> SampleBucket) list option" where
  "sample_buckets buckets [] = Some []"
| "sample_buckets buckets (i # is) = do {
     bucket \<leftarrow> mem_read buckets i;
     b \<leftarrow> bucket;
     rest \<leftarrow> sample_buckets buckets is;
     Some ((i, b) # rest) }"

definition sample_visit :: "u32 \<Rightarrow> Sample \<Rightarrow> (nat \<times> SampleBucket) list option" where
  "sample_visit version s = (if sp_version s \<noteq> version then Some [] else sample_buckets (sp_buckets s) (mask_indices (sp_non_empty_bucket_mask s)))"

fun samples_visit :: "u32 \<Rightarrow> Sample list \<Rightarrow> (nat \<times> SampleBucket) list option" where
  "samples_visit version [] = Some []"
| "samples_visit version (s # ss) = do { xs \<leftarrow> sample_visit version s; ys \<leftarrow> samples_visit version ss; Some (xs @ ys) }"

section \<open>The sampler\<close>

record 's ConcurrentSampler =
  cs_storage :: 's
  cs_bucket_capacity :: "u8 list"
  cs_version :: u32

definition ConcurrentSampler_new :: "'s \<Rightarrow> 's ConcurrentSampler" where
  "ConcurrentSampler_new s = \<lparr>cs_storage = s, cs_bucket_capacity = replicate 32 30, cs_version = 0\<rparr>"

definition set_bucket_capacity :: "u64 \<Rightarrow> u64 \<Rightarrow> 's ConcurrentSampler \<Rightarrow> 's ConcurrentSampler option" where
  "set_bucket_capacity index capacity this = do {
     caps \<leftarrow> mem_write (cs_bucket_capacity this) (unat index) (ucast capacity);
     Some (this\<lparr>cs_bucket_capacity := caps\<rparr>) }"

definition get_bucket_capacity :: "u64 \<Rightarrow> 's ConcurrentSampler \<Rightarrow> u64 option" where
  "get_bucket_capacity index this = map_option ucast (mem_read (cs_bucket_capacity this) (unat index))"

text \<open>\<open>rand\<close> are the generators of the threads.\<close>

definition sampler_shift :: "(u16, 't) array_ops \<Rightarrow> (Sample, 's) array \<Rightarrow> u64 \<Rightarrow> u32 \<Rightarrow> nat \<Rightarrow> u32 \<Rightarrow>
    (u16, 't) thread_ids \<times> (nat \<Rightarrow> rand_state) \<times> 's ConcurrentSampler \<Rightarrow> ((u16, 't) thread_ids \<times> (nat \<Rightarrow> rand_state) \<times> 's ConcurrentSampler) option" where
  "sampler_shift tops ga cacheline junk t value = (\<lambda>(tids, rand, this). do {
     (i, tids, s) \<leftarrow> etl_local tops ga t tids (cs_storage this);
     local \<leftarrow> ga_load ga i s;
     (local, rs) \<leftarrow> sample_shift cacheline junk (cs_bucket_capacity this) (cs_version this) value (rand t) local;
     s \<leftarrow> ga_store ga i local s;
     Some (tids, rand(t := rs), this\<lparr>cs_storage := s\<rparr>) })"

definition sampler_for_each :: "(Sample, 's) array \<Rightarrow> (u16, 't) thread_ids \<Rightarrow> 's ConcurrentSampler \<Rightarrow> (nat \<times> SampleBucket) list option" where
  "sampler_for_each ga tids this = do {
     segs \<leftarrow> etl_for_each_const ga tids (cs_storage this);
     samples_visit (cs_version this) (concat segs) }"

definition sampler_reset :: "'s ConcurrentSampler \<Rightarrow> 's ConcurrentSampler" where
  "sampler_reset this = this\<lparr>cs_version := cs_version this + 1\<rparr>"

text \<open>\<open>~Sample\<close> deletes the buckets, those that are there.\<close>

definition Sample_destroy :: "Sample \<Rightarrow> SampleBucket list" where
  "Sample_destroy s = concat (map (\<lambda>b. case b of None \<Rightarrow> [] | Some x \<Rightarrow> [x]) (sp_buckets s))"

end
