(* ===== verification/SamplerBits.thy ===== *)
theory SamplerBits
  imports Sampler
begin

text \<open>The bit tricks of the sampler: the loop over the mask visits its bits in order, and the bucket of a value is its binary logarithm.\<close>

section \<open>The loop over the mask\<close>

lemma builtin_ctz_spec:
  assumes "m \<noteq> 0"
  shows "builtin_ctz m < 32" and "bit m (builtin_ctz m)" and "\<And>j. j < builtin_ctz m \<Longrightarrow> \<not> bit m j"
proof -
  have "\<exists>j<32. bit m j"
  proof (rule ccontr)
    assume "\<not> (\<exists>j<32. bit m j)"
    then have "m = 0" by (intro bit_word_eqI) simp
    then show False using assms by simp
  qed
  then have "length (takeWhile (\<lambda>i. \<not> bit m i) [0..<32]) < length [0..<32::nat]"
    by (metis (mono_tags, lifting) atLeastLessThan_iff le_less length_takeWhile_le set_takeWhileD set_upt takeWhile_eq_all_conv takeWhile_eq_take take_all_iff zero_le)
  then have n: "builtin_ctz m < length [0..<32::nat]" unfolding builtin_ctz_def .
  then show "builtin_ctz m < 32" by simp
  show "bit m (builtin_ctz m)" using nth_length_takeWhile [OF n [unfolded builtin_ctz_def]] n by (simp add: builtin_ctz_def)
  show "\<not> bit m j" if "j < builtin_ctz m" for j
  proof -
    have "takeWhile (\<lambda>i. \<not> bit m i) [0..<32] ! j = [0..<32] ! j" using that by (intro takeWhile_nth) (simp add: builtin_ctz_def)
    then have "j \<in> set (takeWhile (\<lambda>i. \<not> bit m i) [0..<32])" using that n by (metis (no_types, lifting) add_0 builtin_ctz_def diff_zero length_upt less_trans nth_mem nth_upt)
    then show ?thesis by (auto dest: set_takeWhileD)
  qed
qed

lemma clear_lowest_bit:
  assumes "m \<noteq> 0"
  shows "bit (m AND (m - 1)) j \<longleftrightarrow> bit m j \<and> j \<noteq> builtin_ctz m"
proof -
  let ?k = "builtin_ctz m"
  define h where "h = m AND NOT (mask (Suc ?k))"
  have b: "bit m j \<longleftrightarrow> bit h j \<or> j = ?k" for j
    using builtin_ctz_spec [OF assms] bit_imp_le_length [of m j] by (auto simp: h_def bit_simps not_less less_Suc_eq_le)
  have hk: "bit h j \<Longrightarrow> ?k < j" for j by (auto simp: h_def bit_simps)
  have "m = h OR push_bit ?k 1" by (rule bit_word_eqI) (use b in \<open>auto simp: bit_simps\<close>)
  also have "\<dots> = h + push_bit ?k 1" by (rule disjunctive_add_eq_or [symmetric], rule bit_word_eqI) (auto simp: bit_simps dest: hk)
  finally have "m - 1 = h + push_bit ?k 1 - 1" by simp
  also have "\<dots> = h + mask ?k" by (simp add: mask_eq_exp_minus_1 push_bit_eq_mult)
  also have "\<dots> = h OR mask ?k" by (rule disjunctive_add_eq_or, rule bit_word_eqI) (auto simp: bit_simps dest: hk)
  finally have "m - 1 = h OR mask ?k" .
  then show ?thesis using b hk [of j] builtin_ctz_spec(3) [OF assms, of j] by (auto simp: bit_simps)
qed

lemma mask_indices_eq: "mask_indices m = filter (bit m) [0..<32]"
proof (induction m rule: mask_indices.induct)
  case (1 m)
  show ?case
  proof (cases "m = 0")
    case True
    then show ?thesis by (simp add: mask_indices.simps)
  next
    case False
    let ?k = "builtin_ctz m"
    note c = builtin_ctz_spec [OF False]
    have u: "[0..<32] = [0..<?k] @ ?k # [Suc ?k..<32]" using c(1) by (metis le_add_same_cancel1 less_imp_le_nat upt_add_eq_append upt_conv_Cons zero_le add_0 le_iff_add)
    have e: "filter (bit m) [0..<?k] = []" "filter (bit (m AND (m - 1))) [0..<?k] = []" using c(3) clear_lowest_bit [OF False] by (auto simp: filter_empty_conv)
    have "filter (bit m) [0..<32] = ?k # filter (bit m) [Suc ?k..<32]" unfolding u filter_append using e(1) c(2) by simp
    also have "filter (bit m) [Suc ?k..<32] = filter (bit (m AND (m - 1))) [Suc ?k..<32]" using clear_lowest_bit [OF False] by (intro filter_cong) auto
    also have "\<dots> = filter (bit (m AND (m - 1))) [0..<32]" unfolding u filter_append using e(2) clear_lowest_bit [OF False, of ?k] by simp
    finally show ?thesis using 1 False by (simp add: mask_indices.simps [of m])
  qed
qed

section \<open>The bucket of a value\<close>

lemma bit_unat: "bit w j \<longleftrightarrow> odd (unat w div 2 ^ j)" for w :: u32
proof -
  have "bit (unat w) j = bit w j" by (cases "j < 32") (auto simp: bit_unsigned_iff dest: bit_imp_le_length)
  then show ?thesis by (simp add: bit_iff_odd)
qed

lemma builtin_clz_eq:
  assumes "2 ^ n \<le> unat w" and "unat w < 2 ^ Suc n"
  shows "builtin_clz w = of_nat (31 - n)" and "n < 32"
proof -
  show n: "n < 32"
  proof (rule ccontr)
    assume "\<not> n < 32"
    then have "(2::nat) ^ 32 \<le> 2 ^ n" by (intro power_increasing) simp_all
    then show False using assms(1) unat_less_2p [of w] by simp
  qed
  have hi: "\<not> bit w j" if "n < j" for j
  proof -
    have "(2::nat) ^ Suc n \<le> 2 ^ j" using that by (intro power_increasing) simp_all
    then have "unat w div 2 ^ j = 0" using assms(2) by simp
    then show ?thesis by (simp add: bit_unat)
  qed
  have "unat w div 2 ^ n = 1" using assms by (intro div_nat_eqI) simp_all
  then have lo: "bit w n" by (simp add: bit_unat)
  have "[0..<32] = [0..<n] @ n # [Suc n..<32]" using n by (metis le_add_same_cancel1 less_imp_le_nat upt_add_eq_append upt_conv_Cons zero_le add_0 le_iff_add)
  then have "rev [0..<32] = rev [Suc n..<32] @ n # rev [0..<n]" by (metis append_Cons append_assoc append_Nil rev.simps(2) rev_append)
  then have "takeWhile (\<lambda>i. \<not> bit w i) (rev [0..<32]) = rev [Suc n..<32]" using hi lo by (subst \<open>rev [0..<32] = _\<close>) (subst takeWhile_append2, auto)
  then show "builtin_clz w = of_nat (31 - n)" by (simp add: builtin_clz_def)
qed

text \<open>Of the low 31 bits only: the documentation puts \<open>[2^31, 2^32)\<close> into bucket 30.\<close>

lemma bucket_index_log2:
  assumes "2 ^ k \<le> unat value mod 2 ^ 31" and "unat value mod 2 ^ 31 < 2 ^ Suc k"
  shows "unat (bucket_index value) = k"
proof -
  let ?v = "drop_bit 1 (value AND 0x7FFFFFFF)"
  have "value AND 0x7FFFFFFF = value AND mask 31" by (simp add: mask_eq_exp_minus_1)
  then have v: "unat ?v = unat value mod 2 ^ 31 div 2" by (simp add: drop_bit_eq_div unat_div unat_and_mask)
  show ?thesis
  proof (cases k)
    case 0
    then have "unat ?v = 0" using v assms by simp
    then show ?thesis using 0 by (simp add: bucket_index_def unat_eq_0)
  next
    case (Suc n)
    have b: "2 ^ n \<le> unat ?v" "unat ?v < 2 ^ Suc n" using assms unfolding v Suc by (simp_all add: less_mult_imp_div_less)
    have "2 ^ n \<noteq> (0::nat)" by simp
    then have "?v \<noteq> 0" using b(1) by (metis le_zero_eq unat_0)
    then have "bucket_index value = 32 - of_nat (31 - n)" using builtin_clz_eq [OF b] by (simp add: bucket_index_def Let_def)
    moreover have "(32 :: u64) - of_nat (31 - n) = of_nat (32 - (31 - n))" by (subst of_nat_diff) simp_all
    ultimately have "bucket_index value = of_nat (Suc n)" using builtin_clz_eq(2) [OF b] by (simp add: Suc_diff_le)
    then show ?thesis using Suc builtin_clz_eq(2) [OF b] by (simp add: unat_of_nat_small del: of_nat_Suc)
  qed
qed

end
