(* ===== verification/SamplerSpec.thy ===== *)
theory SamplerSpec
  imports SamplerBits
begin

text \<open>
  What a sample of one thread promises: a bucket counts every value of the period that falls into it, and what it keeps are such values; up to
  its capacity it keeps all of them, in order.
\<close>

definition idx :: "u32 \<Rightarrow> nat" where "idx v = unat (bucket_index v)"
definition in_bucket :: "nat \<Rightarrow> u32 list \<Rightarrow> u32 list" where "in_bucket k ws = filter (\<lambda>v. idx v = k) ws"

lemma in_bucket_snoc [simp]: "in_bucket k (ws @ [v]) = in_bucket k ws @ (if idx v = k then [v] else [])" "in_bucket k [] = []"
  by (simp_all add: in_bucket_def)

lemma in_bucket_length: "length (in_bucket k ws) \<le> length ws"
  by (simp add: in_bucket_def)

lemma idx_less: "idx v < 31"
proof (cases "unat v mod 2 ^ 31 = 0")
  case True
  have "v AND 0x7FFFFFFF = v AND mask 31" by (simp add: mask_eq_exp_minus_1)
  then have "unat (v AND 0x7FFFFFFF) = 0" using True by (simp add: unat_and_mask)
  then show ?thesis by (simp add: idx_def bucket_index_def unat_eq_0)
next
  case False
  then have "1 \<le> unat v mod 2 ^ 31" by simp
  then obtain k where k: "2 ^ k \<le> unat v mod 2 ^ 31" "unat v mod 2 ^ 31 < 2 ^ Suc k" using ex_power_ivl1 [of 2 "unat v mod 2 ^ 31"] by auto
  have "(2::nat) ^ k < 2 ^ 31" using k(1) mod_less_divisor [of "2 ^ 31" "unat v"] by (rule order_le_less_trans) simp
  then have "k < 31" by (rule power_less_imp_less_exp [rotated]) simp
  then show ?thesis using bucket_index_log2 [OF k] by (simp add: idx_def)
qed

lemma in_bucket_high: "31 \<le> k \<Longrightarrow> in_bucket k ws = []"
proof -
  assume "31 \<le> k"
  then have "idx v \<noteq> k" for v using idx_less [of v] by linarith
  then show ?thesis by (simp add: in_bucket_def)
qed

section \<open>Buckets\<close>

text \<open>The data fills the allocation.\<close>

definition bucket_sized :: "SampleBucket \<Rightarrow> bool" where
  "bucket_sized b \<longleftrightarrow> 8 + 4 * length (sb_data b) = unat (sb_allocate_size b) \<and> unat (sb_capacity b) \<le> length (sb_data b)"

definition bucket_ok :: "SampleBucket \<Rightarrow> u32 list \<Rightarrow> bool" where
  "bucket_ok b ws \<longleftrightarrow> bucket_sized b \<and> unat (sb_record_num b) = length ws \<and>
     (\<forall>j<min (length ws) (unat (sb_capacity b)). sb_data b ! j \<in> set ws) \<and>
     (length ws \<le> unat (sb_capacity b) \<longrightarrow> take (length ws) (sb_data b) = ws)"

lemma bucket_record_ok:
  assumes ok: "bucket_ok b ws" and n: "Suc (length ws) < 2 ^ 32"
  obtains b' rs' where "bucket_record v rs b = Some (b', rs')" and "bucket_ok b' (ws @ [v])"
proof -
  let ?n = "sb_record_num b" and ?c = "unat (sb_capacity b)"
  have c: "unat (ucast (sb_capacity b) :: u32) = ?c" by (rule unat_ucast_up) simp
  have nn: "unat ?n = length ws" and cd: "?c \<le> length (sb_data b)" using ok by (simp_all add: bucket_ok_def bucket_sized_def)
  have n1: "unat (?n + 1) = Suc (length ws)" using nn n by (subst unat_add_small) simp_all
  have ne: "?n + 1 \<noteq> 0" using n1 by (metis nat.simps(3) unat_0)
  show ?thesis
  proof (cases "?n < ucast (sb_capacity b)")
    case True
    then have lt: "length ws < ?c" using c nn by (simp add: word_less_nat_alt)
    let ?b = "b\<lparr>sb_data := (sb_data b)[length ws := v], sb_record_num := ?n + 1\<rparr>"
    have t: "take (length ws) (sb_data b) = ws" using ok lt by (simp add: bucket_ok_def)
    have "take (Suc (length ws)) ((sb_data b)[length ws := v]) = ws @ [v]"
      using lt cd t by (simp add: take_Suc_conv_app_nth take_update_swap)
    moreover from this have "(sb_data b)[length ws := v] ! j \<in> set (ws @ [v])" if "j < Suc (length ws)" for j
      using that by (metis length_append_singleton nth_mem nth_take)
    ultimately have "bucket_ok ?b (ws @ [v])" using ok n1 by (simp add: bucket_ok_def bucket_sized_def)
    moreover have "bucket_record v rs b = Some (?b, rs)" using True nn lt cd by (simp add: bucket_record_def mem_write_def)
    ultimately show ?thesis using that by blast
  next
    case False
    then have ge: "?c \<le> length ws" using c nn by (simp add: word_less_nat_alt)
    obtain r rs' where r: "xorshift128_rand rs = (r, rs')" by fastforce
    let ?i = "ucast r mod (?n + 1)"
    define d where "d = (if ?i < ucast (sb_capacity b) then (sb_data b)[unat ?i := v] else sb_data b)"
    have i: "?i < ucast (sb_capacity b) \<Longrightarrow> unat ?i < length (sb_data b)" using cd c by (simp add: word_less_nat_alt)
    have "bucket_record v rs b = Some (b\<lparr>sb_data := d, sb_record_num := ?n + 1\<rparr>, rs')"
      using False ne r i by (simp add: bucket_record_def mem_write_def Let_def d_def)
    moreover have "d ! j \<in> set (ws @ [v])" if "j < ?c" for j
    proof -
      have "sb_data b ! j \<in> set ws" using ok that ge by (simp add: bucket_ok_def)
      then show ?thesis using that cd by (cases "j = unat ?i") (auto simp: d_def)
    qed
    then have "bucket_ok (b\<lparr>sb_data := d, sb_record_num := ?n + 1\<rparr>) (ws @ [v])"
      using ok n1 ge by (auto simp: bucket_ok_def bucket_sized_def d_def)
    ultimately show ?thesis using that by blast
  qed
qed

lemma bucket_allocate_size_ok:
  assumes "cacheline = 64 \<or> cacheline = 128" and "unat cap < 256"
  shows "8 + 4 * unat cap \<le> unat (bucket_allocate_size cacheline cap)" and "4 dvd unat (bucket_allocate_size cacheline cap)"
    and "unat (bucket_allocate_size cacheline cap) < 2 ^ 16" and "8 \<le> unat (bucket_allocate_size cacheline cap)"
proof -
  have "cacheline = 2 ^ 6 \<or> cacheline = 2 ^ 7" using assms(1) by simp
  then obtain e where e: "cacheline = 2 ^ e" "e = 6 \<or> e = 7" by blast
  let ?x = "8 + 4 * unat cap + 2 ^ e - 1"
  have m: "unat (4 * cap) = 4 * unat cap" using assms(2) by (simp add: unat_word_ariths)
  have "unat (8 + 4 * cap + cacheline - 1) = ?x"
    using assms m e by (auto simp: unat_word_ariths)
  then have s: "unat (bucket_allocate_size cacheline cap) = ?x - ?x mod 2 ^ e"
    using e unat_and_minus_pow2 [of "8 + 4 * cap + cacheline - 1" e] by (simp add: bucket_allocate_size_def minus_mod_eq_div_mult)
  have md: "?x mod 2 ^ e < 2 ^ e" by simp
  show "8 + 4 * unat cap \<le> unat (bucket_allocate_size cacheline cap)" unfolding s using md by linarith
  then show "8 \<le> unat (bucket_allocate_size cacheline cap)" by linarith
  show "unat (bucket_allocate_size cacheline cap) < 2 ^ 16" unfolding s using e(2) assms(2) by auto
  have "2 ^ e dvd ?x - ?x mod 2 ^ e" by (rule dvd_minus_mod)
  moreover have "(4::nat) dvd 2 ^ e" using e(2) by auto
  ultimately show "4 dvd unat (bucket_allocate_size cacheline cap)" unfolding s by (rule dvd_trans [rotated])
qed

lemma renew_bucket_ok:
  assumes c: "cacheline = 64 \<or> cacheline = 128" and b: "\<And>b. bucket = Some b \<Longrightarrow> bucket_sized b"
  shows "bucket_ok (renew_bucket cacheline junk cap bucket) []"
proof -
  let ?c = "ucast cap :: u64" and ?s = "bucket_allocate_size cacheline (ucast cap)"
  have cap: "unat ?c = unat cap" "unat (ucast ?c :: u16) = unat cap" "unat cap < 256" "ucast ?c = (ucast cap :: u16)"
    using unat_less_2p [of cap] by (simp_all add: unat_ucast_up unat_ucast_mod word_unat_eq_iff)
  note sz = bucket_allocate_size_ok [OF c, of ?c, unfolded cap(1), OF cap(3)]
  have us: "unat (ucast ?s :: u16) = unat ?s" using sz(3) by (simp add: unat_ucast_mod)
  have sub: "unat (?s - 8) = unat ?s - 8" using sz(4) by (simp add: unat_sub word_le_nat_alt)
  have l: "8 + 4 * ((unat ?s - 8) div 4) = unat ?s" using sz(2,4) by presburger
  have new: "bucket_sized ((new_bucket junk ?s)\<lparr>sb_capacity := ucast ?c\<rparr>)" using us sub l sz(1) cap by (simp add: bucket_sized_def new_bucket_def)
  have old: "bucket_sized (b\<lparr>sb_capacity := ucast ?c\<rparr>)" if "bucket = Some b" "?s = ucast (sb_allocate_size b)" for b
  proof -
    have "unat ?s = unat (sb_allocate_size b)" using that(2) by (simp add: unat_ucast_up)
    then show ?thesis using b [OF that(1)] sz(1) cap by (simp add: bucket_sized_def)
  qed
  have "bucket_sized (renew_bucket cacheline junk cap bucket)"
    using new old b cap(4) by (auto simp: renew_bucket_def Let_def bucket_sized_def split: option.splits)
  moreover have "sb_record_num (renew_bucket cacheline junk cap bucket) = 0" by (simp add: renew_bucket_def Let_def)
  ultimately show ?thesis by (simp add: bucket_ok_def)
qed

section \<open>Samples\<close>

text \<open>\<open>ws\<close> are the values the thread recorded in the period \<open>version\<close>.\<close>

definition sample_ok :: "u32 \<Rightarrow> Sample \<Rightarrow> u32 list \<Rightarrow> bool" where
  "sample_ok version s ws \<longleftrightarrow> length (sp_buckets s) = 31 \<and> (\<forall>k<31. \<forall>b. sp_buckets s ! k = Some b \<longrightarrow> bucket_sized b) \<and>
     (\<forall>k. bit (sp_non_empty_bucket_mask s) k \<longrightarrow> k < 31) \<and>
     (if sp_version s = version
      then \<forall>k<31. if bit (sp_non_empty_bucket_mask s) k then in_bucket k ws \<noteq> [] \<and> (\<exists>b. sp_buckets s ! k = Some b \<and> bucket_ok b (in_bucket k ws))
        else in_bucket k ws = []
      else ws = [])"

lemma sample_ok_bucket:
  assumes "sample_ok version s ws" and "sp_version s = version" and "k < 31"
  shows "bit (sp_non_empty_bucket_mask s) k \<Longrightarrow> in_bucket k ws \<noteq> [] \<and> (\<exists>b. sp_buckets s ! k = Some b \<and> bucket_ok b (in_bucket k ws))"
    and "\<not> bit (sp_non_empty_bucket_mask s) k \<Longrightarrow> in_bucket k ws = []"
  using assms unfolding sample_ok_def by presburger+

lemma Sample_new_ok: "sample_ok version Sample_new []"
  by (simp add: sample_ok_def Sample_new_def)

lemma sample_shift_ok:
  assumes c: "cacheline = 64 \<or> cacheline = 128" and caps: "length caps = 32" and ok: "sample_ok version s ws" and n: "Suc (length ws) < 2 ^ 32"
  obtains s' rs' where "sample_shift cacheline junk caps version v rs s = Some (s', rs')" and "sample_ok version s' (ws @ [v])" and "sp_version s' = version"
proof -
  let ?k = "idx v"
  define s1 where "s1 = (if sp_version s \<noteq> version then s\<lparr>sp_non_empty_bucket_mask := 0, sp_version := version\<rparr> else s)"
  let ?m = "sp_non_empty_bucket_mask s1"
  have k: "?k < 31" by (rule idx_less)
  have ok1: "sample_ok version s1 ws" "sp_version s1 = version" using ok by (auto simp: s1_def sample_ok_def)
  have sz: "length (sp_buckets s1) = 31" "\<And>k b. k < 31 \<Longrightarrow> sp_buckets s1 ! k = Some b \<Longrightarrow> bucket_sized b" using ok1 by (simp_all add: sample_ok_def)
  have n': "Suc (length (in_bucket ?k ws)) < 2 ^ 32" using n in_bucket_length [of ?k ws] by linarith
  obtain b s2 where p: "prepare_sample_bucket cacheline junk caps version v s = Some (?k, b, s2)" "bucket_ok b (in_bucket ?k ws)" "sp_version s2 = version"
    "length (sp_buckets s2) = 31" "\<And>j. j \<noteq> ?k \<Longrightarrow> sp_buckets s2 ! j = sp_buckets s1 ! j"
    "\<And>j. bit (sp_non_empty_bucket_mask s2) j \<longleftrightarrow> bit ?m j \<or> j = ?k"
  proof (cases "bit ?m ?k")
    case True
    then obtain b where "sp_buckets s1 ! ?k = Some b" "bucket_ok b (in_bucket ?k ws)" using sample_ok_bucket(1) [OF ok1 k] by blast
    then show ?thesis using that [of b s1] True sz(1) k ok1(2)
      by (auto simp: prepare_sample_bucket_def Let_def idx_def s1_def mem_read_def)
  next
    case False
    then have e: "in_bucket ?k ws = []" by (rule sample_ok_bucket(2) [OF ok1 k])
    let ?b = "renew_bucket cacheline junk (caps ! ?k) (sp_buckets s1 ! ?k)"
    let ?s2 = "s1\<lparr>sp_buckets := (sp_buckets s1)[?k := Some ?b], sp_non_empty_bucket_mask := ?m OR push_bit ?k 1\<rparr>"
    have "bucket_ok ?b []" by (rule renew_bucket_ok [OF c sz(2) [OF k]])
    moreover have "prepare_sample_bucket cacheline junk caps version v s = Some (?k, ?b, ?s2)"
      using False sz(1) k caps by (simp add: prepare_sample_bucket_def Let_def idx_def [symmetric] s1_def [symmetric] mem_read_def)
    moreover have "bit (?m OR push_bit ?k 1) j \<longleftrightarrow> bit ?m j \<or> j = ?k" for j using k by (auto simp: bit_simps)
    ultimately show ?thesis using that [of ?b ?s2] e sz(1) ok1(2) by simp
  qed
  obtain b' rs' where r: "bucket_record v rs b = Some (b', rs')" "bucket_ok b' (in_bucket ?k ws @ [v])" by (rule bucket_record_ok [OF p(2) n'])
  let ?s = "s2\<lparr>sp_buckets := (sp_buckets s2)[?k := Some b']\<rparr>"
  have "sample_ok version ?s (ws @ [v])"
    using ok1 p(3-6) r(2) k by (auto simp: sample_ok_def nth_list_update bucket_ok_def)
  then show ?thesis using that [of ?s rs'] p(1,3) r(1) by (simp add: sample_shift_def)
qed

text \<open>A new period: what the old one left does not matter.\<close>

lemma sample_ok_reset: "sample_ok version s ws \<Longrightarrow> sp_version s \<noteq> version' \<Longrightarrow> sample_ok version' s []"
  by (auto simp: sample_ok_def)

lemma sample_buckets_eq:
  "\<forall>k\<in>set is. k < length bs \<and> bs ! k \<noteq> None \<Longrightarrow> sample_buckets bs is = Some (map (\<lambda>k. (k, the (bs ! k))) is)"
  by (induction "is") (auto simp: mem_read_def)

lemma sample_visit_ok:
  assumes "sample_ok version s ws"
  obtains xs where "sample_visit version s = Some xs" and "map fst xs = filter (\<lambda>k. in_bucket k ws \<noteq> []) [0..<32]"
    and "\<And>k b. (k, b) \<in> set xs \<Longrightarrow> bucket_ok b (in_bucket k ws)"
proof (cases "sp_version s = version")
  case False
  then have "ws = []" using assms by (simp add: sample_ok_def)
  then show ?thesis using that [of "[]"] False by (simp add: sample_visit_def)
next
  case True
  let ?m = "sp_non_empty_bucket_mask s" and ?bs = "sp_buckets s"
  let ?is = "filter (bit ?m) [0..<32]"
  have h: "length ?bs = 31" "\<And>k. bit ?m k \<Longrightarrow> k < 31"
    "\<And>k. bit ?m k \<Longrightarrow> in_bucket k ws \<noteq> [] \<and> (\<exists>b. ?bs ! k = Some b \<and> bucket_ok b (in_bucket k ws))" "\<And>k. k < 31 \<Longrightarrow> \<not> bit ?m k \<Longrightarrow> in_bucket k ws = []"
    using assms True unfolding sample_ok_def by (auto split: if_splits)
  have "k < length ?bs \<and> ?bs ! k \<noteq> None" if "k \<in> set ?is" for k using h(1,2,3) that by fastforce
  then have v: "sample_visit version s = Some (map (\<lambda>k. (k, the (?bs ! k))) ?is)"
    using True by (simp add: sample_visit_def mask_indices_eq sample_buckets_eq)
  have e31: "in_bucket 31 ws = []" by (rule in_bucket_high) simp
  have "?is = filter (\<lambda>k. in_bucket k ws \<noteq> []) [0..<32]"
  proof (rule filter_cong [OF refl])
    fix k
    assume "k \<in> set [0..<32::nat]"
    then have "k < 31 \<or> k = 31" by auto
    then show "bit ?m k = (in_bucket k ws \<noteq> [])" using h(2-4) e31 by blast
  qed
  then have "map fst (map (\<lambda>k. (k, the (?bs ! k))) ?is) = filter (\<lambda>k. in_bucket k ws \<noteq> []) [0..<32]" by (simp add: comp_def)
  moreover have "bucket_ok b (in_bucket k ws)" if "(k, b) \<in> set (map (\<lambda>k. (k, the (?bs ! k))) ?is)" for k b using that h(3) by force
  ultimately show ?thesis using v that by blast
qed

end
