(* ===== verification/SamplerRun.thy ===== *)
theory SamplerRun
  imports SamplerSpec ThreadLocalVectors
begin

text \<open>
  The sampler on its thread-local storage: whatever the threads record, what \<open>for_each\<close> reports accounts for the values of the period.
\<close>

section \<open>Enumerable storage\<close>

locale thread_storage =
  tids: free_next_array tops tinvar tlen tval +
  line: growing_array ga linvar llen lval lbound
  for tops :: "(u16, 't) array_ops" and tinvar tlen tval and ga :: "('a, 's) array" and linvar llen lval lbound +
  fixes dflt :: 'a
  assumes lbound: "2 ^ 16 \<le> lbound"
begin

definition reach where "reach ids s = min (unat (ThreadId_end ids)) (llen s)"
definition alive where "alive ids t \<longleftrightarrow> map_of (tid_live ids) t \<noteq> None"

definition etl_ok where
  "etl_ok b ids s \<longleftrightarrow> tids.threads_ok MAX_THREADS b ids \<and> linvar s \<and> llen s \<le> MAX_THREADS \<and> (\<forall>n\<ge>reach ids s. lval s n = dflt)"

lemma etl_local_ok:
  assumes "etl_ok (if alive ids t then b else Suc b) ids s"
  obtains i ids' s' where "etl_local tops ga t ids s = Some (i, ids', s')" and "etl_ok b ids' s'" and "lval s' = lval s" and "unat i < reach ids' s'"
    and "alive ids' = (\<lambda>u. u = t \<or> alive ids u)"
proof -
  have ok: "tids.threads_ok MAX_THREADS (if map_of (tid_live ids) t = None then Suc b else b) ids" "linvar s" "llen s \<le> MAX_THREADS" "\<And>n. reach ids s \<le> n \<Longrightarrow> lval s n = dflt"
    using assms by (auto simp: etl_ok_def alive_def)
  from tids.threads_use [OF ok(1)] obtain h ids' where
    1: "current_thread_id tops t ids = Some (h, ids')" "tids.threads_ok MAX_THREADS b ids'" "ThreadId_end ids \<le> ThreadId_end ids'"
      "map_of (tid_live ids') = (map_of (tid_live ids))(t \<mapsto> h)" .
  let ?n = "unat (vv_value h)"
  have n: "unat (ucast (vv_value h) :: u64) = ?n" by (rule unat_ucast_up) simp
  have "?n < 2 ^ 16" using unat_less_2p [of "vv_value h"] by simp
  then have nl: "unat (ucast (vv_value h) :: u64) < lbound" unfolding n using lbound by (rule less_le_trans)
  have ne: "?n < unat (ThreadId_end ids')" using tids.live_below_end [OF 1(2), of t h] 1(4) by (simp add: word_less_nat_alt)
  then have nm: "?n < MAX_THREADS" using tids.threads_end [OF 1(2)] by linarith
  from line.ensure [OF ok(2) nl] obtain s' where
    2: "ga_ensure ga (ucast (vv_value h)) s = Some s'" "linvar s'" "llen s' = max (llen s) (Suc (?n div 128) * 128)" "lval s' = lval s" unfolding n by blast
  have ns: "?n < llen s'" using 2(3) dividend_less_div_times [of 128 ?n] by (simp add: less_max_iff_disj)
  have "Suc (?n div 128) * 128 \<le> MAX_THREADS" using nm by (simp add: MAX_THREADS_def)
  moreover have "reach ids s \<le> reach ids' s'" using 1(3) 2(3) by (auto simp: reach_def word_le_nat_alt)
  ultimately have "etl_ok b ids' s'" unfolding etl_ok_def using 1(2) 2 ok(3,4) by auto
  moreover have "etl_local tops ga t ids s = Some (ucast (vv_value h), ids', s')" using 1(1) 2(1) by (simp add: etl_local_def)
  moreover have "unat (ucast (vv_value h) :: u64) < reach ids' s'" unfolding n reach_def using ne ns by simp
  moreover have "alive ids' = (\<lambda>u. u = t \<or> alive ids u)" using 1(4) by (auto simp: alive_def fun_eq_iff)
  ultimately show ?thesis using that 2(4) by blast
qed

lemma etl_load_store:
  assumes "etl_ok b ids s" and "unat i < reach ids s"
  shows "ga_load ga i s = Some (lval s (unat i))"
    and "\<exists>s'. ga_store ga i x s = Some s' \<and> etl_ok b ids s' \<and> lval s' = (lval s)(unat i := x) \<and> llen s' = llen s"
proof -
  have ok: "tids.threads_ok MAX_THREADS b ids" "linvar s" "llen s \<le> MAX_THREADS" "\<And>n. reach ids s \<le> n \<Longrightarrow> lval s n = dflt" "unat i < llen s"
    using assms by (auto simp: etl_ok_def reach_def)
  show "ga_load ga i s = Some (lval s (unat i))" by (rule line.load [OF ok(2,5)])
  from line.store [OF ok(2,5), of x] obtain s' where s': "ga_store ga i x s = Some s'" "linvar s'" "llen s' = llen s" "lval s' = (lval s)(unat i := x)" by blast
  then have "etl_ok b ids s'" unfolding etl_ok_def using ok assms(2) by (auto simp: reach_def)
  then show "\<exists>s'. ga_store ga i x s = Some s' \<and> etl_ok b ids s' \<and> lval s' = (lval s)(unat i := x) \<and> llen s' = llen s" using s' by blast
qed

lemma etl_for_each_const_ok:
  assumes "etl_ok b ids s"
  shows "\<exists>segs. etl_for_each_const ga ids s = Some segs \<and> concat segs = map (lval s) [0..<reach ids s]"
proof -
  have ok: "linvar s" "llen s \<le> MAX_THREADS" using assms by (simp_all add: etl_ok_def)
  let ?e = "ucast (etl_end ids (of_nat (llen s))) :: u64"
  have e: "unat ?e = reach ids s" using etl_end_eq [OF ok(2)] by (simp add: reach_def unat_ucast_up)
  have "unat (0 :: u64) \<le> unat ?e" "unat ?e \<le> llen s" unfolding e by (simp_all add: reach_def)
  from line.segments [OF ok(1) this] show ?thesis using line.size(1) [OF ok(1)] e by (simp add: etl_for_each_const_def)
qed

lemma etl_exit_ok:
  assumes "etl_ok b ids s"
  obtains ids' where "ThreadId_destroy tops t ids = Some ids'" and "etl_ok b ids' s" and "alive ids' = (\<lambda>u. u \<noteq> t \<and> alive ids u)"
proof -
  have ok: "tids.threads_ok MAX_THREADS b ids" using assms by (simp add: etl_ok_def)
  from tids.threads_exit [OF ok, of t] obtain ids' where
    1: "ThreadId_destroy tops t ids = Some ids'" "tids.threads_ok MAX_THREADS b ids'" "ThreadId_end ids' = ThreadId_end ids"
      "map_of (tid_live ids') = (map_of (tid_live ids))(t := None)" .
  then have "etl_ok b ids' s" "alive ids' = (\<lambda>u. u \<noteq> t \<and> alive ids u)" using assms by (auto simp: etl_ok_def reach_def alive_def fun_eq_iff)
  then show ?thesis using that 1(1) by blast
qed

end

section \<open>Reports\<close>

definition bucket_total :: "nat \<Rightarrow> (nat \<times> SampleBucket) list \<Rightarrow> nat" where
  "bucket_total k xs = sum_list (map (\<lambda>x. unat (sb_record_num (snd x))) (filter (\<lambda>x. fst x = k) xs))"

lemma bucket_total_append [simp]: "bucket_total k (xs @ ys) = bucket_total k xs + bucket_total k ys" "bucket_total k [] = 0"
  by (simp_all add: bucket_total_def)

lemma filter_fst_single:
  assumes "distinct (map fst xs)" and "(k, b) \<in> set xs"
  shows "filter (\<lambda>x. fst x = k) xs = [(k, b)]"
  using assms
proof (induction xs)
  case (Cons x xs)
  then show ?case by (cases "fst x = k") (auto simp: filter_empty_conv image_iff)
qed simp

lemma visit_total:
  assumes "map fst xs = filter (\<lambda>k. in_bucket k ws \<noteq> []) [0..<32]" and "\<And>k b. (k, b) \<in> set xs \<Longrightarrow> bucket_ok b (in_bucket k ws)"
  shows "bucket_total k xs = length (in_bucket k ws)"
proof (cases "k \<in> fst ` set xs")
  case True
  then obtain b where b: "(k, b) \<in> set xs" by auto
  have "distinct (map fst xs)" unfolding assms(1) by simp
  then show ?thesis using filter_fst_single [OF _ b] assms(2) [OF b] by (simp add: bucket_total_def bucket_ok_def)
next
  case False
  have "k \<notin> set (map fst xs)" using False by simp
  then have "in_bucket k ws = [] \<or> 32 \<le> k" unfolding assms(1) by auto
  then have "in_bucket k ws = []" using in_bucket_high [of k ws] by auto
  moreover have "filter (\<lambda>x. fst x = k) xs = []" using False by (auto simp: filter_empty_conv)
  ultimately show ?thesis by (simp add: bucket_total_def)
qed

lemma samples_visit_ok:
  "list_all2 (sample_ok version) ss wss \<Longrightarrow> \<exists>xs. samples_visit version ss = Some xs
    \<and> (\<forall>k b. (k, b) \<in> set xs \<longrightarrow> (\<exists>ws\<in>set wss. bucket_ok b (in_bucket k ws)))
    \<and> (\<forall>k. bucket_total k xs = sum_list (map (\<lambda>ws. length (in_bucket k ws)) wss))"
proof (induction ss wss rule: list_all2_induct)
  case Nil
  then show ?case by simp
next
  case (Cons s ss ws wss)
  obtain xs where 1: "sample_visit version s = Some xs" "map fst xs = filter (\<lambda>k. in_bucket k ws \<noteq> []) [0..<32]"
    "\<And>k b. (k, b) \<in> set xs \<Longrightarrow> bucket_ok b (in_bucket k ws)" by (rule sample_visit_ok [OF Cons(1)]) blast
  from Cons.IH obtain ys where 2: "samples_visit version ss = Some ys" "\<And>k b. (k, b) \<in> set ys \<Longrightarrow> \<exists>ws\<in>set wss. bucket_ok b (in_bucket k ws)"
    "\<And>k. bucket_total k ys = sum_list (map (\<lambda>ws. length (in_bucket k ws)) wss)" by blast
  show ?case using 1(1,3) 2 visit_total [OF 1(2,3)] by (intro exI [of _ "xs @ ys"]) auto
qed

section \<open>Programs\<close>

datatype sampler_op = Shift nat u32 | SReset | SetCapacity u64 u64 | SExit nat

type_synonym ('t, 's) sampler_state = "(u16, 't) thread_ids \<times> (nat \<Rightarrow> rand_state) \<times> 's ConcurrentSampler"

fun sampler_step :: "(u16, 't) array_ops \<Rightarrow> (Sample, 's) array \<Rightarrow> u64 \<Rightarrow> u32 \<Rightarrow> sampler_op \<Rightarrow> ('t, 's) sampler_state \<Rightarrow> ('t, 's) sampler_state option" where
  "sampler_step tops ga cacheline junk (Shift t v) S = sampler_shift tops ga cacheline junk t v S"
| "sampler_step tops ga cacheline junk SReset (ids, rand, this) = Some (ids, rand, sampler_reset this)"
| "sampler_step tops ga cacheline junk (SetCapacity i c) (ids, rand, this) = do { this \<leftarrow> set_bucket_capacity i c this; Some (ids, rand, this) }"
| "sampler_step tops ga cacheline junk (SExit t) (ids, rand, this) = do { ids \<leftarrow> ThreadId_destroy tops t ids; Some (ids, rand, this) }"

fun sampler_run :: "(u16, 't) array_ops \<Rightarrow> (Sample, 's) array \<Rightarrow> u64 \<Rightarrow> u32 \<Rightarrow> sampler_op list \<Rightarrow> ('t, 's) sampler_state \<Rightarrow> ('t, 's) sampler_state option" where
  "sampler_run tops ga cacheline junk [] S = Some S"
| "sampler_run tops ga cacheline junk (op # ops) S = do { S \<leftarrow> sampler_step tops ga cacheline junk op S; sampler_run tops ga cacheline junk ops S }"

text \<open>The values of the current period.\<close>

fun period_values :: "sampler_op list \<Rightarrow> u32 list \<Rightarrow> u32 list" where
  "period_values [] vs = vs"
| "period_values (Shift t v # ops) vs = period_values ops (vs @ [v])"
| "period_values (SReset # ops) vs = period_values ops []"
| "period_values (_ # ops) vs = period_values ops vs"

fun shifts :: "sampler_op list \<Rightarrow> nat" where
  "shifts [] = 0"
| "shifts (Shift t v # ops) = Suc (shifts ops)"
| "shifts (_ # ops) = shifts ops"

fun sampler_resets :: "sampler_op list \<Rightarrow> nat" where
  "sampler_resets [] = 0"
| "sampler_resets (SReset # ops) = Suc (sampler_resets ops)"
| "sampler_resets (_ # ops) = sampler_resets ops"

fun sampler_starts :: "nat set \<Rightarrow> sampler_op list \<Rightarrow> nat" where
  "sampler_starts L [] = 0"
| "sampler_starts L (Shift t v # ops) = (if t \<in> L then sampler_starts L ops else Suc (sampler_starts (insert t L) ops))"
| "sampler_starts L (SExit t # ops) = sampler_starts (L - {t}) ops"
| "sampler_starts L (_ # ops) = sampler_starts L ops"

definition capacities_ok :: "sampler_op list \<Rightarrow> bool" where
  "capacities_ok ops \<longleftrightarrow> list_all (\<lambda>op. case op of SetCapacity i c \<Rightarrow> i < 32 | _ \<Rightarrow> True) ops"

locale sampler_storage = thread_storage tops tinvar tlen tval ga linvar llen lval lbound Sample_new
  for tops :: "(u16, 't) array_ops" and tinvar tlen tval and ga :: "(Sample, 's) array" and linvar llen lval lbound +
  fixes cacheline :: u64
  assumes cacheline: "cacheline = 64 \<or> cacheline = 128"
begin

text \<open>\<open>ws n\<close> are the values of the period recorded under the thread identifier \<open>n\<close>, \<open>r\<close> is the number of resets so far.\<close>

definition cells_ok where
  "cells_ok r s ws \<longleftrightarrow> (\<forall>n. sample_ok (of_nat r) (lval s n) (ws n) \<and> unat (sp_version (lval s n)) \<le> r)"

definition sampler_ok where
  "sampler_ok b c d S vs \<longleftrightarrow> (case S of (ids, rand, this) \<Rightarrow> etl_ok b ids (cs_storage this) \<and> length (cs_bucket_capacity this) = 32 \<and> length vs + d + 1 < 2 ^ 32 \<and>
     (\<exists>r ws. r + c < 2 ^ 32 \<and> cs_version this = of_nat r \<and> cells_ok r (cs_storage this) ws \<and> (\<forall>n. set (ws n) \<subseteq> set vs \<and> length (ws n) \<le> length vs) \<and>
       (\<forall>k. length (in_bucket k vs) = (\<Sum>n<2 ^ 16. length (in_bucket k (ws n))))))"

lemma reach_small: "etl_ok b ids s \<Longrightarrow> reach ids s \<le> 2 ^ 16"
  by (auto simp: etl_ok_def reach_def MAX_THREADS_def min_def)

lemma step_shift:
  assumes "sampler_ok (if alive ids t then b else Suc b) c (Suc d) (ids, rand, this) vs"
  shows "\<exists>S'. sampler_step tops ga cacheline junk (Shift t v) (ids, rand, this) = Some S' \<and> sampler_ok b c d S' (vs @ [v])
    \<and> alive (fst S') = (\<lambda>u. u = t \<or> alive ids u)"
proof -
  from assms obtain r ws where A: "etl_ok (if alive ids t then b else Suc b) ids (cs_storage this)" "length (cs_bucket_capacity this) = 32" "length vs + Suc d + 1 < 2 ^ 32"
    "r + c < 2 ^ 32" "cs_version this = of_nat r" "cells_ok r (cs_storage this) ws" "\<And>n. set (ws n) \<subseteq> set vs \<and> length (ws n) \<le> length vs"
    "\<And>k. length (in_bucket k vs) = (\<Sum>n<2 ^ 16. length (in_bucket k (ws n)))" by (auto simp: sampler_ok_def)
  obtain i ids' s where 1: "etl_local tops ga t ids (cs_storage this) = Some (i, ids', s)" "etl_ok b ids' s" "lval s = lval (cs_storage this)" "unat i < reach ids' s"
    "alive ids' = (\<lambda>u. u = t \<or> alive ids u)" by (rule etl_local_ok [OF A(1)])
  let ?n = "unat i"
  have ok: "sample_ok (of_nat r) (lval s ?n) (ws ?n)" using A(6) 1(3) by (simp add: cells_ok_def)
  have len: "Suc (length (ws ?n)) < 2 ^ 32" using A(3) A(7) [of ?n] by linarith
  obtain x rs where 2: "sample_shift cacheline junk (cs_bucket_capacity this) (of_nat r) v (rand t) (lval s ?n) = Some (x, rs)"
    "sample_ok (of_nat r) x (ws ?n @ [v])" "sp_version x = of_nat r" by (rule sample_shift_ok [OF cacheline A(2) ok len])
  from etl_load_store(1) [OF 1(2,4)] etl_load_store(2) [OF 1(2,4), of x] obtain s' where 3: "ga_load ga i s = Some (lval s ?n)" "ga_store ga i x s = Some s'" "etl_ok b ids' s'" "lval s' = (lval s)(?n := x)" by blast
  let ?ws = "ws(?n := ws ?n @ [v])" and ?S = "(ids', rand(t := rs), this\<lparr>cs_storage := s'\<rparr>)"
  have "unat (of_nat r :: u32) = r" using A(4) by (intro unat_of_nat_small) simp
  then have cells: "cells_ok r s' ?ws" using A(6) 1(3) 2(2,3) 3(4) by (simp add: cells_ok_def)
  have n16: "?n \<in> {..<2 ^ 16}" using 1(4) reach_small [OF 1(2)] by simp
  have cnt: "length (in_bucket k (vs @ [v])) = (\<Sum>n<2 ^ 16. length (in_bucket k (?ws n)))" for k
  proof -
    have "(\<Sum>n<2 ^ 16. length (in_bucket k (?ws n))) = length (in_bucket k (?ws ?n)) + (\<Sum>n\<in>{..<2 ^ 16} - {?n}. length (in_bucket k (?ws n)))"
      by (rule sum.remove [OF _ n16]) simp
    also have "(\<Sum>n\<in>{..<2 ^ 16} - {?n}. length (in_bucket k (?ws n))) = (\<Sum>n\<in>{..<2 ^ 16} - {?n}. length (in_bucket k (ws n)))" by (rule sum.cong) simp_all
    finally show ?thesis using sum.remove [OF _ n16, of "\<lambda>n. length (in_bucket k (ws n))"] A(8) [of k] by simp
  qed
  have sub: "set (?ws n) \<subseteq> set (vs @ [v]) \<and> length (?ws n) \<le> length (vs @ [v])" for n using A(7) [of n] by auto
  have "sampler_ok b c d ?S (vs @ [v])"
    unfolding sampler_ok_def prod.case using A(2-5) 3(3) cells cnt sub by (intro conjI exI [of _ r] exI [of _ ?ws]) simp_all
  then show ?thesis using 1(1,5) 2(1) 3(1,2) A(5) by (simp add: sampler_shift_def)
qed

lemma step_reset:
  assumes "sampler_ok b (Suc c) d (ids, rand, this) vs"
  shows "sampler_ok b c d (ids, rand, sampler_reset this) []"
proof -
  from assms obtain r ws where A: "etl_ok b ids (cs_storage this)" "length (cs_bucket_capacity this) = 32" "length vs + d + 1 < 2 ^ 32"
    "r + Suc c < 2 ^ 32" "cs_version this = of_nat r" "cells_ok r (cs_storage this) ws" by (auto simp: sampler_ok_def)
  have r: "unat (of_nat (Suc r) :: u32) = Suc r" using A(4) by (intro unat_of_nat_small) simp
  have "sample_ok (of_nat (Suc r)) (lval (cs_storage this) n) [] \<and> unat (sp_version (lval (cs_storage this) n)) \<le> Suc r" for n
  proof -
    have h: "sample_ok (of_nat r) (lval (cs_storage this) n) (ws n)" "unat (sp_version (lval (cs_storage this) n)) \<le> r" using A(6) by (simp_all add: cells_ok_def)
    then have "sp_version (lval (cs_storage this) n) \<noteq> of_nat (Suc r)" using r by (metis Suc_n_not_le_n)
    then show ?thesis using sample_ok_reset [OF h(1)] h(2) by simp
  qed
  then have "cells_ok (Suc r) (cs_storage this) (\<lambda>_. [])" by (simp add: cells_ok_def)
  then show ?thesis
    unfolding sampler_ok_def prod.case using A(1-5) by (intro conjI exI [of _ "Suc r"] exI [of _ "\<lambda>_. []"]) (simp_all add: sampler_reset_def add.commute)
qed

lemma sampler_step_ok:
  assumes "sampler_ok (sampler_starts (Collect (alive (fst S))) (op # ops)) (sampler_resets (op # ops)) (shifts (op # ops)) S vs" and "capacities_ok (op # ops)"
  shows "\<exists>S'. sampler_step tops ga cacheline junk op S = Some S'
    \<and> sampler_ok (sampler_starts (Collect (alive (fst S'))) ops) (sampler_resets ops) (shifts ops) S' (period_values [op] vs)"
proof -
  obtain ids rand this where S: "S = (ids, rand, this)" by (cases S)
  show ?thesis
  proof (cases op)
    case (Shift t v)
    let ?L = "Collect (alive ids)"
    let ?b = "sampler_starts (insert t ?L) ops"
    have "sampler_ok (if alive ids t then ?b else Suc ?b) (sampler_resets ops) (Suc (shifts ops)) (ids, rand, this) vs"
      using assms(1) unfolding S Shift by (auto simp: insert_absorb)
    from step_shift [OF this, of junk v] obtain S' where
      S': "sampler_step tops ga cacheline junk (Shift t v) (ids, rand, this) = Some S'" "sampler_ok ?b (sampler_resets ops) (shifts ops) S' (vs @ [v])"
        "alive (fst S') = (\<lambda>u. u = t \<or> alive ids u)" by blast
    have "Collect (alive (fst S')) = insert t ?L" using S'(3) by auto
    then show ?thesis using S'(1,2) unfolding S Shift by simp
  next
    case SReset
    then show ?thesis using step_reset assms(1) unfolding S by simp
  next
    case (SetCapacity i c)
    have "unat i < 32" using assms(2) unfolding SetCapacity by (simp add: capacities_ok_def word_less_nat_alt)
    then show ?thesis using assms(1) unfolding S SetCapacity by (auto simp: set_bucket_capacity_def mem_write_def sampler_ok_def)
  next
    case (SExit t)
    let ?b = "sampler_starts (Collect (alive ids) - {t}) ops"
    have a: "etl_ok ?b ids (cs_storage this)" using assms(1) unfolding S SExit by (simp add: sampler_ok_def)
    obtain ids' where 1: "ThreadId_destroy tops t ids = Some ids'" "etl_ok ?b ids' (cs_storage this)" "alive ids' = (\<lambda>u. u \<noteq> t \<and> alive ids u)" by (rule etl_exit_ok [OF a])
    have "Collect (alive ids') = Collect (alive ids) - {t}" using 1(3) by auto
    then show ?thesis using 1(1,2) assms(1) unfolding S SExit by (simp add: sampler_ok_def)
  qed
qed

lemma sampler_run_ok:
  "sampler_ok (sampler_starts (Collect (alive (fst S))) ops) (sampler_resets ops) (shifts ops) S vs \<Longrightarrow> capacities_ok ops \<Longrightarrow>
   \<exists>S' b c d. sampler_run tops ga cacheline junk ops S = Some S' \<and> sampler_ok b c d S' (period_values ops vs)"
proof (induction ops arbitrary: S vs)
  case Nil
  then show ?case by auto
next
  case (Cons op ops)
  from sampler_step_ok [OF Cons.prems, of junk] obtain S1 where
    1: "sampler_step tops ga cacheline junk op S = Some S1"
      "sampler_ok (sampler_starts (Collect (alive (fst S1))) ops) (sampler_resets ops) (shifts ops) S1 (period_values [op] vs)" by blast
  have "capacities_ok ops" using Cons.prems(2) by (simp add: capacities_ok_def)
  moreover have "period_values ops (period_values [op] vs) = period_values (op # ops) vs" by (cases op) simp_all
  ultimately show ?case using Cons.IH [OF 1(2)] 1(1) by simp
qed

lemma sampler_report:
  assumes "sampler_ok b c d (ids, rand, this) vs"
  shows "\<exists>xs. sampler_for_each ga ids this = Some xs \<and> (\<forall>k. bucket_total k xs = length (in_bucket k vs))
    \<and> (\<forall>k bk j. (k, bk) \<in> set xs \<longrightarrow> j < min (unat (sb_record_num bk)) (unat (sb_capacity bk)) \<longrightarrow> sb_data bk ! j \<in> set (in_bucket k vs))"
proof -
  from assms obtain r ws where A: "etl_ok b ids (cs_storage this)"
    "cs_version this = of_nat r" "cells_ok r (cs_storage this) ws" "\<And>n. set (ws n) \<subseteq> set vs"
    "\<And>k. length (in_bucket k vs) = (\<Sum>n<2 ^ 16. length (in_bucket k (ws n)))" by (auto simp: sampler_ok_def)
  let ?N = "reach ids (cs_storage this)"
  from etl_for_each_const_ok [OF A(1)] obtain segs where
    segs: "etl_for_each_const ga ids (cs_storage this) = Some segs" "concat segs = map (lval (cs_storage this)) [0..<?N]" by blast
  have "list_all2 (sample_ok (of_nat r)) (map (lval (cs_storage this)) [0..<?N]) (map ws [0..<?N])"
    using A(3) by (simp add: list_all2_conv_all_nth cells_ok_def)
  from samples_visit_ok [OF this] obtain xs where
    xs: "samples_visit (of_nat r) (map (lval (cs_storage this)) [0..<?N]) = Some xs" "\<And>k bk. (k, bk) \<in> set xs \<Longrightarrow> \<exists>w\<in>set (map ws [0..<?N]). bucket_ok bk (in_bucket k w)"
      "\<And>k. bucket_total k xs = sum_list (map (\<lambda>w. length (in_bucket k w)) (map ws [0..<?N]))" by blast
  have none: "in_bucket k (ws n) = []" if "?N \<le> n" for n k
  proof -
    have l: "lval (cs_storage this) n = Sample_new" using A(1) that by (simp add: etl_ok_def)
    have "sample_ok (of_nat r) Sample_new (ws n)" using A(3) l by (metis cells_ok_def)
    then have "k < 31 \<Longrightarrow> in_bucket k (ws n) = []" by (cases "sp_version Sample_new = of_nat r") (auto simp: sample_ok_def Sample_new_def)
    then show ?thesis using in_bucket_high [of k "ws n"] by linarith
  qed
  have "bucket_total k xs = length (in_bucket k vs)" for k
  proof -
    have "(\<Sum>n<2 ^ 16. length (in_bucket k (ws n))) = (\<Sum>n<?N. length (in_bucket k (ws n)))"
      using none reach_small [OF A(1)] by (intro sum.mono_neutral_right) auto
    then show ?thesis using xs(3) [of k] A(5) [of k] by (simp add: comp_def sum_list_distinct_conv_sum_set atLeast0LessThan)
  qed
  moreover have "sb_data bk ! j \<in> set (in_bucket k vs)" if m: "(k, bk) \<in> set xs" "j < min (unat (sb_record_num bk)) (unat (sb_capacity bk))" for k bk j
  proof -
    obtain n where "bucket_ok bk (in_bucket k (ws n))" using xs(2) [OF m(1)] by auto
    then have "sb_data bk ! j \<in> set (in_bucket k (ws n))" using m(2) by (simp add: bucket_ok_def)
    then show ?thesis using A(4) [of n] by (auto simp: in_bucket_def)
  qed
  ultimately show ?thesis using segs xs(1) A(2) by (auto simp: sampler_for_each_def)
qed

end

section \<open>The sampler of the code\<close>

interpretation samplers: sampler_storage "vector_ops (plain_env new_node 0) clock" "vec_invar (2 ^ 9) (plain_env new_node 0)" vec_len "vec_val (plain_env new_node 0)"
    "vec_array (plain_env new_node Sample_new) clock" "vec_invar (2 ^ 9) (plain_env new_node Sample_new)" vec_len "vec_val (plain_env new_node Sample_new)" "128 * 2 ^ 9"
    "CACHELINE_SIZE x86_64"
  for x86_64 new_node clock
  by unfold_locales (simp_all add: CACHELINE_SIZE_def)

definition sampler_init :: "(u16 vec, Sample vec) sampler_state" where
  "sampler_init = (\<lparr>tid_allocator = IdAllocator_new (vec_new (Some 0)), tid_live = []\<rparr>, (\<lambda>_. rand_state_new), ConcurrentSampler_new (vec_new (Some Sample_new)))"

lemma sampler_init_ok:
  assumes new: "new_node_spec (Suc (2 ^ 25)) new_node" and b: "b \<le> MAX_THREADS" and c: "c < 2 ^ 32" and d: "d + 1 < 2 ^ 32"
  shows "samplers.sampler_ok new_node b c d sampler_init []" and "Collect (samplers.alive (fst sampler_init)) = {}"
proof -
  note v = vec_new_parts [OF new]
  have "fv.free.ids_ok (plain_env new_node 0) MAX_THREADS b (IdAllocator_new (vec_new (Some 0))) []"
    using b by (intro fv.free.ids_new [OF v(2)]) (simp_all add: MAX_THREADS_def)
  then have "samplers.etl_ok new_node b (fst sampler_init) (vec_new (Some Sample_new))"
    unfolding samplers.etl_ok_def fv.free.threads_ok_def by (simp add: sampler_init_def v v(2) [simplified])
  moreover have "samplers.cells_ok new_node 0 (vec_new (Some Sample_new)) (\<lambda>_. [])"
    unfolding samplers.cells_ok_def v(3) using Sample_new_ok by (simp add: Sample_new_def)
  ultimately show "samplers.sampler_ok new_node b c d sampler_init []"
    unfolding samplers.sampler_ok_def sampler_init_def ConcurrentSampler_new_def prod.case using c d
    by (intro conjI exI [of _ "0 :: nat"] exI [of _ "\<lambda>_. []"]) simp_all
  show "Collect (samplers.alive (fst sampler_init)) = {}" by (simp add: samplers.alive_def sampler_init_def)
qed

text \<open>
  C17: A sampler accounts for its period: whatever values threads record, with capacities set and periods reset in between (fewer than \<open>2^32 - 1\<close> values,
  \<open>2^32\<close> resets and \<open>2^16 - 128\<close> thread starts, capacities set for buckets below 32 only), every call returns without leaving an array, the buckets \<open>for_each\<close> reports count exactly
  the values of the period that fall into them, and what they keep, up to the capacity, are such values.
\<close>

theorem sampler_accounts_for_period:
  assumes "new_node_spec (Suc (2 ^ 25)) new_node" and "capacities_ok ops" and "sampler_starts {} ops \<le> MAX_THREADS" and "sampler_resets ops < 2 ^ 32" and "shifts ops + 1 < 2 ^ 32"
  shows "\<exists>ids rand this xs. sampler_run (vector_ops (plain_env new_node 0) clock) (vec_array (plain_env new_node Sample_new) clock) (CACHELINE_SIZE x86_64) junk ops sampler_init
        = Some (ids, rand, this)
    \<and> sampler_for_each (vec_array (plain_env new_node Sample_new) clock) ids this = Some xs
    \<and> (\<forall>k. bucket_total k xs = length (in_bucket k (period_values ops [])))
    \<and> (\<forall>k bk j. (k, bk) \<in> set xs \<longrightarrow> j < min (unat (sb_record_num bk)) (unat (sb_capacity bk)) \<longrightarrow> sb_data bk ! j \<in> set (in_bucket k (period_values ops [])))"
proof -
  note init = sampler_init_ok [OF assms(1,3-5)]
  from samplers.sampler_run_ok [of new_node sampler_init ops "[]" clock x86_64 junk] init assms(2) obtain S b c d where
    S: "sampler_run (vector_ops (plain_env new_node 0) clock) (vec_array (plain_env new_node Sample_new) clock) (CACHELINE_SIZE x86_64) junk ops sampler_init = Some S"
    "samplers.sampler_ok new_node b c d S (period_values ops [])" by auto
  obtain ids rand this where e: "S = (ids, rand, this)" by (cases S)
  from samplers.sampler_report [OF S(2) [unfolded e], of clock] S(1) show ?thesis unfolding e by blast
qed

definition sample_shifts :: "sampler_op list" where
  "sample_shifts = [Shift 1 5, SReset, SetCapacity 2 1, Shift 1 6, Shift 2 7, Shift 1 4, SExit 1, Shift 3 100]"

theorem sampler_accounts_for_period_witness:
  "\<exists>ids rand this xs. sampler_run (vector_ops (plain_env (new_node_ref (Suc (2 ^ 25))) 0) of_nat) (vec_array (plain_env (new_node_ref (Suc (2 ^ 25))) Sample_new) of_nat)
        (CACHELINE_SIZE True) 0 sample_shifts sampler_init = Some (ids, rand, this)
    \<and> sampler_for_each (vec_array (plain_env (new_node_ref (Suc (2 ^ 25))) Sample_new) of_nat) ids this = Some xs
    \<and> bucket_total 2 xs = 3 \<and> bucket_total 6 xs = 1"
proof -
  have pv: "period_values sample_shifts [] = [6, 7, 4, 100]" by (simp add: sample_shifts_def)
  have "idx 6 = 2" "idx 7 = 2" "idx 4 = 2" "idx 100 = 6" unfolding idx_def by (rule bucket_index_log2; simp)+
  then have b: "length (in_bucket 2 [6, 7, 4, 100]) = 3" "length (in_bucket 6 [6, 7, 4, 100]) = 1" by (simp_all add: in_bucket_def)
  have n: "new_node_spec (Suc (2 ^ 25)) (new_node_ref (Suc (2 ^ 25)))" by (rule new_node_ref_spec) simp
  have h: "capacities_ok sample_shifts" "sampler_starts {} sample_shifts \<le> MAX_THREADS" "sampler_resets sample_shifts < 2 ^ 32" "shifts sample_shifts + 1 < 2 ^ 32"
    by (simp_all add: sample_shifts_def capacities_ok_def MAX_THREADS_def)
  from sampler_accounts_for_period [OF n h, of of_nat True 0] show ?thesis unfolding pv using b by metis
qed

text \<open>The documentation puts \<open>[2^31, 2^32)\<close> into bucket 30; the mask of \<open>bucket_index\<close> spreads it over all of them.\<close>

lemma bucket_index_high_values: "bucket_index 0x80000000 = 0" "idx 0x80000002 = 1"
proof -
  show "bucket_index 0x80000000 = 0" by (simp add: bucket_index_def)
  show "idx 0x80000002 = 1" unfolding idx_def by (rule bucket_index_log2; simp)
qed

end
