(* ===== verification/ShmConf.thy ===== *)
theory ShmConf
  imports Prelude
begin

text \<open>
  \<open>shm/impl/shm_conf.h\<close> and \<open>shm_conf.cc\<close>: the classes of message sizes, with the size and the number of the blocks of
  each. \<open>shm_conf_classes\<close> is the same as one table; \<open>Update\<close> picks the first row whose messages are large enough.
\<close>

definition EXTRA_SIZE :: u64 where "EXTRA_SIZE = 1024 * 4"
definition STATE_SIZE :: u64 where "STATE_SIZE = 1024"
definition BLOCK_SIZE :: u64 where "BLOCK_SIZE = 1024"
definition MESSAGE_INFO_SIZE :: u64 where "MESSAGE_INFO_SIZE = 1024"
definition BLOCK_NUM_16K :: u32 where "BLOCK_NUM_16K = 512"
definition MESSAGE_SIZE_16K :: u64 where "MESSAGE_SIZE_16K = 1024 * 16"
definition BLOCK_NUM_128K :: u32 where "BLOCK_NUM_128K = 128"
definition MESSAGE_SIZE_128K :: u64 where "MESSAGE_SIZE_128K = 1024 * 128"
definition BLOCK_NUM_1M :: u32 where "BLOCK_NUM_1M = 64"
definition MESSAGE_SIZE_1M :: u64 where "MESSAGE_SIZE_1M = 1024 * 1024"
definition BLOCK_NUM_8M :: u32 where "BLOCK_NUM_8M = 32"
definition MESSAGE_SIZE_8M :: u64 where "MESSAGE_SIZE_8M = 1024 * 1024 * 8"
definition BLOCK_NUM_16M :: u32 where "BLOCK_NUM_16M = 16"
definition MESSAGE_SIZE_16M :: u64 where "MESSAGE_SIZE_16M = 1024 * 1024 * 16"
definition BLOCK_NUM_MORE :: u32 where "BLOCK_NUM_MORE = 8"
definition MESSAGE_SIZE_MORE :: u64 where "MESSAGE_SIZE_MORE = 1024 * 1024 * 32"

lemmas shm_conf_consts = EXTRA_SIZE_def STATE_SIZE_def BLOCK_SIZE_def MESSAGE_INFO_SIZE_def BLOCK_NUM_16K_def
  MESSAGE_SIZE_16K_def BLOCK_NUM_128K_def MESSAGE_SIZE_128K_def BLOCK_NUM_1M_def MESSAGE_SIZE_1M_def BLOCK_NUM_8M_def
  MESSAGE_SIZE_8M_def BLOCK_NUM_16M_def MESSAGE_SIZE_16M_def BLOCK_NUM_MORE_def MESSAGE_SIZE_MORE_def

record ShmConf =
  sc_ceiling_msg_size :: u64
  sc_block_buf_size :: u64
  sc_block_num :: u32
  sc_managed_shm_size :: u64

definition GetCeilingMessageSize :: "u64 \<Rightarrow> u64" where
  "GetCeilingMessageSize real_msg_size =
     (if real_msg_size \<le> MESSAGE_SIZE_16K then MESSAGE_SIZE_16K
      else if real_msg_size \<le> MESSAGE_SIZE_128K then MESSAGE_SIZE_128K
      else if real_msg_size \<le> MESSAGE_SIZE_1M then MESSAGE_SIZE_1M
      else if real_msg_size \<le> MESSAGE_SIZE_8M then MESSAGE_SIZE_8M
      else if real_msg_size \<le> MESSAGE_SIZE_16M then MESSAGE_SIZE_16M
      else MESSAGE_SIZE_MORE)"

definition GetBlockBufSize :: "u64 \<Rightarrow> u64" where
  "GetBlockBufSize ceiling_msg_size = ceiling_msg_size + MESSAGE_INFO_SIZE"

definition GetBlockNum :: "u64 \<Rightarrow> u32" where
  "GetBlockNum ceiling_msg_size =
     (if ceiling_msg_size = MESSAGE_SIZE_16K then BLOCK_NUM_16K
      else if ceiling_msg_size = MESSAGE_SIZE_128K then BLOCK_NUM_128K
      else if ceiling_msg_size = MESSAGE_SIZE_1M then BLOCK_NUM_1M
      else if ceiling_msg_size = MESSAGE_SIZE_8M then BLOCK_NUM_8M
      else if ceiling_msg_size = MESSAGE_SIZE_16M then BLOCK_NUM_16M
      else if ceiling_msg_size = MESSAGE_SIZE_MORE then BLOCK_NUM_MORE
      else 0)"

definition ShmConf_Update :: "u64 \<Rightarrow> ShmConf" where
  "ShmConf_Update real_msg_size =
     (let ceiling = GetCeilingMessageSize real_msg_size; buf = GetBlockBufSize ceiling; num = GetBlockNum ceiling
      in \<lparr>sc_ceiling_msg_size = ceiling, sc_block_buf_size = buf, sc_block_num = num,
          sc_managed_shm_size = EXTRA_SIZE + STATE_SIZE + (BLOCK_SIZE + buf) * ucast num\<rparr>)"

definition ShmConf_new :: ShmConf where
  "ShmConf_new = ShmConf_Update MESSAGE_SIZE_16K"

section \<open>The classes as a table\<close>

text \<open>Message size and number of blocks, in kilobytes and blocks.\<close>

definition shm_conf_classes :: "(nat \<times> nat) list" where
  "shm_conf_classes = [(16, 512), (128, 128), (1024, 64), (8192, 32), (16384, 16), (32768, 8)]"

definition shm_conf_class :: "nat \<Rightarrow> nat \<times> nat" where
  "shm_conf_class bytes = (case filter (\<lambda>c. bytes \<le> 1024 * fst c) shm_conf_classes of c # _ \<Rightarrow> c | [] \<Rightarrow> last shm_conf_classes)"

lemma Update_table:
  "unat (sc_ceiling_msg_size (ShmConf_Update w)) = 1024 * fst (shm_conf_class (unat w))
   \<and> unat (sc_block_num (ShmConf_Update w)) = snd (shm_conf_class (unat w))
   \<and> unat (sc_block_buf_size (ShmConf_Update w)) = 1024 * (fst (shm_conf_class (unat w)) + 1)
   \<and> unat (sc_managed_shm_size (ShmConf_Update w)) =
       1024 * (5 + (fst (shm_conf_class (unat w)) + 2) * snd (shm_conf_class (unat w)))"
  by (auto simp: ShmConf_Update_def GetCeilingMessageSize_def GetBlockBufSize_def GetBlockNum_def shm_conf_class_def
      shm_conf_classes_def shm_conf_consts Let_def word_le_nat_alt)

text \<open>
  Comments in \<open>shm_conf.h\<close> name the messages of each class: \<open>1K-10K\<close> for the first, \<open>10K-100K\<close>, \<open>100K-1M\<close>, \<open>1M-6M\<close>, \<open>6M-10M\<close> and \<open>10M+\<close>. The code puts 12 KB into the first
  class, 120 KB into the second, 7 MB into the fourth and 12 MB into the fifth.
\<close>

lemma shm_conf_comments_differ:
  "sc_ceiling_msg_size (ShmConf_Update (12 * 1024)) = MESSAGE_SIZE_16K" "sc_ceiling_msg_size (ShmConf_Update (120 * 1024)) = MESSAGE_SIZE_128K"
  "sc_ceiling_msg_size (ShmConf_Update (7 * 1024 * 1024)) = MESSAGE_SIZE_8M" "sc_ceiling_msg_size (ShmConf_Update (12 * 1024 * 1024)) = MESSAGE_SIZE_16M"
  by (simp_all add: ShmConf_Update_def GetCeilingMessageSize_def shm_conf_consts Let_def)

text \<open>
  C25: The configuration for a message size is a total function into the table of classes: the smallest class that holds the
  message (the largest class if none does), with its number of blocks, a block buffer of the message size and 1 KB of message
  information, and a segment size that holds 1 KB and a buffer per block and 5 KB of state, without overflow of any 32 or 64 bit
  operation; every message of at most 32 MB fits its block. The limits are those of the code, 16 KB, 128 KB, 1 MB, 8 MB and 16 MB; the comments of
  \<open>shm_conf.h\<close> give other ones (10K, 100K, 1M, 6M, 10M), see \<open>shm_conf_comments_differ\<close>.
\<close>

theorem shm_conf_correct:
  "let c = shm_conf_class (unat w); r = ShmConf_Update w in
     c \<in> set shm_conf_classes
   \<and> unat (sc_ceiling_msg_size r) = 1024 * fst c \<and> unat (sc_block_num r) = snd c
   \<and> unat (sc_block_buf_size r) = 1024 * (fst c + 1)
   \<and> unat (sc_managed_shm_size r) = 1024 * (5 + (fst c + 2) * snd c)
   \<and> min (unat w) (32 * 1024 * 1024) \<le> unat (sc_ceiling_msg_size r)"
proof -
  have "shm_conf_class (unat w) \<in> set shm_conf_classes \<and> min (unat w) (32 * 1024 * 1024) \<le> 1024 * fst (shm_conf_class (unat w))"
    by (auto simp: shm_conf_class_def shm_conf_classes_def)
  with Update_table [of w] show ?thesis by (simp add: Let_def)
qed

end
