(* ===== verification/Extent.thy ===== *)
theory Extent
  imports RteRing
begin

text \<open>
  \<open>shm/impl/block\<close>, \<open>shm/impl/extent_metadata\<close> and \<open>shm/impl/extent\<close>: a piece of shared memory cut into blocks of one size,
  with a ring of the numbers of the free ones.

  The layout lies in shared memory, so every operation gets it and gives it back; pointers are addresses, and the layout's own address
  is the argument \<open>this\<close>. \<open>shm_sizes\<close> are the sizes and offsets the compiler chooses. \<open>shm_memory\<close> is the mapped range of
  addresses: the layout's placed arrays are what \<open>cast_array\<close> finds there, and an array that is not inside the range is
  \<open>None\<close> as soon as it is written.
\<close>

section \<open>Shared memory\<close>

record shm_sizes =
  sizeof_Block :: u64
  sizeof_ExtentLayout :: u64
  offsetof_extent_data :: u64
  sizeof_SegmentLayout :: u64
  offsetof_segment_data :: u64
  sizeof_ShmObject :: u64

record shm_memory =
  mm_first :: u64
  mm_end :: u64

definition mapped :: "shm_memory \<Rightarrow> u64 \<Rightarrow> u64 \<Rightarrow> bool" where
  "mapped M p n \<longleftrightarrow> unat (mm_first M) \<le> unat p \<and> unat p + unat n \<le> unat (mm_end M)"

text \<open>The objects of \<open>sizeof_T\<close> bytes in the \<open>n\<close> bytes at \<open>p\<close>; \<open>junk\<close> is what the bytes at an address hold.\<close>

definition cast_array :: "(u64 \<Rightarrow> 'a) \<Rightarrow> shm_memory \<Rightarrow> u64 \<Rightarrow> u64 \<Rightarrow> u64 \<Rightarrow> 'a list option" where
  "cast_array junk M sizeof_T p n =
     (if mapped M p n then Some (map (\<lambda>i. junk (p + of_nat i * sizeof_T)) [0..<unat n div unat sizeof_T]) else None)"

section \<open>Block\<close>

record Block =
  bk_is_writing :: bool
  bk_reading_reference_counts :: u32
  bk_msg_size :: u64
  bk_msg_info_size :: u64

definition Block_new :: Block where
  "Block_new = \<lparr>bk_is_writing = False, bk_reading_reference_counts = 0, bk_msg_size = 0, bk_msg_info_size = 0\<rparr>"

definition MsgSize :: "Block \<Rightarrow> u64" where
  "MsgSize b = bk_msg_size b"

definition SetMsgSize :: "u64 \<Rightarrow> Block \<Rightarrow> Block" where
  "SetMsgSize msg_size b = b\<lparr>bk_msg_size := msg_size\<rparr>"

definition MsgInfoSize :: "Block \<Rightarrow> u64" where
  "MsgInfoSize b = bk_msg_info_size b"

definition SetMsgInfoSize :: "u64 \<Rightarrow> Block \<Rightarrow> Block" where
  "SetMsgInfoSize msg_info_size b = b\<lparr>bk_msg_info_size := msg_info_size\<rparr>"

section \<open>ExtentLayout\<close>

definition EXTENT_MAGIC_HEADER :: u64 where "EXTENT_MAGIC_HEADER = 0x2F2F2F2F2F2F2F2F"

record ExtentOption =
  eo_offset :: u64
  eo_base_addr :: u64
  eo_size :: u64
  eo_block_num :: u64
  eo_block_size :: u64

text \<open>\<open>el_blocks\<close> is the array of \<open>Block\<close>s in \<open>data\<close>.\<close>

record ExtentLayout =
  el_magic_header :: u64
  el_segment_offset :: u64
  el_space_size :: u64
  el_space_used :: u64
  el_block_num :: u32
  el_block_buffer_size :: u32
  el_extent_index :: u16
  el_inited :: bool
  el_free_block_ids :: "u16 rte_ring"
  el_block_offset :: u32
  el_block_buffer_offset :: u32
  el_blocks :: "Block list"

definition ExtentLayout_new :: ExtentLayout where
  "ExtentLayout_new = \<lparr>el_magic_header = 0, el_segment_offset = 0, el_space_size = 0, el_space_used = 0, el_block_num = 0,
     el_block_buffer_size = 0, el_extent_index = 0, el_inited = False, el_free_block_ids = RteRing_new, el_block_offset = 0,
     el_block_buffer_offset = 0, el_blocks = []\<rparr>"

definition extent_data :: "shm_sizes \<Rightarrow> u64 \<Rightarrow> u64" where
  "extent_data sz this = this + offsetof_extent_data sz"

definition ExtentLayout_GetRequestSize :: "(u64 \<Rightarrow> u64) \<Rightarrow> shm_sizes \<Rightarrow> u64 \<Rightarrow> u64 \<Rightarrow> u64" where
  "ExtentLayout_GetRequestSize bit_ceil sz block_num block_size =
     (let schema = RteRing_GetStorageSchema bit_ceil 2 \<lparr>schema_fields = []\<rparr> block_num
      in sizeof_ExtentLayout sz + block_num * block_size + StorageSchema_TotalSize schema)"

definition ExtentLayout_Allocate :: "shm_sizes \<Rightarrow> u64 \<Rightarrow> u64 \<Rightarrow> ExtentLayout \<Rightarrow> u64 \<times> ExtentLayout" where
  "ExtentLayout_Allocate sz this n l =
     (extent_data sz this + el_space_used l, l\<lparr>el_space_used := el_space_used l + n\<rparr>)"

text \<open>\<open>for (size_t i = 0; i < schema.FieldSize(); ++i) storage.field_buffers[i].ptr = Allocate(...);\<close>\<close>

fun extent_place_fields :: "(u64 \<Rightarrow> u16) \<Rightarrow> shm_sizes \<Rightarrow> shm_memory \<Rightarrow> u64 \<Rightarrow> FieldBufferMetadata list \<Rightarrow> nat \<Rightarrow>
    u16 PlacementStorage \<Rightarrow> ExtentLayout \<Rightarrow> (u16 PlacementStorage \<times> ExtentLayout) option" where
  "extent_place_fields junk sz M this [] i storage l = Some (storage, l)"
| "extent_place_fields junk sz M this (f # fs) i storage l = do {
     let (p, l) = ExtentLayout_Allocate sz this (request_space_size f) l;
     m \<leftarrow> cast_array junk M 2 p (request_space_size f);
     fb \<leftarrow> GetFieldBuffer storage i;
     storage \<leftarrow> MutableFieldBuffer storage i (fb\<lparr>fb_ptr := Some m\<rparr>);
     extent_place_fields junk sz M this fs (Suc i) storage l }"

text \<open>\<open>for (; idx < (uint16_t)block_num; ++idx) free_block_ids.DoEnqueue(&idx, 1, nullptr);\<close> (a failure is only printed)\<close>

partial_function (option) fill_block_ids :: "u16 \<Rightarrow> u16 \<Rightarrow> u16 rte_ring \<Rightarrow> u16 rte_ring option" where
  "fill_block_ids num idx ring =
     (if idx < num then do {
        (ret, free_space, ring) \<leftarrow> DoEnqueue ring [idx] 1 True;
        fill_block_ids num (idx + 1) ring }
      else Some ring)"

text \<open>
  \<open>Init\<close>. The products of \<open>block_num\<close> and \<open>block_buffer_size\<close> are 32 bits wide, as are the two offsets. The ring takes its memory from the
  placement, so no heap is needed. The last loop of the source constructs arrays of \<open>uint8_t\<close> without a value, which writes nothing.
\<close>

definition ExtentLayout_Init ::
  "(u64 \<Rightarrow> u64) \<Rightarrow> (u64 \<Rightarrow> u16) \<Rightarrow> shm_sizes \<Rightarrow> shm_memory \<Rightarrow> u64 \<Rightarrow> ExtentOption \<Rightarrow> ExtentLayout \<Rightarrow> (bool \<times> ExtentLayout) option" where
  "ExtentLayout_Init bit_ceil junk sz M this opt l =
     (if el_inited l then Some (True, l)
      else if eo_base_addr opt = 0 then Some (False, l)
      else do {
        let l = l\<lparr>el_magic_header := EXTENT_MAGIC_HEADER, el_segment_offset := eo_offset opt, el_space_size := eo_size opt,
                  el_block_num := ucast (eo_block_num opt), el_block_buffer_size := ucast (eo_block_size opt)\<rparr>;
        let schema = RteRing_GetStorageSchema bit_ceil 2 \<lparr>schema_fields = []\<rparr> (ucast (el_block_num l));
        let storage = PlacementStorage_resize empty_placement (StorageSchema_FieldSize schema);
        (storage, l) \<leftarrow> extent_place_fields junk sz M this (schema_fields schema) 0 storage l;
        (_, ring) \<leftarrow> RteRing_Init bit_ceil 2 0 None (el_free_block_ids l) (el_block_num l) False False storage;
        ring \<leftarrow> fill_block_ids (ucast (el_block_num l)) 0 ring;
        let l = l\<lparr>el_free_block_ids := ring\<rparr>;
        let (blocks, l) = ExtentLayout_Allocate sz this (sizeof_Block sz * ucast (el_block_num l)) l;
        l \<leftarrow> (if mapped M blocks (sizeof_Block sz * ucast (el_block_num l))
              then Some (l\<lparr>el_blocks := replicate (unat (el_block_num l)) Block_new\<rparr>) else None);
        let l = l\<lparr>el_block_offset := ucast (blocks - extent_data sz this)\<rparr>;
        let (block_buffer_base, l) = ExtentLayout_Allocate sz this (ucast (el_block_buffer_size l * el_block_num l)) l;
        let l = l\<lparr>el_block_buffer_offset := ucast (block_buffer_base - extent_data sz this)\<rparr>;
        Some (True, l\<lparr>el_inited := True\<rparr>) })"

definition BlockTableAddr :: "shm_sizes \<Rightarrow> u64 \<Rightarrow> ExtentLayout \<Rightarrow> u64" where
  "BlockTableAddr sz this l = extent_data sz this + ucast (el_block_offset l)"

definition BlockBufferBaseAddr :: "shm_sizes \<Rightarrow> u64 \<Rightarrow> ExtentLayout \<Rightarrow> u64" where
  "BlockBufferBaseAddr sz this l = extent_data sz this + ucast (el_block_buffer_offset l)"

section \<open>ExtentMetadata\<close>

record ExtentMetadata =
  em_layout :: u64
  em_block_table :: u64

definition GetBlock :: "shm_sizes \<Rightarrow> ExtentMetadata \<Rightarrow> u32 \<Rightarrow> u64" where
  "GetBlock sz em index = em_block_table em + ucast index * sizeof_Block sz"

definition GetFreeBlockIndex :: "u32 \<Rightarrow> ExtentLayout \<Rightarrow> (bool \<times> u32 \<times> ExtentLayout) option" where
  "GetFreeBlockIndex index l = do {
     (ret, ids, _, ring) \<leftarrow> DoDequeue (el_free_block_ids l) [0] 1 True;
     let l = l\<lparr>el_free_block_ids := ring\<rparr>;
     if ret = 0 then Some (False, index, l)
     else do {
       id \<leftarrow> mem_read ids 0;
       Some (True, ucast id, l) } }"

definition PutFreeBlockIndex :: "u32 \<Rightarrow> ExtentLayout \<Rightarrow> bool \<times> ExtentLayout" where
  "PutFreeBlockIndex index l = (True, l)"

definition ExtentMetadata_TryLockForRead :: "u32 \<Rightarrow> ExtentLayout \<Rightarrow> bool \<times> ExtentLayout" where
  "ExtentMetadata_TryLockForRead index l = (True, l)"

definition ExtentMetadata_ReleaseReadLock :: "u32 \<Rightarrow> ExtentLayout \<Rightarrow> bool \<times> ExtentLayout" where
  "ExtentMetadata_ReleaseReadLock index l = (True, l)"

section \<open>Extent\<close>

record WritableBlock =
  wb_extent_index :: u16
  wb_block_index :: u32
  wb_block :: u64
  wb_buf :: u64

definition WritableBlock_new :: WritableBlock where
  "WritableBlock_new = \<lparr>wb_extent_index = 0, wb_block_index = 0, wb_block = 0, wb_buf = 0\<rparr>"

record Extent =
  ex_init :: bool
  ex_channel_id :: u64
  ex_metadata :: ExtentMetadata
  ex_block_buf_addrs :: "u64 list"
  ex_expand_increment :: u32
  ex_page_size :: u64

definition Extent_new :: "u64 \<Rightarrow> Extent" where
  "Extent_new page_size = \<lparr>ex_init = False, ex_channel_id = 0, ex_metadata = \<lparr>em_layout = 0, em_block_table = 0\<rparr>,
     ex_block_buf_addrs = [], ex_expand_increment = 0, ex_page_size = page_size\<rparr>"

text \<open>\<open>for (; i < metadata_.BlockNum(); ++i) block_buf_addrs_[i] = tmp_addr + i * metadata_.BlockBufferSize();\<close>\<close>

partial_function (option) buf_addr_loop :: "u64 \<Rightarrow> u32 \<Rightarrow> u32 \<Rightarrow> u32 \<Rightarrow> u64 list \<Rightarrow> u64 list option" where
  "buf_addr_loop tmp_addr buffer_size num i addrs =
     (if i < num then do {
        addrs \<leftarrow> mem_write addrs (unat i) (tmp_addr + ucast (i * buffer_size));
        buf_addr_loop tmp_addr buffer_size num (i + 1) addrs }
      else Some addrs)"

definition Extent_Initialize :: "shm_sizes \<Rightarrow> u64 \<Rightarrow> ExtentLayout \<Rightarrow> Extent \<Rightarrow> (bool \<times> Extent) option" where
  "Extent_Initialize sz extent_base_addr l ex =
     (if ex_init ex then Some (True, ex)
      else do {
        let ex = ex\<lparr>ex_metadata := \<lparr>em_layout = extent_base_addr, em_block_table = BlockTableAddr sz extent_base_addr l\<rparr>\<rparr>;
        let tmp_addr = BlockBufferBaseAddr sz extent_base_addr l;
        addrs \<leftarrow> buf_addr_loop tmp_addr (el_block_buffer_size l) (el_block_num l) 0
                   (vec_resize 0 (ex_block_buf_addrs ex) (unat (el_block_num l)));
        Some (True, ex\<lparr>ex_block_buf_addrs := addrs, ex_init := True\<rparr>) })"

text \<open>The argument is \<open>None\<close> for \<open>nullptr\<close>; the result has what is written through the pointer.\<close>

definition Extent_AcquireBlockToWrite ::
  "shm_sizes \<Rightarrow> Extent \<Rightarrow> u64 \<Rightarrow> WritableBlock option \<Rightarrow> ExtentLayout \<Rightarrow> (bool \<times> WritableBlock option \<times> ExtentLayout) option" where
  "Extent_AcquireBlockToWrite sz ex msg_size writable_block l = (case writable_block of
       None \<Rightarrow> Some (False, None, l)
     | Some wb \<Rightarrow> do {
         (ok, index, l) \<leftarrow> GetFreeBlockIndex 0 l;
         if \<not> ok then Some (False, Some wb, l)
         else do {
           buf \<leftarrow> mem_read (ex_block_buf_addrs ex) (unat index);
           Some (True, Some \<lparr>wb_extent_index = el_extent_index l, wb_block_index = index,
                             wb_block = GetBlock sz (ex_metadata ex) index, wb_buf = buf\<rparr>, l) } })"

definition Extent_ReleaseWrittenBlock :: "WritableBlock \<Rightarrow> ExtentLayout \<Rightarrow> ExtentLayout" where
  "Extent_ReleaseWrittenBlock wb l = snd (PutFreeBlockIndex (wb_block_index wb) l)"

definition Extent_AcquireBlockToRead ::
  "shm_sizes \<Rightarrow> Extent \<Rightarrow> WritableBlock option \<Rightarrow> ExtentLayout \<Rightarrow> (bool \<times> WritableBlock option \<times> ExtentLayout) option" where
  "Extent_AcquireBlockToRead sz ex readable_block l = (case readable_block of
       None \<Rightarrow> Some (False, None, l)
     | Some rb \<Rightarrow> (let index = wb_block_index rb; (ok, l) = ExtentMetadata_TryLockForRead index l in
         if \<not> ok then Some (False, Some rb, l)
         else do {
           buf \<leftarrow> mem_read (ex_block_buf_addrs ex) (unat index);
           Some (True, Some (rb\<lparr>wb_block := GetBlock sz (ex_metadata ex) index, wb_buf := buf\<rparr>), l) }))"

definition Extent_ReleaseReadBlock :: "WritableBlock \<Rightarrow> ExtentLayout \<Rightarrow> ExtentLayout" where
  "Extent_ReleaseReadBlock rb l = snd (ExtentMetadata_ReleaseReadLock (wb_block_index rb) l)"

definition Extent_GetBlockNum :: "ExtentLayout \<Rightarrow> u32" where
  "Extent_GetBlockNum l = el_block_num l"

end
