(* ===== verification/BlockLock.thy ===== *)
theory BlockLock
  imports Extent
begin

text \<open>
  The locking of a block, \<open>shm/impl/block.cc\<close>: \<open>TryLockForWrite\<close> and \<open>TryLockForRead\<close> look at the flag and the count of readers under the
  block's \<open>PthreadRWLock\<close>; the two releases change them without the lock. First the calls as one thread runs them, then any number of threads, each
  load, store and addition being a step. The lock is what \<open>pthread_rwlock_t\<close> documents: a writer excludes all others, readers exclude writers.
\<close>

definition TryLockForWrite :: "Block \<Rightarrow> bool \<times> Block" where
  "TryLockForWrite b =
     (if bk_is_writing b then (False, b)
      else if bk_reading_reference_counts b \<noteq> 0 then (False, b)
      else (True, b\<lparr>bk_is_writing := True\<rparr>))"

definition TryLockForRead :: "Block \<Rightarrow> bool \<times> Block" where
  "TryLockForRead b =
     (if bk_is_writing b then (False, b)
      else (True, b\<lparr>bk_reading_reference_counts := bk_reading_reference_counts b + 1\<rparr>))"

definition ReleaseWriteLock :: "Block \<Rightarrow> Block" where
  "ReleaseWriteLock b = b\<lparr>bk_is_writing := False\<rparr>"

definition ReleaseReadLock :: "Block \<Rightarrow> Block" where
  "ReleaseReadLock b = b\<lparr>bk_reading_reference_counts := bk_reading_reference_counts b - 1\<rparr>"

section \<open>Interleavings\<close>

text \<open>
  Where a thread is: outside, in \<open>TryLockForWrite\<close> or \<open>TryLockForRead\<close> before the named access (with the lock), about to give the lock back
  with the result of the call, or between a successful call and the release.
\<close>

datatype block_pc = BIdle | WLoadFlag | WLoadCount | WStore | WUnlock bool | BWriting | RLoadFlag | RAdd | RUnlock bool | BReading

record block_threads =
  bt_block :: Block
  bt_pc :: "nat \<Rightarrow> block_pc"

definition w_locked :: "block_pc \<Rightarrow> bool" where
  "w_locked p \<longleftrightarrow> (case p of WLoadFlag \<Rightarrow> True | WLoadCount \<Rightarrow> True | WStore \<Rightarrow> True | WUnlock _ \<Rightarrow> True | _ \<Rightarrow> False)"

definition r_locked :: "block_pc \<Rightarrow> bool" where
  "r_locked p \<longleftrightarrow> (case p of RLoadFlag \<Rightarrow> True | RAdd \<Rightarrow> True | RUnlock _ \<Rightarrow> True | _ \<Rightarrow> False)"

abbreviation goes :: "block_threads \<Rightarrow> nat \<Rightarrow> block_pc \<Rightarrow> block_threads" where
  "goes s t p \<equiv> s\<lparr>bt_pc := (bt_pc s)(t := p)\<rparr>"

inductive block_step :: "nat \<Rightarrow> block_threads \<Rightarrow> block_threads \<Rightarrow> bool" for N where
  w_lock: "t < N \<Longrightarrow> bt_pc s t = BIdle \<Longrightarrow> \<forall>u<N. \<not> w_locked (bt_pc s u) \<and> \<not> r_locked (bt_pc s u) \<Longrightarrow> block_step N s (goes s t WLoadFlag)"
| w_flag: "t < N \<Longrightarrow> bt_pc s t = WLoadFlag \<Longrightarrow>
    block_step N s (goes s t (if bk_is_writing (bt_block s) then WUnlock False else WLoadCount))"
| w_count: "t < N \<Longrightarrow> bt_pc s t = WLoadCount \<Longrightarrow>
    block_step N s (goes s t (if bk_reading_reference_counts (bt_block s) \<noteq> 0 then WUnlock False else WStore))"
| w_store: "t < N \<Longrightarrow> bt_pc s t = WStore \<Longrightarrow>
    block_step N s (goes (s\<lparr>bt_block := (bt_block s)\<lparr>bk_is_writing := True\<rparr>\<rparr>) t (WUnlock True))"
| w_unlock: "t < N \<Longrightarrow> bt_pc s t = WUnlock ok \<Longrightarrow> block_step N s (goes s t (if ok then BWriting else BIdle))"
| w_release: "t < N \<Longrightarrow> bt_pc s t = BWriting \<Longrightarrow> block_step N s (goes (s\<lparr>bt_block := ReleaseWriteLock (bt_block s)\<rparr>) t BIdle)"
| r_lock: "t < N \<Longrightarrow> bt_pc s t = BIdle \<Longrightarrow> \<forall>u<N. \<not> w_locked (bt_pc s u) \<Longrightarrow> block_step N s (goes s t RLoadFlag)"
| r_flag: "t < N \<Longrightarrow> bt_pc s t = RLoadFlag \<Longrightarrow>
    block_step N s (goes s t (if bk_is_writing (bt_block s) then RUnlock False else RAdd))"
| r_add: "t < N \<Longrightarrow> bt_pc s t = RAdd \<Longrightarrow>
    block_step N s (goes (s\<lparr>bt_block := (bt_block s)\<lparr>bk_reading_reference_counts := bk_reading_reference_counts (bt_block s) + 1\<rparr>\<rparr>) t (RUnlock True))"
| r_unlock: "t < N \<Longrightarrow> bt_pc s t = RUnlock ok \<Longrightarrow> block_step N s (goes s t (if ok then BReading else BIdle))"
| r_release: "t < N \<Longrightarrow> bt_pc s t = BReading \<Longrightarrow> block_step N s (goes (s\<lparr>bt_block := ReleaseReadLock (bt_block s)\<rparr>) t BIdle)"

inductive_cases block_stepE: "block_step N s s'"

definition block_start :: "block_threads" where
  "block_start = \<lparr>bt_block = Block_new, bt_pc = (\<lambda>_. BIdle)\<rparr>"

text \<open>Who has the block: from the store or addition on, until the release.\<close>

definition has_write :: "block_pc \<Rightarrow> bool" where
  "has_write p \<longleftrightarrow> p = WUnlock True \<or> p = BWriting"

definition has_read :: "block_pc \<Rightarrow> bool" where
  "has_read p \<longleftrightarrow> p = RUnlock True \<or> p = BReading"

definition readers :: "nat \<Rightarrow> block_threads \<Rightarrow> nat set" where
  "readers N s = {t. t < N \<and> has_read (bt_pc s t)}"

text \<open>Two threads at the same time; the relation is symmetric.\<close>

definition excludes :: "block_pc \<Rightarrow> block_pc \<Rightarrow> bool" where
  "excludes p q \<longleftrightarrow> w_locked p \<and> (w_locked q \<or> r_locked q) \<or> has_write p \<and> (has_write q \<or> has_read q \<or> q = RAdd)
     \<or> p = WStore \<and> has_read q \<or> p \<in> {WLoadCount, WStore} \<and> has_write q"

definition block_inv :: "nat \<Rightarrow> block_threads \<Rightarrow> bool" where
  "block_inv N s \<longleftrightarrow> (\<forall>t<N. \<forall>u<N. t \<noteq> u \<longrightarrow> \<not> excludes (bt_pc s t) (bt_pc s u))
   \<and> bk_reading_reference_counts (bt_block s) = of_nat (card (readers N s))
   \<and> (bk_is_writing (bt_block s) \<longleftrightarrow> (\<exists>t<N. has_write (bt_pc s t)))"

lemmas pc_defs = w_locked_def r_locked_def has_write_def has_read_def

lemma finite_readers [simp]: "finite (readers N s)"
  by (simp add: readers_def)

lemma readers_le: "card (readers N s) \<le> N"
  using card_mono [of "{..<N}" "readers N s"] by (auto simp: readers_def)

lemma readers_goes:
  assumes "t < N"
  shows "readers N (goes s t p) = (if has_read p then insert t (readers N s) else readers N s - {t})"
  using assms by (auto simp: readers_def)

lemma readers_block [simp]: "readers N (s\<lparr>bt_block := b\<rparr>) = readers N s"
  by (simp add: readers_def)

lemma zero_readers:
  assumes "N < 2 ^ 32"
  shows "(of_nat (card (readers N s)) :: u32) = 0 \<longleftrightarrow> readers N s = {}"
proof -
  have "unat (of_nat (card (readers N s)) :: u32) = card (readers N s)"
    using readers_le [of N s] assms by (intro unat_of_nat_small) simp
  then have "(of_nat (card (readers N s)) :: u32) = 0 \<longleftrightarrow> card (readers N s) = 0" unfolding word_unat_eq_iff by (simp only: unat_0)
  then show ?thesis by simp
qed

text \<open>A step of thread \<open>t\<close> to \<open>p\<close> keeps the invariant if \<open>p\<close> excludes no other thread, and flag and count follow.\<close>

lemma block_inv_goes:
  assumes "block_inv N s" and "t < N"
    and "\<And>u. u < N \<Longrightarrow> u \<noteq> t \<Longrightarrow> \<not> excludes (bt_pc s t) (bt_pc s u) \<Longrightarrow> \<not> excludes (bt_pc s u) (bt_pc s t) \<Longrightarrow>
      \<not> excludes p (bt_pc s u) \<and> \<not> excludes (bt_pc s u) p"
    and "bk_reading_reference_counts b = of_nat (card (readers N (goes s t p)))"
    and "bk_is_writing b \<longleftrightarrow> has_write p \<or> (\<exists>u<N. u \<noteq> t \<and> has_write (bt_pc s u))"
  shows "block_inv N (goes (s\<lparr>bt_block := b\<rparr>) t p)"
  using assms unfolding block_inv_def by (auto simp: readers_def)

lemma block_inv_pc:
  assumes "block_inv N s" and "t < N" and "has_read p = has_read (bt_pc s t)" and "has_write p = has_write (bt_pc s t)"
    and "\<And>u. u < N \<Longrightarrow> u \<noteq> t \<Longrightarrow> \<not> excludes (bt_pc s t) (bt_pc s u) \<Longrightarrow> \<not> excludes (bt_pc s u) (bt_pc s t) \<Longrightarrow>
      \<not> excludes p (bt_pc s u) \<and> \<not> excludes (bt_pc s u) p"
  shows "block_inv N (goes s t p)"
proof -
  have "readers N (goes s t p) = readers N s" using assms(2,3) by (auto simp: readers_def)
  then have "block_inv N (goes (s\<lparr>bt_block := bt_block s\<rparr>) t p)"
    using assms by (intro block_inv_goes) (auto simp: block_inv_def)
  then show ?thesis by simp
qed

lemmas pc_rules = excludes_def pc_defs

lemma block_step_inv:
  assumes N: "N < 2 ^ 32" and inv: "block_inv N s" and step: "block_step N s s'"
  shows "block_inv N s'"
proof -
  have flag: "\<not> bk_is_writing (bt_block s) \<Longrightarrow> u < N \<Longrightarrow> \<not> has_write (bt_pc s u)" for u using inv by (auto simp: block_inv_def)
  have cnt: "bk_reading_reference_counts (bt_block s) = of_nat (card (readers N s))" using inv by (simp add: block_inv_def)
  have free: "bk_reading_reference_counts (bt_block s) = 0 \<Longrightarrow> u < N \<Longrightarrow> \<not> has_read (bt_pc s u)" for u
    using cnt zero_readers [OF N, of s] by (auto simp: readers_def)
  have alone: "has_write (bt_pc s t) \<Longrightarrow> t < N \<Longrightarrow> u < N \<Longrightarrow> u \<noteq> t \<Longrightarrow> \<not> has_write (bt_pc s u)" for t u
    using inv by (auto simp: block_inv_def excludes_def)
  have others: "bk_is_writing (bt_block s) \<longleftrightarrow> (\<exists>u<N. u \<noteq> t \<and> has_write (bt_pc s u))" if "\<not> has_write (bt_pc s t)" for t
    using inv that by (auto simp: block_inv_def)
  from step show ?thesis
  proof cases
    case (w_lock t)
    show ?thesis unfolding w_lock(1) using w_lock(2-) inv by (intro block_inv_pc) (auto simp: pc_rules split: block_pc.splits)
  next
    case (w_flag t)
    show ?thesis unfolding w_flag(1) using w_flag(2-) inv flag by (intro block_inv_pc) (auto simp: pc_rules split: block_pc.splits)
  next
    case (w_count t)
    show ?thesis unfolding w_count(1) using w_count(2-) inv free by (intro block_inv_pc) (auto simp: pc_rules split: block_pc.splits)
  next
    case (w_store t)
    show ?thesis unfolding w_store(1)
      using w_store(2-) inv cnt readers_goes [of t N s "WUnlock True"]
      by (intro block_inv_goes) (auto simp: pc_rules readers_def split: block_pc.splits)
  next
    case (w_unlock t ok)
    show ?thesis unfolding w_unlock(1) using w_unlock(2-) inv by (intro block_inv_pc) (auto simp: pc_rules split: block_pc.splits)
  next
    case (w_release t)
    show ?thesis unfolding w_release(1)
      using w_release(2-) inv cnt readers_goes [of t N s BIdle] alone [of t]
      by (intro block_inv_goes) (auto simp: pc_rules readers_def ReleaseWriteLock_def split: block_pc.splits)
  next
    case (r_lock t)
    show ?thesis unfolding r_lock(1) using r_lock(2-) inv by (intro block_inv_pc) (auto simp: pc_rules split: block_pc.splits)
  next
    case (r_flag t)
    show ?thesis unfolding r_flag(1) using r_flag(2-) inv flag by (intro block_inv_pc) (auto simp: pc_rules split: block_pc.splits)
  next
    case (r_add t)
    have "card (readers N (goes s t (RUnlock True))) = Suc (card (readers N s))"
      using r_add by (simp add: readers_goes) (simp add: has_read_def readers_def)
    then have "bk_reading_reference_counts (bt_block s) + 1 = of_nat (card (readers N (goes s t (RUnlock True))))" by (simp add: cnt)
    moreover have "bk_is_writing (bt_block s) \<longleftrightarrow> has_write (RUnlock True) \<or> (\<exists>u<N. u \<noteq> t \<and> has_write (bt_pc s u))"
      using others [of t] r_add(3) by (simp add: has_write_def)
    ultimately show ?thesis unfolding r_add(1)
      by (intro block_inv_goes [OF inv r_add(2)]) (simp_all add: pc_rules r_add(3) split: block_pc.splits)
  next
    case (r_unlock t ok)
    show ?thesis unfolding r_unlock(1) using r_unlock(2-) inv by (intro block_inv_pc) (auto simp: pc_rules split: block_pc.splits)
  next
    case (r_release t)
    have "t \<in> readers N s" using r_release by (simp add: readers_def has_read_def)
    then have "card (readers N s) = Suc (card (readers N (goes s t BIdle)))"
      using r_release card_Suc_Diff1 [of "readers N s" t] by (simp add: readers_goes has_read_def)
    then have "bk_reading_reference_counts (bt_block s) - 1 = of_nat (card (readers N (goes s t BIdle)))" by (simp add: cnt)
    moreover have "bk_is_writing (bt_block s) \<longleftrightarrow> has_write BIdle \<or> (\<exists>u<N. u \<noteq> t \<and> has_write (bt_pc s u))"
      using others [of t] r_release(3) by (simp add: has_write_def)
    ultimately show ?thesis unfolding r_release(1) ReleaseReadLock_def
      by (intro block_inv_goes [OF inv r_release(2)]) (simp_all add: pc_rules r_release(3) split: block_pc.splits)
  qed
qed

lemma reachable_inv:
  assumes "(block_step N)\<^sup>*\<^sup>* block_start s" and "N < 2 ^ 32"
  shows "block_inv N s"
  using assms(1)
proof (induction rule: rtranclp_induct)
  case base
  show ?case by (simp add: block_inv_def block_start_def readers_def pc_rules Block_new_def)
next
  case (step s s')
  then show ?case using block_step_inv [OF assms(2)] by blast
qed

text \<open>A call that nobody disturbs does what the call of one thread does.\<close>

lemma TryLockForWrite_steps:
  assumes t: "t < N" and "bt_pc s t = BIdle" and "\<forall>u<N. \<not> w_locked (bt_pc s u) \<and> \<not> r_locked (bt_pc s u)"
  shows "(block_step N)\<^sup>*\<^sup>* s (case TryLockForWrite (bt_block s) of (ok, b) \<Rightarrow> goes (s\<lparr>bt_block := b\<rparr>) t (if ok then BWriting else BIdle))"
proof -
  let ?b = "(bt_block s)\<lparr>bk_is_writing := True\<rparr>"
  have 1: "block_step N s (goes s t WLoadFlag)" using assms by (rule block_step.w_lock)
  have 2: "block_step N (goes s t WLoadFlag) (goes s t (if bk_is_writing (bt_block s) then WUnlock False else WLoadCount))"
    using block_step.w_flag [OF t, of "goes s t WLoadFlag"] by simp
  have 3: "block_step N (goes s t WLoadCount) (goes s t (if bk_reading_reference_counts (bt_block s) \<noteq> 0 then WUnlock False else WStore))"
    using block_step.w_count [OF t, of "goes s t WLoadCount"] by simp
  have 4: "block_step N (goes s t WStore) (goes (s\<lparr>bt_block := ?b\<rparr>) t (WUnlock True))"
    using block_step.w_store [OF t, of "goes s t WStore"] by simp
  have 5: "block_step N (goes s t (WUnlock ok)) (goes s t (if ok then BWriting else BIdle))" for s ok
    using block_step.w_unlock [OF t, of "goes s t (WUnlock ok)" ok] by simp
  show ?thesis
    using 1 2 3 4 5 [of s False] 5 [of "s\<lparr>bt_block := ?b\<rparr>" True]
    by (auto simp: TryLockForWrite_def split: if_splits intro: converse_rtranclp_into_rtranclp)
qed

lemma TryLockForRead_steps:
  assumes t: "t < N" and "bt_pc s t = BIdle" and "\<forall>u<N. \<not> w_locked (bt_pc s u)"
  shows "(block_step N)\<^sup>*\<^sup>* s (case TryLockForRead (bt_block s) of (ok, b) \<Rightarrow> goes (s\<lparr>bt_block := b\<rparr>) t (if ok then BReading else BIdle))"
proof -
  let ?b = "(bt_block s)\<lparr>bk_reading_reference_counts := bk_reading_reference_counts (bt_block s) + 1\<rparr>"
  have 1: "block_step N s (goes s t RLoadFlag)" using assms by (rule block_step.r_lock)
  have 2: "block_step N (goes s t RLoadFlag) (goes s t (if bk_is_writing (bt_block s) then RUnlock False else RAdd))"
    using block_step.r_flag [OF t, of "goes s t RLoadFlag"] by simp
  have 3: "block_step N (goes s t RAdd) (goes (s\<lparr>bt_block := ?b\<rparr>) t (RUnlock True))"
    using block_step.r_add [OF t, of "goes s t RAdd"] by simp
  have 4: "block_step N (goes s t (RUnlock ok)) (goes s t (if ok then BReading else BIdle))" for s ok
    using block_step.r_unlock [OF t, of "goes s t (RUnlock ok)" ok] by simp
  show ?thesis
    using 1 2 3 4 [of s False] 4 [of "s\<lparr>bt_block := ?b\<rparr>" True]
    by (auto simp: TryLockForRead_def split: if_splits intro: converse_rtranclp_into_rtranclp)
qed

text \<open>
  C11: Locking a block is exclusive: in every interleaving of any number of threads that try to lock the block for writing or reading and
  release it, at most one thread has it for writing, and none has it for reading at the same time; the flag says whether some thread has
  it for writing, and the count is the number of threads that have it for reading (up to their number exceeding 32 bits).
\<close>

theorem block_lock_exclusion:
  assumes "(block_step N)\<^sup>*\<^sup>* block_start s" and "N < 2 ^ 32"
  shows "(\<forall>t<N. \<forall>u<N. bt_pc s t = BWriting \<and> t \<noteq> u \<longrightarrow> bt_pc s u \<noteq> BWriting \<and> bt_pc s u \<noteq> BReading)
    \<and> (bk_is_writing (bt_block s) \<longleftrightarrow> (\<exists>t<N. has_write (bt_pc s t)))
    \<and> unat (bk_reading_reference_counts (bt_block s)) = card {t. t < N \<and> has_read (bt_pc s t)}"
proof -
  have inv: "block_inv N s" using assms by (rule reachable_inv)
  have "unat (of_nat (card (readers N s)) :: u32) = card (readers N s)"
    using readers_le [of N s] assms(2) by (intro unat_of_nat_small) simp
  then show ?thesis using inv unfolding block_inv_def readers_def [symmetric] by (auto simp: excludes_def has_write_def has_read_def)
qed

theorem block_lock_exclusion_witness:
  "\<exists>s. (block_step 2)\<^sup>*\<^sup>* block_start s \<and> bt_pc s 0 = BWriting \<and> bt_pc s 1 \<noteq> BWriting \<and> bt_pc s 1 \<noteq> BReading"
proof -
  let ?s = "goes (block_start\<lparr>bt_block := Block_new\<lparr>bk_is_writing := True\<rparr>\<rparr>) 0 BWriting"
  have r: "(block_step 2)\<^sup>*\<^sup>* block_start ?s"
    using TryLockForWrite_steps [of 0 2 block_start]
    by (simp add: TryLockForWrite_def block_start_def Block_new_def w_locked_def r_locked_def)
  have "(2::nat) < 2 ^ 32" by simp
  from block_lock_exclusion [OF r this, THEN conjunct1, rule_format, of 0 1] r show ?thesis by (intro exI [of _ ?s]) simp
qed

end
