(* ===== verification/Segment.thy ===== *)
theory Segment
  imports Extent FlatObjectQueue ShmObject
begin

text \<open>
  \<open>shm/impl/segment_state\<close>, \<open>shm/impl/segment_metadata\<close> and \<open>shm/impl/segment\<close>: a piece of shared memory with a pool of objects and an
  extent of blocks, which one process creates and others open.

  A process has a \<open>Segment\<close>, the layout lies in shared memory. \<open>shm_world\<close> is what the processes share: the operating system and the
  layout at each address (all processes attach a segment at the address its option names). The four virtual functions of
  \<open>Segment\<close> are the argument \<open>segment_port\<close>, which \<open>XsiSegment\<close> instantiates. What only the platform knows
  is in \<open>shm_platform\<close>: \<open>absl::bit_ceil\<close>, the sizes, what fresh memory holds, and \<open>sysconf(_SC_PAGESIZE)\<close>.
\<close>

record shm_platform =
  pf_bit_ceil :: "u64 \<Rightarrow> u64"
  pf_sizes :: shm_sizes
  pf_junk_u16 :: "u64 \<Rightarrow> u16"
  pf_junk_i32 :: "u64 \<Rightarrow> i32"
  pf_junk_object :: "u64 \<Rightarrow> ShmObject"
  pf_object :: ShmObject
  pf_page_size :: u64

section \<open>SegmentState\<close>

record SegmentState =
  ss_inited :: bool
  ss_shm_id :: i32
  ss_reference_count :: i32
  ss_seq :: u32
  ss_ceiling_msg_size :: u32
  ss_segment_base_addr :: u64
  ss_segment_size :: u64

definition SegmentState_new :: SegmentState where
  "SegmentState_new = \<lparr>ss_inited = False, ss_shm_id = 0, ss_reference_count = 0, ss_seq = 0, ss_ceiling_msg_size = 0,
     ss_segment_base_addr = 0, ss_segment_size = 0\<rparr>"

definition SetSegmentSpan :: "u64 \<Rightarrow> u64 \<Rightarrow> SegmentState \<Rightarrow> bool \<times> SegmentState" where
  "SetSegmentSpan base_addr n st =
     (if ss_inited st then (True, st) else (True, st\<lparr>ss_segment_base_addr := base_addr, ss_segment_size := n\<rparr>))"

definition SetBlockSize :: "u32 \<Rightarrow> SegmentState \<Rightarrow> SegmentState" where
  "SetBlockSize msg_size st = st\<lparr>ss_ceiling_msg_size := msg_size\<rparr>"

definition SegmentState_Init :: "bool \<Rightarrow> SegmentState \<Rightarrow> SegmentState" where
  "SegmentState_Init v st = st\<lparr>ss_inited := v\<rparr>"

definition SetShmId :: "i32 \<Rightarrow> SegmentState \<Rightarrow> SegmentState" where
  "SetShmId shm_id st = st\<lparr>ss_shm_id := shm_id\<rparr>"

definition SegmentState_GetSize :: "SegmentState \<Rightarrow> u64" where
  "SegmentState_GetSize st = ss_segment_size st"

definition FetchAddSeq :: "u32 \<Rightarrow> SegmentState \<Rightarrow> u32 \<times> SegmentState" where
  "FetchAddSeq diff st = (ss_seq st, st\<lparr>ss_seq := ss_seq st + diff\<rparr>)"

definition Seq :: "SegmentState \<Rightarrow> u32" where
  "Seq st = ss_seq st"

definition SegmentState_IncreaseReferenceCount :: "SegmentState \<Rightarrow> i32 \<times> SegmentState" where
  "SegmentState_IncreaseReferenceCount st =
     (ss_reference_count st + 1, st\<lparr>ss_reference_count := ss_reference_count st + 1\<rparr>)"

definition DecreaseReferenceCount :: "SegmentState \<Rightarrow> i32 \<times> SegmentState" where
  "DecreaseReferenceCount st =
     (ss_reference_count st - 1, st\<lparr>ss_reference_count := ss_reference_count st - 1\<rparr>)"

definition ReferenceCount :: "SegmentState \<Rightarrow> u32" where
  "ReferenceCount st = ss_reference_count st"

section \<open>SegmentLayout\<close>

definition SEGMENT_MAGIC_HEADER :: u64 where "SEGMENT_MAGIC_HEADER = 0x1F1F1F1F1F1F1F1F"

record SegmentOption =
  sopt_name :: string
  sopt_channel_id :: u64
  sopt_domain_id :: i32
  sopt_base_addr :: u64
  sopt_space_size :: u64
  sopt_block_num :: u64
  sopt_block_size :: u64

text \<open>\<open>sg_extent\<close> is the \<open>ExtentLayout\<close> at \<open>extent_offset\<close> of \<open>data\<close>.\<close>

record SegmentLayout =
  sg_magic_header :: u64
  sg_block_size :: u32
  sg_block_num :: u32
  sg_header_size :: u16
  sg_init :: bool
  sg_epoch :: u32
  sg_space_size :: u64
  sg_space_used :: u64
  sg_state :: SegmentState
  sg_object_pool :: "ShmObject flat_object_queue"
  sg_extent_offset :: u64
  sg_extent :: ExtentLayout

text \<open>The constructor; also what memory that is all zero reads as.\<close>

definition SegmentLayout_new :: SegmentLayout where
  "SegmentLayout_new = \<lparr>sg_magic_header = 0, sg_block_size = 0, sg_block_num = 0, sg_header_size = 0, sg_init = False, sg_epoch = 0,
     sg_space_size = 0, sg_space_used = 0, sg_state = SegmentState_new, sg_object_pool = FlatObjectQueue_new, sg_extent_offset = 0,
     sg_extent = ExtentLayout_new\<rparr>"

definition segment_data :: "shm_sizes \<Rightarrow> u64 \<Rightarrow> u64" where
  "segment_data sz this = this + offsetof_segment_data sz"

definition SegmentLayout_Allocate :: "shm_platform \<Rightarrow> u64 \<Rightarrow> u64 \<Rightarrow> u64 \<Rightarrow> SegmentLayout \<Rightarrow> u64 \<times> SegmentLayout" where
  "SegmentLayout_Allocate pf this n alignment l =
     (let alignment = pf_bit_ceil pf alignment;
          bytes = (n + alignment - 1) AND (- alignment)
      in (segment_data (pf_sizes pf) this + sg_space_used l, l\<lparr>sg_space_used := sg_space_used l + bytes\<rparr>))"

text \<open>
  \<open>for (size_t i = 0; i < schema.FieldSize(); ++i) storage.field_buffers[i].ptr = Allocate(...);\<close> The pool takes the first
  buffer for the ring of its ids, the others for objects.
\<close>

fun segment_place_fields :: "shm_platform \<Rightarrow> shm_memory \<Rightarrow> u64 \<Rightarrow> FieldBufferMetadata list \<Rightarrow> nat \<Rightarrow> SegmentLayout \<Rightarrow>
    (ShmObject pool_buffer list \<times> SegmentLayout) option" where
  "segment_place_fields pf M this [] i l = Some ([], l)"
| "segment_place_fields pf M this (f # fs) i l = do {
     let (p, l) = SegmentLayout_Allocate pf this (request_space_size f) 128 l;
     b \<leftarrow> (if i = 0
           then map_option (\<lambda>m. IdBuffer (default_field_buffer\<lparr>fb_ptr := Some m\<rparr>)) (cast_array (pf_junk_i32 pf) M 4 p (request_space_size f))
           else map_option (\<lambda>m. ObjectBuffer (default_field_buffer\<lparr>fb_ptr := Some m\<rparr>))
                  (cast_array (pf_junk_object pf) M (sizeof_ShmObject (pf_sizes pf)) p (request_space_size f)));
     (bs, l) \<leftarrow> segment_place_fields pf M this fs (Suc i) l;
     Some (b # bs, l) }"

definition SegmentLayout_Init :: "shm_platform \<Rightarrow> shm_memory \<Rightarrow> u64 \<Rightarrow> SegmentOption \<Rightarrow> SegmentLayout \<Rightarrow> SegmentLayout option" where
  "SegmentLayout_Init pf M this opt l =
     (if sg_init l then Some l
      else do {
        let l = l\<lparr>sg_header_size := ucast (sizeof_SegmentLayout (pf_sizes pf)), sg_magic_header := SEGMENT_MAGIC_HEADER,
                  sg_block_num := ucast (sopt_block_num opt), sg_block_size := ucast (sopt_block_size opt),
                  sg_space_size := sopt_space_size opt\<rparr>;
        let l = l\<lparr>sg_state := SetBlockSize (sg_block_size l) (snd (SetSegmentSpan this (sg_space_size l) (sg_state l)))\<rparr>;
        let schema = FlatObjectQueue_GetStorageSchema (pf_bit_ceil pf) (sizeof_ShmObject (pf_sizes pf)) \<lparr>schema_fields = []\<rparr>
                       (ucast (sg_block_num l));
        (storage, l) \<leftarrow> segment_place_fields pf M this (schema_fields schema) 0 l;
        (_, pool) \<leftarrow> FlatObjectQueue_Initialize (pf_bit_ceil pf) (pf_object pf) None (sg_object_pool l) (ucast (sg_block_num l)) storage;
        let l = l\<lparr>sg_object_pool := pool\<rparr>;
        let sz = ExtentLayout_GetRequestSize (pf_bit_ceil pf) (pf_sizes pf) (ucast (sg_block_num l)) (ucast (sg_block_size l));
        let (base_addr, l) = SegmentLayout_Allocate pf this sz 128 l;
        let l = l\<lparr>sg_extent_offset := base_addr - segment_data (pf_sizes pf) this\<rparr>;
        let extent_opt = \<lparr>eo_offset = sg_extent_offset l, eo_base_addr = base_addr, eo_size = sz,
                          eo_block_num = ucast (sg_block_num l), eo_block_size = ucast (sg_block_size l)\<rparr>;
        extent \<leftarrow> (if mapped M base_addr (sizeof_ExtentLayout (pf_sizes pf)) then Some ExtentLayout_new else None);
        (_, extent) \<leftarrow> ExtentLayout_Init (pf_bit_ceil pf) (pf_junk_u16 pf) (pf_sizes pf) M base_addr extent_opt extent;
        Some (l\<lparr>sg_extent := extent, sg_init := True\<rparr>) })"

definition GetExtentLayout :: "shm_sizes \<Rightarrow> u64 \<Rightarrow> SegmentLayout \<Rightarrow> u64" where
  "GetExtentLayout sz this l = segment_data sz this + sg_extent_offset l"

definition MakeExtent :: "shm_platform \<Rightarrow> u64 \<Rightarrow> SegmentLayout \<Rightarrow> Extent option" where
  "MakeExtent pf this l = do {
     let extent = Extent_new (pf_page_size pf);
     (_, extent) \<leftarrow> Extent_Initialize (pf_sizes pf) (GetExtentLayout (pf_sizes pf) this l) (sg_extent l) extent;
     Some extent }"

section \<open>Segment\<close>

text \<open>
  \<open>seg_metadata_layout\<close> is \<open>metadata_.layout\<close>; \<open>seg_extent\<close> is the object \<open>metadata_.extent\<close> owns and \<open>extent_\<close> points to. The
  last two members belong to \<open>XsiSegment\<close>.
\<close>

record Segment =
  seg_inited :: bool
  seg_open_flag :: bool
  seg_create_flag :: bool
  seg_shm_id :: i32
  seg_opt :: SegmentOption
  seg_metadata_layout :: u64
  seg_extent :: "Extent option"
  seg_segment_base_addr :: u64
  seg_head_protection_addr :: u64
  seg_managed_shm_header :: u64
  seg_page_size :: u64
  seg_key :: i32
  seg_path :: string

record 'o shm_world =
  sw_os :: 'o
  sw_layout :: "u64 \<Rightarrow> SegmentLayout"

record 'o segment_port =
  port_OpenOnly :: "Segment \<Rightarrow> 'o \<Rightarrow> bool \<times> Segment \<times> 'o"
  port_OpenOrCreate :: "Segment \<Rightarrow> 'o \<Rightarrow> bool \<times> Segment \<times> 'o"
  port_Remove :: "Segment \<Rightarrow> 'o \<Rightarrow> bool \<times> 'o"
  port_Reset :: "Segment \<Rightarrow> 'o \<Rightarrow> Segment \<times> 'o"

definition SegmentProtectionSpaceSize :: "shm_platform \<Rightarrow> Segment \<Rightarrow> u64 \<times> Segment" where
  "SegmentProtectionSpaceSize pf s =
     (let s = (if seg_page_size s = 0 then s\<lparr>seg_page_size := pf_page_size pf\<rparr> else s) in (seg_page_size s * 2, s))"

definition Segment_new :: "shm_platform \<Rightarrow> SegmentOption \<Rightarrow> Segment" where
  "Segment_new pf opt =
     (let s = \<lparr>seg_inited = False, seg_open_flag = False, seg_create_flag = False, seg_shm_id = 0, seg_opt = opt, seg_metadata_layout = 0,
               seg_extent = None, seg_segment_base_addr = 0, seg_head_protection_addr = 0, seg_managed_shm_header = 0,
               seg_page_size = pf_page_size pf, seg_key = - 1, seg_path = []\<rparr>;
          (n, s) = SegmentProtectionSpaceSize pf s
      in s\<lparr>seg_opt := opt\<lparr>sopt_space_size := sopt_space_size opt + n\<rparr>\<rparr>)"

definition TotalSegmentSpaceSize :: "Segment \<Rightarrow> u64" where
  "TotalSegmentSpaceSize s = sopt_space_size (seg_opt s)"

text \<open>Division by a block size of zero is \<open>None\<close>.\<close>

definition InitPreOpen :: "shm_platform \<Rightarrow> Segment \<Rightarrow> (bool \<times> Segment) option" where
  "InitPreOpen pf s =
     (let s = (if seg_page_size s = 0 then s\<lparr>seg_page_size := pf_page_size pf\<rparr> else s);
          (prot, s) = SegmentProtectionSpaceSize pf s;
          opt = seg_opt s
      in if sopt_space_size opt < prot then Some (False, s)
         else if sopt_block_size opt = 0 then None
         else let block_num = (ucast ((sopt_space_size opt - prot) div sopt_block_size opt) :: u32);
                  s = (if (ucast block_num :: u64) < sopt_block_num opt \<or> sopt_block_num opt = 0
                       then s\<lparr>seg_opt := opt\<lparr>sopt_block_num := ucast block_num\<rparr>\<rparr> else s)
              in Some (True, s\<lparr>seg_segment_base_addr := sopt_base_addr opt\<rparr>))"

text \<open>The writable part of the attached memory: between the protected first and last page.\<close>

definition segment_memory :: "Segment \<Rightarrow> shm_memory" where
  "segment_memory s = \<lparr>mm_first = seg_managed_shm_header s,
     mm_end = seg_head_protection_addr s + TotalSegmentSpaceSize s - seg_page_size s\<rparr>"

definition InitPostCreate :: "shm_platform \<Rightarrow> Segment \<Rightarrow> 'o shm_world \<Rightarrow> (bool \<times> Segment \<times> 'o shm_world) option" where
  "InitPostCreate pf s w = do {
     let a = seg_managed_shm_header s;
     let M = segment_memory s;
     layout \<leftarrow> (if mapped M a (sizeof_SegmentLayout (pf_sizes pf)) then Some SegmentLayout_new else None);
     layout \<leftarrow> SegmentLayout_Init pf M a (seg_opt s) layout;
     extent \<leftarrow> MakeExtent pf a layout;
     let s = s\<lparr>seg_metadata_layout := a, seg_extent := Some extent\<rparr>;
     let st = snd (SegmentState_IncreaseReferenceCount (sg_state layout));
     let st = SegmentState_Init True (SetShmId (seg_shm_id s) st);
     Some (True, s, w\<lparr>sw_layout := (sw_layout w)(a := layout\<lparr>sg_state := st\<rparr>)\<rparr>) }"

text \<open>
  The wait for the creator: \<open>retry_times\<close> goes up twice per round. \<open>others i\<close> is what the other processes do while this one sleeps.
\<close>

function wait_created :: "(nat \<Rightarrow> 'o shm_world \<Rightarrow> 'o shm_world) \<Rightarrow> u64 \<Rightarrow> nat \<Rightarrow> 'o shm_world \<Rightarrow> bool \<times> 'o shm_world" where
  "wait_created others a retry_times w =
     (if ss_inited (sg_state (sw_layout w a)) then (True, w)
      else let w = others retry_times w; retry_times = retry_times + 1; retry_times = retry_times + 1 in
        if retry_times > 2000 then (False, w) else wait_created others a retry_times w)"
  by pat_completeness auto

termination wait_created
  by (relation "measure (\<lambda>(others, a, retry_times, w). 2001 - retry_times)") auto

declare wait_created.simps [simp del]

definition InitPostOpen :: "shm_platform \<Rightarrow> (nat \<Rightarrow> 'o shm_world \<Rightarrow> 'o shm_world) \<Rightarrow> Segment \<Rightarrow> 'o shm_world \<Rightarrow>
    (bool \<times> Segment \<times> 'o shm_world) option" where
  "InitPostOpen pf others s w = do {
     let a = seg_managed_shm_header s;
     let s = s\<lparr>seg_metadata_layout := a\<rparr>;
     let (ok, w) = wait_created others a 0 w;
     if \<not> ok then Some (False, s, w)
     else do {
       let layout = sw_layout w a;
       extent \<leftarrow> MakeExtent pf a layout;
       let s = s\<lparr>seg_extent := Some extent\<rparr>;
       let st = snd (SegmentState_IncreaseReferenceCount (sg_state layout));
       Some (True, s, w\<lparr>sw_layout := (sw_layout w)(a := layout\<lparr>sg_state := st\<rparr>)\<rparr>) } }"

text \<open>\<open>Initialize\<close> does not look at the result of \<open>InitPreOpen\<close>.\<close>

definition Segment_Initialize :: "shm_platform \<Rightarrow> 'o segment_port \<Rightarrow> (nat \<Rightarrow> 'o shm_world \<Rightarrow> 'o shm_world) \<Rightarrow> bool \<Rightarrow> Segment \<Rightarrow>
    'o shm_world \<Rightarrow> (bool \<times> Segment \<times> 'o shm_world) option" where
  "Segment_Initialize pf port others create s w =
     (if seg_inited s then Some (True, s, w)
      else do {
        (_, s) \<leftarrow> InitPreOpen pf s;
        let (ret, s, os) = (if create then port_OpenOrCreate port s (sw_os w) else port_OpenOnly port s (sw_os w));
        let w = w\<lparr>sw_os := os\<rparr>;
        if \<not> ret then Some (False, s, w)
        else do {
          (ret, s, w) \<leftarrow> (if seg_create_flag s then InitPostCreate pf s w else InitPostOpen pf others s w);
          if \<not> ret then Some (False, s, w) else Some (True, s\<lparr>seg_inited := True\<rparr>, w) } })"

definition Segment_BlockNum :: "Segment \<Rightarrow> 'o shm_world \<Rightarrow> u32" where
  "Segment_BlockNum s w = sg_block_num (sw_layout w (seg_metadata_layout s))"

definition FreeShmObjectNum :: "Segment \<Rightarrow> 'o shm_world \<Rightarrow> u32" where
  "FreeShmObjectNum s w = FlatObjectQueue_FreeNum (sg_object_pool (sw_layout w (seg_metadata_layout s)))"

definition CeilingMsgSize :: "Segment \<Rightarrow> 'o shm_world \<Rightarrow> u32" where
  "CeilingMsgSize s w = ss_ceiling_msg_size (sg_state (sw_layout w (seg_metadata_layout s)))"

text \<open>The lazy initialisation at the head of the calls below; \<open>k\<close> is the rest of the call, \<open>fail\<close> its result on failure.\<close>

definition ensure_inited :: "shm_platform \<Rightarrow> 'o segment_port \<Rightarrow> (nat \<Rightarrow> 'o shm_world \<Rightarrow> 'o shm_world) \<Rightarrow> bool \<Rightarrow> 'r \<Rightarrow>
    (Segment \<Rightarrow> 'o shm_world \<Rightarrow> ('r \<times> Segment \<times> 'o shm_world) option) \<Rightarrow> Segment \<Rightarrow> 'o shm_world \<Rightarrow> ('r \<times> Segment \<times> 'o shm_world) option" where
  "ensure_inited pf port others create fail k s w =
     (if seg_inited s then k s w
      else do {
        (ret, s, w) \<leftarrow> Segment_Initialize pf port others create s w;
        if \<not> ret then Some (fail, s, w) else k s w })"

definition Segment_NewObject :: "shm_platform \<Rightarrow> 'o segment_port \<Rightarrow> (nat \<Rightarrow> 'o shm_world \<Rightarrow> 'o shm_world) \<Rightarrow> Segment \<Rightarrow> 'o shm_world \<Rightarrow>
    (int option \<times> Segment \<times> 'o shm_world) option" where
  "Segment_NewObject pf port others = ensure_inited pf port others True None (\<lambda>s w. do {
     let a = seg_metadata_layout s;
     (obj, pool) \<leftarrow> FlatObjectQueue_Get (sg_object_pool (sw_layout w a));
     Some (obj, s, w\<lparr>sw_layout := (sw_layout w)(a := (sw_layout w a)\<lparr>sg_object_pool := pool\<rparr>)\<rparr>) })"

definition Segment_PutObject :: "shm_platform \<Rightarrow> int \<Rightarrow> Segment \<Rightarrow> 'o shm_world \<Rightarrow> (int \<times> 'o shm_world) option" where
  "Segment_PutObject pf object s w = do {
     let a = seg_metadata_layout s;
     (r, pool) \<leftarrow> FlatObjectQueue_Put (pf_object pf) (sg_object_pool (sw_layout w a)) object;
     Some (r, w\<lparr>sw_layout := (sw_layout w)(a := (sw_layout w a)\<lparr>sg_object_pool := pool\<rparr>)\<rparr>) }"

definition Segment_GetBlock :: "u64 \<Rightarrow> WritableBlock \<Rightarrow> bool \<times> WritableBlock" where
  "Segment_GetBlock buffer block = (True, block)"

definition AllocateBlock :: "ShmObject \<Rightarrow> bool \<times> ShmObject" where
  "AllocateBlock object = (True, object)"

definition Segment_DeleteObject :: "int \<Rightarrow> 'o shm_world \<Rightarrow> 'o shm_world" where
  "Segment_DeleteObject object w = w"

text \<open>The extent of the segment at work: \<open>extent_->...\<close>, \<open>None\<close> when \<open>extent_\<close> is null.\<close>

definition with_extent :: "(Extent \<Rightarrow> ExtentLayout \<Rightarrow> (bool \<times> WritableBlock option \<times> ExtentLayout) option) \<Rightarrow> Segment \<Rightarrow> 'o shm_world \<Rightarrow>
    ((bool \<times> WritableBlock option) \<times> Segment \<times> 'o shm_world) option" where
  "with_extent call s w = do {
     ex \<leftarrow> seg_extent s;
     let a = seg_metadata_layout s;
     (ok, b, el) \<leftarrow> call ex (sg_extent (sw_layout w a));
     Some ((ok, b), s, w\<lparr>sw_layout := (sw_layout w)(a := (sw_layout w a)\<lparr>sg_extent := el\<rparr>)\<rparr>) }"

definition Segment_AcquireBlockToWrite :: "shm_platform \<Rightarrow> 'o segment_port \<Rightarrow> (nat \<Rightarrow> 'o shm_world \<Rightarrow> 'o shm_world) \<Rightarrow> u64 \<Rightarrow>
    WritableBlock option \<Rightarrow> Segment \<Rightarrow> 'o shm_world \<Rightarrow> ((bool \<times> WritableBlock option) \<times> Segment \<times> 'o shm_world) option" where
  "Segment_AcquireBlockToWrite pf port others msg_size writable_block s w =
     (if writable_block = None then Some ((False, None), s, w)
      else ensure_inited pf port others True (False, writable_block) (\<lambda>s w.
        if (ucast (CeilingMsgSize s w) :: u64) < msg_size then Some ((False, writable_block), s, w)
        else with_extent (\<lambda>ex l. Extent_AcquireBlockToWrite (pf_sizes pf) ex msg_size writable_block l) s w) s w)"

definition Segment_ReleaseWrittenBlock :: "WritableBlock \<Rightarrow> Segment \<Rightarrow> 'o shm_world \<Rightarrow> 'o shm_world option" where
  "Segment_ReleaseWrittenBlock wb s w =
     map_option (snd \<circ> snd) (with_extent (\<lambda>ex l. Some (True, None, Extent_ReleaseWrittenBlock wb l)) s w)"

definition Segment_AcquireBlockToRead :: "shm_platform \<Rightarrow> 'o segment_port \<Rightarrow> (nat \<Rightarrow> 'o shm_world \<Rightarrow> 'o shm_world) \<Rightarrow>
    WritableBlock option \<Rightarrow> Segment \<Rightarrow> 'o shm_world \<Rightarrow> ((bool \<times> WritableBlock option) \<times> Segment \<times> 'o shm_world) option" where
  "Segment_AcquireBlockToRead pf port others readable_block =
     ensure_inited pf port others False (False, readable_block)
       (with_extent (\<lambda>ex l. Extent_AcquireBlockToRead (pf_sizes pf) ex readable_block l))"

definition Segment_ReleaseReadBlock :: "WritableBlock \<Rightarrow> Segment \<Rightarrow> 'o shm_world \<Rightarrow> 'o shm_world option" where
  "Segment_ReleaseReadBlock rb s w =
     map_option (snd \<circ> snd) (with_extent (\<lambda>ex l. Some (True, None, Extent_ReleaseReadBlock rb l)) s w)"

definition Segment_Destroy :: "'o segment_port \<Rightarrow> Segment \<Rightarrow> 'o shm_world \<Rightarrow> bool \<times> Segment \<times> 'o shm_world" where
  "Segment_Destroy port s w =
     (if \<not> seg_inited s then (True, s, w)
      else let s = s\<lparr>seg_inited := False\<rparr>;
               a = seg_metadata_layout s;
               (reference_count, st) = DecreaseReferenceCount (sg_state (sw_layout w a));
               w = w\<lparr>sw_layout := (sw_layout w)(a := (sw_layout w a)\<lparr>sg_state := st\<rparr>)\<rparr>;
               w = (if reference_count = 0 then w\<lparr>sw_os := snd (port_Remove port s (sw_os w))\<rparr> else w)
           in (True, s, w))"

end
