(* ===== verification/XsiSegment.thy ===== *)
theory XsiSegment
  imports Segment XsiShm
begin

text \<open>
  \<open>shm/port/xsi_segment.h\<close> and \<open>xsi_segment.cc\<close>: a \<open>Segment\<close> in System V shared memory whose first and last page are write-protected.
  The system calls are those of \<open>XsiShm\<close>, with \<open>mprotect\<close>, \<open>Util::EnsureDirectory\<close> (its result is not used) and
  \<open>std::hash<std::string>\<close>.
\<close>

record 'o segment_calls = "'o xsi_calls" +
  sys_mprotect :: "u64 \<Rightarrow> u64 \<Rightarrow> 'o \<Rightarrow> i32 \<times> 'o"
  sys_EnsureDirectory :: "string \<Rightarrow> 'o \<Rightarrow> 'o"
  sys_hash :: "string \<Rightarrow> u64"

text \<open>\<open>std::to_string(uint64_t)\<close>\<close>

definition to_string_u64 :: "u64 \<Rightarrow> string" where
  "to_string_u64 w = nat_digits (unat w)"

definition xsi_segment_path :: "SegmentOption \<Rightarrow> string" where
  "xsi_segment_path opt = ''/tmp/'' @ to_string (sopt_domain_id opt) @ ''/'' @ to_string_u64 (sopt_channel_id opt)"

definition XsiSegment_new :: "shm_platform \<Rightarrow> SegmentOption \<Rightarrow> Segment" where
  "XsiSegment_new pf opt = (Segment_new pf opt)\<lparr>seg_path := xsi_segment_path opt\<rparr>"

definition ensure_key :: "'o segment_calls \<Rightarrow> Segment \<Rightarrow> 'o \<Rightarrow> Segment \<times> 'o" where
  "ensure_key sys s os =
     (if seg_key s = - 1
      then (s\<lparr>seg_key := ucast (sys_hash sys (seg_path s))\<rparr>, sys_EnsureDirectory sys (seg_path s) os)
      else (s, os))"

text \<open>The protection of the first and the last page; \<open>||\<close> does not make the second call when the first fails.\<close>

definition protect_pages :: "'o segment_calls \<Rightarrow> Segment \<Rightarrow> u64 \<Rightarrow> 'o \<Rightarrow> bool \<times> 'o" where
  "protect_pages sys s total_size os =
     (let (r, os) = sys_mprotect sys (seg_head_protection_addr s) (seg_page_size s) os in
      if r = - 1 then (False, os)
      else let (r, os) = sys_mprotect sys (seg_head_protection_addr s + total_size - seg_page_size s) (seg_page_size s) os
           in (r \<noteq> - 1, os))"

definition XsiSegment_OpenOnly :: "'o segment_calls \<Rightarrow> Segment \<Rightarrow> 'o \<Rightarrow> bool \<times> Segment \<times> 'o" where
  "XsiSegment_OpenOnly sys s os =
     (if seg_open_flag s then (True, s, os)
      else let (s, os) = ensure_key sys s os; (shmid, os) = shmget_open sys (seg_key s) os in
        if shmid = - 1 then (False, s, os)
        else let (addr, os) = shmat sys shmid (seg_segment_base_addr s) os;
                 s = s\<lparr>seg_head_protection_addr := addr\<rparr> in
          if addr = - 1 then (False, s, os)
          else let s = s\<lparr>seg_managed_shm_header := addr + seg_page_size s\<rparr>;
                   (ok, os) = protect_pages sys s (TotalSegmentSpaceSize s) os in
            if \<not> ok then (False, s\<lparr>seg_head_protection_addr := 0, seg_managed_shm_header := 0\<rparr>,
                              shmdt sys addr os)
            else (True, s\<lparr>seg_open_flag := True\<rparr>, os))"

definition XsiSegment_Remove :: "'o segment_calls \<Rightarrow> Segment \<Rightarrow> 'o \<Rightarrow> bool \<times> 'o" where
  "XsiSegment_Remove sys s os =
     (let (shmid, os) = shmget_open sys (seg_key s) os in
      if shmid = - 1 then (False, os)
      else let (r, os) = shmctl_rmid sys shmid os in (r \<noteq> - 1, os))"

definition XsiSegment_Reset :: "'o segment_calls \<Rightarrow> Segment \<Rightarrow> 'o \<Rightarrow> Segment \<times> 'o" where
  "XsiSegment_Reset sys s os =
     (if seg_head_protection_addr s \<noteq> 0
      then (s\<lparr>seg_head_protection_addr := 0, seg_managed_shm_header := 0\<rparr>,
            shmdt sys (seg_head_protection_addr s) os)
      else (s, os))"

text \<open>After the loop: attach and protect the memory just created.\<close>

definition XsiSegment_attach :: "'o segment_calls \<Rightarrow> u64 \<Rightarrow> i32 \<Rightarrow> Segment \<Rightarrow> 'o \<Rightarrow> bool \<times> Segment \<times> 'o" where
  "XsiSegment_attach sys total_size shmid s os =
     (if shmid = - 1 then (False, s, os)
      else let (addr, os) = shmat sys shmid (seg_segment_base_addr s) os;
               s = s\<lparr>seg_head_protection_addr := addr\<rparr> in
        if addr = - 1 then (let (_, os) = shmctl_rmid sys shmid os in (False, s, os))
        else let s = s\<lparr>seg_managed_shm_header := addr + seg_page_size s\<rparr>;
                 (ok, os) = protect_pages sys s total_size os in
          if \<not> ok
          then (let (_, os) = shmctl_rmid sys shmid (shmdt sys addr os)
                in (False, s\<lparr>seg_head_protection_addr := 0, seg_managed_shm_header := 0\<rparr>, os))
          else (True, s\<lparr>seg_shm_id := shmid, seg_create_flag := True, seg_open_flag := True\<rparr>, os))"

text \<open>\<open>while (retry++ < 2)\<close>; \<open>n\<close> is the number of rounds left, \<open>shmid\<close> the value of the last call.\<close>

primrec XsiSegment_create_loop :: "'o segment_calls \<Rightarrow> u64 \<Rightarrow> nat \<Rightarrow> i32 \<Rightarrow> Segment \<Rightarrow> 'o \<Rightarrow> bool \<times> Segment \<times> 'o" where
  "XsiSegment_create_loop sys total_size 0 shmid s os = XsiSegment_attach sys total_size shmid s os"
| "XsiSegment_create_loop sys total_size (Suc n) shmid s os =
     (let (shmid, err, os) = shmget_create_excl sys (seg_key s) total_size os in
      if shmid \<noteq> - 1 then XsiSegment_attach sys total_size shmid s os
      else case err of
        EEXIST \<Rightarrow> (let (ok, s, os) = XsiSegment_OpenOnly sys s os in
                  if ok then (True, s, os) else XsiSegment_create_loop sys total_size n shmid s os)
      | EINVAL \<Rightarrow> (let (s, os) = XsiSegment_Reset sys s os; (_, os) = XsiSegment_Remove sys s os
                  in XsiSegment_attach sys total_size shmid s os)
      | EOTHER \<Rightarrow> XsiSegment_create_loop sys total_size n shmid s os)"

definition XsiSegment_OpenOrCreate :: "'o segment_calls \<Rightarrow> Segment \<Rightarrow> 'o \<Rightarrow> bool \<times> Segment \<times> 'o" where
  "XsiSegment_OpenOrCreate sys s os =
     (if seg_open_flag s then (True, s, os)
      else let (s, os) = ensure_key sys s os in XsiSegment_create_loop sys (TotalSegmentSpaceSize s) 2 0 s os)"

definition xsi_port :: "'o segment_calls \<Rightarrow> 'o segment_port" where
  "xsi_port sys = \<lparr>port_OpenOnly = XsiSegment_OpenOnly sys, port_OpenOrCreate = XsiSegment_OpenOrCreate sys,
     port_Remove = XsiSegment_Remove sys, port_Reset = XsiSegment_Reset sys\<rparr>"

text \<open>The destructor. Inside it the virtual calls of the base class still reach \<open>XsiSegment\<close>.\<close>

definition XsiSegment_destroy :: "'o segment_calls \<Rightarrow> Segment \<Rightarrow> 'o shm_world \<Rightarrow> Segment \<times> 'o shm_world" where
  "XsiSegment_destroy sys s w =
     (let (_, s, w) = Segment_Destroy (xsi_port sys) s w; (s, os) = XsiSegment_Reset sys s (sw_os w) in (s, w\<lparr>sw_os := os\<rparr>))"

end
