(* ===== verification/ExtentSpec.thy ===== *)
theory ExtentSpec
  imports Extent
begin

text \<open>
  What an extent promises. \<open>extent_wf\<close> is its well-formedness: the table of blocks and the buffers lie one behind the other in
  mapped memory, and the free numbers are distinct numbers of blocks. \<open>Init\<close> gives a well-formed layout when the memory
  is large enough for the ring, the table and the buffers, and the operations keep it so.
\<close>

section \<open>Well-formedness\<close>

definition free_ids :: "ExtentLayout \<Rightarrow> nat list" where
  "free_ids l = map unat (ring_contents (el_free_block_ids l))"

definition extent_wf :: "shm_sizes \<Rightarrow> shm_memory \<Rightarrow> u64 \<Rightarrow> ExtentLayout \<Rightarrow> bool" where
  "extent_wf sz M this l \<longleftrightarrow>
     el_inited l \<and> rte_ring_inv (el_free_block_ids l)
   \<and> unat (el_block_num l) < 2 ^ 16 \<and> unat (el_block_num l) * unat (el_block_buffer_size l) < 2 ^ 32
   \<and> length (el_blocks l) = unat (el_block_num l)
   \<and> distinct (free_ids l) \<and> set (free_ids l) \<subseteq> {..<unat (el_block_num l)}
   \<and> unat (mm_first M) \<le> unat (extent_data sz this)
   \<and> unat (el_block_offset l) + unat (el_block_num l) * unat (sizeof_Block sz) \<le> unat (el_block_buffer_offset l)
   \<and> unat (extent_data sz this) + unat (el_block_buffer_offset l) + unat (el_block_num l) * unat (el_block_buffer_size l) \<le> unat (mm_end M)"

text \<open>The geometry of an extent, which no operation after \<open>Init\<close> changes.\<close>

definition same_geometry :: "ExtentLayout \<Rightarrow> ExtentLayout \<Rightarrow> bool" where
  "same_geometry l l' \<longleftrightarrow> (\<exists>ring. l' = l\<lparr>el_free_block_ids := ring\<rparr>)"

lemma same_geometry_refl [simp]: "same_geometry l l"
  unfolding same_geometry_def by (rule exI [of _ "el_free_block_ids l"]) simp

lemma same_geometry_trans: "same_geometry l l' \<Longrightarrow> same_geometry l' l'' \<Longrightarrow> same_geometry l l''"
  by (auto simp: same_geometry_def)

text \<open>Block \<open>i\<close>, as every process that maps the extent at \<open>this\<close> sees it.\<close>

definition block_at :: "shm_sizes \<Rightarrow> u64 \<Rightarrow> ExtentLayout \<Rightarrow> nat \<Rightarrow> WritableBlock" where
  "block_at sz this l i = \<lparr>wb_extent_index = el_extent_index l, wb_block_index = of_nat i,
     wb_block = BlockTableAddr sz this l + of_nat (i * unat (sizeof_Block sz)),
     wb_buf = BlockBufferBaseAddr sz this l + of_nat (i * unat (el_block_buffer_size l))\<rparr>"

lemma same_geometry_block_at: "same_geometry l l' \<Longrightarrow> block_at sz this l' = block_at sz this l"
  by (auto simp: same_geometry_def block_at_def BlockTableAddr_def BlockBufferBaseAddr_def)

text \<open>The members of an \<open>Extent\<close> that a process has initialised on the layout.\<close>

definition extent_view :: "shm_sizes \<Rightarrow> u64 \<Rightarrow> ExtentLayout \<Rightarrow> Extent \<Rightarrow> bool" where
  "extent_view sz this l ex \<longleftrightarrow>
     ex_init ex \<and> ex_metadata ex = \<lparr>em_layout = this, em_block_table = BlockTableAddr sz this l\<rparr>
   \<and> ex_block_buf_addrs ex = map (\<lambda>i. wb_buf (block_at sz this l i)) [0..<unat (el_block_num l)]"

lemma same_geometry_view: "same_geometry l l' \<Longrightarrow> extent_view sz this l' ex \<longleftrightarrow> extent_view sz this l ex"
  by (auto simp: extent_view_def same_geometry_block_at) (auto simp: same_geometry_def BlockTableAddr_def)

section \<open>Initialisation\<close>

lemma ring_schema:
  "RteRing_GetStorageSchema bc st \<lparr>schema_fields = []\<rparr> n =
     \<lparr>schema_fields = [\<lparr>field_id = 0, repeated_size = n, request_space_size = PlacementStorageSize bc st n\<rparr>]\<rparr>"
  by (simp add: RteRing_GetStorageSchema_def set_field_def vec_resize_def default_metadata_def)

lemma GetRequestSize_eq:
  "ExtentLayout_GetRequestSize bc sz n s = sizeof_ExtentLayout sz + n * s + PlacementStorageSize bc 2 n"
  by (simp add: ExtentLayout_GetRequestSize_def ring_schema StorageSchema_TotalSize_def)

lemma fill_block_ids_eq:
  assumes "rte_ring_inv ring" and "unat num = unat idx + k" and "length (ring_contents ring) + k \<le> unat (rr_size ring)"
  shows "\<exists>ring'. fill_block_ids num idx ring = Some ring' \<and> rte_ring_inv ring' \<and>
    map unat (ring_contents ring') = map unat (ring_contents ring) @ [unat idx..<unat num]"
  using assms
proof (induction k arbitrary: idx ring)
  case 0
  then show ?case by (subst fill_block_ids.simps) (simp add: word_less_nat_alt)
next
  case (Suc k)
  have i1: "unat (idx + 1) = Suc (unat idx)"
    using Suc.prems(2) unat_less_2p [of num] by (subst unat_add_small) simp_all
  from Suc.prems(3) have "length (ring_contents ring) < unat (rr_size ring)" by simp
  from rte.enq_one [OF Suc.prems(1) this, of idx True] obtain f r where
    r: "DoEnqueue ring [idx] 1 True = Some (1, f, r)" "rte_ring_inv r"
    "ring_contents r = ring_contents ring @ [idx]" "rr_size r = rr_size ring" by (auto simp: word_unat_eq_iff)
  have "\<exists>ring'. fill_block_ids num (idx + 1) r = Some ring' \<and> rte_ring_inv ring' \<and>
      map unat (ring_contents ring') = map unat (ring_contents r) @ [unat (idx + 1)..<unat num]"
    using Suc.prems r by (intro Suc.IH) (simp_all add: i1)
  moreover have "[unat idx..<unat num] = unat idx # [Suc (unat idx)..<unat num]"
    using Suc.prems(2) by (simp add: upt_conv_Cons)
  moreover have "idx < num" using Suc.prems(2) by (simp add: word_less_nat_alt)
  ultimately show ?case using r by (subst fill_block_ids.simps) (auto simp: i1)
qed

text \<open>The memory \<open>Init\<close> needs: its ring, its table and its buffers, with offsets and sizes that fit 32 bits.\<close>

definition extent_room :: "(u64 \<Rightarrow> u64) \<Rightarrow> shm_sizes \<Rightarrow> shm_memory \<Rightarrow> u64 \<Rightarrow> nat \<Rightarrow> nat \<Rightarrow> bool" where
  "extent_room bc sz M this n s \<longleftrightarrow>
     n < 2 ^ 16 \<and> s < 2 ^ 32 \<and> n * s < 2 ^ 32
   \<and> unat (PlacementStorageSize bc 2 (of_nat n)) + n * unat (sizeof_Block sz) < 2 ^ 32
   \<and> unat (mm_first M) \<le> unat (extent_data sz this)
   \<and> unat (extent_data sz this) + unat (PlacementStorageSize bc 2 (of_nat n)) + n * unat (sizeof_Block sz) + n * s \<le> unat (mm_end M)"

lemma even_half_le: "even (x::nat) \<Longrightarrow> x div 2 \<le> y \<Longrightarrow> x \<le> y * 2"
  by presburger

lemma ucast_of_nat_small: "n < 2 ^ 32 \<Longrightarrow> (ucast (of_nat n :: u64) :: u32) = of_nat n"
  by (simp add: word_unat_eq_iff unat_ucast_mod unat_of_nat)

lemma block_ring_Init:
  assumes "bit_ceil_spec bc" and "unat num < 2 ^ 16" and "unat (PlacementStorageSize bc 2 (ucast num)) div 2 \<le> length m"
    and "even (unat (PlacementStorageSize bc 2 (ucast num)))"
  shows "\<exists>r. RteRing_Init bc 2 0 None RteRing_new num False False \<lparr>field_buffers = [default_field_buffer\<lparr>fb_ptr := Some m\<rparr>]\<rparr> =
      Some (True, r) \<and> rte_ring_inv r \<and> ring_contents r = [] \<and> unat num \<le> unat (rr_size r)"
proof -
  have "init_memory None \<lparr>field_buffers = [default_field_buffer\<lparr>fb_ptr := Some m\<rparr>]\<rparr> = Some m"
    by (simp add: init_memory_def PlacementStorage_FieldSize_def)
  moreover have "unat (PlacementStorageSize bc 2 (ucast num)) \<le> length m * unat (2::u64)"
    using even_half_le [OF assms(4,3)] by simp
  ultimately show ?thesis
    using RteRing_Init_ok [OF assms(1), of num 2 None _ m 0 False False] assms(2) by fastforce
qed

lemma even_PlacementStorageSize: "128 dvd unat (PlacementStorageSize bc st n)"
  using unat_and_minus_pow2 [of "AlignedNum bc n * st + 128 - 1" 7]
  by (simp add: PlacementStorageSize_def AlignmentSize_def Let_def)

lemma unat_extent_addr:
  assumes "unat (extent_data sz this) + unat (a :: u64) < 2 ^ 64"
  shows "unat (extent_data sz this + a) = unat (extent_data sz this) + unat a"
  using assms by (intro unat_add_small) simp

lemma unat_table_size:
  assumes "unat (n :: u32) * unat (b :: u64) < 2 ^ 64"
  shows "unat (b * ucast n) = unat n * unat b"
  using assms by (simp add: unat_word_ariths unat_ucast_up mult.commute)

lemmas place_defs = PlacementStorage_resize_def empty_placement_def vec_resize_def GetFieldBuffer_def MutableFieldBuffer_def
  mem_read_def mem_write_def

lemma Init_ok:
  assumes bc: "bit_ceil_spec bc" and room: "extent_room bc sz M this n s" and base: "eo_base_addr opt \<noteq> 0"
    and opt: "eo_block_num opt = of_nat n" "eo_block_size opt = of_nat s"
  shows "\<exists>l. ExtentLayout_Init bc junk sz M this opt ExtentLayout_new = Some (True, l) \<and> extent_wf sz M this l \<and> free_ids l = [0..<n]
    \<and> unat (el_block_num l) = n \<and> unat (el_block_buffer_size l) = s \<and> el_extent_index l = 0 \<and> el_space_size l = eo_size opt
    \<and> el_blocks l = replicate n Block_new
    \<and> unat (el_block_offset l) = unat (PlacementStorageSize bc 2 (of_nat n))
    \<and> unat (el_block_buffer_offset l) = unat (PlacementStorageSize bc 2 (of_nat n)) + n * unat (sizeof_Block sz)
    \<and> unat (el_space_used l) = unat (PlacementStorageSize bc 2 (of_nat n)) + n * unat (sizeof_Block sz) + n * s"
proof -
  define R where "R = PlacementStorageSize bc 2 (of_nat n)"
  define B where "B = sizeof_Block sz"
  define D where "D = extent_data sz this"
  define num :: u32 where "num = of_nat n"
  define size :: u32 where "size = of_nat s"
  have rm: "n < 2 ^ 16" "s < 2 ^ 32" "n * s < 2 ^ 32" "unat R + n * unat B < 2 ^ 32" "unat (mm_first M) \<le> unat D"
    "unat D + unat R + n * unat B + n * s \<le> unat (mm_end M)"
    using room by (simp_all add: extent_room_def R_def B_def D_def)
  have nums: "ucast (eo_block_num opt) = num" "ucast (eo_block_size opt) = size"
    using rm(1,2) by (simp_all add: opt num_def size_def ucast_of_nat_small)
  have un: "unat num = n" "unat size = s" "unat (ucast num :: u16) = n" "(ucast num :: u64) = of_nat n"
    using rm(1,2) by (simp_all add: num_def size_def unat_of_nat_small unat_ucast_mod word_unat_eq_iff unat_ucast_up)
  have R2: "even (unat R)" using even_PlacementStorageSize [of bc 2 "of_nat n"] by (auto simp: R_def dvd_def)
  define m where "m = map (\<lambda>i. junk (D + of_nat i * 2)) [0..<unat R div 2]"
  from block_ring_Init [OF bc, of num m] rm(1) R2 obtain r where r: "RteRing_Init bc 2 0 None RteRing_new num False False
      \<lparr>field_buffers = [default_field_buffer\<lparr>fb_ptr := Some m\<rparr>]\<rparr> = Some (True, r)"
    "rte_ring_inv r" "ring_contents r = []" "n \<le> unat (rr_size r)" by (auto simp: un m_def R_def)
  from fill_block_ids_eq [OF r(2), of "ucast num" 0 n] r(3,4) obtain ring where
    ring: "fill_block_ids (ucast num) 0 r = Some ring" "rte_ring_inv ring" "map unat (ring_contents ring) = [0..<n]"
    by (auto simp: un)
  have big: "unat (mm_end M) < 2 ^ 64" using unat_less_2p [of "mm_end M"] by simp
  have BN: "unat (B * ucast num) = n * unat B"
    using rm(4) unat_table_size [of num B] by (simp add: un)
  have RB: "unat (R + B * ucast num) = unat R + n * unat B"
    using rm(4) by (subst unat_add_small) (simp_all add: BN)
  have SN: "unat (size * num) = n * s" using rm(3) by (simp add: unat_word_ariths un mult.commute)
  have SN': "unat (ucast (size * num) :: u64) = n * s" by (simp add: unat_ucast_up SN)
  have T: "unat (R + B * ucast num + ucast (size * num)) = unat R + n * unat B + n * s"
    using rm(6) big by (subst unat_add_small) (simp_all add: RB SN')
  have m1: "mapped M D R" using rm(5,6) by (simp add: mapped_def)
  have m2: "mapped M (D + R) (B * ucast num)"
    using rm(5,6) big unat_add_small [of D R] by (simp add: mapped_def BN)
  let ?l = "\<lparr>el_magic_header = EXTENT_MAGIC_HEADER, el_segment_offset = eo_offset opt, el_space_size = eo_size opt,
     el_space_used = R + B * ucast num + ucast (size * num), el_block_num = num, el_block_buffer_size = size, el_extent_index = 0,
     el_inited = True, el_free_block_ids = ring, el_block_offset = ucast R, el_block_buffer_offset = ucast (R + B * ucast num),
     el_blocks = replicate n Block_new\<rparr>"
  have "ExtentLayout_Init bc junk sz M this opt ExtentLayout_new = Some (True, ?l)"
    using base m1 m2 r(1) ring(1)
    by (simp add: ExtentLayout_Init_def ExtentLayout_new_def nums ring_schema StorageSchema_FieldSize_def un place_defs cast_array_def
        ExtentLayout_Allocate_def D_def [symmetric] R_def [symmetric] B_def [symmetric] m_def [symmetric] Let_def)
  moreover have "unat (el_block_offset ?l) = unat R" "unat (el_block_buffer_offset ?l) = unat R + n * unat B"
    using rm(4) by (simp_all add: unat_ucast_mod RB)
  ultimately show ?thesis
    using rm ring T
    by (intro exI [of _ ?l]) (simp add: extent_wf_def free_ids_def un R_def [symmetric] B_def [symmetric] D_def [symmetric] atLeast0LessThan)
qed

section \<open>Operations\<close>

lemma buf_addr_loop_eq:
  assumes "unat num = unat i + k" and "length addrs = unat num" and "unat num * unat s < 2 ^ 32"
    and "\<forall>j<unat i. addrs ! j = a + of_nat (j * unat s)"
  shows "buf_addr_loop a s num i addrs = Some (map (\<lambda>j. a + of_nat (j * unat s)) [0..<unat num])"
  using assms
proof (induction k arbitrary: i addrs)
  case 0
  then show ?case by (subst buf_addr_loop.simps) (auto simp: word_less_nat_alt intro!: nth_equalityI)
next
  case (Suc k)
  have i1: "unat (i + 1) = Suc (unat i)"
    using Suc.prems(1) unat_less_2p [of num] by (subst unat_add_small) simp_all
  have lt: "i < num" "unat i < length addrs" using Suc.prems(1,2) by (simp_all add: word_less_nat_alt)
  have "unat i * unat s \<le> unat num * unat s" using Suc.prems(1) by (intro mult_le_mono1) simp
  then have "unat i * unat s < 2 ^ 32" using Suc.prems(3) by linarith
  then have "unat (i * s) = unat i * unat s" by (simp add: unat_word_ariths)
  then have w: "(ucast (i * s) :: u64) = of_nat (unat i * unat s)" by (metis of_nat_unat)
  have "buf_addr_loop a s num (i + 1) (addrs[unat i := a + of_nat (unat i * unat s)]) =
      Some (map (\<lambda>j. a + of_nat (j * unat s)) [0..<unat num])"
    using Suc.prems lt(2) by (intro Suc.IH) (auto simp: i1 less_Suc_eq simp flip: of_nat_mult)
  then show ?case using lt by (subst buf_addr_loop.simps) (simp add: mem_write_def w)
qed

lemma Initialize_view:
  assumes "extent_wf sz M this l" and "\<not> ex_init ex"
  shows "\<exists>ex'. Extent_Initialize sz this l ex = Some (True, ex') \<and> extent_view sz this l ex'"
proof -
  have "buf_addr_loop (BlockBufferBaseAddr sz this l) (el_block_buffer_size l) (el_block_num l) 0
      (vec_resize 0 (ex_block_buf_addrs ex) (unat (el_block_num l))) =
    Some (map (\<lambda>j. BlockBufferBaseAddr sz this l + of_nat (j * unat (el_block_buffer_size l))) [0..<unat (el_block_num l)])"
    using assms(1) by (intro buf_addr_loop_eq [where k = "unat (el_block_num l)"]) (simp_all add: extent_wf_def)
  then show ?thesis using assms(2) by (simp add: Extent_Initialize_def extent_view_def block_at_def)
qed

text \<open>Taking a block takes the oldest free number; with none left the caller's block is untouched.\<close>

lemma Acquire_some:
  assumes wf: "extent_wf sz M this l" and view: "extent_view sz this l ex" and free: "free_ids l = i # ids"
  shows "\<exists>l'. Extent_AcquireBlockToWrite sz ex n (Some wb) l = Some (True, Some (block_at sz this l i), l')
    \<and> extent_wf sz M this l' \<and> free_ids l' = ids \<and> same_geometry l l'"
proof -
  from free obtain w ws where w: "ring_contents (el_free_block_ids l) = w # ws" "i = unat w" "ids = map unat ws"
    by (auto simp: free_ids_def)
  have "rte_ring_inv (el_free_block_ids l)" using wf by (simp add: extent_wf_def)
  from rte.deq_one [OF this w(1), of 0 True] obtain f ring where
    r: "DoDequeue (el_free_block_ids l) [0] 1 True = Some (1, [w], f, ring)" "rte_ring_inv ring" "ring_contents ring = ws"
    by auto
  have lt: "i < unat (el_block_num l)" using wf free by (simp add: extent_wf_def)
  have i16: "i < 2 ^ 16" unfolding w(2) using unat_less_2p [of w] by simp
  have iw: "(ucast w :: u32) = of_nat i" "unat (of_nat i :: u32) = i" "(ucast (of_nat i :: u32) :: u64) = of_nat i"
    using i16 by (simp_all add: w(2) word_unat_eq_iff unat_ucast_up unat_of_nat_small)
  have "wf' \<longrightarrow> extent_wf sz M this (l\<lparr>el_free_block_ids := ring\<rparr>)" if "wf' = extent_wf sz M this l" for wf'
    using free r w by (auto simp: that extent_wf_def free_ids_def)
  then have wf': "extent_wf sz M this (l\<lparr>el_free_block_ids := ring\<rparr>)" using wf by blast
  have "Extent_AcquireBlockToWrite sz ex n (Some wb) l =
      Some (True, Some (block_at sz this l i), l\<lparr>el_free_block_ids := ring\<rparr>)"
    using r(1) view lt
    by (simp add: Extent_AcquireBlockToWrite_def GetFreeBlockIndex_def mem_read_def extent_view_def GetBlock_def iw block_at_def)
  then show ?thesis using wf' r w by (auto simp: same_geometry_def free_ids_def)
qed

lemma Acquire_none:
  assumes "extent_wf sz M this l" and "free_ids l = []"
  shows "Extent_AcquireBlockToWrite sz ex n (Some wb) l = Some (False, Some wb, l)"
  using rte.deq_one_empty [of "el_free_block_ids l" 0 True] assms
  by (auto simp: Extent_AcquireBlockToWrite_def GetFreeBlockIndex_def extent_wf_def free_ids_def)

lemma AcquireRead_ok:
  assumes "extent_view sz this l ex" and "unat (wb_block_index rb) < unat (el_block_num l)"
  shows "Extent_AcquireBlockToRead sz ex (Some rb) l =
    Some (True, Some ((block_at sz this l (unat (wb_block_index rb)))\<lparr>wb_extent_index := wb_extent_index rb\<rparr>), l)"
  using assms
  by (cases rb) (simp add: Extent_AcquireBlockToRead_def ExtentMetadata_TryLockForRead_def mem_read_def extent_view_def block_at_def
      GetBlock_def Let_def)

lemma AcquireRead_range:
  assumes "extent_view sz this l ex" and "unat (el_block_num l) \<le> unat (wb_block_index rb)"
  shows "Extent_AcquireBlockToRead sz ex (Some rb) l = None"
  using assms by (simp add: Extent_AcquireBlockToRead_def ExtentMetadata_TryLockForRead_def mem_read_def extent_view_def)

section \<open>Geometry of the blocks\<close>

text \<open>Where the buffer of a block and its entry of the table start.\<close>

lemma index_room: "i < n \<Longrightarrow> i * k + k \<le> n * (k::nat)"
  by (metis Suc_leI add.commute mult_Suc mult_le_mono1)

lemma unat_base_plus:
  assumes "unat (D :: u64) + unat (off :: u32) + k < 2 ^ 64"
  shows "unat (D + ucast off + of_nat k) = unat D + unat off + k"
  using assms by (simp add: unat_word_ariths unat_ucast_up unat_of_nat)

lemma block_at_addr:
  assumes wf: "extent_wf sz M this l" and i: "i < unat (el_block_num l)"
  shows "unat (wb_buf (block_at sz this l i)) =
      unat (extent_data sz this) + unat (el_block_buffer_offset l) + i * unat (el_block_buffer_size l)"
    and "unat (wb_block (block_at sz this l i)) = unat (extent_data sz this) + unat (el_block_offset l) + i * unat (sizeof_Block sz)"
proof -
  have e: "unat (mm_end M) < 2 ^ 64" using unat_less_2p [of "mm_end M"] by simp
  note r = index_room [OF i, of "unat (el_block_buffer_size l)"] index_room [OF i, of "unat (sizeof_Block sz)"]
  have "unat (extent_data sz this) + unat (el_block_buffer_offset l) + i * unat (el_block_buffer_size l) < 2 ^ 64"
    using wf r(1) e unfolding extent_wf_def by linarith
  then show "unat (wb_buf (block_at sz this l i)) =
      unat (extent_data sz this) + unat (el_block_buffer_offset l) + i * unat (el_block_buffer_size l)"
    unfolding block_at_def BlockBufferBaseAddr_def WritableBlock.select_convs by (rule unat_base_plus)
  have "unat (extent_data sz this) + unat (el_block_offset l) + i * unat (sizeof_Block sz) < 2 ^ 64"
    using wf r(2) e unfolding extent_wf_def by linarith
  then show "unat (wb_block (block_at sz this l i)) = unat (extent_data sz this) + unat (el_block_offset l) + i * unat (sizeof_Block sz)"
    unfolding block_at_def BlockTableAddr_def WritableBlock.select_convs by (rule unat_base_plus)
qed

text \<open>The addresses of a buffer and of the entry of the table.\<close>

definition buffer_bytes :: "ExtentLayout \<Rightarrow> WritableBlock \<Rightarrow> nat set" where
  "buffer_bytes l b = {unat (wb_buf b)..<unat (wb_buf b) + unat (el_block_buffer_size l)}"

definition entry_bytes :: "shm_sizes \<Rightarrow> WritableBlock \<Rightarrow> nat set" where
  "entry_bytes sz b = {unat (wb_block b)..<unat (wb_block b) + unat (sizeof_Block sz)}"

lemma strided_disjoint:
  assumes "i \<noteq> j"
  shows "{b + i * k..<b + i * k + k} \<inter> {b + j * k..<b + j * k + (k::nat)} = {}"
  using assms index_room [of i j k] index_room [of j i k] by (cases "i < j") auto

lemma buffers_mapped:
  assumes "extent_wf sz M this l" and "i < unat (el_block_num l)"
  shows "buffer_bytes l (block_at sz this l i) \<subseteq> {unat (mm_first M)..<unat (mm_end M)}"
  using assms index_room [OF assms(2), of "unat (el_block_buffer_size l)"]
  by (auto simp: buffer_bytes_def block_at_addr extent_wf_def)

lemma buffers_apart:
  assumes "extent_wf sz M this l" and "i < unat (el_block_num l)" and "j < unat (el_block_num l)"
  shows "i \<noteq> j \<Longrightarrow> buffer_bytes l (block_at sz this l i) \<inter> buffer_bytes l (block_at sz this l j) = {}"
    and "i \<noteq> j \<Longrightarrow> entry_bytes sz (block_at sz this l i) \<inter> entry_bytes sz (block_at sz this l j) = {}"
    and "buffer_bytes l (block_at sz this l i) \<inter> entry_bytes sz (block_at sz this l j) = {}"
proof -
  show "buffer_bytes l (block_at sz this l i) \<inter> buffer_bytes l (block_at sz this l j) = {}" if "i \<noteq> j"
    using assms strided_disjoint [OF that] by (simp add: buffer_bytes_def block_at_addr)
  show "entry_bytes sz (block_at sz this l i) \<inter> entry_bytes sz (block_at sz this l j) = {}" if "i \<noteq> j"
    using assms strided_disjoint [OF that] by (simp add: entry_bytes_def block_at_addr)
  show "buffer_bytes l (block_at sz this l i) \<inter> entry_bytes sz (block_at sz this l j) = {}"
    using assms index_room [OF assms(3), of "unat (sizeof_Block sz)"]
    by (auto simp: buffer_bytes_def entry_bytes_def block_at_addr extent_wf_def)
qed

section \<open>Clients of an extent\<close>

text \<open>
  The calls of the processes that use an extent, in any order. Every process has the extent at the same address, so their \<open>Extent\<close> objects
  have equal members and one of them stands for all. The state is the layout and the blocks handed out for writing so far.
\<close>

datatype extent_op = WriteAcquire u64 | WriteRelease WritableBlock | ReadAcquire WritableBlock | ReadRelease WritableBlock

fun extent_step :: "shm_sizes \<Rightarrow> Extent \<Rightarrow> extent_op \<Rightarrow> ExtentLayout \<times> WritableBlock list \<Rightarrow> (ExtentLayout \<times> WritableBlock list) option" where
  "extent_step sz ex (WriteAcquire n) (l, taken) = do {
     (ok, wb, l) \<leftarrow> Extent_AcquireBlockToWrite sz ex n (Some WritableBlock_new) l;
     Some (l, (if ok then taken @ (case wb of Some b \<Rightarrow> [b] | None \<Rightarrow> []) else taken)) }"
| "extent_step sz ex (WriteRelease wb) (l, taken) = Some (Extent_ReleaseWrittenBlock wb l, taken)"
| "extent_step sz ex (ReadAcquire rb) (l, taken) = do {
     (_, _, l) \<leftarrow> Extent_AcquireBlockToRead sz ex (Some rb) l;
     Some (l, taken) }"
| "extent_step sz ex (ReadRelease rb) (l, taken) = Some (Extent_ReleaseReadBlock rb l, taken)"

fun extent_run :: "shm_sizes \<Rightarrow> Extent \<Rightarrow> extent_op list \<Rightarrow> ExtentLayout \<times> WritableBlock list \<Rightarrow> (ExtentLayout \<times> WritableBlock list) option" where
  "extent_run sz ex [] s = Some s"
| "extent_run sz ex (op # ops) s = do { s \<leftarrow> extent_step sz ex op s; extent_run sz ex ops s }"

definition extent_session ::
  "(u64 \<Rightarrow> u64) \<Rightarrow> (u64 \<Rightarrow> u16) \<Rightarrow> shm_sizes \<Rightarrow> shm_memory \<Rightarrow> u64 \<Rightarrow> ExtentOption \<Rightarrow> u64 \<Rightarrow> extent_op list \<Rightarrow>
     (ExtentLayout \<times> WritableBlock list) option" where
  "extent_session bit_ceil junk sz M this opt page_size ops = do {
     (_, l) \<leftarrow> ExtentLayout_Init bit_ceil junk sz M this opt ExtentLayout_new;
     (_, ex) \<leftarrow> Extent_Initialize sz this l (Extent_new page_size);
     extent_run sz ex ops (l, []) }"

fun is_acquire :: "extent_op \<Rightarrow> bool" where
  "is_acquire (WriteAcquire n) = True"
| "is_acquire _ = False"

fun read_in_range :: "nat \<Rightarrow> extent_op \<Rightarrow> bool" where
  "read_in_range n (ReadAcquire rb) = (unat (wb_block_index rb) < n)"
| "read_in_range n _ = True"

text \<open>A state of the run: the first \<open>k\<close> blocks have been handed out, the others are free.\<close>

definition extent_at :: "shm_sizes \<Rightarrow> shm_memory \<Rightarrow> u64 \<Rightarrow> Extent \<Rightarrow> ExtentLayout \<Rightarrow> nat \<Rightarrow> ExtentLayout \<times> WritableBlock list \<Rightarrow> bool" where
  "extent_at sz M this ex l0 k s \<longleftrightarrow> (case s of (l, taken) \<Rightarrow>
     extent_wf sz M this l \<and> extent_view sz this l ex \<and> same_geometry l0 l \<and> k \<le> unat (el_block_num l0)
   \<and> taken = map (block_at sz this l0) [0..<k] \<and> free_ids l = [k..<unat (el_block_num l0)])"

lemma extent_step_at:
  assumes "extent_at sz M this ex l0 k s" and "read_in_range (unat (el_block_num l0)) op"
  shows "\<exists>s'. extent_step sz ex op s = Some s'
    \<and> extent_at sz M this ex l0 (if is_acquire op then min (Suc k) (unat (el_block_num l0)) else k) s'"
proof -
  obtain l taken where s: "s = (l, taken)" by fastforce
  from assms(1) have a: "extent_wf sz M this l" "extent_view sz this l ex" "same_geometry l0 l" "k \<le> unat (el_block_num l0)"
    "taken = map (block_at sz this l0) [0..<k]" "free_ids l = [k..<unat (el_block_num l0)]" by (simp_all add: s extent_at_def)
  have num: "el_block_num l = el_block_num l0" using a(3) by (auto simp: same_geometry_def)
  show ?thesis
  proof (cases op)
    case (WriteAcquire n)
    show ?thesis
    proof (cases "k < unat (el_block_num l0)")
      case True
      then have "free_ids l = k # [Suc k..<unat (el_block_num l0)]" by (simp add: a(6) upt_conv_Cons)
      from Acquire_some [OF a(1,2) this, of n WritableBlock_new] obtain l' where
        l': "Extent_AcquireBlockToWrite sz ex n (Some WritableBlock_new) l = Some (True, Some (block_at sz this l k), l')"
        "extent_wf sz M this l'" "free_ids l' = [Suc k..<unat (el_block_num l0)]" "same_geometry l l'" by blast
      then show ?thesis
        using a True same_geometry_trans [OF a(3) l'(4)]
        by (simp add: s WriteAcquire extent_at_def same_geometry_view same_geometry_block_at)
    next
      case False
      with a(4,6) have "free_ids l = []" by simp
      then show ?thesis using a False by (simp add: s WriteAcquire extent_at_def Acquire_none [OF a(1)])
    qed
  next
    case (ReadAcquire rb)
    with assms(2) have "unat (wb_block_index rb) < unat (el_block_num l)" by (simp add: num)
    then show ?thesis using a by (simp add: s ReadAcquire extent_at_def AcquireRead_ok [OF a(2)])
  qed (use a in \<open>simp_all add: s extent_at_def Extent_ReleaseWrittenBlock_def PutFreeBlockIndex_def Extent_ReleaseReadBlock_def
      ExtentMetadata_ReleaseReadLock_def\<close>)
qed

lemma extent_run_at:
  assumes "extent_at sz M this ex l0 k s" and "list_all (read_in_range (unat (el_block_num l0))) ops"
  shows "\<exists>s'. extent_run sz ex ops s = Some s' \<and> extent_at sz M this ex l0 (min (k + length (filter is_acquire ops)) (unat (el_block_num l0))) s'"
  using assms
proof (induction ops arbitrary: k s)
  case Nil
  then have "k \<le> unat (el_block_num l0)" by (auto simp: extent_at_def)
  with Nil show ?case by (simp add: min_absorb1)
next
  case (Cons op ops)
  from Cons.prems(2) have "read_in_range (unat (el_block_num l0)) op" by simp
  from extent_step_at [OF Cons.prems(1) this] obtain s1 where
    s1: "extent_step sz ex op s = Some s1"
    "extent_at sz M this ex l0 (if is_acquire op then min (Suc k) (unat (el_block_num l0)) else k) s1" by blast
  have "min (min (Suc k) m + j) m = min (Suc (k + j)) m" for m j :: nat by simp
  with Cons.IH [OF s1(2)] Cons.prems(2) s1(1) show ?case by (auto split: if_splits)
qed

text \<open>
  C12: Processes that share an extent of \<open>n\<close> blocks never get the same block twice: whatever calls they make, in any order, after
  \<open>ExtentLayout::Init\<close> in enough memory, every call returns and the blocks handed out for writing are the blocks \<open>0, 1, 2\<close> and so
  on, until the \<open>n\<close>-th; from then on every request fails, because a released block never becomes free again. The buffers are
  in mapped memory, apart from each other and from the table of blocks, and the layout stays well-formed.
\<close>

theorem extent_blocks_exclusive:
  assumes bc: "bit_ceil_spec bc" and room: "extent_room bc sz M this n s" and base: "eo_base_addr opt \<noteq> 0"
    and opt: "eo_block_num opt = of_nat n" "eo_block_size opt = of_nat s" and ops: "list_all (read_in_range n) ops"
  shows "\<exists>l. extent_session bc junk sz M this opt page ops =
      Some (l, map (block_at sz this l) [0..<min (length (filter is_acquire ops)) n])
    \<and> free_ids l = [min (length (filter is_acquire ops)) n..<n] \<and> extent_wf sz M this l
    \<and> unat (el_block_num l) = n \<and> unat (el_block_buffer_size l) = s
    \<and> (\<forall>i<n. buffer_bytes l (block_at sz this l i) \<subseteq> {unat (mm_first M)..<unat (mm_end M)}
        \<and> (\<forall>j<n. buffer_bytes l (block_at sz this l i) \<inter> entry_bytes sz (block_at sz this l j) = {}
             \<and> (i \<noteq> j \<longrightarrow> buffer_bytes l (block_at sz this l i) \<inter> buffer_bytes l (block_at sz this l j) = {})))"
proof -
  from Init_ok [OF bc room base opt, of junk] obtain l0 where
    l0: "ExtentLayout_Init bc junk sz M this opt ExtentLayout_new = Some (True, l0)" "extent_wf sz M this l0" "free_ids l0 = [0..<n]"
    "unat (el_block_num l0) = n" "unat (el_block_buffer_size l0) = s" by auto
  from Initialize_view [OF l0(2), of "Extent_new page"] obtain ex where
    ex: "Extent_Initialize sz this l0 (Extent_new page) = Some (True, ex)" "extent_view sz this l0 ex" by (auto simp: Extent_new_def)
  have "extent_at sz M this ex l0 0 (l0, [])" using l0 ex by (simp add: extent_at_def)
  from extent_run_at [OF this, of ops] ops l0(4) obtain s' where
    s': "extent_run sz ex ops (l0, []) = Some s'" "extent_at sz M this ex l0 (min (length (filter is_acquire ops)) n) s'" by auto
  obtain l taken where s: "s' = (l, taken)" by fastforce
  from s'(2) have at: "extent_wf sz M this l" "same_geometry l0 l" "free_ids l = [min (length (filter is_acquire ops)) n..<n]"
    "taken = map (block_at sz this l0) [0..<min (length (filter is_acquire ops)) n]"
    by (simp_all add: s extent_at_def l0(4))
  note l = at(1-3) at(4) [folded same_geometry_block_at [OF at(2)]]
  have n: "unat (el_block_num l) = n" "unat (el_block_buffer_size l) = s" using l(2) l0(4,5) by (auto simp: same_geometry_def)
  have "extent_session bc junk sz M this opt page ops = Some (l, taken)"
    using l0(1) ex(1) s'(1) by (simp add: extent_session_def s)
  then show ?thesis
    using l n buffers_mapped [OF l(1)] buffers_apart [OF l(1)] by (intro exI [of _ l]) (simp add: n)
qed

definition sample_sizes :: shm_sizes where
  "sample_sizes = \<lparr>sizeof_Block = 96, sizeof_ExtentLayout = 256, offsetof_extent_data = 256, sizeof_SegmentLayout = 640,
     offsetof_segment_data = 640, sizeof_ShmObject = 256\<rparr>"

lemma extent_sample_room: "extent_room bit_ceil_ref sample_sizes \<lparr>mm_first = 0x1000, mm_end = 0x3000\<rparr> 0x1000 2 1024"
  by (simp add: extent_room_def sample_sizes_def extent_data_def PlacementStorageSize_def AlignedNum_def AlignmentSize_def bit_ceil_ref_def)

theorem extent_blocks_exclusive_witness:
  "\<exists>l. extent_session bit_ceil_ref (\<lambda>_. 7) sample_sizes \<lparr>mm_first = 0x1000, mm_end = 0x3000\<rparr> 0x1000
        \<lparr>eo_offset = 0, eo_base_addr = 0x1000, eo_size = 4096, eo_block_num = 2, eo_block_size = 1024\<rparr> 4096
        [WriteAcquire 10, WriteAcquire 10, WriteRelease WritableBlock_new, WriteAcquire 10] =
      Some (l, map (block_at sample_sizes 0x1000 l) [0, 1])"
  using extent_blocks_exclusive [OF bit_ceil_ref_spec extent_sample_room, of
      "\<lparr>eo_offset = 0, eo_base_addr = 0x1000, eo_size = 4096, eo_block_num = 2, eo_block_size = 1024\<rparr>"
      "[WriteAcquire 10, WriteAcquire 10, WriteRelease WritableBlock_new, WriteAcquire 10]" "\<lambda>_. 7" 4096]
  by (auto simp: upt_rec)

text \<open>\<open>GetRequestSize\<close> does not count the table of blocks: what \<open>Init\<close> uses ends that much behind the space asked for.\<close>

lemma GetRequestSize_too_small:
  assumes "bit_ceil_spec bc" and "extent_room bc sz M this n s" and "eo_base_addr opt \<noteq> 0"
    and "eo_block_num opt = of_nat n" "eo_block_size opt = of_nat s"
    and "unat (sizeof_ExtentLayout sz) + n * s + unat (PlacementStorageSize bc 2 (of_nat n)) < 2 ^ 64"
  shows "\<exists>l. ExtentLayout_Init bc junk sz M this opt ExtentLayout_new = Some (True, l)
    \<and> unat (sizeof_ExtentLayout sz) + unat (el_space_used l) =
        unat (ExtentLayout_GetRequestSize bc sz (of_nat n) (of_nat s)) + n * unat (sizeof_Block sz)"
proof -
  have "unat (of_nat (n * s) :: u64) = n * s" using assms(6) by (intro unat_of_nat_small) simp
  then have ns: "unat (of_nat n * of_nat s :: u64) = n * s" by simp
  have "unat (sizeof_ExtentLayout sz + of_nat n * of_nat s) = unat (sizeof_ExtentLayout sz) + n * s"
    using assms(6) by (subst unat_add_small) (simp_all add: ns)
  then have "unat (ExtentLayout_GetRequestSize bc sz (of_nat n) (of_nat s)) =
      unat (sizeof_ExtentLayout sz) + n * s + unat (PlacementStorageSize bc 2 (of_nat n))"
    using assms(6) unfolding GetRequestSize_eq by (subst unat_add_small) simp_all
  then show ?thesis using Init_ok [OF assms(1-5), of junk] by auto
qed

end
