(* ===== verification/SegmentSpec.thy ===== *)
theory SegmentSpec
  imports Segment ExtentSpec
begin

text \<open>
  What a segment promises: \<open>SegmentLayout::Init\<close> places the pool of objects, the extent's layout, its table and its buffers behind each
  other in the writable memory; the wait of an opening process ends after about one second; and \<open>segment_port_contract\<close> is
  what the base class relies on of the four virtual functions.
\<close>

section \<open>Initialisation of the layout\<close>

definition up128 :: "nat \<Rightarrow> nat" where
  "up128 n = (n + 127) div 128 * 128"

lemma up128_ge: "n \<le> up128 n" and up128_less: "up128 n < n + 128"
  using div_mult_mod_eq [of "n + 127" 128] mod_less_divisor [of 128 "n + 127"] unfolding up128_def by linarith+

lemma up128_multiple: "128 dvd n \<Longrightarrow> up128 n = n"
  by (auto simp: up128_def dvd_def)

lemma bit_ceil_128: "bit_ceil_spec bc \<Longrightarrow> bc (128 :: u64) = 128"
proof -
  assume "bit_ceil_spec bc"
  moreover have "\<forall>j<7. (2::nat) ^ j < unat (128 :: u64)" using power_strict_increasing [of _ 7 "2::nat"] by auto
  ultimately have "bc 128 = 2 ^ 7" unfolding bit_ceil_spec_def by (drule_tac spec [of _ 128], drule_tac spec [of _ 7]) auto
  then show ?thesis by simp
qed

lemma SegmentLayout_Allocate_eq:
  assumes "bit_ceil_spec (pf_bit_ceil pf)" and "unat n + 127 < 2 ^ 64"
  shows "\<exists>b. SegmentLayout_Allocate pf this n 128 l =
      (segment_data (pf_sizes pf) this + sg_space_used l, l\<lparr>sg_space_used := sg_space_used l + b\<rparr>) \<and> unat b = up128 (unat n)"
proof -
  have "unat (n + 127) = unat n + 127" using assms(2) by (subst unat_add_small) simp_all
  then have "unat ((n + 127) AND - 128) = up128 (unat n)"
    using unat_and_minus_pow2 [of "n + 127" 7] by (simp add: up128_def)
  then show ?thesis
    by (intro exI [of _ "(n + 127) AND - 128"]) (simp add: SegmentLayout_Allocate_def bit_ceil_128 [OF assms(1)] add_diff_eq [symmetric])
qed

lemma pool_schema:
  "schema_fields (FlatObjectQueue_GetStorageSchema bc st \<lparr>schema_fields = []\<rparr> n) =
     [\<lparr>field_id = 0, repeated_size = n, request_space_size = PlacementStorageSize bc 4 n\<rparr>,
      \<lparr>field_id = 1, repeated_size = n, request_space_size = st * n\<rparr>]"
  by (simp add: FlatObjectQueue_GetStorageSchema_def set_field_def vec_resize_def default_metadata_def Let_def numeral_2_eq_2)

text \<open>
  The memory a segment of \<open>n\<close> blocks of \<open>s\<close> bytes needs behind its header: the pool's ids and objects, and the extent with its ring,
  table and buffers. \<open>extent_base\<close> is where the extent starts.
\<close>

definition extent_base :: "shm_platform \<Rightarrow> u64 \<Rightarrow> nat \<Rightarrow> nat" where
  "extent_base pf this n = unat (segment_data (pf_sizes pf) this) + unat (PlacementStorageSize (pf_bit_ceil pf) 4 (of_nat n))
     + up128 (n * unat (sizeof_ShmObject (pf_sizes pf)))"

definition segment_room :: "shm_platform \<Rightarrow> shm_memory \<Rightarrow> u64 \<Rightarrow> nat \<Rightarrow> nat \<Rightarrow> bool" where
  "segment_room pf M this n s \<longleftrightarrow>
     0 < sizeof_ShmObject (pf_sizes pf) \<and> n * unat (sizeof_ShmObject (pf_sizes pf)) + 127 < 2 ^ 64
   \<and> unat (PlacementStorageSize (pf_bit_ceil pf) 4 (of_nat n)) + 127 < 2 ^ 64
   \<and> unat (ExtentLayout_GetRequestSize (pf_bit_ceil pf) (pf_sizes pf) (of_nat n) (of_nat s)) + 127 < 2 ^ 64
   \<and> mapped M this (sizeof_SegmentLayout (pf_sizes pf))
   \<and> unat (mm_first M) \<le> unat (segment_data (pf_sizes pf) this)
   \<and> 0 < extent_base pf this n
   \<and> extent_base pf this n + unat (sizeof_ExtentLayout (pf_sizes pf)) \<le> unat (mm_end M)
   \<and> extent_room (pf_bit_ceil pf) (pf_sizes pf) M (of_nat (extent_base pf this n)) n s"

text \<open>A layout after initialisation; the extent's address is that of \<open>GetExtentLayout\<close>.\<close>

definition segment_wf :: "shm_platform \<Rightarrow> shm_memory \<Rightarrow> u64 \<Rightarrow> nat \<Rightarrow> nat \<Rightarrow> SegmentLayout \<Rightarrow> bool" where
  "segment_wf pf M this n s l \<longleftrightarrow>
     sg_init l \<and> sg_magic_header l = SEGMENT_MAGIC_HEADER
   \<and> unat (sg_block_num l) = n \<and> unat (sg_block_size l) = s \<and> unat (ss_ceiling_msg_size (sg_state l)) = s
   \<and> pool_inv (sg_object_pool l) \<and> unat (fo_queue_capacity (sg_object_pool l)) = n
   \<and> unat (GetExtentLayout (pf_sizes pf) this l) = extent_base pf this n
   \<and> extent_wf (pf_sizes pf) M (GetExtentLayout (pf_sizes pf) this l) (sg_extent l)
   \<and> unat (el_block_num (sg_extent l)) = n \<and> unat (el_block_buffer_size (sg_extent l)) = s"

lemma cast_array_in: "mapped M p n \<Longrightarrow> \<exists>m. cast_array junk M sz p n = Some m \<and> length m = unat n div unat sz"
  by (simp add: cast_array_def)


lemma unat_mult_of_nat: "n * unat (a :: u64) < 2 ^ 64 \<Longrightarrow> unat (a * of_nat n) = n * unat a"
  by (simp add: unat_word_ariths unat_of_nat mod_mult_right_eq mult.commute)

text \<open>Placing the two buffers of the pool.\<close>

lemma segment_place_ok:
  assumes bc: "bit_ceil_spec (pf_bit_ceil pf)" and room: "segment_room pf M this n s" and "sg_space_used l = 0"
  defines "P \<equiv> PlacementStorageSize (pf_bit_ceil pf) 4 (of_nat n)"
  shows "\<exists>im om u. segment_place_fields pf M this
      (schema_fields (FlatObjectQueue_GetStorageSchema (pf_bit_ceil pf) (sizeof_ShmObject (pf_sizes pf)) \<lparr>schema_fields = []\<rparr> (of_nat n))) 0 l =
      Some ([IdBuffer (default_field_buffer\<lparr>fb_ptr := Some im\<rparr>), ObjectBuffer (default_field_buffer\<lparr>fb_ptr := Some om\<rparr>)],
            l\<lparr>sg_space_used := u\<rparr>)
    \<and> unat P \<le> length im * 4 \<and> n = length om \<and> unat u = unat P + up128 (n * unat (sizeof_ShmObject (pf_sizes pf)))"
proof -
  let ?D = "segment_data (pf_sizes pf) this" and ?st = "sizeof_ShmObject (pf_sizes pf)"
  have r: "0 < ?st" "n * unat ?st + 127 < 2 ^ 64" "unat P + 127 < 2 ^ 64" "unat (mm_first M) \<le> unat ?D"
    "unat ?D + unat P + up128 (n * unat ?st) \<le> unat (mm_end M)"
    using room by (auto simp: segment_room_def P_def extent_base_def)
  have e: "unat (mm_end M) < 2 ^ 64" using unat_less_2p [of "mm_end M"] by simp
  have dvd: "128 dvd unat P" unfolding P_def by (rule even_PlacementStorageSize)
  have on: "unat (?st * of_nat n) = n * unat ?st" using r(2) by (intro unat_mult_of_nat) simp
  have le: "n * unat ?st \<le> up128 (n * unat ?st)" by (rule up128_ge)
  obtain b where b: "SegmentLayout_Allocate pf this P 128 l = (?D, l\<lparr>sg_space_used := b\<rparr>)" "unat b = unat P"
    using SegmentLayout_Allocate_eq [OF bc r(3), of this l] assms(3) by (auto simp: up128_multiple [OF dvd])
  then have bP: "b = P" by (simp add: word_unat_eq_iff)
  obtain c where c: "SegmentLayout_Allocate pf this (?st * of_nat n) 128 (l\<lparr>sg_space_used := P\<rparr>) = (?D + P, l\<lparr>sg_space_used := P + c\<rparr>)"
    "unat c = up128 (n * unat ?st)"
    using SegmentLayout_Allocate_eq [OF bc, of "?st * of_nat n" this "l\<lparr>sg_space_used := P\<rparr>"] r(2) by (auto simp: on)
  have u: "unat (P + c) = unat P + up128 (n * unat ?st)" using r(5) e c(2) by (subst unat_add_small) simp_all
  have DP: "unat (?D + P) = unat ?D + unat P" using r(5) e by (subst unat_add_small) simp_all
  have m1: "mapped M ?D P" and m2: "mapped M (?D + P) (?st * of_nat n)"
    using r(4,5) le by (simp_all add: mapped_def DP on)
  obtain im where im: "cast_array (pf_junk_i32 pf) M 4 ?D P = Some im" "length im = unat P div 4"
    using cast_array_in [OF m1, of "pf_junk_i32 pf" 4] by auto
  obtain om where om: "cast_array (pf_junk_object pf) M ?st (?D + P) (?st * of_nat n) = Some om" "length om = n"
    using cast_array_in [OF m2, of "pf_junk_object pf" ?st] r(1) by (auto simp: on word_less_nat_alt)
  have "unat P \<le> length im * 4" using dvd by (auto simp: im(2) dvd_def)
  then show ?thesis
    using b(1) c(1) im(1) om u
    by (intro exI [of _ im] exI [of _ om] exI [of _ "P + c"]) (simp add: pool_schema P_def [symmetric] bP)
qed

lemma SegmentLayout_Init_ok:
  assumes bc: "bit_ceil_spec (pf_bit_ceil pf)" and room: "segment_room pf M this n s"
    and opt: "sopt_block_num opt = of_nat n" "sopt_block_size opt = of_nat s"
  shows "\<exists>l. SegmentLayout_Init pf M this opt SegmentLayout_new = Some l \<and> segment_wf pf M this n s l
    \<and> fo_free (sg_object_pool l) = map int [0..<n] \<and> fo_storage (sg_object_pool l) = Some (replicate n (pf_object pf))
    \<and> free_ids (sg_extent l) = [0..<n] \<and> ss_reference_count (sg_state l) = 0"
proof -
  let ?D = "segment_data (pf_sizes pf) this" and ?bc = "pf_bit_ceil pf" and ?sz = "pf_sizes pf"
  define l0 where "l0 = SegmentLayout_new\<lparr>sg_header_size := ucast (sizeof_SegmentLayout ?sz), sg_magic_header := SEGMENT_MAGIC_HEADER,
      sg_block_num := of_nat n, sg_block_size := of_nat s, sg_space_size := sopt_space_size opt,
      sg_state := SegmentState_new\<lparr>ss_segment_base_addr := this, ss_segment_size := sopt_space_size opt, ss_ceiling_msg_size := of_nat s\<rparr>\<rparr>"
  have xr: "extent_room ?bc ?sz M (of_nat (extent_base pf this n)) n s" using room by (simp add: segment_room_def)
  have ns: "n < 2 ^ 16" "s < 2 ^ 32" using xr by (simp_all add: extent_room_def)
  have c: "(ucast (of_nat n :: u64) :: u32) = of_nat n" "(ucast (of_nat s :: u64) :: u32) = of_nat s"
    "unat (of_nat n :: u32) = n" "unat (of_nat s :: u32) = s" "unat (of_nat n :: u64) = n" "unat (of_nat s :: u64) = s"
    using ns by (simp_all add: ucast_of_nat_small unat_of_nat_small)
  have c': "(ucast (of_nat n :: u32) :: u64) = of_nat n" "(ucast (of_nat s :: u32) :: u64) = of_nat s"
    by (simp_all add: word_unat_eq_iff unat_ucast_up c)
  from segment_place_ok [OF bc room, of l0] obtain im om u where
    pl: "segment_place_fields pf M this (schema_fields (FlatObjectQueue_GetStorageSchema ?bc (sizeof_ShmObject ?sz) \<lparr>schema_fields = []\<rparr> (of_nat n))) 0 l0 =
      Some ([IdBuffer (default_field_buffer\<lparr>fb_ptr := Some im\<rparr>), ObjectBuffer (default_field_buffer\<lparr>fb_ptr := Some om\<rparr>)], l0\<lparr>sg_space_used := u\<rparr>)"
    "unat (PlacementStorageSize ?bc 4 (of_nat n)) \<le> length im * 4" "length om = n"
    "unat u = unat (PlacementStorageSize ?bc 4 (of_nat n)) + up128 (n * unat (sizeof_ShmObject ?sz))"
    by (auto simp: l0_def SegmentLayout_new_def)
  from FlatObjectQueue.Initialize_ok [OF bc, of "of_nat n" "default_field_buffer\<lparr>fb_ptr := Some im\<rparr>" im
      "default_field_buffer\<lparr>fb_ptr := Some om\<rparr>" om "pf_object pf" None] pl(2,3) ns(1) obtain q where
    q: "FlatObjectQueue_Initialize ?bc (pf_object pf) None FlatObjectQueue_new (of_nat n)
      [IdBuffer (default_field_buffer\<lparr>fb_ptr := Some im\<rparr>), ObjectBuffer (default_field_buffer\<lparr>fb_ptr := Some om\<rparr>)] = Some (True, q)"
    "pool_inv q" "fo_queue_capacity q = of_nat n" "fo_free q = map int [0..<n]" "fo_storage q = Some (replicate n (pf_object pf))"
    by (auto simp: c)
  define x where "x = ExtentLayout_GetRequestSize ?bc ?sz (of_nat n) (of_nat s)"
  have "unat x + 127 < 2 ^ 64" using room by (simp add: segment_room_def x_def)
  from SegmentLayout_Allocate_eq [OF bc this, of this "l0\<lparr>sg_space_used := u, sg_object_pool := q\<rparr>"] obtain b where
    b: "SegmentLayout_Allocate pf this x 128 (l0\<lparr>sg_space_used := u, sg_object_pool := q\<rparr>) =
      (?D + u, l0\<lparr>sg_space_used := u, sg_object_pool := q, sg_space_used := u + b\<rparr>)" by auto
  have e: "extent_base pf this n + unat (sizeof_ExtentLayout ?sz) \<le> unat (mm_end M)" "unat (mm_end M) < 2 ^ 64" "0 < extent_base pf this n"
    "unat (mm_first M) \<le> unat ?D"
    using room unat_less_2p [of "mm_end M"] by (simp_all add: segment_room_def)
  have Du: "unat (?D + u) = extent_base pf this n"
    using e(1,2) pl(4) by (subst unat_add_small) (simp_all add: extent_base_def)
  then have Du': "of_nat (extent_base pf this n) = ?D + u" "?D + u \<noteq> 0" using e(3) by (auto simp: word_unat_eq_iff simp flip: Du)
  have m: "mapped M (?D + u) (sizeof_ExtentLayout ?sz)" using e by (simp add: mapped_def Du extent_base_def)
  let ?eo = "\<lparr>eo_offset = u, eo_base_addr = ?D + u, eo_size = x, eo_block_num = of_nat n, eo_block_size = of_nat s\<rparr>"
  from ExtentSpec.Init_ok [OF bc xr, of ?eo "pf_junk_u16 pf"] Du' obtain el where
    el: "ExtentLayout_Init ?bc (pf_junk_u16 pf) ?sz M (?D + u) ?eo ExtentLayout_new = Some (True, el)" "extent_wf ?sz M (?D + u) el"
    "free_ids el = [0..<n]" "unat (el_block_num el) = n" "unat (el_block_buffer_size el) = s" by auto
  have "SegmentLayout_Init pf M this opt SegmentLayout_new =
      Some (l0\<lparr>sg_space_used := u + b, sg_object_pool := q, sg_extent_offset := u, sg_extent := el, sg_init := True\<rparr>)"
    using pl(1) q(1) b el(1) m
    by (simp add: SegmentLayout_Init_def opt c c' SegmentLayout_new_def SetBlockSize_def SetSegmentSpan_def SegmentState_new_def
        l0_def x_def [symmetric])
  moreover have "segment_wf pf M this n s (l0\<lparr>sg_space_used := u + b, sg_object_pool := q, sg_extent_offset := u, sg_extent := el, sg_init := True\<rparr>)"
    using q el by (simp add: segment_wf_def l0_def c GetExtentLayout_def Du)
  ultimately show ?thesis using q(4,5) el(3) by (auto simp: l0_def SegmentState_new_def)
qed

section \<open>Waiting for the creator\<close>

text \<open>The world after \<open>k\<close> sleeps.\<close>

primrec after_sleeps :: "(nat \<Rightarrow> 'o shm_world \<Rightarrow> 'o shm_world) \<Rightarrow> nat \<Rightarrow> 'o shm_world \<Rightarrow> 'o shm_world" where
  "after_sleeps others 0 w = w"
| "after_sleeps others (Suc k) w = others (2 * k) (after_sleeps others k w)"

definition created :: "u64 \<Rightarrow> 'o shm_world \<Rightarrow> bool" where
  "created a w \<longleftrightarrow> ss_inited (sg_state (sw_layout w a))"

lemma wait_created_done: "created a w \<Longrightarrow> wait_created others a r w = (True, w)"
  by (subst wait_created.simps) (simp add: created_def)

lemma wait_created_sleep:
  assumes "\<not> created a (after_sleeps others j w)"
  shows "wait_created others a (2 * j) (after_sleeps others j w) =
    (if j < 1000 then wait_created others a (2 * Suc j) (after_sleeps others (Suc j) w) else (False, after_sleeps others (Suc j) w))"
  using assms by (subst wait_created.simps) (simp add: created_def)

lemma wait_created_from:
  assumes "j \<le> k" and "k \<le> 1000" and "\<forall>i. j \<le> i \<and> i < k \<longrightarrow> \<not> created a (after_sleeps others i w)"
  shows "wait_created others a (2 * j) (after_sleeps others j w) = wait_created others a (2 * k) (after_sleeps others k w)"
  using assms
proof (induction "k - j" arbitrary: j)
  case (Suc d)
  then have j: "j < k" "\<not> created a (after_sleeps others j w)" by auto
  have "wait_created others a (2 * j) (after_sleeps others j w) = wait_created others a (2 * Suc j) (after_sleeps others (Suc j) w)"
    using j Suc.prems(2) by (simp only: wait_created_sleep [OF j(2)]) simp
  also have "\<dots> = wait_created others a (2 * k) (after_sleeps others k w)"
    using Suc by (intro Suc.hyps(1)) auto
  finally show ?case .
qed simp

text \<open>
  C24: An opening process always stops waiting: if the creator's flag is up after \<open>k \<le> 1000\<close> sleeps of a millisecond, whatever other
  processes do meanwhile, the wait ends there, at the first such \<open>k\<close>; otherwise it gives up after 1001 sleeps (one second, not
  the two of the comment, since the counter goes up twice per round).
\<close>

theorem segment_open_wait_bounded:
  "(\<forall>k\<le>1000. created a (after_sleeps others k w) \<longrightarrow> (\<forall>i<k. \<not> created a (after_sleeps others i w)) \<longrightarrow>
      wait_created others a 0 w = (True, after_sleeps others k w))
   \<and> ((\<forall>k\<le>1000. \<not> created a (after_sleeps others k w)) \<longrightarrow> wait_created others a 0 w = (False, after_sleeps others 1001 w))"
proof (intro conjI allI impI)
  fix k
  assume "k \<le> 1000" "created a (after_sleeps others k w)" "\<forall>i<k. \<not> created a (after_sleeps others i w)"
  then show "wait_created others a 0 w = (True, after_sleeps others k w)"
    using wait_created_from [of 0 k a others w] by (simp add: wait_created_done)
next
  assume n: "\<forall>k\<le>1000. \<not> created a (after_sleeps others k w)"
  then have "wait_created others a 0 w = wait_created others a (2 * 1000) (after_sleeps others 1000 w)"
    using wait_created_from [of 0 1000 a others w] by simp
  also have "\<dots> = (False, after_sleeps others (Suc 1000) w)"
    using n by (subst wait_created_sleep) simp_all
  finally show "wait_created others a 0 w = (False, after_sleeps others 1001 w)" by simp
qed

theorem segment_open_wait_bounded_witness:
  "wait_created (\<lambda>i w. w\<lparr>sw_layout := \<lambda>_. SegmentLayout_new\<lparr>sg_state := SegmentState_new\<lparr>ss_inited := True\<rparr>\<rparr>\<rparr>) 64 0
      \<lparr>sw_os = (), sw_layout = \<lambda>_. SegmentLayout_new\<rparr> =
    (True, \<lparr>sw_os = (), sw_layout = \<lambda>_. SegmentLayout_new\<lparr>sg_state := SegmentState_new\<lparr>ss_inited := True\<rparr>\<rparr>\<rparr>)"
  using segment_open_wait_bounded [of 64 "\<lambda>i w. w\<lparr>sw_layout := \<lambda>_. SegmentLayout_new\<lparr>sg_state := SegmentState_new\<lparr>ss_inited := True\<rparr>\<rparr>\<rparr>"
      "\<lparr>sw_os = (), sw_layout = \<lambda>_. SegmentLayout_new\<rparr>"]
  by (drule_tac conjunct1, drule_tac spec [of _ 1]) (simp add: created_def SegmentLayout_new_def SegmentState_new_def)

section \<open>Opening\<close>

text \<open>The number of blocks \<open>InitPreOpen\<close> settles on.\<close>

definition settled_block_num :: "SegmentOption \<Rightarrow> u64" where
  "settled_block_num opt =
     (let c = ucast (ucast (sopt_space_size opt div sopt_block_size opt) :: u32) in
      if c < sopt_block_num opt \<or> sopt_block_num opt = 0 then c else sopt_block_num opt)"

text \<open>A segment object before it is opened: its options up to the settled number of blocks, where \<open>opt\<close> is what the constructor got.\<close>

definition unopened :: "shm_platform \<Rightarrow> SegmentOption \<Rightarrow> Segment \<Rightarrow> bool" where
  "unopened pf opt s \<longleftrightarrow> \<not> seg_inited s \<and> \<not> seg_open_flag s \<and> \<not> seg_create_flag s \<and> seg_page_size s = pf_page_size pf
     \<and> seg_head_protection_addr s = 0
     \<and> (\<exists>n\<in>{sopt_block_num opt, settled_block_num opt}.
          seg_opt s = opt\<lparr>sopt_space_size := sopt_space_size opt + pf_page_size pf * 2, sopt_block_num := n\<rparr>)"

definition option_ok :: "shm_platform \<Rightarrow> SegmentOption \<Rightarrow> bool" where
  "option_ok pf opt \<longleftrightarrow> 0 < pf_page_size pf \<and> 0 < sopt_block_size opt
     \<and> unat (sopt_space_size opt) + 2 * unat (pf_page_size pf) < 2 ^ 64"

lemma unopened_new:
  "0 < pf_page_size pf \<Longrightarrow> unopened pf opt (Segment_new pf opt)"
  by (simp add: unopened_def Segment_new_def SegmentProtectionSpaceSize_def Let_def)

lemma InitPreOpen_ok:
  assumes "option_ok pf opt" and "unopened pf opt s"
  shows "InitPreOpen pf s = Some (True, s\<lparr>seg_opt := opt\<lparr>sopt_space_size := sopt_space_size opt + pf_page_size pf * 2,
      sopt_block_num := settled_block_num opt\<rparr>, seg_segment_base_addr := sopt_base_addr opt\<rparr>)"
proof -
  have p: "pf_page_size pf \<noteq> 0" "sopt_block_size opt \<noteq> 0" using assms(1) by (auto simp: option_ok_def)
  have le: "\<not> sopt_space_size opt + pf_page_size pf * 2 < pf_page_size pf * 2"
  proof -
    have "unat (pf_page_size pf * 2) = 2 * unat (pf_page_size pf)"
      using assms(1) by (simp add: option_ok_def unat_word_ariths mult.commute)
    then have "unat (sopt_space_size opt + pf_page_size pf * 2) = unat (sopt_space_size opt) + 2 * unat (pf_page_size pf)"
      using assms(1) by (subst unat_add_small) (simp_all add: option_ok_def)
    then show ?thesis using \<open>unat (pf_page_size pf * 2) = _\<close> by (simp add: word_less_nat_alt)
  qed
  from assms(2) obtain n where n: "n = sopt_block_num opt \<or> n = settled_block_num opt"
    "seg_opt s = opt\<lparr>sopt_space_size := sopt_space_size opt + pf_page_size pf * 2, sopt_block_num := n\<rparr>" "seg_page_size s = pf_page_size pf"
    unfolding unopened_def by blast
  then show ?thesis
    using p le by (cases s) (auto simp: InitPreOpen_def SegmentProtectionSpaceSize_def settled_block_num_def Let_def split: if_splits)
qed

section \<open>A layout in use\<close>

text \<open>A layout that \<open>k\<close> processes have open and whose first \<open>j\<close> blocks are taken; and the members of a segment object on it.\<close>

definition live_layout :: "shm_platform \<Rightarrow> shm_memory \<Rightarrow> u64 \<Rightarrow> nat \<Rightarrow> nat \<Rightarrow> nat \<Rightarrow> nat \<Rightarrow> SegmentLayout \<Rightarrow> bool" where
  "live_layout pf M a n s k j l \<longleftrightarrow> segment_wf pf M a n s l \<and> ss_inited (sg_state l) \<and> ss_reference_count (sg_state l) = of_nat k
     \<and> j \<le> n \<and> free_ids (sg_extent l) = [j..<n]"

definition attached_view :: "shm_platform \<Rightarrow> u64 \<Rightarrow> SegmentLayout \<Rightarrow> Segment \<Rightarrow> bool" where
  "attached_view pf a l s \<longleftrightarrow> seg_inited s \<and> seg_metadata_layout s = a
     \<and> (\<exists>ex. seg_extent s = Some ex \<and> extent_view (pf_sizes pf) (GetExtentLayout (pf_sizes pf) a l) (sg_extent l) ex)"

text \<open>Block \<open>i\<close> of the segment at \<open>a\<close>.\<close>

definition segment_block :: "shm_platform \<Rightarrow> u64 \<Rightarrow> SegmentLayout \<Rightarrow> nat \<Rightarrow> WritableBlock" where
  "segment_block pf a l i = block_at (pf_sizes pf) (GetExtentLayout (pf_sizes pf) a l) (sg_extent l) i"

lemma live_layout_state:
  assumes "live_layout pf M a n s k j l" and "ss_inited st" and "ss_reference_count st = of_nat k'"
    and "ss_ceiling_msg_size st = ss_ceiling_msg_size (sg_state l)"
  shows "live_layout pf M a n s k' j (l\<lparr>sg_state := st\<rparr>)"
  using assms by (simp add: live_layout_def segment_wf_def GetExtentLayout_def)

lemma attached_view_state [simp]: "attached_view pf a (l\<lparr>sg_state := st\<rparr>) s = attached_view pf a l s"
  by (simp add: attached_view_def GetExtentLayout_def)

lemma attached_view_extent:
  "same_geometry (sg_extent l) el \<Longrightarrow> attached_view pf a (l\<lparr>sg_extent := el\<rparr>) s = attached_view pf a l s"
  by (simp add: attached_view_def GetExtentLayout_def same_geometry_view)

lemma segment_block_state [simp]: "segment_block pf a (l\<lparr>sg_state := st\<rparr>) = segment_block pf a l"
  by (simp add: segment_block_def GetExtentLayout_def fun_eq_iff)

lemma segment_block_extent: "same_geometry (sg_extent l) el \<Longrightarrow> segment_block pf a (l\<lparr>sg_extent := el\<rparr>) = segment_block pf a l"
  by (simp add: segment_block_def GetExtentLayout_def fun_eq_iff same_geometry_block_at)

lemma MakeExtent_ok:
  assumes "extent_wf (pf_sizes pf) M (GetExtentLayout (pf_sizes pf) a l) (sg_extent l)"
  shows "\<exists>ex. MakeExtent pf a l = Some ex \<and> extent_view (pf_sizes pf) (GetExtentLayout (pf_sizes pf) a l) (sg_extent l) ex"
  using Initialize_view [OF assms, of "Extent_new (pf_page_size pf)"] by (auto simp: MakeExtent_def Extent_new_def)

lemma InitPostCreate_ok:
  assumes bc: "bit_ceil_spec (pf_bit_ceil pf)" and room: "segment_room pf (segment_memory s) (seg_managed_shm_header s) n sz"
    and opt: "sopt_block_num (seg_opt s) = of_nat n" "sopt_block_size (seg_opt s) = of_nat sz"
  shows "\<exists>ex l. InitPostCreate pf s w =
      Some (True, s\<lparr>seg_metadata_layout := seg_managed_shm_header s, seg_extent := Some ex\<rparr>,
            w\<lparr>sw_layout := (sw_layout w)(seg_managed_shm_header s := l)\<rparr>)
    \<and> live_layout pf (segment_memory s) (seg_managed_shm_header s) n sz 1 0 l
    \<and> extent_view (pf_sizes pf) (GetExtentLayout (pf_sizes pf) (seg_managed_shm_header s) l) (sg_extent l) ex
    \<and> fo_free (sg_object_pool l) = map int [0..<n] \<and> fo_storage (sg_object_pool l) = Some (replicate n (pf_object pf))"
proof -
  from SegmentLayout_Init_ok [OF bc room opt] obtain l where
    l: "SegmentLayout_Init pf (segment_memory s) (seg_managed_shm_header s) (seg_opt s) SegmentLayout_new = Some l"
    "segment_wf pf (segment_memory s) (seg_managed_shm_header s) n sz l" "free_ids (sg_extent l) = [0..<n]"
    "ss_reference_count (sg_state l) = 0" "fo_free (sg_object_pool l) = map int [0..<n]"
    "fo_storage (sg_object_pool l) = Some (replicate n (pf_object pf))" by auto
  from MakeExtent_ok [of pf "segment_memory s" "seg_managed_shm_header s" l] l(2) obtain ex where
    ex: "MakeExtent pf (seg_managed_shm_header s) l = Some ex"
    "extent_view (pf_sizes pf) (GetExtentLayout (pf_sizes pf) (seg_managed_shm_header s) l) (sg_extent l) ex"
    by (auto simp: segment_wf_def)
  let ?st = "SegmentState_Init True (SetShmId (seg_shm_id s) (snd (SegmentState_IncreaseReferenceCount (sg_state l))))"
  have "live_layout pf (segment_memory s) (seg_managed_shm_header s) n sz 1 0 (l\<lparr>sg_state := ?st\<rparr>)"
    using l by (simp add: live_layout_def segment_wf_def GetExtentLayout_def SegmentState_Init_def SetShmId_def
        SegmentState_IncreaseReferenceCount_def)
  moreover have "mapped (segment_memory s) (seg_managed_shm_header s) (sizeof_SegmentLayout (pf_sizes pf))"
    using room by (simp add: segment_room_def)
  then have "InitPostCreate pf s w =
      Some (True, s\<lparr>seg_metadata_layout := seg_managed_shm_header s, seg_extent := Some ex\<rparr>,
            w\<lparr>sw_layout := (sw_layout w)(seg_managed_shm_header s := l\<lparr>sg_state := ?st\<rparr>)\<rparr>)"
    using l(1) ex(1) by (simp add: InitPostCreate_def Let_def)
  ultimately show ?thesis
    using ex(2) l(5,6) by (intro exI [of _ ex] exI [of _ "l\<lparr>sg_state := ?st\<rparr>"]) (simp add: GetExtentLayout_def)
qed

lemma InitPostOpen_ok:
  assumes "live_layout pf M (seg_managed_shm_header s) n sz k j (sw_layout w (seg_managed_shm_header s))"
  shows "\<exists>ex st. InitPostOpen pf others s w =
      Some (True, s\<lparr>seg_metadata_layout := seg_managed_shm_header s, seg_extent := Some ex\<rparr>,
            w\<lparr>sw_layout := (sw_layout w)(seg_managed_shm_header s := (sw_layout w (seg_managed_shm_header s))\<lparr>sg_state := st\<rparr>)\<rparr>)
    \<and> live_layout pf M (seg_managed_shm_header s) n sz (Suc k) j ((sw_layout w (seg_managed_shm_header s))\<lparr>sg_state := st\<rparr>)
    \<and> extent_view (pf_sizes pf) (GetExtentLayout (pf_sizes pf) (seg_managed_shm_header s) (sw_layout w (seg_managed_shm_header s)))
        (sg_extent (sw_layout w (seg_managed_shm_header s))) ex"
proof -
  let ?a = "seg_managed_shm_header s"
  let ?l = "sw_layout w ?a"
  let ?st = "snd (SegmentState_IncreaseReferenceCount (sg_state ?l))"
  from MakeExtent_ok [of pf M ?a ?l] assms obtain ex where
    ex: "MakeExtent pf ?a ?l = Some ex" "extent_view (pf_sizes pf) (GetExtentLayout (pf_sizes pf) ?a ?l) (sg_extent ?l) ex"
    by (auto simp: segment_wf_def live_layout_def)
  have "live_layout pf M ?a n sz (Suc k) j (?l\<lparr>sg_state := ?st\<rparr>)"
    using assms by (intro live_layout_state [OF assms]) (simp_all add: SegmentState_IncreaseReferenceCount_def live_layout_def add.commute)
  moreover have "wait_created others ?a 0 w = (True, w)"
    using assms by (intro wait_created_done) (simp add: created_def live_layout_def)
  then have "InitPostOpen pf others s w = Some (True, s\<lparr>seg_metadata_layout := ?a, seg_extent := Some ex\<rparr>,
      w\<lparr>sw_layout := (sw_layout w)(?a := ?l\<lparr>sg_state := ?st\<rparr>)\<rparr>)"
    using ex(1) by (simp add: InitPostOpen_def Let_def)
  ultimately show ?thesis using ex(2) by blast
qed

text \<open>Taking a block of an attached segment: the next one, if there is one left and the message fits.\<close>

lemma live_layout_extent:
  assumes "live_layout pf M a n sz k j l" and "same_geometry (sg_extent l) el"
    and "extent_wf (pf_sizes pf) M (GetExtentLayout (pf_sizes pf) a l) el" and "j' \<le> n" and "free_ids el = [j'..<n]"
  shows "live_layout pf M a n sz k j' (l\<lparr>sg_extent := el\<rparr>)"
proof -
  obtain r where "el = (sg_extent l)\<lparr>el_free_block_ids := r\<rparr>" using assms(2) by (auto simp: same_geometry_def)
  then show ?thesis using assms(1,3-5) by (simp add: live_layout_def segment_wf_def GetExtentLayout_def)
qed

lemma Segment_Acquire_live:
  assumes s: "attached_view pf a (sw_layout w a) s" and l: "live_layout pf M a n sz k j (sw_layout w a)"
  shows "\<exists>ok b el. Segment_AcquireBlockToWrite pf port others m (Some wb) s w =
        Some ((ok, b), s, w\<lparr>sw_layout := (sw_layout w)(a := (sw_layout w a)\<lparr>sg_extent := el\<rparr>)\<rparr>)
    \<and> same_geometry (sg_extent (sw_layout w a)) el
    \<and> live_layout pf M a n sz k (if ok then Suc j else j) ((sw_layout w a)\<lparr>sg_extent := el\<rparr>)
    \<and> (ok \<longrightarrow> b = Some (segment_block pf a (sw_layout w a) j)) \<and> (ok \<longleftrightarrow> j < n \<and> unat m \<le> sz)
    \<and> (\<not> ok \<longrightarrow> b = Some wb \<and> el = sg_extent (sw_layout w a))"
proof -
  let ?l = "sw_layout w a" and ?t = "GetExtentLayout (pf_sizes pf) a (sw_layout w a)"
  from s obtain ex where ex: "seg_extent s = Some ex" "extent_view (pf_sizes pf) ?t (sg_extent ?l) ex" "seg_inited s" "seg_metadata_layout s = a"
    by (auto simp: attached_view_def)
  from l have x: "extent_wf (pf_sizes pf) M ?t (sg_extent ?l)" "j \<le> n" "free_ids (sg_extent ?l) = [j..<n]"
    "unat (ss_ceiling_msg_size (sg_state ?l)) = sz" by (simp_all add: live_layout_def segment_wf_def)
  have c: "(ucast (CeilingMsgSize s w) :: u64) < m \<longleftrightarrow> \<not> unat m \<le> sz"
    by (simp add: CeilingMsgSize_def ex(4) word_less_nat_alt unat_ucast_up x(4) not_le)
  show ?thesis
  proof (cases "unat m \<le> sz \<and> j < n")
    case True
    then have "free_ids (sg_extent ?l) = j # [Suc j..<n]" by (simp add: x(3) upt_conv_Cons)
    from Acquire_some [OF x(1) ex(2) this, of m wb] obtain el where
      el: "Extent_AcquireBlockToWrite (pf_sizes pf) ex m (Some wb) (sg_extent ?l) = Some (True, Some (block_at (pf_sizes pf) ?t (sg_extent ?l) j), el)"
      "extent_wf (pf_sizes pf) M ?t el" "free_ids el = [Suc j..<n]" "same_geometry (sg_extent ?l) el" by blast
    have "Segment_AcquireBlockToWrite pf port others m (Some wb) s w =
        Some ((True, Some (segment_block pf a ?l j)), s, w\<lparr>sw_layout := (sw_layout w)(a := ?l\<lparr>sg_extent := el\<rparr>)\<rparr>)"
      using True el(1) ex(1,3,4) c
      by (simp add: Segment_AcquireBlockToWrite_def ensure_inited_def with_extent_def segment_block_def Let_def)
    then show ?thesis
      using True el(4) live_layout_extent [OF l el(4,2) _ el(3)] by (intro exI [of _ True] exI [of _ el] exI) simp
  next
    case False
    have "Segment_AcquireBlockToWrite pf port others m (Some wb) s w = Some ((False, Some wb), s, w)"
    proof (cases "unat m \<le> sz")
      case True
      with False x(2,3) have "free_ids (sg_extent ?l) = []" by simp
      then show ?thesis
        using True Acquire_none [OF x(1), of ex m wb] ex(1,3,4) c
        by (simp add: Segment_AcquireBlockToWrite_def ensure_inited_def with_extent_def Let_def)
    next
      case False
      then show ?thesis using ex(3) c by (simp add: Segment_AcquireBlockToWrite_def ensure_inited_def)
    qed
    then show ?thesis using False l by (intro exI [of _ False] exI [of _ "sg_extent ?l"] exI) auto
  qed
qed

end
