(* ===== verification/SegmentRun.thy ===== *)
theory SegmentRun
  imports SegmentSpec
begin

text \<open>
  Processes that share a segment. \<open>segment_port_contract\<close> is what the base class relies on of the virtual functions of its port; under
  it every run of the processes keeps the count of references equal to the number of processes that have the segment open, removes
  the memory with the last of them, and hands out every block once.
\<close>

section \<open>The processes\<close>

text \<open>
  The segment object of each process, the shared world, and the blocks handed out since the memory was created (forgotten when no process has it
  open any more). A process opens the segment, takes blocks to write or to read, and destroys its object.
\<close>

record 'o seg_system =
  sy_segs :: "Segment option list"
  sy_world :: "'o shm_world"
  sy_taken :: "WritableBlock list"

datatype seg_op = SegOpen nat bool | SegWrite nat u64 | SegRead nat u32 | SegClose nat

definition is_attached :: "Segment option \<Rightarrow> bool" where
  "is_attached s \<longleftrightarrow> (case s of None \<Rightarrow> False | Some s \<Rightarrow> seg_inited s)"

definition attached_num :: "Segment option list \<Rightarrow> nat" where
  "attached_num segs = length (filter is_attached segs)"

definition the_segment :: "Segment \<Rightarrow> Segment option list \<Rightarrow> nat \<Rightarrow> Segment" where
  "the_segment new segs p = (case segs ! p of None \<Rightarrow> new | Some s \<Rightarrow> s)"

fun op_process :: "seg_op \<Rightarrow> nat" where
  "op_process (SegOpen p create) = p"
| "op_process (SegWrite p n) = p"
| "op_process (SegRead p i) = p"
| "op_process (SegClose p) = p"

text \<open>The call of one process on its segment object, with the block it takes for writing.\<close>

fun seg_call :: "shm_platform \<Rightarrow> 'o segment_port \<Rightarrow> seg_op \<Rightarrow> Segment \<Rightarrow> 'o shm_world \<Rightarrow>
    (WritableBlock list \<times> Segment option \<times> 'o shm_world) option" where
  "seg_call pf port (SegOpen p create) s w = do {
     (_, s, w) \<leftarrow> Segment_Initialize pf port (\<lambda>_ w. w) create s w;
     Some ([], Some s, w) }"
| "seg_call pf port (SegWrite p n) s w = do {
     ((ok, b), s, w) \<leftarrow> Segment_AcquireBlockToWrite pf port (\<lambda>_ w. w) n (Some WritableBlock_new) s w;
     Some ((if ok then case b of Some b \<Rightarrow> [b] | None \<Rightarrow> [] else []), Some s, w) }"
| "seg_call pf port (SegRead p i) s w = do {
     (_, s, w) \<leftarrow> Segment_AcquireBlockToRead pf port (\<lambda>_ w. w) (Some (WritableBlock_new\<lparr>wb_block_index := i\<rparr>)) s w;
     Some ([], Some s, w) }"
| "seg_call pf port (SegClose p) s w =
     (let (_, s, w) = Segment_Destroy port s w; (s, os) = port_Reset port s (sw_os w) in Some ([], None, w\<lparr>sw_os := os\<rparr>))"

definition seg_step :: "shm_platform \<Rightarrow> 'o segment_port \<Rightarrow> Segment \<Rightarrow> seg_op \<Rightarrow> 'o seg_system \<Rightarrow> 'o seg_system option" where
  "seg_step pf port new op sy =
     (let p = op_process op in
      if length (sy_segs sy) \<le> p then Some sy
      else do {
        (bs, s, w) \<leftarrow> seg_call pf port op (the_segment new (sy_segs sy) p) (sy_world sy);
        let segs = (sy_segs sy)[p := s];
        Some \<lparr>sy_segs = segs, sy_world = w, sy_taken = (if attached_num segs = 0 then [] else sy_taken sy @ bs)\<rparr> })"

fun seg_run :: "shm_platform \<Rightarrow> 'o segment_port \<Rightarrow> Segment \<Rightarrow> seg_op list \<Rightarrow> 'o seg_system \<Rightarrow> 'o seg_system option" where
  "seg_run pf port new [] sy = Some sy"
| "seg_run pf port new (op # ops) sy = do { sy \<leftarrow> seg_step pf port new op sy; seg_run pf port new ops sy }"

fun op_in_range :: "nat \<Rightarrow> seg_op \<Rightarrow> bool" where
  "op_in_range n (SegRead p i) = (unat i < n)"
| "op_in_range n _ = True"

section \<open>The port\<close>

text \<open>What opening does to the members of the base class.\<close>

definition opened :: "u64 \<Rightarrow> bool \<Rightarrow> Segment \<Rightarrow> Segment \<Rightarrow> bool" where
  "opened head c s s' \<longleftrightarrow> (\<exists>id key. s' = s\<lparr>seg_open_flag := True, seg_create_flag := c, seg_shm_id := id,
     seg_head_protection_addr := head, seg_managed_shm_header := head + seg_page_size s, seg_key := key\<rparr>)"

text \<open>
  The contract. \<open>named\<close> holds of the members by which a port finds its memory, \<open>bound\<close> of these members once it has found
  it, \<open>live\<close> of an operating system in which the memory exists; \<open>ids\<close> is how often memory can still be created. \<open>head\<close> and \<open>space\<close> are the address and size of the memory.
\<close>

locale segment_port_contract =
  fixes port :: "'o segment_port" and named bound :: "i32 \<Rightarrow> string \<Rightarrow> bool" and live :: "'o \<Rightarrow> bool" and ids :: "'o \<Rightarrow> nat"
    and head :: u64 and space :: u64
  assumes open_live: "\<not> seg_open_flag s \<Longrightarrow> \<not> seg_create_flag s \<Longrightarrow> named (seg_key s) (seg_path s) \<Longrightarrow> seg_segment_base_addr s = head \<Longrightarrow>
      TotalSegmentSpaceSize s = space \<Longrightarrow> live os \<Longrightarrow>
      \<exists>s' os'. (if create then port_OpenOrCreate port s os else port_OpenOnly port s os) = (True, s', os') \<and> opened head False s s'
        \<and> bound (seg_key s') (seg_path s') \<and> live os' \<and> ids os' = ids os"
    and open_missing: "\<not> seg_open_flag s \<Longrightarrow> named (seg_key s) (seg_path s) \<Longrightarrow> \<not> live os \<Longrightarrow>
      \<exists>key os'. port_OpenOnly port s os = (False, s\<lparr>seg_key := key\<rparr>, os') \<and> named key (seg_path s) \<and> \<not> live os' \<and> ids os' = ids os"
    and create_missing: "\<not> seg_open_flag s \<Longrightarrow> \<not> seg_create_flag s \<Longrightarrow> named (seg_key s) (seg_path s) \<Longrightarrow> seg_segment_base_addr s = head \<Longrightarrow>
      TotalSegmentSpaceSize s = space \<Longrightarrow> \<not> live os \<Longrightarrow> 0 < ids os \<Longrightarrow>
      \<exists>s' os'. port_OpenOrCreate port s os = (True, s', os') \<and> opened head True s s'
        \<and> bound (seg_key s') (seg_path s') \<and> live os' \<and> Suc (ids os') = ids os"
    and remove_live: "bound (seg_key s) (seg_path s) \<Longrightarrow> live os \<Longrightarrow>
      \<exists>os'. port_Remove port s os = (True, os') \<and> \<not> live os' \<and> ids os' = ids os"
    and reset_keeps: "\<exists>s' os'. port_Reset port s os = (s', os') \<and> live os' = live os \<and> ids os' = ids os"

section \<open>Clients of a port\<close>

text \<open>All processes use the same option; the memory is large enough for the layout, the objects and the blocks.\<close>

locale segment_client = segment_port_contract port named bound live ids head space
  for port :: "'o segment_port" and named bound live ids head space +
  fixes pf :: shm_platform and opt :: SegmentOption and new :: Segment and n sz :: nat
  assumes bc: "bit_ceil_spec (pf_bit_ceil pf)"
    and option: "option_ok pf opt" "sopt_base_addr opt = head" "space = sopt_space_size opt + pf_page_size pf * 2"
      "settled_block_num opt = of_nat n" "sopt_block_size opt = of_nat sz"
    and new: "unopened pf opt new" "named (seg_key new) (seg_path new)"
    and room: "segment_room pf \<lparr>mm_first = head + pf_page_size pf, mm_end = head + space - pf_page_size pf\<rparr> (head + pf_page_size pf) n sz"
begin

abbreviation addr :: u64 where
  "addr \<equiv> head + pf_page_size pf"

abbreviation memory :: shm_memory where
  "memory \<equiv> \<lparr>mm_first = head + pf_page_size pf, mm_end = head + space - pf_page_size pf\<rparr>"

text \<open>The world when \<open>k\<close> processes have the segment open and \<open>j\<close> blocks are taken.\<close>

definition world_ok :: "'o shm_world \<Rightarrow> nat \<Rightarrow> nat \<Rightarrow> bool" where
  "world_ok w k j \<longleftrightarrow> (if k = 0 then \<not> live (sw_os w) else live (sw_os w) \<and> live_layout pf memory addr n sz k j (sw_layout w addr))"

definition seg_ok :: "'o shm_world \<Rightarrow> Segment \<Rightarrow> bool" where
  "seg_ok w s \<longleftrightarrow> (unopened pf opt s \<and> named (seg_key s) (seg_path s))
     \<or> (attached_view pf addr (sw_layout w addr) s \<and> bound (seg_key s) (seg_path s))"

text \<open>What the attached processes see does not change.\<close>

definition keeps :: "'o shm_world \<Rightarrow> 'o shm_world \<Rightarrow> bool" where
  "keeps w w' \<longleftrightarrow> attached_view pf addr (sw_layout w' addr) = attached_view pf addr (sw_layout w addr)
     \<and> segment_block pf addr (sw_layout w' addr) = segment_block pf addr (sw_layout w addr)"

lemma keeps_refl [simp]: "keeps w w" "keeps w (w\<lparr>sw_os := os\<rparr>)" "keeps w (w\<lparr>sw_layout := (sw_layout w)(addr := (sw_layout w addr)\<lparr>sg_state := st\<rparr>)\<rparr>)"
  by (simp_all add: keeps_def fun_eq_iff)

lemma keeps_trans: "keeps w w' \<Longrightarrow> keeps w' w'' \<Longrightarrow> keeps w w''"
  by (simp add: keeps_def)

lemma keeps_seg_ok: "keeps w w' \<Longrightarrow> seg_ok w' s = seg_ok w s"
  by (simp add: seg_ok_def keeps_def)

lemma opened_memory:
  assumes "unopened pf opt s" and "opened head c (s\<lparr>seg_opt := opt\<lparr>sopt_space_size := sopt_space_size opt + pf_page_size pf * 2,
      sopt_block_num := settled_block_num opt\<rparr>, seg_segment_base_addr := head\<rparr>) s'"
  shows "segment_memory s' = memory" "seg_managed_shm_header s' = addr" "sopt_block_num (seg_opt s') = of_nat n"
    "sopt_block_size (seg_opt s') = of_nat sz" "seg_create_flag s' = c" "\<not> seg_inited s'"
  using assms option by (auto simp: opened_def unopened_def segment_memory_def TotalSegmentSpaceSize_def)

text \<open>The three outcomes of \<open>Initialize\<close>.\<close>

lemma Initialize_live:
  assumes s: "unopened pf opt s" "named (seg_key s) (seg_path s)" and w: "world_ok w k j" "0 < k"
  shows "\<exists>s' w'. Segment_Initialize pf port others create s w = Some (True, s', w') \<and> world_ok w' (Suc k) j \<and> keeps w w'
    \<and> attached_view pf addr (sw_layout w' addr) s' \<and> bound (seg_key s') (seg_path s') \<and> ids (sw_os w') = ids (sw_os w)"
proof -
  let ?s = "s\<lparr>seg_opt := opt\<lparr>sopt_space_size := sopt_space_size opt + pf_page_size pf * 2, sopt_block_num := settled_block_num opt\<rparr>,
      seg_segment_base_addr := head\<rparr>"
  have live: "live (sw_os w)" "live_layout pf memory addr n sz k j (sw_layout w addr)" using w by (simp_all add: world_ok_def)
  have "\<exists>s' os'. (if create then port_OpenOrCreate port ?s (sw_os w) else port_OpenOnly port ?s (sw_os w)) = (True, s', os')
      \<and> opened head False ?s s' \<and> bound (seg_key s') (seg_path s') \<and> live os' \<and> ids os' = ids (sw_os w)"
    using s live(1) option(3) by (intro open_live) (simp_all add: unopened_def TotalSegmentSpaceSize_def)
  then obtain s' os' where o: "(if create then port_OpenOrCreate port ?s (sw_os w) else port_OpenOnly port ?s (sw_os w)) = (True, s', os')"
    "opened head False ?s s'" "bound (seg_key s') (seg_path s')" "live os'" "ids os' = ids (sw_os w)" by blast
  note m = opened_memory [OF s(1) o(2)]
  obtain ex st where p: "InitPostOpen pf others s' (w\<lparr>sw_os := os'\<rparr>) = Some (True, s'\<lparr>seg_metadata_layout := addr, seg_extent := Some ex\<rparr>,
      w\<lparr>sw_os := os', sw_layout := (sw_layout w)(addr := (sw_layout w addr)\<lparr>sg_state := st\<rparr>)\<rparr>)"
    "live_layout pf memory addr n sz (Suc k) j ((sw_layout w addr)\<lparr>sg_state := st\<rparr>)"
    "extent_view (pf_sizes pf) (GetExtentLayout (pf_sizes pf) addr (sw_layout w addr)) (sg_extent (sw_layout w addr)) ex"
    using InitPostOpen_ok [of pf memory s' n sz k j "w\<lparr>sw_os := os'\<rparr>" others] live(2) by (auto simp: m)
  have "Segment_Initialize pf port others create s w = Some (True, s'\<lparr>seg_metadata_layout := addr, seg_extent := Some ex, seg_inited := True\<rparr>,
      w\<lparr>sw_os := os', sw_layout := (sw_layout w)(addr := (sw_layout w addr)\<lparr>sg_state := st\<rparr>)\<rparr>)"
    using s(1) o(1) p(1) InitPreOpen_ok [OF option(1) s(1)]
    by (simp add: Segment_Initialize_def option(2) m unopened_def)
  then show ?thesis
    using o p(2,3) by (auto simp: world_ok_def attached_view_def keeps_def GetExtentLayout_def fun_eq_iff)
qed

lemma Initialize_create:
  assumes s: "unopened pf opt s" "named (seg_key s) (seg_path s)" and w: "\<not> live (sw_os w)" "0 < ids (sw_os w)"
  shows "\<exists>s' w'. Segment_Initialize pf port others True s w = Some (True, s', w') \<and> world_ok w' 1 0
    \<and> attached_view pf addr (sw_layout w' addr) s' \<and> bound (seg_key s') (seg_path s') \<and> Suc (ids (sw_os w')) = ids (sw_os w)"
proof -
  let ?s = "s\<lparr>seg_opt := opt\<lparr>sopt_space_size := sopt_space_size opt + pf_page_size pf * 2, sopt_block_num := settled_block_num opt\<rparr>,
      seg_segment_base_addr := head\<rparr>"
  have "\<exists>s' os'. port_OpenOrCreate port ?s (sw_os w) = (True, s', os') \<and> opened head True ?s s'
      \<and> bound (seg_key s') (seg_path s') \<and> live os' \<and> Suc (ids os') = ids (sw_os w)"
    using s w option(3) by (intro create_missing) (simp_all add: unopened_def TotalSegmentSpaceSize_def)
  then obtain s' os' where o: "port_OpenOrCreate port ?s (sw_os w) = (True, s', os')"
    "opened head True ?s s'" "bound (seg_key s') (seg_path s')" "live os'" "Suc (ids os') = ids (sw_os w)" by blast
  note m = opened_memory [OF s(1) o(2)]
  obtain ex l where p: "InitPostCreate pf s' (w\<lparr>sw_os := os'\<rparr>) = Some (True, s'\<lparr>seg_metadata_layout := addr, seg_extent := Some ex\<rparr>,
      w\<lparr>sw_os := os', sw_layout := (sw_layout w)(addr := l)\<rparr>)" "live_layout pf memory addr n sz 1 0 l"
    "extent_view (pf_sizes pf) (GetExtentLayout (pf_sizes pf) addr l) (sg_extent l) ex"
    using InitPostCreate_ok [OF bc, of s' n sz "w\<lparr>sw_os := os'\<rparr>"] room by (auto simp: m)
  have "Segment_Initialize pf port others True s w = Some (True, s'\<lparr>seg_metadata_layout := addr, seg_extent := Some ex, seg_inited := True\<rparr>,
      w\<lparr>sw_os := os', sw_layout := (sw_layout w)(addr := l)\<rparr>)"
    using s(1) o(1) p(1) InitPreOpen_ok [OF option(1) s(1)]
    by (simp add: Segment_Initialize_def option(2) m unopened_def)
  then show ?thesis using o p(2,3) by (auto simp: world_ok_def attached_view_def)
qed

lemma Initialize_missing:
  assumes s: "unopened pf opt s" "named (seg_key s) (seg_path s)" and w: "\<not> live (sw_os w)"
  shows "\<exists>s' w'. Segment_Initialize pf port others False s w = Some (False, s', w') \<and> world_ok w' 0 j \<and> keeps w w'
    \<and> unopened pf opt s' \<and> named (seg_key s') (seg_path s') \<and> ids (sw_os w') = ids (sw_os w)"
proof -
  let ?s = "s\<lparr>seg_opt := opt\<lparr>sopt_space_size := sopt_space_size opt + pf_page_size pf * 2, sopt_block_num := settled_block_num opt\<rparr>,
      seg_segment_base_addr := head\<rparr>"
  have "\<exists>key os'. port_OpenOnly port ?s (sw_os w) = (False, ?s\<lparr>seg_key := key\<rparr>, os') \<and> named key (seg_path ?s) \<and> \<not> live os' \<and> ids os' = ids (sw_os w)"
    using s w by (intro open_missing) (simp_all add: unopened_def)
  then obtain key os' where o: "port_OpenOnly port ?s (sw_os w) = (False, ?s\<lparr>seg_key := key\<rparr>, os')" "named key (seg_path s)"
    "\<not> live os'" "ids os' = ids (sw_os w)" by auto
  have "Segment_Initialize pf port others False s w = Some (False, ?s\<lparr>seg_key := key\<rparr>, w\<lparr>sw_os := os'\<rparr>)"
    using s(1) o(1) InitPreOpen_ok [OF option(1) s(1)] by (simp add: Segment_Initialize_def option(2) unopened_def)
  moreover have "unopened pf opt (?s\<lparr>seg_key := key\<rparr>)" using s(1) unfolding unopened_def by auto
  ultimately show ?thesis using o by (auto simp: world_ok_def keeps_def)
qed

text \<open>Calls on the extent of an attached segment.\<close>

lemma seg_ok_cases:
  assumes "seg_ok w s"
  obtains (unopened) "unopened pf opt s" "named (seg_key s) (seg_path s)" "\<not> seg_inited s"
  | (attached) "attached_view pf addr (sw_layout w addr) s" "bound (seg_key s) (seg_path s)" "seg_inited s"
  using assms by (auto simp: seg_ok_def unopened_def attached_view_def)

lemma acquire_write:
  assumes s: "attached_view pf addr (sw_layout w addr) s" and w: "world_ok w k j" "0 < k"
  shows "\<exists>ok b w'. Segment_AcquireBlockToWrite pf port others m (Some wb) s w = Some ((ok, b), s, w') \<and> keeps w w'
    \<and> world_ok w' k (if ok then Suc j else j) \<and> (ok \<longrightarrow> b = Some (segment_block pf addr (sw_layout w' addr) j)) \<and> sw_os w' = sw_os w"
proof -
  from w have "live_layout pf memory addr n sz k j (sw_layout w addr)" by (simp add: world_ok_def)
  from Segment_Acquire_live [OF s this, of port others m wb] obtain ok b el where
    a: "Segment_AcquireBlockToWrite pf port others m (Some wb) s w =
        Some ((ok, b), s, w\<lparr>sw_layout := (sw_layout w)(addr := (sw_layout w addr)\<lparr>sg_extent := el\<rparr>)\<rparr>)"
    "same_geometry (sg_extent (sw_layout w addr)) el"
    "live_layout pf memory addr n sz k (if ok then Suc j else j) ((sw_layout w addr)\<lparr>sg_extent := el\<rparr>)"
    "ok \<longrightarrow> b = Some (segment_block pf addr (sw_layout w addr) j)" by blast
  let ?w = "w\<lparr>sw_layout := (sw_layout w)(addr := (sw_layout w addr)\<lparr>sg_extent := el\<rparr>)\<rparr>"
  have "keeps w ?w" by (simp add: keeps_def fun_eq_iff attached_view_extent [OF a(2)] segment_block_extent [OF a(2)])
  moreover have "world_ok ?w k (if ok then Suc j else j)" using w a(3) by (simp add: world_ok_def)
  ultimately show ?thesis
    using a(1,4) by (intro exI [of _ ok] exI [of _ b] exI [of _ ?w]) (simp add: segment_block_extent [OF a(2)])
qed

lemma acquire_read:
  assumes s: "attached_view pf addr (sw_layout w addr) s" and w: "world_ok w k j" "0 < k" and i: "unat (wb_block_index rb) < n"
  shows "\<exists>b. Segment_AcquireBlockToRead pf port others (Some rb) s w = Some ((True, Some b), s, w)"
proof -
  let ?l = "sw_layout w addr" and ?t = "GetExtentLayout (pf_sizes pf) addr (sw_layout w addr)"
  from s obtain ex where ex: "seg_extent s = Some ex" "extent_view (pf_sizes pf) ?t (sg_extent ?l) ex" "seg_inited s" "seg_metadata_layout s = addr"
    by (auto simp: attached_view_def)
  from w have "unat (el_block_num (sg_extent ?l)) = n" by (simp add: world_ok_def live_layout_def segment_wf_def)
  with AcquireRead_ok [OF ex(2), of rb] i ex(1,3,4) show ?thesis
    by (simp add: Segment_AcquireBlockToRead_def ensure_inited_def with_extent_def Let_def)
qed

text \<open>Opening, as the other calls see it: afterwards the object is attached, or nothing has changed.\<close>

lemma Initialize_any:
  assumes s: "unopened pf opt s" "named (seg_key s) (seg_path s)" and w: "world_ok w k j" "k = 0 \<longrightarrow> j = 0" and "0 < ids (sw_os w)"
  shows "\<exists>ret s' w'. Segment_Initialize pf port others create s w = Some (ret, s', w') \<and> seg_ok w' s' \<and> (seg_inited s' \<longleftrightarrow> ret)
    \<and> world_ok w' (if ret then Suc k else k) j \<and> (0 < k \<longrightarrow> ret \<and> keeps w w') \<and> ids (sw_os w) \<le> Suc (ids (sw_os w')) \<and> (create \<longrightarrow> ret)"
proof (cases "0 < k")
  case True
  from Initialize_live [OF s w(1) True, of others create] obtain s' w' where
    "Segment_Initialize pf port others create s w = Some (True, s', w')" "world_ok w' (Suc k) j" "keeps w w'"
    "attached_view pf addr (sw_layout w' addr) s'" "bound (seg_key s') (seg_path s')" "ids (sw_os w') = ids (sw_os w)" by blast
  then show ?thesis by (intro exI [of _ True] exI [of _ s'] exI [of _ w']) (auto simp: seg_ok_def attached_view_def)
next
  case False
  then have k: "k = 0" "j = 0" "\<not> live (sw_os w)" using w by (auto simp: world_ok_def)
  show ?thesis
  proof (cases create)
    case True
    from Initialize_create [OF s k(3) assms(5), of others] obtain s' w' where
      "Segment_Initialize pf port others True s w = Some (True, s', w')" "world_ok w' 1 0"
      "attached_view pf addr (sw_layout w' addr) s'" "bound (seg_key s') (seg_path s')" "Suc (ids (sw_os w')) = ids (sw_os w)" by blast
    with k True show ?thesis by (intro exI [of _ True] exI [of _ s'] exI [of _ w']) (auto simp: seg_ok_def attached_view_def)
  next
    case False
    from Initialize_missing [OF s k(3), of others j] obtain s' w' where
      "Segment_Initialize pf port others False s w = Some (False, s', w')" "world_ok w' 0 j"
      "unopened pf opt s'" "named (seg_key s') (seg_path s')" "ids (sw_os w') = ids (sw_os w)" by blast
    with k False show ?thesis by (intro exI [of _ False] exI [of _ s'] exI [of _ w']) (auto simp: seg_ok_def unopened_def)
  qed
qed

section \<open>Runs\<close>

text \<open>One call: \<open>k'\<close> processes are attached after it, and the blocks \<open>bs\<close> it hands out are the next ones.\<close>

definition call_ok :: "'o shm_world \<Rightarrow> Segment \<Rightarrow> nat \<Rightarrow> nat \<Rightarrow> WritableBlock list \<times> Segment option \<times> 'o shm_world \<Rightarrow> bool" where
  "call_ok w s k j r \<longleftrightarrow> (case r of (bs, s', w') \<Rightarrow> \<exists>k'.
     k' + (if seg_inited s then 1 else 0) = k + (if is_attached s' then 1 else 0)
   \<and> (\<forall>x. s' = Some x \<longrightarrow> seg_ok w' x) \<and> world_ok w' k' (j + length bs) \<and> (0 < k \<and> 0 < k' \<longrightarrow> keeps w w')
   \<and> bs = map (segment_block pf addr (sw_layout w' addr)) [j..<j + length bs] \<and> (k' = 0 \<longrightarrow> bs = []) \<and> ids (sw_os w) \<le> Suc (ids (sw_os w')))"

lemma call_write:
  assumes ok: "seg_ok w s" and w: "world_ok w k j" "k = 0 \<longrightarrow> j = 0" "seg_inited s \<longrightarrow> 0 < k" "0 < ids (sw_os w)"
  shows "\<exists>r. seg_call pf port (SegWrite p m) s w = Some r \<and> call_ok w s k j r"
  using ok
proof (cases rule: seg_ok_cases)
  case attached
  then have k: "0 < k" using w(3) by blast
  from acquire_write [OF attached(1) w(1) k, of "\<lambda>_ w. w" m WritableBlock_new] obtain ok b w' where
    "Segment_AcquireBlockToWrite pf port (\<lambda>_ w. w) m (Some WritableBlock_new) s w = Some ((ok, b), s, w')" "keeps w w'"
    "world_ok w' k (if ok then Suc j else j)" "ok \<longrightarrow> b = Some (segment_block pf addr (sw_layout w' addr) j)" "sw_os w' = sw_os w" by blast
  then show ?thesis
    using attached ok k
    by (intro exI [of _ "((if ok then case b of Some b \<Rightarrow> [b] | None \<Rightarrow> [] else []), Some s, w')"])
      (auto simp: call_ok_def is_attached_def keeps_seg_ok split: if_splits)
next
  case unopened
  from Initialize_any [OF unopened(1,2) w(1,2,4), of "\<lambda>_ w. w" True] obtain s' w1 where
    i: "Segment_Initialize pf port (\<lambda>_ w. w) True s w = Some (True, s', w1)" "seg_ok w1 s'" "seg_inited s'" "world_ok w1 (Suc k) j"
    "0 < k \<longrightarrow> keeps w w1" "ids (sw_os w) \<le> Suc (ids (sw_os w1))" by auto
  from i(2) i(3) have a: "attached_view pf addr (sw_layout w1 addr) s'" by (cases rule: seg_ok_cases) simp_all
  have e: "Segment_AcquireBlockToWrite pf port (\<lambda>_ w. w) m (Some WritableBlock_new) s w =
      Segment_AcquireBlockToWrite pf port (\<lambda>_ w. w) m (Some WritableBlock_new) s' w1"
    using unopened(3) i(1,3) by (simp add: Segment_AcquireBlockToWrite_def ensure_inited_def)
  from acquire_write [OF a i(4), of "\<lambda>_ w. w" m WritableBlock_new] obtain ok b w' where
    "Segment_AcquireBlockToWrite pf port (\<lambda>_ w. w) m (Some WritableBlock_new) s' w1 = Some ((ok, b), s', w')" "keeps w1 w'"
    "world_ok w' (Suc k) (if ok then Suc j else j)" "ok \<longrightarrow> b = Some (segment_block pf addr (sw_layout w' addr) j)" "sw_os w' = sw_os w1" by auto
  then show ?thesis
    using unopened(3) i keeps_trans [of w w1 w']
    by (intro exI [of _ "((if ok then case b of Some b \<Rightarrow> [b] | None \<Rightarrow> [] else []), Some s', w')"])
      (auto simp: call_ok_def is_attached_def keeps_seg_ok e split: if_splits)
qed

lemma call_read:
  assumes ok: "seg_ok w s" and w: "world_ok w k j" "k = 0 \<longrightarrow> j = 0" "seg_inited s \<longrightarrow> 0 < k" "0 < ids (sw_os w)" and "unat i < n"
  shows "\<exists>r. seg_call pf port (SegRead p i) s w = Some r \<and> call_ok w s k j r"
  using ok
proof (cases rule: seg_ok_cases)
  case attached
  then have k: "0 < k" using w(3) by blast
  from acquire_read [OF attached(1) w(1) k, of "WritableBlock_new\<lparr>wb_block_index := i\<rparr>" "\<lambda>_ w. w"] assms(6) show ?thesis
    using attached ok k w(1) by (intro exI [of _ "([], Some s, w)"]) (auto simp: call_ok_def is_attached_def)
next
  case unopened
  from Initialize_any [OF unopened(1,2) w(1,2,4), of "\<lambda>_ w. w" False] obtain ret s' w1 where
    i: "Segment_Initialize pf port (\<lambda>_ w. w) False s w = Some (ret, s', w1)" "seg_ok w1 s'" "seg_inited s' \<longleftrightarrow> ret"
    "world_ok w1 (if ret then Suc k else k) j" "0 < k \<longrightarrow> ret \<and> keeps w w1" "ids (sw_os w) \<le> Suc (ids (sw_os w1))" by auto
  show ?thesis
  proof (cases ret)
    case True
    from i(2) i(3) True have a: "attached_view pf addr (sw_layout w1 addr) s'" by (cases rule: seg_ok_cases) simp_all
    have e: "Segment_AcquireBlockToRead pf port (\<lambda>_ w. w) rb s w = Segment_AcquireBlockToRead pf port (\<lambda>_ w. w) rb s' w1" for rb
      using unopened(3) i(1,3) True by (simp add: Segment_AcquireBlockToRead_def ensure_inited_def)
    from acquire_read [OF a, of "Suc k" j "WritableBlock_new\<lparr>wb_block_index := i\<rparr>" "\<lambda>_ w. w"] i True unopened(3) assms(6) show ?thesis
      by (intro exI [of _ "([], Some s', w1)"]) (auto simp: call_ok_def is_attached_def e)
  next
    case False
    then have "Segment_AcquireBlockToRead pf port (\<lambda>_ w. w) rb s w = Some ((False, rb), s', w1)" for rb
      using unopened(3) i(1) by (simp add: Segment_AcquireBlockToRead_def ensure_inited_def)
    then show ?thesis
      using i False unopened(3) by (intro exI [of _ "([], Some s', w1)"]) (auto simp: call_ok_def is_attached_def)
  qed
qed

lemma call_open:
  assumes ok: "seg_ok w s" and w: "world_ok w k j" "k = 0 \<longrightarrow> j = 0" "seg_inited s \<longrightarrow> 0 < k" "0 < ids (sw_os w)"
  shows "\<exists>r. seg_call pf port (SegOpen p create) s w = Some r \<and> call_ok w s k j r"
  using ok
proof (cases rule: seg_ok_cases)
  case attached
  then show ?thesis
    using ok w by (intro exI [of _ "([], Some s, w)"]) (auto simp: Segment_Initialize_def call_ok_def is_attached_def)
next
  case unopened
  from Initialize_any [OF unopened(1,2) w(1,2,4), of "\<lambda>_ w. w" create] obtain ret s' w1 where
    "Segment_Initialize pf port (\<lambda>_ w. w) create s w = Some (ret, s', w1)" "seg_ok w1 s'" "seg_inited s' \<longleftrightarrow> ret"
    "world_ok w1 (if ret then Suc k else k) j" "0 < k \<longrightarrow> ret \<and> keeps w w1" "ids (sw_os w) \<le> Suc (ids (sw_os w1))" by auto
  then show ?thesis
    using unopened(3) by (intro exI [of _ "([], Some s', w1)"]) (auto simp: call_ok_def is_attached_def split: if_splits)
qed

lemma count_down:
  assumes "0 < k" and "k < 2 ^ 32"
  shows "(of_nat k - 1 :: i32) = of_nat (k - 1)" and "(of_nat (k - 1) :: i32) = 0 \<longleftrightarrow> k = 1"
proof -
  show "(of_nat k - 1 :: i32) = of_nat (k - 1)" using assms(1) by (cases k) simp_all
  have "unat (of_nat (k - 1) :: i32) = k - 1" using assms(2) by (intro unat_of_nat_small) simp
  then have "(of_nat (k - 1) :: i32) = 0 \<longleftrightarrow> k - 1 = 0" unfolding word_unat_eq_iff by (simp only: unat_0)
  then show "(of_nat (k - 1) :: i32) = 0 \<longleftrightarrow> k = 1" using assms(1) by linarith
qed

lemma call_close:
  assumes ok: "seg_ok w s" and w: "world_ok w k j" "k = 0 \<longrightarrow> j = 0" "seg_inited s \<longrightarrow> 0 < k" and "k < 2 ^ 32"
  shows "\<exists>r. seg_call pf port (SegClose p) s w = Some r \<and> call_ok w s k j r"
  using ok
proof (cases rule: seg_ok_cases)
  case unopened
  from reset_keeps [of s "sw_os w"] obtain s' os' where r: "port_Reset port s (sw_os w) = (s', os')" "live os' = live (sw_os w)"
    "ids os' = ids (sw_os w)" by blast
  with unopened(3) w show ?thesis
    by (intro exI [of _ "([], None, w\<lparr>sw_os := os'\<rparr>)"]) (simp add: Segment_Destroy_def call_ok_def is_attached_def world_ok_def)
next
  case attached
  then have k: "0 < k" using w(3) by blast
  let ?l = "sw_layout w addr"
  let ?st = "(sg_state ?l)\<lparr>ss_reference_count := of_nat (k - 1)\<rparr>"
  let ?w = "w\<lparr>sw_layout := (sw_layout w)(addr := ?l\<lparr>sg_state := ?st\<rparr>)\<rparr>"
  have l: "live (sw_os w)" "live_layout pf memory addr n sz k j ?l" using w(1) k by (simp_all add: world_ok_def)
  have l': "live_layout pf memory addr n sz (k - 1) j (?l\<lparr>sg_state := ?st\<rparr>)"
    using l(2) by (intro live_layout_state [OF l(2)]) (simp_all add: live_layout_def)
  have dec: "DecreaseReferenceCount (sg_state ?l) = (of_nat (k - 1), ?st)"
    using l(2) by (simp only: DecreaseReferenceCount_def live_layout_def count_down(1) [OF k assms(5)])
  have d: "Segment_Destroy port s w = (True, s\<lparr>seg_inited := False\<rparr>,
      if k = 1 then ?w\<lparr>sw_os := snd (port_Remove port (s\<lparr>seg_inited := False\<rparr>) (sw_os w))\<rparr> else ?w)"
    using attached dec count_down(2) [OF k assms(5)] by (simp add: Segment_Destroy_def attached_view_def Let_def)
  show ?thesis
  proof (cases "k = 1")
    case True
    from remove_live [of "s\<lparr>seg_inited := False\<rparr>" "sw_os w"] attached(2) l(1) obtain os1 where
      r1: "port_Remove port (s\<lparr>seg_inited := False\<rparr>) (sw_os w) = (True, os1)" "\<not> live os1" "ids os1 = ids (sw_os w)" by auto
    from reset_keeps [of "s\<lparr>seg_inited := False\<rparr>" os1] obtain s2 os2 where
      r2: "port_Reset port (s\<lparr>seg_inited := False\<rparr>) os1 = (s2, os2)" "live os2 = live os1" "ids os2 = ids os1" by blast
    from d r1 r2 True attached(3) show ?thesis
      by (intro exI [of _ "([], None, ?w\<lparr>sw_os := os2\<rparr>)"]) (simp add: call_ok_def is_attached_def world_ok_def)
  next
    case False
    from reset_keeps [of "s\<lparr>seg_inited := False\<rparr>" "sw_os w"] obtain s2 os2 where
      r2: "port_Reset port (s\<lparr>seg_inited := False\<rparr>) (sw_os w) = (s2, os2)" "live os2 = live (sw_os w)" "ids os2 = ids (sw_os w)" by blast
    have "seg_call pf port (SegClose p) s w = Some ([], None, ?w\<lparr>sw_os := os2\<rparr>)" using d r2(1) False by simp
    moreover have "keeps w (?w\<lparr>sw_os := os2\<rparr>)" using keeps_refl(2,3) by (rule keeps_trans [rotated])
    moreover have "world_ok (?w\<lparr>sw_os := os2\<rparr>) (k - 1) j" using False k r2(2) l(1) l' by (simp add: world_ok_def)
    ultimately show ?thesis using k attached(3) r2(3)
      unfolding call_ok_def by (intro exI conjI) (assumption, auto intro!: exI [of _ "k - 1"] simp: is_attached_def)
  qed
qed

lemma call_any:
  assumes "seg_ok w s" and "world_ok w k j" "k = 0 \<longrightarrow> j = 0" "seg_inited s \<longrightarrow> 0 < k" "0 < ids (sw_os w)" "k < 2 ^ 32" "op_in_range n op"
  shows "\<exists>r. seg_call pf port op s w = Some r \<and> call_ok w s k j r"
  using assms call_open [of w s k j] call_write [of w s k j] call_read [of w s k j] call_close [of w s k j] by (cases op) simp_all

lemma attached_num_update:
  assumes "p < length segs"
  shows "attached_num (segs[p := x]) + (if is_attached (segs ! p) then 1 else 0) = attached_num segs + (if is_attached x then 1 else 0)"
proof -
  have "segs = take p segs @ segs ! p # drop (Suc p) segs" using assms by (rule id_take_nth_drop)
  then have "attached_num segs = attached_num (take p segs @ segs ! p # drop (Suc p) segs)" by simp
  then show ?thesis using assms by (simp add: attached_num_def upd_conv_take_nth_drop)
qed

lemma attached_num_pos: "p < length segs \<Longrightarrow> is_attached (segs ! p) \<Longrightarrow> 0 < attached_num segs"
  by (auto simp: attached_num_def filter_empty_conv)

text \<open>The states of the system.\<close>

definition system_ok :: "nat \<Rightarrow> 'o seg_system \<Rightarrow> bool" where
  "system_ok budget sy \<longleftrightarrow> length (sy_segs sy) < 2 ^ 32 \<and> (\<forall>s. Some s \<in> set (sy_segs sy) \<longrightarrow> seg_ok (sy_world sy) s)
     \<and> world_ok (sy_world sy) (attached_num (sy_segs sy)) (length (sy_taken sy)) \<and> (attached_num (sy_segs sy) = 0 \<longrightarrow> sy_taken sy = [])
     \<and> sy_taken sy = map (segment_block pf addr (sw_layout (sy_world sy) addr)) [0..<length (sy_taken sy)]
     \<and> budget \<le> ids (sw_os (sy_world sy))"

lemma step_ok:
  assumes ok: "system_ok (Suc b) sy" and r: "op_in_range n op"
  shows "\<exists>sy'. seg_step pf port new op sy = Some sy' \<and> system_ok b sy' \<and> length (sy_segs sy') = length (sy_segs sy)"
proof (cases "op_process op < length (sy_segs sy)")
  case False
  then show ?thesis using ok by (simp add: seg_step_def Let_def system_ok_def)
next
  case True
  let ?segs = "sy_segs sy" and ?w = "sy_world sy" and ?p = "op_process op" and ?j = "length (sy_taken sy)"
  let ?s = "the_segment new ?segs ?p" and ?k = "attached_num ?segs"
  have att: "is_attached (?segs ! ?p) = seg_inited ?s"
    using new(1) by (auto simp: is_attached_def the_segment_def unopened_def split: option.splits)
  have mem: "?segs ! ?p \<in> set ?segs" using True by (rule nth_mem)
  have sok: "seg_ok ?w ?s"
    using ok mem new by (cases "?segs ! ?p") (auto simp: the_segment_def system_ok_def seg_ok_def)
  have k: "?k \<le> length ?segs" unfolding attached_num_def by (rule length_filter_le)
  have "\<exists>r. seg_call pf port op ?s ?w = Some r \<and> call_ok ?w ?s ?k ?j r"
    using ok sok r k attached_num_pos [OF True] att by (intro call_any) (auto simp: system_ok_def)
  then obtain bs s' w' k' where c: "seg_call pf port op ?s ?w = Some (bs, s', w')"
    "k' + (if seg_inited ?s then 1 else 0) = ?k + (if is_attached s' then 1 else 0)"
    "\<forall>x. s' = Some x \<longrightarrow> seg_ok w' x" "world_ok w' k' (?j + length bs)" "0 < ?k \<and> 0 < k' \<longrightarrow> keeps ?w w'"
    "bs = map (segment_block pf addr (sw_layout w' addr)) [?j..<?j + length bs]" "k' = 0 \<longrightarrow> bs = []" "ids (sw_os ?w) \<le> Suc (ids (sw_os w'))"
    unfolding call_ok_def by (auto split: prod.splits)
  have k': "attached_num (?segs[?p := s']) = k'"
    using attached_num_update [OF True, of s'] c(2) by (simp add: att split: if_splits)
  let ?sy = "\<lparr>sy_segs = ?segs[?p := s'], sy_world = w', sy_taken = (if k' = 0 then [] else sy_taken sy @ bs)\<rparr>"
  have step: "seg_step pf port new op sy = Some ?sy" using True c(1) k' by (simp add: seg_step_def Let_def)
  have others: "seg_ok w' x" if "Some x \<in> set (?segs[?p := s'])" for x
  proof -
    from that obtain i where i: "i < length ?segs" "(?segs[?p := s']) ! i = Some x" by (auto simp: in_set_conv_nth)
    show ?thesis
    proof (cases "i = ?p")
      case True
      with i c(3) show ?thesis by simp
    next
      case False
      with i have x: "?segs ! i = Some x" by simp
      with i(1) ok have so: "seg_ok ?w x" by (auto simp: system_ok_def dest: nth_mem)
      then show ?thesis
      proof (cases rule: seg_ok_cases)
        case attached
        then have "is_attached (?segs ! i)" "is_attached (?segs[?p := s'] ! i)" using i(2) by (simp_all add: x is_attached_def)
        then have "0 < ?k" "0 < k'" using attached_num_pos [of i ?segs] attached_num_pos [of i "?segs[?p := s']"] i(1) k' by simp_all
        with so c(5) show ?thesis by (simp add: keeps_seg_ok)
      qed (simp add: seg_ok_def)
    qed
  qed
  have taken: "sy_taken sy @ bs = map (segment_block pf addr (sw_layout w' addr)) [0..<?j + length bs]" if "k' \<noteq> 0"
  proof (cases "?k = 0")
    case True
    then have "sy_taken sy = []" using ok by (simp add: system_ok_def)
    with c(6) show ?thesis by simp
  next
    case False
    then have "keeps ?w w'" using c(5) that by simp
    then have "sy_taken sy = map (segment_block pf addr (sw_layout w' addr)) [0..<?j]" using ok by (simp add: system_ok_def keeps_def)
    then show ?thesis using c(6) by (metis map_append upt_add_eq_append zero_le)
  qed
  have "system_ok b ?sy"
    using ok others taken c(4,7,8) k' by (auto simp: system_ok_def world_ok_def)
  with step show ?thesis by simp
qed

lemma run_ok:
  assumes "system_ok (length ops) sy" and "list_all (op_in_range n) ops"
  shows "\<exists>sy'. seg_run pf port new ops sy = Some sy' \<and> system_ok 0 sy' \<and> length (sy_segs sy') = length (sy_segs sy)"
  using assms
proof (induction ops arbitrary: sy)
  case (Cons op ops)
  from step_ok [of "length ops" sy op] Cons.prems obtain sy1 where
    "seg_step pf port new op sy = Some sy1" "system_ok (length ops) sy1" "length (sy_segs sy1) = length (sy_segs sy)" by auto
  with Cons.IH [of sy1] Cons.prems(2) show ?case by auto
qed (simp add: system_ok_def)

lemma start_ok:
  assumes "N < 2 ^ 32" and "\<not> live (sw_os w)" and "b \<le> ids (sw_os w)"
  shows "system_ok b \<lparr>sy_segs = replicate N None, sy_world = w, sy_taken = []\<rparr>"
  using assms by (simp add: system_ok_def world_ok_def attached_num_def is_attached_def)

text \<open>What holds after every run, in terms of the model.\<close>

lemma lifecycle:
  assumes "N < 2 ^ 32" and "\<not> live (sw_os w)" and "length ops \<le> ids (sw_os w)" and "list_all (op_in_range n) ops"
  shows "\<exists>sy. seg_run pf port new ops \<lparr>sy_segs = replicate N None, sy_world = w, sy_taken = []\<rparr> = Some sy
    \<and> (let l = sw_layout (sy_world sy) addr; k = attached_num (sy_segs sy) in
         (live (sw_os (sy_world sy)) \<longleftrightarrow> 0 < k)
       \<and> (0 < k \<longrightarrow> segment_wf pf memory addr n sz l \<and> ss_reference_count (sg_state l) = of_nat k
            \<and> length (sy_taken sy) \<le> n \<and> free_ids (sg_extent l) = [length (sy_taken sy)..<n])
       \<and> (k = 0 \<longrightarrow> sy_taken sy = [])
       \<and> sy_taken sy = map (segment_block pf addr l) [0..<length (sy_taken sy)]
       \<and> (\<forall>s. Some s \<in> set (sy_segs sy) \<and> seg_inited s \<longrightarrow> attached_view pf addr l s))"
proof -
  from run_ok [OF start_ok [OF assms(1-3)] assms(4)] obtain sy where
    sy: "seg_run pf port new ops \<lparr>sy_segs = replicate N None, sy_world = w, sy_taken = []\<rparr> = Some sy" "system_ok 0 sy" by blast
  then have "\<forall>s. Some s \<in> set (sy_segs sy) \<and> seg_inited s \<longrightarrow> attached_view pf addr (sw_layout (sy_world sy) addr) s"
    by (auto simp: system_ok_def seg_ok_def unopened_def)
  with sy show ?thesis by (auto simp: system_ok_def world_ok_def live_layout_def Let_def split: if_splits)
qed

end

end
