(* ===== verification/XsiSegmentRun.thy ===== *)
theory XsiSegmentRun
  imports XsiSegment SegmentRun ShmDomain
begin

text \<open>
  Segments in System V shared memory: \<open>XsiSegment\<close> meets the contract of a port on a System V table, at every address
  \<open>ShmDomain::GetSegment\<close> chooses, and so the processes that use one behave as \<open>SegmentRun\<close> says.
\<close>

definition ShmDomain_GetSegment :: "shm_platform \<Rightarrow> SegmentOption \<Rightarrow> ShmDomain \<Rightarrow> 'o world \<Rightarrow> (Segment \<times> SegmentOption \<times> 'o world) option" where
  "ShmDomain_GetSegment pf opt sd w = do {
     (seg_addr, w) \<leftarrow> ShmDomain_GetSegment_addr (sopt_name opt) sd w;
     let opt = opt\<lparr>sopt_base_addr := seg_addr\<rparr>;
     Some (XsiSegment_new pf opt, opt, w) }"

section \<open>System V calls\<close>

definition sysv_segment_calls :: "(string \<Rightarrow> u64) \<Rightarrow> sysv segment_calls" where
  "sysv_segment_calls hash = \<lparr>shmget_create_excl = sysv_create, shmget_open = sysv_open, shmat = (\<lambda>i a s. (a, s)), shmdt = (\<lambda>a s. s),
     shmctl_rmid = sysv_rmid, key_of = (\<lambda>p s. (ucast (hash p), s)), sys_mprotect = (\<lambda>a n s. (0, s)), sys_EnsureDirectory = (\<lambda>p s. s),
     sys_hash = hash\<rparr>"

abbreviation xsi_segments :: "(string \<Rightarrow> u64) \<Rightarrow> sysv segment_port" where
  "xsi_segments hash \<equiv> xsi_port (sysv_segment_calls hash)"

definition xsi_named :: "i32 \<Rightarrow> string \<Rightarrow> (string \<Rightarrow> u64) \<Rightarrow> i32 \<Rightarrow> string \<Rightarrow> bool" where
  "xsi_named K path hash key p \<longleftrightarrow> p = path \<and> ucast (hash path) = K \<and> (key = - 1 \<or> key = K)"

definition xsi_bound :: "i32 \<Rightarrow> string \<Rightarrow> i32 \<Rightarrow> string \<Rightarrow> bool" where
  "xsi_bound K path key p \<longleftrightarrow> p = path \<and> key = K"

definition sysv_live :: "i32 \<Rightarrow> sysv \<Rightarrow> bool" where
  "sysv_live K os \<longleftrightarrow> (case sv_table os K of None \<Rightarrow> False | Some (i, _) \<Rightarrow> i \<noteq> - 1)"

text \<open>How many identifiers are left for memory of \<open>space\<close> bytes.\<close>

definition sysv_ids :: "i32 \<Rightarrow> u64 \<Rightarrow> sysv \<Rightarrow> nat" where
  "sysv_ids K space os =
     (if (\<exists>n. sv_table os K = Some (- 1, n)) \<or> space = 0 \<or> sv_max os < space then 0 else 2 ^ 32 - 1 - unat (sv_next_id os))"

definition segment_head :: "nat \<Rightarrow> u64" where
  "segment_head i = SHM_SEGMENTDATA_BASE_ADDR + of_nat i * SHM_MAX_SEGMENT_SIZE"

lemma segment_head_not_minus_1: "segment_head i \<noteq> - 1"
proof
  assume "segment_head i = - 1"
  moreover have "even (segment_head i)"
    by (simp add: segment_head_def SHM_SEGMENTDATA_BASE_ADDR_def SHM_MAX_SEGMENT_SIZE_def)
  ultimately show False by simp
qed

lemma next_id_step:
  assumes "0 < 2 ^ 32 - 1 - unat (x :: i32)"
  shows "x \<noteq> - 1" "Suc (2 ^ 32 - 1 - unat (x + 1)) = 2 ^ 32 - 1 - unat x"
proof -
  show "x \<noteq> - 1" using assms by (auto simp: unsigned_minus_1_eq_mask mask_eq_exp_minus_1)
  have "unat (x + 1) = Suc (unat x)" using assms by (subst unat_add_small) simp_all
  then show "Suc (2 ^ 32 - 1 - unat (x + 1)) = 2 ^ 32 - 1 - unat x" using assms by simp
qed

lemmas xsi_segment_defs = xsi_port_def sysv_segment_calls_def XsiSegment_OpenOnly_def XsiSegment_OpenOrCreate_def XsiSegment_Remove_def
  XsiSegment_Reset_def XsiSegment_attach_def ensure_key_def protect_pages_def sysv_create_def sysv_open_def sysv_rmid_def

lemma xsi_OpenOnly_live:
  assumes "\<not> seg_open_flag s" "xsi_named K path hash (seg_key s) (seg_path s)" "seg_segment_base_addr s = segment_head i" "sysv_live K os"
  shows "XsiSegment_OpenOnly (sysv_segment_calls hash) s os = (True, s\<lparr>seg_key := K, seg_head_protection_addr := segment_head i,
      seg_managed_shm_header := segment_head i + seg_page_size s, seg_open_flag := True\<rparr>, os)"
  using assms segment_head_not_minus_1 [of i]
  by (cases s) (auto simp: xsi_segment_defs xsi_named_def sysv_live_def split: option.splits)

lemma xsi_OpenOrCreate_live:
  assumes "\<not> seg_open_flag s" "xsi_named K path hash (seg_key s) (seg_path s)" "seg_segment_base_addr s = segment_head i" "sysv_live K os"
  shows "XsiSegment_OpenOrCreate (sysv_segment_calls hash) s os = (True, s\<lparr>seg_key := K, seg_head_protection_addr := segment_head i,
      seg_managed_shm_header := segment_head i + seg_page_size s, seg_open_flag := True\<rparr>, os)"
proof -
  have e: "ensure_key (sysv_segment_calls hash) s os = (s\<lparr>seg_key := K\<rparr>, os)"
    using assms(2) by (cases s) (auto simp: xsi_named_def ensure_key_def sysv_segment_calls_def)
  have c: "shmget_create_excl (sysv_segment_calls hash) K n os = (- 1, EEXIST, os)" for n
    using assms(4) by (auto simp: sysv_segment_calls_def sysv_create_def sysv_live_def split: option.splits)
  have "xsi_named K path hash K (seg_path s)" using assms(2) by (simp add: xsi_named_def)
  then show ?thesis
    using assms c e xsi_OpenOnly_live [of "s\<lparr>seg_key := K\<rparr>" K path hash i os]
    by (simp add: XsiSegment_OpenOrCreate_def numeral_2_eq_2)
qed

lemma xsi_OpenOnly_missing:
  assumes "\<not> seg_open_flag s" "xsi_named K path hash (seg_key s) (seg_path s)" "\<not> sysv_live K os"
  shows "XsiSegment_OpenOnly (sysv_segment_calls hash) s os = (False, s\<lparr>seg_key := K\<rparr>, os)"
  using assms by (cases s) (auto simp: xsi_segment_defs xsi_named_def sysv_live_def split: option.splits)

lemma xsi_OpenOrCreate_missing:
  assumes "\<not> seg_open_flag s" "xsi_named K path hash (seg_key s) (seg_path s)" "seg_segment_base_addr s = segment_head i"
    "TotalSegmentSpaceSize s = space" "\<not> sysv_live K os" "0 < sysv_ids K space os"
  shows "XsiSegment_OpenOrCreate (sysv_segment_calls hash) s os = (True, s\<lparr>seg_key := K, seg_head_protection_addr := segment_head i,
      seg_managed_shm_header := segment_head i + seg_page_size s, seg_shm_id := sv_next_id os, seg_create_flag := True, seg_open_flag := True\<rparr>,
      os\<lparr>sv_table := (sv_table os)(K \<mapsto> (sv_next_id os, space)), sv_next_id := sv_next_id os + 1\<rparr>)"
proof -
  have n: "sv_table os K = None" "space \<noteq> 0" "\<not> sv_max os < space" "0 < 2 ^ 32 - 1 - unat (sv_next_id os)"
    using assms(5,6) by (auto simp: sysv_live_def sysv_ids_def split: option.splits if_splits)
  have e: "ensure_key (sysv_segment_calls hash) s os = (s\<lparr>seg_key := K\<rparr>, os)"
    using assms(2) by (cases s) (auto simp: xsi_named_def ensure_key_def sysv_segment_calls_def)
  have c: "shmget_create_excl (sysv_segment_calls hash) K space os =
      (sv_next_id os, EOTHER, os\<lparr>sv_table := (sv_table os)(K \<mapsto> (sv_next_id os, space)), sv_next_id := sv_next_id os + 1\<rparr>)"
    using n by (simp add: sysv_segment_calls_def sysv_create_def)
  have "TotalSegmentSpaceSize (s\<lparr>seg_key := K\<rparr>) = space" using assms(4) by (simp add: TotalSegmentSpaceSize_def)
  then show ?thesis
    using assms(1,3) e c next_id_step(1) [OF n(4)] segment_head_not_minus_1 [of i]
    by (simp add: XsiSegment_OpenOrCreate_def numeral_2_eq_2 XsiSegment_attach_def protect_pages_def sysv_segment_calls_def)
qed

interpretation xsi: segment_port_contract "xsi_segments hash" "xsi_named K path hash" "xsi_bound K path" "sysv_live K" "sysv_ids K space"
  "segment_head i" space
proof (unfold_locales, goal_cases)
  case (1 s os create)
  then show ?case
    using xsi_OpenOnly_live [OF 1(1,3,4,6)] xsi_OpenOrCreate_live [OF 1(1,3,4,6)]
    by (cases s) (auto simp: xsi_port_def opened_def xsi_bound_def xsi_named_def)
next
  case (2 s os)
  then show ?case using xsi_OpenOnly_missing [OF 2] by (auto simp: xsi_port_def xsi_named_def)
next
  case (3 s os)
  then have "\<not> (\<exists>n. sv_table os K = Some (- 1, n))" "space \<noteq> 0" "\<not> sv_max os < space" "0 < 2 ^ 32 - 1 - unat (sv_next_id os)"
    by (auto simp: sysv_ids_def split: if_splits)
  then show ?case
    using 3 xsi_OpenOrCreate_missing [OF 3(1,3-7)] next_id_step [of "sv_next_id os"]
    by (cases s) (auto simp: xsi_port_def opened_def xsi_bound_def xsi_named_def sysv_live_def sysv_ids_def)
next
  case (4 s os)
  then show ?case by (auto simp: xsi_port_def XsiSegment_Remove_def sysv_segment_calls_def sysv_open_def sysv_rmid_def xsi_bound_def
        sysv_live_def sysv_ids_def split: option.splits)
next
  case (5 s os)
  then show ?case by (simp add: xsi_port_def XsiSegment_Reset_def sysv_segment_calls_def)
qed

section \<open>Processes that share a segment\<close>

text \<open>The writable memory of a segment at \<open>head\<close>, between its protected pages.\<close>

definition segment_range :: "shm_platform \<Rightarrow> SegmentOption \<Rightarrow> u64 \<Rightarrow> shm_memory" where
  "segment_range pf opt head = \<lparr>mm_first = head + pf_page_size pf,
     mm_end = head + (sopt_space_size opt + pf_page_size pf * 2) - pf_page_size pf\<rparr>"

definition segment_fits :: "shm_platform \<Rightarrow> SegmentOption \<Rightarrow> nat \<Rightarrow> nat \<Rightarrow> nat \<Rightarrow> bool" where
  "segment_fits pf opt i n sz \<longleftrightarrow> bit_ceil_spec (pf_bit_ceil pf) \<and> option_ok pf opt \<and> sopt_base_addr opt = segment_head i
     \<and> settled_block_num opt = of_nat n \<and> sopt_block_size opt = of_nat sz
     \<and> segment_room pf (segment_range pf opt (segment_head i)) (segment_head i + pf_page_size pf) n sz"

lemma xsi_segment_client:
  assumes "segment_fits pf opt i n sz" and "K = ucast (hash (xsi_segment_path opt))"
  shows "segment_client (xsi_segments hash) (xsi_named K (xsi_segment_path opt) hash) (xsi_bound K (xsi_segment_path opt)) (sysv_live K)
    (sysv_ids K (sopt_space_size opt + pf_page_size pf * 2)) (segment_head i) (sopt_space_size opt + pf_page_size pf * 2) pf opt
    (XsiSegment_new pf opt) n sz"
proof -
  have u: "unopened pf opt (XsiSegment_new pf opt)"
    using unopened_new [of pf opt] assms(1) by (auto simp: XsiSegment_new_def segment_fits_def option_ok_def unopened_def)
  have nm: "xsi_named K (xsi_segment_path opt) hash (seg_key (XsiSegment_new pf opt)) (seg_path (XsiSegment_new pf opt))"
    using assms(2) by (simp add: xsi_named_def XsiSegment_new_def Segment_new_def SegmentProtectionSpaceSize_def Let_def)
  show ?thesis
    using assms(1) u nm by unfold_locales (simp_all add: segment_fits_def segment_range_def)
qed

lemma taken_apart:
  assumes "segment_wf pf M a n sz l" and "j < n" "i < n" "i \<noteq> j"
  shows "buffer_bytes (sg_extent l) (segment_block pf a l i) \<inter> buffer_bytes (sg_extent l) (segment_block pf a l j) = {}"
  unfolding segment_block_def using assms by (intro buffers_apart(1)) (auto simp: segment_wf_def)

text \<open>
  C6: Processes that share a segment: whatever sequence of opening (with or without permission to create), taking blocks for writing and
  reading and destroying segment objects \<open>N\<close> processes go through, every call returns without touching memory outside the segment; the
  shared memory exists exactly while some process has the segment open, and its reference count is the number of these processes; the layout
  stays well-formed and every open segment object agrees with it; the blocks taken since the memory was created are the first
  ones, each once, with disjoint buffers.
\<close>

theorem segment_lifecycle:
  assumes fits: "segment_fits pf opt i n sz" and K: "K = ucast (hash (xsi_segment_path opt))" and "N < 2 ^ 32"
    and os: "\<not> sysv_live K os" "length ops \<le> sysv_ids K (sopt_space_size opt + pf_page_size pf * 2) os"
    and ops: "list_all (op_in_range n) ops"
  shows "\<exists>sy. seg_run pf (xsi_segments hash) (XsiSegment_new pf opt) ops
        \<lparr>sy_segs = replicate N None, sy_world = \<lparr>sw_os = os, sw_layout = layouts\<rparr>, sy_taken = []\<rparr> = Some sy
    \<and> (let a = segment_head i + pf_page_size pf; l = sw_layout (sy_world sy) a; k = attached_num (sy_segs sy) in
         (sysv_live K (sw_os (sy_world sy)) \<longleftrightarrow> 0 < k)
       \<and> (0 < k \<longrightarrow> segment_wf pf (segment_range pf opt (segment_head i)) a n sz l \<and> ss_reference_count (sg_state l) = of_nat k
            \<and> length (sy_taken sy) \<le> n \<and> free_ids (sg_extent l) = [length (sy_taken sy)..<n])
       \<and> sy_taken sy = map (segment_block pf a l) [0..<length (sy_taken sy)]
       \<and> (\<forall>s. Some s \<in> set (sy_segs sy) \<and> seg_inited s \<longrightarrow> attached_view pf a l s)
       \<and> (\<forall>x<length (sy_taken sy). \<forall>y<x. buffer_bytes (sg_extent l) (sy_taken sy ! x) \<inter> buffer_bytes (sg_extent l) (sy_taken sy ! y) = {}))"
proof -
  note c = segment_client.lifecycle [OF xsi_segment_client [where hash = hash, OF fits K], of N "\<lparr>sw_os = os, sw_layout = layouts\<rparr>" ops, folded segment_range_def]
  from c assms(3) os ops obtain sy where
    sy: "seg_run pf (xsi_segments hash) (XsiSegment_new pf opt) ops
        \<lparr>sy_segs = replicate N None, sy_world = \<lparr>sw_os = os, sw_layout = layouts\<rparr>, sy_taken = []\<rparr> = Some sy"
    and facts: "let a = segment_head i + pf_page_size pf; l = sw_layout (sy_world sy) a; k = attached_num (sy_segs sy) in
         (sysv_live K (sw_os (sy_world sy)) \<longleftrightarrow> 0 < k)
       \<and> (0 < k \<longrightarrow> segment_wf pf (segment_range pf opt (segment_head i)) a n sz l \<and> ss_reference_count (sg_state l) = of_nat k
            \<and> length (sy_taken sy) \<le> n \<and> free_ids (sg_extent l) = [length (sy_taken sy)..<n])
       \<and> (k = 0 \<longrightarrow> sy_taken sy = [])
       \<and> sy_taken sy = map (segment_block pf a l) [0..<length (sy_taken sy)]
       \<and> (\<forall>s. Some s \<in> set (sy_segs sy) \<and> seg_inited s \<longrightarrow> attached_view pf a l s)"
    unfolding segment_range_def by auto
  let ?a = "segment_head i + pf_page_size pf"
  let ?l = "sw_layout (sy_world sy) ?a"
  have "buffer_bytes (sg_extent ?l) (sy_taken sy ! x) \<inter> buffer_bytes (sg_extent ?l) (sy_taken sy ! y) = {}"
    if "x < length (sy_taken sy)" "y < x" for x y
  proof -
    have "sy_taken sy \<noteq> []" using that by auto
    with facts have wf: "segment_wf pf (segment_range pf opt (segment_head i)) ?a n sz ?l" "length (sy_taken sy) \<le> n"
      and t: "sy_taken sy = map (segment_block pf ?a ?l) [0..<length (sy_taken sy)]" by (auto simp: Let_def)
    have "sy_taken sy ! z = segment_block pf ?a ?l z" if "z < length (sy_taken sy)" for z
      using arg_cong [OF t, of "\<lambda>xs. xs ! z"] that by simp
    then show ?thesis using that wf(2) taken_apart [OF wf(1), of y x] by simp
  qed
  with sy facts show ?thesis by (auto simp: Let_def)
qed

text \<open>
  The number of blocks \<open>InitPreOpen\<close> chooses when the option gives none fills the whole writable space with buffers: since the header, the
  pool and the table come first, the buffers end behind the writable memory, whatever their start \<open>b\<close>.
\<close>

lemma settled_blocks_overrun:
  assumes "option_ok pf opt" and "sopt_block_num opt = 0" and "unat (sopt_space_size opt) = m * unat (sopt_block_size opt)" and "m < 2 ^ 32"
    and "unat head + unat (pf_page_size pf) + unat (sopt_space_size opt) < 2 ^ 64"
    and "unat (mm_first (segment_range pf opt head)) < unat (b :: u64)"
  shows "settled_block_num opt = of_nat m"
    and "unat (mm_end (segment_range pf opt head)) < unat b + m * unat (sopt_block_size opt)"
proof -
  have "0 < unat (sopt_block_size opt)" using assms(1) by (simp add: option_ok_def word_less_nat_alt)
  then have "unat (sopt_space_size opt div sopt_block_size opt) = m" by (simp add: unat_div assms(3))
  then have "sopt_space_size opt div sopt_block_size opt = of_nat m" using assms(4) by (simp add: word_unat_eq_iff unat_of_nat_small)
  moreover have "(ucast (of_nat m :: u32) :: u64) = of_nat m"
    using assms(4) by (simp add: word_unat_eq_iff unat_ucast_up unat_of_nat_small)
  ultimately show "settled_block_num opt = of_nat m"
    using assms(2,4) by (simp add: settled_block_num_def ucast_of_nat_small)
  have "mm_end (segment_range pf opt head) = head + pf_page_size pf + sopt_space_size opt"
    by (simp add: segment_range_def algebra_simps)
  moreover have "unat (head + pf_page_size pf) = unat head + unat (pf_page_size pf)" using assms(5) by (subst unat_add_small) simp_all
  ultimately have "unat (mm_end (segment_range pf opt head)) = unat (head + pf_page_size pf) + unat (sopt_space_size opt)"
    using assms(5) by (subst \<open>mm_end _ = _\<close>) (subst unat_add_small, simp_all)
  then show "unat (mm_end (segment_range pf opt head)) < unat b + m * unat (sopt_block_size opt)"
    using assms(3,6) by (simp add: segment_range_def)
qed

section \<open>A configuration\<close>

text \<open>Two blocks of 1 KB in a segment of 16 KB, on pages of 4 KB.\<close>

definition sample_platform :: shm_platform where
  "sample_platform = \<lparr>pf_bit_ceil = bit_ceil_ref, pf_sizes = sample_sizes, pf_junk_u16 = (\<lambda>_. 0), pf_junk_i32 = (\<lambda>_. 0),
     pf_junk_object = (\<lambda>_. sample_object 0), pf_object = sample_object 0, pf_page_size = 4096\<rparr>"

definition sample_option :: SegmentOption where
  "sample_option = \<lparr>sopt_name = ''points'', sopt_channel_id = 5, sopt_domain_id = 1, sopt_base_addr = segment_head 3, sopt_space_size = 16384,
     sopt_block_num = 2, sopt_block_size = 1024\<rparr>"

lemma sample_fits: "segment_fits sample_platform sample_option 3 2 1024"
proof -
  have "segment_room sample_platform (segment_range sample_platform sample_option (segment_head 3)) (segment_head 3 + 4096) 2 1024"
    by (simp add: segment_room_def segment_range_def sample_platform_def sample_option_def sample_sizes_def segment_head_def
        SHM_SEGMENTDATA_BASE_ADDR_def SHM_MAX_SEGMENT_SIZE_def PlacementStorageSize_def AlignedNum_def AlignmentSize_def bit_ceil_ref_def
        GetRequestSize_eq mapped_def segment_data_def extent_base_def up128_def extent_room_def extent_data_def)
  then show ?thesis
    by (simp add: segment_fits_def sample_platform_def sample_option_def bit_ceil_ref_spec option_ok_def settled_block_num_def)
qed

interpretation sample: segment_client "xsi_segments (\<lambda>_. 77)" "xsi_named 77 (xsi_segment_path sample_option) (\<lambda>_. 77)"
  "xsi_bound 77 (xsi_segment_path sample_option)" "sysv_live 77" "sysv_ids 77 (sopt_space_size sample_option + pf_page_size sample_platform * 2)"
  "segment_head 3" "sopt_space_size sample_option + pf_page_size sample_platform * 2" sample_platform sample_option
  "XsiSegment_new sample_platform sample_option" 2 1024
  by (rule xsi_segment_client [OF sample_fits]) simp

theorem segment_lifecycle_witness:
  "\<exists>sy. seg_run sample_platform (xsi_segments (\<lambda>_. 77)) (XsiSegment_new sample_platform sample_option)
        [SegOpen 1 False, SegOpen 0 True, SegWrite 0 10, SegWrite 1 10, SegRead 1 0, SegClose 0, SegClose 1]
        \<lparr>sy_segs = replicate 2 None, sy_world = \<lparr>sw_os = \<lparr>sv_table = (\<lambda>_. None), sv_next_id = 0, sv_max = 0x100000\<rparr>,
           sw_layout = (\<lambda>_. SegmentLayout_new)\<rparr>, sy_taken = []\<rparr> = Some sy
    \<and> (sysv_live 77 (sw_os (sy_world sy)) \<longleftrightarrow> 0 < attached_num (sy_segs sy))"
  using segment_lifecycle [OF sample_fits, where hash = "\<lambda>_. 77" and K = 77 and N = 2 and layouts = "\<lambda>_. SegmentLayout_new"
      and os = "\<lparr>sv_table = (\<lambda>_. None), sv_next_id = 0, sv_max = 0x100000\<rparr>"
      and ops = "[SegOpen 1 False, SegOpen 0 True, SegWrite 0 10, SegWrite 1 10, SegRead 1 0, SegClose 0, SegClose 1]"]
  by (auto simp: sysv_live_def sysv_ids_def sample_option_def sample_platform_def Let_def)

end
