(* ===== verification/ShmArena.thy ===== *)
theory ShmArena
  imports SegmentSpec
begin

text \<open>
  \<open>shm/arena/shm_arena.h\<close> and \<open>shm_arena.cc\<close>: a page allocator whose pages are blocks of a segment, all recorded in one object of the segment's
  pool. The object is its position in the pool; \<open>None\<close> is \<open>nullptr\<close>, and an access to it is undefined. The
  memory resource that cuts messages from the pages is protobuf's and not part of the arena's own state.
\<close>

record ShmArena =
  ar_inited :: bool
  ar_is_owner :: bool
  ar_block_size :: u64
  ar_block_index_table :: "u32 list"
  ar_segment :: "Segment option"
  ar_object :: "int option"

definition ShmArena_new :: ShmArena where
  "ShmArena_new = \<lparr>ar_inited = False, ar_is_owner = True, ar_block_size = 4096, ar_block_index_table = [], ar_segment = None, ar_object = None\<rparr>"

text \<open>Change the object at position \<open>i\<close> of the pool of the segment.\<close>

definition change_object :: "(ShmObject \<Rightarrow> ShmObject option) \<Rightarrow> int option \<Rightarrow> Segment \<Rightarrow> 'o shm_world \<Rightarrow> 'o shm_world option" where
  "change_object f obj s w = do {
     i \<leftarrow> obj;
     let a = seg_metadata_layout s;
     let pool = sg_object_pool (sw_layout w a);
     objs \<leftarrow> fo_storage pool;
     old \<leftarrow> (if i < 0 then None else mem_read objs (nat i));
     new \<leftarrow> f old;
     objs \<leftarrow> mem_write objs (nat i) new;
     Some (w\<lparr>sw_layout := (sw_layout w)(a := (sw_layout w a)\<lparr>sg_object_pool := pool\<lparr>fo_storage := Some objs\<rparr>\<rparr>)\<rparr>) }"

definition ShmArena_Init :: "shm_platform \<Rightarrow> 'o segment_port \<Rightarrow> (nat \<Rightarrow> 'o shm_world \<Rightarrow> 'o shm_world) \<Rightarrow> Segment \<Rightarrow> u64 \<Rightarrow> ShmArena \<Rightarrow>
    'o shm_world \<Rightarrow> (bool \<times> ShmArena \<times> 'o shm_world) option" where
  "ShmArena_Init pf port others segment block_size ar w =
     (if ar_inited ar then Some (True, ar, w)
      else do {
        (obj, segment, w) \<leftarrow> Segment_NewObject pf port others segment w;
        Some (True, ar\<lparr>ar_block_size := block_size, ar_segment := Some segment, ar_object := obj, ar_inited := True\<rparr>, w) })"

definition ShmArena_page_size :: "ShmArena \<Rightarrow> u64" where
  "ShmArena_page_size ar = ar_block_size ar"

text \<open>\<open>if (object_->block_num < MAX_BLOCK_NUM) object_->block_index[object_->block_num++] = index;\<close>\<close>

definition record_block :: "u32 \<Rightarrow> ShmObject \<Rightarrow> ShmObject option" where
  "record_block index ob =
     (if unat (so_block_num ob) < MAX_BLOCK_NUM
      then do {
        bi \<leftarrow> mem_write (so_block_index ob) (unat (so_block_num ob)) index;
        Some (ob\<lparr>so_block_index := bi, so_block_num := so_block_num ob + 1\<rparr>) }
      else Some ob)"

text \<open>\<open>for (size_t i = 0; i < num; ++i)\<close>; \<open>n\<close> is \<open>num - i\<close>. A failure ends the loop with the rest of \<open>blocks\<close> untouched.\<close>

primrec ShmArena_allocate_loop :: "shm_platform \<Rightarrow> 'o segment_port \<Rightarrow> (nat \<Rightarrow> 'o shm_world \<Rightarrow> 'o shm_world) \<Rightarrow> nat \<Rightarrow> nat \<Rightarrow> WritableBlock \<Rightarrow>
    u64 list \<Rightarrow> ShmArena \<Rightarrow> 'o shm_world \<Rightarrow> (u64 list \<times> ShmArena \<times> 'o shm_world) option" where
  "ShmArena_allocate_loop pf port others 0 i block blocks ar w = Some (blocks, ar, w)"
| "ShmArena_allocate_loop pf port others (Suc n) i block blocks ar w = do {
     s \<leftarrow> ar_segment ar;
     ((ret, b), s, w) \<leftarrow> Segment_AcquireBlockToWrite pf port others (ar_block_size ar) (Some block) s w;
     let ar = ar\<lparr>ar_segment := Some s\<rparr>;
     block \<leftarrow> b;
     if \<not> ret then Some (blocks, ar, w)
     else do {
       let ar = ar\<lparr>ar_block_index_table := ar_block_index_table ar @ [wb_block_index block]\<rparr>;
       w \<leftarrow> change_object (record_block (wb_block_index block)) (ar_object ar) s w;
       blocks \<leftarrow> mem_write blocks i (wb_buf block);
       ShmArena_allocate_loop pf port others n (Suc i) block blocks ar w } }"

definition ShmArena_allocate :: "shm_platform \<Rightarrow> 'o segment_port \<Rightarrow> (nat \<Rightarrow> 'o shm_world \<Rightarrow> 'o shm_world) \<Rightarrow> nat \<Rightarrow>
    u64 list \<Rightarrow> ShmArena \<Rightarrow> 'o shm_world \<Rightarrow> (u64 list \<times> ShmArena \<times> 'o shm_world) option" where
  "ShmArena_allocate pf port others num blocks ar w = ShmArena_allocate_loop pf port others num 0 WritableBlock_new blocks ar w"

text \<open>\<open>deallocate\<close> returns at once.\<close>

definition ShmArena_deallocate :: "u64 list \<Rightarrow> nat \<Rightarrow> ShmArena \<Rightarrow> 'o shm_world \<Rightarrow> ShmArena \<times> 'o shm_world" where
  "ShmArena_deallocate blocks num ar w = (ar, w)"

text \<open>
  \<open>MakeSharedAndMove\<close>: the owner gives its object, now with the data's address, to the deleter of a new \<open>shared_ptr\<close>. The deleter's
  object is again the position in the pool. A null \<open>shared_ptr\<close> is \<open>None\<close>.
\<close>

definition MakeSharedAndMove :: "u64 \<Rightarrow> ShmArena \<Rightarrow> 'o shm_world \<Rightarrow> ((u64 \<times> Segment option \<times> int option) option \<times> ShmArena \<times> 'o shm_world) option" where
  "MakeSharedAndMove ptr ar w =
     (if \<not> ar_is_owner ar then Some (None, ar, w)
      else if MAX_BLOCK_NUM < length (ar_block_index_table ar) then Some (None, ar, w)
      else do {
        s \<leftarrow> ar_segment ar;
        w \<leftarrow> change_object (\<lambda>ob. Some (ob\<lparr>so_data_addr := ptr\<rparr>)) (ar_object ar) s w;
        let ar' = (if ptr \<noteq> 0 then ar\<lparr>ar_is_owner := False\<rparr> else ar);
        Some (Some (ptr, ar_segment ar, ar_object ar), ar', w) })"

definition ShmArena_destroy :: "ShmArena \<Rightarrow> 'o shm_world \<Rightarrow> ShmArena \<times> 'o shm_world" where
  "ShmArena_destroy ar w =
     (if \<not> ar_is_owner ar then (ar, w)
      else case (ar_segment ar, ar_object ar) of
        (Some s, Some ob) \<Rightarrow> (ar\<lparr>ar_object := None, ar_segment := None\<rparr>, Segment_DeleteObject ob w)
      | _ \<Rightarrow> (ar, w))"

section \<open>Pages from blocks\<close>

lemma record_block_list:
  assumes "length (so_block_index ob) = MAX_BLOCK_NUM" and "unat (so_block_num ob) \<le> MAX_BLOCK_NUM"
  shows "\<exists>ob'. record_block x ob = Some ob' \<and> length (so_block_index ob') = MAX_BLOCK_NUM \<and> unat (so_block_num ob') \<le> MAX_BLOCK_NUM
    \<and> take (unat (so_block_num ob')) (so_block_index ob') = take MAX_BLOCK_NUM (take (unat (so_block_num ob)) (so_block_index ob) @ [x])"
proof (cases "unat (so_block_num ob) < MAX_BLOCK_NUM")
  case True
  then have "unat (so_block_num ob + 1) = Suc (unat (so_block_num ob))"
    by (subst unat_add_small) (simp_all add: MAX_BLOCK_NUM_def)
  then show ?thesis using True assms by (simp add: record_block_def mem_write_def take_Suc_conv_app_nth)
next
  case False
  then show ?thesis using assms by (simp add: record_block_def)
qed

text \<open>The indices an object records, and an arena at work on a segment whose first \<open>j\<close> blocks are taken.\<close>

definition recorded :: "ShmObject \<Rightarrow> u32 list" where
  "recorded ob = take (unat (so_block_num ob)) (so_block_index ob)"

definition object_ok :: "ShmObject \<Rightarrow> bool" where
  "object_ok ob \<longleftrightarrow> length (so_block_index ob) = MAX_BLOCK_NUM \<and> unat (so_block_num ob) \<le> MAX_BLOCK_NUM"

definition arena_object :: "u64 \<Rightarrow> ShmArena \<Rightarrow> 'o shm_world \<Rightarrow> ShmObject \<Rightarrow> bool" where
  "arena_object a ar w ob \<longleftrightarrow> (case (ar_object ar, fo_storage (sg_object_pool (sw_layout w a))) of
       (Some i, Some objs) \<Rightarrow> 0 \<le> i \<and> nat i < length objs \<and> objs ! nat i = ob
     | _ \<Rightarrow> False)"

definition arena_at :: "shm_platform \<Rightarrow> shm_memory \<Rightarrow> u64 \<Rightarrow> nat \<Rightarrow> nat \<Rightarrow> nat \<Rightarrow> nat \<Rightarrow> ShmArena \<Rightarrow> 'o shm_world \<Rightarrow> ShmObject \<Rightarrow> bool" where
  "arena_at pf M a n sz k j ar w ob \<longleftrightarrow> (\<exists>s. ar_segment ar = Some s \<and> attached_view pf a (sw_layout w a) s)
     \<and> live_layout pf M a n sz k j (sw_layout w a) \<and> arena_object a ar w ob \<and> object_ok ob"

lemma arena_object_extent:
  "arena_object a ar (w\<lparr>sw_layout := (sw_layout w)(a := (sw_layout w a)\<lparr>sg_extent := el\<rparr>)\<rparr>) ob = arena_object a ar w ob"
  by (simp add: arena_object_def)

lemma change_object_ok:
  assumes o: "arena_object a ar w ob" and f: "f ob = Some ob'" and s: "seg_metadata_layout s = a"
  shows "\<exists>q. change_object f (ar_object ar) s w = Some (w\<lparr>sw_layout := (sw_layout w)(a := (sw_layout w a)\<lparr>sg_object_pool := q\<rparr>)\<rparr>)
    \<and> (live_layout pf M a n sz k j (sw_layout w a) \<longrightarrow> live_layout pf M a n sz k j ((sw_layout w a)\<lparr>sg_object_pool := q\<rparr>))
    \<and> arena_object a ar (w\<lparr>sw_layout := (sw_layout w)(a := (sw_layout w a)\<lparr>sg_object_pool := q\<rparr>)\<rparr>) ob'"
proof -
  from o obtain i objs where i: "ar_object ar = Some i" "fo_storage (sg_object_pool (sw_layout w a)) = Some objs" "0 \<le> i" "nat i < length objs"
    "objs ! nat i = ob" by (auto simp: arena_object_def split: option.splits)
  let ?q = "(sg_object_pool (sw_layout w a))\<lparr>fo_storage := Some (objs[nat i := ob'])\<rparr>"
  have "change_object f (ar_object ar) s w = Some (w\<lparr>sw_layout := (sw_layout w)(a := (sw_layout w a)\<lparr>sg_object_pool := ?q\<rparr>)\<rparr>)"
    using i f s by (simp add: change_object_def mem_read_def mem_write_def Let_def)
  moreover have "pool_inv (sg_object_pool (sw_layout w a)) \<Longrightarrow> pool_inv ?q" using i(2) by (simp add: pool_inv_def fo_free_def)
  then have "live_layout pf M a n sz k j (sw_layout w a) \<longrightarrow> live_layout pf M a n sz k j ((sw_layout w a)\<lparr>sg_object_pool := ?q\<rparr>)"
    by (simp add: live_layout_def segment_wf_def GetExtentLayout_def)
  moreover have "arena_object a ar (w\<lparr>sw_layout := (sw_layout w)(a := (sw_layout w a)\<lparr>sg_object_pool := ?q\<rparr>)\<rparr>) ob'"
    using i by (simp add: arena_object_def)
  ultimately show ?thesis by blast
qed

lemma attached_view_pool [simp]: "attached_view pf a (l\<lparr>sg_object_pool := q\<rparr>) s = attached_view pf a l s"
  by (simp add: attached_view_def GetExtentLayout_def)

lemma segment_block_pool [simp]: "segment_block pf a (l\<lparr>sg_object_pool := q\<rparr>) = segment_block pf a l"
  by (simp add: segment_block_def GetExtentLayout_def fun_eq_iff)

lemma segment_block_index [simp]: "wb_block_index (segment_block pf a l i) = of_nat i"
  by (simp add: segment_block_def block_at_def)

text \<open>One round of the loop that gets a block.\<close>

lemma allocate_round:
  assumes at: "arena_at pf M a n sz k j ar w ob" and j: "j < n" and sz: "unat (ar_block_size ar) \<le> sz" and i: "i < length blocks"
  shows "\<exists>ar' w' ob' b. ShmArena_allocate_loop pf port others (Suc c) i block blocks ar w =
      ShmArena_allocate_loop pf port others c (Suc i) b (blocks[i := wb_buf (segment_block pf a (sw_layout w a) j)]) ar' w'
    \<and> arena_at pf M a n sz k (Suc j) ar' w' ob' \<and> segment_block pf a (sw_layout w' a) = segment_block pf a (sw_layout w a)
    \<and> ar_block_size ar' = ar_block_size ar \<and> ar_block_index_table ar' = ar_block_index_table ar @ [of_nat j]
    \<and> recorded ob' = take MAX_BLOCK_NUM (recorded ob @ [of_nat j])"
proof -
  from at obtain s where s: "ar_segment ar = Some s" "attached_view pf a (sw_layout w a) s" and l: "live_layout pf M a n sz k j (sw_layout w a)"
    and o: "arena_object a ar w ob" "object_ok ob" by (auto simp: arena_at_def)
  from Segment_Acquire_live [OF s(2) l, of port others "ar_block_size ar" block] obtain ok b el where
    x: "Segment_AcquireBlockToWrite pf port others (ar_block_size ar) (Some block) s w =
        Some ((ok, b), s, w\<lparr>sw_layout := (sw_layout w)(a := (sw_layout w a)\<lparr>sg_extent := el\<rparr>)\<rparr>)"
    "same_geometry (sg_extent (sw_layout w a)) el"
    "live_layout pf M a n sz k (if ok then Suc j else j) ((sw_layout w a)\<lparr>sg_extent := el\<rparr>)"
    "ok \<longrightarrow> b = Some (segment_block pf a (sw_layout w a) j)" "ok \<longleftrightarrow> j < n \<and> unat (ar_block_size ar) \<le> sz" by blast
  then have a: "Segment_AcquireBlockToWrite pf port others (ar_block_size ar) (Some block) s w =
        Some ((True, Some (segment_block pf a (sw_layout w a) j)), s, w\<lparr>sw_layout := (sw_layout w)(a := (sw_layout w a)\<lparr>sg_extent := el\<rparr>)\<rparr>)"
    and g: "same_geometry (sg_extent (sw_layout w a)) el" and l': "live_layout pf M a n sz k (Suc j) ((sw_layout w a)\<lparr>sg_extent := el\<rparr>)" using j sz by simp_all
  define w1 where "w1 = w\<lparr>sw_layout := (sw_layout w)(a := (sw_layout w a)\<lparr>sg_extent := el\<rparr>)\<rparr>"
  from record_block_list [of ob "of_nat j"] o(2) obtain ob' where
    r: "record_block (of_nat j) ob = Some ob'" "object_ok ob'" "recorded ob' = take MAX_BLOCK_NUM (recorded ob @ [of_nat j])"
    by (auto simp: object_ok_def recorded_def)
  have o1: "arena_object a ar w1 ob" using o(1) by (simp add: w1_def arena_object_extent)
  have meta: "seg_metadata_layout s = a" using s(2) by (simp add: attached_view_def)
  from change_object_ok [where pf = pf and M = M and n = n and sz = sz and k = k and j = "Suc j" and f = "record_block (of_nat j)", OF o1 r(1) meta] obtain q where
    q: "change_object (record_block (of_nat j)) (ar_object ar) s w1 = Some (w1\<lparr>sw_layout := (sw_layout w1)(a := (sw_layout w1 a)\<lparr>sg_object_pool := q\<rparr>)\<rparr>)"
    "live_layout pf M a n sz k (Suc j) (sw_layout w1 a) \<longrightarrow> live_layout pf M a n sz k (Suc j) ((sw_layout w1 a)\<lparr>sg_object_pool := q\<rparr>)"
    "arena_object a ar (w1\<lparr>sw_layout := (sw_layout w1)(a := (sw_layout w1 a)\<lparr>sg_object_pool := q\<rparr>)\<rparr>) ob'" by blast
  let ?w = "w1\<lparr>sw_layout := (sw_layout w1)(a := (sw_layout w1 a)\<lparr>sg_object_pool := q\<rparr>)\<rparr>"
  let ?ar = "ar\<lparr>ar_segment := Some s, ar_block_index_table := ar_block_index_table ar @ [of_nat j]\<rparr>"
  have L: "sw_layout w1 a = (sw_layout w a)\<lparr>sg_extent := el\<rparr>" by (simp add: w1_def)
  have "attached_view pf a (sw_layout ?w a) s" using s(2) by (simp add: L attached_view_extent [OF g])
  moreover have "live_layout pf M a n sz k (Suc j) (sw_layout ?w a)" using q(2) l' by (simp add: L)
  moreover have "arena_object a ?ar ?w ob'" using q(3) by (simp add: arena_object_def)
  ultimately have "arena_at pf M a n sz k (Suc j) ?ar ?w ob'" using r(2) by (simp add: arena_at_def)
  moreover have "segment_block pf a (sw_layout ?w a) = segment_block pf a (sw_layout w a)" by (simp add: L segment_block_extent [OF g])
  moreover have "ShmArena_allocate_loop pf port others (Suc c) i block blocks ar w =
      ShmArena_allocate_loop pf port others c (Suc i) (segment_block pf a (sw_layout w a) j)
        (blocks[i := wb_buf (segment_block pf a (sw_layout w a) j)]) ?ar ?w"
    using s(1) a q(1) i by (simp add: w1_def [symmetric] mem_write_def Let_def)
  ultimately show ?thesis using r(3) by (intro exI [of _ ?ar] exI [of _ ?w] exI [of _ ob'] exI) simp
qed

lemma allocate_loop_ok:
  assumes "arena_at pf M a n sz k j ar w ob" and "unat (ar_block_size ar) \<le> sz" and "i + c \<le> length blocks"
  defines "m \<equiv> min c (n - j)"
  shows "\<exists>ar' w' ob'. ShmArena_allocate_loop pf port others c i block blocks ar w =
      Some (take i blocks @ map (\<lambda>x. wb_buf (segment_block pf a (sw_layout w a) x)) [j..<j + m] @ drop (i + m) blocks, ar', w')
    \<and> arena_at pf M a n sz k (j + m) ar' w' ob' \<and> segment_block pf a (sw_layout w' a) = segment_block pf a (sw_layout w a)
    \<and> ar_block_index_table ar' = ar_block_index_table ar @ map of_nat [j..<j + m]
    \<and> recorded ob' = take MAX_BLOCK_NUM (recorded ob @ map of_nat [j..<j + m])"
  using assms(1-3) unfolding m_def
proof (induction c arbitrary: i j block blocks ar w ob)
  case 0
  then have "length (recorded ob) \<le> MAX_BLOCK_NUM" by (simp add: arena_at_def object_ok_def recorded_def)
  with 0 show ?case by auto
next
  case (Suc c)
  show ?case
  proof (cases "j < n")
    case True
    from Suc.prems(3) have "i < length blocks" by simp
    from allocate_round [OF Suc.prems(1) True Suc.prems(2) this, of port others c block] obtain ar1 w1 ob1 b where
      r: "ShmArena_allocate_loop pf port others (Suc c) i block blocks ar w =
        ShmArena_allocate_loop pf port others c (Suc i) b (blocks[i := wb_buf (segment_block pf a (sw_layout w a) j)]) ar1 w1"
      "arena_at pf M a n sz k (Suc j) ar1 w1 ob1" "segment_block pf a (sw_layout w1 a) = segment_block pf a (sw_layout w a)"
      "ar_block_size ar1 = ar_block_size ar" "ar_block_index_table ar1 = ar_block_index_table ar @ [of_nat j]"
      "recorded ob1 = take MAX_BLOCK_NUM (recorded ob @ [of_nat j])" by blast
    let ?bl = "blocks[i := wb_buf (segment_block pf a (sw_layout w a) j)]" and ?m = "min c (n - Suc j)"
    have m: "min (Suc c) (n - j) = Suc ?m" using True by simp
    from Suc.IH [OF r(2), where i = "Suc i" and blocks = ?bl and block = b] Suc.prems(2,3) r(4) obtain ar' w' ob' where
      h: "ShmArena_allocate_loop pf port others c (Suc i) b ?bl ar1 w1 =
          Some (take (Suc i) ?bl @ map (\<lambda>x. wb_buf (segment_block pf a (sw_layout w1 a) x)) [Suc j..<Suc j + ?m] @ drop (Suc i + ?m) ?bl, ar', w')"
      "arena_at pf M a n sz k (Suc j + ?m) ar' w' ob'" "segment_block pf a (sw_layout w' a) = segment_block pf a (sw_layout w1 a)"
      "ar_block_index_table ar' = ar_block_index_table ar1 @ map of_nat [Suc j..<Suc j + ?m]"
      "recorded ob' = take MAX_BLOCK_NUM (recorded ob1 @ map of_nat [Suc j..<Suc j + ?m])" by auto
    have t: "take (Suc i) ?bl = take i blocks @ [wb_buf (segment_block pf a (sw_layout w a) j)]"
      using Suc.prems(3) by (simp add: take_Suc_conv_app_nth)
    have u: "[j..<j + Suc ?m] = j # [Suc j..<Suc j + ?m]" using upt_conv_Cons [of j "j + Suc ?m"] by (simp del: upt_Suc)
    have run: "ShmArena_allocate_loop pf port others (Suc c) i block blocks ar w =
        Some (take i blocks @ map (\<lambda>x. wb_buf (segment_block pf a (sw_layout w a) x)) [j..<j + Suc ?m] @ drop (i + Suc ?m) blocks, ar', w')"
      unfolding r(1) h(1) t u r(3) by simp
    have "take MAX_BLOCK_NUM (take MAX_BLOCK_NUM xs @ ys) = take MAX_BLOCK_NUM (xs @ ys)" for xs ys :: "u32 list"
      by (cases "length xs \<le> MAX_BLOCK_NUM") simp_all
    then have rec: "recorded ob' = take MAX_BLOCK_NUM (recorded ob @ map of_nat [j..<j + Suc ?m])"
      unfolding u h(5) r(6) by (simp only: list.map append_assoc append_Cons append_Nil)
    have tab: "ar_block_index_table ar' = ar_block_index_table ar @ map of_nat [j..<j + Suc ?m]" unfolding u h(4) r(5) by simp
    have "j + Suc ?m = Suc j + ?m" by simp
    with run rec tab h(2,3) r(3) show ?thesis unfolding m by metis
  next
    case False
    from Suc.prems(1) obtain s where s: "ar_segment ar = Some s" "attached_view pf a (sw_layout w a) s" and l: "live_layout pf M a n sz k j (sw_layout w a)"
      by (auto simp: arena_at_def)
    have "length (recorded ob) \<le> MAX_BLOCK_NUM" using Suc.prems(1) by (simp add: arena_at_def object_ok_def recorded_def)
    moreover from Segment_Acquire_live [OF s(2) l, of port others "ar_block_size ar" block] False have
      "Segment_AcquireBlockToWrite pf port others (ar_block_size ar) (Some block) s w = Some ((False, Some block), s, w)"
      by (elim exE conjE) simp
    moreover have "ar\<lparr>ar_segment := Some s\<rparr> = ar" using s(1) by (cases ar) simp
    ultimately show ?thesis
      using False s(1) Suc.prems(1) by (intro exI [of _ ar] exI [of _ w] exI [of _ ob]) (simp add: Let_def)
  qed
qed

text \<open>
  C13: An arena's pages are blocks of its segment: initialised on a segment that is open, with a free object in the pool, it takes the oldest free
  object; asked for \<open>num\<close> pages it hands out the next blocks of the segment, in order, as many as are left, leaves the remaining
  entries of the caller's array as they were, keeps the index of every block, and the object records the first 32 of them. The
  segment stays well-formed.
\<close>

theorem arena_pages_are_blocks:
  assumes s: "attached_view pf a (sw_layout w a) s" and l: "live_layout pf M a n sz k j (sw_layout w a)"
    and free: "fo_free (sg_object_pool (sw_layout w a)) = i # ids"
    and obj: "fo_storage (sg_object_pool (sw_layout w a)) = Some objs" "objs ! nat i = ob" "object_ok ob" "so_block_num ob = 0"
    and size: "unat bs \<le> sz" and num: "num \<le> length blocks"
  shows "\<exists>ar w1 ar' w' ob'. ShmArena_Init pf port others s bs ShmArena_new w = Some (True, ar, w1) \<and> ar_object ar = Some i
    \<and> (let m = min num (n - j); taken = map (segment_block pf a (sw_layout w a)) [j..<j + m] in
         ShmArena_allocate pf port others num blocks ar w1 = Some (map wb_buf taken @ drop m blocks, ar', w')
       \<and> live_layout pf M a n sz k (j + m) (sw_layout w' a)
       \<and> ar_block_index_table ar' = map wb_block_index taken
       \<and> arena_object a ar' w' ob' \<and> recorded ob' = take MAX_BLOCK_NUM (map wb_block_index taken))"
proof -
  let ?l = "sw_layout w a"
  have pool: "pool_inv (sg_object_pool ?l)" using l by (simp add: live_layout_def segment_wf_def)
  from Get_some [OF pool free] obtain q where q: "FlatObjectQueue_Get (sg_object_pool ?l) = Some (Some i, q)" "pool_inv q"
    "fo_queue_capacity q = fo_queue_capacity (sg_object_pool ?l)" "fo_storage q = fo_storage (sg_object_pool ?l)" by blast
  let ?w1 = "w\<lparr>sw_layout := (sw_layout w)(a := ?l\<lparr>sg_object_pool := q\<rparr>)\<rparr>"
  let ?ar = "ShmArena_new\<lparr>ar_block_size := bs, ar_segment := Some s, ar_object := Some i, ar_inited := True\<rparr>"
  have init: "ShmArena_Init pf port others s bs ShmArena_new w = Some (True, ?ar, ?w1)"
    using s q(1) by (simp add: ShmArena_Init_def ShmArena_new_def Segment_NewObject_def ensure_inited_def attached_view_def Let_def)
  have i: "0 \<le> i" "nat i < length objs" using pool free obj(1) by (auto simp: pool_inv_def simp del: of_nat_unat)
  have "live_layout pf M a n sz k j (sw_layout ?w1 a)"
    using l q(2,3) by (simp add: live_layout_def segment_wf_def GetExtentLayout_def)
  then have at: "arena_at pf M a n sz k j ?ar ?w1 ob"
    using s obj i q(4) by (simp add: arena_at_def arena_object_def)
  have "recorded ob = []" using obj(4) by (simp add: recorded_def)
  with allocate_loop_ok [OF at, of 0 num blocks port others WritableBlock_new] size num obtain ar' w' ob' where
    h: "ShmArena_allocate pf port others num blocks ?ar ?w1 =
      Some (map (\<lambda>x. wb_buf (segment_block pf a ?l x)) [j..<j + min num (n - j)] @ drop (min num (n - j)) blocks, ar', w')"
    "arena_at pf M a n sz k (j + min num (n - j)) ar' w' ob'" "ar_block_index_table ar' = map of_nat [j..<j + min num (n - j)]"
    "recorded ob' = take MAX_BLOCK_NUM (map of_nat [j..<j + min num (n - j)])"
    by (auto simp: ShmArena_allocate_def ShmArena_new_def)
  have t: "map wb_block_index (map (segment_block pf a ?l) xs) = map of_nat xs" for xs by (simp add: comp_def)
  have "live_layout pf M a n sz k (j + min num (n - j)) (sw_layout w' a)" "arena_object a ar' w' ob'" using h(2) by (simp_all add: arena_at_def)
  with init h(1,3,4) show ?thesis
    by (intro exI [of _ ?ar] exI [of _ ?w1] exI [of _ ar'] exI [of _ w'] exI [of _ ob']) (simp add: Let_def t [simplified] comp_def)
qed

section \<open>A configuration\<close>

text \<open>A segment of two blocks of 1 KB, created at address 4096 on pages of 4 KB.\<close>

definition arena_platform :: shm_platform where
  "arena_platform = \<lparr>pf_bit_ceil = bit_ceil_ref, pf_sizes = sample_sizes, pf_junk_u16 = (\<lambda>_. 0), pf_junk_i32 = (\<lambda>_. 0),
     pf_junk_object = (\<lambda>_. sample_object 0), pf_object = (sample_object 0)\<lparr>so_block_index := replicate 32 0\<rparr>, pf_page_size = 4096\<rparr>"

definition arena_segment :: Segment where
  "arena_segment = (Segment_new arena_platform \<lparr>sopt_name = ''points'', sopt_channel_id = 5, sopt_domain_id = 1, sopt_base_addr = 4096,
     sopt_space_size = 16384, sopt_block_num = 2, sopt_block_size = 1024\<rparr>)\<lparr>seg_inited := True, seg_head_protection_addr := 4096, seg_managed_shm_header := 8192\<rparr>"

lemma arena_room: "segment_room arena_platform (segment_memory arena_segment) (seg_managed_shm_header arena_segment) 2 1024"
  by (simp add: segment_room_def segment_memory_def arena_segment_def arena_platform_def Segment_new_def SegmentProtectionSpaceSize_def Let_def
      TotalSegmentSpaceSize_def sample_sizes_def PlacementStorageSize_def AlignedNum_def AlignmentSize_def bit_ceil_ref_def GetRequestSize_eq
      mapped_def segment_data_def extent_base_def up128_def extent_room_def extent_data_def)

theorem arena_pages_are_blocks_witness:
  "\<exists>(s :: Segment) (w :: unit shm_world) port others ar w1 bufs ar' w'. ShmArena_Init arena_platform port others s 1000 ShmArena_new w = Some (True, ar, w1)
     \<and> ShmArena_allocate arena_platform port others 3 [7, 7, 7] ar w1 = Some (bufs @ [7], ar', w') \<and> length bufs = 2
     \<and> ar_block_index_table ar' = [0, 1]"
proof -
  define w :: "unit shm_world" where "w = \<lparr>sw_os = (), sw_layout = (\<lambda>_. SegmentLayout_new)\<rparr>"
  have o: "sopt_block_num (seg_opt arena_segment) = of_nat 2" "sopt_block_size (seg_opt arena_segment) = of_nat 1024"
    by (simp_all add: arena_segment_def Segment_new_def SegmentProtectionSpaceSize_def Let_def)
  have "bit_ceil_spec (pf_bit_ceil arena_platform)" by (simp add: arena_platform_def bit_ceil_ref_spec)
  from InitPostCreate_ok [OF this arena_room o, of w] obtain ex l where
    l: "live_layout arena_platform (segment_memory arena_segment) 8192 2 1024 1 0 l"
    "extent_view (pf_sizes arena_platform) (GetExtentLayout (pf_sizes arena_platform) 8192 l) (sg_extent l) ex"
    "fo_free (sg_object_pool l) = [0, 1]" "fo_storage (sg_object_pool l) = Some (replicate 2 (pf_object arena_platform))"
    by (auto simp: arena_segment_def upt_rec)
  define s where "s = arena_segment\<lparr>seg_metadata_layout := 8192, seg_extent := Some ex\<rparr>"
  define w0 where "w0 = w\<lparr>sw_layout := (sw_layout w)(8192 := l)\<rparr>"
  have L: "sw_layout w0 8192 = l" by (simp add: w0_def)
  have v: "attached_view arena_platform 8192 (sw_layout w0 8192) s" using l(2) by (simp add: L s_def attached_view_def arena_segment_def)
  have ob: "object_ok (pf_object arena_platform)" "so_block_num (pf_object arena_platform) = 0" "replicate 2 (pf_object arena_platform) ! nat 0 = pf_object arena_platform"
    by (simp_all add: arena_platform_def object_ok_def sample_object_def ShmObject_new_def MAX_BLOCK_NUM_def)
  have n: "unat (1000 :: u64) \<le> 1024" "3 \<le> length [7 :: u64, 7, 7]" "min 3 (2 - 0) = (2 :: nat)" "[0..<0 + 2] = [0, 1 :: nat]"
    by (simp_all add: upt_rec)
  note h = arena_pages_are_blocks [where bs = 1000 and num = 3 and blocks = "[7, 7, 7]" and port = undefined and others = "\<lambda>_ w. w",
      OF v l(1) [folded L] l(3,4) [folded L] ob(3,1,2) n(1,2), unfolded Let_def n(3,4)]
  then obtain ar w1 ar' w' where
    "ShmArena_Init arena_platform undefined (\<lambda>_ w. w) s 1000 ShmArena_new w0 = Some (True, ar, w1)"
    "ShmArena_allocate arena_platform undefined (\<lambda>_ w. w) 3 [7, 7, 7] ar w1 =
       Some (map wb_buf (map (segment_block arena_platform 8192 (sw_layout w0 8192)) [0, 1]) @ [7], ar', w')"
    "ar_block_index_table ar' = map wb_block_index (map (segment_block arena_platform 8192 (sw_layout w0 8192)) [0, 1])"
    by (elim exE conjE) simp
  then show ?thesis
    by (intro exI [of _ s] exI [of _ w0] exI [of _ undefined] exI [of _ "\<lambda>_ w. w"] exI [of _ ar] exI [of _ w1]
        exI [of _ "map wb_buf (map (segment_block arena_platform 8192 (sw_layout w0 8192)) [0, 1])"] exI [of _ ar'] exI [of _ w']) simp
qed

end
