(* ===== verification/Util.thy ===== *)
theory Util
  imports XsiShm
begin

text \<open>
  \<open>common/util.h\<close> and \<open>util.cc\<close>: integers in network byte order, environment variables, and the creation of a directory with its parents.

  An array of \<open>char\<close> is a list of bytes and a position in it. The host is little-endian, as the two architectures of \<open>environment.h\<close> are. The
  system calls \<open>mkdir\<close>, \<open>stat\<close> and \<open>getenv\<close> are arguments; \<open>stat\<close> gives \<open>st_mode\<close>, \<open>mkdir\<close> the error, if any.
\<close>

section \<open>Byte order\<close>

text \<open>The memory of a \<open>uint32_t\<close>, lowest byte first, and back.\<close>

definition bytes_of_u32 :: "u32 \<Rightarrow> u8 list" where
  "bytes_of_u32 w = [ucast w, ucast (drop_bit 8 w), ucast (drop_bit 16 w), ucast (drop_bit 24 w)]"

definition u32_of_bytes :: "u8 \<Rightarrow> u8 \<Rightarrow> u8 \<Rightarrow> u8 \<Rightarrow> u32" where
  "u32_of_bytes a b c d = ucast a OR push_bit 8 (ucast b) OR push_bit 16 (ucast c) OR push_bit 24 (ucast d)"

definition htonl :: "u32 \<Rightarrow> u32" where
  "htonl w = push_bit 24 (w AND 0xFF) OR push_bit 8 (w AND 0xFF00) OR (drop_bit 8 w AND 0xFF00) OR (drop_bit 24 w AND 0xFF)"

definition ntohl :: "u32 \<Rightarrow> u32" where
  "ntohl = htonl"

text \<open>\<open>memcpy\<close> into and out of an array; outside of it is \<open>None\<close>.\<close>

definition copy_to :: "u8 list \<Rightarrow> nat \<Rightarrow> u8 list \<Rightarrow> u8 list option" where
  "copy_to out off bs = (if off + length bs \<le> length out then Some (take off out @ bs @ drop (off + length bs) out) else None)"

definition read_u32 :: "u8 list \<Rightarrow> nat \<Rightarrow> u32 option" where
  "read_u32 inp off =
     (if off + 4 \<le> length inp then Some (u32_of_bytes (inp ! off) (inp ! (off + 1)) (inp ! (off + 2)) (inp ! (off + 3))) else None)"

definition Convert32ToArray :: "u32 \<Rightarrow> u8 list \<Rightarrow> nat \<Rightarrow> u8 list option" where
  "Convert32ToArray input output off = copy_to output off (bytes_of_u32 (htonl input))"

definition Convert64ToArray :: "u64 \<Rightarrow> u8 list \<Rightarrow> nat \<Rightarrow> u8 list option" where
  "Convert64ToArray input output off = do {
     let h_high = ucast (drop_bit 32 (input AND 0xffffffff00000000));
     let h_low = ucast (input AND 0x00000000ffffffff);
     output \<leftarrow> Convert32ToArray h_high output off;
     Convert32ToArray h_low output (off + 4) }"

definition ConvertArrayTo32 :: "u8 list \<Rightarrow> nat \<Rightarrow> u32 option" where
  "ConvertArrayTo32 inp off = map_option ntohl (read_u32 inp off)"

definition ConvertArrayTo64 :: "u8 list \<Rightarrow> nat \<Rightarrow> u64 option" where
  "ConvertArrayTo64 inp off = do {
     high \<leftarrow> ConvertArrayTo32 inp off;
     low \<leftarrow> ConvertArrayTo32 inp (off + 4);
     Some (push_bit 32 (ucast high) OR ucast low) }"

section \<open>Directories\<close>

record 'o fs_calls =
  fs_stat :: "string \<Rightarrow> 'o \<Rightarrow> u32 option"
  fs_mkdir :: "string \<Rightarrow> 'o \<Rightarrow> errno option \<times> 'o"

text \<open>What a system call sees of \<open>s.c_chars()\<close>.\<close>

definition c_chars :: "string \<Rightarrow> string" where
  "c_chars s = takeWhile (\<lambda>c. c \<noteq> CHR 0x00) s"

definition S_IFDIR :: u32 where "S_IFDIR = 0x4000"

definition DirectoryExists :: "'o fs_calls \<Rightarrow> string \<Rightarrow> 'o \<Rightarrow> bool" where
  "DirectoryExists sys directory_path os = (case fs_stat sys (c_chars directory_path) os of
       None \<Rightarrow> False
     | Some st_mode \<Rightarrow> st_mode AND S_IFDIR \<noteq> 0)"

text \<open>\<open>mkdir\<close> that may find the name taken.\<close>

definition make_directory :: "'o fs_calls \<Rightarrow> string \<Rightarrow> 'o \<Rightarrow> bool \<times> 'o" where
  "make_directory sys path os =
     (let (err, os) = fs_mkdir sys (c_chars path) os in (case err of None \<Rightarrow> True | Some e \<Rightarrow> e = EEXIST, os))"

text \<open>The loop over the positions of the path: at a slash the text before it is made a directory, by a zero byte put in its place.\<close>

fun ensure_loop :: "'o fs_calls \<Rightarrow> string \<Rightarrow> nat list \<Rightarrow> 'o \<Rightarrow> bool \<times> 'o" where
  "ensure_loop sys path [] os = (True, os)"
| "ensure_loop sys path (i # is) os =
     (if path ! i = CHR ''/''
      then (let (ok, os) = make_directory sys (path[i := CHR 0x00]) os in if \<not> ok then (False, os) else ensure_loop sys path is os)
      else ensure_loop sys path is os)"

definition EnsureDirectory :: "'o fs_calls \<Rightarrow> string \<Rightarrow> 'o \<Rightarrow> bool \<times> 'o" where
  "EnsureDirectory sys directory_path os =
     (if DirectoryExists sys directory_path os then (True, os)
      else let (ok, os) = ensure_loop sys directory_path [1..<length directory_path] os in
        if \<not> ok then (False, os) else make_directory sys directory_path os)"

definition GetEnv :: "(string \<Rightarrow> string option) \<Rightarrow> string \<Rightarrow> string" where
  "GetEnv getenv var_name = (case getenv (c_chars var_name) of None \<Rightarrow> [] | Some val \<Rightarrow> val)"

section \<open>Round trips\<close>

lemma byte_masks: "(0xFF :: u32) = mask 8" "(0xFF00 :: u32) = push_bit 8 (mask 8)"
  by (simp_all add: mask_eq_exp_minus_1)

lemma bit_u32_of_bytes: "bit (u32_of_bytes a b c d) n \<longleftrightarrow>
   (if n < 8 then bit a n else if n < 16 then bit b (n - 8) else if n < 24 then bit c (n - 16) else n < 32 \<and> bit d (n - 24))"
  by (auto simp: u32_of_bytes_def bit_simps not_less not_le dest: bit_imp_le_length)

lemma bit_htonl: "bit (htonl w) n \<longleftrightarrow>
   (if n < 8 then bit w (24 + n) else if n < 16 then bit w (8 + n) else if n < 24 then bit w (n - 8) else n < 32 \<and> bit w (n - 24))"
  unfolding htonl_def byte_masks by (auto simp: bit_simps not_less not_le dest: bit_imp_le_length)

text \<open>The bytes of a number, highest first.\<close>

definition be32 :: "u32 \<Rightarrow> u8 list" where
  "be32 w = [ucast (drop_bit 24 w), ucast (drop_bit 16 w), ucast (drop_bit 8 w), ucast w]"

lemma length_be32 [simp]: "length (be32 w) = 4"
  by (simp add: be32_def)

lemma bytes_of_htonl: "bytes_of_u32 (htonl w) = be32 w"
  unfolding bytes_of_u32_def be32_def by (intro list.inject [THEN iffD2] conjI bit_word_eqI refl) (auto simp: bit_htonl bit_simps)

lemma ntohl_of_bytes: "ntohl (u32_of_bytes a b c d) = u32_of_bytes d c b a"
  unfolding ntohl_def by (rule bit_word_eqI) (auto simp: bit_htonl bit_u32_of_bytes)

lemma u32_of_own_bytes: "u32_of_bytes (ucast w) (ucast (drop_bit 8 w)) (ucast (drop_bit 16 w)) (ucast (drop_bit 24 w)) = w"
  by (rule bit_word_eqI) (auto simp: bit_u32_of_bytes bit_simps)

lemma be32_of_bytes: "be32 (u32_of_bytes d c b a) = [a, b, c, d]"
proof -
  have "ucast (u32_of_bytes d c b a) = d" "ucast (drop_bit 8 (u32_of_bytes d c b a)) = c"
    "ucast (drop_bit 16 (u32_of_bytes d c b a)) = b" "ucast (drop_bit 24 (u32_of_bytes d c b a)) = a"
    by (rule bit_word_eqI, auto simp: bit_u32_of_bytes bit_simps)+
  then show ?thesis by (simp add: be32_def)
qed

text \<open>Writing, reading back, and writing what was read.\<close>

lemma Convert32_eq: "off + 4 \<le> length out \<Longrightarrow> Convert32ToArray w out off = Some (take off out @ be32 w @ drop (off + 4) out)"
  by (simp add: Convert32ToArray_def copy_to_def bytes_of_htonl)

lemma ConvertArray32_be32: "ConvertArrayTo32 (xs @ be32 w @ ys) (length xs) = Some w"
  by (simp add: ConvertArrayTo32_def read_u32_def ntohl_of_bytes be32_def nth_append u32_of_own_bytes)

lemma four_elements: "length xs = 4 \<Longrightarrow> \<exists>a b c d. xs = [a, b, c, d]"
  by (auto simp: numeral_eq_Suc length_Suc_conv)

lemma ConvertArray32_split:
  assumes "off + 4 \<le> length inp"
  obtains w where "inp = take off inp @ be32 w @ drop (off + 4) inp" and "ConvertArrayTo32 inp off = Some w"
proof -
  have "length (take 4 (drop off inp)) = 4" using assms by simp
  then obtain a b c d where "take 4 (drop off inp) = [a, b, c, d]" using four_elements by blast
  moreover have "inp = take off inp @ take 4 (drop off inp) @ drop (off + 4) inp"
    by (metis append_take_drop_id drop_drop add.commute)
  ultimately have i: "inp = take off inp @ be32 (u32_of_bytes d c b a) @ drop (off + 4) inp" by (simp add: be32_of_bytes)
  have "length (take off inp) = off" using assms by simp
  with ConvertArray32_be32 [of "take off inp" "u32_of_bytes d c b a" "drop (off + 4) inp", folded i] i that show ?thesis by metis
qed

text \<open>The halves of a 64-bit number.\<close>

definition hi32 :: "u64 \<Rightarrow> u32" where "hi32 w = ucast (drop_bit 32 w)"
definition lo32 :: "u64 \<Rightarrow> u32" where "lo32 w = ucast w"

lemma halves_mask:
  "(ucast (drop_bit 32 (w AND 0xffffffff00000000)) :: u32) = hi32 w" "(ucast (w AND 0x00000000ffffffff) :: u32) = lo32 w"
proof -
  have m: "(0xffffffff00000000 :: u64) = push_bit 32 (mask 32)" "(0x00000000ffffffff :: u64) = mask 32"
    by (simp_all add: mask_eq_exp_minus_1)
  show "(ucast (drop_bit 32 (w AND 0xffffffff00000000)) :: u32) = hi32 w"
    unfolding m(1) hi32_def by (rule bit_word_eqI) (auto simp: bit_simps)
  show "(ucast (w AND 0x00000000ffffffff) :: u32) = lo32 w"
    unfolding m(2) lo32_def by (rule bit_word_eqI) (auto simp: bit_simps)
qed

lemma halves_join: "push_bit 32 (ucast (hi32 w)) OR ucast (lo32 w) = w"
  unfolding hi32_def lo32_def by (rule bit_word_eqI) (auto simp: bit_simps)

lemma halves_of_join: "hi32 (push_bit 32 (ucast h) OR ucast l) = h" "lo32 (push_bit 32 (ucast h) OR ucast l) = l"
  unfolding hi32_def lo32_def by (rule bit_word_eqI, auto simp: bit_simps dest: bit_imp_le_length)+

lemma be64_byte: "i < 8 \<Longrightarrow> (be32 (hi32 w) @ be32 (lo32 w)) ! i = ucast (drop_bit (8 * (7 - i)) w)"
proof -
  assume "i < 8"
  then have "i \<in> {0, 1, 2, 3, 4, 5, 6, 7}" by auto
  then show ?thesis
    by (elim insertE emptyE; simp add: be32_def hi32_def lo32_def) (rule bit_word_eqI, auto simp: bit_simps)+
qed

lemma Convert64_eq:
  assumes "off + 8 \<le> length out"
  shows "Convert64ToArray w out off = Some (take off out @ (be32 (hi32 w) @ be32 (lo32 w)) @ drop (off + 8) out)"
proof -
  let ?o = "take off out @ be32 (hi32 w) @ drop (off + 4) out"
  have "Convert64ToArray w out off = Convert32ToArray (lo32 w) ?o (off + 4)"
    using assms unfolding Convert64ToArray_def halves_mask Let_def by (simp add: Convert32_eq)
  also have "\<dots> = Some (take (off + 4) ?o @ be32 (lo32 w) @ drop (off + 4 + 4) ?o)"
    using assms by (intro Convert32_eq) simp
  also have "take (off + 4) ?o = take off out @ be32 (hi32 w)" using assms by simp
  also have "drop (off + 4 + 4) ?o = drop (off + 8) out" using assms by (simp add: add.commute)
  finally show ?thesis by simp
qed

lemma ConvertArray64_be32: "ConvertArrayTo64 (xs @ (be32 h @ be32 l) @ ys) (length xs) = Some (push_bit 32 (ucast h) OR ucast l)"
  using ConvertArray32_be32 [of xs h "be32 l @ ys"] ConvertArray32_be32 [of "xs @ be32 h" l ys] by (simp add: ConvertArrayTo64_def)

text \<open>
  C26: Numbers survive the conversion to bytes and back: \<open>Convert64ToArray\<close> writes the eight bytes of the number at the given
  position, highest first, and nothing else, \<open>ConvertArrayTo64\<close> reads the number back from there, and for whatever eight bytes
  \<open>ConvertArrayTo64\<close> reads a number, \<open>Convert64ToArray\<close> writes the same bytes again.
\<close>

theorem util_convert64_roundtrip:
  assumes "off + 8 \<le> length out"
  shows "(\<exists>out'. Convert64ToArray w out off = Some out' \<and> ConvertArrayTo64 out' off = Some w \<and> length out' = length out
      \<and> (\<forall>i<8. out' ! (off + i) = ucast (drop_bit (8 * (7 - i)) w)) \<and> take off out' = take off out \<and> drop (off + 8) out' = drop (off + 8) out)
    \<and> (\<exists>v. ConvertArrayTo64 out off = Some v \<and> Convert64ToArray v out off = Some out)"
proof
  let ?o = "take off out @ (be32 (hi32 w) @ be32 (lo32 w)) @ drop (off + 8) out"
  have o: "length (take off out) = off" using assms by simp
  have "ConvertArrayTo64 ?o off = Some w"
    using ConvertArray64_be32 [of "take off out" "hi32 w" "lo32 w" "drop (off + 8) out"] unfolding o halves_join .
  moreover have "?o ! (off + i) = ucast (drop_bit (8 * (7 - i)) w)" if "i < 8" for i
  proof -
    have "?o ! (off + i) = (be32 (hi32 w) @ be32 (lo32 w)) ! i" using o that by (simp only: nth_append length_append length_be32) simp
    then show ?thesis using be64_byte [OF that] by simp
  qed
  ultimately show "\<exists>out'. Convert64ToArray w out off = Some out' \<and> ConvertArrayTo64 out' off = Some w \<and> length out' = length out
      \<and> (\<forall>i<8. out' ! (off + i) = ucast (drop_bit (8 * (7 - i)) w)) \<and> take off out' = take off out \<and> drop (off + 8) out' = drop (off + 8) out"
    using assms Convert64_eq [OF assms, of w] by (intro exI [of _ ?o]) simp
  obtain h where h: "out = take off out @ be32 h @ drop (off + 4) out" using ConvertArray32_split [of off out] assms by auto
  have "4 \<le> length (drop (off + 4) out)" using assms by simp
  then obtain l where l: "drop (off + 4) out = be32 l @ drop 4 (drop (off + 4) out)"
    using ConvertArray32_split [of 0 "drop (off + 4) out"] by auto
  have out: "out = take off out @ (be32 h @ be32 l) @ drop (off + 8) out" using h l by (simp add: add.commute)
  let ?v = "push_bit 32 (ucast h) OR ucast l :: u64"
  have "ConvertArrayTo64 out off = Some ?v"
    using ConvertArray64_be32 [of "take off out" h l "drop (off + 8) out", folded out] unfolding o .
  moreover have "Convert64ToArray ?v out off = Some out"
    using Convert64_eq [OF assms, of ?v] unfolding halves_of_join out [symmetric] .
  ultimately show "\<exists>v. ConvertArrayTo64 out off = Some v \<and> Convert64ToArray v out off = Some out" by blast
qed

theorem util_convert64_roundtrip_witness:
  "\<exists>out'. Convert64ToArray 0x1122334455667788 (replicate 10 0) 1 = Some out' \<and> ConvertArrayTo64 out' 1 = Some 0x1122334455667788
     \<and> (\<forall>i<8. out' ! (1 + i) = ucast (drop_bit (8 * (7 - i)) (0x1122334455667788 :: u64)))"
  using util_convert64_roundtrip [of 1 "replicate 10 0" "0x1122334455667788"] by auto

section \<open>A tree of directories\<close>

text \<open>
  The documented behaviour of the calls on directories only, kept as the list of their paths: \<open>mkdir\<close> makes a directory whose parent
  exists (the empty parent being the root or the current directory).
\<close>

definition parent :: "string \<Rightarrow> string" where
  "parent p = rev (drop 1 (dropWhile (\<lambda>c. c \<noteq> CHR ''/'') (rev p)))"

definition tree_calls :: "string list fs_calls" where
  "tree_calls = \<lparr>fs_stat = (\<lambda>p dirs. if p \<in> set dirs then Some 0x41ED else None),
     fs_mkdir = (\<lambda>p dirs. if p \<in> set dirs then (Some EEXIST, dirs)
       else if p \<noteq> [] \<and> (parent p = [] \<or> parent p \<in> set dirs) then (None, p # dirs) else (Some EOTHER, dirs))\<rparr>"

lemma parent_prefix: "parent p = [] \<or> (\<exists>j<length p. p ! j = CHR ''/'' \<and> parent p = take j p)"
proof (cases "CHR ''/'' \<in> set p")
  case True
  then obtain xs ys where p: "p = xs @ CHR ''/'' # ys" "CHR ''/'' \<notin> set ys" using split_list_last [of "CHR ''/''" p] by auto
  have "dropWhile (\<lambda>c. c \<noteq> CHR ''/'') (rev ys @ CHR ''/'' # rev xs) = CHR ''/'' # rev xs"
    using p(2) by (subst dropWhile_append2) auto
  then have "parent p = xs" by (simp add: parent_def p(1))
  then show ?thesis by (intro disjI2 exI [of _ "length xs"]) (simp add: p(1))
next
  case False
  then have "dropWhile (\<lambda>c. c \<noteq> CHR ''/'') (rev p) = []" by auto
  then show ?thesis unfolding parent_def by (simp only: drop_Nil rev.simps(1) simp_thms)
qed

lemma make_directory_tree:
  assumes "c_chars p \<noteq> []" and "\<And>j. 0 < j \<Longrightarrow> j < length (c_chars p) \<Longrightarrow> c_chars p ! j = CHR ''/'' \<Longrightarrow> take j (c_chars p) \<in> set dirs"
  shows "\<exists>dirs'. make_directory tree_calls p dirs = (True, dirs') \<and> set dirs' = insert (c_chars p) (set dirs)"
proof (cases "c_chars p \<in> set dirs")
  case False
  have "parent (c_chars p) = [] \<or> parent (c_chars p) \<in> set dirs"
    using parent_prefix [of "c_chars p"] assms(2) by (metis gr0I take_0)
  with False assms(1) show ?thesis by (simp add: make_directory_def tree_calls_def)
qed (auto simp: make_directory_def tree_calls_def insert_absorb)

lemma c_chars_cut: "CHR 0x00 \<notin> set p \<Longrightarrow> i < length p \<Longrightarrow> c_chars (p[i := CHR 0x00]) = take i p"
  by (simp add: c_chars_def upd_conv_take_nth_drop) (subst takeWhile_append2, auto dest: in_set_takeD)

lemma ensure_loop_tree:
  assumes z: "CHR 0x00 \<notin> set p" and "0 < i" "i \<le> length p"
    and "\<forall>j. 0 < j \<and> j < i \<and> p ! j = CHR ''/'' \<longrightarrow> take j p \<in> set dirs"
  shows "\<exists>dirs'. ensure_loop tree_calls p [i..<length p] dirs = (True, dirs') \<and> set dirs \<subseteq> set dirs'
    \<and> (\<forall>j. 0 < j \<and> j < length p \<and> p ! j = CHR ''/'' \<longrightarrow> take j p \<in> set dirs')"
  using assms(2-)
proof (induction "length p - i" arbitrary: i dirs)
  case (Suc d)
  then have i: "i < length p" "[i..<length p] = i # [Suc i..<length p]" by (simp_all add: upt_conv_Cons)
  have IH: "\<exists>dirs'. ensure_loop tree_calls p [Suc i..<length p] ds = (True, dirs') \<and> set ds \<subseteq> set dirs'
      \<and> (\<forall>j. 0 < j \<and> j < length p \<and> p ! j = CHR ''/'' \<longrightarrow> take j p \<in> set dirs')"
    if "\<forall>j. 0 < j \<and> j < Suc i \<and> p ! j = CHR ''/'' \<longrightarrow> take j p \<in> set ds" for ds
    using Suc.hyps(2) i(1) that by (intro Suc.hyps(1)) auto
  show ?case
  proof (cases "p ! i = CHR ''/''")
    case True
    have c: "c_chars (p[i := CHR 0x00]) = take i p" using z i(1) by (rule c_chars_cut)
    have "take i p \<noteq> []" using Suc.prems(1) i(1) by auto
    then obtain ds where ds: "make_directory tree_calls (p[i := CHR 0x00]) dirs = (True, ds)" "set ds = insert (take i p) (set dirs)"
      using make_directory_tree [of "p[i := CHR 0x00]" dirs] Suc.prems(3) i(1) by (auto simp: c)
    have "\<forall>j. 0 < j \<and> j < Suc i \<and> p ! j = CHR ''/'' \<longrightarrow> take j p \<in> set ds" using Suc.prems(3) ds(2) by (auto simp: less_Suc_eq)
    from IH [OF this] ds True show ?thesis by (auto simp: i(2))
  next
    case False
    have "\<forall>j. 0 < j \<and> j < Suc i \<and> p ! j = CHR ''/'' \<longrightarrow> take j p \<in> set dirs" using Suc.prems(3) False by (auto simp: less_Suc_eq)
    from IH [OF this] False show ?thesis by (simp add: i(2))
  qed
qed auto

text \<open>
  On such a tree \<open>EnsureDirectory\<close> always succeeds: the directory exists afterwards, with all its parents unless it was there already, and
  nothing is removed.
\<close>

lemma EnsureDirectory_creates:
  assumes z: "CHR 0x00 \<notin> set p" and "p \<noteq> []"
  shows "\<exists>dirs'. EnsureDirectory tree_calls p dirs = (True, dirs') \<and> p \<in> set dirs' \<and> set dirs \<subseteq> set dirs'
    \<and> (p \<notin> set dirs \<longrightarrow> (\<forall>j. 0 < j \<and> j < length p \<and> p ! j = CHR ''/'' \<longrightarrow> take j p \<in> set dirs'))"
proof -
  have c: "c_chars p = p" using z by (auto simp: c_chars_def takeWhile_eq_all_conv)
  have e: "DirectoryExists tree_calls p dirs \<longleftrightarrow> p \<in> set dirs" by (simp add: DirectoryExists_def c tree_calls_def S_IFDIR_def)
  have "1 \<le> length p" using assms(2) by (cases p) simp_all
  then obtain ds where ds: "ensure_loop tree_calls p [1..<length p] dirs = (True, ds)" "set dirs \<subseteq> set ds"
    "\<forall>j. 0 < j \<and> j < length p \<and> p ! j = CHR ''/'' \<longrightarrow> take j p \<in> set ds"
    using ensure_loop_tree [OF z, of 1 dirs] by auto
  obtain ds' where "make_directory tree_calls p ds = (True, ds')" "set ds' = insert p (set ds)"
    using make_directory_tree [of p ds] assms(2) ds(3) by (auto simp: c)
  with ds e show ?thesis by (cases "p \<in> set dirs") (auto simp: EnsureDirectory_def)
qed

end
