(* ===== verification/PosixShm.thy ===== *)
theory PosixShm
  imports XsiShm
begin

text \<open>
  \<open>mm/port/posix_shm.h\<close> and \<open>posix_shm.cc\<close>: shared memory by name (\<open>shm_open\<close>), the alternative to \<open>XsiShm\<close>. The system calls are
  functions of the state \<open>'o\<close> of the operating system, the argument \<open>posix_calls\<close>; \<open>MAP_FAILED\<close> is the address \<open>-1\<close>.
\<close>

section \<open>The code\<close>

record 'o posix_calls =
  shm_open_create_excl :: "string \<Rightarrow> 'o \<Rightarrow> i32 \<times> errno \<times> 'o"
  shm_open_rdwr :: "string \<Rightarrow> 'o \<Rightarrow> i32 \<times> 'o"
  ftruncate :: "i32 \<Rightarrow> u64 \<Rightarrow> 'o \<Rightarrow> i32 \<times> 'o"
  fstat_size :: "i32 \<Rightarrow> 'o \<Rightarrow> i32 \<times> u64 \<times> 'o"
  mmap_shared :: "u64 \<Rightarrow> u64 \<Rightarrow> i32 \<Rightarrow> 'o \<Rightarrow> u64 \<times> 'o"
  munmap :: "u64 \<Rightarrow> u64 \<Rightarrow> 'o \<Rightarrow> 'o"
  close_fd :: "i32 \<Rightarrow> 'o \<Rightarrow> 'o"
  shm_unlink :: "string \<Rightarrow> 'o \<Rightarrow> i32 \<times> 'o"

record PosixShm =
  ps_inited :: bool
  ps_opt :: ShmOption
  ps_shm_name :: string
  ps_managed_shm :: u64
  ps_shm_size :: u64

definition PosixShm_new :: PosixShm where
  "PosixShm_new = \<lparr>ps_inited = False, ps_opt = ShmOption_new, ps_shm_name = [], ps_managed_shm = 0, ps_shm_size = 0\<rparr>"

definition MAP_FAILED :: u64 where "MAP_FAILED = - 1"

text \<open>The tail \<open>OpenOrCreate\<close> and \<open>OpenOnly\<close> have in common: map \<open>n\<close> bytes of the descriptor, or unlink the name.\<close>

definition PosixShm_map :: "'o posix_calls \<Rightarrow> i32 \<Rightarrow> u64 \<Rightarrow> PosixShm \<Rightarrow> 'o \<Rightarrow> bool \<times> PosixShm \<times> 'o" where
  "PosixShm_map sys fd n x os =
     (let addr = opt_addr (ps_opt x);
          (p, os) = mmap_shared sys addr n fd os;
          x = x\<lparr>ps_managed_shm := p\<rparr>;
          os = close_fd sys fd os
      in if p = MAP_FAILED \<or> addr \<noteq> 0 \<and> p \<noteq> addr then (let (_, os) = shm_unlink sys (ps_shm_name x) os in (False, x, os))
         else (True, x\<lparr>ps_inited := True\<rparr>, os))"

definition PosixShm_OpenOnly :: "'o posix_calls \<Rightarrow> PosixShm \<Rightarrow> 'o \<Rightarrow> bool \<times> PosixShm \<times> 'o" where
  "PosixShm_OpenOnly sys x os =
     (if ps_inited x then (True, x, os)
      else
        let (fd, os) = shm_open_rdwr sys (ps_shm_name x) os in
        if fd = - 1 then (False, x, os)
        else let (r, st_size, os) = fstat_size sys fd os in
          if sint r < 0 then (False, x, close_fd sys fd os)
          else PosixShm_map sys fd st_size (x\<lparr>ps_shm_size := st_size\<rparr>) os)"

definition PosixShm_OpenOrCreate :: "'o posix_calls \<Rightarrow> PosixShm \<Rightarrow> 'o \<Rightarrow> bool \<times> PosixShm \<times> 'o" where
  "PosixShm_OpenOrCreate sys x os =
     (if ps_inited x then (True, x, os)
      else
        let (fd, err, os) = shm_open_create_excl sys (ps_shm_name x) os in
        if sint fd < 0 then (if err = EEXIST then PosixShm_OpenOnly sys x os else (False, x, os))
        else let (r, os) = ftruncate sys fd (opt_size (ps_opt x)) os in
          if sint r < 0 then (False, x, close_fd sys fd os)
          else PosixShm_map sys fd (opt_size (ps_opt x)) (x\<lparr>ps_shm_size := opt_size (ps_opt x)\<rparr>) os)"

text \<open>As in \<open>XsiShm\<close>, \<open>Init\<close> does not look at the result of \<open>OpenOrCreate\<close>.\<close>

definition posix_name :: "ShmOption \<Rightarrow> string" where
  "posix_name opt = to_string (opt_domain_id opt) @ ''_'' @ opt_name opt"

definition PosixShm_Init :: "'o posix_calls \<Rightarrow> ShmOption \<Rightarrow> PosixShm \<Rightarrow> 'o \<Rightarrow> bool \<times> PosixShm \<times> 'o" where
  "PosixShm_Init sys opt x os =
     (if ps_inited x then (True, x, os)
      else let (_, x, os) = PosixShm_OpenOrCreate sys (x\<lparr>ps_opt := opt, ps_shm_name := posix_name opt\<rparr>) os
        in (True, x\<lparr>ps_inited := True\<rparr>, os))"

definition PosixShm_Remove :: "'o posix_calls \<Rightarrow> PosixShm \<Rightarrow> 'o \<Rightarrow> bool \<times> 'o" where
  "PosixShm_Remove sys x os = (let (r, os) = shm_unlink sys (ps_shm_name x) os in (\<not> sint r < 0, os))"

definition PosixShm_Reset :: "'o posix_calls \<Rightarrow> PosixShm \<Rightarrow> 'o \<Rightarrow> PosixShm \<times> 'o" where
  "PosixShm_Reset sys x os =
     (if ps_managed_shm x \<noteq> 0 then (x\<lparr>ps_managed_shm := 0\<rparr>, munmap sys (ps_managed_shm x) (ps_shm_size x) os) else (x, os))"

text \<open>The destructor is \<open>Shutdown\<close>.\<close>

definition PosixShm_Shutdown :: "'o posix_calls \<Rightarrow> PosixShm \<Rightarrow> 'o \<Rightarrow> PosixShm \<times> 'o" where
  "PosixShm_Shutdown sys x os =
     (if \<not> ps_inited x then (x, os)
      else let (x, os) = PosixShm_Reset sys (x\<lparr>ps_inited := False\<rparr>) os; (_, os) = PosixShm_Remove sys x os in (x, os))"

section \<open>A table of named objects\<close>

text \<open>
  The documented behaviour of the calls: names lead to objects with a size, which \<open>shm_open\<close> creates empty; a descriptor is open on an
  object; a mapping holds an object at an address whether or not it still has a name; nothing can be mapped of an empty object.
  \<open>px_maps\<close> are the mappings of the calling process, \<open>px_place\<close> the address the system picks when none is asked for.
\<close>

record posix =
  px_names :: "string \<rightharpoonup> nat"
  px_size :: "nat \<Rightarrow> u64"
  px_next :: nat
  px_fds :: "(i32 \<times> nat) list"
  px_next_fd :: i32
  px_maps :: "(u64 \<times> u64 \<times> nat) list"
  px_place :: u64

definition px_open :: "nat \<Rightarrow> posix \<Rightarrow> i32 \<times> posix" where
  "px_open i s = (px_next_fd s, s\<lparr>px_fds := (px_next_fd s, i) # px_fds s\<rparr>)"

definition px_create_excl :: "string \<Rightarrow> posix \<Rightarrow> i32 \<times> errno \<times> posix" where
  "px_create_excl name s = (case px_names s name of
       Some _ \<Rightarrow> (- 1, EEXIST, s)
     | None \<Rightarrow> (let i = px_next s; (fd, s) = px_open i (s\<lparr>px_names := (px_names s)(name \<mapsto> i), px_size := (px_size s)(i := 0), px_next := Suc i\<rparr>)
              in (fd, EOTHER, s)))"

definition px_open_rdwr :: "string \<Rightarrow> posix \<Rightarrow> i32 \<times> posix" where
  "px_open_rdwr name s = (case px_names s name of None \<Rightarrow> (- 1, s) | Some i \<Rightarrow> px_open i s)"

definition px_truncate :: "i32 \<Rightarrow> u64 \<Rightarrow> posix \<Rightarrow> i32 \<times> posix" where
  "px_truncate fd n s = (case map_of (px_fds s) fd of
       None \<Rightarrow> (- 1, s)
     | Some i \<Rightarrow> if sint n < 0 then (- 1, s) else (0, s\<lparr>px_size := (px_size s)(i := n)\<rparr>))"

definition px_stat :: "i32 \<Rightarrow> posix \<Rightarrow> i32 \<times> u64 \<times> posix" where
  "px_stat fd s = (case map_of (px_fds s) fd of None \<Rightarrow> (- 1, 0, s) | Some i \<Rightarrow> (0, px_size s i, s))"

definition px_mmap :: "u64 \<Rightarrow> u64 \<Rightarrow> i32 \<Rightarrow> posix \<Rightarrow> u64 \<times> posix" where
  "px_mmap addr n fd s = (case map_of (px_fds s) fd of
       None \<Rightarrow> (- 1, s)
     | Some i \<Rightarrow> if n = 0 then (- 1, s)
              else (let p = (if addr = 0 then px_place s else addr) in (p, s\<lparr>px_maps := (p, n, i) # px_maps s\<rparr>)))"

definition px_munmap :: "u64 \<Rightarrow> u64 \<Rightarrow> posix \<Rightarrow> posix" where
  "px_munmap p n s = s\<lparr>px_maps := filter (\<lambda>(q, m, i). (q, m) \<noteq> (p, n)) (px_maps s)\<rparr>"

definition px_close :: "i32 \<Rightarrow> posix \<Rightarrow> posix" where
  "px_close fd s = s\<lparr>px_fds := filter (\<lambda>(e, i). e \<noteq> fd) (px_fds s)\<rparr>"

definition px_unlink :: "string \<Rightarrow> posix \<Rightarrow> i32 \<times> posix" where
  "px_unlink name s = (if px_names s name = None then (- 1, s) else (0, s\<lparr>px_names := (px_names s)(name := None)\<rparr>))"

definition table_calls :: "posix posix_calls" where
  "table_calls = \<lparr>shm_open_create_excl = px_create_excl, shm_open_rdwr = px_open_rdwr, ftruncate = px_truncate, fstat_size = px_stat,
     mmap_shared = px_mmap, munmap = px_munmap, close_fd = px_close, shm_unlink = px_unlink\<rparr>"

lemmas px_defs = table_calls_def px_create_excl_def px_open_rdwr_def px_open_def px_truncate_def px_stat_def px_mmap_def px_munmap_def
  px_close_def px_unlink_def

section \<open>Properties\<close>

lemmas posix_defs = PosixShm_Init_def PosixShm_OpenOrCreate_def PosixShm_OpenOnly_def PosixShm_map_def PosixShm_new_def MAP_FAILED_def

definition posix_ready :: "ShmOption \<Rightarrow> posix \<Rightarrow> bool" where
  "posix_ready opt s \<longleftrightarrow> 0 \<le> sint (px_next_fd s) \<and> (\<forall>(fd, i)\<in>set (px_fds s). fd \<noteq> px_next_fd s) \<and> 0 < opt_size opt \<and> 0 \<le> sint (opt_size opt)
     \<and> opt_addr opt \<noteq> 0 \<and> opt_addr opt \<noteq> - 1"

lemma posix_ready_fds: "posix_ready opt s \<Longrightarrow> filter (\<lambda>(e, i). e \<noteq> px_next_fd s) (px_fds s) = px_fds s"
  by (auto simp: posix_ready_def intro!: filter_True)

lemma posix_ready_fd: "posix_ready opt s \<Longrightarrow> px_next_fd s \<noteq> - 1"
  by (auto simp: posix_ready_def)

lemma posix_Init_creates:
  assumes "posix_ready opt s" and "px_names s (posix_name opt) = None"
  shows "PosixShm_Init table_calls opt PosixShm_new s =
    (True, \<lparr>ps_inited = True, ps_opt = opt, ps_shm_name = posix_name opt, ps_managed_shm = opt_addr opt, ps_shm_size = opt_size opt\<rparr>,
     s\<lparr>px_names := (px_names s)(posix_name opt \<mapsto> px_next s), px_size := (px_size s)(px_next s := opt_size opt), px_next := Suc (px_next s),
       px_maps := (opt_addr opt, opt_size opt, px_next s) # px_maps s\<rparr>)"
  using assms(2) posix_ready_fds [OF assms(1)] assms(1)
  by (simp add: posix_ready_def posix_defs px_defs Let_def word_neq_0_conv [symmetric] linorder_not_less)

lemma posix_Init_opens:
  assumes "posix_ready opt s" and "px_names s (posix_name opt) = Some i" and "px_size s i \<noteq> 0"
  shows "PosixShm_Init table_calls opt PosixShm_new s =
    (True, \<lparr>ps_inited = True, ps_opt = opt, ps_shm_name = posix_name opt, ps_managed_shm = opt_addr opt, ps_shm_size = px_size s i\<rparr>,
     s\<lparr>px_maps := (opt_addr opt, px_size s i, i) # px_maps s\<rparr>)"
  using assms(2,3) posix_ready_fds [OF assms(1)] assms(1) posix_ready_fd [OF assms(1)]
  by (simp add: posix_ready_def posix_defs px_defs Let_def)

text \<open>
  Of two processes (the second one, with mappings of its own, in \<open>ms\<close>) the first creates the object and both map it, whole and at the
  requested address; no descriptor stays open.
\<close>

lemma posix_shares_one_object:
  assumes "posix_ready opt s" and "px_names s (posix_name opt) = None"
  shows "\<exists>x1 t x2 u i. PosixShm_Init table_calls opt PosixShm_new s = (True, x1, t) \<and> PosixShm_Init table_calls opt PosixShm_new (t\<lparr>px_maps := ms\<rparr>) = (True, x2, u)
    \<and> px_maps t = (opt_addr opt, opt_size opt, i) # px_maps s \<and> px_maps u = (opt_addr opt, opt_size opt, i) # ms \<and> px_fds u = px_fds s"
proof -
  let ?t = "s\<lparr>px_names := (px_names s)(posix_name opt \<mapsto> px_next s), px_size := (px_size s)(px_next s := opt_size opt), px_next := Suc (px_next s),
       px_maps := (opt_addr opt, opt_size opt, px_next s) # px_maps s\<rparr>"
  have "posix_ready opt (?t\<lparr>px_maps := ms\<rparr>)" "opt_size opt \<noteq> 0" using assms(1) by (auto simp: posix_ready_def)
  then show ?thesis using posix_Init_creates [OF assms] posix_Init_opens [of opt "?t\<lparr>px_maps := ms\<rparr>" "px_next s"] by simp
qed

text \<open>
  A process that comes between the creator's \<open>shm_open\<close> and its \<open>ftruncate\<close> finds an empty object: it cannot map it, removes its name,
  and reports success. The creator goes on with an object nobody can open any more.
\<close>

lemma posix_open_race:
  assumes "posix_ready opt s" and "px_names s (posix_name opt) = Some i" and "px_size s i = 0"
  shows "\<exists>x. PosixShm_Init table_calls opt PosixShm_new s = (True, x, s\<lparr>px_names := (px_names s)(posix_name opt := None)\<rparr>)
    \<and> ps_inited x \<and> ps_managed_shm x = MAP_FAILED"
  using assms(2,3) posix_ready_fds [OF assms(1)] assms(1) posix_ready_fd [OF assms(1)]
  by (simp add: posix_ready_def posix_defs px_defs Let_def)

text \<open>\<open>Shutdown\<close> undoes the mapping and removes the name, whoever created the object.\<close>

lemma posix_Shutdown_unlinks:
  assumes "posix_ready opt s" and "px_names s (posix_name opt) = Some i" and "px_size s i \<noteq> 0" and "\<forall>(p, n, j)\<in>set (px_maps s). p \<noteq> opt_addr opt"
    and "PosixShm_Init table_calls opt PosixShm_new s = (True, x, t)"
  shows "\<exists>x'. PosixShm_Shutdown table_calls x t = (x', s\<lparr>px_names := (px_names s)(posix_name opt := None)\<rparr>) \<and> \<not> ps_inited x' \<and> ps_managed_shm x' = 0"
proof -
  have "filter (\<lambda>(q, m, j). (q, m) \<noteq> (opt_addr opt, px_size s i)) (px_maps s) = px_maps s"
    using assms(4) by (auto intro!: filter_True)
  then show ?thesis using posix_Init_opens [OF assms(1-3)] assms(1,2,5)
    by (auto simp: PosixShm_Shutdown_def PosixShm_Reset_def PosixShm_Remove_def px_defs posix_ready_def)
qed

end
