(* ===== verification/PagesMmap.thy ===== *)
theory PagesMmap
  imports XsiShm Align
begin

text \<open>
  \<open>mm/port/pages_mmap.h\<close> and \<open>pages_mmap.cc\<close>: ranges of anonymous memory. The system calls are functions of the state \<open>'o\<close> of the
  operating system; an assertion that fails is \<open>None\<close>. What the calls do to the set of mapped bytes is the contract \<open>mapping_calls\<close>.
\<close>

section \<open>The code\<close>

record 'o mmap_calls =
  sys_mmap :: "u64 \<Rightarrow> u64 \<Rightarrow> i32 \<Rightarrow> i32 \<Rightarrow> i32 \<Rightarrow> 'o \<Rightarrow> u64 \<times> 'o"
  sys_munmap :: "u64 \<Rightarrow> u64 \<Rightarrow> 'o \<Rightarrow> i32 \<times> 'o"
  sys_madvise :: "u64 \<Rightarrow> u64 \<Rightarrow> i32 \<Rightarrow> 'o \<Rightarrow> i32 \<times> 'o"

text \<open>The constants of \<open>sys/mman.h\<close> on Linux.\<close>

definition PROT_NONE :: i32 where "PROT_NONE = 0"
definition PROT_READ :: i32 where "PROT_READ = 1"
definition PROT_WRITE :: i32 where "PROT_WRITE = 2"
definition MAP_PRIVATE :: i32 where "MAP_PRIVATE = 2"
definition MAP_FIXED :: i32 where "MAP_FIXED = 0x10"
definition MAP_ANONYMOUS :: i32 where "MAP_ANONYMOUS = 0x20"
definition MADV_DONTNEED :: i32 where "MADV_DONTNEED = 4"
definition MADV_HUGEPAGE :: i32 where "MADV_HUGEPAGE = 14"
definition MADV_NOHUGEPAGE :: i32 where "MADV_NOHUGEPAGE = 15"

definition PAGES_PROT_COMMIT :: i32 where "PAGES_PROT_COMMIT = PROT_READ OR PROT_WRITE"
definition PAGES_PROT_DECOMMIT :: i32 where "PAGES_PROT_DECOMMIT = PROT_NONE"
definition DEFAULT_PAGE_PROT :: i32 where "DEFAULT_PAGE_PROT = PROT_READ OR PROT_WRITE"
definition DEFAULT_MMAP_FLAGS :: i32 where "DEFAULT_MMAP_FLAGS = MAP_PRIVATE OR MAP_ANONYMOUS"
definition DEFAULT_PAGES_FD_TAG :: i32 where "DEFAULT_PAGES_FD_TAG = - 1"

record PagesMmap =
  pm_page_size :: u64
  pm_page_mask :: u64
  pm_os_overcommits :: bool
  pm_prot :: i32
  pm_mmap_flags :: i32
  pm_pages_fd_tag :: i32

definition PagesMmap_new :: PagesMmap where
  "PagesMmap_new = \<lparr>pm_page_size = 4096, pm_page_mask = 4096 - 1, pm_os_overcommits = True, pm_prot = DEFAULT_PAGE_PROT,
     pm_mmap_flags = DEFAULT_MMAP_FLAGS, pm_pages_fd_tag = DEFAULT_PAGES_FD_TAG\<rparr>"

definition set_fd :: "i32 \<Rightarrow> PagesMmap \<Rightarrow> PagesMmap" where
  "set_fd fd m = m\<lparr>pm_pages_fd_tag := fd\<rparr>"

definition set_page_size :: "(u64 \<Rightarrow> u64) \<Rightarrow> u64 \<Rightarrow> PagesMmap \<Rightarrow> PagesMmap" where
  "set_page_size bit_ceil page_size m = m\<lparr>pm_page_size := bit_ceil page_size, pm_page_mask := bit_ceil page_size - 1\<rparr>"

definition pages_unmap :: "'o mmap_calls \<Rightarrow> u64 \<Rightarrow> u64 \<Rightarrow> 'o \<Rightarrow> 'o" where
  "pages_unmap sys addr sz os = snd (sys_munmap sys addr sz os)"

text \<open>The second component of the result is \<open>*commit\<close>.\<close>

definition pages_map :: "'o mmap_calls \<Rightarrow> u64 \<Rightarrow> u64 \<Rightarrow> bool \<Rightarrow> PagesMmap \<Rightarrow> 'o \<Rightarrow> (u64 \<times> bool \<times> 'o) option" where
  "pages_map sys addr sz commit m os =
     (if sz = 0 then None
      else
        let commit = (pm_os_overcommits m \<or> commit);
            prot = (if commit then PAGES_PROT_COMMIT else PAGES_PROT_DECOMMIT);
            (ret, os) = sys_mmap sys addr sz prot (pm_mmap_flags m) (pm_pages_fd_tag m) os
        in if ret = 0 then None
           else
             let (ret, os) = (if ret = - 1 then (0, os) else if addr \<noteq> 0 \<and> ret \<noteq> addr then (0, pages_unmap sys ret sz os) else (ret, os))
             in if ret = 0 \<or> addr = 0 \<and> ret \<noteq> addr \<or> addr \<noteq> 0 \<and> ret = addr then Some (ret, commit, os) else None)"

definition pages_trim :: "'o mmap_calls \<Rightarrow> u64 \<Rightarrow> u64 \<Rightarrow> u64 \<Rightarrow> u64 \<Rightarrow> 'o \<Rightarrow> (u64 \<times> 'o) option" where
  "pages_trim sys addr alloc_size leadsize sz os =
     (let ret = addr + leadsize in
      if \<not> leadsize + sz \<le> alloc_size then None
      else
        let trailsize = alloc_size - leadsize - sz;
            os = (if leadsize \<noteq> 0 then pages_unmap sys addr leadsize os else os);
            os = (if trailsize \<noteq> 0 then pages_unmap sys (ret + sz) trailsize os else os)
        in Some (ret, os))"

text \<open>True stands for failure.\<close>

definition pages_commit_impl :: "'o mmap_calls \<Rightarrow> u64 \<Rightarrow> u64 \<Rightarrow> bool \<Rightarrow> PagesMmap \<Rightarrow> 'o \<Rightarrow> bool \<times> 'o" where
  "pages_commit_impl sys addr sz commit m os =
     (if pm_os_overcommits m then (True, os)
      else
        let prot = (if commit then PAGES_PROT_COMMIT else PAGES_PROT_DECOMMIT);
            (result, os) = sys_mmap sys addr sz prot (pm_mmap_flags m OR MAP_FIXED) (- 1) os
        in if result = - 1 then (True, os)
           else if result \<noteq> addr then (True, pages_unmap sys result sz os)
           else (False, os))"

definition pages_commit :: "'o mmap_calls \<Rightarrow> u64 \<Rightarrow> u64 \<Rightarrow> PagesMmap \<Rightarrow> 'o \<Rightarrow> bool \<times> 'o" where
  "pages_commit sys addr sz m os = pages_commit_impl sys addr sz True m os"

definition pages_decommit :: "'o mmap_calls \<Rightarrow> u64 \<Rightarrow> u64 \<Rightarrow> PagesMmap \<Rightarrow> 'o \<Rightarrow> bool \<times> 'o" where
  "pages_decommit sys addr sz m os = pages_commit_impl sys addr sz False m os"

definition pages_purge :: "'o mmap_calls \<Rightarrow> u64 \<Rightarrow> u64 \<Rightarrow> 'o \<Rightarrow> bool \<times> 'o" where
  "pages_purge sys addr sz os =
     (let zeros = True; (err, os) = sys_madvise sys addr sz MADV_DONTNEED os in (\<not> zeros \<or> err \<noteq> 0, os))"

definition pages_huge :: "'o mmap_calls \<Rightarrow> u64 \<Rightarrow> u64 \<Rightarrow> 'o \<Rightarrow> bool \<times> 'o" where
  "pages_huge sys addr sz os = (let (err, os) = sys_madvise sys addr sz MADV_HUGEPAGE os in (err \<noteq> 0, os))"

definition pages_nohuge :: "'o mmap_calls \<Rightarrow> u64 \<Rightarrow> u64 \<Rightarrow> 'o \<Rightarrow> bool \<times> 'o" where
  "pages_nohuge sys addr sz os = (let (err, os) = sys_madvise sys addr sz MADV_NOHUGEPAGE os in (err \<noteq> 0, os))"

section \<open>The contract of the calls\<close>

definition bytes_at :: "u64 \<Rightarrow> u64 \<Rightarrow> nat set" where
  "bytes_at p n = {unat p ..< unat p + unat n}"

text \<open>
  A new private mapping lies where nothing was mapped, never at address 0, and inside the address space; sizes are multiples of
  the system's page size \<open>pg\<close>, and so are the addresses.
\<close>

locale mapping_calls =
  fixes sys :: "'o mmap_calls" and pg :: nat and mapped :: "'o \<Rightarrow> nat set"
  assumes page: "\<exists>k<64. pg = 2 ^ k"
    and map: "0 < n \<Longrightarrow> pg dvd unat n \<Longrightarrow> pg dvd unat a \<Longrightarrow> sys_mmap sys a n prot DEFAULT_MMAP_FLAGS fd s = (p, t) \<Longrightarrow>
      p = - 1 \<and> mapped t = mapped s \<or>
      p \<noteq> - 1 \<and> p \<noteq> 0 \<and> pg dvd unat p \<and> unat p + unat n < 2 ^ 64 \<and> bytes_at p n \<inter> mapped s = {} \<and> mapped t = mapped s \<union> bytes_at p n"
    and unmap: "0 < n \<Longrightarrow> pg dvd unat p \<Longrightarrow> pg dvd unat n \<Longrightarrow> unat p + unat n < 2 ^ 64 \<Longrightarrow> mapped (snd (sys_munmap sys p n s)) = mapped s - bytes_at p n"
begin

text \<open>\<open>pages_map\<close> maps exactly the range it returns, at the address asked for, or nothing.\<close>

lemma pages_map_correct:
  assumes "0 < n" and "pg dvd unat n" and "pg dvd unat a" and "pm_mmap_flags m = DEFAULT_MMAP_FLAGS"
  obtains p c t where "pages_map sys a n commit m s = Some (p, c, t)" and "c = (pm_os_overcommits m \<or> commit)"
    and "p = 0 \<and> mapped t = mapped s \<or>
      p \<noteq> 0 \<and> (a \<noteq> 0 \<longrightarrow> p = a) \<and> pg dvd unat p \<and> unat p + unat n < 2 ^ 64 \<and> bytes_at p n \<inter> mapped s = {} \<and> mapped t = mapped s \<union> bytes_at p n"
proof -
  let ?prot = "if pm_os_overcommits m \<or> commit then PAGES_PROT_COMMIT else PAGES_PROT_DECOMMIT"
  obtain p t where pt: "sys_mmap sys a n ?prot DEFAULT_MMAP_FLAGS (pm_pages_fd_tag m) s = (p, t)" by fastforce
  note c = map [OF assms(1-3) pt]
  have n0: "n \<noteq> 0" using assms(1) by auto
  have undone: "mapped (pages_unmap sys p n t) = mapped s" if "p \<noteq> - 1"
    using c unmap [of n p t] assms(1,2) that by (auto simp: pages_unmap_def)
  let ?r = "if p = - 1 then (0, t) else if a \<noteq> 0 \<and> p \<noteq> a then (0, pages_unmap sys p n t) else (p, t)"
  have "pages_map sys a n commit m s = Some (fst ?r, pm_os_overcommits m \<or> commit, snd ?r)"
    using c pt n0 assms(4) by (auto simp: pages_map_def Let_def split: if_splits)
  then show thesis by (rule that) (use c undone in auto)
qed

text \<open>\<open>pages_trim\<close> keeps \<open>size\<close> bytes of a mapped range and gives back the rest of it, in front and behind.\<close>

lemma pages_trim_correct:
  assumes "pg dvd unat a" "pg dvd unat alloc" "pg dvd unat lead" "pg dvd unat n" and le: "unat lead + unat n \<le> unat alloc"
    and top: "unat a + unat alloc < 2 ^ 64" and sub: "bytes_at a alloc \<subseteq> mapped s"
  obtains t where "pages_trim sys a alloc lead n s = Some (a + lead, t)" and "mapped t = mapped s - (bytes_at a alloc - bytes_at (a + lead) n)"
    and "unat (a + lead) = unat a + unat lead"
proof -
  have ls: "unat (lead + n) = unat lead + unat n" and ad: "unat (a + lead) = unat a + unat lead" and adn: "unat (a + lead + n) = unat a + unat lead + unat n"
    using le top by (simp_all add: unat_add_small)
  have le': "lead + n \<le> alloc" using le ls by (simp add: word_le_nat_alt)
  let ?trail = "alloc - lead - n"
  have tr: "unat ?trail = unat alloc - unat lead - unat n"
    using le by (simp add: unat_sub word_le_nat_alt)
  let ?s1 = "if lead \<noteq> 0 then pages_unmap sys a lead s else s"
  let ?s2 = "if ?trail \<noteq> 0 then pages_unmap sys (a + lead + n) ?trail ?s1 else ?s1"
  have 1: "mapped ?s1 = mapped s - bytes_at a lead"
    using unmap [of lead a s] assms(1,3) top le by (auto simp: pages_unmap_def bytes_at_def word_gt_0)
  have "pg dvd unat ?trail" unfolding tr using assms(2-4) by (simp add: dvd_diff_nat)
  moreover have "pg dvd unat (a + lead + n)" unfolding adn using assms(1,3,4) by (simp add: dvd_add)
  ultimately have 2: "mapped ?s2 = mapped ?s1 - bytes_at (a + lead + n) ?trail"
    using unmap [of ?trail "a + lead + n" ?s1] top le tr adn by (auto simp: pages_unmap_def bytes_at_def word_gt_0)
  have "mapped ?s2 = mapped s - (bytes_at a alloc - bytes_at (a + lead) n)"
    unfolding 1 2 bytes_at_def adn ad tr using le by auto
  then show thesis using le' that [of ?s2] ad by (simp add: pages_trim_def Let_def)
qed

text \<open>The recipe for an aligned range: map more than needed, then trim what lies before and behind.\<close>

lemma map_and_trim_aligned:
  assumes n: "0 < n" "pg dvd unat n" and al: "al = 2 ^ k" "k < 63" "pg \<le> 2 ^ k" and big: "unat n + 2 ^ k < 2 ^ 64" and m: "pm_mmap_flags m = DEFAULT_MMAP_FLAGS"
    and got: "pages_map sys 0 (n + al) commit m s = Some (p, c, t)" "p \<noteq> 0"
  obtains q u where "pages_trim sys p (n + al) (align_up p al - p) n t = Some (q, u)" and "2 ^ k dvd unat q" and "bytes_at q n \<inter> mapped s = {}"
    and "mapped u = mapped s \<union> bytes_at q n"
proof -
  obtain j where j: "pg = 2 ^ j" using page by blast
  have "j \<le> k" using al(3) power_le_imp_le_exp [of 2 j k] by (simp add: j)
  then have dv: "pg dvd 2 ^ k" unfolding j by (rule le_imp_power_dvd)
  have ua: "unat al = 2 ^ k" using al by (simp add: unat_pow2)
  have un: "unat (n + al) = unat n + 2 ^ k" using big ua by (simp add: unat_add_small)
  have pn: "0 < n + al" using un n(1) by (simp add: word_less_nat_alt)
  have "pg dvd unat (n + al)" using un n(2) dv by simp
  from pages_map_correct [OF pn this, of 0 m commit s] m got have
    g: "pg dvd unat p" "unat p + (unat n + 2 ^ k) < 2 ^ 64" "bytes_at p (n + al) \<inter> mapped s = {}" "mapped t = mapped s \<union> bytes_at p (n + al)"
    by (auto simp: un)
  let ?q = "align_up p al" and ?m = "nat_align_up (unat p) (2 ^ k)"
  have uq: "unat ?q = ?m" unfolding al(1) using al(2) g(2) by (intro unat_align_up) simp_all
  have b: "unat p \<le> ?m" "?m < unat p + 2 ^ k" "2 ^ k dvd ?m" using nat_align_up_bounds [of "2 ^ k" "unat p"] nat_align_up_dvd by simp_all
  have ul: "unat (?q - p) = ?m - unat p" using b(1) by (simp add: unat_sub word_le_nat_alt uq)
  have "pg dvd unat (?q - p)" unfolding ul using dvd_trans [OF dv b(3)] g(1) by (rule dvd_diff_nat)
  note tr = pages_trim_correct [OF g(1) \<open>pg dvd unat (n + al)\<close> this n(2), of t]
  have "unat (?q - p) + unat n \<le> unat (n + al)" "unat p + unat (n + al) < 2 ^ 64" "bytes_at p (n + al) \<subseteq> mapped t" "p + (?q - p) = ?q"
    using b(1,2) g(2,4) unfolding ul un by simp_all
  from tr [OF this(1-3), unfolded this(4)] obtain u where
    u: "pages_trim sys p (n + al) (?q - p) n t = Some (?q, u)" "mapped u = mapped t - (bytes_at p (n + al) - bytes_at ?q n)" .
  have "bytes_at ?q n \<subseteq> bytes_at p (n + al)" unfolding bytes_at_def uq un using b by auto
  then have "mapped u = mapped s \<union> bytes_at ?q n" "bytes_at ?q n \<inter> mapped s = {}" unfolding u(2) g(4) using g(3) by auto
  then show thesis using that u(1) b(3) uq by simp
qed

end

section \<open>A table of mappings\<close>

text \<open>
  A system with pages of 4 KiB that places a mapping at the address asked for when that range is free, and else behind everything
  mapped so far.
\<close>

type_synonym ranges = "(u64 \<times> u64) list"

definition ranges_set :: "ranges \<Rightarrow> nat set" where
  "ranges_set rs = (\<Union>(p, n)\<in>set rs. bytes_at p n)"

definition meets :: "u64 \<Rightarrow> u64 \<Rightarrow> u64 \<times> u64 \<Rightarrow> bool" where
  "meets p n = (\<lambda>(q, m). unat p < unat q + unat m \<and> unat q < unat p + unat n)"

definition ranges_fit :: "u64 \<Rightarrow> u64 \<Rightarrow> ranges \<Rightarrow> bool" where
  "ranges_fit p n rs \<longleftrightarrow> p \<noteq> 0 \<and> p \<noteq> - 1 \<and> 4096 dvd unat p \<and> unat p + unat n < 2 ^ 64 \<and> list_all (\<lambda>r. \<not> meets p n r) rs"

definition ranges_top :: "ranges \<Rightarrow> u64" where
  "ranges_top rs = of_nat (nat_align_up (fold (\<lambda>(p, n). max (unat p + unat n)) rs 0x10000) 4096)"

definition ranges_mmap :: "u64 \<Rightarrow> u64 \<Rightarrow> i32 \<Rightarrow> i32 \<Rightarrow> i32 \<Rightarrow> ranges \<Rightarrow> u64 \<times> ranges" where
  "ranges_mmap a n prot flags fd rs =
     (if ranges_fit a n rs then (a, (a, n) # rs)
      else let p = ranges_top rs in if ranges_fit p n rs then (p, (p, n) # rs) else (- 1, rs))"

text \<open>What is left of a range when another is cut out of it.\<close>

definition cut_range :: "u64 \<Rightarrow> u64 \<Rightarrow> u64 \<times> u64 \<Rightarrow> ranges" where
  "cut_range p n = (\<lambda>(q, m). [(q, of_nat (min (unat m) (unat p - unat q))),
     (of_nat (max (unat q) (unat p + unat n)), of_nat (unat q + unat m - max (unat q) (unat p + unat n)))])"

definition ranges_munmap :: "u64 \<Rightarrow> u64 \<Rightarrow> ranges \<Rightarrow> i32 \<times> ranges" where
  "ranges_munmap p n rs = (0, concat (map (cut_range p n) rs))"

definition ranges_calls :: "ranges mmap_calls" where
  "ranges_calls = \<lparr>sys_mmap = ranges_mmap, sys_munmap = ranges_munmap, sys_madvise = (\<lambda>p n adv rs. (0, rs))\<rparr>"

lemma bytes_at_disjoint: "\<not> meets p n (q, m) \<Longrightarrow> bytes_at p n \<inter> bytes_at q m = {}"
  by (auto simp: meets_def bytes_at_def)

lemma ranges_fit_disjoint: "ranges_fit p n rs \<Longrightarrow> bytes_at p n \<inter> ranges_set rs = {}"
  using bytes_at_disjoint by (fastforce simp: ranges_fit_def ranges_set_def list_all_iff)

lemma cut_range_bytes:
  assumes "unat p + unat n < 2 ^ 64"
  shows "ranges_set (cut_range p n (q, m)) = bytes_at q m - bytes_at p n"
proof -
  have q: "unat q < 2 ^ 64" "unat m < 2 ^ 64" using unat_less_2p [of q] unat_less_2p [of m] by simp_all
  have u: "unat (of_nat (min (unat m) (unat p - unat q)) :: u64) = min (unat m) (unat p - unat q)" using q by (intro unat_of_nat_small) simp
  have v: "unat (of_nat (max (unat q) (unat p + unat n)) :: u64) = max (unat q) (unat p + unat n)" using q assms by (intro unat_of_nat_small) simp
  have "unat q + unat m - max (unat q) (unat p + unat n) \<le> unat m" by simp
  then have w: "unat (of_nat (unat q + unat m - max (unat q) (unat p + unat n)) :: u64) = unat q + unat m - max (unat q) (unat p + unat n)"
    using q(2) by (intro unat_of_nat_small) simp
  show ?thesis unfolding ranges_set_def cut_range_def by (auto simp: bytes_at_def u v w)
qed

lemma ranges_unmap: "unat p + unat n < 2 ^ 64 \<Longrightarrow> ranges_set (snd (ranges_munmap p n rs)) = ranges_set rs - bytes_at p n"
proof (induction rs)
  case (Cons r rs)
  obtain q m where r: "r = (q, m)" by fastforce
  have "ranges_set (snd (ranges_munmap p n (r # rs))) = ranges_set (cut_range p n r) \<union> ranges_set (snd (ranges_munmap p n rs))"
    by (simp add: ranges_set_def ranges_munmap_def)
  also have "\<dots> = ranges_set (r # rs) - bytes_at p n" using Cons cut_range_bytes [OF Cons.prems] by (auto simp: r ranges_set_def)
  finally show ?case .
qed (simp add: ranges_set_def ranges_munmap_def)

interpretation linux: mapping_calls ranges_calls 4096 ranges_set
proof unfold_locales
  show "\<exists>k<64. (4096 :: nat) = 2 ^ k" by (rule exI [of _ 12]) simp
next
  fix n a p :: u64 and prot fd and s t :: ranges
  assume "sys_mmap ranges_calls a n prot DEFAULT_MMAP_FLAGS fd s = (p, t)"
  then have "p = - 1 \<and> t = s \<or> ranges_fit p n s \<and> t = (p, n) # s" by (auto simp: ranges_calls_def ranges_mmap_def Let_def split: if_splits)
  then show "p = - 1 \<and> ranges_set t = ranges_set s \<or>
    p \<noteq> - 1 \<and> p \<noteq> 0 \<and> 4096 dvd unat p \<and> unat p + unat n < 2 ^ 64 \<and> bytes_at p n \<inter> ranges_set s = {} \<and> ranges_set t = ranges_set s \<union> bytes_at p n"
    using ranges_fit_disjoint [of p n s] by (auto simp: ranges_fit_def ranges_set_def)
qed (simp add: ranges_calls_def ranges_unmap)

section \<open>Properties\<close>

text \<open>
  Any aligned range can be had by mapping its size and alignment together and trimming: exactly the bytes of the result stay mapped.
\<close>

theorem pages_map_trim_exact:
  assumes "0 < n" and "4096 dvd unat n" and "al = 2 ^ k" and "12 \<le> k" and "k < 63" and "unat n + 2 ^ k < 2 ^ 64"
    and "pages_map ranges_calls 0 (n + al) commit PagesMmap_new s = Some (p, c, t)" and "p \<noteq> 0"
  shows "\<exists>q u. pages_trim ranges_calls p (n + al) (align_up p al - p) n t = Some (q, u) \<and> unat al dvd unat q
    \<and> bytes_at q n \<inter> ranges_set s = {} \<and> ranges_set u = ranges_set s \<union> bytes_at q n"
proof -
  have "(2 :: nat) ^ 12 \<le> 2 ^ k" using assms(4) by (rule power_increasing) simp
  then have "4096 \<le> (2 :: nat) ^ k" "pm_mmap_flags PagesMmap_new = DEFAULT_MMAP_FLAGS" "unat al = 2 ^ k"
    using assms(3,5) by (simp_all add: PagesMmap_new_def unat_pow2)
  then show ?thesis by (metis linux.map_and_trim_aligned [OF assms(1-3,5) _ assms(6) _ assms(7,8)])
qed

theorem pages_map_trim_exact_witness:
  "\<exists>q u. pages_trim ranges_calls 0x14000 0x14000 (align_up 0x14000 0x10000 - 0x14000) 0x4000 [(0x14000, 0x14000), (0x10000, 0x4000)] = Some (q, u)
    \<and> unat (0x10000 :: u64) dvd unat q \<and> bytes_at q 0x4000 \<inter> ranges_set [(0x10000, 0x4000)] = {}
    \<and> ranges_set u = ranges_set [(0x10000, 0x4000)] \<union> bytes_at q 0x4000"
proof -
  have m: "pages_map ranges_calls 0 (0x4000 + 0x10000) False PagesMmap_new [(0x10000, 0x4000)] = Some (0x14000, True, [(0x14000, 0x14000), (0x10000, 0x4000)])"
    by (simp add: pages_map_def PagesMmap_new_def ranges_calls_def ranges_mmap_def ranges_fit_def ranges_top_def nat_align_up_def meets_def)
  show ?thesis using pages_map_trim_exact [OF _ _ _ _ _ _ m, of 16] by simp
qed

text \<open>
  With the default \<open>os_overcommits_\<close> committing and decommitting do nothing and report failure.
\<close>

lemma pages_commit_default: "pages_commit sys a n PagesMmap_new s = (True, s)" "pages_decommit sys a n PagesMmap_new s = (True, s)"
  by (simp_all add: pages_commit_def pages_decommit_def pages_commit_impl_def PagesMmap_new_def)

end
