(* ===== verification/SharedMonotonic.thy ===== *)
theory SharedMonotonic
  imports MonotonicMemory SamplerRun
begin

text \<open>
  \<open>SharedMonotonicBufferResource\<close> of \<open>mm/memory_resource\<close>: a monotonic resource for any number of threads, which keeps one
  \<open>ExclusiveMonotonicBufferResource\<close> per thread in an \<open>EnumerableThreadLocal\<close>.

  An element of the storage is the thread's resource together with the arrays it has put into its own pages. The registry of thread
  identifiers belongs to the element type and is passed beside the object; \<open>t\<close> is the calling thread.
\<close>

section \<open>The code\<close>

type_synonym ('p, 'u, 'd) em_cell = "('p, 'u) ExclusiveMonotonicBufferResource \<times> 'd em_heap"

record ('p, 'u, 's) SharedMonotonicBufferResource =
  sm_page_allocator :: 'p
  sm_upstream :: 'u
  sm_resources :: 's

type_synonym ('p, 'u, 's, 't, 'w) sm_state = "(u16, 't) thread_ids \<times> ('p, 'u, 's) SharedMonotonicBufferResource \<times> 'w"

text \<open>A call on \<open>_resources.local()\<close>.\<close>

definition sm_on_local ::
  "(u16, 't) array_ops \<Rightarrow> (('p, 'u, 'd) em_cell, 's) array \<Rightarrow> nat \<Rightarrow> (('p, 'u, 'd, 'w) em_state \<Rightarrow> ('a \<times> ('p, 'u, 'd, 'w) em_state) option) \<Rightarrow>
     ('p, 'u, 's, 't, 'w) sm_state \<Rightarrow> ('a \<times> ('p, 'u, 's, 't, 'w) sm_state) option" where
  "sm_on_local tops ga t f = (\<lambda>(ids, this, w). do {
     (i, ids, s) \<leftarrow> etl_local tops ga t ids (sm_resources this);
     (r, h) \<leftarrow> ga_load ga i s;
     (x, r, h, w) \<leftarrow> f (r, h, w);
     s \<leftarrow> ga_store ga i (r, h) s;
     Some (x, ids, this\<lparr>sm_resources := s\<rparr>, w) })"

definition sm_allocate ::
  "(u16, 't) array_ops \<Rightarrow> (('p, 'u, 'd) em_cell, 's) array \<Rightarrow> ('p, 'u, 'w) mem_source \<Rightarrow> nat \<Rightarrow> u64 \<Rightarrow> u64 \<Rightarrow>
     ('p, 'u, 's, 't, 'w) sm_state \<Rightarrow> (u64 \<times> ('p, 'u, 's, 't, 'w) sm_state) option" where
  "sm_allocate tops ga env t bytes alignment = sm_on_local tops ga t (em_allocate env bytes alignment)"

definition sm_register_destructor ::
  "(u16, 't) array_ops \<Rightarrow> (('p, 'u, 'd) em_cell, 's) array \<Rightarrow> ('p, 'u, 'w) mem_source \<Rightarrow> nat \<Rightarrow> u64 \<Rightarrow> 'd \<Rightarrow>
     ('p, 'u, 's, 't, 'w) sm_state \<Rightarrow> (unit \<times> ('p, 'u, 's, 't, 'w) sm_state) option" where
  "sm_register_destructor tops ga env t ptr destructor = sm_on_local tops ga t (\<lambda>s. map_option (Pair ()) (register_destructor env ptr destructor s))"

definition sm_get_destroy_task ::
  "(u16, 't) array_ops \<Rightarrow> (('p, 'u, 'd) em_cell, 's) array \<Rightarrow> ('p, 'u, 'w) mem_source \<Rightarrow> nat \<Rightarrow>
     ('p, 'u, 's, 't, 'w) sm_state \<Rightarrow> ((u64 \<times> nat) \<times> ('p, 'u, 's, 't, 'w) sm_state) option" where
  "sm_get_destroy_task tops ga env t = sm_on_local tops ga t (get_destroy_task env)"

text \<open>
  \<open>_resources.for_each\<close> with a callback that walks its segment from \<open>iter\<close> to \<open>end\<close> and calls \<open>f\<close> on every element: the segments
  together are the elements from 0 on, in order.
\<close>

fun update_each :: "('a, 's) array \<Rightarrow> ('a \<Rightarrow> 'x \<Rightarrow> ('a \<times> 'x) option) \<Rightarrow> nat list \<Rightarrow> 's \<Rightarrow> 'x \<Rightarrow> ('s \<times> 'x) option" where
  "update_each ga f [] s x = Some (s, x)"
| "update_each ga f (i # is) s x = do {
     a \<leftarrow> ga_load ga (of_nat i) s;
     (a, x) \<leftarrow> f a x;
     s \<leftarrow> ga_store ga (of_nat i) a s;
     update_each ga f is s x }"

definition etl_for_each_with :: "('a, 's) array \<Rightarrow> ('a \<Rightarrow> 'x \<Rightarrow> ('a \<times> 'x) option) \<Rightarrow> (u16, 't) thread_ids \<Rightarrow> 's \<Rightarrow> 'x \<Rightarrow> ('s \<times> 'x) option" where
  "etl_for_each_with ga f tids s x = do {
     sz \<leftarrow> ga_size ga s;
     update_each ga f [0..<unat (etl_end tids sz)] s x }"

text \<open>The two callbacks of \<open>release\<close>, with the destructors they call appended to \<open>calls\<close>.\<close>

definition destruct_cell :: "('p, 'u, 'd) em_cell \<Rightarrow> 'd DestroyTask list \<times> 'w \<Rightarrow> (('p, 'u, 'd) em_cell \<times> 'd DestroyTask list \<times> 'w) option" where
  "destruct_cell = (\<lambda>(r, h) (calls, w). do { (more, r, h, w) \<leftarrow> destruct_all (r, h, w); Some ((r, h), calls @ more, w) })"

definition release_cell ::
  "('p, 'u, 'w) mem_source \<Rightarrow> ('p, 'u, 'd) em_cell \<Rightarrow> 'd DestroyTask list \<times> 'w \<Rightarrow> (('p, 'u, 'd) em_cell \<times> 'd DestroyTask list \<times> 'w) option" where
  "release_cell env = (\<lambda>(r, h) (calls, w). do { (more, r, h, w) \<leftarrow> em_release env (r, h, w); Some ((r, h), calls @ more, w) })"

definition sm_release ::
  "(('p, 'u, 'd) em_cell, 's) array \<Rightarrow> ('p, 'u, 'w) mem_source \<Rightarrow> ('p, 'u, 's, 't, 'w) sm_state \<Rightarrow>
     ('d DestroyTask list \<times> ('p, 'u, 's, 't, 'w) sm_state) option" where
  "sm_release ga env = (\<lambda>(ids, this, w). do {
     (s, calls, w) \<leftarrow> etl_for_each_with ga destruct_cell ids (sm_resources this) ([], w);
     (s, calls, w) \<leftarrow> etl_for_each_with ga (release_cell env) ids s (calls, w);
     Some (calls, ids, this\<lparr>sm_resources := s\<rparr>, w) })"

text \<open>\<open>contains\<close>: the \<open>break\<close> leaves the segment only, the next segment is searched all the same.\<close>

fun contains_segment :: "('p, 'u, 'w) mem_source \<Rightarrow> u64 \<Rightarrow> 'w \<Rightarrow> ('p, 'u, 'd) em_cell list \<Rightarrow> bool \<Rightarrow> bool option" where
  "contains_segment env ptr w [] result = Some result"
| "contains_segment env ptr w ((r, h) # cells) result = do {
     found \<leftarrow> em_contains env ptr (r, h, w);
     if found then Some True else contains_segment env ptr w cells result }"

fun contains_segments :: "('p, 'u, 'w) mem_source \<Rightarrow> u64 \<Rightarrow> 'w \<Rightarrow> ('p, 'u, 'd) em_cell list list \<Rightarrow> bool \<Rightarrow> bool option" where
  "contains_segments env ptr w [] result = Some result"
| "contains_segments env ptr w (seg # segs) result = do {
     result \<leftarrow> contains_segment env ptr w seg result;
     contains_segments env ptr w segs result }"

definition sm_contains :: "(('p, 'u, 'd) em_cell, 's) array \<Rightarrow> ('p, 'u, 'w) mem_source \<Rightarrow> u64 \<Rightarrow> ('p, 'u, 's, 't, 'w) sm_state \<Rightarrow> bool option" where
  "sm_contains ga env ptr = (\<lambda>(ids, this, w). do {
     segs \<leftarrow> etl_for_each_const ga ids (sm_resources this);
     contains_segments env ptr w segs False })"

definition sm_space_used :: "(('p, 'u, 'd) em_cell, 's) array \<Rightarrow> ('p, 'u, 's, 't, 'w) sm_state \<Rightarrow> u64 option" where
  "sm_space_used ga = (\<lambda>(ids, this, w). do {
     segs \<leftarrow> etl_for_each_const ga ids (sm_resources this);
     Some (fold (fold (\<lambda>(r, h) result. result + em_space_used r)) segs 0) })"

definition sm_space_allocated :: "(('p, 'u, 'd) em_cell, 's) array \<Rightarrow> ('p, 'u, 's, 't, 'w) sm_state \<Rightarrow> u64 option" where
  "sm_space_allocated ga = (\<lambda>(ids, this, w). do {
     segs \<leftarrow> etl_for_each_const ga ids (sm_resources this);
     Some (fold (fold (\<lambda>(r, h) result. result + em_space_allocated r)) segs 0) })"

text \<open>
  The constructor of the elements: a default resource (\<open>dpa\<close>, \<open>dup\<close>: \<open>SystemPageAllocator::instance()\<close> and \<open>new_delete_resource()\<close>)
  with both sources set. It leaves the same value whenever it runs, so it is evaluated once, with its assertion, when it is registered.
  \<open>set_constructor\<close> of the storage is an argument, \<open>setc\<close>.
\<close>

definition sm_construct_cell ::
  "('p, 'u, 'w) mem_source \<Rightarrow> 'p \<Rightarrow> 'u \<Rightarrow> 'd em_heap \<Rightarrow> ('p, 'u, 's, 't, 'w) sm_state \<Rightarrow> ('p, 'u, 'd) em_cell option" where
  "sm_construct_cell env dpa dup h0 = (\<lambda>(ids, this, w). do {
     (r, h, w) \<leftarrow> em_set_page_allocator env (sm_page_allocator this) (em_new dpa dup, h0, w);
     r \<leftarrow> em_set_upstream (sm_upstream this) r;
     Some (r, h) })"

definition register_thread_constructor ::
  "(('p, 'u, 'd) em_cell, 's) array \<Rightarrow> (('p, 'u, 'd) em_cell option \<Rightarrow> 's \<Rightarrow> 's option) \<Rightarrow> ('p, 'u, 'w) mem_source \<Rightarrow> 'p \<Rightarrow> 'u \<Rightarrow> 'd em_heap \<Rightarrow>
     ('p, 'u, 's, 't, 'w) sm_state \<Rightarrow> ('p, 'u, 's, 't, 'w) sm_state option" where
  "register_thread_constructor ga setc env dpa dup h0 = (\<lambda>(ids, this, w). do {
     allocated \<leftarrow> sm_space_allocated ga (ids, this, w);
     if allocated \<noteq> 0 then None
     else do {
       cell \<leftarrow> sm_construct_cell env dpa dup h0 (ids, this, w);
       s \<leftarrow> setc (Some cell) (sm_resources this);
       Some (ids, this\<lparr>sm_resources := s\<rparr>, w) } })"

definition sm_set_page_allocator ::
  "(('p, 'u, 'd) em_cell, 's) array \<Rightarrow> (('p, 'u, 'd) em_cell option \<Rightarrow> 's \<Rightarrow> 's option) \<Rightarrow> ('p, 'u, 'w) mem_source \<Rightarrow> 'p \<Rightarrow> 'u \<Rightarrow> 'd em_heap \<Rightarrow> 'p \<Rightarrow>
     ('p, 'u, 's, 't, 'w) sm_state \<Rightarrow> ('p, 'u, 's, 't, 'w) sm_state option" where
  "sm_set_page_allocator ga setc env dpa dup h0 page_allocator = (\<lambda>(ids, this, w).
     if sm_page_allocator this \<noteq> page_allocator
     then register_thread_constructor ga setc env dpa dup h0 (ids, this\<lparr>sm_page_allocator := page_allocator\<rparr>, w)
     else Some (ids, this, w))"

definition sm_set_upstream ::
  "(('p, 'u, 'd) em_cell, 's) array \<Rightarrow> (('p, 'u, 'd) em_cell option \<Rightarrow> 's \<Rightarrow> 's option) \<Rightarrow> ('p, 'u, 'w) mem_source \<Rightarrow> 'p \<Rightarrow> 'u \<Rightarrow> 'd em_heap \<Rightarrow> 'u \<Rightarrow>
     ('p, 'u, 's, 't, 'w) sm_state \<Rightarrow> ('p, 'u, 's, 't, 'w) sm_state option" where
  "sm_set_upstream ga setc env dpa dup h0 upstream = (\<lambda>(ids, this, w).
     if sm_upstream this \<noteq> upstream
     then register_thread_constructor ga setc env dpa dup h0 (ids, this\<lparr>sm_upstream := upstream\<rparr>, w)
     else Some (ids, this, w))"

text \<open>Default construction (\<open>s0\<close>: the storage of default-constructed elements), and construction over a page allocator.\<close>

definition sm_new :: "'p \<Rightarrow> 'u \<Rightarrow> 's \<Rightarrow> ('p, 'u, 's) SharedMonotonicBufferResource" where
  "sm_new dpa dup s0 = \<lparr>sm_page_allocator = dpa, sm_upstream = dup, sm_resources = s0\<rparr>"

definition sm_construct ::
  "(('p, 'u, 'd) em_cell, 's) array \<Rightarrow> (('p, 'u, 'd) em_cell option \<Rightarrow> 's \<Rightarrow> 's option) \<Rightarrow> ('p, 'u, 'w) mem_source \<Rightarrow> 'p \<Rightarrow> 'u \<Rightarrow> 'd em_heap \<Rightarrow> 's \<Rightarrow> 'p \<Rightarrow>
     (u16, 't) thread_ids \<times> 'w \<Rightarrow> ('p, 'u, 's, 't, 'w) sm_state option" where
  "sm_construct ga setc env dpa dup h0 s0 page_allocator =
     (\<lambda>(ids, w). sm_set_page_allocator ga setc env dpa dup h0 page_allocator (ids, sm_new dpa dup s0, w))"

text \<open>The defaulted moves: the pointers are copied, the storages change places (a new one \<open>s0\<close> in a move construction).\<close>

definition sm_move_assign ::
  "('p, 'u, 's) SharedMonotonicBufferResource \<Rightarrow> ('p, 'u, 's) SharedMonotonicBufferResource \<Rightarrow>
     ('p, 'u, 's) SharedMonotonicBufferResource \<times> ('p, 'u, 's) SharedMonotonicBufferResource" where
  "sm_move_assign this other =
     (this\<lparr>sm_page_allocator := sm_page_allocator other, sm_upstream := sm_upstream other, sm_resources := sm_resources other\<rparr>,
      other\<lparr>sm_resources := sm_resources this\<rparr>)"

definition sm_move_construct ::
  "'s \<Rightarrow> ('p, 'u, 's) SharedMonotonicBufferResource \<Rightarrow> ('p, 'u, 's) SharedMonotonicBufferResource \<times> ('p, 'u, 's) SharedMonotonicBufferResource" where
  "sm_move_construct s0 other = (other, other\<lparr>sm_resources := s0\<rparr>)"

end
