(* ===== verification/SharedMonotonicSpec.thy ===== *)
theory SharedMonotonicSpec
  imports SharedMonotonic "HOL-Library.Multiset"
begin

text \<open>
  The shared monotonic resource: whatever threads do with it, what they are given is theirs alone, and \<open>release\<close> calls every
  registered destructor and returns every block. It is verified over the contracts of the storage (\<open>thread_storage\<close>) and of the memory
  (\<open>memory_source\<close>), and interpreted on the concurrent vector and on the page heap.
\<close>

section \<open>Programs\<close>

datatype 'd sm_op = SmAllocate nat u64 u64 | SmRegister nat u64 'd | SmExit nat

fun sm_cmds :: "'d sm_op list \<Rightarrow> 'd em_op list" where
  "sm_cmds [] = []"
| "sm_cmds (SmAllocate t bytes alignment # ops) = Allocate bytes alignment # sm_cmds ops"
| "sm_cmds (SmRegister t ptr destructor # ops) = Register ptr destructor # sm_cmds ops"
| "sm_cmds (SmExit t # ops) = sm_cmds ops"

text \<open>The thread starts of a program in which the threads of \<open>L\<close> are running.\<close>

fun sm_starts :: "nat set \<Rightarrow> 'd sm_op list \<Rightarrow> nat" where
  "sm_starts L [] = 0"
| "sm_starts L (SmAllocate t bytes alignment # ops) = (if t \<in> L then sm_starts L ops else Suc (sm_starts (insert t L) ops))"
| "sm_starts L (SmRegister t ptr destructor # ops) = (if t \<in> L then sm_starts L ops else Suc (sm_starts (insert t L) ops))"
| "sm_starts L (SmExit t # ops) = sm_starts (L - {t}) ops"

fun sm_run ::
  "(u16, 't) array_ops \<Rightarrow> (('p, 'u, 'd) em_cell, 's) array \<Rightarrow> ('p, 'u, 'w) mem_source \<Rightarrow> 'd sm_op list \<Rightarrow> (u64 \<times> u64 \<times> u64) list \<Rightarrow>
     ('p, 'u, 's, 't, 'w) sm_state \<Rightarrow> ((u64 \<times> u64 \<times> u64) list \<times> ('p, 'u, 's, 't, 'w) sm_state) option" where
  "sm_run tops ga env [] got S = Some (got, S)"
| "sm_run tops ga env (SmAllocate t bytes alignment # ops) got S = do {
     (p, S) \<leftarrow> sm_allocate tops ga env t bytes alignment S;
     sm_run tops ga env ops ((p, bytes, alignment) # got) S }"
| "sm_run tops ga env (SmRegister t ptr destructor # ops) got S = do {
     (_, S) \<leftarrow> sm_register_destructor tops ga env t ptr destructor S;
     sm_run tops ga env ops got S }"
| "sm_run tops ga env (SmExit t # ops) got (ids, this, w) = do {
     ids \<leftarrow> ThreadId_destroy tops t ids;
     sm_run tops ga env ops got (ids, this, w) }"

section \<open>The invariant\<close>

text \<open>Page arrays, oversize arrays, task arrays and regions in use of one cell.\<close>

type_synonym 'd chains = "(u64 \<times> u64 list) list \<times> (u64 \<times> OversizePage list) list \<times> (u64 \<times> 'd DestroyTask list) list \<times> (nat \<times> nat) list"

definition chain_own :: "'d chains \<Rightarrow> block set" where "chain_own = (\<lambda>(ps, os, ts, us). set (own ps os))"
definition chain_pages :: "'d chains \<Rightarrow> u64 list" where "chain_pages = (\<lambda>(ps, os, ts, us). entries ps)"
definition chain_tasks :: "'d chains \<Rightarrow> 'd DestroyTask list" where "chain_tasks = (\<lambda>(ps, os, ts, us). entries ts)"
definition chain_uses :: "'d chains \<Rightarrow> (nat \<times> nat) list" where "chain_uses = (\<lambda>(ps, os, ts, us). us)"
definition chain_untasked :: "'d chains \<Rightarrow> 'd chains" where "chain_untasked = (\<lambda>(ps, os, ts, us). (ps, os, [], us))"

lemmas chain_defs = chain_own_def chain_pages_def chain_tasks_def chain_uses_def chain_untasked_def

section \<open>Walking the cells\<close>

lemma update_each_snoc: "update_each ga f (is @ [i]) s x = do {
    (s, x) \<leftarrow> update_each ga f is s x;
    a \<leftarrow> ga_load ga (of_nat i) s;
    (a, x) \<leftarrow> f a x;
    s \<leftarrow> ga_store ga (of_nat i) a s;
    Some (s, x) }"
  by (induction "is" arbitrary: s x) (simp_all add: split_def)

context thread_storage
begin

lemma etl_for_each_with_ok:
  fixes ids :: "(u16, 't) thread_ids"
  assumes ok: "etl_ok b ids s" and step: "\<And>i v x. i < reach ids s \<Longrightarrow> I i v x \<Longrightarrow> \<exists>a x'. f (v i) x = Some (a, x') \<and> I (Suc i) (v(i := a)) x'"
    and start: "I 0 (lval s) x"
  obtains s' x' where "etl_for_each_with ga f ids s x = Some (s', x')" and "etl_ok b ids s'" and "reach ids s' = reach ids s" and "I (reach ids s) (lval s') x'"
proof -
  have d: "linvar s" "llen s \<le> MAX_THREADS" using ok by (simp_all add: etl_ok_def)
  have "unat (ThreadId_end ids) < 2 ^ 16" using unat_less_2p [of "ThreadId_end ids"] by simp
  then have small: "reach ids s < 2 ^ 16" by (simp add: reach_def min_less_iff_disj)
  have "k \<le> reach ids s \<Longrightarrow> \<exists>s' x'. update_each ga f [0..<k] s x = Some (s', x') \<and> etl_ok b ids s' \<and> llen s' = llen s \<and> I k (lval s') x'" for k
  proof (induction k)
    case 0
    then show ?case using ok start by simp
  next
    case (Suc k)
    then obtain s1 x1 where 1: "update_each ga f [0..<k] s x = Some (s1, x1)" "etl_ok b ids s1" "llen s1 = llen s" "I k (lval s1) x1" by auto
    from step [OF _ 1(4)] Suc.prems obtain a x2 where 2: "f (lval s1 k) x1 = Some (a, x2)" "I (Suc k) ((lval s1)(k := a)) x2" by auto
    have u: "unat (of_nat k :: u64) = k" using Suc.prems small by (intro unat_of_nat_small) simp
    have k: "unat (of_nat k :: u64) < reach ids s1" unfolding u using Suc.prems 1(3) by (simp add: reach_def)
    from etl_load_store(2) [OF 1(2) k, of a] obtain s2 where
      3: "ga_store ga (of_nat k) a s1 = Some s2" "etl_ok b ids s2" "lval s2 = (lval s1)(k := a)" "llen s2 = llen s1" unfolding u by blast
    show ?case using 1 2 3 etl_load_store(1) [OF 1(2) k] u by (simp add: update_each_snoc)
  qed
  from this [of "reach ids s"] obtain s' x' where
    r: "update_each ga f [0..<reach ids s] s x = Some (s', x')" "etl_ok b ids s'" "llen s' = llen s" "I (reach ids s) (lval s') x'" by blast
  have e: "unat (etl_end ids (of_nat (llen s))) = reach ids s" using etl_end_eq [OF d(2)] by (simp add: reach_def)
  show thesis using that [OF _ r(2) _ r(4)] r(1,3) line.size(1) [OF d(1)] e by (simp add: etl_for_each_with_def reach_def)
qed

end

section \<open>The contract\<close>

locale shared_memory =
  cells: thread_storage tops tinvar tlen tval ga linvar llen lval lbound "(em_new pa up, h0)" +
  mem: memory_source env pa up psz invar blocks room
  for tops :: "(u16, 't) array_ops" and tinvar tlen tval and ga :: "(('p, 'u, 'd) em_cell, 's) array" and linvar llen lval lbound
    and env :: "('p, 'u, 'w) mem_source" and pa up psz invar blocks room and h0
begin

definition cell_ok :: "'w \<Rightarrow> ('p, 'u, 'd) em_cell \<Rightarrow> 'd chains \<Rightarrow> block set \<Rightarrow> bool" where
  "cell_ok w = (\<lambda>(r, h) (ps, os, ts, us) B. mem.em_ok (r, h, w) ps os ts us B)"

text \<open>The cells own pairwise disjoint sets of blocks, which with the blocks \<open>B\<close> of others are all there are.\<close>

definition owners_ok :: "'w \<Rightarrow> (nat \<Rightarrow> ('p, 'u, 'd) em_cell) \<Rightarrow> (nat \<Rightarrow> 'd chains) \<Rightarrow> block set \<Rightarrow> bool" where
  "owners_ok w v C B \<longleftrightarrow> invar w \<and> (\<forall>n. cell_ok w (v n) (C n) (blocks w - chain_own (C n)))
     \<and> (\<forall>m n. m \<noteq> n \<longrightarrow> chain_own (C m) \<inter> chain_own (C n) = {})
     \<and> blocks w = B \<union> (\<Union>n. chain_own (C n)) \<and> (\<forall>n. chain_own (C n) \<inter> B = {})"

lemma owners_okD:
  assumes "owners_ok w v C B"
  shows "invar w" "\<And>n. cell_ok w (v n) (C n) (blocks w - chain_own (C n))" "\<And>m n. m \<noteq> n \<Longrightarrow> chain_own (C m) \<inter> chain_own (C n) = {}"
    "blocks w = B \<union> (\<Union>n. chain_own (C n))" "\<And>n. chain_own (C n) \<inter> B = {}"
  using assms unfolding owners_ok_def by - (elim conjE, iprover)+

lemma cell_okD:
  assumes "cell_ok w c X B"
  shows "invar w" "blocks w = chain_own X \<union> B" "chain_own X \<inter> B = {}"
  using assms by (auto simp: cell_ok_def chain_own_def mem.em_ok_def split: prod.splits)

lemma cell_frame:
  assumes "cell_ok w c X B" and "invar w'" and "chain_own X \<subseteq> blocks w'"
  shows "cell_ok w' c X (blocks w' - chain_own X)"
  using assms by (auto simp: cell_ok_def chain_own_def mem.em_ok_def split: prod.splits)

text \<open>A cell that changes what it owns leaves the others alone.\<close>

lemma owners_step:
  assumes ok: "owners_ok w v C B" and c: "cell_ok w' c X (blocks w - chain_own (C n))"
  shows "owners_ok w' (v(n := c)) (C(n := X)) B"
proof -
  note d = ok [unfolded owners_ok_def]
  note e = cell_okD [OF c]
  have sub: "chain_own (C m) \<subseteq> blocks w - chain_own (C n)" if "m \<noteq> n" for m using d that by auto
  have "cell_ok w' (v m) (C m) (blocks w' - chain_own (C m))" if "m \<noteq> n" for m
    using d sub [OF that] e by (intro cell_frame [of w]) auto
  moreover have "cell_ok w' c X (blocks w' - chain_own X)" using cell_frame [OF c e(1)] e(2) by simp
  moreover have "chain_own (C m) \<inter> chain_own X = {}" if "m \<noteq> n" for m using sub [OF that] e(3) by auto
  moreover have "blocks w' = B \<union> (\<Union>m. chain_own ((C(n := X)) m))"
  proof -
    have "blocks w - chain_own (C n) = B \<union> (\<Union>m\<in>- {n}. chain_own (C m))" using d by auto
    moreover have "(\<Union>m. chain_own ((C(n := X)) m)) = chain_own X \<union> (\<Union>m\<in>- {n}. chain_own (C m))" by (auto split: if_splits)
    ultimately show ?thesis using e(2) by auto
  qed
  moreover have "B \<subseteq> blocks w - chain_own (C n)" using d by auto
  then have "chain_own X \<inter> B = {}" using e(3) by auto
  ultimately show ?thesis unfolding owners_ok_def using d e(1) by (auto simp: Int_commute)
qed

lemma uses_apart:
  assumes ok: "owners_ok w v C B" and u: "u \<in> set (chain_uses (C m))" "u' \<in> set (chain_uses (C n))" and ne: "m \<noteq> n"
  shows "apart u u'"
proof -
  note d = owners_okD [OF ok]
  have "\<exists>b\<in>chain_own (C k). inside x (region psz b)" if "x \<in> set (chain_uses (C k))" for x k
  proof -
    obtain ps os ts us r h where e: "C k = (ps, os, ts, us)" "v k = (r, h)" by (metis prod.exhaust)
    have "carved psz (set (own ps os)) us" using d(2) [of k] unfolding e cell_ok_def by (simp add: mem.em_ok_def)
    then show ?thesis using that unfolding e chain_defs carved_def by simp
  qed
  then obtain b b' where b: "b \<in> chain_own (C m)" "inside u (region psz b)" "b' \<in> chain_own (C n)" "inside u' (region psz b')" using u by meson
  have "b \<noteq> b'" "b \<in> blocks w" "b' \<in> blocks w" using b(1,3) d(3) [OF ne] d(4) by auto
  then have "apart (region psz b) (region psz b')" by (intro mem.blocks_apart [OF d(1)])
  then show ?thesis using b(2,4) by (rule apart_inside)
qed

lemma reach_less: "cells.reach (ids :: (u16, 't) thread_ids) s < 2 ^ 16"
  using unat_less_2p [of "ThreadId_end ids"] by (simp add: cells.reach_def min_less_iff_disj)

lemma on_local_ok:
  assumes ok: "cells.etl_ok (if cells.alive ids t then b else Suc b) ids (sm_resources this)" and own: "owners_ok w (lval (sm_resources this)) C B"
    and f: "\<And>r h X B. cell_ok w (r, h) X B \<Longrightarrow> \<exists>x r' h' w' X'. f (r, h, w) = Some (x, r', h', w') \<and> cell_ok w' (r', h') X' B \<and> Q x X X' w'"
  obtains x ids' s w' n X where "sm_on_local tops ga t f (ids, this, w) = Some (x, ids', this\<lparr>sm_resources := s\<rparr>, w')"
    and "cells.etl_ok b ids' s" and "owners_ok w' (lval s) (C(n := X)) B" and "n < 2 ^ 16" and "Q x (C n) X w'"
    and "Collect (cells.alive ids') = insert t (Collect (cells.alive ids))"
proof -
  obtain i ids' s where
    l: "etl_local tops ga t ids (sm_resources this) = Some (i, ids', s)" "cells.etl_ok b ids' s" "lval s = lval (sm_resources this)"
      "unat i < cells.reach ids' s" "cells.alive ids' = (\<lambda>u. u = t \<or> cells.alive ids u)"
    by (rule cells.etl_local_ok [OF ok])
  obtain r h where rh: "lval s (unat i) = (r, h)" by fastforce
  have "cell_ok w (r, h) (C (unat i)) (blocks w - chain_own (C (unat i)))" using own rh l(3) by (metis owners_ok_def)
  from f [OF this] obtain x r' h' w' X where
    x: "f (r, h, w) = Some (x, r', h', w')" "cell_ok w' (r', h') X (blocks w - chain_own (C (unat i)))" "Q x (C (unat i)) X w'" by blast
  from cells.etl_load_store(2) [OF l(2,4), of "(r', h')"] obtain s' where
    s': "ga_store ga i (r', h') s = Some s'" "cells.etl_ok b ids' s'" "lval s' = (lval s)(unat i := (r', h'))" by blast
  have "sm_on_local tops ga t f (ids, this, w) = Some (x, ids', this\<lparr>sm_resources := s'\<rparr>, w')"
    using l(1) cells.etl_load_store(1) [OF l(2,4)] rh x(1) s'(1) by (simp add: sm_on_local_def)
  moreover have "owners_ok w' (lval s') (C(unat i := X)) B" unfolding s'(3) l(3) using own x(2) by (rule owners_step)
  moreover have "unat i < 2 ^ 16" using l(4) reach_less by (rule less_trans)
  moreover have "Collect (cells.alive ids') = insert t (Collect (cells.alive ids))" using l(5) by auto
  ultimately show thesis using that s'(2) x(3) by blast
qed

section \<open>Operations\<close>

lemma cell_allocate:
  assumes "cell_ok w (r, h) X B" and "0 < unat bytes" "unat bytes \<le> 2 ^ 62" and "j \<le> 62" and "em_cost psz (unat bytes) (2 ^ j) \<le> room w"
  shows "\<exists>q r' h' w' X'. em_allocate env bytes (2 ^ j) (r, h, w) = Some (q, r', h', w') \<and> cell_ok w' (r', h') X' B
    \<and> chain_tasks X' = chain_tasks X \<and> (\<exists>ms. chain_uses X' = (unat q, unat bytes) # ms @ chain_uses X) \<and> 2 ^ j dvd unat q
    \<and> room w \<le> room w' + em_cost psz (unat bytes) (2 ^ j)"
proof -
  obtain ps os ts us where X: "X = (ps, os, ts, us)" by (cases X)
  have ok: "mem.em_ok (r, h, w) ps os ts us B" using assms(1) by (simp add: X cell_ok_def)
  from mem.em_allocate_ok [OF ok assms(2-5)] obtain q r' h' w' ps' os' ms where
    "em_allocate env bytes (2 ^ j) (r, h, w) = Some (q, r', h', w')" "mem.em_ok (r', h', w') ps' os' ts ((unat q, unat bytes) # ms @ us) B" "2 ^ j dvd unat q"
    "room w \<le> room w' + em_cost psz (unat bytes) (2 ^ j)" by blast
  then show ?thesis
    by (intro exI [of _ q] exI [of _ r'] exI [of _ h'] exI [of _ w'] exI [of _ "(ps', os', ts, (unat q, unat bytes) # ms @ us)"]) (simp add: X cell_ok_def chain_defs)
qed

lemma cell_register:
  assumes "cell_ok w (r, h) X B" and "em_cost psz 248 8 \<le> room w"
  shows "\<exists>x r' h' w' X'. map_option (Pair ()) (register_destructor env ptr f (r, h, w)) = Some (x, r', h', w') \<and> cell_ok w' (r', h') X' B
    \<and> chain_tasks X' = \<lparr>dt_ptr = ptr, dt_destructor = f\<rparr> # chain_tasks X \<and> (\<exists>ms. chain_uses X' = ms @ chain_uses X)
    \<and> room w \<le> room w' + em_cost psz 248 8"
proof -
  obtain ps os ts us where X: "X = (ps, os, ts, us)" by (cases X)
  have ok: "mem.em_ok (r, h, w) ps os ts us B" using assms(1) by (simp add: X cell_ok_def)
  from mem.register_ok [OF ok assms(2), of ptr f] obtain r' h' w' ps' os' ts' ms where
    "register_destructor env ptr f (r, h, w) = Some (r', h', w')" "mem.em_ok (r', h', w') ps' os' ts' (ms @ us) B"
    "entries ts' = \<lparr>dt_ptr = ptr, dt_destructor = f\<rparr> # entries ts" "room w \<le> room w' + em_cost psz 248 8" by blast
  then show ?thesis
    by (intro exI [of _ "()"] exI [of _ r'] exI [of _ h'] exI [of _ w'] exI [of _ "(ps', os', ts', ms @ us)"]) (simp add: X cell_ok_def chain_defs)
qed

text \<open>\<open>got\<close>: what the calls returned; \<open>tasks\<close>: the destructors registered.\<close>

definition got_ok :: "(nat \<Rightarrow> 'd chains) \<Rightarrow> (u64 \<times> u64 \<times> u64) list \<Rightarrow> bool" where
  "got_ok C got \<longleftrightarrow> sorted_wrt apart (got_regions got) \<and> (\<forall>u\<in>set (got_regions got). \<exists>n. u \<in> set (chain_uses (C n)))
     \<and> (\<forall>p n a. (p, n, a) \<in> set got \<longrightarrow> unat a dvd unat p)"

definition tasks_ok :: "(nat \<Rightarrow> 'd chains) \<Rightarrow> 'd DestroyTask list \<Rightarrow> bool" where
  "tasks_ok C tasks \<longleftrightarrow> mset tasks = (\<Sum>n<2 ^ 16. mset (chain_tasks (C n)))"

definition sm_ok where
  "sm_ok b = (\<lambda>(ids, this, w) C B got tasks. cells.etl_ok b ids (sm_resources this) \<and> owners_ok w (lval (sm_resources this)) C B \<and> got_ok C got \<and> tasks_ok C tasks)"

lemma got_ok_grow:
  assumes "got_ok C got" and "chain_uses X = ms @ chain_uses (C n)"
  shows "got_ok (C(n := X)) got"
  using assms by (fastforce simp: got_ok_def)

lemma got_ok_new:
  assumes got: "got_ok C got" and X: "chain_uses X = (unat q, unat bytes) # ms @ chain_uses (C n)" and own: "owners_ok w v (C(n := X)) B" and al: "unat a dvd unat q"
  shows "got_ok (C(n := X)) ((q, bytes, a) # got)"
proof -
  have "cell_ok w (v n) X (blocks w - chain_own X)" using own by (metis owners_ok_def fun_upd_same)
  then have srt: "sorted_wrt apart (chain_uses X)" by (auto simp: cell_ok_def chain_defs mem.em_ok_def carved_def split: prod.splits)
  have "apart (unat q, unat bytes) u" if "u \<in> set (got_regions got)" for u
  proof -
    obtain m where m: "u \<in> set (chain_uses (C m))" using got \<open>u \<in> _\<close> by (auto simp: got_ok_def)
    show ?thesis
    proof (cases "m = n")
      case True
      then show ?thesis using srt m by (simp add: X)
    next
      case False
      have "(unat q, unat bytes) \<in> set (chain_uses ((C(n := X)) n))" "u \<in> set (chain_uses ((C(n := X)) m))" using m False by (simp_all add: X)
      then show ?thesis using uses_apart [OF own] False by blast
    qed
  qed
  moreover have "got_ok (C(n := X)) got" by (rule got_ok_grow [OF got, of X "(unat q, unat bytes) # ms"]) (simp add: X)
  moreover have "\<exists>m. (unat q, unat bytes) \<in> set (chain_uses ((C(n := X)) m))" by (rule exI [of _ n]) (simp add: X)
  ultimately show ?thesis using al unfolding got_ok_def got_regions_def by simp
qed

lemma tasks_ok_upd:
  assumes "tasks_ok C tasks" and "n < 2 ^ 16" and "chain_tasks X = ns @ chain_tasks (C n)"
  shows "tasks_ok (C(n := X)) (ns @ tasks)"
proof -
  have n: "n \<in> {..<2 ^ 16}" using assms(2) by simp
  have "(\<Sum>k<2 ^ 16. mset (chain_tasks ((C(n := X)) k))) = mset (chain_tasks X) + (\<Sum>k\<in>{..<2 ^ 16} - {n}. mset (chain_tasks (C k)))"
    by (subst sum.remove [OF _ n]) simp_all
  also have "\<dots> = mset ns + (\<Sum>k<2 ^ 16. mset (chain_tasks (C k)))" by (subst sum.remove [OF _ n]) (simp_all add: assms(3))
  finally show ?thesis using assms(1) by (simp add: tasks_ok_def)
qed

lemma sm_run_ok:
  assumes "sm_ok (sm_starts (Collect (cells.alive ids)) ops) (ids, this, w) C B got tasks" and "list_all em_op_ok (sm_cmds ops)"
    and "sum_list (map (em_op_cost psz) (sm_cmds ops)) + c \<le> room w"
  shows "\<exists>got' ids' this' w' C'. sm_run tops ga env ops got (ids, this, w) = Some (got', ids', this', w')
    \<and> sm_ok 0 (ids', this', w') C' B got' (rev (registered (sm_cmds ops)) @ tasks) \<and> c \<le> room w'
    \<and> map snd got' = rev (requested (sm_cmds ops)) @ map snd got"
  using assms
proof (induction ops arbitrary: ids this w C got tasks)
  case Nil
  then show ?case by auto
next
  case (Cons op ops)
  show ?case
  proof (cases op)
    case (SmAllocate t bytes a)
    obtain j where j: "j \<le> 62" "a = 2 ^ j" and n: "0 < unat bytes" "unat bytes \<le> 2 ^ 62" using Cons.prems(2) SmAllocate by auto
    have uj: "unat a = 2 ^ j" using j by (simp add: unat_pow2)
    have rm: "em_cost psz (unat bytes) (2 ^ j) \<le> room w" using Cons.prems(3) SmAllocate uj by simp
    let ?b = "sm_starts (insert t (Collect (cells.alive ids))) ops"
    have A: "cells.etl_ok (if cells.alive ids t then ?b else Suc ?b) ids (sm_resources this)" "owners_ok w (lval (sm_resources this)) C B"
      "got_ok C got" "tasks_ok C tasks" using Cons.prems(1) by (auto simp: sm_ok_def SmAllocate insert_absorb)
    obtain q ids' s w' m X where
      o: "sm_on_local tops ga t (em_allocate env bytes (2 ^ j)) (ids, this, w) = Some (q, ids', this\<lparr>sm_resources := s\<rparr>, w')" "cells.etl_ok ?b ids' s"
        "owners_ok w' (lval s) (C(m := X)) B" "m < 2 ^ 16"
        "chain_tasks X = chain_tasks (C m) \<and> (\<exists>ms. chain_uses X = (unat q, unat bytes) # ms @ chain_uses (C m)) \<and> 2 ^ j dvd unat q
          \<and> room w \<le> room w' + em_cost psz (unat bytes) (2 ^ j)"
        "Collect (cells.alive ids') = insert t (Collect (cells.alive ids))"
      by (rule on_local_ok [where f = "em_allocate env bytes (2 ^ j)", OF A(1,2) cell_allocate [OF _ n j(1) rm]])
    from o(5) obtain ms where ms: "chain_uses X = (unat q, unat bytes) # ms @ chain_uses (C m)" by blast
    have "got_ok (C(m := X)) ((q, bytes, a) # got)" using o(5) uj by (intro got_ok_new [OF A(3) ms o(3)]) simp
    moreover have "tasks_ok (C(m := X)) tasks" using tasks_ok_upd [OF A(4) o(4), of X "[]"] o(5) by simp
    ultimately have sm: "sm_ok (sm_starts (Collect (cells.alive ids')) ops) (ids', this\<lparr>sm_resources := s\<rparr>, w') (C(m := X)) B ((q, bytes, a) # got) tasks"
      using o(2,3,6) by (simp add: sm_ok_def)
    have k: "list_all em_op_ok (sm_cmds ops)" "sum_list (map (em_op_cost psz) (sm_cmds ops)) + c \<le> room w'"
      using Cons.prems(2,3) o(5) SmAllocate uj by simp_all
    from Cons.IH [OF sm k] show ?thesis using o(1) j(2) by (simp add: SmAllocate sm_allocate_def)
  next
    case (SmRegister t ptr f)
    have rm: "em_cost psz 248 8 \<le> room w" using Cons.prems(3) SmRegister by simp
    let ?b = "sm_starts (insert t (Collect (cells.alive ids))) ops"
    have A: "cells.etl_ok (if cells.alive ids t then ?b else Suc ?b) ids (sm_resources this)" "owners_ok w (lval (sm_resources this)) C B"
      "got_ok C got" "tasks_ok C tasks" using Cons.prems(1) by (auto simp: sm_ok_def SmRegister insert_absorb)
    let ?task = "\<lparr>dt_ptr = ptr, dt_destructor = f\<rparr>"
    obtain x ids' s w' m X where
      o: "sm_on_local tops ga t (\<lambda>s. map_option (Pair ()) (register_destructor env ptr f s)) (ids, this, w) = Some (x, ids', this\<lparr>sm_resources := s\<rparr>, w')"
        "cells.etl_ok ?b ids' s" "owners_ok w' (lval s) (C(m := X)) B" "m < 2 ^ 16"
        "chain_tasks X = ?task # chain_tasks (C m) \<and> (\<exists>ms. chain_uses X = ms @ chain_uses (C m)) \<and> room w \<le> room w' + em_cost psz 248 8"
        "Collect (cells.alive ids') = insert t (Collect (cells.alive ids))"
      by (rule on_local_ok [where f = "\<lambda>s. map_option (Pair ()) (register_destructor env ptr f s)", OF A(1,2) cell_register [OF _ rm]])
    have "got_ok (C(m := X)) got" using o(5) got_ok_grow [OF A(3)] by blast
    moreover have "tasks_ok (C(m := X)) (?task # tasks)" using tasks_ok_upd [OF A(4) o(4), of X "[?task]"] o(5) by simp
    ultimately have sm: "sm_ok (sm_starts (Collect (cells.alive ids')) ops) (ids', this\<lparr>sm_resources := s\<rparr>, w') (C(m := X)) B got (?task # tasks)"
      using o(2,3,6) by (simp add: sm_ok_def)
    have k: "list_all em_op_ok (sm_cmds ops)" "sum_list (map (em_op_cost psz) (sm_cmds ops)) + c \<le> room w'"
      using Cons.prems(2,3) o(5) SmRegister by simp_all
    from Cons.IH [OF sm k] show ?thesis using o(1) by (simp add: SmRegister sm_register_destructor_def)
  next
    case (SmExit t)
    let ?b = "sm_starts (Collect (cells.alive ids) - {t}) ops"
    have a: "cells.etl_ok ?b ids (sm_resources this)" using Cons.prems(1) by (simp add: sm_ok_def SmExit)
    obtain ids' where 1: "ThreadId_destroy tops t ids = Some ids'" "cells.etl_ok ?b ids' (sm_resources this)" "cells.alive ids' = (\<lambda>u. u \<noteq> t \<and> cells.alive ids u)"
      by (rule cells.etl_exit_ok [OF a])
    have "Collect (cells.alive ids') = Collect (cells.alive ids) - {t}" using 1(3) by auto
    then have "sm_ok (sm_starts (Collect (cells.alive ids')) ops) (ids', this, w) C B got tasks" using 1(2) Cons.prems(1) by (simp add: sm_ok_def)
    from Cons.IH [OF this] show ?thesis using Cons.prems(2,3) 1(1) by (simp add: SmExit)
  qed
qed

section \<open>Release\<close>

lemma tasks_of_default: "cell_ok w (em_new pa up, h) X B \<Longrightarrow> chain_tasks X = [] \<and> chain_own X = {}"
proof -
  obtain ps os ts us where X: "X = (ps, os, ts, us)" by (cases X)
  assume "cell_ok w (em_new pa up, h) X B"
  then have "achain (pget h) 0 0 ps" "achain (oget h) 0 0 os" "achain (tget h) 0 0 ts"
    by (simp_all add: X cell_ok_def mem.em_ok_def em_chains_def em_new_def)
  then have "ps = []" "os = []" "ts = []" using achain_0 by blast+
  then show ?thesis by (simp add: X chain_defs own_def)
qed

lemma cell_destruct:
  assumes "cell_ok w c X B"
  shows "\<exists>c'. destruct_cell c (calls, w) = Some (c', calls @ chain_tasks X, w) \<and> cell_ok w c' (chain_untasked X) B"
proof -
  obtain ps os ts us r h where e: "X = (ps, os, ts, us)" "c = (r, h)" by (metis prod.exhaust)
  have ok: "mem.em_ok (r, h, w) ps os ts us B" using assms by (simp add: e cell_ok_def)
  note d = mem.em_okD [OF ok]
  let ?r = "r\<lparr>em_last_destroy_task_array := 0, em_last_destroy_task_pointer := 0\<rparr>"
  have "destruct_all (r, h, w) = Some (entries ts, ?r, h, w)" using d(4) by (intro mem.destruct_all_ok) (simp add: em_chains_def)
  moreover have "em_ptrs ?r ps us psz = em_ptrs r ps us psz" by (simp add: em_ptrs_def)
  then have "mem.em_ok (?r, h, w) ps os [] us B" using ok by (auto simp: mem.em_ok_def em_chains_def em_arrays_def)
  ultimately show ?thesis by (intro exI [of _ "(?r, h)"]) (simp add: e destruct_cell_def cell_ok_def chain_defs)
qed

lemma cell_release:
  assumes "cell_ok w c X B" and "chain_tasks X = []" and "length (chain_pages X) \<le> room w"
  shows "\<exists>c' w'. release_cell env c (calls, w) = Some (c', calls, w') \<and> cell_ok w' c' ([], [], [], []) B \<and> room w \<le> room w' + length (chain_pages X)"
proof -
  obtain ps os ts us r h where e: "X = (ps, os, ts, us)" "c = (r, h)" by (metis prod.exhaust)
  have ok: "mem.em_ok (r, h, w) ps os ts us B" and l: "length (entries ps) \<le> room w" and t: "entries ts = []"
    using assms by (simp_all add: e cell_ok_def chain_defs)
  from mem.em_release_ok [OF ok l] obtain r' h' w' where
    "em_release env (r, h, w) = Some (entries ts, r', h', w')" "room w \<le> room w' + length (entries ps)" "mem.em_ok (r', h', w') [] [] [] [] B" by blast
  then show ?thesis using t by (intro exI [of _ "(r', h')"] exI [of _ w']) (simp add: e release_cell_def cell_ok_def chain_defs)
qed

text \<open>No thread owns a page twice, so all pages together fit into the address space.\<close>

lemma pages_total:
  assumes ok: "owners_ok w v C B"
  shows "(\<Sum>n<N. length (chain_pages (C n))) \<le> 2 ^ 64 div psz"
proof -
  note d = owners_okD [OF ok]
  have c: "distinct (chain_pages (C n)) \<and> Page ` set (chain_pages (C n)) \<subseteq> chain_own (C n)" for n
  proof -
    obtain ps os ts us r h where e: "C n = (ps, os, ts, us)" "v n = (r, h)" by (metis prod.exhaust)
    have "distinct (own ps os)" using d(2) [of n] unfolding e cell_ok_def by (simp add: mem.em_ok_def)
    then show ?thesis by (auto simp: e chain_defs own_def distinct_map)
  qed
  have disj: "set (chain_pages (C m)) \<inter> set (chain_pages (C n)) = {}" if "m \<noteq> n" for m n using d(3) [OF that] c [of m] c [of n] by auto
  have "(\<Sum>n<N. length (chain_pages (C n))) = (\<Sum>n<N. card (set (chain_pages (C n))))" using c by (simp add: distinct_card)
  also have "\<dots> = card (\<Union>n<N. set (chain_pages (C n)))" using disj by (intro card_UN_disjoint [symmetric]) auto
  also have "\<dots> \<le> 2 ^ 64 div psz"
    by (rule mem.page_set_bounded [OF d(1)]) (use c d(4) in \<open>fastforce simp: image_subset_iff\<close>)
  finally show ?thesis .
qed

text \<open>The chains when the first \<open>i\<close> cells have been visited: by the first walk, and by the second.\<close>

definition walked1 :: "nat \<Rightarrow> (nat \<Rightarrow> 'd chains) \<Rightarrow> nat \<Rightarrow> 'd chains" where
  "walked1 i C n = (if n < i then chain_untasked (C n) else C n)"

definition walked2 :: "nat \<Rightarrow> (nat \<Rightarrow> 'd chains) \<Rightarrow> nat \<Rightarrow> 'd chains" where
  "walked2 i C n = (if n < i then ([], [], [], []) else C n)"

lemma walked_Suc: "walked1 (Suc i) C = (walked1 i C)(i := chain_untasked (C i))" "walked2 (Suc i) C = (walked2 i C)(i := ([], [], [], []))"
  by (auto simp: walked1_def walked2_def fun_eq_iff)

lemma untasked_simps [simp]: "chain_own (chain_untasked X) = chain_own X" "chain_pages (chain_untasked X) = chain_pages X" "chain_tasks (chain_untasked X) = []"
  by (auto simp: chain_defs split: prod.splits)

lemma destruct_walk:
  assumes "cells.etl_ok b ids s" and "owners_ok w (lval s) C B"
  obtains s' where "etl_for_each_with ga destruct_cell ids s ([], w) = Some (s', concat (map (\<lambda>n. chain_tasks (C n)) [0..<cells.reach ids s]), w)"
    and "cells.etl_ok b ids s'" and "cells.reach ids s' = cells.reach ids s" and "owners_ok w (lval s') (walked1 (cells.reach ids s) C) B"
proof -
  define I where "I i v x \<longleftrightarrow> snd x = w \<and> fst x = concat (map (\<lambda>n. chain_tasks (C n)) [0..<i]) \<and> owners_ok w v (walked1 i C) B" for i v x
  have step: "\<exists>a x'. destruct_cell (v i) x = Some (a, x') \<and> I (Suc i) (v(i := a)) x'" if i: "I i v x" for i v x
  proof -
    obtain calls where x: "x = (calls, w)" "calls = concat (map (\<lambda>n. chain_tasks (C n)) [0..<i])" using i by (cases x) (auto simp: I_def)
    have own: "owners_ok w v (walked1 i C) B" using i by (simp add: I_def)
    have c: "cell_ok w (v i) (C i) (blocks w - chain_own (C i))" using owners_okD(2) [OF own, of i] by (simp add: walked1_def)
    from cell_destruct [OF c, of calls] obtain c' where c': "destruct_cell (v i) (calls, w) = Some (c', calls @ chain_tasks (C i), w)"
      "cell_ok w c' (chain_untasked (C i)) (blocks w - chain_own (C i))" by blast
    have "owners_ok w (v(i := c')) (walked1 (Suc i) C) B" unfolding walked_Suc using c'(2) by (intro owners_step [OF own]) (simp add: walked1_def)
    then show ?thesis using c'(1) x by (intro exI [of _ c'] exI [of _ "(calls @ chain_tasks (C i), w)"]) (simp add: I_def)
  qed
  have "I 0 (lval s) ([], w)" using assms(2) by (simp add: I_def walked1_def [abs_def])
  from cells.etl_for_each_with_ok [where I = I and f = destruct_cell, OF assms(1) step this] obtain s' x' where
    "etl_for_each_with ga destruct_cell ids s ([], w) = Some (s', x')" "cells.etl_ok b ids s'" "cells.reach ids s' = cells.reach ids s" "I (cells.reach ids s) (lval s') x'" .
  then show thesis using that by (cases x') (simp add: I_def)
qed

lemma release_walk:
  assumes ok: "cells.etl_ok b ids s" and own: "owners_ok w (lval s) C B" and t: "\<And>n. n < cells.reach ids s \<Longrightarrow> chain_tasks (C n) = []"
    and rm: "2 ^ 64 div psz \<le> room w"
  obtains s' w' where "etl_for_each_with ga (release_cell env) ids s (calls, w) = Some (s', calls, w')"
    and "cells.etl_ok b ids s'" and "owners_ok w' (lval s') (walked2 (cells.reach ids s) C) B"
proof -
  let ?N = "cells.reach ids s"
  define I where "I i v x \<longleftrightarrow> fst x = calls \<and> owners_ok (snd x) v (walked2 i C) B \<and> (\<Sum>n\<in>{i..<?N}. length (chain_pages (C n))) \<le> room (snd x)" for i v x
  have step: "\<exists>a x'. release_cell env (v i) x = Some (a, x') \<and> I (Suc i) (v(i := a)) x'" if n: "i < ?N" and i: "I i v x" for i v x
  proof -
    obtain w1 where x: "x = (calls, w1)" using i by (cases x) (auto simp: I_def)
    have own1: "owners_ok w1 v (walked2 i C) B" and sum: "(\<Sum>n\<in>{i..<?N}. length (chain_pages (C n))) \<le> room w1" using i by (simp_all add: I_def x)
    have c: "cell_ok w1 (v i) (C i) (blocks w1 - chain_own (C i))" using owners_okD(2) [OF own1, of i] by (simp add: walked2_def)
    have split: "(\<Sum>n\<in>{i..<?N}. length (chain_pages (C n))) = length (chain_pages (C i)) + (\<Sum>n\<in>{Suc i..<?N}. length (chain_pages (C n)))"
      using n by (simp add: sum.atLeast_Suc_lessThan)
    then have "length (chain_pages (C i)) \<le> room w1" using sum by simp
    from cell_release [OF c t [OF n] this, of calls] obtain c' w2 where
      c': "release_cell env (v i) (calls, w1) = Some (c', calls, w2)" "cell_ok w2 c' ([], [], [], []) (blocks w1 - chain_own (C i))"
        "room w1 \<le> room w2 + length (chain_pages (C i))" by blast
    have "owners_ok w2 (v(i := c')) (walked2 (Suc i) C) B" unfolding walked_Suc using c'(2) by (intro owners_step [OF own1]) (simp add: walked2_def)
    then show ?thesis using c'(1,3) x sum split by (intro exI [of _ c'] exI [of _ "(calls, w2)"]) (simp add: I_def)
  qed
  have "(\<Sum>n\<in>{0..<?N}. length (chain_pages (C n))) \<le> room w" using pages_total [OF own, of ?N] rm by (simp add: atLeast0LessThan)
  then have "I 0 (lval s) (calls, w)" using own by (simp add: I_def walked2_def [abs_def])
  from cells.etl_for_each_with_ok [where I = I and f = "release_cell env", OF ok step this] obtain s' x' where
    "etl_for_each_with ga (release_cell env) ids s (calls, w) = Some (s', x')" "cells.etl_ok b ids s'" "I ?N (lval s') x'" .
  then show thesis using that by (cases x') (simp add: I_def)
qed

lemma sm_release_ok:
  assumes ok: "sm_ok b (ids, this, w) C B got tasks" and rm: "2 ^ 64 div psz \<le> room w"
  obtains calls s w' where "sm_release ga env (ids, this, w) = Some (calls, ids, this\<lparr>sm_resources := s\<rparr>, w')" and "mset calls = mset tasks"
    and "invar w'" and "blocks w' = B" and "cells.etl_ok b ids s"
proof -
  let ?s = "sm_resources this"
  let ?N = "cells.reach ids ?s"
  have A: "cells.etl_ok b ids ?s" "owners_ok w (lval ?s) C B" "tasks_ok C tasks" using ok by (simp_all add: sm_ok_def)
  let ?calls = "concat (map (\<lambda>n. chain_tasks (C n)) [0..<?N])"
  obtain s1 where 1: "etl_for_each_with ga destruct_cell ids ?s ([], w) = Some (s1, ?calls, w)"
    "cells.etl_ok b ids s1" "cells.reach ids s1 = ?N" "owners_ok w (lval s1) (walked1 ?N C) B" by (rule destruct_walk [OF A(1,2)])
  have t: "\<And>n. n < cells.reach ids s1 \<Longrightarrow> chain_tasks (walked1 ?N C n) = []" by (simp add: 1(3) walked1_def)
  obtain s2 w2 where 2: "etl_for_each_with ga (release_cell env) ids s1 (?calls, w) = Some (s2, ?calls, w2)"
    "cells.etl_ok b ids s2" "owners_ok w2 (lval s2) (walked2 ?N (walked1 ?N C)) B" by (rule release_walk [OF 1(2,4) t rm, unfolded 1(3)])
  have rest: "chain_tasks (C n) = []" "chain_own (C n) = {}" if "?N \<le> n" for n
  proof -
    have "lval ?s n = (em_new pa up, h0)" using A(1) that by (simp add: cells.etl_ok_def)
    then show "chain_tasks (C n) = []" "chain_own (C n) = {}" using tasks_of_default owners_okD(2) [OF A(2), of n] by metis+
  qed
  have "mset ?calls = (\<Sum>n<?N. mset (chain_tasks (C n)))" by (simp add: mset_concat comp_def sum_list_distinct_conv_sum_set atLeast0LessThan)
  also have "\<dots> = (\<Sum>n<2 ^ 16. mset (chain_tasks (C n)))" using rest(1) reach_less [of ids ?s] by (intro sum.mono_neutral_left) auto
  finally have "mset ?calls = mset tasks" using A(3) by (simp add: tasks_ok_def)
  moreover have "chain_own (walked2 ?N (walked1 ?N C) n) = {}" for n
    using rest(2) [of n] by (cases "n < ?N") (simp_all add: walked2_def walked1_def chain_own_def own_def)
  then have "blocks w2 = B" using owners_okD(4) [OF 2(3)] by simp
  moreover have "sm_release ga env (ids, this, w) = Some (?calls, ids, this\<lparr>sm_resources := s2\<rparr>, w2)" using 1(1) 2(1) by (simp add: sm_release_def)
  ultimately show thesis using that 2(2) owners_okD(1) [OF 2(3)] by blast
qed

end

section \<open>Queries and construction\<close>

text \<open>\<open>contains\<close> asks the resources of all threads, in spite of the \<open>break\<close>.\<close>

lemma contains_segment_eq:
  assumes "\<And>r h. (r, h) \<in> set cells \<Longrightarrow> em_contains env ptr (r, h, w) = Some (P (r, h))"
  shows "contains_segment env ptr w cells result = Some (result \<or> (\<exists>c\<in>set cells. P c))"
  using assms
proof (induction cells)
  case (Cons c cells)
  then show ?case by (cases c) simp
qed simp

lemma contains_segments_eq:
  assumes "\<And>r h. (r, h) \<in> set (concat segs) \<Longrightarrow> em_contains env ptr (r, h, w) = Some (P (r, h))"
  shows "contains_segments env ptr w segs result = Some (result \<or> (\<exists>c\<in>set (concat segs). P c))"
  using assms
proof (induction segs arbitrary: result)
  case (Cons seg segs)
  have "contains_segment env ptr w seg result = Some (result \<or> (\<exists>c\<in>set seg. P c))" using Cons.prems by (intro contains_segment_eq) simp
  then show ?case using Cons.IH Cons.prems by (simp add: bex_Un disj_assoc)
qed simp

text \<open>The thread constructor gives every element both sources, if a page holds at least a page array.\<close>

lemma sm_construct_cell_eq:
  assumes "sizeof_PageArray \<le> ms_page_size env (sm_page_allocator this) w"
  shows "sm_construct_cell env dpa dup h0 (ids, this, w) = Some (em_new (sm_page_allocator this) (sm_upstream this), h0)"
  using assms by (simp add: sm_construct_cell_def em_set_page_allocator_def em_set_upstream_def em_new_def)

section \<open>The resource of the code\<close>

definition cell_new :: "'d em_heap \<Rightarrow> (unit, unit, 'd) em_cell" where
  "cell_new eh = (em_new () (), eh)"

interpretation shared: shared_memory "vector_ops (plain_env new_node 0) clock" "vec_invar (2 ^ 9) (plain_env new_node 0)" vec_len "vec_val (plain_env new_node 0)"
    "vec_array (plain_env new_node (cell_new eh)) clock" "vec_invar (2 ^ 9) (plain_env new_node (cell_new eh))" vec_len "vec_val (plain_env new_node (cell_new eh))" "128 * 2 ^ 9"
    "provider_source (PageHeap_ops ops sys) (ph_new ops) (ph_delete ops)" "()" "()" psz
    "\<lambda>s. ph_ok ops sys valid blocks room psz s \<and> page_range psz \<and> no_page psz (case s of (p, h) \<Rightarrow> heap_rest psz (blocks h))"
    "\<lambda>s. Page ` ph_out blocks psz s \<union> up_blocks (case s of (p, h) \<Rightarrow> heap_rest psz (blocks h))" "ph_room room" eh
  for new_node clock and eh :: "'d em_heap" and ops :: "'h heap_ops" and sys psz valid blocks room
  unfolding shared_memory_def thread_storage_def thread_storage_axioms_def
  by (intro conjI fv.free.free_next_array_axioms va16.growing_array_axioms phm.mem.memory_source_axioms) simp

text \<open>No thread has run, no resource exists.\<close>

definition sm_init :: "'d em_heap \<Rightarrow> PageHeap \<times> 'h \<Rightarrow> (unit, unit, (unit, unit, 'd) em_cell vec, u16 vec, PageHeap \<times> 'h) sm_state" where
  "sm_init eh w = (\<lparr>tid_allocator = IdAllocator_new (vec_new (Some 0)), tid_live = []\<rparr>, sm_new () () (vec_new (Some (cell_new eh))), w)"

lemma sm_init_ok:
  fixes eh :: "'d em_heap"
  assumes new: "new_node_spec (Suc (2 ^ 25)) new_node" and b: "b \<le> MAX_THREADS"
    and inv: "ph_ok ops sys valid blocks room psz (p, h) \<and> page_range psz \<and> no_page psz (case (p, h) of (p, h) \<Rightarrow> heap_rest psz (blocks h))"
  shows "shared.sm_ok new_node eh psz ops sys valid blocks room b (sm_init eh (p, h)) (\<lambda>_. ([], [], [], []))
    (Page ` ph_out blocks psz (p, h) \<union> up_blocks (case (p, h) of (p, h) \<Rightarrow> heap_rest psz (blocks h))) [] []"
proof -
  note v = vec_new_parts [OF new]
  let ?ids = "\<lparr>tid_allocator = IdAllocator_new (vec_new (Some 0)), tid_live = []\<rparr> :: (u16, u16 vec) thread_ids" and ?s = "vec_new (Some (cell_new eh))"
  have "fv.free.ids_ok (plain_env new_node 0) MAX_THREADS b (IdAllocator_new (vec_new (Some 0))) []"
    using b by (intro fv.free.ids_new [OF v(2)]) (simp_all add: MAX_THREADS_def)
  then have "shared.cells.etl_ok new_node eh b ?ids ?s"
    unfolding shared.cells.etl_ok_def fv.free.threads_ok_def by (simp add: v v(2) [simplified] cell_new_def)
  moreover have "shared.owners_ok psz ops sys valid blocks room (p, h) (vec_val (plain_env new_node (cell_new eh)) ?s) (\<lambda>_. ([], [], [], []))
      (Page ` ph_out blocks psz (p, h) \<union> up_blocks (case (p, h) of (p, h) \<Rightarrow> heap_rest psz (blocks h)))"
    using inv phm.mem.em_ok_new [OF inv, of eh]
    unfolding shared.owners_ok_def shared.cell_ok_def v(3) cell_new_def by (simp add: chain_defs own_def)
  ultimately show ?thesis unfolding shared.sm_ok_def sm_init_def prod.case
    by (simp add: sm_new_def shared.got_ok_def shared.tasks_ok_def got_regions_def chain_defs)
qed

text \<open>
  C7: A shared monotonic resource whose per-thread resources are over a page heap: whatever requests of 1 to \<open>2^62\<close> bytes, aligned to powers of two up to \<open>2^62\<close> (\<open>em_op_ok\<close>),
  any threads (fewer than \<open>2^16 - 128\<close> starts, also of threads that take over the identifier of one that has ended) make and whatever destructors they register, as long as
  the heap has the memory (\<open>room\<close>), every call returns; what it gave out is aligned as asked for and pairwise disjoint, across threads too; \<open>release\<close> calls every registered
  destructor once; and when then the page heap is destroyed, every block the two had allocated has been given back to the heap, once, and nothing else. Requests of
  zero bytes and requests close to \<open>2^64\<close> bytes are left out, because for them it is not so (\<open>zero_bytes_spoil_alignment\<close> and \<open>huge_request_wraps\<close> of theory \<open>MonotonicMemory\<close>). The program
  starts after the constructor has put the page heap into every per-thread resource (\<open>sm_init\<close>).
\<close>

theorem shared_monotonic_exclusive:
  fixes prog :: "'d sm_op list"
  assumes "heap_spec ops valid blocks room" and "valid h" and "bit_ceil_spec bc"
    and "unat sc \<le> 2 ^ 62" and "unat page_size \<le> 2 ^ 62" and "unat n \<le> 2 ^ 61" and "page_range (unat (bc page_size))"
    and "new_node_spec (Suc (2 ^ 25)) new_node" and "sm_starts {} prog \<le> MAX_THREADS" and "list_all em_op_ok (sm_cmds prog)"
    and "sum_list (map (em_op_cost (unat (bc page_size))) (sm_cmds prog)) + 2 ^ 64 div unat (bc page_size) \<le> room h"
    and "sum_list (map (em_op_cost (unat (bc page_size))) (sm_cmds prog)) + 2 ^ 64 div unat (bc page_size) + 3 * unat (bc n) < 2 ^ 64"
  shows "\<exists>p got S calls ids' this' p' h' h''. PageHeap_construct_sized bc (System_construct bc sc) n page_size = Some p
    \<and> sm_run (vector_ops (plain_env new_node 0) clock) (vec_array (plain_env new_node (cell_new eh)) clock) (heap_source ops (System_construct bc sc)) prog []
        (sm_init eh (p, h)) = Some (got, S)
    \<and> map snd got = rev (requested (sm_cmds prog)) \<and> (\<forall>p n a. (p, n, a) \<in> set got \<longrightarrow> unat a dvd unat p) \<and> sorted_wrt apart (got_regions got)
    \<and> sm_release (vec_array (plain_env new_node (cell_new eh)) clock) (heap_source ops (System_construct bc sc)) S = Some (calls, ids', this', p', h')
    \<and> mset calls = mset (registered (sm_cmds prog))
    \<and> PageHeap_destroy ops (System_construct bc sc) (p', h') = Some h'' \<and> blocks h'' = blocks h"
proof -
  let ?sys = "System_construct bc sc" and ?psz = "unat (bc page_size)" and ?tops = "vector_ops (plain_env new_node 0) clock"
    and ?ga = "vec_array (plain_env new_node (cell_new eh)) clock"
  obtain p where p: "PageHeap_construct_sized bc ?sys n page_size = Some p" "cache_pages (ph_cached_allocator p) = []"
    and inv: "ph_ok ops ?sys valid blocks room ?psz (p, h) \<and> page_range ?psz \<and> no_page ?psz (case (p, h) of (p, h) \<Rightarrow> heap_rest ?psz (blocks h))"
    and rm: "sum_list (map (em_op_cost ?psz) (sm_cmds prog)) + 2 ^ 64 div ?psz \<le> ph_room room (p, h)"
    by (rule page_heap_start [OF assms(1-7,11,12)])
  let ?B = "Page ` ph_out blocks ?psz (p, h) \<union> up_blocks (case (p, h) of (p, h) \<Rightarrow> heap_rest ?psz (blocks h))"
  obtain ids this where S: "sm_init eh (p, h) = (ids, this, p, h)" and live: "Collect (shared.cells.alive ids) = {}"
    by (simp add: sm_init_def shared.cells.alive_def)
  have ok: "shared.sm_ok new_node eh ?psz ops ?sys valid blocks room (sm_starts (Collect (shared.cells.alive ids)) prog) (ids, this, p, h) (\<lambda>_. ([], [], [], [])) ?B [] []"
    unfolding live by (rule sm_init_ok [OF assms(8,9) inv, of eh, unfolded S])
  from shared.sm_run_ok [OF ok assms(10) rm, of clock, folded heap_source_def, unfolded list.map(1) append_Nil2] obtain got ids1 this1 w1 C where
    r: "sm_run ?tops ?ga (heap_source ops ?sys) prog [] (ids, this, p, h) = Some (got, ids1, this1, w1)"
      "shared.sm_ok new_node eh ?psz ops ?sys valid blocks room 0 (ids1, this1, w1) C ?B got (rev (registered (sm_cmds prog)))"
      "2 ^ 64 div ?psz \<le> ph_room room w1" "map snd got = rev (requested (sm_cmds prog))" by blast
  have got: "sorted_wrt apart (got_regions got)" "\<forall>p n a. (p, n, a) \<in> set got \<longrightarrow> unat a dvd unat p"
    using r(2) unfolding shared.sm_ok_def prod.case shared.got_ok_def by blast+
  obtain calls s w2 where
    e: "sm_release ?ga (heap_source ops ?sys) (ids1, this1, w1) = Some (calls, ids1, this1\<lparr>sm_resources := s\<rparr>, w2)"
      "mset calls = mset (rev (registered (sm_cmds prog)))" "ph_ok ops ?sys valid blocks room ?psz w2 \<and> page_range ?psz
        \<and> no_page ?psz (case w2 of (p, h) \<Rightarrow> heap_rest ?psz (blocks h))"
      "Page ` ph_out blocks ?psz w2 \<union> up_blocks (case w2 of (p, h) \<Rightarrow> heap_rest ?psz (blocks h)) = ?B"
    by (rule shared.sm_release_ok [OF r(2,3), of clock, folded heap_source_def])
  obtain p' h' where w2: "w2 = (p', h')" by fastforce
  have held: "ph_ok ops ?sys valid blocks room ?psz (p', h')" "heap_held blocks ?psz (p', h') = heap_held blocks ?psz (p, h)"
    using e(3,4) by (simp_all add: w2 heap_held_def)
  obtain h'' where "PageHeap_destroy ops ?sys (p', h') = Some h''" "blocks h'' = blocks h" by (rule heap_returned [OF held p(2)])
  then show ?thesis using p(1) r(1,4) got e(1,2)
    by (intro exI [of _ p] exI [of _ got] exI [of _ "(ids1, this1, w1)"] exI [of _ calls] exI [of _ ids1] exI [of _ "this1\<lparr>sm_resources := s\<rparr>"]
        exI [of _ p'] exI [of _ h'] exI [of _ h'']) (simp add: S w2)
qed

definition sample_sm_prog :: "nat sm_op list" where
  "sample_sm_prog = [SmAllocate 1 100 8, SmRegister 1 4711 1, SmAllocate 2 5000 64, SmExit 1, SmAllocate 3 4000 16, SmRegister 2 4712 2]"

theorem shared_monotonic_exclusive_witness:
  "\<exists>p got S calls ids' this' p' h' h''. PageHeap_construct_sized bit_ceil_ref (System_construct bit_ceil_ref 4096) 8 4096 = Some p
    \<and> sm_run (vector_ops (plain_env (new_node_ref (Suc (2 ^ 25))) 0) of_nat) (vec_array (plain_env (new_node_ref (Suc (2 ^ 25))) (cell_new no_arrays)) of_nat)
        (heap_source bump_ops (System_construct bit_ceil_ref 4096)) sample_sm_prog [] (sm_init no_arrays (p, bump_init)) = Some (got, S)
    \<and> map snd got = rev (requested (sm_cmds sample_sm_prog)) \<and> sorted_wrt apart (got_regions got)
    \<and> sm_release (vec_array (plain_env (new_node_ref (Suc (2 ^ 25))) (cell_new no_arrays)) of_nat) (heap_source bump_ops (System_construct bit_ceil_ref 4096)) S
        = Some (calls, ids', this', p', h')
    \<and> mset calls = {#\<lparr>dt_ptr = 4711, dt_destructor = 1\<rparr>, \<lparr>dt_ptr = 4712, dt_destructor = 2\<rparr>#}
    \<and> PageHeap_destroy bump_ops (System_construct bit_ceil_ref 4096) (p', h') = Some h'' \<and> bh_blocks h'' = []"
proof -
  have bc: "unat (bit_ceil_ref (4096 :: u64)) = 4096" "unat (bit_ceil_ref (8 :: u64)) = 8" by (simp_all add: bit_ceil_ref_def)
  have n: "new_node_spec (Suc (2 ^ 25)) (new_node_ref (Suc (2 ^ 25)))" by (rule new_node_ref_spec) simp
  have "\<exists>j\<le>62. (8 :: u64) = 2 ^ j" "\<exists>j\<le>62. (64 :: u64) = 2 ^ j" "\<exists>j\<le>62. (16 :: u64) = 2 ^ j"
    by (rule exI [of _ 3], simp, rule exI [of _ 6], simp, rule exI [of _ 4], simp)
  then have ok: "list_all em_op_ok (sm_cmds sample_sm_prog)" by (simp add: sample_sm_prog_def)
  have cost: "sum_list (map (em_op_cost 4096) (sm_cmds sample_sm_prog)) = 93724" by (simp add: sample_sm_prog_def em_cost_def)
  have st: "sm_starts {} sample_sm_prog \<le> MAX_THREADS" by (simp add: sample_sm_prog_def MAX_THREADS_def)
  have reg: "registered (sm_cmds sample_sm_prog) = [\<lparr>dt_ptr = 4711, dt_destructor = 1\<rparr>, \<lparr>dt_ptr = 4712, dt_destructor = 2\<rparr>]"
    by (simp add: sample_sm_prog_def)
  note t = shared_monotonic_exclusive [where ops = bump_ops and h = bump_init and bc = bit_ceil_ref and sc = 4096 and page_size = 4096 and n = 8
      and prog = sample_sm_prog and eh = no_arrays and clock = of_nat, OF bump_heap_spec bump_init_valid bit_ceil_ref_spec _ _ _ _ n st ok]
  show ?thesis using t unfolding bc cost reg by (simp add: bump_room_def bump_init_def page_range_4096) metis
qed

end
