(* ===== verification/Spec2Isabelle.thy ===== *)
theory Spec2Isabelle
  imports Align RingBuffer FlatObjectQueue RingConcurrent FlatSignalQueue ShmDomain ThreadIds
    MonotonicMemory PageBatch CounterSums CounterMax SamplerRun
    ShmConf BlockLock XsiSegmentRun ShmArena Util PosixShm PagesMmap SharedMonotonicSpec
begin

text \<open>
  Verification of fuxi, a shared-memory transport between processes with its own concurrent containers, counters and memory
  resources (\<open>src/src/fuxi\<close>; all file names below are relative to that directory).

  \<^bold>\<open>The program.\<close> A writer process takes blocks of a shared \<^emph>\<open>segment\<close> for a message, wraps them in a reference counted
  \<^emph>\<open>object\<close> and pushes the object's address to the event queue of every process that reads the channel; the \<^emph>\<open>domain\<close>, a
  second piece of shared memory, keeps the channels, the readers and the queues. Below it lie the containers of \<open>base\<close>: a lock-free
  ring, an object pool on it, a bounded queue whose slots block on a futex, a growing vector, an identifier allocator on
  that, thread-local storage on both, and counters on top. \<open>mm\<close> holds page allocators (a cache of pages is a bounded queue) and
  a monotonic memory resource that cuts its memory from pages.

  \<^bold>\<open>Conventions.\<close> They are those of \<open>Prelude\<close>. A struct or class is a \<open>record\<close> with the members of the source, a method is
  a function from the object (and its arguments) to its result and the new object. Integers are words of the width of the source, so
  wrap-around and truncation are part of every definition. Undefined behaviour (an access outside an array, a null or dangling
  pointer) and a call that never returns are \<open>None\<close>; a theorem that a call is \<open>Some\<close> states memory safety and
  termination. Loops are \<open>partial_function (option)\<close>, recursion over a bound the code has, or
  \<open>function\<close> with a measure. The code of others is an argument: \<open>absl::bit_ceil\<close> (\<open>bit_ceil_spec\<close>, with
  \<open>bit_ceil_ref\<close> as an instance), operator new and delete (\<open>heap_spec\<close>, instance \<open>bump_ops\<close>), the System V calls
  (instance \<open>sysv_calls\<close>), POSIX shared memory (\<open>table_calls\<close>), \<open>mmap\<close> (locale \<open>mapping_calls\<close>), \<open>mprotect\<close>, \<open>mkdir\<close> and \<open>stat\<close>. Sizes and offsets that only the compiler knows
  are arguments too.

  \<^bold>\<open>Interfaces.\<close> One component uses another through a locale, which the provider's theory interprets on its definitions:
  \<^item> \<open>bulk_queue\<close> (theory \<open>BulkQueue\<close>): bulk operations that move all or nothing; provided by \<open>RteRing\<close> and
    \<open>RingBuffer\<close>, used by the object pool and the extents;
  \<^item> \<open>blocking_queue\<close> (\<open>BlockingQueue\<close>): single and batch operations, blocking and trying; provided by the bounded queue
    (\<open>BoundedQueueRefine\<close>), used by the signal queue and the page cache;
  \<^item> \<open>growing_array\<close> (\<open>VectorArray\<close>) and \<open>word_array\<close> (\<open>ThreadIds\<close>): arrays that grow; provided by
    the concurrent vector, used by the identifier allocator and the thread-local storages;
  \<^item> \<open>compact_storage\<close> (\<open>ThreadLocalSpec\<close>): a cell per thread and instance; provided by \<open>ThreadLocalVectors\<close>, used by the
    counters; \<open>thread_storage\<close> (\<open>SamplerRun\<close>): a cell per thread, used by the sampler;
  \<^item> page providers (\<open>PageProvider\<close>) and \<open>memory_source\<close> (\<open>MonotonicBufferSpec\<close>): allocators of pages, and
    pages together with an upstream resource; provided by the allocators of \<open>mm/page_allocator\<close> and the heap (\<open>PageHeaps\<close>,
    \<open>PageMemory\<close>), used by the monotonic buffer resource;
  \<^item> \<open>shared_memory\<close> (\<open>SharedMonotonicSpec\<close>): the two contracts \<open>thread_storage\<close> (\<open>SamplerRun\<close>) and \<open>memory_source\<close> together; provided by the
    concurrent vector and the page heap;
  \<^item> \<open>segment_port_contract\<close> and, extending it, \<open>segment_client\<close> (\<open>SegmentRun\<close>): what \<open>Segment\<close> needs of the system calls to find,
    create, attach and remove shared memory; provided by \<open>XsiSegment\<close> on a System V table (\<open>XsiSegmentRun\<close>).

  \<^bold>\<open>Theories and sources.\<close>
  \<^item> \<open>Align\<close>: \<open>base/new.h\<close>; \<open>StorageSchema\<close>: \<open>base/storage_schema.h\<close>; \<open>TimeUtil\<close>: \<open>common/time\<close>; \<open>Util\<close>: \<open>common/util\<close>.
  \<^item> \<open>RingCommon\<close>, \<open>RteRing\<close>, \<open>RingBuffer\<close>: \<open>base/ring_common\<close>, \<open>base/rte_ring\<close>, \<open>base/ring_buffer\<close> as one
    thread runs them: initialisation, the copies in and out, and that every run is that of a bounded FIFO list.
    \<open>RingConcurrent\<close>: \<open>DoEnqueue\<close> and \<open>DoDequeue\<close> as the atomic steps of any number of threads (sequentially
    consistent): FIFO in the order of the claims, nothing lost or doubled, and some thread can always go on.
  \<^item> \<open>FlatObjectQueue\<close>: \<open>base/flat_object_queue.h\<close>, with conservation of the pooled objects.
  \<^item> \<open>SlotFutex\<close>, \<open>BoundedQueue\<close>: \<open>base/bounded_queue\<close>. The futex word in all interleavings of waiters and setters
    (no lost wake-up, an untimed wait ends at the first matching word); every operation of the queue as one thread runs it. \<open>BoundedQueueSpec\<close>, \<open>BoundedQueueBatch\<close>,
    \<open>BoundedQueueCompensate\<close>, \<open>BoundedQueueRefine\<close>: the queue refines a bounded list; a call blocks exactly when the
    list cannot be changed. \<open>FlatSignalQueue\<close>: \<open>base/flat_signal_queue.h\<close>.
  \<^item> \<open>RetireList\<close>, \<open>ConcurrentVector\<close>, \<open>ConcurrentVectorSpec\<close>, \<open>ConcurrentVectorOps\<close>: \<open>base/vector\<close>: growth keeps
    addresses and values, retired tables are freed once and after their grace period, the destructors leave nothing behind after any calls, swaps and moves.
  \<^item> \<open>IdAllocator\<close>, \<open>IdAllocatorSpec\<close>, \<open>ThreadIds\<close>: \<open>base/id_allocator\<close>: identifiers in use are distinct, versioned ones for ever,
    and those of threads are used again, so they stay below the largest number of live threads.
  \<^item> \<open>ThreadLocal\<close>, \<open>ThreadLocalSpec\<close>, \<open>ThreadLocalVectors\<close>: \<open>base/thread_local.h\<close>. \<open>Counters\<close>,
    \<open>CounterSums\<close>, \<open>CounterMax\<close>, \<open>Sampler\<close>, \<open>SamplerBits\<close>, \<open>SamplerSpec\<close>, \<open>SamplerRun\<close>:
    \<open>base/counter\<close>: adders, summers, maxers and samplers against the lists of values recorded in the period (an
    adder must not be reset, moved or destroyed between the two halves of an addition).
  \<^item> \<open>PageAllocator\<close>, \<open>PageCache\<close>, \<open>PageProvider\<close>, \<open>PageHeaps\<close>, \<open>PageHeapRun\<close>, \<open>PageBatch\<close>: \<open>mm/page_allocator\<close>:
    pages handed out are distinct, and all are given back in the end. \<open>MonotonicBuffer\<close>, \<open>MonotonicBufferSpec\<close>,
    \<open>MonotonicBufferOps\<close>, \<open>MonotonicContains\<close>, \<open>PageMemory\<close>, \<open>MonotonicMemory\<close>: \<open>ExclusiveMonotonicBufferResource\<close>
    of \<open>mm/memory_resource\<close>: alignment, disjointness, destructors, release, \<open>contains\<close>. \<open>SharedMonotonic\<close>, \<open>SharedMonotonicSpec\<close>:
    \<open>SharedMonotonicBufferResource\<close>, one such resource per thread: the same across threads.
  \<^item> \<open>XsiShm\<close>: \<open>mm/port/xsi_shm\<close>; \<open>PosixShm\<close>: \<open>mm/port/posix_shm\<close>; \<open>PagesMmap\<close>: \<open>mm/port/pages_mmap\<close>; \<open>ShmObject\<close>: \<open>common/shm_object.h\<close>, \<open>common/message_header.h\<close>, \<open>shm/arena/shm_deleter.h\<close>;
    \<open>NameTable\<close>, \<open>TopoState\<close>: \<open>shm/topo/topo_state\<close>; \<open>DomainLayout\<close>, \<open>DomainLayoutSpec\<close>: \<open>shm/topo/process_state\<close>,
    \<open>shm/topo/domain_layout\<close>; \<open>ShmDomain\<close>: \<open>shm/topo/domain_metadata\<close>, \<open>shm/shm_domain\<close>: registration refines a list of
    channels, the queues are placed without overlap, and an event for a pushed object reaches every process with an online reader while its queue has room.
  \<^item> \<open>ShmConf\<close>: \<open>shm/impl/shm_conf\<close>; \<open>Extent\<close>, \<open>ExtentSpec\<close>, \<open>BlockLock\<close>: \<open>shm/impl/block\<close>, \<open>shm/impl/extent_metadata\<close>,
    \<open>shm/impl/extent\<close>: an initialised extent hands out every block once, with disjoint buffers inside the extent; the
    lock of a block excludes a writer and the readers from each other in all interleavings.
  \<^item> \<open>Segment\<close>, \<open>SegmentSpec\<close>, \<open>SegmentRun\<close>: \<open>shm/impl/segment_state\<close>, \<open>shm/impl/segment_metadata\<close>, \<open>shm/impl/segment\<close>;
    \<open>XsiSegment\<close>, \<open>XsiSegmentRun\<close>: \<open>shm/port/xsi_segment\<close> and \<open>ShmDomain::GetSegment\<close>: one process creates and lays out the
    segment, the others wait for it (a bounded number of sleeps) and see the same layout, the last one to leave removes it.
    \<open>ShmArena\<close>: \<open>shm/arena/shm_arena\<close>: the page allocator on the blocks of a segment.

  \<^bold>\<open>Bounds.\<close> Requests to a monotonic resource are of 1 to \<open>2^62\<close> bytes, aligned to powers of two up to \<open>2^62\<close>; others it does not serve correctly. Counters that wrap are safe up to the bounds the theorems name: rings of at most \<open>2^31\<close> objects; bounded queues as
  long as their 64-bit tickets do not wrap; extents of fewer than \<open>2^16\<close> blocks and 4 GiB of buffers; fewer than \<open>2^32\<close> users of a block or a segment;
  \<open>65408\<close> live threads (\<open>MAX_THREADS\<close>) and \<open>2^32 - 2\<close> instances of a
  counter (\<open>MAX_INSTANCES\<close>), after which an identifier type is exhausted. No model uses fuel that can run out: the retry bounds
  that occur (two attempts to open shared memory, 1001 sleeps of a process that waits for the creator of a segment) are those of the code.

  \<^bold>\<open>Concurrency.\<close> The ring, the futex word, the lock of a block and the additions of counters are interleaved at their atomic steps, under
  sequential consistency; the weaker orderings of the source are not distinguished. The other components are executed one call at a time: those
  of \<open>shm/topo\<close> hold a lock for the whole call; for the vector, the identifier allocator, the page allocators and the bounded queue as
  a whole this is the sequential part of the specification.

  \<^bold>\<open>Not modelled.\<close> \<open>base/string_view\<close> and the fallbacks for \<open>std::pmr\<close> (not compiled under C++17); \<open>base/type_traits\<close>,
  \<open>mm/allocator\<close> (type-level dispatch without state); \<open>base/pthread_rw_lock.h\<close>, \<open>base/sched_interface\<close> (wrappers of a system
  call; what they promise is part of the models above); \<open>mm/trick\<close> and \<open>SwissMemoryResource\<close> (protobuf internals);
  \<open>shm/shm_handle\<close>, \<open>shm/shm_manager\<close> and
  \<open>shm/impl/span\<close> (declarations and stubs that nothing calls); the protobuf objects that \<open>ShmArena::NewObject\<close> constructs; clocks, logging and printing.
\<close>

end
